(* ===== verification/Prelude.thy ===== *)
theory Prelude
  imports Main "HOL-Library.Word"
begin

text \<open>
  Shared vocabulary of the development: the machine integers of the crate as words, the
  saturating and checked arithmetic of the Rust standard library, little-endian byte
  serialisation, the crate's error type, and sequencing of fallible computations.  The
  collections \<open>u64_arith\<close> and \<open>res_simps\<close> gather the facts that the component theories hand
  to the simplifier.
\<close>

unbundle bit_operations_syntax

named_theorems u64_arith \<open>values of machine arithmetic read as natural numbers\<close>
named_theorems res_simps \<open>evaluation of fallible computations\<close>

type_synonym u8 = "8 word"
type_synonym u32 = "32 word"
type_synonym u64 = "64 word"
type_synonym bytes = "8 word list"


section \<open>Rust arithmetic on 64-bit words\<close>

abbreviation u64_max :: nat where
  "u64_max \<equiv> 18446744073709551615"

definition saturating_add :: "u64 \<Rightarrow> u64 \<Rightarrow> u64" where
  "saturating_add a b = (if unat a + unat b \<le> u64_max then a + b else - 1)"

definition saturating_sub :: "u64 \<Rightarrow> u64 \<Rightarrow> u64" where
  "saturating_sub a b = (if b \<le> a then a - b else 0)"

definition saturating_mul :: "u64 \<Rightarrow> u64 \<Rightarrow> u64" where
  "saturating_mul a b = (if unat a * unat b \<le> u64_max then a * b else - 1)"

definition checked_add :: "u64 \<Rightarrow> u64 \<Rightarrow> u64 option" where
  "checked_add a b = (if unat a + unat b \<le> u64_max then Some (a + b) else None)"

definition checked_sub :: "u64 \<Rightarrow> u64 \<Rightarrow> u64 option" where
  "checked_sub a b = (if b \<le> a then Some (a - b) else None)"

lemma unat_u64_max [simp]: "unat (- 1 :: u64) = u64_max"
  by (simp add: unsigned_minus_1_eq_mask mask_eq_exp_minus_1)

lemma unat_less_2_64 [simp]: "unat (a :: u64) < 18446744073709551616"
  using unsigned_less [of a] by simp

lemma unat_le_u64_max [simp]: "unat (a :: u64) \<le> u64_max"
  using unat_less_2_64 [of a] by linarith

lemma word_neq_0_unat: "w \<noteq> 0 \<longleftrightarrow> 0 < unat w"
  by (metis neq0_conv unsigned_0 word_unat_eq_iff)

lemma unat_add_u64 [u64_arith]:
  "unat a + unat b \<le> u64_max \<Longrightarrow> unat (a + b :: u64) = unat a + unat b"
  by (simp add: unat_word_ariths)

lemma unat_mult_u64 [u64_arith]:
  "unat a * unat b \<le> u64_max \<Longrightarrow> unat (a * b :: u64) = unat a * unat b"
  by (simp add: unat_word_ariths)

lemma unat_sub_u64 [u64_arith]:
  "unat b \<le> unat a \<Longrightarrow> unat (a - b :: u64) = unat a - unat b"
  by (simp add: unat_sub word_le_nat_alt)

lemma unat_saturating_add: "unat (saturating_add a b) = min (unat a + unat b) u64_max"
  by (auto simp: saturating_add_def u64_arith)

lemma unat_saturating_sub: "unat (saturating_sub a b) = unat a - unat b"
  by (auto simp: saturating_sub_def u64_arith word_le_nat_alt)

lemma unat_saturating_mul: "unat (saturating_mul a b) = min (unat a * unat b) u64_max"
  by (auto simp: saturating_mul_def u64_arith)

lemma checked_add_eq_Some:
  "checked_add a b = Some c \<longleftrightarrow> unat a + unat b \<le> u64_max \<and> c = a + b"
  by (auto simp: checked_add_def)

lemma checked_sub_eq_Some: "checked_sub a b = Some c \<longleftrightarrow> b \<le> a \<and> c = a - b"
  by (auto simp: checked_sub_def)

lemma unat_of_nat_u64 [u64_arith]: "n \<le> u64_max \<Longrightarrow> unat (of_nat n :: u64) = n"
  by (simp add: unat_of_nat take_bit_nat_eq_self)

lemma unat_add_nat:
  assumes "unat a + n \<le> u64_max"
  shows "unat (a + of_nat n :: u64) = unat a + n"
proof -
  have "n \<le> u64_max" using assms by linarith
  then show ?thesis using assms by (simp add: unat_add_u64 unat_of_nat_u64)
qed

lemma word_eq_unatI: "unat a = unat b \<Longrightarrow> a = b"
  by (simp add: word_unat_eq_iff)


section \<open>Little-endian serialisation\<close>

text \<open>\<open>to_le n w\<close> is the first \<open>n\<close> bytes of the little-endian form of \<open>w\<close>.\<close>

primrec to_le :: "nat \<Rightarrow> 'a::len word \<Rightarrow> bytes" where
  "to_le 0 w = []"
| "to_le (Suc n) w = ucast w # to_le n (drop_bit 8 w)"

primrec from_le :: "bytes \<Rightarrow> 'a::len word" where
  "from_le [] = 0"
| "from_le (b # bs) = ucast b OR push_bit 8 (from_le bs)"

definition to_le_bytes :: "u64 \<Rightarrow> bytes" where
  "to_le_bytes w = to_le 8 w"

definition from_le_bytes :: "bytes \<Rightarrow> u64" where
  "from_le_bytes bs = from_le bs"

lemma length_to_le [simp]: "length (to_le n w) = n"
  by (induction n arbitrary: w) simp_all

lemma bit_from_to_le:
  "bit (from_le (to_le n w) :: 'a::len word) k \<longleftrightarrow> k < 8 * n \<and> bit (w :: 'a word) k"
proof (induction n arbitrary: w k)
  case 0
  show ?case by simp
next
  case (Suc n)
  show ?case
  proof (cases "k < 8")
    case True
    then show ?thesis
      by (auto simp: bit_or_iff bit_push_bit_iff bit_ucast_iff dest: bit_imp_le_length)
  next
    case False
    then show ?thesis
      using Suc.IH [of "drop_bit 8 w" "k - 8"]
      by (auto simp: bit_or_iff bit_push_bit_iff bit_ucast_iff bit_drop_bit_eq
               dest: bit_imp_le_length)
  qed
qed

lemma from_to_le: "LENGTH('a) \<le> 8 * n \<Longrightarrow> from_le (to_le n w) = (w :: 'a::len word)"
  by (rule bit_eqI) (auto simp: bit_from_to_le dest: bit_imp_le_length)

lemma drop_bit_from_le_Cons:
  "8 \<le> LENGTH('a) \<Longrightarrow>
   ucast (from_le (b # bs) :: 'a::len word) = b"
  by (rule bit_eqI) (auto simp: bit_ucast_iff bit_or_iff bit_push_bit_iff dest: bit_imp_le_length)

lemma bit_from_le_bound:
  "bit (from_le bs :: 'a::len word) k \<Longrightarrow> k < 8 * length bs"
proof (induction bs arbitrary: k)
  case Nil
  then show ?case by simp
next
  case (Cons b bs)
  from Cons.prems have "k < 8 \<or> 8 \<le> k \<and> bit (from_le bs :: 'a word) (k - 8)"
    by (auto simp: bit_or_iff bit_push_bit_iff bit_ucast_iff dest: bit_imp_le_length)
  with Cons.IH [of "k - 8"] show ?case by auto
qed

lemma drop_bit_from_le:
  assumes "8 * length (b # bs) \<le> LENGTH('a)"
  shows "drop_bit 8 (from_le (b # bs) :: 'a::len word) = from_le bs"
proof (rule bit_eqI)
  fix k
  have "bit (from_le bs :: 'a word) k \<Longrightarrow> k + 8 < LENGTH('a)"
    using assms by (auto dest!: bit_from_le_bound)
  moreover have "\<not> bit b (k + 8)"
    by (auto dest: bit_imp_le_length)
  ultimately show "bit (drop_bit 8 (from_le (b # bs)) :: 'a word) k \<longleftrightarrow> bit (from_le bs :: 'a word) k"
    by (auto simp: bit_drop_bit_eq bit_or_iff bit_push_bit_iff bit_ucast_iff add.commute)
qed

lemma to_from_le:
  "8 * length bs \<le> LENGTH('a) \<Longrightarrow> n = length bs \<Longrightarrow>
   to_le n (from_le bs :: 'a::len word) = bs"
proof (induction bs arbitrary: n)
  case Nil
  then show ?case by simp
next
  case (Cons b bs)
  then show ?case
    using drop_bit_from_le_Cons [of b bs, where 'a = 'a] drop_bit_from_le [of b bs, where 'a = 'a]
    by (simp del: from_le.simps)
qed

lemma length_to_le_bytes [simp]: "length (to_le_bytes w) = 8"
  by (simp add: to_le_bytes_def)

lemma from_to_le_bytes [simp]: "from_le_bytes (to_le_bytes w) = w"
  by (simp add: from_le_bytes_def to_le_bytes_def from_to_le)

lemma to_from_le_bytes: "length bs = 8 \<Longrightarrow> to_le_bytes (from_le_bytes bs) = bs"
  by (simp add: from_le_bytes_def to_le_bytes_def to_from_le)


section \<open>Errors and fallible computations\<close>

text \<open>
  \<open>RiegeliError\<close> of \<open>error.rs\<close>.  The text carried by \<open>MalformedData\<close> and \<open>WriterFailed\<close> is the
  constant part of the source's message; the values the source formats into it are left out.
\<close>

datatype riegeli_error =
    DataHashMismatch
  | MalformedData string
  | UnsupportedCompression u8
  | WriterClosed
  | WriterFailed string
  | IoError string
  | UnknownChunkType u8
  | UnknownCompressionType u8

type_synonym 'a res = "riegeli_error + 'a"

text \<open>The \<open>?\<close> operator: stop at the first error.\<close>

definition bind_res :: "('e + 'a) \<Rightarrow> ('a \<Rightarrow> 'e + 'b) \<Rightarrow> 'e + 'b" where
  "bind_res r f = (case r of Inl e \<Rightarrow> Inl e | Inr x \<Rightarrow> f x)"

text \<open>\<open>Result::map_err\<close>.\<close>

definition map_err :: "('e \<Rightarrow> 'f) \<Rightarrow> 'e + 'a \<Rightarrow> 'f + 'a" where
  "map_err g r = (case r of Inl e \<Rightarrow> Inl (g e) | Inr x \<Rightarrow> Inr x)"

text \<open>A check that returns an error when it fails.\<close>

definition guard_res :: "bool \<Rightarrow> 'e \<Rightarrow> 'e + unit" where
  "guard_res b e = (if b then Inr () else Inl e)"

lemma bind_res_simps [simp, res_simps]:
  "bind_res (Inl e) f = Inl e" "bind_res (Inr x) f = f x"
  by (simp_all add: bind_res_def)

lemma bind_res_eq_Inr: "bind_res r f = Inr y \<longleftrightarrow> (\<exists>x. r = Inr x \<and> f x = Inr y)"
  by (cases r) simp_all

lemma bind_res_eq_Inl: "bind_res r f = Inl e \<longleftrightarrow> r = Inl e \<or> (\<exists>x. r = Inr x \<and> f x = Inl e)"
  by (cases r) auto

lemma map_err_simps [simp, res_simps]:
  "map_err g (Inl e) = Inl (g e)" "map_err g (Inr x) = Inr x"
  by (simp_all add: map_err_def)

lemma map_err_eq_Inr [simp]: "map_err g r = Inr x \<longleftrightarrow> r = Inr x"
  by (cases r) simp_all

lemma map_err_eq_Inl [simp]: "map_err g r = Inl f \<longleftrightarrow> (\<exists>e. r = Inl e \<and> f = g e)"
  by (cases r) auto

lemma guard_res_eq [simp]:
  "guard_res b e = Inr u \<longleftrightarrow> b" "guard_res b e = Inl e' \<longleftrightarrow> \<not> b \<and> e' = e"
  by (auto simp: guard_res_def)

lemma guard_res_True [simp, res_simps]: "b \<Longrightarrow> guard_res b e = Inr ()"
  by (simp add: guard_res_def)

lemma bind_res_assoc: "bind_res (bind_res r f) g = bind_res r (\<lambda>x. bind_res (f x) g)"
  by (cases r) simp_all

lemma bind_res_cong [fundef_cong]:
  "r = r' \<Longrightarrow> (\<And>x. r' = Inr x \<Longrightarrow> f x = f' x) \<Longrightarrow> bind_res r f = bind_res r' f'"
  by (cases r') simp_all


section \<open>Fallible computations on a state\<close>

text \<open>An action answers or fails, and leaves a state behind in both cases.\<close>

type_synonym ('s, 'a) action = "'s \<Rightarrow> 'a res \<times> 's"

definition ret :: "'a \<Rightarrow> ('s, 'a) action" where
  "ret x s = (Inr x, s)"

definition fail_with :: "riegeli_error \<Rightarrow> ('s, 'a) action" where
  "fail_with e s = (Inl e, s)"

definition then_do :: "('s, 'a) action \<Rightarrow> ('a \<Rightarrow> ('s, 'b) action) \<Rightarrow> ('s, 'b) action" where
  "then_do m f s = (case m s of (Inl e, s') \<Rightarrow> (Inl e, s') | (Inr x, s') \<Rightarrow> f x s')"

lemma ret_eq [simp]: "ret x s = (y, s') \<longleftrightarrow> y = Inr x \<and> s' = s"
  by (auto simp: ret_def)

lemma fail_with_eq [simp]: "fail_with e s = (y, s') \<longleftrightarrow> y = Inl e \<and> s' = s"
  by (auto simp: fail_with_def)

lemma then_do_Inr: "then_do m f s = (Inr y, s'') \<longleftrightarrow> (\<exists>x s'. m s = (Inr x, s') \<and> f x s' = (Inr y, s''))"
  by (auto simp: then_do_def split: prod.splits sum.splits)

lemma then_do_Inl:
  "then_do m f s = (Inl e, s'') \<longleftrightarrow> m s = (Inl e, s'') \<or> (\<exists>x s'. m s = (Inr x, s') \<and> f x s' = (Inl e, s''))"
  by (auto simp: then_do_def split: prod.splits sum.splits)

lemma then_do_simps [simp, res_simps]:
  "m s = (Inl e, s') \<Longrightarrow> then_do m f s = (Inl e, s')"
  "m s = (Inr x, s') \<Longrightarrow> then_do m f s = f x s'"
  by (simp_all add: then_do_def)

lemma then_do_assoc: "then_do m (\<lambda>x. then_do (f x) g) = then_do (then_do m f) g"
  by (rule ext) (simp add: then_do_def split: prod.splits sum.splits)


section \<open>Lists\<close>

lemma take_append_exact: "n = length xs \<Longrightarrow> take n (xs @ ys) = xs"
  by simp

lemma drop_append_exact: "n = length xs \<Longrightarrow> drop n (xs @ ys) = ys"
  by simp

lemma take_eq_length: "take n xs = ys \<Longrightarrow> n \<le> length xs \<Longrightarrow> length ys = n"
  by auto

lemma length_le_concat: "r \<in> set rs \<Longrightarrow> length r \<le> length (concat rs)"
  by (induction rs) auto

end
