(* ===== verification/Varint.thy ===== *)
theory Varint
  imports Prelude
begin

text \<open>
  \<^verbatim>\<open>riegeli/src/varint.rs\<close>: LEB128 encoding and decoding of \<open>u64\<close> and \<open>u32\<close> values, and the
  length computation that the compressed chunk formats use instead of encoding.  The decode
  loops carry the loop index, the accumulator and the shift of the source.
\<close>

section \<open>Definitions\<close>

definition MAX_U64_VARINT_LEN :: nat where "MAX_U64_VARINT_LEN = 10"

definition MAX_U32_VARINT_LEN :: nat where "MAX_U32_VARINT_LEN = 5"

datatype varint_error = UnexpectedEof | Overflow

text \<open>The loop of \<open>encode_u64\<close>, one output byte per iteration.\<close>

function encode_u64 :: "u64 \<Rightarrow> bytes" where
  "encode_u64 v =
     (let byte = (ucast (v AND 0x7f) :: u8); v' = drop_bit 7 v
      in if v' = 0 then [byte] else (byte OR 0x80) # encode_u64 v')"
  by pat_completeness auto

lemma unat_drop_bit_7: "unat (drop_bit 7 (v :: u64)) = unat v div 128"
  unfolding unat_drop_bit_eq by (simp add: drop_bit_eq_div)

lemma drop_bit_7_less:
  assumes "drop_bit 7 (v :: u64) \<noteq> 0"
  shows "unat (drop_bit 7 v) < unat v"
proof -
  have "unat v \<noteq> 0"
  proof
    assume "unat v = 0"
    then have "v = 0" by (simp add: unsigned_eq_0_iff)
    with assms show False by simp
  qed
  then show ?thesis by (simp add: unat_drop_bit_7)
qed

termination encode_u64
  by (relation "measure unat") (auto dest: drop_bit_7_less)

declare encode_u64.simps [simp del]

definition encode_u32 :: "u32 \<Rightarrow> bytes" where
  "encode_u32 v = encode_u64 (ucast v)"

text \<open>The loop of \<open>decode_u64\<close> at index \<open>i\<close>, over the bytes that are left.\<close>

fun decode_u64_loop :: "nat \<Rightarrow> u64 \<Rightarrow> nat \<Rightarrow> bytes \<Rightarrow> varint_error + u64 \<times> nat" where
  "decode_u64_loop i r shift [] = Inl UnexpectedEof"
| "decode_u64_loop i r shift (byte # bs) =
     (if i = MAX_U64_VARINT_LEN then Inl Overflow
      else let low7 = (ucast (byte AND 0x7f) :: u64)
      in if i = 9 \<and> 1 < low7 then Inl Overflow
      else let r' = r OR push_bit shift low7
      in if byte AND 0x80 = 0 then Inr (r', i + 1)
      else decode_u64_loop (i + 1) r' (shift + 7) bs)"

definition decode_u64 :: "bytes \<Rightarrow> varint_error + u64 \<times> nat" where
  "decode_u64 buf = decode_u64_loop 0 0 0 buf"

fun decode_u32_loop :: "nat \<Rightarrow> u32 \<Rightarrow> nat \<Rightarrow> bytes \<Rightarrow> varint_error + u32 \<times> nat" where
  "decode_u32_loop i r shift [] = Inl UnexpectedEof"
| "decode_u32_loop i r shift (byte # bs) =
     (if i = MAX_U32_VARINT_LEN then Inl Overflow
      else let low7 = (ucast (byte AND 0x7f) :: u32)
      in if i = 4 \<and> 0x0f < low7 then Inl Overflow
      else let r' = r OR push_bit shift low7
      in if byte AND 0x80 = 0 then Inr (r', i + 1)
      else decode_u32_loop (i + 1) r' (shift + 7) bs)"

definition decode_u32 :: "bytes \<Rightarrow> varint_error + u32 \<times> nat" where
  "decode_u32 buf = decode_u32_loop 0 0 0 buf"

text \<open>\<open>u64::leading_zeros\<close>, and \<open>usize::div_ceil\<close> by a positive divisor.\<close>

definition leading_zeros :: "u64 \<Rightarrow> nat" where
  "leading_zeros v = length (takeWhile (\<lambda>i. \<not> bit v i) (rev [0..<64]))"

definition div_ceil :: "nat \<Rightarrow> nat \<Rightarrow> nat" where
  "div_ceil a b = (a + b - 1) div b"

definition length_varint_u64 :: "u64 \<Rightarrow> nat" where
  "length_varint_u64 v =
     (if v = 0 then 1
      else let bits_needed = 64 - leading_zeros v in div_ceil bits_needed 7)"

section \<open>LEB128 groups\<close>

fun varint_span :: "bytes \<Rightarrow> nat option" where
  "varint_span [] = None"
| "varint_span (b # bs) = (if b AND 0x80 = 0 then Some 1 else map_option Suc (varint_span bs))"

fun leb_val :: "bytes \<Rightarrow> nat" where
  "leb_val [] = 0"
| "leb_val (b # bs) = unat (b AND 0x7f) + 128 * leb_val bs"

fun leb_loop :: "nat \<Rightarrow> nat \<Rightarrow> nat \<Rightarrow> 'a::len word \<Rightarrow> bytes \<Rightarrow> varint_error + 'a word \<times> nat" where
  "leb_loop L m i r [] = Inl UnexpectedEof"
| "leb_loop L m i r (b # bs) =
     (if i = L then Inl Overflow
      else if i = L - 1 \<and> m < unat (b AND 0x7f) then Inl Overflow
      else let r' = r OR push_bit (7 * i) (ucast (b AND 0x7f))
      in if b AND 0x80 = 0 then Inr (r', i + 1) else leb_loop L m (i + 1) r' bs)"

lemma and_7f_less: "unat (b AND 0x7f :: u8) < 128"
proof -
  have "b AND 0x7f \<le> (0x7f :: u8)" by (rule word_and_le1)
  then show ?thesis by (simp add: word_le_nat_alt)
qed

lemma unat_ucast_u8: "8 \<le> LENGTH('a) \<Longrightarrow> unat (ucast (b :: u8) :: 'a::len word) = unat b"
  using unsigned_less [of b, where 'a = nat] power_increasing [of 8 "LENGTH('a)" "2::nat"]
  by (simp only: unsigned_ucast_eq) (rule take_bit_nat_eq_self, simp)

lemma decode_u64_loop_eq: "shift = 7 * i \<Longrightarrow> decode_u64_loop i r shift bs = leb_loop 10 1 i r bs"
proof (induction bs arbitrary: i r shift)
  case (Cons b bs)
  have "(1 < (ucast (b AND 0x7f) :: u64)) = (1 < unat (b AND 0x7f))"
    by (simp add: word_less_nat_alt unat_ucast_u8)
  with Cons.prems Cons.IH [of "shift + 7" "i + 1"] show ?case
    by (simp add: Let_def MAX_U64_VARINT_LEN_def)
qed simp

lemma or_push_bit_unat:
  assumes r: "unat r < 2 ^ s" and sum: "unat r + 2 ^ s * unat x < 2 ^ LENGTH('a)"
  shows "unat (r OR push_bit s x :: 'a::len word) = unat r + 2 ^ s * unat x"
proof -
  have nb: "\<not> bit r k" if "s \<le> k" for k
  proof -
    have "unat r < 2 ^ k" using r that power_increasing [of s k "2::nat"] by linarith
    then have "unat r div 2 ^ k = 0" by simp
    then have "\<not> bit (unat r) k" by (simp add: bit_iff_odd)
    then show ?thesis by (auto simp: bit_unsigned_iff dest: bit_imp_le_length)
  qed
  then have "r OR push_bit s x = r + push_bit s x"
    by (intro disjunctive_add [symmetric]) (auto simp: bit_push_bit_iff not_le)
  moreover have "unat (push_bit s x) = 2 ^ s * unat x"
    unfolding unsigned_push_bit_eq
    using sum by (simp add: push_bit_eq_mult take_bit_nat_eq_self mult.commute)
  ultimately show ?thesis
    using sum by (simp add: unat_word_ariths)
qed

lemma varint_span_bounds: "varint_span bs = Some k \<Longrightarrow> 1 \<le> k \<and> k \<le> length bs"
  by (induction bs arbitrary: k) (auto split: if_splits)

lemma varint_span_take: "varint_span bs = Some k \<Longrightarrow> varint_span (take k bs @ ys) = Some k"
  by (induction bs arbitrary: k) (auto split: if_splits)

lemma leb_loop_step_fits:
  fixes r :: "'a::len word"
  assumes len: "LENGTH('a) = 7 * (L - 1) + w" "1 \<le> w" "w \<le> 7" "m = 2 ^ w - 1" "1 \<le> L"
    and r: "unat r < 2 ^ (7 * i)" and i: "i < L" and b: "\<not> (i = L - 1 \<and> m < c)" and c: "c < 128"
  shows "unat r + 2 ^ (7 * i) * c < 2 ^ LENGTH('a)" 
    and "i \<noteq> L - 1 \<Longrightarrow> unat r + 2 ^ (7 * i) * c < 2 ^ (7 * (i + 1))"
proof -
  have *: "unat r + 2 ^ (7 * i) * c < 2 ^ (7 * i) * (c + 1)"
    using r by simp
  show less: "unat r + 2 ^ (7 * i) * c < 2 ^ (7 * (i + 1))"
  proof -
    have "2 ^ (7 * i) * (c + 1) \<le> 2 ^ (7 * i) * (128::nat)" using c by simp
    also have "\<dots> = 2 ^ (7 * (i + 1))" by (simp add: power_add)
    finally show ?thesis using * by linarith
  qed
  show "unat r + 2 ^ (7 * i) * c < 2 ^ LENGTH('a)"
  proof (cases "i = L - 1")
    case True
    moreover have "(1::nat) \<le> 2 ^ w" by simp
    ultimately have "c + 1 \<le> 2 ^ w" using b len(4) by linarith
    then have "2 ^ (7 * i) * (c + 1) \<le> 2 ^ (7 * i) * (2::nat) ^ w" by (rule mult_le_mono2)
    also have "\<dots> = 2 ^ LENGTH('a)" using True len(1) by (simp add: power_add)
    finally show ?thesis using * by linarith
  next
    case False
    with i have "7 * (i + 1) \<le> LENGTH('a)" using len(1) by simp
    then have "(2::nat) ^ (7 * (i + 1)) \<le> 2 ^ LENGTH('a)" by (rule power_increasing) simp
    with less show ?thesis by linarith
  qed
qed

lemma leb_loop_at_limit [simp]: "leb_loop L m L r bs \<noteq> Inr x"
  by (cases bs) simp_all

lemma leb_loop_Inr:
  fixes r :: "'a::len word"
  assumes len: "LENGTH('a) = 7 * (L - 1) + w" "1 \<le> w" "w \<le> 7" "m = 2 ^ w - 1" "1 \<le> L" "8 \<le> LENGTH('a)"
    and r: "unat r < 2 ^ (7 * i)" and i: "i \<le> L"
  shows "leb_loop L m i r bs = Inr (v, k) \<longleftrightarrow>
    (\<exists>n. varint_span bs = Some n \<and> k = i + n \<and> k \<le> L \<and>
         unat r + 2 ^ (7 * i) * leb_val (take n bs) < 2 ^ LENGTH('a) \<and>
         unat v = unat r + 2 ^ (7 * i) * leb_val (take n bs))"
  using r i
proof (induction bs arbitrary: i r)
  case Nil
  show ?case by simp
next
  case (Cons b bs)
  define c where "c = unat (b AND 0x7f)"
  have c: "c < 128" by (simp add: c_def and_7f_less)
  show ?case
  proof (cases "i = L \<or> (i = L - 1 \<and> m < c)")
    case True
    have "2 ^ LENGTH('a) \<le> 2 ^ (7 * i) * (c + x)" if "i = L - 1" "m < c" for x
    proof -
      have "(2::nat) ^ w \<le> c + x" using that len(4) by simp
      then have "2 ^ (7 * i) * (2::nat) ^ w \<le> 2 ^ (7 * i) * (c + x)" by simp
      with that len(1) show ?thesis by (simp add: power_add)
    qed
    then have big: "2 ^ LENGTH('a) \<le> unat r + 2 ^ (7 * i) * leb_val (take n (b # bs))"
      if "i = L - 1" "m < c" "0 < n" for n
      using that by (cases n) (auto simp: c_def intro: trans_le_add2)
    have "False" if sp: "varint_span (b # bs) = Some n" and "i + n \<le> L"
      and "unat r + 2 ^ (7 * i) * leb_val (take n (b # bs)) < 2 ^ LENGTH('a)" for n
    proof -
      have "0 < n" using varint_span_bounds [OF sp] by simp
      with True that(2) have "i = L - 1" "m < c" by auto
      from big [OF this \<open>0 < n\<close>] that(3) show False by linarith
    qed
    moreover have "leb_loop L m i r (b # bs) = Inl Overflow"
      using True by (auto simp: c_def)
    ultimately show ?thesis by (auto simp del: varint_span.simps leb_val.simps leb_loop.simps take_Cons)
  next
    case False
    with Cons.prems have iL: "i < L" "\<not> (i = L - 1 \<and> m < c)" by auto
    note fits = leb_loop_step_fits [OF len(1-5) Cons.prems(1) iL c]
    define r' where "r' = r OR push_bit (7 * i) (ucast (b AND 0x7f) :: 'a word)"
    have r': "unat r' = unat r + 2 ^ (7 * i) * c"
      unfolding r'_def using or_push_bit_unat [OF Cons.prems(1), of "ucast (b AND 0x7f)"] fits(1) len(6)
      by (simp add: unat_ucast_u8 c_def)
    show ?thesis
    proof (cases "b AND 0x80 = 0")
      case True
      then show ?thesis
        using iL r' fits(1)
        by (auto simp: r'_def [symmetric] c_def [symmetric] Let_def word_unat_eq_iff)
    next
      case False
      show ?thesis
      proof (cases "i = L - 1")
        case True
        then have "leb_loop L m i r (b # bs) = leb_loop L m L r' bs"
          using False iL True by (auto simp: r'_def c_def Let_def)
        moreover have "\<not> k \<le> L" if "varint_span (b # bs) = Some n" "k = i + n" for n
          using that True iL False varint_span_bounds [of bs] by (auto simp: numeral_eq_Suc)
        ultimately show ?thesis
          by (auto simp del: varint_span.simps leb_val.simps leb_loop.simps take_Cons)
      next
        case ne: False
        have "leb_loop L m (i + 1) r' bs = Inr (v, k) \<longleftrightarrow>
          (\<exists>n. varint_span bs = Some n \<and> k = i + 1 + n \<and> k \<le> L \<and>
           unat r' + 2 ^ (7 * (i + 1)) * leb_val (take n bs) < 2 ^ LENGTH('a) \<and>
           unat v = unat r' + 2 ^ (7 * (i + 1)) * leb_val (take n bs))"
          by (rule Cons.IH) (use fits(2) [OF ne] r' iL in auto)
        moreover have "leb_loop L m i r (b # bs) = leb_loop L m (i + 1) r' bs"
          using False iL ne by (auto simp: r'_def c_def Let_def)
        moreover have "unat r' + 2 ^ (7 * (i + 1)) * x = unat r + 2 ^ (7 * i) * (c + 128 * x)" for x
          by (simp add: r' algebra_simps power_add)
        ultimately show ?thesis
          using False by (cases "varint_span bs") (simp_all add: c_def)
      qed
    qed
  qed
qed

section \<open>The encoder\<close>

lemma u8_and_80: "b AND 0x80 = 0 \<longleftrightarrow> \<not> bit (b :: u8) 7"
  using and_exp_eq_0_iff_not_bit [of b 7] by simp

lemma u8_and_7f: "b AND 0x7f = take_bit 7 (b :: u8)"
  by (simp add: take_bit_eq_mask mask_eq_exp_minus_1)

lemma bit_80: "bit (0x80 :: u8) k \<longleftrightarrow> k = 7"
  using bit_exp_iff [of 7 k, where 'a = u8] by (auto simp: possible_bit_def)

lemma u8_split: "b = (b AND 0x7f) OR (b AND 0x80 :: u8)"
proof -
  have "(b AND 0x7f) OR (b AND 0x80) = b AND (0x7f OR 0x80)"
    by (simp only: bit.conj_disj_distrib)
  also have "(0x7f OR 0x80 :: u8) = - 1" by simp
  finally show ?thesis by simp
qed

lemma encode_byte:
  fixes v :: u64
  shows "(ucast (v AND 0x7f) :: u8) AND 0x80 = 0" "(ucast (v AND 0x7f) :: u8) AND 0x7f = ucast (v AND 0x7f)"
    "((ucast (v AND 0x7f) :: u8) OR 0x80) AND 0x80 \<noteq> 0"
    "((ucast (v AND 0x7f) :: u8) OR 0x80) AND 0x7f = ucast (v AND 0x7f)"
    "unat (ucast (v AND 0x7f) :: u8) = unat v mod 128"
proof -
  have 7: "v AND 0x7f = take_bit 7 v" by (simp add: take_bit_eq_mask mask_eq_exp_minus_1)
  show "(ucast (v AND 0x7f) :: u8) AND 0x80 = 0"
    by (simp add: u8_and_80 7 bit_simps)
  show "(ucast (v AND 0x7f) :: u8) AND 0x7f = ucast (v AND 0x7f)"
    unfolding u8_and_7f by (rule bit_eqI) (auto simp: 7 bit_simps)
  show "((ucast (v AND 0x7f) :: u8) OR 0x80) AND 0x80 \<noteq> 0"
    by (simp add: u8_and_80 bit_or_iff bit_80)
  show "((ucast (v AND 0x7f) :: u8) OR 0x80) AND 0x7f = ucast (v AND 0x7f)"
    unfolding u8_and_7f by (rule bit_eqI) (auto simp: 7 bit_simps bit_80)
  have "unat (take_bit 7 v) = unat v mod 128"
    unfolding unsigned_take_bit_eq by (simp add: take_bit_eq_mod)
  then show "unat (ucast (v AND 0x7f) :: u8) = unat v mod 128"
    by (simp add: 7 unsigned_ucast_eq take_bit_nat_eq_self)
qed

lemma leb_val_encode_u64: "leb_val (encode_u64 v) = unat v"
proof (induction v rule: encode_u64.induct)
  case (1 v)
  show ?case
  proof (cases "drop_bit 7 v = 0")
    case True
    then have "unat v div 128 = 0" using unat_drop_bit_7 [of v] by simp
    then have "unat v < 128" by simp
    with True show ?thesis by (subst encode_u64.simps) (simp add: encode_byte)
  next
    case False
    with "1.IH" have "leb_val (encode_u64 (drop_bit 7 v)) = unat v div 128"
      by (simp add: unat_drop_bit_7)
    with False show ?thesis by (subst encode_u64.simps) (simp add: encode_byte Let_def)
  qed
qed

lemma varint_span_encode_u64: "varint_span (encode_u64 v @ rest) = Some (length (encode_u64 v))"
proof (induction v rule: encode_u64.induct)
  case (1 v)
  then show ?case
    by (subst (1 2) encode_u64.simps) (simp add: encode_byte Let_def)
qed

lemma encode_u64_ne [simp]: "encode_u64 v \<noteq> []"
  by (subst encode_u64.simps) (simp add: Let_def)

lemma length_encode_u64_le: "length (encode_u64 v) \<le> Suc n \<longleftrightarrow> unat v < 128 ^ Suc n"
proof (induction v arbitrary: n rule: encode_u64.induct)
  case (1 v)
  show ?case
  proof (cases "drop_bit 7 v = 0")
    case True
    then have "unat v div 128 = 0" using unat_drop_bit_7 [of v] by simp
    then have "unat v < 128" by simp
    also have "128 * 1 \<le> (128::nat) * 128 ^ n" by (rule mult_le_mono2) simp
    finally have "unat v < 128 ^ Suc n" by simp
    with True show ?thesis by (subst encode_u64.simps) simp
  next
    case False
    then have pos: "unat v div 128 \<noteq> 0" by (simp add: unat_drop_bit_7 [symmetric] unsigned_eq_0_iff)
    show ?thesis
    proof (cases n)
      case 0
      with False pos show ?thesis by (subst encode_u64.simps) (simp add: Let_def)
    next
      case (Suc n')
      have "length (encode_u64 v) \<le> Suc n \<longleftrightarrow> length (encode_u64 (drop_bit 7 v)) \<le> Suc n'"
        using False Suc by (subst encode_u64.simps) (simp add: Let_def)
      also have "\<dots> \<longleftrightarrow> unat v div 128 < 128 ^ Suc n'"
        using "1.IH" [OF refl refl False, of n'] by (simp add: unat_drop_bit_7)
      also have "\<dots> \<longleftrightarrow> unat v < 128 ^ Suc n"
        using Suc by (simp add: div_less_iff_less_mult mult.commute)
      finally show ?thesis .
    qed
  qed
qed

lemma length_encode_u64_bound: "length (encode_u64 v) \<le> 10"
  using length_encode_u64_le [of v 9] unat_less_2_64 [of v] by simp

lemma length_encode_u64_value: 
  assumes "v \<noteq> 0"
  shows "128 ^ (length (encode_u64 v) - 1) \<le> unat v" "unat v < 128 ^ length (encode_u64 v)"
proof -
  obtain n where n: "length (encode_u64 v) = Suc n" by (cases "encode_u64 v") auto
  show "unat v < 128 ^ length (encode_u64 v)"
    using length_encode_u64_le [of v n] n by simp
  show "128 ^ (length (encode_u64 v) - 1) \<le> unat v"
  proof (cases n)
    case 0
    with assms n show ?thesis by (simp add: Suc_le_eq unsigned_eq_0_iff flip: neq0_conv)
  next
    case (Suc m)
    with length_encode_u64_le [of v m] n show ?thesis by simp
  qed
qed

lemma leading_zeros_value:
  assumes "v \<noteq> 0"
  obtains m where "leading_zeros v = 63 - m" "m < 64" "2 ^ m \<le> unat v" "unat v < 2 ^ Suc m"
proof -
  have "1 \<le> unat v" using assms by (simp add: Suc_le_eq unsigned_eq_0_iff flip: neq0_conv)
  then obtain m where m: "2 ^ m \<le> unat v" "unat v < 2 ^ Suc m"
    using ex_power_ivl1 [of 2 "unat v"] by auto
  have m64: "m < 64"
  proof (rule ccontr)
    assume "\<not> m < 64"
    then have "(2::nat) ^ 64 \<le> 2 ^ m" by (intro power_increasing) auto
    moreover have "unat v < 2 ^ 64" by simp
    ultimately show False using m(1) by linarith
  qed
  have bit_nat: "bit v k \<longleftrightarrow> odd (unat v div 2 ^ k)" if "k < 64" for k
  proof -
    have "bit (unat v) k \<longleftrightarrow> bit v k" by (simp add: bit_unsigned_iff)
    then show ?thesis by (simp only: bit_iff_odd [of "unat v" k])
  qed
  have "unat v div 2 ^ m = 1"
    using m by (simp add: div_nat_eqI)
  then have top: "bit v m" using bit_nat m64 by simp
  have above: "\<not> bit v k" if "m < k" "k < 64" for k
  proof -
    have "(2::nat) ^ Suc m \<le> 2 ^ k" using that by (intro power_increasing) auto
    with m(2) have "unat v div 2 ^ k = 0" by simp
    then show ?thesis using bit_nat [OF that(2)] by simp
  qed
  have "[0..<64] = [0..<m] @ m # [Suc m..<64]"
    using m64 by (metis upt_add_eq_append upt_conv_Cons le0 less_imp_le_nat le_add_diff_inverse)
  then have "rev [0..<64] = rev [Suc m..<64] @ m # rev [0..<m]" by simp
  moreover have "takeWhile (\<lambda>i. \<not> bit v i) (rev [Suc m..<64] @ m # rev [0..<m]) = rev [Suc m..<64]"
    using above top by (subst takeWhile_append2) auto
  ultimately have "leading_zeros v = 63 - m"
    by (simp add: leading_zeros_def)
  with m m64 that show ?thesis by blast
qed

lemma length_varint_u64_correct: "length_varint_u64 v = length (encode_u64 v)"
proof (cases "v = 0")
  case True
  then show ?thesis by (simp add: length_varint_u64_def encode_u64.simps)
next
  case False
  then obtain m where m: "leading_zeros v = 63 - m" "m < 64" "2 ^ m \<le> unat v" "unat v < 2 ^ Suc m"
    by (rule leading_zeros_value)
  define n where "n = length (encode_u64 v)"
  have p: "(128::nat) ^ k = 2 ^ (7 * k)" for k by (simp add: power_mult)
  have n0: "n \<noteq> 0" by (simp add: n_def)
  have "2 ^ (7 * (n - 1)) < (2::nat) ^ Suc m" "2 ^ m < (2::nat) ^ (7 * n)"
    using length_encode_u64_value [OF False, unfolded p] m(3,4) unfolding n_def by linarith+
  then have "7 * (n - 1) < Suc m" "m < 7 * n"
    by (metis power_less_imp_less_exp one_less_numeral_iff semiring_norm(76))+
  then have "(m + 7) div 7 = n" using n0 by (intro div_nat_eqI) auto
  then show ?thesis
    using False m n0 by (simp add: length_varint_u64_def div_ceil_def n_def [symmetric])
qed

lemma decode_u32_loop_eq: "shift = 7 * i \<Longrightarrow> decode_u32_loop i r shift bs = leb_loop 5 15 i r bs"
proof (induction bs arbitrary: i r shift)
  case (Cons b bs)
  have "(0x0f < (ucast (b AND 0x7f) :: u32)) = (15 < unat (b AND 0x7f))"
    by (simp add: word_less_nat_alt unat_ucast_u8)
  with Cons.prems Cons.IH [of "shift + 7" "i + 1"] show ?case
    by (simp add: Let_def MAX_U32_VARINT_LEN_def)
qed simp

lemma decode_u64_Inr:
  "decode_u64 bs = Inr (v, k) \<longleftrightarrow>
   varint_span bs = Some k \<and> k \<le> 10 \<and> leb_val (take k bs) < 2 ^ 64 \<and> unat v = leb_val (take k bs)"
  using leb_loop_Inr [of 10 1 1 "0::u64" 0 bs v k]
  by (auto simp: decode_u64_def decode_u64_loop_eq)

lemma decode_u32_Inr:
  "decode_u32 bs = Inr (v, k) \<longleftrightarrow>
   varint_span bs = Some k \<and> k \<le> 5 \<and> leb_val (take k bs) < 2 ^ 32 \<and> unat v = leb_val (take k bs)"
  using leb_loop_Inr [of 5 4 15 "0::u32" 0 bs v k]
  by (auto simp: decode_u32_def decode_u32_loop_eq)

lemma leb_loop_Eof:
  "i \<le> L \<Longrightarrow> leb_loop L m i r bs = Inl UnexpectedEof \<longleftrightarrow>
   varint_span bs = None \<and> i + length bs \<le> L \<and>
   (i + length bs = L \<and> bs \<noteq> [] \<longrightarrow> unat (last bs AND 0x7f) \<le> m)"
proof (induction bs arbitrary: i r)
  case (Cons b bs)
  show ?case
  proof (cases "i = L")
    case False
    with Cons.prems Cons.IH [of "i + 1"] show ?thesis
      by (cases bs) (auto simp: Let_def not_less)
  qed simp
qed simp

lemma leb_val_less: "varint_span bs = Some k \<Longrightarrow> leb_val (take k bs) < 128 ^ k"
proof (induction bs arbitrary: k)
  case (Cons b bs)
  have b: "unat (b AND 0x7f) < 128" by (rule and_7f_less)
  show ?case
  proof (cases "b AND 0x80 = 0")
    case False
    with Cons.prems obtain j where j: "k = Suc j" "varint_span bs = Some j" by auto
    from Cons.IH [OF j(2)] have "leb_val (take j bs) + 1 \<le> 128 ^ j" by simp
    then have "128 * (leb_val (take j bs) + 1) \<le> 128 * 128 ^ j" by (rule mult_le_mono2)
    with b j show ?thesis by simp
  qed (use Cons.prems b in auto)
qed simp

lemma decode_u64_encode_u64 [simp]:
  "decode_u64 (encode_u64 v @ rest) = Inr (v, length (encode_u64 v))"
  by (simp add: decode_u64_Inr varint_span_encode_u64 leb_val_encode_u64 length_encode_u64_bound)

lemma unat_ucast_u32: "unat (ucast (v :: u32) :: u64) = unat v"
  using unsigned_less [of v, where 'a = nat]
  by (simp only: unsigned_ucast_eq) (rule take_bit_nat_eq_self, simp)

lemma length_encode_u32_bound: "length (encode_u32 v) \<le> 5"
  using length_encode_u64_le [of "ucast v" 4] unsigned_less [of v, where 'a = nat]
  by (simp add: encode_u32_def unat_ucast_u32)

lemma decode_u32_encode_u32 [simp]:
  "decode_u32 (encode_u32 v @ rest) = Inr (v, length (encode_u32 v))"
  using unsigned_less [of v, where 'a = nat] length_encode_u32_bound [of v]
  by (simp add: decode_u32_Inr encode_u32_def varint_span_encode_u64 leb_val_encode_u64 unat_ucast_u32)

lemma decode_u64_shortest: "decode_u64 bs = Inr (v, k) \<Longrightarrow> length (encode_u64 v) \<le> k"
  using length_encode_u64_le [of v "k - 1"] leb_val_less [of bs k] varint_span_bounds [of bs k]
  by (cases k) (auto simp: decode_u64_Inr)

lemma encode_u64_canonical:
  "varint_span bs = Some (length bs) \<Longrightarrow> length bs = 1 \<or> last bs \<noteq> 0 \<Longrightarrow> leb_val bs = unat v \<Longrightarrow>
   bs = encode_u64 v"
proof (induction bs arbitrary: v)
  case (Cons b bs)
  have v7: "ucast (v AND 0x7f) = b AND 0x7f"
  proof (rule word_eq_unatI)
    show "unat (ucast (v AND 0x7f) :: u8) = unat (b AND 0x7f)"
      using Cons.prems(3) and_7f_less [of b] by (simp add: encode_byte(5) flip: Cons.prems(3))
  qed
  have dv: "unat (drop_bit 7 v) = leb_val bs"
    using Cons.prems(3) and_7f_less [of b] by (simp add: unat_drop_bit_7 flip: Cons.prems(3))
  show ?case
  proof (cases "b AND 0x80 = 0")
    case True
    then have "bs = []" using Cons.prems(1) by simp
    moreover have "b AND 0x7f = b"
      unfolding u8_and_7f using True by (intro bit_eqI) (auto simp: u8_and_80 bit_take_bit_iff less_Suc_eq numeral_eq_Suc)
    ultimately show ?thesis using dv v7
      by (subst encode_u64.simps) (simp add: unsigned_eq_0_iff)
  next
    case False
    then have sp: "varint_span bs = Some (length bs)" using Cons.prems(1) by auto
    then have ne: "bs \<noteq> []" by auto
    with Cons.prems(2) have l: "last bs \<noteq> 0" by simp
    have nz: "drop_bit 7 v \<noteq> 0"
    proof
      assume "drop_bit 7 v = 0"
      then have "leb_val bs = 0" using dv by simp
      then have "last bs AND 0x7f = 0"
        using ne by (induction bs) (auto simp: unsigned_eq_0_iff split: if_splits)
      moreover have "last bs AND 0x80 = 0"
        using sp ne by (induction bs) (auto split: if_splits)
      ultimately show False using l u8_split [of "last bs"] by simp
    qed
    have "bs = encode_u64 (drop_bit 7 v)"
      using Cons.IH [OF sp _ dv [symmetric]] l by blast
    moreover have "(b AND 0x7f) OR 0x80 = b"
      unfolding u8_and_7f using False
      by (intro bit_eqI) (auto simp: u8_and_80 bit_or_iff bit_80 bit_take_bit_iff less_Suc_eq numeral_eq_Suc)
    ultimately show ?thesis using nz v7
      by (subst encode_u64.simps) (simp add: Let_def)
  qed
qed simp

lemma encode_u64_last: "length (encode_u64 v) = 1 \<or> last (encode_u64 v) \<noteq> 0"
proof (induction v rule: encode_u64.induct)
  case (1 v)
  show ?case
  proof (cases "drop_bit 7 v = 0")
    case True
    then show ?thesis by (subst encode_u64.simps) simp
  next
    case False
    have "length (encode_u64 v) = 1 \<longrightarrow> last (encode_u64 v) \<noteq> 0" if "v \<noteq> 0" for v
    proof
      assume "length (encode_u64 v) = 1"
      then obtain b where b: "encode_u64 v = [b]" by (cases "encode_u64 v") auto
      with leb_val_encode_u64 [of v] that have "unat (b AND 0x7f) \<noteq> 0" by (simp add: unsigned_eq_0_iff)
      with b show "last (encode_u64 v) \<noteq> 0" by auto
    qed
    with False "1.IH" have "last (encode_u64 (drop_bit 7 v)) \<noteq> 0" by auto
    with False show ?thesis by (subst (2) encode_u64.simps) (simp add: Let_def)
  qed
qed

section \<open>Prefix codes\<close>

text \<open>
  What the formats built on varints rely on: an encoder and a decoder that reports how many
  bytes it used, such that decoding reads back an encoded value whatever follows it, and a
  decoded group can be cut out of its buffer.
\<close>

definition ok_option :: "'e + 'a \<Rightarrow> 'a option" where
  "ok_option r = (case r of Inl _ \<Rightarrow> None | Inr x \<Rightarrow> Some x)"

lemma ok_option_simps [simp]: "ok_option (Inl e) = None" "ok_option (Inr x) = Some x"
  by (simp_all add: ok_option_def)

lemma ok_option_eq_Some [simp]: "ok_option r = Some x \<longleftrightarrow> r = Inr x"
  by (cases r) simp_all

text \<open>Reads \<open>n\<close> values one after the other; also returns the number of bytes used.\<close>

fun decode_many :: "(bytes \<Rightarrow> ('v \<times> nat) option) \<Rightarrow> nat \<Rightarrow> bytes \<Rightarrow> ('v list \<times> nat) option" where
  "decode_many dec 0 bs = Some ([], 0)"
| "decode_many dec (Suc n) bs =
     (case dec bs of None \<Rightarrow> None
      | Some (v, k) \<Rightarrow> map_option (\<lambda>(vs, j). (v # vs, k + j)) (decode_many dec n (drop k bs)))"

locale prefix_code =
  fixes enc :: "'v \<Rightarrow> bytes" and dec :: "bytes \<Rightarrow> ('v \<times> nat) option"
  assumes dec_enc: "dec (enc v @ rest) = Some (v, length (enc v))"
    and dec_bounds: "dec bs = Some (v, k) \<Longrightarrow> 1 \<le> k \<and> k \<le> length bs"
    and dec_cut: "dec bs = Some (v, k) \<Longrightarrow> dec (take k bs @ rest) = Some (v, k)"
begin

lemma enc_prefix_free:
  assumes "enc v @ xs = enc w @ ys"
  shows "v = w \<and> xs = ys"
  using dec_enc [of v xs] dec_enc [of w ys] assms by auto

lemma enc_inj: "enc v = enc w \<longleftrightarrow> v = w"
  using enc_prefix_free [of v "[]" w "[]"] by auto

lemma enc_nonempty: "enc v \<noteq> []"
  using dec_bounds [OF dec_enc [of v "[]"]] by auto

lemma decode_many_concat:
  "decode_many dec (length vs) (concat (map enc vs) @ rest) =
   Some (vs, length (concat (map enc vs)))"
  by (induction vs) (simp_all add: dec_enc)

lemma decode_many_bounds:
  "decode_many dec n bs = Some (vs, k) \<Longrightarrow> length vs = n \<and> n \<le> k \<and> k \<le> length bs"
proof (induction n arbitrary: bs vs k)
  case (Suc n)
  then obtain v j ws i where s: "dec bs = Some (v, j)" "decode_many dec n (drop j bs) = Some (ws, i)"
    "vs = v # ws" "k = j + i"
    by (auto split: option.splits prod.splits)
  from Suc.IH [OF s(2)] dec_bounds [OF s(1)] s show ?case by auto
qed simp

end

interpretation varint64: prefix_code encode_u64 "ok_option \<circ> decode_u64"
proof unfold_locales
  show "(ok_option \<circ> decode_u64) (encode_u64 v @ rest) = Some (v, length (encode_u64 v))" for v rest
    by simp
  show "1 \<le> k \<and> k \<le> length bs" if "(ok_option \<circ> decode_u64) bs = Some (v, k)" for bs v k
    using that varint_span_bounds [of bs k] by (auto simp: decode_u64_Inr)
  show "(ok_option \<circ> decode_u64) (take k bs @ rest) = Some (v, k)"
    if "(ok_option \<circ> decode_u64) bs = Some (v, k)" for bs v k rest
    using that varint_span_bounds [of bs k]
    by (auto simp: decode_u64_Inr varint_span_take min_def)
qed

interpretation varint32: prefix_code encode_u32 "ok_option \<circ> decode_u32"
proof unfold_locales
  show "(ok_option \<circ> decode_u32) (encode_u32 v @ rest) = Some (v, length (encode_u32 v))" for v rest
    by simp
  show "1 \<le> k \<and> k \<le> length bs" if "(ok_option \<circ> decode_u32) bs = Some (v, k)" for bs v k
    using that varint_span_bounds [of bs k] by (auto simp: decode_u32_Inr)
  show "(ok_option \<circ> decode_u32) (take k bs @ rest) = Some (v, k)"
    if "(ok_option \<circ> decode_u32) bs = Some (v, k)" for bs v k rest
    using that varint_span_bounds [of bs k]
    by (auto simp: decode_u32_Inr varint_span_take min_def)
qed


section \<open>Properties\<close>

text \<open>C32. Round trip: decoding a buffer that starts with an encoded \<open>u64\<close> or \<open>u32\<close> yields the
  value and the length of its encoding, whatever bytes follow.\<close>

theorem varint_roundtrip:
  "decode_u64 (encode_u64 v @ rest) = Inr (v, length (encode_u64 v)) \<and>
   decode_u32 (encode_u32 w @ rest) = Inr (w, length (encode_u32 w))"
  by simp

text \<open>C33. The decoder accepts exactly the groups of at most ten bytes whose 7-bit digits denote a
  64-bit number, returns that number, and reports the end of the buffer exactly when no byte ends
  the group within ten bytes and the tenth is in range; every other input is an overflow.\<close>

theorem decode_u64_complete:
  "(decode_u64 bs = Inr (v, k) \<longleftrightarrow>
     varint_span bs = Some k \<and> k \<le> 10 \<and> leb_val (take k bs) < 2 ^ 64 \<and> v = of_nat (leb_val (take k bs)))
   \<and> (decode_u64 bs = Inl UnexpectedEof \<longleftrightarrow>
     varint_span bs = None \<and> length bs \<le> 10 \<and> (length bs = 10 \<longrightarrow> unat (last bs AND 0x7f) \<le> 1))"
proof -
  have "unat v = x \<longleftrightarrow> v = of_nat x" if "x < 2 ^ 64" for x
    using that by (auto simp: unat_of_nat take_bit_nat_eq_self)
  then have "decode_u64 bs = Inr (v, k) \<longleftrightarrow> varint_span bs = Some k \<and> k \<le> 10 \<and>
      leb_val (take k bs) < 2 ^ 64 \<and> v = of_nat (leb_val (take k bs))"
    by (auto simp: decode_u64_Inr)
  moreover have "decode_u64 bs = Inl UnexpectedEof \<longleftrightarrow>
      varint_span bs = None \<and> length bs \<le> 10 \<and> (length bs = 10 \<longrightarrow> unat (last bs AND 0x7f) \<le> 1)"
    by (auto simp: decode_u64_def decode_u64_loop_eq leb_loop_Eof)
  ultimately show ?thesis by blast
qed

lemma decode_u64_complete_witness:
  "decode_u64 [0xac, 0x02, 0xff] = Inr (300, 2)"
  using decode_u64_complete [of "[0xac, 0x02, 0xff]" 300 2] by simp

text \<open>The length computed from the leading zeros is the length of the encoding, which is
  between 1 and 10 bytes, and no accepted encoding of the value is shorter.\<close>

theorem length_varint_u64_minimal:
  "length_varint_u64 v = length (encode_u64 v) \<and> 1 \<le> length_varint_u64 v \<and> length_varint_u64 v \<le> 10 \<and>
   (\<forall>bs k. decode_u64 bs = Inr (v, k) \<longrightarrow> length_varint_u64 v \<le> k)"
  using length_encode_u64_bound [of v] decode_u64_shortest
  by (auto simp: length_varint_u64_correct Suc_le_eq)

lemma length_varint_u64_minimal_witness:
  "decode_u64 [0x81, 0x80, 0x00] = Inr (1, 3) \<and> length_varint_u64 1 \<le> 3"
proof -
  have "decode_u64 [0x81, 0x80, 0x00] = Inr (1, 3)" by code_simp
  with length_varint_u64_minimal [of 1] show ?thesis by blast
qed

text \<open>The 32-bit decoder accepts a buffer exactly when the 64-bit decoder does with at most
  five bytes and a value below \<open>2^32\<close>, and then both return the same value and length.\<close>

theorem decode_u32_agrees:
  "decode_u32 bs = Inr (w, k) \<longleftrightarrow> k \<le> 5 \<and> unat (ucast w :: u64) < 2 ^ 32 \<and> decode_u64 bs = Inr (ucast w, k)"
  using unsigned_less [of w, where 'a = nat]
  by (auto simp: decode_u32_Inr decode_u64_Inr unat_ucast_u32)

end
