(* ===== verification/BlockArithmetic.thy ===== *)
theory BlockArithmetic
  imports Prelude
begin

text \<open>
  \<^verbatim>\<open>riegeli/src/constants.rs\<close> and \<^verbatim>\<open>riegeli/src/block_arithmetic.rs\<close>: positions in a file that is
  cut into blocks of 65536 bytes, each opened by a 24-byte block header.  Positions are 64-bit
  words, as in the source; additions wrap where the source has a plain \<open>+\<close>, and saturate where
  it says so.  The abstract layout below counts usable bytes as natural numbers; every position
  function is related to it.
\<close>

section \<open>Definitions\<close>

definition BLOCK_SIZE :: u64 where "BLOCK_SIZE = 65536"

definition BLOCK_HEADER_SIZE :: u64 where "BLOCK_HEADER_SIZE = 24"

definition CHUNK_HEADER_SIZE :: u64 where "CHUNK_HEADER_SIZE = 40"

definition USABLE_BLOCK_SIZE :: u64 where "USABLE_BLOCK_SIZE = BLOCK_SIZE - BLOCK_HEADER_SIZE"

lemmas block_consts = BLOCK_SIZE_def BLOCK_HEADER_SIZE_def CHUNK_HEADER_SIZE_def USABLE_BLOCK_SIZE_def

definition is_block_boundary :: "u64 \<Rightarrow> bool" where
  "is_block_boundary pos \<longleftrightarrow> pos mod BLOCK_SIZE = 0"

definition round_down_to_block_boundary :: "u64 \<Rightarrow> u64" where
  "round_down_to_block_boundary pos = pos - (pos mod BLOCK_SIZE)"

definition remaining_in_block :: "u64 \<Rightarrow> u64" where
  "remaining_in_block pos =
     (let offset = pos mod BLOCK_SIZE in if offset = 0 then 0 else BLOCK_SIZE - offset)"

definition is_possible_chunk_boundary :: "u64 \<Rightarrow> bool" where
  "is_possible_chunk_boundary pos \<longleftrightarrow> remaining_in_block pos < USABLE_BLOCK_SIZE"

definition round_up_to_possible_chunk_boundary :: "u64 \<Rightarrow> u64" where
  "round_up_to_possible_chunk_boundary pos =
     saturating_add pos (saturating_sub (remaining_in_block pos) (USABLE_BLOCK_SIZE - 1))"

definition canonical_chunk_address :: "u64 \<Rightarrow> u64" where
  "canonical_chunk_address pos =
     (if pos mod BLOCK_SIZE = BLOCK_HEADER_SIZE then pos - BLOCK_HEADER_SIZE else pos)"

definition remaining_in_block_header :: "u64 \<Rightarrow> nat" where
  "remaining_in_block_header pos =
     (let offset = pos mod BLOCK_SIZE
      in if offset < BLOCK_HEADER_SIZE then unat (BLOCK_HEADER_SIZE - offset) else 0)"

text \<open>The loop of \<open>add_with_overhead\<close>.\<close>

function add_with_overhead :: "u64 \<Rightarrow> u64 \<Rightarrow> u64" where
  "add_with_overhead pos remaining =
     (if remaining = 0 then pos
      else let pos = pos + of_nat (remaining_in_block_header pos);
               avail = remaining_in_block pos
           in if avail = 0 then add_with_overhead (pos + BLOCK_HEADER_SIZE) remaining
              else if remaining \<le> avail then add_with_overhead (pos + remaining) 0
              else add_with_overhead (pos + avail) (remaining - avail))"
  by pat_completeness auto

text \<open>The loop of \<open>distance_without_overhead\<close>, with its accumulator.\<close>

function distance_loop :: "u64 \<Rightarrow> u64 \<Rightarrow> u64 \<Rightarrow> u64" where
  "distance_loop cur pos data_bytes =
     (if cur < pos
      then let cur = cur + of_nat (remaining_in_block_header cur)
           in if pos \<le> cur then data_bytes
              else let avail = remaining_in_block cur;
                       avail = (if avail = 0 then BLOCK_SIZE - BLOCK_HEADER_SIZE else avail);
                       step = min avail (pos - cur)
                   in distance_loop (cur + step) pos (data_bytes + step)
      else data_bytes)"
  by pat_completeness auto

section \<open>Positions as natural numbers\<close>

lemma unat_mod_block: "unat (pos mod BLOCK_SIZE) = unat pos mod 65536"
  by (simp add: unat_mod block_consts)

lemma mod_block_eq: "pos mod BLOCK_SIZE = of_nat n \<longleftrightarrow> unat pos mod 65536 = n" if "n < 65536"
  using that by (simp add: word_unat_eq_iff unat_mod_block u64_arith)

lemma is_block_boundary_iff: "is_block_boundary pos \<longleftrightarrow> unat pos mod 65536 = 0"
  using mod_block_eq [of 0 pos] by (simp add: is_block_boundary_def)

lemma unat_remaining_in_block:
  "unat (remaining_in_block pos) = (if unat pos mod 65536 = 0 then 0 else 65536 - unat pos mod 65536)"
proof -
  have "unat (BLOCK_SIZE - pos mod BLOCK_SIZE) = 65536 - unat pos mod 65536"
    using unat_mod_block [of pos] by (subst unat_sub_u64) (simp_all add: block_consts)
  then show ?thesis
    using mod_block_eq [of 0 pos] by (simp add: remaining_in_block_def Let_def)
qed

lemma remaining_in_block_header_eq:
  "remaining_in_block_header pos = 24 - unat pos mod 65536"
proof -
  have "pos mod BLOCK_SIZE < BLOCK_HEADER_SIZE \<longleftrightarrow> unat pos mod 65536 < 24"
    by (simp add: word_less_nat_alt unat_mod_block block_consts(2))
  moreover have "unat (BLOCK_HEADER_SIZE - pos mod BLOCK_SIZE) = 24 - unat pos mod 65536"
    if "unat pos mod 65536 < 24"
    using that unat_mod_block [of pos] by (subst unat_sub_u64) (simp_all add: block_consts)
  ultimately show ?thesis by (auto simp: remaining_in_block_header_def Let_def)
qed

text \<open>Skipping a block header never leaves the block, hence never wraps.\<close>

lemma unat_skip_header:
  "unat (pos + of_nat (remaining_in_block_header pos)) = unat pos + (24 - unat pos mod 65536)"
proof -
  have "unat pos mod 65536 \<le> unat pos" by simp
  have "unat pos = unat pos div 65536 * 65536 + unat pos mod 65536" by simp
  moreover have "unat pos div 65536 < 281474976710656"
    using unat_less_2_64 [of pos] by (simp add: less_mult_imp_div_less)
  ultimately have "unat pos + (24 - unat pos mod 65536) \<le> u64_max" by linarith
  then show ?thesis
    by (simp add: remaining_in_block_header_eq unat_of_nat_u64 unat_add_u64)
qed

lemma skip_header_in_data:
  "24 \<le> unat (pos + of_nat (remaining_in_block_header pos)) mod 65536"
proof -
  define q r where "q = unat pos div 65536" and "r = unat pos mod 65536"
  have "unat pos = 65536 * q + r" "r < 65536" by (simp_all add: q_def r_def)
  then have "unat pos + (24 - unat pos mod 65536) = 65536 * q + max r 24" "max r 24 < 65536"
    by (simp_all add: r_def [symmetric] max_def)
  then show ?thesis by (simp add: unat_skip_header)
qed

lemma remaining_after_skip:
  "unat (remaining_in_block (pos + of_nat (remaining_in_block_header pos)))
     = 65536 - unat (pos + of_nat (remaining_in_block_header pos)) mod 65536"
  "remaining_in_block (pos + of_nat (remaining_in_block_header pos)) \<noteq> 0"
proof -
  let ?p = "pos + of_nat (remaining_in_block_header pos)"
  show *: "unat (remaining_in_block ?p) = 65536 - unat ?p mod 65536"
    using skip_header_in_data [of pos] by (auto simp: unat_remaining_in_block)
  have "unat ?p mod 65536 < 65536" by simp
  with * have "unat (remaining_in_block ?p) \<noteq> 0" by linarith
  then show "remaining_in_block ?p \<noteq> 0" by (metis unsigned_0)
qed

termination add_with_overhead
proof (relation "measure (\<lambda>(pos, remaining). unat remaining)", goal_cases)
  case (3 pos remaining pos' avail)
  then show ?case by (simp add: word_neq_0_unat)
next
  case (4 pos remaining pos' avail)
  then have "unat avail < unat remaining" "0 < unat avail"
    by (simp_all add: word_less_nat_alt word_le_nat_alt word_neq_0_unat)
  then show ?case by (auto simp: unat_sub_u64)
qed (use remaining_after_skip(2) in auto)

lemma distance_step_bound:
  fixes cur' pos a :: u64
  assumes "cur' < pos"
  shows "unat (cur' + min a (pos - cur')) = unat cur' + min (unat a) (unat pos - unat cur')"
proof -
  have "unat (pos - cur') = unat pos - unat cur'"
    using assms by (intro unat_sub_u64) (simp add: word_less_nat_alt)
  then have m: "unat (min a (pos - cur')) = min (unat a) (unat pos - unat cur')"
    by (auto simp: min_def word_le_nat_alt)
  moreover have "unat cur' + min (unat a) (unat pos - unat cur') \<le> unat pos"
    using assms unfolding word_less_nat_alt by linarith
  then have "unat cur' + min (unat a) (unat pos - unat cur') \<le> u64_max"
    using unat_less_2_64 [of pos] by linarith
  ultimately show ?thesis by (simp add: unat_add_u64)
qed

termination distance_loop
proof (relation "measure (\<lambda>(cur, pos, d). unat pos - unat cur)", goal_cases)
  case (2 cur pos d cur' avail avail' step)
  then have lt: "cur' < pos" by simp
  have c: "unat cur \<le> unat cur'" using 2(2) by (simp add: unat_skip_header)
  have "avail' \<noteq> 0" using 2 by (auto simp: block_consts)
  then have "0 < unat avail'" by (simp add: word_neq_0_unat)
  moreover have "unat cur' < unat pos" using lt by (simp add: word_less_nat_alt)
  ultimately have "unat pos - (unat cur' + min (unat avail') (unat pos - unat cur')) < unat pos - unat cur"
    using c by linarith
  with lt 2(6) show ?case by (simp add: distance_step_bound)
qed simp

declare add_with_overhead.simps [simp del] distance_loop.simps [simp del]

definition distance_without_overhead :: "u64 \<Rightarrow> u64 \<Rightarrow> u64" where
  "distance_without_overhead chunk_begin pos = distance_loop chunk_begin pos 0"

definition chunk_end :: "u64 \<Rightarrow> u64 \<Rightarrow> u64 \<Rightarrow> u64" where
  "chunk_end chunk_begin data_size num_records =
     (let chunk_start = canonical_chunk_address chunk_begin;
          end_from_data = add_with_overhead chunk_start (saturating_add CHUNK_HEADER_SIZE data_size);
          end_from_records = round_up_to_possible_chunk_boundary (saturating_add chunk_start num_records)
      in max end_from_data end_from_records)"

section \<open>The abstract layout\<close>

text \<open>
  \<open>usable_before p\<close> counts the bytes below \<open>p\<close> that belong to no block header; \<open>phys_end k\<close> is the
  least position with \<open>k\<close> usable bytes below it, so a position reached by laying out data.
\<close>

definition usable_before :: "nat \<Rightarrow> nat" where
  "usable_before p = p div 65536 * 65512 + (p mod 65536 - 24)"

definition phys_end :: "nat \<Rightarrow> nat" where
  "phys_end k = (if k = 0 then 0 else k + 24 * ((k - 1) div 65512 + 1))"

lemma block_cases:
  fixes p :: nat
  obtains q r where "p = q * 65536 + r" "r < 65536"
  by (metis div_mult_mod_eq mod_less_divisor zero_less_numeral)

lemma usable_cases:
  fixes k :: nat
  assumes "0 < k"
  obtains q j where "k = q * 65512 + j" "1 \<le> j" "j \<le> 65512"
proof
  show "k = (k - 1) div 65512 * 65512 + ((k - 1) mod 65512 + 1)" using assms by simp
  show "(k - 1) mod 65512 + 1 \<le> 65512" by (simp add: Suc_le_eq)
qed simp

lemma usable_before_block: "r < 65536 \<Longrightarrow> usable_before (q * 65536 + r) = q * 65512 + (r - 24)"
  by (simp add: usable_before_def)

lemma phys_end_block: "1 \<le> j \<Longrightarrow> j \<le> 65512 \<Longrightarrow> phys_end (q * 65512 + j) = q * 65536 + 24 + j"
proof -
  assume j: "1 \<le> j" "j \<le> 65512"
  then have "(q * 65512 + j - 1) div 65512 = q" by (intro div_nat_eqI) auto
  with j show ?thesis by (simp add: phys_end_def)
qed

lemma usable_before_phys_end [simp]: "usable_before (phys_end k) = k"
proof (cases "k = 0")
  case False
  then obtain q j where k: "k = q * 65512 + j" "1 \<le> j" "j \<le> 65512" by (auto elim: usable_cases)
  show ?thesis
  proof (cases "j = 65512")
    case True
    with k have "phys_end k = Suc q * 65536 + 0" using phys_end_block [of j q] by simp
    then have "usable_before (phys_end k) = Suc q * 65512" using usable_before_block [of 0 "Suc q"] by simp
    then show ?thesis using k True by simp
  next
    case False
    with k have "phys_end k = q * 65536 + (24 + j)" "24 + j < 65536"
      using phys_end_block [of j q] by simp_all
    then show ?thesis using k by (simp add: usable_before_block)
  qed
qed (simp add: phys_end_def usable_before_def)

lemma usable_before_mono: "p \<le> p' \<Longrightarrow> usable_before p \<le> usable_before p'"
proof -
  assume le: "p \<le> p'"
  obtain q r where p: "p = q * 65536 + r" "r < 65536" by (rule block_cases)
  obtain q' r' where p': "p' = q' * 65536 + r'" "r' < 65536" by (rule block_cases)
  have "q \<le> q'" using le p p' by simp
  show ?thesis
  proof (cases "q = q'")
    case True
    with le p p' show ?thesis by (simp add: usable_before_block diff_le_mono)
  next
    case False
    with \<open>q \<le> q'\<close> obtain d where "q' = Suc q + d" by (metis le_Suc_ex Suc_leI le_neq_implies_less)
    moreover have "usable_before p = q * 65512 + (r - 24)" "usable_before p' = q' * 65512 + (r' - 24)"
      using p p' by (simp_all only: usable_before_block)
    ultimately show ?thesis using p(2) by simp
  qed
qed

lemma phys_end_mono: "k \<le> k' \<Longrightarrow> phys_end k \<le> phys_end k'"
  by (auto simp: phys_end_def intro!: add_mono div_le_mono)

lemma phys_end_least: "k \<le> usable_before p \<Longrightarrow> phys_end k \<le> p"
proof (rule ccontr)
  assume k: "k \<le> usable_before p" and "\<not> phys_end k \<le> p"
  then have lt: "p < phys_end k" by simp
  then have "0 < k" by (cases k) (simp_all add: phys_end_def)
  then obtain q j where kq: "k = q * 65512 + j" "1 \<le> j" "j \<le> 65512" by (rule usable_cases)
  then have "p \<le> q * 65536 + (23 + j)" using lt by (simp add: phys_end_block)
  then have "usable_before p \<le> usable_before (q * 65536 + (23 + j))" by (rule usable_before_mono)
  also have "\<dots> = q * 65512 + (23 + j - 24)" using kq by (intro usable_before_block) simp
  also have "\<dots> < k" using kq by simp
  finally show False using k by simp
qed

text \<open>Possible chunk boundaries are exactly the positions reached by laying out data.\<close>

definition chunk_pos :: "nat \<Rightarrow> bool" where
  "chunk_pos p \<longleftrightarrow> p mod 65536 = 0 \<or> 25 \<le> p mod 65536"

lemma chunk_pos_phys_end: "chunk_pos (phys_end k)"
proof (cases "k = 0")
  case False
  then obtain q j where k: "k = q * 65512 + j" "1 \<le> j" "j \<le> 65512" by (auto elim: usable_cases)
  show ?thesis
  proof (cases "j = 65512")
    case True
    with k have "phys_end k = Suc q * 65536" by (simp add: phys_end_block)
    then show ?thesis by (simp only: chunk_pos_def) simp
  next
    case False
    with k have "phys_end k = q * 65536 + (24 + j)" "24 + j < 65536"
      using phys_end_block [of j q] by simp_all
    then show ?thesis using k by (simp add: chunk_pos_def)
  qed
qed (simp add: phys_end_def chunk_pos_def)

lemma phys_end_usable_before: "chunk_pos p \<Longrightarrow> phys_end (usable_before p) = p"
proof -
  assume cp: "chunk_pos p"
  obtain q r where p: "p = q * 65536 + r" "r < 65536" by (rule block_cases)
  consider "q = 0" "r = 0" | q' where "q = Suc q'" "r = 0" | "25 \<le> r"
  proof -
    have "p mod 65536 = r" using p by simp
    then show thesis using cp that by (cases q) (auto simp: chunk_pos_def)
  qed
  then show ?thesis
  proof cases
    case 1
    then show ?thesis using p by (simp add: usable_before_def phys_end_def)
  next
    case 2
    then have "usable_before p = q' * 65512 + 65512" using p by (simp add: usable_before_def)
    then have "phys_end (usable_before p) = q' * 65536 + 24 + 65512"
      by (simp only: phys_end_block)
    then show ?thesis using p 2 by simp
  next
    case 3
    then have "usable_before p = q * 65512 + (r - 24)" using p by (simp add: usable_before_block)
    with 3 p show ?thesis using phys_end_block [of "r - 24" q] by simp
  qed
qed

lemma usable_before_skip: "usable_before (p + (24 - p mod 65536)) = usable_before p"
proof -
  obtain q r where p: "p = q * 65536 + r" "r < 65536" by (rule block_cases)
  then have "p mod 65536 = r" by simp
  then have "p + (24 - p mod 65536) = q * 65536 + max r 24" using p by (simp add: max_def)
  moreover have "max r 24 < 65536" using p by simp
  ultimately have "usable_before (p + (24 - p mod 65536)) = q * 65512 + (max r 24 - 24)"
    by (simp only: usable_before_block)
  with p show ?thesis by (simp add: usable_before_block max_def)
qed

lemma usable_before_add:
  "24 \<le> p mod 65536 \<Longrightarrow> n \<le> 65536 - p mod 65536 \<Longrightarrow> usable_before (p + n) = usable_before p + n"
proof -
  assume r24: "24 \<le> p mod 65536" and n: "n \<le> 65536 - p mod 65536"
  obtain q r where p: "p = q * 65536 + r" "r < 65536" by (rule block_cases)
  then have r: "p mod 65536 = r" by simp
  show ?thesis
  proof (cases "r + n = 65536")
    case True
    then have "p + n = Suc q * 65536 + 0" using p by simp
    then have "usable_before (p + n) = Suc q * 65512" using usable_before_block [of 0 "Suc q"] by simp
    with True p r r24 show ?thesis by (simp add: usable_before_block)
  next
    case False
    then have "r + n < 65536" "p + n = q * 65536 + (r + n)" using n r p by simp_all
    then have "usable_before (p + n) = q * 65512 + (r + n - 24)" by (simp only: usable_before_block)
    with p r r24 show ?thesis by (simp add: usable_before_block)
  qed
qed

lemma phys_end_in_block:
  assumes "24 \<le> p mod 65536" "0 < n" "n \<le> 65536 - p mod 65536"
  shows "phys_end (usable_before p + n) = p + n"
proof -
  obtain q r where p: "p = q * 65536 + r" "r < 65536" by (rule block_cases)
  then have r: "p mod 65536 = r" by simp
  have "usable_before p + n = q * 65512 + (r - 24 + n)" using p by (simp add: usable_before_block)
  moreover have "phys_end (q * 65512 + (r - 24 + n)) = q * 65536 + 24 + (r - 24 + n)"
    using assms r by (intro phys_end_block) auto
  ultimately show ?thesis using assms p r by simp
qed

section \<open>The source functions on the abstract layout\<close>

lemma le_phys_end: "0 < n \<Longrightarrow> p + (24 - p mod 65536) + n \<le> phys_end (usable_before p + n)"
proof -
  assume n: "0 < n"
  define p' where "p' = p + (24 - p mod 65536)"
  have u: "usable_before p' = usable_before p" by (simp add: p'_def usable_before_skip)
  obtain q r where p: "p = q * 65536 + r" "r < 65536" by (rule block_cases)
  then have "p' = q * 65536 + max r 24" by (simp add: p'_def max_def)
  moreover have "max r 24 < 65536" using p by simp
  ultimately have u': "usable_before p' = q * 65512 + (max r 24 - 24)" and p': "p' = q * 65536 + max r 24"
    by (simp_all add: usable_before_block)
  define m d where "m = max r 24" and "d = (q * 65512 + (m - 24) + n - 1) div 65512"
  have "24 \<le> m" by (simp add: m_def)
  have "q \<le> d"
    using n by (simp add: d_def less_eq_div_iff_mult_less_eq)
  moreover have "phys_end (usable_before p + n) = q * 65512 + (m - 24) + n + 24 * (d + 1)"
    using n u u' by (simp add: phys_end_def m_def d_def)
  moreover obtain m' where "m = 24 + m'" using \<open>24 \<le> m\<close> le_Suc_ex by blast
  ultimately show ?thesis
    using p' unfolding p'_def [symmetric] m_def [symmetric] by simp
qed

lemma unat_add_with_overhead_phys:
  "remaining \<noteq> 0 \<Longrightarrow> phys_end (usable_before (unat pos) + unat remaining) \<le> u64_max \<Longrightarrow>
   unat (add_with_overhead pos remaining) = phys_end (usable_before (unat pos) + unat remaining)"
proof (induction pos remaining rule: add_with_overhead.induct)
  case (1 pos remaining)
  define pos' where "pos' = pos + of_nat (remaining_in_block_header pos)"
  define avail where "avail = remaining_in_block pos'"
  have p': "unat pos' = unat pos + (24 - unat pos mod 65536)"
    by (simp add: pos'_def unat_skip_header)
  have u: "usable_before (unat pos') = usable_before (unat pos)"
    by (simp add: p' usable_before_skip)
  have in_data: "24 \<le> unat pos' mod 65536"
    using skip_header_in_data [of pos] by (simp add: pos'_def)
  have a: "unat avail = 65536 - unat pos' mod 65536" "avail \<noteq> 0"
    using remaining_after_skip [of pos] by (simp_all add: avail_def pos'_def)
  have r: "0 < unat remaining" using "1.prems"(1) by (simp add: word_neq_0_unat)
  have unf: "add_with_overhead pos remaining =
      (if remaining \<le> avail then pos' + remaining else add_with_overhead (pos' + avail) (remaining - avail))"
    using "1.prems"(1) a(2)
    by (subst add_with_overhead.simps)
       (simp add: Let_def pos'_def [symmetric] avail_def [symmetric] add_with_overhead.simps [of _ 0])
  have bound: "unat pos' + unat remaining \<le> u64_max"
    using le_phys_end [OF r, of "unat pos"] "1.prems"(2) p' by linarith
  show ?case
  proof (cases "remaining \<le> avail")
    case True
    then have "unat remaining \<le> 65536 - unat pos' mod 65536" using a by (simp add: word_le_nat_alt)
    then have "phys_end (usable_before (unat pos') + unat remaining) = unat pos' + unat remaining"
      using in_data r by (intro phys_end_in_block)
    with True unf u bound show ?thesis by (simp add: unat_add_u64)
  next
    case False
    then have lt: "unat avail < unat remaining" by (simp add: word_le_nat_alt)
    have s: "unat (remaining - avail) = unat remaining - unat avail" using lt by (simp add: unat_sub_u64)
    have pa: "unat (pos' + avail) = unat pos' + unat avail" using bound lt by (simp add: unat_add_u64)
    have "usable_before (unat (pos' + avail)) = usable_before (unat pos) + unat avail"
      using usable_before_add [OF in_data, of "unat avail"] a u pa by simp
    then have same: "usable_before (unat (pos' + avail)) + unat (remaining - avail)
        = usable_before (unat pos) + unat remaining"
      using lt s by simp
    have "remaining - avail \<noteq> 0" using lt s unfolding word_neq_0_unat by linarith
    moreover have "\<not> remaining \<le> avail" "remaining \<noteq> 0" using False "1.prems" by simp_all
    ultimately have "unat (add_with_overhead (pos' + avail) (remaining - avail))
        = phys_end (usable_before (unat pos) + unat remaining)"
      using "1.IH"(3) [OF _ pos'_def avail_def] a(2) same "1.prems"(2) by simp
    with False unf show ?thesis by simp
  qed
qed

lemma add_with_overhead_0 [simp]: "add_with_overhead pos 0 = pos"
  by (simp add: add_with_overhead.simps)

lemma unat_distance_loop:
  "unat d + (usable_before (unat pos) - usable_before (unat cur)) \<le> u64_max \<Longrightarrow>
   unat (distance_loop cur pos d) = unat d + (usable_before (unat pos) - usable_before (unat cur))"
proof (induction cur pos d rule: distance_loop.induct)
  case (1 cur pos d)
  define cur' where "cur' = cur + of_nat (remaining_in_block_header cur)"
  define avail where "avail = remaining_in_block cur'"
  define step where "step = min avail (pos - cur')"
  have p': "unat cur' = unat cur + (24 - unat cur mod 65536)"
    by (simp add: cur'_def unat_skip_header)
  have u: "usable_before (unat cur') = usable_before (unat cur)"
    by (simp add: p' usable_before_skip)
  have a: "unat avail = 65536 - unat cur' mod 65536" "avail \<noteq> 0"
    using remaining_after_skip [of cur] by (simp_all add: avail_def cur'_def)
  have unf: "distance_loop cur pos d =
      (if cur < pos then if pos \<le> cur' then d else distance_loop (cur' + step) pos (d + step) else d)"
    using a(2)
    by (subst distance_loop.simps)
       (simp add: Let_def cur'_def [symmetric] avail_def [symmetric] step_def [symmetric])
  show ?case
  proof (cases "cur < pos \<and> \<not> pos \<le> cur'")
    case False
    have "usable_before (unat pos) \<le> usable_before (unat cur)"
    proof (cases "cur < pos")
      case True
      with False have "unat pos \<le> unat cur'" by (simp add: word_le_nat_alt)
      then show ?thesis using usable_before_mono u by metis
    next
      case False
      then show ?thesis by (intro usable_before_mono) (simp add: word_less_nat_alt)
    qed
    with False unf show ?thesis by auto
  next
    case True
    then have lt: "cur' < pos" by (simp add: not_le)
    have st: "unat step = min (unat avail) (unat pos - unat cur')"
      "unat (cur' + step) = unat cur' + unat step"
      using distance_step_bound [OF lt, of avail] lt
      by (auto simp: step_def min_def word_le_nat_alt word_less_nat_alt unat_sub_u64)
    have us: "usable_before (unat (cur' + step)) = usable_before (unat cur) + unat step"
      unfolding st(2) u [symmetric]
      using skip_header_in_data [of cur] a st(1) by (intro usable_before_add) (simp_all add: cur'_def)
    have "unat (cur' + step) \<le> unat pos"
      using st lt unfolding word_less_nat_alt by linarith
    then have le: "usable_before (unat cur) + unat step \<le> usable_before (unat pos)"
      using usable_before_mono [of "unat (cur' + step)" "unat pos"] us by simp
    have ds: "unat (d + step) = unat d + unat step"
      using "1.prems" le by (intro unat_add_u64) linarith
    have "unat (distance_loop (cur' + step) pos (d + step)) =
        unat (d + step) + (usable_before (unat pos) - usable_before (unat (cur' + step)))"
      by (rule "1.IH" [OF _ cur'_def _ avail_def _ step_def])
         (use True a "1.prems" le ds us in auto)
    with True unf ds us le show ?thesis by simp
  qed
qed

lemma usable_before_le: "usable_before p \<le> p"
proof -
  obtain q r where "p = q * 65536 + r" "r < 65536" by (rule block_cases)
  then show ?thesis by (simp add: usable_before_block)
qed

lemma unat_distance_without_overhead:
  "unat (distance_without_overhead chunk_begin pos) = usable_before (unat pos) - usable_before (unat chunk_begin)"
proof -
  have "usable_before (unat pos) \<le> u64_max"
    using usable_before_le [of "unat pos"] unat_less_2_64 [of pos] by linarith
  then show ?thesis
    using unat_distance_loop [of 0 pos chunk_begin] by (simp add: distance_without_overhead_def)
qed

definition round_up_nat :: "nat \<Rightarrow> nat" where
  "round_up_nat p = (if chunk_pos p then p else p div 65536 * 65536 + 25)"

definition chunk_end_nat :: "nat \<Rightarrow> nat \<Rightarrow> nat \<Rightarrow> nat" where
  "chunk_end_nat b d n = max (phys_end (usable_before b + 40 + d)) (round_up_nat (b + n))"

lemma is_possible_chunk_boundary_iff: "is_possible_chunk_boundary pos \<longleftrightarrow> chunk_pos (unat pos)"
proof -
  have "unat pos mod 65536 < 65536" by simp
  then show ?thesis
    by (auto simp: is_possible_chunk_boundary_def word_less_nat_alt unat_remaining_in_block
        block_consts chunk_pos_def)
qed

lemma div_block_less: "unat (pos :: u64) div 65536 * 65536 + 65535 \<le> u64_max"
proof -
  have "unat pos div 65536 < 281474976710656"
    using unat_less_2_64 [of pos] by (simp add: less_mult_imp_div_less)
  then show ?thesis by linarith
qed

lemma unat_round_up: "unat (round_up_to_possible_chunk_boundary pos) = round_up_nat (unat pos)"
proof -
  obtain q r where p: "unat pos = q * 65536 + r" "r < 65536" by (rule block_cases)
  then have r: "unat pos mod 65536 = r" and q: "unat pos div 65536 = q" by simp_all
  have "q * 65536 + 65535 \<le> u64_max" using div_block_less [of pos] q by simp
  then show ?thesis
    using p r q
    by (auto simp: round_up_to_possible_chunk_boundary_def unat_saturating_add unat_saturating_sub
        unat_remaining_in_block block_consts round_up_nat_def chunk_pos_def min_def)
qed

lemma unat_canonical:
  "unat (canonical_chunk_address pos) = (if unat pos mod 65536 = 24 then unat pos - 24 else unat pos)"
proof -
  have "pos mod BLOCK_SIZE = BLOCK_HEADER_SIZE \<longleftrightarrow> unat pos mod 65536 = 24"
    using mod_block_eq [of 24 pos] by (simp add: block_consts(2))
  moreover have "24 \<le> unat pos" if "unat pos mod 65536 = 24"
    using that mod_less_eq_dividend [of "unat pos" 65536] by simp
  ultimately show ?thesis
    by (simp add: canonical_chunk_address_def unat_sub_u64 block_consts(2))
qed

lemma canonical_usable: "usable_before (unat (canonical_chunk_address pos)) = usable_before (unat pos)"
proof (cases "unat pos mod 65536 = 24")
  case True
  obtain q r where p: "unat pos = q * 65536 + r" "r < 65536" by (rule block_cases)
  then have "unat pos mod 65536 = r" by simp
  with True p have "unat pos - 24 = q * 65536 + 0" "unat pos = q * 65536 + 24" by simp_all
  with True show ?thesis
    unfolding unat_canonical using usable_before_block [of 0 q] usable_before_block [of 24 q] by simp
qed (simp add: unat_canonical)

lemma round_up_nat_least:
  "p \<le> round_up_nat p \<and> chunk_pos (round_up_nat p) \<and> (\<forall>p'. p \<le> p' \<and> chunk_pos p' \<longrightarrow> round_up_nat p \<le> p')"
proof -
  obtain q r where p: "p = q * 65536 + r" "r < 65536" by (rule block_cases)
  then have r: "p mod 65536 = r" and q: "p div 65536 = q" by simp_all
  have "round_up_nat p \<le> p'" if "p \<le> p'" "chunk_pos p'" "\<not> chunk_pos p" for p'
  proof -
    obtain q' r' where p': "p' = q' * 65536 + r'" "r' < 65536" by (rule block_cases)
    then have r': "p' mod 65536 = r'" by simp
    have "q < q' \<or> q = q'" using that p p' by auto
    then show ?thesis
      using that p' p r r' q by (auto simp: round_up_nat_def chunk_pos_def)
  qed
  moreover have "chunk_pos (q * 65536 + 25)" by (simp add: chunk_pos_def)
  ultimately show ?thesis
    using p r q by (auto simp: round_up_nat_def chunk_pos_def)
qed

text \<open>The conditions under which laying out data stays inside the 64-bit position space.\<close>

definition layout_fits :: "u64 \<Rightarrow> u64 \<Rightarrow> bool" where
  "layout_fits b l \<longleftrightarrow> phys_end (usable_before (unat b) + unat l) \<le> u64_max"

lemma unat_add_with_overhead:
  "is_possible_chunk_boundary b \<Longrightarrow> layout_fits b l \<Longrightarrow>
   unat (add_with_overhead b l) = phys_end (usable_before (unat b) + unat l)"
  by (cases "l = 0")
     (auto simp: is_possible_chunk_boundary_iff phys_end_usable_before layout_fits_def
        unat_add_with_overhead_phys)

definition chunk_fits :: "u64 \<Rightarrow> u64 \<Rightarrow> u64 \<Rightarrow> bool" where
  "chunk_fits b d n \<longleftrightarrow>
     phys_end (usable_before (unat b) + 40 + unat d) \<le> u64_max \<and> unat b + unat n \<le> u64_max"

lemma phys_end_ge: "k \<le> phys_end k"
  by (simp add: phys_end_def)

lemma unat_chunk_end:
  "is_possible_chunk_boundary b \<Longrightarrow> chunk_fits b d n \<Longrightarrow>
   unat (chunk_end b d n) = chunk_end_nat (unat b) (unat d) (unat n)"
proof -
  assume b: "is_possible_chunk_boundary b" and fits: "chunk_fits b d n"
  then have m: "unat b mod 65536 \<noteq> 24" by (auto simp: is_possible_chunk_boundary_iff chunk_pos_def)
  then have c: "canonical_chunk_address b = b"
    by (intro word_eq_unatI) (simp add: unat_canonical)
  have "usable_before (unat b) + 40 + unat d \<le> u64_max"
    using fits phys_end_ge [of "usable_before (unat b) + 40 + unat d"] unfolding chunk_fits_def by linarith
  then have l: "unat (saturating_add CHUNK_HEADER_SIZE d) = 40 + unat d"
    by (simp add: unat_saturating_add block_consts(3))
  then have "layout_fits b (saturating_add CHUNK_HEADER_SIZE d)"
    using fits by (simp add: layout_fits_def chunk_fits_def add.assoc)
  with b l have e1: "unat (add_with_overhead b (saturating_add CHUNK_HEADER_SIZE d))
      = phys_end (usable_before (unat b) + 40 + unat d)"
    by (simp add: unat_add_with_overhead add.assoc)
  have "unat (saturating_add b n) = unat b + unat n"
    using fits by (simp add: unat_saturating_add chunk_fits_def)
  with e1 show ?thesis
    by (auto simp: chunk_end_def c Let_def chunk_end_nat_def max_def word_le_nat_alt unat_round_up)
qed

lemma chunk_end_alias: "chunk_end (canonical_chunk_address b) d n = chunk_end b d n"
proof -
  have "canonical_chunk_address (canonical_chunk_address b) = canonical_chunk_address b"
  proof (rule word_eq_unatI)
    obtain q r where p: "unat b = q * 65536 + r" "r < 65536" by (rule block_cases)
    then have "unat b mod 65536 = r" by simp
    with p show "unat (canonical_chunk_address (canonical_chunk_address b)) = unat (canonical_chunk_address b)"
      by (auto simp: unat_canonical)
  qed
  then show ?thesis by (simp add: chunk_end_def)
qed

lemma chunk_pos_chunk_end_nat: "chunk_pos (chunk_end_nat b d n)"
  using chunk_pos_phys_end round_up_nat_least by (auto simp: chunk_end_nat_def max_def)

lemma chunk_end_nat_gt: "b + 40 \<le> chunk_end_nat b d n" "b + n \<le> chunk_end_nat b d n"
proof -
  have "b + 40 \<le> phys_end (usable_before b + (40 + d))"
    using le_phys_end [of "40 + d" b] by simp
  then show "b + 40 \<le> chunk_end_nat b d n" by (simp add: chunk_end_nat_def add.assoc)
  show "b + n \<le> chunk_end_nat b d n"
    using round_up_nat_least [of "b + n"] by (auto simp: chunk_end_nat_def)
qed

lemma chunk_end_nat_usable: "usable_before b + 40 + d \<le> usable_before (chunk_end_nat b d n)"
  using usable_before_mono [of "phys_end (usable_before b + 40 + d)" "chunk_end_nat b d n"]
  by (simp add: chunk_end_nat_def)

section \<open>Walking over block headers\<close>

text \<open>
  What the writer and the reader use of the two walks: advancing by a length and measuring a
  distance are inverse to each other on possible chunk positions, and advances add up.
\<close>

locale overhead_walk =
  fixes advance :: "'p \<Rightarrow> u64 \<Rightarrow> 'p" and dist :: "'p \<Rightarrow> 'p \<Rightarrow> u64"
    and fits :: "'p \<Rightarrow> u64 \<Rightarrow> bool" and ok :: "'p \<Rightarrow> bool"
  assumes dist_advance: "ok b \<Longrightarrow> fits b l \<Longrightarrow> dist b (advance b l) = l"
    and advance_ok: "ok b \<Longrightarrow> fits b l \<Longrightarrow> ok (advance b l)"
    and fits_mono: "fits b l \<Longrightarrow> m \<le> l \<Longrightarrow> fits b m"
    and advance_advance: "ok b \<Longrightarrow> fits b (l + m) \<Longrightarrow> l \<le> l + m \<Longrightarrow> advance (advance b l) m = advance b (l + m)"
begin

lemma advance_inj: "ok b \<Longrightarrow> fits b l \<Longrightarrow> fits b m \<Longrightarrow> advance b l = advance b m \<Longrightarrow> l = m"
  using dist_advance by metis

lemma dist_between:
  assumes "ok b" "fits b (l + m)" "l \<le> l + m" "fits (advance b l) m"
  shows "dist (advance b l) (advance b (l + m)) = m"
  using assms advance_advance dist_advance advance_ok fits_mono by metis

end

lemma layout_fits_mono: "layout_fits b l \<Longrightarrow> m \<le> l \<Longrightarrow> layout_fits b m"
  using phys_end_mono [of "usable_before (unat b) + unat m" "usable_before (unat b) + unat l"]
  by (simp add: layout_fits_def word_le_nat_alt)

interpretation walk: overhead_walk add_with_overhead distance_without_overhead layout_fits
  is_possible_chunk_boundary
proof unfold_locales
  fix b l m :: u64
  assume b: "is_possible_chunk_boundary b" and f: "layout_fits b l"
  show "distance_without_overhead b (add_with_overhead b l) = l"
    using unat_add_with_overhead [OF b f]
    by (intro word_eq_unatI) (simp add: unat_distance_without_overhead)
  show "is_possible_chunk_boundary (add_with_overhead b l)"
    using unat_add_with_overhead [OF b f] by (simp add: is_possible_chunk_boundary_iff chunk_pos_phys_end)
next
  fix b l m :: u64
  assume b: "is_possible_chunk_boundary b" and f: "layout_fits b (l + m)" and le: "l \<le> l + m"
  have lm: "unat (l + m) = unat l + unat m"
    using le unat_plus_simple by blast
  have 1: "unat (add_with_overhead b l) = phys_end (usable_before (unat b) + unat l)"
    using b layout_fits_mono [OF f le] by (rule unat_add_with_overhead)
  have "layout_fits (add_with_overhead b l) m"
    using f by (simp add: layout_fits_def 1 lm add.assoc)
  moreover have "is_possible_chunk_boundary (add_with_overhead b l)"
    by (simp add: is_possible_chunk_boundary_iff 1 chunk_pos_phys_end)
  ultimately show "add_with_overhead (add_with_overhead b l) m = add_with_overhead b (l + m)"
    using b f by (intro word_eq_unatI) (simp add: unat_add_with_overhead 1 lm add.assoc)
qed (rule layout_fits_mono)

text \<open>Evaluation of the layout predicates and of the walks at concrete positions.\<close>

lemmas layout_eval = is_possible_chunk_boundary_iff chunk_pos_def layout_fits_def chunk_fits_def
  usable_before_def phys_end_def

lemmas walk_eval = chunk_end_def canonical_chunk_address_def add_with_overhead.simps Let_def
  max_def
  remaining_in_block_header_def remaining_in_block_def round_up_to_possible_chunk_boundary_def
  saturating_add_def saturating_sub_def block_consts

section \<open>Properties\<close>

text \<open>C30. The position walk over interleaved block headers computes the closed form of the C++
  reference for every possible chunk position, as long as the end is a 64-bit position.\<close>

theorem add_with_overhead_closed_form:
  assumes "is_possible_chunk_boundary b" and "layout_fits b l"
  shows "unat (add_with_overhead b l) =
    unat b + unat l + ((unat l + (unat b + 65512 - 1) mod 65536) div 65512) * 24"
proof -
  obtain q r where p: "unat b = q * 65536 + r" "r < 65536" by (rule block_cases)
  then have r: "unat b mod 65536 = r" by simp
  consider "r = 0" | "25 \<le> r" using assms(1) r by (auto simp: is_possible_chunk_boundary_iff chunk_pos_def)
  then have "phys_end (usable_before (unat b) + unat l) =
    unat b + unat l + ((unat l + (unat b + 65511) mod 65536) div 65512) * 24"
  proof cases
    case 1
    then have "(unat b + 65511) mod 65536 = 65511" using p by simp
    moreover have "phys_end (q * 65512 + x) = q * 65536 + x + (x + 65511) div 65512 * 24" for x
    proof (cases x)
      case 0
      then show ?thesis
        using phys_end_usable_before [of "q * 65536"] usable_before_block [of 0 q] by (simp add: chunk_pos_def)
    next
      case (Suc y)
      have "(q * 65512 + y) div 65512 = q + y div 65512" by simp
      moreover have "(x + 65511) div 65512 = y div 65512 + 1" using Suc by simp
      ultimately show ?thesis using Suc by (simp add: phys_end_def)
    qed
    ultimately show ?thesis using p 1 usable_before_block [of 0 q] by simp
  next
    case 2
    then have "unat b + 65511 = Suc q * 65536 + (r - 25)" "r - 25 < 65536" using p by simp_all
    then have m: "(unat b + 65511) mod 65536 = r - 25" by (metis mod_mult_self3 mod_less)
    have "usable_before (unat b) + unat l - 1 = q * 65512 + (unat l + (r - 25))"
      using 2 p by (simp add: usable_before_block)
    moreover have "(q * 65512 + (unat l + (r - 25))) div 65512 = q + (unat l + (r - 25)) div 65512" by simp
    moreover have "usable_before (unat b) + unat l = q * 65512 + (r - 24) + unat l"
      using p by (simp add: usable_before_block)
    ultimately show ?thesis using 2 p m by (simp add: phys_end_def)
  qed
  then show ?thesis by (simp add: unat_add_with_overhead [OF assms] add.commute)
qed

lemma add_with_overhead_closed_form_witness:
  "add_with_overhead 25 65511 = 65536 \<and> unat (add_with_overhead 25 65512) = 65561"
proof -
  have b: "is_possible_chunk_boundary 25" and f: "layout_fits 25 65512" "layout_fits 25 65511"
    by (simp_all add: layout_eval)
  have "unat (add_with_overhead 25 65511) = 65536"
    using add_with_overhead_closed_form [OF b f(2)] by simp
  moreover have "unat (add_with_overhead 25 65512) = 65561"
    using add_with_overhead_closed_form [OF b f(1)] by simp
  ultimately show ?thesis by (simp add: word_unat_eq_iff)
qed

text \<open>Advancing over data and measuring the data between two positions are inverse, the
  position reached is again a possible chunk position, and two advances add up.\<close>

theorem layout_inverse:
  assumes "is_possible_chunk_boundary b" and "layout_fits b (l + m)" and "l \<le> l + m"
  shows "distance_without_overhead b (add_with_overhead b l) = l \<and>
    is_possible_chunk_boundary (add_with_overhead b l) \<and>
    add_with_overhead (add_with_overhead b l) m = add_with_overhead b (l + m)"
  using walk.dist_advance walk.advance_ok walk.advance_advance walk.fits_mono assms by blast

lemma layout_inverse_witness:
  "distance_without_overhead 64 (add_with_overhead 64 70000) = 70000"
proof -
  have "is_possible_chunk_boundary 64" "layout_fits 64 (70000 + 1)" "(70000::u64) \<le> 70000 + 1"
    by (simp_all add: layout_eval)
  from layout_inverse [OF this] show ?thesis by blast
qed

text \<open>Rounding up yields the least possible chunk position at or above the given one.\<close>

theorem round_up_least:
  "pos \<le> round_up_to_possible_chunk_boundary pos \<and>
   is_possible_chunk_boundary (round_up_to_possible_chunk_boundary pos) \<and>
   (\<forall>p. pos \<le> p \<and> is_possible_chunk_boundary p \<longrightarrow> round_up_to_possible_chunk_boundary pos \<le> p)"
  using round_up_nat_least [of "unat pos"]
  by (simp add: word_le_nat_alt unat_round_up is_possible_chunk_boundary_iff)

lemma round_up_least_witness:
  "round_up_to_possible_chunk_boundary 131084 \<le> 131097 \<and> unat (round_up_to_possible_chunk_boundary 131084) = 131097"
proof -
  have "(131084::u64) \<le> 131097 \<and> is_possible_chunk_boundary 131097" by (simp add: layout_eval)
  with round_up_least [of 131084] have "round_up_to_possible_chunk_boundary 131084 \<le> 131097" by blast
  moreover have "unat (round_up_to_possible_chunk_boundary 131084) = 131097"
    by (simp add: unat_round_up round_up_nat_def chunk_pos_def)
  ultimately show ?thesis by blast
qed

text \<open>C31. The end of a chunk is the least possible chunk position that leaves room for the chunk
  header and the data, block headers not counted, and that is at least as many bytes past the
  chunk's beginning as the chunk has records; both addresses of a chunk at a block boundary give
  the same end.\<close>

theorem chunk_end_least:
  assumes "is_possible_chunk_boundary b" and "chunk_fits b d n"
  shows "is_possible_chunk_boundary (chunk_end b d n) \<and>
    unat b + unat n \<le> unat (chunk_end b d n) \<and>
    40 + unat d \<le> unat (distance_without_overhead b (chunk_end b d n)) \<and>
    (\<forall>p. is_possible_chunk_boundary p \<and> unat b + unat n \<le> unat p \<and>
         40 + unat d \<le> unat (distance_without_overhead b p) \<longrightarrow> chunk_end b d n \<le> p) \<and>
    chunk_end (b + 24) d n = (if is_block_boundary b then chunk_end b d n else chunk_end (b + 24) d n)"
proof -
  note e = unat_chunk_end [OF assms]
  have least: "chunk_end b d n \<le> p" if "is_possible_chunk_boundary p" "unat b + unat n \<le> unat p"
    "40 + unat d \<le> unat (distance_without_overhead b p)" for p
  proof -
    have "usable_before (unat b) + 40 + unat d \<le> usable_before (unat p)"
      using that(3) by (simp add: unat_distance_without_overhead)
    then have "phys_end (usable_before (unat b) + 40 + unat d) \<le> unat p" by (rule phys_end_least)
    moreover have "round_up_nat (unat b + unat n) \<le> unat p"
      using that round_up_nat_least by (auto simp: is_possible_chunk_boundary_iff)
    ultimately show ?thesis by (simp add: word_le_nat_alt e chunk_end_nat_def)
  qed
  have "canonical_chunk_address (b + 24) = b" if "is_block_boundary b"
  proof (rule word_eq_unatI)
    obtain q r where p: "unat b = q * 65536 + r" "r < 65536" by (rule block_cases)
    with that have "unat b = q * 65536" by (simp add: is_block_boundary_iff)
    moreover have "unat (b + 24) = unat b + 24"
      using calculation div_block_less [of b] by (subst unat_add_u64) auto
    ultimately show "unat (canonical_chunk_address (b + 24)) = unat b" by (simp add: unat_canonical)
  qed
  then have "chunk_end (b + 24) d n = chunk_end b d n" if "is_block_boundary b"
    using that chunk_end_alias [of "b + 24"] by simp
  moreover have "40 + unat d \<le> unat (distance_without_overhead b (chunk_end b d n))"
    using chunk_end_nat_usable [of "unat b" "unat d" "unat n"] by (simp add: unat_distance_without_overhead e)
  ultimately show ?thesis
    using least chunk_end_nat_gt(2) [of "unat b" "unat n" "unat d"]
    by (auto simp: e is_possible_chunk_boundary_iff chunk_pos_chunk_end_nat)
qed

lemma chunk_end_least_witness: "is_possible_chunk_boundary (chunk_end 64 53 131019)"
proof -
  have "is_possible_chunk_boundary 64" "chunk_fits 64 53 131019" by (simp_all add: layout_eval)
  from chunk_end_least [OF this] show ?thesis by blast
qed

text \<open>The saturation in \<open>chunk_end\<close> does not cover the walk: for a beginning near the end of the position space
  the plain additions of the walk wrap, and the chunk end is the chunk's own beginning.\<close>

lemma chunk_end_wraps:
  "chunk_end 0xFFFFFFFFFFFF0000 100000 0 = 0xFFFFFFFFFFFF0000"
proof -
  have z: "(18446744073709551616 :: u64) = 0" by simp
  have 1: "add_with_overhead 0xFFFFFFFFFFFF0000 100040 = add_with_overhead 0 34528"
    by (subst add_with_overhead.simps) (simp add: walk_eval(4-) z)
  have 2: "add_with_overhead 0 34528 = 34552"
    by (subst add_with_overhead.simps) (simp add: walk_eval(4-))
  show ?thesis
    by (simp add: walk_eval(1,2,4-) 1 2)
qed

end
