(* ===== verification/HeaderWire.thy ===== *)
theory HeaderWire
  imports Prelude
begin

text \<open>
  \<^verbatim>\<open>riegeli/src/hash.rs\<close>, and the interface that the two headers of the format share: a
  fixed-size little-endian form whose first eight bytes hold a hash of the rest.  HighwayHash
  itself is the \<open>highway\<close> crate: it is a parameter \<open>hw\<close>, a function of the key words and the
  data, and nothing is assumed of it.
\<close>

type_synonym hasher = "u64 list \<Rightarrow> bytes \<Rightarrow> u64"

definition RIEGELI_HASH_KEY :: "u64 list" where
  "RIEGELI_HASH_KEY =
     [0x2f696c6567656952, 0x0a7364726f636572, 0x2f696c6567656952, 0x0a7364726f636572]"

definition highway_hash_64 :: "hasher \<Rightarrow> bytes \<Rightarrow> u64" where
  "highway_hash_64 hw data = hw RIEGELI_HASH_KEY data"

text \<open>The Rust slice \<open>bytes[a..b]\<close>, for \<open>a \<le> b \<le> len\<close>.\<close>

definition slice :: "nat \<Rightarrow> nat \<Rightarrow> 'a list \<Rightarrow> 'a list" where
  "slice a b bs = take (b - a) (drop a bs)"

lemma length_slice [simp]: "length (slice a b bs) = min (b - a) (length bs - a)"
  by (simp add: slice_def)

lemma slice_append_exact:
  "length xs = a \<Longrightarrow> length ys = b - a \<Longrightarrow> slice a b (xs @ ys @ zs) = ys"
  by (simp add: slice_def)

lemma slice_join: "a \<le> b \<Longrightarrow> b \<le> c \<Longrightarrow> slice a b bs @ slice b c bs = slice a c bs"
proof -
  assume ab: "a \<le> b" and bc: "b \<le> c"
  have "take (c - a) (drop a bs) = take ((b - a) + (c - b)) (drop a bs)"
    using ab bc by simp
  also have "\<dots> = take (b - a) (drop a bs) @ take (c - b) (drop b bs)"
    using ab by (simp only: take_add drop_drop) simp
  finally show ?thesis by (simp add: slice_def)
qed

lemma slice_all: "length bs \<le> b \<Longrightarrow> slice 0 b bs = bs"
  by (simp add: slice_def)

locale hashed_header =
  fixes to_b :: "'h \<Rightarrow> bytes" and from_b :: "bytes \<Rightarrow> 'h" and size_b :: nat
    and stored :: "'h \<Rightarrow> u64" and valid :: "hasher \<Rightarrow> 'h \<Rightarrow> bool"
  assumes from_to: "from_b (to_b h) = h"
    and to_from: "length bs = size_b \<Longrightarrow> to_b (from_b bs) = bs"
    and length_to: "length (to_b h) = size_b"
    and stored_bytes: "take 8 (to_b h) = to_le_bytes (stored h)"
    and valid_iff: "valid hw h \<longleftrightarrow> stored h = highway_hash_64 hw (drop 8 (to_b h))"
begin

lemma to_b_inj: "to_b h = to_b h' \<longleftrightarrow> h = h'"
  by (metis from_to)

text \<open>A valid header is determined by the bytes that its hash covers.\<close>

lemma valid_unique:
  assumes "valid hw h" "valid hw h'" "drop 8 (to_b h) = drop 8 (to_b h')"
  shows "h = h'"
proof -
  have "take 8 (to_b h) = take 8 (to_b h')"
    using assms by (simp add: stored_bytes valid_iff)
  then have "to_b h = to_b h'" using assms(3) by (metis append_take_drop_id)
  then show ?thesis by (simp add: to_b_inj)
qed

text \<open>Damage confined to the stored hash is always detected, whatever the hash function.\<close>

lemma hash_field_damage:
  assumes "length bs = size_b" "length bs' = size_b" "valid hw (from_b bs)"
    and "drop 8 bs' = drop 8 bs" "bs' \<noteq> bs"
  shows "\<not> valid hw (from_b bs')"
  using valid_unique [of hw "from_b bs" "from_b bs'"] assms to_from by metis

text \<open>Damage of the covered bytes is detected exactly when it changes their hash.\<close>

lemma body_damage:
  assumes "length bs = size_b" "length bs' = size_b" "valid hw (from_b bs)" "take 8 bs' = take 8 bs"
  shows "valid hw (from_b bs') \<longleftrightarrow> highway_hash_64 hw (drop 8 bs') = highway_hash_64 hw (drop 8 bs)"
proof -
  have "to_le_bytes (stored (from_b bs')) = to_le_bytes (stored (from_b bs))"
    using assms to_from stored_bytes by metis
  then have "stored (from_b bs') = stored (from_b bs)" by (metis from_to_le_bytes)
  then show ?thesis using assms to_from by (auto simp: valid_iff)
qed

end

end
