(* ===== verification/BlockHeader.thy ===== *)
theory BlockHeader
  imports HeaderWire
begin

text \<open>
  \<^verbatim>\<open>riegeli/src/block_header.rs\<close>: the 24-byte header at every block boundary, with its hash and
  its distances back to the chunk in progress and forward to the next chunk.
\<close>

record BlockHeader =
  header_hash :: u64
  previous_chunk :: u64
  next_chunk :: u64

definition block_from_parts :: "hasher \<Rightarrow> u64 \<Rightarrow> u64 \<Rightarrow> BlockHeader" where
  "block_from_parts hw prev nxt =
     \<lparr>header_hash = highway_hash_64 hw (to_le_bytes prev @ to_le_bytes nxt),
      previous_chunk = prev, next_chunk = nxt\<rparr>"

definition block_from_bytes :: "bytes \<Rightarrow> BlockHeader" where
  "block_from_bytes bs =
     \<lparr>header_hash = from_le_bytes (slice 0 8 bs),
      previous_chunk = from_le_bytes (slice 8 16 bs),
      next_chunk = from_le_bytes (slice 16 24 bs)\<rparr>"

definition block_to_bytes :: "BlockHeader \<Rightarrow> bytes" where
  "block_to_bytes h =
     to_le_bytes (header_hash h) @ to_le_bytes (previous_chunk h) @ to_le_bytes (next_chunk h)"

definition block_computed_hash :: "hasher \<Rightarrow> BlockHeader \<Rightarrow> u64" where
  "block_computed_hash hw h = highway_hash_64 hw (slice 8 24 (block_to_bytes h))"

definition block_is_valid :: "hasher \<Rightarrow> BlockHeader \<Rightarrow> bool" where
  "block_is_valid hw h \<longleftrightarrow> header_hash h = block_computed_hash hw h"

lemma length_block_to_bytes [simp]: "length (block_to_bytes h) = 24"
  by (simp add: block_to_bytes_def)

lemma block_from_to [simp]: "block_from_bytes (block_to_bytes h) = h"
  by (simp add: block_from_bytes_def block_to_bytes_def slice_def)

lemma block_to_from: "length bs = 24 \<Longrightarrow> block_to_bytes (block_from_bytes bs) = bs"
  by (simp add: block_from_bytes_def block_to_bytes_def to_from_le_bytes slice_join slice_all)

lemma block_from_parts_valid [simp]: "block_is_valid hw (block_from_parts hw p n)"
  by (simp add: block_is_valid_def block_computed_hash_def block_from_parts_def block_to_bytes_def slice_def)

lemma block_from_parts_sel [simp]:
  "previous_chunk (block_from_parts hw p n) = p" "next_chunk (block_from_parts hw p n) = n"
  by (simp_all add: block_from_parts_def)

interpretation block_header: hashed_header block_to_bytes block_from_bytes 24 header_hash block_is_valid
proof unfold_locales
  show "block_is_valid hw h \<longleftrightarrow> header_hash h = highway_hash_64 hw (drop 8 (block_to_bytes h))" for hw h
    by (simp add: block_is_valid_def block_computed_hash_def slice_def)
  show "take 8 (block_to_bytes h) = to_le_bytes (header_hash h)" for h
    by (simp add: block_to_bytes_def)
qed (simp_all add: block_to_from)

section \<open>Properties\<close>

text \<open>The 24-byte form and the header determine each other, and a header built from its two
  distances is valid, carries them, and is the only valid header that does.\<close>

theorem block_header_roundtrip:
  "block_from_bytes (block_to_bytes h) = h \<and>
   (length bs = 24 \<longrightarrow> block_to_bytes (block_from_bytes bs) = bs) \<and>
   (block_is_valid hw h \<and> previous_chunk h = p \<and> next_chunk h = n \<longleftrightarrow> h = block_from_parts hw p n)"
proof -
  have "h = block_from_parts hw p n"
    if "block_is_valid hw h" "previous_chunk h = p" "next_chunk h = n"
  proof (rule block_header.valid_unique [OF that(1) block_from_parts_valid])
    show "drop 8 (block_to_bytes h) = drop 8 (block_to_bytes (block_from_parts hw p n))"
      using that by (simp add: block_to_bytes_def)
  qed
  then show ?thesis by (auto simp: block_to_from)
qed

lemma block_header_roundtrip_witness:
  "block_to_bytes (block_from_bytes (replicate 24 7)) = replicate 24 7"
  using block_header_roundtrip [where bs = "replicate 24 7"] by simp

text \<open>Damage of a valid block header that leaves the hashed bytes alone is always detected;
  damage that leaves the stored hash alone is detected unless the hash function collides.\<close>

theorem block_header_damage:
  assumes "length bs = 24" and "length bs' = 24" and "block_is_valid hw (block_from_bytes bs)" and "bs' \<noteq> bs"
  shows "(drop 8 bs' = drop 8 bs \<longrightarrow> \<not> block_is_valid hw (block_from_bytes bs')) \<and>
    (take 8 bs' = take 8 bs \<longrightarrow>
      (block_is_valid hw (block_from_bytes bs') \<longleftrightarrow>
       highway_hash_64 hw (drop 8 bs') = highway_hash_64 hw (drop 8 bs)))"
  using block_header.hash_field_damage block_header.body_damage assms by blast

lemma block_header_damage_witness:
  "\<not> block_is_valid (\<lambda>k d. 0) (block_from_bytes (1 # replicate 23 0))"
proof -
  have "block_is_valid (\<lambda>k d. 0) (block_from_bytes (replicate 24 0))"
    by (simp add: block_is_valid_def block_computed_hash_def highway_hash_64_def block_from_bytes_def
        slice_def from_le_bytes_def numeral_eq_Suc)
  from block_header_damage [OF _ _ this, of "1 # replicate 23 0"] show ?thesis
    by (simp add: numeral_eq_Suc)
qed

end
