(* ===== verification/ChunkHeader.thy ===== *)
theory ChunkHeader
  imports HeaderWire
begin

text \<open>
  \<^verbatim>\<open>riegeli/src/chunk_header.rs\<close>: the chunk types with their wire bytes, and the 40-byte chunk
  header, whose fourth word packs the chunk type below the number of records.
\<close>

section \<open>Definitions\<close>

datatype ChunkType = FileSignature | FileMetadata | Padding | Simple | Transposed

text \<open>The discriminants: the bytes of \<open>'s'\<close>, \<open>'m'\<close>, \<open>'p'\<close>, \<open>'r'\<close> and \<open>'t'\<close>.\<close>

fun chunk_type_byte :: "ChunkType \<Rightarrow> u8" where
  "chunk_type_byte FileSignature = 0x73"
| "chunk_type_byte FileMetadata = 0x6d"
| "chunk_type_byte Padding = 0x70"
| "chunk_type_byte Simple = 0x72"
| "chunk_type_byte Transposed = 0x74"

definition chunk_type_try_from :: "u8 \<Rightarrow> ChunkType res" where
  "chunk_type_try_from b =
     (if b = 0x73 then Inr FileSignature else if b = 0x6d then Inr FileMetadata
      else if b = 0x70 then Inr Padding else if b = 0x72 then Inr Simple
      else if b = 0x74 then Inr Transposed else Inl (UnknownChunkType b))"

record ChunkHeader =
  ch_header_hash :: u64
  ch_data_size :: u64
  ch_data_hash :: u64
  ch_type_and_num_records :: u64
  ch_decoded_data_size :: u64

definition chunk_from_parts :: "hasher \<Rightarrow> bytes \<Rightarrow> ChunkType \<Rightarrow> u64 \<Rightarrow> u64 \<Rightarrow> ChunkHeader" where
  "chunk_from_parts hw data t num_records decoded_data_size =
     (let data_size = of_nat (length data);
          data_hash = highway_hash_64 hw data;
          packed = push_bit 8 num_records OR ucast (chunk_type_byte t);
          body = to_le_bytes data_size @ to_le_bytes data_hash @ to_le_bytes packed
                 @ to_le_bytes decoded_data_size
      in \<lparr>ch_header_hash = highway_hash_64 hw body, ch_data_size = data_size,
          ch_data_hash = data_hash, ch_type_and_num_records = packed,
          ch_decoded_data_size = decoded_data_size\<rparr>)"

definition chunk_from_bytes :: "bytes \<Rightarrow> ChunkHeader" where
  "chunk_from_bytes bs =
     \<lparr>ch_header_hash = from_le_bytes (slice 0 8 bs),
      ch_data_size = from_le_bytes (slice 8 16 bs),
      ch_data_hash = from_le_bytes (slice 16 24 bs),
      ch_type_and_num_records = from_le_bytes (slice 24 32 bs),
      ch_decoded_data_size = from_le_bytes (slice 32 40 bs)\<rparr>"

definition chunk_to_bytes :: "ChunkHeader \<Rightarrow> bytes" where
  "chunk_to_bytes h =
     to_le_bytes (ch_header_hash h) @ to_le_bytes (ch_data_size h) @ to_le_bytes (ch_data_hash h)
     @ to_le_bytes (ch_type_and_num_records h) @ to_le_bytes (ch_decoded_data_size h)"

definition ch_chunk_type :: "ChunkHeader \<Rightarrow> ChunkType res" where
  "ch_chunk_type h =
     (let b = (ucast (ch_type_and_num_records h AND 0xff) :: u8)
      in if b = 0x73 then Inr FileSignature else if b = 0x6d then Inr FileMetadata
         else if b = 0x70 then Inr Padding else if b = 0x72 then Inr Simple
         else if b = 0x74 then Inr Transposed
         else Inl (MalformedData ''unknown chunk type byte''))"

definition ch_num_records :: "ChunkHeader \<Rightarrow> u64" where
  "ch_num_records h = drop_bit 8 (ch_type_and_num_records h)"

definition ch_is_header_valid :: "hasher \<Rightarrow> ChunkHeader \<Rightarrow> bool" where
  "ch_is_header_valid hw h \<longleftrightarrow> ch_header_hash h = highway_hash_64 hw (slice 8 40 (chunk_to_bytes h))"

definition ch_is_data_valid :: "hasher \<Rightarrow> ChunkHeader \<Rightarrow> bytes \<Rightarrow> bool" where
  "ch_is_data_valid hw h data \<longleftrightarrow> ch_data_hash h = highway_hash_64 hw data"

section \<open>Lemmas\<close>

lemma chunk_type_try_from_byte [simp]: "chunk_type_try_from (chunk_type_byte t) = Inr t"
  by (cases t) (simp_all add: chunk_type_try_from_def)

lemma chunk_type_try_from_Inr: "chunk_type_try_from b = Inr t \<longleftrightarrow> b = chunk_type_byte t"
  by (cases t) (auto simp: chunk_type_try_from_def)

lemma length_chunk_to_bytes [simp]: "length (chunk_to_bytes h) = 40"
  by (simp add: chunk_to_bytes_def)

lemma chunk_from_to [simp]: "chunk_from_bytes (chunk_to_bytes h) = h"
  by (simp add: chunk_from_bytes_def chunk_to_bytes_def slice_def)

lemma chunk_to_from: "length bs = 40 \<Longrightarrow> chunk_to_bytes (chunk_from_bytes bs) = bs"
  by (simp add: chunk_from_bytes_def chunk_to_bytes_def to_from_le_bytes slice_join slice_all)

lemma ucast_and_ff: "ucast ((w :: u64) AND 0xff) = (ucast w :: u8)"
proof -
  have "w AND 0xff = take_bit 8 w" by (simp add: take_bit_eq_mask mask_eq_exp_minus_1)
  then show ?thesis by (auto intro!: bit_eqI simp: bit_simps)
qed

lemma packed_type: "ucast ((push_bit 8 n OR ucast b :: u64) AND 0xff) = (b :: u8)"
  unfolding ucast_and_ff by (rule bit_eqI) (auto simp: bit_simps)

lemma packed_records: "drop_bit 8 (push_bit 8 n OR ucast (b :: u8) :: u64) = take_bit 56 n"
  by (rule bit_eqI) (auto simp: bit_simps dest: bit_imp_le_length)

lemma ch_chunk_type_Inr:
  "ch_chunk_type h = Inr t \<longleftrightarrow> ucast (ch_type_and_num_records h AND 0xff) = chunk_type_byte t"
  by (cases t) (auto simp: ch_chunk_type_def Let_def)

lemma chunk_from_parts_sel [simp]:
  "ch_data_size (chunk_from_parts hw data t n d) = of_nat (length data)"
  "ch_data_hash (chunk_from_parts hw data t n d) = highway_hash_64 hw data"
  "ch_decoded_data_size (chunk_from_parts hw data t n d) = d"
  "ch_num_records (chunk_from_parts hw data t n d) = take_bit 56 n"
  "ch_chunk_type (chunk_from_parts hw data t n d) = Inr t"
  by (simp_all add: chunk_from_parts_def Let_def ch_num_records_def packed_records ch_chunk_type_Inr packed_type
      del: drop_bit_or)

lemma chunk_from_parts_valid [simp]:
  "ch_is_header_valid hw (chunk_from_parts hw data t n d)"
  "ch_is_data_valid hw (chunk_from_parts hw data t n d) data"
  by (simp_all add: ch_is_header_valid_def ch_is_data_valid_def chunk_from_parts_def Let_def
      chunk_to_bytes_def slice_def)

lemma ch_num_records_bound: "unat (ch_num_records h) < 2 ^ 56"
proof -
  have "unat (ch_num_records h) = unat (ch_type_and_num_records h) div 256"
    unfolding ch_num_records_def unat_drop_bit_eq by (simp add: drop_bit_eq_div)
  then show ?thesis
    using unat_less_2_64 [of "ch_type_and_num_records h"] by (simp add: less_mult_imp_div_less)
qed

lemma take_bit_56_id: "unat n < 2 ^ 56 \<Longrightarrow> take_bit 56 n = (n :: u64)"
  by (rule word_eq_unatI) (simp add: unsigned_take_bit_eq take_bit_nat_eq_self)

lemma unat_take_bit_56: "unat (take_bit 56 (n :: u64)) = unat n mod 2 ^ 56"
  unfolding unsigned_take_bit_eq by (simp only: take_bit_eq_mod)

interpretation chunk_header: hashed_header chunk_to_bytes chunk_from_bytes 40 ch_header_hash ch_is_header_valid
proof unfold_locales
  show "ch_is_header_valid hw h \<longleftrightarrow> ch_header_hash h = highway_hash_64 hw (drop 8 (chunk_to_bytes h))" for hw h
    by (simp add: ch_is_header_valid_def slice_def)
  show "take 8 (chunk_to_bytes h) = to_le_bytes (ch_header_hash h)" for h
    by (simp add: chunk_to_bytes_def)
qed (simp_all add: chunk_to_from)

section \<open>Properties\<close>

text \<open>C34. The 40-byte form and the chunk header determine each other; a valid header is
  determined by the 32 bytes its hash covers; and damage that touches only the stored hash of a
  valid header is always detected.\<close>

theorem chunk_header_roundtrip:
  "chunk_from_bytes (chunk_to_bytes h) = h \<and>
   (length bs = 40 \<longrightarrow> chunk_to_bytes (chunk_from_bytes bs) = bs) \<and>
   (ch_is_header_valid hw h \<and> ch_is_header_valid hw h' \<and>
      drop 8 (chunk_to_bytes h) = drop 8 (chunk_to_bytes h') \<longrightarrow> h = h') \<and>
   (length bs = 40 \<and> length bs' = 40 \<and> ch_is_header_valid hw (chunk_from_bytes bs) \<and>
      drop 8 bs' = drop 8 bs \<and> bs' \<noteq> bs \<longrightarrow> \<not> ch_is_header_valid hw (chunk_from_bytes bs'))"
proof (intro conjI impI)
  show "h = h'" if "ch_is_header_valid hw h \<and> ch_is_header_valid hw h' \<and>
      drop 8 (chunk_to_bytes h) = drop 8 (chunk_to_bytes h')"
    using that chunk_header.valid_unique by blast
  show "\<not> ch_is_header_valid hw (chunk_from_bytes bs')"
    if "length bs = 40 \<and> length bs' = 40 \<and> ch_is_header_valid hw (chunk_from_bytes bs) \<and>
      drop 8 bs' = drop 8 bs \<and> bs' \<noteq> bs"
    using that chunk_header.hash_field_damage by blast
qed (simp_all add: chunk_to_from)

lemma chunk_header_roundtrip_witness:
  "chunk_to_bytes (chunk_from_bytes (replicate 40 7)) = replicate 40 7"
  using chunk_header_roundtrip [where bs = "replicate 40 7"] by simp

text \<open>A header built from its parts is valid for its data and gives back the type, the sizes
  and the number of records, the latter reduced to its 56 bits; so a count below \<open>2^56\<close> is exact.\<close>

theorem chunk_header_from_parts:
  "let h = chunk_from_parts hw data t n d in
   ch_is_header_valid hw h \<and> ch_is_data_valid hw h data \<and> ch_chunk_type h = Inr t \<and>
   ch_data_size h = of_nat (length data) \<and> ch_decoded_data_size h = d \<and>
   unat (ch_num_records h) = unat n mod 2 ^ 56 \<and> (unat n < 2 ^ 56 \<longrightarrow> ch_num_records h = n)"
  using unat_take_bit_56 [of n] take_bit_56_id [of n] by (simp add: Let_def)

lemma chunk_header_from_parts_witness:
  "ch_num_records (chunk_from_parts (\<lambda>k d. 0) [1, 2] Simple 42 2) = 42"
  using chunk_header_from_parts [of "\<lambda>k d. 0" "[1, 2]" Simple 42 2] by (simp add: Let_def)

end
