(* ===== verification/RecordPosition.thy ===== *)
theory RecordPosition
  imports BlockArithmetic
begin

text \<open>
  \<^verbatim>\<open>riegeli/src/record_position.rs\<close> and \<^verbatim>\<open>riegeli/src/skipped_region.rs\<close>: a record's position as
  the file position of its chunk and its index there, the text form of a position, and the region
  of a file that recovery skips.  The decimal forms of \<open>u64\<close> values are those of the Rust standard
  library: no leading zeros when written; an optional plus sign and at least one digit when read.
\<close>

section \<open>Definitions\<close>

datatype RecordPosition = RecordPosition (chunk_begin: u64) (record_index: u64)

text \<open>\<open>derive(PartialOrd, Ord)\<close>: the fields are compared in order.\<close>

instantiation RecordPosition :: linorder
begin

definition less_eq_RecordPosition :: "RecordPosition \<Rightarrow> RecordPosition \<Rightarrow> bool" where
  "less_eq_RecordPosition p q \<longleftrightarrow>
     chunk_begin p < chunk_begin q \<or> chunk_begin p = chunk_begin q \<and> record_index p \<le> record_index q"

definition less_RecordPosition :: "RecordPosition \<Rightarrow> RecordPosition \<Rightarrow> bool" where
  "less_RecordPosition p q \<longleftrightarrow>
     chunk_begin p < chunk_begin q \<or> chunk_begin p = chunk_begin q \<and> record_index p < record_index q"

instance
  by standard (auto simp: less_eq_RecordPosition_def less_RecordPosition_def RecordPosition.expand)

end

definition numeric :: "RecordPosition \<Rightarrow> u64" where
  "numeric p = saturating_add (chunk_begin p) (record_index p)"

fun decimal :: "nat \<Rightarrow> string" where
  "decimal n = (if n < 10 then [char_of (48 + n)] else decimal (n div 10) @ [char_of (48 + n mod 10)])"

declare decimal.simps [simp del]

definition to_string :: "RecordPosition \<Rightarrow> string" where
  "to_string p = decimal (unat (chunk_begin p)) @ ''/'' @ decimal (unat (record_index p))"

definition to_digit :: "char \<Rightarrow> nat option" where
  "to_digit c = (let k = of_char c :: nat in if 48 \<le> k \<and> k \<le> 57 then Some (k - 48) else None)"

fun parse_digits :: "nat \<Rightarrow> string \<Rightarrow> nat option" where
  "parse_digits acc [] = Some acc"
| "parse_digits acc (c # cs) =
     (case to_digit c of None \<Rightarrow> None
      | Some d \<Rightarrow> if 10 * acc + d \<le> u64_max then parse_digits (10 * acc + d) cs else None)"

text \<open>\<open>str::parse::<u64>\<close>.\<close>

definition parse_u64 :: "string \<Rightarrow> u64 option" where
  "parse_u64 s =
     (let ds = (case s of [] \<Rightarrow> [] | c # cs \<Rightarrow> if c = CHR ''+'' then cs else s)
      in if ds = [] then None else map_option of_nat (parse_digits 0 ds))"

text \<open>\<open>str::split_once\<close>.\<close>

fun split_once :: "char \<Rightarrow> string \<Rightarrow> (string \<times> string) option" where
  "split_once d [] = None"
| "split_once d (c # cs) =
     (if c = d then Some ([], cs) else map_option (\<lambda>(a, b). (c # a, b)) (split_once d cs))"

definition from_str :: "string \<Rightarrow> RecordPosition res" where
  "from_str s =
     (case split_once (CHR ''/'') s of
        None \<Rightarrow> Inl (MalformedData ''invalid RecordPosition format (expected 'chunk/index')'')
      | Some (chunk_str, index_str) \<Rightarrow>
          (case parse_u64 chunk_str of
             None \<Rightarrow> Inl (MalformedData ''invalid chunk_begin in RecordPosition'')
           | Some cb \<Rightarrow>
               (case parse_u64 index_str of
                  None \<Rightarrow> Inl (MalformedData ''invalid record_index in RecordPosition'')
                | Some ri \<Rightarrow>
                    if - 1 - cb < ri then Inl (MalformedData ''RecordPosition overflow'')
                    else Inr (RecordPosition cb ri))))"

record SkippedRegion =
  region_begin :: u64
  region_end :: u64
  region_message :: string

definition skipped_region_new :: "u64 \<Rightarrow> u64 \<Rightarrow> string \<Rightarrow> SkippedRegion" where
  "skipped_region_new b e m = \<lparr>region_begin = b, region_end = e, region_message = m\<rparr>"

definition region_length :: "SkippedRegion \<Rightarrow> u64" where
  "region_length r = region_end r - region_begin r"

section \<open>Decimal text\<close>

lemma to_digit_char: "d < 10 \<Longrightarrow> to_digit (char_of (48 + d)) = Some d"
  by (simp add: to_digit_def Let_def of_char_of)

lemma parse_digits_append:
  "parse_digits acc (s @ t) = Option.bind (parse_digits acc s) (\<lambda>a. parse_digits a t)"
  by (induction s arbitrary: acc) (auto split: option.splits)

lemma parse_digits_decimal: "n \<le> u64_max \<Longrightarrow> parse_digits 0 (decimal n) = Some n"
proof (induction n rule: decimal.induct)
  case (1 n)
  show ?case
  proof (cases "n < 10")
    case True
    then show ?thesis by (subst decimal.simps) (simp add: to_digit_char)
  next
    case False
    moreover from this have "parse_digits 0 (decimal (n div 10)) = Some (n div 10)"
      using 1 by simp
    moreover have "10 * (n div 10) + n mod 10 = n" by simp
    ultimately show ?thesis
      using "1.prems" by (subst decimal.simps) (simp add: parse_digits_append to_digit_char)
  qed
qed

lemma decimal_chars: "c \<in> set (decimal n) \<Longrightarrow> \<exists>d < 10. c = char_of (48 + d :: nat)"
proof (induction n rule: decimal.induct)
  case (1 n)
  show ?case
  proof (cases "n < 10")
    case True
    with "1.prems" show ?thesis by (subst (asm) decimal.simps) auto
  next
    case False
    with "1.prems" have "c \<in> set (decimal (n div 10)) \<or> c = char_of (48 + n mod 10)"
      by (subst (asm) decimal.simps) auto
    moreover have "n mod 10 < 10" by simp
    ultimately show ?thesis using "1.IH" [OF False] by blast
  qed
qed

lemma decimal_ne [simp]: "decimal n \<noteq> []"
  by (subst decimal.simps) simp

lemma decimal_no: 
  assumes "of_char c < (48 :: nat)"
  shows "c \<notin> set (decimal n)"
  using decimal_chars [of c n] assms by (auto simp: of_char_of)

lemma parse_u64_decimal: "parse_u64 (decimal (unat w)) = Some w"
proof -
  obtain c cs where d: "decimal (unat w) = c # cs" by (cases "decimal (unat w)") auto
  have "c \<noteq> CHR ''+''" using decimal_no [of "CHR ''+''" "unat w"] d by auto
  then show ?thesis
    using parse_digits_decimal [of "unat w"] d by (simp add: parse_u64_def)
qed

lemma split_once_append: "d \<notin> set a \<Longrightarrow> split_once d (a @ d # b) = Some (a, b)"
  by (induction a) auto

lemma minus_1_minus_less: "(- 1 - cb < ri) \<longleftrightarrow> u64_max < unat cb + unat (ri :: u64)"
proof -
  have "unat (- 1 - cb) = u64_max - unat cb"
    by (subst unat_sub_u64) (simp_all del: unat_u64_max add: unat_u64_max [simplified])
  then show ?thesis
    unfolding word_less_nat_alt using unat_less_2_64 [of cb] by linarith
qed

lemma from_str_Inr:
  "from_str s = Inr p \<Longrightarrow> unat (chunk_begin p) + unat (record_index p) \<le> u64_max"
  by (auto simp: from_str_def minus_1_minus_less not_less split: option.splits if_splits)

lemma from_str_to_string:
  "from_str (to_string p) =
    (if unat (chunk_begin p) + unat (record_index p) \<le> u64_max then Inr p
     else Inl (MalformedData ''RecordPosition overflow''))"
proof -
  have "split_once (CHR ''/'') (to_string p) = Some (decimal (unat (chunk_begin p)), decimal (unat (record_index p)))"
    unfolding to_string_def using decimal_no [of "CHR ''/''" "unat (chunk_begin p)"]
    by (simp add: split_once_append)
  then show ?thesis
    by (cases p) (auto simp: from_str_def parse_u64_decimal minus_1_minus_less)
qed

section \<open>Properties\<close>

text \<open>Writing a position and reading it back returns it exactly when the sum of its fields is a
  64-bit number, and reports the overflow otherwise; a position that was read has the exact sum
  as its numeric value.\<close>

theorem record_position_roundtrip:
  "(from_str (to_string p) = (if unat (chunk_begin p) + unat (record_index p) \<le> u64_max then Inr p
      else Inl (MalformedData ''RecordPosition overflow''))) \<and>
   (from_str s = Inr q \<longrightarrow> unat (numeric q) = unat (chunk_begin q) + unat (record_index q))"
  using from_str_Inr [of s q] by (auto simp: from_str_to_string numeric_def unat_saturating_add)

lemma record_position_roundtrip_witness:
  "unat (numeric (RecordPosition 24 7)) = 31"
proof -
  have "from_str (to_string (RecordPosition 24 7)) = Inr (RecordPosition 24 7)"
    by (simp add: from_str_to_string)
  with record_position_roundtrip [of "RecordPosition 24 7" "to_string (RecordPosition 24 7)" "RecordPosition 24 7"]
  show ?thesis by simp
qed

text \<open>Numeric positions order the records of a file: a record inside a chunk has a smaller
  numeric position than every record of a chunk that begins at or after the first chunk's end, and
  the record order is the lexicographic order of positions.\<close>

theorem numeric_order:
  assumes "is_possible_chunk_boundary b" and "chunk_fits b d n" and "i < n"
    and "chunk_end b d n \<le> b'" and "unat b' + unat j \<le> u64_max"
  shows "RecordPosition b i < RecordPosition b' j \<and>
    numeric (RecordPosition b i) < numeric (RecordPosition b' j)"
proof -
  have e: "unat (chunk_end b d n) = chunk_end_nat (unat b) (unat d) (unat n)"
    using assms by (simp add: unat_chunk_end)
  have "unat b + unat n \<le> unat b'" "unat b < unat b'"
    using chunk_end_nat_gt [of "unat b" "unat d" "unat n"] chunk_end_nat_gt(2) [of "unat b" "unat n" "unat d"]
      e assms(4) by (auto simp: word_le_nat_alt)
  moreover have "unat b + unat i < unat b + unat n" using assms(3) by (simp add: word_less_nat_alt)
  moreover have "unat b + unat i \<le> u64_max"
    using assms(2,3) by (simp add: chunk_fits_def word_less_nat_alt)
  ultimately show ?thesis
    using assms(5)
    by (simp add: less_RecordPosition_def numeric_def word_less_nat_alt unat_saturating_add)
qed

lemma numeric_order_witness:
  "numeric (RecordPosition 64 2) < numeric (RecordPosition 200 0)"
proof -
  have e: "chunk_end 64 10 3 \<le> 200"
    by (simp add: word_le_nat_alt unat_chunk_end chunk_end_nat_def round_up_nat_def layout_eval)
  have "is_possible_chunk_boundary 64" "chunk_fits 64 10 3" "(2::u64) < 3"
    by (simp_all add: layout_eval)
  from numeric_order [OF this e, of 0] show ?thesis by simp
qed

end
