(* ===== verification/Compression.thy ===== *)
theory Compression
  imports Varint
begin

text \<open>
  \<^verbatim>\<open>riegeli/src/compression.rs\<close>: the compression types, the codec dispatch of compression and
  capped decompression, and the two framings with size prefixes.  The codecs themselves are the
  \<open>brotli\<close>, \<open>zstd\<close> and \<open>snap\<close> crates; their calls are the fields of the parameter \<open>codec\<close>,
  together with the cargo features that enable them.
\<close>

section \<open>Types\<close>

datatype CompressionType = None_Compression | Brotli | Zstd | Snappy

text \<open>The discriminants: 0 and the bytes of \<open>'b'\<close>, \<open>'z'\<close> and \<open>'s'\<close>.\<close>

fun compression_byte :: "CompressionType \<Rightarrow> u8" where
  "compression_byte None_Compression = 0"
| "compression_byte Brotli = 0x62"
| "compression_byte Zstd = 0x7a"
| "compression_byte Snappy = 0x73"

definition compression_try_from :: "u8 \<Rightarrow> CompressionType res" where
  "compression_try_from b =
     (if b = 0 then Inr None_Compression else if b = 0x62 then Inr Brotli
      else if b = 0x7a then Inr Zstd else if b = 0x73 then Inr Snappy
      else Inl (UnknownCompressionType b))"

record CompressOptions =
  opt_level :: "int option"
  opt_window_log :: "nat option"

definition default_compress_options :: CompressOptions where
  "default_compress_options = \<lparr>opt_level = None, opt_window_log = None\<rparr>"

text \<open>
  What the crates answer.  \<open>BrotliDecompressStream\<close> is given the whole input and \<open>n\<close> bytes of
  output space in total; on success it reports the output and the input bytes it left over.  The
  \<open>zstd\<close> stream encoder can fail in four calls.  Reading a \<open>zstd\<close> frame through a limit of \<open>n\<close>
  bytes yields the bytes read and how much of the input was consumed.
\<close>

datatype brotli_result =
    ResultSuccess bytes nat
  | NeedsMoreOutput
  | NeedsMoreInput
  | ResultFailure

datatype zstd_stage = ZstdInit | ZstdWindowLog | ZstdCompress | ZstdFinish

datatype zstd_read_error = ZstdOpen | ZstdWindowLogMax | ZstdRead

record codec =
  feature_brotli :: bool
  feature_zstd :: bool
  feature_snappy :: bool
  brotli_encode :: "nat \<Rightarrow> nat \<Rightarrow> bytes \<Rightarrow> unit + bytes"
  brotli_stream :: "bytes \<Rightarrow> nat \<Rightarrow> brotli_result"
  zstd_encode_all :: "int \<Rightarrow> bytes \<Rightarrow> unit + bytes"
  zstd_stream_encode :: "int \<Rightarrow> nat \<Rightarrow> bytes \<Rightarrow> zstd_stage + bytes"
  zstd_read :: "nat \<Rightarrow> bytes \<Rightarrow> nat \<Rightarrow> zstd_read_error + bytes \<times> nat"
  snap_compress :: "bytes \<Rightarrow> unit + bytes"
  snap_decompress :: "bytes \<Rightarrow> unit + bytes"
  snap_decompress_len :: "bytes \<Rightarrow> unit + nat"

section \<open>Codecs\<close>

definition clamp_int :: "int \<Rightarrow> int \<Rightarrow> int \<Rightarrow> int" where
  "clamp_int lo hi x = (if x < lo then lo else if hi < x then hi else x)"

definition clamp_nat :: "nat \<Rightarrow> nat \<Rightarrow> nat \<Rightarrow> nat" where
  "clamp_nat lo hi x = (if x < lo then lo else if hi < x then hi else x)"

definition unwrap_or :: "'a \<Rightarrow> 'a option \<Rightarrow> 'a" where
  "unwrap_or d x = (case x of None \<Rightarrow> d | Some y \<Rightarrow> y)"

definition exceeds_error :: riegeli_error where
  "exceeds_error = MalformedData ''decompressed data exceeds its declared size''"

definition compress_brotli :: "codec \<Rightarrow> bytes \<Rightarrow> CompressOptions \<Rightarrow> bytes res" where
  "compress_brotli C input opts =
     (let quality = nat (clamp_int 0 11 (unwrap_or 6 (opt_level opts)));
          lgwin = clamp_nat 10 30 (unwrap_or 22 (opt_window_log opts))
      in map_err (\<lambda>_. MalformedData ''brotli compress error'') (brotli_encode C quality lgwin input))"

definition MAX_DECOMPRESS_PREALLOC :: nat where "MAX_DECOMPRESS_PREALLOC = 16777216"

text \<open>The loop of \<open>decompress_brotli\<close>; \<open>len\<close> is the current length of the output buffer.\<close>

function brotli_loop :: "codec \<Rightarrow> bytes \<Rightarrow> nat \<Rightarrow> nat \<Rightarrow> nat \<Rightarrow> bytes res" where
  "brotli_loop C input max_len hard_cap len =
     (case brotli_stream C input len of
        ResultSuccess out available_in \<Rightarrow>
          if available_in \<noteq> 0
          then Inl (MalformedData ''trailing data after Brotli-compressed stream'')
          else if max_len < length out then Inl exceeds_error
          else Inr out
      | NeedsMoreOutput \<Rightarrow>
          if hard_cap \<le> len then Inl exceeds_error
          else brotli_loop C input max_len hard_cap (min (max (2 * len) 4096) hard_cap)
      | NeedsMoreInput \<Rightarrow> Inl (MalformedData ''brotli decompress error: truncated stream'')
      | ResultFailure \<Rightarrow> Inl (MalformedData ''brotli decompress error: invalid stream''))"
  by pat_completeness auto

termination
  by (relation "measure (\<lambda>(C, input, max_len, hard_cap, len). hard_cap - len)") auto

declare brotli_loop.simps [simp del]

definition decompress_brotli :: "codec \<Rightarrow> bytes \<Rightarrow> u64 \<Rightarrow> bytes res" where
  "decompress_brotli C input max_len =
     (let hard_cap = unat (saturating_add max_len 1)
      in brotli_loop C input (unat max_len) hard_cap (max (min hard_cap MAX_DECOMPRESS_PREALLOC) 64))"

fun zstd_stage_error :: "zstd_stage \<Rightarrow> riegeli_error" where
  "zstd_stage_error ZstdInit = MalformedData ''zstd encoder init''"
| "zstd_stage_error ZstdWindowLog = MalformedData ''zstd window_log''"
| "zstd_stage_error ZstdCompress = MalformedData ''zstd compress error''"
| "zstd_stage_error ZstdFinish = MalformedData ''zstd finish error''"

definition compress_zstd :: "codec \<Rightarrow> bytes \<Rightarrow> CompressOptions \<Rightarrow> bytes res" where
  "compress_zstd C input opts =
     (let level = clamp_int (- 131072) 22 (unwrap_or 3 (opt_level opts))
      in case opt_window_log opts of
           Some wlog \<Rightarrow> map_err zstd_stage_error (zstd_stream_encode C level wlog input)
         | None \<Rightarrow> map_err (\<lambda>_. MalformedData ''zstd compress error'') (zstd_encode_all C level input))"

fun zstd_read_error_of :: "zstd_read_error \<Rightarrow> riegeli_error" where
  "zstd_read_error_of ZstdOpen = MalformedData ''zstd decompress error''"
| "zstd_read_error_of ZstdWindowLogMax = MalformedData ''zstd window_log_max''"
| "zstd_read_error_of ZstdRead = MalformedData ''zstd decompress error''"

definition decompress_zstd :: "codec \<Rightarrow> bytes \<Rightarrow> u64 \<Rightarrow> bytes res" where
  "decompress_zstd C input max_len =
     bind_res (map_err zstd_read_error_of (zstd_read C 31 input (unat (saturating_add max_len 1))))
       (\<lambda>(output, consumed).
          if unat max_len < length output then Inl exceeds_error
          else if consumed < length input
          then Inl (MalformedData ''trailing data after Zstd-compressed stream'')
          else Inr output)"

definition compress_snappy :: "codec \<Rightarrow> bytes \<Rightarrow> bytes res" where
  "compress_snappy C input = map_err (\<lambda>_. MalformedData ''snappy compress error'') (snap_compress C input)"

definition decompress_snappy :: "codec \<Rightarrow> bytes \<Rightarrow> bytes res" where
  "decompress_snappy C input = map_err (\<lambda>_. MalformedData ''snappy decompress error'') (snap_decompress C input)"

section \<open>Dispatch and framing\<close>

definition compress_data :: "codec \<Rightarrow> bytes \<Rightarrow> CompressionType \<Rightarrow> CompressOptions \<Rightarrow> bytes res" where
  "compress_data C data ct opts =
     (case ct of
        None_Compression \<Rightarrow> Inr data
      | Brotli \<Rightarrow> if feature_brotli C then compress_brotli C data opts
                  else Inl (UnsupportedCompression (compression_byte Brotli))
      | Zstd \<Rightarrow> if feature_zstd C then compress_zstd C data opts
                else Inl (UnsupportedCompression (compression_byte Zstd))
      | Snappy \<Rightarrow> if feature_snappy C then compress_snappy C data
                  else Inl (UnsupportedCompression (compression_byte Snappy)))"

definition compress_with_prefix :: "codec \<Rightarrow> bytes \<Rightarrow> CompressionType \<Rightarrow> CompressOptions \<Rightarrow> bytes res" where
  "compress_with_prefix C data ct opts =
     bind_res (compress_data C data ct opts) (\<lambda>compressed.
       if ct = None_Compression then Inr compressed
       else Inr (encode_u64 (of_nat (length data)) @ compressed))"

definition compress_length_prefixed :: "codec \<Rightarrow> bytes \<Rightarrow> CompressionType \<Rightarrow> CompressOptions \<Rightarrow> bytes res" where
  "compress_length_prefixed C data ct opts =
     bind_res (compress_data C data ct opts) (\<lambda>compressed.
       let blob_len = (of_nat (length compressed) :: u64);
           blob_len = (if ct \<noteq> None_Compression
                       then blob_len + of_nat (length_varint_u64 (of_nat (length data)))
                       else blob_len)
       in Inr (encode_u64 blob_len
               @ (if ct \<noteq> None_Compression then encode_u64 (of_nat (length data)) else [])
               @ compressed))"

definition decompress_data_capped :: "codec \<Rightarrow> bytes \<Rightarrow> CompressionType \<Rightarrow> u64 \<Rightarrow> bytes res" where
  "decompress_data_capped C data ct max_len =
     (case ct of
        None_Compression \<Rightarrow> if unat max_len < length data then Inl exceeds_error else Inr data
      | Brotli \<Rightarrow> if feature_brotli C then decompress_brotli C data max_len
                  else Inl (UnsupportedCompression (compression_byte Brotli))
      | Zstd \<Rightarrow> if feature_zstd C then decompress_zstd C data max_len
                else Inl (UnsupportedCompression (compression_byte Zstd))
      | Snappy \<Rightarrow>
          if feature_snappy C then
            bind_res (map_err (\<lambda>_. MalformedData ''snappy length error'') (snap_decompress_len C data))
              (\<lambda>declared. if unat max_len < declared then Inl exceeds_error
                          else decompress_snappy C data)
          else Inl (UnsupportedCompression (compression_byte Snappy)))"

definition decompress_with_prefix :: "codec \<Rightarrow> bytes \<Rightarrow> CompressionType \<Rightarrow> bytes res" where
  "decompress_with_prefix C data ct =
     (if ct = None_Compression then Inr data
      else bind_res (map_err (\<lambda>_. MalformedData ''reading uncompressed_size prefix'') (decode_u64 data))
        (\<lambda>(uncompressed_size, consumed).
           bind_res (decompress_data_capped C (drop consumed data) ct uncompressed_size) (\<lambda>out.
             if of_nat (length out) \<noteq> uncompressed_size
             then Inl (MalformedData ''decompressed size != declared'')
             else Inr out)))"

section \<open>What the codecs promise\<close>

text \<open>
  \<open>lossless\<close> is the documented behaviour of the crates on what they produced themselves:
  decompression gives the data back.  A Brotli stream asks for more room while its output does not
  fit, and may do so once more when the output fills the room exactly; a \<open>zstd\<close> frame read
  through a limit above its content is read to its end; a Snappy frame declares its length.
  \<open>snappy_declares\<close> says that a decompressed Snappy frame has the declared length.
\<close>

definition lossless :: "codec \<Rightarrow> bool" where
  "lossless C \<longleftrightarrow>
    (\<forall>q w x z n. brotli_encode C q w x = Inr z \<longrightarrow>
       brotli_stream C z n = ResultSuccess x 0 \<and> length x \<le> n \<or>
       brotli_stream C z n = NeedsMoreOutput \<and> n \<le> length x) \<and>
    (\<forall>l x z n. (zstd_encode_all C l x = Inr z \<or> (\<exists>w. zstd_stream_encode C l w x = Inr z)) \<longrightarrow>
       length x < n \<longrightarrow> zstd_read C 31 z n = Inr (x, length z)) \<and>
    (\<forall>x z. snap_compress C x = Inr z \<longrightarrow>
       snap_decompress_len C z = Inr (length x) \<and> snap_decompress C z = Inr x)"

definition snappy_declares :: "codec \<Rightarrow> bool" where
  "snappy_declares C \<longleftrightarrow>
    (\<forall>z n y. snap_decompress_len C z = Inr n \<longrightarrow> snap_decompress C z = Inr y \<longrightarrow> length y = n)"

text \<open>A codec that stores its input unchanged behaves so.\<close>

definition store_codec :: codec where
  "store_codec =
     \<lparr>feature_brotli = True, feature_zstd = True, feature_snappy = True,
      brotli_encode = (\<lambda>q w x. Inr x),
      brotli_stream = (\<lambda>z n. if length z \<le> n then ResultSuccess z 0 else NeedsMoreOutput),
      zstd_encode_all = (\<lambda>l x. Inr x),
      zstd_stream_encode = (\<lambda>l w x. Inr x),
      zstd_read = (\<lambda>w z n. Inr (take n z, min n (length z))),
      snap_compress = Inr, snap_decompress = Inr, snap_decompress_len = (\<lambda>z. Inr (length z))\<rparr>"

lemma lossless_store_codec: "lossless store_codec" "snappy_declares store_codec"
  by (auto simp: lossless_def snappy_declares_def store_codec_def)

section \<open>Lemmas\<close>

lemma compression_try_from_Inr: "compression_try_from b = Inr ct \<longleftrightarrow> b = compression_byte ct"
  by (cases ct) (auto simp: compression_try_from_def)

lemma brotli_loop_lossless:
  assumes "\<And>n. brotli_stream C z n = ResultSuccess x 0 \<and> length x \<le> n \<or>
               brotli_stream C z n = NeedsMoreOutput \<and> n \<le> length x"
    and "length x \<le> m" "length x < cap"
  shows "brotli_loop C z m cap len = Inr x"
proof (induction "cap - len" arbitrary: len rule: less_induct)
  case less
  show ?case
  proof (cases "brotli_stream C z len")
    case (ResultSuccess out k)
    then show ?thesis using assms(1) [of len] assms(2) by (subst brotli_loop.simps) auto
  next
    case NeedsMoreOutput
    then have "len < cap" using assms(1) [of len] assms(3) by auto
    then have "brotli_loop C z m cap (min (max (2 * len) 4096) cap) = Inr x"
      by (intro less) auto
    with NeedsMoreOutput \<open>len < cap\<close> show ?thesis by (subst brotli_loop.simps) simp
  qed (use assms(1) [of len] in auto)
qed

lemma decompress_compress_data:
  assumes C: "lossless C" and z: "compress_data C x ct opts = Inr z"
    and m: "length x \<le> unat m" "length x < u64_max"
  shows "decompress_data_capped C z ct m = Inr x"
proof (cases ct)
  case None_Compression
  then show ?thesis using z m by (simp add: compress_data_def decompress_data_capped_def)
next
  case Brotli
  then obtain q w where "feature_brotli C" "brotli_encode C q w x = Inr z"
    using z by (auto simp: compress_data_def compress_brotli_def Let_def split: if_splits)
  moreover from this C have "brotli_stream C z n = ResultSuccess x 0 \<and> length x \<le> n \<or>
       brotli_stream C z n = NeedsMoreOutput \<and> n \<le> length x" for n
    unfolding lossless_def by blast
  ultimately show ?thesis
    using Brotli m
    by (simp add: decompress_data_capped_def decompress_brotli_def Let_def brotli_loop_lossless
        unat_saturating_add)
next
  case Zstd
  then have "feature_zstd C" and
    "\<exists>l. zstd_encode_all C l x = Inr z \<or> (\<exists>w. zstd_stream_encode C l w x = Inr z)"
    using z by (auto simp: compress_data_def compress_zstd_def Let_def split: if_splits option.splits)
  with C have "zstd_read C 31 z n = Inr (x, length z)" if "length x < n" for n
    unfolding lossless_def using that by blast
  with \<open>feature_zstd C\<close> show ?thesis
    using Zstd m by (simp add: decompress_data_capped_def decompress_zstd_def unat_saturating_add)
next
  case Snappy
  then have "feature_snappy C" "snap_compress C x = Inr z"
    using z by (auto simp: compress_data_def compress_snappy_def split: if_splits)
  moreover from this C have "snap_decompress_len C z = Inr (length x)" "snap_decompress C z = Inr x"
    unfolding lossless_def by blast+
  ultimately show ?thesis
    using Snappy m by (simp add: decompress_data_capped_def decompress_snappy_def)
qed

lemma brotli_loop_capped: "brotli_loop C z m cap len = Inr y \<Longrightarrow> length y \<le> m"
  by (induction C z m cap len rule: brotli_loop.induct)
     (subst (asm) (2) brotli_loop.simps, auto split: brotli_result.splits if_splits)

lemma decompress_data_capped_length:
  "snappy_declares C \<Longrightarrow> decompress_data_capped C z ct m = Inr y \<Longrightarrow> length y \<le> unat m"
  by (cases ct)
     (auto simp: decompress_data_capped_def decompress_brotli_def decompress_zstd_def Let_def
        decompress_snappy_def snappy_declares_def bind_res_eq_Inr
        split: if_splits dest: brotli_loop_capped)

lemma of_nat_length_inj:
  "length x \<le> u64_max \<Longrightarrow> length y \<le> u64_max \<Longrightarrow>
   (of_nat (length x) :: u64) = of_nat (length y) \<Longrightarrow> length x = length y"
  using unat_of_nat_u64 by metis

lemma decompress_with_prefix_compress:
  assumes "lossless C" and "compress_with_prefix C x ct opts = Inr z" and "length x < u64_max"
  shows "decompress_with_prefix C z ct = Inr x"
proof (cases "ct = None_Compression")
  case True
  with assms show ?thesis
    by (auto simp: compress_with_prefix_def decompress_with_prefix_def compress_data_def)
next
  case False
  with assms obtain y where y: "compress_data C x ct opts = Inr y"
    and z: "z = encode_u64 (of_nat (length x)) @ y"
    by (auto simp: compress_with_prefix_def bind_res_eq_Inr)
  have "decompress_data_capped C y ct (of_nat (length x)) = Inr x"
    using assms y by (intro decompress_compress_data) (auto simp: unat_of_nat_u64)
  with False z show ?thesis by (simp add: decompress_with_prefix_def)
qed

section \<open>Properties\<close>

text \<open>With codecs that are lossless on their own output, data framed with its size prefix is
  recovered for every compression type, and the length-prefixed framing writes the length of the
  very bytes that follow it.\<close>

theorem prefixed_roundtrip:
  assumes "lossless C" and "length x < 2 ^ 63"
    and "compress_with_prefix C x ct opts = Inr z" and "compress_length_prefixed C x ct opts = Inr z'"
    and "length z < 2 ^ 63"
  shows "decompress_with_prefix C z ct = Inr x \<and> z' = encode_u64 (of_nat (length z)) @ z"
proof -
  have "decompress_with_prefix C z ct = Inr x"
    using assms by (intro decompress_with_prefix_compress) auto
  moreover obtain y where y: "compress_data C x ct opts = Inr y"
    using assms(3) by (auto simp: compress_with_prefix_def bind_res_eq_Inr)
  have "z' = encode_u64 (of_nat (length z)) @ z"
  proof (cases "ct = None_Compression")
    case True
    with assms y show ?thesis
      by (auto simp: compress_with_prefix_def compress_length_prefixed_def)
  next
    case False
    with assms y have "z = encode_u64 (of_nat (length x)) @ y"
      and "z' = encode_u64 (of_nat (length y) + of_nat (length_varint_u64 (of_nat (length x)))) @ z"
      by (auto simp: compress_with_prefix_def compress_length_prefixed_def Let_def)
    then show ?thesis by (simp add: length_varint_u64_correct add.commute)
  qed
  ultimately show ?thesis by blast
qed

lemma prefixed_roundtrip_witness:
  "decompress_with_prefix store_codec [3, 7, 8, 9] Zstd = Inr [7, 8, 9]"
proof -
  have c: "compress_with_prefix store_codec [7, 8, 9] Zstd default_compress_options = Inr [3, 7, 8, 9]"
    by (simp add: compress_with_prefix_def compress_data_def compress_zstd_def store_codec_def
        default_compress_options_def Let_def encode_u64.simps)
  have d: "compress_length_prefixed store_codec [7, 8, 9] Zstd default_compress_options = Inr [4, 3, 7, 8, 9]"
    by (simp add: compress_length_prefixed_def compress_data_def compress_zstd_def store_codec_def
        default_compress_options_def Let_def encode_u64.simps length_varint_u64_correct)
  from prefixed_roundtrip [OF lossless_store_codec(1) _ c d] show ?thesis by simp
qed

text \<open>C35. Capped decompression never returns more than the cap, for every codec whose Snappy
  frames keep to their declared length, and decompression of a size-prefixed block returns exactly
  the declared number of bytes: a decompression bomb is an error.\<close>

theorem decompression_capped:
  assumes "snappy_declares C"
  shows "(decompress_data_capped C z ct m = Inr y \<longrightarrow> length y \<le> unat m) \<and>
    (decompress_with_prefix C z' ct = Inr y' \<and> ct \<noteq> None_Compression \<longrightarrow>
      (\<exists>n k. decode_u64 z' = Inr (n, k) \<and> length y' = unat n \<and>
             decompress_data_capped C (drop k z') ct n = Inr y'))"
proof -
  have "\<exists>n k. decode_u64 z' = Inr (n, k) \<and> length y' = unat n \<and>
             decompress_data_capped C (drop k z') ct n = Inr y'"
    if d: "decompress_with_prefix C z' ct = Inr y'" and ct: "ct \<noteq> None_Compression"
  proof -
    obtain n k where nk: "decode_u64 z' = Inr (n, k)" "decompress_data_capped C (drop k z') ct n = Inr y'"
      and l: "of_nat (length y') = n"
      using d ct by (auto simp: decompress_with_prefix_def bind_res_eq_Inr split: if_splits)
    have "length y' \<le> unat n" using decompress_data_capped_length [OF assms nk(2)] .
    then have "length y' \<le> u64_max" using unat_less_2_64 [of n] by linarith
    then have "length y' = unat n" using l by (auto simp: unat_of_nat_u64)
    with nk show ?thesis by blast
  qed
  then show ?thesis using decompress_data_capped_length [OF assms] by blast
qed

lemma decompression_capped_witness:
  "\<exists>n k. decode_u64 [2, 7, 8] = Inr (n, k) \<and> length [7, 8 :: u8] = unat n"
proof -
  have "decompress_with_prefix store_codec [2, 7, 8] Snappy = Inr [7, 8] \<and> Snappy \<noteq> None_Compression"
    by (simp add: decompress_with_prefix_def decompress_data_capped_def decompress_snappy_def
        store_codec_def decode_u64_def MAX_U64_VARINT_LEN_def)
  with decompression_capped [OF lossless_store_codec(2), of _ Snappy _ _ "[2, 7, 8]" "[7, 8]"]
  show ?thesis by blast
qed

end
