(* ===== verification/SimpleChunk.thy ===== *)
theory SimpleChunk
  imports ChunkHeader Compression
begin

text \<open>
  \<^verbatim>\<open>riegeli/src/simple_chunk.rs\<close>: a chunk of records stored one after the other, with the record
  sizes as varints in front.  Buffer positions and record counts (\<open>usize\<close>) are natural numbers;
  the additions that the source checks are checked against the 64-bit range, and a slice that
  could be out of range is an \<open>option\<close> whose \<open>None\<close> is the panic.
\<close>

section \<open>Chunks and the encoder\<close>

record Chunk =
  chunk_header :: ChunkHeader
  chunk_data :: bytes

record SimpleChunkEncoder =
  enc_records :: "bytes list"
  enc_compression :: CompressionType
  enc_compress_opts :: CompressOptions

definition sc_new_encoder :: SimpleChunkEncoder where
  "sc_new_encoder = \<lparr>enc_records = [], enc_compression = None_Compression,
     enc_compress_opts = default_compress_options\<rparr>"

definition sc_with_compression :: "CompressionType \<Rightarrow> SimpleChunkEncoder" where
  "sc_with_compression ct = \<lparr>enc_records = [], enc_compression = ct,
     enc_compress_opts = default_compress_options\<rparr>"

definition sc_with_options :: "CompressionType \<Rightarrow> CompressOptions \<Rightarrow> SimpleChunkEncoder" where
  "sc_with_options ct opts = \<lparr>enc_records = [], enc_compression = ct, enc_compress_opts = opts\<rparr>"

definition sc_add_record :: "bytes \<Rightarrow> SimpleChunkEncoder \<Rightarrow> SimpleChunkEncoder" where
  "sc_add_record data e = e\<lparr>enc_records := enc_records e @ [data]\<rparr>"

text \<open>The sizes section: one varint per record length.\<close>

definition sizes_section :: "bytes list \<Rightarrow> bytes" where
  "sizes_section records = concat (map (\<lambda>r. encode_u64 (of_nat (length r))) records)"

definition encode_compressed ::
  "bytes list \<Rightarrow> CompressionType \<Rightarrow> (bytes \<Rightarrow> bytes res) \<Rightarrow> bytes res" where
  "encode_compressed records ct compress =
     (let sizes = sizes_section records;
          vals = concat records;
          uncompressed_sizes_len = (of_nat (length sizes) :: u64);
          uncompressed_values_len = (of_nat (length vals) :: u64)
      in bind_res (compress sizes) (\<lambda>compressed_sizes.
         bind_res (compress vals) (\<lambda>compressed_values.
           let total_sizes_blob_len = of_nat (length_varint_u64 uncompressed_sizes_len)
                 + of_nat (length compressed_sizes)
           in Inr ([compression_byte ct]
                @ encode_u64 total_sizes_blob_len
                @ encode_u64 uncompressed_sizes_len
                @ compressed_sizes
                @ encode_u64 uncompressed_values_len
                @ compressed_values))))"

definition sc_encode_data :: "codec \<Rightarrow> SimpleChunkEncoder \<Rightarrow> bytes res" where
  "sc_encode_data C e =
     (case enc_compression e of
        None_Compression \<Rightarrow>
          let sizes = sizes_section (enc_records e)
          in Inr ([0] @ encode_u64 (of_nat (length sizes)) @ sizes @ concat (enc_records e))
      | Brotli \<Rightarrow>
          if feature_brotli C
          then encode_compressed (enc_records e) Brotli (\<lambda>b. compress_brotli C b (enc_compress_opts e))
          else Inl (UnsupportedCompression (compression_byte Brotli))
      | Zstd \<Rightarrow>
          if feature_zstd C
          then encode_compressed (enc_records e) Zstd (\<lambda>b. compress_zstd C b (enc_compress_opts e))
          else Inl (UnsupportedCompression (compression_byte Zstd))
      | Snappy \<Rightarrow>
          if feature_snappy C
          then encode_compressed (enc_records e) Snappy (compress_snappy C)
          else Inl (UnsupportedCompression (compression_byte Snappy)))"

definition sc_encode :: "hasher \<Rightarrow> codec \<Rightarrow> SimpleChunkEncoder \<Rightarrow> Chunk res" where
  "sc_encode hw C e =
     (let num_records = (of_nat (length (enc_records e)) :: u64);
          decoded_data_size = sum_list (map (\<lambda>r. (of_nat (length r) :: u64)) (enc_records e))
      in bind_res (sc_encode_data C e) (\<lambda>data.
           Inr \<lparr>chunk_header = chunk_from_parts hw data Simple num_records decoded_data_size,
                chunk_data = data\<rparr>))"

section \<open>The decoder\<close>

record SimpleChunkDecoder =
  record_ranges :: "(nat \<times> nat) list"
  dec_values :: bytes
  next_record :: nat

text \<open>
  The loop over the sizes section: \<open>n\<close> sizes are still to be read at \<open>pos\<close>, the sizes so far add
  up to \<open>decoded_total\<close>.  Returns the sizes, the position behind them and their sum.  The two
  decoders differ in the messages only.
\<close>

fun parse_sizes :: "string \<Rightarrow> string \<Rightarrow> u64 \<Rightarrow> bytes \<Rightarrow> nat \<Rightarrow> nat \<Rightarrow> u64 \<Rightarrow> (u64 list \<times> nat \<times> u64) res" where
  "parse_sizes eof_msg varint_msg decoded_data_size sizes_data 0 pos decoded_total = Inr ([], pos, decoded_total)"
| "parse_sizes eof_msg varint_msg decoded_data_size sizes_data (Suc n) pos decoded_total =
     (if length sizes_data \<le> pos then Inl (MalformedData eof_msg)
      else bind_res (map_err (\<lambda>_. MalformedData varint_msg) (decode_u64 (drop pos sizes_data)))
        (\<lambda>(size, consumed).
           case checked_add decoded_total size of
             None \<Rightarrow> Inl (MalformedData ''decoded data size larger than expected'')
           | Some t \<Rightarrow>
               if decoded_data_size < t
               then Inl (MalformedData ''decoded data size larger than expected'')
               else bind_res (parse_sizes eof_msg varint_msg decoded_data_size sizes_data n (pos + consumed) t)
                 (\<lambda>(sizes, pos', total). Inr (size # sizes, pos', total))))"

text \<open>\<open>sizes.iter().try_fold(0, checked_add)\<close>.\<close>

fun checked_sum :: "u64 \<Rightarrow> u64 list \<Rightarrow> u64 option" where
  "checked_sum acc [] = Some acc"
| "checked_sum acc (s # ss) = (case checked_add acc s of None \<Rightarrow> None | Some t \<Rightarrow> checked_sum t ss)"

text \<open>The loop that lays the records out one after the other.\<close>

fun record_ranges_from :: "nat \<Rightarrow> u64 list \<Rightarrow> (nat \<times> nat) list" where
  "record_ranges_from offset [] = []"
| "record_ranges_from offset (s # ss) = (offset, unat s) # record_ranges_from (offset + unat s) ss"

definition decode_uncompressed :: "bytes \<Rightarrow> nat \<Rightarrow> u64 \<Rightarrow> SimpleChunkDecoder res" where
  "decode_uncompressed payload num_records decoded_data_size =
     bind_res (map_err (\<lambda>_. MalformedData ''failed to read sizes_byte_length'') (decode_u64 payload))
     (\<lambda>(sizes_byte_len, sizes_start).
       if length payload - sizes_start < unat sizes_byte_len
       then Inl (MalformedData ''sizes section truncated'')
       else
       let sizes_end = sizes_start + unat sizes_byte_len;
           sizes_data = slice sizes_start sizes_end payload;
           values_start = sizes_end
       in bind_res (parse_sizes ''unexpected end of sizes section'' ''varint decode error''
            decoded_data_size sizes_data num_records 0 0)
       (\<lambda>(sizes, pos, decoded_total).
         if pos \<noteq> length sizes_data then Inl (MalformedData ''trailing data in sizes section'')
         else if decoded_total \<noteq> decoded_data_size
         then Inl (MalformedData ''decoded data size smaller than expected'')
         else case checked_sum 0 sizes of
           None \<Rightarrow> Inl (MalformedData ''record sizes sum overflows'')
         | Some total_values_len \<Rightarrow>
             let values_end = values_start + unat total_values_len
             in if u64_max < values_end then Inl (MalformedData ''values section end overflows'')
                else if length payload < values_end then Inl (MalformedData ''values section truncated'')
                else if values_end < length payload
                then Inl (MalformedData ''trailing data after values section'')
                else Inr \<lparr>record_ranges = record_ranges_from 0 sizes,
                          dec_values = slice values_start values_end payload, next_record = 0\<rparr>))"

definition decode_compressed ::
  "codec \<Rightarrow> bytes \<Rightarrow> nat \<Rightarrow> CompressionType \<Rightarrow> u64 \<Rightarrow> SimpleChunkDecoder res" where
  "decode_compressed C payload num_records ct decoded_data_size =
     (if payload = [] then Inl (MalformedData ''compressed payload is empty'')
      else bind_res (map_err (\<lambda>_. MalformedData ''failed to read sizes_blob_len'') (decode_u64 payload))
      (\<lambda>(sizes_blob_len, pos).
        if length payload - pos < unat sizes_blob_len
        then Inl (MalformedData ''sizes blob truncated'')
        else
        let sizes_blob_end = pos + unat sizes_blob_len;
            sizes_blob = slice pos sizes_blob_end payload
        in bind_res (map_err (\<lambda>_. MalformedData ''failed to read uncompressed_sizes_len'') (decode_u64 sizes_blob))
        (\<lambda>(uncompressed_sizes_len, consumed2).
          let compressed_sizes = drop consumed2 sizes_blob;
              max_sizes_len = saturating_mul (of_nat num_records) 10
          in if max_sizes_len < uncompressed_sizes_len
             then Inl (MalformedData ''claimed sizes length exceeds records x 10-byte varints'')
             else bind_res (decompress_data_capped C compressed_sizes ct uncompressed_sizes_len)
             (\<lambda>sizes_bytes.
               if of_nat (length sizes_bytes) \<noteq> uncompressed_sizes_len
               then Inl (MalformedData ''decompressed sizes length != expected'')
               else bind_res (parse_sizes ''unexpected end of decompressed sizes'' ''varint decode in sizes''
                    decoded_data_size sizes_bytes num_records 0 0)
               (\<lambda>(sizes, spos, decoded_total).
                 if spos \<noteq> length sizes_bytes then Inl (MalformedData ''trailing data in sizes section'')
                 else if decoded_total \<noteq> decoded_data_size
                 then Inl (MalformedData ''decoded data size smaller than expected'')
                 else
                 let values_blob = drop sizes_blob_end payload
                 in bind_res (map_err (\<lambda>_. MalformedData ''failed to read uncompressed_values_len'')
                      (decode_u64 values_blob))
                 (\<lambda>(uncompressed_values_len, consumed3).
                   if uncompressed_values_len \<noteq> decoded_data_size
                   then Inl (MalformedData ''claimed values length != decoded data size'')
                   else bind_res (decompress_data_capped C (drop consumed3 values_blob) ct decoded_data_size)
                   (\<lambda>values_bytes.
                     case checked_sum 0 sizes of
                       None \<Rightarrow> Inl (MalformedData ''record sizes sum overflows'')
                     | Some total_values_len \<Rightarrow>
                         if unat total_values_len \<noteq> length values_bytes
                         then Inl (MalformedData ''values length mismatch'')
                         else Inr \<lparr>record_ranges = record_ranges_from 0 sizes,
                                   dec_values = values_bytes, next_record = 0\<rparr>)))))))"

text \<open>\<open>SimpleChunkDecoder::new\<close>; \<open>usize\<close> has 64 bits, so the two conversions to it succeed.\<close>

definition sc_new :: "hasher \<Rightarrow> codec \<Rightarrow> Chunk \<Rightarrow> SimpleChunkDecoder res" where
  "sc_new hw C chunk =
     (if \<not> ch_is_data_valid hw (chunk_header chunk) (chunk_data chunk) then Inl DataHashMismatch
      else
      let num_records = unat (ch_num_records (chunk_header chunk));
          decoded_data_size = ch_decoded_data_size (chunk_header chunk)
      in case chunk_data chunk of
           [] \<Rightarrow> Inl (MalformedData ''chunk data is empty'')
         | cbyte # payload \<Rightarrow>
             if cbyte = 0 then decode_uncompressed payload num_records decoded_data_size
             else if cbyte = 0x62 then
               if feature_brotli C then decode_compressed C payload num_records Brotli decoded_data_size
               else Inl (UnsupportedCompression 0x62)
             else if cbyte = 0x7a then
               if feature_zstd C then decode_compressed C payload num_records Zstd decoded_data_size
               else Inl (UnsupportedCompression 0x7a)
             else if cbyte = 0x73 then
               if feature_snappy C then decode_compressed C payload num_records Snappy decoded_data_size
               else Inl (UnsupportedCompression 0x73)
             else Inl (UnsupportedCompression cbyte))"

text \<open>\<open>read_record\<close>; \<open>None\<close> is the panic of an out-of-range slice.\<close>

definition sc_read_record :: "SimpleChunkDecoder \<Rightarrow> (bytes option res \<times> SimpleChunkDecoder) option" where
  "sc_read_record d =
     (if length (record_ranges d) \<le> next_record d then Some (Inr None, d)
      else let (offset, len) = record_ranges d ! next_record d;
               d' = d\<lparr>next_record := next_record d + 1\<rparr>
           in if offset + len \<le> length (dec_values d)
              then Some (Inr (Some (slice offset (offset + len) (dec_values d))), d')
              else None)"

section \<open>The sizes section\<close>

abbreviation sum_unat :: "u64 list \<Rightarrow> nat" where
  "sum_unat ss \<equiv> sum_list (map unat ss)"

abbreviation varints :: "nat \<Rightarrow> bytes \<Rightarrow> (u64 list \<times> nat) option" where
  "varints \<equiv> decode_many (\<lambda>bs. ok_option (decode_u64 bs))"

lemma decode_u64_Nil: "decode_u64 [] = Inl UnexpectedEof"
  by (simp add: decode_u64_def)

lemma parse_sizes_Inr:
  "unat t \<le> unat D \<Longrightarrow> parse_sizes m1 m2 D data n pos t = Inr (ss, p, t') \<longleftrightarrow>
   (\<exists>k. varints n (drop pos data) = Some (ss, k) \<and> p = pos + k \<and>
        unat t + sum_unat ss \<le> unat D \<and> unat t' = unat t + sum_unat ss)"
proof (induction n arbitrary: pos t ss p)
  case 0
  then show ?case by (auto simp: word_unat_eq_iff)
next
  case (Suc n)
  show ?case
  proof (cases "decode_u64 (drop pos data)")
    case (Inl e)
    then show ?thesis by (auto simp: bind_res_eq_Inr)
  next
    case (Inr vk)
    then obtain v k where vk: "decode_u64 (drop pos data) = Inr (v, k)" by (cases vk) auto
    then have pos: "\<not> length data \<le> pos" by (auto simp: decode_u64_Nil)
    show ?thesis
    proof (cases "unat t + unat v \<le> unat D")
      case True
      then have "unat t + unat v \<le> u64_max" using unat_less_2_64 [of D] by linarith
      then have tv: "checked_add t v = Some (t + v)" "unat (t + v) = unat t + unat v" "\<not> D < t + v"
        using True by (simp_all add: unat_add_u64 word_less_nat_alt checked_add_def)
      have "parse_sizes m1 m2 D data (Suc n) pos t = Inr (ss, p, t') \<longleftrightarrow>
          (\<exists>ss'. ss = v # ss' \<and> parse_sizes m1 m2 D data n (pos + k) (t + v) = Inr (ss', p, t'))"
        using pos vk tv by (auto simp: bind_res_eq_Inr)
      also have "\<dots> \<longleftrightarrow> (\<exists>ss' j. ss = v # ss' \<and> varints n (drop (pos + k) data) = Some (ss', j) \<and>
          p = pos + k + j \<and> unat t + unat v + sum_unat ss' \<le> unat D \<and>
          unat t' = unat t + unat v + sum_unat ss')"
        using Suc.IH [of "t + v" "pos + k"] True by (simp add: tv)
      also have "\<dots> \<longleftrightarrow> (\<exists>j. varints (Suc n) (drop pos data) = Some (ss, j) \<and> p = pos + j \<and>
          unat t + sum_unat ss \<le> unat D \<and> unat t' = unat t + sum_unat ss)"
        using vk by (auto simp: add.commute add.left_commute split: option.splits)
      finally show ?thesis .
    next
      case False
      then have "parse_sizes m1 m2 D data (Suc n) pos t \<noteq> Inr (ss, p, t')"
        using pos vk by (auto simp: bind_res_eq_Inr checked_add_def word_less_nat_alt unat_add_u64 split: if_splits option.splits)
      moreover have "\<not> unat t + sum_unat ss \<le> unat D" if "varints (Suc n) (drop pos data) = Some (ss, j)" for j
        using that vk False by auto
      ultimately show ?thesis by blast
    qed
  qed
qed

lemma checked_sum_eq:
  "unat acc + sum_unat ss \<le> u64_max \<Longrightarrow>
   \<exists>t. checked_sum acc ss = Some t \<and> unat t = unat acc + sum_unat ss"
proof (induction ss arbitrary: acc)
  case (Cons s ss)
  then have "checked_add acc s = Some (acc + s)" "unat (acc + s) = unat acc + unat s"
    by (simp_all add: unat_add_u64 checked_add_def)
  with Cons.IH [of "acc + s"] Cons.prems show ?case by (simp add: add.assoc)
qed simp

lemma varints_concat:
  "varints (length vs) (concat (map encode_u64 vs) @ rest) = Some (vs, length (concat (map encode_u64 vs)))"
  using varint64.decode_many_concat [of vs rest] by (simp add: comp_def)

section \<open>Record ranges\<close>

lemma record_ranges_bounds:
  "(a, l) \<in> set (record_ranges_from off ss) \<Longrightarrow> off \<le> a \<and> a + l \<le> off + sum_unat ss"
  by (induction ss arbitrary: off) fastforce+

lemma length_record_ranges [simp]: "length (record_ranges_from off ss) = length ss"
  by (induction ss arbitrary: off) auto

lemma record_ranges_cut:
  "map (\<lambda>(a, l). slice a (a + l) (pre @ concat rs)) (record_ranges_from (length pre) (map (\<lambda>r. of_nat (length r)) rs)) = rs"
  if "\<forall>r \<in> set rs. length r \<le> u64_max"
  using that
proof (induction rs arbitrary: pre)
  case (Cons r rs)
  have IH: "map (\<lambda>(a, l). slice a (a + l) ((pre @ r) @ concat rs))
      (record_ranges_from (length (pre @ r)) (map (\<lambda>r. of_nat (length r)) rs)) = rs"
    by (rule Cons.IH) (use Cons.prems in simp)
  moreover have "unat (of_nat (length r) :: u64) = length r"
    using Cons.prems by (simp add: unat_of_nat_u64)
  moreover have "slice (length pre) (length pre + length r) (pre @ r @ concat rs) = r"
    by (rule slice_append_exact) simp_all
  ultimately show ?case by simp
qed simp

lemma record_ranges_concat:
  "off + sum_unat ss \<le> length vals \<Longrightarrow>
   concat (map (\<lambda>(a, l). slice a (a + l) vals) (record_ranges_from off ss)) = slice off (off + sum_unat ss) vals"
proof (induction ss arbitrary: off)
  case (Cons s ss)
  have "slice off (off + unat s) vals @ slice (off + unat s) (off + unat s + sum_unat ss) vals
      = slice off (off + unat s + sum_unat ss) vals"
    by (rule slice_join) simp_all
  with Cons show ?case by (simp add: add.assoc)
qed (simp add: slice_def)

section \<open>Acceptance as a grammar\<close>

lemma parse_sizes_start:
  "parse_sizes m1 m2 D data n 0 0 = Inr (ss, p, t) \<longleftrightarrow>
   varints n data = Some (ss, p) \<and> sum_unat ss \<le> unat D \<and> unat t = sum_unat ss"
  using parse_sizes_Inr [of 0 D m1 m2 data n 0 ss p t] by auto

text \<open>The checked sum repeats what \<open>parse_sizes\<close> established: it never fails behind it.\<close>

lemma checked_sum_0: "sum_unat ss = unat D \<Longrightarrow> checked_sum 0 ss = Some D"
  using checked_sum_eq [of 0 ss] by (auto simp: word_unat_eq_iff)

lemma sizes_accepted:
  "(\<exists>t. parse_sizes m1 m2 D data n 0 0 = Inr (ss, p, t) \<and> p = length data \<and> t = D) \<longleftrightarrow>
   varints n data = Some (ss, length data) \<and> p = length data \<and> sum_unat ss = unat D"
  by (auto simp: parse_sizes_start word_unat_eq_iff)

definition simple_decoder :: "u64 list \<Rightarrow> bytes \<Rightarrow> SimpleChunkDecoder" where
  "simple_decoder ss vals = \<lparr>record_ranges = record_ranges_from 0 ss, dec_values = vals, next_record = 0\<rparr>"

text \<open>The sizes section \<open>data\<close> lists \<open>n\<close> records of \<open>D\<close> bytes in all, and nothing else.\<close>

definition sizes_ok :: "nat \<Rightarrow> u64 \<Rightarrow> bytes \<Rightarrow> u64 list \<Rightarrow> bool" where
  "sizes_ok n D data ss \<longleftrightarrow> varints n data = Some (ss, length data) \<and> sum_unat ss = unat D"

lemma decode_uncompressed_Inr:
  assumes "length payload \<le> u64_max"
  shows "decode_uncompressed payload n D = Inr d \<longleftrightarrow>
    (\<exists>len k ss. decode_u64 payload = Inr (len, k) \<and> k + unat len + unat D = length payload \<and>
       sizes_ok n D (slice k (k + unat len) payload) ss \<and>
       d = simple_decoder ss (drop (k + unat len) payload))"
  (is "?L \<longleftrightarrow> ?R")
proof
  assume ?L
  then obtain len k ss p t where
    1: "decode_u64 payload = Inr (len, k)" "\<not> length payload - k < unat len"
      "parse_sizes ''unexpected end of sizes section'' ''varint decode error'' D
         (slice k (k + unat len) payload) n 0 0 = Inr (ss, p, t)"
    and 2: "p = length (slice k (k + unat len) payload)" "t = D"
    and 3: "(case checked_sum 0 ss of
           None \<Rightarrow> Inl (MalformedData ''record sizes sum overflows'')
         | Some total_values_len \<Rightarrow>
             let values_end = k + unat len + unat total_values_len
             in if u64_max < values_end then Inl (MalformedData ''values section end overflows'')
                else if length payload < values_end then Inl (MalformedData ''values section truncated'')
                else if values_end < length payload
                then Inl (MalformedData ''trailing data after values section'')
                else Inr \<lparr>record_ranges = record_ranges_from 0 ss,
                          dec_values = slice (k + unat len) values_end payload, next_record = 0\<rparr>) = Inr d"
    unfolding decode_uncompressed_def
    by (auto simp: bind_res_eq_Inr Let_def split: if_splits)
  have ok: "sizes_ok n D (slice k (k + unat len) payload) ss"
    using sizes_accepted 1(3) 2 unfolding sizes_ok_def by blast
  then have "checked_sum 0 ss = Some D" by (simp add: sizes_ok_def checked_sum_0)
  with 3 have "k + unat len + unat D = length payload"
    "d = simple_decoder ss (drop (k + unat len) payload)"
    by (auto simp: Let_def simple_decoder_def slice_def split: if_splits)
  with 1 ok show ?R by blast
next
  assume ?R
  then obtain len k ss where 1: "decode_u64 payload = Inr (len, k)"
    "k + unat len + unat D = length payload" "sizes_ok n D (slice k (k + unat len) payload) ss"
    "d = simple_decoder ss (drop (k + unat len) payload)" by blast
  then have "checked_sum 0 ss = Some D" by (simp add: sizes_ok_def checked_sum_0)
  moreover have "parse_sizes ''unexpected end of sizes section'' ''varint decode error'' D
         (slice k (k + unat len) payload) n 0 0 = Inr (ss, length (slice k (k + unat len) payload), D)"
    using sizes_accepted 1(3) unfolding sizes_ok_def by blast
  ultimately show ?L using 1 assms
    by (simp add: decode_uncompressed_def Let_def simple_decoder_def slice_def)
qed

text \<open>The two halves of a compressed payload: the sizes blob with its length, and the values.\<close>

definition sizes_blob_ok :: "codec \<Rightarrow> CompressionType \<Rightarrow> nat \<Rightarrow> u64 \<Rightarrow> bytes \<Rightarrow> u64 list \<Rightarrow> bool" where
  "sizes_blob_ok C ct n D blob ss \<longleftrightarrow>
     (\<exists>ulen k data. decode_u64 blob = Inr (ulen, k) \<and> ulen \<le> saturating_mul (of_nat n) 10 \<and>
        decompress_data_capped C (drop k blob) ct ulen = Inr data \<and> of_nat (length data) = ulen \<and>
        sizes_ok n D data ss)"

definition values_blob_ok :: "codec \<Rightarrow> CompressionType \<Rightarrow> u64 \<Rightarrow> bytes \<Rightarrow> bytes \<Rightarrow> bool" where
  "values_blob_ok C ct D blob vals \<longleftrightarrow>
     (\<exists>k. decode_u64 blob = Inr (D, k) \<and> decompress_data_capped C (drop k blob) ct D = Inr vals \<and>
        length vals = unat D)"

lemma decode_compressed_Inr:
  "decode_compressed C payload n ct D = Inr d \<longleftrightarrow>
    (\<exists>len k ss vals. decode_u64 payload = Inr (len, k) \<and> k + unat len \<le> length payload \<and>
       sizes_blob_ok C ct n D (slice k (k + unat len) payload) ss \<and>
       values_blob_ok C ct D (drop (k + unat len) payload) vals \<and>
       d = simple_decoder ss vals)"
  (is "?L \<longleftrightarrow> ?R")
proof
  assume L: ?L
  then have "payload \<noteq> []" by (auto simp: decode_compressed_def)
  with L obtain len k ulen k2 data ss t k3 vals where
    1: "decode_u64 payload = Inr (len, k)" "\<not> length payload - k < unat len"
    and 2: "decode_u64 (slice k (k + unat len) payload) = Inr (ulen, k2)"
      "\<not> saturating_mul (of_nat n) 10 < ulen"
      "decompress_data_capped C (drop k2 (slice k (k + unat len) payload)) ct ulen = Inr data"
      "of_nat (length data) = ulen"
      "parse_sizes ''unexpected end of decompressed sizes'' ''varint decode in sizes'' D data n 0 0
         = Inr (ss, length data, D)"
    and 3: "decode_u64 (drop (k + unat len) payload) = Inr (D, k3)"
      "decompress_data_capped C (drop k3 (drop (k + unat len) payload)) ct D = Inr vals"
    and 4: "(case checked_sum 0 ss of
                       None \<Rightarrow> Inl (MalformedData ''record sizes sum overflows'')
                     | Some total_values_len \<Rightarrow>
                         if unat total_values_len \<noteq> length vals
                         then Inl (MalformedData ''values length mismatch'')
                         else Inr \<lparr>record_ranges = record_ranges_from 0 ss,
                                   dec_values = vals, next_record = 0\<rparr>) = Inr d"
    unfolding decode_compressed_def
    by (auto simp: bind_res_eq_Inr Let_def simp del: drop_drop split: if_splits)
  have ok: "sizes_ok n D data ss" using sizes_accepted 2(5) unfolding sizes_ok_def by blast
  then have "sizes_blob_ok C ct n D (slice k (k + unat len) payload) ss"
    using 2 unfolding sizes_blob_ok_def by (auto simp: not_less)
  moreover have "checked_sum 0 ss = Some D" using ok by (simp add: sizes_ok_def checked_sum_0)
  with 4 have "length vals = unat D" "d = simple_decoder ss vals"
    by (auto simp: simple_decoder_def split: if_splits)
  moreover from this 3 have "values_blob_ok C ct D (drop (k + unat len) payload) vals"
    unfolding values_blob_ok_def by blast
  moreover have "k + unat len \<le> length payload" using 1 decode_u64_Inr varint_span_bounds by fastforce
  ultimately show ?R using 1 by blast
next
  assume ?R
  then obtain len k ss vals ulen k2 data k3 where
    1: "decode_u64 payload = Inr (len, k)" "k + unat len \<le> length payload"
    and 2: "decode_u64 (slice k (k + unat len) payload) = Inr (ulen, k2)"
      "ulen \<le> saturating_mul (of_nat n) 10"
      "decompress_data_capped C (drop k2 (slice k (k + unat len) payload)) ct ulen = Inr data"
      "of_nat (length data) = ulen" "sizes_ok n D data ss"
    and 3: "decode_u64 (drop (k + unat len) payload) = Inr (D, k3)"
      "decompress_data_capped C (drop k3 (drop (k + unat len) payload)) ct D = Inr vals"
      "length vals = unat D"
    and 4: "d = simple_decoder ss vals"
    unfolding sizes_blob_ok_def values_blob_ok_def by blast
  have "payload \<noteq> []" using 1 by (auto simp: decode_u64_Nil)
  moreover have "parse_sizes ''unexpected end of decompressed sizes'' ''varint decode in sizes'' D data n 0 0
         = Inr (ss, length data, D)"
    using sizes_accepted 2(5) unfolding sizes_ok_def by blast
  moreover have "checked_sum 0 ss = Some D" using 2(5) by (simp add: sizes_ok_def checked_sum_0)
  moreover have "\<not> length payload - k < unat len" "\<not> saturating_mul (of_nat n) 10 < ulen"
    using 1(2) 2(2) by (simp_all add: not_less)
  ultimately show ?L using 1 2 3 4
    by (simp add: decode_compressed_def Let_def simple_decoder_def del: drop_drop not_less)
qed

section \<open>Reading the records\<close>

text \<open>A source that yields a list of records and then reports its end.\<close>

fun drain :: "('d \<Rightarrow> (bytes option res \<times> 'd) option) \<Rightarrow> nat \<Rightarrow> 'd \<Rightarrow> bytes list option" where
  "drain nxt 0 d = Some []"
| "drain nxt (Suc n) d =
     (case nxt d of
        Some (Inr (Some r), d') \<Rightarrow> map_option (Cons r) (drain nxt n d')
      | Some (Inr None, d') \<Rightarrow> Some []
      | _ \<Rightarrow> None)"

locale record_stream =
  fixes nxt :: "'d \<Rightarrow> (bytes option res \<times> 'd) option"
    and yields :: "'d \<Rightarrow> bytes list \<Rightarrow> bool"
  assumes yields_end: "yields d [] \<Longrightarrow> \<exists>d'. nxt d = Some (Inr None, d') \<and> yields d' []"
    and yields_record: "yields d (r # rs) \<Longrightarrow> \<exists>d'. nxt d = Some (Inr (Some r), d') \<and> yields d' rs"
begin

lemma yields_drain: "yields d rs \<Longrightarrow> drain nxt n d = Some (take n rs)"
proof (induction n arbitrary: d rs)
  case (Suc n)
  show ?case
  proof (cases rs)
    case Nil
    with Suc.prems yields_end show ?thesis by fastforce
  next
    case (Cons r rs')
    with Suc.prems yields_record obtain d' where "nxt d = Some (Inr (Some r), d')" "yields d' rs'" by blast
    with Suc.IH [of d'] Cons show ?thesis by simp
  qed
qed simp

end

text \<open>The same with the records that remain as a function of the state, which the end leaves as it is.\<close>

locale record_source =
  fixes nxt :: "'d \<Rightarrow> (bytes option res \<times> 'd) option"
    and ok :: "'d \<Rightarrow> bool" and remaining :: "'d \<Rightarrow> bytes list"
  assumes nxt_end: "ok d \<Longrightarrow> remaining d = [] \<Longrightarrow> nxt d = Some (Inr None, d)"
    and nxt_record: "ok d \<Longrightarrow> remaining d = r # rs \<Longrightarrow>
      \<exists>d'. nxt d = Some (Inr (Some r), d') \<and> ok d' \<and> remaining d' = rs"

sublocale record_source \<subseteq> record_stream nxt "\<lambda>d rs. ok d \<and> remaining d = rs"
  by unfold_locales (use nxt_end nxt_record in blast)+

context record_source
begin

lemma drain_take: "ok d \<Longrightarrow> drain nxt n d = Some (take n (remaining d))"
  by (simp add: yields_drain)

lemma drain_all: "ok d \<Longrightarrow> length (remaining d) \<le> n \<Longrightarrow> drain nxt n d = Some (remaining d)"
  by (simp add: drain_take)

end

text \<open>The simple decoder is such a source, as long as its ranges lie within its values.\<close>

definition sc_inv :: "SimpleChunkDecoder \<Rightarrow> bool" where
  "sc_inv d \<longleftrightarrow> (\<forall>(a, l) \<in> set (record_ranges d). a + l \<le> length (dec_values d))"

definition sc_remaining :: "SimpleChunkDecoder \<Rightarrow> bytes list" where
  "sc_remaining d =
     map (\<lambda>(a, l). slice a (a + l) (dec_values d)) (drop (next_record d) (record_ranges d))"

interpretation simple_source: record_source sc_read_record sc_inv sc_remaining
proof unfold_locales
  fix d :: SimpleChunkDecoder
  assume "sc_inv d" and r: "sc_remaining d = []"
  from r have "length (record_ranges d) \<le> next_record d" by (simp add: sc_remaining_def)
  then show "sc_read_record d = Some (Inr None, d)" by (simp add: sc_read_record_def)
next
  fix d :: SimpleChunkDecoder and r rs
  assume i: "sc_inv d" and r: "sc_remaining d = r # rs"
  then have n: "next_record d < length (record_ranges d)"
    by (cases "next_record d < length (record_ranges d)") (simp_all add: sc_remaining_def)
  obtain a l where al: "record_ranges d ! next_record d = (a, l)" by fastforce
  have "a + l \<le> length (dec_values d)"
    using i n al nth_mem [OF n] by (auto simp: sc_inv_def)
  moreover have "sc_remaining d = slice a (a + l) (dec_values d) # sc_remaining (d\<lparr>next_record := Suc (next_record d)\<rparr>)"
    using n al by (simp add: sc_remaining_def Cons_nth_drop_Suc [symmetric])
  ultimately show "\<exists>d'. sc_read_record d = Some (Inr (Some r), d') \<and> sc_inv d' \<and> sc_remaining d' = rs"
    using r n al i by (simp add: sc_read_record_def sc_inv_def)
qed

declare drain.simps [simp del]

lemma simple_decoder_inv: "sum_unat ss \<le> length vals \<Longrightarrow> sc_inv (simple_decoder ss vals)"
  using record_ranges_bounds by (fastforce simp: sc_inv_def simple_decoder_def)

lemma simple_decoder_remaining:
  "\<forall>r \<in> set rs. length r \<le> u64_max \<Longrightarrow>
   sc_remaining (simple_decoder (map (\<lambda>r. of_nat (length r)) rs) (concat rs)) = rs"
  using record_ranges_cut [of rs "[]"] by (simp add: sc_remaining_def simple_decoder_def)

lemma simple_decoder_concat:
  "sum_unat ss = length vals \<Longrightarrow> concat (sc_remaining (simple_decoder ss vals)) = vals"
  using record_ranges_concat [of 0 ss vals] by (simp add: sc_remaining_def simple_decoder_def slice_def)

section \<open>What the encoder writes\<close>

definition record_sizes :: "bytes list \<Rightarrow> u64 list" where
  "record_sizes rs = map (\<lambda>r. of_nat (length r)) rs"

lemma sizes_section_eq: "sizes_section rs = concat (map encode_u64 (record_sizes rs))"
  by (simp add: sizes_section_def record_sizes_def comp_def)

lemma length_sizes_section: "length (sizes_section rs) \<le> 10 * length rs"
  by (induction rs) (use length_encode_u64_bound in \<open>auto simp: sizes_section_def add_mono\<close>)

lemma sum_record_sizes:
  "length (concat rs) \<le> u64_max \<Longrightarrow> sum_unat (record_sizes rs) = length (concat rs)"
  by (induction rs) (auto simp: record_sizes_def unat_of_nat_u64)

lemma sizes_ok_section:
  "length (concat rs) \<le> u64_max \<Longrightarrow> unat D = length (concat rs) \<Longrightarrow> n = length rs \<Longrightarrow>
   sizes_ok n D (sizes_section rs) (record_sizes rs)"
  using varints_concat [of "record_sizes rs" "[]"] sum_record_sizes [of rs]
  by (simp add: sizes_ok_def sizes_section_eq record_sizes_def)

lemma sum_of_lengths: "sum_list (map (\<lambda>r. of_nat (length r)) rs) = (of_nat (length (concat rs)) :: u64)"
  by (induction rs) auto

lemma sc_encode_data_None:
  "enc_compression e = None_Compression \<Longrightarrow> sc_encode_data C e =
   Inr (0 # encode_u64 (of_nat (length (sizes_section (enc_records e)))) @ sizes_section (enc_records e)
        @ concat (enc_records e))"
  by (simp add: sc_encode_data_def Let_def)

lemma sc_encode_data_compressed:
  assumes "sc_encode_data C e = Inr data" "enc_compression e = ct" "ct \<noteq> None_Compression"
  shows "\<exists>cs cv. compress_data C (sizes_section (enc_records e)) ct (enc_compress_opts e) = Inr cs \<and>
    compress_data C (concat (enc_records e)) ct (enc_compress_opts e) = Inr cv \<and>
    data = compression_byte ct
      # encode_u64 (of_nat (length (encode_u64 (of_nat (length (sizes_section (enc_records e)))) @ cs)))
      @ (encode_u64 (of_nat (length (sizes_section (enc_records e)))) @ cs)
      @ encode_u64 (of_nat (length (concat (enc_records e)))) @ cv"
proof -
  have "encode_compressed (enc_records e) ct (\<lambda>b. compress_data C b ct (enc_compress_opts e)) = Inr data"
    using assms by (cases ct) (auto simp: sc_encode_data_def compress_data_def split: if_splits)
  then show ?thesis
    by (auto simp: encode_compressed_def Let_def bind_res_eq_Inr length_varint_u64_correct)
qed

section \<open>The whole chunk\<close>

text \<open>The data of a simple chunk with \<open>n\<close> records of \<open>D\<close> bytes in all, the record sizes and the
  values: what the format documentation at the top of the source file draws.\<close>

definition simple_payload :: "codec \<Rightarrow> CompressionType \<Rightarrow> nat \<Rightarrow> u64 \<Rightarrow> bytes \<Rightarrow> u64 list \<Rightarrow> bytes \<Rightarrow> bool" where
  "simple_payload C ct n D payload ss vals \<longleftrightarrow>
     (\<exists>len k. decode_u64 payload = Inr (len, k) \<and> k + unat len \<le> length payload \<and>
        (let sizes = slice k (k + unat len) payload; rest = drop (k + unat len) payload
         in if ct = None_Compression
            then sizes_ok n D sizes ss \<and> vals = rest \<and> length vals = unat D
            else sizes_blob_ok C ct n D sizes ss \<and> values_blob_ok C ct D rest vals))"

definition simple_body :: "codec \<Rightarrow> nat \<Rightarrow> u64 \<Rightarrow> bytes \<Rightarrow> u64 list \<Rightarrow> bytes \<Rightarrow> bool" where
  "simple_body C n D data ss vals \<longleftrightarrow>
     (\<exists>ct payload. data = compression_byte ct # payload \<and> simple_payload C ct n D payload ss vals)"

lemma decompress_feature:
  "decompress_data_capped C z ct m = Inr x \<Longrightarrow>
   (case ct of None_Compression \<Rightarrow> True | Brotli \<Rightarrow> feature_brotli C | Zstd \<Rightarrow> feature_zstd C
    | Snappy \<Rightarrow> feature_snappy C)"
  by (auto simp: decompress_data_capped_def split: CompressionType.splits if_splits)

lemma sc_new_cases:
  "sc_new hw C chunk = Inr d \<longleftrightarrow>
   ch_is_data_valid hw (chunk_header chunk) (chunk_data chunk) \<and>
   (\<exists>ct payload. chunk_data chunk = compression_byte ct # payload \<and>
      (let n = unat (ch_num_records (chunk_header chunk)); D = ch_decoded_data_size (chunk_header chunk)
       in if ct = None_Compression then decode_uncompressed payload n D = Inr d
          else decode_compressed C payload n ct D = Inr d))"
  (is "?L \<longleftrightarrow> ?R")
proof
  assume ?L
  then obtain b payload where *: "chunk_data chunk = b # payload"
    "ch_is_data_valid hw (chunk_header chunk) (chunk_data chunk)"
    by (auto simp: sc_new_def Let_def split: if_splits list.splits)
  then obtain ct where "b = compression_byte ct"
    using \<open>?L\<close> compression_try_from_Inr [of b]
    by (auto simp: sc_new_def Let_def compression_try_from_def split: if_splits)
  have "let n = unat (ch_num_records (chunk_header chunk)); D = ch_decoded_data_size (chunk_header chunk)
       in if ct = None_Compression then decode_uncompressed payload n D = Inr d
          else decode_compressed C payload n ct D = Inr d"
    using * \<open>?L\<close> \<open>b = compression_byte ct\<close>
    by (cases ct) (simp_all add: sc_new_def Let_def split: if_splits)
  with * \<open>b = compression_byte ct\<close> show ?R by blast
next
  assume R: ?R
  then obtain ct payload where *: "chunk_data chunk = compression_byte ct # payload"
    "let n = unat (ch_num_records (chunk_header chunk)); D = ch_decoded_data_size (chunk_header chunk)
       in if ct = None_Compression then decode_uncompressed payload n D = Inr d
          else decode_compressed C payload n ct D = Inr d" by blast
  moreover have "case ct of None_Compression \<Rightarrow> True | Brotli \<Rightarrow> feature_brotli C | Zstd \<Rightarrow> feature_zstd C
    | Snappy \<Rightarrow> feature_snappy C"
  proof (cases "ct = None_Compression")
    case False
    then show ?thesis
      using * decompress_feature
      by (fastforce simp: Let_def decode_compressed_Inr sizes_blob_ok_def)
  qed simp
  ultimately show ?L using R by (cases ct) (simp_all add: sc_new_def Let_def)
qed

lemma simple_payloadI:
  assumes "payload = encode_u64 len @ sizes @ rest" "unat len = length sizes"
    and "if ct = None_Compression then sizes_ok n D sizes ss \<and> vals = rest \<and> length vals = unat D
         else sizes_blob_ok C ct n D sizes ss \<and> values_blob_ok C ct D rest vals"
  shows "simple_payload C ct n D payload ss vals"
  unfolding simple_payload_def Let_def
proof (intro exI [of _ len] exI [of _ "length (encode_u64 len)"] conjI)
  have "slice (length (encode_u64 len)) (length (encode_u64 len) + unat len) payload = sizes"
    "drop (length (encode_u64 len) + unat len) payload = rest"
    using assms(1,2) by (simp_all add: slice_def)
  with assms(3) show "if ct = None_Compression
     then sizes_ok n D (slice (length (encode_u64 len)) (length (encode_u64 len) + unat len) payload) ss \<and>
          vals = drop (length (encode_u64 len) + unat len) payload \<and> length vals = unat D
     else sizes_blob_ok C ct n D (slice (length (encode_u64 len)) (length (encode_u64 len) + unat len) payload) ss \<and>
          values_blob_ok C ct D (drop (length (encode_u64 len) + unat len) payload) vals"
    by (auto split: if_splits)
qed (use assms in simp_all)

lemma decode_payload:
  assumes "length payload \<le> u64_max"
  shows "(if ct = None_Compression then decode_uncompressed payload n D = Inr d
          else decode_compressed C payload n ct D = Inr d) \<longleftrightarrow>
    (\<exists>ss vals. simple_payload C ct n D payload ss vals \<and> d = simple_decoder ss vals)"
proof (cases "ct = None_Compression")
  case True
  have "m + unat D = length payload \<longleftrightarrow> m \<le> length payload \<and> length (drop m payload) = unat D" for m
    by auto
  with True assms show ?thesis
    by (simp only: decode_uncompressed_Inr simple_payload_def Let_def if_True simp_thms) blast
next
  case False
  then show ?thesis
    by (simp only: decode_compressed_Inr simple_payload_def Let_def if_False simp_thms) blast
qed

lemma sc_new_Inr:
  assumes "length (chunk_data chunk) \<le> u64_max"
  shows "sc_new hw C chunk = Inr d \<longleftrightarrow>
   ch_is_data_valid hw (chunk_header chunk) (chunk_data chunk) \<and>
   (\<exists>ss vals. simple_body C (unat (ch_num_records (chunk_header chunk)))
        (ch_decoded_data_size (chunk_header chunk)) (chunk_data chunk) ss vals \<and>
      d = simple_decoder ss vals)"
proof -
  have "(if ct = None_Compression then decode_uncompressed payload n D = Inr d
          else decode_compressed C payload n ct D = Inr d) \<longleftrightarrow>
    (\<exists>ss vals. simple_payload C ct n D payload ss vals \<and> d = simple_decoder ss vals)"
    if "chunk_data chunk = compression_byte ct # payload" for ct payload n D
    using that assms by (intro decode_payload) simp
  then show ?thesis unfolding sc_new_cases simple_body_def Let_def by blast
qed

lemma simple_body_sizes:
  assumes "simple_body C n D data ss vals"
  shows "length ss = n" "sum_unat ss = length vals" "length vals = unat D"
proof -
  have len: "length ss = m" if "varints m bs = Some (ss, j)" for m bs j
    using that by (induction m arbitrary: bs ss j) (auto split: option.splits)
  show "length ss = n" "length vals = unat D" "sum_unat ss = length vals"
    using assms len
    by (auto simp: simple_body_def simple_payload_def Let_def sizes_ok_def sizes_blob_ok_def values_blob_ok_def split: if_splits)
qed

lemma simple_body_encode:
  assumes C: "lossless C" and data: "sc_encode_data C e = Inr data"
    and total: "length (concat (enc_records e)) < 2 ^ 63" and n: "length (enc_records e) < 2 ^ 56"
    and size: "length data < 2 ^ 63" and D: "D = of_nat (length (concat (enc_records e)))"
  shows "simple_body C (length (enc_records e)) D data (record_sizes (enc_records e)) (concat (enc_records e))"
proof -
  let ?rs = "enc_records e" and ?ct = "enc_compression e"
  let ?sizes = "sizes_section ?rs" and ?vals = "concat ?rs"
  have uD: "unat D = length ?vals" using total D by (simp add: unat_of_nat_u64)
  have ok: "sizes_ok (length ?rs) D ?sizes (record_sizes ?rs)"
    using total uD by (intro sizes_ok_section) auto
  have sl: "length ?sizes \<le> 10 * length ?rs" by (rule length_sizes_section)
  show ?thesis
  proof (cases "?ct = None_Compression")
    case True
    define len where "len = (of_nat (length ?sizes) :: u64)"
    have "unat len = length ?sizes" using sl n by (simp add: len_def unat_of_nat_u64)
    moreover have "data = compression_byte ?ct # encode_u64 len @ ?sizes @ ?vals"
      using sc_encode_data_None [OF True] data True by (simp add: len_def)
    ultimately show ?thesis
      using ok uD True unfolding simple_body_def by (metis simple_payloadI)
  next
    case False
    define sl where "sl = (of_nat (length ?sizes) :: u64)"
    obtain cs cv where cs: "compress_data C ?sizes ?ct (enc_compress_opts e) = Inr cs"
      and cv: "compress_data C ?vals ?ct (enc_compress_opts e) = Inr cv"
      and data_eq: "data = compression_byte ?ct # encode_u64 (of_nat (length (encode_u64 sl @ cs)))
        @ (encode_u64 sl @ cs) @ encode_u64 D @ cv"
      using sc_encode_data_compressed [OF data refl False] D by (auto simp: sl_def)
    have usl: "unat sl = length ?sizes" using length_sizes_section [of ?rs] n by (simp add: sl_def unat_of_nat_u64)
    have "sl \<le> saturating_mul (of_nat (length ?rs)) 10"
      using usl length_sizes_section [of ?rs] n
      by (simp add: word_le_nat_alt unat_saturating_mul unat_of_nat_u64)
    moreover have "decompress_data_capped C cs ?ct sl = Inr ?sizes"
      using C cs by (rule decompress_compress_data) (use usl length_sizes_section [of ?rs] n in auto)
    ultimately have blob: "sizes_blob_ok C ?ct (length ?rs) D (encode_u64 sl @ cs) (record_sizes ?rs)"
      using ok by (auto simp: sizes_blob_ok_def sl_def)
    have "decompress_data_capped C cv ?ct D = Inr ?vals"
      using C cv by (rule decompress_compress_data) (use uD total in auto)
    then have vals: "values_blob_ok C ?ct D (encode_u64 D @ cv) ?vals"
      using uD by (simp add: values_blob_ok_def)
    define blob where "blob = encode_u64 sl @ cs"
    define len where "len = (of_nat (length blob) :: u64)"
    have "length blob < 2 ^ 63" using size data_eq by (simp add: blob_def)
    then have "unat len = length blob" by (simp add: len_def unat_of_nat_u64)
    moreover have "data = compression_byte ?ct # encode_u64 len @ blob @ (encode_u64 D @ cv)"
      using data_eq by (simp add: len_def blob_def)
    ultimately show ?thesis
      using blob [folded blob_def] vals False unfolding simple_body_def by (metis simple_payloadI)
  qed
qed

text \<open>The decoder of an encoded chunk stands before the encoder's records.\<close>

lemma sc_encode_decodes:
  assumes "lossless C" and "sc_encode hw C e = Inr chunk"
    and "length (concat (enc_records e)) < 2 ^ 63" and "length (enc_records e) < 2 ^ 56"
    and "length (chunk_data chunk) < 2 ^ 63"
  shows "\<exists>d. sc_new hw C chunk = Inr d \<and> sc_inv d \<and> sc_remaining d = enc_records e"
    and "ch_num_records (chunk_header chunk) = of_nat (length (enc_records e))"
    and "ch_is_header_valid hw (chunk_header chunk)" "ch_is_data_valid hw (chunk_header chunk) (chunk_data chunk)"
    "ch_chunk_type (chunk_header chunk) = Inr Simple"
proof -
  let ?rs = "enc_records e"
  obtain data where data: "sc_encode_data C e = Inr data"
    and chunk: "chunk = \<lparr>chunk_header = chunk_from_parts hw data Simple (of_nat (length ?rs))
      (of_nat (length (concat ?rs))), chunk_data = data\<rparr>"
    using assms(2) by (auto simp: sc_encode_def Let_def bind_res_eq_Inr sum_of_lengths)
  have un: "unat (of_nat (length ?rs) :: u64) = length ?rs" using assms(4) by (simp add: unat_of_nat_u64)
  then show n: "ch_num_records (chunk_header chunk) = of_nat (length ?rs)"
    using chunk assms(4) by (simp add: take_bit_56_id)
  show "ch_is_header_valid hw (chunk_header chunk)" "ch_is_data_valid hw (chunk_header chunk) (chunk_data chunk)"
    "ch_chunk_type (chunk_header chunk) = Inr Simple" using chunk by simp_all
  let ?d = "simple_decoder (record_sizes ?rs) (concat ?rs)"
  have "simple_body C (length ?rs) (of_nat (length (concat ?rs))) data (record_sizes ?rs) (concat ?rs)"
    using assms data chunk by (intro simple_body_encode) auto
  then have "sc_new hw C chunk = Inr ?d"
    using n un chunk assms(5) by (subst sc_new_Inr) auto
  moreover have small: "\<forall>r \<in> set ?rs. length r \<le> u64_max"
  proof
    fix r assume "r \<in> set ?rs"
    then have "length r \<le> length (concat ?rs)" by (rule length_le_concat)
    with assms(3) show "length r \<le> u64_max" by simp
  qed
  then have "sc_remaining ?d = ?rs"
    by (simp add: record_sizes_def simple_decoder_remaining)
  moreover have "sc_inv ?d"
    using assms(3) by (intro simple_decoder_inv) (simp add: sum_record_sizes)
  ultimately show "\<exists>d. sc_new hw C chunk = Inr d \<and> sc_inv d \<and> sc_remaining d = ?rs" by blast
qed

section \<open>Properties\<close>

text \<open>C27. With lossless codecs, a chunk that the encoder produced, for any compression type and any
  records within the format's limits, is a valid simple chunk of that many records, and the decoder
  accepts it and reads back the very records, in order, and then the end.\<close>

theorem simple_chunk_roundtrip:
  assumes "lossless C" and "sc_encode hw C e = Inr chunk"
    and "length (concat (enc_records e)) < 2 ^ 63" and "length (enc_records e) < 2 ^ 56"
    and "length (chunk_data chunk) < 2 ^ 63"
  shows "ch_is_header_valid hw (chunk_header chunk) \<and> ch_chunk_type (chunk_header chunk) = Inr Simple \<and>
    ch_num_records (chunk_header chunk) = of_nat (length (enc_records e)) \<and>
    (\<exists>d. sc_new hw C chunk = Inr d \<and>
      drain sc_read_record (length (enc_records e) + 1) d = Some (enc_records e))"
proof -
  obtain d where "sc_new hw C chunk = Inr d" "sc_inv d" "sc_remaining d = enc_records e"
    using sc_encode_decodes(1) [OF assms] by blast
  then show ?thesis
    using sc_encode_decodes(2-5) [OF assms] simple_source.drain_all [of d "length (enc_records e) + 1"] by auto
qed

lemma simple_chunk_roundtrip_witness:
  "\<exists>d. sc_new (\<lambda>k d. 0) store_codec (the (ok_option (sc_encode (\<lambda>k d. 0) store_codec
      \<lparr>enc_records = [[7], [], [8, 9]], enc_compression = Snappy, enc_compress_opts = default_compress_options\<rparr>))) = Inr d \<and>
    drain sc_read_record (length [[7], [], [8, 9 :: u8]] + 1) d = Some [[7], [], [8, 9]]"
proof -
  let ?e = "\<lparr>enc_records = [[7], [], [8, 9 :: u8]], enc_compression = Snappy, enc_compress_opts = default_compress_options\<rparr>"
  obtain data where d: "sc_encode_data store_codec ?e = Inr data" "length data < 2 ^ 63"
    by (simp add: sc_encode_data_def encode_compressed_def Let_def store_codec_def compress_snappy_def
        sizes_section_def encode_u64.simps length_varint_u64_correct)
  then obtain chunk where c: "sc_encode (\<lambda>k d. 0) store_codec ?e = Inr chunk" "chunk_data chunk = data"
    by (simp add: sc_encode_def Let_def)
  show ?thesis using simple_chunk_roundtrip [OF lossless_store_codec(1) c(1)] c d by simp
qed

text \<open>C28. The decoder accepts exactly the chunks of the documented layout: the data hash matches, the
  compression byte is known, the sizes section lists as many canonical-or-not varints as the header
  counts records and nothing else, they add up to the decoded size of the header, and the values
  are exactly that many bytes, with nothing behind them.\<close>

theorem sc_new_accepts:
  assumes "length (chunk_data chunk) < 2 ^ 63"
  shows "sc_new hw C chunk = Inr d \<longleftrightarrow>
   ch_is_data_valid hw (chunk_header chunk) (chunk_data chunk) \<and>
   (\<exists>ss vals. simple_body C (unat (ch_num_records (chunk_header chunk)))
        (ch_decoded_data_size (chunk_header chunk)) (chunk_data chunk) ss vals \<and>
      d = \<lparr>record_ranges = record_ranges_from 0 ss, dec_values = vals, next_record = 0\<rparr>)"
  using assms sc_new_Inr [of chunk hw C d] by (simp add: simple_decoder_def)

lemma sc_new_accepts_witness:
  "let chunk = \<lparr>chunk_header = chunk_from_parts (\<lambda>k d. 0) [0, 1, 2, 7, 8, 9] Simple 1 2,
                chunk_data = [0, 1, 2, 7, 8, 9]\<rparr>
   in \<forall>d. sc_new (\<lambda>k d. 0) store_codec chunk \<noteq> Inr d"
proof -
  let ?data = "[0, 1, 2, 7, 8, 9 :: u8]"
  let ?chunk = "\<lparr>chunk_header = chunk_from_parts (\<lambda>k d. 0) ?data Simple 1 2, chunk_data = ?data\<rparr>"
  have "\<not> simple_body store_codec 1 2 ?data ss vals" for ss vals
  proof
    assume "simple_body store_codec 1 2 ?data ss vals"
    then obtain ct where ct: "compression_byte ct = 0"
      and p: "simple_payload store_codec ct 1 2 [1, 2, 7, 8, 9] ss vals"
      by (auto simp: simple_body_def)
    have "decode_u64 [1, 2, 7, 8, 9] = Inr (1, 1)" by (simp add: decode_u64_def MAX_U64_VARINT_LEN_def)
    with ct p show False by (cases ct) (auto simp: simple_payload_def Let_def)
  qed
  then show ?thesis
    using sc_new_accepts [of ?chunk "\<lambda>k d. 0" store_codec] by (simp add: Let_def take_bit_56_id)
qed

text \<open>C29. Whatever bytes the decoder accepts, it reads exactly the records that the header counts:
  no read is out of range, the sizes add up to the decoded size of the header, and the records
  together are the decoded values; reading on afterwards only reports the end.\<close>

theorem sc_reads_exactly:
  assumes "length (chunk_data chunk) < 2 ^ 63" and "sc_new hw C chunk = Inr d"
  shows "\<exists>rs. drain sc_read_record m d = Some (take m rs) \<and>
    length rs = unat (ch_num_records (chunk_header chunk)) \<and> concat rs = dec_values d \<and>
    length (concat rs) = unat (ch_decoded_data_size (chunk_header chunk))"
proof -
  obtain ss vals where b: "simple_body C (unat (ch_num_records (chunk_header chunk)))
      (ch_decoded_data_size (chunk_header chunk)) (chunk_data chunk) ss vals"
    and d: "d = simple_decoder ss vals"
    using assms sc_new_Inr [of chunk hw C d] by auto
  note [simp] = simple_body_sizes [OF b]
  have "sc_inv d" unfolding d by (rule simple_decoder_inv) simp
  then have "drain sc_read_record m d = Some (take m (sc_remaining d))" by (rule simple_source.drain_take)
  moreover have "length (sc_remaining d) = unat (ch_num_records (chunk_header chunk))"
    by (simp add: d sc_remaining_def simple_decoder_def)
  moreover have "concat (sc_remaining d) = dec_values d"
    unfolding d using simple_decoder_concat [of ss vals] by (simp add: simple_decoder_def)
  ultimately show ?thesis by (intro exI [of _ "sc_remaining d"]) (simp add: d simple_decoder_def)
qed

lemma sc_reads_exactly_witness:
  "let data = [0, 2, 1, 2, 7, 8, 9];
       chunk = \<lparr>chunk_header = chunk_from_parts (\<lambda>k d. 0) data Simple 2 3, chunk_data = data\<rparr>
   in \<exists>rs. drain sc_read_record 5 (simple_decoder [1, 2] [7, 8, 9]) = Some (take 5 rs) \<and>
        length rs = 2 \<and> concat rs = [7, 8, 9]"
proof -
  let ?data = "[0, 2, 1, 2, 7, 8, 9 :: u8]"
  let ?chunk = "\<lparr>chunk_header = chunk_from_parts (\<lambda>k d. 0) ?data Simple 2 3, chunk_data = ?data\<rparr>"
  have "parse_sizes m1 m2 3 [1, 2] 2 0 0 = Inr ([1, 2], 2, 3)" for m1 m2
    unfolding numeral_2_eq_2 by (simp add: decode_u64_def MAX_U64_VARINT_LEN_def checked_add_def)
  moreover have "decode_u64 [2, 1, 2, 7, 8, 9] = Inr (2, 1)" by (simp add: decode_u64_def MAX_U64_VARINT_LEN_def)
  moreover have "checked_sum 0 [1, 2] = Some 3" by (simp add: checked_add_def)
  ultimately have "sc_new (\<lambda>k d. 0) store_codec ?chunk = Inr (simple_decoder [1, 2] [7, 8, 9])"
    by (simp add: sc_new_def Let_def take_bit_56_id decode_uncompressed_def slice_def simple_decoder_def
        chunk_header.valid_iff del: parse_sizes.simps checked_sum.simps)
  from sc_reads_exactly [OF _ this, of 5] show ?thesis
    by (auto simp: Let_def take_bit_56_id simple_decoder_def)
qed

end
