(* ===== verification/Errors.thy ===== *)
theory Errors
  imports Prelude
begin

text \<open>
  \<^verbatim>\<open>riegeli/src/error.rs\<close>: the text of an error, which the writer keeps once it failed and the reader
  stores in a skipped region.
\<close>

definition hex_digit :: "nat \<Rightarrow> char" where
  "hex_digit n = ''0123456789abcdef'' ! n"

text \<open>\<open>{:#04x}\<close>.\<close>

definition hex_byte :: "u8 \<Rightarrow> string" where
  "hex_byte b = ''0x'' @ [hex_digit (unat b div 16), hex_digit (unat b mod 16)]"

fun error_to_string :: "riegeli_error \<Rightarrow> string" where
  "error_to_string DataHashMismatch = ''chunk data hash mismatch: data is corrupted''"
| "error_to_string (MalformedData msg) = ''malformed chunk data: '' @ msg"
| "error_to_string (UnsupportedCompression b) = ''unsupported compression type byte: '' @ hex_byte b"
| "error_to_string WriterClosed = ''writer has been closed''"
| "error_to_string (WriterFailed msg) = ''writer previously failed: '' @ msg"
| "error_to_string (IoError e) = ''I/O error: '' @ e"
| "error_to_string (UnknownChunkType b) = ''unknown chunk type byte: '' @ hex_byte b"
| "error_to_string (UnknownCompressionType b) = ''unknown compression type byte: '' @ hex_byte b"

end
