(* ===== verification/BlockStream.thy ===== *)
theory BlockStream
  imports BlockArithmetic
begin

text \<open>
  The byte stream of a file as the format defines it, without reference to how the writer produces
  it: usable bytes one after the other, with a block header of 24 bytes in front of the first
  usable byte of each block.  \<open>interleave\<close> lays usable bytes out from a position, \<open>payload_of\<close> takes
  the block headers out again, and the lemmas say that the two fit together and where a layout
  ends.
\<close>

fun interleave :: "(nat \<Rightarrow> bytes) \<Rightarrow> nat \<Rightarrow> bytes \<Rightarrow> bytes" where
  "interleave H pos [] = []"
| "interleave H pos (b # bs) =
     (if pos mod 65536 = 0 then H pos @ b # interleave H (pos + 25) bs
      else b # interleave H (Suc pos) bs)"

fun payload_of :: "nat \<Rightarrow> bytes \<Rightarrow> bytes" where
  "payload_of pos [] = []"
| "payload_of pos (b # bs) =
     (if pos mod 65536 < 24 then payload_of (Suc pos) bs else b # payload_of (Suc pos) bs)"

section \<open>One usable byte\<close>

lemma mod_block_add:
  fixes p :: nat
  assumes "p mod 65536 + k < 65536"
  shows "(p + k) mod 65536 = p mod 65536 + k"
  using assms by (metis mod_add_left_eq mod_less)

lemma chunk_pos_Suc:
  assumes "chunk_pos p" "p mod 65536 \<noteq> 0"
  shows "chunk_pos (Suc p)" "usable_before (Suc p) = Suc (usable_before p)"
proof -
  obtain q r where p: "p = q * 65536 + r" "r < 65536" by (rule block_cases)
  then have r: "25 \<le> r" using assms by (simp add: chunk_pos_def)
  have "chunk_pos (Suc p) \<and> usable_before (Suc p) = Suc (usable_before p)"
  proof (cases "Suc r = 65536")
    case True
    then have "Suc p = Suc q * 65536 + 0" using p by simp
    then show ?thesis
      using True p r usable_before_block [of 0 "Suc q"] usable_before_block [of r q] by (simp add: chunk_pos_def)
  next
    case False
    then have "Suc p = q * 65536 + Suc r" "Suc r < 65536" using p by simp_all
    then show ?thesis
      using p r usable_before_block [of "Suc r" q] usable_before_block [of r q] by (simp add: chunk_pos_def)
  qed
  then show "chunk_pos (Suc p)" "usable_before (Suc p) = Suc (usable_before p)" by blast+
qed

lemma chunk_pos_boundary:
  assumes "p mod 65536 = 0"
  shows "chunk_pos (p + 25)" "usable_before (p + 25) = Suc (usable_before p)"
proof -
  obtain q r where "p = q * 65536 + r" "r < 65536" by (rule block_cases)
  with assms have p: "p = q * 65536" by simp
  then show "chunk_pos (p + 25)" "usable_before (p + 25) = Suc (usable_before p)"
    using usable_before_block [of 25 q] usable_before_block [of 0 q] by (simp_all add: chunk_pos_def)
qed

section \<open>Where a layout ends\<close>

lemma interleave_end:
  assumes H: "\<And>p. length (H p) = 24"
  shows "chunk_pos pos \<Longrightarrow> pos + length (interleave H pos bs) = phys_end (usable_before pos + length bs)"
proof (induction bs arbitrary: pos)
  case Nil
  then show ?case by (simp add: phys_end_usable_before)
next
  case (Cons b bs)
  show ?case
  proof (cases "pos mod 65536 = 0")
    case True
    then show ?thesis using Cons.IH [of "pos + 25"] chunk_pos_boundary [OF True] by (simp add: H)
  next
    case False
    then show ?thesis using Cons.IH [of "Suc pos"] chunk_pos_Suc [OF Cons.prems False] by simp
  qed
qed

lemma chunk_pos_interleave:
  assumes "\<And>p. length (H p) = 24" "chunk_pos pos"
  shows "chunk_pos (pos + length (interleave H pos bs))"
    "usable_before (pos + length (interleave H pos bs)) = usable_before pos + length bs"
  by (simp_all add: interleave_end [where H = H, OF assms] chunk_pos_phys_end)

lemma interleave_append:
  assumes H: "\<And>p. length (H p) = 24"
  shows "interleave H pos (xs @ ys) = interleave H pos xs @ interleave H (pos + length (interleave H pos xs)) ys"
  by (induction xs arbitrary: pos) (simp_all add: H add.assoc)

section \<open>Runs of bytes within a block\<close>

lemma interleave_run:
  "pos mod 65536 \<noteq> 0 \<Longrightarrow> length xs \<le> 65536 - pos mod 65536 \<Longrightarrow> interleave H pos xs = xs"
proof (induction xs arbitrary: pos)
  case (Cons x xs)
  show ?case
  proof (cases xs)
    case Nil
    then show ?thesis using Cons.prems by simp
  next
    case (Cons y ys)
    then have "pos mod 65536 + 1 < 65536" using Cons.prems by auto
    then have "Suc pos mod 65536 = pos mod 65536 + 1" using mod_block_add [of pos 1] by simp
    then have "interleave H (Suc pos) xs = xs" using Cons.prems by (intro Cons.IH) auto
    then show ?thesis using Cons.prems by simp
  qed
qed simp

lemma interleave_block:
  "pos mod 65536 = 0 \<Longrightarrow> xs \<noteq> [] \<Longrightarrow> length xs \<le> 65512 \<Longrightarrow> interleave H pos xs = H pos @ xs"
proof (cases xs)
  case (Cons x ys)
  assume p: "pos mod 65536 = 0" and l: "length xs \<le> 65512"
  then have "(pos + 25) mod 65536 = 25" using mod_block_add [of pos 25] by simp
  then have "interleave H (pos + 25) ys = ys" using l Cons by (intro interleave_run) auto
  then show ?thesis using p Cons by simp
qed simp

section \<open>Taking the block headers out again\<close>

lemma payload_of_append: "payload_of pos (xs @ ys) = payload_of pos xs @ payload_of (pos + length xs) ys"
  by (induction xs arbitrary: pos) simp_all

lemma payload_of_header:
  "pos mod 65536 + length xs \<le> 24 \<Longrightarrow> payload_of pos xs = []"
proof (induction xs arbitrary: pos)
  case (Cons x xs)
  then have "Suc pos mod 65536 = pos mod 65536 + 1" using mod_block_add [of pos 1] by simp
  with Cons show ?case by simp
qed simp

lemma payload_of_interleave:
  assumes H: "\<And>p. length (H p) = 24"
  shows "chunk_pos pos \<Longrightarrow> payload_of pos (interleave H pos bs) = bs"
proof (induction bs arbitrary: pos)
  case (Cons b bs)
  show ?case
  proof (cases "pos mod 65536 = 0")
    case True
    have "(pos + 24) mod 65536 = 24" using mod_block_add [of pos 24] True by simp
    moreover have "payload_of pos (H pos) = []" using True by (intro payload_of_header) (simp add: H)
    ultimately show ?thesis
      using True Cons.IH [of "pos + 25"] chunk_pos_boundary [OF True] by (simp add: payload_of_append H add.commute)
  next
    case False
    then have "\<not> pos mod 65536 < 24" using Cons.prems by (simp add: chunk_pos_def)
    then show ?thesis using False Cons.IH [of "Suc pos"] chunk_pos_Suc [OF Cons.prems False] by simp
  qed
qed simp

text \<open>The 24 bytes at each block boundary inside a layout are the header for that boundary.\<close>

lemma interleave_header:
  assumes H: "\<And>p. length (H p) = 24"
  shows "chunk_pos pos \<Longrightarrow> B mod 65536 = 0 \<Longrightarrow> pos \<le> B \<Longrightarrow> B < pos + length (interleave H pos bs) \<Longrightarrow>
    take 24 (drop (B - pos) (interleave H pos bs)) = H B"
proof (induction bs arbitrary: pos)
  case (Cons b bs)
  show ?case
  proof (cases "pos mod 65536 = 0")
    case True
    show ?thesis
    proof (cases "B = pos")
      case True
      with Cons.prems show ?thesis by (simp add: H)
    next
      case False
      have "\<not> B < pos + 25"
      proof
        assume "B < pos + 25"
        then have "pos mod 65536 + (B - pos) < 65536" using True by simp
        from mod_block_add [OF this] have "B mod 65536 = B - pos" using True Cons.prems by simp
        with False Cons.prems show False by simp
      qed
      then have "take 24 (drop (B - (pos + 25)) (interleave H (pos + 25) bs)) = H B"
        using True Cons.prems(4) \<open>\<not> B < pos + 25\<close>
        by (intro Cons.IH chunk_pos_boundary(1) Cons.prems(2)) (simp_all add: H)
      moreover have "drop (B - pos) (interleave H pos (b # bs)) = drop (B - (pos + 25)) (interleave H (pos + 25) bs)"
      proof -
        have "B - pos = length (H pos @ [b]) + (B - (pos + 25))" using \<open>\<not> B < pos + 25\<close> by (simp add: H)
        moreover have "interleave H pos (b # bs) = (H pos @ [b]) @ interleave H (pos + 25) bs"
          using True by simp
        moreover have "drop (length ys + d) (ys @ zs) = drop d zs" for ys zs :: bytes and d by simp
        ultimately show ?thesis by (simp only:)
      qed
      ultimately show ?thesis by simp
    qed
  next
    case False
    then have "Suc pos \<le> B" using Cons.prems by (cases "B = pos") auto
    then have "take 24 (drop (B - Suc pos) (interleave H (Suc pos) bs)) = H B"
      using Cons.prems(4) False
      by (intro Cons.IH chunk_pos_Suc(1) Cons.prems(1,2)) simp_all
    moreover have "B - pos = Suc (B - Suc pos)" using \<open>Suc pos \<le> B\<close> by simp
    ultimately show ?thesis using False by simp
  qed
qed simp

end
