(* ===== verification/RecordWriter.thy ===== *)
theory RecordWriter
  imports Errors BlockStream BlockHeader SimpleChunk
begin

text \<open>
  \<^verbatim>\<open>riegeli/src/record_writer.rs\<close>: the options, the chunking of records, the layout of chunks with
  interleaved block headers, padding, and the states closed and failed.  The underlying writer
  \<open>W: Write\<close> is a \<open>sink\<close>: the bytes it accepted and a script of the failures it will report.  The
  transposed chunk encoder is a parameter of this theory, a \<open>transposer\<close> of functions on a type
  of encoder states.
\<close>

section \<open>Options\<close>

text \<open>A double: not a number, an infinity, or \<open>m / 2^k\<close>.  Only values clamped to \<open>[0, 1]\<close> are used.\<close>

datatype f64 = NaN | Infinity bool | Fin int nat

definition clamp_unit :: "f64 \<Rightarrow> f64" where
  "clamp_unit x = (case x of NaN \<Rightarrow> NaN
     | Infinity positive \<Rightarrow> if positive then Fin 1 0 else Fin 0 0
     | Fin m k \<Rightarrow> if m < 0 then Fin 0 0 else if 2 ^ k < m then Fin 1 0 else Fin m k)"

record WriterOptions =
  wo_compression :: CompressionType
  wo_chunk_size :: u64
  wo_initial_padding :: u64
  wo_final_padding :: u64
  wo_transpose :: bool
  wo_bucket_fraction :: f64
  wo_compression_level :: "int option"
  wo_window_log :: "nat option"
  wo_metadata :: "bytes option"

definition DEFAULT_CHUNK_SIZE :: u64 where "DEFAULT_CHUNK_SIZE = 1048576"

definition options_new :: WriterOptions where
  "options_new = \<lparr>wo_compression = None_Compression, wo_chunk_size = DEFAULT_CHUNK_SIZE,
     wo_initial_padding = 0, wo_final_padding = 0, wo_transpose = False, wo_bucket_fraction = Fin 1 0,
     wo_compression_level = None, wo_window_log = None, wo_metadata = None\<rparr>"

text \<open>The serialisation of the message \<open>RecordsMetadata\<close> is the protobuf crate's.\<close>

definition set_metadata :: "('m \<Rightarrow> bytes) \<Rightarrow> 'm \<Rightarrow> WriterOptions \<Rightarrow> WriterOptions" where
  "set_metadata serialize metadata o' = o'\<lparr>wo_metadata := Some (serialize metadata)\<rparr>"

definition set_serialized_metadata :: "bytes \<Rightarrow> WriterOptions \<Rightarrow> WriterOptions" where
  "set_serialized_metadata d o' = o'\<lparr>wo_metadata := Some d\<rparr>"

definition set_compression :: "CompressionType \<Rightarrow> WriterOptions \<Rightarrow> WriterOptions" where
  "set_compression c o' = o'\<lparr>wo_compression := c\<rparr>"

definition set_chunk_size :: "u64 \<Rightarrow> WriterOptions \<Rightarrow> WriterOptions" where
  "set_chunk_size n o' = o'\<lparr>wo_chunk_size := n\<rparr>"

definition set_transpose :: "bool \<Rightarrow> WriterOptions \<Rightarrow> WriterOptions" where
  "set_transpose enabled o' = o'\<lparr>wo_transpose := enabled\<rparr>"

definition set_initial_padding :: "u64 \<Rightarrow> WriterOptions \<Rightarrow> WriterOptions" where
  "set_initial_padding n o' = o'\<lparr>wo_initial_padding := n\<rparr>"

definition set_final_padding :: "u64 \<Rightarrow> WriterOptions \<Rightarrow> WriterOptions" where
  "set_final_padding n o' = o'\<lparr>wo_final_padding := n\<rparr>"

definition set_compression_level :: "int \<Rightarrow> WriterOptions \<Rightarrow> WriterOptions" where
  "set_compression_level level o' = o'\<lparr>wo_compression_level := Some level\<rparr>"

definition set_window_log :: "nat option \<Rightarrow> WriterOptions \<Rightarrow> WriterOptions" where
  "set_window_log w o' = o'\<lparr>wo_window_log := w\<rparr>"

definition set_bucket_fraction :: "f64 \<Rightarrow> WriterOptions \<Rightarrow> WriterOptions" where
  "set_bucket_fraction fraction o' = o'\<lparr>wo_bucket_fraction := clamp_unit fraction\<rparr>"

text \<open>The validation at the start of \<open>RecordWriter::new\<close>.\<close>

definition validate_options :: "WriterOptions \<Rightarrow> unit res" where
  "validate_options o' =
     (case wo_compression o' of
        None_Compression \<Rightarrow>
          guard_res (wo_window_log o' = None) (MalformedData ''window_log is not applicable to compression type'')
      | Snappy \<Rightarrow>
          guard_res (wo_window_log o' = None) (MalformedData ''window_log is not applicable to compression type'')
      | Brotli \<Rightarrow>
          bind_res (guard_res (case wo_compression_level o' of None \<Rightarrow> True | Some l \<Rightarrow> 0 \<le> l \<and> l \<le> 11)
            (MalformedData ''compression_level out of range for Brotli'')) (\<lambda>_.
          guard_res (case wo_window_log o' of None \<Rightarrow> True | Some l \<Rightarrow> 10 \<le> l \<and> l \<le> 30)
            (MalformedData ''window_log out of range for Brotli''))
      | Zstd \<Rightarrow>
          bind_res (guard_res (case wo_compression_level o' of None \<Rightarrow> True | Some l \<Rightarrow> - 131072 \<le> l \<and> l \<le> 22)
            (MalformedData ''compression_level out of range for Zstd'')) (\<lambda>_.
          guard_res (case wo_window_log o' of None \<Rightarrow> True | Some l \<Rightarrow> 10 \<le> l \<and> l \<le> 31)
            (MalformedData ''window_log out of range for Zstd'')))"

text \<open>
  \<open>(chunk_size as f64 * bucket_fraction).round()\<close>, exactly: conversion and product are rounded to 53
  significant bits, ties to even (the result is far from the subnormal range or rounds to 0), and
  \<open>round\<close> takes halves away from zero.  The saturation limit is \<open>u64::MAX as f64\<close>, that is \<open>2^64\<close>.
\<close>

fun bit_count :: "nat \<Rightarrow> nat" where
  "bit_count n = (if n = 0 then 0 else Suc (bit_count (n div 2)))"

declare bit_count.simps [simp del]

definition round_53 :: "nat \<Rightarrow> nat" where
  "round_53 n =
     (let s = bit_count n - 53; q = n div 2 ^ s; r = n mod 2 ^ s
      in if s = 0 then n
         else (if 2 ^ s < 2 * r \<or> 2 ^ s = 2 * r \<and> odd q then q + 1 else q) * 2 ^ s)"

definition transpose_bucket_size_of :: "u64 \<Rightarrow> f64 \<Rightarrow> u64" where
  "transpose_bucket_size_of chunk_size fraction =
     (case clamp_unit fraction of
        Fin m k \<Rightarrow>
          let product = round_53 (round_53 (unat chunk_size) * nat m);
              rounded = (2 * product + 2 ^ k) div 2 ^ (k + 1)
          in if 2 ^ 64 \<le> rounded then - 1 else if 1 \<le> rounded then of_nat rounded else 1
      | _ \<Rightarrow> 1)"

section \<open>The sink\<close>

text \<open>
  Each call of \<open>write_all\<close> or \<open>flush\<close> takes the next entry of the script: \<open>None\<close>, or no entry, is
  success; \<open>Some (k, msg)\<close> is an I/O error after \<open>k\<close> bytes were taken.
\<close>

record sink =
  out_bytes :: bytes
  out_flushed :: nat
  out_faults :: "(nat \<times> string) option list"

definition sink_write_all :: "bytes \<Rightarrow> (sink, unit) action" where
  "sink_write_all buf s =
     (case out_faults s of
        Some (k, msg) # fs \<Rightarrow>
          (Inl (IoError msg), s\<lparr>out_bytes := out_bytes s @ take k buf, out_faults := fs\<rparr>)
      | fs \<Rightarrow> (Inr (), s\<lparr>out_bytes := out_bytes s @ buf, out_faults := tl fs\<rparr>))"

definition sink_flush :: "(sink, unit) action" where
  "sink_flush s =
     (case out_faults s of
        Some (k, msg) # fs \<Rightarrow> (Inl (IoError msg), s\<lparr>out_faults := fs\<rparr>)
      | fs \<Rightarrow> (Inr (), s\<lparr>out_flushed := length (out_bytes s), out_faults := tl fs\<rparr>))"

section \<open>The state of the writer\<close>

record 't transposer =
  tr_new :: "CompressionType \<Rightarrow> 't"
  tr_compress_opts :: "CompressOptions \<Rightarrow> 't \<Rightarrow> 't"
  tr_bucket_size :: "u64 \<Rightarrow> 't \<Rightarrow> 't"
  tr_add_record :: "bytes \<Rightarrow> 't \<Rightarrow> unit res \<times> 't"
  tr_encode :: "'t \<Rightarrow> Chunk res"

datatype 't ActiveEncoder = Simple_Encoder SimpleChunkEncoder | Transpose_Encoder 't

fun encoder_add_record :: "'t transposer \<Rightarrow> bytes \<Rightarrow> ('t ActiveEncoder, unit) action" where
  "encoder_add_record T data (Simple_Encoder e) = (Inr (), Simple_Encoder (sc_add_record data e))"
| "encoder_add_record T data (Transpose_Encoder t) =
     (case tr_add_record T data t of (r, t') \<Rightarrow> (r, Transpose_Encoder t'))"

fun encoder_encode :: "hasher \<Rightarrow> codec \<Rightarrow> 't transposer \<Rightarrow> 't ActiveEncoder \<Rightarrow> Chunk res" where
  "encoder_encode hw C T (Simple_Encoder e) = sc_encode hw C e"
| "encoder_encode hw C T (Transpose_Encoder t) = tr_encode T t"

record 't RecordWriter =
  rw_writer :: sink
  rw_compression :: CompressionType
  rw_chunk_size :: u64
  rw_initial_padding :: u64
  rw_final_padding :: u64
  rw_transpose :: bool
  rw_transpose_bucket_size :: u64
  rw_compress_opts :: CompressOptions
  rw_file_pos :: u64
  rw_last_chunk_start :: u64
  rw_encoder :: "'t ActiveEncoder"
  rw_accumulated_bytes :: u64
  rw_pending_record_count :: u64
  rw_closed :: bool
  rw_failed :: "string option"

definition writer_write_all :: "bytes \<Rightarrow> ('t RecordWriter, unit) action" where
  "writer_write_all buf w = (case sink_write_all buf (rw_writer w) of (r, s) \<Rightarrow> (r, w\<lparr>rw_writer := s\<rparr>))"

definition writer_flush :: "('t RecordWriter, unit) action" where
  "writer_flush w = (case sink_flush (rw_writer w) of (r, s) \<Rightarrow> (r, w\<lparr>rw_writer := s\<rparr>))"

text \<open>\<open>self.writer.write_all(buf)?; self.file_pos += len\<close>.\<close>

definition emit :: "bytes \<Rightarrow> ('t RecordWriter, unit) action" where
  "emit buf = then_do (writer_write_all buf)
     (\<lambda>_ w. (Inr (), w\<lparr>rw_file_pos := rw_file_pos w + of_nat (length buf)\<rparr>))"

definition is_multiple_of :: "u64 \<Rightarrow> u64 \<Rightarrow> bool" where
  "is_multiple_of a b \<longleftrightarrow> a mod b = 0"

section \<open>Writing chunks\<close>

text \<open>The header at the block boundary \<open>file_pos\<close>, inside the chunk from \<open>chunk_begin\<close> to \<open>chunk_end\<close>.\<close>

definition emit_block_header :: "hasher \<Rightarrow> u64 \<Rightarrow> u64 \<Rightarrow> ('t RecordWriter, unit) action" where
  "emit_block_header hw cb ce w =
     (let block_pos = rw_file_pos w; prev = block_pos - cb; nxt = ce - block_pos
      in emit (block_to_bytes (block_from_parts hw prev nxt)) w)"

function write_bytes_with_block_headers ::
  "hasher \<Rightarrow> bytes \<Rightarrow> nat \<Rightarrow> u64 \<Rightarrow> u64 \<Rightarrow> ('t RecordWriter, unit) action" where
  "write_bytes_with_block_headers hw bs offset cb ce w =
     (if offset < length bs then
        (case (if is_multiple_of (rw_file_pos w) BLOCK_SIZE then emit_block_header hw cb ce w else (Inr (), w)) of
           (Inl e, w) \<Rightarrow> (Inl e, w)
         | (Inr _, w) \<Rightarrow>
             let pos_in_block = unat (rw_file_pos w mod BLOCK_SIZE);
                 space_in_block = unat BLOCK_SIZE - pos_in_block;
                 to_write = min (length bs - offset) space_in_block
             in (case emit (slice offset (offset + to_write) bs) w of
                   (Inl e, w) \<Rightarrow> (Inl e, w)
                 | (Inr _, w) \<Rightarrow> write_bytes_with_block_headers hw bs (offset + to_write) cb ce w))
      else (Inr (), w))"
  by pat_completeness auto

lemma space_in_block_pos: "unat (pos mod BLOCK_SIZE) < unat BLOCK_SIZE"
  unfolding unat_mod_block by (simp add: block_consts(1))

lemma offset_step: "offset < length bs \<Longrightarrow>
  length bs - (offset + min (length bs - offset) (unat BLOCK_SIZE - unat (pos mod BLOCK_SIZE))) < length bs - offset"
proof -
  assume "offset < length bs"
  moreover obtain k where "unat BLOCK_SIZE - unat (pos mod BLOCK_SIZE) = Suc k"
    using space_in_block_pos [of pos] by (metis Suc_diff_Suc)
  ultimately show ?thesis by (intro diff_less_mono2) simp_all
qed

termination write_bytes_with_block_headers
  by (relation "measure (\<lambda>(hw, bs, offset, cb, ce, w). length bs - offset)") (simp_all add: offset_step)

declare write_bytes_with_block_headers.simps [simp del]

text \<open>The zero bytes that fill the chunk up to its end.\<close>

function pad_to_chunk_end :: "hasher \<Rightarrow> u64 \<Rightarrow> u64 \<Rightarrow> ('t RecordWriter, unit) action" where
  "pad_to_chunk_end hw cb ce w =
     (if rw_file_pos w < ce then
        if is_multiple_of (rw_file_pos w) BLOCK_SIZE then
          (case emit_block_header hw cb ce w of
             (Inl e, w) \<Rightarrow> (Inl e, w)
           | (Inr _, w) \<Rightarrow> pad_to_chunk_end hw cb ce w)
        else
          let pos_in_block = rw_file_pos w mod BLOCK_SIZE;
              space_in_block = BLOCK_SIZE - pos_in_block;
              to_write = unat (min (ce - rw_file_pos w) space_in_block)
          in (case emit (replicate to_write 0) w of
                (Inl e, w) \<Rightarrow> (Inl e, w)
              | (Inr _, w) \<Rightarrow> pad_to_chunk_end hw cb ce w)
      else (Inr (), w))"
  by pat_completeness auto

lemma writer_write_all_pos: "writer_write_all buf w = (r, w') \<Longrightarrow> rw_file_pos w' = rw_file_pos w"
  by (auto simp: writer_write_all_def split: prod.splits)

lemma emit_pos: "emit buf w = (Inr u, w') \<Longrightarrow> rw_file_pos w' = rw_file_pos w + of_nat (length buf)"
  by (auto simp: emit_def then_do_Inr dest: writer_write_all_pos)

lemma emit_block_header_pos: "emit_block_header hw cb ce w = (Inr u, w') \<Longrightarrow> rw_file_pos w' = rw_file_pos w + 24"
  by (auto simp: emit_block_header_def Let_def dest: emit_pos)

lemma is_multiple_of_block: "is_multiple_of pos BLOCK_SIZE \<longleftrightarrow> unat pos mod 65536 = 0"
  unfolding is_multiple_of_def word_unat_eq_iff unat_mod_block by simp

lemma boundary_plus_header: "is_multiple_of pos BLOCK_SIZE \<Longrightarrow> unat (pos + 24) = unat pos + 24"
proof -
  assume "is_multiple_of pos BLOCK_SIZE"
  then have "unat pos = unat pos div 65536 * 65536" using div_mult_mod_eq [of "unat pos" 65536]
    by (simp add: is_multiple_of_block)
  with div_block_less [of pos] have "unat pos + 24 \<le> u64_max" by linarith
  then show ?thesis by (subst unat_add_u64) simp_all
qed

lemma pad_step:
  assumes "pos < ce"
  shows "0 < unat (min (ce - pos) (BLOCK_SIZE - pos mod BLOCK_SIZE))"
    "unat pos + unat (min (ce - pos) (BLOCK_SIZE - pos mod BLOCK_SIZE)) \<le> unat ce"
    "unat (min (ce - pos) (BLOCK_SIZE - pos mod BLOCK_SIZE)) = min (unat ce - unat pos) (65536 - unat pos mod 65536)"
proof -
  have "unat (BLOCK_SIZE - pos mod BLOCK_SIZE) = 65536 - unat pos mod 65536"
    using space_in_block_pos [of pos] by (subst unat_sub_u64) (simp_all add: unat_mod_block, simp add: block_consts(1))
  moreover have "unat (ce - pos) = unat ce - unat pos"
    using assms by (simp add: unat_sub_u64 word_less_nat_alt)
  ultimately show "unat (min (ce - pos) (BLOCK_SIZE - pos mod BLOCK_SIZE)) = min (unat ce - unat pos) (65536 - unat pos mod 65536)"
    by (auto simp: min_def word_le_nat_alt)
  then show "0 < unat (min (ce - pos) (BLOCK_SIZE - pos mod BLOCK_SIZE))"
    "unat pos + unat (min (ce - pos) (BLOCK_SIZE - pos mod BLOCK_SIZE)) \<le> unat ce"
    using assms by (auto simp: word_less_nat_alt)
qed

lemma pad_measures:
  assumes "rw_file_pos w < ce"
  shows "is_multiple_of (rw_file_pos w) BLOCK_SIZE \<Longrightarrow> (Inr u, w') = emit_block_header hw cb ce w \<Longrightarrow>
      unat ce - unat (rw_file_pos w') < unat ce - unat (rw_file_pos w)"
    and "n = unat (min (ce - rw_file_pos w) (BLOCK_SIZE - rw_file_pos w mod BLOCK_SIZE)) \<Longrightarrow>
      (Inr u, w') = emit (replicate n 0) w \<Longrightarrow>
      unat ce - unat (rw_file_pos w') < unat ce - unat (rw_file_pos w)"
proof -
  show "unat ce - unat (rw_file_pos w') < unat ce - unat (rw_file_pos w)"
    if "is_multiple_of (rw_file_pos w) BLOCK_SIZE" "(Inr u, w') = emit_block_header hw cb ce w"
    using that(2) [symmetric] boundary_plus_header [OF that(1)] assms
    by (auto dest!: emit_block_header_pos simp: word_less_nat_alt)
  show "unat ce - unat (rw_file_pos w') < unat ce - unat (rw_file_pos w)"
    if n: "n = unat (min (ce - rw_file_pos w) (BLOCK_SIZE - rw_file_pos w mod BLOCK_SIZE))"
      and "(Inr u, w') = emit (replicate n 0) w"
  proof -
    have "rw_file_pos w' = rw_file_pos w + of_nat n" using that(2) [symmetric] by (auto dest!: emit_pos)
    moreover have "0 < n" "unat (rw_file_pos w) + n \<le> unat ce" using pad_step [OF assms] n by simp_all
    moreover from this have "unat (rw_file_pos w + of_nat n) = unat (rw_file_pos w) + n"
      by (intro unat_add_nat order.trans [OF _ unat_le_u64_max [of ce]])
    ultimately show ?thesis by simp
  qed
qed

termination pad_to_chunk_end
  by (relation "measure (\<lambda>(hw, cb, ce, w). unat ce - unat (rw_file_pos w))")
     (auto simp: Let_def intro: pad_measures(1) pad_measures(2) [OF _ refl])

declare pad_to_chunk_end.simps [simp del]

text \<open>\<open>write_chunk_raw\<close>.\<close>

definition write_chunk_raw :: "hasher \<Rightarrow> ChunkHeader \<Rightarrow> bytes \<Rightarrow> ('t RecordWriter, unit) action" where
  "write_chunk_raw hw header data w =
     (let chunk_start = rw_file_pos w;
          chunk_end_pos = chunk_end chunk_start (ch_data_size header) (ch_num_records header);
          all_bytes = chunk_to_bytes header @ data
      in then_do (write_bytes_with_block_headers hw all_bytes 0 chunk_start chunk_end_pos)
           (\<lambda>_. pad_to_chunk_end hw chunk_start chunk_end_pos)
           (w\<lparr>rw_last_chunk_start := chunk_start\<rparr>))"

text \<open>A fresh encoder with the writer's settings, and \<open>flush_chunk\<close>.\<close>

definition make_encoder :: "'t transposer \<Rightarrow> bool \<Rightarrow> CompressionType \<Rightarrow> CompressOptions \<Rightarrow> u64 \<Rightarrow> 't ActiveEncoder" where
  "make_encoder T transposed ct opts bucket =
     (if transposed
      then Transpose_Encoder (tr_bucket_size T bucket (tr_compress_opts T opts (tr_new T ct)))
      else Simple_Encoder (sc_with_options ct opts))"

definition flush_chunk :: "hasher \<Rightarrow> codec \<Rightarrow> 't transposer \<Rightarrow> ('t RecordWriter, unit) action" where
  "flush_chunk hw C T w =
     (let new_encoder = make_encoder T (rw_transpose w) (rw_compression w) (rw_compress_opts w)
            (rw_transpose_bucket_size w);
          encoder = rw_encoder w;
          w = w\<lparr>rw_encoder := new_encoder, rw_accumulated_bytes := 0, rw_pending_record_count := 0\<rparr>
      in case encoder_encode hw C T encoder of
           Inl e \<Rightarrow> (Inl e, w)
         | Inr chunk \<Rightarrow> write_chunk_raw hw (chunk_header chunk) (chunk_data chunk) w)"

section \<open>Padding\<close>

text \<open>The two loops of \<open>pos_after_padding\<close>; they wrap with the machine's addition and may not end.\<close>

partial_function (option) grow_length :: "u64 \<Rightarrow> u64 \<Rightarrow> u64 option" where
  "grow_length padding len =
     (if len < CHUNK_HEADER_SIZE then grow_length padding (len + padding) else Some len)"

partial_function (option) grow_end :: "u64 \<Rightarrow> u64 \<Rightarrow> u64 \<Rightarrow> u64 option" where
  "grow_end pos padding end_pos =
     (if remaining_in_block end_pos < BLOCK_SIZE - BLOCK_HEADER_SIZE \<and>
         CHUNK_HEADER_SIZE \<le> distance_without_overhead pos end_pos
      then Some end_pos
      else grow_end pos padding (end_pos + padding))"

definition pos_after_padding :: "u64 \<Rightarrow> u64 \<Rightarrow> u64 option" where
  "pos_after_padding pos padding =
     (if padding \<le> 1 then Some pos
      else let remainder = pos mod padding
           in if remainder = 0 then Some pos
              else case grow_length padding (padding - remainder) of
                     None \<Rightarrow> None
                   | Some len \<Rightarrow> grow_end pos padding (pos + len))"

definition write_padding_to_multiple :: "hasher \<Rightarrow> u64 \<Rightarrow> 't RecordWriter \<Rightarrow> (unit res \<times> 't RecordWriter) option" where
  "write_padding_to_multiple hw alignment w =
     (let current = rw_file_pos w
      in case pos_after_padding current alignment of
           None \<Rightarrow> None
         | Some end_pos \<Rightarrow>
             if end_pos = current then Some (Inr (), w)
             else
               let data_size = distance_without_overhead current end_pos - CHUNK_HEADER_SIZE;
                   padding_data = replicate (unat data_size) 0;
                   padding_header = chunk_from_parts hw padding_data Padding 0 0
               in Some (write_chunk_raw hw padding_header padding_data w))"

section \<open>The failed state\<close>

definition check_not_failed :: "('t RecordWriter, unit) action" where
  "check_not_failed w = (case rw_failed w of Some msg \<Rightarrow> (Inl (WriterFailed msg), w) | None \<Rightarrow> (Inr (), w))"

definition latch_failure :: "unit res \<times> 't RecordWriter \<Rightarrow> unit res \<times> 't RecordWriter" where
  "latch_failure rw =
     (case rw of
        (Inl e, w) \<Rightarrow> (Inl e, if rw_failed w = None then w\<lparr>rw_failed := Some (error_to_string e)\<rparr> else w)
      | (Inr _, w) \<Rightarrow> (Inr (), w))"

section \<open>The operations\<close>

definition write_record_impl :: "hasher \<Rightarrow> codec \<Rightarrow> 't transposer \<Rightarrow> bytes \<Rightarrow> ('t RecordWriter, unit) action" where
  "write_record_impl hw C T data w =
     (let added_size = of_nat (length data) + 8
      in then_do
        (if rw_chunk_size w < rw_accumulated_bytes w + added_size \<and> 0 < rw_accumulated_bytes w
         then flush_chunk hw C T else ret ())
        (\<lambda>_ w. let w = w\<lparr>rw_accumulated_bytes := rw_accumulated_bytes w + added_size,
                        rw_pending_record_count := rw_pending_record_count w + 1\<rparr>
               in case encoder_add_record T data (rw_encoder w) of
                    (Inl e, enc) \<Rightarrow> (Inl e, w\<lparr>rw_encoder := enc\<rparr>)
                  | (Inr _, enc) \<Rightarrow>
                      let w = w\<lparr>rw_encoder := enc\<rparr>
                      in if rw_chunk_size w < rw_accumulated_bytes w + 8 then flush_chunk hw C T w
                         else (Inr (), w))
        w)"

definition write_record :: "hasher \<Rightarrow> codec \<Rightarrow> 't transposer \<Rightarrow> bytes \<Rightarrow> ('t RecordWriter, unit) action" where
  "write_record hw C T data w =
     (if rw_closed w then (Inl WriterClosed, w)
      else then_do check_not_failed (\<lambda>_ w. latch_failure (write_record_impl hw C T data w)) w)"

text \<open>\<open>flush_impl\<close> and \<open>flush_internal_impl\<close> have the same body.\<close>

definition flush_impl :: "hasher \<Rightarrow> codec \<Rightarrow> 't transposer \<Rightarrow> 't RecordWriter \<Rightarrow> (unit res \<times> 't RecordWriter) option" where
  "flush_impl hw C T w =
     (case (if 0 < rw_pending_record_count w then flush_chunk hw C T w else (Inr (), w)) of
        (Inl e, w) \<Rightarrow> Some (Inl e, w)
      | (Inr _, w) \<Rightarrow>
          (case (if 0 < rw_final_padding w then write_padding_to_multiple hw (rw_final_padding w) w
                 else Some (Inr (), w)) of
             None \<Rightarrow> None
           | Some (Inl e, w) \<Rightarrow> Some (Inl e, w)
           | Some (Inr _, w) \<Rightarrow> Some (writer_flush w)))"

definition flush :: "hasher \<Rightarrow> codec \<Rightarrow> 't transposer \<Rightarrow> 't RecordWriter \<Rightarrow> (unit res \<times> 't RecordWriter) option" where
  "flush hw C T w =
     (if rw_closed w then Some (Inr (), w)
      else case check_not_failed w of
             (Inl e, w) \<Rightarrow> Some (Inl e, w)
           | (Inr _, w) \<Rightarrow> map_option latch_failure (flush_impl hw C T w))"

text \<open>\<open>flush_internal\<close>: also the body of \<open>drop\<close>, which ignores the answer.\<close>

definition flush_internal :: "hasher \<Rightarrow> codec \<Rightarrow> 't transposer \<Rightarrow> 't RecordWriter \<Rightarrow> (unit res \<times> 't RecordWriter) option" where
  "flush_internal hw C T w =
     (if rw_closed w then Some (Inr (), w)
      else let w = w\<lparr>rw_closed := True\<rparr>
           in case check_not_failed w of
                (Inl e, w) \<Rightarrow> Some (Inl e, w)
              | (Inr _, w) \<Rightarrow> map_option latch_failure (flush_impl hw C T w))"

text \<open>\<open>close\<close> consumes the writer: \<open>flush_internal\<close>, then \<open>drop\<close>.\<close>

definition drop_writer :: "hasher \<Rightarrow> codec \<Rightarrow> 't transposer \<Rightarrow> 't RecordWriter \<Rightarrow> sink option" where
  "drop_writer hw C T w = map_option (\<lambda>(r, w). rw_writer w) (flush_internal hw C T w)"

definition close :: "hasher \<Rightarrow> codec \<Rightarrow> 't transposer \<Rightarrow> 't RecordWriter \<Rightarrow> (unit res \<times> sink) option" where
  "close hw C T w =
     (case flush_internal hw C T w of
        None \<Rightarrow> None
      | Some (r, w) \<Rightarrow> map_option (\<lambda>s. (r, s)) (drop_writer hw C T w))"

text \<open>
  \<open>RecordWriter::new\<close>.  A failure after the writer was built drops it, and dropping flushes; the
  second component is the sink as it is left behind.
\<close>

definition MAX_NUM_RECORDS :: u64 where "MAX_NUM_RECORDS = drop_bit 8 (- 1)"

definition initial_writer :: "'t transposer \<Rightarrow> WriterOptions \<Rightarrow> sink \<Rightarrow> 't RecordWriter" where
  "initial_writer T o' s =
     (let compression = wo_compression o';
          bucket = transpose_bucket_size_of (wo_chunk_size o') (wo_bucket_fraction o');
          opts = \<lparr>opt_level = wo_compression_level o', opt_window_log = wo_window_log o'\<rparr>
      in \<lparr>rw_writer = s, rw_compression = compression,
          rw_chunk_size = min (wo_chunk_size o') (MAX_NUM_RECORDS * 8),
          rw_initial_padding = wo_initial_padding o', rw_final_padding = wo_final_padding o',
          rw_transpose = wo_transpose o', rw_transpose_bucket_size = bucket, rw_compress_opts = opts,
          rw_file_pos = BLOCK_HEADER_SIZE + CHUNK_HEADER_SIZE, rw_last_chunk_start = 0,
          rw_encoder = make_encoder T (wo_transpose o') compression opts bucket,
          rw_accumulated_bytes = 0, rw_pending_record_count = 0, rw_closed = False, rw_failed = None\<rparr>)"

lemma initial_writer_sel [simp]:
  "rw_writer (initial_writer T o' s) = s" "rw_file_pos (initial_writer T o' s) = 64"
  "rw_closed (initial_writer T o' s) = False" "rw_failed (initial_writer T o' s) = None"
  "rw_accumulated_bytes (initial_writer T o' s) = 0" "rw_pending_record_count (initial_writer T o' s) = 0"
  "rw_transpose (initial_writer T o' s) = wo_transpose o'"
  "rw_compression (initial_writer T o' s) = wo_compression o'"
  "rw_final_padding (initial_writer T o' s) = wo_final_padding o'"
  by (simp_all add: initial_writer_def Let_def block_consts)

definition write_metadata :: "hasher \<Rightarrow> 't transposer \<Rightarrow> bytes \<Rightarrow> ('t RecordWriter, unit) action" where
  "write_metadata hw T metadata w =
     (case tr_add_record T metadata (tr_compress_opts T (rw_compress_opts w) (tr_new T (rw_compression w))) of
        (Inl e, t) \<Rightarrow> (Inl e, w)
      | (Inr _, t) \<Rightarrow>
          (case tr_encode T t of
             Inl e \<Rightarrow> (Inl e, w)
           | Inr encoded \<Rightarrow>
               write_chunk_raw hw
                 (chunk_from_parts hw (chunk_data encoded) FileMetadata 0 (of_nat (length metadata)))
                 (chunk_data encoded) w))"

definition writer_new :: "hasher \<Rightarrow> codec \<Rightarrow> 't transposer \<Rightarrow> sink \<Rightarrow> WriterOptions \<Rightarrow> ('t RecordWriter res \<times> sink) option" where
  "writer_new hw C T s o' =
     (case validate_options o' of
        Inl e \<Rightarrow> Some (Inl e, s)
      | Inr _ \<Rightarrow>
          (case then_do (sink_write_all (block_to_bytes (block_from_parts hw 0 (BLOCK_HEADER_SIZE + CHUNK_HEADER_SIZE))))
             (\<lambda>_. sink_write_all (chunk_to_bytes (chunk_from_parts hw [] FileSignature 0 0))) s of
             (Inl e, s) \<Rightarrow> Some (Inl e, s)
           | (Inr _, s) \<Rightarrow>
               let w = initial_writer T o' s
               in case wo_metadata o' of
                    None \<Rightarrow> Some (Inr w, s)
                  | Some metadata \<Rightarrow>
                      (case write_metadata hw T metadata w of
                         (Inr _, w) \<Rightarrow> Some (Inr w, rw_writer w)
                       | (Inl e, w) \<Rightarrow> map_option (\<lambda>s. (Inl e, s)) (drop_writer hw C T w))))"

section \<open>Sample instances\<close>

text \<open>A sink that never fails, a writer without transposed chunks, and a hash: for examples.\<close>

definition empty_sink :: sink where
  "empty_sink = \<lparr>out_bytes = [], out_flushed = 0, out_faults = []\<rparr>"

definition null_transposer :: "unit transposer" where
  "null_transposer = \<lparr>tr_new = (\<lambda>_. ()), tr_compress_opts = (\<lambda>_ t. t), tr_bucket_size = (\<lambda>_ t. t),
     tr_add_record = (\<lambda>_ t. (Inl DataHashMismatch, t)), tr_encode = (\<lambda>_. Inl DataHashMismatch)\<rparr>"

definition sample_hash :: hasher where
  "sample_hash key data = foldr (\<lambda>b h. ucast b + 3 * h) data 1"

end
