(* ===== verification/WriterLayout.thy ===== *)
theory WriterLayout
  imports RecordWriter
begin

text \<open>
  What the low-level operations of the writer put into the sink: \<open>write_chunk_raw\<close> appends the
  image of a chunk, that is its header, its data and its padding interleaved with the block headers
  that point to the ends of the chunk; when the sink fails, a prefix of it.
\<close>

section \<open>Effects on the sink\<close>

definition same_frame :: "'t RecordWriter \<Rightarrow> 't RecordWriter \<Rightarrow> bool" where
  "same_frame w w' \<longleftrightarrow> w' = w\<lparr>rw_writer := rw_writer w', rw_file_pos := rw_file_pos w'\<rparr>"

lemma same_frame_refl: "same_frame w w"
  by (simp add: same_frame_def)

lemma same_frame_trans: "same_frame w w1 \<Longrightarrow> same_frame w1 w2 \<Longrightarrow> same_frame w w2"
  by (cases w; cases w1; cases w2) (simp add: same_frame_def)

lemma same_frameD:
  assumes "same_frame w w'"
  shows "rw_compression w' = rw_compression w" "rw_chunk_size w' = rw_chunk_size w"
    "rw_final_padding w' = rw_final_padding w" "rw_transpose w' = rw_transpose w"
    "rw_transpose_bucket_size w' = rw_transpose_bucket_size w" "rw_compress_opts w' = rw_compress_opts w"
    "rw_encoder w' = rw_encoder w" "rw_accumulated_bytes w' = rw_accumulated_bytes w"
    "rw_pending_record_count w' = rw_pending_record_count w" "rw_closed w' = rw_closed w"
    "rw_failed w' = rw_failed w" "rw_last_chunk_start w' = rw_last_chunk_start w"
    "rw_initial_padding w' = rw_initial_padding w"
  using assms by (cases w; cases w'; simp add: same_frame_def)+

text \<open>
  \<open>writes w bs r w'\<close>: the operation appended \<open>bs\<close> and advanced the position when it succeeded,
  appended a prefix of \<open>bs\<close> when it failed, and changed nothing else in the writer.
\<close>

definition writes :: "'t RecordWriter \<Rightarrow> bytes \<Rightarrow> unit res \<Rightarrow> 't RecordWriter \<Rightarrow> bool" where
  "writes w bs r w' \<longleftrightarrow>
     same_frame w w' \<and> out_flushed (rw_writer w') = out_flushed (rw_writer w) \<and>
     (case r of
        Inr _ \<Rightarrow> out_bytes (rw_writer w') = out_bytes (rw_writer w) @ bs \<and>
                 rw_file_pos w' = rw_file_pos w + of_nat (length bs)
      | Inl e \<Rightarrow> (\<exists>msg. e = IoError msg) \<and> (\<exists>k. out_bytes (rw_writer w') = out_bytes (rw_writer w) @ take k bs)) \<and>
     (out_faults (rw_writer w) = [] \<longrightarrow> r = Inr () \<and> out_faults (rw_writer w') = [])"

lemma writes_Nil: "writes w [] (Inr ()) w"
  by (simp add: writes_def same_frame_refl)

lemma writes_append:
  assumes "writes w xs (Inr u) w1" "writes w1 ys r w2"
  shows "writes w (xs @ ys) r w2"
proof -
  have f: "same_frame w w2" using assms same_frame_trans by (auto simp: writes_def)
  have o1: "out_bytes (rw_writer w1) = out_bytes (rw_writer w) @ xs"
    "rw_file_pos w1 = rw_file_pos w + of_nat (length xs)"
    using assms(1) by (simp_all add: writes_def)
  show ?thesis
  proof (cases r)
    case (Inl e)
    with assms(2) o1 obtain k where "out_bytes (rw_writer w2) = out_bytes (rw_writer w) @ xs @ take k ys"
      by (auto simp: writes_def)
    then have "out_bytes (rw_writer w2) = out_bytes (rw_writer w) @ take (length xs + k) (xs @ ys)" by simp
    then show ?thesis using assms Inl f unfolding writes_def by (auto simp del: take_append)
  next
    case (Inr v)
    then show ?thesis using assms f o1 unfolding writes_def by simp
  qed
qed

lemma writes_stop:
  assumes "writes w xs (Inl e) w'"
  shows "writes w (xs @ ys) (Inl e) w'"
proof -
  obtain k where "out_bytes (rw_writer w') = out_bytes (rw_writer w) @ take k xs"
    using assms by (auto simp: writes_def)
  moreover have "take k xs = take (min k (length xs)) (xs @ ys)" by (simp add: min_def)
  ultimately have "\<exists>k. out_bytes (rw_writer w') = out_bytes (rw_writer w) @ take k (xs @ ys)" by metis
  with assms show ?thesis unfolding writes_def by auto
qed

lemma emit_writes: "emit buf w = (r, w') \<Longrightarrow> writes w buf r w'"
  by (cases r)
     (auto simp: emit_def then_do_Inr then_do_Inl writer_write_all_def sink_write_all_def writes_def same_frame_def
        split: prod.splits list.splits option.splits)

lemma writes_pos:
  "writes w bs (Inr u) w' \<Longrightarrow> unat (rw_file_pos w) + length bs \<le> u64_max \<Longrightarrow>
   unat (rw_file_pos w') = unat (rw_file_pos w) + length bs"
  by (simp add: writes_def unat_add_nat)

section \<open>Block headers\<close>

definition header_at :: "hasher \<Rightarrow> nat \<Rightarrow> nat \<Rightarrow> nat \<Rightarrow> bytes" where
  "header_at hw b e B = block_to_bytes (block_from_parts hw (of_nat (B - b)) (of_nat (e - B)))"

lemma length_header_at [simp]: "length (header_at hw b e B) = 24"
  by (simp add: header_at_def block_to_bytes_def)

lemmas layout_append = interleave_append [where H = "header_at hw b e" for hw b e, OF length_header_at]
lemmas layout_end = interleave_end [where H = "header_at hw b e" for hw b e, OF length_header_at]
lemmas layout_pos = chunk_pos_interleave [where H = "header_at hw b e" for hw b e, OF length_header_at]

lemma emit_block_header_writes:
  assumes "emit_block_header hw cb ce w = (r, w')" "cb \<le> rw_file_pos w" "rw_file_pos w \<le> ce"
  shows "writes w (header_at hw (unat cb) (unat ce) (unat (rw_file_pos w))) r w'"
proof -
  have "rw_file_pos w - cb = of_nat (unat (rw_file_pos w) - unat cb)"
    "ce - rw_file_pos w = of_nat (unat ce - unat (rw_file_pos w))"
    using assms(2,3) by (simp_all add: word_le_nat_alt of_nat_diff)
  with assms(1) have "emit (header_at hw (unat cb) (unat ce) (unat (rw_file_pos w))) w = (r, w')"
    by (simp add: emit_block_header_def Let_def header_at_def)
  then show ?thesis by (rule emit_writes)
qed

section \<open>The header and the data\<close>

text \<open>One round of the loop: up to the end of the block.\<close>

lemma interleave_round:
  fixes H :: "nat \<Rightarrow> bytes"
  assumes H: "\<And>p. length (H p) = 24"
    and xs: "xs \<noteq> []"
    and p': "p' = (if p mod 65536 = 0 then p + 24 else p)"
    and n: "n = min (length xs) (65536 - p' mod 65536)"
  shows "interleave H p xs = (if p mod 65536 = 0 then H p else []) @ take n xs @ interleave H (p' + n) (drop n xs)"
    and "p + length (interleave H p (take n xs)) = p' + n"
proof -
  have n0: "0 < n" using xs n by simp
  have t: "interleave H p (take n xs) = (if p mod 65536 = 0 then H p else []) @ take n xs"
  proof (cases "p mod 65536 = 0")
    case True
    then have "p' mod 65536 = 24" using p' mod_block_add [of p 24] by simp
    then have "length (take n xs) \<le> 65512" using n by simp
    moreover have "take n xs \<noteq> []" using n0 xs by simp
    ultimately show ?thesis using True interleave_block by simp
  next
    case False
    then have "length (take n xs) \<le> 65536 - p mod 65536" using n p' by simp
    then show ?thesis using False interleave_run by simp
  qed
  have "length (take n xs) = n" using n by simp
  then show e: "p + length (interleave H p (take n xs)) = p' + n"
    unfolding t using p' by (simp add: H del: length_take)
  then show "interleave H p xs = (if p mod 65536 = 0 then H p else []) @ take n xs @ interleave H (p' + n) (drop n xs)"
    using interleave_append [where H = H, OF H, of p "take n xs" "drop n xs"] t by (simp add: add.commute)
qed

lemma write_bytes_writes:
  assumes "write_bytes_with_block_headers hw bs offset cb ce w = (r, w')"
    and "cb \<le> rw_file_pos w"
    and "chunk_pos (unat (rw_file_pos w))"
    and "unat (rw_file_pos w) + length (interleave (header_at hw (unat cb) (unat ce)) (unat (rw_file_pos w)) (drop offset bs)) \<le> unat ce"
  shows "writes w (interleave (header_at hw (unat cb) (unat ce)) (unat (rw_file_pos w)) (drop offset bs)) r w'"
  using assms
proof (induction hw bs offset cb ce w arbitrary: r w' rule: write_bytes_with_block_headers.induct)
  case (1 hw bs offset cb ce w)
  let ?H = "header_at hw (unat cb) (unat ce)" and ?p = "unat (rw_file_pos w)"
  let ?b = "is_multiple_of (rw_file_pos w) BLOCK_SIZE"
  show ?case
  proof (cases "offset < length bs")
    case False
    with 1 show ?thesis by (auto simp: write_bytes_with_block_headers.simps [of hw bs] writes_Nil)
  next
    case True
    then have ne: "drop offset bs \<noteq> []" by simp
    have bb: "?b \<longleftrightarrow> ?p mod 65536 = 0" by (rule is_multiple_of_block)
    obtain r1 w1 where e1: "(if ?b then emit_block_header hw cb ce w else (Inr (), w)) = (r1, w1)" by fastforce
    have w1: "writes w (if ?b then ?H ?p else []) r1 w1"
    proof (cases ?b)
      case True
      have "rw_file_pos w \<le> ce" using "1.prems"(4) by (simp add: word_le_nat_alt)
      then show ?thesis using True e1 "1.prems"(2) emit_block_header_writes by auto
    next
      case False
      then show ?thesis using e1 writes_Nil by auto
    qed
    define p' where "p' = (if ?p mod 65536 = 0 then ?p + 24 else ?p)"
    define n where "n = min (length bs - offset) (65536 - p' mod 65536)"
    have round: "interleave ?H ?p (drop offset bs) = (if ?b then ?H ?p else []) @
        take n (drop offset bs) @ interleave ?H (p' + n) (drop n (drop offset bs))"
      unfolding bb by (rule interleave_round(1)) (use ne in \<open>simp_all add: p'_def n_def\<close>)
    show ?thesis
    proof (cases r1)
      case (Inl e)
      then have "r = Inl e" "w' = w1"
        using "1.prems"(1) e1 True by (simp_all add: write_bytes_with_block_headers.simps [of hw bs])
      then show ?thesis unfolding round using w1 Inl writes_stop by blast
    next
      case (Inr u)
      have le: "?p + length (if ?b then ?H ?p else []) \<le> u64_max"
      proof (rule order.trans [OF _ unat_le_u64_max [of ce]], rule order.trans [OF _ "1.prems"(4)])
        show "?p + length (if ?b then ?H ?p else []) \<le> ?p + length (interleave ?H ?p (drop offset bs))"
          unfolding round by simp
      qed
      then have p1: "unat (rw_file_pos w1) = p'"
        using writes_pos [OF w1 [unfolded Inr]] unfolding p'_def bb by simp
      have nn: "min (length bs - offset) (unat BLOCK_SIZE - unat (rw_file_pos w1 mod BLOCK_SIZE)) = n"
        using p1 unfolding n_def unat_mod_block by (simp add: block_consts(1))
      have sl: "slice offset (offset + n) bs = take n (drop offset bs)" by (simp add: slice_def)
      obtain r2 w2 where e2: "emit (take n (drop offset bs)) w1 = (r2, w2)" by fastforce
      have w2: "writes w1 (take n (drop offset bs)) r2 w2" using e2 by (rule emit_writes)
      have w12: "writes w ((if ?b then ?H ?p else []) @ take n (drop offset bs)) r2 w2"
        using writes_append w1 [unfolded Inr] w2 by blast
      have rec: "(r, w') = (case (r2, w2) of (Inl e, w) \<Rightarrow> (Inl e, w)
          | (Inr _, w) \<Rightarrow> write_bytes_with_block_headers hw bs (offset + n) cb ce w)"
        using "1.prems"(1) e1 e2 True Inr nn sl
        by (cases r2) (auto simp: write_bytes_with_block_headers.simps [of hw bs offset] Let_def)
      show ?thesis
      proof (cases r2)
        case (Inl e)
        then show ?thesis unfolding round using w12 rec writes_stop [OF w12 [unfolded Inl]] by simp
      next
        case Inr2: (Inr u2)
        have e2': "(r2, w2) = emit (slice offset (offset + n) bs) w1" using e2 sl by simp
        have len: "length (take n (drop offset bs)) = n" by (simp add: n_def)
        have "p' + n + length (interleave ?H (p' + n) (drop (offset + n) bs)) \<le> unat ce"
          using "1.prems"(4) len unfolding round bb p'_def by (simp add: add.commute split: if_splits)
        moreover from this have "p' + n \<le> unat ce" by linarith
        then have "p' + n \<le> u64_max" by (rule order.trans [OF _ unat_le_u64_max])
        then have p2: "unat (rw_file_pos w2) = p' + n"
          using writes_pos [OF w2 [unfolded Inr2]] p1 len by simp
        moreover have "chunk_pos (p' + n)"
        proof -
          have "?p + length (interleave ?H ?p (take n (drop offset bs))) = p' + n"
            by (rule interleave_round(2)) (use ne in \<open>simp_all add: p'_def n_def\<close>)
          then show ?thesis using layout_pos(1) "1.prems"(3) by metis
        qed
        moreover have "cb \<le> rw_file_pos w2"
          using p2 "1.prems"(2) by (auto simp: word_le_nat_alt p'_def)
        ultimately have "writes w2 (interleave ?H (p' + n) (drop (offset + n) bs)) r w'"
          using "1.IH" [OF True e1 [symmetric] Inr refl refl nn [symmetric] e2' Inr2] Inr2 rec by simp
        then show ?thesis unfolding round using writes_append [OF w12 [unfolded Inr2]] by (simp add: add.commute)
      qed
    qed
  qed
qed

section \<open>The zero bytes up to the end of the chunk\<close>

text \<open>Positions at which usable bytes go on: a block boundary, or behind the block's header.\<close>

definition data_pos :: "nat \<Rightarrow> bool" where
  "data_pos p \<longleftrightarrow> p mod 65536 = 0 \<or> 24 \<le> p mod 65536"

lemma chunk_pos_data_pos: "chunk_pos p \<Longrightarrow> data_pos p"
  by (auto simp: chunk_pos_def data_pos_def)

lemma usable_before_less:
  assumes "data_pos p" "p < e" "chunk_pos e"
  shows "usable_before p < usable_before e"
proof -
  have "p + (24 - p mod 65536) < phys_end (Suc (usable_before p))"
    using le_phys_end [of 1 p] by simp
  then have "p < phys_end (Suc (usable_before p))" by linarith
  show ?thesis
  proof (rule ccontr)
    assume "\<not> usable_before p < usable_before e"
    then have eq: "usable_before e = usable_before p"
      using usable_before_mono [of p e] assms(2) by linarith
    then have "phys_end (usable_before p) = e" using assms(3) phys_end_usable_before by metis
    moreover have "phys_end (usable_before p) \<le> p" by (rule phys_end_least) simp
    ultimately show False using assms(2) by simp
  qed
qed

lemma data_pos_add:
  assumes "24 \<le> p mod 65536" "n \<le> 65536 - p mod 65536"
  shows "data_pos (p + n)"
proof (cases "p mod 65536 + n = 65536")
  case True
  then have "(p + n) mod 65536 = 0" by (metis mod_add_left_eq mod_self)
  then show ?thesis by (simp add: data_pos_def)
next
  case False
  then have "(p + n) mod 65536 = p mod 65536 + n" using assms by (intro mod_block_add) simp
  then show ?thesis using assms by (simp add: data_pos_def)
qed

lemma interleave_skip_header:
  assumes "p mod 65536 = 0" "xs \<noteq> []"
  shows "interleave H p xs = H p @ interleave H (p + 24) xs"
proof -
  have "(p + 24) mod 65536 = 24" using mod_block_add [of p 24] assms by simp
  with assms show ?thesis by (cases xs) (simp_all add: add.commute)
qed

lemma interleave_run_append:
  assumes "p mod 65536 \<noteq> 0" "length xs \<le> 65536 - p mod 65536" "\<And>p. length (H p) = 24"
  shows "interleave H p (xs @ ys) = xs @ interleave H (p + length xs) ys"
  using interleave_append [where H = H, OF assms(3)] interleave_run [OF assms(1,2)] by simp

lemma pad_writes:
  assumes "pad_to_chunk_end hw cb ce w = (r, w')"
    and "cb \<le> rw_file_pos w" and "rw_file_pos w \<le> ce"
    and "data_pos (unat (rw_file_pos w))" and "chunk_pos (unat ce)"
  shows "writes w (interleave (header_at hw (unat cb) (unat ce)) (unat (rw_file_pos w))
    (replicate (usable_before (unat ce) - usable_before (unat (rw_file_pos w))) 0)) r w'"
  using assms
proof (induction hw cb ce w arbitrary: r w' rule: pad_to_chunk_end.induct)
  case (1 hw cb ce w)
  let ?H = "header_at hw (unat cb) (unat ce)" and ?p = "unat (rw_file_pos w)"
  let ?zeros = "\<lambda>p. replicate (usable_before (unat ce) - usable_before p) 0"
  note step = pad_to_chunk_end.simps [of hw cb ce w]
  show ?case
  proof (cases "rw_file_pos w < ce")
    case False
    then have "rw_file_pos w = ce" using "1.prems"(3) by simp
    with False 1 step show ?thesis by (auto simp: writes_Nil)
  next
    case True
    then have lt: "?p < unat ce" by (simp add: word_less_nat_alt)
    show ?thesis
    proof (cases "is_multiple_of (rw_file_pos w) BLOCK_SIZE")
      case m: True
      then have p0: "?p mod 65536 = 0" by (simp add: is_multiple_of_block)
      obtain r1 w1 where e1: "emit_block_header hw cb ce w = (r1, w1)" by fastforce
      have w1: "writes w (?H ?p) r1 w1" using e1 "1.prems"(2,3) by (rule emit_block_header_writes)
      have "usable_before ?p < usable_before (unat ce)"
        using "1.prems"(4,5) lt by (intro usable_before_less)
      then have ne: "(?zeros ?p :: bytes) \<noteq> []" by simp
      have u24: "usable_before (?p + 24) = usable_before ?p" using usable_before_skip [of ?p] p0 by simp
      have lay: "interleave ?H ?p (?zeros ?p) = ?H ?p @ interleave ?H (?p + 24) (?zeros (?p + 24))"
        using interleave_skip_header [OF p0 ne] u24 by simp
      show ?thesis
      proof (cases r1)
        case (Inl e)
        then have "r = Inl e \<and> w' = w1" using "1.prems"(1) step True m e1 by simp
        then show ?thesis unfolding lay using w1 Inl writes_stop by blast
      next
        case (Inr u)
        have "rw_file_pos w1 = rw_file_pos w + 24" using e1 Inr by (auto dest: emit_block_header_pos)
        then have p1: "unat (rw_file_pos w1) = ?p + 24" using boundary_plus_header [OF m] by simp
        have "?p + 24 < unat ce"
        proof (rule ccontr)
          assume "\<not> ?p + 24 < unat ce"
          then have "usable_before (unat ce) \<le> usable_before (?p + 24)" by (intro usable_before_mono) simp
          with u24 \<open>usable_before ?p < usable_before (unat ce)\<close> show False by simp
        qed
        moreover have "data_pos (?p + 24)" using p0 mod_block_add [of ?p 24] by (simp add: data_pos_def)
        moreover have "pad_to_chunk_end hw cb ce w1 = (r, w')" using "1.prems"(1) step True m e1 Inr by simp
        ultimately have "writes w1 (interleave ?H (?p + 24) (?zeros (?p + 24))) r w'"
          using "1.IH"(1) [OF True m e1 [symmetric] Inr, of r w'] "1.prems"(2,5) p1
          by (simp add: word_le_nat_alt)
        then show ?thesis unfolding lay using writes_append [OF w1 [unfolded Inr]] by blast
      qed
    next
      case m: False
      then have p0: "?p mod 65536 \<noteq> 0" and p24: "24 \<le> ?p mod 65536"
        using "1.prems"(4) by (auto simp: is_multiple_of_block data_pos_def)
      define n where "n = unat (min (ce - rw_file_pos w) (BLOCK_SIZE - rw_file_pos w mod BLOCK_SIZE))"
      have n: "n \<le> 65536 - ?p mod 65536" "?p + n \<le> unat ce" "0 < n"
        using pad_step [OF True] unfolding n_def by simp_all
      obtain r1 w1 where e1: "emit (replicate n 0) w = (r1, w1)" by fastforce
      have w1: "writes w (replicate n 0) r1 w1" using e1 by (rule emit_writes)
      have un: "usable_before (?p + n) = usable_before ?p + n" using p24 n(1) by (rule usable_before_add)
      then have "usable_before ?p + n \<le> usable_before (unat ce)" using usable_before_mono [OF n(2)] by simp
      then have "(?zeros ?p :: bytes) = replicate n 0 @ ?zeros (?p + n)"
        by (simp add: un replicate_add [symmetric])
      then have lay: "interleave ?H ?p (?zeros ?p) = replicate n 0 @ interleave ?H (?p + n) (?zeros (?p + n))"
        using interleave_run_append [OF p0, of "replicate n 0" ?H "?zeros (?p + n)"] n(1) by simp
      have ev: "pad_to_chunk_end hw cb ce w = (case (r1, w1) of (Inl e, w) \<Rightarrow> (Inl e, w)
          | (Inr _, w) \<Rightarrow> pad_to_chunk_end hw cb ce w)"
        using step True m e1 by (simp add: Let_def n_def)
      show ?thesis
      proof (cases r1)
        case (Inl e)
        then have "r = Inl e \<and> w' = w1" using "1.prems"(1) ev by simp
        then show ?thesis unfolding lay using w1 Inl writes_stop by blast
      next
        case (Inr u)
        have "?p + n \<le> u64_max" using n(2) by (rule order.trans [OF _ unat_le_u64_max])
        then have p1: "unat (rw_file_pos w1) = ?p + n" using writes_pos [OF w1 [unfolded Inr]] by simp
        have "data_pos (?p + n)" using p24 n(1) by (rule data_pos_add)
        moreover have "pad_to_chunk_end hw cb ce w1 = (r, w')" using "1.prems"(1) ev Inr by simp
        ultimately have "writes w1 (interleave ?H (?p + n) (?zeros (?p + n))) r w'"
          using "1.IH"(2) [OF True m refl refl n_def e1 [symmetric] Inr, of r w'] "1.prems"(2,5) p1 n(2)
          by (simp add: word_le_nat_alt)
        then show ?thesis unfolding lay using writes_append [OF w1 [unfolded Inr]] by blast
      qed
    qed
  qed
qed

section \<open>The image of a chunk\<close>

text \<open>
  A chunk at \<open>b\<close>: its header, its data and zeros, interleaved with block headers that hold the
  distances to both ends of the chunk.
\<close>

definition chunk_size_at :: "nat \<Rightarrow> ChunkHeader \<Rightarrow> bytes \<Rightarrow> nat" where
  "chunk_size_at b header data = chunk_end_nat b (length data) (unat (ch_num_records header))"

definition chunk_image :: "hasher \<Rightarrow> nat \<Rightarrow> ChunkHeader \<Rightarrow> bytes \<Rightarrow> bytes" where
  "chunk_image hw b header data =
     (let e = chunk_size_at b header data
      in interleave (header_at hw b e) b (chunk_to_bytes header @ data @
           replicate (usable_before e - (usable_before b + 40 + length data)) 0))"

lemma chunk_usable: "usable_before b + 40 + length data \<le> usable_before (chunk_size_at b header data)"
  by (simp add: chunk_size_at_def chunk_end_nat_usable)

lemma chunk_pos_chunk_size_at: "chunk_pos (chunk_size_at b header data)"
  by (simp add: chunk_size_at_def chunk_pos_chunk_end_nat)

lemma chunk_size_at_gt: "b + 40 \<le> chunk_size_at b header data"
  by (simp add: chunk_size_at_def chunk_end_nat_gt)

lemma chunk_image_end: "chunk_pos b \<Longrightarrow> b + length (chunk_image hw b header data) = chunk_size_at b header data"
  using chunk_usable [of b data header] phys_end_usable_before [OF chunk_pos_chunk_size_at]
  by (simp add: chunk_image_def Let_def layout_end)

text \<open>The usable bytes of the image, and the block headers in it.\<close>

lemma payload_of_chunk_image:
  "chunk_pos b \<Longrightarrow> payload_of b (chunk_image hw b header data) = chunk_to_bytes header @ data @
     replicate (usable_before (chunk_size_at b header data) - (usable_before b + 40 + length data)) 0"
  by (simp add: chunk_image_def Let_def payload_of_interleave)

lemma block_headers_of_chunk_image:
  assumes "chunk_pos b" "B mod 65536 = 0" "b \<le> B" "B < chunk_size_at b header data"
  shows "take 24 (drop (B - b) (chunk_image hw b header data)) = header_at hw b (chunk_size_at b header data) B"
  using assms chunk_image_end [OF assms(1), of hw header data]
  unfolding chunk_image_def Let_def by (intro interleave_header) simp_all

text \<open>\<open>write_chunk_raw\<close> appends the image.\<close>

lemma write_chunk_raw_writes:
  assumes run: "write_chunk_raw hw header data w = (r, w')"
    and b: "b = unat (rw_file_pos w)" "chunk_pos b"
    and size: "ch_data_size header = of_nat (length data)"
    and fits: "chunk_size_at b header data \<le> u64_max"
  shows "writes (w\<lparr>rw_last_chunk_start := rw_file_pos w\<rparr>) (chunk_image hw b header data) r w'"
proof -
  define e where "e = chunk_size_at b header data"
  define zeros where "zeros = (replicate (usable_before e - (usable_before b + 40 + length data)) 0 :: bytes)"
  define ce where "ce = chunk_end (rw_file_pos w) (ch_data_size header) (ch_num_records header)"
  define w0 where "w0 = w\<lparr>rw_last_chunk_start := rw_file_pos w\<rparr>"
  define all where "all = chunk_to_bytes header @ data"
  have pe: "phys_end (usable_before b + 40 + length data) \<le> e" "round_up_nat (b + unat (ch_num_records header)) \<le> e"
    by (simp_all add: e_def chunk_size_at_def chunk_end_nat_def)
  then have "length data \<le> u64_max"
    using fits phys_end_ge [of "usable_before b + 40 + length data"] unfolding e_def by linarith
  then have ud: "unat (ch_data_size header) = length data" using size by (simp add: unat_of_nat_u64)
  have bnd: "is_possible_chunk_boundary (rw_file_pos w)" using b by (simp add: is_possible_chunk_boundary_iff)
  have "chunk_fits (rw_file_pos w) (ch_data_size header) (ch_num_records header)"
    using pe fits round_up_nat_least [of "b + unat (ch_num_records header)"]
    unfolding chunk_fits_def ud b(1) [symmetric] e_def by linarith
  then have uce: "unat ce = e"
    using unat_chunk_end [OF bnd] b ud by (simp add: ce_def e_def chunk_size_at_def)
  let ?H = "header_at hw b e"
  have le: "b + length (interleave ?H b all) \<le> e"
    using pe(1) b(2) by (simp add: layout_end all_def add.assoc)
  obtain r1 w1 where e1: "write_bytes_with_block_headers hw all 0 (rw_file_pos w) ce w0 = (r1, w1)" by fastforce
  have w1: "writes w0 (interleave ?H b all) r1 w1"
    using write_bytes_writes [OF e1] uce b le by (simp add: w0_def)
  have img: "chunk_image hw b header data = interleave ?H b all @ interleave ?H (b + length (interleave ?H b all)) zeros"
    unfolding chunk_image_def Let_def e_def [symmetric] zeros_def [symmetric]
    using layout_append [of hw b e b all zeros] by (simp add: all_def)
  have ev: "(r, w') = (case r1 of Inl err \<Rightarrow> (Inl err, w1) | Inr _ \<Rightarrow> pad_to_chunk_end hw (rw_file_pos w) ce w1)"
    using run e1 unfolding write_chunk_raw_def Let_def ce_def [symmetric] w0_def [symmetric] all_def [symmetric]
    by (simp add: then_do_def)
  show ?thesis unfolding img w0_def [symmetric]
  proof (cases r1)
    case (Inl err)
    then show "writes w0 (interleave ?H b all @ interleave ?H (b + length (interleave ?H b all)) zeros) r w'"
      using ev w1 writes_stop by auto
  next
    case (Inr u)
    define p where "p = b + length (interleave ?H b all)"
    have p: "chunk_pos p" "usable_before p = usable_before b + length all"
      using layout_pos [OF b(2)] by (simp_all add: p_def)
    have "p \<le> e" using le by (simp add: p_def)
    then have "p \<le> u64_max" using fits unfolding e_def by linarith
    then have p1: "unat (rw_file_pos w1) = p"
      using writes_pos [OF w1 [unfolded Inr]] b by (simp add: p_def w0_def)
    have "writes w1 (interleave (header_at hw (unat (rw_file_pos w)) (unat ce)) (unat (rw_file_pos w1))
      (replicate (usable_before (unat ce) - usable_before (unat (rw_file_pos w1))) 0)) r w'"
    proof (rule pad_writes)
      show "pad_to_chunk_end hw (rw_file_pos w) ce w1 = (r, w')" using ev Inr by simp
      show "rw_file_pos w \<le> rw_file_pos w1" using p1 b by (simp add: word_le_nat_alt p_def)
      show "rw_file_pos w1 \<le> ce" using p1 uce \<open>p \<le> e\<close> by (simp add: word_le_nat_alt)
      show "data_pos (unat (rw_file_pos w1))" using p1 p chunk_pos_data_pos by simp
      show "chunk_pos (unat ce)" using uce chunk_pos_chunk_size_at by (simp add: e_def)
    qed
    moreover have "usable_before (unat ce) - usable_before (unat (rw_file_pos w1)) = length zeros"
      using p1 uce p by (simp add: zeros_def all_def)
    ultimately have "writes w1 (interleave ?H p zeros) r w'"
      using p1 uce b(1) by (simp add: zeros_def)
    then show "writes w0 (interleave ?H b all @ interleave ?H (b + length (interleave ?H b all)) zeros) r w'"
      using writes_append [OF w1 [unfolded Inr]] unfolding p_def by blast
  qed
qed

section \<open>Properties\<close>

text \<open>C26. Writing a chunk at a possible chunk position appends exactly the chunk's image: it ends at
  the chunk's end, which is again a possible chunk position; its usable bytes are the header, the
  data and zeros; the header at each block boundary inside it holds the distances to both ends of
  the chunk.  When the sink fails, a prefix of the image was appended; when it does not, writing
  does not fail.\<close>

theorem write_chunk_raw_layout:
  assumes "write_chunk_raw hw header data w = (r, w')"
    and "b = unat (rw_file_pos w)" and "is_possible_chunk_boundary (rw_file_pos w)"
    and "ch_data_size header = of_nat (length data)"
    and "e = chunk_end_nat b (length data) (unat (ch_num_records header))" and "e \<le> u64_max"
  shows "(case r of
      Inr _ \<Rightarrow> \<exists>img. out_bytes (rw_writer w') = out_bytes (rw_writer w) @ img \<and>
        unat (rw_file_pos w') = e \<and> b + length img = e \<and> is_possible_chunk_boundary (rw_file_pos w') \<and>
        payload_of b img = chunk_to_bytes header @ data @
          replicate (usable_before e - (usable_before b + 40 + length data)) 0 \<and>
        (\<forall>B. B mod 65536 = 0 \<and> b \<le> B \<and> B < e \<longrightarrow>
          take 24 (drop (B - b) img) = block_to_bytes (block_from_parts hw (of_nat (B - b)) (of_nat (e - B))))
    | Inl err \<Rightarrow> out_faults (rw_writer w) \<noteq> [] \<and>
        (\<exists>k. out_bytes (rw_writer w') = out_bytes (rw_writer w) @ take k (chunk_image hw b header data)))"
proof -
  have cb: "chunk_pos b" using assms(2,3) by (simp add: is_possible_chunk_boundary_iff)
  have e: "chunk_size_at b header data = e" using assms(5) by (simp add: chunk_size_at_def)
  let ?img = "chunk_image hw b header data"
  have w: "writes (w\<lparr>rw_last_chunk_start := rw_file_pos w\<rparr>) ?img r w'"
    using assms(1,2) cb assms(4) assms(6) [folded e] by (rule write_chunk_raw_writes)
  have len: "b + length ?img = e" using chunk_image_end [OF cb] e by simp
  show ?thesis
  proof (cases r)
    case (Inl err)
    then show ?thesis using w by (auto simp: writes_def)
  next
    case (Inr u)
    have "unat (rw_file_pos w') = e"
      using writes_pos [OF w [unfolded Inr]] len assms(2,6) by simp
    moreover have "is_possible_chunk_boundary (rw_file_pos w')"
      using calculation e chunk_pos_chunk_size_at by (metis is_possible_chunk_boundary_iff)
    moreover have "out_bytes (rw_writer w') = out_bytes (rw_writer w) @ ?img"
      using w Inr by (simp add: writes_def)
    ultimately show ?thesis
      using Inr len payload_of_chunk_image [OF cb, of hw header data] e
        block_headers_of_chunk_image [OF cb, of _ header data hw]
      by (auto simp: header_at_def intro!: exI [of _ ?img])
  qed
qed

lemma write_chunk_raw_layout_witness:
  "let w = initial_writer null_transposer options_new empty_sink;
       header = chunk_from_parts sample_hash [1, 2, 3] Simple 1 3
   in \<exists>img. length img = 43 \<and> payload_of 64 img = chunk_to_bytes header @ [1, 2, 3] \<and>
        out_bytes (rw_writer (snd (write_chunk_raw sample_hash header [1, 2, 3] w))) = img"
proof -
  let ?w = "initial_writer null_transposer options_new empty_sink"
  let ?h = "chunk_from_parts sample_hash [1, 2, 3] Simple 1 3"
  obtain r w' where run: "write_chunk_raw sample_hash ?h [1, 2, 3] ?w = (r, w')" by fastforce
  have w: "rw_file_pos ?w = 64" "out_faults (rw_writer ?w) = []" "out_bytes (rw_writer ?w) = []"
    by (simp_all add: empty_sink_def)
  have e: "107 = chunk_end_nat (unat (rw_file_pos ?w)) (length [1, 2, 3 :: u8]) (unat (ch_num_records ?h))"
    using w by (simp add: take_bit_56_id chunk_end_nat_def round_up_nat_def chunk_pos_def usable_before_def phys_end_def)
  have "\<exists>img. length img = 43 \<and> payload_of 64 img = chunk_to_bytes ?h @ [1, 2, 3] \<and> out_bytes (rw_writer w') = img"
    using write_chunk_raw_layout [OF run refl _ _ e] w
    by (cases r) (auto simp: layout_eval take_bit_56_id)
  then show ?thesis using run by simp
qed

end
