(* ===== verification/WriterPadding.thy ===== *)
theory WriterPadding
  imports WriterLayout
begin

text \<open>
  Padding: \<open>pos_after_padding\<close> finds the least position at which a padding chunk can end, and
  \<open>write_padding_to_multiple\<close> brings the file exactly there.
\<close>

section \<open>Usable bytes between two positions\<close>

lemma usable_before_Suc: "usable_before (Suc p) \<le> Suc (usable_before p)"
proof -
  obtain q r where p: "p = q * 65536 + r" "r < 65536" by (rule block_cases)
  show ?thesis
  proof (cases "Suc r = 65536")
    case True
    then have "Suc p = Suc q * 65536 + 0" using p by simp
    then show ?thesis using True p usable_before_block [of 0 "Suc q"] usable_before_block [of r q] by simp
  next
    case False
    then have "Suc p = q * 65536 + Suc r" "Suc r < 65536" using p by simp_all
    then show ?thesis using p usable_before_block [of "Suc r" q] usable_before_block [of r q] by simp
  qed
qed

lemma usable_before_plus_le: "usable_before (p + n) \<le> usable_before p + n"
proof (induction n)
  case (Suc n)
  then show ?case using usable_before_Suc [of "p + n"] by simp
qed simp

lemma usable_before_plus_block: "usable_before (p + 65536) = usable_before p + 65512"
proof -
  obtain q r where p: "p = q * 65536 + r" "r < 65536" by (rule block_cases)
  then have "p + 65536 = Suc q * 65536 + r" by simp
  then have "usable_before (p + 65536) = Suc q * 65512 + (r - 24)"
    using p(2) by (simp only: usable_before_block)
  then show ?thesis using p by (simp add: usable_before_block)
qed

section \<open>The loops\<close>

text \<open>A position at which a padding chunk from \<open>pos\<close> can end.\<close>

definition padding_end :: "nat \<Rightarrow> nat \<Rightarrow> nat \<Rightarrow> bool" where
  "padding_end pos padding m \<longleftrightarrow>
     padding dvd m \<and> pos < m \<and> chunk_pos m \<and> usable_before pos + 40 \<le> usable_before m"

lemma padding_end_gap: "padding_end pos padding m \<Longrightarrow> pos + 40 \<le> m"
  using usable_before_plus_le [of pos "m - pos"] by (auto simp: padding_end_def)

lemma grow_length_least:
  "unat len + j * unat padding \<le> u64_max \<Longrightarrow> 40 \<le> unat len + j * unat padding \<Longrightarrow>
   \<exists>i\<le>j. \<exists>l. grow_length padding len = Some l \<and> unat l = unat len + i * unat padding \<and>
     (i = 0 \<or> unat l < 40 + unat padding)"
proof (induction j arbitrary: len)
  case 0
  then show ?case by (subst grow_length.simps) (simp add: word_less_nat_alt block_consts(3))
next
  case (Suc j)
  show ?case
  proof (cases "unat len < 40")
    case False
    then show ?thesis by (subst grow_length.simps) (auto simp: word_less_nat_alt block_consts(3))
  next
    case True
    have "unat len + unat padding \<le> unat len + Suc j * unat padding" by simp
    then have s: "unat (len + padding) = unat len + unat padding"
      using Suc.prems(1) by (intro unat_add_u64) linarith
    then obtain i l where i: "i \<le> j" "grow_length padding (len + padding) = Some l"
      "unat l = unat (len + padding) + i * unat padding" "i = 0 \<or> unat l < 40 + unat padding"
      using Suc.IH [of "len + padding"] Suc.prems by (auto simp: add.assoc)
    have "grow_length padding len = Some l"
      using True i(2) by (subst grow_length.simps) (simp add: word_less_nat_alt block_consts(3))
    moreover have "unat l < 40 + unat padding" using i s True by auto
    ultimately show ?thesis using i s by (intro exI [of _ "Suc i"]) auto
  qed
qed

lemma grow_end_test:
  "remaining_in_block e < BLOCK_SIZE - BLOCK_HEADER_SIZE \<and> CHUNK_HEADER_SIZE \<le> distance_without_overhead pos e
   \<longleftrightarrow> chunk_pos (unat e) \<and> usable_before (unat pos) + 40 \<le> usable_before (unat e)"
proof -
  have "remaining_in_block e < BLOCK_SIZE - BLOCK_HEADER_SIZE \<longleftrightarrow> chunk_pos (unat e)"
    using is_possible_chunk_boundary_iff [of e]
    by (simp add: is_possible_chunk_boundary_def USABLE_BLOCK_SIZE_def)
  moreover have "CHUNK_HEADER_SIZE \<le> distance_without_overhead pos e \<longleftrightarrow>
      usable_before (unat pos) + 40 \<le> usable_before (unat e)"
    by (auto simp: word_le_nat_alt unat_distance_without_overhead block_consts(3))
  ultimately show ?thesis by simp
qed

lemma grow_end_least:
  assumes "unat e + j * unat padding \<le> u64_max"
    and "chunk_pos (unat e + j * unat padding)"
    and "usable_before (unat pos) + 40 \<le> usable_before (unat e + j * unat padding)"
  shows "\<exists>i\<le>j. \<exists>e'. grow_end pos padding e = Some e' \<and> unat e' = unat e + i * unat padding \<and>
     chunk_pos (unat e') \<and> usable_before (unat pos) + 40 \<le> usable_before (unat e') \<and>
     (\<forall>k<i. \<not> (chunk_pos (unat e + k * unat padding) \<and>
        usable_before (unat pos) + 40 \<le> usable_before (unat e + k * unat padding)))"
  using assms
proof (induction j arbitrary: e)
  case 0
  then show ?case by (subst grow_end.simps) (simp add: grow_end_test)
next
  case (Suc j)
  show ?case
  proof (cases "chunk_pos (unat e) \<and> usable_before (unat pos) + 40 \<le> usable_before (unat e)")
    case True
    then show ?thesis by (subst grow_end.simps) (auto simp: grow_end_test)
  next
    case False
    have "unat e + unat padding \<le> unat e + Suc j * unat padding" by simp
    then have s: "unat (e + padding) = unat e + unat padding"
      using Suc.prems(1) by (intro unat_add_u64) linarith
    then obtain i e' where i: "i \<le> j" "grow_end pos padding (e + padding) = Some e'"
      "unat e' = unat (e + padding) + i * unat padding"
      "chunk_pos (unat e')" "usable_before (unat pos) + 40 \<le> usable_before (unat e')"
      "\<forall>k<i. \<not> (chunk_pos (unat (e + padding) + k * unat padding) \<and>
        usable_before (unat pos) + 40 \<le> usable_before (unat (e + padding) + k * unat padding))"
      using Suc.IH [of "e + padding"] Suc.prems by (auto simp: add.assoc)
    have "grow_end pos padding e = Some e'"
      using False i(2) by (subst grow_end.simps) (auto simp: grow_end_test)
    moreover have "\<not> (chunk_pos (unat e + k * unat padding) \<and>
        usable_before (unat pos) + 40 \<le> usable_before (unat e + k * unat padding))" if "k < Suc i" for k
      using that False i(6) s by (cases k) (simp_all add: add.assoc)
    ultimately show ?thesis using i s by (intro exI [of _ "Suc i"]) auto
  qed
qed

section \<open>The least end\<close>

lemma pos_after_padding_eq:
  assumes pad: "\<not> unat padding dvd unat pos"
    and m: "padding_end (unat pos) (unat padding) m" "m \<le> u64_max"
  shows "\<exists>e. pos_after_padding pos padding = Some e \<and> padding_end (unat pos) (unat padding) (unat e) \<and>
    (\<forall>m. padding_end (unat pos) (unat padding) m \<longrightarrow> unat e \<le> m)"
proof -
  let ?P = "unat padding" and ?p = "unat pos"
  have P2: "2 \<le> ?P"
  proof (rule ccontr)
    assume "\<not> 2 \<le> ?P"
    then have "?P = 0 \<or> ?P = 1" by linarith
    then show False using pad m by (auto simp: padding_end_def)
  qed
  define r where "r = ?p mod ?P"
  have r: "0 < r" "r < ?P" using pad P2 by (auto simp: r_def dvd_eq_mod_eq_0)
  define q where "q = ?p div ?P"
  have p_eq: "?p = q * ?P + r" by (simp add: q_def r_def)
  define len where "len = padding - pos mod padding"
  have ulen: "unat len = ?P - r"
    using r by (simp add: len_def unat_sub_u64 unat_mod r_def)
  have mult: "\<exists>j. m' = ?p + unat len + j * ?P" if m': "padding_end ?p ?P m'" for m'
  proof -
    obtain k where k: "m' = k * ?P" using m' by (auto simp: padding_end_def dvd_def mult.commute)
    have "Suc q \<le> k"
    proof (rule ccontr)
      assume "\<not> Suc q \<le> k"
      then have "k * ?P \<le> q * ?P" by (intro mult_le_mono1) simp
      moreover have "?p < m'" using m' by (simp add: padding_end_def)
      ultimately show False unfolding k using p_eq by linarith
    qed
    then obtain j where "k = Suc q + j" using le_Suc_ex by blast
    then have "m' = ?p + unat len + j * ?P" using k p_eq ulen r by (simp add: algebra_simps)
    then show ?thesis by blast
  qed
  obtain j where j: "m = ?p + unat len + j * ?P" using mult m by blast
  have gap: "?p + 40 \<le> m" using m(1) by (rule padding_end_gap)
  obtain i l where l: "i \<le> j" "grow_length padding len = Some l" "unat l = unat len + i * ?P"
    "i = 0 \<or> unat l < 40 + ?P"
    using grow_length_least [of len j padding] j gap m(2) by auto
  have below: "\<exists>k. m' = ?p + unat l + k * ?P" if m': "padding_end ?p ?P m'" for m'
  proof -
    obtain k where k: "m' = ?p + unat len + k * ?P" using mult m' by blast
    have "i \<le> k"
    proof (rule ccontr)
      assume "\<not> i \<le> k"
      then obtain i' where i': "i = Suc (k + i')" using less_imp_Suc_add [of k i] by auto
      then have "unat l = unat len + k * ?P + ?P + i' * ?P" using l(3) by (simp add: algebra_simps)
      then have "unat len + k * ?P < 40" using l(4) i' by simp
      then show False using padding_end_gap [OF m'] k by simp
    qed
    then obtain k' where "k = i + k'" using le_Suc_ex by blast
    then show ?thesis using k l(3) by (auto simp: algebra_simps)
  qed
  obtain k where k: "m = ?p + unat l + k * ?P" using below m by blast
  then have "?p + unat l \<le> u64_max" using m(2) by linarith
  then have upl: "unat (pos + l) = ?p + unat l" by (rule unat_add_u64)
  obtain i' e where e: "grow_end pos padding (pos + l) = Some e" "unat e = unat (pos + l) + i' * ?P"
    "chunk_pos (unat e)" "usable_before ?p + 40 \<le> usable_before (unat e)"
    and least: "\<forall>k<i'. \<not> (chunk_pos (unat (pos + l) + k * ?P) \<and>
        usable_before ?p + 40 \<le> usable_before (unat (pos + l) + k * ?P))"
  proof -
    have "unat (pos + l) + k * ?P \<le> u64_max" "chunk_pos (unat (pos + l) + k * ?P)"
      "usable_before ?p + 40 \<le> usable_before (unat (pos + l) + k * ?P)"
      using k m upl by (simp_all add: padding_end_def)
    from grow_end_least [OF this] that show thesis by blast
  qed
  have "pos_after_padding pos padding = Some e"
    using P2 r e(1) l(2)
    by (simp add: pos_after_padding_def Let_def len_def [symmetric] word_le_nat_alt word_unat_eq_iff unat_mod r_def)
  moreover have "padding_end ?p ?P (unat e)"
  proof -
    have "unat e = (Suc q + (i + i')) * ?P" using e(2) upl l(3) ulen p_eq r by (simp add: algebra_simps)
    then have "?P dvd unat e" by simp
    moreover have "?p < unat e" using e(2) upl l(3) ulen r by simp
    ultimately show ?thesis using e by (simp add: padding_end_def)
  qed
  moreover have "unat e \<le> m'" if m': "padding_end ?p ?P m'" for m'
  proof -
    obtain k' where "m' = ?p + unat l + k' * ?P" using below m' by blast
    moreover from this have "\<not> k' < i'" using least m' upl by (auto simp: padding_end_def)
    ultimately show ?thesis using e(2) upl by (simp add: mult_le_mono1)
  qed
  ultimately show ?thesis by blast
qed

text \<open>A block boundary that is a multiple of the padding lies within two common multiples.\<close>

lemma padding_end_exists:
  assumes "0 < P"
  shows "\<exists>m. padding_end p P m \<and> m \<le> p + 131072 * P"
proof -
  define c where "c = 65536 * P"
  define m where "m = (p div c + 2) * c"
  have c: "65536 \<le> c" using assms by (simp add: c_def)
  obtain a b where p: "p = a * c + b" "b < c" "p div c = a"
    using c by (metis div_mult_mod_eq less_le_trans mod_less_divisor zero_less_numeral)
  then have m: "p + c < m" "m \<le> p + 2 * c" by (simp_all add: m_def add_mult_distrib)
  have "P dvd m" "m mod 65536 = 0" by (simp_all add: m_def c_def)
  moreover have "usable_before p + 40 \<le> usable_before m"
    using usable_before_mono [of "p + 65536" m] usable_before_plus_block [of p] m c by simp
  ultimately have "padding_end p P m" using m by (simp add: padding_end_def chunk_pos_def)
  then show ?thesis using m(2) by (auto simp: c_def)
qed

section \<open>Writing the padding chunk\<close>

definition padding_chunk_data :: "nat \<Rightarrow> nat \<Rightarrow> bytes" where
  "padding_chunk_data b e = replicate (usable_before e - (usable_before b + 40)) 0"

definition padding_header :: "hasher \<Rightarrow> nat \<Rightarrow> nat \<Rightarrow> ChunkHeader" where
  "padding_header hw b e = chunk_from_parts hw (padding_chunk_data b e) Padding 0 0"

lemma padding_chunk_size:
  assumes "chunk_pos b" "b \<le> e" "chunk_pos e" "usable_before b + 40 \<le> usable_before e"
  shows "chunk_size_at b (padding_header hw b e) (padding_chunk_data b e) = e"
proof -
  have "usable_before b + 40 + length (padding_chunk_data b e) = usable_before e"
    using assms(4) by (simp add: padding_chunk_data_def)
  moreover have "phys_end (usable_before e) = e" using assms(3) by (rule phys_end_usable_before)
  moreover have "round_up_nat b = b" using assms(1) by (simp add: round_up_nat_def)
  ultimately show ?thesis
    using assms(2) by (simp add: chunk_size_at_def chunk_end_nat_def padding_header_def)
qed

lemma padding_data_size:
  assumes "usable_before (unat pos) + 40 \<le> usable_before (unat e)"
  shows "unat (distance_without_overhead pos e - CHUNK_HEADER_SIZE) = usable_before (unat e) - (usable_before (unat pos) + 40)"
  using assms by (simp add: unat_sub_u64 unat_distance_without_overhead block_consts(3))

lemma write_padding_writes:
  assumes run: "write_padding_to_multiple hw alignment w = Some (r, w')"
    and pap: "pos_after_padding (rw_file_pos w) alignment = Some e" "e \<noteq> rw_file_pos w"
    and b: "b = unat (rw_file_pos w)" "chunk_pos b"
    and e: "b \<le> unat e" "chunk_pos (unat e)" "usable_before b + 40 \<le> usable_before (unat e)"
  shows "writes (w\<lparr>rw_last_chunk_start := rw_file_pos w\<rparr>)
     (chunk_image hw b (padding_header hw b (unat e)) (padding_chunk_data b (unat e))) r w'"
proof -
  have d: "unat (distance_without_overhead (rw_file_pos w) e - CHUNK_HEADER_SIZE) = usable_before (unat e) - (usable_before b + 40)"
    using e(3) unfolding b(1) by (rule padding_data_size)
  have run': "write_chunk_raw hw (padding_header hw b (unat e)) (padding_chunk_data b (unat e)) w = (r, w')"
    using run pap by (simp add: write_padding_to_multiple_def Let_def d padding_header_def padding_chunk_data_def)
  have "chunk_size_at b (padding_header hw b (unat e)) (padding_chunk_data b (unat e)) = unat e"
    using b(2) e by (rule padding_chunk_size)
  then have "chunk_size_at b (padding_header hw b (unat e)) (padding_chunk_data b (unat e)) \<le> u64_max" by simp
  with run' b show ?thesis by (intro write_chunk_raw_writes) (simp_all add: padding_header_def)
qed

section \<open>Properties\<close>

text \<open>The padding loops end, and they find the least position at which a padding chunk of the
  writer's position can end: a multiple of the padding, a possible chunk position, with room for a
  chunk header in usable bytes; a position that is a multiple already is kept.\<close>

theorem pos_after_padding_least:
  assumes "unat pos + 131072 * unat padding \<le> u64_max"
  shows "\<exists>e. pos_after_padding pos padding = Some e \<and>
    (if padding = 0 \<or> unat padding dvd unat pos then e = pos
     else padding_end (unat pos) (unat padding) (unat e) \<and>
       (\<forall>m. padding_end (unat pos) (unat padding) m \<longrightarrow> unat e \<le> m))"
proof (cases "padding = 0 \<or> unat padding dvd unat pos")
  case True
  then have "padding \<le> 1 \<or> pos mod padding = 0"
  proof
    assume "unat padding dvd unat pos"
    then have "unat (pos mod padding) = 0" by (simp add: unat_mod dvd_eq_mod_eq_0)
    then show ?thesis by (simp add: word_unat_eq_iff)
  qed simp
  then show ?thesis using True by (auto simp: pos_after_padding_def Let_def)
next
  case False
  then have "0 < unat padding" by (simp add: word_neq_0_unat)
  then obtain m where "padding_end (unat pos) (unat padding) m" "m \<le> unat pos + 131072 * unat padding"
    using padding_end_exists by blast
  then show ?thesis using pos_after_padding_eq False assms by fastforce
qed

lemma pos_after_padding_least_witness:
  "\<exists>e. pos_after_padding 100 64 = Some e \<and> padding_end 100 64 (unat e) \<and> unat e \<le> 192"
proof -
  have "(64 :: nat) dvd 192" by simp
  then have "padding_end 100 64 192" by (simp add: padding_end_def chunk_pos_def usable_before_def)
  moreover have "\<not> (64 :: nat) dvd 100" by (simp add: dvd_eq_mod_eq_0)
  ultimately show ?thesis using pos_after_padding_least [of 100 64] by auto
qed

text \<open>C36. Padding the file either leaves it alone, when its size is a multiple of the alignment, or
  appends one padding chunk of zeros that ends exactly at the next possible multiple; it does not
  fail unless the sink does.\<close>

theorem write_padding_aligns:
  assumes "is_possible_chunk_boundary (rw_file_pos w)" and "0 < alignment"
    and "unat (rw_file_pos w) + 131072 * unat alignment \<le> u64_max"
    and "out_faults (rw_writer w) = []"
  shows "\<exists>w' b e. write_padding_to_multiple hw alignment w = Some (Inr (), w') \<and>
    b = unat (rw_file_pos w) \<and> e = unat (rw_file_pos w') \<and> unat alignment dvd e \<and> chunk_pos e \<and>
    (if e = b then w' = w
     else out_bytes (rw_writer w') = out_bytes (rw_writer w) @
            chunk_image hw b (padding_header hw b e) (padding_chunk_data b e) \<and>
          b + length (chunk_image hw b (padding_header hw b e) (padding_chunk_data b e)) = e \<and>
          padding_end b (unat alignment) e \<and> (\<forall>m. padding_end b (unat alignment) m \<longrightarrow> e \<le> m))"
proof -
  let ?b = "unat (rw_file_pos w)" and ?a = "unat alignment"
  have cb: "chunk_pos ?b" using assms(1) by (simp add: is_possible_chunk_boundary_iff)
  obtain e where e: "pos_after_padding (rw_file_pos w) alignment = Some e"
    "if alignment = 0 \<or> ?a dvd ?b then e = rw_file_pos w
     else padding_end ?b ?a (unat e) \<and> (\<forall>m. padding_end ?b ?a m \<longrightarrow> unat e \<le> m)"
    using pos_after_padding_least [OF assms(3)] by blast
  show ?thesis
  proof (cases "?a dvd ?b")
    case True
    then have "write_padding_to_multiple hw alignment w = Some (Inr (), w)"
      using e by (simp add: write_padding_to_multiple_def Let_def)
    with True cb show ?thesis by auto
  next
    case False
    then have pe: "padding_end ?b ?a (unat e)" "\<forall>m. padding_end ?b ?a m \<longrightarrow> unat e \<le> m"
      using e assms(2) by (auto split: if_splits)
    then have ne: "e \<noteq> rw_file_pos w" by (auto simp: padding_end_def)
    obtain r w' where run: "write_padding_to_multiple hw alignment w = Some (r, w')"
      using e(1) ne by (cases "write_padding_to_multiple hw alignment w") (auto simp: write_padding_to_multiple_def Let_def)
    let ?img = "chunk_image hw ?b (padding_header hw ?b (unat e)) (padding_chunk_data ?b (unat e))"
    have w: "writes (w\<lparr>rw_last_chunk_start := rw_file_pos w\<rparr>) ?img r w'"
      using run e(1) ne refl cb pe by (intro write_padding_writes) (auto simp: padding_end_def)
    then have r: "r = Inr ()" using assms(4) by (simp add: writes_def)
    have len: "?b + length ?img = unat e"
      using chunk_image_end [OF cb] padding_chunk_size [OF cb] pe by (simp add: padding_end_def)
    then have "unat (rw_file_pos w') = unat e"
      using writes_pos [OF w [unfolded r]] by simp
    moreover have "?a dvd unat e" "chunk_pos (unat e)" "unat e \<noteq> ?b"
      using pe(1) by (auto simp: padding_end_def)
    moreover have "out_bytes (rw_writer w') = out_bytes (rw_writer w) @ ?img"
      using w r by (simp add: writes_def)
    ultimately show ?thesis using run r len pe
      by (intro exI [of _ w'] exI [of _ ?b] exI [of _ "unat e"]) simp
  qed
qed

lemma write_padding_aligns_witness:
  "\<exists>w'. write_padding_to_multiple sample_hash 100 (initial_writer null_transposer options_new empty_sink) = Some (Inr (), w') \<and>
     100 dvd unat (rw_file_pos w')"
proof -
  let ?w = "initial_writer null_transposer options_new empty_sink"
  have "rw_file_pos ?w = 64" "out_faults (rw_writer ?w) = []"
    by (simp_all add: empty_sink_def)
  then show ?thesis
    using write_padding_aligns [of ?w 100 sample_hash] by (auto simp: layout_eval)
qed

end
