(* ===== verification/WriterSession.thy ===== *)
theory WriterSession
  imports WriterPadding
begin

text \<open>
  Whole sessions of the writer: the file is the image of a list of chunks, the signature first, and
  the chunks together with the pending encoder hold the records written so far.
\<close>

section \<open>The image of a file\<close>

fun file_end :: "nat \<Rightarrow> Chunk list \<Rightarrow> nat" where
  "file_end b [] = b"
| "file_end b (c # cs) = file_end (chunk_size_at b (chunk_header c) (chunk_data c)) cs"

fun file_image :: "hasher \<Rightarrow> nat \<Rightarrow> Chunk list \<Rightarrow> bytes" where
  "file_image hw b [] = []"
| "file_image hw b (c # cs) = chunk_image hw b (chunk_header c) (chunk_data c) @
     file_image hw (chunk_size_at b (chunk_header c) (chunk_data c)) cs"

definition signature_chunk :: "hasher \<Rightarrow> Chunk" where
  "signature_chunk hw = \<lparr>chunk_header = chunk_from_parts hw [] FileSignature 0 0, chunk_data = []\<rparr>"

lemma file_end_append: "file_end b (cs @ cs') = file_end (file_end b cs) cs'"
  by (induction cs arbitrary: b) simp_all

lemma chunk_pos_file_end: "chunk_pos b \<Longrightarrow> chunk_pos (file_end b cs)"
  by (induction cs arbitrary: b) (simp_all add: chunk_pos_chunk_size_at)

lemma file_image_end: "chunk_pos b \<Longrightarrow> b + length (file_image hw b cs) = file_end b cs"
proof (induction cs arbitrary: b)
  case (Cons c cs)
  then show ?case
    using Cons.IH [of "chunk_size_at b (chunk_header c) (chunk_data c)"] chunk_image_end [OF Cons.prems]
    by (simp add: chunk_pos_chunk_size_at add.assoc [symmetric])
qed simp

lemma file_image_append: "chunk_pos b \<Longrightarrow> file_image hw b (cs @ cs') = file_image hw b cs @ file_image hw (file_end b cs) cs'"
  by (induction cs arbitrary: b) (simp_all add: chunk_pos_chunk_size_at)

lemma chunk_pos_0: "chunk_pos 0"
  by (simp add: chunk_pos_def)

lemma signature_end: "file_end 0 [signature_chunk hw] = 64"
  by (simp add: signature_chunk_def chunk_size_at_def chunk_end_nat_def usable_before_def phys_end_def
      round_up_nat_def chunk_pos_def)

lemma signature_image:
  "file_image hw 0 [signature_chunk hw] =
   block_to_bytes (block_from_parts hw 0 64) @ chunk_to_bytes (chunk_from_parts hw [] FileSignature 0 0)"
proof -
  let ?h = "chunk_from_parts hw [] FileSignature 0 0"
  have e: "chunk_size_at 0 ?h [] = 64" using signature_end [of hw] by (simp add: signature_chunk_def)
  have "usable_before 64 = 40" "usable_before 0 = 0" by (simp_all add: usable_before_def)
  moreover have "interleave (header_at hw 0 64) 0 (chunk_to_bytes ?h) = header_at hw 0 64 0 @ chunk_to_bytes ?h"
  proof (rule interleave_block)
    show "chunk_to_bytes ?h \<noteq> []" by (metis length_chunk_to_bytes list.size(3) zero_neq_numeral)
  qed simp_all
  ultimately show ?thesis
    by (simp add: signature_chunk_def chunk_image_def e header_at_def)
qed

section \<open>Writing a chunk\<close>

definition file_ok :: "hasher \<Rightarrow> Chunk list \<Rightarrow> 't RecordWriter \<Rightarrow> bool" where
  "file_ok hw cs w \<longleftrightarrow> out_bytes (rw_writer w) = file_image hw 0 cs \<and> unat (rw_file_pos w) = file_end 0 cs"

lemma file_ok_length: "file_ok hw cs w \<Longrightarrow> length (out_bytes (rw_writer w)) = unat (rw_file_pos w)"
  using file_image_end [OF chunk_pos_0, of hw cs] by (simp add: file_ok_def)

lemma file_ok_boundary: "file_ok hw cs w \<Longrightarrow> chunk_pos (unat (rw_file_pos w))"
  by (simp add: file_ok_def chunk_pos_file_end chunk_pos_0)

text \<open>The sink only grows, and by at least the bytes of the chunk; nothing reopens a writer.\<close>

definition grows :: "nat \<Rightarrow> 't RecordWriter \<Rightarrow> 't RecordWriter \<Rightarrow> bool" where
  "grows n w w' \<longleftrightarrow> length (out_bytes (rw_writer w)) + n \<le> length (out_bytes (rw_writer w')) \<and>
     rw_closed w' = rw_closed w"

lemma grows_refl: "grows 0 w w"
  by (simp add: grows_def)

lemma emit_grows: "emit buf w = (r, w') \<Longrightarrow> grows (if isl r then 0 else length buf) w w'"
  using emit_writes [of buf w r w'] by (cases r) (auto simp: grows_def writes_def same_frameD(10))

lemma write_bytes_grows:
  "write_bytes_with_block_headers hw bs offset cb ce w = (Inr u, w') \<Longrightarrow> grows (length bs - offset) w w'"
proof (induction hw bs offset cb ce w arbitrary: u w' rule: write_bytes_with_block_headers.induct)
  case (1 hw bs offset cb ce w)
  note step = write_bytes_with_block_headers.simps [of hw bs offset cb ce w]
  show ?case
  proof (cases "offset < length bs")
    case False
    with "1.prems" step show ?thesis by (auto simp: grows_def)
  next
    case True
    obtain r1 w1 where e1: "(if is_multiple_of (rw_file_pos w) BLOCK_SIZE then emit_block_header hw cb ce w else (Inr (), w)) = (r1, w1)"
      by fastforce
    define n where "n = min (length bs - offset) (unat BLOCK_SIZE - unat (rw_file_pos w1 mod BLOCK_SIZE))"
    obtain r2 w2 where e2: "emit (slice offset (offset + n) bs) w1 = (r2, w2)" by fastforce
    have r: "r1 = Inr ()" "r2 = Inr ()" and rec: "write_bytes_with_block_headers hw bs (offset + n) cb ce w2 = (Inr u, w')"
      using "1.prems" step True e1 e2
      by (auto simp: Let_def n_def split: sum.splits prod.splits)
    have "grows 0 w w1"
      using e1 r emit_grows by (auto simp: emit_block_header_def Let_def grows_def split: if_splits dest!: emit_grows)
    moreover have "grows n w1 w2"
      using emit_grows [OF e2] r by (simp add: n_def)
    moreover have "grows (length bs - (offset + n)) w2 w'"
      using "1.IH" [OF True e1 [symmetric] r(1) refl refl n_def _ r(2) rec] e2 by simp
    moreover have "n \<le> length bs - offset" by (simp add: n_def)
    ultimately show ?thesis by (auto simp: grows_def)
  qed
qed

lemma pad_grows: "pad_to_chunk_end hw cb ce w = (r, w') \<Longrightarrow> grows 0 w w'"
proof (induction hw cb ce w arbitrary: r w' rule: pad_to_chunk_end.induct)
  case (1 hw cb ce w)
  note step = pad_to_chunk_end.simps [of hw cb ce w]
  consider "\<not> rw_file_pos w < ce" | "rw_file_pos w < ce" "is_multiple_of (rw_file_pos w) BLOCK_SIZE"
    | "rw_file_pos w < ce" "\<not> is_multiple_of (rw_file_pos w) BLOCK_SIZE" by blast
  then show ?case
  proof cases
    case 1
    with "1.prems" step show ?thesis by (simp add: grows_def)
  next
    case 2
    obtain r1 w1 where e1: "emit_block_header hw cb ce w = (r1, w1)" by fastforce
    then have g: "grows 0 w w1" by (auto simp: emit_block_header_def Let_def grows_def dest!: emit_grows)
    show ?thesis
    proof (cases r1)
      case (Inl e)
      then show ?thesis using g "1.prems" step 2 e1 by simp
    next
      case (Inr u)
      then have "pad_to_chunk_end hw cb ce w1 = (r, w')" using "1.prems" step 2 e1 by simp
      then have "grows 0 w1 w'" by (rule "1.IH"(1) [OF 2 e1 [symmetric] Inr])
      with g show ?thesis by (simp add: grows_def)
    qed
  next
    case 3
    define n where "n = unat (min (ce - rw_file_pos w) (BLOCK_SIZE - rw_file_pos w mod BLOCK_SIZE))"
    obtain r1 w1 where e1: "emit (replicate n 0) w = (r1, w1)" by fastforce
    then have g: "grows 0 w w1" by (auto simp: grows_def dest!: emit_grows)
    have ev: "pad_to_chunk_end hw cb ce w = (case (r1, w1) of (Inl e, w) \<Rightarrow> (Inl e, w)
          | (Inr _, w) \<Rightarrow> pad_to_chunk_end hw cb ce w)"
      using step 3 e1 by (simp add: Let_def n_def)
    show ?thesis
    proof (cases r1)
      case (Inl e)
      then show ?thesis using g "1.prems" ev by simp
    next
      case (Inr u)
      then have "pad_to_chunk_end hw cb ce w1 = (r, w')" using "1.prems" ev by simp
      then have "grows 0 w1 w'" by (rule "1.IH"(2) [OF 3 refl refl n_def e1 [symmetric] Inr])
      with g show ?thesis by (simp add: grows_def)
    qed
  qed
qed

lemma write_chunk_raw_grows:
  assumes "write_chunk_raw hw header data w = (Inr u, w')"
  shows "grows (40 + length data) w w'"
proof -
  define w0 where "w0 = w\<lparr>rw_last_chunk_start := rw_file_pos w\<rparr>"
  obtain cb ce w1 where "write_bytes_with_block_headers hw (chunk_to_bytes header @ data) 0 cb ce w0 = (Inr (), w1)"
    "pad_to_chunk_end hw cb ce w1 = (Inr u, w')"
    using assms by (auto simp: write_chunk_raw_def Let_def then_do_Inr w0_def)
  from write_bytes_grows [OF this(1)] pad_grows [OF this(2)] show ?thesis
    by (simp add: grows_def w0_def)
qed

lemma phys_end_bound: "k \<le> 2 ^ 63 \<Longrightarrow> phys_end k \<le> 2 ^ 63 + 2 ^ 52"
proof -
  assume "k \<le> 2 ^ 63"
  then have "(k - 1) div 65512 \<le> 2 ^ 63 div 65512" by (intro div_le_mono) simp
  then show ?thesis using \<open>k \<le> 2 ^ 63\<close> by (simp add: phys_end_def)
qed

lemma round_up_nat_bound: "round_up_nat p \<le> p + 25"
  by (simp add: round_up_nat_def)

lemma chunk_size_at_fits:
  assumes "b + 40 + length data \<le> 2 ^ 63"
  shows "chunk_size_at b header data \<le> u64_max"
proof -
  note ch_num_records_bound [of header]
  moreover have "usable_before b + 40 + length data \<le> 2 ^ 63"
    using usable_before_le [of b] assms by linarith
  ultimately show ?thesis
    using phys_end_bound [of "usable_before b + 40 + length data"]
      round_up_nat_bound [of "b + unat (ch_num_records header)"] assms
    by (simp add: chunk_size_at_def chunk_end_nat_def)
qed

lemma write_chunk_raw_file:
  assumes fok: "file_ok hw cs w"
    and run: "write_chunk_raw hw header data w = (Inr u, w')"
    and size: "ch_data_size header = of_nat (length data)"
    and small: "length (out_bytes (rw_writer w')) \<le> 2 ^ 63"
  shows "file_ok hw (cs @ [\<lparr>chunk_header = header, chunk_data = data\<rparr>]) w'"
    and "same_frame (w\<lparr>rw_last_chunk_start := rw_file_pos w\<rparr>) w'"
proof -
  define b where "b = unat (rw_file_pos w)"
  have cb: "chunk_pos b" using file_ok_boundary [OF fok] by (simp add: b_def)
  have "b + 40 + length data \<le> 2 ^ 63"
    using write_chunk_raw_grows [OF run] small file_ok_length [OF fok] by (simp add: grows_def b_def)
  then have fits: "chunk_size_at b header data \<le> u64_max" by (rule chunk_size_at_fits)
  have w: "writes (w\<lparr>rw_last_chunk_start := rw_file_pos w\<rparr>) (chunk_image hw b header data) (Inr u) w'"
    using run b_def cb size fits by (rule write_chunk_raw_writes)
  then show "same_frame (w\<lparr>rw_last_chunk_start := rw_file_pos w\<rparr>) w'" by (simp add: writes_def)
  have "unat (rw_file_pos w') = chunk_size_at b header data"
    using writes_pos [OF w] chunk_image_end [OF cb, of hw header data] fits by (simp add: b_def)
  moreover have "file_end 0 cs = b" using fok by (simp add: file_ok_def b_def)
  ultimately show "file_ok hw (cs @ [\<lparr>chunk_header = header, chunk_data = data\<rparr>]) w'"
    using fok w by (simp add: file_ok_def file_image_append chunk_pos_0 file_end_append writes_def)
qed

section \<open>Sessions\<close>

text \<open>What a chunk costs against the threshold: 8 bytes per record beside its data.\<close>

definition accounted :: "bytes list \<Rightarrow> nat" where
  "accounted rs = sum_list (map (\<lambda>r. length r + 8) rs)"

lemma accounted_simps [simp]:
  "accounted [] = 0" "accounted (r # rs) = length r + 8 + accounted rs"
  "accounted (rs @ rs') = accounted rs + accounted rs'"
  by (simp_all add: accounted_def)

lemma accounted_length: "8 * length rs \<le> accounted rs"
  by (induction rs) auto

text \<open>An encoder after records were added to it, when it took them all.\<close>

fun fill_encoder :: "'t transposer \<Rightarrow> 't ActiveEncoder \<Rightarrow> bytes list \<Rightarrow> 't ActiveEncoder option" where
  "fill_encoder T e [] = Some e"
| "fill_encoder T e (r # rs) = (case encoder_add_record T r e of (Inl _, _) \<Rightarrow> None | (Inr _, e') \<Rightarrow> fill_encoder T e' rs)"

lemma fill_encoder_append: "fill_encoder T e (rs @ rs') = (case fill_encoder T e rs of None \<Rightarrow> None | Some e' \<Rightarrow> fill_encoder T e' rs')"
  by (induction rs arbitrary: e) (auto split: prod.splits sum.splits)

lemma fill_encoder_snoc: "fill_encoder T e rs = Some e1 \<Longrightarrow> encoder_add_record T r e1 = (Inr u, e2) \<Longrightarrow> fill_encoder T e (rs @ [r]) = Some e2"
  by (simp add: fill_encoder_append)

lemma fill_encoder_simple: "fill_encoder T (Simple_Encoder e) rs = Some (Simple_Encoder (e\<lparr>enc_records := enc_records e @ rs\<rparr>))"
  by (induction rs arbitrary: e) (simp_all add: sc_add_record_def)

text \<open>The encoder with which the writer \<open>w\<close> starts a chunk.\<close>

abbreviation fresh_encoder :: "'t transposer \<Rightarrow> 't RecordWriter \<Rightarrow> 't ActiveEncoder" where
  "fresh_encoder T w \<equiv> make_encoder T (rw_transpose w) (rw_compression w) (rw_compress_opts w) (rw_transpose_bucket_size w)"

text \<open>
  A chunk that carries the records \<open>rs\<close>: the encoding of these records with an encoder that was
  \<open>enc0\<close>, within the chunk-size threshold \<open>n\<close> unless it is a single record; or a chunk without
  records, for metadata or padding.
\<close>

definition carries :: "hasher \<Rightarrow> codec \<Rightarrow> 't transposer \<Rightarrow> 't ActiveEncoder \<Rightarrow> nat \<Rightarrow> Chunk \<Rightarrow> bytes list \<Rightarrow> bool" where
  "carries hw C T enc0 n c rs \<longleftrightarrow>
     (if rs = [] then
        ch_is_header_valid hw (chunk_header c) \<and> ch_is_data_valid hw (chunk_header c) (chunk_data c) \<and>
        ch_data_size (chunk_header c) = of_nat (length (chunk_data c)) \<and>
        ch_num_records (chunk_header c) = 0 \<and>
        (ch_chunk_type (chunk_header c) = Inr FileMetadata \<or>
         ch_chunk_type (chunk_header c) = Inr Padding \<and> ch_decoded_data_size (chunk_header c) = 0)
      else (case fill_encoder T enc0 rs of None \<Rightarrow> False | Some e \<Rightarrow> encoder_encode hw C T e = Inr c) \<and>
        (accounted rs \<le> n \<or> length rs = 1))"

text \<open>The header of an encoded chunk says how long its data is.\<close>

definition frames_chunks :: "'t transposer \<Rightarrow> bool" where
  "frames_chunks T \<longleftrightarrow> (\<forall>t c. tr_encode T t = Inr c \<longrightarrow> ch_data_size (chunk_header c) = of_nat (length (chunk_data c)))"

text \<open>\<open>recs\<close> were written: those of the chunks \<open>cs\<close> and then the pending ones.\<close>

definition session_core ::
  "hasher \<Rightarrow> codec \<Rightarrow> 't transposer \<Rightarrow> bytes list \<Rightarrow> Chunk list \<Rightarrow> bytes list \<Rightarrow> 't RecordWriter \<Rightarrow> bool" where
  "session_core hw C T recs cs pend w \<longleftrightarrow>
     file_ok hw (signature_chunk hw # cs) w \<and> rw_failed w = None \<and> (rw_transpose w \<longrightarrow> frames_chunks T) \<and>
     unat (rw_chunk_size w) < 2 ^ 59 \<and>
     fill_encoder T (fresh_encoder T w) pend = Some (rw_encoder w) \<and>
     unat (rw_accumulated_bytes w) = accounted pend \<and>
     unat (rw_pending_record_count w) = length pend \<and>
     (\<exists>groups. concat groups @ pend = recs \<and>
        list_all2 (carries hw C T (fresh_encoder T w) (unat (rw_chunk_size w))) cs groups)"

text \<open>Between two operations there is room for another record in the pending chunk.\<close>

definition session :: "hasher \<Rightarrow> codec \<Rightarrow> 't transposer \<Rightarrow> bytes list \<Rightarrow> Chunk list \<Rightarrow> bytes list \<Rightarrow> 't RecordWriter \<Rightarrow> bool" where
  "session hw C T recs cs pend w \<longleftrightarrow> session_core hw C T recs cs pend w \<and>
     (pend \<noteq> [] \<longrightarrow> accounted pend + 8 \<le> unat (rw_chunk_size w))"

definition same_options :: "'t RecordWriter \<Rightarrow> 't RecordWriter \<Rightarrow> bool" where
  "same_options w w' \<longleftrightarrow> rw_closed w' = rw_closed w \<and> rw_final_padding w' = rw_final_padding w \<and>
     rw_chunk_size w' = rw_chunk_size w \<and> rw_compression w' = rw_compression w \<and>
     rw_compress_opts w' = rw_compress_opts w \<and> rw_transpose w' = rw_transpose w \<and>
     rw_transpose_bucket_size w' = rw_transpose_bucket_size w"

lemma same_options_trans: "same_options w w1 \<Longrightarrow> same_options w1 w2 \<Longrightarrow> same_options w w2"
  by (simp add: same_options_def)

lemma same_options_refl: "same_options w w"
  by (simp add: same_options_def)

lemma session_add_chunk:
  assumes s: "session_core hw C T recs cs pend w"
    and run: "write_chunk_raw hw (chunk_header c) (chunk_data c) w = (Inr u, w')"
    and size: "ch_data_size (chunk_header c) = of_nat (length (chunk_data c))"
    and c: "carries hw C T (fresh_encoder T w) (unat (rw_chunk_size w)) c rs"
    and small: "length (out_bytes (rw_writer w')) \<le> 2 ^ 63"
    and order: "rs \<noteq> [] \<Longrightarrow> pend = []"
  shows "session_core hw C T (recs @ rs) (cs @ [c]) pend w'" and "same_options w w'"
proof -
  have fok: "file_ok hw (signature_chunk hw # cs) w" using s by (simp add: session_core_def)
  note wf = write_chunk_raw_file [OF fok run size small]
  obtain groups where g: "concat groups @ pend = recs"
    "list_all2 (carries hw C T (fresh_encoder T w) (unat (rw_chunk_size w))) cs groups"
    using s by (auto simp: session_core_def)
  have "list_all2 (carries hw C T (fresh_encoder T w) (unat (rw_chunk_size w))) (cs @ [c]) (groups @ [rs])"
    using g(2) c by (intro list_all2_appendI) simp_all
  moreover have "concat (groups @ [rs]) @ pend = recs @ rs"
    using g(1) order by (cases "rs = []") auto
  moreover have "file_ok hw (signature_chunk hw # cs @ [c]) w'"
    using wf(1) by (metis Chunk.surjective append_Cons old.unit.exhaust)
  ultimately have "file_ok hw (signature_chunk hw # cs @ [c]) w'" and
    "\<exists>groups. concat groups @ pend = recs @ rs \<and>
       list_all2 (carries hw C T (fresh_encoder T w) (unat (rw_chunk_size w))) (cs @ [c]) groups"
    by blast+
  then show "session_core hw C T (recs @ rs) (cs @ [c]) pend w'"
    using s same_frameD [OF wf(2)] unfolding session_core_def by simp
  show "same_options w w'" using same_frameD [OF wf(2)] by (simp add: same_options_def)
qed

lemma sc_encode_header:
  assumes "sc_encode hw C e = Inr c"
  shows "ch_data_size (chunk_header c) = of_nat (length (chunk_data c))"
    "c = \<lparr>chunk_header = chunk_header c, chunk_data = chunk_data c\<rparr>"
  using assms by (auto simp: sc_encode_def Let_def bind_res_eq_Inr)

lemma pending_framed:
  assumes "session_core hw C T recs cs pend w" "encoder_encode hw C T (rw_encoder w) = Inr c"
  shows "ch_data_size (chunk_header c) = of_nat (length (chunk_data c))"
proof (cases "rw_transpose w")
  case True
  then obtain t where "fresh_encoder T w = Transpose_Encoder t" by (simp add: make_encoder_def)
  moreover have "fill_encoder T (Transpose_Encoder t) rs = Some e \<Longrightarrow> \<exists>t'. e = Transpose_Encoder t'" for t rs e
    by (induction rs arbitrary: t) (auto split: prod.splits sum.splits)
  moreover have "fill_encoder T (fresh_encoder T w) pend = Some (rw_encoder w)" using assms(1) by (simp add: session_core_def)
  ultimately obtain t' where "rw_encoder w = Transpose_Encoder t'" by metis
  moreover have "frames_chunks T" using assms(1) True by (simp add: session_core_def)
  ultimately show ?thesis using assms(2) by (simp add: frames_chunks_def)
next
  case False
  then have "rw_encoder w = Simple_Encoder (sc_with_options (rw_compression w) (rw_compress_opts w)\<lparr>enc_records := pend\<rparr>)"
    using assms(1) by (simp add: session_core_def make_encoder_def fill_encoder_simple sc_with_options_def)
  then show ?thesis using assms(2) sc_encode_header(1) by simp
qed

lemma flush_chunk_session:
  assumes s: "session_core hw C T recs cs pend w"
    and run: "flush_chunk hw C T w = (Inr u, w')"
    and pend: "pend \<noteq> []" "accounted pend \<le> unat (rw_chunk_size w) \<or> length pend = 1"
    and small: "length (out_bytes (rw_writer w')) \<le> 2 ^ 63"
  shows "\<exists>c. session hw C T recs (cs @ [c]) [] w' \<and> same_options w w'"
proof -
  define w0 where "w0 = w\<lparr>rw_encoder := make_encoder T (rw_transpose w) (rw_compression w) (rw_compress_opts w)
            (rw_transpose_bucket_size w), rw_accumulated_bytes := 0, rw_pending_record_count := 0\<rparr>"
  obtain groups where g: "concat groups @ pend = recs"
    "list_all2 (carries hw C T (fresh_encoder T w) (unat (rw_chunk_size w))) cs groups"
    using s by (auto simp: session_core_def)
  obtain c where c: "encoder_encode hw C T (rw_encoder w) = Inr c"
    and wr: "write_chunk_raw hw (chunk_header c) (chunk_data c) w0 = (Inr u, w')"
    using run by (auto simp: flush_chunk_def Let_def w0_def split: sum.splits)
  have size: "ch_data_size (chunk_header c) = of_nat (length (chunk_data c))"
    by (rule pending_framed [OF s c])
  have s0: "session_core hw C T (concat groups) cs [] w0"
    using s g(2) by (auto simp: session_core_def w0_def file_ok_def)
  have carr: "carries hw C T (fresh_encoder T w0) (unat (rw_chunk_size w0)) c pend"
    using c pend s by (simp add: carries_def w0_def session_core_def)
  from session_add_chunk [OF s0 wr size carr small] g(1)
  have "session_core hw C T recs (cs @ [c]) [] w'" "same_options w0 w'" by simp_all
  then show ?thesis by (auto simp: session_def same_options_def w0_def)
qed

lemma flush_chunk_grows:
  assumes "flush_chunk hw C T w = (Inr u, w')"
  shows "grows 0 w w'"
  using assms
  by (auto simp: flush_chunk_def Let_def grows_def split: sum.splits dest!: write_chunk_raw_grows)

lemma grows_small: "grows n w w' \<Longrightarrow> length (out_bytes (rw_writer w')) \<le> 2 ^ 63 \<Longrightarrow> length (out_bytes (rw_writer w)) \<le> 2 ^ 63"
  by (simp add: grows_def)

section \<open>Writing a record\<close>

lemma write_record_impl_session:
  assumes s: "session hw C T recs cs pend w"
    and run: "write_record_impl hw C T data w = (Inr u, w')"
    and data: "length data < 2 ^ 62" and small: "length (out_bytes (rw_writer w')) \<le> 2 ^ 63"
  shows "\<exists>cs' pend'. session hw C T (recs @ [data]) (cs @ cs') pend' w' \<and> same_options w w' \<and> grows 0 w w'"
proof -
  define added where "added = (of_nat (length data) + 8 :: u64)"
  have ua: "unat added = length data + 8"
    unfolding added_def using data by (subst unat_add_u64) (simp_all add: unat_of_nat_u64)
  have core: "session_core hw C T recs cs pend w" using s by (simp add: session_def)
  have acc: "unat (rw_accumulated_bytes w) = accounted pend" and csz: "unat (rw_chunk_size w) < 2 ^ 59"
    using core by (simp_all add: session_core_def)
  have bound: "accounted pend < 2 ^ 59" using s csz by (cases "pend = []") (auto simp: session_def)
  have sum: "unat (rw_accumulated_bytes w + added) = accounted pend + length data + 8"
    using acc ua bound data by (subst unat_add_u64) simp_all
  define first where "first = (rw_chunk_size w < rw_accumulated_bytes w + added \<and> 0 < rw_accumulated_bytes w)"
  have first: "first \<longleftrightarrow> unat (rw_chunk_size w) < accounted pend + length data + 8 \<and> 0 < accounted pend"
    using acc sum by (simp add: first_def word_less_nat_alt)
  obtain w1 where w1: "(if first then flush_chunk hw C T else ret ()) w = (Inr (), w1)"
    and step: "(let w = w1\<lparr>rw_accumulated_bytes := rw_accumulated_bytes w1 + added,
                        rw_pending_record_count := rw_pending_record_count w1 + 1\<rparr>
               in case encoder_add_record T data (rw_encoder w) of
                    (Inl e, enc) \<Rightarrow> (Inl e, w\<lparr>rw_encoder := enc\<rparr>)
                  | (Inr _, enc) \<Rightarrow>
                      let w = w\<lparr>rw_encoder := enc\<rparr>
                      in if rw_chunk_size w < rw_accumulated_bytes w + 8 then flush_chunk hw C T w
                         else (Inr (), w)) = (Inr u, w')"
    using run unfolding write_record_impl_def Let_def then_do_Inr added_def [symmetric] first_def [symmetric]
    by auto
  have "\<exists>cs1 pend1. session_core hw C T recs (cs @ cs1) pend1 w1 \<and> same_options w w1 \<and> grows 0 w w1 \<and>
     (accounted pend1 + length data + 8 \<le> unat (rw_chunk_size w1) \<or> pend1 = []) \<and>
     accounted pend1 < 2 ^ 59"
    if lim: "length (out_bytes (rw_writer w1)) \<le> 2 ^ 63"
  proof (cases first)
    case True
    then have f: "flush_chunk hw C T w = (Inr (), w1)" using w1 by simp
    have "pend \<noteq> []" using True first by auto
    moreover have "accounted pend \<le> unat (rw_chunk_size w)"
      using s \<open>pend \<noteq> []\<close> by (simp add: session_def)
    ultimately obtain c where "session hw C T recs (cs @ [c]) [] w1" "same_options w w1"
      using flush_chunk_session [OF core f _ _ lim] by blast
    then show ?thesis using flush_chunk_grows [OF f]
      by (intro exI [of _ "[c]"] exI [of _ "[] :: bytes list"]) (simp add: session_def)
  next
    case False
    then have "w1 = w" using w1 by simp
    moreover have "accounted pend + length data + 8 \<le> unat (rw_chunk_size w) \<or> pend = []"
      using False first by (cases pend) auto
    ultimately show ?thesis using core bound
      by (intro exI [of _ "[] :: Chunk list"] exI [of _ pend]) (simp add: same_options_refl grows_def)
  qed
  note part1 = this
  have g1: "grows 0 w1 w'"
    using step by (auto simp: Let_def grows_def split: sum.splits prod.splits if_splits dest!: flush_chunk_grows)
  have small1: "length (out_bytes (rw_writer w1)) \<le> 2 ^ 63" using grows_small [OF g1 small] .
  obtain cs1 pend1 where core1: "session_core hw C T recs (cs @ cs1) pend1 w1" and o1: "same_options w w1"
    and g0: "grows 0 w w1" and room: "accounted pend1 + length data + 8 \<le> unat (rw_chunk_size w1) \<or> pend1 = []"
    and b1: "accounted pend1 < 2 ^ 59"
    using part1 [OF small1] by blast
  let ?pend = "pend1 @ [data]"
  obtain enc where enc: "encoder_add_record T data (rw_encoder w1) = (Inr (), enc)"
    using step by (auto simp: Let_def split: prod.splits sum.splits)
  define w2 where "w2 = w1\<lparr>rw_accumulated_bytes := rw_accumulated_bytes w1 + added,
      rw_pending_record_count := rw_pending_record_count w1 + 1, rw_encoder := enc\<rparr>"
  have acc2: "unat (rw_accumulated_bytes w1 + added) = accounted ?pend"
    using core1 ua b1 data by (subst unat_add_u64) (simp_all add: session_core_def)
  have "length pend1 < 2 ^ 59" using b1 accounted_length [of pend1] by linarith
  then have cnt2: "unat (rw_pending_record_count w1 + 1) = length ?pend"
    using core1 by (subst unat_add_u64) (simp_all add: session_core_def)
  have core2: "session_core hw C T (recs @ [data]) (cs @ cs1) ?pend w2"
    using core1 acc2 cnt2 fill_encoder_snoc [OF _ enc] unfolding session_core_def by (auto simp: w2_def file_ok_def)
  have o2: "same_options w1 w2" and g2: "grows 0 w1 w2"
    by (simp_all add: w2_def same_options_def grows_def)
  have acc8: "unat (rw_accumulated_bytes w2 + 8) = accounted ?pend + 8"
    using acc2 b1 data by (subst unat_add_u64) (simp_all add: w2_def)
  have ev: "(if rw_chunk_size w2 < rw_accumulated_bytes w2 + 8 then flush_chunk hw C T w2 else (Inr (), w2)) = (Inr u, w')"
    using step enc by (simp add: Let_def w2_def split: if_splits)
  show ?thesis
  proof (cases "rw_chunk_size w2 < rw_accumulated_bytes w2 + 8")
    case True
    then have f: "flush_chunk hw C T w2 = (Inr u, w')" using ev by simp
    have "accounted ?pend \<le> unat (rw_chunk_size w2) \<or> length ?pend = 1"
      using room by (auto simp: w2_def)
    then obtain c where "session hw C T (recs @ [data]) ((cs @ cs1) @ [c]) [] w'" "same_options w2 w'"
      using flush_chunk_session [OF core2 f _ _ small] by blast
    then show ?thesis
      using same_options_trans [OF o1 same_options_trans [OF o2]] g0 g1
      by (intro exI [of _ "cs1 @ [c]"] exI [of _ "[]"]) (simp add: grows_def)
  next
    case False
    then have w': "w' = w2" and "accounted ?pend + 8 \<le> unat (rw_chunk_size w2)"
      using ev acc8 by (simp_all add: word_less_nat_alt not_less)
    then have "session hw C T (recs @ [data]) (cs @ cs1) ?pend w'"
      using core2 by (simp add: session_def)
    then show ?thesis
      using same_options_trans [OF o1 o2] w' g0 g1
      by (intro exI [of _ cs1] exI [of _ ?pend]) (simp add: grows_def)
  qed
qed

section \<open>Flushing and closing\<close>

lemma file_ok_position:
  "file_ok hw (signature_chunk hw # cs @ [c]) w' \<Longrightarrow> file_ok hw (signature_chunk hw # cs) w \<Longrightarrow>
   unat (rw_file_pos w') = chunk_size_at (unat (rw_file_pos w)) (chunk_header c) (chunk_data c)"
  by (simp add: file_ok_def file_end_append)

lemma write_padding_grows:
  assumes "write_padding_to_multiple hw alignment w = Some (Inr u, w')"
  shows "grows 0 w w'"
  using assms
  by (auto simp: write_padding_to_multiple_def Let_def grows_def split: option.splits if_splits
      dest!: write_chunk_raw_grows)

lemma write_padding_session:
  assumes s: "session_core hw C T recs cs pend w"
    and run: "write_padding_to_multiple hw alignment w = Some (Inr u, w')"
    and al: "0 < alignment" "unat alignment \<le> 2 ^ 45"
    and small: "length (out_bytes (rw_writer w')) \<le> 2 ^ 63"
  shows "\<exists>cs'. session_core hw C T recs (cs @ cs') pend w' \<and> same_options w w' \<and>
    unat alignment dvd unat (rw_file_pos w')"
proof -
  let ?b = "unat (rw_file_pos w)" and ?a = "unat alignment"
  have fok: "file_ok hw (signature_chunk hw # cs) w" using s by (simp add: session_core_def)
  have cb: "chunk_pos ?b" using fok by (rule file_ok_boundary)
  have "?b \<le> 2 ^ 63" using write_padding_grows [OF run] small file_ok_length [OF fok] by (simp add: grows_def)
  then have "?b + 131072 * ?a \<le> u64_max" using al by simp
  then obtain e where e: "pos_after_padding (rw_file_pos w) alignment = Some e"
    "if alignment = 0 \<or> ?a dvd ?b then e = rw_file_pos w
     else padding_end ?b ?a (unat e) \<and> (\<forall>m. padding_end ?b ?a m \<longrightarrow> unat e \<le> m)"
    using pos_after_padding_least by blast
  show ?thesis
  proof (cases "?a dvd ?b")
    case True
    then have "w' = w" using e run by (simp add: write_padding_to_multiple_def Let_def)
    then show ?thesis using s True same_options_refl by (intro exI [of _ "[] :: Chunk list"]) simp
  next
    case False
    then have pe: "padding_end ?b ?a (unat e)" using e al by (auto split: if_splits)
    then have ne: "e \<noteq> rw_file_pos w" by (auto simp: padding_end_def)
    define h d where "h = padding_header hw ?b (unat e)" and "d = padding_chunk_data ?b (unat e)"
    let ?c = "\<lparr>chunk_header = h, chunk_data = d\<rparr>"
    have "unat (distance_without_overhead (rw_file_pos w) e - CHUNK_HEADER_SIZE)
        = usable_before (unat e) - (usable_before ?b + 40)"
      using pe by (intro padding_data_size) (simp add: padding_end_def)
    then have run': "write_chunk_raw hw (chunk_header ?c) (chunk_data ?c) w = (Inr u, w')"
      using run e(1) ne
      by (simp add: write_padding_to_multiple_def Let_def h_def d_def padding_header_def padding_chunk_data_def)
    have "carries hw C T (fresh_encoder T w) (unat (rw_chunk_size w)) ?c []"
      by (simp add: carries_def h_def d_def padding_header_def)
    then have s': "session_core hw C T (recs @ []) (cs @ [?c]) pend w'" "same_options w w'"
      using session_add_chunk [OF s run' _ _ small, of "[]"] by (simp_all add: h_def d_def padding_header_def)
    then have "unat (rw_file_pos w') = chunk_size_at ?b h d"
      using file_ok_position [OF _ fok, of ?c w'] by (simp add: session_core_def)
    also have "\<dots> = unat e"
      unfolding h_def d_def using cb pe by (intro padding_chunk_size) (simp_all add: padding_end_def)
    finally show ?thesis using s' pe by (intro exI [of _ "[?c]"]) (simp add: padding_end_def)
  qed
qed

lemma writer_flush_session:
  assumes "session_core hw C T recs cs pend w" "writer_flush w = (Inr u, w')"
  shows "session_core hw C T recs cs pend w'" "same_options w w'"
    "out_flushed (rw_writer w') = length (out_bytes (rw_writer w'))" "rw_file_pos w' = rw_file_pos w"
    "out_bytes (rw_writer w') = out_bytes (rw_writer w)"
proof -
  obtain s where w': "w' = w\<lparr>rw_writer := s\<rparr>" and s: "out_bytes s = out_bytes (rw_writer w)"
    "out_flushed s = length (out_bytes s)"
    using assms(2) by (auto simp: writer_flush_def sink_flush_def split: prod.splits list.splits option.splits)
  then show "session_core hw C T recs cs pend w'" "same_options w w'"
    "out_flushed (rw_writer w') = length (out_bytes (rw_writer w'))" "rw_file_pos w' = rw_file_pos w"
    "out_bytes (rw_writer w') = out_bytes (rw_writer w)"
    using assms(1) by (auto simp: session_core_def file_ok_def same_options_def)
qed

lemma flush_impl_session:
  assumes s: "session hw C T recs cs pend w"
    and run: "flush_impl hw C T w = Some (Inr u, w')"
    and al: "unat (rw_final_padding w) \<le> 2 ^ 45"
    and small: "length (out_bytes (rw_writer w')) \<le> 2 ^ 63"
  shows "\<exists>cs'. session hw C T recs (cs @ cs') [] w' \<and> same_options w w' \<and> grows 0 w w' \<and>
    (0 < rw_final_padding w \<longrightarrow> unat (rw_final_padding w) dvd unat (rw_file_pos w')) \<and>
    out_flushed (rw_writer w') = length (out_bytes (rw_writer w'))"
proof -
  have core: "session_core hw C T recs cs pend w" using s by (simp add: session_def)
  obtain w1 w2 where 1: "(if 0 < rw_pending_record_count w then flush_chunk hw C T w else (Inr (), w)) = (Inr (), w1)"
    and 2: "(if 0 < rw_final_padding w1 then write_padding_to_multiple hw (rw_final_padding w1) w1
                 else Some (Inr (), w1)) = Some (Inr (), w2)"
    and 3: "writer_flush w2 = (Inr u, w')"
    using run unfolding flush_impl_def by (auto split: prod.splits sum.splits option.splits)
  have g3: "grows 0 w2 w'" using 3
    by (auto simp: writer_flush_def sink_flush_def grows_def split: prod.splits list.splits option.splits)
  have g2: "grows 0 w1 w2" using 2 write_padding_grows grows_refl by (auto split: if_splits)
  have g1: "grows 0 w w1" using 1 flush_chunk_grows grows_refl by (auto split: if_splits)
  note small2 = grows_small [OF g3 small]
  note small1 = grows_small [OF g2 small2]
  have pending: "0 < rw_pending_record_count w \<longleftrightarrow> pend \<noteq> []"
    using core by (auto simp: session_core_def word_neq_0_unat word_less_nat_alt)
  obtain cs1 where s1: "session_core hw C T recs (cs @ cs1) [] w1" and o1: "same_options w w1"
  proof (cases "pend = []")
    case True
    then have "w1 = w" using 1 pending by simp
    then show thesis using core True that [of "[]"] same_options_refl [of w] by simp
  next
    case False
    then have f: "flush_chunk hw C T w = (Inr (), w1)" using 1 pending by simp
    have "accounted pend \<le> unat (rw_chunk_size w)" using s False by (simp add: session_def)
    then obtain c where "session hw C T recs (cs @ [c]) [] w1" "same_options w w1"
      using flush_chunk_session [OF core f False _ small1] by blast
    then show thesis using that [of "[c]"] by (simp add: session_def)
  qed
  have p1: "rw_final_padding w1 = rw_final_padding w" using o1 by (simp add: same_options_def)
  obtain cs2 where s2: "session_core hw C T recs ((cs @ cs1) @ cs2) [] w2" and o2: "same_options w1 w2"
    and d: "0 < rw_final_padding w \<longrightarrow> unat (rw_final_padding w) dvd unat (rw_file_pos w2)"
  proof (cases "0 < rw_final_padding w")
    case True
    then have "write_padding_to_multiple hw (rw_final_padding w) w1 = Some (Inr (), w2)" using 2 p1 by simp
    from write_padding_session [OF s1 this True al small2] show thesis using that by blast
  next
    case False
    then have "w2 = w1" using 2 p1 by simp
    then show thesis using s1 False that [of "[]"] same_options_refl [of w1] by simp
  qed
  note f = writer_flush_session [OF s2 3]
  show ?thesis
    using f d same_options_trans [OF o1 same_options_trans [OF o2 f(2)]] g1 g2 g3
    by (intro exI [of _ "cs1 @ cs2"]) (simp add: session_def grows_def)
qed

section \<open>Sequences of operations\<close>

datatype writer_op = WriteRecord bytes | Flush

fun writer_step :: "hasher \<Rightarrow> codec \<Rightarrow> 't transposer \<Rightarrow> writer_op \<Rightarrow> 't RecordWriter \<Rightarrow> (unit res \<times> 't RecordWriter) option" where
  "writer_step hw C T (WriteRecord data) w = Some (write_record hw C T data w)"
| "writer_step hw C T Flush w = flush hw C T w"

text \<open>All operations are called, whatever they answer.\<close>

fun run_ops :: "('op \<Rightarrow> 's \<Rightarrow> (unit res \<times> 's) option) \<Rightarrow> 'op list \<Rightarrow> 's \<Rightarrow> (unit res list \<times> 's) option" where
  "run_ops step [] s = Some ([], s)"
| "run_ops step (x # xs) s =
     (case step x s of
        None \<Rightarrow> None
      | Some (r, s') \<Rightarrow> map_option (\<lambda>(rs, s''). (r # rs, s'')) (run_ops step xs s'))"

fun op_records :: "writer_op \<Rightarrow> bytes list" where
  "op_records (WriteRecord data) = [data]"
| "op_records Flush = []"

definition written :: "writer_op list \<Rightarrow> bytes list" where
  "written xs = concat (map op_records xs)"

lemma run_ops_Cons:
  "run_ops step (x # xs) s = Some (rs, s'') \<longleftrightarrow>
   (\<exists>r s' rs'. step x s = Some (r, s') \<and> run_ops step xs s' = Some (rs', s'') \<and> rs = r # rs')"
  by (auto split: option.splits prod.splits)

text \<open>Operations that stop for good after the first error.\<close>

locale failing_ops =
  fixes step :: "'op \<Rightarrow> 's \<Rightarrow> (unit res \<times> 's) option" and dead :: "'s \<Rightarrow> bool" and out :: "'s \<Rightarrow> sink"
  assumes dead_step: "dead s \<Longrightarrow> step x s = Some (r, s') \<Longrightarrow> dead s' \<and> out s' = out s"
    and error_kills: "step x s = Some (Inl e, s') \<Longrightarrow> dead s'"
begin

lemma dead_run: "dead s \<Longrightarrow> run_ops step xs s = Some (rs, s') \<Longrightarrow> dead s' \<and> out s' = out s"
proof (induction xs arbitrary: s rs)
  case (Cons x xs)
  from Cons.prems(2) obtain r s1 rs' where "step x s = Some (r, s1)" "run_ops step xs s1 = Some (rs', s')"
    unfolding run_ops_Cons by blast
  with Cons.IH [of s1 rs'] dead_step [OF Cons.prems(1)] show ?case by metis
qed simp

lemma nothing_after_error:
  "step x s = Some (Inl e, s1) \<Longrightarrow> run_ops step xs s1 = Some (rs, s') \<Longrightarrow> out s' = out s1"
  using error_kills dead_run by blast

end

definition writer_dead :: "'t RecordWriter \<Rightarrow> bool" where
  "writer_dead w \<longleftrightarrow> rw_closed w \<or> rw_failed w \<noteq> None"

interpretation writer_ops: failing_ops "writer_step hw C T" writer_dead rw_writer
  for hw C and T :: "'t transposer"
proof unfold_locales
  fix w :: "'t RecordWriter" and x r w'
  assume d: "writer_dead w" and s: "writer_step hw C T x w = Some (r, w')"
  show "writer_dead w' \<and> rw_writer w' = rw_writer w"
  proof (cases x)
    case (WriteRecord data)
    then show ?thesis using d s
      by (auto simp: write_record_def writer_dead_def then_do_def check_not_failed_def split: if_splits)
  next
    case Flush
    then show ?thesis using d s
      by (auto simp: flush_def writer_dead_def check_not_failed_def split: if_splits)
  qed
next
  fix w :: "'t RecordWriter" and x e w'
  assume s: "writer_step hw C T x w = Some (Inl e, w')"
  have latch: "writer_dead w'" if "latch_failure rw = (Inl e, w')" for rw :: "unit res \<times> 't RecordWriter"
    using that by (auto simp: latch_failure_def writer_dead_def split: prod.splits sum.splits if_splits)
  show "writer_dead w'"
  proof (cases x)
    case (WriteRecord data)
    then show ?thesis using s latch
      by (auto simp: write_record_def writer_dead_def then_do_def check_not_failed_def split: if_splits option.splits)
  next
    case Flush
    then show ?thesis using s latch
      by (auto simp: flush_def writer_dead_def check_not_failed_def split: if_splits option.splits)
  qed
qed

lemma latch_failure_Inr [simp]: "latch_failure rw = (Inr u, w) \<longleftrightarrow> rw = (Inr u, w)"
  by (auto simp: latch_failure_def split: prod.splits sum.splits)

lemma write_record_Inr:
  "write_record hw C T data w = (Inr u, w') \<longleftrightarrow>
   \<not> rw_closed w \<and> rw_failed w = None \<and> write_record_impl hw C T data w = (Inr u, w')"
  by (auto simp: write_record_def then_do_def check_not_failed_def split: option.splits)

lemma flush_Inr:
  "\<not> rw_closed w \<Longrightarrow> flush hw C T w = Some (Inr u, w') \<longleftrightarrow>
   rw_failed w = None \<and> flush_impl hw C T w = Some (Inr u, w')"
  by (auto simp: flush_def check_not_failed_def split: option.splits)

lemma write_record_impl_grows:
  assumes "write_record_impl hw C T data w = (Inr u, w')"
  shows "grows 0 w w'"
proof -
  define added where "added = (of_nat (length data) + 8 :: u64)"
  define first where "first = (rw_chunk_size w < rw_accumulated_bytes w + added \<and> 0 < rw_accumulated_bytes w)"
  obtain w1 where w1: "(if first then flush_chunk hw C T else ret ()) w = (Inr (), w1)"
    and step: "(let w = w1\<lparr>rw_accumulated_bytes := rw_accumulated_bytes w1 + added,
                        rw_pending_record_count := rw_pending_record_count w1 + 1\<rparr>
               in case encoder_add_record T data (rw_encoder w) of
                    (Inl e, enc) \<Rightarrow> (Inl e, w\<lparr>rw_encoder := enc\<rparr>)
                  | (Inr _, enc) \<Rightarrow>
                      let w = w\<lparr>rw_encoder := enc\<rparr>
                      in if rw_chunk_size w < rw_accumulated_bytes w + 8 then flush_chunk hw C T w
                         else (Inr (), w)) = (Inr u, w')"
    using assms unfolding write_record_impl_def Let_def then_do_Inr added_def [symmetric] first_def [symmetric]
    by auto
  have "grows 0 w w1" using w1 flush_chunk_grows grows_refl by (auto split: if_splits)
  moreover have "grows 0 w1 w'"
    using step by (auto simp: Let_def grows_def split: sum.splits prod.splits if_splits dest!: flush_chunk_grows)
  ultimately show ?thesis by (simp add: grows_def)
qed

lemma writer_flush_grows: "writer_flush w = (Inr u, w') \<Longrightarrow> grows 0 w w'"
  by (auto simp: writer_flush_def sink_flush_def grows_def split: prod.splits list.splits option.splits)

lemma flush_impl_grows:
  assumes "flush_impl hw C T w = Some (Inr u, w')"
  shows "grows 0 w w'"
  using assms
  by (auto simp: flush_impl_def grows_def split: if_splits sum.splits prod.splits option.splits
      dest!: flush_chunk_grows write_padding_grows writer_flush_grows)

lemma writer_step_grows: "writer_step hw C T x w = Some (Inr u, w') \<Longrightarrow> grows 0 w w'"
  by (cases x)
     (auto simp: write_record_Inr flush_def check_not_failed_def grows_def split: if_splits option.splits
      dest!: write_record_impl_grows flush_impl_grows)

lemma run_writer_grows:
  "run_ops (writer_step hw C T) xs w = Some (rs, w') \<Longrightarrow> \<forall>r \<in> set rs. r = Inr () \<Longrightarrow> grows 0 w w'"
proof (induction xs arbitrary: w rs)
  case (Cons x xs)
  from Cons.prems(1) obtain r w1 rs' where 1: "writer_step hw C T x w = Some (r, w1)"
    "run_ops (writer_step hw C T) xs w1 = Some (rs', w')" "rs = r # rs'"
    unfolding run_ops_Cons by blast
  then have "grows 0 w w1" using Cons.prems(2) writer_step_grows by fastforce
  moreover have "grows 0 w1 w'" using 1 Cons by auto
  ultimately show ?case by (simp add: grows_def)
qed (simp add: grows_def)

lemma run_writer_session:
  assumes "session hw C T recs cs pend w" "\<not> rw_closed w" "unat (rw_final_padding w) \<le> 2 ^ 45"
    and "run_ops (writer_step hw C T) xs w = Some (rs, w')" "\<forall>r \<in> set rs. r = Inr ()"
    and "\<forall>r \<in> set (written xs). length r < 2 ^ 62" and small: "length (out_bytes (rw_writer w')) \<le> 2 ^ 63"
  shows "\<exists>cs' pend'. session hw C T (recs @ written xs) cs' pend' w' \<and> same_options w w'"
  using assms(1-6)
proof (induction xs arbitrary: w recs cs pend rs)
  case Nil
  then show ?case using same_options_refl by (auto simp: written_def)
next
  case (Cons x xs)
  from Cons.prems(4,5) obtain w1 rs' where 1: "writer_step hw C T x w = Some (Inr (), w1)"
    "run_ops (writer_step hw C T) xs w1 = Some (rs', w')" "\<forall>r \<in> set rs'. r = Inr ()"
    unfolding run_ops_Cons by auto
  have small1: "length (out_bytes (rw_writer w1)) \<le> 2 ^ 63"
    using grows_small [OF run_writer_grows [OF 1(2,3)] small] .
  have "\<exists>cs1 pend1. session hw C T (recs @ op_records x) cs1 pend1 w1 \<and> same_options w w1"
  proof (cases x)
    case (WriteRecord data)
    then have "write_record_impl hw C T data w = (Inr (), w1)" using 1(1) by (simp add: write_record_Inr)
    moreover have "length data < 2 ^ 62" using Cons.prems(6) WriteRecord by (simp add: written_def)
    ultimately show ?thesis
      using write_record_impl_session [OF Cons.prems(1) _ _ small1] WriteRecord by fastforce
  next
    case Flush
    then have "flush_impl hw C T w = Some (Inr (), w1)" using 1(1) Cons.prems(2) by (simp add: flush_Inr)
    from flush_impl_session [OF Cons.prems(1) this Cons.prems(3) small1] Flush show ?thesis by auto
  qed
  then obtain cs1 pend1 where s1: "session hw C T (recs @ op_records x) cs1 pend1 w1" and o1: "same_options w w1"
    by blast
  have "\<not> rw_closed w1" "unat (rw_final_padding w1) \<le> 2 ^ 45" "\<forall>r \<in> set (written xs). length r < 2 ^ 62"
    using o1 Cons.prems by (auto simp: same_options_def written_def)
  then obtain cs' pend' where "session hw C T ((recs @ op_records x) @ written xs) cs' pend' w'" "same_options w1 w'"
    using Cons.IH [OF s1 _ _ 1(2,3)] by blast
  then show ?case using same_options_trans [OF o1] by (auto simp: written_def)
qed

section \<open>Opening and closing\<close>

lemma sink_write_all_Inr:
  "sink_write_all buf s = (Inr u, s') \<Longrightarrow> out_bytes s' = out_bytes s @ buf"
  by (auto simp: sink_write_all_def split: list.splits option.splits)

lemma initial_writer_session:
  assumes "out_bytes s = file_image hw 0 [signature_chunk hw]" "wo_transpose o' \<longrightarrow> frames_chunks T"
  shows "session hw C T [] [] [] (initial_writer T o' s)"
proof -
  have "unat (MAX_NUM_RECORDS * 8) < 2 ^ 59" by (simp add: MAX_NUM_RECORDS_def mask_eq_exp_minus_1)
  then have "unat (min (wo_chunk_size o') (MAX_NUM_RECORDS * 8)) < 2 ^ 59"
    by (auto simp: min_def word_le_nat_alt)
  then show ?thesis
    using assms signature_end [of hw]
    by (simp add: session_def session_core_def file_ok_def initial_writer_def Let_def block_consts)
qed

lemma writer_new_session:
  assumes new: "writer_new hw C T s0 o' = Some (Inr w, s)"
    and o: "out_bytes s0 = []" "wo_transpose o' \<longrightarrow> frames_chunks T" and small: "length (out_bytes (rw_writer w)) \<le> 2 ^ 63"
  shows "\<exists>cs. session hw C T [] cs [] w" and "same_options (initial_writer T o' s0) w"
proof -
  obtain s1 where s1: "then_do (sink_write_all (block_to_bytes (block_from_parts hw 0 (BLOCK_HEADER_SIZE + CHUNK_HEADER_SIZE))))
       (\<lambda>_. sink_write_all (chunk_to_bytes (chunk_from_parts hw [] FileSignature 0 0))) s0 = (Inr (), s1)"
    and meta: "(case wo_metadata o' of
                    None \<Rightarrow> Some (Inr (initial_writer T o' s1), s1)
                  | Some metadata \<Rightarrow>
                      (case write_metadata hw T metadata (initial_writer T o' s1) of
                         (Inr _, w) \<Rightarrow> Some (Inr w, rw_writer w)
                       | (Inl e, w) \<Rightarrow> map_option (\<lambda>s. (Inl e, s)) (drop_writer hw C T w))) = Some (Inr w, s)"
    using new by (auto simp: writer_new_def Let_def split: sum.splits prod.splits)
  let ?w0 = "initial_writer T o' s1"
  have "out_bytes s1 = file_image hw 0 [signature_chunk hw]"
    using s1 o(1) unfolding signature_image
    by (auto simp: then_do_Inr block_consts dest!: sink_write_all_Inr)
  then have s0: "session hw C T [] [] [] ?w0" using o(2) by (rule initial_writer_session)
  have "(\<exists>cs. session hw C T [] cs [] w) \<and> same_options ?w0 w"
  proof (cases "wo_metadata o'")
    case None
    then show ?thesis using meta s0 same_options_refl by auto
  next
    case (Some metadata)
    then have "write_metadata hw T metadata ?w0 = (Inr (), w)"
      using meta by (auto split: prod.splits sum.splits)
    then obtain encoded :: Chunk where run: "write_chunk_raw hw
        (chunk_from_parts hw (chunk_data encoded) FileMetadata 0 (of_nat (length metadata)))
        (chunk_data encoded) ?w0 = (Inr (), w)"
      by (auto simp: write_metadata_def split: prod.splits sum.splits)
    define c where "c = \<lparr>chunk_header = chunk_from_parts hw (chunk_data encoded) FileMetadata 0 (of_nat (length metadata)),
        chunk_data = chunk_data encoded\<rparr>"
    have "carries hw C T (fresh_encoder T ?w0) (unat (rw_chunk_size ?w0)) c []"
      by (simp add: carries_def c_def)
    with s0 run show ?thesis
      using session_add_chunk [of hw C T "[]" "[]" "[]" ?w0 c "()" w "[]", OF _ _ _ _ small]
      by (auto simp: session_def c_def)
  qed
  then show "\<exists>cs. session hw C T [] cs [] w" and "same_options (initial_writer T o' s0) w"
    by (auto simp: same_options_def initial_writer_def Let_def)
qed

lemma close_Inr:
  assumes "close hw C T w = Some (Inr u, s)" "\<not> rw_closed w"
  shows "\<exists>w'. flush_impl hw C T (w\<lparr>rw_closed := True\<rparr>) = Some (Inr u, w') \<and> s = rw_writer w'"
proof -
  obtain w' where w': "flush_internal hw C T w = Some (Inr u, w')" "drop_writer hw C T w' = Some s"
    using assms(1) by (auto simp: close_def split: option.splits)
  have *: "flush_impl hw C T (w\<lparr>rw_closed := True\<rparr>) = Some (Inr u, w')"
    using w'(1) assms(2)
    by (auto simp: flush_internal_def check_not_failed_def Let_def split: option.splits if_splits)
  have "rw_closed w'" using flush_impl_grows [OF *] by (simp add: grows_def)
  then have "s = rw_writer w'" using w'(2) by (simp add: drop_writer_def flush_internal_def)
  with * show ?thesis by blast
qed

lemma close_session:
  assumes s: "session hw C T recs cs pend w" and "\<not> rw_closed w" and al: "unat (rw_final_padding w) \<le> 2 ^ 45"
    and "close hw C T w = Some (Inr u, s)" and small: "length (out_bytes s) \<le> 2 ^ 63"
  shows "\<exists>cs' w'. session hw C T recs (cs @ cs') [] w' \<and> same_options (w\<lparr>rw_closed := True\<rparr>) w' \<and> rw_writer w' = s \<and>
    (0 < rw_final_padding w \<longrightarrow> unat (rw_final_padding w) dvd length (out_bytes s)) \<and>
    out_flushed s = length (out_bytes s)"
proof -
  obtain w' where w': "flush_impl hw C T (w\<lparr>rw_closed := True\<rparr>) = Some (Inr u, w')" "s = rw_writer w'"
    using close_Inr assms(2,4) by blast
  have "session hw C T recs cs pend (w\<lparr>rw_closed := True\<rparr>)"
    using s by (simp add: session_def session_core_def file_ok_def)
  from flush_impl_session [OF this w'(1)] al small w'(2) obtain cs' where
    "session hw C T recs (cs @ cs') [] w'" "same_options (w\<lparr>rw_closed := True\<rparr>) w'"
    "0 < rw_final_padding w \<longrightarrow> unat (rw_final_padding w) dvd unat (rw_file_pos w')"
    "out_flushed (rw_writer w') = length (out_bytes (rw_writer w'))" by auto
  moreover from this have "length (out_bytes (rw_writer w')) = unat (rw_file_pos w')"
    by (auto simp: session_def session_core_def intro: file_ok_length)
  ultimately show ?thesis using w'(2) by auto
qed

lemma writer_new_open:
  assumes "writer_new hw C T s0 o' = Some (Inr w, s)"
  shows "\<not> rw_closed w"
  using assms
  by (auto simp: writer_new_def write_metadata_def Let_def grows_def
      split: sum.splits prod.splits option.splits dest!: write_chunk_raw_grows)

section \<open>A sink that does not fail\<close>

text \<open>\<open>goes_on w r w'\<close>: the operation succeeded, the sink is still without faults, and only sink and
  position changed.\<close>

definition reliable :: "'t RecordWriter \<Rightarrow> bool" where
  "reliable w \<longleftrightarrow> out_faults (rw_writer w) = []"

definition goes_on :: "'t RecordWriter \<Rightarrow> unit res \<times> 't RecordWriter \<Rightarrow> bool" where
  "goes_on w rw \<longleftrightarrow> (\<exists>w'. rw = (Inr (), w') \<and> reliable w' \<and> same_frame w w')"

lemma goes_on_trans: "goes_on w (Inr u, w1) \<Longrightarrow> goes_on w1 rw \<Longrightarrow> goes_on w rw"
  using same_frame_trans by (fastforce simp: goes_on_def)

lemma goes_on_emit: "reliable w \<Longrightarrow> goes_on w (emit buf w)"
  using emit_writes [of buf w "fst (emit buf w)" "snd (emit buf w)"]
  by (cases "emit buf w") (simp add: goes_on_def reliable_def writes_def)

lemma goes_on_block_header: "reliable w \<Longrightarrow> goes_on w (emit_block_header hw cb ce w)"
  by (simp add: emit_block_header_def Let_def goes_on_emit)

lemma goes_on_refl: "reliable w \<Longrightarrow> goes_on w (Inr (), w)"
  by (simp add: goes_on_def same_frame_refl)

lemma goes_onE:
  assumes "goes_on w rw"
  obtains w' where "rw = (Inr (), w')" "reliable w'" "goes_on w (Inr (), w')"
  using assms by (auto simp: goes_on_def)

lemma goes_on_write_bytes:
  "reliable w \<Longrightarrow> goes_on w (write_bytes_with_block_headers hw bs offset cb ce w)"
proof (induction hw bs offset cb ce w rule: write_bytes_with_block_headers.induct)
  case (1 hw bs offset cb ce w)
  note step = write_bytes_with_block_headers.simps [of hw bs offset cb ce w]
  show ?case
  proof (cases "offset < length bs")
    case True
    have "goes_on w (if is_multiple_of (rw_file_pos w) BLOCK_SIZE then emit_block_header hw cb ce w else (Inr (), w))"
      using goes_on_block_header [OF "1.prems"] goes_on_refl [OF "1.prems"] by simp
    then obtain w1 where e1: "(if is_multiple_of (rw_file_pos w) BLOCK_SIZE then emit_block_header hw cb ce w else (Inr (), w)) = (Inr (), w1)"
      and r1: "reliable w1" "goes_on w (Inr (), w1)" by (rule goes_onE)
    define n where "n = min (length bs - offset) (unat BLOCK_SIZE - unat (rw_file_pos w1 mod BLOCK_SIZE))"
    obtain w2 where e2: "emit (slice offset (offset + n) bs) w1 = (Inr (), w2)"
      and r2: "reliable w2" "goes_on w1 (Inr (), w2)"
      using goes_onE [OF goes_on_emit [OF r1(1)]] by blast
    have "goes_on w2 (write_bytes_with_block_headers hw bs (offset + n) cb ce w2)"
      using "1.IH" [OF True e1 [symmetric] refl refl refl n_def e2 [symmetric] refl r2(1)] .
    then have "goes_on w (write_bytes_with_block_headers hw bs (offset + n) cb ce w2)"
      using goes_on_trans [OF r1(2) goes_on_trans [OF r2(2)]] by blast
    then show ?thesis using step True e1 e2 by (simp add: Let_def n_def)
  qed (use "1.prems" step goes_on_refl in simp)
qed

lemma goes_on_pad: "reliable w \<Longrightarrow> goes_on w (pad_to_chunk_end hw cb ce w)"
proof (induction hw cb ce w rule: pad_to_chunk_end.induct)
  case (1 hw cb ce w)
  note step = pad_to_chunk_end.simps [of hw cb ce w]
  consider "\<not> rw_file_pos w < ce" | "rw_file_pos w < ce" "is_multiple_of (rw_file_pos w) BLOCK_SIZE"
    | "rw_file_pos w < ce" "\<not> is_multiple_of (rw_file_pos w) BLOCK_SIZE" by blast
  then show ?case
  proof cases
    case 1
    with "1.prems" step goes_on_refl show ?thesis by simp
  next
    case 2
    obtain w1 where e1: "emit_block_header hw cb ce w = (Inr (), w1)" "reliable w1" "goes_on w (Inr (), w1)"
      using goes_onE [OF goes_on_block_header [OF "1.prems"]] by blast
    then show ?thesis using goes_on_trans [OF e1(3) "1.IH"(1) [OF 2 e1(1) [symmetric] refl e1(2)]] step 2 by simp
  next
    case 3
    define n where "n = unat (min (ce - rw_file_pos w) (BLOCK_SIZE - rw_file_pos w mod BLOCK_SIZE))"
    obtain w1 where e1: "emit (replicate n 0) w = (Inr (), w1)" "reliable w1" "goes_on w (Inr (), w1)"
      using goes_onE [OF goes_on_emit [OF "1.prems"]] by blast
    then show ?thesis
      using goes_on_trans [OF e1(3) "1.IH"(2) [OF 3 refl refl n_def e1(1) [symmetric] refl e1(2)]] step 3
      by (simp add: Let_def n_def)
  qed
qed

lemma goes_on_write_chunk_raw:
  assumes "reliable w"
  shows "goes_on (w\<lparr>rw_last_chunk_start := rw_file_pos w\<rparr>) (write_chunk_raw hw h d w)"
proof -
  let ?w0 = "w\<lparr>rw_last_chunk_start := rw_file_pos w\<rparr>"
    and ?ce = "chunk_end (rw_file_pos w) (ch_data_size h) (ch_num_records h)"
  have "reliable ?w0" using assms by (simp add: reliable_def)
  then obtain w1 where 1: "write_bytes_with_block_headers hw (chunk_to_bytes h @ d) 0 (rw_file_pos w) ?ce ?w0 = (Inr (), w1)"
    "reliable w1" "goes_on ?w0 (Inr (), w1)"
    using goes_onE [OF goes_on_write_bytes] by blast
  have "goes_on ?w0 (pad_to_chunk_end hw (rw_file_pos w) ?ce w1)"
    using goes_on_trans [OF 1(3) goes_on_pad [OF 1(2)]] .
  then show ?thesis using 1(1) by (simp add: write_chunk_raw_def Let_def then_do_def)
qed

text \<open>A compressor that always answers.\<close>

definition compressor_total :: "codec \<Rightarrow> CompressionType \<Rightarrow> CompressOptions \<Rightarrow> bool" where
  "compressor_total C ct opts \<longleftrightarrow> (\<forall>d. \<exists>z. compress_data C d ct opts = Inr z)"

lemma sc_encode_total:
  assumes "compressor_total C ct opts"
  shows "\<exists>c. sc_encode hw C \<lparr>enc_records = rs, enc_compression = ct, enc_compress_opts = opts\<rparr> = Inr c"
proof -
  obtain z1 z2 where "compress_data C (sizes_section rs) ct opts = Inr z1" "compress_data C (concat rs) ct opts = Inr z2"
    using assms unfolding compressor_total_def by blast
  then have "\<exists>d. sc_encode_data C \<lparr>enc_records = rs, enc_compression = ct, enc_compress_opts = opts\<rparr> = Inr d"
    by (cases ct) (auto simp: sc_encode_data_def compress_data_def encode_compressed_def Let_def split: if_splits)
  then show ?thesis by (auto simp: sc_encode_def Let_def)
qed

text \<open>
  A writer on such a sink whose encoders always answer: simple ones for all records, transposed ones
  for records of less than \<open>lim\<close> accounted bytes, which no pending chunk exceeds.
\<close>

definition answers :: "hasher \<Rightarrow> codec \<Rightarrow> 't transposer \<Rightarrow> nat \<Rightarrow> bool \<Rightarrow> 't ActiveEncoder \<Rightarrow> bool" where
  "answers hw C T lim transposed enc0 \<longleftrightarrow> (\<forall>rs. (transposed \<longrightarrow> rs \<noteq> [] \<and> accounted rs < lim) \<longrightarrow>
     (\<exists>e c. fill_encoder T enc0 rs = Some e \<and> encoder_encode hw C T e = Inr c))"

definition pending_fits :: "'t transposer \<Rightarrow> nat \<Rightarrow> bytes list \<Rightarrow> 't RecordWriter \<Rightarrow> bool" where
  "pending_fits T lim pend w \<longleftrightarrow> fill_encoder T (fresh_encoder T w) pend = Some (rw_encoder w) \<and>
     (rw_transpose w \<longrightarrow> unat (rw_accumulated_bytes w) = accounted pend \<and> unat (rw_pending_record_count w) = length pend \<and>
        accounted pend < lim)"

definition live :: "hasher \<Rightarrow> codec \<Rightarrow> 't transposer \<Rightarrow> nat \<Rightarrow> 't RecordWriter \<Rightarrow> bool" where
  "live hw C T lim w \<longleftrightarrow> reliable w \<and> rw_failed w = None \<and> rw_final_padding w = 0 \<and>
     answers hw C T lim (rw_transpose w) (fresh_encoder T w) \<and>
     (rw_transpose w \<longrightarrow> unat (rw_chunk_size w) < lim \<and> lim \<le> 2 ^ 62) \<and> (\<exists>pend. pending_fits T lim pend w)"

lemma answers_simple:
  assumes "compressor_total C ct opts"
  shows "answers hw C T lim False (make_encoder T False ct opts bucket)"
proof -
  have "\<exists>c. sc_encode hw C (sc_with_options ct opts\<lparr>enc_records := rs\<rparr>) = Inr c" for rs
    using sc_encode_total [OF assms, of hw rs] by (simp add: sc_with_options_def)
  then show ?thesis by (simp add: answers_def make_encoder_def fill_encoder_simple sc_with_options_def)
qed

lemma live_flush_chunk:
  assumes l: "live hw C T lim w" and pend: "pending_fits T lim pend w" "rw_transpose w \<Longrightarrow> pend \<noteq> []"
  shows "\<exists>w'. flush_chunk hw C T w = (Inr (), w') \<and> live hw C T lim w' \<and> pending_fits T lim [] w' \<and> same_options w w'"
proof -
  define w0 where "w0 = w\<lparr>rw_encoder := fresh_encoder T w, rw_accumulated_bytes := 0, rw_pending_record_count := 0\<rparr>"
  obtain c where c: "encoder_encode hw C T (rw_encoder w) = Inr c"
    using l pend unfolding live_def answers_def pending_fits_def by (metis option.inject)
  have "reliable w0" using l by (simp add: live_def w0_def reliable_def)
  then obtain w' where w': "write_chunk_raw hw (chunk_header c) (chunk_data c) w0 = (Inr (), w')" "reliable w'"
    "goes_on (w0\<lparr>rw_last_chunk_start := rw_file_pos w0\<rparr>) (Inr (), w')"
    using goes_onE [OF goes_on_write_chunk_raw] by blast
  have run: "flush_chunk hw C T w = (Inr (), w')"
    using c w'(1) by (simp add: flush_chunk_def Let_def w0_def)
  have "same_frame (w0\<lparr>rw_last_chunk_start := rw_file_pos w0\<rparr>) w'" using w'(3) by (simp add: goes_on_def)
  note frame = same_frameD [OF this]
  have "pending_fits T lim [] w'" "same_options w w'"
    using l pend(1) frame by (auto simp: live_def pending_fits_def w0_def same_options_def)
  moreover from this have "live hw C T lim w'" using l w'(2) frame by (auto simp: live_def w0_def)
  ultimately show ?thesis using run by blast
qed

lemma live_write_record:
  assumes l: "live hw C T lim w" and open_w: "\<not> rw_closed w" and data: "rw_transpose w \<Longrightarrow> length data + 8 < lim"
  shows "\<exists>w'. write_record hw C T data w = (Inr (), w') \<and> live hw C T lim w' \<and> same_options w w'"
proof -
  define added where "added = (of_nat (length data) + 8 :: u64)"
  define first where "first = (rw_chunk_size w < rw_accumulated_bytes w + added \<and> 0 < rw_accumulated_bytes w)"
  obtain pend where pend: "pending_fits T lim pend w" using l by (auto simp: live_def)
  have lim: "lim \<le> 2 ^ 62" "unat (rw_chunk_size w) < lim" "unat (rw_accumulated_bytes w) = accounted pend" "accounted pend < lim"
    if "rw_transpose w" using l pend that by (simp_all add: live_def pending_fits_def)
  have ua: "unat added = length data + 8" if "rw_transpose w"
    unfolding added_def using data [OF that] lim(1) [OF that] by (subst unat_add_u64) (simp_all add: unat_of_nat_u64)
  have sum: "unat (rw_accumulated_bytes w + added) = accounted pend + length data + 8" if "rw_transpose w"
    using lim [OF that] ua [OF that] data [OF that] by (subst unat_add_u64) simp_all
  obtain w1 pend1 where w1: "(if first then flush_chunk hw C T else ret ()) w = (Inr (), w1)" and l1: "live hw C T lim w1"
    and p1: "pending_fits T lim pend1 w1" and o1: "same_options w w1"
    and fit: "rw_transpose w \<Longrightarrow> accounted (pend1 @ [data]) < lim"
  proof (cases first)
    case True
    have "rw_transpose w \<Longrightarrow> pend \<noteq> []" using True lim(3) by (auto simp: first_def word_less_nat_alt)
    then obtain w1 where "flush_chunk hw C T w = (Inr (), w1)" "live hw C T lim w1" "pending_fits T lim [] w1" "same_options w w1"
      using live_flush_chunk [OF l pend] by blast
    then show thesis using that [of w1 "[]"] True data by simp
  next
    case False
    have "rw_transpose w \<Longrightarrow> accounted (pend @ [data]) < lim"
      using False lim data sum by (cases pend) (auto simp: first_def word_less_nat_alt)
    moreover have "(if first then flush_chunk hw C T else ret ()) w = (Inr (), w)" using False by (simp add: ret_def)
    ultimately show thesis using that [OF _ l pend same_options_refl] by blast
  qed
  have t1: "rw_transpose w1 = rw_transpose w" using o1 by (simp add: same_options_def)
  have "rw_transpose w1 \<longrightarrow> pend1 @ [data] \<noteq> [] \<and> accounted (pend1 @ [data]) < lim" using fit t1 by simp
  then obtain enc where e: "fill_encoder T (fresh_encoder T w1) (pend1 @ [data]) = Some enc"
    using l1 unfolding live_def answers_def by blast
  then have enc: "encoder_add_record T data (rw_encoder w1) = (Inr (), enc)"
    using p1 by (auto simp: fill_encoder_append pending_fits_def split: prod.splits sum.splits)
  define w2 where "w2 = w1\<lparr>rw_accumulated_bytes := rw_accumulated_bytes w1 + added,
      rw_pending_record_count := rw_pending_record_count w1 + 1, rw_encoder := enc\<rparr>"
  have o2: "same_options w1 w2" by (simp add: w2_def same_options_def)
  have p2: "pending_fits T lim (pend1 @ [data]) w2"
  proof -
    have "unat (rw_accumulated_bytes w1 + added) = accounted (pend1 @ [data]) \<and>
        unat (rw_pending_record_count w1 + 1) = length (pend1 @ [data])" if tr: "rw_transpose w1"
    proof -
      have "unat (rw_accumulated_bytes w1) = accounted pend1" "unat (rw_pending_record_count w1) = length pend1"
        using p1 tr by (simp_all add: pending_fits_def)
      moreover have "accounted pend1 + length data + 8 < 2 ^ 62" using fit tr t1 lim(1) by simp
      moreover from this have "length pend1 < 2 ^ 62" using accounted_length [of pend1] by linarith
      ultimately show ?thesis using ua tr t1 by (simp add: unat_add_u64)
    qed
    then show ?thesis using e fit t1 by (simp add: pending_fits_def w2_def)
  qed
  then have l2: "live hw C T lim w2" using l1 by (auto simp: live_def w2_def reliable_def)
  define last_step where "last_step = (if rw_chunk_size w2 < rw_accumulated_bytes w2 + 8 then flush_chunk hw C T w2 else (Inr (), w2))"
  obtain w' where w': "last_step = (Inr (), w')" "live hw C T lim w'" "same_options w2 w'"
  proof (cases "rw_chunk_size w2 < rw_accumulated_bytes w2 + 8")
    case True
    have "pend1 @ [data] \<noteq> []" by simp
    with live_flush_chunk [OF l2 p2] obtain w' where "flush_chunk hw C T w2 = (Inr (), w')" "live hw C T lim w'" "same_options w2 w'" by blast
    then show thesis using that True by (simp add: last_step_def)
  next
    case False
    then show thesis using that [OF _ l2 same_options_refl] by (simp add: last_step_def)
  qed
  have "write_record_impl hw C T data w = last_step"
    unfolding write_record_impl_def Let_def added_def [symmetric] first_def [symmetric]
    using w1 enc by (simp add: then_do_def last_step_def w2_def)
  then show ?thesis
    using w' l open_w same_options_trans [OF o1 same_options_trans [OF o2]] by (auto simp: write_record_Inr live_def)
qed

lemma live_flush_impl:
  assumes l: "live hw C T lim w"
  shows "\<exists>w'. flush_impl hw C T w = Some (Inr (), w') \<and> live hw C T lim w' \<and> same_options w w'"
proof -
  obtain pend where pend: "pending_fits T lim pend w" using l by (auto simp: live_def)
  obtain w1 where w1: "(if 0 < rw_pending_record_count w then flush_chunk hw C T w else (Inr (), w)) = (Inr (), w1)"
    and l1: "live hw C T lim w1" and o1: "same_options w w1"
  proof (cases "0 < rw_pending_record_count w")
    case True
    then have "rw_transpose w \<Longrightarrow> pend \<noteq> []" using pend by (auto simp: pending_fits_def word_less_nat_alt)
    then show thesis using live_flush_chunk [OF l pend] True that by auto
  qed (use l that same_options_refl in auto)
  let ?w2 = "w1\<lparr>rw_writer := (rw_writer w1)\<lparr>out_flushed := length (out_bytes (rw_writer w1))\<rparr>\<rparr>"
  have "writer_flush w1 = (Inr (), ?w2)"
    using l1 by (cases "rw_writer w1") (simp add: live_def reliable_def writer_flush_def sink_flush_def)
  moreover have "live hw C T lim ?w2" using l1 by (auto simp: live_def reliable_def pending_fits_def)
  moreover have "same_options w ?w2" using o1 by (simp add: same_options_def)
  moreover have "rw_final_padding w1 = 0" using l1 by (simp add: live_def)
  ultimately show ?thesis using w1 by (simp add: flush_impl_def)
qed

lemma live_step:
  assumes l: "live hw C T lim w" "\<not> rw_closed w" and data: "rw_transpose w \<Longrightarrow> \<forall>r \<in> set (op_records x). length r + 8 < lim"
  shows "\<exists>w'. writer_step hw C T x w = Some (Inr (), w') \<and> live hw C T lim w' \<and> same_options w w'"
proof (cases x)
  case Flush
  then show ?thesis using l live_flush_impl [OF l(1)] by (auto simp: live_def flush_Inr)
next
  case (WriteRecord r)
  then show ?thesis using live_write_record [OF l, of r] data by simp
qed

lemma live_run:
  "live hw C T lim w \<Longrightarrow> \<not> rw_closed w \<Longrightarrow> (rw_transpose w \<Longrightarrow> \<forall>r \<in> set (written xs). length r + 8 < lim) \<Longrightarrow>
   \<exists>w'. run_ops (writer_step hw C T) xs w = Some (replicate (length xs) (Inr ()), w') \<and> live hw C T lim w' \<and> \<not> rw_closed w'"
proof (induction xs arbitrary: w)
  case (Cons x xs)
  then obtain w1 where w1: "writer_step hw C T x w = Some (Inr (), w1)" "live hw C T lim w1" "same_options w w1"
    using live_step [OF Cons.prems(1,2), of x] by (auto simp: written_def)
  moreover from w1(3) have "\<not> rw_closed w1" "rw_transpose w1 = rw_transpose w" using Cons.prems by (simp_all add: same_options_def)
  moreover from this w1(2) Cons.IH [of w1] Cons.prems(3) obtain w' where
    "run_ops (writer_step hw C T) xs w1 = Some (replicate (length xs) (Inr ()), w')" "live hw C T lim w'" "\<not> rw_closed w'"
    by (auto simp: written_def)
  ultimately show ?case by simp
qed simp

lemma live_close:
  assumes l: "live hw C T lim w" "\<not> rw_closed w"
  shows "\<exists>s. close hw C T w = Some (Inr (), s)"
proof -
  have "live hw C T lim (w\<lparr>rw_closed := True\<rparr>)" using l by (auto simp: live_def reliable_def pending_fits_def)
  then obtain w' where w': "flush_impl hw C T (w\<lparr>rw_closed := True\<rparr>) = Some (Inr (), w')"
    using live_flush_impl by blast
  then have "rw_closed w'" using flush_impl_grows by (fastforce simp: grows_def)
  with w' l show ?thesis
    by (simp add: close_def flush_internal_def drop_writer_def check_not_failed_def Let_def live_def latch_failure_def)
qed

text \<open>The encoder with which a session starts every chunk.\<close>

definition session_encoder :: "'t transposer \<Rightarrow> WriterOptions \<Rightarrow> 't ActiveEncoder" where
  "session_encoder T o' = make_encoder T (wo_transpose o') (wo_compression o')
     \<lparr>opt_level = wo_compression_level o', opt_window_log = wo_window_log o'\<rparr>
     (transpose_bucket_size_of (wo_chunk_size o') (wo_bucket_fraction o'))"

lemma initial_options [simp]:
  "rw_compress_opts (initial_writer T o' s) = \<lparr>opt_level = wo_compression_level o', opt_window_log = wo_window_log o'\<rparr>"
  "rw_transpose_bucket_size (initial_writer T o' s) = transpose_bucket_size_of (wo_chunk_size o') (wo_bucket_fraction o')"
  "rw_encoder (initial_writer T o' s) = session_encoder T o'"
  by (simp_all add: initial_writer_def session_encoder_def Let_def)

lemma initial_chunk_size: "unat (rw_chunk_size (initial_writer T o' s)) = min (unat (wo_chunk_size o')) (8 * (2 ^ 56 - 1))"
  by (auto simp: initial_writer_def Let_def min_def word_le_nat_alt MAX_NUM_RECORDS_def mask_eq_exp_minus_1)

text \<open>The metadata is encoded as a transposed chunk of one record.\<close>

definition takes_metadata :: "'t transposer \<Rightarrow> WriterOptions \<Rightarrow> bool" where
  "takes_metadata T o' \<longleftrightarrow> (\<forall>m. wo_metadata o' = Some m \<longrightarrow> (\<exists>t c.
     tr_add_record T m (tr_compress_opts T \<lparr>opt_level = wo_compression_level o', opt_window_log = wo_window_log o'\<rparr>
       (tr_new T (wo_compression o'))) = (Inr (), t) \<and> tr_encode T t = Inr c))"

lemma live_initial:
  assumes "out_faults s = []" "wo_final_padding o' = 0" "answers hw C T lim (wo_transpose o') (session_encoder T o')"
    and "wo_transpose o' \<Longrightarrow> unat (wo_chunk_size o') < lim \<and> lim \<le> 2 ^ 62"
  shows "live hw C T lim (initial_writer T o' s)"
proof -
  have "pending_fits T lim [] (initial_writer T o' s)" 
    using assms(4) by (auto simp: pending_fits_def session_encoder_def intro: le_less_trans [OF le0])
  moreover have "wo_transpose o' \<longrightarrow> unat (rw_chunk_size (initial_writer T o' s)) < lim" using assms(4) by (auto simp: initial_chunk_size)
  ultimately show ?thesis using assms by (auto simp: live_def reliable_def session_encoder_def)
qed

lemma live_metadata:
  assumes l: "live hw C T lim (initial_writer T o' s)" and m: "takes_metadata T o'" "wo_metadata o' = Some m"
  shows "\<exists>w. write_metadata hw T m (initial_writer T o' s) = (Inr (), w) \<and> live hw C T lim w \<and> same_options (initial_writer T o' s) w"
proof -
  let ?w = "initial_writer T o' s"
  obtain t c where c: "tr_add_record T m (tr_compress_opts T (rw_compress_opts ?w) (tr_new T (rw_compression ?w))) = (Inr (), t)"
    "tr_encode T t = Inr c"
    using m by (auto simp: takes_metadata_def initial_writer_def Let_def)
  have "reliable ?w" using l by (simp add: live_def)
  then obtain w where w: "write_chunk_raw hw (chunk_from_parts hw (chunk_data c) FileMetadata 0 (of_nat (length m))) (chunk_data c) ?w =
      (Inr (), w)" "reliable w" "goes_on (?w\<lparr>rw_last_chunk_start := rw_file_pos ?w\<rparr>) (Inr (), w)"
    using goes_onE [OF goes_on_write_chunk_raw] by blast
  have "same_frame (?w\<lparr>rw_last_chunk_start := rw_file_pos ?w\<rparr>) w" using w(3) by (simp add: goes_on_def)
  note frame = same_frameD [OF this]
  have "write_metadata hw T m ?w = (Inr (), w)" using c w(1) by (simp add: write_metadata_def)
  moreover have "live hw C T lim w" using l w(2) frame by (auto simp: live_def pending_fits_def)
  ultimately show ?thesis using frame by (simp add: same_options_def)
qed

lemma live_new:
  assumes "out_faults s0 = []" "wo_final_padding o' = 0" "answers hw C T lim (wo_transpose o') (session_encoder T o')"
    and "wo_transpose o' \<Longrightarrow> unat (wo_chunk_size o') < lim \<and> lim \<le> 2 ^ 62"
    and "takes_metadata T o'" "validate_options o' = Inr ()"
  shows "\<exists>w s. writer_new hw C T s0 o' = Some (Inr w, s) \<and> live hw C T lim w \<and> \<not> rw_closed w \<and> rw_transpose w = wo_transpose o'"
proof -
  obtain s where s: "then_do (sink_write_all (block_to_bytes (block_from_parts hw 0 (BLOCK_HEADER_SIZE + CHUNK_HEADER_SIZE))))
             (\<lambda>_. sink_write_all (chunk_to_bytes (chunk_from_parts hw [] FileSignature 0 0))) s0 = (Inr (), s)"
    "out_faults s = []"
    using assms(1) by (simp add: then_do_def sink_write_all_def)
  note l = live_initial [OF s(2) assms(2-4)]
  show ?thesis
  proof (cases "wo_metadata o'")
    case None
    then show ?thesis using s l assms(6) by (auto simp: writer_new_def Let_def)
  next
    case (Some m)
    then show ?thesis using s live_metadata [OF l assms(5) Some] assms(6) by (auto simp: writer_new_def Let_def same_options_def)
  qed
qed

lemma live_session:
  assumes "out_faults s0 = []" "wo_final_padding o' = 0" "answers hw C T lim (wo_transpose o') (session_encoder T o')"
    and "wo_transpose o' \<Longrightarrow> unat (wo_chunk_size o') < lim \<and> lim \<le> 2 ^ 62 \<and> (\<forall>r \<in> set (written xs). length r + 8 < lim)"
    and "takes_metadata T o'" "validate_options o' = Inr ()"
  shows "\<exists>w0 s1 w1 s. writer_new hw C T s0 o' = Some (Inr w0, s1) \<and>
    run_ops (writer_step hw C T) xs w0 = Some (replicate (length xs) (Inr ()), w1) \<and>
    close hw C T w1 = Some (Inr (), s)"
proof -
  obtain w0 s1 where n: "writer_new hw C T s0 o' = Some (Inr w0, s1)" "live hw C T lim w0" "\<not> rw_closed w0"
    "rw_transpose w0 = wo_transpose o'"
    using live_new [OF assms(1-3) _ assms(5,6)] assms(4) by blast
  obtain w1 where r: "run_ops (writer_step hw C T) xs w0 = Some (replicate (length xs) (Inr ()), w1)"
    "live hw C T lim w1" "\<not> rw_closed w1"
    using live_run [OF n(2,3)] assms(4) n(4) by blast
  obtain s where "close hw C T w1 = Some (Inr (), s)" using live_close [OF r(2,3)] by blast
  with n r show ?thesis by blast
qed

text \<open>What a successful session leaves in the sink.\<close>

lemma session_image:
  assumes "writer_new hw C T s0 o' = Some (Inr w0, s1)" and "out_bytes s0 = []" and "wo_transpose o' \<longrightarrow> frames_chunks T"
    and "run_ops (writer_step hw C T) xs w0 = Some (rs, w1)" and "\<forall>r \<in> set rs. r = Inr ()"
    and "close hw C T w1 = Some (Inr (), s)"
    and "\<forall>r \<in> set (written xs). length r < 2 ^ 62" and "unat (wo_final_padding o') \<le> 2 ^ 45"
    and "length (out_bytes s) \<le> 2 ^ 63"
  shows "\<exists>cs groups. out_bytes s = file_image hw 0 (signature_chunk hw # cs) \<and>
    list_all2 (carries hw C T (session_encoder T o') (min (unat (wo_chunk_size o')) (8 * (2 ^ 56 - 1)))) cs groups \<and>
    concat groups = written xs \<and>
    (0 < wo_final_padding o' \<longrightarrow> unat (wo_final_padding o') dvd length (out_bytes s)) \<and>
    out_flushed s = length (out_bytes s)"
proof -
  have open0: "\<not> rw_closed w0" using assms(1) by (rule writer_new_open)
  have g1: "grows 0 w0 w1" using assms(4,5) by (rule run_writer_grows)
  then have open1: "\<not> rw_closed w1" using open0 by (simp add: grows_def)
  obtain w2 where w2: "flush_impl hw C T (w1\<lparr>rw_closed := True\<rparr>) = Some (Inr (), w2)" "s = rw_writer w2"
    using close_Inr [OF assms(6) open1] by blast
  have g2: "grows 0 (w1\<lparr>rw_closed := True\<rparr>) w2" using w2(1) by (rule flush_impl_grows)
  have small1: "length (out_bytes (rw_writer w1)) \<le> 2 ^ 63"
    using grows_small [OF g2] assms(9) w2(2) by simp
  have small0: "length (out_bytes (rw_writer w0)) \<le> 2 ^ 63" using grows_small [OF g1 small1] .
  note n = writer_new_session [OF assms(1-3) small0]
  obtain cs0 where s0: "session hw C T [] cs0 [] w0" using n(1) by blast
  have al0: "unat (rw_final_padding w0) \<le> 2 ^ 45"
    using n(2) assms(8) by (simp add: same_options_def initial_writer_def Let_def)
  obtain cs1 pend where s1: "session hw C T (written xs) cs1 pend w1" and o1: "same_options w0 w1"
    using run_writer_session [OF s0 open0 al0 assms(4,5,7) small1] by auto
  have "unat (rw_final_padding w1) \<le> 2 ^ 45" using al0 o1 by (simp add: same_options_def)
  from close_session [OF s1 open1 this assms(6,9)] obtain cs2 w3 where
    s3: "session hw C T (written xs) (cs1 @ cs2) [] w3" "same_options (w1\<lparr>rw_closed := True\<rparr>) w3" "rw_writer w3 = s"
    and pad: "0 < rw_final_padding w1 \<longrightarrow> unat (rw_final_padding w1) dvd length (out_bytes s)"
    and fl: "out_flushed s = length (out_bytes s)" by blast
  have o3: "same_options (initial_writer T o' s0) (w1\<lparr>rw_closed := False\<rparr>)"
    using same_options_trans [OF n(2) o1] open1 by (simp add: same_options_def)
  have opts: "fresh_encoder T w3 = session_encoder T o'" "rw_final_padding w1 = wo_final_padding o'"
    "unat (rw_chunk_size w3) = min (unat (wo_chunk_size o')) (8 * (2 ^ 56 - 1))"
    using o3 s3(2) unfolding initial_chunk_size [symmetric, of o' T s0] by (simp_all add: same_options_def session_encoder_def)
  obtain groups where "list_all2 (carries hw C T (fresh_encoder T w3) (unat (rw_chunk_size w3))) (cs1 @ cs2) groups"
    "concat groups = written xs" "out_bytes (rw_writer w3) = file_image hw 0 (signature_chunk hw # cs1 @ cs2)"
    using s3(1) by (auto simp: session_def session_core_def file_ok_def simp del: file_image.simps)
  then show ?thesis using s3(3) pad fl unfolding opts by blast
qed

lemma compressor_total_None: "compressor_total C None_Compression opts"
  by (simp add: compressor_total_def compress_data_def)

section \<open>Properties\<close>

text \<open>C38. The first error is final: whatever is called after an operation that failed, the sink is
  never touched again, so it keeps the prefix that was written.  Every later record is refused with
  the error that was latched, so are flushing and closing unless the writer was closed before, and
  neither closing nor dropping the writer writes to the sink.\<close>

theorem writer_failure_latches:
  assumes "writer_step hw C T x w = Some (Inl e, w1)" and "run_ops (writer_step hw C T) xs w1 = Some (rs, w2)"
  shows "rw_writer w2 = rw_writer w1 \<and>
    (\<forall>data. write_record hw C T data w2 =
      (Inl (if rw_closed w2 then WriterClosed else WriterFailed (the (rw_failed w2))), w2)) \<and>
    flush hw C T w2 = Some (if rw_closed w2 then Inr () else Inl (WriterFailed (the (rw_failed w2))), w2) \<and>
    close hw C T w2 = Some (if rw_closed w2 then Inr () else Inl (WriterFailed (the (rw_failed w2))), rw_writer w1) \<and>
    drop_writer hw C T w2 = Some (rw_writer w1)"
proof -
  have "writer_dead w1" using assms(1) by (rule writer_ops.error_kills)
  then have d: "writer_dead w2" and out: "rw_writer w2 = rw_writer w1" using writer_ops.dead_run assms(2) by blast+
  have "write_record hw C T data w2 = (Inl (if rw_closed w2 then WriterClosed else WriterFailed (the (rw_failed w2))), w2)" for data
    using d by (auto simp: write_record_def writer_dead_def then_do_def check_not_failed_def)
  moreover have "flush hw C T w2 = Some (if rw_closed w2 then Inr () else Inl (WriterFailed (the (rw_failed w2))), w2)"
    using d by (auto simp: flush_def writer_dead_def check_not_failed_def)
  moreover have "close hw C T w2 = Some (if rw_closed w2 then Inr () else Inl (WriterFailed (the (rw_failed w2))), rw_writer w1)"
    "drop_writer hw C T w2 = Some (rw_writer w1)"
    using d out by (auto simp: close_def drop_writer_def flush_internal_def Let_def writer_dead_def check_not_failed_def)
  ultimately show ?thesis using out by blast
qed

lemma writer_failure_latches_witness:
  "\<exists>w1. writer_step sample_hash store_codec null_transposer Flush
      (initial_writer null_transposer options_new (empty_sink\<lparr>out_faults := [Some (0, ''disk'')]\<rparr>)) = Some (Inl (IoError ''disk''), w1) \<and>
    write_record sample_hash store_codec null_transposer [1] w1 = (Inl (WriterFailed ''I/O error: disk''), w1) \<and>
    close sample_hash store_codec null_transposer w1 = Some (Inl (WriterFailed ''I/O error: disk''), empty_sink)"
proof -
  let ?w = "initial_writer null_transposer options_new (empty_sink\<lparr>out_faults := [Some (0, ''disk'')]\<rparr>)"
  let ?w1 = "?w\<lparr>rw_writer := empty_sink, rw_failed := Some ''I/O error: disk''\<rparr>"
  have s: "writer_step sample_hash store_codec null_transposer Flush ?w = Some (Inl (IoError ''disk''), ?w1)"
    by (simp add: flush_def flush_impl_def check_not_failed_def latch_failure_def writer_flush_def sink_flush_def
        empty_sink_def options_new_def)
  from writer_failure_latches [OF s, of "[]"] show ?thesis
    by (intro exI [of _ ?w1]) (use s in \<open>simp add: empty_sink_def\<close>)
qed

end
