(* ===== verification/Wire.thy ===== *)
theory Wire
  imports Varint
begin

text \<open>
  \<^verbatim>\<open>riegeli/src/proto/wire.rs\<close>: tags, the canonical varint readers, zigzag and the two validators of
  protobuf messages.  A message is accepted by \<open>is_proto_message\<close> exactly when it is a word of a
  small grammar, which is the reference definition here.
\<close>

section \<open>Tags\<close>

datatype WireType = WVarint | Fixed64 | LengthDelimited | StartGroup | EndGroup | Fixed32

fun wire_type_raw :: "WireType \<Rightarrow> u32" where
  "wire_type_raw WVarint = 0"
| "wire_type_raw Fixed64 = 1"
| "wire_type_raw LengthDelimited = 2"
| "wire_type_raw StartGroup = 3"
| "wire_type_raw EndGroup = 4"
| "wire_type_raw Fixed32 = 5"

definition from_raw :: "u32 \<Rightarrow> WireType option" where
  "from_raw value =
     (if value = 0 then Some WVarint
      else if value = 1 then Some Fixed64
      else if value = 2 then Some LengthDelimited
      else if value = 3 then Some StartGroup
      else if value = 4 then Some EndGroup
      else if value = 5 then Some Fixed32
      else None)"

definition make_tag :: "u32 \<Rightarrow> WireType \<Rightarrow> u32" where
  "make_tag field_number wire_type = push_bit 3 field_number OR wire_type_raw wire_type"

definition tag_wire_type :: "u32 \<Rightarrow> WireType option" where
  "tag_wire_type tag = from_raw (tag AND 7)"

definition tag_field_number :: "u32 \<Rightarrow> u32" where
  "tag_field_number tag = drop_bit 3 tag"

definition is_valid_proto_tag :: "u32 \<Rightarrow> bool" where
  "is_valid_proto_tag tag = (if tag < 8 then False else tag_wire_type tag \<noteq> None)"

section \<open>Canonical varints\<close>

definition MAX_VARINT32_LEN :: nat where "MAX_VARINT32_LEN = 5"

definition MAX_VARINT64_LEN :: nat where "MAX_VARINT64_LEN = 10"

text \<open>The loops at index \<open>i\<close>, over the bytes that are left.\<close>

fun canonical32_loop :: "nat \<Rightarrow> u32 \<Rightarrow> bytes \<Rightarrow> (u32 \<times> nat) option" where
  "canonical32_loop i result [] = None"
| "canonical32_loop i result (byte # bs) =
     (if i = MAX_VARINT32_LEN then None
      else let low7 = (ucast (byte AND 0x7f) :: u32)
      in if i = 4 \<and> 0x0f < low7 then None
      else let result' = result OR push_bit (7 * i) low7
      in if byte < 0x80
         then if 0 < i \<and> byte = 0 then None else Some (result', i + 1)
         else canonical32_loop (i + 1) result' bs)"

fun canonical64_loop :: "nat \<Rightarrow> u64 \<Rightarrow> bytes \<Rightarrow> (u64 \<times> nat) option" where
  "canonical64_loop i result [] = None"
| "canonical64_loop i result (byte # bs) =
     (if i = MAX_VARINT64_LEN then None
      else let low7 = (ucast (byte AND 0x7f) :: u64)
      in if i = 9 \<and> 1 < low7 then None
      else let result' = result OR push_bit (7 * i) low7
      in if byte < 0x80
         then if 0 < i \<and> byte = 0 then None else Some (result', i + 1)
         else canonical64_loop (i + 1) result' bs)"

fun skip64_loop :: "nat \<Rightarrow> bytes \<Rightarrow> nat option" where
  "skip64_loop i [] = None"
| "skip64_loop i (byte # bs) =
     (if i = MAX_VARINT64_LEN then None
      else if i = 9 \<and> 1 < byte AND 0x7f then None
      else if byte < 0x80
         then if 0 < i \<and> byte = 0 then None else Some (i + 1)
         else skip64_loop (i + 1) bs)"

text \<open>
  \<open>&data[pos..]\<close> panics for \<open>pos\<close> beyond the end in the two private readers; every caller stays
  within the buffer.  Here they answer \<open>None\<close> there, as the public reader does.
\<close>

definition read_canonical_varint32 :: "bytes \<Rightarrow> nat \<Rightarrow> (u32 \<times> nat) option" where
  "read_canonical_varint32 data pos = canonical32_loop 0 0 (drop pos data)"

definition skip_canonical_varint64 :: "bytes \<Rightarrow> nat \<Rightarrow> nat option" where
  "skip_canonical_varint64 data pos = skip64_loop 0 (drop pos data)"

definition read_canonical_varint64 :: "bytes \<Rightarrow> nat \<Rightarrow> (u64 \<times> nat) option" where
  "read_canonical_varint64 data pos =
     (if length data < pos then None else canonical64_loop 0 0 (drop pos data))"

definition encode_varint64 :: "bytes \<Rightarrow> u64 \<Rightarrow> bytes" where
  "encode_varint64 buf v = buf @ encode_u64 v"

definition encode_varint32 :: "bytes \<Rightarrow> u32 \<Rightarrow> bytes" where
  "encode_varint32 buf v = buf @ encode_u32 v"

definition encode_tag :: "bytes \<Rightarrow> u32 \<Rightarrow> WireType \<Rightarrow> bytes" where
  "encode_tag buf field_number wire_type = encode_varint32 buf (make_tag field_number wire_type)"

text \<open>Signed integers are words; \<open>>>\<close> on them is the arithmetic shift.\<close>

definition zigzag_encode_i32 :: "32 word \<Rightarrow> u32" where
  "zigzag_encode_i32 v = push_bit 1 v XOR signed_drop_bit 31 v"

definition zigzag_encode_i64 :: "64 word \<Rightarrow> u64" where
  "zigzag_encode_i64 v = push_bit 1 v XOR signed_drop_bit 63 v"

section \<open>The readers against the encoder\<close>

lemma u8_less_80: "b < 0x80 \<longleftrightarrow> b AND 0x80 = (0 :: u8)"
proof -
  have "bit b 7 \<longleftrightarrow> odd (unat b div 128)"
    using bit_unsigned_iff [of b 7, where 'a = nat] by (simp add: bit_iff_odd)
  moreover have "unat b div 128 < 2" using unsigned_less [of b, where 'a = nat] by simp
  then have "odd (unat b div 128) \<longleftrightarrow> unat b div 128 \<noteq> 0" by (auto simp: less_2_cases_iff)
  ultimately show ?thesis by (auto simp: u8_and_80 word_less_nat_alt)
qed

lemma decode_u64_loop_bounds: "decode_u64_loop i r s bs = Inr (v, k) \<Longrightarrow> i < k"
proof (induction bs arbitrary: i r s)
  case (Cons b bs)
  from Cons.prems Cons.IH [of "i + 1"] show ?case by (fastforce simp: Let_def split: if_splits)
qed simp

lemma decode_u32_loop_bounds: "decode_u32_loop i r s bs = Inr (v, k) \<Longrightarrow> i < k"
proof (induction bs arbitrary: i r s)
  case (Cons b bs)
  from Cons.prems Cons.IH [of "i + 1"] show ?case by (fastforce simp: Let_def split: if_splits)
qed simp

lemma nth_later: "i + 1 < k \<Longrightarrow> (b # bs) ! (k - 1 - i) = bs ! (k - 1 - (i + 1))"
  by (auto simp: nth_Cons')

lemma canonical64_loop_eq:
  "canonical64_loop i r bs = (case decode_u64_loop i r (7 * i) bs of Inl _ \<Rightarrow> None
     | Inr (v, k) \<Rightarrow> if 1 < k \<and> bs ! (k - 1 - i) = 0 then None else Some (v, k))"
proof (induction bs arbitrary: i r)
  case (Cons b bs)
  let ?r = "r OR push_bit (7 * i) (ucast (b AND 0x7f))"
  show ?case
  proof (cases "i = 10 \<or> i = 9 \<and> 1 < (ucast (b AND 0x7f) :: u64) \<or> b AND 0x80 = 0")
    case True
    then show ?thesis by (auto simp: MAX_VARINT64_LEN_def MAX_U64_VARINT_LEN_def Let_def u8_less_80)
  next
    case False
    then have "decode_u64_loop i r (7 * i) (b # bs) = decode_u64_loop (i + 1) ?r (7 * (i + 1)) bs"
      "canonical64_loop i r (b # bs) = canonical64_loop (i + 1) ?r bs"
      by (auto simp: MAX_VARINT64_LEN_def MAX_U64_VARINT_LEN_def Let_def u8_less_80 add.commute)
    moreover have "(b # bs) ! (k - 1 - i) = bs ! (k - 1 - (i + 1))"
      if "decode_u64_loop (i + 1) ?r (7 * (i + 1)) bs = Inr (v, k)" for v k
      using decode_u64_loop_bounds [OF that] by (rule nth_later)
    ultimately show ?thesis
      unfolding Cons.IH [of "i + 1" ?r] by (auto split: sum.split)
  qed
qed simp

lemma canonical32_loop_eq:
  "canonical32_loop i r bs = (case decode_u32_loop i r (7 * i) bs of Inl _ \<Rightarrow> None
     | Inr (v, k) \<Rightarrow> if 1 < k \<and> bs ! (k - 1 - i) = 0 then None else Some (v, k))"
proof (induction bs arbitrary: i r)
  case (Cons b bs)
  let ?r = "r OR push_bit (7 * i) (ucast (b AND 0x7f))"
  show ?case
  proof (cases "i = 5 \<or> i = 4 \<and> 0x0f < (ucast (b AND 0x7f) :: u32) \<or> b AND 0x80 = 0")
    case True
    then show ?thesis by (auto simp: MAX_VARINT32_LEN_def MAX_U32_VARINT_LEN_def Let_def u8_less_80)
  next
    case False
    then have "decode_u32_loop i r (7 * i) (b # bs) = decode_u32_loop (i + 1) ?r (7 * (i + 1)) bs"
      "canonical32_loop i r (b # bs) = canonical32_loop (i + 1) ?r bs"
      by (auto simp: MAX_VARINT32_LEN_def MAX_U32_VARINT_LEN_def Let_def u8_less_80 add.commute)
    moreover have "(b # bs) ! (k - 1 - i) = bs ! (k - 1 - (i + 1))"
      if "decode_u32_loop (i + 1) ?r (7 * (i + 1)) bs = Inr (v, k)" for v k
      using decode_u32_loop_bounds [OF that] by (rule nth_later)
    ultimately show ?thesis
      unfolding Cons.IH [of "i + 1" ?r] by (auto split: sum.split)
  qed
qed simp

lemma skip64_loop_eq: "skip64_loop i bs = map_option snd (canonical64_loop i r bs)"
proof (induction bs arbitrary: i r)
  case (Cons b bs)
  have "1 < (ucast (b AND 0x7f) :: u64) \<longleftrightarrow> 1 < b AND 0x7f"
    by (simp add: word_less_nat_alt unat_ucast_u8)
  then show ?case using Cons.IH [of "i + 1"] by (auto simp: Let_def)
qed simp

text \<open>A body is canonical when it is not padded: its last byte is not 0, unless it is the only one.\<close>

lemma encode_u64_nth_last: "1 < length (encode_u64 v) \<Longrightarrow> (encode_u64 v @ rest) ! (length (encode_u64 v) - 1) \<noteq> 0"
  using encode_u64_last [of v] by (simp add: nth_append last_conv_nth)

lemma canonical_span:
  assumes "varint_span bs = Some k" "\<not> (1 < k \<and> bs ! (k - 1) = 0)" "leb_val (take k bs) = unat v"
  shows "take k bs = encode_u64 v"
proof (rule encode_u64_canonical)
  have k: "1 \<le> k" "k \<le> length bs" using varint_span_bounds [OF assms(1)] by auto
  show "varint_span (take k bs) = Some (length (take k bs))"
    using varint_span_take [OF assms(1), of "[]"] k by simp
  have "take k bs \<noteq> []" "(take k bs) ! (k - 1) = bs ! (k - 1)" using k by (auto simp: Suc_le_eq)
  then show "length (take k bs) = 1 \<or> last (take k bs) \<noteq> 0" using assms(2) k by (auto simp: last_conv_nth min_def)
qed (rule assms(3))

lemma read_canonical64_iff:
  "canonical64_loop 0 0 bs = Some (v, k) \<longleftrightarrow> (\<exists>rest. bs = encode_u64 v @ rest) \<and> k = length (encode_u64 v)"
proof
  assume "canonical64_loop 0 0 bs = Some (v, k)"
  then have d: "decode_u64 bs = Inr (v, k)" "\<not> (1 < k \<and> bs ! (k - 1) = 0)"
    by (auto simp: canonical64_loop_eq decode_u64_def split: sum.splits if_splits)
  then have "take k bs = encode_u64 v" by (intro canonical_span) (simp_all add: decode_u64_Inr)
  moreover have "k \<le> length bs" using d varint_span_bounds [of bs k] by (auto simp: decode_u64_Inr)
  ultimately show "(\<exists>rest. bs = encode_u64 v @ rest) \<and> k = length (encode_u64 v)"
    by (metis append_take_drop_id length_take min.absorb2)
next
  assume "(\<exists>rest. bs = encode_u64 v @ rest) \<and> k = length (encode_u64 v)"
  then show "canonical64_loop 0 0 bs = Some (v, k)"
    using decode_u64_encode_u64 [of v] encode_u64_nth_last [of v] by (auto simp: canonical64_loop_eq decode_u64_def)
qed

lemma read_canonical32_iff:
  "canonical32_loop 0 0 bs = Some (v, k) \<longleftrightarrow> (\<exists>rest. bs = encode_u32 v @ rest) \<and> k = length (encode_u32 v)"
proof
  assume "canonical32_loop 0 0 bs = Some (v, k)"
  then have d: "decode_u32 bs = Inr (v, k)" "\<not> (1 < k \<and> bs ! (k - 1) = 0)"
    by (auto simp: canonical32_loop_eq decode_u32_def split: sum.splits if_splits)
  then have "take k bs = encode_u64 (ucast v)"
    by (intro canonical_span) (simp_all add: decode_u32_Inr unat_ucast_u32)
  moreover have "k \<le> length bs" using d varint_span_bounds [of bs k] by (auto simp: decode_u32_Inr)
  ultimately show "(\<exists>rest. bs = encode_u32 v @ rest) \<and> k = length (encode_u32 v)"
    unfolding encode_u32_def by (metis append_take_drop_id length_take min.absorb2)
next
  assume "(\<exists>rest. bs = encode_u32 v @ rest) \<and> k = length (encode_u32 v)"
  then show "canonical32_loop 0 0 bs = Some (v, k)"
    using decode_u32_encode_u32 [of v] encode_u64_nth_last [of "ucast v"]
    by (auto simp: canonical32_loop_eq decode_u32_def encode_u32_def)
qed

interpretation canonical64: prefix_code encode_u64 "canonical64_loop 0 0"
proof unfold_locales
  show "canonical64_loop 0 0 (encode_u64 v @ rest) = Some (v, length (encode_u64 v))" for v rest
    by (simp add: read_canonical64_iff)
  show "1 \<le> k \<and> k \<le> length bs" if "canonical64_loop 0 0 bs = Some (v, k)" for bs v k
    using that by (auto simp: read_canonical64_iff Suc_le_eq)
  show "canonical64_loop 0 0 (take k bs @ rest) = Some (v, k)" if "canonical64_loop 0 0 bs = Some (v, k)" for bs v k rest
    using that by (auto simp: read_canonical64_iff)
qed

interpretation canonical32: prefix_code encode_u32 "canonical32_loop 0 0"
proof unfold_locales
  show "canonical32_loop 0 0 (encode_u32 v @ rest) = Some (v, length (encode_u32 v))" for v rest
    by (simp add: read_canonical32_iff)
  show "1 \<le> k \<and> k \<le> length bs" if "canonical32_loop 0 0 bs = Some (v, k)" for bs v k
    using that by (auto simp: read_canonical32_iff Suc_le_eq encode_u32_def)
  show "canonical32_loop 0 0 (take k bs @ rest) = Some (v, k)" if "canonical32_loop 0 0 bs = Some (v, k)" for bs v k rest
    using that by (auto simp: read_canonical32_iff)
qed


section \<open>Tag lemmas\<close>

lemma wire_type_raw_less: "unat (wire_type_raw w) < 8"
  by (cases w) simp_all

lemma from_raw_wire_type [simp]: "from_raw (wire_type_raw w) = Some w"
  by (cases w) (simp_all add: from_raw_def)

lemma from_raw_Some: "from_raw x = Some w \<Longrightarrow> wire_type_raw w = x"
  by (auto simp: from_raw_def split: if_splits)

lemma and_7: "(x :: u32) AND 7 = take_bit 3 x"
  by (simp add: take_bit_eq_mask mask_eq_exp_minus_1)

lemma take_bit_wire_type: "take_bit 3 (wire_type_raw w) = wire_type_raw w"
  by (cases w) (simp_all add: take_bit_eq_mask mask_eq_exp_minus_1)

lemma tag_of_make_tag [simp]: "tag_wire_type (make_tag f w) = Some w"
proof -
  have "take_bit 3 (make_tag f w) = take_bit 3 (wire_type_raw w)"
    by (rule bit_eqI) (auto simp: make_tag_def bit_simps)
  then show ?thesis by (simp add: tag_wire_type_def and_7 take_bit_wire_type)
qed

lemma field_of_make_tag:
  assumes "unat f < 2 ^ 29"
  shows "tag_field_number (make_tag f w) = f"
proof -
  have f: "bit f n \<longrightarrow> n < 29" for n
  proof -
    have "take_bit 29 f = f" using assms
      by (intro word_eq_unatI) (simp add: unsigned_take_bit_eq take_bit_nat_eq_self)
    then show ?thesis by (metis bit_take_bit_iff)
  qed
  have w: "bit (wire_type_raw w) n \<longrightarrow> n < 3" for n
    using take_bit_wire_type [of w] by (metis bit_take_bit_iff)
  show ?thesis unfolding tag_field_number_def make_tag_def
  proof (rule bit_eqI)
    fix n
    show "bit (drop_bit 3 (push_bit 3 f OR wire_type_raw w)) n = bit f n"
      using w [of "n + 3"] f [of n] by (auto simp: bit_simps add.commute)
  qed
qed

lemma tag_parts:
  assumes "tag_wire_type tag = Some w"
  shows "tag = make_tag (tag_field_number tag) w" "unat (tag_field_number tag) < 2 ^ 29"
proof -
  have w: "wire_type_raw w = take_bit 3 tag" using assms by (simp add: tag_wire_type_def and_7 from_raw_Some)
  show "tag = make_tag (tag_field_number tag) w"
    unfolding make_tag_def tag_field_number_def w by (rule bit_eqI) (auto simp: bit_simps)
  have "unat tag < 2 ^ 32" using unsigned_less [of tag, where 'a = nat] by simp
  moreover have "unat (drop_bit 3 tag) = unat tag div 8"
    unfolding unat_drop_bit_eq by (simp add: drop_bit_eq_div)
  ultimately show "unat (tag_field_number tag) < 2 ^ 29" by (simp add: tag_field_number_def)
qed

lemma field_number_zero: "tag_wire_type tag \<noteq> None \<Longrightarrow> tag_field_number tag = 0 \<longleftrightarrow> tag < 8"
proof -
  have "unat (tag_field_number tag) = unat tag div 8"
    unfolding tag_field_number_def unat_drop_bit_eq by (simp add: drop_bit_eq_div)
  then show ?thesis by (auto simp: word_less_nat_alt word_unat_eq_iff)
qed

section \<open>Zigzag\<close>

lemma signed_drop_sign:
  "signed_drop_bit (LENGTH('a) - Suc 0) (v :: 'a::len word) = (if sint v < 0 then - 1 else 0)"
proof (rule bit_word_eqI)
  fix n assume "n < LENGTH('a)"
  then show "bit (signed_drop_bit (LENGTH('a) - Suc 0) v) n = bit (if sint v < 0 then - 1 else 0 :: 'a word) n"
    by (cases n) (auto simp: bit_signed_drop_bit_iff simp flip: bit_last_iff)
qed

text \<open>The interleaving \<open>0, -1, 1, -2, 2, ...\<close> of the integers.\<close>

definition zigzag :: "int \<Rightarrow> int" where
  "zigzag s = (if 0 \<le> s then 2 * s else - 2 * s - 1)"

lemma zigzag_word:
  "uint (push_bit 1 v XOR signed_drop_bit (LENGTH('a) - Suc 0) v) = zigzag (sint (v :: 'a::len word))"
proof -
  have "push_bit 1 v XOR signed_drop_bit (LENGTH('a) - Suc 0) v = of_int (zigzag (sint v))"
    by (simp add: signed_drop_sign zigzag_def push_bit_eq_mult not_eq_complement algebra_simps)
  moreover have "0 \<le> zigzag (sint v)" "zigzag (sint v) < 2 ^ LENGTH('a)"
    using sint_greater_eq [of v] sint_less [of v] power_Suc [of "2::int" "LENGTH('a) - Suc 0"]
    by (auto simp: zigzag_def)
  ultimately show ?thesis by (simp add: uint_word_of_int_eq take_bit_int_eq_self)
qed

lemma zigzag_inj: "zigzag s = zigzag t \<longleftrightarrow> s = t"
  by (auto simp: zigzag_def) presburger+


section \<open>The validators\<close>

text \<open>
  The loop of \<open>is_proto_message\<close>; the open groups are a list, the innermost first.  Positions are
  at most \<open>data.len()\<close>, so \<open>pos + 4\<close> cannot wrap, and on 64 bits \<open>checked_add\<close> only fails where the
  comparison with the length fails, too.
\<close>

function proto_message_loop :: "bytes \<Rightarrow> nat \<Rightarrow> u32 list \<Rightarrow> bool" where
  "proto_message_loop data pos groups =
     (if pos < length data then
        case read_canonical_varint32 data pos of
          None \<Rightarrow> False
        | Some (tag, consumed) \<Rightarrow>
            let pos = pos + consumed;
                field_number = tag_field_number tag
            in if field_number = 0 then False
               else case tag_wire_type tag of
                 None \<Rightarrow> False
               | Some WVarint \<Rightarrow>
                   (case skip_canonical_varint64 data pos of
                      Some n \<Rightarrow> proto_message_loop data (pos + n) groups
                    | None \<Rightarrow> False)
               | Some Fixed32 \<Rightarrow>
                   if length data < pos + 4 then False else proto_message_loop data (pos + 4) groups
               | Some Fixed64 \<Rightarrow>
                   if length data < pos + 8 then False else proto_message_loop data (pos + 8) groups
               | Some LengthDelimited \<Rightarrow>
                   (case read_canonical_varint32 data pos of
                      None \<Rightarrow> False
                    | Some (len, consumed) \<Rightarrow>
                        let pos = pos + consumed
                        in if pos + unat len \<le> length data then proto_message_loop data (pos + unat len) groups
                           else False)
               | Some StartGroup \<Rightarrow> proto_message_loop data pos (field_number # groups)
               | Some EndGroup \<Rightarrow>
                   if groups = [] \<or> hd groups \<noteq> field_number then False
                   else proto_message_loop data pos (tl groups)
      else groups = [])"
  by pat_completeness auto

lemma read_canonical_varint32_pos: "read_canonical_varint32 data pos = Some (v, k) \<Longrightarrow> 1 \<le> k"
  using canonical32.dec_bounds by (fastforce simp: read_canonical_varint32_def)

termination proto_message_loop
  by (relation "measure (\<lambda>(data, pos, groups). length data - pos)")
     (auto dest: read_canonical_varint32_pos)

declare proto_message_loop.simps [simp del]

definition is_proto_message :: "bytes \<Rightarrow> bool" where
  "is_proto_message data = proto_message_loop data 0 []"

text \<open>\<open>is_parseable_proto_message\<close>: any varint encoding is taken.\<close>

function parseable_loop :: "bytes \<Rightarrow> nat \<Rightarrow> u32 list \<Rightarrow> bool" where
  "parseable_loop data pos groups =
     (if pos < length data then
        case decode_u64 (drop pos data) of
          Inl _ \<Rightarrow> False
        | Inr (tag, consumed) \<Rightarrow>
            if ucast (- 1 :: u32) < tag then False
            else
            let tag = (ucast tag :: u32);
                pos = pos + consumed;
                field_number = tag_field_number tag
            in if field_number = 0 then False
               else case tag_wire_type tag of
                 None \<Rightarrow> False
               | Some WVarint \<Rightarrow>
                   (case decode_u64 (drop pos data) of
                      Inr (_, consumed) \<Rightarrow> parseable_loop data (pos + consumed) groups
                    | Inl _ \<Rightarrow> False)
               | Some Fixed32 \<Rightarrow>
                   if length data - pos < 4 then False else parseable_loop data (pos + 4) groups
               | Some Fixed64 \<Rightarrow>
                   if length data - pos < 8 then False else parseable_loop data (pos + 8) groups
               | Some LengthDelimited \<Rightarrow>
                   (case decode_u64 (drop pos data) of
                      Inl _ \<Rightarrow> False
                    | Inr (len, consumed) \<Rightarrow>
                        let pos = pos + consumed
                        in if of_nat (length data - pos) < len then False
                           else parseable_loop data (pos + unat len) groups)
               | Some StartGroup \<Rightarrow> parseable_loop data pos (field_number # groups)
               | Some EndGroup \<Rightarrow>
                   if groups = [] \<or> hd groups \<noteq> field_number then False
                   else parseable_loop data pos (tl groups)
      else groups = [])"
  by pat_completeness auto

lemma decode_u64_pos: "decode_u64 bs = Inr (v, k) \<Longrightarrow> 1 \<le> k \<and> k \<le> length bs"
  using varint_span_bounds [of bs k] by (auto simp: decode_u64_Inr)

termination parseable_loop
  by (relation "measure (\<lambda>(data, pos, groups). length data - pos)") (auto dest: decode_u64_pos)

declare parseable_loop.simps [simp del]

definition is_parseable_proto_message :: "bytes \<Rightarrow> bool" where
  "is_parseable_proto_message data = parseable_loop data 0 []"

section \<open>The grammar\<close>

text \<open>
  Messages as words: \<open>tags\<close> and \<open>lens\<close> are the accepted encodings of a tag and of a number.  The
  canonical grammar takes one encoding each, the permissive one every encoding that decodes.
\<close>

inductive fields :: "(u32 \<Rightarrow> bytes \<Rightarrow> bool) \<Rightarrow> (u64 \<Rightarrow> bytes \<Rightarrow> bool) \<Rightarrow> nat \<Rightarrow> bytes \<Rightarrow> bool"
  for tags nums bound where
  "fields tags nums bound []"
| "f \<noteq> 0 \<Longrightarrow> unat f < 2 ^ 29 \<Longrightarrow> tags (make_tag f WVarint) t \<Longrightarrow> nums v n \<Longrightarrow> fields tags nums bound bs \<Longrightarrow>
   fields tags nums bound (t @ n @ bs)"
| "f \<noteq> 0 \<Longrightarrow> unat f < 2 ^ 29 \<Longrightarrow> tags (make_tag f Fixed32) t \<Longrightarrow> length d = 4 \<Longrightarrow> fields tags nums bound bs \<Longrightarrow>
   fields tags nums bound (t @ d @ bs)"
| "f \<noteq> 0 \<Longrightarrow> unat f < 2 ^ 29 \<Longrightarrow> tags (make_tag f Fixed64) t \<Longrightarrow> length d = 8 \<Longrightarrow> fields tags nums bound bs \<Longrightarrow>
   fields tags nums bound (t @ d @ bs)"
| "f \<noteq> 0 \<Longrightarrow> unat f < 2 ^ 29 \<Longrightarrow> tags (make_tag f LengthDelimited) t \<Longrightarrow> nums v n \<Longrightarrow> unat v < bound \<Longrightarrow>
   length d = unat v \<Longrightarrow> fields tags nums bound bs \<Longrightarrow> fields tags nums bound (t @ n @ d @ bs)"
| "f \<noteq> 0 \<Longrightarrow> unat f < 2 ^ 29 \<Longrightarrow> tags (make_tag f StartGroup) s \<Longrightarrow> tags (make_tag f EndGroup) e \<Longrightarrow>
   fields tags nums bound body \<Longrightarrow> fields tags nums bound bs \<Longrightarrow>
   fields tags nums bound (s @ body @ e @ bs)"

definition canonical_message :: "bytes \<Rightarrow> bool" where
  "canonical_message = fields (\<lambda>tag bs. bs = encode_u32 tag) (\<lambda>v bs. bs = encode_u64 v) (2 ^ 32)"

definition permissive_message :: "bytes \<Rightarrow> bool" where
  "permissive_message =
     fields (\<lambda>tag bs. decode_u64 bs = Inr (ucast tag, length bs)) (\<lambda>v bs. decode_u64 bs = Inr (v, length bs)) (2 ^ 64)"


text \<open>The bytes that are left while the groups \<open>gs\<close> are open, the innermost first.\<close>

fun closes :: "(u32 \<Rightarrow> bytes \<Rightarrow> bool) \<Rightarrow> (u64 \<Rightarrow> bytes \<Rightarrow> bool) \<Rightarrow> nat \<Rightarrow> u32 list \<Rightarrow> bytes \<Rightarrow> bool" where
  "closes tags nums bound [] bs = fields tags nums bound bs"
| "closes tags nums bound (f # gs) bs =
     (\<exists>b e r. bs = b @ e @ r \<and> fields tags nums bound b \<and> tags (make_tag f EndGroup) e \<and> closes tags nums bound gs r)"

text \<open>The validators' loop over the remaining bytes, with its readers.\<close>

function reader_loop ::
  "(bytes \<Rightarrow> (u32 \<times> nat) option) \<Rightarrow> (bytes \<Rightarrow> nat option) \<Rightarrow> (bytes \<Rightarrow> (u64 \<times> nat) option) \<Rightarrow> u32 list \<Rightarrow> bytes \<Rightarrow> bool" where
  "reader_loop rd_tag rd_num rd_len gs bs =
     (if bs = [] then gs = []
      else case rd_tag bs of
        None \<Rightarrow> False
      | Some (tag, k) \<Rightarrow>
          if k = 0 \<or> tag_field_number tag = 0 then False
          else case tag_wire_type tag of
            None \<Rightarrow> False
          | Some WVarint \<Rightarrow>
              (case rd_num (drop k bs) of None \<Rightarrow> False
               | Some n \<Rightarrow> reader_loop rd_tag rd_num rd_len gs (drop (k + n) bs))
          | Some Fixed32 \<Rightarrow> k + 4 \<le> length bs \<and> reader_loop rd_tag rd_num rd_len gs (drop (k + 4) bs)
          | Some Fixed64 \<Rightarrow> k + 8 \<le> length bs \<and> reader_loop rd_tag rd_num rd_len gs (drop (k + 8) bs)
          | Some LengthDelimited \<Rightarrow>
              (case rd_len (drop k bs) of None \<Rightarrow> False
               | Some (v, n) \<Rightarrow> k + n + unat v \<le> length bs \<and>
                   reader_loop rd_tag rd_num rd_len gs (drop (k + n + unat v) bs))
          | Some StartGroup \<Rightarrow> reader_loop rd_tag rd_num rd_len (tag_field_number tag # gs) (drop k bs)
          | Some EndGroup \<Rightarrow>
              gs \<noteq> [] \<and> hd gs = tag_field_number tag \<and> reader_loop rd_tag rd_num rd_len (tl gs) (drop k bs))"
  by pat_completeness auto

termination reader_loop
  by (relation "measure (\<lambda>(t, n, l, gs, bs). length bs)") auto

declare reader_loop.simps [simp del]

lemma if_reject: "(if b then False else c) \<longleftrightarrow> \<not> b \<and> c"
  by simp

locale wire_codec =
  fixes tags :: "u32 \<Rightarrow> bytes \<Rightarrow> bool" and nums :: "u64 \<Rightarrow> bytes \<Rightarrow> bool" and bound :: nat
    and rd_tag :: "bytes \<Rightarrow> (u32 \<times> nat) option" and rd_num :: "bytes \<Rightarrow> nat option"
    and rd_len :: "bytes \<Rightarrow> (u64 \<times> nat) option"
  assumes rd_tag: "rd_tag bs = Some (tag, k) \<longleftrightarrow> 0 < k \<and> k \<le> length bs \<and> tags tag (take k bs)"
    and rd_num: "rd_num bs = Some k \<longleftrightarrow> k \<le> length bs \<and> (\<exists>v. nums v (take k bs))"
    and rd_len: "rd_len bs = Some (v, k) \<longleftrightarrow> k \<le> length bs \<and> nums v (take k bs) \<and> unat v < bound"
    and tags_ne: "\<not> tags tag []"
begin

abbreviation "ok \<equiv> fields tags nums bound"
abbreviation "loop \<equiv> reader_loop rd_tag rd_num rd_len"

lemma read_tag: "tags tag t \<Longrightarrow> rd_tag (t @ r) = Some (tag, length t)"
  using tags_ne by (cases t) (auto simp: rd_tag)

lemma read_num: "nums v n \<Longrightarrow> rd_num (n @ r) = Some (length n)"
  by (auto simp: rd_num)

lemma read_len: "nums v n \<Longrightarrow> unat v < bound \<Longrightarrow> rd_len (n @ r) = Some (v, length n)"
  by (simp add: rd_len)

lemma tags_neD: "tags tag t \<Longrightarrow> t \<noteq> []"
  using tags_ne by auto

text \<open>The loop passes a complete sequence of fields.\<close>

lemma loop_fields: "ok b \<Longrightarrow> loop gs r \<Longrightarrow> loop gs (b @ r)"
proof (induction arbitrary: gs r rule: fields.induct)
  case (2 f t v n bs)
  then show ?case by (subst reader_loop.simps) (simp add: read_tag read_num tags_neD field_of_make_tag)
next
  case (3 f t d bs)
  then show ?case by (subst reader_loop.simps) (simp add: read_tag tags_neD field_of_make_tag)
next
  case (4 f t d bs)
  then show ?case by (subst reader_loop.simps) (simp add: read_tag tags_neD field_of_make_tag)
next
  case (5 f t v n d bs)
  then show ?case by (subst reader_loop.simps) (simp add: read_tag read_len tags_neD field_of_make_tag)
next
  case (6 f s e body bs)
  have "loop (f # gs) (e @ bs @ r)"
    using 6 by (subst reader_loop.simps) (simp add: read_tag tags_neD field_of_make_tag)
  then have "loop (f # gs) (body @ e @ bs @ r)" by (rule "6.IH"(1))
  with 6 show ?case by (subst reader_loop.simps) (simp add: read_tag tags_neD field_of_make_tag)
qed simp

lemma closes_field: "(\<And>bs. ok bs \<Longrightarrow> ok (x @ bs)) \<Longrightarrow> closes tags nums bound gs r \<Longrightarrow> closes tags nums bound gs (x @ r)"
  by (cases gs) (auto, metis append.assoc)

lemma closes_start:
  assumes "closes tags nums bound (f # gs) r" "f \<noteq> 0" "unat f < 2 ^ 29" "tags (make_tag f StartGroup) s"
  shows "closes tags nums bound gs (s @ r)"
proof -
  obtain b e q where r: "r = b @ e @ q" "ok b" "tags (make_tag f EndGroup) e" "closes tags nums bound gs q"
    using assms(1) by auto
  have "ok (s @ b @ e @ bs)" if "ok bs" for bs using assms r that by (intro fields.intros)
  then have "closes tags nums bound gs ((s @ b @ e) @ q)" using r(4) by (intro closes_field) auto
  then show ?thesis by (simp add: r(1))
qed

lemma loop_closes: "loop gs bs \<Longrightarrow> closes tags nums bound gs bs"
proof (induction "length bs" arbitrary: gs bs rule: less_induct)
  case less
  note IH = less.hyps
  show ?case
  proof (cases "bs = []")
    case True
    with less.prems show ?thesis by (subst (asm) reader_loop.simps) (simp add: fields.intros)
  next
    case False
    note go = less.prems [unfolded reader_loop.simps [of rd_tag rd_num rd_len gs bs] if_reject]
    obtain tag k where t0: "rd_tag bs = Some (tag, k)" using go False by (cases "rd_tag bs") auto
    with go False have "tag_field_number tag \<noteq> 0" by simp
    moreover obtain w where "tag_wire_type tag = Some w" using go False t0 by (cases "tag_wire_type tag") auto
    ultimately have t: "rd_tag bs = Some (tag, k)" "tag_field_number tag \<noteq> 0" "tag_wire_type tag = Some w"
      using t0 by simp_all
    define f where "f = tag_field_number tag"
    have f: "f \<noteq> 0" "unat f < 2 ^ 29" "tag = make_tag f w" using t tag_parts [of tag w] by (simp_all add: f_def)
    have k: "0 < k" "k \<le> length bs" "tags (make_tag f w) (take k bs)" using t(1) f by (simp_all add: rd_tag)
    define r where "r = drop k bs"
    have r: "bs = take k bs @ r" "length r < length bs" "k + length r = length bs" using k by (auto simp: r_def)
    have dr: "drop (k + n) bs = drop n r" for n by (simp add: r_def add.commute)
    show ?thesis
    proof (cases w)
      case WVarint
      with go False t k obtain n where n: "rd_num r = Some n" "loop gs (drop n r)"
        by (auto simp: dr r_def [symmetric] split: option.splits)
      then obtain v where v: "n \<le> length r" "nums v (take n r)" by (auto simp: rd_num)
      have "closes tags nums bound gs (drop n r)" using n(2) r by (intro IH) auto
      then have "closes tags nums bound gs ((take k bs @ take n r) @ drop n r)"
        using f k v WVarint by (intro closes_field) (auto intro: fields.intros)
      with r(1) show ?thesis by simp
    next
      case Fixed32
      with go False t k have n: "4 \<le> length r" "loop gs (drop 4 r)" using r(3) by (auto simp: dr r_def [symmetric])
      have "closes tags nums bound gs (drop 4 r)" using n(2) r by (intro IH) auto
      then have "closes tags nums bound gs ((take k bs @ take 4 r) @ drop 4 r)"
        using f k n Fixed32 by (intro closes_field) (auto intro: fields.intros)
      with r(1) show ?thesis by simp
    next
      case Fixed64
      with go False t k have n: "8 \<le> length r" "loop gs (drop 8 r)" using r(3) by (auto simp: dr r_def [symmetric])
      have "closes tags nums bound gs (drop 8 r)" using n(2) r by (intro IH) auto
      then have "closes tags nums bound gs ((take k bs @ take 8 r) @ drop 8 r)"
        using f k n Fixed64 by (intro closes_field) (auto intro: fields.intros)
      with r(1) show ?thesis by simp
    next
      case LengthDelimited
      with go False t k r(3) obtain v n where n: "rd_len r = Some (v, n)" "n + unat v \<le> length r" "loop gs (drop (n + unat v) r)"
        by (auto simp: dr add.assoc r_def [symmetric] split: option.splits prod.splits)
      then have v: "n \<le> length r" "nums v (take n r)" "unat v < bound" by (auto simp: rd_len)
      have "closes tags nums bound gs (drop (n + unat v) r)" using n(3) r by (intro IH) auto
      moreover have "ok (take k bs @ take n r @ take (unat v) (drop n r) @ bs')" if "ok bs'" for bs'
        using f k v n LengthDelimited that by (intro fields.intros) auto
      ultimately have "closes tags nums bound gs ((take k bs @ take n r @ take (unat v) (drop n r)) @ drop (n + unat v) r)"
        by (intro closes_field) auto
      moreover have "take (unat v) (drop n r) @ drop (n + unat v) r = drop n r"
        by (metis add.commute append_take_drop_id drop_drop)
      ultimately show ?thesis using r(1) by (metis append.assoc append_take_drop_id)
    next
      case StartGroup
      with go False t k have "loop (f # gs) r" by (auto simp: r_def f_def)
      then have "closes tags nums bound (f # gs) r" using r by (intro IH) auto
      then have "closes tags nums bound gs (take k bs @ r)" using f k StartGroup by (intro closes_start) auto
      with r(1) show ?thesis by simp
    next
      case EndGroup
      with go False t k obtain gs' where gs: "gs = f # gs'" "loop gs' r" by (cases gs) (auto simp: r_def f_def)
      then have "closes tags nums bound gs' r" using r by (intro IH) auto
      moreover have "bs = [] @ take k bs @ r" "ok []" using r(1) fields.intros(1) by simp_all
      ultimately show ?thesis using k(3) unfolding gs(1) closes.simps EndGroup by blast
    qed
  qed
qed

lemma loop_iff: "loop [] bs \<longleftrightarrow> ok bs"
  using loop_closes [of "[]" bs] loop_fields [of bs "[]" "[]"]
  by (auto simp: reader_loop.simps [of _ _ _ _ "[]"])

end


subsection \<open>The two formats\<close>

abbreviation "canonical_length bs \<equiv> map_option (\<lambda>(v, k). (ucast (v :: u32) :: u64, k :: nat)) (canonical32_loop 0 0 bs)"

abbreviation "permissive_tag bs \<equiv>
  (case decode_u64 bs of Inl _ \<Rightarrow> None | Inr (v, k) \<Rightarrow> if ucast (- 1 :: u32) < v then None else Some (ucast v :: u32, k))"

lemma encoded_prefix: "(\<exists>rest. bs = e @ rest) \<and> k = length e \<longleftrightarrow> k \<le> length bs \<and> take k bs = e"
  by (auto simp: min_def) (metis append_take_drop_id)

lemma canonical32_take: "canonical32_loop 0 0 bs = Some (v, k) \<longleftrightarrow> k \<le> length bs \<and> take k bs = encode_u32 v"
  by (simp only: read_canonical32_iff encoded_prefix)

lemma canonical64_take: "canonical64_loop 0 0 bs = Some (v, k) \<longleftrightarrow> k \<le> length bs \<and> take k bs = encode_u64 v"
  by (simp only: read_canonical64_iff encoded_prefix)

lemma encode_u32_ne [simp]: "encode_u32 v \<noteq> []"
  by (simp add: encode_u32_def)

lemma ucast_u32_u64: "unat (v :: u64) < 2 ^ 32 \<Longrightarrow> ucast (ucast v :: u32) = v"
  by (intro word_eq_unatI) (simp add: unsigned_ucast_eq unsigned_take_bit_eq take_bit_nat_eq_self)

lemma ucast_u64_u32 [simp]: "ucast (ucast (v :: u32) :: u64) = v"
  using unsigned_less [of v, where 'a = nat]
  by (intro word_eq_unatI) (simp add: unsigned_ucast_eq unsigned_take_bit_eq take_bit_nat_eq_self)

interpretation canonical_wire: wire_codec "\<lambda>tag bs. bs = encode_u32 tag" "\<lambda>v bs. bs = encode_u64 v" "2 ^ 32"
  "canonical32_loop 0 0" "skip64_loop 0" "\<lambda>bs. canonical_length bs"
proof unfold_locales
  show "(canonical32_loop 0 0 bs = Some (tag, k)) = (0 < k \<and> k \<le> length bs \<and> take k bs = encode_u32 tag)" for bs tag k
    by (cases k) (simp_all add: canonical32_take encode_u32_ne [symmetric])
  show "(skip64_loop 0 bs = Some k) = (k \<le> length bs \<and> (\<exists>v. take k bs = encode_u64 v))" for bs k
    unfolding skip64_loop_eq [of 0 bs 0] by (auto simp: canonical64_take)
  show "(canonical_length bs = Some (v, k)) = (k \<le> length bs \<and> take k bs = encode_u64 v \<and> unat v < 2 ^ 32)" for bs v k
    using ucast_u32_u64 [of v] unsigned_less [where 'a = nat and 'b = 32]
    by (auto simp: canonical32_take encode_u32_def unat_ucast_u32 intro!: exI [of _ "ucast v"])
qed (simp add: encode_u32_ne [symmetric])

lemma permissive_bound: "\<not> ucast (- 1 :: u32) < (v :: u64) \<longleftrightarrow> unat v < 2 ^ 32"
  unfolding word_less_nat_alt unat_ucast_u32 unsigned_minus_1_eq_mask by (auto simp: mask_eq_exp_minus_1)

lemma permissive_small [simp]: "\<not> ucast (- 1 :: u32) < (ucast (tag :: u32) :: u64)"
  using unsigned_less [of tag, where 'a = nat] by (simp add: permissive_bound unat_ucast_u32)

interpretation permissive_wire: wire_codec "\<lambda>tag bs. decode_u64 bs = Inr (ucast tag, length bs)"
  "\<lambda>v bs. decode_u64 bs = Inr (v, length bs)" "2 ^ 64"
  "\<lambda>bs. permissive_tag bs" "\<lambda>bs. map_option snd (ok_option (decode_u64 bs))" "\<lambda>bs. ok_option (decode_u64 bs)"
proof unfold_locales
  have cut: "decode_u64 bs = Inr (v, k) \<longleftrightarrow> 0 < k \<and> k \<le> length bs \<and> decode_u64 (take k bs) = Inr (v, length (take k bs))" for bs v k
    using varint64.dec_cut [of bs v k "[]"] varint64.dec_cut [of "take k bs" v k "drop k bs"] decode_u64_pos [of bs v k]
      decode_u64_pos [of "take k bs" v "length (take k bs)"]
    by (auto simp: min_def Suc_le_eq)
  show "(permissive_tag bs = Some (tag, k)) = (0 < k \<and> k \<le> length bs \<and> decode_u64 (take k bs) = Inr (ucast tag, length (take k bs)))"
    for bs tag k
  proof -
    have "(permissive_tag bs = Some (tag, k)) = (decode_u64 bs = Inr (ucast tag, k))"
      using ucast_u32_u64 permissive_small [of tag]
      by (auto simp: permissive_bound split: sum.splits if_splits)
    then show ?thesis unfolding cut [of bs] .
  qed
  show "(map_option snd (ok_option (decode_u64 bs)) = Some k) = (k \<le> length bs \<and> (\<exists>v. decode_u64 (take k bs) = Inr (v, length (take k bs))))"
    for bs k using cut [of bs _ k] by (cases k) (auto simp: decode_u64_Inr)
  show "(ok_option (decode_u64 bs) = Some (v, k)) = (k \<le> length bs \<and> decode_u64 (take k bs) = Inr (v, length (take k bs)) \<and> unat v < 2 ^ 64)"
    for bs v k using cut [of bs v k] by (cases k) (auto simp: decode_u64_Inr)
qed (simp add: decode_u64_Inr)

lemma proto_message_loop_eq:
  "pos \<le> length data \<Longrightarrow> proto_message_loop data pos gs =
   reader_loop (canonical32_loop 0 0) (skip64_loop 0) (\<lambda>bs. canonical_length bs) gs (drop pos data)"
proof (induction "length data - pos" arbitrary: pos gs rule: less_induct)
  case less
  let ?loop = "reader_loop (canonical32_loop 0 0) (skip64_loop 0) (\<lambda>bs. canonical_length bs)"
  note unf = proto_message_loop.simps [of data pos gs]
    reader_loop.simps [of "canonical32_loop 0 0" "skip64_loop 0" "\<lambda>bs. canonical_length bs" gs "drop pos data"]
  show ?case
  proof (cases "pos < length data \<and> canonical32_loop 0 0 (drop pos data) \<noteq> None")
    case False
    with less.prems show ?thesis unfolding unf
      by (cases "pos < length data"; cases "canonical32_loop 0 0 (drop pos data)") (simp_all add: read_canonical_varint32_def)
  next
    case True
    then obtain tag k where t: "canonical32_loop 0 0 (drop pos data) = Some (tag, k)" by auto
    have k: "1 \<le> k" "pos + k \<le> length data" using canonical32.dec_bounds [OF t] True by auto
    have IH: "proto_message_loop data (pos + k + j) gs' = ?loop gs' (drop (pos + k + j) data)"
      if "pos + k + j \<le> length data" for j gs'
      using that k by (intro less.hyps) auto
    note IH0 = IH [of 0, simplified]
    have d: "drop i (drop pos data) = drop (pos + i) data" for i by (simp add: add.commute)
    note step = unf [unfolded read_canonical_varint32_def skip_canonical_varint64_def t d if_reject]
    show ?thesis
    proof (cases "tag_field_number tag = 0")
      case True
      then show ?thesis unfolding step using \<open>pos < length data \<and> _\<close> by simp
    next
      case f: False
      show ?thesis
      proof (cases "tag_wire_type tag")
        case None
        then show ?thesis unfolding step using True f k by simp
      next
        case (Some w)
        then show ?thesis
        proof (cases w)
          case WVarint
          show ?thesis
          proof (cases "skip64_loop 0 (drop (pos + k) data)")
            case (Some n)
            with k have "pos + k + n \<le> length data" by (auto simp: canonical_wire.rd_num)
            with IH [of n] Some show ?thesis unfolding step using True f k \<open>tag_wire_type tag = Some w\<close> WVarint
              by (simp add: add.assoc)
          qed (use True f k \<open>tag_wire_type tag = Some w\<close> WVarint in \<open>simp add: step\<close>)
        next
          case Fixed32
          then show ?thesis unfolding step using True f k Some IH [of 4] by (auto simp: Let_def add.assoc)
        next
          case Fixed64
          then show ?thesis unfolding step using True f k Some IH [of 8] by (auto simp: Let_def add.assoc)
        next
          case LengthDelimited
          show ?thesis
          proof (cases "canonical32_loop 0 0 (drop (pos + k) data)")
            case (Some vn)
            then obtain v n where vn: "canonical32_loop 0 0 (drop (pos + k) data) = Some (v, n)" by (cases vn) auto
            with k have "pos + k + n \<le> length data" using canonical32.dec_bounds [OF vn] by auto
            with IH [of "n + unat v"] vn show ?thesis
              unfolding step using True f k \<open>tag_wire_type tag = Some w\<close> LengthDelimited
              by (auto simp: add.assoc Let_def unat_ucast_u32)
          qed (use True f k \<open>tag_wire_type tag = Some w\<close> LengthDelimited in \<open>simp add: step\<close>)
        next
          case StartGroup
          then show ?thesis unfolding step using True f k Some IH0 by (simp add: Let_def)
        next
          case EndGroup
          then show ?thesis unfolding step using True f k Some IH0 by (auto simp: Let_def)
        qed
      qed
    qed
  qed
qed


lemma decode_u64_drop: "decode_u64 (drop p data) = Inr (v, n) \<Longrightarrow> p \<le> length data \<Longrightarrow> 1 \<le> n \<and> p + n \<le> length data"
  using decode_u64_pos [of "drop p data" v n] by auto

lemma parseable_loop_eq:
  assumes "length data < 2 ^ 64"
  shows "pos \<le> length data \<Longrightarrow> parseable_loop data pos gs =
   reader_loop (\<lambda>bs. permissive_tag bs) (\<lambda>bs. map_option snd (ok_option (decode_u64 bs)))
     (\<lambda>bs. ok_option (decode_u64 bs)) gs (drop pos data)"
proof (induction "length data - pos" arbitrary: pos gs rule: less_induct)
  case less
  let ?loop = "reader_loop (\<lambda>bs. permissive_tag bs) (\<lambda>bs. map_option snd (ok_option (decode_u64 bs)))
     (\<lambda>bs. ok_option (decode_u64 bs))"
  note unf = parseable_loop.simps [of data pos gs]
    reader_loop.simps [of "\<lambda>bs. permissive_tag bs" "\<lambda>bs. map_option snd (ok_option (decode_u64 bs))"
      "\<lambda>bs. ok_option (decode_u64 bs)" gs "drop pos data"]
  show ?case
  proof (cases "pos < length data \<and> permissive_tag (drop pos data) \<noteq> None")
    case False
    with less.prems show ?thesis unfolding unf
      by (cases "pos < length data"; cases "decode_u64 (drop pos data)") (auto split: if_splits)
  next
    case True
    then obtain tag k where t: "permissive_tag (drop pos data) = Some (tag, k)" by auto
    then obtain tg where tg: "decode_u64 (drop pos data) = Inr (tg, k)" "\<not> ucast (- 1 :: u32) < tg" "ucast tg = tag"
      by (auto split: sum.splits if_splits)
    have k: "1 \<le> k" "pos + k \<le> length data" using decode_u64_drop [OF tg(1)] True by simp_all
    have IH: "parseable_loop data (pos + k + j) gs' = ?loop gs' (drop (pos + k + j) data)"
      if "pos + k + j \<le> length data" for j gs'
      using that k by (intro less.hyps) auto
    note IH0 = IH [of 0, simplified]
    have d: "drop i (drop pos data) = drop (pos + i) data" for i by (simp add: add.commute)
    note step = unf [unfolded d if_reject]
    have w64: "of_nat (length data - p) < (v :: u64) \<longleftrightarrow> length data - p < unat v" for p v
      using assms by (simp add: word_less_nat_alt unat_of_nat_u64)
    show ?thesis
    proof (cases "tag_field_number tag = 0 \<or> tag_wire_type tag = None")
      case True
      then show ?thesis unfolding step using \<open>pos < length data \<and> _\<close> tg k by auto
    next
      case False
      then obtain w where f: "tag_field_number tag \<noteq> 0" "tag_wire_type tag = Some w" by auto
      show ?thesis
      proof (cases w)
        case WVarint
        show ?thesis
        proof (cases "decode_u64 (drop (pos + k) data)")
          case (Inr vn)
          then obtain v n where vn: "decode_u64 (drop (pos + k) data) = Inr (v, n)" by (cases vn) auto
          with k have "pos + k + n \<le> length data" using decode_u64_drop [OF vn] by simp
          with IH [of n] vn show ?thesis unfolding step using True f k tg WVarint by (simp add: add.assoc)
        qed (use True f k tg WVarint in \<open>simp add: step\<close>)
      next
        case Fixed32
        then show ?thesis unfolding step using True f k tg IH [of 4] by (auto simp: Let_def add.assoc not_less)
      next
        case Fixed64
        then show ?thesis unfolding step using True f k tg IH [of 8] by (auto simp: Let_def add.assoc not_less)
      next
        case LengthDelimited
        show ?thesis
        proof (cases "decode_u64 (drop (pos + k) data)")
          case (Inr vn)
          then obtain v n where vn: "decode_u64 (drop (pos + k) data) = Inr (v, n)" by (cases vn) auto
          with k have "pos + k + n \<le> length data" using decode_u64_drop [OF vn] by simp
          with IH [of "n + unat v"] vn show ?thesis unfolding step using True f k tg LengthDelimited
            by (auto simp: add.assoc Let_def w64 not_less)
        qed (use True f k tg LengthDelimited in \<open>simp add: step\<close>)
      next
        case StartGroup
        then show ?thesis unfolding step using True f k tg IH0 by (simp add: Let_def)
      next
        case EndGroup
        then show ?thesis unfolding step using True f k tg IH0 by (auto simp: Let_def)
      qed
    qed
  qed
qed

lemma is_proto_message_grammar: "is_proto_message data \<longleftrightarrow> canonical_message data"
  using canonical_wire.loop_iff [of data] by (simp add: is_proto_message_def canonical_message_def proto_message_loop_eq)

lemma is_parseable_grammar: "length data < 2 ^ 64 \<Longrightarrow> is_parseable_proto_message data \<longleftrightarrow> permissive_message data"
  using permissive_wire.loop_iff [of data]
  by (simp add: is_parseable_proto_message_def permissive_message_def parseable_loop_eq)

lemma canonical_permissive: "canonical_message bs \<Longrightarrow> permissive_message bs"
  unfolding canonical_message_def
proof (induction rule: fields.induct)
  case 1
  show ?case unfolding permissive_message_def by (rule fields.intros)
qed (auto simp: permissive_message_def encode_u32_def decode_u64_encode_u64 [where rest = "[]", simplified]
  intro: fields.intros order.strict_trans)


section \<open>Properties\<close>

text \<open>The canonical readers accept exactly the encoder's output: they return a value when the
  buffer continues with the encoding of that value, with its length, and the skipping reader moves
  over exactly the groups that the 64-bit reader returns.\<close>

theorem canonical_readers_exact:
  assumes "pos \<le> length data"
  shows "(read_canonical_varint64 data pos = Some (v, k) \<longleftrightarrow>
      k = length (encode_u64 v) \<and> (\<exists>rest. data = take pos data @ encode_varint64 [] v @ rest))
    \<and> (read_canonical_varint32 data pos = Some (w, k) \<longleftrightarrow>
      k = length (encode_u32 w) \<and> (\<exists>rest. data = take pos data @ encode_varint32 [] w @ rest))
    \<and> skip_canonical_varint64 data pos = map_option snd (read_canonical_varint64 data pos)"
proof -
  have "data = take pos data @ e @ rest \<longleftrightarrow> drop pos data = e @ rest" for e rest
    using assms by (metis append_take_drop_id same_append_eq)
  then show ?thesis
    using assms skip64_loop_eq [of 0 "drop pos data" 0]
    by (auto simp: read_canonical_varint64_def read_canonical_varint32_def skip_canonical_varint64_def
        read_canonical64_iff read_canonical32_iff encode_varint64_def encode_varint32_def)
qed

lemma canonical_readers_exact_witness:
  "read_canonical_varint64 [7, 0xac, 0x02, 9] 1 = Some (300, 2) \<and>
   (\<exists>rest. [7, 0xac, 0x02, 9] = take 1 [7, 0xac, 0x02, 9] @ encode_varint64 [] 300 @ rest)"
proof -
  have "read_canonical_varint64 [7, 0xac, 0x02, 9] 1 = Some (300, 2)" by code_simp
  with canonical_readers_exact [of 1 "[7, 0xac, 0x02, 9]" 300 2] show ?thesis by simp
qed

text \<open>C39. The validator of canonical messages accepts exactly the words of the grammar: sequences
  of fields with a nonzero field number, shortest encodings of tags, numbers and lengths, payloads
  of the announced size, and groups that are closed by the tag that belongs to them.\<close>

theorem is_proto_message_exact:
  "is_proto_message data \<longleftrightarrow> canonical_message data"
  by (rule is_proto_message_grammar)

text \<open>C40. The permissive validator accepts exactly the words of the same grammar in which every
  encoding that the decoder of 64-bit numbers reads is allowed, so it accepts all canonical ones.\<close>

theorem is_parseable_exact:
  assumes "length data < 2 ^ 64"
  shows "(is_parseable_proto_message data \<longleftrightarrow> permissive_message data) \<and>
    (is_proto_message data \<longrightarrow> is_parseable_proto_message data)"
  using assms canonical_permissive by (simp add: is_parseable_grammar is_proto_message_grammar)

lemma is_parseable_exact_witness:
  "is_parseable_proto_message [0x08, 0x81, 0x00] \<and> \<not> is_proto_message [0x08, 0x81, 0x00] \<and>
   permissive_message [0x08, 0x81, 0x00]"
proof -
  have "is_parseable_proto_message [0x08, 0x81, 0x00]" "\<not> is_proto_message [0x08, 0x81, 0x00]" by code_simp+
  with is_parseable_exact [of "[0x08, 0x81, 0x00]"] show ?thesis by simp
qed

text \<open>Tags: composing a tag and taking it apart are inverse to each other for 29-bit field
  numbers, the valid tags are the composed ones with a nonzero number, and an encoded tag is read
  back.\<close>

theorem tag_roundtrip:
  assumes "unat f < 2 ^ 29"
  shows "tag_field_number (make_tag f w) = f \<and> tag_wire_type (make_tag f w) = Some w \<and>
    (is_valid_proto_tag (make_tag f w) \<longleftrightarrow> f \<noteq> 0) \<and>
    (is_valid_proto_tag tag \<longrightarrow> (\<exists>g u. g \<noteq> 0 \<and> unat g < 2 ^ 29 \<and> tag = make_tag g u)) \<and>
    read_canonical_varint32 (encode_tag [] f w @ rest) 0 = Some (make_tag f w, length (encode_tag [] f w))"
proof -
  have valid: "is_valid_proto_tag t \<longleftrightarrow> tag_wire_type t \<noteq> None \<and> tag_field_number t \<noteq> 0" for t
    using field_number_zero [of t] by (cases "tag_wire_type t") (simp_all add: is_valid_proto_tag_def)
  moreover have "\<exists>g u. g \<noteq> 0 \<and> unat g < 2 ^ 29 \<and> tag = make_tag g u" if v: "is_valid_proto_tag tag"
  proof -
    obtain u where u: "tag_wire_type tag = Some u" using v valid [of tag] by auto
    from tag_parts [OF u] v valid [of tag] show ?thesis by blast
  qed
  ultimately show ?thesis
    using field_of_make_tag [OF assms, of w] canonical32.dec_enc [of "make_tag f w" rest]
    by (simp add: encode_tag_def encode_varint32_def read_canonical_varint32_def)
qed

lemma tag_roundtrip_witness:
  "tag_field_number (make_tag 5 Fixed32) = 5 \<and> is_valid_proto_tag (make_tag 5 Fixed32)"
  using tag_roundtrip [of 5 Fixed32 0 "[]"] by simp

text \<open>The zigzag encodings interleave the signed values as documented, so they lose nothing
  and keep small magnitudes small.\<close>

theorem zigzag_interleaves:
  "uint (zigzag_encode_i32 v) = zigzag (sint v) \<and> uint (zigzag_encode_i64 x) = zigzag (sint x) \<and>
   (zigzag_encode_i32 v = zigzag_encode_i32 v' \<longleftrightarrow> v = v') \<and> (zigzag_encode_i64 x = zigzag_encode_i64 x' \<longleftrightarrow> x = x')"
proof -
  have 32: "uint (zigzag_encode_i32 u) = zigzag (sint u)" for u
    using zigzag_word [of u] by (simp add: zigzag_encode_i32_def)
  have 64: "uint (zigzag_encode_i64 u) = zigzag (sint u)" for u
    using zigzag_word [of u] by (simp add: zigzag_encode_i64_def)
  have "zigzag_encode_i32 v = zigzag_encode_i32 v' \<longleftrightarrow> v = v'"
    by (metis 32 zigzag_inj signed_word_eqI)
  moreover have "zigzag_encode_i64 x = zigzag_encode_i64 x' \<longleftrightarrow> x = x'"
    by (metis 64 zigzag_inj signed_word_eqI)
  ultimately show ?thesis using 32 64 by blast
qed

end
