(* ===== verification/Source.thy ===== *)
theory Source
  imports Errors
begin

text \<open>
  The byte source \<open>R: Read + Seek\<close> of the reader: its present content, the position, and a script of
  what the environment does at each call.  A call may read less than was asked for, be interrupted,
  fail, or find that another process has changed the file.  An empty script is a quiet file.
\<close>

datatype io_event =
    Io_Normal
  | Io_Short nat
  | Io_Interrupted
  | Io_Error string
  | Io_Becomes bytes

record source =
  src_bytes :: bytes
  src_pos :: nat
  src_events :: "io_event list"

definition next_event :: "source \<Rightarrow> io_event \<times> source" where
  "next_event s = (case src_events s of [] \<Rightarrow> (Io_Normal, s) | e # es \<Rightarrow> (e, s\<lparr>src_events := es\<rparr>))"

text \<open>\<open>seek(SeekFrom::Start(p))\<close> and \<open>seek(SeekFrom::End(0))\<close>.\<close>

definition src_seek :: "u64 \<Rightarrow> (source, unit) action" where
  "src_seek p s =
     (case next_event s of
        (Io_Error msg, s) \<Rightarrow> (Inl (IoError msg), s)
      | (Io_Becomes bs, s) \<Rightarrow> (Inr (), s\<lparr>src_bytes := bs, src_pos := unat p\<rparr>)
      | (_, s) \<Rightarrow> (Inr (), s\<lparr>src_pos := unat p\<rparr>))"

definition src_seek_end :: "(source, u64) action" where
  "src_seek_end s =
     (case next_event s of
        (Io_Error msg, s) \<Rightarrow> (Inl (IoError msg), s)
      | (Io_Becomes bs, s) \<Rightarrow> (Inr (of_nat (length bs)), s\<lparr>src_bytes := bs, src_pos := length bs\<rparr>)
      | (_, s) \<Rightarrow> (Inr (of_nat (length (src_bytes s))), s\<lparr>src_pos := length (src_bytes s)\<rparr>))"

text \<open>
  One call of \<open>read\<close> with a buffer of \<open>n\<close> bytes.  The error \<open>None\<close> is \<open>ErrorKind::Interrupted\<close>; a
  short read has at least one byte when one is there.
\<close>

definition src_take :: "nat \<Rightarrow> source \<Rightarrow> (string option + bytes) \<times> source" where
  "src_take n s =
     (let bs = take n (drop (src_pos s) (src_bytes s)) in (Inr bs, s\<lparr>src_pos := src_pos s + length bs\<rparr>))"

definition src_read :: "nat \<Rightarrow> source \<Rightarrow> (string option + bytes) \<times> source" where
  "src_read n s =
     (case next_event s of
        (Io_Normal, s) \<Rightarrow> src_take n s
      | (Io_Short k, s) \<Rightarrow> src_take (min n (Suc k)) s
      | (Io_Interrupted, s) \<Rightarrow> (Inl None, s)
      | (Io_Error msg, s) \<Rightarrow> (Inl (Some msg), s)
      | (Io_Becomes bs, s) \<Rightarrow> src_take n (s\<lparr>src_bytes := bs\<rparr>))"

text \<open>\<open>read_full\<close>: reads until the buffer is full or the stream ends.\<close>

function read_full_loop :: "nat \<Rightarrow> bytes \<Rightarrow> (source, bytes) action" where
  "read_full_loop n filled s =
     (if length filled < n then
        case src_read (n - length filled) s of
          (Inr bs, s) \<Rightarrow> if bs = [] then (Inr filled, s) else read_full_loop n (filled @ bs) s
        | (Inl None, s) \<Rightarrow> read_full_loop n filled s
        | (Inl (Some msg), s) \<Rightarrow> (Inl (IoError msg), s)
      else (Inr filled, s))"
  by pat_completeness auto

lemma src_read_Interrupted: "src_read n s = (Inl None, s') \<Longrightarrow> length (src_events s') < length (src_events s)"
  by (auto simp: src_read_def next_event_def src_take_def Let_def split: list.splits io_event.splits)

lemma src_read_events: "src_read n s = (r, s') \<Longrightarrow> length (src_events s') \<le> length (src_events s)"
  by (auto simp: src_read_def next_event_def src_take_def Let_def split: list.splits io_event.splits)

termination read_full_loop
  by (relation "measures [\<lambda>(n, filled, s). n - length filled, \<lambda>(n, filled, s). length (src_events s)]")
     (auto dest: src_read_Interrupted [OF sym] simp flip: length_greater_0_conv)

declare read_full_loop.simps [simp del]

definition src_read_full :: "nat \<Rightarrow> (source, bytes) action" where
  "src_read_full n = read_full_loop n []"

text \<open>\<open>Read::read_exact\<close> of the standard library: the same loop, but the end of the stream is an error.\<close>

definition src_read_exact :: "nat \<Rightarrow> (source, bytes) action" where
  "src_read_exact n =
     then_do (src_read_full n) (\<lambda>bs. if length bs < n then fail_with (IoError ''failed to fill whole buffer'') else ret bs)"

section \<open>Quiet sources\<close>

text \<open>
  A source is calm when nothing fails and the content stays as it is; short and interrupted reads
  may still happen.  Then the reading functions return what is there.
\<close>

fun benign :: "io_event \<Rightarrow> bool" where
  "benign Io_Normal = True" | "benign (Io_Short k) = True" | "benign Io_Interrupted = True"
| "benign (Io_Error msg) = False" | "benign (Io_Becomes bs) = False"

definition calm :: "source \<Rightarrow> bool" where
  "calm s \<longleftrightarrow> list_all benign (src_events s)"

definition same_file :: "source \<Rightarrow> source \<Rightarrow> bool" where
  "same_file s s' \<longleftrightarrow> calm s' \<and> src_bytes s' = src_bytes s"

lemma same_file_refl: "calm s \<Longrightarrow> same_file s s"
  by (simp add: same_file_def)

lemma same_file_trans: "same_file s s1 \<Longrightarrow> same_file s1 s2 \<Longrightarrow> same_file s s2"
  by (simp add: same_file_def)

lemma next_event_calm:
  "calm s \<Longrightarrow> next_event s = (e, s') \<Longrightarrow> benign e \<and> same_file s s' \<and> src_pos s' = src_pos s"
  by (auto simp: next_event_def calm_def same_file_def split: list.splits)

lemma src_seek_calm:
  assumes "calm s"
  obtains s' where "src_seek p s = (Inr (), s')" "same_file s s'" "src_pos s' = unat p"
proof -
  obtain e s1 where e: "next_event s = (e, s1)" by fastforce
  from next_event_calm [OF assms e] that show ?thesis
    by (cases e) (auto simp: src_seek_def e same_file_def calm_def)
qed

lemma src_seek_end_calm:
  assumes "calm s"
  obtains s' where "src_seek_end s = (Inr (of_nat (length (src_bytes s))), s')" "same_file s s'"
proof -
  obtain e s1 where e: "next_event s = (e, s1)" by fastforce
  from next_event_calm [OF assms e] that show ?thesis
    by (cases e) (auto simp: src_seek_end_def e same_file_def calm_def)
qed

lemma src_read_calm:
  assumes "calm s" "src_read n s = (r, s')"
  shows "same_file s s'"
    and "r = Inl None \<and> src_pos s' = src_pos s \<or>
      (\<exists>k \<le> n. r = Inr (take k (drop (src_pos s) (src_bytes s))) \<and> (0 < n \<longrightarrow> 0 < k) \<and>
         src_pos s' = src_pos s + length (take k (drop (src_pos s) (src_bytes s))))"
proof -
  obtain e s1 where e: "next_event s = (e, s1)" by fastforce
  note c = next_event_calm [OF assms(1) e]
  then show "same_file s s'"
    using assms(2) by (cases e) (auto simp: src_read_def e src_take_def Let_def same_file_def calm_def)
  show "r = Inl None \<and> src_pos s' = src_pos s \<or>
      (\<exists>k \<le> n. r = Inr (take k (drop (src_pos s) (src_bytes s))) \<and> (0 < n \<longrightarrow> 0 < k) \<and>
         src_pos s' = src_pos s + length (take k (drop (src_pos s) (src_bytes s))))"
  proof (cases "e = Io_Interrupted")
    case False
    define k where "k = (case e of Io_Short j \<Rightarrow> min n (Suc j) | _ \<Rightarrow> n)"
    have "src_read n s = src_take k s1" using c False by (cases e) (auto simp: src_read_def e k_def)
    moreover have "k \<le> n" "0 < n \<longrightarrow> 0 < k" by (auto simp: k_def split: io_event.split)
    ultimately show ?thesis using c assms(2) by (auto simp: src_take_def Let_def same_file_def)
  qed (use c assms(2) in \<open>simp add: src_read_def e\<close>)
qed

lemma read_full_loop_calm:
  "calm s \<Longrightarrow> take (length filled) (drop p (src_bytes s)) = filled \<Longrightarrow> src_pos s = p + length filled \<Longrightarrow>
   length filled \<le> n \<Longrightarrow>
   \<exists>s'. read_full_loop n filled s = (Inr (take n (drop p (src_bytes s))), s') \<and> same_file s s' \<and>
     src_pos s' = p + length (take n (drop p (src_bytes s)))"
proof (induction n filled s rule: read_full_loop.induct)
  case (1 n filled s)
  note step = read_full_loop.simps [of n filled s]
  show ?case
  proof (cases "length filled < n")
    case False
    with 1 step show ?thesis by (auto intro: same_file_refl)
  next
    case True
    obtain r s1 where r: "src_read (n - length filled) s = (r, s1)" by fastforce
    note c = src_read_calm [OF "1.prems"(1) r]
    then have c1: "calm s1" "src_bytes s1 = src_bytes s" by (simp_all add: same_file_def)
    from c(2) consider "r = Inl None" "src_pos s1 = src_pos s"
      | k where "k \<le> n - length filled" "0 < k" "r = Inr (take k (drop (src_pos s) (src_bytes s)))"
        "src_pos s1 = src_pos s + length (take k (drop (src_pos s) (src_bytes s)))"
      using True by auto
    then show ?thesis
    proof cases
      case 1
      then have "\<exists>s'. read_full_loop n filled s1 = (Inr (take n (drop p (src_bytes s1))), s') \<and> same_file s1 s' \<and>
          src_pos s' = p + length (take n (drop p (src_bytes s1)))"
        using "1.IH"(1) [OF True r [symmetric] 1(1) refl] c1 "1.prems" by simp
      then show ?thesis using step True r 1 c(1) c1 by (auto intro: same_file_trans)
    next
      case 2
      define bs where "bs = take k (drop (src_pos s) (src_bytes s))"
      have app: "take (length (filled @ bs)) (drop p (src_bytes s)) = filled @ bs"
      proof -
        define D where "D = drop p (src_bytes s)"
        have D: "take (length filled) D = filled" "bs = take k (drop (length filled) D)"
          using "1.prems"(2,3) by (simp_all add: D_def bs_def add.commute)
        then have t: "take (length filled + k) D = filled @ bs" by (simp only: take_add)
        have "take (length (take m D)) D = take m D" for m by (simp add: min_def)
        from this [of "length filled + k", unfolded t] show ?thesis by (simp only: D_def)
      qed
      show ?thesis
      proof (cases "bs = []")
        case True
        then have "drop (src_pos s) (src_bytes s) = []" using 2(2) by (simp add: bs_def)
        then have "length (drop p (src_bytes s)) \<le> length filled" using "1.prems"(3) by simp
        then have "take n (drop p (src_bytes s)) = filled"
          using "1.prems"(2,4) by simp
        moreover have "src_pos s1 = p + length filled" using 2(4) [folded bs_def] True "1.prems"(3) by simp
        ultimately show ?thesis using step \<open>length filled < n\<close> r 2(3) True c(1) by (simp add: bs_def)
      next
        case False
        have len: "length (filled @ bs) \<le> n" using 2(1) \<open>length filled < n\<close> by (simp add: bs_def)
        have "\<exists>s'. read_full_loop n (filled @ bs) s1 = (Inr (take n (drop p (src_bytes s1))), s') \<and> same_file s1 s' \<and>
            src_pos s' = p + length (take n (drop p (src_bytes s1)))"
          using "1.IH"(2) [OF True r [symmetric], of bs] False 2 c1 "1.prems"(3) app len
          by (simp add: bs_def)
        moreover have "read_full_loop n filled s = read_full_loop n (filled @ bs) s1"
          using step True r 2(3) False by (simp add: bs_def)
        ultimately show ?thesis using c(1) c1 by (auto intro: same_file_trans)
      qed
    qed
  qed
qed

lemma src_read_full_calm:
  assumes "calm s"
  obtains s' where "src_read_full n s = (Inr (take n (drop (src_pos s) (src_bytes s))), s')" "same_file s s'"
    "src_pos s' = src_pos s + length (take n (drop (src_pos s) (src_bytes s)))"
  using read_full_loop_calm [OF assms, of "[]" "src_pos s" n] by (auto simp: src_read_full_def)

lemma src_read_exact_calm:
  assumes "calm s"
  obtains s' where "same_file s s'" "src_pos s' = src_pos s + length (take n (drop (src_pos s) (src_bytes s)))"
    "src_read_exact n s = (if n \<le> length (src_bytes s) - src_pos s then Inr (take n (drop (src_pos s) (src_bytes s)))
       else Inl (IoError ''failed to fill whole buffer''), s')"
proof -
  obtain s' where "src_read_full n s = (Inr (take n (drop (src_pos s) (src_bytes s))), s')" "same_file s s'"
    "src_pos s' = src_pos s + length (take n (drop (src_pos s) (src_bytes s)))"
    using src_read_full_calm [OF assms] .
  then show ?thesis by (intro that [of s']) (auto simp: src_read_exact_def)
qed

text \<open>Whatever happens, a full read returns at most what was asked for.\<close>

lemma read_full_loop_length: "length filled \<le> n \<Longrightarrow> read_full_loop n filled s = (Inr bs, s') \<Longrightarrow> length bs \<le> n"
proof (induction n filled s rule: read_full_loop.induct)
  case (1 n filled s)
  obtain r s1 where r: "src_read (n - length filled) s = (r, s1)" by fastforce
  have "length x \<le> n - length filled" if "r = Inr x" for x
    using r that by (auto simp: src_read_def src_take_def Let_def split: prod.splits io_event.splits)
  with 1 r show ?case
    by (subst (asm) (3) read_full_loop.simps) (auto split: if_splits sum.splits option.splits)
qed

lemma src_read_full_length: "src_read_full n s = (Inr bs, s') \<Longrightarrow> length bs \<le> n"
  using read_full_loop_length [of "[]" n s bs s'] by (simp add: src_read_full_def)

end
