(* ===== verification/Iteration.thy ===== *)
theory Iteration
  imports Prelude
begin

text \<open>
  Loops whose body may leave, go on, or not return.  A loop is the iteration of its body on the
  loop's variables; \<open>None\<close> says that it does not return: it runs forever, or the body panics.
\<close>

partial_function (option) iterate :: "('s \<Rightarrow> ('s + 'r) option) \<Rightarrow> 's \<Rightarrow> 'r option" where
  "iterate step s =
     (case step s of
        None \<Rightarrow> None
      | Some (Inl s') \<Rightarrow> iterate step s'
      | Some (Inr r) \<Rightarrow> Some r)"

lemma iterate_code [code]:
  "iterate step s = (case step s of None \<Rightarrow> None | Some (Inl s') \<Rightarrow> iterate step s' | Some (Inr r) \<Rightarrow> Some r)"
  by (rule iterate.simps)

lemma iterate_exit: "step s = Some (Inr r) \<Longrightarrow> iterate step s = Some r"
  by (simp add: iterate.simps)

lemma iterate_continue: "step s = Some (Inl s') \<Longrightarrow> iterate step s = iterate step s'"
  by (subst iterate.simps) simp

text \<open>What holds when a loop returns, and when it returns at all.\<close>

lemma iterate_partial:
  assumes "iterate step s = Some r" and "I s"
    and "\<And>s s'. I s \<Longrightarrow> step s = Some (Inl s') \<Longrightarrow> I s'"
    and "\<And>s r. I s \<Longrightarrow> step s = Some (Inr r) \<Longrightarrow> Q r"
  shows "Q r"
proof -
  have "(\<forall>s s'. I s \<longrightarrow> step s = Some (Inl s') \<longrightarrow> I s') \<longrightarrow> (\<forall>s r. I s \<longrightarrow> step s = Some (Inr r) \<longrightarrow> Q r) \<longrightarrow>
    I s \<longrightarrow> Q r"
    using assms(1) by (rule iterate.raw_induct [rotated]) (auto split: option.splits sum.splits)
  then show ?thesis using assms(2-4) by blast
qed

lemma iterate_total:
  fixes m :: "'s \<Rightarrow> nat"
  assumes "I s"
    and "\<And>s. I s \<Longrightarrow> step s \<noteq> None"
    and "\<And>s s'. I s \<Longrightarrow> step s = Some (Inl s') \<Longrightarrow> I s' \<and> m s' < m s"
    and "\<And>s r. I s \<Longrightarrow> step s = Some (Inr r) \<Longrightarrow> Q r"
  shows "\<exists>r. iterate step s = Some r \<and> Q r"
  using assms(1)
proof (induction "m s" arbitrary: s rule: less_induct)
  case less
  obtain x where x: "step s = Some x" using assms(2) [OF less.prems] by auto
  show ?case
  proof (cases x)
    case (Inl s')
    then show ?thesis using x assms(3) [OF less.prems] less.hyps [of s'] by (auto simp: iterate_continue)
  next
    case (Inr r)
    then show ?thesis using x assms(4) [OF less.prems] by (auto simp: iterate_exit)
  qed
qed

end
