(* ===== verification/FieldProjection.thy ===== *)
theory FieldProjection
  imports Prelude
begin

text \<open>
  \<^verbatim>\<open>riegeli/src/field_projection.rs\<close>: the field paths that a projection includes.  No list of fields
  means all of them; adding a path only widens a projection.
\<close>

record Field =
  field_path :: "u32 list"
  field_existence_only :: bool

definition field_new :: "u32 list \<Rightarrow> Field" where
  "field_new path = \<lparr>field_path = path, field_existence_only = False\<rparr>"

definition existence_only :: "Field \<Rightarrow> Field" where
  "existence_only f = f\<lparr>field_existence_only := True\<rparr>"

datatype FieldProjection = FieldProjection (proj_fields: "Field list option")

definition projection_all :: FieldProjection where
  "projection_all = FieldProjection None"

definition projection_new :: FieldProjection where
  "projection_new = FieldProjection (Some [])"

definition add_field :: "Field \<Rightarrow> FieldProjection \<Rightarrow> FieldProjection" where
  "add_field field p =
     (case proj_fields p of
        Some fl \<Rightarrow> FieldProjection (Some (fl @ [field]))
      | None \<Rightarrow> FieldProjection (Some [field_new [], field]))"

definition is_all :: "FieldProjection \<Rightarrow> bool" where
  "is_all p =
     (case proj_fields p of
        None \<Rightarrow> True
      | Some fl \<Rightarrow> list_ex (\<lambda>f. field_path f = [] \<and> \<not> field_existence_only f) fl)"

definition has_full_include :: "FieldProjection \<Rightarrow> bool" where
  "has_full_include p =
     (case proj_fields p of None \<Rightarrow> True | Some fl \<Rightarrow> list_ex (\<lambda>f. \<not> field_existence_only f) fl)"

definition mentions_field :: "u32 \<Rightarrow> FieldProjection \<Rightarrow> bool" where
  "mentions_field n p =
     (case proj_fields p of
        None \<Rightarrow> True
      | Some fl \<Rightarrow> list_ex (\<lambda>f. field_path f = [] \<or> n \<in> set (field_path f)) fl)"

section \<open>Properties\<close>

text \<open>A projection that includes everything mentions every field and has a full include, and
  what a projection includes it still includes after any fields are added, so \<open>all()\<close> stays all;
  a projection built from \<open>new()\<close> mentions a field exactly when one of the added paths does.\<close>

theorem add_field_widens:
  "(is_all p \<longrightarrow> mentions_field n p \<and> has_full_include p) \<and>
   (is_all p \<longrightarrow> is_all (fold add_field fs p)) \<and>
   (has_full_include p \<longrightarrow> has_full_include (fold add_field fs p)) \<and>
   (mentions_field n p \<longrightarrow> mentions_field n (fold add_field fs p)) \<and>
   (mentions_field n (fold add_field fs projection_new) \<longleftrightarrow>
      (\<exists>f \<in> set fs. field_path f = [] \<or> n \<in> set (field_path f)))"
proof -
  have step: "is_all q \<Longrightarrow> is_all (add_field f q)" "has_full_include q \<Longrightarrow> has_full_include (add_field f q)"
    "mentions_field n q \<Longrightarrow> mentions_field n (add_field f q)" for f q
    by (auto simp: add_field_def is_all_def has_full_include_def mentions_field_def field_new_def split: option.splits)
  have "fold add_field fs (FieldProjection (Some gs)) = FieldProjection (Some (gs @ fs))" for gs
    by (induction fs arbitrary: gs) (simp_all add: add_field_def)
  then have "mentions_field n (fold add_field fs projection_new) \<longleftrightarrow>
      (\<exists>f \<in> set fs. field_path f = [] \<or> n \<in> set (field_path f))"
    by (simp add: projection_new_def mentions_field_def list_ex_iff)
  moreover have "is_all p \<longrightarrow> is_all (fold add_field fs p)" by (induction fs arbitrary: p) (auto intro: step)
  moreover have "has_full_include p \<longrightarrow> has_full_include (fold add_field fs p)"
    by (induction fs arbitrary: p) (auto intro: step)
  moreover have "mentions_field n p \<longrightarrow> mentions_field n (fold add_field fs p)"
    by (induction fs arbitrary: p) (auto intro: step)
  moreover have "is_all p \<longrightarrow> mentions_field n p \<and> has_full_include p"
    by (auto simp: is_all_def mentions_field_def has_full_include_def list_ex_iff split: option.splits)
  ultimately show ?thesis by blast
qed

lemma add_field_widens_witness:
  "is_all (fold add_field [field_new [1, 2]] projection_all) \<and>
   mentions_field 2 (fold add_field [field_new [1, 2]] projection_new)"
  using add_field_widens [of projection_all 2 "[field_new [1, 2]]"]
  by (simp add: projection_all_def is_all_def field_new_def)

end
