(* ===== verification/RecordReader.thy ===== *)
theory RecordReader
  imports Source Iteration FieldProjection RecordPosition SimpleChunk BlockHeader
begin

text \<open>
  \<^verbatim>\<open>riegeli/src/record_reader.rs\<close>: reading chunks through the block headers, records, positions,
  seeking, searching, metadata, the size and format scans, and recovery.  The operations act on
  the record \<open>RecordReader\<close>; the ones with a loop answer \<open>None\<close> where the source does not return.
  Additions wrap where the source has a plain \<open>+\<close>, as in a release build.  The transposed chunk
  decoder is a parameter, a \<open>transposed\<close> of functions; the recovery callback is a function on a state
  of its own; error messages keep their constant part.
\<close>

section \<open>The state of the reader\<close>

record 't transposed =
  td_new :: "Chunk \<Rightarrow> FieldProjection option \<Rightarrow> 't res"
  td_read_record :: "'t \<Rightarrow> bytes option res \<times> 't"

datatype 't ActiveDecoder = Simple_Decoder SimpleChunkDecoder | Transposed_Decoder 't

fun decoder_read_record ::
  "'t transposed \<Rightarrow> 't ActiveDecoder \<Rightarrow> (bytes option res \<times> 't ActiveDecoder) option" where
  "decoder_read_record T (Simple_Decoder d) = map_option (\<lambda>(r, d). (r, Simple_Decoder d)) (sc_read_record d)"
| "decoder_read_record T (Transposed_Decoder t) = Some (case td_read_record T t of (r, t) \<Rightarrow> (r, Transposed_Decoder t))"

text \<open>The closure \<open>FnMut(&SkippedRegion) -> bool\<close>: its captured state and its body.\<close>

record 'c ReaderOptions =
  ro_recovery :: "('c \<times> ('c \<Rightarrow> SkippedRegion \<Rightarrow> bool \<times> 'c)) option"
  ro_field_projection :: "FieldProjection option"

definition reader_options_new :: "'c ReaderOptions" where
  "reader_options_new = \<lparr>ro_recovery = None, ro_field_projection = None\<rparr>"

definition set_recovery :: "'c \<Rightarrow> ('c \<Rightarrow> SkippedRegion \<Rightarrow> bool \<times> 'c) \<Rightarrow> 'c ReaderOptions \<Rightarrow> 'c ReaderOptions" where
  "set_recovery c f o' = o'\<lparr>ro_recovery := Some (c, f)\<rparr>"

definition set_projection :: "FieldProjection \<Rightarrow> 'c ReaderOptions \<Rightarrow> 'c ReaderOptions" where
  "set_projection proj o' = o'\<lparr>ro_field_projection := Some proj\<rparr>"

record ('t, 'c) RecordReader =
  rd_reader :: source
  rd_recovery :: "('c \<times> ('c \<Rightarrow> SkippedRegion \<Rightarrow> bool \<times> 'c)) option"
  rd_field_projection :: "FieldProjection option"
  rd_current_chunk_begin :: u64
  rd_next_chunk_file_pos :: u64
  rd_current_decoder :: "'t ActiveDecoder option"
  rd_current_record_index :: u64
  rd_pos :: RecordPosition
  rd_last_pos :: RecordPosition
  rd_at_eof :: bool
  rd_last_record_is_valid :: bool
  rd_stream_len :: u64
  rd_last_skipped_region :: "SkippedRegion option"
  rd_pending_trusted_end :: "u64 option"

definition FIRST_CHUNK :: u64 where
  "FIRST_CHUNK = BLOCK_HEADER_SIZE + CHUNK_HEADER_SIZE"

text \<open>Calls of the source.\<close>

definition on_source :: "(source, 'a) action \<Rightarrow> (('t, 'c) RecordReader, 'a) action" where
  "on_source m rd = (case m (rd_reader rd) of (r, s) \<Rightarrow> (r, rd\<lparr>rd_reader := s\<rparr>))"

abbreviation seek_source :: "u64 \<Rightarrow> (('t, 'c) RecordReader, unit) action" where
  "seek_source p \<equiv> on_source (src_seek p)"

abbreviation read_full :: "nat \<Rightarrow> (('t, 'c) RecordReader, bytes) action" where
  "read_full n \<equiv> on_source (src_read_full n)"

abbreviation read_exact :: "nat \<Rightarrow> (('t, 'c) RecordReader, bytes) action" where
  "read_exact n \<equiv> on_source (src_read_exact n)"

text \<open>\<open>self.stream_len = self.reader.seek(SeekFrom::End(0))?\<close>.\<close>

definition measure_stream :: "(('t, 'c) RecordReader, unit) action" where
  "measure_stream = then_do (on_source src_seek_end) (\<lambda>n rd. (Inr (), rd\<lparr>rd_stream_len := n\<rparr>))"

section \<open>Chunk headers\<close>

definition truncated_error :: riegeli_error where
  "truncated_error = MalformedData ''truncated Riegeli/records file: incomplete chunk''"

text \<open>
  The block header at a boundary within the chunk header's span.  The answer \<open>None\<close> is the clean end
  of the file, \<open>Some bh\<close> the header that was passed.
\<close>

definition pass_block_header ::
  "hasher \<Rightarrow> u64 \<Rightarrow> u64 \<Rightarrow> bool \<Rightarrow> (('t, 'c) RecordReader, BlockHeader option) action" where
  "pass_block_header hw cb file_pos consumed_any =
     then_do (seek_source file_pos) (\<lambda>_.
     then_do (read_full 24) (\<lambda>bh_bytes.
       if length bh_bytes < 24 then
         if length bh_bytes = 0 \<and> \<not> consumed_any then ret None else fail_with truncated_error
       else
         let bh = block_from_bytes bh_bytes
         in if \<not> block_is_valid hw bh then fail_with (MalformedData ''invalid block header hash'')
            else if checked_sub file_pos (previous_chunk bh) \<noteq> Some cb
            then fail_with (MalformedData ''block header implies a different previous chunk boundary'')
            else ret (Some bh)))"

text \<open>
  The loop that fills the 40 bytes.  \<open>interior\<close> is the block header inside the span, with its
  position.  The answer: the bytes, the position behind them and \<open>interior\<close>.
\<close>

function fill_header ::
  "hasher \<Rightarrow> u64 \<Rightarrow> u64 \<Rightarrow> bytes \<Rightarrow> bool \<Rightarrow> (u64 \<times> BlockHeader) option \<Rightarrow>
   (('t, 'c) RecordReader, (bytes \<times> u64 \<times> (u64 \<times> BlockHeader) option) option) action" where
  "fill_header hw cb file_pos filled consumed_any interior rd =
     (if length filled < 40 then
        case (if is_block_boundary file_pos
              then then_do (pass_block_header hw cb file_pos consumed_any)
                (\<lambda>bh. ret (map_option (\<lambda>bh.
                   (file_pos + BLOCK_HEADER_SIZE, True, if filled \<noteq> [] then Some (file_pos, bh) else interior)) bh)) rd
              else (Inr (Some (file_pos, consumed_any, interior)), rd)) of
          (Inl e, rd) \<Rightarrow> (Inl e, rd)
        | (Inr None, rd) \<Rightarrow> (Inr None, rd)
        | (Inr (Some (file_pos, consumed_any, interior)), rd) \<Rightarrow>
            let until_boundary = BLOCK_SIZE - (file_pos mod BLOCK_SIZE);
                to_read = min (40 - length filled) (unat until_boundary)
            in case then_do (seek_source file_pos) (\<lambda>_. read_full to_read) rd of
                 (Inl e, rd) \<Rightarrow> (Inl e, rd)
               | (Inr bs, rd) \<Rightarrow>
                   if length bs < to_read then
                     if bs = [] \<and> \<not> consumed_any then (Inr None, rd) else (Inl truncated_error, rd)
                   else fill_header hw cb (file_pos + of_nat (length bs)) (filled @ bs) True interior rd
      else (Inr (Some (filled, file_pos, interior)), rd))"
  by pat_completeness auto

lemma until_boundary:
  "unat (BLOCK_SIZE - pos mod BLOCK_SIZE) = 65536 - unat pos mod 65536"
  "0 < BLOCK_SIZE - pos mod BLOCK_SIZE"
proof -
  show u: "unat (BLOCK_SIZE - pos mod BLOCK_SIZE) = 65536 - unat pos mod 65536"
    using mod_less_divisor [of 65536 "unat pos"]
    by (subst unat_sub_u64) (simp_all add: unat_mod_block, simp_all add: block_consts(1))
  then show "0 < BLOCK_SIZE - pos mod BLOCK_SIZE" by (simp add: word_less_nat_alt)
qed

lemma fill_step:
  "length filled < 40 \<Longrightarrow> \<not> length bs < min (40 - length filled) (unat (BLOCK_SIZE - pos mod BLOCK_SIZE)) \<Longrightarrow>
   40 - length (filled @ bs) < 40 - length filled"
  by (auto simp: until_boundary(1) min_def split: if_splits)

termination fill_header
  by (relation "measure (\<lambda>(hw, cb, pos, filled, c, i, rd). 40 - length filled)") (auto simp: fill_step simp del: length_append)

declare fill_header.simps [simp del]

text \<open>The claims of a valid header against the stream, measured again before they are rejected.\<close>

definition claims_exceed :: "ChunkHeader \<Rightarrow> u64 \<Rightarrow> u64 \<Rightarrow> ('t, 'c) RecordReader \<Rightarrow> bool" where
  "claims_exceed ch cb data_begin rd \<longleftrightarrow>
     saturating_sub (rd_stream_len rd) data_begin < ch_data_size ch \<or>
     saturating_sub (rd_stream_len rd) cb < ch_num_records ch"

definition check_claims :: "ChunkHeader \<Rightarrow> u64 \<Rightarrow> u64 \<Rightarrow> (('t, 'c) RecordReader, unit) action" where
  "check_claims ch cb data_begin rd =
     (if claims_exceed ch cb data_begin rd
      then then_do measure_stream (\<lambda>_ rd.
        if saturating_sub (rd_stream_len rd) data_begin < ch_data_size ch
        then (Inl (MalformedData ''chunk claims more data bytes than left in the stream''), rd)
        else if saturating_sub (rd_stream_len rd) cb < ch_num_records ch
        then (Inl (MalformedData ''chunk claims more records than bytes left in the stream''), rd)
        else (Inr (), rd)) rd
      else (Inr (), rd))"

definition check_interior :: "ChunkHeader \<Rightarrow> u64 \<Rightarrow> (u64 \<times> BlockHeader) option \<Rightarrow> unit res" where
  "check_interior ch cb interior =
     (case interior of
        None \<Rightarrow> Inr ()
      | Some (block_begin, bh) \<Rightarrow>
          guard_res (checked_add block_begin (next_chunk bh)
              = Some (chunk_end cb (ch_data_size ch) (ch_num_records ch)))
            (MalformedData ''block header implies a different next chunk boundary''))"

definition read_chunk_header_at ::
  "hasher \<Rightarrow> u64 \<Rightarrow> (('t, 'c) RecordReader, (ChunkHeader \<times> u64 \<times> u64) option) action" where
  "read_chunk_header_at hw pos rd =
     (let cb = canonical_chunk_address pos
      in case fill_header hw cb cb [] False None rd of
           (Inl e, rd) \<Rightarrow> (Inl e, rd)
         | (Inr None, rd) \<Rightarrow> (Inr None, rd)
         | (Inr (Some (bs, file_pos, interior)), rd) \<Rightarrow>
             let ch = chunk_from_bytes bs
             in if ch_is_header_valid hw ch
                then then_do (check_claims ch cb file_pos)
                  (\<lambda>_ rd. case check_interior ch cb interior of
                     Inl e \<Rightarrow> (Inl e, rd)
                   | Inr _ \<Rightarrow> (Inr (Some (ch, cb, file_pos)), rd)) rd
                else (Inr (Some (ch, cb, file_pos)), rd))"

section \<open>Chunk data\<close>

definition pass_data_header :: "hasher \<Rightarrow> u64 \<Rightarrow> u64 \<Rightarrow> u64 \<Rightarrow> (('t, 'c) RecordReader, unit) action" where
  "pass_data_header hw cb ce file_pos =
     then_do (seek_source file_pos) (\<lambda>_.
     then_do (read_exact 24) (\<lambda>bh_bytes.
       let bh = block_from_bytes bh_bytes
       in if \<not> block_is_valid hw bh then fail_with (MalformedData ''invalid block header hash (during data read)'')
          else if checked_sub file_pos (previous_chunk bh) \<noteq> Some cb
          then fail_with (MalformedData ''block header implies a different previous chunk boundary'')
          else if checked_add file_pos (next_chunk bh) \<noteq> Some ce
          then fail_with (MalformedData ''block header implies a different next chunk boundary'')
          else seek_source (file_pos + BLOCK_HEADER_SIZE)))"

function read_data_loop :: "hasher \<Rightarrow> u64 \<Rightarrow> u64 \<Rightarrow> u64 \<Rightarrow> u64 \<Rightarrow> bytes \<Rightarrow> (('t, 'c) RecordReader, bytes) action" where
  "read_data_loop hw cb ce file_pos remaining result rd =
     (if 0 < remaining then
        case (if is_block_boundary file_pos
              then then_do (pass_data_header hw cb ce file_pos)
                (\<lambda>_. ret (file_pos + BLOCK_HEADER_SIZE)) rd
              else (Inr file_pos, rd)) of
          (Inl e, rd) \<Rightarrow> (Inl e, rd)
        | (Inr file_pos, rd) \<Rightarrow>
            let bytes_until_boundary = BLOCK_SIZE - (file_pos mod BLOCK_SIZE);
                to_read = min remaining bytes_until_boundary
            in (case read_exact (unat to_read) rd of
                  (Inl e, rd) \<Rightarrow> (Inl e, rd)
                | (Inr bs, rd) \<Rightarrow>
                    read_data_loop hw cb ce (file_pos + to_read) (remaining - to_read) (result @ bs) rd)
      else (Inr result, rd))"
  by pat_completeness auto

lemma data_step:
  assumes "0 < remaining"
  shows "unat (remaining - min remaining (BLOCK_SIZE - pos mod BLOCK_SIZE)) < unat remaining"
proof -
  have "0 < min remaining (BLOCK_SIZE - pos mod BLOCK_SIZE)" "min remaining (BLOCK_SIZE - pos mod BLOCK_SIZE) \<le> remaining"
    using assms until_boundary(2) [of pos] by (auto simp: min_def)
  then show ?thesis by (simp add: unat_sub_u64 word_less_nat_alt word_le_nat_alt)
qed

termination read_data_loop
  by (relation "measure (\<lambda>(hw, cb, ce, pos, remaining, result, rd). unat remaining)") (auto intro: data_step)

declare read_data_loop.simps [simp del]

definition read_chunk_data :: "hasher \<Rightarrow> u64 \<Rightarrow> u64 \<Rightarrow> u64 \<Rightarrow> u64 \<Rightarrow> (('t, 'c) RecordReader, bytes) action" where
  "read_chunk_data hw cb ce data_begin data_size =
     then_do (seek_source data_begin) (\<lambda>_. read_data_loop hw cb ce data_begin data_size [])"

definition peek_chunk_header :: "hasher \<Rightarrow> u64 \<Rightarrow> (('t, 'c) RecordReader, ChunkHeader option) action" where
  "peek_chunk_header hw file_pos =
     then_do (read_chunk_header_at hw file_pos) (\<lambda>r.
       case r of
         None \<Rightarrow> ret None
       | Some (ch, cb, _) \<Rightarrow>
           if \<not> ch_is_header_valid hw ch then fail_with (MalformedData ''invalid chunk header hash'')
           else ret (Some ch))"

definition validate_special_chunk :: "ChunkHeader \<Rightarrow> ChunkType \<Rightarrow> unit res" where
  "validate_special_chunk ch chunk_type =
     (case chunk_type of
        FileSignature \<Rightarrow>
          guard_res (ch_data_size ch = 0 \<and> ch_num_records ch = 0 \<and> ch_decoded_data_size ch = 0)
            (MalformedData ''invalid file signature chunk'')
      | FileMetadata \<Rightarrow> guard_res (ch_num_records ch = 0) (MalformedData ''invalid file metadata chunk'')
      | Padding \<Rightarrow>
          guard_res (ch_num_records ch = 0 \<and> ch_decoded_data_size ch = 0) (MalformedData ''invalid padding chunk'')
      | _ \<Rightarrow> Inr ())"

section \<open>Recovery\<close>

definition next_block_boundary :: "u64 \<Rightarrow> u64" where
  "next_block_boundary pos =
     (if is_block_boundary pos then pos else round_down_to_block_boundary pos + BLOCK_SIZE)"

text \<open>The body of the loop of \<open>resolve_boundary_resync\<close>.\<close>

definition resync_step ::
  "hasher \<Rightarrow> u64 \<times> ('t, 'c) RecordReader \<Rightarrow> ((u64 \<times> ('t, 'c) RecordReader) + (u64 \<times> ('t, 'c) RecordReader)) option" where
  "resync_step hw = (\<lambda>(boundary, rd).
     case then_do (seek_source boundary) (\<lambda>_. read_full 24) rd of
       (Inl _, rd) \<Rightarrow> Some (Inr (boundary, rd))
     | (Inr bh_bytes, rd) \<Rightarrow>
         if length bh_bytes < 24 then Some (Inr (boundary, rd))
         else
           let bh = block_from_bytes bh_bytes
           in if \<not> block_is_valid hw bh then Some (Inl (boundary + BLOCK_SIZE, rd))
              else if previous_chunk bh = 0 then Some (Inr (boundary, rd))
              else
                let target = saturating_add boundary (next_chunk bh)
                in if rd_stream_len rd < target then Some (Inr (target, rd))
                   else if is_possible_chunk_boundary target then Some (Inr (target, rd))
                   else Some (Inl (next_block_boundary target, rd)))"

definition resolve_boundary_resync ::
  "hasher \<Rightarrow> u64 \<Rightarrow> ('t, 'c) RecordReader \<Rightarrow> (u64 \<times> ('t, 'c) RecordReader) option" where
  "resolve_boundary_resync hw boundary rd = iterate (resync_step hw) (boundary, rd)"

text \<open>The region's begin, and the end once the resync position is known.\<close>

definition skipped_begin :: "u64 \<Rightarrow> SkippedRegion option \<Rightarrow> u64" where
  "skipped_begin at prev =
     (let b = canonical_chunk_address at
      in case prev of
           Some p \<Rightarrow> if region_end p \<le> at \<and> b < region_end p then region_end p else b
         | None \<Rightarrow> b)"

definition skipped_end :: "u64 \<Rightarrow> u64 \<Rightarrow> u64 \<Rightarrow> u64" where
  "skipped_end at b e =
     (let e = max (max e (b + 1)) (saturating_add at 1)
      in if canonical_chunk_address e \<le> b then e + 1 else e)"

definition report_region_at ::
  "hasher \<Rightarrow> u64 \<Rightarrow> riegeli_error \<Rightarrow> ('t, 'c) RecordReader \<Rightarrow> (bool option \<times> ('t, 'c) RecordReader) option" where
  "report_region_at hw at err rd =
     (let trusted_end = rd_pending_trusted_end rd;
          rd = rd\<lparr>rd_pending_trusted_end := None\<rparr>
      in case rd_recovery rd of
           None \<Rightarrow> Some (None, rd)
         | Some (c, callback) \<Rightarrow>
             let b = skipped_begin at (rd_last_skipped_region rd)
             in case (case trusted_end of
                        Some e \<Rightarrow> Some (e, rd)
                      | None \<Rightarrow>
                          let boundary = next_block_boundary b;
                              boundary = (if boundary = b then b + BLOCK_SIZE else boundary)
                          in map_option (\<lambda>(r, rd). (min r (max (rd_stream_len rd) b), rd))
                               (resolve_boundary_resync hw boundary rd)) of
                  None \<Rightarrow> None
                | Some (e, rd) \<Rightarrow>
                    let region = skipped_region_new b (skipped_end at b e) (error_to_string err);
                        (go, c) = callback c region
                    in Some (Some go, rd\<lparr>rd_last_skipped_region := Some region, rd_recovery := Some (c, callback)\<rparr>))"

definition try_recover_at ::
  "hasher \<Rightarrow> u64 \<Rightarrow> riegeli_error \<Rightarrow> ('t, 'c) RecordReader \<Rightarrow> (bool \<times> ('t, 'c) RecordReader) option" where
  "try_recover_at hw at err rd =
     (case report_region_at hw at err rd of
        None \<Rightarrow> None
      | Some (None, rd) \<Rightarrow> Some (False, rd)
      | Some (Some go, rd) \<Rightarrow>
          let e = region_end (the (rd_last_skipped_region rd));
              rd = rd\<lparr>rd_last_record_is_valid := False, rd_current_decoder := None, rd_at_eof := False,
                     rd_next_chunk_file_pos := e\<rparr>
          in case seek_source e rd of
               (Inl _, rd) \<Rightarrow> Some (go, rd\<lparr>rd_at_eof := True\<rparr>)
             | (Inr _, rd) \<Rightarrow> Some (go, rd))"

section \<open>Loading chunks\<close>

datatype load_outcome = Load_Eof | Load_Skipped | Load_Done

definition make_decoder ::
  "hasher \<Rightarrow> codec \<Rightarrow> 't transposed \<Rightarrow> FieldProjection option \<Rightarrow> bool \<Rightarrow> Chunk \<Rightarrow> 't ActiveDecoder res" where
  "make_decoder hw C T projection is_simple chunk =
     (if is_simple then map_sum id Simple_Decoder (sc_new hw C chunk)
      else map_sum id Transposed_Decoder (td_new T chunk projection))"

text \<open>One round of the loop of \<open>load_next_chunk\<close>.\<close>

definition install_chunk ::
  "hasher \<Rightarrow> codec \<Rightarrow> 't transposed \<Rightarrow> ChunkHeader \<Rightarrow> u64 \<Rightarrow> bytes \<Rightarrow> (('t, 'c) RecordReader, load_outcome) action" where
  "install_chunk hw C T ch cb data rd =
     (case ch_chunk_type ch of
        Inl e \<Rightarrow>
          if ch_num_records ch = 0 then (Inr Load_Skipped, rd)
          else (Inl e, rd\<lparr>rd_next_chunk_file_pos := cb\<rparr>)
      | Inr chunk_type \<Rightarrow>
          if chunk_type = Simple \<or> chunk_type = Transposed then
            case make_decoder hw C T (rd_field_projection rd) (chunk_type = Simple)
                   \<lparr>chunk_header = ch, chunk_data = data\<rparr> of
              Inl e \<Rightarrow> (Inl e, rd\<lparr>rd_next_chunk_file_pos := cb\<rparr>)
            | Inr decoder \<Rightarrow>
                (Inr Load_Done, rd\<lparr>rd_current_chunk_begin := cb, rd_current_record_index := 0,
                   rd_pos := RecordPosition cb 0, rd_current_decoder := Some decoder\<rparr>)
          else
            case validate_special_chunk ch chunk_type of
              Inl e \<Rightarrow> (Inl e, rd\<lparr>rd_next_chunk_file_pos := cb\<rparr>)
            | Inr _ \<Rightarrow> (Inr Load_Skipped, rd))"

definition load_next_round :: "hasher \<Rightarrow> codec \<Rightarrow> 't transposed \<Rightarrow> (('t, 'c) RecordReader, load_outcome) action" where
  "load_next_round hw C T rd =
     then_do (read_chunk_header_at hw (rd_next_chunk_file_pos rd)) (\<lambda>r.
       case r of
         None \<Rightarrow> ret Load_Eof
       | Some (ch, cb, data_begin) \<Rightarrow>
           if \<not> ch_is_header_valid hw ch then fail_with (MalformedData ''invalid chunk header hash'')
           else
             let data_file_end = chunk_end cb (ch_data_size ch) (ch_num_records ch)
             in then_do (read_chunk_data hw cb data_file_end data_begin (ch_data_size ch)) (\<lambda>data rd.
                  let rd = rd\<lparr>rd_pending_trusted_end := Some data_file_end\<rparr>
                  in if \<not> ch_is_data_valid hw ch data
                     then (Inl (MalformedData ''chunk data hash mismatch''), rd\<lparr>rd_next_chunk_file_pos := cb\<rparr>)
                     else install_chunk hw C T ch cb data (rd\<lparr>rd_next_chunk_file_pos := data_file_end\<rparr>)))
       (rd\<lparr>rd_pending_trusted_end := None\<rparr>)"

definition load_next_step ::
  "hasher \<Rightarrow> codec \<Rightarrow> 't transposed \<Rightarrow> ('t, 'c) RecordReader \<Rightarrow>
   (('t, 'c) RecordReader + (bool res \<times> ('t, 'c) RecordReader)) option" where
  "load_next_step hw C T rd =
     Some (case load_next_round hw C T rd of
        (Inl e, rd) \<Rightarrow> Inr (Inl e, rd)
      | (Inr Load_Eof, rd) \<Rightarrow> Inr (Inr False, rd)
      | (Inr Load_Done, rd) \<Rightarrow> Inr (Inr True, rd)
      | (Inr Load_Skipped, rd) \<Rightarrow> Inl rd)"

definition load_next_chunk ::
  "hasher \<Rightarrow> codec \<Rightarrow> 't transposed \<Rightarrow> ('t, 'c) RecordReader \<Rightarrow> (bool res \<times> ('t, 'c) RecordReader) option" where
  "load_next_chunk hw C T = iterate (load_next_step hw C T)"

text \<open>One round of the loop of \<open>load_chunk_at\<close>: \<open>None\<close> goes on behind a chunk without records.\<close>

definition load_at_round ::
  "hasher \<Rightarrow> codec \<Rightarrow> 't transposed \<Rightarrow> u64 \<Rightarrow> (('t, 'c) RecordReader, 't ActiveDecoder option + u64) action" where
  "load_at_round hw C T file_pos rd =
     then_do (read_chunk_header_at hw file_pos) (\<lambda>r.
       case r of
         None \<Rightarrow> ret (Inl None)
       | Some (ch, cb, data_begin) \<Rightarrow>
           if \<not> ch_is_header_valid hw ch then fail_with (MalformedData ''invalid chunk header hash'')
           else
             let chunk_end_pos = chunk_end cb (ch_data_size ch) (ch_num_records ch)
             in then_do (read_chunk_data hw cb chunk_end_pos data_begin (ch_data_size ch)) (\<lambda>data rd.
                  let rd = rd\<lparr>rd_pending_trusted_end := Some chunk_end_pos\<rparr>
                  in if \<not> ch_is_data_valid hw ch data then (Inl (MalformedData ''chunk data hash mismatch''), rd)
                     else
                       let rd = rd\<lparr>rd_current_chunk_begin := cb, rd_current_record_index := 0\<rparr>;
                           go_on = (Inr (Inr chunk_end_pos), rd\<lparr>rd_next_chunk_file_pos := chunk_end_pos\<rparr>)
                       in case ch_chunk_type ch of
                            Inl e \<Rightarrow>
                              if ch_num_records ch = 0 then go_on else (Inl e, rd\<lparr>rd_next_chunk_file_pos := cb\<rparr>)
                          | Inr chunk_type \<Rightarrow>
                              if chunk_type = Simple \<or> chunk_type = Transposed then
                                case make_decoder hw C T (rd_field_projection rd) (chunk_type = Simple)
                                       \<lparr>chunk_header = ch, chunk_data = data\<rparr> of
                                  Inl e \<Rightarrow> (Inl e, rd)
                                | Inr decoder \<Rightarrow>
                                    (Inr (Inl (Some decoder)), rd\<lparr>rd_next_chunk_file_pos := chunk_end_pos\<rparr>)
                              else
                                case validate_special_chunk ch chunk_type of
                                  Inl e \<Rightarrow> (Inl e, rd\<lparr>rd_next_chunk_file_pos := cb\<rparr>)
                                | Inr _ \<Rightarrow> go_on))
       (rd\<lparr>rd_pending_trusted_end := None\<rparr>)"

definition load_at_step ::
  "hasher \<Rightarrow> codec \<Rightarrow> 't transposed \<Rightarrow> u64 \<times> ('t, 'c) RecordReader \<Rightarrow>
   ((u64 \<times> ('t, 'c) RecordReader) + ('t ActiveDecoder option res \<times> ('t, 'c) RecordReader)) option" where
  "load_at_step hw C T = (\<lambda>(file_pos, rd).
     Some (case load_at_round hw C T file_pos rd of
        (Inl e, rd) \<Rightarrow> Inr (Inl e, rd)
      | (Inr (Inl d), rd) \<Rightarrow> Inr (Inr d, rd)
      | (Inr (Inr file_pos), rd) \<Rightarrow> Inl (file_pos, rd)))"

definition load_chunk_at ::
  "hasher \<Rightarrow> codec \<Rightarrow> 't transposed \<Rightarrow> u64 \<Rightarrow> ('t, 'c) RecordReader \<Rightarrow>
   ('t ActiveDecoder option res \<times> ('t, 'c) RecordReader) option" where
  "load_chunk_at hw C T file_pos rd = iterate (load_at_step hw C T) (file_pos, rd)"

section \<open>Opening\<close>

definition preamble_error :: riegeli_error where
  "preamble_error = MalformedData ''truncated Riegeli/records file: incomplete file preamble''"

definition validate_file_preamble :: "hasher \<Rightarrow> (('t, 'c) RecordReader, unit) action" where
  "validate_file_preamble hw =
     then_do (seek_source 0) (\<lambda>_.
     then_do (read_full 24) (\<lambda>bh_bytes.
       if length bh_bytes < 24 then fail_with preamble_error
       else if \<not> block_is_valid hw (block_from_bytes bh_bytes)
       then fail_with (MalformedData ''invalid block header hash at offset 0'')
       else then_do (read_full 40) (\<lambda>ch_bytes.
         if length ch_bytes < 40 then fail_with preamble_error
         else if ch_bytes \<noteq> chunk_to_bytes (chunk_from_parts hw [] FileSignature 0 0)
         then fail_with (MalformedData ''invalid file signature chunk at offset 24'')
         else ret ())))"

definition initial_reader :: "source \<Rightarrow> 'c ReaderOptions \<Rightarrow> u64 \<Rightarrow> bool \<Rightarrow> ('t, 'c) RecordReader" where
  "initial_reader s o' stream_len at_eof =
     \<lparr>rd_reader = s, rd_recovery = ro_recovery o', rd_field_projection = ro_field_projection o',
      rd_current_chunk_begin = BLOCK_HEADER_SIZE, rd_next_chunk_file_pos = FIRST_CHUNK,
      rd_current_decoder = None, rd_current_record_index = 0, rd_pos = RecordPosition 0 0,
      rd_last_pos = RecordPosition 0 0, rd_at_eof = at_eof, rd_last_record_is_valid = True,
      rd_stream_len = stream_len, rd_last_skipped_region = None, rd_pending_trusted_end = None\<rparr>"

definition reader_new ::
  "hasher \<Rightarrow> source \<Rightarrow> 'c ReaderOptions \<Rightarrow> (('t, 'c) RecordReader res) option" where
  "reader_new hw s o' =
     (case src_seek_end s of
        (Inl e, s) \<Rightarrow> Some (Inl e)
      | (Inr stream_len, s) \<Rightarrow>
          (case src_seek 0 s of
             (Inl e, s) \<Rightarrow> Some (Inl e)
           | (Inr _, s) \<Rightarrow>
               if stream_len = 0 then Some (Inr (initial_reader s o' stream_len True))
               else
                 (case validate_file_preamble hw (initial_reader s o' stream_len False) of
                    (Inr _, rd) \<Rightarrow> Some (Inr rd)
                  | (Inl e, rd) \<Rightarrow>
                      map_option (\<lambda>(go, rd). if go then Inr rd else Inl e) (try_recover_at hw 0 e rd))))"

section \<open>Reading records\<close>

text \<open>One round of the loop of \<open>read_record\<close>: first the decoder, then the next chunk.\<close>

definition load_or_recover ::
  "hasher \<Rightarrow> codec \<Rightarrow> 't transposed \<Rightarrow> ('t, 'c) RecordReader \<Rightarrow>
   (('t, 'c) RecordReader + (bytes option res \<times> ('t, 'c) RecordReader)) option" where
  "load_or_recover hw C T rd =
     (case load_next_chunk hw C T rd of
        None \<Rightarrow> None
      | Some (Inr True, rd) \<Rightarrow> Some (Inl (rd\<lparr>rd_at_eof := False\<rparr>))
      | Some (Inr False, rd) \<Rightarrow> Some (Inr (Inr None, rd\<lparr>rd_at_eof := True\<rparr>))
      | Some (Inl e, rd) \<Rightarrow>
          (case try_recover_at hw (rd_next_chunk_file_pos rd) e rd of
             None \<Rightarrow> None
           | Some (True, rd) \<Rightarrow> if rd_at_eof rd then Some (Inr (Inr None, rd)) else Some (Inl rd)
           | Some (False, rd) \<Rightarrow> Some (Inr (Inl e, rd))))"

definition read_record_step ::
  "hasher \<Rightarrow> codec \<Rightarrow> 't transposed \<Rightarrow> ('t, 'c) RecordReader \<Rightarrow>
   (('t, 'c) RecordReader + (bytes option res \<times> ('t, 'c) RecordReader)) option" where
  "read_record_step hw C T rd =
     (case rd_current_decoder rd of
        None \<Rightarrow> load_or_recover hw C T rd
      | Some decoder \<Rightarrow>
          (case decoder_read_record T decoder of
             None \<Rightarrow> None
           | Some (Inl e, decoder) \<Rightarrow> Some (Inr (Inl e, rd\<lparr>rd_current_decoder := Some decoder\<rparr>))
           | Some (Inr (Some rec), decoder) \<Rightarrow>
               Some (Inr (Inr (Some rec),
                 rd\<lparr>rd_current_decoder := Some decoder,
                    rd_last_pos := RecordPosition (rd_current_chunk_begin rd) (rd_current_record_index rd),
                    rd_current_record_index := rd_current_record_index rd + 1,
                    rd_pos := RecordPosition (rd_current_chunk_begin rd) (rd_current_record_index rd + 1),
                    rd_last_record_is_valid := True\<rparr>))
           | Some (Inr None, decoder) \<Rightarrow> load_or_recover hw C T (rd\<lparr>rd_current_decoder := None\<rparr>)))"

definition read_record ::
  "hasher \<Rightarrow> codec \<Rightarrow> 't transposed \<Rightarrow> ('t, 'c) RecordReader \<Rightarrow> (bytes option res \<times> ('t, 'c) RecordReader) option" where
  "read_record hw C T rd = iterate (read_record_step hw C T) (rd\<lparr>rd_pending_trusted_end := None\<rparr>)"

text \<open>The accessors \<open>pos\<close>, \<open>last_pos\<close>, \<open>last_record_is_valid\<close> and \<open>last_skipped_region\<close> are the selectors.\<close>

definition supports_random_access :: "('t, 'c) RecordReader \<Rightarrow> bool" where
  "supports_random_access rd = True"

definition set_field_projection :: "FieldProjection \<Rightarrow> ('t, 'c) RecordReader \<Rightarrow> ('t, 'c) RecordReader" where
  "set_field_projection proj rd = rd\<lparr>rd_field_projection := (if is_all proj then None else Some proj)\<rparr>"

section \<open>Seeking\<close>

text \<open>The loop that skips \<open>n\<close> records of the current decoder, and stops at its end.\<close>

fun skip_records :: "'t transposed \<Rightarrow> nat \<Rightarrow> ('t, 'c) RecordReader \<Rightarrow> (unit res \<times> ('t, 'c) RecordReader) option" where
  "skip_records T 0 rd = Some (Inr (), rd)"
| "skip_records T (Suc n) rd =
     (case rd_current_decoder rd of
        None \<Rightarrow> skip_records T n rd
      | Some decoder \<Rightarrow>
          (case decoder_read_record T decoder of
             None \<Rightarrow> None
           | Some (Inl e, decoder) \<Rightarrow> Some (Inl e, rd\<lparr>rd_current_decoder := Some decoder\<rparr>)
           | Some (Inr (Some _), decoder) \<Rightarrow>
               skip_records T n (rd\<lparr>rd_current_decoder := Some decoder,
                 rd_current_record_index := rd_current_record_index rd + 1\<rparr>)
           | Some (Inr None, decoder) \<Rightarrow> Some (Inr (), rd\<lparr>rd_current_decoder := Some decoder\<rparr>)))"

definition reader_seek ::
  "hasher \<Rightarrow> codec \<Rightarrow> 't transposed \<Rightarrow> RecordPosition \<Rightarrow> ('t, 'c) RecordReader \<Rightarrow>
   (unit res \<times> ('t, 'c) RecordReader) option" where
  "reader_seek hw C T pos rd =
     (let rd = rd\<lparr>rd_pending_trusted_end := None\<rparr>;
          chunk_file_pos = canonical_chunk_address (chunk_begin pos)
      in case seek_source chunk_file_pos rd of
           (Inl e, rd) \<Rightarrow> Some (Inl e, rd)
         | (Inr _, rd) \<Rightarrow>
             let rd = rd\<lparr>rd_current_decoder := None, rd_at_eof := False, rd_next_chunk_file_pos := chunk_file_pos,
                        rd_current_chunk_begin := chunk_file_pos, rd_current_record_index := 0\<rparr>
             in case load_chunk_at hw C T chunk_file_pos rd of
                  None \<Rightarrow> None
                | Some (Inr None, rd) \<Rightarrow>
                    Some (Inr (), rd\<lparr>rd_at_eof := True, rd_pos := RecordPosition chunk_file_pos (record_index pos)\<rparr>)
                | Some (Inl e, rd) \<Rightarrow>
                    (case try_recover_at hw (rd_next_chunk_file_pos rd) e rd of
                       None \<Rightarrow> None
                     | Some (True, rd) \<Rightarrow> Some (Inr (), rd\<lparr>rd_pos := RecordPosition (rd_next_chunk_file_pos rd) 0\<rparr>)
                     | Some (False, rd) \<Rightarrow> Some (Inl e, rd))
                | Some (Inr (Some decoder), rd) \<Rightarrow>
                    let rd = rd\<lparr>rd_current_decoder := Some decoder\<rparr>;
                        n = (if rd_current_chunk_begin rd = chunk_file_pos then record_index pos else 0)
                    in (case skip_records T (unat n) rd of
                          None \<Rightarrow> None
                        | Some (Inl e, rd) \<Rightarrow> Some (Inl e, rd)
                        | Some (Inr _, rd) \<Rightarrow>
                            Some (Inr (), rd\<lparr>rd_pos := RecordPosition chunk_file_pos (rd_current_record_index rd)\<rparr>)))"

definition resolve_scan_origin :: "hasher \<Rightarrow> u64 \<Rightarrow> (('t, 'c) RecordReader, u64) action" where
  "resolve_scan_origin hw target =
     then_do (\<lambda>rd. if rd_stream_len rd < target then measure_stream rd else (Inr (), rd)) (\<lambda>_ rd.
       let block_begin = round_down_to_block_boundary (min target (rd_stream_len rd))
       in if block_begin = 0 then (Inr FIRST_CHUNK, rd)
          else then_do (seek_source block_begin) (\<lambda>_ rd.
            case read_full 24 rd of
              (Inl _, rd) \<Rightarrow> (Inr FIRST_CHUNK, rd)
            | (Inr bh_bytes, rd) \<Rightarrow>
                let bh = block_from_bytes bh_bytes
                in if length bh_bytes < 24 \<or> \<not> block_is_valid hw bh then (Inr FIRST_CHUNK, rd)
                   else
                     (case (if previous_chunk bh = 0 then Some block_begin
                            else
                              let nxt = saturating_add block_begin (next_chunk bh)
                              in if target < nxt then checked_sub block_begin (previous_chunk bh) else Some nxt) of
                        None \<Rightarrow> (Inr FIRST_CHUNK, rd)
                      | Some cb \<Rightarrow>
                          if cb < FIRST_CHUNK \<or> \<not> is_possible_chunk_boundary cb then (Inr FIRST_CHUNK, rd)
                          else (Inr cb, rd))) rd)"

text \<open>One round of the loop of \<open>seek_numeric\<close>.\<close>

definition seek_numeric_step ::
  "hasher \<Rightarrow> codec \<Rightarrow> 't transposed \<Rightarrow> u64 \<Rightarrow> u64 \<times> ('t, 'c) RecordReader \<Rightarrow>
   ((u64 \<times> ('t, 'c) RecordReader) + (unit res \<times> ('t, 'c) RecordReader)) option" where
  "seek_numeric_step hw C T target = (\<lambda>(scan_pos, rd).
     case peek_chunk_header hw scan_pos rd of
       (Inr None, rd) \<Rightarrow>
         Some (Inr (Inr (), rd\<lparr>rd_at_eof := True, rd_pos := RecordPosition scan_pos 0, rd_current_decoder := None,
           rd_current_chunk_begin := scan_pos, rd_current_record_index := 0, rd_next_chunk_file_pos := scan_pos\<rparr>))
     | (Inl e, rd) \<Rightarrow>
         if rd_recovery rd \<noteq> None then
           (case try_recover_at hw scan_pos e rd of
              None \<Rightarrow> None
            | Some (True, rd) \<Rightarrow> Some (Inl (rd_next_chunk_file_pos rd, rd))
            | Some (False, rd) \<Rightarrow> Some (Inr (Inl e, rd)))
         else Some (Inr (Inl e, rd))
     | (Inr (Some ch), rd) \<Rightarrow>
         if target \<le> scan_pos then map_option Inr (reader_seek hw C T (RecordPosition scan_pos 0) rd)
         else if target < scan_pos + ch_num_records ch
         then map_option Inr (reader_seek hw C T (RecordPosition scan_pos (target - scan_pos)) rd)
         else Some (Inl (chunk_end scan_pos (ch_data_size ch) (ch_num_records ch), rd)))"

definition seek_numeric ::
  "hasher \<Rightarrow> codec \<Rightarrow> 't transposed \<Rightarrow> u64 \<Rightarrow> ('t, 'c) RecordReader \<Rightarrow> (unit res \<times> ('t, 'c) RecordReader) option" where
  "seek_numeric hw C T target rd =
     (case resolve_scan_origin hw target (rd\<lparr>rd_pending_trusted_end := None\<rparr>) of
        (Inl e, rd) \<Rightarrow> Some (Inl e, rd)
      | (Inr scan_pos, rd) \<Rightarrow> iterate (seek_numeric_step hw C T target) (scan_pos, rd))"

definition chunk_before_step ::
  "hasher \<Rightarrow> u64 \<Rightarrow> u64 \<times> ('t, 'c) RecordReader \<Rightarrow>
   ((u64 \<times> ('t, 'c) RecordReader) + ((u64 \<times> ChunkHeader) option res \<times> ('t, 'c) RecordReader)) option" where
  "chunk_before_step hw target = (\<lambda>(scan_pos, rd).
     Some (case peek_chunk_header hw scan_pos rd of
        (Inl e, rd) \<Rightarrow> Inr (Inl e, rd)
      | (Inr None, rd) \<Rightarrow> Inr (Inr None, rd)
      | (Inr (Some ch), rd) \<Rightarrow>
          let e = chunk_end scan_pos (ch_data_size ch) (ch_num_records ch)
          in if target < e then Inr (Inr (Some (scan_pos, ch)), rd) else Inl (e, rd)))"

definition find_chunk_before ::
  "hasher \<Rightarrow> u64 \<Rightarrow> ('t, 'c) RecordReader \<Rightarrow> ((u64 \<times> ChunkHeader) option res \<times> ('t, 'c) RecordReader) option" where
  "find_chunk_before hw target rd =
     (case resolve_scan_origin hw target rd of
        (Inl e, rd) \<Rightarrow> Some (Inl e, rd)
      | (Inr scan_pos, rd) \<Rightarrow> iterate (chunk_before_step hw target) (scan_pos, rd))"

definition seek_back_step ::
  "hasher \<Rightarrow> codec \<Rightarrow> 't transposed \<Rightarrow> u64 \<times> ('t, 'c) RecordReader \<Rightarrow>
   ((u64 \<times> ('t, 'c) RecordReader) + (bool res \<times> ('t, 'c) RecordReader)) option" where
  "seek_back_step hw C T = (\<lambda>(cpos, rd).
     if FIRST_CHUNK < cpos then
       case find_chunk_before hw (cpos - 1) rd of
         None \<Rightarrow> None
       | Some (Inl e, rd) \<Rightarrow> Some (Inr (Inl e, rd))
       | Some (Inr None, rd) \<Rightarrow> Some (Inr (Inr False, rd))
       | Some (Inr (Some (cb, ch)), rd) \<Rightarrow>
           if 0 < ch_num_records ch
           then map_option (\<lambda>(r, rd). Inr (map_sum id (\<lambda>_. True) r, rd))
                  (reader_seek hw C T (RecordPosition cb (ch_num_records ch - 1)) rd)
           else if cpos \<le> cb then Some (Inr (Inr False, rd))
           else Some (Inl (cb, rd))
     else Some (Inr (Inr False, rd)))"

definition seek_back ::
  "hasher \<Rightarrow> codec \<Rightarrow> 't transposed \<Rightarrow> ('t, 'c) RecordReader \<Rightarrow> (bool res \<times> ('t, 'c) RecordReader) option" where
  "seek_back hw C T rd =
     (let rd = rd\<lparr>rd_pending_trusted_end := None\<rparr>
      in if 0 < rd_current_record_index rd
         then map_option (\<lambda>(r, rd). (map_sum id (\<lambda>_. True) r, rd))
                (reader_seek hw C T (RecordPosition (rd_current_chunk_begin rd) (rd_current_record_index rd - 1)) rd)
         else iterate (seek_back_step hw C T) (rd_current_chunk_begin rd, rd))"

end
