(* ===== verification/ReaderLayout.thy ===== *)
theory ReaderLayout
  imports RecordReader WriterSession
begin

text \<open>
  What the reader finds in a well-formed file.  The source is calm: nothing fails and the file does
  not change, but reads may be short or interrupted.  Reading at a chunk's position then returns
  the chunk's header and data, wherever the block headers lie.
\<close>

section \<open>Actions that only move the source\<close>

abbreviation content :: "('t, 'c) RecordReader \<Rightarrow> bytes" where
  "content rd \<equiv> src_bytes (rd_reader rd)"

definition only_source :: "('t, 'c) RecordReader \<Rightarrow> ('t, 'c) RecordReader \<Rightarrow> bool" where
  "only_source rd rd' \<longleftrightarrow> (\<exists>s. rd' = rd\<lparr>rd_reader := s\<rparr> \<and> same_file (rd_reader rd) s)"

lemma only_source_refl: "calm (rd_reader rd) \<Longrightarrow> only_source rd rd"
  unfolding only_source_def by (rule exI [of _ "rd_reader rd"]) (simp add: same_file_refl)

lemma only_source_trans: "only_source rd rd1 \<Longrightarrow> only_source rd1 rd2 \<Longrightarrow> only_source rd rd2"
  by (auto simp: only_source_def same_file_def)

lemma only_sourceD:
  assumes "only_source rd rd'"
  shows "calm (rd_reader rd')" "content rd' = content rd" "rd_stream_len rd' = rd_stream_len rd"
    "rd_recovery rd' = rd_recovery rd" "rd_field_projection rd' = rd_field_projection rd"
    "rd_current_chunk_begin rd' = rd_current_chunk_begin rd" "rd_next_chunk_file_pos rd' = rd_next_chunk_file_pos rd"
    "rd_current_decoder rd' = rd_current_decoder rd" "rd_current_record_index rd' = rd_current_record_index rd"
    "rd_pos rd' = rd_pos rd" "rd_last_pos rd' = rd_last_pos rd" "rd_at_eof rd' = rd_at_eof rd"
    "rd_last_record_is_valid rd' = rd_last_record_is_valid rd"
    "rd_last_skipped_region rd' = rd_last_skipped_region rd" "rd_pending_trusted_end rd' = rd_pending_trusted_end rd"
  using assms by (auto simp: only_source_def same_file_def)

lemma seek_source_calm:
  assumes "calm (rd_reader rd)"
  obtains rd' where "seek_source p rd = (Inr (), rd')" "only_source rd rd'" "src_pos (rd_reader rd') = unat p"
proof -
  obtain s where "src_seek p (rd_reader rd) = (Inr (), s)" "same_file (rd_reader rd) s" "src_pos s = unat p"
    using src_seek_calm [OF assms] .
  then show ?thesis by (intro that [of "rd\<lparr>rd_reader := s\<rparr>"]) (auto simp: on_source_def only_source_def)
qed

lemma read_full_calm:
  assumes "calm (rd_reader rd)"
  obtains rd' where "read_full n rd = (Inr (take n (drop (src_pos (rd_reader rd)) (content rd))), rd')"
    "only_source rd rd'" "src_pos (rd_reader rd') = src_pos (rd_reader rd) + length (take n (drop (src_pos (rd_reader rd)) (content rd)))"
proof -
  obtain s where "src_read_full n (rd_reader rd) = (Inr (take n (drop (src_pos (rd_reader rd)) (content rd))), s)"
    "same_file (rd_reader rd) s" "src_pos s = src_pos (rd_reader rd) + length (take n (drop (src_pos (rd_reader rd)) (content rd)))"
    using src_read_full_calm [OF assms] .
  then show ?thesis by (intro that [of "rd\<lparr>rd_reader := s\<rparr>"]) (auto simp: on_source_def only_source_def)
qed

lemma seek_read_full:
  assumes "calm (rd_reader rd)" "unat p = q"
  obtains rd' where "then_do (seek_source p) (\<lambda>_. read_full n) rd = (Inr (take n (drop q (content rd))), rd')"
    "only_source rd rd'"
proof -
  obtain rd1 where r1: "seek_source p rd = (Inr (), rd1)" "only_source rd rd1" "src_pos (rd_reader rd1) = q"
    using seek_source_calm [OF assms(1), of p] assms(2) by blast
  obtain rd2 where "read_full n rd1 = (Inr (take n (drop (src_pos (rd_reader rd1)) (content rd1))), rd2)" "only_source rd1 rd2"
    using read_full_calm [OF only_sourceD(1) [OF r1(2)]] .
  then show ?thesis using r1 only_source_trans by (intro that [of rd2]) (simp_all add: only_sourceD)
qed

lemma read_exact_calm:
  assumes "calm (rd_reader rd)" "src_pos (rd_reader rd) + n \<le> length (content rd)"
  obtains rd' where "read_exact n rd = (Inr (take n (drop (src_pos (rd_reader rd)) (content rd))), rd')"
    "only_source rd rd'" "src_pos (rd_reader rd') = src_pos (rd_reader rd) + n"
proof -
  obtain s where s: "same_file (rd_reader rd) s"
    "src_pos s = src_pos (rd_reader rd) + length (take n (drop (src_pos (rd_reader rd)) (content rd)))"
    "src_read_exact n (rd_reader rd) = (if n \<le> length (content rd) - src_pos (rd_reader rd)
       then Inr (take n (drop (src_pos (rd_reader rd)) (content rd)))
       else Inl (IoError ''failed to fill whole buffer''), s)"
    using src_read_exact_calm [OF assms(1)] .
  then show ?thesis using assms(2)
    by (intro that [of "rd\<lparr>rd_reader := s\<rparr>"]) (auto simp: on_source_def only_source_def)
qed

section \<open>The header\<close>

definition image_header :: "hasher \<Rightarrow> nat \<Rightarrow> nat \<Rightarrow> nat \<Rightarrow> BlockHeader" where
  "image_header hw b e B = block_from_parts hw (of_nat (B - b)) (of_nat (e - B))"

lemma header_at_image: "header_at hw b e B = block_to_bytes (image_header hw b e B)"
  by (simp add: header_at_def image_header_def)

lemma previous_in_image:
  "b \<le> B \<Longrightarrow> B \<le> u64_max \<Longrightarrow> checked_sub (of_nat B) (previous_chunk (image_header hw b e B)) = Some (of_nat b)"
proof -
  assume "b \<le> B" "B \<le> u64_max"
  then have "unat (of_nat (B - b) :: u64) = B - b" "unat (of_nat B :: u64) = B"
    by (intro unat_of_nat_u64; linarith)+
  then have "(of_nat (B - b) :: u64) \<le> of_nat B" by (simp only: word_le_nat_alt)
  with \<open>b \<le> B\<close> show ?thesis by (simp add: image_header_def checked_sub_eq_Some of_nat_diff)
qed

lemma next_in_image:
  "B \<le> e \<Longrightarrow> e \<le> u64_max \<Longrightarrow> checked_add (of_nat B) (next_chunk (image_header hw b e B)) = Some (of_nat e)"
proof -
  assume "B \<le> e" "e \<le> u64_max"
  then have "unat (of_nat B :: u64) + unat (of_nat (e - B) :: u64) = e"
    by (subst (1 2) unat_of_nat_u64) simp_all
  with \<open>B \<le> e\<close> \<open>e \<le> u64_max\<close> show ?thesis by (simp add: image_header_def checked_add_eq_Some of_nat_diff)
qed

lemma pass_block_header_image:
  assumes "calm (rd_reader rd)" "take 24 (drop B (content rd)) = header_at hw b e B" "b \<le> B" "B \<le> u64_max"
  obtains rd' where "pass_block_header hw (of_nat b) (of_nat B) c rd = (Inr (Some (image_header hw b e B)), rd')"
    "only_source rd rd'"
proof -
  obtain rd1 where r1: "then_do (seek_source (of_nat B)) (\<lambda>_. read_full 24) rd = (Inr (take 24 (drop B (content rd))), rd1)"
    "only_source rd rd1"
    using seek_read_full [OF assms(1) unat_of_nat_u64 [OF assms(4)]] .
  have "block_is_valid hw (image_header hw b e B)" by (simp add: image_header_def)
  then show ?thesis
    using r1 previous_in_image [OF assms(3,4), of hw e]
    by (intro that [of rd1])
       (simp_all add: pass_block_header_def then_do_assoc [where f = "\<lambda>_. read_full 24"] Let_def assms(2) header_at_image)
qed

text \<open>
  The bytes that are still needed, \<open>need\<close>, lie at \<open>p\<close>, interleaved with block headers.  The loop
  collects them and stops behind them.
\<close>

lemma fill_header_image:
  assumes "calm (rd_reader rd)" "chunk_pos p" "b \<le> p" "length filled + length need = 40"
    "drop p (content rd) = interleave (header_at hw b e) p need @ rest"
    "p + length (interleave (header_at hw b e) p need) \<le> u64_max"
  shows "\<exists>rd' i'. fill_header hw (of_nat b) (of_nat p) filled c i rd =
      (Inr (Some (filled @ need, of_nat (p + length (interleave (header_at hw b e) p need)), i')), rd') \<and>
    only_source rd rd' \<and>
    (i' = i \<or> (\<exists>B. i' = Some (of_nat B, image_header hw b e B) \<and> B < p + length (interleave (header_at hw b e) p need)))"
  using assms
proof (induction "length need" arbitrary: p filled need c i rd rule: less_induct)
  case less
  let ?H = "header_at hw b e"
  note step = fill_header.simps [of hw "of_nat b" "of_nat p" filled c i rd]
  show ?case
  proof (cases "need = []")
    case True
    then show ?thesis using less.prems step by (auto intro: only_source_refl)
  next
    case False
    then have f40: "length filled < 40" using less.prems(4) by (cases need) auto
    define p' where "p' = (if p mod 65536 = 0 then p + 24 else p)"
    define n where "n = min (length need) (65536 - p' mod 65536)"
    have lay: "interleave ?H p need = (if p mod 65536 = 0 then ?H p else []) @ take n need @ interleave ?H (p' + n) (drop n need)"
      "p + length (interleave ?H p (take n need)) = p' + n"
      using interleave_round [where H = ?H, OF length_header_at False p'_def n_def] by blast+
    have n0: "0 < n" using False by (simp add: n_def)
    have lt: "length (take n need) = n" by (simp add: n_def)
    have end_eq: "p + length (interleave ?H p need) = p' + n + length (interleave ?H (p' + n) (drop n need))"
      unfolding lay(1) using p'_def lt by simp
    have pb: "p \<le> u64_max" "p' \<le> u64_max" using less.prems(6) end_eq by (simp_all add: p'_def split: if_splits)
    have up: "unat (of_nat p :: u64) = p" "unat (of_nat p' :: u64) = p'" using pb by (simp_all add: unat_of_nat_u64)
    have bnd: "is_block_boundary (of_nat p) \<longleftrightarrow> p mod 65536 = 0" using up by (simp add: is_block_boundary_iff)
    have cp': "chunk_pos (p' + n)" using chunk_pos_interleave(1) [where H = ?H, OF length_header_at less.prems(2), of "take n need"] lay(2)
      by simp
    define i1 where "i1 = (if p mod 65536 = 0 \<and> filled \<noteq> [] then Some (of_nat p, image_header hw b e p) else i)"
    define c1 where "c1 = (if p mod 65536 = 0 then True else c)"
    obtain rd1 where r1: "(if is_block_boundary (of_nat p)
              then then_do (pass_block_header hw (of_nat b) (of_nat p) c)
                (\<lambda>bh. ret (map_option (\<lambda>bh.
                   (of_nat p + BLOCK_HEADER_SIZE, True, if filled \<noteq> [] then Some (of_nat p, bh) else i)) bh)) rd
              else (Inr (Some (of_nat p, c, i)), rd)) = (Inr (Some (of_nat p', c1, i1)), rd1)" "only_source rd rd1"
    proof (cases "p mod 65536 = 0")
      case True
      have "take 24 (drop p (content rd)) = ?H p" unfolding less.prems(5) lay(1) using True by simp
      then obtain rd1 where "pass_block_header hw (of_nat b) (of_nat p) c rd = (Inr (Some (image_header hw b e p)), rd1)"
        "only_source rd rd1"
        using pass_block_header_image [OF less.prems(1)] less.prems(3) pb(1) by blast
      then show ?thesis using True bnd
        by (intro that [of rd1]) (simp_all add: then_do_Inr p'_def c1_def i1_def block_consts(2))
    next
      case False
      then show ?thesis using bnd less.prems(1)
        by (intro that [of rd]) (simp_all add: p'_def c1_def i1_def only_source_refl)
    qed
    have n_eq: "min (40 - length filled) (unat (BLOCK_SIZE - of_nat p' mod BLOCK_SIZE)) = n"
      using less.prems(4) up by (simp add: until_boundary(1) n_def)
    have dp': "drop p' (content rd) = take n need @ interleave ?H (p' + n) (drop n need) @ rest"
    proof -
      have "drop p' (content rd) = drop (p' - p) (drop p (content rd))" by (simp add: p'_def)
      then show ?thesis unfolding less.prems(5) lay(1) by (simp add: p'_def)
    qed
    have "take n (drop p' (content rd1)) = take n need" unfolding only_sourceD(2) [OF r1(2)] dp' using lt by simp
    then obtain rd2 where r2: "then_do (seek_source (of_nat p')) (\<lambda>_. read_full n) rd1 = (Inr (take n need), rd2)" "only_source rd1 rd2"
      using seek_read_full [OF only_sourceD(1) [OF r1(2)] up(2), of n] by metis
    have o2: "only_source rd rd2" using r1(2) r2(2) by (rule only_source_trans)
    have "\<exists>rd' i'. fill_header hw (of_nat b) (of_nat (p' + n)) (filled @ take n need) True i1 rd2 =
        (Inr (Some ((filled @ take n need) @ drop n need, of_nat (p' + n + length (interleave ?H (p' + n) (drop n need))), i')), rd') \<and>
      only_source rd2 rd' \<and>
      (i' = i1 \<or> (\<exists>B. i' = Some (of_nat B, image_header hw b e B) \<and> B < p' + n + length (interleave ?H (p' + n) (drop n need))))"
    proof (rule less.hyps)
      show "length (drop n need) < length need" using n0 False by simp
      show "calm (rd_reader rd2)" using only_sourceD(1) [OF o2] .
      show "b \<le> p' + n" using less.prems(3) by (simp add: p'_def)
      show "length (filled @ take n need) + length (drop n need) = 40" using less.prems(4) by (simp add: n_def)
      have "drop (p' + n) (content rd) = drop n (drop p' (content rd))" by (simp add: add.commute)
      then show "drop (p' + n) (content rd2) = interleave ?H (p' + n) (drop n need) @ rest"
        unfolding dp' only_sourceD(2) [OF o2] using lt by simp
      show "p' + n + length (interleave ?H (p' + n) (drop n need)) \<le> u64_max" using less.prems(6) end_eq by simp
    qed (rule cp')
    then obtain rd' i' where rec: "fill_header hw (of_nat b) (of_nat (p' + n)) (filled @ take n need) True i1 rd2 =
        (Inr (Some ((filled @ take n need) @ drop n need, of_nat (p' + n + length (interleave ?H (p' + n) (drop n need))), i')), rd')"
      "only_source rd2 rd'"
      "i' = i1 \<or> (\<exists>B. i' = Some (of_nat B, image_header hw b e B) \<and> B < p' + n + length (interleave ?H (p' + n) (drop n need)))"
      by blast
    have "fill_header hw (of_nat b) (of_nat p) filled c i rd =
        fill_header hw (of_nat b) (of_nat (p' + n)) (filled @ take n need) True i1 rd2"
      unfolding step r1(1) using f40 r2(1) lt n_eq by (simp add: Let_def add.commute)
    then have "fill_header hw (of_nat b) (of_nat p) filled c i rd =
        (Inr (Some (filled @ need, of_nat (p + length (interleave ?H p need)), i')), rd')"
      using rec(1) by (simp add: end_eq)
    moreover have "p < p' + n" using n0 by (simp add: p'_def)
    then have "i' = i \<or> (\<exists>B. i' = Some (of_nat B, image_header hw b e B) \<and> B < p + length (interleave ?H p need))"
      using rec(3) unfolding end_eq i1_def by (auto split: if_splits)
    ultimately show ?thesis using only_source_trans [OF o2 rec(2)] by blast
  qed
qed

section \<open>The data\<close>

lemma pass_data_header_image:
  assumes "calm (rd_reader rd)" "take 24 (drop B (content rd)) = header_at hw b e B" "b \<le> B" "B + 24 \<le> e" "e \<le> u64_max"
    "B + 24 \<le> length (content rd)"
  obtains rd' where "pass_data_header hw (of_nat b) (of_nat e) (of_nat B) rd = (Inr (), rd')"
    "only_source rd rd'" "src_pos (rd_reader rd') = B + 24"
proof -
  have uB: "unat (of_nat B :: u64) = B" "unat (of_nat B + BLOCK_HEADER_SIZE) = B + 24"
    using assms(4,5) unat_add_nat [of "of_nat B" 24] by (simp_all add: unat_of_nat_u64 block_consts(2))
  obtain rd1 where r1: "seek_source (of_nat B) rd = (Inr (), rd1)" "only_source rd rd1" "src_pos (rd_reader rd1) = B"
    using seek_source_calm [OF assms(1), of "of_nat B"] uB by auto
  obtain rd2 where r2: "read_exact 24 rd1 = (Inr (take 24 (drop B (content rd))), rd2)" "only_source rd1 rd2"
    using read_exact_calm [OF only_sourceD(1) [OF r1(2)], of 24] r1(3) assms(6) unfolding only_sourceD(2) [OF r1(2)] by metis
  obtain rd3 where r3: "seek_source (of_nat B + BLOCK_HEADER_SIZE) rd2 = (Inr (), rd3)" "only_source rd2 rd3"
    "src_pos (rd_reader rd3) = B + 24"
    using seek_source_calm [OF only_sourceD(1) [OF r2(2)], of "of_nat B + BLOCK_HEADER_SIZE"] uB(2) by auto
  have "block_is_valid hw (image_header hw b e B)" by (simp add: image_header_def)
  moreover have "B \<le> u64_max" "B \<le> e" using assms(4,5) by simp_all
  ultimately have "pass_data_header hw (of_nat b) (of_nat e) (of_nat B) rd = (Inr (), rd3)"
    using r1(1) r2(1) r3(1) previous_in_image [OF assms(3) \<open>B \<le> u64_max\<close>, of hw e] next_in_image [OF \<open>B \<le> e\<close> assms(5), of hw b]
    by (simp add: pass_data_header_def Let_def assms(2) header_at_image)
  then show ?thesis using only_source_trans [OF r1(2) only_source_trans [OF r2(2) r3(2)]] r3(3) that by blast
qed

lemma interleave_length: "length bs \<le> length (interleave H pos bs)"
proof (induction bs arbitrary: pos)
  case (Cons b bs)
  from Cons.IH [of "pos + 25"] Cons.IH [of "Suc pos"] show ?case by simp
qed simp

lemma read_data_image:
  assumes "calm (rd_reader rd)" "src_pos (rd_reader rd) = p" "chunk_pos p" "b \<le> p"
    "drop p (content rd) = interleave (header_at hw b e) p need @ rest"
    "p + length (interleave (header_at hw b e) p need) \<le> e" "e \<le> u64_max"
  shows "\<exists>rd'. read_data_loop hw (of_nat b) (of_nat e) (of_nat p) (of_nat (length need)) result rd =
      (Inr (result @ need), rd') \<and> only_source rd rd'"
  using assms
proof (induction "length need" arbitrary: p need result rd rule: less_induct)
  case less
  let ?H = "header_at hw b e"
  note step = read_data_loop.simps [of hw "of_nat b" "of_nat e" "of_nat p" "of_nat (length need)" result rd]
  show ?case
  proof (cases "need = []")
    case True
    then show ?thesis using less.prems step by (auto intro: only_source_refl)
  next
    case False
    define p' where "p' = (if p mod 65536 = 0 then p + 24 else p)"
    define n where "n = min (length need) (65536 - p' mod 65536)"
    have lay: "interleave ?H p need = (if p mod 65536 = 0 then ?H p else []) @ take n need @ interleave ?H (p' + n) (drop n need)"
      "p + length (interleave ?H p (take n need)) = p' + n"
      using interleave_round [where H = ?H, OF length_header_at False p'_def n_def] by blast+
    have n0: "0 < n" "n \<le> length need" using False by (simp_all add: n_def)
    have lt: "length (take n need) = n" by (simp add: n_def)
    have end_eq: "p + length (interleave ?H p need) = p' + n + length (interleave ?H (p' + n) (drop n need))"
      unfolding lay(1) using p'_def lt by simp
    have pe: "p' + n \<le> e" "p' \<le> u64_max" "p \<le> u64_max" using less.prems(6,7) end_eq by (simp_all add: p'_def split: if_splits)
    have up: "unat (of_nat p :: u64) = p" "unat (of_nat p' :: u64) = p'" using pe by (simp_all add: unat_of_nat_u64)
    have bnd: "is_block_boundary (of_nat p) \<longleftrightarrow> p mod 65536 = 0" using up by (simp add: is_block_boundary_iff)
    have ln: "length need \<le> u64_max" using interleave_length [of need ?H p] less.prems(6,7) by linarith
    then have un: "unat (of_nat (length need) :: u64) = length need" by (rule unat_of_nat_u64)
    have clen: "p' + n \<le> length (content rd)"
    proof -
      have "length (drop p (content rd)) \<ge> p' + n - p" unfolding less.prems(5) using end_eq by simp
      then show ?thesis using n0 by (simp add: p'_def split: if_splits)
    qed
    have cp': "chunk_pos (p' + n)" using chunk_pos_interleave(1) [where H = ?H, OF length_header_at less.prems(3), of "take n need"] lay(2)
      by simp
    obtain rd1 where r1: "(if is_block_boundary (of_nat p)
              then then_do (pass_data_header hw (of_nat b) (of_nat e) (of_nat p)) (\<lambda>_. ret (of_nat p + BLOCK_HEADER_SIZE)) rd
              else (Inr (of_nat p), rd)) = (Inr (of_nat p'), rd1)" "only_source rd rd1" "src_pos (rd_reader rd1) = p'"
    proof (cases "p mod 65536 = 0")
      case True
      have t: "take 24 (drop p (content rd)) = ?H p" unfolding less.prems(5) lay(1) using True by simp
      have h: "p + 24 \<le> e" "p + 24 \<le> length (content rd)" using pe(1) clen True by (simp_all add: p'_def)
      obtain rd1 where "pass_data_header hw (of_nat b) (of_nat e) (of_nat p) rd = (Inr (), rd1)"
        "only_source rd rd1" "src_pos (rd_reader rd1) = p + 24"
        using pass_data_header_image [OF less.prems(1) t less.prems(4) h(1) less.prems(7) h(2)] .
      then show ?thesis using True bnd
        by (intro that [of rd1]) (simp_all add: then_do_Inr p'_def block_consts(2))
    next
      case False
      then show ?thesis using bnd less.prems(1,2)
        by (intro that [of rd]) (simp_all add: p'_def only_source_refl)
    qed
    have dp': "drop p' (content rd) = take n need @ interleave ?H (p' + n) (drop n need) @ rest"
    proof -
      have "drop p' (content rd) = drop (p' - p) (drop p (content rd))" by (simp add: p'_def)
      then show ?thesis unfolding less.prems(5) lay(1) by (simp add: p'_def)
    qed
    have "take n (drop p' (content rd1)) = take n need" unfolding only_sourceD(2) [OF r1(2)] dp' using lt by simp
    then obtain rd2 where r2: "read_exact n rd1 = (Inr (take n need), rd2)" "only_source rd1 rd2" "src_pos (rd_reader rd2) = p' + n"
      using read_exact_calm [OF only_sourceD(1) [OF r1(2)], of n] r1(3) clen only_sourceD(2) [OF r1(2)] by metis
    have o2: "only_source rd rd2" using r1(2) r2(2) by (rule only_source_trans)
    define tr where "tr = min (of_nat (length need)) (BLOCK_SIZE - of_nat p' mod BLOCK_SIZE)"
    have tr: "unat tr = n" using un up by (auto simp: tr_def n_def min_def word_le_nat_alt until_boundary(1))
    then have tr_n: "tr = of_nat n" by (simp flip: tr)
    have rem: "of_nat (length need) - tr = (of_nat (length (drop n need)) :: u64)" using n0 by (simp add: tr_n of_nat_diff)
    have "\<exists>rd'. read_data_loop hw (of_nat b) (of_nat e) (of_nat (p' + n)) (of_nat (length (drop n need))) (result @ take n need) rd2 =
        (Inr ((result @ take n need) @ drop n need), rd') \<and> only_source rd2 rd'"
    proof (rule less.hyps)
      show "length (drop n need) < length need" using n0 False by simp
      show "calm (rd_reader rd2)" using only_sourceD(1) [OF o2] .
      show "b \<le> p' + n" using less.prems(4) by (simp add: p'_def)
      have "drop (p' + n) (content rd) = drop n (drop p' (content rd))" by (simp add: add.commute)
      then show "drop (p' + n) (content rd2) = interleave ?H (p' + n) (drop n need) @ rest"
        unfolding dp' only_sourceD(2) [OF o2] using lt by simp
      show "p' + n + length (interleave ?H (p' + n) (drop n need)) \<le> e" using less.prems(6) end_eq by simp
    qed (rule r2(3), rule cp', rule less.prems(7))
    then obtain rd' where rec: "read_data_loop hw (of_nat b) (of_nat e) (of_nat (p' + n)) (of_nat (length (drop n need)))
        (result @ take n need) rd2 = (Inr (result @ need), rd')" "only_source rd2 rd'" by auto
    have "0 < (of_nat (length need) :: u64)" using un False by (simp add: word_less_nat_alt)
    then have "read_data_loop hw (of_nat b) (of_nat e) (of_nat p) (of_nat (length need)) result rd =
        read_data_loop hw (of_nat b) (of_nat e) (of_nat (p' + n)) (of_nat (length (drop n need))) (result @ take n need) rd2"
      unfolding step r1(1) using r2(1) rem tr tr_n by (simp add: Let_def tr_def [symmetric] add.commute)
    then show ?thesis using rec only_source_trans [OF o2 rec(2)] by auto
  qed
qed

section \<open>A chunk of the image\<close>

definition settled :: "('t, 'c) RecordReader \<Rightarrow> bool" where
  "settled rd \<longleftrightarrow> calm (rd_reader rd) \<and> length (content rd) \<le> 2 ^ 63 \<and> rd_stream_len rd = of_nat (length (content rd))"

lemma settled_only_source: "settled rd \<Longrightarrow> only_source rd rd' \<Longrightarrow> settled rd'"
  by (auto simp: settled_def only_source_def same_file_def)

lemma settled_refl: "settled rd \<Longrightarrow> only_source rd rd"
  by (simp add: settled_def only_source_refl)

definition chunk_at :: "hasher \<Rightarrow> nat \<Rightarrow> Chunk \<Rightarrow> ('t, 'c) RecordReader \<Rightarrow> bool" where
  "chunk_at hw b c rd \<longleftrightarrow> chunk_pos b \<and> ch_data_size (chunk_header c) = of_nat (length (chunk_data c)) \<and>
     (\<exists>rest. drop b (content rd) = chunk_image hw b (chunk_header c) (chunk_data c) @ rest)"

abbreviation chunk_stop :: "nat \<Rightarrow> Chunk \<Rightarrow> nat" where
  "chunk_stop b c \<equiv> chunk_size_at b (chunk_header c) (chunk_data c)"

definition data_start :: "hasher \<Rightarrow> nat \<Rightarrow> Chunk \<Rightarrow> nat" where
  "data_start hw b c = b + length (interleave (header_at hw b (chunk_stop b c)) b (chunk_to_bytes (chunk_header c)))"

lemma chunk_at_only_source: "chunk_at hw b c rd \<Longrightarrow> only_source rd rd' \<Longrightarrow> chunk_at hw b c rd'"
  by (simp add: chunk_at_def only_sourceD)

lemma round_up_nat_ge: "p \<le> round_up_nat p"
proof (cases "chunk_pos p")
  case False
  then have "p mod 65536 < 25" by (auto simp: chunk_pos_def)
  moreover have "p = p div 65536 * 65536 + p mod 65536" by simp
  ultimately show ?thesis using False by (simp only: round_up_nat_def if_False)
qed (simp add: round_up_nat_def)

lemma chunk_stop_bounds:
  "usable_before b + 40 + length (chunk_data c) \<le> chunk_stop b c"
  "b + unat (ch_num_records (chunk_header c)) \<le> chunk_stop b c"
  using phys_end_ge [of "usable_before b + 40 + length (chunk_data c)"]
    round_up_nat_ge [of "b + unat (ch_num_records (chunk_header c))"]
  by (simp_all add: chunk_size_at_def chunk_end_nat_def)

lemma canonical_chunk_pos: "chunk_pos (unat p) \<Longrightarrow> canonical_chunk_address p = p"
  by (intro word_eq_unatI) (auto simp: unat_canonical chunk_pos_def)

lemma chunk_at_layout:
  assumes at: "chunk_at hw b c rd" and s: "settled rd"
  defines "e \<equiv> chunk_stop b c"
  obtains tail where
    "drop b (content rd) = interleave (header_at hw b e) b (chunk_to_bytes (chunk_header c)) @
       interleave (header_at hw b e) (data_start hw b c) (chunk_data c) @ tail"
    "drop (data_start hw b c) (content rd) = interleave (header_at hw b e) (data_start hw b c) (chunk_data c) @ tail"
    "data_start hw b c + length (interleave (header_at hw b e) (data_start hw b c) (chunk_data c)) \<le> e"
    "chunk_pos (data_start hw b c)" "e \<le> length (content rd)" "e \<le> 2 ^ 63"
proof -
  let ?H = "header_at hw b e" and ?h = "chunk_to_bytes (chunk_header c)" and ?p = "data_start hw b c"
  have cb: "chunk_pos b" using at by (simp add: chunk_at_def)
  obtain rest where d: "drop b (content rd) = chunk_image hw b (chunk_header c) (chunk_data c) @ rest"
    using at by (auto simp: chunk_at_def)
  define zeros where "zeros = (replicate (usable_before e - (usable_before b + 40 + length (chunk_data c))) 0 :: bytes)"
  have p: "?p = b + length (interleave ?H b ?h)" by (simp add: data_start_def e_def)
  have img: "chunk_image hw b (chunk_header c) (chunk_data c) = interleave ?H b ?h @ interleave ?H ?p (chunk_data c) @
      interleave ?H (?p + length (interleave ?H ?p (chunk_data c))) zeros"
    unfolding chunk_image_def Let_def e_def [symmetric] zeros_def [symmetric] p by (simp add: layout_append add.assoc)
  have len: "b + length (chunk_image hw b (chunk_header c) (chunk_data c)) = e"
    using chunk_image_end [OF cb] by (simp add: e_def)
  have "40 \<le> length (chunk_image hw b (chunk_header c) (chunk_data c))"
    using len chunk_size_at_gt [of b "chunk_header c" "chunk_data c"] unfolding e_def [symmetric] by simp
  then have "0 < length (drop b (content rd))" unfolding d length_append by linarith
  then have b: "b \<le> length (content rd)" by simp
  have "length (drop b (content rd)) = length (chunk_image hw b (chunk_header c) (chunk_data c)) + length rest"
    unfolding d by simp
  then have e: "e \<le> length (content rd)" using len b by simp
  have dp: "drop ?p (content rd) = drop (?p - b) (drop b (content rd))" by (simp add: p add.commute)
  show ?thesis
  proof (rule that)
    show "drop b (content rd) = interleave ?H b ?h @ interleave ?H ?p (chunk_data c) @
        (interleave ?H (?p + length (interleave ?H ?p (chunk_data c))) zeros @ rest)"
      unfolding d img by simp
    then show "drop ?p (content rd) = interleave ?H ?p (chunk_data c) @
        (interleave ?H (?p + length (interleave ?H ?p (chunk_data c))) zeros @ rest)"
      unfolding dp by (simp add: p)
    show "?p + length (interleave ?H ?p (chunk_data c)) \<le> e" using len unfolding img by (simp add: p)
    show "chunk_pos ?p" unfolding p using layout_pos(1) [OF cb] .
    show "e \<le> length (content rd)" by (rule e)
    show "e \<le> 2 ^ 63" using e s by (simp add: settled_def)
  qed
qed

lemma chunk_end_image:
  assumes at: "chunk_at hw b c rd" and s: "settled rd"
  shows "chunk_end (of_nat b) (ch_data_size (chunk_header c)) (ch_num_records (chunk_header c)) = of_nat (chunk_stop b c)"
    and "unat (of_nat (chunk_stop b c) :: u64) = chunk_stop b c" and "unat (of_nat b :: u64) = b"
proof -
  have e: "chunk_stop b c \<le> 2 ^ 63" using chunk_at_layout [OF at s] by metis
  have "length (chunk_data c) \<le> u64_max" "b \<le> u64_max" using chunk_stop_bounds [of b c] e by simp_all
  then have u: "unat (of_nat b :: u64) = b" "unat (ch_data_size (chunk_header c)) = length (chunk_data c)"
    using at by (simp_all add: chunk_at_def unat_of_nat_u64)
  show b: "unat (of_nat b :: u64) = b" by (rule u)
  show ue: "unat (of_nat (chunk_stop b c) :: u64) = chunk_stop b c" using e by (intro unat_of_nat_u64) simp
  have "is_possible_chunk_boundary (of_nat b)" using at u by (simp add: is_possible_chunk_boundary_iff chunk_at_def)
  moreover have bnd: "b + unat (ch_num_records (chunk_header c)) \<le> u64_max"
    using e chunk_stop_bounds(2) [of b c] by simp
  moreover have "chunk_fits (of_nat b) (ch_data_size (chunk_header c)) (ch_num_records (chunk_header c))"
    using e bnd by (simp add: chunk_fits_def chunk_size_at_def chunk_end_nat_def u)
  ultimately have "unat (chunk_end (of_nat b) (ch_data_size (chunk_header c)) (ch_num_records (chunk_header c))) = chunk_stop b c"
    by (simp add: unat_chunk_end u chunk_size_at_def)
  then show "chunk_end (of_nat b) (ch_data_size (chunk_header c)) (ch_num_records (chunk_header c)) = of_nat (chunk_stop b c)"
    by (intro word_eq_unatI) (simp add: ue)
qed

lemma read_header_chunk:
  assumes at: "chunk_at hw b c rd" and s: "settled rd"
  shows "\<exists>rd'. read_chunk_header_at hw (of_nat b) rd =
      (Inr (Some (chunk_header c, of_nat b, of_nat (data_start hw b c))), rd') \<and> only_source rd rd'"
proof -
  let ?e = "chunk_stop b c" and ?p = "data_start hw b c" and ?h = "chunk_header c"
  obtain tail where lay: "drop b (content rd) = interleave (header_at hw b ?e) b (chunk_to_bytes ?h) @
       interleave (header_at hw b ?e) ?p (chunk_data c) @ tail"
    "?p + length (interleave (header_at hw b ?e) ?p (chunk_data c)) \<le> ?e"
    "?e \<le> length (content rd)" "?e \<le> 2 ^ 63"
    using chunk_at_layout [OF at s] by metis
  note ce = chunk_end_image [OF at s]
  have cb: "chunk_pos b" using at by (simp add: chunk_at_def)
  have p: "?p = b + length (interleave (header_at hw b ?e) b (chunk_to_bytes ?h))" by (simp add: data_start_def)
  have "?p \<le> u64_max" using lay(2,4) by simp
  then obtain rd1 i where f: "fill_header hw (of_nat b) (of_nat b) [] False None rd =
      (Inr (Some (chunk_to_bytes ?h, of_nat ?p, i)), rd1)" "only_source rd rd1"
    "i = None \<or> (\<exists>B. i = Some (of_nat B, image_header hw b ?e B) \<and> B < ?p)"
    using fill_header_image [of rd b b "[]" "chunk_to_bytes ?h" hw ?e _ False None] s cb lay(1) p
    by (auto simp: settled_def)
  have s1: "rd_stream_len rd1 = of_nat (length (content rd))" "length (content rd) \<le> 2 ^ 63"
    using s only_sourceD(3) [OF f(2)] by (simp_all add: settled_def)
  have up: "unat (of_nat ?p :: u64) = ?p" "unat (of_nat (length (content rd)) :: u64) = length (content rd)"
    using lay(2,4) s1(2) by (simp_all add: unat_of_nat_u64)
  have "length (chunk_data c) \<le> length (interleave (header_at hw b ?e) ?p (chunk_data c))" by (rule interleave_length)
  then have claims: "\<not> claims_exceed ?h (of_nat b) (of_nat ?p) rd1"
    using lay(2,3) up ce(3) chunk_stop_bounds(2) [of b c] at s1(2)
    by (auto simp: claims_exceed_def word_less_nat_alt unat_saturating_sub s1(1) chunk_at_def unat_of_nat_u64)
  have int: "check_interior ?h (of_nat b) i = Inr ()"
  proof (cases i)
    case (Some Bh)
    with f(3) obtain B where B: "i = Some (of_nat B, image_header hw b ?e B)" "B < ?p" by auto
    have "B \<le> ?e" "?e \<le> u64_max" using B(2) lay(2,4) by simp_all
    with next_in_image [of B ?e hw b] B(1) ce(1) show ?thesis by (simp add: check_interior_def)
  qed (simp add: check_interior_def)
  have "canonical_chunk_address (of_nat b) = of_nat b" using canonical_chunk_pos ce(3) cb by simp
  then have "read_chunk_header_at hw (of_nat b) rd = (Inr (Some (?h, of_nat b, of_nat ?p)), rd1)"
    using f(1) claims int by (simp add: read_chunk_header_at_def Let_def check_claims_def then_do_def)
  then show ?thesis using f(2) by blast
qed

lemma read_data_chunk:
  assumes at: "chunk_at hw b c rd" and s: "settled rd"
  shows "\<exists>rd'. read_chunk_data hw (of_nat b) (of_nat (chunk_stop b c)) (of_nat (data_start hw b c))
      (ch_data_size (chunk_header c)) rd = (Inr (chunk_data c), rd') \<and> only_source rd rd'"
proof -
  let ?e = "chunk_stop b c" and ?p = "data_start hw b c"
  obtain tail where lay: "drop ?p (content rd) = interleave (header_at hw b ?e) ?p (chunk_data c) @ tail"
    "?p + length (interleave (header_at hw b ?e) ?p (chunk_data c)) \<le> ?e" "chunk_pos ?p" "?e \<le> 2 ^ 63"
    using chunk_at_layout [OF at s] by metis
  have up: "unat (of_nat ?p :: u64) = ?p" using lay(2,4) by (intro unat_of_nat_u64) simp
  obtain rd1 where r1: "seek_source (of_nat ?p) rd = (Inr (), rd1)" "only_source rd rd1" "src_pos (rd_reader rd1) = ?p"
    using seek_source_calm [of rd "of_nat ?p"] s up by (auto simp: settled_def)
  have "b \<le> ?p" by (simp add: data_start_def)
  moreover have "?e \<le> u64_max" using lay(4) by simp
  ultimately obtain rd2 where "read_data_loop hw (of_nat b) (of_nat ?e) (of_nat ?p) (of_nat (length (chunk_data c))) [] rd1 =
      (Inr (chunk_data c), rd2)" "only_source rd1 rd2"
    using read_data_image [of rd1 ?p b hw ?e "chunk_data c" tail "[]"] r1 lay by (auto simp: only_sourceD)
  then show ?thesis
    using r1 at only_source_trans by (fastforce simp: read_chunk_data_def chunk_at_def)
qed

end
