(* ===== verification/ReaderSession.thy ===== *)
theory ReaderSession
  imports ReaderLayout
begin

text \<open>
  Reading whole files.  A file is the image of a list of chunks that hold records; the reader yields
  these records in order, with their positions, and each position leads back to its record.
\<close>

section \<open>Files of chunks\<close>

text \<open>The decoder of a transposed chunk yields these records and then no more.\<close>

fun td_yields :: "'t transposed \<Rightarrow> 't \<Rightarrow> bytes list \<Rightarrow> bool" where
  "td_yields T t [] \<longleftrightarrow> td_read_record T t = (Inr None, t)"
| "td_yields T t (r # rs) \<longleftrightarrow>
     (case td_read_record T t of (Inr (Some r'), t') \<Rightarrow> r' = r \<and> td_yields T t' rs | _ \<Rightarrow> False)"

text \<open>
  The chunk is accepted, and its records are \<open>rs\<close>: those of a simple chunk, those a transposed chunk
  has under the projection \<open>pj\<close>, or none.
\<close>

definition chunk_holds ::
  "hasher \<Rightarrow> codec \<Rightarrow> 't transposed \<Rightarrow> FieldProjection option \<Rightarrow> Chunk \<Rightarrow> bytes list \<Rightarrow> bool" where
  "chunk_holds hw C T pj c rs \<longleftrightarrow>
     ch_is_header_valid hw (chunk_header c) \<and> ch_is_data_valid hw (chunk_header c) (chunk_data c) \<and>
     ch_data_size (chunk_header c) = of_nat (length (chunk_data c)) \<and>
     length rs = unat (ch_num_records (chunk_header c)) \<and>
     (case ch_chunk_type (chunk_header c) of
        Inl e \<Rightarrow> rs = []
      | Inr t \<Rightarrow>
          if t = Simple then \<exists>d. sc_new hw C c = Inr d \<and> sc_inv d \<and> sc_remaining d = rs
          else if t = Transposed then \<exists>d. td_new T c pj = Inr d \<and> td_yields T d rs
          else validate_special_chunk (chunk_header c) t = Inr () \<and> rs = [])"

text \<open>
  A chunk whose data is not what its header says: the hash of the data differs.  A tolerant reader
  passes over it, as far as its recovery callback always says to go on.
\<close>

definition damaged :: "hasher \<Rightarrow> Chunk \<Rightarrow> bool" where
  "damaged hw c \<longleftrightarrow> ch_is_header_valid hw (chunk_header c) \<and> \<not> ch_is_data_valid hw (chunk_header c) (chunk_data c) \<and>
     ch_data_size (chunk_header c) = of_nat (length (chunk_data c))"

definition readable ::
  "bool \<Rightarrow> hasher \<Rightarrow> codec \<Rightarrow> 't transposed \<Rightarrow> FieldProjection option \<Rightarrow> Chunk \<Rightarrow> bytes list \<Rightarrow> bool" where
  "readable tol hw C T pj c rs \<longleftrightarrow> chunk_holds hw C T pj c rs \<or> tol \<and> damaged hw c \<and> rs = []"

definition tolerant :: "('t, 'c) RecordReader \<Rightarrow> bool" where
  "tolerant rd \<longleftrightarrow> (\<exists>c f. rd_recovery rd = Some (c, f) \<and> (\<forall>c r. fst (f c r)))"

lemma readable_False [simp]: "readable False hw C T pj = chunk_holds hw C T pj"
  by (simp add: readable_def fun_eq_iff)

text \<open>The rest of the file, from the chunk boundary \<open>b\<close> on, is the image of the chunks.\<close>

definition file_at :: "hasher \<Rightarrow> nat \<Rightarrow> Chunk list \<Rightarrow> ('t, 'c) RecordReader \<Rightarrow> bool" where
  "file_at hw b cs rd \<longleftrightarrow> chunk_pos b \<and> b \<le> length (content rd) \<and> drop b (content rd) = file_image hw b cs"

lemma file_at_only_source: "file_at hw b cs rd \<Longrightarrow> only_source rd rd' \<Longrightarrow> file_at hw b cs rd'"
  by (simp add: file_at_def only_sourceD)

lemma file_at_content: "content rd' = content rd \<Longrightarrow> file_at hw b cs rd' \<longleftrightarrow> file_at hw b cs rd"
  by (simp add: file_at_def)

lemma file_at_append: "file_at hw b (cs @ cs') rd \<Longrightarrow> file_at hw (file_end b cs) cs' rd"
proof -
  assume f: "file_at hw b (cs @ cs') rd"
  then have b: "chunk_pos b" and d: "drop b (content rd) = file_image hw b cs @ file_image hw (file_end b cs) cs'"
    by (simp_all add: file_at_def file_image_append)
  have e: "b + length (file_image hw b cs) = file_end b cs" using file_image_end [OF b] .
  have "length (drop b (content rd)) = length (file_image hw b cs) + length (file_image hw (file_end b cs) cs')"
    unfolding d by simp
  moreover have "b \<le> length (content rd)" using f by (simp add: file_at_def)
  ultimately have "file_end b cs \<le> length (content rd)" using e by simp
  moreover have "drop (file_end b cs) (content rd) = file_image hw (file_end b cs) cs'"
  proof -
    have "drop (file_end b cs) (content rd) = drop (length (file_image hw b cs)) (drop b (content rd))"
      by (simp add: e add.commute)
    then show ?thesis unfolding d by simp
  qed
  ultimately show ?thesis using b by (simp add: file_at_def chunk_pos_file_end)
qed

lemma file_at_next: "file_at hw b (c # cs) rd \<Longrightarrow> file_at hw (chunk_stop b c) cs rd"
  using file_at_append [of hw b "[c]" cs rd] by simp

lemma file_at_chunk: "file_at hw b (c # cs) rd \<Longrightarrow> readable tol hw C T pj c rs \<Longrightarrow> chunk_at hw b c rd"
  by (auto simp: file_at_def chunk_at_def readable_def chunk_holds_def damaged_def)

lemma file_at_end: "file_at hw b [] rd \<Longrightarrow> length (content rd) = b"
  by (simp add: file_at_def)

text \<open>At the end of the file there is no header, and no error.\<close>

lemma read_header_end:
  assumes "file_at hw b [] rd" "settled rd"
  shows "\<exists>rd'. read_chunk_header_at hw (of_nat b) rd = (Inr None, rd') \<and> only_source rd rd'"
proof -
  have b: "chunk_pos b" "length (content rd) = b" and s: "calm (rd_reader rd)" "b \<le> 2 ^ 63"
    using assms file_at_end [OF assms(1)] by (simp_all add: file_at_def settled_def)
  have ub: "unat (of_nat b :: u64) = b" using s(2) by (intro unat_of_nat_u64) simp
  then have cb: "canonical_chunk_address (of_nat b) = of_nat b" using b(1) canonical_chunk_pos by simp
  obtain rd1 where r1: "then_do (seek_source (of_nat b)) (\<lambda>_. read_full n) rd = (Inr [], rd1 n)" "only_source rd (rd1 n)" for n
  proof -
    have "\<exists>rd1. then_do (seek_source (of_nat b)) (\<lambda>_. read_full n) rd = (Inr [], rd1) \<and> only_source rd rd1" for n
      using seek_read_full [OF s(1) ub, of n] b(2) by auto
    then show ?thesis using that by metis
  qed
  have "\<exists>rd'. fill_header hw (of_nat b) (of_nat b) [] False None rd = (Inr None, rd') \<and> only_source rd rd'"
  proof (cases "b mod 65536 = 0")
    case True
    then have "is_block_boundary (of_nat b)" using ub by (simp add: is_block_boundary_iff)
    moreover have "pass_block_header hw (of_nat b) (of_nat b) False rd = (Inr None, rd1 24)"
      using r1(1) [of 24] by (simp add: pass_block_header_def then_do_assoc [where f = "\<lambda>_. read_full 24"])
    ultimately show ?thesis using r1(2) by (subst fill_header.simps) (auto simp: then_do_Inr ret_def)
  next
    case False
    then have "\<not> is_block_boundary (of_nat b)" using ub by (simp add: is_block_boundary_iff)
    then show ?thesis using r1 ub by (subst fill_header.simps) (auto simp: Let_def until_boundary(1))
  qed
  then show ?thesis by (auto simp: read_chunk_header_at_def Let_def cb)
qed

section \<open>Loading the next chunk\<close>

lemma load_round_chunk:
  assumes at: "chunk_at hw b c rd" and s: "settled rd" and n: "rd_next_chunk_file_pos rd = of_nat b"
    and v: "ch_is_header_valid hw (chunk_header c)"
  shows "\<exists>rd'. load_next_round hw C T rd =
      (if ch_is_data_valid hw (chunk_header c) (chunk_data c)
       then install_chunk hw C T (chunk_header c) (of_nat b) (chunk_data c) rd'
       else (Inl (MalformedData ''chunk data hash mismatch''), rd'\<lparr>rd_next_chunk_file_pos := of_nat b\<rparr>)) \<and>
    rd' = rd\<lparr>rd_reader := rd_reader rd', rd_pending_trusted_end := Some (of_nat (chunk_stop b c)),
      rd_next_chunk_file_pos := of_nat (chunk_stop b c)\<rparr> \<and> settled rd' \<and> content rd' = content rd"
proof -
  let ?rd0 = "rd\<lparr>rd_pending_trusted_end := None\<rparr>" and ?e = "of_nat (chunk_stop b c) :: u64"
  have at0: "chunk_at hw b c ?rd0" and s0: "settled ?rd0" using at s by (simp_all add: chunk_at_def settled_def)
  obtain rd1 where r1: "read_chunk_header_at hw (of_nat b) ?rd0 =
      (Inr (Some (chunk_header c, of_nat b, of_nat (data_start hw b c))), rd1)" "only_source ?rd0 rd1"
    using read_header_chunk [OF at0 s0] by blast
  obtain rd2 where r2: "read_chunk_data hw (of_nat b) ?e (of_nat (data_start hw b c)) (ch_data_size (chunk_header c)) rd1 =
      (Inr (chunk_data c), rd2)" "only_source rd1 rd2"
    using read_data_chunk [OF chunk_at_only_source [OF at0 r1(2)] settled_only_source [OF s0 r1(2)]] by blast
  have o: "only_source ?rd0 rd2" using r1(2) r2(2) by (rule only_source_trans)
  let ?rd' = "rd2\<lparr>rd_pending_trusted_end := Some ?e, rd_next_chunk_file_pos := ?e\<rparr>"
  have "load_next_round hw C T rd =
      (if ch_is_data_valid hw (chunk_header c) (chunk_data c)
       then install_chunk hw C T (chunk_header c) (of_nat b) (chunk_data c) ?rd'
       else (Inl (MalformedData ''chunk data hash mismatch''), ?rd'\<lparr>rd_next_chunk_file_pos := of_nat b\<rparr>))"
    using v n r1(1) r2(1) chunk_end_image(1) [OF at s]
    by (simp add: load_next_round_def then_do_Inr Let_def)
  moreover have "settled rd2" "content rd2 = content rd"
    using settled_only_source [OF s0 o] only_sourceD(2) [OF o] by simp_all
  ultimately show ?thesis
    using o by (intro exI [of _ ?rd']) (auto simp: only_source_def settled_def)
qed

section \<open>The records of a file\<close>

text \<open>The records of a chunk from the index \<open>i\<close> on, and those of a file, with their positions.\<close>

fun positions :: "nat \<Rightarrow> nat \<Rightarrow> bytes list \<Rightarrow> (RecordPosition \<times> bytes) list" where
  "positions b i [] = []"
| "positions b i (r # rs) = (RecordPosition (of_nat b) (of_nat i), r) # positions b (Suc i) rs"

fun file_records :: "nat \<Rightarrow> Chunk list \<Rightarrow> bytes list list \<Rightarrow> (RecordPosition \<times> bytes) list" where
  "file_records b (c # cs) (g # gs) = positions b 0 g @ file_records (chunk_stop b c) cs gs"
| "file_records b cs gs = []"

lemma map_snd_positions [simp]: "map snd (positions b i rs) = rs"
  by (induction rs arbitrary: i) simp_all

lemma drop_positions: "drop k (positions b i rs) = positions b (i + k) (drop k rs)"
proof (induction k arbitrary: i rs)
  case (Suc k)
  then show ?case by (cases rs) simp_all
qed simp

lemma map_snd_file_records: "length cs = length gs \<Longrightarrow> map snd (file_records b cs gs) = concat gs"
  by (induction b cs gs rule: file_records.induct) simp_all

lemma length_positions [simp]: "length (positions b i rs) = length rs"
  by (induction rs arbitrary: i) simp_all

lemma positions_Nil [simp]: "positions b i rs = [] \<longleftrightarrow> rs = []" "[] = positions b i rs \<longleftrightarrow> rs = []"
  by (cases rs; simp)+

text \<open>
  The reader stands in a file: \<open>n\<close> chunks are still to be loaded, and \<open>prs\<close> are the records that are
  still to be read.
\<close>

definition between ::
  "bool \<Rightarrow> hasher \<Rightarrow> codec \<Rightarrow> 't transposed \<Rightarrow> FieldProjection option \<Rightarrow> nat \<Rightarrow> (RecordPosition \<times> bytes) list \<Rightarrow> ('t, 'c) RecordReader \<Rightarrow> bool" where
  "between tol hw C T pj n prs rd \<longleftrightarrow> settled rd \<and> (tol \<longrightarrow> tolerant rd) \<and> rd_field_projection rd = pj \<and>
     (\<exists>b cs gs. length cs = n \<and> rd_next_chunk_file_pos rd = of_nat b \<and> file_at hw b cs rd \<and>
        list_all2 (readable tol hw C T pj) cs gs \<and> prs = file_records b cs gs)"

fun pending_at :: "'t transposed \<Rightarrow> u64 \<Rightarrow> u64 \<Rightarrow> 't ActiveDecoder option \<Rightarrow> (RecordPosition \<times> bytes) list \<Rightarrow> bool" where
  "pending_at T cb ix None prs \<longleftrightarrow> prs = []"
| "pending_at T cb ix (Some (Simple_Decoder d)) prs \<longleftrightarrow> sc_inv d \<and>
     (\<exists>b i. cb = of_nat b \<and> ix = of_nat i \<and> prs = positions b i (sc_remaining d))"
| "pending_at T cb ix (Some (Transposed_Decoder t)) prs \<longleftrightarrow>
     (\<exists>b i rs. cb = of_nat b \<and> ix = of_nat i \<and> td_yields T t rs \<and> prs = positions b i rs)"

definition reading ::
  "bool \<Rightarrow> hasher \<Rightarrow> codec \<Rightarrow> 't transposed \<Rightarrow> FieldProjection option \<Rightarrow> nat \<Rightarrow> (RecordPosition \<times> bytes) list \<Rightarrow> ('t, 'c) RecordReader \<Rightarrow> bool" where
  "reading tol hw C T pj n prs rd \<longleftrightarrow>
     (\<exists>ps qs. pending_at T (rd_current_chunk_begin rd) (rd_current_record_index rd) (rd_current_decoder rd) ps \<and>
        between tol hw C T pj n qs rd \<and> prs = ps @ qs)"

lemma between_content:
  "content rd' = content rd \<Longrightarrow> rd_next_chunk_file_pos rd' = rd_next_chunk_file_pos rd \<Longrightarrow> settled rd' \<Longrightarrow>
   rd_recovery rd' = rd_recovery rd \<Longrightarrow> rd_field_projection rd' = rd_field_projection rd \<Longrightarrow>
   between tol hw C T pj n prs rd \<Longrightarrow> between tol hw C T pj n prs rd'"
  unfolding between_def file_at_def tolerant_def by auto

lemma between_no_decoder: "rd_current_decoder rd = None \<Longrightarrow> reading tol hw C T pj n prs rd \<longleftrightarrow> between tol hw C T pj n prs rd"
  by (simp add: reading_def)

text \<open>A chunk is skipped, or it becomes the current one.\<close>

lemma install_chunk_holds:
  assumes h: "chunk_holds hw C T pj c g" and pj: "rd_field_projection rd = pj"
  shows "(\<exists>rd'. install_chunk hw C T (chunk_header c) (of_nat b) (chunk_data c) rd = (Inr Load_Done, rd') \<and>
      pending_at T (rd_current_chunk_begin rd') (rd_current_record_index rd') (rd_current_decoder rd') (positions b 0 g) \<and>
      rd' = rd\<lparr>rd_current_chunk_begin := of_nat b, rd_current_record_index := 0,
        rd_pos := RecordPosition (of_nat b) 0, rd_current_decoder := rd_current_decoder rd'\<rparr>) \<or>
    install_chunk hw C T (chunk_header c) (of_nat b) (chunk_data c) rd = (Inr Load_Skipped, rd) \<and> g = []"
proof (cases "ch_chunk_type (chunk_header c)")
  case (Inl e)
  then have "g = []" "ch_num_records (chunk_header c) = 0" using h by (auto simp: chunk_holds_def unat_eq_0)
  then show ?thesis using Inl by (simp add: install_chunk_def)
next
  case (Inr t)
  have c: "\<lparr>chunk_header = chunk_header c, chunk_data = chunk_data c\<rparr> = c" by simp
  consider "t = Simple" | "t = Transposed" | "t \<noteq> Simple" "t \<noteq> Transposed" by blast
  then show ?thesis
  proof cases
    case 1
    then obtain d where d: "sc_new hw C c = Inr d" "sc_inv d" "sc_remaining d = g" using h Inr by (auto simp: chunk_holds_def)
    then have d': "sc_new hw C \<lparr>chunk_header = chunk_header c, chunk_data = chunk_data c\<rparr> = Inr d"
      by (simp only: c)
    have "pending_at T (of_nat b) (of_nat 0) (Some (Simple_Decoder d)) (positions b 0 g)"
      using d(2,3) by (simp only: pending_at.simps) blast
    then show ?thesis using 1 Inr by (simp add: install_chunk_def make_decoder_def d')
  next
    case 2
    then obtain d where d: "td_new T c pj = Inr d" "td_yields T d g" using h Inr by (auto simp: chunk_holds_def)
    then have d': "td_new T \<lparr>chunk_header = chunk_header c, chunk_data = chunk_data c\<rparr> pj = Inr d"
      by (simp only: c)
    have "pending_at T (of_nat b) (of_nat 0) (Some (Transposed_Decoder d)) (positions b 0 g)"
      using d(2) by (simp only: pending_at.simps) blast
    then show ?thesis using 2 Inr by (simp add: install_chunk_def make_decoder_def pj d')
  next
    case 3
    then show ?thesis using Inr h by (auto simp: chunk_holds_def install_chunk_def)
  qed
qed

text \<open>
  What loading the next chunk comes to: the end, a chunk with records, or a damaged chunk, whose
  position and end are then known.
\<close>

definition stopped_at_damage ::
  "hasher \<Rightarrow> codec \<Rightarrow> 't transposed \<Rightarrow> FieldProjection option \<Rightarrow> nat \<Rightarrow> (RecordPosition \<times> bytes) list \<Rightarrow> ('t, 'c) RecordReader \<Rightarrow> bool" where
  "stopped_at_damage hw C T pj n prs rd \<longleftrightarrow> settled rd \<and> tolerant rd \<and> rd_field_projection rd = pj \<and>
     (\<exists>b c cs gs. length cs = n \<and> rd_next_chunk_file_pos rd = of_nat b \<and> chunk_at hw b c rd \<and> damaged hw c \<and>
        rd_pending_trusted_end rd = Some (of_nat (chunk_stop b c)) \<and> file_at hw (chunk_stop b c) cs rd \<and>
        list_all2 (readable True hw C T pj) cs gs \<and> prs = file_records (chunk_stop b c) cs gs)"

lemma load_next_holds:
  assumes "settled rd" "tol \<longrightarrow> tolerant rd" "rd_next_chunk_file_pos rd = of_nat b" "file_at hw b cs rd"
    "rd_field_projection rd = pj" "list_all2 (readable tol hw C T pj) cs gs"
  shows "(\<exists>rd' m. load_next_chunk hw C T rd = Some (Inr True, rd') \<and> m < length cs \<and>
      reading tol hw C T pj m (file_records b cs gs) rd' \<and> rd_current_decoder rd' \<noteq> None) \<or>
    (\<exists>rd'. load_next_chunk hw C T rd = Some (Inr False, rd') \<and> file_records b cs gs = [] \<and>
      between tol hw C T pj 0 [] rd' \<and> rd_current_decoder rd' = rd_current_decoder rd) \<or>
    (\<exists>rd' e m. load_next_chunk hw C T rd = Some (Inl e, rd') \<and> m < length cs \<and> tol \<and>
      stopped_at_damage hw C T pj m (file_records b cs gs) rd')"
  using assms
proof (induction cs arbitrary: rd b gs)
  case Nil
  then have gs: "gs = []" by simp
  let ?rd0 = "rd\<lparr>rd_pending_trusted_end := None\<rparr>"
  have "settled ?rd0" "file_at hw b [] ?rd0" using Nil.prems by (simp_all add: settled_def file_at_def)
  then obtain rd' where r: "read_chunk_header_at hw (of_nat b) ?rd0 = (Inr None, rd')" "only_source ?rd0 rd'"
    using read_header_end by blast
  then have "load_next_round hw C T rd = (Inr Load_Eof, rd')"
    using Nil.prems(3) by (simp add: load_next_round_def then_do_Inr ret_def)
  then have "load_next_chunk hw C T rd = Some (Inr False, rd')"
    by (simp add: load_next_chunk_def iterate_exit load_next_step_def)
  moreover have "between tol hw C T pj 0 [] rd'"
    using settled_only_source [OF \<open>settled ?rd0\<close> r(2)] file_at_only_source [OF \<open>file_at hw b [] ?rd0\<close> r(2)]
      only_sourceD(4,5,7) [OF r(2)] Nil.prems(2,3,5) by (auto simp: between_def tolerant_def)
  ultimately show ?case using gs only_sourceD(8) [OF r(2)] by simp
next
  case (Cons c cs)
  then obtain g gs' where gs: "gs = g # gs'" and h: "readable tol hw C T pj c g" and hs: "list_all2 (readable tol hw C T pj) cs gs'"
    by (auto simp: list_all2_Cons1)
  have at: "chunk_at hw b c rd" using file_at_chunk [OF Cons.prems(4) h] .
  obtain rd1 where r1: "load_next_round hw C T rd =
      (if ch_is_data_valid hw (chunk_header c) (chunk_data c)
       then install_chunk hw C T (chunk_header c) (of_nat b) (chunk_data c) rd1
       else (Inl (MalformedData ''chunk data hash mismatch''), rd1\<lparr>rd_next_chunk_file_pos := of_nat b\<rparr>))"
    "rd1 = rd\<lparr>rd_reader := rd_reader rd1, rd_pending_trusted_end := Some (of_nat (chunk_stop b c)),
      rd_next_chunk_file_pos := of_nat (chunk_stop b c)\<rparr>" "settled rd1" "content rd1 = content rd"
    using load_round_chunk [OF at Cons.prems(1,3), of C T] h by (auto simp: readable_def chunk_holds_def damaged_def)
  have n1: "rd_next_chunk_file_pos rd1 = of_nat (chunk_stop b c)" "rd_current_decoder rd1 = rd_current_decoder rd"
    "rd_pending_trusted_end rd1 = Some (of_nat (chunk_stop b c))" "rd_recovery rd1 = rd_recovery rd"
    "rd_field_projection rd1 = pj"
    using arg_cong [OF r1(2), of rd_field_projection] Cons.prems(5) arg_cong [OF r1(2), of rd_next_chunk_file_pos] arg_cong [OF r1(2), of rd_current_decoder]
      arg_cong [OF r1(2), of rd_pending_trusted_end] arg_cong [OF r1(2), of rd_recovery] by simp_all
  have f1: "file_at hw (chunk_stop b c) cs rd1"
    using file_at_next [OF Cons.prems(4)] r1(4) unfolding file_at_def by simp
  have t1: "tol \<longrightarrow> tolerant rd1" using Cons.prems(2) n1(4) by (simp add: tolerant_def)
  show ?case
  proof (cases "chunk_holds hw C T pj c g")
    case True
    then have v: "ch_is_data_valid hw (chunk_header c) (chunk_data c)" by (simp add: chunk_holds_def)
    from install_chunk_holds [OF True n1(5), of b] show ?thesis
    proof (elim disjE exE conjE)
      fix rd2
      assume i: "install_chunk hw C T (chunk_header c) (of_nat b) (chunk_data c) rd1 = (Inr Load_Done, rd2)"
        and p: "pending_at T (rd_current_chunk_begin rd2) (rd_current_record_index rd2) (rd_current_decoder rd2) (positions b 0 g)"
        and rd2: "rd2 = rd1\<lparr>rd_current_chunk_begin := of_nat b, rd_current_record_index := 0,
          rd_pos := RecordPosition (of_nat b) 0, rd_current_decoder := rd_current_decoder rd2\<rparr>"
      have e2: "content rd2 = content rd1" "rd_next_chunk_file_pos rd2 = rd_next_chunk_file_pos rd1" "settled rd2 = settled rd1"
        "rd_recovery rd2 = rd_recovery rd1" "rd_field_projection rd2 = rd_field_projection rd1"
        using arg_cong [OF rd2, of rd_field_projection] arg_cong [OF rd2, of rd_reader] arg_cong [OF rd2, of rd_next_chunk_file_pos]
          arg_cong [OF rd2, of rd_stream_len] arg_cong [OF rd2, of rd_recovery] by (simp_all add: settled_def)
      have "between tol hw C T pj (length cs) (file_records (chunk_stop b c) cs gs') rd1"
        using r1(3) t1 n1(1,5) f1 hs by (auto simp: between_def)
      then have "between tol hw C T pj (length cs) (file_records (chunk_stop b c) cs gs') rd2"
        using e2 r1(3) by (intro between_content [of rd2 rd1]) simp_all
      then have "reading tol hw C T pj (length cs) (file_records b (c # cs) gs) rd2" using p gs by (auto simp: reading_def)
      moreover have "rd_current_decoder rd2 \<noteq> None"
        using i by (auto simp: install_chunk_def split: sum.splits if_splits)
      moreover have "load_next_chunk hw C T rd = Some (Inr True, rd2)"
        using r1(1) i v by (simp add: load_next_chunk_def iterate_exit load_next_step_def)
      ultimately show ?thesis by auto
    next
      assume i: "install_chunk hw C T (chunk_header c) (of_nat b) (chunk_data c) rd1 = (Inr Load_Skipped, rd1)" and g: "g = []"
      then have l: "load_next_chunk hw C T rd = load_next_chunk hw C T rd1"
        using r1(1) v by (simp add: load_next_chunk_def iterate_continue load_next_step_def)
      have r: "file_records b (c # cs) gs = file_records (chunk_stop b c) cs gs'" using g gs by simp
      show ?thesis using Cons.IH [OF r1(3) t1 n1(1) f1 n1(5) hs] n1(2) unfolding l r by (auto intro: less_SucI)
    qed
  next
    case False
    then have d: "tol" "damaged hw c" "g = []" using h by (simp_all add: readable_def)
    let ?rd2 = "rd1\<lparr>rd_next_chunk_file_pos := of_nat b\<rparr>"
    have "load_next_chunk hw C T rd = Some (Inl (MalformedData ''chunk data hash mismatch''), ?rd2)"
      using r1(1) d(2) by (simp add: load_next_chunk_def iterate_exit load_next_step_def damaged_def)
    moreover have "stopped_at_damage hw C T pj (length cs) (file_records b (c # cs) gs) ?rd2"
    proof -
      have "settled ?rd2" "tolerant ?rd2" "chunk_at hw b c ?rd2" "file_at hw (chunk_stop b c) cs ?rd2"
        using r1(3,4) t1 d(1) at f1 by (simp_all add: settled_def tolerant_def chunk_at_def file_at_def)
      then show ?thesis using d hs n1(3,5) gs unfolding stopped_at_damage_def
        by (intro conjI exI [of _ b] exI [of _ c] exI [of _ cs] exI [of _ gs']) simp_all
    qed
    ultimately show ?thesis using d(1) by auto
  qed
qed

section \<open>Passing over a damaged chunk\<close>

lemma canonical_image:
  assumes "chunk_at hw b c rd" "settled rd"
  shows "canonical_chunk_address (of_nat b) = of_nat b"
    "canonical_chunk_address (of_nat (chunk_stop b c)) = of_nat (chunk_stop b c)"
  using canonical_chunk_pos chunk_end_image(2,3) [OF assms] assms(1) chunk_pos_chunk_size_at
  by (auto simp: chunk_at_def)

text \<open>The region that is reported is the chunk, from its first byte to its end.\<close>

lemma damaged_region:
  assumes at: "chunk_at hw b c rd" and s: "settled rd"
  shows "skipped_begin (of_nat b) prev = of_nat b"
    "skipped_end (of_nat b) (of_nat b) (of_nat (chunk_stop b c)) = of_nat (chunk_stop b c)"
proof -
  note u = chunk_end_image(2,3) [OF at s] and cn = canonical_image [OF at s]
  have e: "b + 40 \<le> chunk_stop b c" using chunk_size_at_gt .
  show "skipped_begin (of_nat b) prev = of_nat b"
    by (auto simp: skipped_begin_def Let_def cn split: option.split)
  have lt: "unat (of_nat b :: u64) < unat (of_nat (chunk_stop b c) :: u64)" using e u by linarith
  have "unat (of_nat b :: u64) + 1 \<le> u64_max" using lt unat_le_u64_max [of "of_nat (chunk_stop b c)"] by linarith
  then have "unat (saturating_add (of_nat b) 1 :: u64) = unat (of_nat b :: u64) + 1" "unat (of_nat b + 1 :: u64) = unat (of_nat b :: u64) + 1"
    by (simp_all add: unat_saturating_add unat_add_u64)
  then have "max (max (of_nat (chunk_stop b c)) (of_nat b + 1)) (saturating_add (of_nat b) 1) = (of_nat (chunk_stop b c) :: u64)"
    using lt by (auto simp: max_def word_le_nat_alt intro!: word_eq_unatI)
  moreover have "\<not> (of_nat (chunk_stop b c) :: u64) \<le> of_nat b" using lt by (simp only: word_le_nat_alt)
  ultimately show "skipped_end (of_nat b) (of_nat b) (of_nat (chunk_stop b c)) = of_nat (chunk_stop b c)"
    by (simp add: skipped_end_def cn(2) Let_def)
qed

lemma recover_damage:
  assumes "stopped_at_damage hw C T pj n prs rd"
  shows "\<exists>rd'. try_recover_at hw (rd_next_chunk_file_pos rd) e rd = Some (True, rd') \<and> between True hw C T pj n prs rd' \<and>
    rd_current_decoder rd' = None \<and> \<not> rd_at_eof rd'"
proof -
  obtain b c cs gs where d: "settled rd" "tolerant rd" "length cs = n" "rd_next_chunk_file_pos rd = of_nat b" "chunk_at hw b c rd"
    "rd_pending_trusted_end rd = Some (of_nat (chunk_stop b c))" "file_at hw (chunk_stop b c) cs rd"
    "list_all2 (readable True hw C T pj) cs gs" "prs = file_records (chunk_stop b c) cs gs" "rd_field_projection rd = pj"
    using assms by (auto simp: stopped_at_damage_def)
  obtain c0 f where rec: "rd_recovery rd = Some (c0, f)" "\<And>c r. fst (f c r)" using d(2) by (auto simp: tolerant_def)
  let ?r = "skipped_region_new (of_nat b) (of_nat (chunk_stop b c)) (error_to_string e)"
  obtain c1 where f: "f c0 ?r = (True, c1)" using rec(2) [of c0 ?r] by (cases "f c0 ?r") auto
  define rd1 where "rd1 = rd\<lparr>rd_pending_trusted_end := None, rd_last_skipped_region := Some ?r, rd_recovery := Some (c1, f)\<rparr>"
  have rep: "report_region_at hw (of_nat b) e rd = Some (Some True, rd1)"
    using d(6) rec(1) f damaged_region [OF d(5,1)] by (simp add: report_region_at_def rd1_def Let_def)
  define rd2 where "rd2 = rd1\<lparr>rd_last_record_is_valid := False, rd_current_decoder := None, rd_at_eof := False,
    rd_next_chunk_file_pos := of_nat (chunk_stop b c)\<rparr>"
  have s2: "settled rd2" "content rd2 = content rd" using d(1) by (simp_all add: settled_def rd2_def rd1_def)
  obtain rd3 where r3: "seek_source (of_nat (chunk_stop b c)) rd2 = (Inr (), rd3)" "only_source rd2 rd3"
    using seek_source_calm [of rd2] s2(1) by (auto simp: settled_def)
  have rec2: "try_recover_at hw (rd_next_chunk_file_pos rd) e rd = Some (True, rd3)"
    unfolding d(4) using rep r3(1) by (simp add: try_recover_at_def Let_def rd2_def [symmetric])
      (simp add: rd2_def rd1_def skipped_region_new_def)
  have "tolerant rd3"
    using only_sourceD(4) [OF r3(2)] rec(2) by (auto simp: tolerant_def rd2_def rd1_def)
  have "settled rd3" "content rd3 = content rd"
    using settled_only_source [OF s2(1) r3(2)] only_sourceD(2) [OF r3(2)] s2(2) by simp_all
  have pj: "rd_field_projection rd3 = pj"
    using only_sourceD(5) [OF r3(2)] d(10) by (simp add: rd2_def rd1_def)
  have "between True hw C T pj n prs rd3"
    using d pj \<open>settled rd3\<close> \<open>content rd3 = content rd\<close> \<open>tolerant rd3\<close> only_sourceD(7) [OF r3(2)] unfolding between_def file_at_def
    by (intro conjI exI [of _ "chunk_stop b c"] exI [of _ cs] exI [of _ gs]) (simp_all add: rd2_def)
  with rec2 show ?thesis using only_sourceD(8,12) [OF r3(2)] by (simp add: rd2_def)
qed

section \<open>Reading records\<close>

lemma decoder_pending_end:
  "pending_at T cb ix (Some D) [] \<Longrightarrow> decoder_read_record T D = Some (Inr None, D)"
proof (cases D)
  case (Simple_Decoder d)
  assume "pending_at T cb ix (Some D) []"
  then have "sc_read_record d = Some (Inr None, d)"
    using Simple_Decoder by (intro simple_source.nxt_end) auto
  then show ?thesis using Simple_Decoder by simp
qed simp

lemma decoder_pending_record:
  assumes "pending_at T cb ix (Some D) ((p, r) # ps)"
  shows "\<exists>D'. decoder_read_record T D = Some (Inr (Some r), D') \<and> p = RecordPosition cb ix \<and> pending_at T cb (ix + 1) (Some D') ps"
proof (cases D)
  case (Simple_Decoder d)
  with assms obtain b i where i: "sc_inv d" "cb = of_nat b" "ix = of_nat i" "positions b i (sc_remaining d) = (p, r) # ps"
    by auto
  then obtain rs where rs: "sc_remaining d = r # rs" "p = RecordPosition (of_nat b) (of_nat i)" "ps = positions b (Suc i) rs"
    by (cases "sc_remaining d") auto
  obtain d' where d': "sc_read_record d = Some (Inr (Some r), d')" "sc_inv d'" "sc_remaining d' = rs"
    using simple_source.nxt_record [OF i(1) rs(1)] by blast
  have "pending_at T cb (ix + 1) (Some (Simple_Decoder d')) ps"
    using d' rs(3) i(2,3) by (simp only: pending_at.simps) (metis of_nat_Suc add.commute)
  then show ?thesis using Simple_Decoder d'(1) rs(2) i(2,3) by simp
next
  case (Transposed_Decoder t)
  with assms obtain b i rs0 where i: "cb = of_nat b" "ix = of_nat i" "td_yields T t rs0" "positions b i rs0 = (p, r) # ps"
    by auto
  then obtain rs where rs: "rs0 = r # rs" "p = RecordPosition (of_nat b) (of_nat i)" "ps = positions b (Suc i) rs"
    by (cases rs0) auto
  obtain t' where t': "td_read_record T t = (Inr (Some r), t')" "td_yields T t' rs"
    using i(3) rs(1) by (auto split: prod.splits sum.splits option.splits)
  have "pending_at T cb (ix + 1) (Some (Transposed_Decoder t')) ps"
    using t'(2) rs(3) i(1,2) by (simp only: pending_at.simps) (metis of_nat_Suc add.commute)
  then show ?thesis using Transposed_Decoder t'(1) rs(2) i(1,2) by simp
qed

lemma read_record_holds:
  assumes "reading tol hw C T pj n prs rd"
  shows "case prs of
      [] \<Rightarrow> \<exists>rd' m. iterate (read_record_step hw C T) rd = Some (Inr None, rd') \<and> reading tol hw C T pj m [] rd' \<and> rd_at_eof rd'
    | (p, r) # prs' \<Rightarrow> \<exists>rd' m. iterate (read_record_step hw C T) rd = Some (Inr (Some r), rd') \<and>
        reading tol hw C T pj m prs' rd' \<and> rd_last_pos rd' = p"
  using assms
proof (induction n arbitrary: rd rule: less_induct)
  case (less n)
  obtain ps qs where ps: "pending_at T (rd_current_chunk_begin rd) (rd_current_record_index rd) (rd_current_decoder rd) ps"
    and qs: "between tol hw C T pj n qs rd" and prs: "prs = ps @ qs"
    using less.prems by (auto simp: reading_def)
  let ?goal = "\<lambda>rd. case prs of
      [] \<Rightarrow> \<exists>rd' m. iterate (read_record_step hw C T) rd = Some (Inr None, rd') \<and> reading tol hw C T pj m [] rd' \<and> rd_at_eof rd'
    | (p, r) # prs' \<Rightarrow> \<exists>rd' m. iterate (read_record_step hw C T) rd = Some (Inr (Some r), rd') \<and>
        reading tol hw C T pj m prs' rd' \<and> rd_last_pos rd' = p"
  have load: "?goal rd" if b: "between tol hw C T pj n prs rd0" and d: "rd_current_decoder rd0 = None"
    and step: "read_record_step hw C T rd = load_or_recover hw C T rd0" for rd0
  proof -
    obtain b cs gs where f: "settled rd0" "tol \<longrightarrow> tolerant rd0" "rd_next_chunk_file_pos rd0 = of_nat b" "file_at hw b cs rd0"
      "rd_field_projection rd0 = pj" "list_all2 (readable tol hw C T pj) cs gs" and cs: "length cs = n" "prs = file_records b cs gs"
      using b unfolding between_def by blast
    from load_next_holds [OF f] show ?thesis
    proof (elim disjE exE conjE)
      fix rd1 m assume l: "load_next_chunk hw C T rd0 = Some (Inr True, rd1)" "m < length cs"
        "reading tol hw C T pj m (file_records b cs gs) rd1"
      have "reading tol hw C T pj m prs (rd1\<lparr>rd_at_eof := False\<rparr>)"
        using l(3) cs(2) by (auto simp: reading_def between_def settled_def file_at_def tolerant_def)
      from less.IH [OF _ this] l(2) cs(1) have g: "?goal (rd1\<lparr>rd_at_eof := False\<rparr>)" by blast
      have "iterate (read_record_step hw C T) rd = iterate (read_record_step hw C T) (rd1\<lparr>rd_at_eof := False\<rparr>)"
        using step l(1) by (intro iterate_continue) (simp add: load_or_recover_def)
      with g show ?thesis by (cases prs) (simp_all only: list.case)
    next
      fix rd1 assume l: "load_next_chunk hw C T rd0 = Some (Inr False, rd1)" "file_records b cs gs = []"
        "between tol hw C T pj 0 [] rd1" "rd_current_decoder rd1 = rd_current_decoder rd0"
      have "iterate (read_record_step hw C T) rd = Some (Inr None, rd1\<lparr>rd_at_eof := True\<rparr>)"
        using step l(1) by (intro iterate_exit) (simp add: load_or_recover_def)
      moreover have "reading tol hw C T pj 0 [] (rd1\<lparr>rd_at_eof := True\<rparr>)"
        using l(3,4) d by (auto simp: reading_def between_def settled_def file_at_def tolerant_def)
      ultimately show ?thesis using l(2) cs(2) by auto
    next
      fix rd1 e m assume l: "load_next_chunk hw C T rd0 = Some (Inl e, rd1)" "m < length cs" tol
        "stopped_at_damage hw C T pj m (file_records b cs gs) rd1"
      obtain rd2 where r2: "try_recover_at hw (rd_next_chunk_file_pos rd1) e rd1 = Some (True, rd2)"
        "between True hw C T pj m (file_records b cs gs) rd2" "rd_current_decoder rd2 = None" "\<not> rd_at_eof rd2"
        using recover_damage [OF l(4)] by blast
      have "reading tol hw C T pj m prs rd2" using r2(2,3) l(3) cs(2) by (simp add: between_no_decoder)
      from less.IH [OF _ this] l(2) cs(1) have g: "?goal rd2" by blast
      have "iterate (read_record_step hw C T) rd = iterate (read_record_step hw C T) rd2"
        using step l(1) r2(1,4) by (intro iterate_continue) (simp add: load_or_recover_def)
      with g show ?thesis by (cases prs) (simp_all only: list.case)
    qed
  qed
  show ?case
  proof (cases "rd_current_decoder rd")
    case None
    then show ?thesis using load [of rd] ps qs prs by (simp add: read_record_step_def)
  next
    case (Some D)
    show ?thesis
    proof (cases ps)
      case Nil
      then have "decoder_read_record T D = Some (Inr None, D)" using ps Some decoder_pending_end by metis
      then have "read_record_step hw C T rd = load_or_recover hw C T (rd\<lparr>rd_current_decoder := None\<rparr>)"
        using Some by (simp add: read_record_step_def)
      moreover have "between tol hw C T pj n prs (rd\<lparr>rd_current_decoder := None\<rparr>)"
        using qs prs Nil by (auto simp: between_def settled_def file_at_def tolerant_def)
      ultimately show ?thesis using load by simp
    next
      case (Cons pr ps')
      obtain p r where pr: "pr = (p, r)" by fastforce
      then obtain D' where D': "decoder_read_record T D = Some (Inr (Some r), D')"
        "p = RecordPosition (rd_current_chunk_begin rd) (rd_current_record_index rd)"
        "pending_at T (rd_current_chunk_begin rd) (rd_current_record_index rd + 1) (Some D') ps'"
        using ps Some Cons decoder_pending_record by metis
      define rd' where "rd' = rd\<lparr>rd_current_decoder := Some D', rd_last_pos := p,
        rd_current_record_index := rd_current_record_index rd + 1,
        rd_pos := RecordPosition (rd_current_chunk_begin rd) (rd_current_record_index rd + 1), rd_last_record_is_valid := True\<rparr>"
      have "iterate (read_record_step hw C T) rd = Some (Inr (Some r), rd')"
        using Some D' by (intro iterate_exit) (simp add: read_record_step_def rd'_def)
      moreover have "reading tol hw C T pj n (ps' @ qs) rd'"
      proof -
        have "settled rd'" using qs by (simp add: between_def settled_def rd'_def)
        then have "between tol hw C T pj n qs rd'" using qs by (intro between_content [of rd' rd]) (simp_all add: rd'_def)
        moreover have "pending_at T (rd_current_chunk_begin rd') (rd_current_record_index rd') (rd_current_decoder rd') ps'"
          using D'(3) by (simp add: rd'_def)
        ultimately show ?thesis unfolding reading_def by blast
      qed
      ultimately show ?thesis using prs Cons pr by (auto simp: rd'_def)
    qed
  qed
qed
text \<open>
  So the reader is a source of records, whatever the number of chunks that remain.  Its answers also
  have the positions: \<open>reports\<close> pairs the record with \<open>last_pos\<close>.
\<close>

definition at_records ::
  "bool \<Rightarrow> hasher \<Rightarrow> codec \<Rightarrow> 't transposed \<Rightarrow> FieldProjection option \<Rightarrow> (RecordPosition \<times> bytes) list \<Rightarrow> ('t, 'c) RecordReader \<Rightarrow> bool" where
  "at_records tol hw C T pj prs rd \<longleftrightarrow> (\<exists>n. reading tol hw C T pj n prs rd)"

fun reports :: "hasher \<Rightarrow> codec \<Rightarrow> 't transposed \<Rightarrow> nat \<Rightarrow> ('t, 'c) RecordReader \<Rightarrow> (RecordPosition \<times> bytes) list option" where
  "reports hw C T 0 rd = Some []"
| "reports hw C T (Suc n) rd =
     (case read_record hw C T rd of
        Some (Inr (Some r), rd') \<Rightarrow> map_option (Cons (rd_last_pos rd', r)) (reports hw C T n rd')
      | Some (Inr None, rd') \<Rightarrow> Some []
      | _ \<Rightarrow> None)"

lemma at_records_pending: "at_records tol hw C T pj prs rd \<Longrightarrow> at_records tol hw C T pj prs (rd\<lparr>rd_pending_trusted_end := None\<rparr>)"
  unfolding at_records_def reading_def
proof (elim exE conjE)
  fix n ps qs
  assume p: "pending_at T (rd_current_chunk_begin rd) (rd_current_record_index rd) (rd_current_decoder rd) ps"
    and b: "between tol hw C T pj n qs rd" and e: "prs = ps @ qs"
  let ?rd = "rd\<lparr>rd_pending_trusted_end := None\<rparr>"
  have "settled ?rd" using b by (simp add: between_def settled_def)
  then have "between tol hw C T pj n qs ?rd" using b by (intro between_content [of ?rd rd]) simp_all
  with p e show "\<exists>n ps qs. pending_at T (rd_current_chunk_begin ?rd) (rd_current_record_index ?rd) (rd_current_decoder ?rd) ps \<and>
      between tol hw C T pj n qs ?rd \<and> prs = ps @ qs" by fastforce
qed

lemma read_record_end:
  assumes "at_records tol hw C T pj [] rd"
  shows "\<exists>rd'. read_record hw C T rd = Some (Inr None, rd') \<and> at_records tol hw C T pj [] rd' \<and> rd_at_eof rd'"
  using at_records_pending [OF assms] read_record_holds [where prs = "[]" and C = C and T = T]
  unfolding at_records_def read_record_def by fastforce

lemma read_record_next:
  assumes "at_records tol hw C T pj ((p, r) # prs) rd"
  shows "\<exists>rd'. read_record hw C T rd = Some (Inr (Some r), rd') \<and> at_records tol hw C T pj prs rd' \<and> rd_last_pos rd' = p"
  using at_records_pending [OF assms] read_record_holds [where prs = "(p, r) # prs" and C = C and T = T]
  unfolding at_records_def read_record_def by fastforce

interpretation file_reader: record_stream "read_record hw C T" "\<lambda>rd rs. \<exists>prs. at_records tol hw C T pj prs rd \<and> rs = map snd prs"
  for tol hw C T pj
proof unfold_locales
  fix rd :: "('a, 'b) RecordReader"
  assume "\<exists>prs. at_records tol hw C T pj prs rd \<and> [] = map snd prs"
  then show "\<exists>rd'. read_record hw C T rd = Some (Inr None, rd') \<and> (\<exists>prs. at_records tol hw C T pj prs rd' \<and> [] = map snd prs)"
    using read_record_end [of tol hw C T pj rd] by auto
next
  fix rd :: "('a, 'b) RecordReader" and r rs
  assume "\<exists>prs. at_records tol hw C T pj prs rd \<and> r # rs = map snd prs"
  then obtain p prs where "at_records tol hw C T pj ((p, r) # prs) rd" "rs = map snd prs" by (auto simp: Cons_eq_map_conv)
  then show "\<exists>rd'. read_record hw C T rd = Some (Inr (Some r), rd') \<and> (\<exists>prs. at_records tol hw C T pj prs rd' \<and> rs = map snd prs)"
    using read_record_next [of tol hw C T pj p r prs rd] by blast
qed

lemma reports_take: "at_records tol hw C T pj prs rd \<Longrightarrow> reports hw C T n rd = Some (take n prs)"
proof (induction n arbitrary: rd prs)
  case (Suc n)
  show ?case
  proof (cases prs)
    case Nil
    then show ?thesis using read_record_end [of tol hw C T pj rd] Suc.prems by auto
  next
    case (Cons pr prs')
    obtain p r where "pr = (p, r)" by fastforce
    with Cons obtain rd' where "read_record hw C T rd = Some (Inr (Some r), rd')" "at_records tol hw C T pj prs' rd'" "rd_last_pos rd' = p"
      using read_record_next [of tol hw C T pj p r prs' rd] Suc.prems by blast
    with Suc.IH [of prs' rd'] Cons \<open>pr = (p, r)\<close> show ?thesis by simp
  qed
qed simp

section \<open>Opening a file\<close>

lemma reader_new_file:
  fixes o' :: "'c ReaderOptions"
  assumes "calm s" "src_bytes s = file_image hw 0 (signature_chunk hw # cs)" "length (src_bytes s) \<le> 2 ^ 63"
    and "list_all2 (readable tol hw C T (ro_field_projection o')) cs gs"
    and "tol \<Longrightarrow> \<exists>c f. ro_recovery o' = Some (c, f) \<and> (\<forall>c r. fst (f c r))"
  shows "\<exists>rd :: ('t, 'c) RecordReader. reader_new hw s o' = Some (Inr rd) \<and> settled rd \<and> content rd = src_bytes s \<and>
    at_records tol hw C T (ro_field_projection o') (file_records 64 cs gs) rd"
proof -
  let ?b = "block_to_bytes (block_from_parts hw 0 64)" and ?c = "chunk_to_bytes (chunk_from_parts hw [] FileSignature 0 0)"
  have img: "src_bytes s = ?b @ ?c @ file_image hw 64 cs"
    using assms(2) file_image_append [OF chunk_pos_0, of hw "[signature_chunk hw]" cs] signature_image [of hw] signature_end [of hw]
    by simp
  have len: "length (src_bytes s) \<noteq> 0" "64 \<le> length (src_bytes s)" unfolding img by simp_all
  obtain s1 where s1: "src_seek_end s = (Inr (of_nat (length (src_bytes s))), s1)" "same_file s s1"
    using src_seek_end_calm [OF assms(1)] .
  obtain s2 where s2: "src_seek 0 s1 = (Inr (), s2)" "same_file s1 s2"
    using src_seek_calm [of s1 0] s1(2) by (auto simp: same_file_def)
  have "unat (of_nat (length (src_bytes s)) :: u64) = length (src_bytes s)" using assms(3) by (intro unat_of_nat_u64) simp
  then have nz: "of_nat (length (src_bytes s)) \<noteq> (0 :: u64)" using len(1) unat_0 by metis
  let ?rd = "initial_reader s2 o' (of_nat (length (src_bytes s))) False :: ('t, 'c) RecordReader"
  have c0: "calm (rd_reader ?rd)" "content ?rd = src_bytes s"
    using s1(2) s2(2) by (simp_all add: initial_reader_def same_file_def)
  obtain rd1 where r1: "seek_source 0 ?rd = (Inr (), rd1)" "only_source ?rd rd1" "src_pos (rd_reader rd1) = 0"
    using seek_source_calm [OF c0(1), of 0] by auto
  obtain rd2 where r2: "read_full 24 rd1 = (Inr ?b, rd2)" "only_source rd1 rd2" "src_pos (rd_reader rd2) = 24"
    using read_full_calm [OF only_sourceD(1) [OF r1(2)], of 24] r1(3) only_sourceD(2) [OF r1(2)] c0(2) img by auto
  obtain rd3 where r3: "read_full 40 rd2 = (Inr ?c, rd3)" "only_source rd2 rd3"
    using read_full_calm [OF only_sourceD(1) [OF r2(2)], of 40] r2(3) only_sourceD(2) [OF r2(2)] only_sourceD(2) [OF r1(2)] c0(2) img
    by auto
  have o: "only_source ?rd rd3" using r1(2) r2(2) r3(2) only_source_trans by blast
  have "validate_file_preamble hw ?rd = (Inr (), rd3)"
    using r1(1) r2(1) r3(1) by (simp add: validate_file_preamble_def then_do_Inr)
  then have new: "reader_new hw s o' = Some (Inr rd3)" using s1(1) s2(1) nz by (simp add: reader_new_def)
  have st: "settled rd3"
    using settled_only_source [OF _ o] c0 assms(3) by (simp add: settled_def initial_reader_def)
  have "file_at hw 64 cs rd3"
    using only_sourceD(2) [OF o] c0(2) len img by (simp add: file_at_def chunk_pos_def)
  moreover have "tol \<longrightarrow> tolerant rd3"
    using only_sourceD(4) [OF o] assms(5) by (auto simp: tolerant_def initial_reader_def)
  ultimately have "between tol hw C T (ro_field_projection o') (length cs) (file_records 64 cs gs) rd3"
    using st only_sourceD(5,7) [OF o] assms(4)
    unfolding between_def by (intro conjI exI [of _ 64] exI [of _ cs] exI [of _ gs]) (simp_all add: initial_reader_def FIRST_CHUNK_def block_consts)
  then have "at_records tol hw C T (ro_field_projection o') (file_records 64 cs gs) rd3"
    using only_sourceD(8) [OF o] unfolding at_records_def by (intro exI) (simp add: between_no_decoder initial_reader_def)
  then show ?thesis using new st only_sourceD(2) [OF o] c0(2) by auto
qed
section \<open>The chunks of a writer\<close>

lemma concat_accounted: "length (concat rs) \<le> accounted rs"
  by (induction rs) auto

text \<open>
  What the encoder \<open>W\<close> and the decoder \<open>R\<close> of transposed chunks promise to writer and reader: an
  encoded chunk says how long its data is, and the decoder reads from it the records that were added,
  as long as these are not too many or too long.
\<close>

locale transposed_format =
  fixes hw :: hasher and C :: codec and W :: "'e transposer" and R :: "'d transposed" and lim :: nat
  assumes framed: "frames_chunks W"
    and decoded: "lossless C \<Longrightarrow> fill_encoder W (make_encoder W True ct opts bucket) rs = Some e \<Longrightarrow> encoder_encode hw C W e = Inr c \<Longrightarrow>
      rs \<noteq> [] \<Longrightarrow> accounted rs < lim \<Longrightarrow> length (chunk_data c) < 2 ^ 63 \<Longrightarrow> chunk_holds hw C R None c rs"
begin

lemma carries_holds:
  assumes car: "carries hw C W (make_encoder W tr ct opts bucket) n c rs" and C: "lossless C" and n: "n \<le> 8 * (2 ^ 56 - 1)"
    and len: "\<forall>r \<in> set rs. length r < 2 ^ 62"
    and tr: "tr \<Longrightarrow> n < lim \<and> (\<forall>r \<in> set rs. length r + 8 < lim) \<and> pj = None"
    and data: "length (chunk_data c) < 2 ^ 63"
  shows "chunk_holds hw C R pj c rs"
proof (cases "rs = []")
  case True
  then show ?thesis using car by (auto simp: carries_def chunk_holds_def validate_special_chunk_def guard_res_def)
next
  case False
  then obtain e where e: "fill_encoder W (make_encoder W tr ct opts bucket) rs = Some e" "encoder_encode hw C W e = Inr c"
    and r: "accounted rs \<le> n \<or> length rs = 1"
    using car by (auto simp: carries_def split: option.splits)
  show ?thesis
  proof (cases tr)
    case True
    have "accounted rs < lim" using r tr [OF True] by (cases rs) auto
    then show ?thesis using decoded [OF C _ e(2) False _ data] e(1) True tr by simp
  next
    case simple: False
    let ?e = "sc_with_options ct opts\<lparr>enc_records := rs\<rparr>"
    have c: "sc_encode hw C ?e = Inr c" using e simple by (auto simp: make_encoder_def fill_encoder_simple sc_with_options_def)
    have "length (concat rs) < 2 ^ 63 \<and> length rs < 2 ^ 56"
      using r
    proof
      assume "accounted rs \<le> n"
      then show ?thesis using n accounted_length [of rs] concat_accounted [of rs] by simp
    next
      assume "length rs = 1"
      then show ?thesis using len by (cases rs) auto
    qed
    then have small: "length (concat (enc_records ?e)) < 2 ^ 63" "length (enc_records ?e) < 2 ^ 56" by simp_all
    note d = sc_encode_decodes [OF C c small data]
    have "unat (of_nat (length rs) :: u64) = length rs" using small(2) by (intro unat_of_nat_u64) simp
    then show ?thesis using d sc_encode_header(1) [OF c] by (simp add: chunk_holds_def)
  qed
qed

lemma carries_file:
  assumes "list_all2 (carries hw C W (make_encoder W tr ct opts bucket) n) cs gs" and "lossless C" and "n \<le> 8 * (2 ^ 56 - 1)"
    and "\<forall>r \<in> set (concat gs). length r < 2 ^ 62"
    and "tr \<Longrightarrow> n < lim \<and> (\<forall>r \<in> set (concat gs). length r + 8 < lim) \<and> pj = None" and "chunk_pos b" and "file_end b cs \<le> 2 ^ 63"
  shows "list_all2 (chunk_holds hw C R pj) cs gs"
  using assms
proof (induction cs gs arbitrary: b rule: list_all2_induct)
  case (Cons c cs g gs)
  have e: "chunk_stop b c \<le> file_end b (c # cs)"
    using file_image_end [OF chunk_pos_chunk_size_at, of b "chunk_header c" "chunk_data c" hw cs] by simp
  then have "length (chunk_data c) < 2 ^ 63" using chunk_stop_bounds(1) [of b c] Cons.prems by simp
  then have "chunk_holds hw C R pj c g"
    using Cons.prems(3,4) by (intro carries_holds [OF Cons.hyps(1) Cons.prems(1,2)]) auto
  moreover have "list_all2 (chunk_holds hw C R pj) cs gs"
    using Cons.prems by (intro Cons.IH [of "chunk_stop b c"]) (auto simp: chunk_pos_chunk_size_at)
  ultimately show ?case by simp
qed simp

text \<open>The file of a successful session, and a reader of it.\<close>

lemma session_opens:
  fixes ro :: "'c ReaderOptions"
  assumes "writer_new hw C W s0 o' = Some (Inr w0, s1)" and "out_bytes s0 = []"
    and "run_ops (writer_step hw C W) xs w0 = Some (rs, w1)" and "\<forall>r \<in> set rs. r = Inr ()"
    and "close hw C W w1 = Some (Inr (), s)"
    and "\<forall>r \<in> set (written xs). length r < 2 ^ 62" and "unat (wo_final_padding o') \<le> 2 ^ 45"
    and "length (out_bytes s) \<le> 2 ^ 63"
    and tr: "wo_transpose o' \<Longrightarrow> unat (wo_chunk_size o') < lim \<and> (\<forall>r \<in> set (written xs). length r + 8 < lim) \<and>
      ro_field_projection ro = None"
    and C: "lossless C" and src: "calm r0" "src_bytes r0 = out_bytes s"
  shows "\<exists>(rd :: ('d, 'c) RecordReader) prs. reader_new hw r0 ro = Some (Inr rd) \<and>
    at_records False hw C R (ro_field_projection ro) prs rd \<and> map snd prs = written xs"
proof -
  have "wo_transpose o' \<longrightarrow> frames_chunks W" using framed by simp
  then obtain cs gs where img: "out_bytes s = file_image hw 0 (signature_chunk hw # cs)" and gs: "concat gs = written xs"
    and car: "list_all2 (carries hw C W (session_encoder W o') (min (unat (wo_chunk_size o')) (8 * (2 ^ 56 - 1)))) cs gs"
    using session_image [OF assms(1,2) _ assms(3-8)] by blast
  have "file_end 64 cs = length (out_bytes s)"
    using file_image_end [OF chunk_pos_0, of hw "signature_chunk hw # cs"] signature_end [of hw] img by simp
  then have holds: "list_all2 (chunk_holds hw C R (ro_field_projection ro)) cs gs"
    using assms(6,8) tr unfolding gs [symmetric]
    by (intro carries_file [OF car [unfolded session_encoder_def] C, of _ 64]) (auto simp: chunk_pos_def)
  have "\<exists>rd :: ('d, 'c) RecordReader. reader_new hw r0 ro = Some (Inr rd) \<and> settled rd \<and> content rd = src_bytes r0 \<and>
      at_records False hw C R (ro_field_projection ro) (file_records 64 cs gs) rd"
    by (rule reader_new_file) (use src img assms(8) holds in simp_all)
  moreover have "map snd (file_records 64 cs gs) = written xs"
    using map_snd_file_records list_all2_lengthD [OF car] gs by metis
  ultimately show ?thesis by blast
qed

lemma session_reads:
  fixes ro :: "'c ReaderOptions"
  assumes "writer_new hw C W s0 o' = Some (Inr w0, s1)" and "out_bytes s0 = []"
    and "run_ops (writer_step hw C W) xs w0 = Some (rs, w1)" and "\<forall>r \<in> set rs. r = Inr ()"
    and "close hw C W w1 = Some (Inr (), s)"
    and "\<forall>r \<in> set (written xs). length r < 2 ^ 62" and "unat (wo_final_padding o') \<le> 2 ^ 45"
    and "length (out_bytes s) \<le> 2 ^ 63"
    and "wo_transpose o' \<Longrightarrow> unat (wo_chunk_size o') < lim \<and> (\<forall>r \<in> set (written xs). length r + 8 < lim) \<and>
      ro_field_projection ro = None"
    and "lossless C" and "calm r0" and "src_bytes r0 = out_bytes s"
  shows "\<exists>rd. reader_new hw r0 ro = Some (Inr rd) \<and>
    drain (read_record hw C R) (length (written xs) + 1) rd = Some (written xs)"
proof -
  obtain rd :: "('d, 'c) RecordReader" and prs where rd: "reader_new hw r0 ro = Some (Inr rd)"
    "at_records False hw C R (ro_field_projection ro) prs rd" "map snd prs = written xs"
    using session_opens [OF assms] by blast
  then have "drain (read_record hw C R) (length (written xs) + 1) rd = Some (written xs)"
    using file_reader.yields_drain [of False hw C R "ro_field_projection ro" rd "written xs"] by fastforce
  with rd(1) show ?thesis by blast
qed

end

section \<open>Properties\<close>

definition null_transposed :: "unit transposed" where
  "null_transposed = \<lparr>td_new = (\<lambda>c proj. Inl DataHashMismatch), td_read_record = (\<lambda>t. (Inr None, t))\<rparr>"

definition sample_source :: "bytes \<Rightarrow> source" where
  "sample_source bs = \<lparr>src_bytes = bs, src_pos = 0, src_events = [Io_Normal, Io_Interrupted, Io_Short 3]\<rparr>"

lemma calm_sample_source [simp]: "calm (sample_source bs)" "src_bytes (sample_source bs) = bs"
  by (simp_all add: sample_source_def calm_def)

text \<open>C2. Reading a file of accepted chunks, whoever wrote it and whatever chunks without records lie
  between, yields the records of its simple and transposed chunks in order, under the projection of
  the reader, and \<open>last_pos\<close> of each record is the beginning of its chunk and its index there.\<close>

theorem reads_with_positions:
  assumes "calm r0" and "src_bytes r0 = file_image hw 0 (signature_chunk hw # cs)" and "length (src_bytes r0) \<le> 2 ^ 63"
    and "list_all2 (chunk_holds hw C T (ro_field_projection ro)) cs gs"
  shows "\<exists>rd. reader_new hw r0 ro = Some (Inr rd) \<and> reports hw C T m rd = Some (take m (file_records 64 cs gs))"
  using reader_new_file [OF assms(1-3), of False C T ro gs] assms(4) reports_take by fastforce

text \<open>C3. Damage stays where it is.  When the data of any number of chunks is damaged, a reader whose
  recovery callback always goes on still yields every record of all the other chunks, in order and
  with its position.\<close>

theorem recovery_keeps_the_rest:
  assumes "calm r0" and "src_bytes r0 = file_image hw 0 (signature_chunk hw # cs)" and "length (src_bytes r0) \<le> 2 ^ 63"
    and "list_all2 (\<lambda>c rs. chunk_holds hw C T (ro_field_projection ro) c rs \<or> damaged hw c \<and> rs = []) cs gs" and "\<forall>c r. fst (f c r)"
  shows "\<exists>rd. reader_new hw r0 (set_recovery c0 f ro) = Some (Inr rd) \<and>
    reports hw C T m rd = Some (take m (file_records 64 cs gs))"
proof -
  have "readable True hw C T (ro_field_projection (set_recovery c0 f ro)) =
      (\<lambda>c rs. chunk_holds hw C T (ro_field_projection ro) c rs \<or> damaged hw c \<and> rs = [])"
    by (simp add: readable_def fun_eq_iff set_recovery_def)
  then show ?thesis
    using reader_new_file [OF assms(1-3), of True C T "set_recovery c0 f ro" gs] assms(4,5) reports_take
    by (fastforce simp: set_recovery_def)
qed

text \<open>A file with one simple chunk of two records.\<close>

definition sample_chunk :: Chunk where
  "sample_chunk = \<lparr>chunk_header = chunk_from_parts sample_hash [0, 2, 1, 2, 7, 8, 9] Simple 2 3,
     chunk_data = [0, 2, 1, 2, 7, 8, 9]\<rparr>"

definition sample_file :: bytes where
  "sample_file = file_image sample_hash 0 [signature_chunk sample_hash, sample_chunk]"

lemma sample_encode:
  "sc_encode sample_hash store_codec \<lparr>enc_records = [[7], [8, 9]], enc_compression = None_Compression,
     enc_compress_opts = default_compress_options\<rparr> = Inr sample_chunk"
  by (simp add: sc_encode_def sc_encode_data_def Let_def sizes_section_def encode_u64.simps sample_chunk_def)

lemma sample_chunk_holds: "chunk_holds sample_hash store_codec null_transposed None sample_chunk [[7], [8, 9]]"
proof -
  note d = sc_encode_decodes [OF lossless_store_codec(1) sample_encode]
  have "chunk_data sample_chunk = [0, 2, 1, 2, 7, 8, 9]" by (simp add: sample_chunk_def)
  then show ?thesis using d sc_encode_header(1) [OF sample_encode] by (simp add: chunk_holds_def)
qed

lemma sample_file_length: "length sample_file = 111"
proof -
  have "file_end 64 [sample_chunk] = 111"
    by (simp add: sample_chunk_def chunk_size_at_def chunk_end_nat_def usable_before_def phys_end_def round_up_nat_def
        chunk_pos_def take_bit_56_id)
  then show ?thesis
    using file_image_end [OF chunk_pos_0, of sample_hash "[signature_chunk sample_hash, sample_chunk]"]
      signature_end [of sample_hash] by (simp add: sample_file_def)
qed

lemma reads_with_positions_witness:
  "\<exists>rd. reader_new sample_hash (sample_source sample_file) (reader_options_new :: unit ReaderOptions) = Some (Inr rd) \<and>
    reports sample_hash store_codec null_transposed 3 rd =
      Some [(RecordPosition 64 0, [7]), (RecordPosition 64 1, [8, 9])]"
proof -
  have "\<exists>rd. reader_new sample_hash (sample_source sample_file) (reader_options_new :: unit ReaderOptions) = Some (Inr rd) \<and>
    reports sample_hash store_codec null_transposed 3 rd = Some (take 3 (file_records 64 [sample_chunk] [[[7], [8, 9]]]))"
    using sample_chunk_holds sample_file_length
    by (intro reads_with_positions) (simp_all add: sample_file_def reader_options_new_def)
  then show ?thesis by simp
qed

text \<open>The same file with a damaged copy of the chunk before it.\<close>

definition damaged_chunk :: Chunk where
  "damaged_chunk = sample_chunk\<lparr>chunk_data := [0, 2, 1, 2, 7, 8, 10]\<rparr>"

lemma damaged_sample: "damaged sample_hash damaged_chunk"
proof -
  have "\<not> ch_is_data_valid sample_hash (chunk_header sample_chunk) [0, 2, 1, 2, 7, 8, 10]"
    by (simp add: sample_chunk_def ch_is_data_valid_def sample_hash_def chunk_from_parts_def highway_hash_64_def)
  then show ?thesis by (simp add: damaged_def damaged_chunk_def sample_chunk_def)
qed

lemma damaged_file_end: "chunk_stop 64 damaged_chunk = 111" "chunk_stop 111 sample_chunk = 158"
  by (simp_all add: damaged_chunk_def sample_chunk_def chunk_size_at_def chunk_end_nat_def usable_before_def phys_end_def
      round_up_nat_def chunk_pos_def take_bit_56_id)

lemma recovery_keeps_the_rest_witness:
  "\<exists>rd. reader_new sample_hash (sample_source (file_image sample_hash 0 [signature_chunk sample_hash, damaged_chunk, sample_chunk]))
      (set_recovery () (\<lambda>c r. (True, c)) reader_options_new) = Some (Inr rd) \<and>
    reports sample_hash store_codec null_transposed 9 rd =
      Some [(RecordPosition 111 0, [7]), (RecordPosition 111 1, [8, 9])]"
proof -
  let ?cs = "[damaged_chunk, sample_chunk]" and ?gs = "[[], [[7], [8, 9 :: u8]]]"
  have l: "length (file_image sample_hash 0 (signature_chunk sample_hash # ?cs)) = 158"
    using file_image_end [OF chunk_pos_0, of sample_hash "signature_chunk sample_hash # ?cs"]
      signature_end [of sample_hash] by (simp add: damaged_file_end)
  have "\<exists>rd. reader_new sample_hash (sample_source (file_image sample_hash 0 (signature_chunk sample_hash # ?cs)))
      (set_recovery () (\<lambda>c r. (True, c)) reader_options_new) = Some (Inr rd) \<and>
    reports sample_hash store_codec null_transposed 9 rd = Some (take 9 (file_records 64 ?cs ?gs))"
    using sample_chunk_holds damaged_sample l by (intro recovery_keeps_the_rest) (simp_all add: reader_options_new_def del: file_image.simps)
  then show ?thesis by (simp add: damaged_file_end)
qed

end
