(* ===== verification/ReaderScan.thy ===== *)
theory ReaderScan
  imports RecordReader
begin

text \<open>
  The operations of \<^verbatim>\<open>riegeli/src/record_reader.rs\<close> that walk the chunk headers: the metadata, the size,
  the format check and the search.  The comparison passed to \<open>search\<close> is a function of the record;
  the parser of \<open>RecordsMetadata\<close> messages is the protobuf crate's.
\<close>

section \<open>Metadata\<close>

definition read_metadata_chunk_payload ::
  "hasher \<Rightarrow> 't transposed \<Rightarrow> u64 \<Rightarrow> ChunkHeader \<Rightarrow> (('t, 'c) RecordReader, bytes) action" where
  "read_metadata_chunk_payload hw T pos ch =
     (case validate_special_chunk ch FileMetadata of
        Inl e \<Rightarrow> fail_with e
      | Inr _ \<Rightarrow>
          let metadata_chunk_end = chunk_end pos (ch_data_size ch) (ch_num_records ch)
          in then_do (read_chunk_data hw pos metadata_chunk_end (pos + CHUNK_HEADER_SIZE) (ch_data_size ch)) (\<lambda>data rd.
               let rd = rd\<lparr>rd_pending_trusted_end := Some metadata_chunk_end\<rparr>
               in if \<not> ch_is_data_valid hw ch data
                  then (Inl (MalformedData ''metadata chunk data hash mismatch''), rd)
                  else
                    (case td_new T \<lparr>chunk_header = chunk_from_parts hw data Transposed 1 (ch_decoded_data_size ch),
                                  chunk_data = data\<rparr> None of
                       Inl e \<Rightarrow> (Inl e, rd)
                     | Inr decoder \<Rightarrow>
                         (case td_read_record T decoder of
                            (Inl e, _) \<Rightarrow> (Inl e, rd)
                          | (Inr (Some rec), _) \<Rightarrow> (Inr rec, rd)
                          | (Inr None, _) \<Rightarrow> (Inl (MalformedData ''file metadata chunk decoded to no records''), rd)))))"

text \<open>What an error of the metadata operations becomes: no metadata when the callback goes on.\<close>

definition report_only ::
  "hasher \<Rightarrow> u64 \<Rightarrow> riegeli_error \<Rightarrow> ('t, 'c) RecordReader \<Rightarrow> ('a option res \<times> ('t, 'c) RecordReader) option" where
  "report_only hw at e rd =
     map_option (\<lambda>(go, rd). (if go = Some True then Inr None else Inl e, rd)) (report_region_at hw at e rd)"

definition read_serialized_metadata ::
  "hasher \<Rightarrow> 't transposed \<Rightarrow> ('t, 'c) RecordReader \<Rightarrow> (bytes option res \<times> ('t, 'c) RecordReader) option" where
  "read_serialized_metadata hw T rd =
     (case peek_chunk_header hw FIRST_CHUNK (rd\<lparr>rd_pending_trusted_end := None\<rparr>) of
        (Inr None, rd) \<Rightarrow> Some (Inr None, rd)
      | (Inl e, rd) \<Rightarrow> report_only hw FIRST_CHUNK e rd
      | (Inr (Some ch), rd) \<Rightarrow>
          if ch_chunk_type ch \<noteq> Inr FileMetadata then Some (Inr None, rd)
          else
            (case read_metadata_chunk_payload hw T FIRST_CHUNK ch rd of
               (Inr metadata, rd) \<Rightarrow> Some (Inr (Some metadata), rd)
             | (Inl e, rd) \<Rightarrow> report_only hw FIRST_CHUNK e rd))"

definition read_metadata ::
  "hasher \<Rightarrow> 't transposed \<Rightarrow> (bytes \<Rightarrow> string + 'm) \<Rightarrow> ('t, 'c) RecordReader \<Rightarrow>
   ('m option res \<times> ('t, 'c) RecordReader) option" where
  "read_metadata hw T parse rd =
     map_option (\<lambda>(r, rd). (bind_res r (\<lambda>m. case m of None \<Rightarrow> Inr None
         | Some bs \<Rightarrow> map_err (\<lambda>_. MalformedData ''failed to parse RecordsMetadata'') (map_sum id Some (parse bs))), rd))
       (read_serialized_metadata hw T rd)"

section \<open>Walks over all chunks\<close>

definition is_data_chunk :: "ChunkHeader \<Rightarrow> bool" where
  "is_data_chunk ch \<longleftrightarrow> ch_chunk_type ch = Inr Simple \<or> ch_chunk_type ch = Inr Transposed"

text \<open>The header at the scan position, or the error of the scan.\<close>

definition scan_header ::
  "hasher \<Rightarrow> string \<Rightarrow> u64 \<Rightarrow> (('t, 'c) RecordReader, (ChunkHeader \<times> u64) option) action" where
  "scan_header hw msg scan_pos =
     then_do (read_chunk_header_at hw scan_pos) (\<lambda>r.
       case r of
         None \<Rightarrow> ret None
       | Some (ch, cb, _) \<Rightarrow> if ch_is_header_valid hw ch then ret (Some (ch, cb)) else fail_with (MalformedData msg))"

definition size_step ::
  "hasher \<Rightarrow> u64 \<times> u64 \<times> ('t, 'c) RecordReader \<Rightarrow>
   ((u64 \<times> u64 \<times> ('t, 'c) RecordReader) + (u64 res \<times> ('t, 'c) RecordReader)) option" where
  "size_step hw = (\<lambda>(scan_pos, total_records, rd).
     case scan_header hw ''invalid chunk header during size scan'' scan_pos rd of
       (Inl e, rd) \<Rightarrow>
         (case report_region_at hw scan_pos e rd of
            None \<Rightarrow> None
          | Some (go, rd) \<Rightarrow>
              if go = Some True then Some (Inl (region_end (the (rd_last_skipped_region rd)), total_records, rd))
              else Some (Inr (Inl e, rd)))
     | (Inr None, rd) \<Rightarrow> Some (Inr (Inr total_records, rd))
     | (Inr (Some (ch, cb)), rd) \<Rightarrow>
         Some (Inl (chunk_end cb (ch_data_size ch) (ch_num_records ch),
           if is_data_chunk ch then total_records + ch_num_records ch else total_records, rd)))"

definition size_of_file ::
  "hasher \<Rightarrow> ('t, 'c) RecordReader \<Rightarrow> (u64 res \<times> ('t, 'c) RecordReader) option" where
  "size_of_file hw rd = iterate (size_step hw) (FIRST_CHUNK, 0, rd\<lparr>rd_pending_trusted_end := None\<rparr>)"

definition check_step ::
  "hasher \<Rightarrow> u64 \<times> ('t, 'c) RecordReader \<Rightarrow>
   ((u64 \<times> ('t, 'c) RecordReader) + (unit res \<times> ('t, 'c) RecordReader)) option" where
  "check_step hw = (\<lambda>(scan_pos, rd).
     Some (case read_chunk_header_at hw scan_pos rd of
        (Inl e, rd) \<Rightarrow> Inr (Inl e, rd)
      | (Inr None, rd) \<Rightarrow> Inr (Inr (), rd)
      | (Inr (Some (ch, cb, data_begin)), rd) \<Rightarrow>
          if \<not> ch_is_header_valid hw ch then Inr (Inl (MalformedData ''invalid chunk header hash''), rd)
          else
            let ce = chunk_end cb (ch_data_size ch) (ch_num_records ch)
            in (case read_chunk_data hw cb ce data_begin (ch_data_size ch) rd of
                  (Inl e, rd) \<Rightarrow> Inr (Inl e, rd)
                | (Inr data, rd) \<Rightarrow>
                    if ch_is_data_valid hw ch data then Inl (ce, rd)
                    else Inr (Inl (MalformedData ''chunk data hash mismatch''), rd))))"

definition check_file_format ::
  "hasher \<Rightarrow> ('t, 'c) RecordReader \<Rightarrow> (unit res \<times> ('t, 'c) RecordReader) option" where
  "check_file_format hw rd =
     (case then_do (seek_source 0) (\<lambda>_. read_exact 24) rd of
        (Inl e, rd) \<Rightarrow> Some (Inl e, rd)
      | (Inr bh_bytes, rd) \<Rightarrow>
          if \<not> block_is_valid hw (block_from_bytes bh_bytes)
          then Some (Inl (MalformedData ''invalid block header hash at offset 0''), rd)
          else iterate (check_step hw) (BLOCK_HEADER_SIZE, rd))"

section \<open>Search\<close>

definition collect_step ::
  "hasher \<Rightarrow> u64 \<times> (u64 \<times> u64) list \<times> ('t, 'c) RecordReader \<Rightarrow>
   ((u64 \<times> (u64 \<times> u64) list \<times> ('t, 'c) RecordReader) + ((u64 \<times> u64) list res \<times> ('t, 'c) RecordReader)) option" where
  "collect_step hw = (\<lambda>(scan_pos, chunks, rd).
     case scan_header hw ''invalid chunk header during search scan'' scan_pos rd of
       (Inl e, rd) \<Rightarrow>
         (case try_recover_at hw scan_pos e rd of
            None \<Rightarrow> None
          | Some (True, rd) \<Rightarrow> Some (Inl (rd_next_chunk_file_pos rd, chunks, rd))
          | Some (False, rd) \<Rightarrow> Some (Inr (Inl e, rd)))
     | (Inr None, rd) \<Rightarrow> Some (Inr (Inr chunks, rd))
     | (Inr (Some (ch, cb)), rd) \<Rightarrow>
         Some (Inl (chunk_end cb (ch_data_size ch) (ch_num_records ch),
           if 0 < ch_num_records ch \<and> is_data_chunk ch then chunks @ [(cb, ch_num_records ch)] else chunks, rd)))"

definition collect_data_chunks ::
  "hasher \<Rightarrow> ('t, 'c) RecordReader \<Rightarrow> ((u64 \<times> u64) list res \<times> ('t, 'c) RecordReader) option" where
  "collect_data_chunks hw rd = iterate (collect_step hw) (FIRST_CHUNK, [], rd\<lparr>rd_pending_trusted_end := None\<rparr>)"

definition park_at_end_of_stream :: "('t, 'c) RecordReader \<Rightarrow> ('t, 'c) RecordReader" where
  "park_at_end_of_stream rd =
     (let p = max (rd_stream_len rd) FIRST_CHUNK
      in rd\<lparr>rd_at_eof := True, rd_current_decoder := None, rd_next_chunk_file_pos := p,
            rd_current_chunk_begin := p, rd_current_record_index := 0\<rparr>)"

definition read_record_at ::
  "hasher \<Rightarrow> codec \<Rightarrow> 't transposed \<Rightarrow> u64 \<Rightarrow> u64 \<Rightarrow> ('t, 'c) RecordReader \<Rightarrow>
   (bytes option res \<times> ('t, 'c) RecordReader) option" where
  "read_record_at hw C T cpos i rd =
     (case reader_seek hw C T (RecordPosition cpos i) rd of
        None \<Rightarrow> None
      | Some (Inl e, rd) \<Rightarrow> Some (Inl e, rd)
      | Some (Inr _, rd) \<Rightarrow>
          (case read_record hw C T rd of
             None \<Rightarrow> None
           | Some (Inl e, rd) \<Rightarrow> Some (Inl e, rd)
           | Some (Inr (Some rec), rd) \<Rightarrow>
               Some (Inr (if rd_current_chunk_begin rd = cpos then Some rec else None), rd)
           | Some (Inr None, rd) \<Rightarrow> Some (Inr None, rd)))"

datatype ordering = Less | Equal | Greater

text \<open>The binary search within a chunk, with the bounds \<open>lo\<close> and \<open>hi\<close>.\<close>

definition within_step ::
  "hasher \<Rightarrow> codec \<Rightarrow> 't transposed \<Rightarrow> (bytes \<Rightarrow> ordering) \<Rightarrow> u64 \<Rightarrow> u64 \<times> u64 \<times> ('t, 'c) RecordReader \<Rightarrow>
   ((u64 \<times> u64 \<times> ('t, 'c) RecordReader) + (bool res \<times> ('t, 'c) RecordReader)) option" where
  "within_step hw C T test cpos = (\<lambda>(lo, hi, rd).
     if lo < hi then
       let mid = lo + (hi - lo) div 2
       in case read_record_at hw C T cpos mid rd of
            None \<Rightarrow> None
          | Some (Inl e, rd) \<Rightarrow> Some (Inr (Inl e, rd))
          | Some (Inr None, rd) \<Rightarrow> Some (Inr (Inr False, rd))
          | Some (Inr (Some rec), rd) \<Rightarrow>
              (case test rec of
                 Less \<Rightarrow> Some (Inl (mid + 1, hi, rd))
               | Greater \<Rightarrow> Some (Inl (lo, mid, rd))
               | Equal \<Rightarrow> map_option (\<lambda>(r, rd). Inr (map_sum id (\<lambda>_. True) r, rd))
                   (reader_seek hw C T (RecordPosition cpos mid) rd))
     else Some (Inr (Inr False, rd)))"

definition binary_search_within_chunk ::
  "hasher \<Rightarrow> codec \<Rightarrow> 't transposed \<Rightarrow> u64 \<Rightarrow> u64 \<Rightarrow> (bytes \<Rightarrow> ordering) \<Rightarrow> ('t, 'c) RecordReader \<Rightarrow>
   (bool res \<times> ('t, 'c) RecordReader) option" where
  "binary_search_within_chunk hw C T cpos num_records test rd =
     (if num_records = 0 then Some (Inr False, rd)
      else iterate (within_step hw C T test cpos) (1, num_records, rd))"

text \<open>The nearest readable pivot in \<open>[probe, hi)\<close>: its index, its chunk and the answer of the test.\<close>

fun probe_from ::
  "hasher \<Rightarrow> codec \<Rightarrow> 't transposed \<Rightarrow> (bytes \<Rightarrow> ordering) \<Rightarrow> (u64 \<times> u64) list \<Rightarrow> nat \<Rightarrow> ('t, 'c) RecordReader \<Rightarrow>
   ((nat \<times> u64 \<times> ordering) option res \<times> ('t, 'c) RecordReader) option" where
  "probe_from hw C T test [] probe rd = Some (Inr None, rd)"
| "probe_from hw C T test ((cpos, n) # chunks) probe rd =
     (case read_record_at hw C T cpos 0 rd of
        None \<Rightarrow> None
      | Some (Inl e, rd) \<Rightarrow> Some (Inl e, rd)
      | Some (Inr (Some rec), rd) \<Rightarrow> Some (Inr (Some (probe, cpos, test rec)), rd)
      | Some (Inr None, rd) \<Rightarrow> probe_from hw C T test chunks (probe + 1) rd)"

datatype search_state = Narrowed nat | Found

definition search_step ::
  "hasher \<Rightarrow> codec \<Rightarrow> 't transposed \<Rightarrow> (bytes \<Rightarrow> ordering) \<Rightarrow> (u64 \<times> u64) list \<Rightarrow> nat \<times> nat \<times> ('t, 'c) RecordReader \<Rightarrow>
   ((nat \<times> nat \<times> ('t, 'c) RecordReader) + (search_state res \<times> ('t, 'c) RecordReader)) option" where
  "search_step hw C T test chunks = (\<lambda>(lo, hi, rd).
     if lo < hi then
       let mid = lo + (hi - lo) div 2
       in case probe_from hw C T test (slice mid hi chunks) mid rd of
            None \<Rightarrow> None
          | Some (Inl e, rd) \<Rightarrow> Some (Inr (Inl e, rd))
          | Some (Inr None, rd) \<Rightarrow> Some (Inl (lo, mid, rd))
          | Some (Inr (Some (probe, cpos, Less)), rd) \<Rightarrow> Some (Inl (probe + 1, hi, rd))
          | Some (Inr (Some (probe, cpos, Greater)), rd) \<Rightarrow> Some (Inl (lo, mid, rd))
          | Some (Inr (Some (probe, cpos, Equal)), rd) \<Rightarrow>
              map_option (\<lambda>(r, rd). Inr (map_sum id (\<lambda>_. Found) r, rd))
                (reader_seek hw C T (RecordPosition cpos 0) rd)
     else Some (Inr (Inr (Narrowed lo), rd)))"

definition search ::
  "hasher \<Rightarrow> codec \<Rightarrow> 't transposed \<Rightarrow> (bytes \<Rightarrow> ordering) \<Rightarrow> ('t, 'c) RecordReader \<Rightarrow>
   (bool res \<times> ('t, 'c) RecordReader) option" where
  "search hw C T test rd =
     (case collect_data_chunks hw rd of
        None \<Rightarrow> None
      | Some (Inl e, rd) \<Rightarrow> Some (Inl e, rd)
      | Some (Inr chunks, rd) \<Rightarrow>
          if chunks = [] then Some (Inr False, park_at_end_of_stream rd)
          else
            (case iterate (search_step hw C T test chunks) (0, length chunks, rd) of
               None \<Rightarrow> None
             | Some (Inl e, rd) \<Rightarrow> Some (Inl e, rd)
             | Some (Inr Found, rd) \<Rightarrow> Some (Inr True, rd)
             | Some (Inr (Narrowed lo), rd) \<Rightarrow>
                 (case (if 0 < lo
                        then binary_search_within_chunk hw C T (fst (chunks ! (lo - 1))) (snd (chunks ! (lo - 1))) test rd
                        else Some (Inr False, rd)) of
                    None \<Rightarrow> None
                  | Some (Inl e, rd) \<Rightarrow> Some (Inl e, rd)
                  | Some (Inr True, rd) \<Rightarrow> Some (Inr True, rd)
                  | Some (Inr False, rd) \<Rightarrow> Some (Inr False, park_at_end_of_stream rd))))"

end
