(* ===== verification/ReaderSeek.thy ===== *)
theory ReaderSeek
  imports ReaderSession ReaderScan
begin

text \<open>
  Walks over a well-formed file: the size, the format check, and seeking to records by position and
  by number.
\<close>

section \<open>Headers at chunk boundaries\<close>

lemma chunk_at_file: "file_at hw b (c # cs) rd \<Longrightarrow> chunk_holds hw C T pj c g \<Longrightarrow> chunk_at hw b c rd"
  using file_at_chunk [of hw b c cs rd False C T pj g] by simp

lemma scan_header_chunk:
  assumes "file_at hw b (c # cs) rd" "settled rd" "chunk_holds hw C T pj c g"
  shows "\<exists>rd'. scan_header hw msg (of_nat b) rd = (Inr (Some (chunk_header c, of_nat b)), rd') \<and> only_source rd rd'"
  using read_header_chunk [OF chunk_at_file [OF assms(1,3)] assms(2)] assms(3)
  by (auto simp: scan_header_def then_do_Inr ret_def chunk_holds_def)

lemma scan_header_end:
  assumes "file_at hw b [] rd" "settled rd"
  shows "\<exists>rd'. scan_header hw msg (of_nat b) rd = (Inr None, rd') \<and> only_source rd rd'"
  using read_header_end [OF assms] by (auto simp: scan_header_def then_do_Inr ret_def)

lemma peek_header_chunk:
  assumes "file_at hw b (c # cs) rd" "settled rd" "chunk_holds hw C T pj c g"
  shows "\<exists>rd'. peek_chunk_header hw (of_nat b) rd = (Inr (Some (chunk_header c)), rd') \<and> only_source rd rd'"
  using read_header_chunk [OF chunk_at_file [OF assms(1,3)] assms(2)] assms(3)
  by (auto simp: peek_chunk_header_def then_do_Inr ret_def chunk_holds_def)

text \<open>What a chunk's header says of the chunk.\<close>

lemma header_says:
  assumes "file_at hw b (c # cs) rd" "settled rd" "chunk_holds hw C T pj c g"
  shows "chunk_end (of_nat b) (ch_data_size (chunk_header c)) (ch_num_records (chunk_header c)) = of_nat (chunk_stop b c)"
    "ch_num_records (chunk_header c) = of_nat (length g)" "b + length g \<le> chunk_stop b c" "chunk_stop b c \<le> 2 ^ 63"
proof -
  have at: "chunk_at hw b c rd" using chunk_at_file [OF assms(1,3)] .
  have l: "length g = unat (ch_num_records (chunk_header c))" using assms(3) by (simp add: chunk_holds_def)
  show "chunk_end (of_nat b) (ch_data_size (chunk_header c)) (ch_num_records (chunk_header c)) = of_nat (chunk_stop b c)"
    by (rule chunk_end_image(1) [OF at assms(2)])
  show "ch_num_records (chunk_header c) = of_nat (length g)" by (simp add: l)
  show "b + length g \<le> chunk_stop b c" using chunk_stop_bounds(2) [of b c] l by simp
  show "chunk_stop b c \<le> 2 ^ 63" using chunk_at_layout [OF at assms(2)] by metis
qed

lemma data_chunk_iff: "chunk_holds hw C T pj c g \<Longrightarrow> is_data_chunk (chunk_header c) \<or> g = []"
  by (auto simp: chunk_holds_def is_data_chunk_def split: sum.splits if_splits)

text \<open>Behind the signature the file goes on with its other chunks.\<close>

lemma file_at_signature: "content rd = file_image hw 0 (signature_chunk hw # cs) \<Longrightarrow> file_at hw 64 cs rd"
proof -
  assume "content rd = file_image hw 0 (signature_chunk hw # cs)"
  then have "file_at hw 0 ([signature_chunk hw] @ cs) rd" by (simp add: file_at_def chunk_pos_0)
  then show ?thesis using file_at_append signature_end by metis
qed

lemma signature_holds: "chunk_holds hw C T pj (signature_chunk hw) []"
  by (simp add: chunk_holds_def signature_chunk_def validate_special_chunk_def guard_res_def)

section \<open>The size\<close>

lemma size_file:
  assumes "settled rd" "file_at hw b cs rd" "list_all2 (chunk_holds hw C T pj) cs gs"
  shows "\<exists>rd'. iterate (size_step hw) (of_nat b, n, rd) = Some (Inr (n + of_nat (length (concat gs))), rd') \<and> only_source rd rd'"
  using assms
proof (induction cs arbitrary: b n rd gs)
  case Nil
  then obtain rd' where "scan_header hw ''invalid chunk header during size scan'' (of_nat b) rd = (Inr None, rd')" "only_source rd rd'"
    using scan_header_end by blast
  moreover from this have "iterate (size_step hw) (of_nat b, n, rd) = Some (Inr n, rd')"
    by (intro iterate_exit) (simp add: size_step_def)
  ultimately show ?case using Nil by auto
next
  case (Cons c cs)
  then obtain g gs' where gs: "gs = g # gs'" and h: "chunk_holds hw C T pj c g" and hs: "list_all2 (chunk_holds hw C T pj) cs gs'"
    by (auto simp: list_all2_Cons1)
  obtain rd1 where r1: "scan_header hw ''invalid chunk header during size scan'' (of_nat b) rd =
      (Inr (Some (chunk_header c, of_nat b)), rd1)" "only_source rd rd1"
    using scan_header_chunk [OF Cons.prems(2,1) h] by blast
  note says = header_says [OF Cons.prems(2,1) h]
  let ?n = "n + of_nat (length g) :: u64"
  have "iterate (size_step hw) (of_nat b, n, rd) = iterate (size_step hw) (of_nat (chunk_stop b c), ?n, rd1)"
    using r1(1) says(1,2) data_chunk_iff [OF h] by (intro iterate_continue) (auto simp: size_step_def)
  moreover obtain rd' where "iterate (size_step hw) (of_nat (chunk_stop b c), ?n, rd1) =
      Some (Inr (?n + of_nat (length (concat gs'))), rd')" "only_source rd1 rd'"
    using Cons.IH [OF settled_only_source [OF Cons.prems(1) r1(2)]
        file_at_only_source [OF file_at_next [OF Cons.prems(2)] r1(2)] hs, of ?n] by blast
  ultimately show ?case using only_source_trans [OF r1(2)] gs by (auto simp: add.assoc)
qed

section \<open>The format check\<close>

text \<open>The verdict on a list of chunks: the first fault counts.\<close>

fun verdict :: "hasher \<Rightarrow> Chunk list \<Rightarrow> unit res" where
  "verdict hw [] = Inr ()"
| "verdict hw (c # cs) =
     (if \<not> ch_is_header_valid hw (chunk_header c) then Inl (MalformedData ''invalid chunk header hash'')
      else if \<not> ch_is_data_valid hw (chunk_header c) (chunk_data c) then Inl (MalformedData ''chunk data hash mismatch'')
      else verdict hw cs)"

lemma check_file:
  assumes "settled rd" "file_at hw b cs rd" "\<forall>c \<in> set cs. ch_data_size (chunk_header c) = of_nat (length (chunk_data c))"
  shows "\<exists>rd'. iterate (check_step hw) (of_nat b, rd) = Some (verdict hw cs, rd') \<and> only_source rd rd'"
  using assms
proof (induction cs arbitrary: b rd)
  case Nil
  then obtain rd' where "read_chunk_header_at hw (of_nat b) rd = (Inr None, rd')" "only_source rd rd'"
    using read_header_end by blast
  moreover from this have "iterate (check_step hw) (of_nat b, rd) = Some (Inr (), rd')"
    by (intro iterate_exit) (simp add: check_step_def)
  ultimately show ?case by auto
next
  case (Cons c cs)
  have at: "chunk_at hw b c rd" using Cons.prems(2,3) by (simp add: file_at_def chunk_at_def)
  obtain rd1 where r1: "read_chunk_header_at hw (of_nat b) rd =
      (Inr (Some (chunk_header c, of_nat b, of_nat (data_start hw b c))), rd1)" "only_source rd rd1"
    using read_header_chunk [OF at Cons.prems(1)] by blast
  obtain rd2 where r2: "read_chunk_data hw (of_nat b) (of_nat (chunk_stop b c)) (of_nat (data_start hw b c))
      (ch_data_size (chunk_header c)) rd1 = (Inr (chunk_data c), rd2)" "only_source rd1 rd2"
    using read_data_chunk [OF chunk_at_only_source [OF at r1(2)] settled_only_source [OF Cons.prems(1) r1(2)]] by blast
  have o: "only_source rd rd2" using r1(2) r2(2) by (rule only_source_trans)
  have step: "check_step hw (of_nat b, rd) =
      Some (if \<not> ch_is_header_valid hw (chunk_header c) then Inr (Inl (MalformedData ''invalid chunk header hash''), rd1)
        else if ch_is_data_valid hw (chunk_header c) (chunk_data c) then Inl (of_nat (chunk_stop b c), rd2)
        else Inr (Inl (MalformedData ''chunk data hash mismatch''), rd2))"
    using r1(1) r2(1) chunk_end_image(1) [OF at Cons.prems(1)] by (simp add: check_step_def Let_def)
  consider "\<not> ch_is_header_valid hw (chunk_header c)"
    | "ch_is_header_valid hw (chunk_header c)" "\<not> ch_is_data_valid hw (chunk_header c) (chunk_data c)"
    | "ch_is_header_valid hw (chunk_header c)" "ch_is_data_valid hw (chunk_header c) (chunk_data c)" by blast
  then show ?case
  proof cases
    case 1
    then have "iterate (check_step hw) (of_nat b, rd) = Some (verdict hw (c # cs), rd1)"
      using step by (intro iterate_exit) simp
    then show ?thesis using r1(2) by blast
  next
    case 2
    then have "iterate (check_step hw) (of_nat b, rd) = Some (verdict hw (c # cs), rd2)"
      using step by (intro iterate_exit) simp
    then show ?thesis using o by blast
  next
    case 3
    then have "iterate (check_step hw) (of_nat b, rd) = iterate (check_step hw) (of_nat (chunk_stop b c), rd2)"
      using step by (intro iterate_continue) simp
    moreover obtain rd' where "iterate (check_step hw) (of_nat (chunk_stop b c), rd2) = Some (verdict hw cs, rd')" "only_source rd2 rd'"
      using Cons.IH [OF settled_only_source [OF Cons.prems(1) o] file_at_only_source [OF file_at_next [OF Cons.prems(2)] o]] Cons.prems(3)
      by auto
    ultimately show ?thesis using only_source_trans [OF o] 3 by auto
  qed
qed

lemma verdict_Inr: "verdict hw cs = Inr () \<longleftrightarrow>
    (\<forall>c \<in> set cs. ch_is_header_valid hw (chunk_header c) \<and> ch_is_data_valid hw (chunk_header c) (chunk_data c))"
  by (induction cs) auto

section \<open>Seeking to a record\<close>

lemma skip_records_pending:
  assumes "rd_current_decoder rd = Some D" "pending_at T cb (rd_current_record_index rd) (Some D) ps" "n \<le> length ps"
  shows "\<exists>D'. skip_records T n rd = Some (Inr (), rd\<lparr>rd_current_decoder := Some D',
      rd_current_record_index := rd_current_record_index rd + of_nat n\<rparr>) \<and>
    pending_at T cb (rd_current_record_index rd + of_nat n) (Some D') (drop n ps)"
  using assms
proof (induction n arbitrary: rd D ps)
  case 0
  then have "rd\<lparr>rd_current_decoder := Some D\<rparr> = rd" by simp
  with 0 show ?case by (intro exI [of _ D]) simp
next
  case (Suc n)
  then obtain p r ps' where ps: "ps = (p, r) # ps'" by (cases ps) auto
  then obtain D' where D': "decoder_read_record T D = Some (Inr (Some r), D')"
    "pending_at T cb (rd_current_record_index rd + 1) (Some D') ps'"
    using decoder_pending_record Suc.prems(2) by metis
  let ?rd = "rd\<lparr>rd_current_decoder := Some D', rd_current_record_index := rd_current_record_index rd + 1\<rparr>"
  have "\<exists>D''. skip_records T n ?rd = Some (Inr (), ?rd\<lparr>rd_current_decoder := Some D'',
      rd_current_record_index := rd_current_record_index ?rd + of_nat n\<rparr>) \<and>
    pending_at T cb (rd_current_record_index ?rd + of_nat n) (Some D'') (drop n ps')"
    using Suc.prems(3) ps D'(2) by (intro Suc.IH [of _ D']) simp_all
  then show ?case using Suc.prems(1) D'(1) ps by (auto simp: add.assoc)
qed

lemma load_at_chunk:
  assumes at: "chunk_at hw b c rd" and s: "settled rd" and h: "chunk_holds hw C T pj c g" and g: "g \<noteq> []"
    and pj: "rd_field_projection rd = pj"
  shows "\<exists>rd' D. load_chunk_at hw C T (of_nat b) rd = Some (Inr (Some D), rd') \<and>
    pending_at T (of_nat b) 0 (Some D) (positions b 0 g) \<and> settled rd' \<and> content rd' = content rd \<and>
    rd_next_chunk_file_pos rd' = of_nat (chunk_stop b c) \<and> rd_current_chunk_begin rd' = of_nat b \<and>
    rd_current_record_index rd' = 0 \<and> rd_field_projection rd' = pj"
proof -
  let ?rd0 = "rd\<lparr>rd_pending_trusted_end := None\<rparr>" and ?e = "of_nat (chunk_stop b c) :: u64"
  have at0: "chunk_at hw b c ?rd0" and s0: "settled ?rd0" using at s by (simp_all add: chunk_at_def settled_def)
  obtain rd1 where r1: "read_chunk_header_at hw (of_nat b) ?rd0 =
      (Inr (Some (chunk_header c, of_nat b, of_nat (data_start hw b c))), rd1)" "only_source ?rd0 rd1"
    using read_header_chunk [OF at0 s0] by blast
  obtain rd2 where r2: "read_chunk_data hw (of_nat b) ?e (of_nat (data_start hw b c)) (ch_data_size (chunk_header c)) rd1 =
      (Inr (chunk_data c), rd2)" "only_source rd1 rd2"
    using read_data_chunk [OF chunk_at_only_source [OF at0 r1(2)] settled_only_source [OF s0 r1(2)]] by blast
  have o: "only_source ?rd0 rd2" using r1(2) r2(2) by (rule only_source_trans)
  have c: "\<lparr>chunk_header = chunk_header c, chunk_data = chunk_data c\<rparr> = c" by simp
  obtain t D where t: "ch_chunk_type (chunk_header c) = Inr t" "t = Simple \<or> t = Transposed"
    and D: "make_decoder hw C T pj (t = Simple) \<lparr>chunk_header = chunk_header c, chunk_data = chunk_data c\<rparr> = Inr D"
    and p: "pending_at T (of_nat b) (of_nat 0) (Some D) (positions b 0 g)"
  proof -
    obtain t where t: "ch_chunk_type (chunk_header c) = Inr t" "t = Simple \<or> t = Transposed"
      using h g by (auto simp: chunk_holds_def split: sum.splits if_splits)
    show thesis
    proof (cases "t = Simple")
      case True
      then obtain d where d: "sc_new hw C c = Inr d" "sc_inv d" "sc_remaining d = g" using h t(1) by (auto simp: chunk_holds_def)
      have "pending_at T (of_nat b) (of_nat 0) (Some (Simple_Decoder d)) (positions b 0 g)"
        using d(2,3) by (simp only: pending_at.simps) blast
      with that [OF t] show thesis using True d(1) unfolding c by (simp add: make_decoder_def)
    next
      case False
      then obtain d where d: "td_new T c pj = Inr d" "td_yields T d g" using h t by (auto simp: chunk_holds_def)
      have "pending_at T (of_nat b) (of_nat 0) (Some (Transposed_Decoder d)) (positions b 0 g)"
        using d(2) by (simp only: pending_at.simps) blast
      with that [OF t] show thesis using False d(1) unfolding c by (simp add: make_decoder_def)
    qed
  qed
  have pj2: "rd_field_projection rd2 = pj" using only_sourceD(5) [OF o] pj by simp
  let ?rd' = "rd2\<lparr>rd_pending_trusted_end := Some ?e, rd_current_chunk_begin := of_nat b, rd_current_record_index := 0,
      rd_next_chunk_file_pos := ?e\<rparr>"
  have "load_at_round hw C T (of_nat b) rd = (Inr (Inl (Some D)), ?rd')"
    using at h r1(1) r2(1) chunk_end_image(1) [OF at s] t D pj2
    by (auto simp: load_at_round_def chunk_holds_def then_do_Inr Let_def)
  then have "load_chunk_at hw C T (of_nat b) rd = Some (Inr (Some D), ?rd')"
    by (simp add: load_chunk_at_def iterate_exit load_at_step_def)
  moreover have "settled ?rd'" "content ?rd' = content rd"
    using settled_only_source [OF s0 o] only_sourceD(2) [OF o] by (simp_all add: settled_def)
  ultimately show ?thesis using p pj2 by (intro exI [of _ ?rd'] exI [of _ D]) simp
qed

lemma seek_into:
  assumes f: "file_at hw b (c # cs) rd" and s: "settled rd" and h: "chunk_holds hw C T pj c g"
    and hs: "list_all2 (chunk_holds hw C T pj) cs gs" and i: "i < length g"
    and pj: "rd_field_projection rd = pj"
  shows "\<exists>rd'. reader_seek hw C T (RecordPosition (of_nat b) (of_nat i)) rd = Some (Inr (), rd') \<and>
    rd_pos rd' = RecordPosition (of_nat b) (of_nat i) \<and> rd_current_chunk_begin rd' = of_nat b \<and>
    rd_current_record_index rd' = of_nat i \<and> settled rd' \<and> content rd' = content rd \<and>
    at_records False hw C T pj (drop i (positions b 0 g) @ file_records (chunk_stop b c) cs gs) rd'"
proof -
  let ?b = "of_nat b :: u64" and ?rd0 = "rd\<lparr>rd_pending_trusted_end := None\<rparr>"
  have at: "chunk_at hw b c rd" using chunk_at_file [OF f h] .
  note says = header_says [OF f s h]
  have ui: "unat (of_nat i :: u64) = i" using i says(3,4) by (intro unat_of_nat_u64) simp
  have cb: "canonical_chunk_address ?b = ?b"
    using canonical_chunk_pos chunk_end_image(3) [OF at s] at by (simp add: chunk_at_def)
  have s0: "settled ?rd0" using s by (simp add: settled_def)
  obtain rd1 where r1: "seek_source ?b ?rd0 = (Inr (), rd1)" "only_source ?rd0 rd1"
    using seek_source_calm [of ?rd0 ?b] s by (auto simp: settled_def)
  define rd2 where "rd2 = rd1\<lparr>rd_current_decoder := None, rd_at_eof := False, rd_next_chunk_file_pos := ?b,
    rd_current_chunk_begin := ?b, rd_current_record_index := 0\<rparr>"
  have s2: "settled rd2" "content rd2 = content rd" and pj2: "rd_field_projection rd2 = pj"
    using settled_only_source [OF s0 r1(2)] only_sourceD(2,5) [OF r1(2)] pj by (simp_all add: settled_def rd2_def)
  then have at2: "chunk_at hw b c rd2" using at by (simp add: chunk_at_def)
  have g: "g \<noteq> []" using i by auto
  obtain rd3 D where r3: "load_chunk_at hw C T ?b rd2 = Some (Inr (Some D), rd3)"
    "pending_at T ?b 0 (Some D) (positions b 0 g)" "settled rd3" "content rd3 = content rd2"
    "rd_next_chunk_file_pos rd3 = of_nat (chunk_stop b c)" "rd_current_chunk_begin rd3 = ?b" "rd_current_record_index rd3 = 0"
    "rd_field_projection rd3 = pj"
    using load_at_chunk [OF at2 s2(1) h g pj2] by blast
  let ?rd3 = "rd3\<lparr>rd_current_decoder := Some D\<rparr>"
  obtain D' where D': "skip_records T i ?rd3 = Some (Inr (), ?rd3\<lparr>rd_current_decoder := Some D', rd_current_record_index := of_nat i\<rparr>)"
    "pending_at T ?b (of_nat i) (Some D') (drop i (positions b 0 g))"
    using skip_records_pending [of ?rd3 D T ?b "positions b 0 g" i] r3(2,7) i by auto
  define rd4 where "rd4 = ?rd3\<lparr>rd_current_decoder := Some D', rd_current_record_index := of_nat i, rd_pos := RecordPosition ?b (of_nat i)\<rparr>"
  have seek: "reader_seek hw C T (RecordPosition ?b (of_nat i)) rd = Some (Inr (), rd4)"
    using r1(1) r3(1,6) D'(1) ui
    by (simp add: reader_seek_def Let_def cb rd2_def [symmetric]) (simp add: rd4_def)
  have e4: "settled rd4" "content rd4 = content rd" "rd_next_chunk_file_pos rd4 = of_nat (chunk_stop b c)"
    using r3(3,4,5) s2(2) by (simp_all add: rd4_def settled_def)
  have pj4: "rd_field_projection rd4 = pj" using r3(8) by (simp add: rd4_def)
  have "file_at hw (chunk_stop b c) cs rd4" using file_at_next [OF f] e4(2) by (simp add: file_at_def)
  then have "between False hw C T pj (length cs) (file_records (chunk_stop b c) cs gs) rd4"
    using e4(1,3) pj4 hs unfolding between_def by auto
  moreover have "pending_at T (rd_current_chunk_begin rd4) (rd_current_record_index rd4) (rd_current_decoder rd4) (drop i (positions b 0 g))"
    using D'(2) r3(6) by (simp add: rd4_def)
  ultimately have "at_records False hw C T pj (drop i (positions b 0 g) @ file_records (chunk_stop b c) cs gs) rd4"
    unfolding at_records_def reading_def by blast
  with seek e4 r3(6) show ?thesis by (auto simp: rd4_def)
qed

text \<open>The chunk of the \<open>k\<close>th record of a file.\<close>

lemma file_records_split:
  assumes "length cs = length gs" "k < length (file_records b cs gs)"
  obtains cs1 c cs2 gs1 g gs2 i where "cs = cs1 @ c # cs2" "gs = gs1 @ g # gs2" "length cs1 = length gs1" "i < length g"
    "fst (file_records b cs gs ! k) = RecordPosition (of_nat (file_end b cs1)) (of_nat i)"
    "drop k (file_records b cs gs) = drop i (positions (file_end b cs1) 0 g) @ file_records (chunk_stop (file_end b cs1) c) cs2 gs2"
    "k = length (concat gs1) + i"
proof -
  have nth: "fst (positions p j rs ! i) = RecordPosition (of_nat p) (of_nat (j + i))" if "i < length rs" for p j i rs
    using that by (induction rs arbitrary: i j) (auto simp: nth_Cons split: nat.split)
  have "\<exists>cs1 c cs2 gs1 g gs2 i. cs = cs1 @ c # cs2 \<and> gs = gs1 @ g # gs2 \<and> length cs1 = length gs1 \<and> i < length g \<and>
    fst (file_records b cs gs ! k) = RecordPosition (of_nat (file_end b cs1)) (of_nat i) \<and>
    drop k (file_records b cs gs) = drop i (positions (file_end b cs1) 0 g) @ file_records (chunk_stop (file_end b cs1) c) cs2 gs2 \<and>
    k = length (concat gs1) + i"
    using assms
  proof (induction cs arbitrary: b gs k)
    case (Cons c cs)
    then obtain g gs' where gs: "gs = g # gs'" by (cases gs) auto
    show ?case
    proof (cases "k < length g")
      case True
      then show ?thesis using gs nth [OF True, of b 0]
        by (intro exI [of _ "[]"] exI [of _ c] exI [of _ cs] exI [of _ g] exI [of _ gs'] exI [of _ k]) (simp add: nth_append)
    next
      case False
      then obtain j where j: "k = length g + j" using le_Suc_ex by (metis not_less)
      have "length cs = length gs'" "j < length (file_records (chunk_stop b c) cs gs')"
        using Cons.prems gs j by auto
      then obtain cs1 c' cs2 gs1 g' gs2 i where "cs = cs1 @ c' # cs2 \<and> gs' = gs1 @ g' # gs2 \<and> length cs1 = length gs1 \<and> i < length g' \<and>
        fst (file_records (chunk_stop b c) cs gs' ! (j)) = RecordPosition (of_nat (file_end (chunk_stop b c) cs1)) (of_nat i) \<and>
        drop (j) (file_records (chunk_stop b c) cs gs') = drop i (positions (file_end (chunk_stop b c) cs1) 0 g') @
          file_records (chunk_stop (file_end (chunk_stop b c) cs1) c') cs2 gs2 \<and> j = length (concat gs1) + i"
        using Cons.IH by blast
      then have "c # cs = (c # cs1) @ c' # cs2 \<and> gs = (g # gs1) @ g' # gs2 \<and> length (c # cs1) = length (g # gs1) \<and> i < length g' \<and>
        fst (file_records b (c # cs) gs ! k) = RecordPosition (of_nat (file_end b (c # cs1))) (of_nat i) \<and>
        drop k (file_records b (c # cs) gs) = drop i (positions (file_end b (c # cs1)) 0 g') @
          file_records (chunk_stop (file_end b (c # cs1)) c') cs2 gs2 \<and> k = length (concat (g # gs1)) + i"
        using j gs by (auto simp: nth_append)
      then show ?thesis by blast
    qed
  qed simp
  then show ?thesis using that by blast
qed

lemma seek_record:
  assumes s: "settled rd" and f: "file_at hw b cs rd" and h: "list_all2 (chunk_holds hw C T pj) cs gs"
    and pj: "rd_field_projection rd = pj" and k: "k < length (file_records b cs gs)"
  shows "\<exists>rd'. reader_seek hw C T (fst (file_records b cs gs ! k)) rd = Some (Inr (), rd') \<and>
    rd_pos rd' = fst (file_records b cs gs ! k) \<and> settled rd' \<and> content rd' = content rd \<and>
    at_records False hw C T pj (drop k (file_records b cs gs)) rd'"
proof -
  obtain cs1 c cs2 gs1 g gs2 i where sp: "cs = cs1 @ c # cs2" "gs = gs1 @ g # gs2" "length cs1 = length gs1" "i < length g"
    "fst (file_records b cs gs ! k) = RecordPosition (of_nat (file_end b cs1)) (of_nat i)"
    "drop k (file_records b cs gs) = drop i (positions (file_end b cs1) 0 g) @ file_records (chunk_stop (file_end b cs1) c) cs2 gs2"
    using file_records_split [OF list_all2_lengthD [OF h] k] .
  have f': "file_at hw (file_end b cs1) (c # cs2) rd" using f sp(1) file_at_append by blast
  have "chunk_holds hw C T pj c g" "list_all2 (chunk_holds hw C T pj) cs2 gs2" using h sp(1-3) by (simp_all add: list_all2_append)
  from seek_into [OF f' s this sp(4) pj] show ?thesis unfolding sp(5,6) by blast
qed
section \<open>Properties\<close>

text \<open>C6. Every position is a way back: seeking to the position of the \<open>k\<close>th record of a file, in
  whatever state the reader is, succeeds, stands at that position, and reading on yields the
  records from the \<open>k\<close>th on, with the same positions as before.\<close>

theorem seek_reads_on:
  assumes "settled rd" and "content rd = file_image hw 0 (signature_chunk hw # cs)"
    and "list_all2 (chunk_holds hw C T (rd_field_projection rd)) cs gs" and "k < length (file_records 64 cs gs)"
  shows "\<exists>rd'. reader_seek hw C T (fst (file_records 64 cs gs ! k)) rd = Some (Inr (), rd') \<and>
    rd_pos rd' = fst (file_records 64 cs gs ! k) \<and>
    reports hw C T m rd' = Some (take m (drop k (file_records 64 cs gs)))"
proof -
  have f: "file_at hw 64 cs rd" using assms(2) by (rule file_at_signature)
  show ?thesis using seek_record [OF assms(1) f assms(3) refl assms(4)] reports_take by blast
qed

definition sample_reader :: "(unit, unit) RecordReader" where
  "sample_reader = initial_reader (sample_source sample_file) reader_options_new 111 False"

lemma sample_reader_settled [simp]: "settled sample_reader"
  "content sample_reader = file_image sample_hash 0 [signature_chunk sample_hash, sample_chunk]"
  using sample_file_length
  by (simp_all add: settled_def sample_reader_def initial_reader_def sample_file_def [symmetric] del: file_image.simps)

lemma sample_groups: "list_all2 (chunk_holds sample_hash store_codec null_transposed None) [sample_chunk] [[[7], [8, 9]]]"
  by (simp add: sample_chunk_holds)

lemma sample_groups': "list_all2 (chunk_holds sample_hash store_codec null_transposed (rd_field_projection sample_reader)) [sample_chunk] [[[7], [8, 9]]]"
  by (simp add: sample_chunk_holds sample_reader_def initial_reader_def reader_options_new_def)

lemma seek_reads_on_witness:
  "\<exists>rd'. reader_seek sample_hash store_codec null_transposed (RecordPosition 64 1) sample_reader = Some (Inr (), rd') \<and>
    rd_pos rd' = RecordPosition 64 1 \<and>
    reports sample_hash store_codec null_transposed 5 rd' = Some [(RecordPosition 64 1, [8, 9])]"
  using seek_reads_on [OF sample_reader_settled sample_groups', of 1 5] by simp

text \<open>C7. The size of a file, counted from the chunk headers alone, is the number of its records.\<close>

theorem size_counts_records:
  assumes "settled rd" and "content rd = file_image hw 0 (signature_chunk hw # cs)"
    and "list_all2 (chunk_holds hw C T pj) cs gs"
  shows "\<exists>rd'. size_of_file hw rd = Some (Inr (of_nat (length (concat gs))), rd') \<and> content rd' = content rd \<and>
    rd_current_decoder rd' = rd_current_decoder rd \<and> rd_current_record_index rd' = rd_current_record_index rd"
proof -
  let ?rd = "rd\<lparr>rd_pending_trusted_end := None\<rparr>"
  have "file_at hw 64 cs ?rd" using file_at_signature [of ?rd hw cs] assms(2) by simp
  moreover have "settled ?rd" using assms(1) by (simp add: settled_def)
  ultimately obtain rd' where "iterate (size_step hw) (of_nat 64, 0, ?rd) = Some (Inr (0 + of_nat (length (concat gs))), rd')"
    "only_source ?rd rd'"
    using size_file assms(3) by blast
  then show ?thesis by (auto simp: size_of_file_def FIRST_CHUNK_def block_consts only_sourceD)
qed

lemma size_counts_records_witness: "\<exists>rd'. size_of_file sample_hash sample_reader = Some (Inr 2, rd')"
  using size_counts_records [OF sample_reader_settled sample_groups] by auto

text \<open>C8. The format check decides: on a file of chunks of any kind that are laid out as their headers
  say, it ends, leaves the reader where it is, and accepts just when the hash of every header and the
  hash of the data of every chunk are right; else its error names the first hash that is wrong.\<close>

theorem check_decides_files:
  assumes "settled rd" and "content rd = file_image hw 0 (signature_chunk hw # cs)"
    and "\<forall>c \<in> set cs. ch_data_size (chunk_header c) = of_nat (length (chunk_data c))"
  shows "\<exists>rd'. check_file_format hw rd = Some (verdict hw cs, rd') \<and>
    (verdict hw cs = Inr () \<longleftrightarrow>
      (\<forall>c \<in> set cs. ch_is_header_valid hw (chunk_header c) \<and> ch_is_data_valid hw (chunk_header c) (chunk_data c))) \<and>
    content rd' = content rd \<and> rd_pos rd' = rd_pos rd \<and> rd_current_decoder rd' = rd_current_decoder rd \<and>
    rd_current_record_index rd' = rd_current_record_index rd"
proof -
  let ?b = "block_to_bytes (block_from_parts hw 0 64)"
  have c: "calm (rd_reader rd)" using assms(1) by (simp add: settled_def)
  have img: "content rd = ?b @ chunk_to_bytes (chunk_from_parts hw [] FileSignature 0 0) @ file_image hw 64 cs"
    using assms(2) file_image_append [OF chunk_pos_0, of hw "[signature_chunk hw]" cs] signature_image [of hw] signature_end [of hw]
    by simp
  obtain rd1 where r1: "seek_source 0 rd = (Inr (), rd1)" "only_source rd rd1" "src_pos (rd_reader rd1) = 0"
    using seek_source_calm [OF c, of 0] by auto
  obtain rd2 where r2: "read_exact 24 rd1 = (Inr ?b, rd2)" "only_source rd1 rd2"
    using read_exact_calm [OF only_sourceD(1) [OF r1(2)], of 24] r1(3) only_sourceD(2) [OF r1(2)] img by auto
  have o: "only_source rd rd2" using r1(2) r2(2) by (rule only_source_trans)
  have "file_at hw 0 (signature_chunk hw # cs) rd" using assms(2) by (simp add: file_at_def chunk_pos_0)
  moreover have "\<forall>c \<in> set (signature_chunk hw # cs). ch_data_size (chunk_header c) = of_nat (length (chunk_data c))"
    using assms(3) by (simp add: signature_chunk_def)
  moreover have "verdict hw (signature_chunk hw # cs) = verdict hw cs" by (simp add: signature_chunk_def)
  ultimately obtain rd3 where r3: "iterate (check_step hw) (of_nat 0, rd2) = Some (verdict hw cs, rd3)" "only_source rd2 rd3"
    using check_file [OF settled_only_source [OF assms(1) o] file_at_only_source [OF _ o]] by metis
  have "check_step hw (24, rd2) = check_step hw (0, rd2)"
    by (simp add: check_step_def read_chunk_header_at_def canonical_chunk_address_def block_consts)
  then have "iterate (check_step hw) (24, rd2) = iterate (check_step hw) (0, rd2)"
    by (simp only: iterate.simps [of _ "(24, rd2)"] iterate.simps [of _ "(0, rd2)"])
  then have "check_file_format hw rd = Some (verdict hw cs, rd3)"
    using r1(1) r2(1) r3(1) by (simp add: check_file_format_def then_do_Inr block_consts)
  then show ?thesis using only_sourceD [OF only_source_trans [OF o r3(2)]] verdict_Inr by blast
qed

definition damaged_reader :: "(unit, unit) RecordReader" where
  "damaged_reader = initial_reader (sample_source (file_image sample_hash 0 [signature_chunk sample_hash, damaged_chunk]))
     reader_options_new 111 False"

lemma check_decides_files_witness:
  "(\<exists>rd'. check_file_format sample_hash sample_reader = Some (Inr (), rd')) \<and>
  (\<exists>rd'. check_file_format sample_hash damaged_reader = Some (Inl (MalformedData ''chunk data hash mismatch''), rd'))"
proof -
  have h: "chunk_holds sample_hash store_codec null_transposed None sample_chunk [[7], [8, 9]]" by (rule sample_chunk_holds)
  then have v: "verdict sample_hash [sample_chunk] = Inr ()" "\<forall>c \<in> set [sample_chunk]. ch_data_size (chunk_header c) = of_nat (length (chunk_data c))"
    by (simp_all add: chunk_holds_def)
  have good: "\<exists>rd'. check_file_format sample_hash sample_reader = Some (Inr (), rd')"
    using check_decides_files [OF sample_reader_settled v(2)] v(1) by auto
  have d: "verdict sample_hash [damaged_chunk] = Inl (MalformedData ''chunk data hash mismatch'')"
    "\<forall>c \<in> set [damaged_chunk]. ch_data_size (chunk_header c) = of_nat (length (chunk_data c))"
    using damaged_sample by (simp_all add: damaged_def)
  have "length (file_image sample_hash 0 [signature_chunk sample_hash, damaged_chunk]) = 111"
    using file_image_end [OF chunk_pos_0, of sample_hash "[signature_chunk sample_hash, damaged_chunk]"]
      signature_end [of sample_hash] by (simp add: damaged_file_end)
  then have "settled damaged_reader" "content damaged_reader = file_image sample_hash 0 [signature_chunk sample_hash, damaged_chunk]"
    by (simp_all add: settled_def damaged_reader_def initial_reader_def del: file_image.simps)
  then have "\<exists>rd'. check_file_format sample_hash damaged_reader = Some (Inl (MalformedData ''chunk data hash mismatch''), rd')"
    using check_decides_files [of damaged_reader sample_hash "[damaged_chunk]"] d by auto
  with good show ?thesis by blast
qed

end
