(* ===== verification/ReaderRecovery.thy ===== *)
theory ReaderRecovery
  imports ReaderSeek
begin

text \<open>
  The reader on arbitrary bytes.  The source does not fail, but the file may be anything: the
  operations return, the positions stay in range, and recovery reports regions that move forward.
\<close>

section \<open>Reading headers in arbitrary bytes\<close>

text \<open>An action only moves the source, and its answer satisfies \<open>Q\<close>.\<close>

definition steady :: "(('t, 'c) RecordReader, 'a) action \<Rightarrow> ('a res \<Rightarrow> bool) \<Rightarrow> ('t, 'c) RecordReader \<Rightarrow> bool" where
  "steady m Q rd \<longleftrightarrow> (case m rd of (r, rd') \<Rightarrow> only_source rd rd' \<and> Q r)"

lemma steadyI: "m rd = (r, rd') \<Longrightarrow> only_source rd rd' \<Longrightarrow> Q r \<Longrightarrow> steady m Q rd"
  by (simp add: steady_def)

lemma steadyE: "steady m Q rd \<Longrightarrow> (\<And>r rd'. m rd = (r, rd') \<Longrightarrow> only_source rd rd' \<Longrightarrow> Q r \<Longrightarrow> thesis) \<Longrightarrow> thesis"
  by (auto simp: steady_def split: prod.splits)

lemma steady_mono: "steady m Q rd \<Longrightarrow> (\<And>r. Q r \<Longrightarrow> Q' r) \<Longrightarrow> steady m Q' rd"
  by (auto simp: steady_def split: prod.splits)

lemma steady_eqI: "steady m' Q rd \<Longrightarrow> m rd = m' rd \<Longrightarrow> steady m Q rd"
  by (simp add: steady_def)

lemma steady_then:
  assumes "steady m Q rd" and "\<And>e. Q (Inl e) \<Longrightarrow> Q' (Inl e)"
    and "\<And>x rd'. Q (Inr x) \<Longrightarrow> only_source rd rd' \<Longrightarrow> steady (f x) Q' rd'"
  shows "steady (then_do m f) Q' rd"
  using assms(1)
proof (rule steadyE)
  fix r rd' assume r: "m rd = (r, rd')" "only_source rd rd'" "Q r"
  show ?thesis
  proof (cases r)
    case (Inl e)
    with r assms(2) show ?thesis by (simp add: steady_def)
  next
    case (Inr x)
    with r assms(3) have "steady (f x) Q' rd'" by blast
    then show ?thesis
    proof (rule steadyE)
      fix r' rd'' assume "f x rd' = (r', rd'')" "only_source rd' rd''" "Q' r'"
      with r Inr show ?thesis by (intro steadyI [of _ _ r' rd'']) (auto intro: only_source_trans)
    qed
  qed
qed

lemma steady_ret [simp]: "steady (ret x) Q rd \<longleftrightarrow> calm (rd_reader rd) \<and> Q (Inr x)"
  by (auto simp: steady_def ret_def only_source_refl dest: only_sourceD(1))

lemma steady_fail [simp]: "steady (fail_with e) Q rd \<longleftrightarrow> calm (rd_reader rd) \<and> Q (Inl e)"
  by (auto simp: steady_def fail_with_def only_source_refl dest: only_sourceD(1))

lemma steady_seek: "calm (rd_reader rd) \<Longrightarrow> steady (seek_source p) (\<lambda>r. r = Inr ()) rd"
  by (rule seek_source_calm [of rd p]) (auto intro: steadyI)

lemma steady_seek_read:
  "calm (rd_reader rd) \<Longrightarrow>
   steady (then_do (seek_source p) (\<lambda>_. read_full n)) (\<lambda>r. r = Inr (take n (drop (unat p) (content rd)))) rd"
  by (rule seek_read_full [of rd p "unat p" n]) (auto intro: steadyI)

lemma steady_read_exact: "calm (rd_reader rd) \<Longrightarrow> steady (read_exact n) (\<lambda>r. \<forall>bs. r = Inr bs \<longrightarrow> length bs = n) rd"
proof -
  assume c: "calm (rd_reader rd)"
  obtain s where "same_file (rd_reader rd) s" "src_read_exact n (rd_reader rd) =
      (if n \<le> length (content rd) - src_pos (rd_reader rd) then Inr (take n (drop (src_pos (rd_reader rd)) (content rd)))
       else Inl (IoError ''failed to fill whole buffer''), s)"
    using src_read_exact_calm [OF c] by metis
  then show ?thesis
    by (intro steadyI [of _ _ _ "rd\<lparr>rd_reader := s\<rparr>"]) (auto simp: on_source_def only_source_def min_def split: if_splits)
qed

lemma steady_pass_header:
  assumes "calm (rd_reader rd)"
  shows "steady (pass_block_header hw cb pos c)
    (\<lambda>r. (\<forall>bh. r = Inr (Some bh) \<longrightarrow> unat pos + 24 \<le> length (content rd)) \<and>
         (\<forall>e. r = Inl e \<longrightarrow> c \<or> unat pos < length (content rd))) rd"
  unfolding pass_block_header_def then_do_assoc [where f = "\<lambda>_. read_full 24"]
proof (rule steady_then [OF steady_seek_read [OF assms]])
  fix bs and rd' :: "('a, 'b) RecordReader"
  assume bs: "Inr bs = Inr (take 24 (drop (unat pos) (content rd)))" and o: "only_source rd rd'"
  then have "length bs = min 24 (length (content rd) - unat pos)" by simp
  then show "steady (if length bs < 24 then if length bs = 0 \<and> \<not> c then ret None else fail_with truncated_error
      else let bh = block_from_bytes bs
           in if \<not> block_is_valid hw bh then fail_with (MalformedData ''invalid block header hash'')
              else if checked_sub pos (previous_chunk bh) \<noteq> Some cb
              then fail_with (MalformedData ''block header implies a different previous chunk boundary'')
              else ret (Some bh))
    (\<lambda>r. (\<forall>bh. r = Inr (Some bh) \<longrightarrow> unat pos + 24 \<le> length (content rd)) \<and>
         (\<forall>e. r = Inl e \<longrightarrow> c \<or> unat pos < length (content rd))) rd'"
    using only_sourceD(1) [OF o] by (auto simp: Let_def)
qed simp
text \<open>The loops of the header and of the data, as actions.\<close>

definition enter_block :: "hasher \<Rightarrow> u64 \<Rightarrow> u64 \<Rightarrow> bytes \<Rightarrow> bool \<Rightarrow> (u64 \<times> BlockHeader) option \<Rightarrow>
    (('t, 'c) RecordReader, (u64 \<times> bool \<times> (u64 \<times> BlockHeader) option) option) action" where
  "enter_block hw cb pos filled c i =
     (if is_block_boundary pos
      then then_do (pass_block_header hw cb pos c)
        (\<lambda>bh. ret (map_option (\<lambda>bh. (pos + BLOCK_HEADER_SIZE, True, if filled \<noteq> [] then Some (pos, bh) else i)) bh))
      else ret (Some (pos, c, i)))"

definition room :: "nat \<Rightarrow> u64 \<Rightarrow> nat" where
  "room n pos = min n (unat (BLOCK_SIZE - pos mod BLOCK_SIZE))"

lemma room_pos: "0 < n \<Longrightarrow> 0 < room n pos" "room n pos \<le> n"
  using until_boundary(2) [of pos] by (auto simp: room_def word_less_nat_alt)

lemma fill_header_step:
  "length filled < 40 \<Longrightarrow> fill_header hw cb pos filled c i rd =
     then_do (enter_block hw cb pos filled c i) (\<lambda>x.
       case x of
         None \<Rightarrow> ret None
       | Some (pos, c, i) \<Rightarrow>
           then_do (then_do (seek_source pos) (\<lambda>_. read_full (room (40 - length filled) pos))) (\<lambda>bs.
             if length bs < room (40 - length filled) pos then
               if bs = [] \<and> \<not> c then ret None else fail_with truncated_error
             else fill_header hw cb (pos + of_nat (length bs)) (filled @ bs) True i)) rd"
  by (subst fill_header.simps)
     (auto simp: enter_block_def then_do_def ret_def fail_with_def room_def Let_def split: prod.splits sum.splits option.splits)

lemma steady_enter_block:
  assumes "calm (rd_reader rd)" "length (content rd) \<le> 2 ^ 63"
  shows "steady (enter_block hw cb pos filled c i)
    (\<lambda>r. (\<forall>pos' c' i'. r = Inr (Some (pos', c', i')) \<longrightarrow>
           unat pos \<le> unat pos' \<and> (c' \<longrightarrow> c \<or> unat pos < length (content rd))) \<and>
         (\<forall>e. r = Inl e \<longrightarrow> c \<or> unat pos < length (content rd))) rd"
proof (cases "is_block_boundary pos")
  case True
  have "unat pos \<le> unat (pos + BLOCK_HEADER_SIZE)" if "unat pos + 24 \<le> length (content rd)"
    using that assms(2) by (subst unat_add_u64) (simp_all add: block_consts)
  then show ?thesis unfolding enter_block_def if_P [OF True]
    by (intro steady_then [OF steady_pass_header [OF assms(1)]]) (auto dest: only_sourceD(1))
qed (use assms in \<open>simp add: enter_block_def\<close>)

lemma steady_fill_header:
  assumes "calm (rd_reader rd)" "length (content rd) \<le> 2 ^ 63" "length filled \<le> 40"
  shows "steady (fill_header hw cb pos filled c i)
    (\<lambda>r. (\<forall>bs fp i'. r = Inr (Some (bs, fp, i')) \<longrightarrow> length bs = 40 \<and>
           unat pos + 40 \<le> unat fp + length filled \<and>
           (length filled < 40 \<or> unat pos \<le> length (content rd) \<longrightarrow> unat fp \<le> length (content rd))) \<and>
         (\<forall>e. r = Inl e \<longrightarrow> c \<or> unat pos < length (content rd))) rd"
  using assms
proof (induction "40 - length filled" arbitrary: rd pos filled c i rule: less_induct)
  case less
  show ?case
  proof (cases "length filled < 40")
    case False
    then show ?thesis using less.prems
      by (intro steadyI [of _ _ "Inr (Some (filled, pos, i))" rd]) (auto simp: fill_header.simps only_source_refl)
  next
    case True
    let ?L = "length (content rd)"
    let ?Q = "\<lambda>r. (\<forall>bs fp i'. r = Inr (Some (bs, fp, i')) \<longrightarrow> length bs = 40 \<and>
           unat pos + 40 \<le> unat fp + length filled \<and> (length filled < 40 \<or> unat pos \<le> ?L \<longrightarrow> unat fp \<le> ?L)) \<and>
         (\<forall>e. r = Inl e \<longrightarrow> c \<or> unat pos < ?L)"
    have "steady (then_do (enter_block hw cb pos filled c i) (\<lambda>x.
       case x of
         None \<Rightarrow> ret None
       | Some (pos, c, i) \<Rightarrow>
           then_do (then_do (seek_source pos) (\<lambda>_. read_full (room (40 - length filled) pos))) (\<lambda>bs.
             if length bs < room (40 - length filled) pos then
               if bs = [] \<and> \<not> c then ret None else fail_with truncated_error
             else fill_header hw cb (pos + of_nat (length bs)) (filled @ bs) True i))) ?Q rd"
    proof (rule steady_then [OF steady_enter_block [OF less.prems(1,2)]], goal_cases)
      case (2 x rd1)
      note o1 = 2(2)
      show ?case
      proof (cases x)
        case None
        then show ?thesis using only_sourceD(1) [OF o1] by simp
      next
        case (Some y)
        obtain p1 c1 i1 where y: "y = (p1, c1, i1)" by (cases y)
        have p1: "unat pos \<le> unat p1" "c1 \<longrightarrow> c \<or> unat pos < ?L" using 2(1) Some y by auto
        let ?n = "room (40 - length filled) p1"
        have n: "0 < ?n" "?n \<le> 40 - length filled" using room_pos True by simp_all
        have "steady (then_do (then_do (seek_source p1) (\<lambda>_. read_full ?n)) (\<lambda>bs.
             if length bs < ?n then if bs = [] \<and> \<not> c1 then ret None else fail_with truncated_error
             else fill_header hw cb (p1 + of_nat (length bs)) (filled @ bs) True i1)) ?Q rd1"
        proof (rule steady_then [OF steady_seek_read [OF only_sourceD(1) [OF o1]]], goal_cases)
          case (2 bs rd2)
          have o2: "only_source rd rd2" using o1 2(2) by (rule only_source_trans)
          have bs: "length bs = min ?n (?L - unat p1)" using 2(1) only_sourceD(2) [OF o1] by simp
          have nonempty: "c \<or> unat pos < ?L" if "bs \<noteq> [] \<or> c1"
          proof -
            have "0 < ?L - unat p1 \<or> c1" using that bs n(1) by (cases bs) (auto simp: min_def split: if_splits)
            then show ?thesis using p1 by linarith
          qed
          show ?case
          proof (cases "length bs < ?n")
            case True
            then show ?thesis using only_sourceD(1) [OF o2] nonempty by auto
          next
            case False
            then have l: "length bs = ?n" "unat p1 + ?n \<le> ?L" using bs n(1) by (auto simp: min_def split: if_splits)
            then have ne: "bs \<noteq> []" using n(1) by auto
            have up: "unat (p1 + of_nat (length bs)) = unat p1 + ?n"
              using l less.prems(2) by (simp add: unat_add_u64 unat_of_nat_u64)
            have "steady (fill_header hw cb (p1 + of_nat (length bs)) (filled @ bs) True i1)
              (\<lambda>r. (\<forall>bs' fp i'. r = Inr (Some (bs', fp, i')) \<longrightarrow> length bs' = 40 \<and>
                 unat (p1 + of_nat (length bs)) + 40 \<le> unat fp + length (filled @ bs) \<and>
                 (length (filled @ bs) < 40 \<or> unat (p1 + of_nat (length bs)) \<le> length (content rd2) \<longrightarrow>
                   unat fp \<le> length (content rd2))) \<and>
               (\<forall>e. r = Inl e \<longrightarrow> True \<or> unat (p1 + of_nat (length bs)) < length (content rd2))) rd2"
              using l n True only_sourceD(1,2) [OF o2] less.prems(2) by (intro less.hyps) simp_all
            then have "steady (fill_header hw cb (p1 + of_nat (length bs)) (filled @ bs) True i1) ?Q rd2"
            proof (rule steady_mono, goal_cases)
              case (1 r)
              then show ?case using up l n p1(1) nonempty [OF disjI1 [OF ne]] only_sourceD(2) [OF o2] by auto
            qed
            then show ?thesis using False by simp
          qed
        qed simp
        then show ?thesis using Some y by simp
      qed
    qed simp
    then show ?thesis by (rule steady_eqI [OF _ fill_header_step [OF True]])
  qed
qed

text \<open>
  What is known of a chunk header that was read: it lies in the file, and when it is valid, so do
  the data it claims, and its records are at most the bytes that follow.
\<close>

definition header_in_file :: "hasher \<Rightarrow> u64 \<Rightarrow> nat \<Rightarrow> ChunkHeader \<times> u64 \<times> u64 \<Rightarrow> bool" where
  "header_in_file hw pos L = (\<lambda>(ch, cb, db). cb = canonical_chunk_address pos \<and> unat cb + 40 \<le> unat db \<and> unat db \<le> L \<and>
     (ch_is_header_valid hw ch \<longrightarrow> unat db + unat (ch_data_size ch) \<le> L \<and> unat cb + unat (ch_num_records ch) \<le> L))"

lemma claims_in_file:
  assumes "settled rd" "unat cb \<le> unat db" "unat db \<le> length (content rd)" "\<not> claims_exceed ch cb db rd"
  shows "unat db + unat (ch_data_size ch) \<le> length (content rd)" "unat cb + unat (ch_num_records ch) \<le> length (content rd)"
proof -
  have "unat (rd_stream_len rd) = length (content rd)" using assms(1) by (simp add: settled_def unat_of_nat_u64)
  then show "unat db + unat (ch_data_size ch) \<le> length (content rd)" "unat cb + unat (ch_num_records ch) \<le> length (content rd)"
    using assms(2-4) by (auto simp: claims_exceed_def word_less_nat_alt unat_saturating_sub)
qed

lemma steady_measure: "settled rd \<Longrightarrow> steady measure_stream (\<lambda>r. r = Inr ()) rd"
proof -
  assume s: "settled rd"
  then obtain s' where s': "src_seek_end (rd_reader rd) = (Inr (of_nat (length (content rd))), s')" "same_file (rd_reader rd) s'"
    using src_seek_end_calm by (auto simp: settled_def)
  have "rd\<lparr>rd_reader := s', rd_stream_len := of_nat (length (content rd))\<rparr> = rd\<lparr>rd_reader := s'\<rparr>"
    using s by (simp add: settled_def)
  with s' show ?thesis
    by (intro steadyI [of _ _ _ "rd\<lparr>rd_reader := s'\<rparr>"]) (auto simp: measure_stream_def on_source_def only_source_def then_do_def)
qed

lemma steady_check_claims:
  assumes "settled rd" "unat cb \<le> unat db" "unat db \<le> length (content rd)"
  shows "steady (check_claims ch cb db)
    (\<lambda>r. r = Inr () \<longrightarrow> unat db + unat (ch_data_size ch) \<le> length (content rd) \<and>
       unat cb + unat (ch_num_records ch) \<le> length (content rd)) rd"
proof (cases "claims_exceed ch cb db rd")
  case False
  then show ?thesis using claims_in_file [OF assms] assms(1)
    by (intro steadyI [of _ _ "Inr ()" rd]) (auto simp: check_claims_def settled_refl)
next
  case True
  show ?thesis using steady_measure [OF assms(1)]
  proof (rule steadyE)
    fix r rd' assume "measure_stream rd = (r, rd')" and o: "only_source rd rd'" and "r = Inr ()"
    then have m: "measure_stream rd = (Inr (), rd')" by simp
    have "claims_exceed ch cb db rd' = claims_exceed ch cb db rd"
      using only_sourceD(3) [OF o] by (simp add: claims_exceed_def)
    with True m o show ?thesis
      unfolding steady_def check_claims_def if_P [OF True] by (auto simp: claims_exceed_def)
  qed
qed

lemma steady_read_header:
  assumes "settled rd"
  shows "steady (read_chunk_header_at hw pos)
    (\<lambda>r. (\<forall>x. r = Inr (Some x) \<longrightarrow> header_in_file hw pos (length (content rd)) x) \<and>
         (\<forall>e. r = Inl e \<longrightarrow> unat (canonical_chunk_address pos) < length (content rd))) rd"
proof -
  let ?L = "length (content rd)" and ?cb = "canonical_chunk_address pos"
  let ?Q = "\<lambda>r. (\<forall>x. r = Inr (Some x) \<longrightarrow> header_in_file hw pos ?L x) \<and> (\<forall>e. r = Inl e \<longrightarrow> unat ?cb < ?L)"
  have s: "calm (rd_reader rd)" "?L \<le> 2 ^ 63" using assms by (simp_all add: settled_def)
  have step: "read_chunk_header_at hw pos rd = then_do (fill_header hw ?cb ?cb [] False None) (\<lambda>x.
      case x of
        None \<Rightarrow> ret None
      | Some (bs, db, i) \<Rightarrow>
          if ch_is_header_valid hw (chunk_from_bytes bs)
          then then_do (check_claims (chunk_from_bytes bs) ?cb db) (\<lambda>_.
            case check_interior (chunk_from_bytes bs) ?cb i of
              Inl e \<Rightarrow> fail_with e
            | Inr _ \<Rightarrow> ret (Some (chunk_from_bytes bs, ?cb, db)))
          else ret (Some (chunk_from_bytes bs, ?cb, db))) rd"
    by (auto simp: read_chunk_header_at_def Let_def then_do_def ret_def fail_with_def split: prod.splits sum.splits option.splits)
  have "steady (then_do (fill_header hw ?cb ?cb [] False None) (\<lambda>x.
      case x of
        None \<Rightarrow> ret None
      | Some (bs, db, i) \<Rightarrow>
          if ch_is_header_valid hw (chunk_from_bytes bs)
          then then_do (check_claims (chunk_from_bytes bs) ?cb db) (\<lambda>_.
            case check_interior (chunk_from_bytes bs) ?cb i of
              Inl e \<Rightarrow> fail_with e
            | Inr _ \<Rightarrow> ret (Some (chunk_from_bytes bs, ?cb, db)))
          else ret (Some (chunk_from_bytes bs, ?cb, db)))) ?Q rd"
  proof (rule steady_then [OF steady_fill_header [OF s, of "[]"]], goal_cases)
    case (3 x rd1)
    note s1 = settled_only_source [OF assms 3(2)]
    then have c1: "calm (rd_reader rd1)" by (simp add: settled_def)
    have L1: "content rd1 = content rd" by (rule only_sourceD(2) [OF 3(2)])
    show ?case
    proof (cases x)
      case None
      then show ?thesis using c1 by simp
    next
      case (Some y)
      obtain bs db i where y: "y = (bs, db, i)" by (cases y)
      have db: "unat ?cb + 40 \<le> unat db" "unat db \<le> ?L" using 3(1) Some y by auto
      let ?ch = "chunk_from_bytes bs"
      show ?thesis
      proof (cases "ch_is_header_valid hw ?ch")
        case False
        then show ?thesis using Some y db c1 by (simp add: header_in_file_def)
      next
        case True
        have "unat ?cb \<le> unat db" "unat db \<le> length (content rd1)" using db L1 by simp_all
        then have "steady (then_do (check_claims ?ch ?cb db) (\<lambda>_.
            case check_interior ?ch ?cb i of Inl e \<Rightarrow> fail_with e | Inr _ \<Rightarrow> ret (Some (?ch, ?cb, db)))) ?Q rd1"
        proof (intro steady_then [OF steady_check_claims [OF s1]], goal_cases)
          case (4 u rd2)
          then show ?case using db L1 only_sourceD(1) [OF 4(4)]
            by (auto simp: header_in_file_def split: sum.split)
        qed (use db in auto)
        then show ?thesis using Some y True by simp
      qed
    qed
  qed simp_all
  then show ?thesis by (rule steady_eqI) (rule step)
qed
section \<open>Reading data in arbitrary bytes\<close>

lemma read_data_step:
  "0 < remaining \<Longrightarrow> read_data_loop hw cb ce pos remaining result rd =
     then_do (if is_block_boundary pos then then_do (pass_data_header hw cb ce pos) (\<lambda>_. ret (pos + BLOCK_HEADER_SIZE)) else ret pos) (\<lambda>pos.
       then_do (read_exact (unat (min remaining (BLOCK_SIZE - pos mod BLOCK_SIZE)))) (\<lambda>bs.
         read_data_loop hw cb ce (pos + min remaining (BLOCK_SIZE - pos mod BLOCK_SIZE))
           (remaining - min remaining (BLOCK_SIZE - pos mod BLOCK_SIZE)) (result @ bs))) rd"
  by (subst read_data_loop.simps) (auto simp: then_do_def ret_def Let_def split: prod.splits sum.splits)

lemma steady_pass_data: "calm (rd_reader rd) \<Longrightarrow> steady (pass_data_header hw cb ce pos) (\<lambda>r. True) rd"
  unfolding pass_data_header_def
  by (intro steady_then [OF steady_seek] steady_then [OF steady_read_exact])
     (auto simp: Let_def dest: only_sourceD(1) intro: steady_mono [OF steady_seek])

lemma steady_read_data:
  "calm (rd_reader rd) \<Longrightarrow>
   steady (read_data_loop hw cb ce pos remaining result) (\<lambda>r. \<forall>bs. r = Inr bs \<longrightarrow> length bs = length result + unat remaining) rd"
proof (induction "unat remaining" arbitrary: rd pos remaining result rule: less_induct)
  case less
  show ?case
  proof (cases "0 < remaining")
    case False
    then have "remaining = 0" by (simp add: word_less_nat_alt unat_eq_0)
    then show ?thesis using less.prems
      by (intro steadyI [of _ _ "Inr result" rd]) (simp_all add: read_data_loop.simps only_source_refl)
  next
    case True
    let ?Q = "\<lambda>r. \<forall>bs. r = Inr bs \<longrightarrow> length bs = length result + unat remaining"
    have "steady (then_do (if is_block_boundary pos then then_do (pass_data_header hw cb ce pos) (\<lambda>_. ret (pos + BLOCK_HEADER_SIZE)) else ret pos) (\<lambda>pos.
       then_do (read_exact (unat (min remaining (BLOCK_SIZE - pos mod BLOCK_SIZE)))) (\<lambda>bs.
         read_data_loop hw cb ce (pos + min remaining (BLOCK_SIZE - pos mod BLOCK_SIZE))
           (remaining - min remaining (BLOCK_SIZE - pos mod BLOCK_SIZE)) (result @ bs)))) ?Q rd"
    proof (rule steady_then [where Q = "\<lambda>r. True"], goal_cases)
      case 1
      then show ?case using less.prems
        by (auto intro!: steady_then [OF steady_pass_data] dest: only_sourceD(1))
    next
      case (3 p rd1)
      note c1 = only_sourceD(1) [OF 3(2)]
      let ?n = "min remaining (BLOCK_SIZE - p mod BLOCK_SIZE)"
      show ?case
      proof (rule steady_then [OF steady_read_exact [OF c1]], goal_cases)
        case (2 bs rd2)
        have le: "?n \<le> remaining" by simp
        then have u: "unat (remaining - ?n) = unat remaining - unat ?n" by (simp add: unat_sub_u64 word_le_nat_alt)
        have "steady (read_data_loop hw cb ce (p + ?n) (remaining - ?n) (result @ bs))
            (\<lambda>r. \<forall>bs'. r = Inr bs' \<longrightarrow> length bs' = length (result @ bs) + unat (remaining - ?n)) rd2"
          using data_step [OF True] only_sourceD(1) [OF 2(2)] by (intro less.hyps) simp_all
        then show ?case
        proof (rule steady_mono, goal_cases)
          case (1 r)
          have "unat ?n \<le> unat remaining" using le by (simp only: word_le_nat_alt)
          then show ?case using 1 u 2(1) by auto
        qed
      qed simp
    qed simp
    then show ?thesis by (rule steady_eqI) (rule read_data_step [OF True])
  qed
qed

lemma steady_read_chunk_data:
  "calm (rd_reader rd) \<Longrightarrow> steady (read_chunk_data hw cb ce db n) (\<lambda>r. \<forall>bs. r = Inr bs \<longrightarrow> length bs = unat n) rd"
  unfolding read_chunk_data_def
  by (intro steady_then [OF steady_seek]) (auto dest: only_sourceD(1) intro: steady_mono [OF steady_read_data])

section \<open>The end of a claimed chunk\<close>

lemma unat_chunk_end_any:
  assumes "unat (canonical_chunk_address b) + 40 + unat d \<le> 2 ^ 63" "unat (canonical_chunk_address b) + unat n \<le> 2 ^ 63"
  shows "unat (chunk_end b d n) = chunk_end_nat (unat (canonical_chunk_address b)) (unat d) (unat n)"
proof -
  let ?b = "canonical_chunk_address b"
  have k: "usable_before (unat ?b) + (40 + unat d) \<le> 2 ^ 63" using usable_before_le [of "unat ?b"] assms(1) by simp
  have l: "unat (saturating_add CHUNK_HEADER_SIZE d) = 40 + unat d"
    using assms(1) by (simp add: unat_saturating_add block_consts(3))
  then have "saturating_add CHUNK_HEADER_SIZE d \<noteq> 0" by (auto simp: word_neq_0_unat)
  then have e1: "unat (add_with_overhead ?b (saturating_add CHUNK_HEADER_SIZE d)) = phys_end (usable_before (unat ?b) + 40 + unat d)"
    using phys_end_bound [OF k] l by (subst unat_add_with_overhead_phys) (simp_all add: add.assoc)
  have "unat (saturating_add ?b n) = unat ?b + unat n" using assms(2) by (simp add: unat_saturating_add)
  with e1 show ?thesis
    by (auto simp: chunk_end_def Let_def chunk_end_nat_def max_def word_le_nat_alt unat_round_up)
qed

text \<open>A limit for all positions of a reader whose file has at most \<open>2 ^ 63\<close> bytes.\<close>

definition far :: nat where "far = 2 ^ 63 + 2 ^ 53"

lemma chunk_end_moves:
  assumes "header_in_file hw pos L (ch, cb, db)" "ch_is_header_valid hw ch" "L \<le> 2 ^ 63"
  defines "e \<equiv> chunk_end cb (ch_data_size ch) (ch_num_records ch)"
  shows "unat (canonical_chunk_address pos) + 40 \<le> unat e" "unat e \<le> far"
proof -
  have h: "cb = canonical_chunk_address pos" "unat cb + 40 + unat (ch_data_size ch) \<le> 2 ^ 63" "unat cb + unat (ch_num_records ch) \<le> 2 ^ 63"
    using assms(1-3) by (auto simp: header_in_file_def)
  have c: "chunk_end cb = chunk_end pos" using h(1) chunk_end_alias by (simp add: fun_eq_iff)
  have e: "unat e = chunk_end_nat (unat cb) (unat (ch_data_size ch)) (unat (ch_num_records ch))"
    unfolding e_def c using unat_chunk_end_any [of pos] h by simp
  show "unat (canonical_chunk_address pos) + 40 \<le> unat e"
    using chunk_end_nat_gt(1) [of "unat cb"] e h(1) by simp
  have "usable_before (unat cb) + 40 + unat (ch_data_size ch) \<le> 2 ^ 63" using usable_before_le [of "unat cb"] h(2) by linarith
  from phys_end_bound [OF this] show "unat e \<le> far"
    using round_up_nat_bound [of "unat cb + unat (ch_num_records ch)"] h(3)
    unfolding e chunk_end_nat_def far_def by (simp add: max_def)
qed
section \<open>Loading a chunk from arbitrary bytes\<close>

text \<open>
  The reader is sound when its file is and its decoder stays within its values.  Its progress is the
  canonical address of the next chunk.
\<close>

definition decoder_ok :: "'t ActiveDecoder option \<Rightarrow> bool" where
  "decoder_ok D \<longleftrightarrow> (case D of Some (Simple_Decoder d) \<Rightarrow> sc_inv d | _ \<Rightarrow> True)"

definition sound :: "('t, 'c) RecordReader \<Rightarrow> bool" where
  "sound rd \<longleftrightarrow> settled rd \<and> decoder_ok (rd_current_decoder rd)"

definition progress :: "('t, 'c) RecordReader \<Rightarrow> nat" where
  "progress rd = unat (canonical_chunk_address (rd_next_chunk_file_pos rd))"

lemma canonical_le: "unat (canonical_chunk_address p) \<le> unat p" "unat p \<le> unat (canonical_chunk_address p) + 24"
  by (auto simp: unat_canonical)

lemma canonical_idem [simp]: "canonical_chunk_address (canonical_chunk_address p) = canonical_chunk_address p"
proof (rule word_eq_unatI)
  obtain q r where p: "unat p = q * 65536 + r" "r < 65536" by (rule block_cases)
  then have "unat p mod 65536 = r" by simp
  with p show "unat (canonical_chunk_address (canonical_chunk_address p)) = unat (canonical_chunk_address p)"
    by (auto simp: unat_canonical)
qed

lemma make_decoder_ok:
  "make_decoder hw C T proj simple chunk = Inr D \<Longrightarrow> length (chunk_data chunk) \<le> u64_max \<Longrightarrow> decoder_ok (Some D)"
proof (cases simple)
  case True
  assume m: "make_decoder hw C T proj simple chunk = Inr D" and l: "length (chunk_data chunk) \<le> u64_max"
  then obtain d where d: "sc_new hw C chunk = Inr d" "D = Simple_Decoder d"
    using True by (cases "sc_new hw C chunk") (auto simp: make_decoder_def)
  then obtain ss vals where b: "simple_body C (unat (ch_num_records (chunk_header chunk)))
      (ch_decoded_data_size (chunk_header chunk)) (chunk_data chunk) ss vals" "d = simple_decoder ss vals"
    using sc_new_Inr [OF l, of hw C d] by auto
  have "sc_inv d" unfolding b(2) using simple_body_sizes(2) [OF b(1)] by (intro simple_decoder_inv) simp
  then show ?thesis using d(2) by (simp add: decoder_ok_def)
next
  case False
  assume "make_decoder hw C T proj simple chunk = Inr D"
  then show ?thesis using False by (cases "td_new T chunk proj") (auto simp: make_decoder_def decoder_ok_def)
qed

text \<open>After a round: the source is the same, and the loop moved on unless it failed.\<close>

definition round_moves :: "('t, 'c) RecordReader \<Rightarrow> load_outcome res \<times> ('t, 'c) RecordReader \<Rightarrow> bool" where
  "round_moves rd = (\<lambda>(r, rd').
     settled rd' \<and> content rd' = content rd \<and> rd_recovery rd' = rd_recovery rd \<and>
     rd_last_skipped_region rd' = rd_last_skipped_region rd \<and>
     (\<forall>e. rd_pending_trusted_end rd' = Some e \<longrightarrow> unat e \<le> far) \<and>
     (case r of
        Inl e \<Rightarrow> progress rd' = progress rd \<and> progress rd < length (content rd) \<and> rd_current_decoder rd' = rd_current_decoder rd
      | Inr Load_Eof \<Rightarrow> progress rd' = progress rd \<and> rd_current_decoder rd' = rd_current_decoder rd
      | Inr Load_Skipped \<Rightarrow> progress rd < progress rd' \<and> rd_current_decoder rd' = rd_current_decoder rd
      | Inr Load_Done \<Rightarrow> progress rd < progress rd' \<and> decoder_ok (rd_current_decoder rd')))"

lemma install_moves:
  fixes rd rd0 :: "('t, 'c) RecordReader"
  assumes s: "settled rd" and l: "length data \<le> u64_max" and f: "rd_next_chunk_file_pos rd = e"
    and c: "unat (canonical_chunk_address (rd_next_chunk_file_pos rd0)) + 40 \<le> unat e" "unat e \<le> far"
    and cbp: "cb = canonical_chunk_address (rd_next_chunk_file_pos rd0)" "unat cb < length (content rd)"
    and same: "content rd0 = content rd" "rd_recovery rd0 = rd_recovery rd" "rd_current_decoder rd0 = rd_current_decoder rd"
      "rd_last_skipped_region rd0 = rd_last_skipped_region rd" "rd_pending_trusted_end rd = Some e"
  shows "round_moves rd0 (install_chunk hw C T ch cb data rd)"
proof -
  have p: "progress rd0 < unat (canonical_chunk_address e)" using c(1) canonical_le(2) [of e] by (simp add: progress_def)
  let ?rw = "rd\<lparr>rd_next_chunk_file_pos := cb\<rparr>"
  have rewind: "round_moves rd0 (Inl err, ?rw)" for err
    using s cbp same c(2) by (simp add: round_moves_def settled_def progress_def)
  have skip: "round_moves rd0 (Inr Load_Skipped, rd)"
    using s same c(2) p f by (simp add: round_moves_def progress_def)
  have finish: "round_moves rd0 (Inr Load_Done, rd\<lparr>rd_current_chunk_begin := cb, rd_current_record_index := 0,
      rd_pos := RecordPosition cb 0, rd_current_decoder := Some D\<rparr>)" if "decoder_ok (Some D)" for D
    using s same c(2) p f that by (simp add: round_moves_def progress_def settled_def)
  show ?thesis
  proof (cases "ch_chunk_type ch")
    case (Inl err)
    then show ?thesis using rewind skip by (simp add: install_chunk_def)
  next
    case (Inr t)
    let ?D = "make_decoder hw C T (rd_field_projection rd) (t = Simple) \<lparr>chunk_header = ch, chunk_data = data\<rparr>"
    have "decoder_ok (Some D)" if "?D = Inr D" for D using make_decoder_ok [OF that] l by simp
    then show ?thesis using Inr rewind skip finish
      by (cases ?D; cases "validate_special_chunk ch t") (simp_all add: install_chunk_def)
  qed
qed

lemma load_round_moves:
  assumes s: "settled rd"
  shows "round_moves rd (load_next_round hw C T rd)"
proof -
  let ?rd0 = "rd\<lparr>rd_pending_trusted_end := None\<rparr>" and ?L = "length (content rd)"
  have s0: "settled ?rd0" using s by (simp add: settled_def)
  have L: "?L \<le> 2 ^ 63" using s by (simp add: settled_def)
  have stop: "round_moves rd (r, rd')" if "only_source ?rd0 rd'" "r = Inr Load_Eof \<or> (\<exists>e. r = Inl e \<and> progress rd < ?L)" for r rd'
    using that settled_only_source [OF s0 that(1)] only_sourceD [OF that(1)] by (auto simp: round_moves_def progress_def)
  obtain r1 rd1 where r1: "read_chunk_header_at hw (rd_next_chunk_file_pos rd) ?rd0 = (r1, rd1)" "only_source ?rd0 rd1"
    "\<forall>x. r1 = Inr (Some x) \<longrightarrow> header_in_file hw (rd_next_chunk_file_pos rd) ?L x"
    "\<forall>e. r1 = Inl e \<longrightarrow> progress rd < ?L"
    using steady_read_header [OF s0] by (rule steadyE) (auto simp: progress_def)
  show ?thesis
  proof (cases "\<exists>ch cb db. r1 = Inr (Some (ch, cb, db)) \<and> ch_is_header_valid hw ch")
    case False
    have "progress rd < ?L" if "r1 = Inr (Some (ch, cb, db))" for ch cb db
      using that r1(3) by (auto simp: header_in_file_def progress_def)
    then show ?thesis
      using False r1 by (cases r1) (auto simp: load_next_round_def then_do_def ret_def fail_with_def intro!: stop split: option.split)
  next
    case True
    then obtain ch cb db where h: "r1 = Inr (Some (ch, cb, db))" "ch_is_header_valid hw ch" by blast
    note hf = r1(3) [rule_format, OF h(1)]
    let ?e = "chunk_end cb (ch_data_size ch) (ch_num_records ch)"
    note e = chunk_end_moves [OF hf h(2) L]
    have cb: "cb = canonical_chunk_address (rd_next_chunk_file_pos rd)" "unat cb < ?L" "unat (ch_data_size ch) \<le> u64_max"
      using hf by (auto simp: header_in_file_def)
    obtain r2 rd2 where r2: "read_chunk_data hw cb ?e db (ch_data_size ch) rd1 = (r2, rd2)" "only_source rd1 rd2"
      "\<forall>bs. r2 = Inr bs \<longrightarrow> length bs = unat (ch_data_size ch)"
      using steady_read_chunk_data [OF only_sourceD(1) [OF r1(2)]] by (rule steadyE)
    have o: "only_source ?rd0 rd2" using r1(2) r2(2) by (rule only_source_trans)
    note s2 = settled_only_source [OF s0 o] and d2 = only_sourceD [OF o]
    have p: "progress rd < ?L" using cb by (simp add: progress_def)
    show ?thesis
    proof (cases r2)
      case (Inl err)
      then have "load_next_round hw C T rd = (Inl err, rd2)"
        using r1(1) h r2(1) by (simp add: load_next_round_def Let_def)
      then show ?thesis using stop [OF o] p by simp
    next
      case (Inr data)
      let ?rd3 = "rd2\<lparr>rd_pending_trusted_end := Some ?e\<rparr>"
      have "load_next_round hw C T rd = (if \<not> ch_is_data_valid hw ch data
          then (Inl (MalformedData ''chunk data hash mismatch''), ?rd3\<lparr>rd_next_chunk_file_pos := cb\<rparr>)
          else install_chunk hw C T ch cb data (?rd3\<lparr>rd_next_chunk_file_pos := ?e\<rparr>))"
        using r1(1) h r2(1) Inr by (simp add: load_next_round_def Let_def)
      moreover have "round_moves rd (Inl (MalformedData ''chunk data hash mismatch''), ?rd3\<lparr>rd_next_chunk_file_pos := cb\<rparr>)"
        using s2 d2 e(2) cb p by (simp add: round_moves_def settled_def progress_def)
      moreover have "round_moves rd (install_chunk hw C T ch cb data (?rd3\<lparr>rd_next_chunk_file_pos := ?e\<rparr>))"
        using s2 d2 e cb r2(3) Inr by (intro install_moves) (simp_all add: settled_def)
      ultimately show ?thesis by simp
    qed
  qed
qed
definition load_moves :: "('t, 'c) RecordReader \<Rightarrow> bool res \<times> ('t, 'c) RecordReader \<Rightarrow> bool" where
  "load_moves rd = (\<lambda>(r, rd').
     settled rd' \<and> content rd' = content rd \<and> rd_recovery rd' = rd_recovery rd \<and>
     rd_last_skipped_region rd' = rd_last_skipped_region rd \<and>
     (\<forall>e. rd_pending_trusted_end rd' = Some e \<longrightarrow> unat e \<le> far) \<and>
     (case r of
        Inl e \<Rightarrow> progress rd \<le> progress rd' \<and> progress rd' < length (content rd) \<and>
          rd_current_decoder rd' = rd_current_decoder rd
      | Inr False \<Rightarrow> rd_current_decoder rd' = rd_current_decoder rd
      | Inr True \<Rightarrow> progress rd < progress rd' \<and> decoder_ok (rd_current_decoder rd')))"

lemma progress_bound: "progress rd \<le> u64_max"
  by (simp add: progress_def)

lemma load_next_moves:
  assumes "settled rd"
  shows "\<exists>x. load_next_chunk hw C T rd = Some x \<and> load_moves rd x"
  unfolding load_next_chunk_def
proof (rule iterate_total [where m = "\<lambda>s. u64_max - progress s" and
    I = "\<lambda>s. settled s \<and> content s = content rd \<and> rd_recovery s = rd_recovery rd \<and>
      rd_last_skipped_region s = rd_last_skipped_region rd \<and> progress rd \<le> progress s \<and>
      rd_current_decoder s = rd_current_decoder rd"])
  show "settled rd \<and> content rd = content rd \<and> rd_recovery rd = rd_recovery rd \<and>
      rd_last_skipped_region rd = rd_last_skipped_region rd \<and> progress rd \<le> progress rd \<and>
      rd_current_decoder rd = rd_current_decoder rd" using assms by simp
next
  fix s assume "settled s \<and> content s = content rd \<and> rd_recovery s = rd_recovery rd \<and>
      rd_last_skipped_region s = rd_last_skipped_region rd \<and> progress rd \<le> progress s \<and> rd_current_decoder s = rd_current_decoder rd"
  show "load_next_step hw C T s \<noteq> None" by (simp add: load_next_step_def)
next
  fix s s' assume I: "settled s \<and> content s = content rd \<and> rd_recovery s = rd_recovery rd \<and>
      rd_last_skipped_region s = rd_last_skipped_region rd \<and> progress rd \<le> progress s \<and> rd_current_decoder s = rd_current_decoder rd"
    and step: "load_next_step hw C T s = Some (Inl s')"
  then have "load_next_round hw C T s = (Inr Load_Skipped, s')"
    by (auto simp: load_next_step_def split: prod.splits sum.splits load_outcome.splits)
  with load_round_moves [of s hw C T] I have "round_moves s (Inr Load_Skipped, s')" by simp
  with I progress_bound [of s'] show "(settled s' \<and> content s' = content rd \<and> rd_recovery s' = rd_recovery rd \<and>
      rd_last_skipped_region s' = rd_last_skipped_region rd \<and> progress rd \<le> progress s' \<and>
      rd_current_decoder s' = rd_current_decoder rd) \<and> u64_max - progress s' < u64_max - progress s"
    by (auto simp: round_moves_def)
next
  fix s x assume I: "settled s \<and> content s = content rd \<and> rd_recovery s = rd_recovery rd \<and>
      rd_last_skipped_region s = rd_last_skipped_region rd \<and> progress rd \<le> progress s \<and> rd_current_decoder s = rd_current_decoder rd"
    and step: "load_next_step hw C T s = Some (Inr x)"
  obtain r s' where r: "load_next_round hw C T s = (r, s')" by fastforce
  with load_round_moves [of s hw C T] I have "round_moves s (r, s')" by simp
  with I r step show "load_moves rd x"
    by (auto simp: round_moves_def load_moves_def load_next_step_def split: sum.splits load_outcome.splits)
qed

section \<open>Finding the next chunk after damage\<close>

lemma climb: "unat (a :: u64) < unat (b :: u64) \<Longrightarrow> u64_max - unat b < u64_max - unat a"
  using unat_le_u64_max [of b] by linarith

lemma next_block_boundary_eq:
  assumes "unat p \<le> far"
  shows "unat (next_block_boundary p) mod 65536 = 0" "unat p \<le> unat (next_block_boundary p)"
    "unat (next_block_boundary p) \<le> unat p + 65535"
    "unat p mod 65536 \<noteq> 0 \<Longrightarrow> unat p < unat (next_block_boundary p)"
proof -
  obtain q r where p: "unat p = q * 65536 + r" "r < 65536" by (rule block_cases)
  then have m: "unat p mod 65536 = r" by simp
  have d: "unat (p - p mod BLOCK_SIZE) = q * 65536"
    using p m unat_mod_block [of p] by (subst unat_sub_u64) simp_all
  then have "unat (p - p mod BLOCK_SIZE + BLOCK_SIZE) = q * 65536 + 65536"
    using assms p by (subst unat_add_u64) (simp_all add: block_consts far_def)
  then have e: "unat (next_block_boundary p) = (if r = 0 then q * 65536 else q * 65536 + 65536)"
    using p m by (auto simp: next_block_boundary_def is_block_boundary_iff round_down_to_block_boundary_def)
  show "unat (next_block_boundary p) mod 65536 = 0" by (simp add: e)
  show "unat p \<le> unat (next_block_boundary p)" "unat (next_block_boundary p) \<le> unat p + 65535" using e p by auto
  show "unat p < unat (next_block_boundary p)" if "unat p mod 65536 \<noteq> 0" using e p that by auto
qed

lemma resync_returns:
  assumes "settled rd" "unat b mod 65536 = 0"
  shows "\<exists>r rd'. resolve_boundary_resync hw b rd = Some (r, rd') \<and> only_source rd rd'"
proof -
  let ?L = "length (content rd)"
  have L: "?L \<le> 2 ^ 63" using assms(1) by (simp add: settled_def)
  let ?I = "\<lambda>(b, s). only_source rd s \<and> unat b mod 65536 = 0"
  have "\<exists>x. iterate (resync_step hw) (b, rd) = Some x \<and> only_source rd (snd x)"
  proof (rule iterate_total [where I = ?I and m = "\<lambda>(b, s). u64_max - unat b"])
    show "?I (b, rd)" using assms settled_refl by simp
  next
    fix s show "resync_step hw s \<noteq> None"
      by (auto simp: resync_step_def Let_def split: prod.splits sum.splits)
  next
    fix s s' assume I: "?I s" and step: "resync_step hw s = Some (Inl s')"
    obtain b1 rd1 where s: "s = (b1, rd1)" by fastforce
    have o1: "only_source rd rd1" and a: "unat b1 mod 65536 = 0" using I s by simp_all
    note s1 = settled_only_source [OF assms(1) o1]
    have sl: "unat (rd_stream_len rd1) = ?L" using s1 L only_sourceD(2) [OF o1] by (simp add: settled_def unat_of_nat_u64)
    obtain rd2 where r2: "then_do (seek_source b1) (\<lambda>_. read_full 24) rd1 = (Inr (take 24 (drop (unat b1) (content rd1))), rd2)" "only_source rd1 rd2"
      using seek_read_full [OF only_sourceD(1) [OF o1] refl] .
    have o2: "only_source rd rd2" using o1 r2(2) by (rule only_source_trans)
    have sl2: "unat (rd_stream_len rd2) = ?L" using sl only_sourceD(3) [OF r2(2)] by simp
    let ?bh = "block_from_bytes (take 24 (drop (unat b1) (content rd1)))"
    let ?t = "saturating_add b1 (next_chunk ?bh)"
    have c: "\<not> length (take 24 (drop (unat b1) (content rd1))) < 24"
      and alt: "s' = (b1 + BLOCK_SIZE, rd2) \<or>
        (\<not> rd_stream_len rd2 < ?t \<and> \<not> is_possible_chunk_boundary ?t \<and> s' = (next_block_boundary ?t, rd2))"
      using step s r2(1) by (auto simp: resync_step_def Let_def split: if_splits)
    have b1: "unat b1 + 24 \<le> ?L" using c only_sourceD(2) [OF o1] by simp
    from alt show "?I s' \<and> (case s' of (b, s) \<Rightarrow> u64_max - unat b) < (case s of (b, s) \<Rightarrow> u64_max - unat b)"
    proof
      assume s': "s' = (b1 + BLOCK_SIZE, rd2)"
      have "unat (b1 + BLOCK_SIZE) = unat b1 + 65536" using b1 L by (subst unat_add_u64) (simp_all add: block_consts)
      then show ?thesis using s s' o2 a b1 L by simp
    next
      assume s': "\<not> rd_stream_len rd2 < ?t \<and> \<not> is_possible_chunk_boundary ?t \<and> s' = (next_block_boundary ?t, rd2)"
      then have t: "unat ?t \<le> ?L" "\<not> chunk_pos (unat ?t)" using sl2 by (simp_all add: word_less_nat_alt is_possible_chunk_boundary_iff)
      then have far: "unat ?t \<le> far" using L by (simp add: far_def)
      have "unat b1 \<le> unat ?t" by (simp add: unat_saturating_add)
      moreover have "unat ?t mod 65536 \<noteq> 0" using t(2) by (simp add: chunk_pos_def)
      then have "unat ?t < unat (next_block_boundary ?t)" using next_block_boundary_eq(4) [OF far] by simp
      moreover have "unat (next_block_boundary ?t) \<le> u64_max" by simp
      ultimately have "unat b1 < unat (next_block_boundary ?t)" by linarith
      then show ?thesis using s s' o2 next_block_boundary_eq(1) [OF far] by (auto intro: climb)
    qed
  next
    fix s x assume I: "?I s" and step: "resync_step hw s = Some (Inr x)"
    obtain b1 rd1 where s: "s = (b1, rd1)" by fastforce
    have o1: "only_source rd rd1" using I s by simp
    obtain rd2 where r2: "then_do (seek_source b1) (\<lambda>_. read_full 24) rd1 = (Inr (take 24 (drop (unat b1) (content rd1))), rd2)" "only_source rd1 rd2"
      using seek_read_full [OF only_sourceD(1) [OF o1] refl] .
    then have "snd x = rd2" using step s by (auto simp: resync_step_def Let_def split: if_splits)
    then show "only_source rd (snd x)" using o1 r2(2) only_source_trans by blast
  qed
  then show ?thesis by (auto simp: resolve_boundary_resync_def)
qed
section \<open>Regions\<close>

lemma skipped_region_bounds:
  fixes prev :: "SkippedRegion option"
  assumes "unat at \<le> far" "unat e \<le> far"
  defines "b \<equiv> skipped_begin at prev"
  shows "unat (canonical_chunk_address at) \<le> unat b" "unat b \<le> unat at" "unat at < unat (skipped_end at b e)"
    "unat b < unat (canonical_chunk_address (skipped_end at b e))" "unat (skipped_end at b e) \<le> far + 2"
    "prev = Some p \<Longrightarrow> unat (region_end p) \<le> unat at \<Longrightarrow> unat (region_end p) \<le> unat b"
proof -
  have b: "unat (canonical_chunk_address at) \<le> unat b \<and> unat b \<le> unat at \<and>
      (\<forall>p. prev = Some p \<longrightarrow> unat (region_end p) \<le> unat at \<longrightarrow> unat (region_end p) \<le> unat b)"
    using canonical_le(1) [of at] by (auto simp: b_def skipped_begin_def Let_def word_le_nat_alt word_less_nat_alt split: option.split)
  then show "unat (canonical_chunk_address at) \<le> unat b" "unat b \<le> unat at"
    "prev = Some p \<Longrightarrow> unat (region_end p) \<le> unat at \<Longrightarrow> unat (region_end p) \<le> unat b" by blast+
  define m where "m = max (max e (b + 1)) (saturating_add at 1)"
  have far: "far + 2 \<le> u64_max" by (simp add: far_def)
  have "unat (b + 1) = unat b + 1" "unat (saturating_add at 1) = unat at + 1"
    using b assms(1) far by (simp_all add: unat_add_u64 unat_saturating_add)
  then have m: "unat m = max (max (unat e) (unat b + 1)) (unat at + 1)"
    by (auto simp: m_def max_def word_le_nat_alt)
  have m1: "unat (m + 1) = unat m + 1" using m b assms(1,2) far by (subst unat_add_u64) (simp_all add: max_def)
  have end_eq: "skipped_end at b e = (if canonical_chunk_address m \<le> b then m + 1 else m)"
    by (simp add: skipped_end_def m_def Let_def)
  have c1: "canonical_chunk_address (m + 1) = m + 1" if "canonical_chunk_address m \<le> b"
  proof -
    have "unat (canonical_chunk_address m) < unat m" using that m b by (simp add: word_le_nat_alt)
    then have "unat m mod 65536 = 24" by (auto simp: unat_canonical split: if_splits)
    then have "unat (m + 1) mod 65536 = 25" unfolding m1 by (simp add: mod_Suc)
    then show ?thesis by (intro word_eq_unatI) (simp add: unat_canonical)
  qed
  show "unat at < unat (skipped_end at b e)" "unat (skipped_end at b e) \<le> far + 2"
    using m m1 b assms(1,2) by (auto simp: end_eq max_def)
  show "unat b < unat (canonical_chunk_address (skipped_end at b e))"
    using c1 m m1 by (auto simp: end_eq word_le_nat_alt)
qed

text \<open>What a report of a region comes to, once there is a callback.\<close>

lemma report_returns:
  assumes s: "settled rd" and r: "rd_recovery rd = Some (c, f)" and a: "unat at \<le> 2 ^ 63 + 24"
    and t: "\<forall>e. rd_pending_trusted_end rd = Some e \<longrightarrow> unat e \<le> far"
  shows "\<exists>rd' e. unat e \<le> far \<and> only_source (rd\<lparr>rd_pending_trusted_end := None\<rparr>) rd' \<and>
    (let b = skipped_begin at (rd_last_skipped_region rd);
         reg = skipped_region_new b (skipped_end at b e) (error_to_string err);
         (go, c') = f c reg
     in report_region_at hw at err rd = Some (Some go, rd'\<lparr>rd_last_skipped_region := Some reg, rd_recovery := Some (c', f)\<rparr>))"
proof -
  let ?rd0 = "rd\<lparr>rd_pending_trusted_end := None\<rparr>" and ?b = "skipped_begin at (rd_last_skipped_region rd)"
  have s0: "settled ?rd0" using s by (simp add: settled_def)
  show ?thesis
  proof (cases "rd_pending_trusted_end rd")
    case (Some e)
    then show ?thesis using t r settled_refl [OF s0]
      by (intro exI [of _ ?rd0] exI [of _ e]) (simp add: report_region_at_def Let_def split: prod.split)
  next
    case None
    have ab: "unat ?b \<le> unat at" using skipped_region_bounds(2) [of at 0] a by (simp add: far_def)
    then have fb: "unat ?b \<le> far" using a by (simp add: far_def)
    define bd where "bd = (if next_block_boundary ?b = ?b then ?b + BLOCK_SIZE else next_block_boundary ?b)"
    have "unat bd mod 65536 = 0"
    proof (cases "next_block_boundary ?b = ?b")
      case True
      have "unat (?b + BLOCK_SIZE) = unat ?b + 65536" using ab a by (subst unat_add_u64) (simp_all add: block_consts)
      then show ?thesis using True next_block_boundary_eq(1) [OF fb] by (simp add: bd_def)
    qed (use next_block_boundary_eq(1) [OF fb] in \<open>simp add: bd_def\<close>)
    then obtain e rd1 where e: "resolve_boundary_resync hw bd ?rd0 = Some (e, rd1)" "only_source ?rd0 rd1"
      using resync_returns [OF s0, where b = bd and hw = hw] by auto
    let ?e = "min e (max (rd_stream_len rd1) ?b)"
    have "settled rd1" using settled_only_source [OF s0 e(2)] .
    then have "unat (rd_stream_len rd1) \<le> 2 ^ 63" by (simp add: settled_def unat_of_nat_u64)
    then have "unat (max (rd_stream_len rd1) ?b) \<le> 2 ^ 63 + 24" using ab a by (simp add: max_def)
    moreover have "unat ?e \<le> unat (max (rd_stream_len rd1) ?b)" by (simp only: word_le_nat_alt [symmetric] min.cobounded2)
    ultimately have "unat ?e \<le> far" by (simp add: far_def)
    then show ?thesis using None r e
      by (intro exI [of _ rd1] exI [of _ ?e]) (simp add: report_region_at_def Let_def bd_def [symmetric] split: prod.split)
  qed
qed
lemma recover_moves:
  assumes "settled rd" "rd_recovery rd = Some (c, f)" "unat at \<le> 2 ^ 63 + 24"
    and "\<forall>e. rd_pending_trusted_end rd = Some e \<longrightarrow> unat e \<le> far"
  obtains go c' reg rd' e where "try_recover_at hw at err rd = Some (go, rd')" "settled rd'" "content rd' = content rd"
    "f c reg = (go, c')" "rd_recovery rd' = Some (c', f)" "rd_last_skipped_region rd' = Some reg"
    "rd_next_chunk_file_pos rd' = region_end reg" "rd_current_decoder rd' = None" "\<not> rd_last_record_is_valid rd'"
    "region_message reg = error_to_string err" "region_begin reg = skipped_begin at (rd_last_skipped_region rd)"
    "unat e \<le> far" "region_end reg = skipped_end at (region_begin reg) e"
proof -
  let ?rd0 = "rd\<lparr>rd_pending_trusted_end := None\<rparr>" and ?b = "skipped_begin at (rd_last_skipped_region rd)"
  obtain rd1 e where e: "unat e \<le> far" "only_source ?rd0 rd1"
    and rep: "let b = ?b; reg = skipped_region_new b (skipped_end at b e) (error_to_string err); (go, c') = f c reg
      in report_region_at hw at err rd = Some (Some go, rd1\<lparr>rd_last_skipped_region := Some reg, rd_recovery := Some (c', f)\<rparr>)"
    using report_returns [OF assms, of err hw] by (elim exE conjE) (rule that, assumption+)
  let ?reg = "skipped_region_new ?b (skipped_end at ?b e) (error_to_string err)"
  obtain go c' where f: "f c ?reg = (go, c')" by fastforce
  define rd2 where "rd2 = rd1\<lparr>rd_last_skipped_region := Some ?reg, rd_recovery := Some (c', f), rd_last_record_is_valid := False,
    rd_current_decoder := None, rd_at_eof := False, rd_next_chunk_file_pos := region_end ?reg\<rparr>"
  have "settled ?rd0" using assms(1) by (simp add: settled_def)
  then have s2: "settled rd2" "content rd2 = content rd"
    using settled_only_source [OF _ e(2)] only_sourceD(2) [OF e(2)] by (simp_all add: settled_def rd2_def)
  obtain rd3 where r3: "seek_source (region_end ?reg) rd2 = (Inr (), rd3)" "only_source rd2 rd3"
    using seek_source_calm [of rd2] s2(1) by (auto simp: settled_def)
  have "report_region_at hw at err rd = Some (Some go, rd1\<lparr>rd_last_skipped_region := Some ?reg, rd_recovery := Some (c', f)\<rparr>)"
    using rep f by (simp add: Let_def)
  then have "try_recover_at hw at err rd = Some (go, rd3)"
    using r3(1) by (simp add: try_recover_at_def Let_def rd2_def)
  moreover have "settled rd3" "content rd3 = content rd"
    using settled_only_source [OF s2(1) r3(2)] only_sourceD(2) [OF r3(2)] s2(2) by simp_all
  ultimately show ?thesis using f e(1) only_sourceD [OF r3(2)]
    by (intro that [of go rd3 ?reg c' e]) (simp_all add: rd2_def skipped_region_new_def)
qed

section \<open>Reading a record from arbitrary bytes\<close>

lemma load_or_recover_moves:
  assumes "sound rd"
  shows "\<exists>x. load_or_recover hw C T rd = Some x \<and>
    (case x of Inl rd' \<Rightarrow> sound rd' \<and> progress rd < progress rd' | Inr (r, rd') \<Rightarrow> sound rd')"
proof -
  have s: "settled rd" "decoder_ok (rd_current_decoder rd)" using assms by (simp_all add: sound_def)
  obtain r rd1 where l: "load_next_chunk hw C T rd = Some (r, rd1)" "load_moves rd (r, rd1)"
    using load_next_moves [OF s(1), of hw C T] by auto
  then have s1: "settled rd1" by (simp add: load_moves_def)
  show ?thesis
  proof (cases r)
    case (Inr b)
    then show ?thesis using l s by (cases b) (auto simp: load_or_recover_def load_moves_def sound_def settled_def progress_def)
  next
    case (Inl e)
    then have m: "progress rd \<le> progress rd1" "progress rd1 < length (content rd)" "rd_current_decoder rd1 = rd_current_decoder rd"
      "\<forall>e. rd_pending_trusted_end rd1 = Some e \<longrightarrow> unat e \<le> far"
      using l(2) by (simp_all add: load_moves_def)
    let ?at = "rd_next_chunk_file_pos rd1"
    show ?thesis
    proof (cases "rd_recovery rd1")
      case None
      then have "try_recover_at hw ?at e rd1 = Some (False, rd1\<lparr>rd_pending_trusted_end := None\<rparr>)"
        by (simp add: try_recover_at_def report_region_at_def Let_def)
      then show ?thesis using l(1) Inl s1 m(3) s(2) by (simp add: load_or_recover_def sound_def settled_def)
    next
      case (Some cf)
      obtain c f where cf: "cf = (c, f)" by fastforce
      have at: "unat ?at \<le> 2 ^ 63 + 24"
        using m(2) s(1) canonical_le(2) [of ?at] by (simp add: settled_def progress_def)
      obtain go and reg :: SkippedRegion and rd2 e' where r2: "try_recover_at hw ?at e rd1 = Some (go, rd2)" "settled rd2" "rd_current_decoder rd2 = None"
        "rd_next_chunk_file_pos rd2 = region_end reg" "region_begin reg = skipped_begin ?at (rd_last_skipped_region rd1)"
        "unat e' \<le> far" "region_end reg = skipped_end ?at (region_begin reg) e'"
        by (rule recover_moves [OF s1 Some [unfolded cf] at m(4), of hw e]) (rule that)
      have "unat ?at \<le> far" using at by (simp add: far_def)
      then have "unat (canonical_chunk_address ?at) < unat (canonical_chunk_address (region_end reg))"
        using r2(5-7) skipped_region_bounds(1,4) [of ?at e'] by (metis order.strict_trans1)
      then have "progress rd < progress rd2" using m(1) r2(4) by (simp add: progress_def)
      moreover have "sound rd2" using r2(2,3) by (simp add: sound_def decoder_ok_def)
      ultimately show ?thesis using l(1) Inl r2(1) by (cases go) (simp_all add: load_or_recover_def)
    qed
  qed
qed

lemma decoder_read_ok:
  assumes "decoder_ok (Some D)"
  shows "\<exists>r D'. decoder_read_record T D = Some (r, D') \<and> decoder_ok (Some D')"
proof (cases D)
  case (Simple_Decoder d)
  with assms have i: "sc_inv d" by (simp add: decoder_ok_def)
  have "\<exists>r d'. sc_read_record d = Some (r, d') \<and> sc_inv d'"
  proof (cases "sc_remaining d")
    case Nil
    then show ?thesis using simple_source.nxt_end [OF i] i by blast
  next
    case (Cons r rs)
    then show ?thesis using simple_source.nxt_record [OF i] by blast
  qed
  then show ?thesis using Simple_Decoder by (auto simp: decoder_ok_def)
next
  case (Transposed_Decoder t)
  then show ?thesis by (auto simp: decoder_ok_def split: prod.split)
qed

lemma read_step_moves:
  assumes "sound rd"
  shows "\<exists>x. read_record_step hw C T rd = Some x \<and>
    (case x of Inl rd' \<Rightarrow> sound rd' \<and> progress rd < progress rd' | Inr (r, rd') \<Rightarrow> sound rd')"
proof (cases "rd_current_decoder rd")
  case None
  then show ?thesis using load_or_recover_moves [OF assms] by (simp add: read_record_step_def)
next
  case (Some D)
  then obtain r D' where d: "decoder_read_record T D = Some (r, D')" "decoder_ok (Some D')"
    using decoder_read_ok assms by (metis sound_def)
  let ?rd = "rd\<lparr>rd_current_decoder := None\<rparr>"
  have "sound ?rd" and pe: "progress ?rd = progress rd"
    using assms by (simp_all add: sound_def settled_def decoder_ok_def progress_def)
  from load_or_recover_moves [OF this(1), of hw C T, unfolded pe] have l: "\<exists>x. load_or_recover hw C T ?rd = Some x \<and>
      (case x of Inl rd' \<Rightarrow> sound rd' \<and> progress rd < progress rd' | Inr (r, rd') \<Rightarrow> sound rd')" .
  show ?thesis
  proof (cases "r = Inr None")
    case True
    then show ?thesis using Some d(1) l by (simp add: read_record_step_def)
  next
    case False
    then show ?thesis using Some d assms
      by (auto simp: read_record_step_def sound_def settled_def split: sum.split option.split)
  qed
qed

section \<open>Properties\<close>

text \<open>C4. Reading always returns.  Whatever bytes the file holds, whatever the recovery callback answers,
  with any decompressors and any hash, \<open>read_record\<close> comes back with a record, the end or an error, and
  leaves a reader of which this can be said again.\<close>

theorem read_record_returns:
  assumes "sound rd"
  shows "\<exists>r rd'. read_record hw C T rd = Some (r, rd') \<and> sound rd'"
proof -
  have "\<exists>x. iterate (read_record_step hw C T) (rd\<lparr>rd_pending_trusted_end := None\<rparr>) = Some x \<and> (case x of (r, rd') \<Rightarrow> sound rd')"
  proof (rule iterate_total [where I = sound and m = "\<lambda>s. u64_max - progress s"])
    show "sound (rd\<lparr>rd_pending_trusted_end := None\<rparr>)" using assms by (simp add: sound_def settled_def)
  next
    fix s s' assume "sound s" "read_record_step hw C T s = Some (Inl s')"
    with read_step_moves [of s hw C T] have "sound s'" "progress s < progress s'" by auto
    then show "sound s' \<and> u64_max - progress s' < u64_max - progress s" by (auto simp: progress_def intro: climb)
  next
    fix s :: "('a, 'b) RecordReader" and x
    assume "sound s"
    with read_step_moves [of s hw C T] show "read_record_step hw C T s \<noteq> None" by auto
    assume "read_record_step hw C T s = Some (Inr x)"
    with read_step_moves [OF \<open>sound s\<close>, of hw C T] show "case x of (r, rd') \<Rightarrow> sound rd'" by (auto split: prod.splits)
  qed
  then show ?thesis by (auto simp: read_record_def)
qed
definition garbage_reader :: "(unit, SkippedRegion list) RecordReader" where
  "garbage_reader = initial_reader (sample_source (replicate 100 7))
     (set_recovery [] (\<lambda>rs r. (True, rs @ [r])) reader_options_new) 100 False"

lemma garbage_settled [simp]: "settled garbage_reader"
  by (simp add: settled_def garbage_reader_def initial_reader_def)

lemma read_record_returns_witness:
  "\<exists>r rd'. read_record sample_hash store_codec null_transposed garbage_reader = Some (r, rd') \<and> sound rd'"
  using read_record_returns [of garbage_reader sample_hash store_codec null_transposed]
  by (simp add: sound_def decoder_ok_def) (simp add: garbage_reader_def initial_reader_def)

text \<open>C5. A recovery always moves forward and reports what it skips.  The callback gets one region that
  begins at the failing chunk, never before its address and never behind the position, and that ends
  behind the position, with the error's message; when the last region ended before this position, the
  new one does not overlap it.  Reading goes on at the end of the region, which is never taken for the
  same chunk again.\<close>

theorem recovery_region:
  assumes "settled rd" and "rd_recovery rd = Some (c, f)" and "unat at \<le> 2 ^ 63 + 24"
    and "\<forall>e. rd_pending_trusted_end rd = Some e \<longrightarrow> unat e \<le> far"
  shows "\<exists>go c' reg rd'. try_recover_at hw at err rd = Some (go, rd') \<and> f c reg = (go, c') \<and>
    rd_recovery rd' = Some (c', f) \<and> rd_last_skipped_region rd' = Some reg \<and>
    region_message reg = error_to_string err \<and>
    canonical_chunk_address at \<le> region_begin reg \<and> region_begin reg \<le> at \<and> at < region_end reg \<and>
    region_begin reg < canonical_chunk_address (region_end reg) \<and>
    (\<forall>p. rd_last_skipped_region rd = Some p \<longrightarrow> region_end p \<le> at \<longrightarrow> region_end p \<le> region_begin reg) \<and>
    rd_next_chunk_file_pos rd' = region_end reg \<and> rd_current_decoder rd' = None \<and> \<not> rd_last_record_is_valid rd'"
proof -
  have at: "unat at \<le> far" using assms(3) by (simp add: far_def)
  obtain go c' and reg :: SkippedRegion and rd' e where r: "try_recover_at hw at err rd = Some (go, rd')" "f c reg = (go, c')"
    "rd_recovery rd' = Some (c', f)" "rd_last_skipped_region rd' = Some reg" "region_message reg = error_to_string err"
    "rd_next_chunk_file_pos rd' = region_end reg" "rd_current_decoder rd' = None" "\<not> rd_last_record_is_valid rd'"
    and b: "region_begin reg = skipped_begin at (rd_last_skipped_region rd)" "unat e \<le> far"
      "region_end reg = skipped_end at (region_begin reg) e"
    by (rule recover_moves [OF assms, of hw err]) (rule that)
  note bounds = skipped_region_bounds [OF at b(2), of "rd_last_skipped_region rd", folded b(1), folded b(3)]
  show ?thesis using r bounds
    by (intro exI [of _ go] exI [of _ c'] exI [of _ reg] exI [of _ rd']) (simp add: word_le_nat_alt word_less_nat_alt)
qed

lemma recovery_region_witness:
  "\<exists>reg rd'. try_recover_at sample_hash 64 DataHashMismatch garbage_reader = Some (True, rd') \<and>
    rd_recovery rd' = Some ([reg], \<lambda>rs r. (True, rs @ [r])) \<and> region_begin reg = (64 :: u64) \<and> 64 < region_end reg"
proof -
  have "rd_recovery garbage_reader = Some ([], \<lambda>rs r. (True, rs @ [r]))" "rd_pending_trusted_end garbage_reader = None"
    by (simp_all add: garbage_reader_def initial_reader_def set_recovery_def)
  moreover have "canonical_chunk_address 64 = 64" by (simp add: canonical_chunk_address_def block_consts)
  ultimately show ?thesis
    using recovery_region [of garbage_reader "[]" "\<lambda>rs r. (True, rs @ [r])" 64 sample_hash DataHashMismatch]
    by (auto dest: order.antisym)
qed

end
