(* ===== verification/FieldIter.thy ===== *)
theory FieldIter
  imports Wire
begin

text \<open>
  \<^verbatim>\<open>riegeli/src/proto/field_iter.rs\<close>: the iterator over the fields of a serialized message, the
  serialization of a field, and the iterator that keeps some fields.  Positions are at most
  \<open>data.len()\<close>, so \<open>pos + 4\<close> and \<open>pos + 8\<close> cannot wrap; the sum of a position and a 32-bit length fits in
  64 bits, so \<open>checked_add\<close> only rejects what the comparison with the length rejects.
\<close>

section \<open>Fields\<close>

datatype FieldValue =
    VVarint u64
  | VFixed32 u32
  | VFixed64 u64
  | VLengthDelimited bytes
  | VStartGroup
  | VEndGroup

record ProtoField =
  pf_number :: u32
  pf_wire_type :: WireType
  pf_value :: FieldValue

fun serialize_value :: "bytes \<Rightarrow> FieldValue \<Rightarrow> bytes" where
  "serialize_value buf (VVarint v) = encode_varint64 buf v"
| "serialize_value buf (VFixed32 v) = buf @ to_le 4 v"
| "serialize_value buf (VFixed64 v) = buf @ to_le_bytes v"
| "serialize_value buf (VLengthDelimited d) = encode_varint32 buf (of_nat (length d)) @ d"
| "serialize_value buf VStartGroup = buf"
| "serialize_value buf VEndGroup = buf"

definition serialize_field :: "bytes \<Rightarrow> ProtoField \<Rightarrow> bytes" where
  "serialize_field buf field =
     serialize_value (encode_tag buf (pf_number field) (pf_wire_type field)) (pf_value field)"

section \<open>The iterator\<close>

record ProtoFieldIter =
  it_data :: bytes
  it_pos :: nat
  it_errored :: bool

definition pfi_new :: "bytes \<Rightarrow> ProtoFieldIter" where
  "pfi_new data = \<lparr>it_data = data, it_pos = 0, it_errored = False\<rparr>"

text \<open>Every error latches \<open>errored\<close>.\<close>

definition pfi_fail :: "string \<Rightarrow> (ProtoFieldIter, 'a) action" where
  "pfi_fail msg it = (Inl (MalformedData msg), it\<lparr>it_errored := True\<rparr>)"

definition pfi_advance :: "nat \<Rightarrow> ProtoFieldIter \<Rightarrow> ProtoFieldIter" where
  "pfi_advance n it = it\<lparr>it_pos := it_pos it + n\<rparr>"

fun pfi_value :: "WireType \<Rightarrow> (ProtoFieldIter, FieldValue) action" where
  "pfi_value WVarint it =
     (case read_canonical_varint64 (it_data it) (it_pos it) of
        Some (v, consumed) \<Rightarrow> ret (VVarint v) (pfi_advance consumed it)
      | None \<Rightarrow> pfi_fail ''invalid or truncated varint value'' it)"
| "pfi_value Fixed32 it =
     (if length (it_data it) < it_pos it + 4 then pfi_fail ''truncated fixed32'' it
      else ret (VFixed32 (from_le (take 4 (drop (it_pos it) (it_data it))))) (pfi_advance 4 it))"
| "pfi_value Fixed64 it =
     (if length (it_data it) < it_pos it + 8 then pfi_fail ''truncated fixed64'' it
      else ret (VFixed64 (from_le_bytes (take 8 (drop (it_pos it) (it_data it))))) (pfi_advance 8 it))"
| "pfi_value LengthDelimited it =
     (case read_canonical_varint32 (it_data it) (it_pos it) of
        Some (len, consumed) \<Rightarrow>
          let it = pfi_advance consumed it;
              stop = it_pos it + unat len
          in if length (it_data it) < stop then pfi_fail ''length-delimited field declares a length beyond the end'' it
             else ret (VLengthDelimited (take (unat len) (drop (it_pos it) (it_data it)))) (it\<lparr>it_pos := stop\<rparr>)
      | None \<Rightarrow> pfi_fail ''invalid or truncated length prefix'' it)"
| "pfi_value StartGroup it = ret VStartGroup it"
| "pfi_value EndGroup it = ret VEndGroup it"

definition pfi_field :: "(ProtoFieldIter, ProtoField) action" where
  "pfi_field it =
     (case read_canonical_varint32 (it_data it) (it_pos it) of
        None \<Rightarrow> pfi_fail ''invalid or truncated tag'' it
      | Some (tag, tag_len) \<Rightarrow>
          let field_number = tag_field_number tag
          in if field_number = 0 then pfi_fail ''field number 0'' it
             else case tag_wire_type tag of
               None \<Rightarrow> pfi_fail ''invalid wire type'' it
             | Some wire_type \<Rightarrow>
                 then_do (pfi_value wire_type)
                   (\<lambda>value. ret \<lparr>pf_number = field_number, pf_wire_type = wire_type, pf_value = value\<rparr>)
                   (pfi_advance tag_len it))"

definition pfi_next :: "ProtoFieldIter \<Rightarrow> ProtoField res option \<times> ProtoFieldIter" where
  "pfi_next it =
     (if it_errored it \<or> length (it_data it) \<le> it_pos it then (None, it)
      else case pfi_field it of (r, it') \<Rightarrow> (Some r, it'))"

text \<open>
  A field as the wire format has it: a number of 29 bits that is not 0, a value of the wire type, a
  length of 32 bits.
\<close>

fun value_fits :: "WireType \<Rightarrow> FieldValue \<Rightarrow> bool" where
  "value_fits w (VVarint v) \<longleftrightarrow> w = WVarint"
| "value_fits w (VFixed32 v) \<longleftrightarrow> w = Fixed32"
| "value_fits w (VFixed64 v) \<longleftrightarrow> w = Fixed64"
| "value_fits w (VLengthDelimited d) \<longleftrightarrow> w = LengthDelimited \<and> length d < 2 ^ 32"
| "value_fits w VStartGroup \<longleftrightarrow> w = StartGroup"
| "value_fits w VEndGroup \<longleftrightarrow> w = EndGroup"

definition wire_field :: "ProtoField \<Rightarrow> bool" where
  "wire_field f \<longleftrightarrow> pf_number f \<noteq> 0 \<and> unat (pf_number f) < 2 ^ 29 \<and> value_fits (pf_wire_type f) (pf_value f)"

abbreviation "field_bytes f \<equiv> serialize_field [] f"

lemma serialize_value_append: "serialize_value buf v = buf @ serialize_value [] v"
  by (cases v) (simp_all add: encode_varint64_def encode_varint32_def)

lemma serialize_field_append: "serialize_field buf f = buf @ field_bytes f"
  unfolding serialize_field_def
  by (subst (1 2) serialize_value_append) (simp add: encode_tag_def encode_varint32_def)

lemma field_bytes_eq:
  "field_bytes f = encode_u32 (make_tag (pf_number f) (pf_wire_type f)) @ serialize_value [] (pf_value f)"
  unfolding serialize_field_def
  by (subst serialize_value_append) (simp add: encode_tag_def encode_varint32_def)

lemma field_bytes_ne [simp]: "field_bytes f \<noteq> []"
  by (simp add: field_bytes_eq)

text \<open>The bytes of a fixed-width number at the front.\<close>

lemma le_prefix:
  fixes x :: "'a::len word"
  assumes "LENGTH('a) = 8 * n"
  shows "(\<exists>rest. bs = to_le n x @ rest) \<longleftrightarrow> n \<le> length bs \<and> x = from_le (take n bs)"
proof
  assume "n \<le> length bs \<and> x = from_le (take n bs)"
  then have "bs = to_le n x @ drop n bs" using assms by (simp add: to_from_le)
  then show "\<exists>rest. bs = to_le n x @ rest" by blast
qed (use assms in \<open>auto simp: from_to_le\<close>)

lemma unat_of_nat_u32: "n < 2 ^ 32 \<Longrightarrow> unat (of_nat n :: u32) = n"
  by (simp add: unat_of_nat take_bit_nat_eq_self)

lemma of_nat_length_u32: "length d = unat (n :: u32) \<Longrightarrow> of_nat (length d) = n"
  by simp

text \<open>Reading a value is the inverse of writing it.\<close>

lemma pfi_value_iff:
  assumes "it_pos it \<le> length (it_data it)"
  shows "pfi_value w it = (Inr v, it') \<longleftrightarrow>
    value_fits w v \<and> (\<exists>rest. drop (it_pos it) (it_data it) = serialize_value [] v @ rest) \<and>
    it' = pfi_advance (length (serialize_value [] v)) it"
proof (cases w)
  case WVarint
  have "pfi_value w it = (Inr v, it') \<longleftrightarrow> (\<exists>x k. canonical64_loop 0 0 (drop (it_pos it) (it_data it)) = Some (x, k) \<and>
      v = VVarint x \<and> it' = pfi_advance k it)"
    using assms WVarint by (auto simp: read_canonical_varint64_def pfi_fail_def split: option.splits)
  then show ?thesis using WVarint
    by (cases v) (auto simp: read_canonical64_iff encode_varint64_def)
next
  case Fixed32
  have "length (it_data it) < it_pos it + 4 \<longleftrightarrow> \<not> 4 \<le> length (drop (it_pos it) (it_data it))"
    using assms by auto
  with Fixed32 show ?thesis
    by (cases v) (auto simp: pfi_fail_def le_prefix simp del: length_drop)
next
  case Fixed64
  have "length (it_data it) < it_pos it + 8 \<longleftrightarrow> \<not> 8 \<le> length (drop (it_pos it) (it_data it))"
    using assms by auto
  with Fixed64 show ?thesis
    by (cases v) (auto simp: pfi_fail_def to_le_bytes_def from_le_bytes_def le_prefix simp del: length_drop)
next
  case LengthDelimited
  define bs where "bs = drop (it_pos it) (it_data it)"
  have d: "drop (it_pos it + k) (it_data it) = drop k bs" for k by (simp add: bs_def add.commute)
  have len: "length (it_data it) < it_pos it + k \<longleftrightarrow> length bs < k" for k using assms by (auto simp: bs_def)
  have "pfi_value w it = (Inr v, it') \<longleftrightarrow> (\<exists>n k. canonical32_loop 0 0 bs = Some (n, k) \<and> k + unat n \<le> length bs
      \<and> v = VLengthDelimited (take (unat n) (drop k bs)) \<and> it' = pfi_advance (k + unat n) it)"
    using LengthDelimited
    by (auto simp: read_canonical_varint32_def pfi_advance_def Let_def pfi_fail_def d len add.assoc
        bs_def [symmetric] split: option.splits)
  also have "\<dots> \<longleftrightarrow> (\<exists>d rest. v = VLengthDelimited d \<and> length d < 2 ^ 32 \<and>
      bs = encode_u32 (of_nat (length d)) @ d @ rest \<and>
      it' = pfi_advance (length (encode_u32 (of_nat (length d))) + length d) it)" (is "?L \<longleftrightarrow> ?R")
  proof
    assume ?L
    then obtain n k where n: "canonical32_loop 0 0 bs = Some (n, k)" "k + unat n \<le> length bs"
      "v = VLengthDelimited (take (unat n) (drop k bs))" "it' = pfi_advance (k + unat n) it" by blast
    then obtain rest where r: "bs = encode_u32 n @ rest" "k = length (encode_u32 n)"
      by (auto simp: read_canonical32_iff)
    have "unat n < 2 ^ 32" using unsigned_less [of n, where 'a = nat] by simp
    then show ?R using n r
      by (intro exI [of _ "take (unat n) rest"] exI [of _ "drop (unat n) rest"]) simp
  next
    assume ?R
    then obtain d rest where "v = VLengthDelimited d" "length d < 2 ^ 32"
      "bs = encode_u32 (of_nat (length d)) @ d @ rest"
      "it' = pfi_advance (length (encode_u32 (of_nat (length d))) + length d) it" by blast
    then show ?L
      by (intro exI [of _ "of_nat (length d)"] exI [of _ "length (encode_u32 (of_nat (length d)))"])
         (auto simp: read_canonical32_iff unat_of_nat_u32)
  qed
  finally show ?thesis using LengthDelimited
    by (cases v) (auto simp: encode_varint32_def bs_def [symmetric])
qed (cases v; auto simp: pfi_advance_def)+

text \<open>A step of the iterator is the inverse of serializing a field.\<close>

lemma pfi_field_iff:
  assumes "it_pos it \<le> length (it_data it)"
  shows "pfi_field it = (Inr f, it') \<longleftrightarrow> wire_field f \<and>
    (\<exists>rest. drop (it_pos it) (it_data it) = field_bytes f @ rest) \<and> it' = pfi_advance (length (field_bytes f)) it"
proof -
  define bs where "bs = drop (it_pos it) (it_data it)"
  have len: "length bs = length (it_data it) - it_pos it" by (simp add: bs_def)
  have "pfi_field it = (Inr f, it') \<longleftrightarrow> (\<exists>tag k. canonical32_loop 0 0 bs = Some (tag, k) \<and> tag_field_number tag \<noteq> 0 \<and>
      tag_field_number tag = pf_number f \<and> tag_wire_type tag = Some (pf_wire_type f) \<and>
      pfi_value (pf_wire_type f) (pfi_advance k it) = (Inr (pf_value f), it'))"
    by (cases f) (auto simp: pfi_field_def read_canonical_varint32_def bs_def pfi_fail_def Let_def then_do_Inr
        split: option.splits)
  also have "\<dots> \<longleftrightarrow> (\<exists>tag k. canonical32_loop 0 0 bs = Some (tag, k) \<and> tag_field_number tag \<noteq> 0 \<and>
      tag_field_number tag = pf_number f \<and> tag_wire_type tag = Some (pf_wire_type f) \<and>
      value_fits (pf_wire_type f) (pf_value f) \<and> (\<exists>rest. drop k bs = serialize_value [] (pf_value f) @ rest) \<and>
      it' = pfi_advance (length (serialize_value [] (pf_value f))) (pfi_advance k it))"
    (is "(\<exists>tag k. ?L tag k) \<longleftrightarrow> (\<exists>tag k. ?R tag k)")
  proof -
    have "?L tag k \<longleftrightarrow> ?R tag k" for tag k
    proof (cases "canonical32_loop 0 0 bs = Some (tag, k)")
      case True
      then have "k \<le> length bs" using canonical32.dec_bounds by blast
      then have "it_pos (pfi_advance k it) \<le> length (it_data (pfi_advance k it))"
        using assms len by (simp add: pfi_advance_def)
      then show ?thesis using pfi_value_iff [of "pfi_advance k it" "pf_wire_type f" "pf_value f" it']
        by (simp add: pfi_advance_def bs_def add.commute)
    qed simp
    then show ?thesis by simp
  qed
  also have "\<dots> \<longleftrightarrow> wire_field f \<and> (\<exists>rest. bs = field_bytes f @ rest) \<and> it' = pfi_advance (length (field_bytes f)) it"
    (is "(\<exists>tag k. ?R tag k) \<longleftrightarrow> ?S")
  proof
    assume "\<exists>tag k. ?R tag k"
    then obtain tag k where r: "?R tag k" by blast
    note t = tag_parts [of tag "pf_wire_type f"]
    from r t show ?S
      by (auto simp: read_canonical32_iff field_bytes_eq wire_field_def pfi_advance_def add.assoc)
  next
    assume s: ?S
    then have "?R (make_tag (pf_number f) (pf_wire_type f)) (length (encode_u32 (make_tag (pf_number f) (pf_wire_type f))))"
      by (auto simp: read_canonical32_iff field_bytes_eq wire_field_def field_of_make_tag pfi_advance_def add.assoc)
    then show "\<exists>tag k. ?R tag k" by blast
  qed
  finally show ?thesis by (simp add: bs_def)
qed

lemma pfi_value_data: "pfi_value w it = (r, it') \<Longrightarrow> it_data it' = it_data it \<and> it_pos it \<le> it_pos it'"
  by (cases w) (auto simp: pfi_fail_def pfi_advance_def Let_def ret_def split: option.splits if_splits)

lemma pfi_field_err: "pfi_field it = (Inl e, it') \<Longrightarrow> it_errored it'"
proof -
  have "pfi_value w i = (Inl e, i') \<Longrightarrow> it_errored i'" for w i i'
    by (cases w) (auto simp: pfi_fail_def ret_def Let_def split: option.splits if_splits)
  then show "pfi_field it = (Inl e, it') \<Longrightarrow> it_errored it'"
    by (auto simp: pfi_field_def pfi_fail_def Let_def then_do_Inl split: option.splits if_splits)
qed

lemma pfi_next_moves: "pfi_next it = (Some (Inr f), it') \<Longrightarrow> length (it_data it') - it_pos it' < length (it_data it) - it_pos it"
  using pfi_field_iff [of it f it']
  by (auto simp: pfi_next_def pfi_advance_def split: if_splits prod.splits)
     (metis append_is_Nil_conv diff_less_mono2 drop_eq_Nil2 field_bytes_ne length_greater_0_conv less_add_same_cancel1 not_less)

section \<open>Loops over the fields\<close>

text \<open>\<open>for result in iter { let field = result?; body }\<close>.\<close>

function for_fields :: "(ProtoField \<Rightarrow> ('s, unit) action) \<Rightarrow> ProtoFieldIter \<Rightarrow> ('s, unit) action" where
  "for_fields body it s =
     (case pfi_next it of
        (None, _) \<Rightarrow> (Inr (), s)
      | (Some (Inl e), _) \<Rightarrow> (Inl e, s)
      | (Some (Inr field), it') \<Rightarrow> then_do (body field) (\<lambda>_. for_fields body it') s)"
  by pat_completeness auto

termination for_fields
  by (relation "measure (\<lambda>(body, it, s). length (it_data it) - it_pos it)") (auto dest!: sym pfi_next_moves)

declare for_fields.simps [simp del]

text \<open>What the iterator yields, and how it ends.\<close>

function items :: "ProtoFieldIter \<Rightarrow> ProtoField list \<times> unit res" where
  "items it =
     (case pfi_next it of
        (None, _) \<Rightarrow> ([], Inr ())
      | (Some (Inl e), _) \<Rightarrow> ([], Inl e)
      | (Some (Inr field), it') \<Rightarrow> (case items it' of (fs, r) \<Rightarrow> (field # fs, r)))"
  by pat_completeness auto

termination items
  by (relation "measure (\<lambda>it. length (it_data it) - it_pos it)") (auto dest!: sym pfi_next_moves)

declare items.simps [simp del]

text \<open>A body on a list of fields, and then the end of the iteration.\<close>

fun run_list :: "('a \<Rightarrow> ('s, unit) action) \<Rightarrow> 'a list \<Rightarrow> unit res \<Rightarrow> ('s, unit) action" where
  "run_list body [] r s = (r, s)"
| "run_list body (x # xs) r s = then_do (body x) (\<lambda>_. run_list body xs r) s"

lemma run_list_cong [fundef_cong]:
  "xs = ys \<Longrightarrow> r = r' \<Longrightarrow> (\<And>x. x \<in> set ys \<Longrightarrow> f x = g x) \<Longrightarrow> run_list f xs r = run_list g ys r'"
proof -
  have "(\<And>x. x \<in> set ys \<Longrightarrow> f x = g x) \<Longrightarrow> run_list f ys r' s = run_list g ys r' s" for s
    by (induction ys arbitrary: s) (auto simp: then_do_def split: prod.split sum.split)
  then show "xs = ys \<Longrightarrow> r = r' \<Longrightarrow> (\<And>x. x \<in> set ys \<Longrightarrow> f x = g x) \<Longrightarrow> run_list f xs r = run_list g ys r'"
    by (intro ext) simp
qed

lemma for_fields_items: "for_fields body it s = run_list body (fst (items it)) (snd (items it)) s"
proof (induction it arbitrary: s rule: items.induct)
  case (1 it)
  obtain x it' where n: "pfi_next it = (x, it')" by fastforce
  show ?case
  proof (cases x)
    case None
    then show ?thesis using n by (simp add: for_fields.simps items.simps)
  next
    case (Some y)
    show ?thesis
    proof (cases y)
      case (Inl e)
      then show ?thesis using n Some by (simp add: for_fields.simps [of body it] items.simps [of it])
    next
      case (Inr f)
      have IH: "for_fields body it' s = run_list body (fst (items it')) (snd (items it')) s" for s
        using "1.IH" n Some Inr by simp
      show ?thesis
        using n Some Inr
        by (simp add: for_fields.simps [of body it] items.simps [of it] then_do_def IH split: prod.split sum.split)
    qed
  qed
qed

definition iter_at :: "bytes \<Rightarrow> ProtoFieldIter \<Rightarrow> bool" where
  "iter_at bs it \<longleftrightarrow> \<not> it_errored it \<and> it_pos it \<le> length (it_data it) \<and> drop (it_pos it) (it_data it) = bs"

lemma iter_at_new: "iter_at data (pfi_new data)"
  by (simp add: iter_at_def pfi_new_def)

lemma iter_at_next:
  assumes "iter_at bs it"
  shows "pfi_next it = (Some (Inr f), it') \<longleftrightarrow>
    wire_field f \<and> (\<exists>rest. bs = field_bytes f @ rest) \<and> it' = pfi_advance (length (field_bytes f)) it"
  using assms pfi_field_iff [of it f it'] by (auto simp: pfi_next_def iter_at_def split: prod.splits)

lemma iter_at_end: "iter_at bs it \<Longrightarrow> fst (pfi_next it) = None \<longleftrightarrow> bs = []"
  by (auto simp: pfi_next_def iter_at_def split: prod.splits)

lemma iter_at_advance:
  assumes "iter_at (x @ bs) it"
  shows "iter_at bs (pfi_advance (length x) it)"
proof -
  have d: "drop (it_pos it) (it_data it) = x @ bs" using assms by (simp add: iter_at_def)
  then have "length (it_data it) - it_pos it = length x + length bs" by (metis length_append length_drop)
  moreover have "drop (it_pos it + length x) (it_data it) = drop (length x) (x @ bs)"
    by (metis d drop_drop add.commute)
  ultimately show ?thesis using assms by (auto simp: iter_at_def pfi_advance_def)
qed

lemma items_exact: "iter_at bs it \<Longrightarrow> items it = (fs, Inr ()) \<longleftrightarrow> list_all wire_field fs \<and> bs = concat (map field_bytes fs)"
proof (induction fs arbitrary: it bs)
  case Nil
  then show ?case using iter_at_end [OF Nil]
    by (subst items.simps) (auto split: prod.splits option.splits sum.splits)
next
  case (Cons f fs)
  have "items it = (f # fs, Inr ()) \<longleftrightarrow> (\<exists>it'. pfi_next it = (Some (Inr f), it') \<and> items it' = (fs, Inr ()))"
    by (subst items.simps) (auto split: prod.splits option.splits sum.splits)
  also have "\<dots> \<longleftrightarrow> wire_field f \<and> (\<exists>rest. bs = field_bytes f @ rest \<and> list_all wire_field fs \<and> rest = concat (map field_bytes fs))"
  proof (cases "wire_field f \<and> (\<exists>rest. bs = field_bytes f @ rest)")
    case True
    then obtain rest where r: "bs = field_bytes f @ rest" by blast
    have "iter_at rest (pfi_advance (length (field_bytes f)) it)" using Cons.prems r iter_at_advance by blast
    from Cons.IH [OF this] True r show ?thesis by (auto simp: iter_at_next [OF Cons.prems])
  qed (auto simp: iter_at_next [OF Cons.prems])
  finally show ?case by auto
qed

lemma items_new: "items (pfi_new data) = (fs, Inr ()) \<longleftrightarrow> list_all wire_field fs \<and> data = concat (map field_bytes fs)"
  by (rule items_exact [OF iter_at_new])

text \<open>In any case the fields come from the front of the input.\<close>

lemma items_front:
  "iter_at bs it \<Longrightarrow> list_all wire_field (fst (items it)) \<and> (\<exists>rest. bs = concat (map field_bytes (fst (items it))) @ rest)"
proof (induction it arbitrary: bs rule: items.induct)
  case (1 it)
  show ?case
  proof (cases "\<exists>f it'. pfi_next it = (Some (Inr f), it')")
    case True
    then obtain f it' where n: "pfi_next it = (Some (Inr f), it')" by blast
    then obtain rest where r: "wire_field f" "bs = field_bytes f @ rest" "it' = pfi_advance (length (field_bytes f)) it"
      using iter_at_next [OF "1.prems"] by blast
    then have "iter_at rest it'" using "1.prems" iter_at_advance by blast
    from "1.IH" [OF n [symmetric] refl refl this] n r show ?thesis
      by (subst (1 2) items.simps) (auto split: prod.splits)
  next
    case False
    then have "fst (items it) = []" by (subst items.simps) (auto split: prod.splits option.splits sum.splits)
    then show ?thesis by simp
  qed
qed

text \<open>After an error, and at the end, the iterator yields nothing more.\<close>

lemma pfi_next_fused: "pfi_next it = (x, it') \<Longrightarrow> (\<And>f. x \<noteq> Some (Inr f)) \<Longrightarrow> pfi_next it' = (None, it')"
  using pfi_field_err [of it] by (auto simp: pfi_next_def split: if_splits prod.splits) (metis old.sum.exhaust)

section \<open>Messages as trees\<close>

text \<open>A field that is not a group marker, or a group with what is between its markers.\<close>

datatype node = Scalar ProtoField | Group u32 "node list"

definition start_group :: "u32 \<Rightarrow> ProtoField" where
  "start_group n = \<lparr>pf_number = n, pf_wire_type = StartGroup, pf_value = VStartGroup\<rparr>"

definition end_group :: "u32 \<Rightarrow> ProtoField" where
  "end_group n = \<lparr>pf_number = n, pf_wire_type = EndGroup, pf_value = VEndGroup\<rparr>"

fun node_number :: "node \<Rightarrow> u32" where
  "node_number (Scalar f) = pf_number f"
| "node_number (Group n ns) = n"

fun node_fields :: "node \<Rightarrow> ProtoField list" where
  "node_fields (Scalar f) = [f]"
| "node_fields (Group n ns) = start_group n # concat (map node_fields ns) @ [end_group n]"

fun node_ok :: "node \<Rightarrow> bool" where
  "node_ok (Scalar f) \<longleftrightarrow> wire_field f \<and> pf_wire_type f \<noteq> StartGroup \<and> pf_wire_type f \<noteq> EndGroup"
| "node_ok (Group n ns) \<longleftrightarrow> n \<noteq> 0 \<and> unat n < 2 ^ 29 \<and> list_all node_ok ns"

abbreviation "message_fields ns \<equiv> concat (map node_fields ns)"

definition message_bytes :: "node list \<Rightarrow> bytes" where
  "message_bytes ns = concat (map field_bytes (message_fields ns))"

lemma message_bytes_simps [simp]:
  "message_bytes [] = []"
  "message_bytes (n # ns) = concat (map field_bytes (node_fields n)) @ message_bytes ns"
  by (simp_all add: message_bytes_def)

lemma message_bytes_append: "message_bytes (ms @ ns) = message_bytes ms @ message_bytes ns"
  by (simp add: message_bytes_def)

lemma node_fields_wire: "node_ok n \<Longrightarrow> list_all wire_field (node_fields n)"
  by (induction n rule: node_fields.induct)
     (auto simp: list_all_iff start_group_def end_group_def wire_field_def)

lemma message_fields_wire: "list_all node_ok ns \<Longrightarrow> list_all wire_field (message_fields ns)"
  using node_fields_wire by (fastforce simp: list_all_iff)

lemma items_message: "list_all node_ok ns \<Longrightarrow> items (pfi_new (message_bytes ns)) = (message_fields ns, Inr ())"
  by (simp add: items_new message_fields_wire message_bytes_def)

text \<open>The trees are the messages of the canonical grammar.\<close>

lemma canonical_nil: "canonical_message []"
  unfolding canonical_message_def by (rule Wire.fields.intros)

lemma u32_length_u64:
  assumes "n < 2 ^ 32"
  shows "encode_u32 (of_nat n) = encode_u64 (of_nat n)"
proof -
  have "unat (ucast (of_nat n :: u32) :: u64) = unat (of_nat n :: u64)"
    using assms by (simp add: unat_ucast_u32 unat_of_nat_u32 unat_of_nat_u64)
  then have "(ucast (of_nat n :: u32) :: u64) = of_nat n" by (rule word_eq_unatI)
  then show ?thesis by (simp only: encode_u32_def)
qed

lemma canonical_scalar:
  assumes "wire_field f" "pf_wire_type f \<noteq> StartGroup" "pf_wire_type f \<noteq> EndGroup" "canonical_message bs"
  shows "canonical_message (field_bytes f @ bs)"
proof -
  have f: "pf_number f \<noteq> 0" "unat (pf_number f) < 2 ^ 29" "value_fits (pf_wire_type f) (pf_value f)"
    using assms by (simp_all add: wire_field_def)
  note go = assms(4) [unfolded canonical_message_def]
  show ?thesis
  proof (cases "pf_value f")
    case (VVarint v)
    with f show ?thesis unfolding canonical_message_def field_bytes_eq append_assoc
      by (intro Wire.fields.intros(2) go) (auto simp: encode_varint64_def)
  next
    case (VFixed32 v)
    with f show ?thesis unfolding canonical_message_def field_bytes_eq append_assoc
      by (intro Wire.fields.intros(3) go) auto
  next
    case (VFixed64 v)
    with f show ?thesis unfolding canonical_message_def field_bytes_eq append_assoc
      by (intro Wire.fields.intros(4) go) auto
  next
    case (VLengthDelimited d)
    with f have d: "length d < 2 ^ 32" "pf_wire_type f = LengthDelimited" by simp_all
    have v: "serialize_value [] (pf_value f) = encode_u64 (of_nat (length d)) @ d"
      using u32_length_u64 [OF d(1)] VLengthDelimited by (simp add: encode_varint32_def)
    show ?thesis using f d unfolding canonical_message_def field_bytes_eq v append_assoc
      by (intro Wire.fields.intros(5) [where v = "of_nat (length d)"] go) (auto simp: unat_of_nat_u64)
  qed (use f assms in auto)
qed

lemma canonical_group:
  assumes "n \<noteq> 0" "unat n < 2 ^ 29" "canonical_message body" "canonical_message bs"
  shows "canonical_message (field_bytes (start_group n) @ body @ field_bytes (end_group n) @ bs)"
proof -
  have b: "field_bytes (start_group n) = encode_u32 (make_tag n StartGroup)"
    "field_bytes (end_group n) = encode_u32 (make_tag n EndGroup)"
    by (simp_all add: field_bytes_eq start_group_def end_group_def)
  show ?thesis using assms unfolding b canonical_message_def
    by (intro Wire.fields.intros(6) [of n]) auto
qed

lemma canonical_append: "canonical_message a \<Longrightarrow> canonical_message b \<Longrightarrow> canonical_message (a @ b)"
  unfolding canonical_message_def canonical_wire.loop_iff [symmetric]
  by (rule canonical_wire.loop_fields) (simp_all only: canonical_wire.loop_iff)

lemma canonical_node: "node_ok n \<Longrightarrow> canonical_message (concat (map field_bytes (node_fields n)))"
proof (induction n rule: node_fields.induct)
  case (1 f)
  then show ?case using canonical_scalar [of f "[]"] by (simp add: canonical_nil)
next
  case (2 n ns)
  have "canonical_message (message_bytes ms)" if "set ms \<subseteq> set ns" for ms
    using that 2 by (induction ms) (auto simp: canonical_nil list_all_iff intro: canonical_append)
  then have "canonical_message (message_bytes ns)" by simp
  with 2 canonical_group [of n "message_bytes ns" "[]"] show ?case
    by (simp add: canonical_nil message_bytes_def)
qed

lemma canonical_nodes: "list_all node_ok ns \<Longrightarrow> canonical_message (message_bytes ns)"
  by (induction ns) (auto simp: canonical_nil intro: canonical_append canonical_node)

lemma scalar_node:
  assumes "f \<noteq> 0" "unat f < 2 ^ 29" "value_fits w v" "w \<noteq> StartGroup" "w \<noteq> EndGroup" "list_all node_ok ns"
  shows "\<exists>ms. list_all node_ok ms \<and> encode_u32 (make_tag f w) @ serialize_value [] v @ message_bytes ns = message_bytes ms"
  using assms
  by (intro exI [of _ "Scalar \<lparr>pf_number = f, pf_wire_type = w, pf_value = v\<rparr> # ns"])
     (simp add: field_bytes_eq wire_field_def)

lemma canonical_tree: "canonical_message bs \<Longrightarrow> \<exists>ns. list_all node_ok ns \<and> bs = message_bytes ns"
  unfolding canonical_message_def
proof (induction rule: Wire.fields.induct)
  case 1
  show ?case by (intro exI [of _ "[]"]) simp
next
  case (2 f t v n bs)
  then show ?case using scalar_node [of f WVarint "VVarint v"] by (auto simp: encode_varint64_def)
next
  case (3 f t d bs)
  then show ?case using scalar_node [of f Fixed32 "VFixed32 (from_le d)"] by (auto simp: to_from_le)
next
  case (4 f t d bs)
  then show ?case using scalar_node [of f Fixed64 "VFixed64 (from_le_bytes d)"] by (auto simp: to_from_le_bytes)
next
  case (5 f t v n d bs)
  then have "encode_u32 (of_nat (length d)) = n" using u32_length_u64 [of "length d"] by simp
  with 5 show ?case using scalar_node [of f LengthDelimited "VLengthDelimited d"] by (auto simp: encode_varint32_def)
next
  case (6 f s e body bs)
  then obtain ms ns where "list_all node_ok ms" "body = message_bytes ms" "list_all node_ok ns" "bs = message_bytes ns" by blast
  with 6 show ?case
    by (intro exI [of _ "Group f ms # ns"])
       (simp add: field_bytes_eq start_group_def end_group_def message_bytes_def)
qed

lemma is_proto_message_tree: "is_proto_message data \<longleftrightarrow> (\<exists>ns. list_all node_ok ns \<and> data = message_bytes ns)"
  using canonical_tree [of data] canonical_nodes by (auto simp: is_proto_message_grammar)

section \<open>The filtered iterator\<close>

record FilteredFieldIter =
  ff_inner :: ProtoFieldIter
  ff_allowed :: "u32 list"
  ff_group_depth :: nat
  ff_keeping_group :: bool
  ff_errored :: bool

definition ff_new :: "bytes \<Rightarrow> u32 list \<Rightarrow> FilteredFieldIter" where
  "ff_new data allowed =
     \<lparr>ff_inner = pfi_new data, ff_allowed = allowed, ff_group_depth = 0, ff_keeping_group = False, ff_errored = False\<rparr>"

text \<open>The body of the loop on a field: yield it, go on, or report an error of its own.\<close>

definition ff_field :: "ProtoField \<Rightarrow> (FilteredFieldIter, bool) action" where
  "ff_field field it =
     (if 0 < ff_group_depth it then
        ret (ff_keeping_group it)
          (case pf_wire_type field of
             StartGroup \<Rightarrow> it\<lparr>ff_group_depth := ff_group_depth it + 1\<rparr>
           | EndGroup \<Rightarrow> it\<lparr>ff_group_depth := ff_group_depth it - 1\<rparr>
           | _ \<Rightarrow> it)
      else if pf_wire_type field = StartGroup then
        let it = it\<lparr>ff_group_depth := 1, ff_keeping_group := pf_number field \<in> set (ff_allowed it)\<rparr>
        in ret (ff_keeping_group it) it
      else if pf_wire_type field = EndGroup then
        (Inl (MalformedData ''end-group tag without matching start-group''), it\<lparr>ff_errored := True\<rparr>)
      else ret (pf_number field \<in> set (ff_allowed it)) it)"

lemma ff_field_inner: "ff_field field it = (r, it') \<Longrightarrow> ff_inner it' = ff_inner it \<and> ff_allowed it' = ff_allowed it"
  by (auto simp: ff_field_def ret_def Let_def split: if_splits WireType.splits)

lemma ff_field_errored: "ff_field field it = (Inr b, it') \<Longrightarrow> ff_errored it' = ff_errored it"
  by (auto simp: ff_field_def ret_def Let_def split: if_splits WireType.splits)

function ff_loop :: "FilteredFieldIter \<Rightarrow> ProtoField res option \<times> FilteredFieldIter" where
  "ff_loop it =
     (case pfi_next (ff_inner it) of
        (Some (Inr field), inner) \<Rightarrow>
          (case ff_field field (it\<lparr>ff_inner := inner\<rparr>) of
             (Inr True, it') \<Rightarrow> (Some (Inr field), it')
           | (Inr False, it') \<Rightarrow> ff_loop it'
           | (Inl e, it') \<Rightarrow> (Some (Inl e), it'))
      | (Some (Inl e), inner) \<Rightarrow> (Some (Inl e), it\<lparr>ff_inner := inner\<rparr>)
      | (None, inner) \<Rightarrow> (None, it\<lparr>ff_inner := inner\<rparr>))"
  by pat_completeness auto

definition ff_left :: "FilteredFieldIter \<Rightarrow> nat" where
  "ff_left it = length (it_data (ff_inner it)) - it_pos (ff_inner it)"

lemma ff_field_left:
  assumes "pfi_next (ff_inner it) = (Some (Inr field), inner)" "ff_field field (it\<lparr>ff_inner := inner\<rparr>) = (r, it')"
  shows "ff_left it' < ff_left it"
  using pfi_next_moves [OF assms(1)] ff_field_inner [OF assms(2)] by (simp add: ff_left_def)

termination ff_loop
  by (relation "measure ff_left") (simp, metis ff_field_left in_measure)

declare ff_loop.simps [simp del]

definition ff_next :: "FilteredFieldIter \<Rightarrow> ProtoField res option \<times> FilteredFieldIter" where
  "ff_next it = (if ff_errored it then (None, it) else ff_loop it)"

lemma ff_loop_step:
  assumes "ff_loop it = (Some (Inr f), it')"
  obtains g inner it'' where "pfi_next (ff_inner it) = (Some (Inr g), inner)"
    "ff_field g (it\<lparr>ff_inner := inner\<rparr>) = (Inr True, it'') \<and> f = g \<and> it' = it'' \<or>
     ff_field g (it\<lparr>ff_inner := inner\<rparr>) = (Inr False, it'') \<and> ff_loop it'' = (Some (Inr f), it')"
  using assms by (subst (asm) ff_loop.simps) (auto split: prod.splits option.splits sum.splits bool.splits)

lemma ff_loop_moves: "ff_loop it = (Some (Inr f), it') \<Longrightarrow> ff_left it' < ff_left it"
proof (induction it rule: ff_loop.induct)
  case (1 it)
  from "1.prems" show ?case
  proof (cases rule: ff_loop_step)
    case (1 g inner it'')
    from 1(2) show ?thesis
    proof
      assume "ff_field g (it\<lparr>ff_inner := inner\<rparr>) = (Inr True, it'') \<and> f = g \<and> it' = it''"
      then show ?thesis using ff_field_left [OF 1(1)] by blast
    next
      assume a: "ff_field g (it\<lparr>ff_inner := inner\<rparr>) = (Inr False, it'') \<and> ff_loop it'' = (Some (Inr f), it')"
      then have "ff_left it' < ff_left it''"
        using "1.IH" [OF 1(1) [symmetric] refl refl _ refl] by auto
      then show ?thesis using ff_field_left [OF 1(1)] a by (blast intro: less_trans)
    qed
  qed
qed

function for_filtered :: "(ProtoField \<Rightarrow> ('s, unit) action) \<Rightarrow> FilteredFieldIter \<Rightarrow> ('s, unit) action" where
  "for_filtered body it s =
     (case ff_next it of
        (None, _) \<Rightarrow> (Inr (), s)
      | (Some (Inl e), _) \<Rightarrow> (Inl e, s)
      | (Some (Inr field), it') \<Rightarrow> then_do (body field) (\<lambda>_. for_filtered body it') s)"
  by pat_completeness auto

termination for_filtered
  by (relation "measure (\<lambda>(body, it, s). ff_left it)")
     (auto dest!: sym ff_loop_moves simp: ff_next_def split: if_splits)

declare for_filtered.simps [simp del]

text \<open>What it keeps of a list of fields, at a depth, while a group is kept or not.\<close>

fun kept :: "u32 list \<Rightarrow> nat \<Rightarrow> bool \<Rightarrow> ProtoField list \<Rightarrow> unit res \<Rightarrow> ProtoField list \<times> unit res" where
  "kept allowed d keep [] r = ([], r)"
| "kept allowed d keep (f # fs) r =
     (let add = (\<lambda>k (ks, r). (if k then f # ks else ks, r))
      in if 0 < d then
           add keep (kept allowed
             (if pf_wire_type f = StartGroup then d + 1 else if pf_wire_type f = EndGroup then d - 1 else d) keep fs r)
         else if pf_wire_type f = StartGroup then
           add (pf_number f \<in> set allowed) (kept allowed 1 (pf_number f \<in> set allowed) fs r)
         else if pf_wire_type f = EndGroup then
           ([], Inl (MalformedData ''end-group tag without matching start-group''))
         else add (pf_number f \<in> set allowed) (kept allowed 0 keep fs r))"

lemma kept_field:
  "kept (ff_allowed it) (ff_group_depth it) (ff_keeping_group it) (g # fs) r =
   (case ff_field g it of
      (Inl e, _) \<Rightarrow> ([], Inl e)
    | (Inr b, it') \<Rightarrow>
        (case kept (ff_allowed it) (ff_group_depth it') (ff_keeping_group it') fs r of
           (ks, r') \<Rightarrow> (if b then g # ks else ks, r')))"
  by (auto simp: ff_field_def ret_def Let_def split: prod.split WireType.split)

lemma for_filtered_kept:
  "\<not> ff_errored it \<Longrightarrow> for_filtered body it s =
   (case kept (ff_allowed it) (ff_group_depth it) (ff_keeping_group it) (fst (items (ff_inner it))) (snd (items (ff_inner it))) of
      (ks, r) \<Rightarrow> run_list body ks r s)"
proof (induction "ff_left it" arbitrary: it s rule: less_induct)
  case less
  obtain x inner where n: "pfi_next (ff_inner it) = (x, inner)" by fastforce
  have next_loop: "ff_next it = ff_loop it" using less.prems by (simp add: ff_next_def)
  show ?case
  proof (cases "\<exists>g. x = Some (Inr g)")
    case False
    with n next_loop show ?thesis
      by (cases x) (auto simp: for_filtered.simps [of body it] ff_loop.simps [of it] items.simps [of "ff_inner it"]
          split: sum.split)
  next
    case True
    then obtain g where g: "pfi_next (ff_inner it) = (Some (Inr g), inner)" using n by blast
    obtain fs r where i: "items inner = (fs, r)" by fastforce
    then have its: "items (ff_inner it) = (g # fs, r)" using g by (simp add: items.simps [of "ff_inner it"])
    obtain y it' where f: "ff_field g (it\<lparr>ff_inner := inner\<rparr>) = (y, it')" by fastforce
    note inner = ff_field_inner [OF f] and left = ff_field_left [OF g f]
    note k = kept_field [of "it\<lparr>ff_inner := inner\<rparr>" g fs r, unfolded f, simplified]
    show ?thesis
    proof (cases y)
      case (Inl e)
      with g f next_loop k its show ?thesis
        by (simp add: for_filtered.simps [of body it] ff_loop.simps [of it])
    next
      case (Inr b)
      have e: "\<not> ff_errored it'" using f Inr ff_field_errored less.prems by fastforce
      have IH: "for_filtered body it' s =
        (case kept (ff_allowed it) (ff_group_depth it') (ff_keeping_group it') fs r of (ks, r) \<Rightarrow> run_list body ks r s)" for s
        using less.hyps [OF left e] inner i by simp
      show ?thesis
      proof (cases b)
        case True
        then have "ff_loop it = (Some (Inr g), it')" using g f Inr by (simp add: ff_loop.simps [of it])
        then show ?thesis using True Inr its k next_loop IH
          by (simp add: for_filtered.simps [of body it] then_do_def split: prod.split sum.split)
      next
        case False
        then have "ff_loop it = ff_loop it'" using g f Inr by (simp add: ff_loop.simps [of it])
        then have "for_filtered body it s = for_filtered body it' s" using e next_loop
          by (simp add: for_filtered.simps [of body it] for_filtered.simps [of body it'] ff_next_def)
        then show ?thesis using False Inr its k IH by (simp split: prod.split)
      qed
    qed
  qed
qed

text \<open>On a message it keeps the nodes with an allowed number, whole.\<close>

lemma kept_node:
  assumes "node_ok n"
  shows "0 < d \<Longrightarrow> kept allowed d keep (node_fields n @ fs) r =
    (case kept allowed d keep fs r of (ks, r') \<Rightarrow> (if keep then node_fields n @ ks else ks, r'))"
  using assms
proof (induction n arbitrary: d fs rule: node_fields.induct)
  case (1 f)
  then show ?case by (simp split: prod.split)
next
  case (2 n ns)
  have "kept allowed (d + 1) keep (message_fields ms @ fs') r =
    (case kept allowed (d + 1) keep fs' r of (ks, r') \<Rightarrow> (if keep then message_fields ms @ ks else ks, r'))"
    if "set ms \<subseteq> set ns" for ms fs'
    using that
  proof (induction ms)
    case (Cons m ms)
    then have "node_ok m" using 2 by (auto simp: list_all_iff)
    with 2 Cons show ?case by (simp split: prod.split)
  qed (simp split: prod.split)
  from this [of ns "end_group n # fs"] show ?case
    using "2.prems" by (simp add: start_group_def end_group_def split: prod.split)
qed

lemma kept_message:
  "list_all node_ok ns \<Longrightarrow> \<exists>keep'. kept allowed 0 keep (message_fields ns @ fs) r =
    (case kept allowed 0 keep' fs r of (ks, r') \<Rightarrow>
      (message_fields (filter (\<lambda>n. node_number n \<in> set allowed) ns) @ ks, r'))"
proof (induction ns arbitrary: keep)
  case (Cons n ns)
  show ?case
  proof (cases n)
    case (Scalar f)
    obtain keep' where "kept allowed 0 keep (message_fields ns @ fs) r = (case kept allowed 0 keep' fs r of (ks, r') \<Rightarrow>
      (message_fields (filter (\<lambda>n. node_number n \<in> set allowed) ns) @ ks, r'))"
      using Cons.IH [of keep] Cons.prems by auto
    with Scalar Cons.prems show ?thesis by (intro exI [of _ keep']) (simp split: prod.split)
  next
    case (Group m ms)
    let ?k = "m \<in> set allowed"
    obtain keep' where k: "kept allowed 0 ?k (message_fields ns @ fs) r = (case kept allowed 0 keep' fs r of (ks, r') \<Rightarrow>
      (message_fields (filter (\<lambda>n. node_number n \<in> set allowed) ns) @ ks, r'))"
      using Cons.IH [of ?k] Cons.prems by auto
    have "kept allowed 1 ?k (message_fields xs @ fs') r =
      (case kept allowed 1 ?k fs' r of (ks, r') \<Rightarrow> (if ?k then message_fields xs @ ks else ks, r'))"
      if "list_all node_ok xs" for xs fs'
      using that by (induction xs) (simp_all add: kept_node split: prod.split)
    from this [of ms "end_group m # message_fields ns @ fs"] show ?thesis
      using k Group Cons.prems
      by (intro exI [of _ keep']) (simp add: start_group_def end_group_def split: prod.split)
  qed
qed (auto split: prod.split)

lemma for_filtered_message:
  assumes "list_all node_ok ns"
  shows "for_filtered body (ff_new (message_bytes ns) allowed) s =
    run_list body (message_fields (filter (\<lambda>n. node_number n \<in> set allowed) ns)) (Inr ()) s"
proof -
  obtain keep' where "kept allowed 0 False (message_fields ns @ []) (Inr ()) =
    (case kept allowed 0 keep' [] (Inr ()) of (ks, r') \<Rightarrow> (message_fields (filter (\<lambda>n. node_number n \<in> set allowed) ns) @ ks, r'))"
    using kept_message [OF assms] by blast
  then show ?thesis
    using for_filtered_kept [of "ff_new (message_bytes ns) allowed" body s] items_message [OF assms]
    by (simp add: ff_new_def)
qed

section \<open>Properties\<close>

text \<open>C20. Iterating over a message succeeds exactly on the concatenations of serialized fields, and
  yields those fields in order; so serializing what was read gives the input again, and no input has
  two readings.\<close>

theorem field_iteration_exact:
  "items (pfi_new data) = (fs, Inr ()) \<longleftrightarrow>
   list_all wire_field fs \<and> data = concat (map (serialize_field []) fs)"
  by (rule items_new)

text \<open>C21. Every field that the iterator yields is well typed: its number has 29 bits and is not 0, its
  value is of its wire type, a length has 32 bits.  The iterator stands behind the field's bytes and
  within the input.  After an error it yields nothing.\<close>

theorem next_field_typed:
  assumes "it_pos it \<le> length (it_data it)" and "pfi_next it = (Some r, it')"
  shows "(case r of
      Inr f \<Rightarrow> wire_field f \<and> it_data it' = it_data it \<and> it_pos it' \<le> length (it_data it) \<and>
        take (it_pos it') (it_data it) = take (it_pos it) (it_data it) @ serialize_field [] f
    | Inl e \<Rightarrow> it_errored it' \<and> pfi_next it' = (None, it'))"
proof (cases r)
  case (Inl e)
  then show ?thesis using assms(2) pfi_next_fused [OF assms(2)] pfi_field_err [of it e it']
    by (auto simp: pfi_next_def split: if_splits prod.splits)
next
  case (Inr f)
  then have at: "iter_at (drop (it_pos it) (it_data it)) it"
    using assms by (auto simp: iter_at_def pfi_next_def split: if_splits)
  obtain rest where f: "wire_field f" "drop (it_pos it) (it_data it) = field_bytes f @ rest"
    "it' = pfi_advance (length (field_bytes f)) it"
    using iter_at_next [OF at, of f it'] assms(2) Inr by auto
  have "iter_at rest it'" using at f iter_at_advance by simp
  then show ?thesis using f Inr by (auto simp: iter_at_def pfi_advance_def take_add)
qed

lemma next_field_typed_witness:
  "wire_field \<lparr>pf_number = 1, pf_wire_type = WVarint, pf_value = VVarint 150\<rparr>"
proof -
  have "pfi_next (pfi_new [0x08, 0x96, 0x01]) =
    (Some (Inr \<lparr>pf_number = 1, pf_wire_type = WVarint, pf_value = VVarint 150\<rparr>),
     \<lparr>it_data = [0x08, 0x96, 0x01], it_pos = 3, it_errored = False\<rparr>)"
    by code_simp
  from next_field_typed [OF _ this] show ?thesis by (simp add: pfi_new_def)
qed

end
