(* ===== verification/MessageWriter.thy ===== *)
theory MessageWriter
  imports FieldIter
begin

text \<open>
  \<^verbatim>\<open>riegeli/src/proto/writer.rs\<close>: the builder of serialized messages, with nested scopes whose length is
  inserted when they are closed; and \<open>copy_fields\<close> of \<^verbatim>\<open>proto/field_iter.rs\<close>, which writes to it.
  The vectors hold their contents only; a capacity has no effect.  Values of type \<open>f32\<close> and \<open>f64\<close> are
  their bit patterns, a \<open>str\<close> is its bytes.
\<close>

section \<open>The writer\<close>

definition MAX_LENGTH_DELIMITED :: nat where "MAX_LENGTH_DELIMITED = 2 ^ 31 - 1"

record SerializedMessageWriter =
  mw_buf :: bytes
  mw_scope_stack :: "nat list" \<comment> \<open>the top of the stack first\<close>

definition mw_new :: SerializedMessageWriter where
  "mw_new = \<lparr>mw_buf = [], mw_scope_stack = []\<rparr>"

definition mw_with_capacity :: "nat \<Rightarrow> SerializedMessageWriter" where
  "mw_with_capacity capacity = \<lparr>mw_buf = [], mw_scope_stack = []\<rparr>"

definition as_bytes :: "SerializedMessageWriter \<Rightarrow> bytes" where
  "as_bytes w = mw_buf w"

definition finish :: "SerializedMessageWriter \<Rightarrow> bytes res" where
  "finish w =
     (if mw_scope_stack w \<noteq> [] then Inl (MalformedData ''finish() called with unclosed length-delimited scopes'')
      else Inr (mw_buf w))"

text \<open>Appending to the buffer always succeeds.\<close>

definition append_with :: "(bytes \<Rightarrow> bytes) \<Rightarrow> (SerializedMessageWriter, unit) action" where
  "append_with f w = (Inr (), w\<lparr>mw_buf := f (mw_buf w)\<rparr>)"

definition write_uint64 :: "u32 \<Rightarrow> u64 \<Rightarrow> (SerializedMessageWriter, unit) action" where
  "write_uint64 n v = append_with (\<lambda>buf. encode_varint64 (encode_tag buf n WVarint) v)"

definition write_uint32 :: "u32 \<Rightarrow> u32 \<Rightarrow> (SerializedMessageWriter, unit) action" where
  "write_uint32 n v = append_with (\<lambda>buf. encode_varint64 (encode_tag buf n WVarint) (ucast v))"

definition write_int64 :: "u32 \<Rightarrow> 64 word \<Rightarrow> (SerializedMessageWriter, unit) action" where
  "write_int64 n v = append_with (\<lambda>buf. encode_varint64 (encode_tag buf n WVarint) v)"

text \<open>\<open>value as i64 as u64\<close> extends the sign.\<close>

definition write_int32 :: "u32 \<Rightarrow> 32 word \<Rightarrow> (SerializedMessageWriter, unit) action" where
  "write_int32 n v = append_with (\<lambda>buf. encode_varint64 (encode_tag buf n WVarint) (scast v))"

definition write_sint32 :: "u32 \<Rightarrow> 32 word \<Rightarrow> (SerializedMessageWriter, unit) action" where
  "write_sint32 n v = append_with (\<lambda>buf. encode_varint64 (encode_tag buf n WVarint) (ucast (zigzag_encode_i32 v)))"

definition write_sint64 :: "u32 \<Rightarrow> 64 word \<Rightarrow> (SerializedMessageWriter, unit) action" where
  "write_sint64 n v = append_with (\<lambda>buf. encode_varint64 (encode_tag buf n WVarint) (zigzag_encode_i64 v))"

definition write_bool :: "u32 \<Rightarrow> bool \<Rightarrow> (SerializedMessageWriter, unit) action" where
  "write_bool n v = append_with (\<lambda>buf. encode_varint64 (encode_tag buf n WVarint) (if v then 1 else 0))"

definition write_fixed32 :: "u32 \<Rightarrow> u32 \<Rightarrow> (SerializedMessageWriter, unit) action" where
  "write_fixed32 n v = append_with (\<lambda>buf. encode_tag buf n Fixed32 @ to_le 4 v)"

definition write_fixed64 :: "u32 \<Rightarrow> u64 \<Rightarrow> (SerializedMessageWriter, unit) action" where
  "write_fixed64 n v = append_with (\<lambda>buf. encode_tag buf n Fixed64 @ to_le_bytes v)"

definition write_sfixed32 :: "u32 \<Rightarrow> 32 word \<Rightarrow> (SerializedMessageWriter, unit) action" where
  "write_sfixed32 n v = append_with (\<lambda>buf. encode_tag buf n Fixed32 @ to_le 4 v)"

definition write_sfixed64 :: "u32 \<Rightarrow> 64 word \<Rightarrow> (SerializedMessageWriter, unit) action" where
  "write_sfixed64 n v = append_with (\<lambda>buf. encode_tag buf n Fixed64 @ to_le_bytes v)"

definition write_float :: "u32 \<Rightarrow> u32 \<Rightarrow> (SerializedMessageWriter, unit) action" where
  "write_float n bits = append_with (\<lambda>buf. encode_tag buf n Fixed32 @ to_le 4 bits)"

definition write_double :: "u32 \<Rightarrow> u64 \<Rightarrow> (SerializedMessageWriter, unit) action" where
  "write_double n bits = append_with (\<lambda>buf. encode_tag buf n Fixed64 @ to_le_bytes bits)"

abbreviation "too_long \<equiv> MalformedData ''length-delimited field length exceeds 2 GiB limit''"

definition write_bytes :: "u32 \<Rightarrow> bytes \<Rightarrow> (SerializedMessageWriter, unit) action" where
  "write_bytes n d =
     (if MAX_LENGTH_DELIMITED < length d then fail_with too_long
      else append_with (\<lambda>buf. encode_varint32 (encode_tag buf n LengthDelimited) (of_nat (length d)) @ d))"

definition write_string :: "u32 \<Rightarrow> bytes \<Rightarrow> (SerializedMessageWriter, unit) action" where
  "write_string n s = write_bytes n s"

definition open_length_delimited :: "u32 \<Rightarrow> (SerializedMessageWriter, unit) action" where
  "open_length_delimited n w =
     (let w = w\<lparr>mw_buf := encode_tag (mw_buf w) n LengthDelimited\<rparr>
      in (Inr (), w\<lparr>mw_scope_stack := length (mw_buf w) # mw_scope_stack w\<rparr>))"

text \<open>A saved position is never beyond the buffer, so the difference does not underflow.\<close>

definition close_length_delimited :: "(SerializedMessageWriter, unit) action" where
  "close_length_delimited w =
     (case mw_scope_stack w of
        [] \<Rightarrow> (Inl (MalformedData ''close_length_delimited() called without matching open''), w)
      | content_start # scopes \<Rightarrow>
          let content_len = length (mw_buf w) - content_start
          in if MAX_LENGTH_DELIMITED < content_len then (Inl too_long, w)
             else
               let len_varint = encode_varint32 [] (of_nat content_len)
               in (Inr (), w\<lparr>mw_scope_stack := scopes,
                     mw_buf := take content_start (mw_buf w) @ len_varint @ drop content_start (mw_buf w)\<rparr>))"

definition write_start_group :: "u32 \<Rightarrow> (SerializedMessageWriter, unit) action" where
  "write_start_group n = append_with (\<lambda>buf. encode_tag buf n StartGroup)"

definition write_end_group :: "u32 \<Rightarrow> (SerializedMessageWriter, unit) action" where
  "write_end_group n = append_with (\<lambda>buf. encode_tag buf n EndGroup)"

definition write_field :: "ProtoField \<Rightarrow> (SerializedMessageWriter, unit) action" where
  "write_field field = append_with (\<lambda>buf. serialize_field buf field)"

definition copy_fields :: "bytes \<Rightarrow> u32 list \<Rightarrow> (SerializedMessageWriter, unit) action" where
  "copy_fields src field_numbers = for_filtered write_field (ff_new src field_numbers)"

section \<open>Messages written scope by scope\<close>

text \<open>A message whose submessages are written in scopes, and what is to come out.\<close>

datatype entry = Entry ProtoField | Scope u32 "entry list"

fun entry_field :: "entry \<Rightarrow> ProtoField" where
  "entry_field (Entry f) = f"
| "entry_field (Scope n es) =
     \<lparr>pf_number = n, pf_wire_type = LengthDelimited,
      pf_value = VLengthDelimited (concat (map (\<lambda>e. field_bytes (entry_field e)) es))\<rparr>"

abbreviation "entries_bytes es \<equiv> concat (map (\<lambda>e. field_bytes (entry_field e)) es)"

fun write_entry :: "entry \<Rightarrow> (SerializedMessageWriter, unit) action" where
  "write_entry (Entry f) = write_field f"
| "write_entry (Scope n es) =
     then_do (open_length_delimited n)
       (\<lambda>_. then_do (run_list write_entry es (Inr ())) (\<lambda>_. close_length_delimited))"

text \<open>The contents of every scope are within the limit.\<close>

fun entry_fits :: "entry \<Rightarrow> bool" where
  "entry_fits (Entry f) \<longleftrightarrow> True"
| "entry_fits (Scope n es) \<longleftrightarrow> length (entries_bytes es) \<le> MAX_LENGTH_DELIMITED \<and> list_all entry_fits es"

lemma write_field_eq: "write_field f w = (Inr (), w\<lparr>mw_buf := mw_buf w @ field_bytes f\<rparr>)"
  unfolding write_field_def append_with_def by (subst serialize_field_append) simp

lemma write_fields: "run_list write_field fs (Inr ()) w = (Inr (), w\<lparr>mw_buf := mw_buf w @ concat (map field_bytes fs)\<rparr>)"
  by (induction fs arbitrary: w) (simp_all add: write_field_eq then_do_def)

lemma run_list_cases:
  "run_list write_entry (e # es) (Inr ()) w = (case write_entry e w of (Inl x, w') \<Rightarrow> (Inl x, w')
     | (Inr _, w') \<Rightarrow> run_list write_entry es (Inr ()) w')"
  by (simp add: then_do_def split: prod.split sum.split)

text \<open>
  Scopes that fit come out as fields.  A scope that does not fit stays open: it is an error, and so is
  finishing the message.
\<close>

definition written :: "SerializedMessageWriter \<Rightarrow> bytes \<Rightarrow> bool \<Rightarrow> unit res \<times> SerializedMessageWriter \<Rightarrow> bool" where
  "written w bs ok out \<longleftrightarrow>
     (if ok then out = (Inr (), w\<lparr>mw_buf := mw_buf w @ bs\<rparr>)
      else \<exists>w'. out = (Inl too_long, w') \<and> mw_scope_stack w' \<noteq> [])"

lemma write_entry_written:
  "written w (field_bytes (entry_field e)) (entry_fits e) (write_entry e w)"
proof (induction e arbitrary: w)
  case (Entry f)
  then show ?case by (simp add: written_def write_field_eq)
next
  case (Scope n es)
  let ?tag = "encode_tag (mw_buf w) n LengthDelimited"
  let ?w = "w\<lparr>mw_buf := ?tag, mw_scope_stack := length ?tag # mw_scope_stack w\<rparr>"
  have open_eq: "open_length_delimited n w = (Inr (), ?w)" by (simp add: open_length_delimited_def)
  have "written v (entries_bytes ds) (list_all entry_fits ds) (run_list write_entry ds (Inr ()) v)"
    if "set ds \<subseteq> set es" for ds v
    using that
  proof (induction ds arbitrary: v)
    case (Cons d ds)
    then have d: "written v (field_bytes (entry_field d)) (entry_fits d) (write_entry d v)" using Scope by simp
    show ?case
    proof (cases "entry_fits d")
      case True
      with d Cons show ?thesis unfolding run_list_cases by (fastforce simp: written_def split: if_splits)
    next
      case False
      with d show ?thesis unfolding run_list_cases by (auto simp: written_def)
    qed
  qed (simp add: written_def)
  then have body: "written ?w (entries_bytes es) (list_all entry_fits es) (run_list write_entry es (Inr ()) ?w)" by simp
  show ?case
  proof (cases "list_all entry_fits es")
    case True
    with body have "run_list write_entry es (Inr ()) ?w = (Inr (), ?w\<lparr>mw_buf := ?tag @ entries_bytes es\<rparr>)"
      by (simp add: written_def)
    then have "write_entry (Scope n es) w = close_length_delimited (?w\<lparr>mw_buf := ?tag @ entries_bytes es\<rparr>)"
      using open_eq by (simp add: then_do_def)
    then show ?thesis using True
      by (auto simp: written_def close_length_delimited_def Let_def serialize_field_def encode_varint32_def encode_tag_def)
  next
    case False
    with body open_eq show ?thesis by (auto simp: written_def then_do_def)
  qed
qed

lemma write_entries_written:
  "written w (entries_bytes es) (list_all entry_fits es) (run_list write_entry es (Inr ()) w)"
proof (induction es arbitrary: w)
  case (Cons e es)
  note e = write_entry_written [of w e]
  show ?case
  proof (cases "entry_fits e")
    case True
    with e Cons show ?thesis unfolding run_list_cases by (fastforce simp: written_def split: if_splits)
  next
    case False
    with e show ?thesis unfolding run_list_cases by (auto simp: written_def)
  qed
qed (simp add: written_def)

section \<open>Properties\<close>

text \<open>C22. Copying fields out of a message keeps exactly the top-level fields and groups with an allowed
  number, each whole and in order, and what is written is again a message.\<close>

theorem copy_fields_keeps:
  assumes "is_proto_message src"
  shows "\<exists>ns. list_all node_ok ns \<and> src = message_bytes ns \<and>
    (let out = message_bytes (filter (\<lambda>n. node_number n \<in> set field_numbers) ns)
     in copy_fields src field_numbers w = (Inr (), w\<lparr>mw_buf := mw_buf w @ out\<rparr>) \<and> is_proto_message out)"
proof -
  obtain ns where ns: "list_all node_ok ns" "src = message_bytes ns"
    using assms by (auto simp: is_proto_message_tree)
  let ?ms = "filter (\<lambda>n. node_number n \<in> set field_numbers) ns"
  have "list_all node_ok ?ms" using ns(1) by (simp add: list_all_iff)
  then have "is_proto_message (message_bytes ?ms)" by (auto simp: is_proto_message_tree)
  moreover have "copy_fields src field_numbers w = (Inr (), w\<lparr>mw_buf := mw_buf w @ message_bytes ?ms\<rparr>)"
    unfolding copy_fields_def ns(2) by (simp add: for_filtered_message [OF ns(1)] write_fields) (simp add: message_bytes_def)
  ultimately show ?thesis using ns unfolding Let_def by blast
qed

text \<open>Fields 1 and 2 around a group 3 that holds another field 1.\<close>

definition sample_message :: bytes where
  "sample_message = [0x08, 0x07, 0x1b, 0x08, 0x05, 0x1c, 0x10, 0x09]"

lemma copy_fields_keeps_witness:
  "\<exists>ns. sample_message = message_bytes ns \<and>
    fst (copy_fields sample_message [1] mw_new) = Inr () \<and>
    mw_buf (snd (copy_fields sample_message [1] mw_new)) =
      message_bytes (filter (\<lambda>n. node_number n \<in> {1}) ns)"
proof -
  have "is_proto_message sample_message" by code_simp
  from copy_fields_keeps [OF this, of "[1]" mw_new] show ?thesis
    by (auto simp: Let_def mw_new_def)
qed

text \<open>C23. A message written scope by scope is the serialization of its fields, every scope with the
  length of its contents, and it is read back as these fields.  When some scope exceeds the limit,
  writing fails and the message cannot be finished.\<close>

theorem scopes_write_fields:
  assumes "list_all wire_field (map entry_field es)"
  shows "case run_list write_entry es (Inr ()) mw_new of (r, w) \<Rightarrow>
    if list_all entry_fits es
    then r = Inr () \<and> finish w = Inr (entries_bytes es) \<and>
         items (pfi_new (entries_bytes es)) = (map entry_field es, Inr ())
    else r = Inl too_long \<and> (\<exists>e. finish w = Inl e)"
  using write_entries_written [of mw_new es] assms
  by (auto simp: written_def mw_new_def finish_def items_new comp_def split: if_splits)

definition sample_entries :: "entry list" where
  "sample_entries =
     [Scope 1 [Entry \<lparr>pf_number = 2, pf_wire_type = WVarint, pf_value = VVarint 150\<rparr>, Scope 3 []]]"

lemma scopes_write_fields_witness:
  "case run_list write_entry sample_entries (Inr ()) mw_new of (r, w) \<Rightarrow>
    r = Inr () \<and> finish w = Inr [0x0a, 0x05, 0x10, 0x96, 0x01, 0x1a, 0x00]"
proof -
  have "list_all wire_field (map entry_field sample_entries)" "list_all entry_fits sample_entries"
    "entries_bytes sample_entries = [0x0a, 0x05, 0x10, 0x96, 0x01, 0x1a, 0x00]"
    by (simp_all add: sample_entries_def wire_field_def MAX_LENGTH_DELIMITED_def serialize_field_def
        encode_tag_def encode_varint32_def encode_varint64_def make_tag_def encode_u32_def encode_u64.simps)
  with scopes_write_fields [of sample_entries] show ?thesis by (auto split: prod.splits)
qed

text \<open>The typed methods write the field of the documented wire type: signed 32-bit values are
  extended with their sign, zigzag values interleave the signs, and bytes beyond 2 GiB are refused
  with nothing written.\<close>

theorem typed_writes:
  "write_uint64 n x = write_field \<lparr>pf_number = n, pf_wire_type = WVarint, pf_value = VVarint x\<rparr> \<and>
   write_uint32 n u = write_field \<lparr>pf_number = n, pf_wire_type = WVarint, pf_value = VVarint (of_nat (unat u))\<rparr> \<and>
   write_int64 n x = write_field \<lparr>pf_number = n, pf_wire_type = WVarint, pf_value = VVarint (of_int (sint x))\<rparr> \<and>
   write_int32 n i = write_field \<lparr>pf_number = n, pf_wire_type = WVarint, pf_value = VVarint (of_int (sint i))\<rparr> \<and>
   write_sint32 n i = write_field \<lparr>pf_number = n, pf_wire_type = WVarint, pf_value = VVarint (of_int (zigzag (sint i)))\<rparr> \<and>
   write_sint64 n x = write_field \<lparr>pf_number = n, pf_wire_type = WVarint, pf_value = VVarint (of_int (zigzag (sint x)))\<rparr> \<and>
   write_bool n b = write_field \<lparr>pf_number = n, pf_wire_type = WVarint, pf_value = VVarint (of_bool b)\<rparr> \<and>
   write_fixed32 n u = write_field \<lparr>pf_number = n, pf_wire_type = Fixed32, pf_value = VFixed32 u\<rparr> \<and>
   write_fixed64 n x = write_field \<lparr>pf_number = n, pf_wire_type = Fixed64, pf_value = VFixed64 x\<rparr> \<and>
   write_bytes n d w =
     (if 2 ^ 31 \<le> length d then (Inl too_long, w)
      else write_field \<lparr>pf_number = n, pf_wire_type = LengthDelimited, pf_value = VLengthDelimited d\<rparr> w) \<and>
   write_string n d w = write_bytes n d w"
proof -
  have field: "append_with (\<lambda>buf. serialize_value (encode_tag buf n t) v) =
      write_field \<lparr>pf_number = n, pf_wire_type = t, pf_value = v\<rparr>" for t v
    by (simp add: write_field_def serialize_field_def)
  have z32: "(ucast (zigzag_encode_i32 i) :: u64) = of_int (zigzag (sint i))"
    using zigzag_word [of i] by (simp add: zigzag_encode_i32_def ucast_eq)
  have z64: "zigzag_encode_i64 x = of_int (zigzag (sint x))"
    using zigzag_word [of x] word_of_int_uint [of "zigzag_encode_i64 x"] by (simp add: zigzag_encode_i64_def)
  have ext: "(ucast u :: u64) = of_nat (unat u)" "(scast i :: u64) = of_int (sint i)" "of_int (sint x) = x"
    by (simp_all only: of_nat_unat of_int_sint signed_scast_eq scast_id id_def)
  have bool: "(if b then 1 else 0 :: u64) = of_bool b" by simp
  have long: "MAX_LENGTH_DELIMITED < length d \<longleftrightarrow> 2 ^ 31 \<le> length d" by (auto simp: MAX_LENGTH_DELIMITED_def)
  show ?thesis
    unfolding field [symmetric] write_uint64_def write_uint32_def write_int64_def write_int32_def write_sint32_def
      write_sint64_def write_bool_def write_fixed32_def write_fixed64_def write_bytes_def write_string_def
      z32 z64 ext bool long serialize_value.simps
    by (simp only: fail_with_def if_distribR simp_thms if_distrib [where f = "\<lambda>f. f w"])
qed

end
