(* ===== verification/Handlers.thy ===== *)
theory Handlers
  imports FieldIter
begin

text \<open>
  \<^verbatim>\<open>riegeli/src/proto/handler.rs\<close>: reading a message by handlers.  The trait \<open>FieldHandler\<close> is the record
  of its constant and methods over the handler's state; a set of handlers dispatches a field, as an
  action on the state of the set.  The closures of a dynamic set act on a state of their own choice.
\<close>

section \<open>Static sets\<close>

record 'h FieldHandler =
  FIELD_NUMBER :: u32
  handle_varint :: "u64 \<Rightarrow> ('h, unit) action"
  handle_fixed32 :: "u32 \<Rightarrow> ('h, unit) action"
  handle_fixed64 :: "u64 \<Rightarrow> ('h, unit) action"
  handle_length_delimited :: "bytes \<Rightarrow> ('h, unit) action"
  handle_start_group :: "('h, unit) action"
  handle_end_group :: "('h, unit) action"

text \<open>The methods a handler does not override skip the field.\<close>

definition default_handler :: "u32 \<Rightarrow> 'h FieldHandler" where
  "default_handler n =
     \<lparr>FIELD_NUMBER = n, handle_varint = (\<lambda>_. ret ()), handle_fixed32 = (\<lambda>_. ret ()), handle_fixed64 = (\<lambda>_. ret ()),
      handle_length_delimited = (\<lambda>_. ret ()), handle_start_group = ret (), handle_end_group = ret ()\<rparr>"

fun handle_value :: "'h FieldHandler \<Rightarrow> FieldValue \<Rightarrow> ('h, unit) action" where
  "handle_value H (VVarint v) = handle_varint H v"
| "handle_value H (VFixed32 v) = handle_fixed32 H v"
| "handle_value H (VFixed64 v) = handle_fixed64 H v"
| "handle_value H (VLengthDelimited d) = handle_length_delimited H d"
| "handle_value H VStartGroup = handle_start_group H"
| "handle_value H VEndGroup = handle_end_group H"

definition dispatch_to_handler :: "'h FieldHandler \<Rightarrow> ProtoField \<Rightarrow> ('h, bool) action" where
  "dispatch_to_handler H field =
     (if pf_number field \<noteq> FIELD_NUMBER H then ret False
      else then_do (handle_value H (pf_value field)) (\<lambda>_. ret True))"

text \<open>An action on a part of a state.\<close>

definition on_part :: "('s \<Rightarrow> 'h) \<Rightarrow> ('h \<Rightarrow> 's \<Rightarrow> 's) \<Rightarrow> ('h, 'a) action \<Rightarrow> ('s, 'a) action" where
  "on_part part put m s = (case m (part s) of (r, h) \<Rightarrow> (r, put h s))"

record 'a StaticHandlerSet1 =
  set1_h1 :: 'a

record ('a, 'b) StaticHandlerSet2 =
  set2_h1 :: 'a
  set2_h2 :: 'b

record ('a, 'b, 'c) StaticHandlerSet3 =
  set3_h1 :: 'a
  set3_h2 :: 'b
  set3_h3 :: 'c

definition handler_set_new :: "'a \<Rightarrow> 'a StaticHandlerSet1" where
  "handler_set_new h1 = \<lparr>set1_h1 = h1\<rparr>"

definition set1_and :: "'a StaticHandlerSet1 \<Rightarrow> 'b \<Rightarrow> ('a, 'b) StaticHandlerSet2" where
  "set1_and s h2 = \<lparr>set2_h1 = set1_h1 s, set2_h2 = h2\<rparr>"

definition set2_and :: "('a, 'b) StaticHandlerSet2 \<Rightarrow> 'c \<Rightarrow> ('a, 'b, 'c) StaticHandlerSet3" where
  "set2_and s h3 = \<lparr>set3_h1 = set2_h1 s, set3_h2 = set2_h2 s, set3_h3 = h3\<rparr>"

text \<open>The first handler that takes the field has it.\<close>

definition or_else :: "('s, bool) action \<Rightarrow> ('s, bool) action \<Rightarrow> ('s, bool) action" where
  "or_else m k = then_do m (\<lambda>handled. if handled then ret True else k)"

definition dispatch1 :: "'a FieldHandler \<Rightarrow> ProtoField \<Rightarrow> ('a StaticHandlerSet1, bool) action" where
  "dispatch1 H1 field = on_part set1_h1 (\<lambda>h s. s\<lparr>set1_h1 := h\<rparr>) (dispatch_to_handler H1 field)"

definition dispatch2 ::
  "'a FieldHandler \<Rightarrow> 'b FieldHandler \<Rightarrow> ProtoField \<Rightarrow> (('a, 'b) StaticHandlerSet2, bool) action" where
  "dispatch2 H1 H2 field =
     or_else (on_part set2_h1 (\<lambda>h s. s\<lparr>set2_h1 := h\<rparr>) (dispatch_to_handler H1 field))
       (on_part set2_h2 (\<lambda>h s. s\<lparr>set2_h2 := h\<rparr>) (dispatch_to_handler H2 field))"

definition dispatch3 ::
  "'a FieldHandler \<Rightarrow> 'b FieldHandler \<Rightarrow> 'c FieldHandler \<Rightarrow> ProtoField \<Rightarrow> (('a, 'b, 'c) StaticHandlerSet3, bool) action" where
  "dispatch3 H1 H2 H3 field =
     or_else (on_part set3_h1 (\<lambda>h s. s\<lparr>set3_h1 := h\<rparr>) (dispatch_to_handler H1 field))
       (or_else (on_part set3_h2 (\<lambda>h s. s\<lparr>set3_h2 := h\<rparr>) (dispatch_to_handler H2 field))
          (on_part set3_h3 (\<lambda>h s. s\<lparr>set3_h3 := h\<rparr>) (dispatch_to_handler H3 field)))"

section \<open>Dynamic sets\<close>

type_synonym 's DynamicHandlerSet = "u32 \<times> u8 \<Rightarrow> (FieldValue \<Rightarrow> ('s, unit) action) option"

definition wire_type_u8 :: "WireType \<Rightarrow> u8" where
  "wire_type_u8 w = ucast (wire_type_raw w)"

definition dynamic_new :: "'s DynamicHandlerSet" where
  "dynamic_new = (\<lambda>_. None)"

definition on_varint :: "u32 \<Rightarrow> (u64 \<Rightarrow> ('s, unit) action) \<Rightarrow> 's DynamicHandlerSet \<Rightarrow> 's DynamicHandlerSet" where
  "on_varint n f d = d((n, wire_type_u8 WVarint) \<mapsto> (\<lambda>value. case value of VVarint v \<Rightarrow> f v | _ \<Rightarrow> ret ()))"

definition on_fixed32 :: "u32 \<Rightarrow> (u32 \<Rightarrow> ('s, unit) action) \<Rightarrow> 's DynamicHandlerSet \<Rightarrow> 's DynamicHandlerSet" where
  "on_fixed32 n f d = d((n, wire_type_u8 Fixed32) \<mapsto> (\<lambda>value. case value of VFixed32 v \<Rightarrow> f v | _ \<Rightarrow> ret ()))"

definition on_fixed64 :: "u32 \<Rightarrow> (u64 \<Rightarrow> ('s, unit) action) \<Rightarrow> 's DynamicHandlerSet \<Rightarrow> 's DynamicHandlerSet" where
  "on_fixed64 n f d = d((n, wire_type_u8 Fixed64) \<mapsto> (\<lambda>value. case value of VFixed64 v \<Rightarrow> f v | _ \<Rightarrow> ret ()))"

definition on_length_delimited :: "u32 \<Rightarrow> (bytes \<Rightarrow> ('s, unit) action) \<Rightarrow> 's DynamicHandlerSet \<Rightarrow> 's DynamicHandlerSet" where
  "on_length_delimited n f d =
     d((n, wire_type_u8 LengthDelimited) \<mapsto> (\<lambda>value. case value of VLengthDelimited x \<Rightarrow> f x | _ \<Rightarrow> ret ()))"

definition on_start_group :: "u32 \<Rightarrow> ('s, unit) action \<Rightarrow> 's DynamicHandlerSet \<Rightarrow> 's DynamicHandlerSet" where
  "on_start_group n f d = d((n, wire_type_u8 StartGroup) \<mapsto> (\<lambda>value. case value of VStartGroup \<Rightarrow> f | _ \<Rightarrow> ret ()))"

definition on_end_group :: "u32 \<Rightarrow> ('s, unit) action \<Rightarrow> 's DynamicHandlerSet \<Rightarrow> 's DynamicHandlerSet" where
  "on_end_group n f d = d((n, wire_type_u8 EndGroup) \<mapsto> (\<lambda>value. case value of VEndGroup \<Rightarrow> f | _ \<Rightarrow> ret ()))"

definition dynamic_dispatch :: "'s DynamicHandlerSet \<Rightarrow> ProtoField \<Rightarrow> ('s, bool) action" where
  "dynamic_dispatch d field =
     (let key = (pf_number field, wire_type_u8 (pf_wire_type field))
      in case d key of
           Some handler \<Rightarrow> then_do (handler (pf_value field)) (\<lambda>_. ret True)
         | None \<Rightarrow> ret False)"

definition empty_dispatch :: "ProtoField \<Rightarrow> ('s, bool) action" where
  "empty_dispatch field = ret False"

section \<open>Reading a message\<close>

definition read_message :: "bytes \<Rightarrow> (ProtoField \<Rightarrow> ('s, bool) action) \<Rightarrow> ('s, unit) action" where
  "read_message data dispatch = for_fields (\<lambda>field. then_do (dispatch field) (\<lambda>_. ret ())) (pfi_new data)"

text \<open>Its meaning: the handlers run on the fields in order, and then the message ends or is malformed.\<close>

abbreviation "handling dispatch \<equiv> \<lambda>field. then_do (dispatch field) (\<lambda>_. ret ())"

lemma read_message_items:
  "read_message data dispatch s = (case items (pfi_new data) of (fs, r) \<Rightarrow> run_list (handling dispatch) fs r s)"
  by (simp add: read_message_def for_fields_items split: prod.split)

lemma read_message_cong:
  assumes "\<And>field. wire_field field \<Longrightarrow> dispatch field = dispatch' field"
  shows "read_message data dispatch = read_message data dispatch'"
proof
  fix s
  have "list_all wire_field (fst (items (pfi_new data)))" using items_front [OF iter_at_new] by blast
  then have "run_list (handling dispatch) (fst (items (pfi_new data))) r = run_list (handling dispatch') (fst (items (pfi_new data))) r" for r
    using assms by (intro run_list_cong) (auto simp: list_all_iff)
  then show "read_message data dispatch s = read_message data dispatch' s"
    by (cases "items (pfi_new data)") (simp add: read_message_items)
qed

section \<open>Static and dynamic sets agree\<close>

text \<open>A handler as closures, and on a part of a larger state.\<close>

definition register :: "'s FieldHandler \<Rightarrow> 's DynamicHandlerSet \<Rightarrow> 's DynamicHandlerSet" where
  "register H d =
     (let n = FIELD_NUMBER H
      in on_varint n (handle_varint H) (on_fixed32 n (handle_fixed32 H) (on_fixed64 n (handle_fixed64 H)
         (on_length_delimited n (handle_length_delimited H) (on_start_group n (handle_start_group H)
         (on_end_group n (handle_end_group H) d))))))"

definition handler_on :: "('s \<Rightarrow> 'h) \<Rightarrow> ('h \<Rightarrow> 's \<Rightarrow> 's) \<Rightarrow> 'h FieldHandler \<Rightarrow> 's FieldHandler" where
  "handler_on part put H =
     (let on = (\<lambda>m. on_part part put m)
      in \<lparr>FIELD_NUMBER = FIELD_NUMBER H, handle_varint = (\<lambda>v. on (handle_varint H v)),
          handle_fixed32 = (\<lambda>v. on (handle_fixed32 H v)), handle_fixed64 = (\<lambda>v. on (handle_fixed64 H v)),
          handle_length_delimited = (\<lambda>d. on (handle_length_delimited H d)),
          handle_start_group = on (handle_start_group H), handle_end_group = on (handle_end_group H)\<rparr>)"

lemma handle_value_on: "handle_value (handler_on part put H) v = on_part part put (handle_value H v)"
  by (cases v) (simp_all add: handler_on_def Let_def)

lemma dispatch_to_handler_on:
  assumes "\<And>s. put (part s) s = s"
  shows "dispatch_to_handler (handler_on part put H) field = on_part part put (dispatch_to_handler H field)"
proof
  fix s
  have "FIELD_NUMBER (handler_on part put H) = FIELD_NUMBER H" by (simp add: handler_on_def Let_def)
  then show "dispatch_to_handler (handler_on part put H) field s = on_part part put (dispatch_to_handler H field) s"
    using assms by (auto simp: dispatch_to_handler_def handle_value_on on_part_def then_do_def ret_def split: prod.split sum.split)
qed

lemma wire_type_u8_inj: "wire_type_u8 v = wire_type_u8 w \<longleftrightarrow> v = w"
  by (cases v; cases w) (simp_all add: wire_type_u8_def)

lemma register_dispatch:
  assumes "value_fits (pf_wire_type field) (pf_value field)"
  shows "dynamic_dispatch (register H d) field =
    or_else (dispatch_to_handler H field) (dynamic_dispatch d field)"
proof (cases "pf_number field = FIELD_NUMBER H")
  case True
  have "or_else (dispatch_to_handler H field) k = then_do (handle_value H (pf_value field)) (\<lambda>_. ret True)" for k
    using True by (auto simp: or_else_def dispatch_to_handler_def then_do_def ret_def fun_eq_iff split: prod.split sum.split)
  then show ?thesis using assms True
    by (cases "pf_value field")
       (auto simp: dynamic_dispatch_def register_def Let_def on_varint_def on_fixed32_def on_fixed64_def
         on_length_delimited_def on_start_group_def on_end_group_def wire_type_u8_inj)
next
  case False
  then have "register H d (pf_number field, w) = d (pf_number field, w)" for w
    by (simp add: register_def Let_def on_varint_def on_fixed32_def on_fixed64_def on_length_delimited_def
        on_start_group_def on_end_group_def)
  with False show ?thesis
    by (simp add: dynamic_dispatch_def or_else_def dispatch_to_handler_def then_do_def ret_def fun_eq_iff Let_def)
qed

section \<open>Properties\<close>

text \<open>Reading a message dispatches its fields in order until a handler fails, whose error is
  returned with the state at that point; a malformed message fails after the fields in front of the
  malformation were dispatched.  Without handlers it accepts exactly the well-formed messages.\<close>

theorem read_message_dispatches:
  "(\<exists>fs r rest. data = concat (map (serialize_field []) fs) @ rest \<and> list_all wire_field fs \<and>
      (r = Inr () \<longleftrightarrow> rest = []) \<and>
      (\<forall>s. read_message data dispatch s = run_list (\<lambda>f. then_do (dispatch f) (\<lambda>_. ret ())) fs r s)) \<and>
   (fst (read_message data empty_dispatch s) = Inr () \<longleftrightarrow>
      (\<exists>fs. list_all wire_field fs \<and> data = concat (map (serialize_field []) fs)))"
proof -
  obtain fs r where i: "items (pfi_new data) = (fs, r)" by fastforce
  obtain rest where f: "list_all wire_field fs" "data = concat (map field_bytes fs) @ rest"
    using items_front [OF iter_at_new, of data] i by auto
  have "r = Inr () \<longleftrightarrow> rest = []"
    using items_new [of data fs] i f by auto
  moreover have "read_message data dispatch s = run_list (handling dispatch) fs r s" for s
    using i by (simp add: read_message_items)
  moreover have "run_list (handling empty_dispatch) fs r s = (r, s)"
    by (induction fs) (simp_all add: empty_dispatch_def then_do_def ret_def)
  then have "fst (read_message data empty_dispatch s) = Inr () \<longleftrightarrow> r = Inr ()"
    using i by (simp add: read_message_items)
  moreover have "r = Inr () \<longleftrightarrow> (\<exists>fs. list_all wire_field fs \<and> data = concat (map field_bytes fs))"
    using items_new [of data] i by (metis prod.inject)
  ultimately show ?thesis using f by blast
qed

text \<open>C24. A static set reads every message as the dynamic set in which its handlers are registered, the
  last one first: the first handler of a static set wins, and the last closure registered for a key.\<close>

theorem static_dynamic_agree:
  "read_message data (dispatch3 H1 H2 H3) =
   read_message data (dynamic_dispatch
     (register (handler_on set3_h1 (\<lambda>h s. s\<lparr>set3_h1 := h\<rparr>) H1)
     (register (handler_on set3_h2 (\<lambda>h s. s\<lparr>set3_h2 := h\<rparr>) H2)
     (register (handler_on set3_h3 (\<lambda>h s. s\<lparr>set3_h3 := h\<rparr>) H3) dynamic_new))))"
proof (rule read_message_cong)
  fix field
  assume "wire_field field"
  then have "value_fits (pf_wire_type field) (pf_value field)" by (simp add: wire_field_def)
  moreover have "or_else m (dynamic_dispatch dynamic_new field) = m" for m :: "(('a, 'b, 'c) StaticHandlerSet3, bool) action"
    by (auto simp: or_else_def dynamic_dispatch_def dynamic_new_def then_do_def ret_def fun_eq_iff split: prod.split sum.split)
  ultimately show "dispatch3 H1 H2 H3 field = dynamic_dispatch
     (register (handler_on set3_h1 (\<lambda>h s. s\<lparr>set3_h1 := h\<rparr>) H1)
     (register (handler_on set3_h2 (\<lambda>h s. s\<lparr>set3_h2 := h\<rparr>) H2)
     (register (handler_on set3_h3 (\<lambda>h s. s\<lparr>set3_h3 := h\<rparr>) H3) dynamic_new))) field"
    by (simp add: register_dispatch dispatch_to_handler_on dispatch3_def)
qed

end
