(* ===== verification/ProtoStream.thy ===== *)
theory ProtoStream
  imports MessageWriter Handlers ReaderSession RecordPosition Errors
begin

text \<open>
  \<^verbatim>\<open>riegeli/src/proto/stream.rs\<close>: reading the records of a file as messages.  The three functions share
  their loop over \<open>reader.read_record()\<close>, which is here the iteration of a body on the reader, a state
  and the index of the record; what is done with a record is an action on the state.
\<close>

section \<open>The loop over the records\<close>

record StreamError =
  se_record_index :: nat
  se_source :: riegeli_error

definition stream_error_to_string :: "StreamError \<Rightarrow> string" where
  "stream_error_to_string e =
     ''error at record index '' @ decimal (se_record_index e) @ '': '' @ error_to_string (se_source e)"

definition stream_error_source :: "StreamError \<Rightarrow> riegeli_error" where
  "stream_error_source e = se_source e"

definition stream_step ::
  "('d \<Rightarrow> (bytes option res \<times> 'd) option) \<Rightarrow> (nat \<Rightarrow> bytes \<Rightarrow> ('s, unit) action) \<Rightarrow>
   'd \<times> 's \<times> nat \<Rightarrow> ('d \<times> 's \<times> nat + (StreamError + unit) \<times> 'd \<times> 's) option" where
  "stream_step read body = (\<lambda>(rd, s, i).
     case read rd of
       None \<Rightarrow> None
     | Some (Inl e, rd) \<Rightarrow> Some (Inr (Inl \<lparr>se_record_index = i, se_source = e\<rparr>, rd, s))
     | Some (Inr None, rd) \<Rightarrow> Some (Inr (Inr (), rd, s))
     | Some (Inr (Some rec), rd) \<Rightarrow>
         (case body i rec s of
            (Inl e, s) \<Rightarrow> Some (Inr (Inl \<lparr>se_record_index = i, se_source = e\<rparr>, rd, s))
          | (Inr _, s) \<Rightarrow> Some (Inl (rd, s, i + 1))))"

definition for_records ::
  "('d \<Rightarrow> (bytes option res \<times> 'd) option) \<Rightarrow> (nat \<Rightarrow> bytes \<Rightarrow> ('s, unit) action) \<Rightarrow> 'd \<Rightarrow> 's \<Rightarrow>
   ((StreamError + unit) \<times> 'd \<times> 's) option" where
  "for_records read body rd s = iterate (stream_step read body) (rd, s, 0)"

section \<open>Handlers\<close>

text \<open>The state is that of the handlers and that of the fallback closure.\<close>

definition proto_record_body ::
  "(ProtoField \<Rightarrow> ('h, bool) action) \<Rightarrow> (nat \<Rightarrow> bytes \<Rightarrow> 'f \<Rightarrow> 'f) option \<Rightarrow> nat \<Rightarrow> bytes \<Rightarrow> ('h \<times> 'f, unit) action" where
  "proto_record_body dispatch fallback i rec = (\<lambda>(h, f).
     if is_proto_message rec then (case read_message rec dispatch h of (r, h) \<Rightarrow> (r, h, f))
     else case fallback of
       Some fb \<Rightarrow> (Inr (), h, fb i rec f)
     | None \<Rightarrow> (Inr (), h, f))"

definition for_each_proto_record ::
  "hasher \<Rightarrow> codec \<Rightarrow> 't transposed \<Rightarrow> ('t, 'c) RecordReader \<Rightarrow> (ProtoField \<Rightarrow> ('h, bool) action) \<Rightarrow>
   (nat \<Rightarrow> bytes \<Rightarrow> 'f \<Rightarrow> 'f) option \<Rightarrow> 'h \<times> 'f \<Rightarrow> ((StreamError + unit) \<times> ('t, 'c) RecordReader \<times> 'h \<times> 'f) option" where
  "for_each_proto_record hw C T reader dispatch fallback s =
     for_records (read_record hw C T) (proto_record_body dispatch fallback) reader s"

section \<open>A column of a field\<close>

text \<open>The state is the values so far and the depth of groups; \<open>saturating_sub\<close> is the difference of naturals.\<close>

definition column_field :: "u32 \<Rightarrow> ProtoField \<Rightarrow> (u64 list \<times> nat, unit) action" where
  "column_field field_number field = (\<lambda>(values, group_depth).
     case pf_wire_type field of
       StartGroup \<Rightarrow> (Inr (), values, group_depth + 1)
     | EndGroup \<Rightarrow> (Inr (), values, group_depth - 1)
     | _ \<Rightarrow>
         if group_depth = 0 \<and> pf_number field = field_number then
           (case pf_value field of
              VVarint v \<Rightarrow> (Inr (), values @ [v], group_depth)
            | _ \<Rightarrow> (Inr (), values, group_depth))
         else (Inr (), values, group_depth))"

definition column_body :: "u32 \<Rightarrow> nat \<Rightarrow> bytes \<Rightarrow> (u64 list, unit) action" where
  "column_body field_number i rec values =
     (if is_proto_message rec then
        (case for_fields (column_field field_number) (pfi_new rec) (values, 0) of (r, values, _) \<Rightarrow> (r, values))
      else (Inr (), values))"

definition extract_varint_column ::
  "hasher \<Rightarrow> codec \<Rightarrow> 't transposed \<Rightarrow> ('t, 'c) RecordReader \<Rightarrow> u32 \<Rightarrow>
   ((StreamError + u64 list) \<times> ('t, 'c) RecordReader) option" where
  "extract_varint_column hw C T reader field_number =
     map_option (\<lambda>(r, rd, values). (bind_res r (\<lambda>_. Inr values), rd))
       (for_records (read_record hw C T) (column_body field_number) reader [])"

section \<open>Filtering a file\<close>

definition filter_body ::
  "hasher \<Rightarrow> codec \<Rightarrow> 'w transposer \<Rightarrow> u32 list \<Rightarrow> nat \<Rightarrow> bytes \<Rightarrow> ('w RecordWriter, unit) action" where
  "filter_body hw C T field_numbers i rec writer =
     (if is_proto_message rec then
        (case copy_fields rec field_numbers mw_new of
           (Inl e, _) \<Rightarrow> (Inl e, writer)
         | (Inr _, msg_writer) \<Rightarrow>
             (case finish msg_writer of
                Inl e \<Rightarrow> (Inl e, writer)
              | Inr filtered \<Rightarrow> write_record hw C T filtered writer))
      else if is_parseable_proto_message rec then
        (Inl (MalformedData ''record parses as a proto message but uses non-canonical varint encoding; refusing to pass it through unfiltered''), writer)
      else write_record hw C T rec writer)"

definition filter_fields_to_writer ::
  "hasher \<Rightarrow> codec \<Rightarrow> 't transposed \<Rightarrow> 'w transposer \<Rightarrow> ('t, 'c) RecordReader \<Rightarrow> 'w RecordWriter \<Rightarrow> u32 list \<Rightarrow>
   ((StreamError + unit) \<times> ('t, 'c) RecordReader \<times> 'w RecordWriter) option" where
  "filter_fields_to_writer hw C T T' reader writer field_numbers =
     for_records (read_record hw C T) (filter_body hw C T' field_numbers) reader writer"

section \<open>The loop on a stream of records\<close>

fun run_records :: "(nat \<Rightarrow> bytes \<Rightarrow> ('s, unit) action) \<Rightarrow> nat \<Rightarrow> bytes list \<Rightarrow> 's \<Rightarrow> (StreamError + unit) \<times> 's" where
  "run_records body i [] s = (Inr (), s)"
| "run_records body i (r # rs) s =
     (case body i r s of
        (Inl e, s') \<Rightarrow> (Inl \<lparr>se_record_index = i, se_source = e\<rparr>, s')
      | (Inr _, s') \<Rightarrow> run_records body (i + 1) rs s')"

context record_stream
begin

lemma for_records_from:
  "yields d rs \<Longrightarrow> \<exists>d'. iterate (stream_step nxt body) (d, s, i) =
    Some (fst (run_records body i rs s), d', snd (run_records body i rs s))"
proof (induction rs arbitrary: d s i)
  case Nil
  then obtain d' where "nxt d = Some (Inr None, d')" using yields_end by blast
  then have "stream_step nxt body (d, s, i) = Some (Inr (Inr (), d', s))" by (simp add: stream_step_def)
  then show ?case by (simp add: iterate_exit)
next
  case (Cons r rs)
  then obtain d' where d': "nxt d = Some (Inr (Some r), d')" "yields d' rs" using yields_record by blast
  obtain x s' where b: "body i r s = (x, s')" by fastforce
  show ?case
  proof (cases x)
    case (Inl e)
    then have "stream_step nxt body (d, s, i) = Some (Inr (Inl \<lparr>se_record_index = i, se_source = e\<rparr>, d', s'))"
      using d' b by (simp add: stream_step_def)
    then show ?thesis using b Inl by (simp add: iterate_exit)
  next
    case (Inr u)
    then have "stream_step nxt body (d, s, i) = Some (Inl (d', s', i + 1))" using d' b by (simp add: stream_step_def)
    then show ?thesis using Cons.IH [OF d'(2), of s' "i + 1"] b Inr by (simp add: iterate_continue)
  qed
qed

lemma for_records_stream:
  "yields d rs \<Longrightarrow> \<exists>d'. for_records nxt body d s =
    Some (fst (run_records body 0 rs s), d', snd (run_records body 0 rs s))"
  unfolding for_records_def by (rule for_records_from)

end

text \<open>On the records in front of a reader.\<close>

lemma for_records_file:
  assumes "at_records tol hw C T pj prs rd"
  shows "\<exists>rd'. for_records (read_record hw C T) body rd s =
    Some (fst (run_records body 0 (map snd prs) s), rd', snd (run_records body 0 (map snd prs) s))"
  using assms file_reader.for_records_stream [of tol hw C T pj rd "map snd prs" body s] by blast

section \<open>What the bodies do\<close>

lemma run_list_append: "run_list body (xs @ ys) r s = then_do (run_list body xs (Inr ())) (\<lambda>_. run_list body ys r) s"
  by (induction xs arbitrary: s) (simp_all add: then_do_def split: prod.split sum.split)

text \<open>The values of a field among the nodes of a message; a group has its own fields.\<close>

fun column_values :: "u32 \<Rightarrow> node \<Rightarrow> u64 list" where
  "column_values n (Scalar f) = (case pf_value f of VVarint v \<Rightarrow> if pf_number f = n then [v] else [] | _ \<Rightarrow> [])"
| "column_values n (Group m ns) = []"

lemma column_group:
  "column_field n (start_group g) (vs, d) = (Inr (), vs, d + 1)"
  "column_field n (end_group g) (vs, d) = (Inr (), vs, d - 1)"
  by (simp_all add: column_field_def start_group_def end_group_def)

lemma column_inside:
  "node_ok m \<Longrightarrow> 0 < d \<Longrightarrow> run_list (column_field n) (node_fields m) (Inr ()) (vs, d) = (Inr (), vs, d)"
proof (induction m arbitrary: d rule: node_fields.induct)
  case (1 f)
  then show ?case by (cases "pf_wire_type f") (auto simp: column_field_def then_do_def)
next
  case (2 g ns)
  have "run_list (column_field n) (message_fields ms) (Inr ()) (vs, d + 1) = (Inr (), vs, d + 1)"
    if "set ms \<subseteq> set ns" for ms
    using that
  proof (induction ms)
    case (Cons m ms)
    then have "node_ok m" using 2 by (auto simp: list_all_iff)
    with 2 Cons show ?case by (simp add: run_list_append then_do_def)
  qed simp
  then have "run_list (column_field n) (message_fields ns) (Inr ()) (vs, d + 1) = (Inr (), vs, d + 1)" by simp
  then show ?case
    by (simp add: run_list_append then_do_def column_group)
qed

lemma column_node:
  assumes "node_ok m"
  shows "run_list (column_field n) (node_fields m) (Inr ()) (vs, 0) = (Inr (), vs @ column_values n m, 0)"
proof (cases m)
  case (Scalar f)
  with assms show ?thesis
    by (cases "pf_value f") (auto simp: column_field_def then_do_def wire_field_def)
next
  case (Group g ns)
  have "run_list (column_field n) (message_fields ms) (Inr ()) (vs, 1) = (Inr (), vs, 1)"
    if "list_all node_ok ms" for ms
    using that by (induction ms) (simp_all add: run_list_append then_do_def column_inside)
  with Group assms show ?thesis
    by (simp add: run_list_append then_do_def column_group)
qed

lemma column_message:
  "list_all node_ok ns \<Longrightarrow> run_list (column_field n) (message_fields ns) (Inr ()) (vs, 0) =
   (Inr (), vs @ concat (map (column_values n) ns), 0)"
  by (induction ns arbitrary: vs) (simp_all add: run_list_append then_do_def column_node)

definition column_of :: "u32 \<Rightarrow> bytes \<Rightarrow> u64 list \<Rightarrow> bool" where
  "column_of n r col \<longleftrightarrow>
     (if is_proto_message r
      then \<exists>ns. list_all node_ok ns \<and> r = message_bytes ns \<and> col = concat (map (column_values n) ns)
      else col = [])"

lemma column_body_of: "\<exists>col. column_of n r col \<and> (\<forall>i vs. column_body n i r vs = (Inr (), vs @ col))"
proof (cases "is_proto_message r")
  case True
  then obtain ns where ns: "list_all node_ok ns" "r = message_bytes ns" by (auto simp: is_proto_message_tree)
  then have "column_body n i r vs = (Inr (), vs @ concat (map (column_values n) ns))" for i vs
    using True by (simp add: column_body_def for_fields_items items_message column_message)
  with True ns show ?thesis by (auto simp: column_of_def)
qed (auto simp: column_of_def column_body_def)

lemma run_columns: "\<exists>cols. list_all2 (column_of n) rs cols \<and>
  (\<forall>i vs. run_records (column_body n) i rs vs = (Inr (), vs @ concat cols))"
proof (induction rs)
  case (Cons r rs)
  then obtain cols where "list_all2 (column_of n) rs cols"
    "\<forall>i vs. run_records (column_body n) i rs vs = (Inr (), vs @ concat cols)" by blast
  moreover obtain col where "column_of n r col" "\<forall>i vs. column_body n i r vs = (Inr (), vs @ col)"
    using column_body_of by blast
  ultimately show ?case by (intro exI [of _ "col # cols"]) simp
qed simp

text \<open>What the filter writes for a record, and the records it refuses.\<close>

definition filtered :: "u32 list \<Rightarrow> bytes \<Rightarrow> bytes \<Rightarrow> bool" where
  "filtered field_numbers r out \<longleftrightarrow>
     (if is_proto_message r
      then \<exists>ns. list_all node_ok ns \<and> r = message_bytes ns \<and>
        out = message_bytes (filter (\<lambda>n. node_number n \<in> set field_numbers) ns)
      else out = r)"

definition refused :: "bytes \<Rightarrow> bool" where
  "refused r \<longleftrightarrow> is_parseable_proto_message r \<and> \<not> is_proto_message r"

lemma filter_body_filtered:
  "\<not> refused r \<Longrightarrow> \<exists>out. filtered nums r out \<and> (\<forall>i w. filter_body hw C T nums i r w = write_record hw C T out w)"
proof (cases "is_proto_message r")
  case True
  then obtain ns where ns: "list_all node_ok ns" "r = message_bytes ns" by (auto simp: is_proto_message_tree)
  let ?out = "message_bytes (filter (\<lambda>n. node_number n \<in> set nums) ns)"
  have "copy_fields r nums mw_new = (Inr (), mw_new\<lparr>mw_buf := ?out\<rparr>)"
    unfolding copy_fields_def ns(2)
    by (simp add: for_filtered_message [OF ns(1)] write_fields) (simp add: message_bytes_def mw_new_def)
  then have "filter_body hw C T nums i r w = write_record hw C T ?out w" for i w
    using True by (simp add: filter_body_def finish_def mw_new_def)
  with True ns show ?thesis by (auto simp: filtered_def)
qed (auto simp: filtered_def filter_body_def refused_def)

lemma run_filter:
  assumes "list_all (\<lambda>r. \<not> refused r) rs"
  shows "\<exists>outs. list_all2 (filtered nums) rs outs \<and>
    (\<forall>i w qs. run_records (filter_body hw C T nums) i (rs @ qs) w =
      (case run_records (\<lambda>_. write_record hw C T) i outs w of
         (Inl e, w') \<Rightarrow> (Inl e, w')
       | (Inr _, w') \<Rightarrow> run_records (filter_body hw C T nums) (i + length rs) qs w'))"
  using assms
proof (induction rs)
  case (Cons r rs)
  then obtain outs where outs: "list_all2 (filtered nums) rs outs"
    "\<forall>i w qs. run_records (filter_body hw C T nums) i (rs @ qs) w =
      (case run_records (\<lambda>_. write_record hw C T) i outs w of
         (Inl e, w') \<Rightarrow> (Inl e, w')
       | (Inr _, w') \<Rightarrow> run_records (filter_body hw C T nums) (i + length rs) qs w')" by auto
  obtain out where "filtered nums r out" "\<forall>i w. filter_body hw C T nums i r w = write_record hw C T out w"
    using filter_body_filtered Cons.prems by fastforce
  with outs show ?case
    by (intro exI [of _ "out # outs"]) (auto split: prod.split sum.split)
qed simp

lemma run_filter_start:
  assumes "list_all (\<lambda>r. \<not> refused r) rs"
  obtains outs where "list_all2 (filtered nums) rs outs"
    "\<And>w qs. run_records (filter_body hw C T nums) 0 (rs @ qs) w =
      (case run_records (\<lambda>_. write_record hw C T) 0 outs w of
         (Inl e, w') \<Rightarrow> (Inl e, w')
       | (Inr _, w') \<Rightarrow> run_records (filter_body hw C T nums) (length rs) qs w')"
proof -
  obtain outs where o: "list_all2 (filtered nums) rs outs"
    "\<forall>i w qs. run_records (filter_body hw C T nums) i (rs @ qs) w =
      (case run_records (\<lambda>_. write_record hw C T) i outs w of
         (Inl e, w') \<Rightarrow> (Inl e, w')
       | (Inr _, w') \<Rightarrow> run_records (filter_body hw C T nums) (i + length rs) qs w')"
    using run_filter [OF assms] by blast
  show thesis by (rule that [OF o(1) o(2) [rule_format, of 0, unfolded add_0]])
qed

lemma run_writes:
  "run_records (\<lambda>_. write_record hw C T) i outs w = (Inr (), w') \<Longrightarrow>
   run_ops (writer_step hw C T) (map WriteRecord outs) w = Some (map (\<lambda>_. Inr ()) outs, w')"
  by (induction outs arbitrary: i w) (auto split: prod.splits sum.splits)

lemma written_records: "written (map WriteRecord outs) = outs"
  by (induction outs) (simp_all add: written_def)

text \<open>The fields of a record that is a message.\<close>

definition record_fields :: "bytes \<Rightarrow> ProtoField list" where
  "record_fields r = (if is_proto_message r then fst (items (pfi_new r)) else [])"

abbreviation "numbered i rs \<equiv> zip [i..<i + length rs] rs"

lemma run_total:
  assumes "\<And>x s. fst (body x s) = Inr ()"
  shows "run_list body xs (Inr ()) s = (Inr (), fold (\<lambda>x s. snd (body x s)) xs s)"
proof (induction xs arbitrary: s)
  case (Cons x xs)
  obtain s' where "body x s = (Inr (), s')" using assms [of x s] by (cases "body x s") auto
  with Cons show ?case by (simp add: then_do_def)
qed simp

lemma handled_fields:
  assumes "\<And>f s. \<exists>b. fst (dispatch f s) = Inr b"
  shows "is_proto_message r \<Longrightarrow> read_message r dispatch h = (Inr (), fold (\<lambda>f s. snd (dispatch f s)) (record_fields r) h)"
proof -
  assume r: "is_proto_message r"
  then obtain ns where "list_all node_ok ns" "r = message_bytes ns" by (auto simp: is_proto_message_tree)
  then have i: "items (pfi_new r) = (record_fields r, Inr ())"
    using items_message r by (simp add: record_fields_def)
  have h: "handling dispatch f s = (Inr (), snd (dispatch f s))" for f s
    using assms [of f s] by (cases "dispatch f s") (auto simp: then_do_def ret_def)
  show ?thesis using i run_total [of "handling dispatch" "record_fields r" h] h by (simp add: read_message_items)
qed

lemma run_proto_records:
  assumes "\<And>f s. \<exists>b. fst (dispatch f s) = Inr b"
  shows "run_records (proto_record_body dispatch (Some fb)) i rs (h, f) =
    (Inr (), fold (\<lambda>f s. snd (dispatch f s)) (concat (map record_fields rs)) h,
     fold (\<lambda>(j, r) f. fb j r f) (filter (\<lambda>(j, r). \<not> is_proto_message r) (numbered i rs)) f)"
proof (induction rs arbitrary: i h f)
  case (Cons r rs)
  have z: "numbered i (r # rs) = (i, r) # numbered (i + 1) rs" by (simp add: upt_conv_Cons del: upt_Suc)
  show ?case
    unfolding z using Cons handled_fields [OF assms]
    by (cases "is_proto_message r") (simp_all add: proto_record_body_def record_fields_def)
qed simp

lemma filter_runs:
  assumes "at_records tol hw C T pj prs rd" and "map snd prs = rs @ qs"
    and "list_all (\<lambda>r. \<not> refused r) rs" and "qs \<noteq> [] \<longrightarrow> refused (hd qs)"
  shows "\<exists>outs rd'. list_all2 (filtered field_numbers) rs outs \<and>
    filter_fields_to_writer hw C T T' rd w field_numbers = Some
      (case run_records (\<lambda>_. write_record hw C T') 0 outs w of
         (Inl e, w') \<Rightarrow> (Inl e, rd', w')
       | (Inr _, w') \<Rightarrow>
           (if qs = [] then Inr ()
            else Inl \<lparr>se_record_index = length rs, se_source = MalformedData ''record parses as a proto message but uses non-canonical varint encoding; refusing to pass it through unfiltered''\<rparr>,
            rd', w'))"
proof -
  obtain outs where outs: "list_all2 (filtered field_numbers) rs outs"
    "\<And>w qs. run_records (filter_body hw C T' field_numbers) 0 (rs @ qs) w =
      (case run_records (\<lambda>_. write_record hw C T') 0 outs w of
         (Inl e, w') \<Rightarrow> (Inl e, w')
       | (Inr _, w') \<Rightarrow> run_records (filter_body hw C T' field_numbers) (length rs) qs w')"
    using run_filter_start [OF assms(3), of field_numbers hw C T'] by blast
  have stop: "run_records (filter_body hw C T' field_numbers) (length rs) qs w' = (if qs = [] then Inr ()
      else Inl \<lparr>se_record_index = length rs, se_source = MalformedData ''record parses as a proto message but uses non-canonical varint encoding; refusing to pass it through unfiltered''\<rparr>, w')" for w'
    using assms(4) by (cases qs) (simp_all add: filter_body_def refused_def)
  obtain rd' where "filter_fields_to_writer hw C T T' rd w field_numbers =
    Some (fst (run_records (filter_body hw C T' field_numbers) 0 (rs @ qs) w), rd',
      snd (run_records (filter_body hw C T' field_numbers) 0 (rs @ qs) w))"
    using for_records_file [OF assms(1), of "filter_body hw C T' field_numbers" w] assms(2)
    by (auto simp: filter_fields_to_writer_def)
  then show ?thesis using outs(1) unfolding outs(2) stop
    by (intro exI [of _ outs] exI [of _ rd']) (auto split: prod.splits sum.splits)
qed

text \<open>From file to file: the new file is read as the filtered records.\<close>

context transposed_format
begin

lemma filtered_file_reads:
  fixes ro :: "'c ReaderOptions"
  assumes "at_records tol hw C T pj prs rd" and "list_all (\<lambda>r. \<not> refused r) (map snd prs)"
    and "writer_new hw C W s0 o' = Some (Inr w0, s1)" and "out_bytes s0 = []"
    and "filter_fields_to_writer hw C T W rd w0 field_numbers = Some (Inr (), rd1, w1)"
    and "close hw C W w1 = Some (Inr (), s)"
    and "\<And>r out. r \<in> snd ` set prs \<Longrightarrow> filtered field_numbers r out \<Longrightarrow> length out < 2 ^ 62"
    and "unat (wo_final_padding o') \<le> 2 ^ 45" and "length (out_bytes s) \<le> 2 ^ 63"
    and tr: "wo_transpose o' \<Longrightarrow> unat (wo_chunk_size o') < lim \<and>
      (\<forall>r out. r \<in> snd ` set prs \<longrightarrow> filtered field_numbers r out \<longrightarrow> length out + 8 < lim) \<and> ro_field_projection ro = None"
    and "lossless C" and "calm r0" and "src_bytes r0 = out_bytes s"
  shows "\<exists>outs rd2. list_all2 (filtered field_numbers) (map snd prs) outs \<and>
    reader_new hw r0 ro = Some (Inr rd2) \<and> drain (read_record hw C R) (length outs + 1) rd2 = Some outs"
proof -
  obtain outs rd' where outs: "list_all2 (filtered field_numbers) (map snd prs) outs"
    "filter_fields_to_writer hw C T W rd w0 field_numbers = Some
      (case run_records (\<lambda>_. write_record hw C W) 0 outs w0 of
         (Inl e, w') \<Rightarrow> (Inl e, rd', w') | (Inr _, w') \<Rightarrow> (Inr (), rd', w'))"
    using filter_runs [OF assms(1) _ assms(2), of "[]" field_numbers W w0]
    unfolding append_Nil2 simp_thms if_True by blast
  with assms(5) have "run_records (\<lambda>_. write_record hw C W) 0 outs w0 = (Inr (), w1)"
    by (auto split: prod.splits sum.splits)
  note ops = run_writes [OF this]
  have from_in: "\<exists>r. r \<in> snd ` set prs \<and> filtered field_numbers r out" if "out \<in> set outs" for out
    using outs(1) that by (fastforce simp: list_all2_conv_all_nth in_set_conv_nth)
  have "\<forall>r \<in> set outs. length r < 2 ^ 62" using from_in assms(7) by blast
  moreover have "\<forall>r \<in> set outs. length r + 8 < lim" if "wo_transpose o'" using from_in tr [OF that] by blast
  ultimately have "\<exists>rd2. reader_new hw r0 ro = Some (Inr rd2) \<and>
    drain (read_record hw C R) (length (written (map WriteRecord outs)) + 1) rd2 = Some (written (map WriteRecord outs))"
    using tr by (intro session_reads [OF assms(3,4) ops _ assms(6) _ assms(8,9) _ assms(11-13)]) (auto simp: written_records)
  then show ?thesis using outs(1) by (auto simp: written_records)
qed

end

section \<open>Properties\<close>

text \<open>C18. Extracting a column from the records in front of a reader never fails: it is the values of
  the field at the top level of the records that are messages, in order, repeated ones included, those
  inside groups not; other records contribute nothing.\<close>

theorem extract_column_values:
  assumes "at_records tol hw C T pj prs rd"
  shows "\<exists>rd' cols. list_all2 (column_of n) (map snd prs) cols \<and>
    extract_varint_column hw C T rd n = Some (Inr (concat cols), rd')"
proof -
  obtain cols where cols: "list_all2 (column_of n) (map snd prs) cols"
    "run_records (column_body n) 0 (map snd prs) [] = (Inr (), concat cols)"
    using run_columns [of n "map snd prs"] by auto
  then show ?thesis using for_records_file [OF assms, of "column_body n" "[]"]
    by (auto simp: extract_varint_column_def)
qed

lemma sample_at_records:
  "\<exists>rd :: (unit, unit) RecordReader. at_records False sample_hash store_codec null_transposed None
    [(RecordPosition 64 0, [7]), (RecordPosition 64 1, [8, 9])] rd"
proof -
  have "\<exists>rd :: (unit, unit) RecordReader.
      reader_new sample_hash (sample_source sample_file) reader_options_new = Some (Inr rd) \<and> settled rd \<and>
      content rd = src_bytes (sample_source sample_file) \<and>
      at_records False sample_hash store_codec null_transposed None (file_records 64 [sample_chunk] [[[7], [8, 9]]]) rd"
    using sample_chunk_holds sample_file_length
      reader_new_file [of "sample_source sample_file" sample_hash "[sample_chunk]" False store_codec null_transposed reader_options_new
        "[[[7], [8, 9]]]"]
    by (simp add: sample_file_def reader_options_new_def del: file_image.simps)
  then show ?thesis by auto
qed

lemma sample_classes: "\<not> is_proto_message [7]" "\<not> is_parseable_proto_message [7]" "is_proto_message [8, 9]"
  by code_simp+

lemma extract_column_values_witness:
  "\<exists>(rd :: (unit, unit) RecordReader) rd' col. column_of 1 [8, 9] col \<and>
    extract_varint_column sample_hash store_codec null_transposed rd 1 = Some (Inr col, rd')"
proof -
  obtain rd :: "(unit, unit) RecordReader" where
    "at_records False sample_hash store_codec null_transposed None [(RecordPosition 64 0, [7]), (RecordPosition 64 1, [8, 9])] rd"
    using sample_at_records by blast
  from extract_column_values [OF this, of 1] show ?thesis
    using sample_classes(1) by (fastforce simp: list_all2_Cons1 column_of_def)
qed

text \<open>C17. Filtering the records in front of a reader writes, for every message, the message with only
  the top-level fields and groups asked for, and every other record unchanged, up to the first record
  that only a permissive parser accepts, which is an error with its index.\<close>

theorem filter_writes_filtered:
  assumes "at_records tol hw C T pj prs rd" and "map snd prs = rs @ qs"
    and "list_all (\<lambda>r. \<not> refused r) rs" and "qs \<noteq> [] \<longrightarrow> refused (hd qs)"
  shows "\<exists>outs rd'. list_all2 (filtered field_numbers) rs outs \<and>
    filter_fields_to_writer hw C T T' rd w field_numbers = Some
      (case run_records (\<lambda>_. write_record hw C T') 0 outs w of
         (Inl e, w') \<Rightarrow> (Inl e, rd', w')
       | (Inr _, w') \<Rightarrow>
           (if qs = [] then Inr ()
            else Inl \<lparr>se_record_index = length rs, se_source = MalformedData ''record parses as a proto message but uses non-canonical varint encoding; refusing to pass it through unfiltered''\<rparr>,
            rd', w'))"
  using assms by (rule filter_runs)

definition sample_start :: "unit RecordWriter" where
  "sample_start = initial_writer null_transposer options_new empty_sink"

lemma filter_writes_filtered_witness:
  "\<exists>(rd :: (unit, unit) RecordReader) outs out rd'. outs = [[7], out] \<and> filtered [2] [8, 9] out \<and>
    filter_fields_to_writer sample_hash store_codec null_transposed null_transposer rd sample_start [2] = Some
      (case run_records (\<lambda>_. write_record sample_hash store_codec null_transposer) 0 outs sample_start of
         (Inl e, w') \<Rightarrow> (Inl e, rd', w')
       | (Inr _, w') \<Rightarrow> (Inr (), rd', w'))"
proof -
  obtain rd :: "(unit, unit) RecordReader" where rd:
    "at_records False sample_hash store_codec null_transposed None [(RecordPosition 64 0, [7]), (RecordPosition 64 1, [8, 9])] rd"
    using sample_at_records by blast
  have "list_all (\<lambda>r. \<not> refused r) [[7], [8, 9]]" using sample_classes by (simp add: refused_def)
  from filter_writes_filtered [OF rd _ this, of "[]" "[2]" null_transposer sample_start]
  obtain outs rd' where o: "list_all2 (filtered [2]) [[7], [8, 9]] outs"
    "filter_fields_to_writer sample_hash store_codec null_transposed null_transposer rd sample_start [2] = Some
      (case run_records (\<lambda>_. write_record sample_hash store_codec null_transposer) 0 outs sample_start of
         (Inl e, w') \<Rightarrow> (Inl e, rd', w')
       | (Inr _, w') \<Rightarrow> (Inr (), rd', w'))"
    unfolding list.simps append_Nil2 snd_conv simp_thms if_True by blast
  from o(1) obtain out where "outs = [[7], out]" "filtered [2] [8, 9] out"
    using sample_classes(1) by (auto simp: list_all2_Cons1 filtered_def)
  with o(2) show ?thesis by blast
qed

text \<open>C19. Handlers that do not fail see the fields of all records that are messages, in order; the
  fallback sees the other records with their index.\<close>

theorem for_each_sees_all:
  assumes "at_records tol hw C T pj prs rd" and "\<forall>f s. \<exists>b. fst (dispatch f s) = Inr b"
  shows "\<exists>rd'. for_each_proto_record hw C T rd dispatch (Some fb) (h, f) = Some (Inr (), rd',
    fold (\<lambda>f s. snd (dispatch f s)) (concat (map record_fields (map snd prs))) h,
    fold (\<lambda>(j, r) f. fb j r f) (filter (\<lambda>(j, r). \<not> is_proto_message r) (numbered 0 (map snd prs))) f)"
proof -
  have total: "\<exists>b. fst (dispatch f s) = Inr b" for f s using assms(2) by blast
  show ?thesis
    using for_records_file [OF assms(1), of "proto_record_body dispatch (Some fb)" "(h, f)"]
    unfolding run_proto_records [where dispatch = dispatch, OF total] for_each_proto_record_def by simp
qed

lemma for_each_sees_all_witness:
  "\<exists>(rd :: (unit, unit) RecordReader) rd'.
    for_each_proto_record sample_hash store_codec null_transposed rd (\<lambda>f. \<lambda>fs. (Inr True, fs @ [f]))
      (Some (\<lambda>j r rs. rs @ [(j, r)])) ([], []) = Some (Inr (), rd', record_fields [8, 9], [(0, [7])])"
proof -
  obtain rd :: "(unit, unit) RecordReader" where rd:
    "at_records False sample_hash store_codec null_transposed None [(RecordPosition 64 0, [7]), (RecordPosition 64 1, [8, 9])] rd"
    using sample_at_records by blast
  have "fold (\<lambda>f fs. fs @ [f]) gs hs = hs @ gs" for gs hs :: "ProtoField list"
    by (induction gs arbitrary: hs) simp_all
  with for_each_sees_all [OF rd, of "\<lambda>f. \<lambda>fs. (Inr True, fs @ [f])" "\<lambda>j r rs. rs @ [(j, r)]" "[]" "[]"]
  show ?thesis using sample_classes by (fastforce simp: upt_rec record_fields_def)
qed

end
