(* ===== verification/Panics.thy ===== *)
theory Panics
  imports Prelude
begin

text \<open>
  Computations that may panic.  \<open>None\<close> is a panic (an index or a slice out of range) or a loop that does
  not return; otherwise there is a result and, for a trial, the state it leaves behind.
\<close>

type_synonym ('s, 'a) trial = "'s \<Rightarrow> ('a res \<times> 's) option"

definition bind_try :: "'a res option \<Rightarrow> ('a \<Rightarrow> 'b res option) \<Rightarrow> 'b res option" where
  "bind_try m f = (case m of None \<Rightarrow> None | Some (Inl e) \<Rightarrow> Some (Inl e) | Some (Inr x) \<Rightarrow> f x)"

definition try_then :: "('s, 'a) trial \<Rightarrow> ('a \<Rightarrow> ('s, 'b) trial) \<Rightarrow> ('s, 'b) trial" where
  "try_then m f s = (case m s of None \<Rightarrow> None | Some (Inl e, s') \<Rightarrow> Some (Inl e, s') | Some (Inr x, s') \<Rightarrow> f x s')"

definition surely :: "('s, 'a) action \<Rightarrow> ('s, 'a) trial" where
  "surely m s = Some (m s)"

text \<open>\<open>xs[i]\<close>, \<open>&xs[..n]\<close> and \<open>&xs[a..b]\<close>.\<close>

definition item_at :: "'a list \<Rightarrow> nat \<Rightarrow> 'a option" where
  "item_at xs i = (if i < length xs then Some (xs ! i) else None)"

definition prefix_at :: "'a list \<Rightarrow> nat \<Rightarrow> 'a list option" where
  "prefix_at xs n = (if n \<le> length xs then Some (take n xs) else None)"

definition range_at :: "'a list \<Rightarrow> nat \<Rightarrow> nat \<Rightarrow> 'a list option" where
  "range_at xs a b = (if a \<le> b \<and> b \<le> length xs then Some (drop a (take b xs)) else None)"

definition unless_panic :: "'a option \<Rightarrow> ('s, 'a) trial" where
  "unless_panic x s = (case x of None \<Rightarrow> None | Some y \<Rightarrow> Some (Inr y, s))"

text \<open>\<open>ok_or\<close>.\<close>

definition ok_or :: "riegeli_error \<Rightarrow> 'a option \<Rightarrow> 'a res" where
  "ok_or e x = (case x of None \<Rightarrow> Inl e | Some y \<Rightarrow> Inr y)"

definition of_res :: "'a res \<Rightarrow> ('s, 'a) action" where
  "of_res r s = (r, s)"

fun try_each :: "('a \<Rightarrow> ('s, 'b) trial) \<Rightarrow> 'a list \<Rightarrow> ('s, 'b list) trial" where
  "try_each f [] s = Some (Inr [], s)"
| "try_each f (x # xs) s = try_then (f x) (\<lambda>y. try_then (try_each f xs) (\<lambda>ys. surely (ret (y # ys)))) s"

primrec read_times :: "nat \<Rightarrow> ('s, 'a) action \<Rightarrow> ('s, 'a list) action" where
  "read_times 0 m = ret []"
| "read_times (Suc n) m = then_do m (\<lambda>x. then_do (read_times n m) (\<lambda>xs. ret (x # xs)))"

section \<open>Computations that do not panic\<close>

text \<open>From a state with \<open>P\<close> the trial returns, and its result and state have \<open>Q\<close>.\<close>

definition returns :: "('s \<Rightarrow> bool) \<Rightarrow> ('s, 'a) trial \<Rightarrow> ('a res \<Rightarrow> 's \<Rightarrow> bool) \<Rightarrow> bool" where
  "returns P m Q \<longleftrightarrow> (\<forall>s. P s \<longrightarrow> (\<exists>r s'. m s = Some (r, s') \<and> Q r s'))"

lemma returnsI: "(\<And>s. P s \<Longrightarrow> \<exists>r s'. m s = Some (r, s') \<and> Q r s') \<Longrightarrow> returns P m Q"
  by (simp add: returns_def)

lemma returnsD: "returns P m Q \<Longrightarrow> P s \<Longrightarrow> \<exists>r s'. m s = Some (r, s') \<and> Q r s'"
  by (simp add: returns_def)

lemma returns_then:
  assumes "returns P m (\<lambda>r s. case r of Inl e \<Rightarrow> Q (Inl e) s | Inr x \<Rightarrow> M x s)"
    and "\<And>x. returns (M x) (f x) Q"
  shows "returns P (try_then m f) Q"
proof (rule returnsI)
  fix s
  assume "P s"
  with assms(1) obtain r s' where m: "m s = Some (r, s')" "case r of Inl e \<Rightarrow> Q (Inl e) s' | Inr x \<Rightarrow> M x s'"
    by (auto simp: returns_def)
  show "\<exists>r s'. try_then m f s = Some (r, s') \<and> Q r s'"
  proof (cases r)
    case (Inl e)
    with m show ?thesis by (simp add: try_then_def)
  next
    case (Inr x)
    with m have "M x s'" by simp
    with assms(2) obtain r2 s2 where "f x s' = Some (r2, s2)" "Q r2 s2" unfolding returns_def by blast
    with m Inr show ?thesis by (simp add: try_then_def)
  qed
qed

lemma returns_weaken: "returns P m Q \<Longrightarrow> (\<And>s. P' s \<Longrightarrow> P s) \<Longrightarrow> (\<And>r s. Q r s \<Longrightarrow> Q' r s) \<Longrightarrow> returns P' m Q'"
  unfolding returns_def by blast

lemma returns_surely: "(\<And>s. P s \<Longrightarrow> case m s of (r, s') \<Rightarrow> Q r s') \<Longrightarrow> returns P (surely m) Q"
  unfolding returns_def surely_def by (metis case_prod_conv surj_pair)

lemma returns_unless: "(\<And>s. P s \<Longrightarrow> x \<noteq> None) \<Longrightarrow> (\<And>s y. P s \<Longrightarrow> x = Some y \<Longrightarrow> Q (Inr y) s) \<Longrightarrow> returns P (unless_panic x) Q"
  by (force simp: returns_def unless_panic_def split: option.splits)

lemma item_at_Some [simp]: "item_at xs i = Some x \<longleftrightarrow> i < length xs \<and> xs ! i = x"
  by (auto simp: item_at_def)

lemma item_at_None [simp]: "item_at xs i = None \<longleftrightarrow> length xs \<le> i"
  by (auto simp: item_at_def)

lemma prefix_at_Some [simp]: "prefix_at xs n = Some ys \<longleftrightarrow> n \<le> length xs \<and> ys = take n xs"
  by (auto simp: prefix_at_def)

lemma try_then_simps [simp]:
  "m s = None \<Longrightarrow> try_then m f s = None"
  "m s = Some (Inl e, s') \<Longrightarrow> try_then m f s = Some (Inl e, s')"
  "m s = Some (Inr x, s') \<Longrightarrow> try_then m f s = f x s'"
  by (simp_all add: try_then_def)

lemma try_then_Some:
  "try_then m f s = Some (Inr y, s'') \<longleftrightarrow> (\<exists>x s'. m s = Some (Inr x, s') \<and> f x s' = Some (Inr y, s''))"
  by (auto simp: try_then_def split: option.splits prod.splits sum.splits)

lemma bind_try_simps [simp]:
  "bind_try None f = None" "bind_try (Some (Inl e)) f = Some (Inl e)" "bind_try (Some (Inr x)) f = f x"
  by (simp_all add: bind_try_def)

lemma bind_try_Some:
  "bind_try m f = Some (Inr y) \<longleftrightarrow> (\<exists>x. m = Some (Inr x) \<and> f x = Some (Inr y))"
  by (auto simp: bind_try_def split: option.splits sum.splits)

lemma surely_Some [simp]: "surely m s = Some (r, s') \<longleftrightarrow> m s = (r, s')"
  by (simp add: surely_def)

end
