(* ===== verification/TransposeInternal.thy ===== *)
theory TransposeInternal
  imports Wire
begin

text \<open>
  \<^verbatim>\<open>riegeli/src/transpose/internal.rs\<close>: the constants of the state machine of transposed chunks, and
  what the tag of a state says about its subtype and its data buffer.
\<close>

section \<open>Message ids\<close>

definition NO_OP :: u32 where "NO_OP = 0"
definition NON_PROTO :: u32 where "NON_PROTO = 1"
definition START_OF_SUBMESSAGE :: u32 where "START_OF_SUBMESSAGE = 2"
definition START_OF_MESSAGE :: u32 where "START_OF_MESSAGE = 3"
definition ROOT :: u32 where "ROOT = 4"

section \<open>Subtypes\<close>

definition TRIVIAL :: u8 where "TRIVIAL = 0"
definition VARINT_1 :: u8 where "VARINT_1 = 0"
definition VARINT_10 :: u8 where "VARINT_10 = 9"
definition VARINT_MAX :: u8 where "VARINT_MAX = VARINT_10"
definition VARINT_INLINE_0 :: u8 where "VARINT_INLINE_0 = VARINT_MAX + 1"
definition VARINT_INLINE_MAX :: u8 where "VARINT_INLINE_MAX = VARINT_INLINE_0 + 0x7F"
definition LENGTH_DELIMITED_STRING :: u8 where "LENGTH_DELIMITED_STRING = 0"
definition LENGTH_DELIMITED_START_OF_SUBMESSAGE :: u8 where "LENGTH_DELIMITED_START_OF_SUBMESSAGE = 1"
definition LENGTH_DELIMITED_END_OF_SUBMESSAGE :: u8 where "LENGTH_DELIMITED_END_OF_SUBMESSAGE = 2"

definition SUBMESSAGE_WIRE_TYPE :: u32 where "SUBMESSAGE_WIRE_TYPE = 6"

definition has_subtype :: "u32 \<Rightarrow> bool" where
  "has_subtype tag = (tag_wire_type tag = Some WVarint)"

definition has_data_buffer :: "u32 \<Rightarrow> u8 \<Rightarrow> bool" where
  "has_data_buffer tag subtype =
     (case tag_wire_type tag of
        Some WVarint \<Rightarrow> subtype < VARINT_INLINE_0
      | Some Fixed32 \<Rightarrow> True
      | Some Fixed64 \<Rightarrow> True
      | Some LengthDelimited \<Rightarrow> subtype = LENGTH_DELIMITED_STRING
      | Some StartGroup \<Rightarrow> False
      | Some EndGroup \<Rightarrow> False
      | None \<Rightarrow> False)"

definition MAX_RECURSION_DEPTH :: nat where "MAX_RECURSION_DEPTH = 100"
definition MAX_VARINT_INLINE :: u8 where "MAX_VARINT_INLINE = 3"

lemmas subtype_defs = TRIVIAL_def VARINT_1_def VARINT_10_def VARINT_MAX_def VARINT_INLINE_0_def VARINT_INLINE_MAX_def
  LENGTH_DELIMITED_STRING_def LENGTH_DELIMITED_START_OF_SUBMESSAGE_def LENGTH_DELIMITED_END_OF_SUBMESSAGE_def

lemmas message_id_defs = NO_OP_def NON_PROTO_def START_OF_SUBMESSAGE_def START_OF_MESSAGE_def ROOT_def

end
