(* ===== verification/TransposeParse.thy ===== *)
theory TransposeParse
  imports Panics TransposeInternal FieldProjection SimpleChunk
begin

text \<open>
  \<^verbatim>\<open>riegeli/src/transpose/decoder.rs\<close>, first part: the include-field map of a projection, the cursors, and
  the parsing of the header and the buckets of a transposed chunk.  Sizes are naturals: on 64 bits
  \<open>usize::try_from\<close> accepts every \<open>u64\<close>, and what \<open>checked_add\<close> rejects is written out.
\<close>

section \<open>The include-field map\<close>

datatype FieldIncluded = Included_Yes | Included_No | Included_ExistenceOnly

datatype IncludeType = IncludeFully | IncludeChild | Include_ExistenceOnly

fun include_rank :: "IncludeType \<Rightarrow> nat" where
  "include_rank IncludeFully = 0"
| "include_rank IncludeChild = 1"
| "include_rank Include_ExistenceOnly = 2"

record IncludedField =
  if_field_id :: u32
  if_include_type :: IncludeType

definition INVALID_POS :: u32 where "INVALID_POS = - 1"

text \<open>The hash map is an association list with distinct keys, for its length.\<close>

type_synonym IncludeFieldMap = "((u32 \<times> u32) \<times> IncludedField) list"

definition include_get :: "IncludeFieldMap \<Rightarrow> u32 \<Rightarrow> u32 \<Rightarrow> IncludedField option" where
  "include_get m parent_id field_number = map_of m (parent_id, field_number)"

definition include_put :: "u32 \<times> u32 \<Rightarrow> IncludedField \<Rightarrow> IncludeFieldMap \<Rightarrow> IncludeFieldMap" where
  "include_put k v m = map (\<lambda>(k', v'). (k', if k' = k then v else v')) m"

text \<open>The loop over the path of a field.\<close>

fun include_path :: "bool \<Rightarrow> u32 \<Rightarrow> u32 list \<Rightarrow> IncludeFieldMap \<Rightarrow> IncludeFieldMap" where
  "include_path eo current_id [] m = m"
| "include_path eo current_id (field_number # path) m =
     (let next_id = of_nat (length m);
          include_type = (if path = [] then if eo then Include_ExistenceOnly else IncludeFully
                          else IncludeChild);
          (entry, m) = (case include_get m current_id field_number of
                Some entry \<Rightarrow> (entry, m)
              | None \<Rightarrow> let entry = \<lparr>if_field_id = next_id, if_include_type = include_type\<rparr>
                        in (entry, m @ [((current_id, field_number), entry)]));
          m = (if include_rank include_type < include_rank (if_include_type entry)
               then include_put (current_id, field_number) (entry\<lparr>if_include_type := include_type\<rparr>) m else m)
      in include_path eo (if_field_id entry) path m)"

fun include_fields :: "Field list \<Rightarrow> IncludeFieldMap \<Rightarrow> IncludeFieldMap option" where
  "include_fields [] m = Some m"
| "include_fields (f # fs) m =
     (if field_path f = [] then None
      else include_fields fs (include_path (field_existence_only f) INVALID_POS (field_path f) m))"

definition from_projection :: "FieldProjection \<Rightarrow> IncludeFieldMap option" where
  "from_projection p = (case proj_fields p of None \<Rightarrow> None | Some fs \<Rightarrow> include_fields fs [])"

section \<open>Cursors\<close>

text \<open>The scratch buffer of a pruned cursor only lends storage to \<open>read_exact\<close>.\<close>

record BufferCursor =
  bc_data :: bytes
  bc_pos :: nat
  bc_pruned :: bool

definition bc_new :: "bytes \<Rightarrow> BufferCursor" where
  "bc_new data = \<lparr>bc_data = data, bc_pos = 0, bc_pruned = False\<rparr>"

definition bc_pruned_new :: BufferCursor where
  "bc_pruned_new = \<lparr>bc_data = [], bc_pos = 0, bc_pruned = True\<rparr>"

definition underflow :: riegeli_error where
  "underflow = MalformedData ''buffer underflow in transpose chunk''"

definition bc_read_exact :: "nat \<Rightarrow> (BufferCursor, bytes) action" where
  "bc_read_exact n c =
     (if bc_pruned c then (Inr (replicate n 0), c)
      else if u64_max < bc_pos c + n then (Inl underflow, c)
      else if length (bc_data c) < bc_pos c + n then (Inl underflow, c)
      else (Inr (take n (drop (bc_pos c) (bc_data c))), c\<lparr>bc_pos := bc_pos c + n\<rparr>))"

definition bc_read_varint32 :: "(BufferCursor, u32) action" where
  "bc_read_varint32 c =
     (if bc_pruned c then (Inr 0, c)
      else case decode_u32 (drop (bc_pos c) (bc_data c)) of
        Inl e \<Rightarrow> (Inl (MalformedData ''varint32 decode error in buffer''), c)
      | Inr (val, consumed) \<Rightarrow> (Inr val, c\<lparr>bc_pos := bc_pos c + consumed\<rparr>))"

definition bc_read_varint64 :: "(BufferCursor, u64) action" where
  "bc_read_varint64 c =
     (if bc_pruned c then (Inr 0, c)
      else case decode_u64 (drop (bc_pos c) (bc_data c)) of
        Inl e \<Rightarrow> (Inl (MalformedData ''varint64 decode error in buffer''), c)
      | Inr (val, consumed) \<Rightarrow> (Inr val, c\<lparr>bc_pos := bc_pos c + consumed\<rparr>))"

definition bc_read_byte :: "(BufferCursor, u8) action" where
  "bc_read_byte c =
     (if bc_pruned c then (Inr 0, c)
      else if length (bc_data c) \<le> bc_pos c then (Inl (MalformedData ''buffer underflow reading byte''), c)
      else (Inr (bc_data c ! bc_pos c), c\<lparr>bc_pos := bc_pos c + 1\<rparr>))"

definition bc_is_empty :: "BufferCursor \<Rightarrow> bool" where
  "bc_is_empty c = (if bc_pruned c then True else length (bc_data c) \<le> bc_pos c)"

text \<open>The snapshot for scanning the buffer indices.\<close>

record BufferCursorSnapshot =
  sn_data :: bytes
  sn_pos :: nat

definition bc_snapshot :: "BufferCursor \<Rightarrow> BufferCursorSnapshot" where
  "bc_snapshot c = \<lparr>sn_data = bc_data c, sn_pos = bc_pos c\<rparr>"

definition sn_read_varint32 :: "BufferCursorSnapshot \<Rightarrow> u32 option \<times> BufferCursorSnapshot" where
  "sn_read_varint32 sn =
     (case decode_u32 (drop (sn_pos sn) (sn_data sn)) of
        Inl e \<Rightarrow> (None, sn)
      | Inr (val, consumed) \<Rightarrow> (Some val, sn\<lparr>sn_pos := sn_pos sn + consumed\<rparr>))"

section \<open>State metadata\<close>

record StateMetadata =
  sm_tags :: "u32 list"
  sm_next_node_indices :: "u32 list"
  sm_subtypes_bytes :: bytes
  sm_num_states :: nat

definition parse_state_metadata :: "(BufferCursor, StateMetadata) action" where
  "parse_state_metadata =
     then_do bc_read_varint32 (\<lambda>n. let num_states = unat n in
     then_do (read_times num_states bc_read_varint32) (\<lambda>tags.
     then_do (read_times num_states bc_read_varint32) (\<lambda>next_node_indices.
       let num_subtypes = length (filter (\<lambda>tag. is_valid_proto_tag tag \<and> has_subtype tag) tags) in
     then_do (read_times num_subtypes bc_read_byte) (\<lambda>subtypes_bytes.
     ret \<lparr>sm_tags = tags, sm_next_node_indices = next_node_indices, sm_subtypes_bytes = subtypes_bytes,
       sm_num_states = num_states\<rparr>))))"

section \<open>Buckets\<close>

fun read_bucket_data :: "bytes \<Rightarrow> nat \<Rightarrow> nat list \<Rightarrow> (bytes list \<times> nat) res" where
  "read_bucket_data data pos [] = Inr ([], pos)"
| "read_bucket_data data pos (n # sizes) =
     (let stop = pos + n
      in if u64_max < stop then Inl (MalformedData ''bucket n overflows'')
         else if length data < stop then Inl (MalformedData ''bucket data extends past chunk data'')
         else bind_res (read_bucket_data data stop sizes) (\<lambda>(bs, new_pos).
           Inr (take n (drop pos data) # bs, new_pos)))"

definition bucket_decompressed_size :: "bytes \<Rightarrow> CompressionType \<Rightarrow> nat res" where
  "bucket_decompressed_size compressed ct =
     (if ct = None_Compression then Inr (length compressed)
      else bind_res (map_err (\<lambda>_. MalformedData ''reading bucket uncompressed_size prefix'') (decode_u64 compressed))
        (\<lambda>(n, _). Inr (unat n)))"

fun each_res :: "('a \<Rightarrow> 'b res) \<Rightarrow> 'a list \<Rightarrow> 'b list res" where
  "each_res f [] = Inr []"
| "each_res f (x # xs) = bind_res (f x) (\<lambda>y. bind_res (each_res f xs) (\<lambda>ys. Inr (y # ys)))"

text \<open>The loop that passes exhausted buckets: the current bucket with what remains in it, and the later ones.\<close>

fun advance_bucket :: "nat \<Rightarrow> nat \<Rightarrow> nat list \<Rightarrow> nat \<times> nat \<times> nat list" where
  "advance_bucket index remaining (n # sizes) =
     (if remaining = 0 then advance_bucket (index + 1) n sizes else (index, remaining, n # sizes))"
| "advance_bucket index remaining [] = (index, remaining, [])"

fun assign_buffers :: "nat \<Rightarrow> nat \<Rightarrow> nat list \<Rightarrow> nat list \<Rightarrow> nat list res" where
  "assign_buffers index remaining later [] =
     (if later \<noteq> [] then Inl (MalformedData ''too few buckets'')
      else if 0 < remaining then Inl (MalformedData ''end of bucket data expected'')
      else Inr [])"
| "assign_buffers index remaining later (buf_size # sizes) =
     (if remaining < buf_size then Inl (MalformedData ''buffer exceeds remaining bucket capacity'')
      else case advance_bucket index (remaining - buf_size) later of
        (index', remaining', later') \<Rightarrow>
          bind_res (assign_buffers index' remaining' later' sizes) (\<lambda>bs. Inr (index # bs)))"

definition compute_buffer_to_bucket :: "bytes list \<Rightarrow> nat list \<Rightarrow> CompressionType \<Rightarrow> nat list res" where
  "compute_buffer_to_bucket buckets buffer_sizes ct =
     (if buckets = [] then
        if buffer_sizes \<noteq> [] then Inl (MalformedData ''too few buckets'') else Inr []
      else bind_res (each_res (\<lambda>b. bucket_decompressed_size b ct) buckets)
        (\<lambda>sizes. assign_buffers 0 (hd sizes) (tl sizes) buffer_sizes))"

definition bucket_contents :: "codec \<Rightarrow> CompressionType \<Rightarrow> bytes \<Rightarrow> bool \<Rightarrow> bytes option res" where
  "bucket_contents C ct compressed needed =
     (if needed then
        bind_res (decompress_with_prefix C compressed ct) (\<lambda>decompressed.
        bind_res (bucket_decompressed_size compressed ct) (\<lambda>claimed.
          if length decompressed \<noteq> claimed
          then Inl (MalformedData ''bucket decompressed to an unexpected size'')
          else Inr (Some decompressed)))
      else Inr None)"

text \<open>The buffers from index \<open>i\<close> on; \<open>offsets\<close> are the positions in the buckets.\<close>

fun extract_buffers ::
  "bytes option list \<Rightarrow> nat list \<Rightarrow> bool list \<Rightarrow> nat list \<Rightarrow> nat \<Rightarrow> nat list \<Rightarrow> BufferCursor list res option" where
  "extract_buffers buckets buffer_to_bucket needed offsets i [] = Some (Inr [])"
| "extract_buffers buckets buffer_to_bucket needed offsets i (buf_size # sizes) =
     (case item_at buffer_to_bucket i of None \<Rightarrow> None | Some bi \<Rightarrow>
      case item_at offsets bi of None \<Rightarrow> None | Some offset \<Rightarrow>
      bind_try
        (if (case item_at needed i of None \<Rightarrow> True | Some b \<Rightarrow> b) then
           (case item_at buckets bi of None \<Rightarrow> None
            | Some None \<Rightarrow> Some (Inl (MalformedData ''needed buffer in undecompressed bucket''))
            | Some (Some decompressed) \<Rightarrow>
                if length decompressed < offset + buf_size
                then Some (Inl (MalformedData ''buffer exceeds bucket data''))
                else Some (Inr (bc_new (take buf_size (drop offset decompressed)))))
         else Some (Inr bc_pruned_new))
        (\<lambda>c. bind_try (extract_buffers buckets buffer_to_bucket needed (offsets[bi := offset + buf_size]) (i + 1) sizes)
           (\<lambda>cs. Some (Inr (c # cs)))))"

text \<open>The buckets that hold a needed buffer; an assigned bucket exists.\<close>

definition mark_buckets :: "nat \<Rightarrow> nat list \<Rightarrow> bool list \<Rightarrow> bool list" where
  "mark_buckets num_buckets buffer_to_bucket needed =
     fold (\<lambda>(bi, n) marks. if n then marks[bi := True] else marks) (zip buffer_to_bucket needed)
       (replicate num_buckets False)"

definition decompress_into_buffers_with_pruning ::
  "codec \<Rightarrow> bytes list \<Rightarrow> nat list \<Rightarrow> CompressionType \<Rightarrow> bool list \<Rightarrow> BufferCursor list res option" where
  "decompress_into_buffers_with_pruning C buckets buffer_sizes ct needed =
     bind_try (Some (compute_buffer_to_bucket buckets buffer_sizes ct)) (\<lambda>buffer_to_bucket.
       if buffer_sizes = [] then Some (Inr [])
       else
         let num_buckets = length buckets;
             bucket_needed = mark_buckets num_buckets buffer_to_bucket needed
         in bind_try (Some (each_res (\<lambda>(b, n). bucket_contents C ct b n) (zip buckets bucket_needed)))
              (\<lambda>decompressed. extract_buffers decompressed buffer_to_bucket needed (replicate num_buckets 0) 0 buffer_sizes))"

section \<open>The buffers a projection needs\<close>

text \<open>
  The loop over the tags: the index of the next subtype, whether there was a non-proto state, the
  marks and the snapshot.
\<close>

fun scan_tags ::
  "bytes \<Rightarrow> nat \<Rightarrow> FieldProjection \<Rightarrow> u32 list \<Rightarrow> nat \<Rightarrow> bool \<Rightarrow> bool list \<Rightarrow> BufferCursorSnapshot \<Rightarrow> bool \<times> bool list" where
  "scan_tags subtypes_bytes num_buffers p [] subtype_idx has_nonproto needed sn = (has_nonproto, needed)"
| "scan_tags subtypes_bytes num_buffers p (raw_tag # tags) subtype_idx has_nonproto needed sn =
     (let (reads_buffer, field_number_opt, subtype_idx, has_nonproto) =
        (if raw_tag = NO_OP \<or> raw_tag = START_OF_MESSAGE \<or> raw_tag = START_OF_SUBMESSAGE
         then (False, None, subtype_idx, has_nonproto)
         else if raw_tag = NON_PROTO then (True, None, subtype_idx, True)
         else
           let wire_raw = raw_tag AND 7;
               (tag, st, subtype_idx) =
                 (if wire_raw = SUBMESSAGE_WIRE_TYPE
                  then (raw_tag - SUBMESSAGE_WIRE_TYPE + wire_type_raw LengthDelimited,
                        LENGTH_DELIMITED_END_OF_SUBMESSAGE, subtype_idx)
                  else if is_valid_proto_tag raw_tag \<and> has_subtype raw_tag
                  then (raw_tag, case item_at subtypes_bytes subtype_idx of None \<Rightarrow> 0 | Some s \<Rightarrow> s, subtype_idx + 1)
                  else (raw_tag, TRIVIAL, subtype_idx))
           in if is_valid_proto_tag tag \<and> has_data_buffer tag st
              then (True, Some (tag_field_number tag), subtype_idx, has_nonproto)
              else (False, None, subtype_idx, has_nonproto));
        (needed, sn) =
          (if reads_buffer then
             (case sn_read_varint32 sn of
                (Some idx, sn) \<Rightarrow>
                  let buf_idx = unat idx
                  in (if buf_idx < num_buffers \<and>
                         (case field_number_opt of None \<Rightarrow> True | Some n \<Rightarrow> mentions_field n p)
                      then needed[buf_idx := True] else needed, sn)
              | (None, sn) \<Rightarrow> (needed, sn))
           else (needed, sn))
      in scan_tags subtypes_bytes num_buffers p tags subtype_idx has_nonproto needed sn)"

definition compute_needed_buffers_from_scan ::
  "u32 list \<Rightarrow> bytes \<Rightarrow> BufferCursorSnapshot \<Rightarrow> nat \<Rightarrow> FieldProjection \<Rightarrow> bool list" where
  "compute_needed_buffers_from_scan tags subtypes_bytes sn num_buffers p =
     (if num_buffers = 0 then []
      else if has_full_include p then replicate num_buffers True
      else case scan_tags subtypes_bytes num_buffers p tags 0 False (replicate num_buffers False) sn of
        (has_nonproto, needed) \<Rightarrow> if has_nonproto then needed[num_buffers - 1 := True] else needed)"

section \<open>The header\<close>

record ParsedHeader =
  ph_buffers :: "BufferCursor list"
  ph_num_states :: nat
  ph_tags :: "u32 list"
  ph_next_node_indices :: "u32 list"
  ph_subtypes_bytes :: bytes
  ph_hdr :: BufferCursor
  ph_num_buffers :: nat
  ph_compression_type :: CompressionType
  ph_transitions_compressed :: bytes

text \<open>Section 2 and 3 of a chunk: the compression, the decompressed header, the position behind it.\<close>

definition chunk_header_section :: "codec \<Rightarrow> bytes \<Rightarrow> (CompressionType \<times> bytes \<times> nat) res" where
  "chunk_header_section C data =
     (if data = [] then Inl (MalformedData ''transpose chunk data is empty'')
      else bind_res (compression_try_from (hd data)) (\<lambda>ct.
        bind_res (map_err (\<lambda>_. MalformedData ''reading header_length'') (decode_u64 (drop 1 data))) (\<lambda>(header_length, consumed).
          let pos = 1 + consumed;
              header_end = pos + unat header_length
          in if u64_max < header_end then Inl (MalformedData ''transpose header length overflows'')
             else if length data < header_end then Inl (MalformedData ''transpose header extends past chunk data'')
             else bind_res (decompress_with_prefix C (take (unat header_length) (drop pos data)) ct) (\<lambda>header_data.
               Inr (ct, header_data, header_end)))))"

text \<open>The counts, the sizes of the buckets and of the buffers.\<close>

definition read_sizes :: "(BufferCursor, nat list \<times> nat list) action" where
  "read_sizes =
     then_do bc_read_varint32 (\<lambda>num_buckets.
     then_do bc_read_varint32 (\<lambda>num_buffers.
     then_do (read_times (unat num_buckets) bc_read_varint64) (\<lambda>buckets.
     then_do (read_times (unat num_buffers) bc_read_varint64) (\<lambda>buffers.
     ret (map unat buckets, map unat buffers)))))"

definition parse_header_and_buckets_with_projection ::
  "codec \<Rightarrow> bytes \<Rightarrow> FieldProjection option \<Rightarrow> ParsedHeader res option" where
  "parse_header_and_buckets_with_projection C data projection =
     bind_try (Some (chunk_header_section C data)) (\<lambda>(ct, header_data, pos).
       case then_do read_sizes (\<lambda>sizes. then_do parse_state_metadata (\<lambda>sm. ret (sizes, sm))) (bc_new header_data) of
         (Inl e, _) \<Rightarrow> Some (Inl e)
       | (Inr ((bucket_sizes, buffer_sizes), sm), hdr) \<Rightarrow>
           bind_try (Some (read_bucket_data data pos bucket_sizes)) (\<lambda>(buckets, new_pos).
             let transitions = drop new_pos data;
                 num_buffers = length buffer_sizes;
                 needed = (case projection of
                     Some p \<Rightarrow> compute_needed_buffers_from_scan (sm_tags sm) (sm_subtypes_bytes sm) (bc_snapshot hdr) num_buffers p
                   | None \<Rightarrow> replicate num_buffers True)
             in bind_try (decompress_into_buffers_with_pruning C buckets buffer_sizes ct needed) (\<lambda>buffers.
               Some (Inr \<lparr>ph_buffers = buffers, ph_num_states = sm_num_states sm, ph_tags = sm_tags sm,
                 ph_next_node_indices = sm_next_node_indices sm, ph_subtypes_bytes = sm_subtypes_bytes sm,
                 ph_hdr = hdr, ph_num_buffers = num_buffers, ph_compression_type = ct,
                 ph_transitions_compressed = transitions\<rparr>))))"

end
