(* ===== verification/TransposeMachine.thy ===== *)
theory TransposeMachine
  imports TransposeParse Iteration
begin

text \<open>
  \<^verbatim>\<open>riegeli/src/transpose/decoder.rs\<close>, second part: the nodes of the state machine, their actions, the
  loop that runs them, and the decoder.  An index or slice out of range is \<open>None\<close>, as is a loop that
  does not return.
\<close>

section \<open>Nodes\<close>

datatype CallbackType =
    NoOp | MessageStart | SubmessageStart | SubmessageEnd | NonProto | CopyTag
  | VarintField u8 | Fixed32Field | Fixed64Field | StringField | ExistenceOnlyField | Failure
  | SelectCallback | SkippedSubmessageEnd | EndProjectionGroup | StartProjectionGroup | SkippedSubmessageStart

record NodeTemplate =
  nt_tag :: u32
  nt_subtype :: u8
  nt_tag_length :: nat

record StateMachineNode =
  sn_tag_data :: bytes
  sn_tag_data_size :: nat
  sn_callback_type :: CallbackType
  sn_buffer_index :: "nat option"
  sn_next_node_index :: nat
  sn_is_implicit :: bool
  sn_node_template_index :: "nat option"

definition plain_node :: "CallbackType \<Rightarrow> nat option \<Rightarrow> nat \<Rightarrow> bool \<Rightarrow> nat option \<Rightarrow> StateMachineNode" where
  "plain_node callback buffer next_node_idx is_implicit template =
     \<lparr>sn_tag_data = [], sn_tag_data_size = 0, sn_callback_type = callback, sn_buffer_index = buffer,
      sn_next_node_index = next_node_idx, sn_is_implicit = is_implicit, sn_node_template_index = template\<rparr>"

definition callback_for_wire_type :: "WireType option \<Rightarrow> u8 \<Rightarrow> CallbackType res" where
  "callback_for_wire_type wt st =
     (case wt of
        Some WVarint \<Rightarrow>
          if VARINT_INLINE_MAX < st then Inl (MalformedData ''invalid varint subtype'')
          else if VARINT_INLINE_0 \<le> st then Inr CopyTag
          else Inr (VarintField (st + 1))
      | Some Fixed32 \<Rightarrow> Inr Fixed32Field
      | Some Fixed64 \<Rightarrow> Inr Fixed64Field
      | Some LengthDelimited \<Rightarrow>
          if st = LENGTH_DELIMITED_STRING then Inr StringField
          else if st = LENGTH_DELIMITED_END_OF_SUBMESSAGE then Inr SubmessageEnd
          else Inl (MalformedData ''unknown LengthDelimited subtype'')
      | Some StartGroup \<Rightarrow> Inr CopyTag
      | Some EndGroup \<Rightarrow> Inr CopyTag
      | None \<Rightarrow> Inl (MalformedData ''invalid wire type in tag''))"

section \<open>Building the nodes\<close>

text \<open>The mutable arguments of the builders: the header, the index of the next subtype, the flag and the templates.\<close>

record BuildState =
  bs_hdr :: BufferCursor
  bs_subtype_idx :: nat
  bs_has_nonproto_op :: bool
  bs_node_templates :: "NodeTemplate list"

definition on_hdr :: "(BufferCursor, 'a) action \<Rightarrow> (BuildState, 'a) trial" where
  "on_hdr m b = (case m (bs_hdr b) of (r, c) \<Rightarrow> Some (r, b\<lparr>bs_hdr := c\<rparr>))"

definition push_template :: "NodeTemplate \<Rightarrow> (BuildState, nat) trial" where
  "push_template t b = Some (Inr (length (bs_node_templates b)), b\<lparr>bs_node_templates := bs_node_templates b @ [t]\<rparr>)"

definition next_subtype :: "bytes \<Rightarrow> (BuildState, u8) trial" where
  "next_subtype subtypes_bytes b =
     (case item_at subtypes_bytes (bs_subtype_idx b) of
        None \<Rightarrow> None
      | Some st \<Rightarrow> Some (Inr st, b\<lparr>bs_subtype_idx := bs_subtype_idx b + 1\<rparr>))"

definition read_buffer_index :: "nat \<Rightarrow> string \<Rightarrow> (BuildState, nat) trial" where
  "read_buffer_index num_buffers msg =
     try_then (on_hdr bc_read_varint32) (\<lambda>idx.
       surely (if num_buffers \<le> unat idx then fail_with (MalformedData msg) else ret (unat idx)))"

definition build_proto_tag_node ::
  "u32 \<Rightarrow> nat \<Rightarrow> bool \<Rightarrow> nat \<Rightarrow> bytes \<Rightarrow> bool \<Rightarrow> (BuildState, StateMachineNode) trial" where
  "build_proto_tag_node raw_tag next_node_idx is_implicit num_buffers subtypes_bytes projection_enabled =
     (let (tag, st) =
        (if raw_tag AND 7 = SUBMESSAGE_WIRE_TYPE
         then (raw_tag - SUBMESSAGE_WIRE_TYPE + wire_type_raw LengthDelimited, LENGTH_DELIMITED_END_OF_SUBMESSAGE)
         else (raw_tag, TRIVIAL))
      in if \<not> is_valid_proto_tag tag then surely (fail_with (MalformedData ''invalid tag in state''))
         else
           let tag_bytes = encode_u32 tag;
               tag_length = length tag_bytes
           in try_then (if has_subtype tag then next_subtype subtypes_bytes else surely (ret st)) (\<lambda>st.
              try_then (if has_data_buffer tag st
                        then try_then (read_buffer_index num_buffers ''buffer index too large'') (\<lambda>i. surely (ret (Some i)))
                        else surely (ret None)) (\<lambda>buf_idx.
                let (tag_data, tag_data_size) =
                  (if tag_wire_type tag = Some WVarint \<and> VARINT_INLINE_0 \<le> st
                   then (tag_bytes @ [st - VARINT_INLINE_0], tag_length + 1)
                   else (tag_bytes, tag_length))
                in if projection_enabled then
                     try_then (push_template \<lparr>nt_tag = tag, nt_subtype = st, nt_tag_length = tag_length\<rparr>) (\<lambda>tmpl_idx.
                       surely (ret \<lparr>sn_tag_data = tag_data, sn_tag_data_size = tag_data_size,
                         sn_callback_type = SelectCallback, sn_buffer_index = buf_idx, sn_next_node_index = next_node_idx,
                         sn_is_implicit = is_implicit, sn_node_template_index = Some tmpl_idx\<rparr>))
                   else
                     try_then (surely (of_res (callback_for_wire_type (tag_wire_type tag) st))) (\<lambda>callback.
                       surely (ret \<lparr>sn_tag_data = tag_data, sn_tag_data_size = tag_data_size,
                         sn_callback_type = callback, sn_buffer_index = buf_idx, sn_next_node_index = next_node_idx,
                         sn_is_implicit = is_implicit, sn_node_template_index = None\<rparr>)))))"

definition set_nonproto :: "(BuildState, unit) trial" where
  "set_nonproto b = Some (Inr (), b\<lparr>bs_has_nonproto_op := True\<rparr>)"

definition build_single_node ::
  "u32 \<Rightarrow> nat \<Rightarrow> bool \<Rightarrow> nat \<Rightarrow> bytes \<Rightarrow> bool \<Rightarrow> (BuildState, StateMachineNode) trial" where
  "build_single_node raw_tag next_node_idx is_implicit num_buffers subtypes_bytes projection_enabled =
     (if raw_tag = NO_OP then surely (ret (plain_node NoOp None next_node_idx is_implicit None))
      else if raw_tag = NON_PROTO then
        try_then (read_buffer_index num_buffers ''nonproto buffer index too large'') (\<lambda>buf_idx.
        try_then set_nonproto (\<lambda>_.
        surely (ret (plain_node NonProto (Some buf_idx) next_node_idx is_implicit None))))
      else if raw_tag = START_OF_MESSAGE then surely (ret (plain_node MessageStart None next_node_idx is_implicit None))
      else if raw_tag = START_OF_SUBMESSAGE then
        if projection_enabled then
          try_then (push_template \<lparr>nt_tag = START_OF_SUBMESSAGE, nt_subtype = 0, nt_tag_length = 0\<rparr>) (\<lambda>tmpl_idx.
            surely (ret (plain_node SelectCallback None next_node_idx is_implicit (Some tmpl_idx))))
        else surely (ret (plain_node SubmessageStart None next_node_idx is_implicit None))
      else build_proto_tag_node raw_tag next_node_idx is_implicit num_buffers subtypes_bytes projection_enabled)"

text \<open>The body of the loop over the states.\<close>

definition build_state ::
  "ParsedHeader \<Rightarrow> bool \<Rightarrow> nat \<Rightarrow> (BuildState, StateMachineNode) trial" where
  "build_state ph projection_enabled i =
     try_then (unless_panic (item_at (ph_tags ph) i)) (\<lambda>raw_tag.
     try_then (unless_panic (item_at (ph_next_node_indices ph) i)) (\<lambda>next_raw.
       let num_states = ph_num_states ph; next_raw = unat next_raw
       in try_then
            (surely (if num_states \<le> next_raw then
               let adjusted = next_raw - num_states
               in if num_states \<le> adjusted then fail_with (MalformedData ''node index too large'') else ret (True, adjusted)
             else ret (False, next_raw)))
            (\<lambda>(is_implicit, next_node_idx).
               build_single_node raw_tag next_node_idx is_implicit (ph_num_buffers ph) (ph_subtypes_bytes ph) projection_enabled)))"

definition failure_node :: StateMachineNode where
  "failure_node = plain_node Failure None 0 False None"

text \<open>
  \<open>contains_implicit_loop\<close>: the inner loop follows the implicit transitions from a node and marks the
  nodes it passes with \<open>next_id\<close>.  It ends at a marked node or at a node without one; only marking an
  unmarked node goes on.
\<close>

function follow_implicit ::
  "StateMachineNode list \<Rightarrow> nat \<Rightarrow> nat \<Rightarrow> nat list \<Rightarrow> (bool \<times> nat list) option" where
  "follow_implicit nodes next_id idx loop_ids =
     (case item_at nodes idx of None \<Rightarrow> None | Some node \<Rightarrow>
      if sn_is_implicit node then
        let idx = sn_next_node_index node
        in if length nodes \<le> idx then Some (False, loop_ids)
           else case item_at loop_ids idx of None \<Rightarrow> None | Some l \<Rightarrow>
             if l = next_id then Some (True, loop_ids)
             else if l \<noteq> 0 then Some (False, loop_ids)
             else if next_id = 0 then None
             else follow_implicit nodes next_id idx (loop_ids[idx := next_id])
      else Some (False, loop_ids))"
  by pat_completeness auto

lemma count_zeros_update:
  "i < length xs \<Longrightarrow> xs ! i = 0 \<Longrightarrow> n \<noteq> 0 \<Longrightarrow> count_list (xs[i := n]) (0 :: nat) < count_list xs 0"
proof (induction xs arbitrary: i)
  case (Cons x xs)
  then show ?case by (cases i) auto
qed simp

termination follow_implicit
  by (relation "measure (\<lambda>(nodes, next_id, idx, loop_ids). count_list loop_ids 0)") (auto intro: count_zeros_update)

declare follow_implicit.simps [simp del]

fun implicit_loop_from ::
  "StateMachineNode list \<Rightarrow> nat list \<Rightarrow> nat \<Rightarrow> nat list \<Rightarrow> bool option" where
  "implicit_loop_from nodes [] next_id loop_ids = Some False"
| "implicit_loop_from nodes (i # is) next_id loop_ids =
     (case item_at loop_ids i of None \<Rightarrow> None | Some l \<Rightarrow>
      if l \<noteq> 0 then implicit_loop_from nodes is next_id loop_ids
      else case follow_implicit nodes next_id i (loop_ids[i := next_id]) of
        None \<Rightarrow> None
      | Some (True, _) \<Rightarrow> Some True
      | Some (False, loop_ids) \<Rightarrow> implicit_loop_from nodes is (next_id + 1) loop_ids)"

definition contains_implicit_loop :: "StateMachineNode list \<Rightarrow> bool option" where
  "contains_implicit_loop nodes =
     implicit_loop_from nodes [0..<length nodes] 1 (replicate (length nodes) 0)"

record BuiltStateMachine =
  sm_nodes :: "StateMachineNode list"
  sm_first_node :: nat
  sm_has_nonproto_op :: bool
  sm_node_templates :: "NodeTemplate list"

definition build_state_machine_nodes :: "ParsedHeader \<Rightarrow> bool \<Rightarrow> BuiltStateMachine res option" where
  "build_state_machine_nodes ph projection_enabled =
     (case try_then (try_each (build_state ph projection_enabled) [0..<ph_num_states ph]) (\<lambda>nodes.
           try_then (on_hdr bc_read_varint32) (\<lambda>first_node. surely (ret (nodes, unat first_node))))
         \<lparr>bs_hdr = ph_hdr ph, bs_subtype_idx = 0, bs_has_nonproto_op = False, bs_node_templates = []\<rparr> of
        None \<Rightarrow> None
      | Some (Inl e, _) \<Rightarrow> Some (Inl e)
      | Some (Inr (nodes, first_node), b) \<Rightarrow>
          if ph_num_states ph \<le> first_node then Some (Inl (MalformedData ''first_node >= num_states''))
          else
            let nodes = nodes @ replicate 255 failure_node
            in case contains_implicit_loop nodes of
                 None \<Rightarrow> None
               | Some True \<Rightarrow> Some (Inl (MalformedData ''state machine contains an implicit loop''))
               | Some False \<Rightarrow>
                   if \<not> bc_is_empty (bs_hdr b) then Some (Inl (MalformedData ''trailing data in transpose header''))
                   else Some (Inr \<lparr>sm_nodes = nodes, sm_first_node = first_node,
                          sm_has_nonproto_op = bs_has_nonproto_op b, sm_node_templates = bs_node_templates b\<rparr>))"

section \<open>The output, written backward\<close>

record BackwardBuffer =
  bb_data :: bytes \<comment> \<open>in reverse order\<close>
  bb_limit :: nat

definition bb_new :: "nat \<Rightarrow> BackwardBuffer" where
  "bb_new limit = \<lparr>bb_data = [], bb_limit = limit\<rparr>"

definition bb_pos :: "BackwardBuffer \<Rightarrow> nat" where
  "bb_pos b = length (bb_data b)"

text \<open>The data is never longer than the limit, so the difference does not underflow.\<close>

definition bb_write :: "bytes \<Rightarrow> (BackwardBuffer, unit) action" where
  "bb_write bs b =
     (if bb_limit b - length (bb_data b) < length bs
      then (Inl (MalformedData ''decoded data size larger than expected''), b)
      else (Inr (), b\<lparr>bb_data := bb_data b @ rev bs\<rparr>))"

definition into_forward :: "BackwardBuffer \<Rightarrow> bytes" where
  "into_forward b = rev (bb_data b)"

section \<open>The state of the decoding\<close>

record SubmessageFrame =
  fr_end_pos :: nat
  fr_node_index :: nat

record DecodeState =
  ds_dest :: BackwardBuffer
  ds_buffers :: "BufferCursor list"
  ds_submessage_stack :: "SubmessageFrame list" \<comment> \<open>the top of the stack last\<close>
  ds_limits :: "nat list"
  ds_num_records :: u64
  ds_nonproto_lengths_index :: "nat option"
  ds_node_templates :: "NodeTemplate list"
  ds_include_map :: "IncludeFieldMap option"
  ds_skipped_submessage_level :: "32 word" \<comment> \<open>signed\<close>

definition dest_write :: "bytes \<Rightarrow> (DecodeState, unit) trial" where
  "dest_write bs s = (case bb_write bs (ds_dest s) of (r, b) \<Rightarrow> Some (r, s\<lparr>ds_dest := b\<rparr>))"

definition with_buffer :: "nat \<Rightarrow> (BufferCursor, 'a) action \<Rightarrow> (DecodeState, 'a) trial" where
  "with_buffer i m s =
     (case item_at (ds_buffers s) i of
        None \<Rightarrow> None
      | Some c \<Rightarrow> (case m c of (r, c) \<Rightarrow> Some (r, s\<lparr>ds_buffers := (ds_buffers s)[i := c]\<rparr>)))"

definition push_frame :: "nat \<Rightarrow> (DecodeState, unit) trial" where
  "push_frame node_idx s =
     Some (Inr (), s\<lparr>ds_submessage_stack := ds_submessage_stack s @
       [\<lparr>fr_end_pos = bb_pos (ds_dest s), fr_node_index = node_idx\<rparr>]\<rparr>)"

definition pop_frame :: "riegeli_error \<Rightarrow> (DecodeState, SubmessageFrame) trial" where
  "pop_frame e s =
     (if ds_submessage_stack s = [] then Some (Inl e, s)
      else Some (Inr (last (ds_submessage_stack s)), s\<lparr>ds_submessage_stack := butlast (ds_submessage_stack s)\<rparr>))"

definition push_limit :: "(DecodeState, unit) trial" where
  "push_limit s =
     (if of_nat (length (ds_limits s)) = ds_num_records s then Some (Inl (MalformedData ''too many records''), s)
      else Some (Inr (), s\<lparr>ds_limits := ds_limits s @ [bb_pos (ds_dest s)]\<rparr>))"

definition check_stack_empty :: "riegeli_error \<Rightarrow> (DecodeState, unit) trial" where
  "check_stack_empty e s = (if ds_submessage_stack s \<noteq> [] then Some (Inl e, s) else Some (Inr (), s))"

section \<open>Resolving a deferred callback\<close>

definition callback_for_field_included :: "FieldIncluded \<Rightarrow> u32 \<Rightarrow> u8 \<Rightarrow> CallbackType res" where
  "callback_for_field_included field_included tag st =
     (let wt = tag_wire_type tag
      in case field_included of
           Included_Yes \<Rightarrow>
             (case wt of
                Some EndGroup \<Rightarrow> Inr EndProjectionGroup
              | Some StartGroup \<Rightarrow> Inr StartProjectionGroup
              | _ \<Rightarrow> callback_for_wire_type wt st)
         | Included_No \<Rightarrow>
             (case wt of
                Some WVarint \<Rightarrow> Inr NoOp
              | Some Fixed32 \<Rightarrow> Inr NoOp
              | Some Fixed64 \<Rightarrow> Inr NoOp
              | Some LengthDelimited \<Rightarrow>
                  if st = LENGTH_DELIMITED_STRING then Inr NoOp
                  else if st = LENGTH_DELIMITED_END_OF_SUBMESSAGE then Inr SkippedSubmessageEnd
                  else Inl (MalformedData ''unknown LengthDelimited subtype in excluded field'')
              | Some StartGroup \<Rightarrow> Inr SkippedSubmessageStart
              | Some EndGroup \<Rightarrow> Inr SkippedSubmessageEnd
              | None \<Rightarrow> Inl (MalformedData ''invalid wire type in excluded field''))
         | Included_ExistenceOnly \<Rightarrow>
             if wt = Some LengthDelimited \<and> st = LENGTH_DELIMITED_END_OF_SUBMESSAGE then Inr SubmessageEnd
             else if wt = Some EndGroup then Inr EndProjectionGroup
             else if wt = Some StartGroup then Inr StartProjectionGroup
             else Inr ExistenceOnlyField)"

text \<open>The walk over the frames: the classification so far and the current parent.\<close>

fun walk_frames ::
  "IncludeFieldMap \<Rightarrow> StateMachineNode list \<Rightarrow> u32 \<Rightarrow> SubmessageFrame list \<Rightarrow> (FieldIncluded \<times> u32) res option" where
  "walk_frames include_map nodes current_parent_id [] = Some (Inr (Included_ExistenceOnly, current_parent_id))"
| "walk_frames include_map nodes current_parent_id (frame # frames) =
     (case item_at nodes (fr_node_index frame) of
        None \<Rightarrow> None
      | Some frame_node \<Rightarrow>
          if sn_tag_data frame_node = [] then Some (Inr (Included_No, current_parent_id))
          else bind_try (Some (map_err (\<lambda>_. MalformedData ''decoding frame tag'') (decode_u32 (sn_tag_data frame_node))))
            (\<lambda>(frame_tag, _).
               case include_get include_map current_parent_id (tag_field_number frame_tag) of
                 None \<Rightarrow> Some (Inr (Included_No, current_parent_id))
               | Some entry \<Rightarrow>
                   if if_include_type entry = IncludeFully then Some (Inr (Included_Yes, current_parent_id))
                   else walk_frames include_map nodes (if_field_id entry) frames))"

definition resolve_field ::
  "IncludeFieldMap \<Rightarrow> u32 \<Rightarrow> FieldIncluded \<times> u32 \<Rightarrow> FieldIncluded" where
  "resolve_field include_map tag = (\<lambda>(field_included, current_parent_id).
     if field_included = Included_ExistenceOnly then
       (case include_get include_map current_parent_id (tag_field_number tag) of
          None \<Rightarrow> Included_No
        | Some entry \<Rightarrow>
            if if_include_type entry = IncludeFully \<or> if_include_type entry = IncludeChild
            then Included_Yes else Included_ExistenceOnly)
     else field_included)"

definition resolve_select_callback ::
  "StateMachineNode \<Rightarrow> NodeTemplate list \<Rightarrow> IncludeFieldMap \<Rightarrow> SubmessageFrame list \<Rightarrow> StateMachineNode list \<Rightarrow>
   32 word \<Rightarrow> CallbackType res option" where
  "resolve_select_callback node templates include_map stack nodes skipped_level =
     bind_try (Some (ok_or (MalformedData ''SelectCallback node missing template index'') (sn_node_template_index node))) (\<lambda>tmpl_idx.
       case item_at templates tmpl_idx of
         None \<Rightarrow> None
       | Some tmpl \<Rightarrow>
           if nt_tag tmpl = START_OF_SUBMESSAGE then
             Some (Inr (if 0 < sint skipped_level then SkippedSubmessageStart else SubmessageStart))
           else
             bind_try
               (if skipped_level = 0 then
                  bind_try (walk_frames include_map nodes INVALID_POS
                    (if tag_wire_type (nt_tag tmpl) = Some StartGroup then butlast stack else stack)) (\<lambda>w.
                    Some (Inr (resolve_field include_map (nt_tag tmpl) w)))
                else Some (Inr Included_No))
               (\<lambda>field_included. Some (callback_for_field_included field_included (nt_tag tmpl) (nt_subtype tmpl))))"

section \<open>The actions of the nodes\<close>

definition write_submessage_header :: "StateMachineNode list \<Rightarrow> (DecodeState, unit) trial" where
  "write_submessage_header nodes =
     try_then (pop_frame (MalformedData ''submessage stack underflow'')) (\<lambda>frame s.
       if bb_pos (ds_dest s) < fr_end_pos frame then Some (Inl (MalformedData ''destination position decreased''), s)
       else
         let len = bb_pos (ds_dest s) - fr_end_pos frame
         in if 4294967295 < len then Some (Inl (MalformedData ''submessage too large''), s)
            else case item_at nodes (fr_node_index frame) of
              None \<Rightarrow> None
            | Some submsg_node \<Rightarrow>
                (case prefix_at (sn_tag_data submsg_node) (sn_tag_data_size submsg_node) of
                   None \<Rightarrow> None
                 | Some tag_bytes \<Rightarrow> dest_write (tag_bytes @ encode_u32 (of_nat len)) s))"

definition node_tag :: "StateMachineNode \<Rightarrow> (DecodeState, bytes) trial" where
  "node_tag node = unless_panic (prefix_at (sn_tag_data node) (sn_tag_data_size node))"

definition node_buffer :: "string \<Rightarrow> StateMachineNode \<Rightarrow> (DecodeState, nat) trial" where
  "node_buffer msg node = surely (of_res (ok_or (MalformedData msg) (sn_buffer_index node)))"

definition write_nonproto_record :: "StateMachineNode \<Rightarrow> (DecodeState, unit) trial" where
  "write_nonproto_record node s = try_then
     (surely (of_res (ok_or (MalformedData ''nonproto op but no lengths buffer'') (ds_nonproto_lengths_index s)))) (\<lambda>lengths_idx.
     try_then (with_buffer lengths_idx bc_read_varint32) (\<lambda>len.
     try_then (node_buffer ''nonproto node missing buffer index'' node) (\<lambda>data_idx.
     try_then (with_buffer data_idx (bc_read_exact (unat len))) (\<lambda>data_bytes.
     try_then (dest_write data_bytes) (\<lambda>_.
     try_then (check_stack_empty (MalformedData ''submessages still open at nonproto record'')) (\<lambda>_.
     push_limit)))))) s"

text \<open>\<open>raw.len() - 1\<close> does not underflow: the loop body only runs when there is a byte.\<close>

definition restore_high_bits :: "bytes \<Rightarrow> bytes" where
  "restore_high_bits raw = (if raw = [] then [] else map (\<lambda>b. b OR 0x80) (butlast raw) @ [last raw])"

definition write_varint_field :: "StateMachineNode \<Rightarrow> u8 \<Rightarrow> (DecodeState, unit) trial" where
  "write_varint_field node data_length =
     try_then (node_buffer ''varint node missing buffer index'' node) (\<lambda>buf_idx.
     try_then (with_buffer buf_idx (bc_read_exact (unat data_length))) (\<lambda>raw.
     try_then (node_tag node) (\<lambda>tag.
     dest_write (tag @ restore_high_bits raw))))"

definition write_fixed_field :: "StateMachineNode \<Rightarrow> nat \<Rightarrow> (DecodeState, unit) trial" where
  "write_fixed_field node n =
     try_then (node_buffer ''fixed field node missing buffer index'' node) (\<lambda>buf_idx.
     try_then (with_buffer buf_idx (bc_read_exact n)) (\<lambda>data.
     try_then (node_tag node) (\<lambda>tag.
     dest_write (tag @ data))))"

text \<open>The length as it is stored, and the payload; a pruned cursor gives an empty string.\<close>

definition read_string :: "(BufferCursor, bytes) action" where
  "read_string c =
     (if bc_pruned c then (Inr [0], c)
      else then_do bc_read_varint32 (\<lambda>str_len.
        then_do (bc_read_exact (unat str_len)) (\<lambda>_ c'.
          (Inr (drop (bc_pos c) (take (bc_pos c') (bc_data c'))), c'))) c)"

definition write_string_field :: "StateMachineNode \<Rightarrow> (DecodeState, unit) trial" where
  "write_string_field node =
     try_then (node_buffer ''string node missing buffer index'' node) (\<lambda>buf_idx.
     try_then (with_buffer buf_idx read_string) (\<lambda>len_and_payload.
     try_then (node_tag node) (\<lambda>tag.
     dest_write (tag @ len_and_payload))))"

definition zero_value :: "WireType option \<Rightarrow> bytes" where
  "zero_value wt =
     (case wt of
        Some WVarint \<Rightarrow> [0]
      | Some Fixed32 \<Rightarrow> replicate 4 0
      | Some Fixed64 \<Rightarrow> replicate 8 0
      | Some LengthDelimited \<Rightarrow> [0]
      | _ \<Rightarrow> [])"

text \<open>The stack buffer has 13 bytes.\<close>

definition existence_write :: "StateMachineNode \<Rightarrow> u32 \<Rightarrow> nat \<Rightarrow> (DecodeState, unit) trial" where
  "existence_write node tag tag_length =
     (let tag_bytes = take (sn_tag_data_size node) (sn_tag_data node);
          tag_only = take tag_length tag_bytes;
          zero = zero_value (tag_wire_type tag)
      in if 13 < length tag_only + length zero then (\<lambda>_. None) else dest_write (tag_only @ zero))"

definition write_existence_only_field :: "StateMachineNode \<Rightarrow> (DecodeState, unit) trial" where
  "write_existence_only_field node s =
     (case sn_node_template_index node of
        Some tmpl_idx \<Rightarrow>
          (case item_at (ds_node_templates s) tmpl_idx of
             None \<Rightarrow> None
           | Some tmpl \<Rightarrow> existence_write node (nt_tag tmpl) (nt_tag_length tmpl) s)
      | None \<Rightarrow>
          if sn_tag_data node \<noteq> [] then
            (case decode_u32 (sn_tag_data node) of
               Inl _ \<Rightarrow> Some (Inl (MalformedData ''decoding tag''), s)
             | Inr (tag, _) \<Rightarrow> existence_write node tag (length (encode_u32 tag)) s)
          else Some (Inr (), s))"

definition resolve_callback ::
  "StateMachineNode \<Rightarrow> StateMachineNode list \<Rightarrow> DecodeState \<Rightarrow> CallbackType res option" where
  "resolve_callback node nodes s =
     (if sn_callback_type node = SelectCallback then
        (case ds_include_map s of
           Some include_map \<Rightarrow>
             resolve_select_callback node (ds_node_templates s) include_map (ds_submessage_stack s) nodes
               (ds_skipped_submessage_level s)
         | None \<Rightarrow>
             bind_try (Some (ok_or (MalformedData ''SelectCallback missing template'') (sn_node_template_index node))) (\<lambda>tmpl_idx.
               case item_at (ds_node_templates s) tmpl_idx of
                 None \<Rightarrow> None
               | Some tmpl \<Rightarrow>
                   if nt_tag tmpl = START_OF_SUBMESSAGE then Some (Inr SubmessageStart)
                   else Some (callback_for_wire_type (tag_wire_type (nt_tag tmpl)) (nt_subtype tmpl))))
      else Some (Inr (sn_callback_type node)))"

definition frame_is_group :: "StateMachineNode \<Rightarrow> bool" where
  "frame_is_group frame_node =
     (sn_tag_data frame_node \<noteq> [] \<and>
      (case decode_u32 (sn_tag_data frame_node) of
         Inl _ \<Rightarrow> False
       | Inr (t, _) \<Rightarrow> tag_wire_type t = Some EndGroup))"

definition start_projection_group :: "StateMachineNode \<Rightarrow> StateMachineNode list \<Rightarrow> (DecodeState, unit) trial" where
  "start_projection_group node nodes =
     try_then (pop_frame (MalformedData ''group frame stack underflow'')) (\<lambda>frame.
     try_then (unless_panic (item_at nodes (fr_node_index frame))) (\<lambda>frame_node.
     try_then (surely (of_res (guard_res (frame_is_group frame_node) (MalformedData ''group start paired with a non-group frame'')))) (\<lambda>_.
     try_then (node_tag node) dest_write)))"

definition change_skipped_level :: "32 word \<Rightarrow> (DecodeState, unit) trial" where
  "change_skipped_level d s = Some (Inr (), s\<lparr>ds_skipped_submessage_level := ds_skipped_submessage_level s + d\<rparr>)"

definition skipped_submessage_start :: "(DecodeState, unit) trial" where
  "skipped_submessage_start s =
     (if sint (ds_skipped_submessage_level s) \<le> 0
      then Some (Inl (MalformedData ''skipped submessage stack underflow''), s)
      else change_skipped_level (- 1) s)"

fun perform :: "CallbackType \<Rightarrow> StateMachineNode \<Rightarrow> nat \<Rightarrow> StateMachineNode list \<Rightarrow> (DecodeState, unit) trial" where
  "perform NoOp node idx nodes = surely (ret ())"
| "perform MessageStart node idx nodes =
     try_then (check_stack_empty (MalformedData ''submessages still open at record boundary'')) (\<lambda>_. push_limit)"
| "perform SubmessageEnd node idx nodes = push_frame idx"
| "perform SubmessageStart node idx nodes = write_submessage_header nodes"
| "perform NonProto node idx nodes = write_nonproto_record node"
| "perform CopyTag node idx nodes = try_then (node_tag node) dest_write"
| "perform (VarintField data_length) node idx nodes = write_varint_field node data_length"
| "perform Fixed32Field node idx nodes = write_fixed_field node 4"
| "perform Fixed64Field node idx nodes = write_fixed_field node 8"
| "perform StringField node idx nodes = write_string_field node"
| "perform ExistenceOnlyField node idx nodes = write_existence_only_field node"
| "perform Failure node idx nodes = surely (fail_with (MalformedData ''hit failure node in state machine''))"
| "perform SkippedSubmessageEnd node idx nodes = change_skipped_level 1"
| "perform EndProjectionGroup node idx nodes = try_then (push_frame idx) (\<lambda>_. try_then (node_tag node) dest_write)"
| "perform StartProjectionGroup node idx nodes = start_projection_group node nodes"
| "perform SkippedSubmessageStart node idx nodes = skipped_submessage_start"
| "perform SelectCallback node idx nodes = surely (fail_with (MalformedData ''unresolved SelectCallback in decode loop''))"

definition execute_node_action :: "StateMachineNode \<Rightarrow> nat \<Rightarrow> StateMachineNode list \<Rightarrow> (DecodeState, unit) trial" where
  "execute_node_action node idx nodes s =
     (case resolve_callback node nodes s of
        None \<Rightarrow> None
      | Some (Inl e) \<Rightarrow> Some (Inl e, s)
      | Some (Inr callback) \<Rightarrow> perform callback node idx nodes s)"

section \<open>The loop\<close>

text \<open>\<open>num_iters\<close> is between 0 and 4, a natural.  The answer: the next node, the count, and whether to stop.\<close>

definition advance_state_machine ::
  "nat \<Rightarrow> nat \<Rightarrow> StateMachineNode list \<Rightarrow> (BufferCursor, nat \<times> nat \<times> bool) trial" where
  "advance_state_machine current num_iters nodes transitions =
     (case item_at nodes current of
        None \<Rightarrow> None
      | Some node \<Rightarrow>
          let idx = sn_next_node_index node
          in if num_iters = 0 then
               if bc_is_empty transitions then Some (Inr (idx, 0, True), transitions)
               else (case bc_read_byte transitions of
                   (Inl e, transitions) \<Rightarrow> Some (Inl e, transitions)
                 | (Inr tb, transitions) \<Rightarrow>
                     let offset = unat (drop_bit 2 tb);
                         rep = unat (tb AND 3);
                         idx = idx + offset
                     in if length nodes \<le> idx then Some (Inl (MalformedData ''transition offset overflow''), transitions)
                        else Some (Inr (idx, rep + (if sn_is_implicit (nodes ! idx) then 1 else 0), False), transitions))
             else (case item_at nodes idx of
                 None \<Rightarrow> None
               | Some target \<Rightarrow> Some (Inr (idx, num_iters - (if sn_is_implicit target then 0 else 1), False), transitions)))"

definition machine_step ::
  "StateMachineNode list \<Rightarrow> nat \<times> nat \<times> BufferCursor \<times> DecodeState \<Rightarrow>
   (nat \<times> nat \<times> BufferCursor \<times> DecodeState + DecodeState res) option" where
  "machine_step nodes = (\<lambda>(current, num_iters, transitions, s).
     case item_at nodes current of
       None \<Rightarrow> None
     | Some node \<Rightarrow>
         (case execute_node_action node current nodes s of
            None \<Rightarrow> None
          | Some (Inl e, _) \<Rightarrow> Some (Inr (Inl e))
          | Some (Inr _, s) \<Rightarrow>
              (case advance_state_machine current num_iters nodes transitions of
                 None \<Rightarrow> None
               | Some (Inl e, _) \<Rightarrow> Some (Inr (Inl e))
               | Some (Inr (next_idx, iters, stop), transitions) \<Rightarrow>
                   if stop then Some (Inr (Inr s)) else Some (Inl (next_idx, iters, transitions, s)))))"

definition run_state_machine ::
  "u64 \<Rightarrow> u64 \<Rightarrow> BuiltStateMachine \<Rightarrow> BufferCursor list \<Rightarrow> BufferCursor \<Rightarrow> nat option \<Rightarrow> IncludeFieldMap option \<Rightarrow>
   (BackwardBuffer \<times> nat list) res option" where
  "run_state_machine num_records decoded_data_size machine buffers transitions lengths_index include_map =
     (let nodes = sm_nodes machine
      in case item_at nodes (sm_first_node machine) of
           None \<Rightarrow> None
         | Some first \<Rightarrow>
             bind_try
               (iterate (machine_step nodes)
                  (sm_first_node machine, if sn_is_implicit first then 1 else 0, transitions,
                   \<lparr>ds_dest = bb_new (unat decoded_data_size), ds_buffers = buffers, ds_submessage_stack = [], ds_limits = [],
                    ds_num_records = num_records, ds_nonproto_lengths_index = lengths_index,
                    ds_node_templates = sm_node_templates machine, ds_include_map = include_map,
                    ds_skipped_submessage_level = 0\<rparr>))
               (\<lambda>s. if ds_submessage_stack s \<noteq> [] then Some (Inl (MalformedData ''submessages still open after decode''))
                    else if ds_skipped_submessage_level s \<noteq> 0
                    then Some (Inl (MalformedData ''skipped submessages still open after decode''))
                    else if of_nat (length (ds_limits s)) \<noteq> num_records then Some (Inl (MalformedData ''unexpected number of records''))
                    else Some (Inr (ds_dest s, ds_limits s))))"

section \<open>The records\<close>

text \<open>The loop that reverses and complements the limits but the last, from both ends.\<close>

function complement_limits :: "nat \<Rightarrow> nat \<Rightarrow> nat \<Rightarrow> nat list \<Rightarrow> nat list" where
  "complement_limits sz lo hi limits =
     (if lo < hi then
        let hi = hi - 1;
            tmp = sz - limits ! lo
        in complement_limits sz (lo + 1) hi ((limits[lo := sz - limits ! hi])[hi := tmp])
      else limits)"
  by pat_completeness auto

termination complement_limits
  by (relation "measure (\<lambda>(sz, lo, hi, limits). hi)") auto

declare complement_limits.simps [simp del]

fun valid_limits :: "nat \<Rightarrow> nat \<Rightarrow> nat list \<Rightarrow> bool" where
  "valid_limits sz prev [] = True"
| "valid_limits sz prev (stop # limits) = (if sz < stop \<or> stop < prev then False else valid_limits sz stop limits)"

definition finalize_records :: "BackwardBuffer \<Rightarrow> nat list \<Rightarrow> (bytes \<times> nat list) res" where
  "finalize_records dest limits =
     (let total_size = bb_pos dest;
          last_limit = (if limits = [] then 0 else last limits)
      in if last_limit \<noteq> total_size then Inl (MalformedData ''last limit is not the total size'')
         else
           let limits = (if limits = [] then limits else complement_limits total_size 0 (length limits - 1) limits)
           in if valid_limits total_size 0 limits then Inr (into_forward dest, limits)
              else Inl (MalformedData ''record boundary out of range''))"

definition decode_all_records ::
  "u64 \<Rightarrow> u64 \<Rightarrow> BuiltStateMachine \<Rightarrow> BufferCursor list \<Rightarrow> BufferCursor \<Rightarrow> nat option \<Rightarrow> IncludeFieldMap option \<Rightarrow>
   (bytes \<times> nat list) res option" where
  "decode_all_records num_records decoded_data_size machine buffers transitions lengths_index include_map =
     bind_try (run_state_machine num_records decoded_data_size machine buffers transitions lengths_index include_map)
       (\<lambda>(dest, limits).
          if include_map = None \<and> of_nat (bb_pos dest) \<noteq> decoded_data_size
          then Some (Inl (MalformedData ''decoded data size smaller than expected''))
          else Some (finalize_records dest limits))"

section \<open>The decoder\<close>

record TransposeChunkDecoder =
  tc_data :: bytes
  tc_limits :: "nat list"
  tc_next_yield :: nat

definition tc_new_with_projection :: "codec \<Rightarrow> Chunk \<Rightarrow> FieldProjection option \<Rightarrow> TransposeChunkDecoder res option" where
  "tc_new_with_projection C chunk projection =
     (let num_records = ch_num_records (chunk_header chunk);
          decoded_data_size = ch_decoded_data_size (chunk_header chunk);
          active_projection = (case projection of Some p \<Rightarrow> if \<not> is_all p then Some p else None | None \<Rightarrow> None)
      in bind_try (parse_header_and_buckets_with_projection C (chunk_data chunk) active_projection) (\<lambda>parsed.
         let include_map = (case active_projection of Some p \<Rightarrow> from_projection p | None \<Rightarrow> None)
         in bind_try (build_state_machine_nodes parsed (include_map \<noteq> None)) (\<lambda>built.
            bind_try
              (Some (if sm_has_nonproto_op built then
                       if ph_num_buffers parsed = 0 then Inl (MalformedData ''nonproto op but no buffers'')
                       else Inr (Some (ph_num_buffers parsed - 1))
                     else Inr None)) (\<lambda>nonproto_lengths_index.
            bind_try (Some (decompress_with_prefix C (ph_transitions_compressed parsed) (ph_compression_type parsed)))
              (\<lambda>transitions_data.
            bind_try (decode_all_records num_records decoded_data_size built (ph_buffers parsed) (bc_new transitions_data)
                nonproto_lengths_index include_map)
              (\<lambda>(decoded_data, limits).
                Some (Inr \<lparr>tc_data = decoded_data, tc_limits = limits, tc_next_yield = 0\<rparr>)))))))"

definition tc_new :: "codec \<Rightarrow> Chunk \<Rightarrow> TransposeChunkDecoder res option" where
  "tc_new C chunk = tc_new_with_projection C chunk None"

definition tc_read_record :: "TransposeChunkDecoder \<Rightarrow> (bytes option res \<times> TransposeChunkDecoder) option" where
  "tc_read_record d =
     (if length (tc_limits d) \<le> tc_next_yield d then Some (Inr None, d)
      else
        let start = (if tc_next_yield d = 0 then 0 else tc_limits d ! (tc_next_yield d - 1));
            stop = tc_limits d ! tc_next_yield d
        in case range_at (tc_data d) start stop of
             None \<Rightarrow> None
           | Some r \<Rightarrow> Some (Inr (Some r), d\<lparr>tc_next_yield := tc_next_yield d + 1\<rparr>))"

end
