(* ===== verification/TransposeLoop.thy ===== *)
theory TransposeLoop
  imports TransposeMachine
begin

text \<open>
  The detection of implicit loops is exact: it answers true just when some node starts a chain of
  implicit transitions that never ends.
\<close>

section \<open>Chains of implicit transitions\<close>

text \<open>The chain of implicit transitions from a node ends.\<close>

inductive chain_ends :: "StateMachineNode list \<Rightarrow> nat \<Rightarrow> bool" for nodes where
  ends_outside: "length nodes \<le> i \<Longrightarrow> chain_ends nodes i"
| ends_here: "i < length nodes \<Longrightarrow> \<not> sn_is_implicit (nodes ! i) \<Longrightarrow> chain_ends nodes i"
| ends_later: "i < length nodes \<Longrightarrow> sn_is_implicit (nodes ! i) \<Longrightarrow> chain_ends nodes (sn_next_node_index (nodes ! i)) \<Longrightarrow>
    chain_ends nodes i"

inductive_simps chain_ends_unfold: "chain_ends nodes i"

definition goes_on :: "StateMachineNode list \<Rightarrow> nat \<Rightarrow> nat \<Rightarrow> bool" where
  "goes_on nodes i j \<longleftrightarrow> i < length nodes \<and> sn_is_implicit (nodes ! i) \<and> j = sn_next_node_index (nodes ! i)"

lemma chain_ends_goes_on: "goes_on nodes i j \<Longrightarrow> chain_ends nodes i \<longleftrightarrow> chain_ends nodes j"
  by (subst chain_ends_unfold) (auto simp: goes_on_def)

lemma chain_ends_rtrancl: "(goes_on nodes)\<^sup>*\<^sup>* i j \<Longrightarrow> chain_ends nodes i \<longleftrightarrow> chain_ends nodes j"
  by (induction rule: rtranclp_induct) (auto dest: chain_ends_goes_on)

lemma goes_on_unique: "goes_on nodes i j \<Longrightarrow> goes_on nodes i k \<Longrightarrow> j = k"
  by (simp add: goes_on_def)

lemma cycle_shift:
  assumes "goes_on nodes i j" "(goes_on nodes)\<^sup>+\<^sup>+ i i"
  shows "(goes_on nodes)\<^sup>+\<^sup>+ j j"
proof -
  from assms(2) obtain k where "goes_on nodes i k" "(goes_on nodes)\<^sup>*\<^sup>* k i" by (meson tranclpD)
  with assms(1) have "(goes_on nodes)\<^sup>*\<^sup>* j i" using goes_on_unique by metis
  then show ?thesis using assms(1) by (rule rtranclp_into_tranclp1)
qed

lemma chain_ends_acyclic: "chain_ends nodes i \<Longrightarrow> \<not> (goes_on nodes)\<^sup>+\<^sup>+ i i"
proof (induction rule: chain_ends.induct)
  case (ends_later i)
  then have "goes_on nodes i (sn_next_node_index (nodes ! i))" by (simp add: goes_on_def)
  with ends_later show ?case using cycle_shift by blast
qed (auto dest!: tranclpD simp: goes_on_def)

section \<open>The search\<close>

text \<open>Between two chains of the search: every marked node starts a chain that ends.\<close>

definition marks_ok :: "StateMachineNode list \<Rightarrow> nat \<Rightarrow> nat list \<Rightarrow> bool" where
  "marks_ok nodes next_id ids \<longleftrightarrow> length ids = length nodes \<and> next_id \<noteq> 0 \<and>
     (\<forall>j < length ids. ids ! j < next_id \<and> (ids ! j \<noteq> 0 \<longrightarrow> chain_ends nodes j))"

text \<open>While a chain is followed: its nodes lead to the current one.\<close>

definition following :: "StateMachineNode list \<Rightarrow> nat \<Rightarrow> nat \<Rightarrow> nat list \<Rightarrow> bool" where
  "following nodes next_id idx ids \<longleftrightarrow> length ids = length nodes \<and> next_id \<noteq> 0 \<and> idx < length nodes \<and>
     (\<forall>j < length ids. ids ! j \<le> next_id \<and>
        (ids ! j = next_id \<longrightarrow> (goes_on nodes)\<^sup>*\<^sup>* j idx) \<and>
        (ids ! j \<noteq> 0 \<longrightarrow> ids ! j \<noteq> next_id \<longrightarrow> chain_ends nodes j))"

lemma following_start:
  assumes "marks_ok nodes next_id ids" "i < length ids"
  shows "following nodes next_id i (ids[i := next_id])"
  using assms by (auto simp: marks_ok_def following_def nth_list_update less_imp_le)

lemma following_step:
  assumes "following nodes next_id idx ids" "goes_on nodes idx j" "j < length nodes"
  shows "following nodes next_id j (ids[j := next_id])"
  using assms by (auto simp: following_def nth_list_update intro: rtranclp.rtrancl_into_rtrancl)

lemma following_end:
  assumes "following nodes next_id idx ids" "chain_ends nodes idx"
  shows "marks_ok nodes (Suc next_id) ids"
  unfolding marks_ok_def
proof (intro conjI allI impI)
  fix j
  assume j: "j < length ids"
  then show "ids ! j < Suc next_id" using assms(1) by (auto simp: following_def less_Suc_eq_le)
  assume "ids ! j \<noteq> 0"
  with j assms show "chain_ends nodes j" by (auto simp: following_def chain_ends_rtrancl)
qed (use assms(1) in \<open>auto simp: following_def\<close>)

lemma follow_implicit_exact:
  assumes "following nodes next_id idx ids"
  shows "\<exists>ids'. follow_implicit nodes next_id idx ids = Some (\<not> chain_ends nodes idx, ids') \<and>
    (chain_ends nodes idx \<longrightarrow> marks_ok nodes (Suc next_id) ids')"
  using assms
proof (induction nodes next_id idx ids rule: follow_implicit.induct)
  case (1 nodes next_id idx ids)
  let ?j = "sn_next_node_index (nodes ! idx)"
  have idx: "idx < length nodes" "length ids = length nodes" "next_id \<noteq> 0"
    using "1.prems" by (auto simp: following_def)
  show ?case
  proof (cases "sn_is_implicit (nodes ! idx)")
    case False
    with idx have "chain_ends nodes idx" by (simp add: ends_here)
    with False idx "1.prems" show ?thesis
      by (subst follow_implicit.simps) (auto simp: item_at_def intro: following_end)
  next
    case implicit: True
    with idx have goes: "goes_on nodes idx ?j" by (simp add: goes_on_def)
    note same = chain_ends_goes_on [OF goes]
    show ?thesis
    proof (cases "?j < length nodes")
      case False
      then have "chain_ends nodes idx" using same by (auto intro: ends_outside)
      with False implicit idx "1.prems" show ?thesis
        by (subst follow_implicit.simps) (auto simp: item_at_def intro: following_end)
    next
      case j: True
      consider "ids ! ?j = next_id" | "ids ! ?j \<noteq> next_id" "ids ! ?j \<noteq> 0" | "ids ! ?j \<noteq> next_id" "ids ! ?j = 0" by blast
      then show ?thesis
      proof cases
        case 1
        then have "(goes_on nodes)\<^sup>*\<^sup>* ?j idx" using "1.prems" j idx by (simp add: following_def)
        then have "(goes_on nodes)\<^sup>+\<^sup>+ idx idx" using goes by (rule rtranclp_into_tranclp2 [rotated])
        then have "\<not> chain_ends nodes idx" using chain_ends_acyclic by blast
        with 1 j implicit idx show ?thesis by (subst follow_implicit.simps) (simp add: item_at_def)
      next
        case 2
        then have "chain_ends nodes ?j" using "1.prems" j idx by (simp add: following_def)
        with same have ends: "chain_ends nodes idx" by simp
        then have "marks_ok nodes (Suc next_id) ids" using "1.prems" following_end by blast
        with 2 j implicit idx ends show ?thesis by (subst follow_implicit.simps) (simp add: item_at_def)
      next
        case 3
        have "\<exists>ids'. follow_implicit nodes next_id ?j (ids[?j := next_id]) = Some (\<not> chain_ends nodes ?j, ids') \<and>
            (chain_ends nodes ?j \<longrightarrow> marks_ok nodes (Suc next_id) ids')"
          using "1.IH" [of "nodes ! idx" ?j "ids ! ?j"] 3 j implicit idx following_step [OF "1.prems" goes j]
          by (simp add: item_at_def)
        with 3 j implicit idx same show ?thesis by (subst follow_implicit.simps) (auto simp: item_at_def)
      qed
    qed
  qed
qed

lemma implicit_loop_from_exact:
  assumes "marks_ok nodes next_id ids" "\<forall>j \<in> set js. j < length nodes"
  shows "implicit_loop_from nodes js next_id ids = Some (\<exists>j \<in> set js. \<not> chain_ends nodes j)"
  using assms
proof (induction js arbitrary: next_id ids)
  case (Cons j js)
  then have j: "j < length ids" by (auto simp: marks_ok_def)
  show ?case
  proof (cases "ids ! j = 0")
    case False
    with j Cons.prems have "chain_ends nodes j" by (auto simp: marks_ok_def)
    with False j Cons show ?thesis by (simp add: item_at_def)
  next
    case True
    from follow_implicit_exact [OF following_start [OF Cons.prems(1) j]] obtain ids' where
      "follow_implicit nodes next_id j (ids[j := next_id]) = Some (\<not> chain_ends nodes j, ids')"
      "chain_ends nodes j \<Longrightarrow> marks_ok nodes (Suc next_id) ids'" by blast
    with True j Cons show ?thesis by (cases "chain_ends nodes j") (auto simp: item_at_def)
  qed
qed simp

lemma implicit_loop_exact: "contains_implicit_loop nodes = Some (\<exists>j < length nodes. \<not> chain_ends nodes j)"
proof -
  have "marks_ok nodes 1 (replicate (length nodes) 0)" by (simp add: marks_ok_def)
  then show ?thesis unfolding contains_implicit_loop_def
    by (subst implicit_loop_from_exact) (auto simp: atLeast0LessThan)
qed

text \<open>C13. A transposed chunk is rejected for an implicit loop exactly when some node starts an endless chain.\<close>

theorem contains_implicit_loop_exact:
  "contains_implicit_loop nodes = Some (\<exists>j < length nodes. \<not> chain_ends nodes j)"
  by (rule implicit_loop_exact)

end
