(* ===== verification/TransposeSafety.thy ===== *)
theory TransposeSafety
  imports TransposeLoop
begin

text \<open>
  The decoder of transposed chunks returns on all input: no index is out of range, no slice fails and
  the loop of the state machine ends.  The invariant of the decoding state also keeps the limits
  ordered and within the data.
\<close>

section \<open>Trials that keep an invariant\<close>

definition keeps :: "('s \<Rightarrow> bool) \<Rightarrow> ('s, 'a) trial \<Rightarrow> ('a \<Rightarrow> bool) \<Rightarrow> bool" where
  "keeps I m R \<longleftrightarrow> returns I m (\<lambda>r s. case r of Inl _ \<Rightarrow> True | Inr x \<Rightarrow> I s \<and> R x)"

lemma keepsI: "(\<And>s. I s \<Longrightarrow> \<exists>r s'. m s = Some (r, s') \<and> (\<forall>x. r = Inr x \<longrightarrow> I s' \<and> R x)) \<Longrightarrow> keeps I m R"
  unfolding keeps_def returns_def by (fastforce split: sum.splits)

lemma keepsD: "keeps I m R \<Longrightarrow> I s \<Longrightarrow> \<exists>r s'. m s = Some (r, s') \<and> (\<forall>x. r = Inr x \<longrightarrow> I s' \<and> R x)"
  unfolding keeps_def returns_def by (fastforce split: sum.splits)

lemma keeps_then:
  assumes "keeps I m R" "\<And>x. R x \<Longrightarrow> keeps I (f x) R'"
  shows "keeps I (try_then m f) R'"
proof (rule keepsI)
  fix s
  assume "I s"
  from keepsD [OF assms(1) this] obtain r s' where m: "m s = Some (r, s')" "\<And>x. r = Inr x \<Longrightarrow> I s' \<and> R x" by blast
  show "\<exists>r s'. try_then m f s = Some (r, s') \<and> (\<forall>x. r = Inr x \<longrightarrow> I s' \<and> R' x)"
  proof (cases r)
    case (Inl e)
    with m show ?thesis by simp
  next
    case (Inr x)
    with m assms(2) have "keeps I (f x) R'" "I s'" by auto
    from keepsD [OF this] m(1) Inr show ?thesis by simp
  qed
qed

lemma keeps_weaken: "keeps I m R \<Longrightarrow> (\<And>x. R x \<Longrightarrow> R' x) \<Longrightarrow> keeps I m R'"
  unfolding keeps_def by (erule returns_weaken) (auto split: sum.splits)

lemma keeps_ret: "R x \<Longrightarrow> keeps I (surely (ret x)) R"
  by (rule keepsI) (auto simp: surely_def ret_def)

lemma keeps_fail: "keeps I (surely (fail_with e)) R"
  by (rule keepsI) (auto simp: surely_def fail_with_def)

lemma keeps_of_res: "(\<And>x. r = Inr x \<Longrightarrow> R x) \<Longrightarrow> keeps I (surely (of_res r)) R"
  by (rule keepsI) (auto simp: surely_def of_res_def)

lemma keeps_unless: "x = Some y \<Longrightarrow> R y \<Longrightarrow> keeps I (unless_panic x) R"
  by (rule keepsI) (auto simp: unless_panic_def)

lemma try_each_keeps:
  assumes "\<And>i ys. i < n \<Longrightarrow> length ys = i \<Longrightarrow>
      returns (J ys) (f i) (\<lambda>r s. case r of Inl _ \<Rightarrow> True | Inr y \<Rightarrow> J (ys @ [y]) s)"
  shows "a \<le> n \<Longrightarrow> length ys = a \<Longrightarrow>
      returns (J ys) (try_each f [a..<n]) (\<lambda>r s. case r of Inl _ \<Rightarrow> True | Inr zs \<Rightarrow> J (ys @ zs) s \<and> length (ys @ zs) = n)"
proof (induction "n - a" arbitrary: a ys)
  case 0
  then show ?case by (auto simp: returns_def)
next
  case (Suc k)
  then have a: "[a..<n] = a # [Suc a..<n]" by (simp add: upt_conv_Cons)
  have later: "returns (J (ys @ [y])) (try_each f [Suc a..<n])
      (\<lambda>r s. case r of Inl _ \<Rightarrow> True | Inr zs \<Rightarrow> J ((ys @ [y]) @ zs) s \<and> length ((ys @ [y]) @ zs) = n)" for y
    using Suc by (intro Suc.hyps(1)) auto
  show ?case
  proof (rule returnsI)
    fix s
    assume J: "J ys s"
    have m: "returns (J ys) (f a) (\<lambda>r s. case r of Inl _ \<Rightarrow> True | Inr y \<Rightarrow> J (ys @ [y]) s)"
      using Suc by (intro assms) auto
    from returnsD [OF m J] obtain r s' where f: "f a s = Some (r, s')" "case r of Inl _ \<Rightarrow> True | Inr y \<Rightarrow> J (ys @ [y]) s'"
      by blast
    show "\<exists>r s'. try_each f [a..<n] s = Some (r, s') \<and>
        (case r of Inl _ \<Rightarrow> True | Inr zs \<Rightarrow> J (ys @ zs) s' \<and> length (ys @ zs) = n)"
    proof (cases r)
      case (Inl e)
      with f a show ?thesis by simp
    next
      case (Inr y)
      with f have "J (ys @ [y]) s'" by simp
      from returnsD [OF later this] obtain r2 s2 where g: "try_each f [Suc a..<n] s' = Some (r2, s2)"
          "case r2 of Inl _ \<Rightarrow> True | Inr zs \<Rightarrow> J ((ys @ [y]) @ zs) s2 \<and> length ((ys @ [y]) @ zs) = n"
        by blast
      with f Inr a show ?thesis by (cases r2) (simp_all add: surely_def ret_def)
    qed
  qed
qed

section \<open>The nodes that are built\<close>

definition node_ok :: "nat \<Rightarrow> nat \<Rightarrow> nat \<Rightarrow> StateMachineNode \<Rightarrow> bool" where
  "node_ok n nb nt node \<longleftrightarrow> sn_next_node_index node < n \<and> sn_tag_data_size node \<le> length (sn_tag_data node) \<and>
     (\<forall>i. sn_buffer_index node = Some i \<longrightarrow> i < nb) \<and> (\<forall>t. sn_node_template_index node = Some t \<longrightarrow> t < nt)"

definition template_ok :: "NodeTemplate \<Rightarrow> bool" where
  "template_ok t \<longleftrightarrow> nt_tag_length t \<le> 5"

definition machine_ok :: "nat \<Rightarrow> BuiltStateMachine \<Rightarrow> bool" where
  "machine_ok nb m \<longleftrightarrow> sm_first_node m < length (sm_nodes m) \<and>
     (\<forall>node \<in> set (sm_nodes m). node_ok (length (sm_nodes m)) nb (length (sm_node_templates m)) node) \<and>
     (\<forall>t \<in> set (sm_node_templates m). template_ok t) \<and>
     (\<forall>j < length (sm_nodes m). chain_ends (sm_nodes m) j)"

lemma node_ok_mono: "node_ok n nb nt node \<Longrightarrow> n \<le> n' \<Longrightarrow> nt \<le> nt' \<Longrightarrow> node_ok n' nb nt' node"
  by (auto simp: node_ok_def)

text \<open>A tag of the header that takes a subtype.\<close>

definition takes_subtype :: "u32 \<Rightarrow> bool" where
  "takes_subtype tag \<longleftrightarrow> is_valid_proto_tag tag \<and> has_subtype tag"

definition built_ok :: "nat \<Rightarrow> nat \<Rightarrow> nat \<Rightarrow> BuildState \<Rightarrow> StateMachineNode res \<Rightarrow> BuildState \<Rightarrow> bool" where
  "built_ok n nb c b r b' \<longleftrightarrow> (\<forall>node. r = Inr node \<longrightarrow>
     node_ok n nb (length (bs_node_templates b')) node \<and> bs_subtype_idx b' \<le> bs_subtype_idx b + c \<and>
     (\<exists>T. bs_node_templates b' = bs_node_templates b @ T \<and> (\<forall>t \<in> set T. template_ok t)))"

lemma read_buffer_index_ok:
  obtains r b' where "read_buffer_index nb msg b = Some (r, b')" "\<And>i. r = Inr i \<Longrightarrow> i < nb"
    "bs_subtype_idx b' = bs_subtype_idx b" "bs_node_templates b' = bs_node_templates b"
proof -
  obtain r c where m: "bc_read_varint32 (bs_hdr b) = (r, c)" by fastforce
  show ?thesis
  proof (cases r)
    case (Inl e)
    with m show ?thesis by (intro that [of "Inl e" "b\<lparr>bs_hdr := c\<rparr>"]) (auto simp: read_buffer_index_def on_hdr_def)
  next
    case (Inr i)
    with m show ?thesis
      by (intro that [of "if nb \<le> unat i then Inl (MalformedData msg) else Inr (unat i)" "b\<lparr>bs_hdr := c\<rparr>"])
        (auto simp: read_buffer_index_def on_hdr_def surely_def fail_with_def ret_def split: if_splits)
  qed
qed

lemma next_subtype_ok: "bs_subtype_idx b < length subs \<Longrightarrow>
    next_subtype subs b = Some (Inr (subs ! bs_subtype_idx b), b\<lparr>bs_subtype_idx := bs_subtype_idx b + 1\<rparr>)"
  by (simp add: next_subtype_def item_at_def)

lemma submessage_end_has_no_subtype:
  assumes "raw AND 7 = SUBMESSAGE_WIRE_TYPE"
  shows "\<not> has_subtype (raw - SUBMESSAGE_WIRE_TYPE + wire_type_raw LengthDelimited)"
proof -
  let ?tag = "raw - SUBMESSAGE_WIRE_TYPE + wire_type_raw LengthDelimited"
  have raw: "unat raw mod 8 = 6"
    using arg_cong [OF assms, of unat] by (simp add: and_7 unsigned_take_bit_eq take_bit_eq_mod unat_mod SUBMESSAGE_WIRE_TYPE_def)
  have tag: "?tag = raw - 4" by (simp add: SUBMESSAGE_WIRE_TYPE_def)
  have "(4 :: u32) \<le> raw" using raw mod_less_eq_dividend [of "unat raw" 8] by (simp add: word_le_nat_alt)
  then have "unat (raw - 4) = unat raw - unat (4 :: u32)" by (rule unat_sub)
  moreover have "(8 * k + 6 - 4) mod 8 = 2" for k :: nat
    using mod_mult_self1 [of 2 k 8] by (simp add: mult.commute)
  then have "(unat raw - 4) mod 8 = 2" using raw mult_div_mod_eq [of 8 "unat raw"] by metis
  ultimately have "unat ?tag mod 8 = 2" unfolding tag by simp
  then have "take_bit 3 ?tag = 2" by (simp add: word_unat_eq_iff unsigned_take_bit_eq take_bit_eq_mod unat_mod)
  then show ?thesis by (simp add: has_subtype_def tag_wire_type_def and_7 from_raw_def)
qed

text \<open>What follows the subtype in the code: the buffer index, the template and the node.\<close>

lemma finish_tag_node_ok:
  assumes "nx < n" "size1 \<le> length data1" "template_ok \<lparr>nt_tag = tag, nt_subtype = st, nt_tag_length = tag_len\<rparr>"
  shows "\<exists>r b'. try_then (if has_buf
                        then try_then (read_buffer_index nb msg) (\<lambda>i. surely (ret (Some i)))
                        else surely (ret None)) (\<lambda>buf_idx.
                if pe then
                     try_then (push_template \<lparr>nt_tag = tag, nt_subtype = st, nt_tag_length = tag_len\<rparr>) (\<lambda>tmpl_idx.
                       surely (ret \<lparr>sn_tag_data = data1, sn_tag_data_size = size1,
                         sn_callback_type = SelectCallback, sn_buffer_index = buf_idx, sn_next_node_index = nx,
                         sn_is_implicit = imp, sn_node_template_index = Some tmpl_idx\<rparr>))
                   else
                     try_then (surely (of_res cb)) (\<lambda>callback.
                       surely (ret \<lparr>sn_tag_data = data1, sn_tag_data_size = size1,
                         sn_callback_type = callback, sn_buffer_index = buf_idx, sn_next_node_index = nx,
                         sn_is_implicit = imp, sn_node_template_index = None\<rparr>))) b = Some (r, b') \<and>
    built_ok n nb 0 b r b'"
proof -
  obtain r b1 where i: "read_buffer_index nb msg b = Some (r, b1)" "\<And>i. r = Inr i \<Longrightarrow> i < nb"
      "bs_subtype_idx b1 = bs_subtype_idx b" "bs_node_templates b1 = bs_node_templates b"
    by (rule read_buffer_index_ok [of nb msg b]) (rule that)
  show ?thesis
  proof (cases has_buf)
    case True
    with i assms show ?thesis
      by (cases r; cases pe; cases cb)
        (auto simp: surely_def ret_def of_res_def push_template_def built_ok_def node_ok_def)
  next
    case False
    with assms show ?thesis
      by (cases pe; cases cb)
        (auto simp: surely_def ret_def of_res_def push_template_def built_ok_def node_ok_def)
  qed
qed

lemma built_ok_trans:
  assumes "built_ok n nb 0 b1 r b2" "bs_subtype_idx b1 = bs_subtype_idx b + c" "bs_node_templates b1 = bs_node_templates b"
  shows "built_ok n nb c b r b2"
  using assms by (auto simp: built_ok_def)

lemma template_encoded: "template_ok \<lparr>nt_tag = tag, nt_subtype = st, nt_tag_length = length (encode_u32 tag)\<rparr>"
  by (simp add: template_ok_def length_encode_u32_bound)

lemma build_proto_tag_node_ok:
  assumes "nx < n" "takes_subtype raw \<Longrightarrow> bs_subtype_idx b < length subs"
  shows "\<exists>r b'. build_proto_tag_node raw nx imp nb subs pe b = Some (r, b') \<and>
    built_ok n nb (if takes_subtype raw then 1 else 0) b r b'"
proof -
  define p where "p = (if raw AND 7 = SUBMESSAGE_WIRE_TYPE
         then (raw - SUBMESSAGE_WIRE_TYPE + wire_type_raw LengthDelimited, LENGTH_DELIMITED_END_OF_SUBMESSAGE)
         else (raw, TRIVIAL))"
  obtain tag st where tag: "p = (tag, st)" by (cases p)
  have sub: "takes_subtype raw \<longleftrightarrow> is_valid_proto_tag tag \<and> has_subtype tag"
    using tag submessage_end_has_no_subtype [of raw]
    by (auto simp: p_def takes_subtype_def has_subtype_def tag_wire_type_def from_raw_def SUBMESSAGE_WIRE_TYPE_def split: if_splits)
  show ?thesis
  proof (cases "is_valid_proto_tag tag")
    case False
    with tag show ?thesis
      unfolding build_proto_tag_node_def p_def [symmetric] by (simp add: surely_def fail_with_def built_ok_def)
  next
    case valid: True
    define m where "m = (if has_subtype tag then next_subtype subs else surely (ret st))"
    obtain st' b1 where m: "m b = Some (Inr st', b1)" "bs_node_templates b1 = bs_node_templates b"
        "bs_subtype_idx b1 = bs_subtype_idx b + (if takes_subtype raw then 1 else 0)"
    proof (cases "has_subtype tag")
      case True
      with valid sub assms(2) next_subtype_ok show ?thesis
        by (intro that [of "subs ! bs_subtype_idx b" "b\<lparr>bs_subtype_idx := bs_subtype_idx b + 1\<rparr>"]) (simp_all add: m_def)
    next
      case False
      with sub show ?thesis by (intro that [of st b]) (simp_all add: m_def surely_def ret_def)
    qed
    let ?inline = "tag_wire_type tag = Some WVarint \<and> VARINT_INLINE_0 \<le> st'"
    have finish: "\<exists>r b'. m2 b1 = Some (r, b') \<and> built_ok n nb 0 b1 r b' \<Longrightarrow>
        \<exists>r b'. m2 b1 = Some (r, b') \<and> built_ok n nb (if takes_subtype raw then 1 else 0) b r b'" for m2
      using m by (blast intro: built_ok_trans)
    obtain data1 size1 where data: "(if ?inline then (encode_u32 tag @ [st' - VARINT_INLINE_0], length (encode_u32 tag) + 1)
        else (encode_u32 tag, length (encode_u32 tag))) = (data1, size1)" by fastforce
    then have size1: "size1 \<le> length data1" by (auto split: if_splits)
    show ?thesis
      unfolding build_proto_tag_node_def p_def [symmetric] tag Let_def prod.case if_not_P [OF not_not [THEN iffD2, OF valid]]
        m_def [symmetric] try_then_simps(3) [of m, OF m(1)] data
      by (rule finish, rule finish_tag_node_ok [OF assms(1) size1 template_encoded])
  qed
qed

lemma build_single_node_ok:
  assumes "nx < n" "takes_subtype raw \<Longrightarrow> bs_subtype_idx b < length subs"
  shows "\<exists>r b'. build_single_node raw nx imp nb subs pe b = Some (r, b') \<and>
    built_ok n nb (if takes_subtype raw then 1 else 0) b r b'"
proof -
  let ?c = "if takes_subtype raw then 1 else 0 :: nat"
  have plain: "built_ok n nb ?c b (Inr (plain_node cb None nx imp None)) b" for cb
    using assms(1) by (simp add: built_ok_def node_ok_def plain_node_def)
  show ?thesis
  proof (cases "raw = NON_PROTO")
    case True
    obtain r b1 where i: "read_buffer_index nb ''nonproto buffer index too large'' b = Some (r, b1)"
        "\<And>i. r = Inr i \<Longrightarrow> i < nb" "bs_subtype_idx b1 = bs_subtype_idx b" "bs_node_templates b1 = bs_node_templates b"
      by (rule read_buffer_index_ok [of nb _ b]) (rule that)
    have "raw \<noteq> NO_OP" using True by (simp add: NO_OP_def NON_PROTO_def)
    with True i assms(1) show ?thesis
      by (cases r) (auto simp: build_single_node_def set_nonproto_def surely_def ret_def built_ok_def node_ok_def plain_node_def)
  next
    case not_nonproto: False
    show ?thesis
    proof (cases "raw = NO_OP \<or> raw = START_OF_MESSAGE")
      case True
      with not_nonproto have "build_single_node raw nx imp nb subs pe b =
          Some (Inr (plain_node (if raw = NO_OP then NoOp else MessageStart) None nx imp None), b)"
        by (elim disjE) (simp_all add: build_single_node_def surely_def ret_def message_id_defs)
      with plain show ?thesis by blast
    next
      case other: False
      show ?thesis
      proof (cases "raw = START_OF_SUBMESSAGE")
        case True
        then have single: "build_single_node raw nx imp nb subs pe =
            (if pe then try_then (push_template \<lparr>nt_tag = START_OF_SUBMESSAGE, nt_subtype = 0, nt_tag_length = 0\<rparr>) (\<lambda>tmpl_idx.
               surely (ret (plain_node SelectCallback None nx imp (Some tmpl_idx))))
             else surely (ret (plain_node SubmessageStart None nx imp None)))"
          using not_nonproto other by (simp add: build_single_node_def)
        show ?thesis
        proof (cases pe)
          case True
          with assms(1) show ?thesis unfolding single
            by (simp add: push_template_def surely_def ret_def built_ok_def node_ok_def plain_node_def template_ok_def)
        next
          case False
          with plain show ?thesis unfolding single by (simp add: surely_def ret_def)
        qed
      next
        case False
        with not_nonproto other build_proto_tag_node_ok [of nx n raw b subs imp nb pe, OF assms] show ?thesis
          by (simp add: build_single_node_def)
      qed
    qed
  qed
qed

text \<open>The parsed header is consistent: what \<open>parse_state_metadata\<close> gives.\<close>

definition header_ok :: "ParsedHeader \<Rightarrow> bool" where
  "header_ok ph \<longleftrightarrow> length (ph_tags ph) = ph_num_states ph \<and> length (ph_next_node_indices ph) = ph_num_states ph \<and>
     length (ph_subtypes_bytes ph) = length (filter takes_subtype (ph_tags ph))"

definition building :: "nat \<Rightarrow> ParsedHeader \<Rightarrow> StateMachineNode list \<Rightarrow> BuildState \<Rightarrow> bool" where
  "building n ph nodes b \<longleftrightarrow>
     (\<forall>node \<in> set nodes. node_ok n (ph_num_buffers ph) (length (bs_node_templates b)) node) \<and>
     (\<forall>t \<in> set (bs_node_templates b). template_ok t) \<and>
     bs_subtype_idx b \<le> length (filter takes_subtype (take (length nodes) (ph_tags ph)))"

lemma building_snoc:
  assumes "building n ph nodes b" "built_ok n (ph_num_buffers ph) c b (Inr node) b'"
    and "length (filter takes_subtype (take (length nodes) (ph_tags ph))) + c
      \<le> length (filter takes_subtype (take (Suc (length nodes)) (ph_tags ph)))"
  shows "building n ph (nodes @ [node]) b'"
  using assms by (auto simp: building_def built_ok_def elim!: node_ok_mono)

lemma build_state_keeps:
  assumes "header_ok ph" "i < ph_num_states ph" "length nodes = i"
  shows "returns (building (ph_num_states ph) ph nodes) (build_state ph pe i)
    (\<lambda>r b. case r of Inl _ \<Rightarrow> True | Inr node \<Rightarrow> building (ph_num_states ph) ph (nodes @ [node]) b)"
proof (rule returnsI)
  fix b
  assume b: "building (ph_num_states ph) ph nodes b"
  let ?n = "ph_num_states ph" and ?tag = "ph_tags ph ! i" and ?next = "unat (ph_next_node_indices ph ! i)"
  have i: "i < length (ph_tags ph)" "i < length (ph_next_node_indices ph)" using assms by (auto simp: header_ok_def)
  let ?count = "\<lambda>k. length (filter takes_subtype (take k (ph_tags ph)))"
  have count: "?count (Suc i) = ?count i + (if takes_subtype ?tag then 1 else 0)"
    using i by (simp add: take_Suc_conv_app_nth)
  have "?count (Suc i) \<le> ?count (length (ph_tags ph))"
    using i by (metis filter_append append_take_drop_id le_add1 length_append take_all_iff le_refl)
  then have sub: "takes_subtype ?tag \<Longrightarrow> bs_subtype_idx b < length (ph_subtypes_bytes ph)"
    using b assms count by (simp add: building_def header_ok_def)
  have node: "\<exists>r b'. build_single_node ?tag nx imp (ph_num_buffers ph) (ph_subtypes_bytes ph) pe b = Some (r, b') \<and>
      (case r of Inl _ \<Rightarrow> True | Inr node \<Rightarrow> building ?n ph (nodes @ [node]) b')" if "nx < ?n" for nx imp
  proof -
    from build_single_node_ok [OF that sub] obtain r b' where
      "build_single_node ?tag nx imp (ph_num_buffers ph) (ph_subtypes_bytes ph) pe b = Some (r, b')"
      "built_ok ?n (ph_num_buffers ph) (if takes_subtype ?tag then 1 else 0) b r b'" by blast
    moreover have "building ?n ph (nodes @ [node]) b'" if "r = Inr node" for node
      using building_snoc [OF b] calculation(2) that count assms(3) by simp
    ultimately show ?thesis by (auto split: sum.splits)
  qed
  show "\<exists>r b'. build_state ph pe i b = Some (r, b') \<and>
      (case r of Inl _ \<Rightarrow> True | Inr node \<Rightarrow> building ?n ph (nodes @ [node]) b')"
    using i node [of ?next False] node [of "?next - ?n" True]
    by (auto simp: build_state_def unless_panic_def item_at_def surely_def fail_with_def ret_def Let_def try_then_def)
qed

lemma failure_node_ok: "0 < n \<Longrightarrow> node_ok n nb nt failure_node"
  by (simp add: node_ok_def failure_node_def plain_node_def)

lemma build_state_machine_ok:
  assumes "header_ok ph"
  shows "\<exists>r. build_state_machine_nodes ph pe = Some r \<and> (\<forall>m. r = Inr m \<longrightarrow> machine_ok (ph_num_buffers ph) m)"
proof -
  let ?n = "ph_num_states ph"
  let ?b = "\<lparr>bs_hdr = ph_hdr ph, bs_subtype_idx = 0, bs_has_nonproto_op = False, bs_node_templates = []\<rparr>"
  have "returns (building ?n ph []) (try_each (build_state ph pe) [0..<?n])
      (\<lambda>r s. case r of Inl _ \<Rightarrow> True | Inr zs \<Rightarrow> building ?n ph ([] @ zs) s \<and> length ([] @ zs) = ?n)"
    by (rule try_each_keeps) (simp_all add: build_state_keeps [OF assms])
  moreover have "building ?n ph [] ?b" by (simp add: building_def)
  ultimately obtain r b where e: "try_each (build_state ph pe) [0..<?n] ?b = Some (r, b)"
      "\<And>zs. r = Inr zs \<Longrightarrow> building ?n ph zs b \<and> length zs = ?n"
    using returnsD by (fastforce split: sum.splits)
  show ?thesis
  proof (cases r)
    case (Inl err)
    with e show ?thesis by (simp add: build_state_machine_nodes_def)
  next
    case (Inr zs)
    obtain r2 c where v: "bc_read_varint32 (bs_hdr b) = (r2, c)" by fastforce
    show ?thesis
    proof (cases r2)
      case (Inl err)
      with Inr e v show ?thesis by (simp add: build_state_machine_nodes_def on_hdr_def)
    next
      case first: (Inr f)
      let ?nodes = "zs @ replicate 255 failure_node"
      have zs: "building ?n ph zs b" "length zs = ?n" using e Inr by auto
      have "machine_ok (ph_num_buffers ph) \<lparr>sm_nodes = ?nodes, sm_first_node = unat f,
          sm_has_nonproto_op = bs_has_nonproto_op b, sm_node_templates = bs_node_templates b\<rparr>"
        if "unat f < ?n" "\<forall>j < length ?nodes. chain_ends ?nodes j"
        using zs that failure_node_ok [of "length ?nodes"]
        by (auto simp: machine_ok_def building_def elim!: node_ok_mono)
      then show ?thesis
        using Inr e v first
        by (auto simp: build_state_machine_nodes_def on_hdr_def surely_def ret_def implicit_loop_exact Let_def
          split: bool.splits)
    qed
  qed
qed

section \<open>The actions keep the state well formed\<close>

definition ds_ok :: "BuiltStateMachine \<Rightarrow> nat \<Rightarrow> u64 \<Rightarrow> nat \<Rightarrow> DecodeState \<Rightarrow> bool" where
  "ds_ok m nb num limit s \<longleftrightarrow> ds_node_templates s = sm_node_templates m \<and> length (ds_buffers s) = nb \<and>
     (\<forall>f \<in> set (ds_submessage_stack s). fr_node_index f < length (sm_nodes m)) \<and>
     (\<forall>i. ds_nonproto_lengths_index s = Some i \<longrightarrow> i < nb) \<and>
     bb_limit (ds_dest s) = limit \<and> bb_pos (ds_dest s) \<le> limit \<and>
     ds_num_records s = num \<and> length (ds_limits s) \<le> unat num \<and>
     sorted (ds_limits s) \<and> (\<forall>l \<in> set (ds_limits s). l \<le> bb_pos (ds_dest s))"

lemma dest_write_keeps: "keeps (ds_ok m nb num limit) (dest_write bs) (\<lambda>_. True)"
  by (rule keepsI) (auto simp: dest_write_def bb_write_def ds_ok_def bb_pos_def split: prod.splits)

lemma with_buffer_keeps: "i < nb \<Longrightarrow> keeps (ds_ok m nb num limit) (with_buffer i f) (\<lambda>_. True)"
  by (rule keepsI) (auto simp: with_buffer_def ds_ok_def item_at_def split: prod.splits)

lemma push_frame_keeps: "i < length (sm_nodes m) \<Longrightarrow> keeps (ds_ok m nb num limit) (push_frame i) (\<lambda>_. True)"
  by (rule keepsI) (auto simp: push_frame_def ds_ok_def)

lemma pop_frame_keeps: "keeps (ds_ok m nb num limit) (pop_frame e) (\<lambda>f. fr_node_index f < length (sm_nodes m))"
  by (rule keepsI) (auto simp: pop_frame_def ds_ok_def dest: in_set_butlastD)

lemma count_exact:
  assumes "n \<le> unat (num :: u64)"
  shows "of_nat n = num \<longleftrightarrow> n = unat num"
proof -
  have "unat (of_nat n :: u64) = n" using assms unat_le_u64_max [of num] by (intro unat_of_nat_u64) linarith
  then show ?thesis by auto
qed

lemma below_count: "n \<le> unat (num :: u64) \<Longrightarrow> of_nat n \<noteq> num \<Longrightarrow> n < unat num"
  using count_exact [of n num] by linarith

lemma push_limit_keeps: "keeps (ds_ok m nb num limit) push_limit (\<lambda>_. True)"
proof (rule keepsI)
  fix s
  assume s: "ds_ok m nb num limit s"
  show "\<exists>r s'. push_limit s = Some (r, s') \<and> (\<forall>x. r = Inr x \<longrightarrow> ds_ok m nb num limit s' \<and> True)"
  proof (cases "of_nat (length (ds_limits s)) = ds_num_records s")
    case True
    then show ?thesis by (simp add: push_limit_def)
  next
    case False
    with s have "length (ds_limits s) < unat num" by (intro below_count) (simp_all add: ds_ok_def)
    with False s show ?thesis by (simp add: push_limit_def ds_ok_def sorted_append)
  qed
qed

lemma check_stack_empty_keeps: "keeps (ds_ok m nb num limit) (check_stack_empty e) (\<lambda>_. True)"
  by (rule keepsI) (auto simp: check_stack_empty_def)

lemma change_skipped_level_keeps: "keeps (ds_ok m nb num limit) (change_skipped_level d) (\<lambda>_. True)"
  by (rule keepsI) (auto simp: change_skipped_level_def ds_ok_def)

lemma skipped_submessage_start_keeps: "keeps (ds_ok m nb num limit) skipped_submessage_start (\<lambda>_. True)"
  by (rule keepsI) (auto simp: skipped_submessage_start_def change_skipped_level_def ds_ok_def)

lemmas step_keeps = dest_write_keeps with_buffer_keeps push_frame_keeps pop_frame_keeps push_limit_keeps
  check_stack_empty_keeps change_skipped_level_keeps skipped_submessage_start_keeps keeps_ret keeps_fail

lemma node_tag_keeps: "node_ok n nb nt node \<Longrightarrow> keeps I (node_tag node) (\<lambda>_. True)"
  unfolding node_tag_def by (rule keeps_unless) (auto simp: node_ok_def prefix_at_def)

lemma node_buffer_keeps: "node_ok n nb nt node \<Longrightarrow> keeps I (node_buffer msg node) (\<lambda>i. i < nb)"
  unfolding node_buffer_def by (rule keeps_of_res) (auto simp: node_ok_def ok_or_def split: option.splits)

lemma write_submessage_header_keeps:
  assumes "machine_ok nb m"
  shows "keeps (ds_ok m nb num limit) (write_submessage_header (sm_nodes m)) (\<lambda>_. True)"
  unfolding write_submessage_header_def
proof (rule keeps_then [OF pop_frame_keeps], rule keepsI)
  fix f s
  assume f: "fr_node_index f < length (sm_nodes m)" and s: "ds_ok m nb num limit s"
  let ?node = "sm_nodes m ! fr_node_index f"
  have "sn_tag_data_size ?node \<le> length (sn_tag_data ?node)"
    using assms f by (auto simp: machine_ok_def node_ok_def)
  with f keepsD [OF dest_write_keeps s]
  show "\<exists>r s'. (if bb_pos (ds_dest s) < fr_end_pos f then Some (Inl (MalformedData ''destination position decreased''), s)
       else let len = bb_pos (ds_dest s) - fr_end_pos f
         in if 4294967295 < len then Some (Inl (MalformedData ''submessage too large''), s)
            else case item_at (sm_nodes m) (fr_node_index f) of None \<Rightarrow> None
              | Some submsg_node \<Rightarrow>
                (case prefix_at (sn_tag_data submsg_node) (sn_tag_data_size submsg_node) of None \<Rightarrow> None
                 | Some tag_bytes \<Rightarrow> dest_write (tag_bytes @ encode_u32 (of_nat len)) s)) = Some (r, s') \<and>
      (\<forall>x. r = Inr x \<longrightarrow> ds_ok m nb num limit s' \<and> True)"
    by (simp add: Let_def item_at_def prefix_at_def)
qed

lemma write_nonproto_record_keeps:
  assumes "node_ok n nb nt node"
  shows "keeps (ds_ok m nb num limit) (write_nonproto_record node) (\<lambda>_. True)"
proof (rule keepsI)
  fix s
  assume s: "ds_ok m nb num limit s"
  have "keeps (ds_ok m nb num limit)
      (try_then (surely (of_res (ok_or (MalformedData ''nonproto op but no lengths buffer'') (ds_nonproto_lengths_index s))))
       (\<lambda>lengths_idx. try_then (with_buffer lengths_idx bc_read_varint32) (\<lambda>len.
        try_then (node_buffer ''nonproto node missing buffer index'' node) (\<lambda>data_idx.
        try_then (with_buffer data_idx (bc_read_exact (unat len))) (\<lambda>data_bytes.
        try_then (dest_write data_bytes) (\<lambda>_.
        try_then (check_stack_empty (MalformedData ''submessages still open at nonproto record'')) (\<lambda>_. push_limit)))))))
      (\<lambda>_. True)"
  proof (rule keeps_then)
    show "keeps (ds_ok m nb num limit)
        (surely (of_res (ok_or (MalformedData ''nonproto op but no lengths buffer'') (ds_nonproto_lengths_index s)))) (\<lambda>i. i < nb)"
      using s by (intro keeps_of_res) (auto simp: ds_ok_def ok_or_def split: option.splits)
  qed (rule keeps_then [OF with_buffer_keeps], assumption, rule keeps_then [OF node_buffer_keeps [OF assms]],
      rule keeps_then [OF with_buffer_keeps], assumption, rule keeps_then [OF dest_write_keeps],
      rule keeps_then [OF check_stack_empty_keeps], rule push_limit_keeps)
  from keepsD [OF this s] show "\<exists>r s'. write_nonproto_record node s = Some (r, s') \<and> (\<forall>x. r = Inr x \<longrightarrow> ds_ok m nb num limit s' \<and> True)"
    by (simp add: write_nonproto_record_def)
qed

lemma buffer_field_keeps:
  assumes "node_ok n nb nt node"
  shows "keeps (ds_ok m nb num limit) (try_then (node_buffer msg node) (\<lambda>i. try_then (with_buffer i (f i))
     (\<lambda>raw. try_then (node_tag node) (\<lambda>tag. dest_write (g tag raw))))) (\<lambda>_. True)"
  by (rule keeps_then [OF node_buffer_keeps [OF assms]], rule keeps_then [OF with_buffer_keeps], assumption,
    rule keeps_then [OF node_tag_keeps [OF assms]], rule dest_write_keeps)

lemma existence_write_keeps:
  assumes "n \<le> 5"
  shows "keeps (ds_ok m nb num limit) (existence_write node tag n) (\<lambda>_. True)"
proof -
  have "length (take n (take (sn_tag_data_size node) (sn_tag_data node))) + length (zero_value (tag_wire_type tag)) \<le> 13"
    using assms by (auto simp: zero_value_def split: option.splits WireType.splits)
  then show ?thesis unfolding existence_write_def Let_def by (simp add: dest_write_keeps del: length_take)
qed

lemma write_existence_only_field_keeps:
  assumes "machine_ok nb m" "node_ok n nb (length (sm_node_templates m)) node"
  shows "keeps (ds_ok m nb num limit) (write_existence_only_field node) (\<lambda>_. True)"
proof (rule keepsI)
  fix s
  assume s: "ds_ok m nb num limit s"
  have e: "\<exists>r s'. existence_write node tag k s = Some (r, s') \<and> (\<forall>x. r = Inr x \<longrightarrow> ds_ok m nb num limit s' \<and> True)" if "k \<le> 5" for tag k
    by (rule keepsD [OF existence_write_keeps [OF that] s])
  show "\<exists>r s'. write_existence_only_field node s = Some (r, s') \<and> (\<forall>x. r = Inr x \<longrightarrow> ds_ok m nb num limit s' \<and> True)"
  proof (cases "sn_node_template_index node")
    case None
    with e s length_encode_u32_bound show ?thesis
      by (auto simp: write_existence_only_field_def split: sum.splits prod.splits)
  next
    case (Some t)
    with assms(2) have t: "t < length (sm_node_templates m)" by (simp add: node_ok_def)
    with assms(1) have "nt_tag_length (sm_node_templates m ! t) \<le> 5" by (simp add: machine_ok_def template_ok_def)
    with Some t e s show ?thesis by (simp add: write_existence_only_field_def item_at_def ds_ok_def)
  qed
qed

lemma start_projection_group_keeps:
  assumes "machine_ok nb m" "node_ok n nb nt node"
  shows "keeps (ds_ok m nb num limit) (start_projection_group node (sm_nodes m)) (\<lambda>_. True)"
  unfolding start_projection_group_def
proof (rule keeps_then [OF pop_frame_keeps], rule keeps_then)
  fix f :: SubmessageFrame
  assume "fr_node_index f < length (sm_nodes m)"
  then show "keeps (ds_ok m nb num limit) (unless_panic (item_at (sm_nodes m) (fr_node_index f))) (\<lambda>_. True)"
    by (intro keeps_unless) (auto simp: item_at_def)
qed (rule keeps_then [OF keeps_of_res [where R = "\<lambda>_. True"]], simp, rule keeps_then [OF node_tag_keeps [OF assms(2)]],
    rule dest_write_keeps)

lemma perform_keeps:
  assumes "machine_ok nb m" "node_ok n nb (length (sm_node_templates m)) node" "i < length (sm_nodes m)"
  shows "keeps (ds_ok m nb num limit) (perform cb node i (sm_nodes m)) (\<lambda>_. True)"
proof -
  note tag = node_tag_keeps [OF assms(2)]
  note buffer = buffer_field_keeps [OF assms(2)]
  show ?thesis
  proof (cases cb)
    case MessageStart
    then show ?thesis by (auto intro: keeps_then [OF check_stack_empty_keeps] push_limit_keeps)
  next
    case SubmessageStart
    then show ?thesis by (simp add: write_submessage_header_keeps [OF assms(1)])
  next
    case NonProto
    then show ?thesis by (simp add: write_nonproto_record_keeps [OF assms(2)])
  next
    case CopyTag
    then show ?thesis by (auto intro: keeps_then [OF tag] dest_write_keeps)
  next
    case (VarintField k)
    then show ?thesis by (simp add: write_varint_field_def buffer)
  next
    case Fixed32Field
    then show ?thesis by (simp add: write_fixed_field_def buffer)
  next
    case Fixed64Field
    then show ?thesis by (simp add: write_fixed_field_def buffer)
  next
    case StringField
    then show ?thesis by (simp add: write_string_field_def buffer)
  next
    case ExistenceOnlyField
    then show ?thesis by (simp add: write_existence_only_field_keeps [OF assms(1,2)])
  next
    case EndProjectionGroup
    then show ?thesis
      by (auto intro: keeps_then [OF push_frame_keeps [OF assms(3)]] keeps_then [OF tag] dest_write_keeps)
  next
    case StartProjectionGroup
    then show ?thesis by (simp add: start_projection_group_keeps [OF assms(1,2)])
  qed (simp_all add: step_keeps assms(3))
qed

lemma bind_some_returns: "(\<And>x. r = Inr x \<Longrightarrow> f x \<noteq> None) \<Longrightarrow> bind_try (Some r) f \<noteq> None"
  by (cases r) simp_all

lemma bind_ok_or_returns: "(\<And>x. y = Some x \<Longrightarrow> f x \<noteq> None) \<Longrightarrow> bind_try (Some (ok_or e y)) f \<noteq> None"
  by (cases y) (simp_all add: ok_or_def)

lemma bind_try_returns: "m \<noteq> None \<Longrightarrow> (\<And>x. m = Some (Inr x) \<Longrightarrow> f x \<noteq> None) \<Longrightarrow> bind_try m f \<noteq> None"
  by (cases m; cases "the m") auto

lemma walk_frames_returns:
  "\<forall>f \<in> set frames. fr_node_index f < length nodes \<Longrightarrow> walk_frames im nodes parent frames \<noteq> None"
proof (induction frames arbitrary: parent)
  case (Cons f frames)
  then have "walk_frames im nodes p frames \<noteq> None" for p by simp
  then have "bind_try (Some r) (\<lambda>(frame_tag, _).
      case include_get im parent (tag_field_number frame_tag) of None \<Rightarrow> Some (Inr (Included_No, parent))
      | Some entry \<Rightarrow> if if_include_type entry = IncludeFully then Some (Inr (Included_Yes, parent))
                 else walk_frames im nodes (if_field_id entry) frames) \<noteq> None" for r :: "(u32 \<times> nat) res"
    by (intro bind_some_returns) (auto split: option.splits)
  then show ?case using Cons.prems by (simp add: item_at_def)
qed simp

lemma resolve_callback_returns:
  assumes "machine_ok nb m" "node_ok n nb (length (sm_node_templates m)) node" "ds_ok m nb num limit s"
  shows "resolve_callback node (sm_nodes m) s \<noteq> None"
proof -
  have t: "t < length (ds_node_templates s)" if "sn_node_template_index node = Some t" for t
    using that assms by (simp add: node_ok_def ds_ok_def)
  have walk: "walk_frames im (sm_nodes m) INVALID_POS (butlast (ds_submessage_stack s)) \<noteq> None"
      "walk_frames im (sm_nodes m) INVALID_POS (ds_submessage_stack s) \<noteq> None" for im
    using assms(3) by (intro walk_frames_returns; auto simp: ds_ok_def dest: in_set_butlastD)+
  have then_some: "bind_try (bind_try w (\<lambda>x. Some (Inr (g x)))) (\<lambda>y. Some (h y)) \<noteq> None" if "w \<noteq> None"
    for w :: "(FieldIncluded \<times> u32) res option" and g :: "_ \<Rightarrow> FieldIncluded" and h :: "_ \<Rightarrow> CallbackType res"
    using that by (intro bind_try_returns) auto
  have select: "resolve_select_callback node (ds_node_templates s) im (ds_submessage_stack s) (sm_nodes m) k \<noteq> None" for im k
    unfolding resolve_select_callback_def
    by (rule bind_ok_or_returns, drule t) (use walk [THEN then_some] in \<open>simp add: item_at_def\<close>)
  have "bind_try (Some (ok_or e (sn_node_template_index node))) (\<lambda>tmpl_idx.
          case item_at (ds_node_templates s) tmpl_idx of None \<Rightarrow> None | Some tmpl \<Rightarrow>
            if nt_tag tmpl = START_OF_SUBMESSAGE then Some (Inr SubmessageStart) else Some (g tmpl)) \<noteq> None"
    for g :: "NodeTemplate \<Rightarrow> CallbackType res" and e
    by (rule bind_ok_or_returns, drule t) (simp add: item_at_def)
  then show ?thesis using select
    by (simp add: resolve_callback_def split: option.splits)
qed

lemma execute_keeps:
  assumes "machine_ok nb m" "i < length (sm_nodes m)"
  shows "keeps (ds_ok m nb num limit) (execute_node_action (sm_nodes m ! i) i (sm_nodes m)) (\<lambda>_. True)"
proof (rule keepsI)
  fix s
  assume s: "ds_ok m nb num limit s"
  have node: "node_ok (length (sm_nodes m)) nb (length (sm_node_templates m)) (sm_nodes m ! i)"
    using assms by (simp add: machine_ok_def)
  from resolve_callback_returns [OF assms(1) node s] obtain cb where
    "resolve_callback (sm_nodes m ! i) (sm_nodes m) s = Some cb" by blast
  with s show "\<exists>r s'. execute_node_action (sm_nodes m ! i) i (sm_nodes m) s = Some (r, s') \<and>
      (\<forall>x. r = Inr x \<longrightarrow> ds_ok m nb num limit s' \<and> True)"
    using keepsD [OF perform_keeps [OF assms(1) node assms(2)] s]
    by (cases cb) (simp_all add: execute_node_action_def)
qed

section \<open>The loop ends\<close>

lemma iterate_wf:
  assumes "wf R" "I s"
    and "\<And>s. I s \<Longrightarrow> step s \<noteq> None"
    and "\<And>s s'. I s \<Longrightarrow> step s = Some (Inl s') \<Longrightarrow> I s' \<and> (s', s) \<in> R"
    and "\<And>s r. I s \<Longrightarrow> step s = Some (Inr r) \<Longrightarrow> Q r"
  shows "\<exists>r. iterate step s = Some r \<and> Q r"
  using assms(1,2)
proof (induction s rule: wf_induct_rule)
  case (less s)
  obtain x where x: "step s = Some x" using assms(3) [OF less.prems] by auto
  show ?case
  proof (cases x)
    case (Inl s')
    then show ?thesis using x assms(4) [OF less.prems] less.IH [of s'] by (auto simp: iterate_continue)
  next
    case (Inr r)
    then show ?thesis using x assms(5) [OF less.prems] by (auto simp: iterate_exit)
  qed
qed

lemma chain_ends_accessible: "chain_ends nodes i \<Longrightarrow> Wellfounded.accp (\<lambda>j i. goes_on nodes i j) i"
  by (induction rule: chain_ends.induct) (auto intro: accp.intros simp: goes_on_def)

lemma wf_implicit:
  assumes "\<forall>j < length nodes. chain_ends nodes j"
  shows "wf {(j, i). goes_on nodes i j}"
proof -
  have "chain_ends nodes i" for i using assms by (cases "i < length nodes") (auto intro: ends_outside)
  then have "wfP (\<lambda>j i. goes_on nodes i j)" by (intro accp_wfpI allI chain_ends_accessible)
  then show ?thesis by (simp add: wfp_def)
qed

text \<open>
  What gets smaller: the transitions that are left, the iterations, where a node with an explicit
  transition counts one half, and the rest of the implicit chain.
\<close>

type_synonym loop_state = "nat \<times> nat \<times> BufferCursor \<times> DecodeState"

definition left_of :: "BufferCursor \<Rightarrow> nat" where
  "left_of c = length (bc_data c) - bc_pos c"

definition closer :: "StateMachineNode list \<Rightarrow> (loop_state \<times> loop_state) set" where
  "closer nodes = inv_image (less_than <*lex*> less_than <*lex*> {(j, i). goes_on nodes i j})
     (\<lambda>(current, num_iters, transitions, s).
        (left_of transitions, 2 * num_iters + (if sn_is_implicit (nodes ! current) then 0 else 1), current))"

lemma wf_closer: "\<forall>j < length nodes. chain_ends nodes j \<Longrightarrow> wf (closer nodes)"
  unfolding closer_def by (intro wf_inv_image wf_lex_prod wf_less_than wf_implicit)

definition loop_ok :: "BuiltStateMachine \<Rightarrow> nat \<Rightarrow> u64 \<Rightarrow> nat \<Rightarrow> loop_state \<Rightarrow> bool" where
  "loop_ok m nb num limit = (\<lambda>(current, num_iters, transitions, s).
     current < length (sm_nodes m) \<and> (sn_is_implicit (sm_nodes m ! current) \<longrightarrow> 0 < num_iters) \<and> ds_ok m nb num limit s)"

lemma advance_ok:
  assumes "machine_ok nb m" "current < length (sm_nodes m)" "sn_is_implicit (sm_nodes m ! current) \<longrightarrow> 0 < num_iters"
  shows "\<exists>r tr'. advance_state_machine current num_iters (sm_nodes m) tr = Some (r, tr') \<and>
    (\<forall>i iters. r = Inr (i, iters, False) \<longrightarrow> i < length (sm_nodes m) \<and> (sn_is_implicit (sm_nodes m ! i) \<longrightarrow> 0 < iters) \<and>
       ((i, iters, tr', s'), (current, num_iters, tr, s)) \<in> closer (sm_nodes m))"
proof -
  let ?node = "sm_nodes m ! current"
  have idx: "sn_next_node_index ?node < length (sm_nodes m)" using assms by (simp add: machine_ok_def node_ok_def)
  show ?thesis
  proof (cases "num_iters = 0")
    case True
    with assms have "\<not> sn_is_implicit ?node" by simp
    with True assms(2) show ?thesis
      by (auto simp: advance_state_machine_def item_at_def Let_def bc_is_empty_def bc_read_byte_def closer_def left_of_def
        split: if_splits)
  next
    case False
    with idx assms(2,3) show ?thesis
      by (auto simp: advance_state_machine_def item_at_def Let_def closer_def goes_on_def)
  qed
qed

lemma machine_step_ok:
  assumes "machine_ok nb m" "loop_ok m nb num limit x"
  shows "machine_step (sm_nodes m) x \<noteq> None"
    and "machine_step (sm_nodes m) x = Some (Inl x') \<Longrightarrow> loop_ok m nb num limit x' \<and> (x', x) \<in> closer (sm_nodes m)"
    and "machine_step (sm_nodes m) x = Some (Inr (Inr s')) \<Longrightarrow> ds_ok m nb num limit s'"
proof -
  obtain current num_iters tr s where x: "x = (current, num_iters, tr, s)" by (cases x)
  have ok: "current < length (sm_nodes m)" "sn_is_implicit (sm_nodes m ! current) \<longrightarrow> 0 < num_iters" "ds_ok m nb num limit s"
    using assms(2) by (auto simp: x loop_ok_def)
  from keepsD [OF execute_keeps [OF assms(1) ok(1)] ok(3)] obtain r s1 where
    e: "execute_node_action (sm_nodes m ! current) current (sm_nodes m) s = Some (r, s1)" "\<And>u. r = Inr u \<Longrightarrow> ds_ok m nb num limit s1"
    by blast
  from advance_ok [OF assms(1) ok(1,2), of tr s1 s] obtain r2 tr2 where
    a: "advance_state_machine current num_iters (sm_nodes m) tr = Some (r2, tr2)"
      "\<And>i iters. r2 = Inr (i, iters, False) \<Longrightarrow> i < length (sm_nodes m) \<and> (sn_is_implicit (sm_nodes m ! i) \<longrightarrow> 0 < iters) \<and>
       ((i, iters, tr2, s1), (current, num_iters, tr, s)) \<in> closer (sm_nodes m)" by blast
  show "machine_step (sm_nodes m) x \<noteq> None"
    using ok e a by (cases r; cases r2) (auto simp: x machine_step_def item_at_def)
  show "machine_step (sm_nodes m) x = Some (Inl x') \<Longrightarrow> loop_ok m nb num limit x' \<and> (x', x) \<in> closer (sm_nodes m)"
    using ok e a by (cases r; cases r2) (auto simp: x machine_step_def item_at_def loop_ok_def split: if_splits)
  show "machine_step (sm_nodes m) x = Some (Inr (Inr s')) \<Longrightarrow> ds_ok m nb num limit s'"
    using ok e a by (cases r; cases r2) (auto simp: x machine_step_def item_at_def split: if_splits)
qed

lemma run_state_machine_ok:
  assumes m: "machine_ok nb m" and nb: "length buffers = nb" and idx: "\<And>i. lengths_index = Some i \<Longrightarrow> i < nb"
  shows "\<exists>r. run_state_machine num size1 m buffers transitions lengths_index im = Some r \<and>
    (\<forall>dest limits. r = Inr (dest, limits) \<longrightarrow> bb_pos dest \<le> unat size1 \<and> sorted limits \<and>
       (\<forall>l \<in> set limits. l \<le> bb_pos dest) \<and> length limits = unat num)"
proof -
  let ?first = "sm_nodes m ! sm_first_node m"
  let ?s = "\<lparr>ds_dest = bb_new (unat size1), ds_buffers = buffers, ds_submessage_stack = [], ds_limits = [],
                    ds_num_records = num, ds_nonproto_lengths_index = lengths_index,
                    ds_node_templates = sm_node_templates m, ds_include_map = im,
                    ds_skipped_submessage_level = 0\<rparr>"
  let ?x = "(sm_first_node m, if sn_is_implicit ?first then 1 else 0 :: nat, transitions, ?s)"
  have first: "sm_first_node m < length (sm_nodes m)" using m by (simp add: machine_ok_def)
  have start: "loop_ok m nb num (unat size1) ?x"
    using first nb idx by (simp add: loop_ok_def ds_ok_def bb_new_def bb_pos_def)
  have "\<exists>r. iterate (machine_step (sm_nodes m)) ?x = Some r \<and> (\<forall>s. r = Inr s \<longrightarrow> ds_ok m nb num (unat size1) s)"
  proof (rule iterate_wf [where R = "closer (sm_nodes m)" and I = "loop_ok m nb num (unat size1)"])
    show "wf (closer (sm_nodes m))" using m by (intro wf_closer) (simp add: machine_ok_def)
  qed (use start machine_step_ok [OF m] in blast)+
  then obtain r where r: "iterate (machine_step (sm_nodes m)) ?x = Some r" "\<And>s. r = Inr s \<Longrightarrow> ds_ok m nb num (unat size1) s"
    by blast
  have run: "run_state_machine num size1 m buffers transitions lengths_index im =
      bind_try (Some r) (\<lambda>s. if ds_submessage_stack s \<noteq> [] then Some (Inl (MalformedData ''submessages still open after decode''))
                    else if ds_skipped_submessage_level s \<noteq> 0
                    then Some (Inl (MalformedData ''skipped submessages still open after decode''))
                    else if of_nat (length (ds_limits s)) \<noteq> num then Some (Inl (MalformedData ''unexpected number of records''))
                    else Some (Inr (ds_dest s, ds_limits s)))"
    using first r(1) by (simp add: run_state_machine_def item_at_def Let_def)
  show ?thesis
  proof (cases r)
    case (Inl e)
    then show ?thesis by (simp add: run)
  next
    case (Inr s)
    with r(2) have "ds_ok m nb num (unat size1) s" by simp
    moreover from this have "of_nat (length (ds_limits s)) = num \<Longrightarrow> length (ds_limits s) = unat num"
      using count_exact [of "length (ds_limits s)" num] by (simp add: ds_ok_def)
    ultimately show ?thesis by (simp add: run Inr ds_ok_def)
  qed
qed

end
