(* ===== verification/TransposeBuckets.thy ===== *)
theory TransposeBuckets
  imports TransposeParse "HOL-Library.Code_Target_Nat"
begin

text \<open>
  The buckets of a transposed chunk: every buffer gets a bucket that exists, so cutting the buffers out
  never indexes out of range, and without pruning the buffers are the decompressed buckets, cut up.
\<close>

section \<open>Reading counted items\<close>

lemma read_times_length: "read_times n m s = (Inr xs, s') \<Longrightarrow> length xs = n"
  by (induction n arbitrary: xs s s') (auto simp: then_do_Inr)

lemma parse_state_metadata_lengths:
  assumes "parse_state_metadata c = (Inr sm, c')"
  shows "length (sm_tags sm) = sm_num_states sm" "length (sm_next_node_indices sm) = sm_num_states sm"
    "length (sm_subtypes_bytes sm) = length (filter (\<lambda>tag. is_valid_proto_tag tag \<and> has_subtype tag) (sm_tags sm))"
  using assms by (auto simp: parse_state_metadata_def then_do_Inr Let_def dest: read_times_length)

section \<open>The assignment of buffers to buckets\<close>

lemma advance_bucket_ahead:
  "advance_bucket index remaining later = (i, r, l) \<Longrightarrow>
     i + length l = index + length later \<and> index \<le> i \<and> r + sum_list l = remaining + sum_list later \<and> (r = 0 \<longrightarrow> l = []) \<and>
     (i = index \<longrightarrow> r = remaining \<and> l = later) \<and> (index < i \<longrightarrow> remaining = 0 \<and> (\<forall>k < i - index - 1. later ! k = 0) \<and>
        r = later ! (i - index - 1) \<and> l = drop (i - index) later)"
proof (induction index remaining later rule: advance_bucket.induct)
  case (1 index remaining n sizes)
  show ?case
  proof (cases "remaining = 0")
    case True
    with 1 have *: "i + length l = Suc index + length sizes \<and> Suc index \<le> i \<and> r + sum_list l = n + sum_list sizes \<and> (r = 0 \<longrightarrow> l = []) \<and>
        (i = Suc index \<longrightarrow> r = n \<and> l = sizes) \<and> (Suc index < i \<longrightarrow> n = 0 \<and> (\<forall>k < i - Suc index - 1. sizes ! k = 0) \<and>
        r = sizes ! (i - Suc index - 1) \<and> l = drop (i - Suc index) sizes)" by simp
    then have "(n # sizes) ! k = 0" if "k < i - index - 1" for k
      using that by (cases k) auto
    moreover have "r = (n # sizes) ! (i - index - 1)" "l = drop (i - index) (n # sizes)"
    proof -
      consider "i = Suc index" | j where "i = Suc (Suc (index + j))" using * by (metis Suc_leI le_Suc_ex le_neq_implies_less add_Suc)
      then have "r = (n # sizes) ! (i - index - 1) \<and> l = drop (i - index) (n # sizes)"
        by cases (use * in auto)
      then show "r = (n # sizes) ! (i - index - 1)" "l = drop (i - index) (n # sizes)" by auto
    qed
    ultimately show ?thesis using * True by auto
  next
    case False
    with 1 show ?thesis by auto
  qed
qed auto

lemma assign_buffers_bounds:
  assumes "assign_buffers index remaining later sizes = Inr bs"
  shows "length bs = length sizes \<and> (\<forall>b \<in> set bs. index \<le> b \<and> b \<le> index + length later)"
  using assms
proof (induction index remaining later sizes arbitrary: bs rule: assign_buffers.induct)
  case (2 index remaining later n sizes)
  obtain i r l where a: "advance_bucket index (remaining - n) later = (i, r, l)" by (metis prod_cases3)
  with "2.prems" obtain bs' where bs: "bs = index # bs'" "assign_buffers i r l sizes = Inr bs'" "n \<le> remaining"
    by (auto simp: bind_res_eq_Inr split: if_splits)
  with "2.IH" [OF _ a [symmetric] refl] have "length bs' = length sizes \<and> (\<forall>b \<in> set bs'. i \<le> b \<and> b \<le> i + length l)" by simp
  with bs advance_bucket_ahead [OF a] show ?case by auto
qed (auto split: if_splits)

lemma each_res_Inr: "each_res f xs = Inr ys \<longleftrightarrow> map f xs = map Inr ys"
  by (induction xs arbitrary: ys) (auto simp: bind_res_eq_Inr Cons_eq_map_conv)

lemma each_res_length: "each_res f xs = Inr ys \<Longrightarrow> length ys = length xs"
  unfolding each_res_Inr by (metis length_map)

lemma compute_buffer_to_bucket_bounds:
  assumes "compute_buffer_to_bucket buckets buffer_sizes ct = Inr bs"
  shows "length bs = length buffer_sizes \<and> (\<forall>b \<in> set bs. b < length buckets)"
proof (cases "buckets = []")
  case True
  with assms show ?thesis by (auto simp: compute_buffer_to_bucket_def split: if_splits)
next
  case False
  with assms obtain sizes where s: "each_res (\<lambda>b. bucket_decompressed_size b ct) buckets = Inr sizes"
      "assign_buffers 0 (hd sizes) (tl sizes) buffer_sizes = Inr bs"
    by (auto simp: compute_buffer_to_bucket_def bind_res_eq_Inr)
  from each_res_length [OF s(1)] False have "length (tl sizes) < length buckets" by (cases buckets) auto
  with assign_buffers_bounds [OF s(2)] show ?thesis by fastforce
qed

section \<open>Cutting the buffers out\<close>

lemma extract_buffers_returns:
  assumes "i + length sizes \<le> length btb" "\<forall>b \<in> set btb. b < length offsets" "length buckets = length offsets"
  shows "\<exists>r. extract_buffers buckets btb needed offsets i sizes = Some r \<and> (\<forall>cs. r = Inr cs \<longrightarrow> length cs = length sizes)"
  using assms
proof (induction sizes arbitrary: i offsets)
  case (Cons n sizes)
  let ?bi = "btb ! i"
  have bi: "i < length btb" "?bi < length offsets" using Cons.prems by auto
  have "\<exists>r. extract_buffers buckets btb needed (offsets[?bi := offsets ! ?bi + n]) (i + 1) sizes = Some r \<and>
      (\<forall>cs. r = Inr cs \<longrightarrow> length cs = length sizes)"
    using Cons.prems by (intro Cons.IH) auto
  then obtain r where r: "extract_buffers buckets btb needed (offsets[?bi := offsets ! ?bi + n]) (i + 1) sizes = Some r"
      "\<And>cs. r = Inr cs \<Longrightarrow> length cs = length sizes" by blast
  define first :: "BufferCursor res" where "first =
        (if (case item_at needed i of None \<Rightarrow> True | Some b \<Rightarrow> b) then
           (case buckets ! ?bi of None \<Rightarrow> Inl (MalformedData ''needed buffer in undecompressed bucket'')
            | Some decompressed \<Rightarrow>
                if length decompressed < offsets ! ?bi + n
                then Inl (MalformedData ''buffer exceeds bucket data'')
                else Inr (bc_new (take n (drop (offsets ! ?bi) decompressed))))
         else Inr bc_pruned_new)"
  have "extract_buffers buckets btb needed offsets i (n # sizes) = bind_try (Some first)
      (\<lambda>c. bind_try (Some r) (\<lambda>cs. Some (Inr (c # cs))))"
    using bi Cons.prems(3) r(1) by (simp add: first_def item_at_def split: option.splits)
  with r(2) show ?case by (cases first; cases r) auto
qed simp

lemma decompress_into_buffers_returns:
  "\<exists>r. decompress_into_buffers_with_pruning C buckets buffer_sizes ct needed = Some r \<and>
    (\<forall>cs. r = Inr cs \<longrightarrow> length cs = length buffer_sizes)"
proof (cases "compute_buffer_to_bucket buckets buffer_sizes ct")
  case (Inl e)
  then show ?thesis by (simp add: decompress_into_buffers_with_pruning_def)
next
  case (Inr btb)
  note btb = compute_buffer_to_bucket_bounds [OF Inr]
  let ?marks = "mark_buckets (length buckets) btb needed"
  let ?each = "each_res (\<lambda>(b, n). bucket_contents C ct b n) (zip buckets ?marks)"
  have "length (fold (\<lambda>(bi, n) marks. if n then marks[bi := True] else marks) ps ms) = length ms" for ps :: "(nat \<times> bool) list" and ms
    by (induction ps arbitrary: ms) auto
  then have marks: "length ?marks = length buckets" by (simp add: mark_buckets_def)
  show ?thesis
  proof (cases ?each)
    case (Inl e)
    with Inr show ?thesis by (simp add: decompress_into_buffers_with_pruning_def)
  next
    case each: (Inr contents)
    from each_res_length [OF this] marks have "length contents = length buckets" by simp
    with Inr each btb extract_buffers_returns [of 0 buffer_sizes btb "replicate (length buckets) 0" contents needed]
    show ?thesis by (simp add: decompress_into_buffers_with_pruning_def)
  qed
qed

section \<open>The buffers are the decompressed buckets, cut up\<close>

text \<open>What a bucket holds; a bucket that no buffer needs was not decompressed.\<close>

definition held :: "bytes option \<Rightarrow> bytes" where
  "held c = (case c of None \<Rightarrow> [] | Some d \<Rightarrow> d)"

definition cutting :: "bytes option list \<Rightarrow> nat list \<Rightarrow> nat \<Rightarrow> nat \<Rightarrow> nat list \<Rightarrow> nat list \<Rightarrow> bool" where
  "cutting contents claimed index remaining later offsets \<longleftrightarrow>
     index < length contents \<and> length claimed = length contents \<and> length offsets = length contents \<and>
     later = drop (Suc index) claimed \<and> remaining + offsets ! index = claimed ! index \<and>
     (\<forall>j < length contents. index < j \<longrightarrow> offsets ! j = 0) \<and>
     (\<forall>j < length contents. length (held (contents ! j)) = claimed ! j \<or> contents ! j = None)"

lemma cutting_empty:
  assumes "cutting contents claimed index remaining later offsets" "j < length contents" "claimed ! j = 0"
  shows "held (contents ! j) = []"
  using assms by (auto simp: cutting_def held_def split: option.splits)

lemma cutting_advance:
  assumes c: "cutting contents claimed index remaining later offsets" and n: "n \<le> remaining"
    and a: "advance_bucket index (remaining - n) later = (i, r, l)"
  shows "cutting contents claimed i r l (offsets[index := offsets ! index + n])"
    and "drop (offsets ! index + n) (held (contents ! index)) @ concat (map (held \<circ> (!) contents) [Suc index..<length contents]) =
      drop (offsets[index := offsets ! index + n] ! i) (held (contents ! i)) @
      concat (map (held \<circ> (!) contents) [Suc i..<length contents])"
proof -
  note ahead = advance_bucket_ahead [OF a]
  have len: "length later = length contents - Suc index" using c by (simp add: cutting_def)
  show "cutting contents claimed i r l (offsets[index := offsets ! index + n])"
  proof (cases "i = index")
    case True
    with c n ahead show ?thesis by (auto simp: cutting_def)
  next
    case False
    with ahead have i: "index < i" by simp
    with ahead have "i + length l = index + length later" "l = drop (i - index) later" by auto
    with i len have lt: "i < length contents" using c
      by (cases "i - index \<le> length later") (auto simp: cutting_def)
    have "r = later ! (i - index - 1)" "l = drop (i - index) later" using ahead i by auto
    with c i lt have "r = claimed ! i" "l = drop (Suc i) claimed" by (auto simp: cutting_def)
    with c i lt show ?thesis by (auto simp: cutting_def)
  qed
  show "drop (offsets ! index + n) (held (contents ! index)) @ concat (map (held \<circ> (!) contents) [Suc index..<length contents]) =
      drop (offsets[index := offsets ! index + n] ! i) (held (contents ! i)) @
      concat (map (held \<circ> (!) contents) [Suc i..<length contents])"
  proof (cases "i = index")
    case True
    with c show ?thesis by (simp add: cutting_def)
  next
    case False
    with ahead have i: "index < i" by simp
    with ahead have z: "remaining - n = 0" "\<forall>k < i - index - 1. later ! k = 0" by auto
    have lt: "i < length contents" using \<open>cutting contents claimed i r l _\<close> by (simp add: cutting_def)
    have "length (held (contents ! index)) \<le> offsets ! index + n"
      using c n z(1) by (auto simp: cutting_def held_def split: option.splits)
    moreover have "held (contents ! j) = []" if "Suc index \<le> j" "j < i" for j
    proof (rule cutting_empty [OF c])
      show "j < length contents" using that lt by simp
      have "later ! (j - Suc index) = 0" using z(2) that by simp
      then show "claimed ! j = 0" using c that lt by (simp add: cutting_def)
    qed
    moreover have "[Suc index..<length contents] = [Suc index..<i] @ i # [Suc i..<length contents]"
    proof -
      have "[Suc index..<length contents] = [Suc index..<i] @ [i..<length contents]"
        using i lt upt_add_eq_append [of "Suc index" i "length contents - i"] by simp
      then show ?thesis using lt by (simp add: upt_conv_Cons)
    qed
    moreover have "offsets[index := offsets ! index + n] ! i = 0" using c i lt by (simp add: cutting_def)
    ultimately show ?thesis by simp
  qed
qed

lemma extract_buffers_cut:
  assumes "assign_buffers index remaining later sizes = Inr bs" "cutting contents claimed index remaining later offsets"
    and "extract_buffers contents (pre @ bs) (replicate (length pre + length bs) True) offsets (length pre) sizes = Some (Inr cs)"
  shows "map (length \<circ> bc_data) cs = sizes \<and> (\<forall>c \<in> set cs. \<not> bc_pruned c \<and> bc_pos c = 0) \<and>
    concat (map bc_data cs) = drop (offsets ! index) (held (contents ! index)) @
      concat (map (held \<circ> (!) contents) [Suc index..<length contents])"
  using assms
proof (induction index remaining later sizes arbitrary: bs offsets pre cs rule: assign_buffers.induct)
  case (1 index remaining later)
  then have z: "later = []" "remaining = 0" "bs = []" "cs = []" by (auto split: if_splits)
  with "1.prems"(2) have "Suc index = length contents" "length (held (contents ! index)) \<le> offsets ! index"
    by (auto simp: cutting_def held_def split: option.splits)
  with z show ?case by simp
next
  case (2 index remaining later n sizes)
  obtain i r l where a: "advance_bucket index (remaining - n) later = (i, r, l)" by (metis prod_cases3)
  with "2.prems"(1) obtain bs' where bs: "bs = index # bs'" "assign_buffers i r l sizes = Inr bs'" "n \<le> remaining"
    by (auto simp: bind_res_eq_Inr split: if_splits)
  have idx: "index < length offsets" "index < length contents" using "2.prems"(2) by (simp_all add: cutting_def)
  let ?offsets = "offsets[index := offsets ! index + n]"
  obtain d cs' where d: "contents ! index = Some d" "offsets ! index + n \<le> length d"
      "cs = bc_new (take n (drop (offsets ! index) d)) # cs'"
      "extract_buffers contents (pre @ bs) (replicate (length pre + length bs) True) ?offsets (length pre + 1) sizes = Some (Inr cs')"
  proof -
    have all: "(case item_at (replicate k True) j of None \<Rightarrow> True | Some b \<Rightarrow> b) = True" for k j
      by (simp add: item_at_def)
    from "2.prems"(3) idx show ?thesis
      by (auto simp: bs(1) all bind_try_Some item_at_def [of "pre @ index # bs'"] item_at_def [of offsets] item_at_def [of contents]
        intro: that split: option.splits if_splits simp del: replicate_Suc)
  qed
  have later: "extract_buffers contents ((pre @ [index]) @ bs') (replicate (length (pre @ [index]) + length bs') True) ?offsets
      (length (pre @ [index])) sizes = Some (Inr cs')"
    using d(4) by (simp add: bs(1))
  have IH: "map (length \<circ> bc_data) cs' = sizes \<and> (\<forall>c \<in> set cs'. \<not> bc_pruned c \<and> bc_pos c = 0) \<and>
    concat (map bc_data cs') = drop (?offsets ! i) (held (contents ! i)) @
      concat (map (held \<circ> (!) contents) [Suc i..<length contents])"
    by (rule "2.IH" [OF _ a [symmetric] refl bs(2) cutting_advance(1) [OF "2.prems"(2) bs(3) a] later]) (use bs(3) in simp)
  have "drop (offsets ! index) d = take n (drop (offsets ! index) d) @ drop (offsets ! index + n) d"
    by (metis append_take_drop_id drop_drop add.commute)
  moreover have "held (contents ! index) = d" by (simp add: held_def d(1))
  ultimately have "drop (offsets ! index) (held (contents ! index)) @ concat (map (held \<circ> (!) contents) [Suc index..<length contents]) =
      take n (drop (offsets ! index) d) @ concat (map bc_data cs')"
    using IH cutting_advance(2) [OF "2.prems"(2) bs(3) a] by (metis append.assoc)
  with IH d(2,3) show ?case by (simp add: bc_new_def comp_def)
qed

lemma held_size:
  assumes "bucket_contents C ct b n = Inr c" "bucket_decompressed_size b ct = Inr k"
  shows "length (held c) = k \<or> c = None"
  using assms by (auto simp: bucket_contents_def bind_res_eq_Inr held_def split: if_splits)

lemma mark_buckets_length: "length (mark_buckets n btb needed) = n"
proof -
  have "length (fold (\<lambda>(bi, n) marks. if n then marks[bi := True] else marks) ps ms) = length ms" for ps :: "(nat \<times> bool) list" and ms
    by (induction ps arbitrary: ms) auto
  then show ?thesis by (simp add: mark_buckets_def)
qed

text \<open>The contents that the decoder has when it cuts the buffers out.\<close>

definition decompressed_buckets :: "codec \<Rightarrow> bytes list \<Rightarrow> nat list \<Rightarrow> CompressionType \<Rightarrow> bool list \<Rightarrow> bytes option list res" where
  "decompressed_buckets C buckets buffer_sizes ct needed =
     bind_res (compute_buffer_to_bucket buckets buffer_sizes ct) (\<lambda>btb.
       each_res (\<lambda>(b, n). bucket_contents C ct b n) (zip buckets (mark_buckets (length buckets) btb needed)))"

lemma decompress_cut:
  assumes d: "decompress_into_buffers_with_pruning C buckets sizes ct (replicate (length sizes) True) = Some (Inr cs)"
    and ne: "sizes \<noteq> []"
  shows "\<exists>contents. decompressed_buckets C buckets sizes ct (replicate (length sizes) True) = Inr contents \<and>
    map (length \<circ> bc_data) cs = sizes \<and> (\<forall>c \<in> set cs. \<not> bc_pruned c \<and> bc_pos c = 0) \<and>
    concat (map bc_data cs) = concat (map held contents)"
proof -
  obtain btb where btb: "compute_buffer_to_bucket buckets sizes ct = Inr btb"
    using d by (auto simp: decompress_into_buffers_with_pruning_def bind_try_Some)
  let ?marks = "mark_buckets (length buckets) btb (replicate (length sizes) True)"
  obtain contents where c: "each_res (\<lambda>(b, n). bucket_contents C ct b n) (zip buckets ?marks) = Inr contents"
      "extract_buffers contents btb (replicate (length sizes) True) (replicate (length buckets) 0) 0 sizes = Some (Inr cs)"
    using d btb ne by (auto simp: decompress_into_buffers_with_pruning_def bind_try_Some Let_def)
  have buckets: "buckets \<noteq> []" using btb ne by (auto simp: compute_buffer_to_bucket_def)
  with btb obtain claimed where cl: "each_res (\<lambda>b. bucket_decompressed_size b ct) buckets = Inr claimed"
      "assign_buffers 0 (hd claimed) (tl claimed) sizes = Inr btb"
    by (auto simp: compute_buffer_to_bucket_def bind_res_eq_Inr)
  have len: "length contents = length buckets" "length claimed = length buckets" "length btb = length sizes"
    using each_res_length [OF c(1)] each_res_length [OF cl(1)] assign_buffers_bounds [OF cl(2)] mark_buckets_length
    by simp_all
  have held: "length (held (contents ! j)) = claimed ! j \<or> contents ! j = None" if j: "j < length contents" for j
  proof (rule held_size)
    have "map (\<lambda>(b, n). bucket_contents C ct b n) (zip buckets ?marks) ! j = map Inr contents ! j"
      using c(1) by (simp add: each_res_Inr)
    then show "bucket_contents C ct (buckets ! j) (?marks ! j) = Inr (contents ! j)"
      using j len by (simp add: mark_buckets_length)
    have "map (\<lambda>b. bucket_decompressed_size b ct) buckets ! j = map Inr claimed ! j"
      using cl(1) by (simp add: each_res_Inr)
    then show "bucket_decompressed_size (buckets ! j) ct = Inr (claimed ! j)" using j len by simp
  qed
  obtain k ks where claimed: "claimed = k # ks" using buckets len by (cases claimed) auto
  have n: "0 < length contents" using buckets len by simp
  have cut: "cutting contents claimed 0 (hd claimed) (tl claimed) (replicate (length buckets) 0)"
    using held n len claimed by (simp add: cutting_def)
  have "map (length \<circ> bc_data) cs = sizes \<and> (\<forall>c \<in> set cs. \<not> bc_pruned c \<and> bc_pos c = 0) \<and>
    concat (map bc_data cs) = drop (replicate (length buckets) 0 ! 0) (held (contents ! 0)) @
      concat (map (held \<circ> (!) contents) [Suc 0..<length contents])"
    using c(2) len by (intro extract_buffers_cut [OF cl(2) cut, where pre = "[]"]) simp
  moreover have "concat (map held contents) = held (contents ! 0) @ concat (map (held \<circ> (!) contents) [Suc 0..<length contents])"
  proof -
    have "map held contents = map (held \<circ> (!) contents) [0..<length contents]"
      by (metis map_map map_nth)
    then show ?thesis using n by (simp add: upt_conv_Cons)
  qed
  moreover have "decompressed_buckets C buckets sizes ct (replicate (length sizes) True) = Inr contents"
    by (simp add: decompressed_buckets_def btb c(1))
  ultimately show ?thesis using n len by simp
qed

section \<open>Pruning changes only the buffers that are not needed\<close>

lemma mark_buckets_nth:
  assumes "j < n"
  shows "mark_buckets n btb needed ! j \<longleftrightarrow> (j, True) \<in> set (zip btb needed)"
proof -
  have "fold (\<lambda>(bi, n) marks. if n then marks[bi := True] else marks) ps ms ! j \<longleftrightarrow> ms ! j \<or> (j, True) \<in> set ps"
    if "j < length ms" for ps :: "(nat \<times> bool) list" and ms
    using that
  proof (induction ps arbitrary: ms)
    case (Cons p ps)
    then show ?case by (cases p; cases "fst p = j") auto
  qed simp
  then show ?thesis using assms by (simp add: mark_buckets_def)
qed

definition pruned_to :: "bool list \<Rightarrow> BufferCursor list \<Rightarrow> BufferCursor list" where
  "pruned_to needed cs = map (\<lambda>(n, c). if n then c else bc_pruned_new) (zip needed cs)"

lemma extract_buffers_pruned:
  assumes "extract_buffers contents btb (replicate (length btb) True) offsets i sizes = Some (Inr cs)"
    and "i + length sizes = length btb" "length needed = length btb" "length contents' = length contents"
    and "\<And>k. k < length btb \<Longrightarrow> needed ! k \<Longrightarrow> contents' ! (btb ! k) = contents ! (btb ! k)"
  shows "extract_buffers contents' btb needed offsets i sizes = Some (Inr (pruned_to (drop i needed) cs))"
  using assms(1,2)
proof (induction sizes arbitrary: i offsets cs)
  case Nil
  then show ?case by (simp add: pruned_to_def)
next
  case (Cons n sizes)
  have i: "i < length btb" "i < length needed" using Cons.prems assms(3) by auto
  have all: "(case item_at (replicate k True) j of None \<Rightarrow> True | Some b \<Rightarrow> b) = True" for k j
    by (simp add: item_at_def)
  let ?bi = "btb ! i"
  obtain d cs' where d: "?bi < length offsets" "?bi < length contents" "contents ! ?bi = Some d" "offsets ! ?bi + n \<le> length d"
      "cs = bc_new (take n (drop (offsets ! ?bi) d)) # cs'"
      "extract_buffers contents btb (replicate (length btb) True) (offsets[?bi := offsets ! ?bi + n]) (i + 1) sizes = Some (Inr cs')"
    using Cons.prems(1) i(1)
    by (auto simp: all bind_try_Some item_at_def [of btb] item_at_def [of offsets] item_at_def [of contents]
      intro: that split: option.splits if_splits)
  have later: "extract_buffers contents' btb needed (offsets[?bi := offsets ! ?bi + n]) (i + 1) sizes =
      Some (Inr (pruned_to (drop (i + 1) needed) cs'))"
    using Cons.prems(2) by (intro Cons.IH d(6)) simp
  have drop: "drop i needed = needed ! i # drop (i + 1) needed" using i(2) by (simp add: Cons_nth_drop_Suc)
  show ?case
    using i d later assms(4) assms(5) [of i] by (simp add: item_at_def drop pruned_to_def)
qed

lemma decompress_pruned:
  assumes full: "decompress_into_buffers_with_pruning C buckets sizes ct (replicate (length sizes) True) = Some (Inr cs)"
    and len: "length needed = length sizes"
  shows "decompress_into_buffers_with_pruning C buckets sizes ct needed = Some (Inr (pruned_to needed cs))"
proof (cases "sizes = []")
  case True
  with full len show ?thesis by (auto simp: decompress_into_buffers_with_pruning_def bind_try_Some pruned_to_def)
next
  case ne: False
  obtain btb where btb: "compute_buffer_to_bucket buckets sizes ct = Inr btb"
    using full by (auto simp: decompress_into_buffers_with_pruning_def bind_try_Some)
  note bounds = compute_buffer_to_bucket_bounds [OF btb]
  let ?all = "mark_buckets (length buckets) btb (replicate (length sizes) True)"
  let ?marks = "mark_buckets (length buckets) btb needed"
  obtain contents where c: "each_res (\<lambda>(b, n). bucket_contents C ct b n) (zip buckets ?all) = Inr contents"
      "extract_buffers contents btb (replicate (length sizes) True) (replicate (length buckets) 0) 0 sizes = Some (Inr cs)"
    using full btb ne by (auto simp: decompress_into_buffers_with_pruning_def bind_try_Some Let_def)
  have clen: "length contents = length buckets" using each_res_length [OF c(1)] by (simp add: mark_buckets_length)
  have nth: "bucket_contents C ct (buckets ! j) (?all ! j) = Inr (contents ! j)" if "j < length buckets" for j
  proof -
    have "map (\<lambda>(b, n). bucket_contents C ct b n) (zip buckets ?all) ! j = map Inr contents ! j"
      using c(1) by (simp add: each_res_Inr)
    then show ?thesis using that clen by (simp add: mark_buckets_length)
  qed
  let ?contents = "map (\<lambda>j. if ?marks ! j then contents ! j else None) [0..<length buckets]"
  have sub: "?all ! j" if "?marks ! j" "j < length buckets" for j
    using that bounds len by (auto simp: mark_buckets_nth in_set_zip)
  have "each_res (\<lambda>(b, n). bucket_contents C ct b n) (zip buckets ?marks) = Inr ?contents"
    unfolding each_res_Inr
  proof (rule nth_equalityI)
    fix j
    assume "j < length (map (\<lambda>(b, n). bucket_contents C ct b n) (zip buckets ?marks))"
    then have j: "j < length buckets" by simp
    show "map (\<lambda>(b, n). bucket_contents C ct b n) (zip buckets ?marks) ! j = map Inr ?contents ! j"
      using nth [OF j] sub [OF _ j] j by (cases "?marks ! j") (simp_all add: mark_buckets_length bucket_contents_def)
  qed (simp add: mark_buckets_length)
  moreover have "extract_buffers ?contents btb needed (replicate (length buckets) 0) 0 sizes = Some (Inr (pruned_to (drop 0 needed) cs))"
  proof (rule extract_buffers_pruned)
    fix k
    assume k: "k < length btb" "needed ! k"
    with bounds have "btb ! k < length buckets" by simp
    moreover from this have "?marks ! (btb ! k)" using k bounds len by (auto simp: mark_buckets_nth in_set_zip)
    ultimately show "?contents ! (btb ! k) = contents ! (btb ! k)" by simp
  qed (use c(2) bounds len clen in simp_all)
  ultimately show ?thesis
    using btb ne by (simp add: decompress_into_buffers_with_pruning_def Let_def)
qed

section \<open>Properties\<close>

text \<open>C14. The buffers of a chunk have the sizes the header states and are, one after the other, the decompressed buckets.\<close>

theorem buffers_cut_buckets:
  assumes "decompress_into_buffers_with_pruning C buckets sizes ct (replicate (length sizes) True) = Some (Inr cs)"
    and "sizes \<noteq> []"
  shows "\<exists>contents. decompressed_buckets C buckets sizes ct (replicate (length sizes) True) = Inr contents \<and>
    map (length \<circ> bc_data) cs = sizes \<and> (\<forall>c \<in> set cs. \<not> bc_pruned c \<and> bc_pos c = 0) \<and>
    concat (map bc_data cs) = concat (map held contents)"
  using assms by (rule decompress_cut)

lemma sample_buffers:
  "decompress_into_buffers_with_pruning store_codec [[5, 6, 7], [8]] [1, 2, 1] None_Compression (replicate (length [1, 2, 1 :: nat]) True) =
    Some (Inr [bc_new [5], bc_new [6, 7], bc_new [8]])"
  by code_simp

theorem buffers_cut_buckets_witness:
  "\<exists>contents. decompressed_buckets store_codec [[5, 6, 7], [8]] [1, 2, 1] None_Compression
      (replicate (length [1, 2, 1 :: nat]) True) = Inr contents \<and> [5, 6, 7, 8] = concat (map held contents)"
  using buffers_cut_buckets [OF sample_buffers] by (auto simp: bc_new_def)

text \<open>C15. A projection that needs fewer buffers gets the same cursors for those and empty ones for the others.\<close>

theorem pruning_keeps_needed:
  assumes "decompress_into_buffers_with_pruning C buckets sizes ct (replicate (length sizes) True) = Some (Inr cs)"
    and "length needed = length sizes"
  shows "decompress_into_buffers_with_pruning C buckets sizes ct needed = Some (Inr (pruned_to needed cs))"
  using assms by (rule decompress_pruned)

theorem pruning_keeps_needed_witness:
  "decompress_into_buffers_with_pruning store_codec [[5, 6, 7], [8]] [1, 2, 1] None_Compression [False, True, False] =
    Some (Inr [bc_pruned_new, bc_new [6, 7], bc_pruned_new])"
  using pruning_keeps_needed [OF sample_buffers, of "[False, True, False]"] by (simp add: pruned_to_def)

end
