(* ===== verification/TransposeRecords.thy ===== *)
theory TransposeRecords
  imports TransposeSafety TransposeBuckets "HOL-Library.Code_Target_Nat"
begin

text \<open>
  The decoder as a whole: it returns on all input, and what it accepts are exactly the claimed number
  of records, which together are the decoded data.
\<close>

section \<open>The limits\<close>

lemma complement_limits_nth:
  assumes "hi \<le> length xs"
  shows "length (complement_limits sz lo hi xs) = length xs \<and>
    (\<forall>i < length xs. complement_limits sz lo hi xs ! i = (if lo \<le> i \<and> i < hi then sz - xs ! (lo + hi - 1 - i) else xs ! i))"
  using assms
proof (induction sz lo hi xs rule: complement_limits.induct)
  case (1 sz lo hi xs)
  show ?case
  proof (cases "lo < hi")
    case False
    then show ?thesis by (subst complement_limits.simps, subst (2) complement_limits.simps) simp
  next
    case True
    let ?ys = "xs[lo := sz - xs ! (hi - 1), hi - 1 := sz - xs ! lo]"
    have unfold: "complement_limits sz lo hi xs = complement_limits sz (lo + 1) (hi - 1) ?ys"
      using True by (subst complement_limits.simps) (simp add: Let_def)
    have IH: "length (complement_limits sz (lo + 1) (hi - 1) ?ys) = length ?ys \<and>
        (\<forall>i < length ?ys. complement_limits sz (lo + 1) (hi - 1) ?ys ! i =
          (if lo + 1 \<le> i \<and> i < hi - 1 then sz - ?ys ! (lo + 1 + (hi - 1) - 1 - i) else ?ys ! i))"
      using 1 True by simp
    have "complement_limits sz (lo + 1) (hi - 1) ?ys ! i = (if lo \<le> i \<and> i < hi then sz - xs ! (lo + hi - 1 - i) else xs ! i)"
      if i: "i < length xs" for i
    proof -
      consider "i < lo" | "i = lo" | "lo < i" "i < hi - 1" | "lo < i" "i = hi - 1" | "hi \<le> i" using True by linarith
      then show ?thesis
        using IH i True "1.prems" by cases (auto simp: nth_list_update)
    qed
    with IH show ?thesis by (simp add: unfold)
  qed
qed

lemma complement_limits_rev:
  "xs \<noteq> [] \<Longrightarrow> complement_limits sz 0 (length xs - 1) xs = rev (map (\<lambda>l. sz - l) (butlast xs)) @ [last xs]"
  using complement_limits_nth [of "length xs - 1" xs sz 0]
  by (intro nth_equalityI) (auto simp: nth_append rev_nth nth_butlast last_conv_nth intro!: arg_cong [where f = "nth xs"])

lemma valid_limits_sorted: "valid_limits sz prev ls \<longleftrightarrow> sorted (prev # ls) \<and> (\<forall>l \<in> set ls. l \<le> sz)"
  by (induction sz prev ls rule: valid_limits.induct) auto

text \<open>The limits that a decoder has: ascending, the last one the end of the data.\<close>

definition limits_ok :: "nat \<Rightarrow> nat list \<Rightarrow> bool" where
  "limits_ok sz limits \<longleftrightarrow> sorted limits \<and> (if limits = [] then sz = 0 else last limits = sz)"

lemma limits_ok_bound: "limits_ok sz limits \<Longrightarrow> i < length limits \<Longrightarrow> limits ! i \<le> sz"
  by (auto simp: limits_ok_def last_conv_nth sorted_iff_nth_mono split: if_splits)

lemma finalize_records_ok:
  assumes "finalize_records dest limits = Inr (data, ls)"
  shows "data = into_forward dest" "length data = bb_pos dest" "length ls = length limits" "limits_ok (length data) ls"
proof -
  show d: "data = into_forward dest" using assms by (auto simp: finalize_records_def Let_def split: if_splits)
  then show len: "length data = bb_pos dest" by (simp add: into_forward_def bb_pos_def)
  let ?ls = "if limits = [] then limits else complement_limits (bb_pos dest) 0 (length limits - 1) limits"
  have ls: "ls = ?ls" "valid_limits (bb_pos dest) 0 ?ls" "(if limits = [] then 0 else last limits) = bb_pos dest"
    using assms by (auto simp: finalize_records_def Let_def split: if_splits)
  have rev: "limits \<noteq> [] \<Longrightarrow> ?ls = rev (map (\<lambda>l. bb_pos dest - l) (butlast limits)) @ [last limits]"
    using complement_limits_rev by simp
  show "length ls = length limits" using rev by (cases "limits = []") (simp_all add: ls(1))
  show "limits_ok (length data) ls"
    using ls(2,3) rev by (cases "limits = []") (auto simp: limits_ok_def len ls(1) valid_limits_sorted)
qed

lemma sorted_complement: "sorted (xs :: nat list) \<Longrightarrow> sorted (rev (map (\<lambda>l. sz - l) xs))"
  by (induction xs) (auto simp: sorted_append intro!: diff_le_mono2)

lemma finalize_records_accepts:
  assumes "sorted limits" "\<forall>l \<in> set limits. l \<le> bb_pos dest" "(if limits = [] then 0 else last limits) = bb_pos dest"
  shows "\<exists>r. finalize_records dest limits = Inr r"
proof (cases "limits = []")
  case True
  with assms show ?thesis by (simp add: finalize_records_def)
next
  case False
  have "sorted (butlast limits)" using assms(1) by (metis False append_butlast_last_id sorted_append)
  then have "sorted (rev (map (\<lambda>l. bb_pos dest - l) (butlast limits)))" by (rule sorted_complement)
  with assms False show ?thesis
    by (auto simp: finalize_records_def Let_def complement_limits_rev [simplified] valid_limits_sorted sorted_append
      dest!: in_set_butlastD)
qed

section \<open>The decoder returns\<close>

lemma parse_header_ok:
  "\<exists>r. parse_header_and_buckets_with_projection C data projection = Some r \<and>
    (\<forall>ph. r = Inr ph \<longrightarrow> header_ok ph \<and> length (ph_buffers ph) = ph_num_buffers ph)"
proof (cases "chunk_header_section C data")
  case (Inl e)
  then show ?thesis by (simp add: parse_header_and_buckets_with_projection_def)
next
  case (Inr sec)
  obtain ct header_data pos where sec: "sec = (ct, header_data, pos)" by (cases sec)
  let ?m = "then_do read_sizes (\<lambda>sizes. then_do parse_state_metadata (\<lambda>sm. ret (sizes, sm))) (bc_new header_data)"
  obtain r hdr where m: "?m = (r, hdr)" by fastforce
  show ?thesis
  proof (cases r)
    case (Inl e)
    with Inr sec m show ?thesis by (simp add: parse_header_and_buckets_with_projection_def)
  next
    case parsed: (Inr x)
    obtain bucket_sizes buffer_sizes sm where x: "x = ((bucket_sizes, buffer_sizes), sm)" by (metis surj_pair)
    from m parsed x obtain c where sm: "parse_state_metadata c = (Inr sm, hdr)" by (auto simp: then_do_Inr)
    show ?thesis
    proof (cases "read_bucket_data data pos bucket_sizes")
      case (Inl e)
      with Inr sec m parsed x show ?thesis by (simp add: parse_header_and_buckets_with_projection_def)
    next
      case buckets: (Inr bp)
      obtain buckets new_pos where bp: "bp = (buckets, new_pos)" by (cases bp)
      let ?needed = "case projection of
          Some p \<Rightarrow> compute_needed_buffers_from_scan (sm_tags sm) (sm_subtypes_bytes sm) (bc_snapshot hdr) (length buffer_sizes) p
        | None \<Rightarrow> replicate (length buffer_sizes) True"
      from decompress_into_buffers_returns [of C buckets buffer_sizes ct ?needed] obtain q where
        "decompress_into_buffers_with_pruning C buckets buffer_sizes ct ?needed = Some q"
        "\<And>cs. q = Inr cs \<Longrightarrow> length cs = length buffer_sizes" by blast
      with Inr sec m parsed x buckets bp parse_state_metadata_lengths [OF sm] show ?thesis
        by (cases q) (auto simp: parse_header_and_buckets_with_projection_def Let_def header_ok_def takes_subtype_def [abs_def])
    qed
  qed
qed

definition decoder_ok :: "TransposeChunkDecoder \<Rightarrow> bool" where
  "decoder_ok d \<longleftrightarrow> limits_ok (length (tc_data d)) (tc_limits d)"

lemma decode_all_records_ok:
  assumes "machine_ok nb m" "length buffers = nb" "\<And>i. lengths_index = Some i \<Longrightarrow> i < nb"
  shows "\<exists>r. decode_all_records num size1 m buffers transitions lengths_index im = Some r \<and>
    (\<forall>data limits. r = Inr (data, limits) \<longrightarrow> limits_ok (length data) limits \<and> length limits = unat num \<and>
       length data \<le> unat size1 \<and> (im = None \<longrightarrow> length data = unat size1))"
proof -
  from run_state_machine_ok [where m = m and nb = nb, OF assms(1,2), of lengths_index num size1 transitions im] assms(3)
  obtain r where r: "run_state_machine num size1 m buffers transitions lengths_index im = Some r"
      "\<And>dest limits. r = Inr (dest, limits) \<Longrightarrow> bb_pos dest \<le> unat size1 \<and> length limits = unat num" by blast
  show ?thesis
  proof (cases r)
    case (Inl e)
    with r show ?thesis by (simp add: decode_all_records_def)
  next
    case (Inr x)
    obtain dest limits where x: "x = (dest, limits)" by (cases x)
    have b: "bb_pos dest \<le> unat size1" "length limits = unat num" using r Inr x by auto
    have "of_nat (bb_pos dest) = size1 \<longleftrightarrow> bb_pos dest = unat size1" using b(1) by (rule count_exact)
    then show ?thesis
      using r(1) Inr x b finalize_records_ok [of dest limits]
      by (auto simp: decode_all_records_def)
  qed
qed

lemma active_buffers_index: "sm_has_nonproto_op m \<Longrightarrow> n \<noteq> 0 \<Longrightarrow> n - 1 < (n :: nat)"
  by simp

lemma decoder_returns:
  "\<exists>r. tc_new_with_projection C chunk projection = Some r \<and>
    (\<forall>d. r = Inr d \<longrightarrow> decoder_ok d \<and> tc_next_yield d = 0 \<and>
       length (tc_limits d) = unat (ch_num_records (chunk_header chunk)) \<and>
       length (tc_data d) \<le> unat (ch_decoded_data_size (chunk_header chunk)) \<and>
       (projection = None \<longrightarrow> length (tc_data d) = unat (ch_decoded_data_size (chunk_header chunk))))"
proof -
  define active where "active = (case projection of Some p \<Rightarrow> if \<not> is_all p then Some p else None | None \<Rightarrow> None)"
  define im where "im = (case active of Some p \<Rightarrow> from_projection p | None \<Rightarrow> None)"
  have none: "projection = None \<Longrightarrow> im = None" by (simp add: im_def active_def)
  obtain r where r: "parse_header_and_buckets_with_projection C (chunk_data chunk) active = Some r"
      "\<And>ph. r = Inr ph \<Longrightarrow> header_ok ph \<and> length (ph_buffers ph) = ph_num_buffers ph"
    using parse_header_ok by blast
  show ?thesis
  proof (cases r)
    case (Inl e)
    with r show ?thesis by (simp add: tc_new_with_projection_def active_def [symmetric])
  next
    case (Inr ph)
    with r have ph: "header_ok ph" "length (ph_buffers ph) = ph_num_buffers ph" by auto
    obtain q where q: "build_state_machine_nodes ph (im \<noteq> None) = Some q" "\<And>m. q = Inr m \<Longrightarrow> machine_ok (ph_num_buffers ph) m"
      using build_state_machine_ok [OF ph(1)] by blast
    let ?idx = "\<lambda>m. if sm_has_nonproto_op m then
                       if ph_num_buffers ph = 0 then Inl (MalformedData ''nonproto op but no buffers'')
                       else Inr (Some (ph_num_buffers ph - 1))
                     else Inr None :: nat option res"
    show ?thesis
    proof (cases q)
      case (Inl e)
      with r q Inr show ?thesis by (simp add: tc_new_with_projection_def active_def [symmetric] im_def [symmetric])
    next
      case m: (Inr m)
      have unfold: "tc_new_with_projection C chunk projection =
          bind_try (Some (?idx m)) (\<lambda>lengths_index.
          bind_try (Some (decompress_with_prefix C (ph_transitions_compressed ph) (ph_compression_type ph))) (\<lambda>transitions.
          bind_try (decode_all_records (ch_num_records (chunk_header chunk)) (ch_decoded_data_size (chunk_header chunk)) m
              (ph_buffers ph) (bc_new transitions) lengths_index im)
            (\<lambda>(decoded, limits). Some (Inr \<lparr>tc_data = decoded, tc_limits = limits, tc_next_yield = 0\<rparr>))))"
        using r(1) q(1) Inr m
        by (simp add: tc_new_with_projection_def active_def [symmetric] im_def [symmetric] Let_def)
      show ?thesis
      proof (cases "?idx m")
        case (Inl e)
        then show ?thesis unfolding unfold by simp
      next
        case idx: (Inr lengths_index)
        then have nb: "\<And>i. lengths_index = Some i \<Longrightarrow> i < ph_num_buffers ph" by (auto split: if_splits)
        show ?thesis
        proof (cases "decompress_with_prefix C (ph_transitions_compressed ph) (ph_compression_type ph)")
          case (Inl e)
          then show ?thesis unfolding unfold idx by simp
        next
          case transitions: (Inr transitions)
          from q(2) [OF m] have "machine_ok (ph_num_buffers ph) m" .
          from decode_all_records_ok [OF this ph(2) nb] obtain x where
            x: "decode_all_records (ch_num_records (chunk_header chunk)) (ch_decoded_data_size (chunk_header chunk)) m
              (ph_buffers ph) (bc_new transitions) lengths_index im = Some x"
            "\<And>data limits. x = Inr (data, limits) \<Longrightarrow> limits_ok (length data) limits \<and>
               length limits = unat (ch_num_records (chunk_header chunk)) \<and>
               length data \<le> unat (ch_decoded_data_size (chunk_header chunk)) \<and>
               (im = None \<longrightarrow> length data = unat (ch_decoded_data_size (chunk_header chunk)))" by blast
          show ?thesis
            unfolding unfold idx transitions using x none by (cases x) (auto simp: decoder_ok_def)
        qed
      qed
    qed
  qed
qed

section \<open>Reading the records\<close>

definition record_at :: "TransposeChunkDecoder \<Rightarrow> nat \<Rightarrow> bytes" where
  "record_at d i = drop (if i = 0 then 0 else tc_limits d ! (i - 1)) (take (tc_limits d ! i) (tc_data d))"

definition tc_remaining :: "TransposeChunkDecoder \<Rightarrow> bytes list" where
  "tc_remaining d = map (record_at d) [tc_next_yield d..<length (tc_limits d)]"

lemma tc_read_record_step:
  assumes "decoder_ok d" "tc_next_yield d < length (tc_limits d)"
  shows "tc_read_record d = Some (Inr (Some (record_at d (tc_next_yield d))), d\<lparr>tc_next_yield := tc_next_yield d + 1\<rparr>)"
proof -
  let ?i = "tc_next_yield d"
  have "tc_limits d ! ?i \<le> length (tc_data d)" using assms limits_ok_bound by (auto simp: decoder_ok_def)
  moreover have "?i \<noteq> 0 \<Longrightarrow> tc_limits d ! (?i - 1) \<le> tc_limits d ! ?i"
    using assms by (auto simp: decoder_ok_def limits_ok_def sorted_iff_nth_mono)
  ultimately show ?thesis using assms(2) by (simp add: tc_read_record_def range_at_def record_at_def Let_def)
qed

interpretation transposed_source: record_source tc_read_record decoder_ok tc_remaining
proof unfold_locales
  fix d :: TransposeChunkDecoder
  assume "decoder_ok d" "tc_remaining d = []"
  then have "length (tc_limits d) \<le> tc_next_yield d" by (auto simp: tc_remaining_def)
  then show "tc_read_record d = Some (Inr None, d)" by (simp add: tc_read_record_def)
next
  fix d :: TransposeChunkDecoder and r rs
  assume d: "decoder_ok d" and rs: "tc_remaining d = r # rs"
  then have "[tc_next_yield d..<length (tc_limits d)] \<noteq> []" by (auto simp: tc_remaining_def)
  then have i: "tc_next_yield d < length (tc_limits d)" by simp
  let ?d = "d\<lparr>tc_next_yield := tc_next_yield d + 1\<rparr>"
  have "record_at ?d = record_at d" by (simp add: record_at_def fun_eq_iff)
  then have "tc_remaining ?d = rs" "r = record_at d (tc_next_yield d)"
    using rs i by (simp_all add: tc_remaining_def upt_conv_Cons)
  with tc_read_record_step [OF d i] d show "\<exists>d'. tc_read_record d = Some (Inr (Some r), d') \<and> decoder_ok d' \<and> tc_remaining d' = rs"
    by (intro exI [of _ ?d]) (simp add: decoder_ok_def)
qed

lemma concat_records:
  assumes "decoder_ok d" "n \<le> length (tc_limits d)"
  shows "concat (map (record_at d) [0..<n]) = take (if n = 0 then 0 else tc_limits d ! (n - 1)) (tc_data d)"
  using assms(2)
proof (induction n)
  case (Suc n)
  have "n \<noteq> 0 \<Longrightarrow> tc_limits d ! (n - 1) \<le> tc_limits d ! n"
    using assms(1) Suc.prems by (auto simp: decoder_ok_def limits_ok_def sorted_iff_nth_mono)
  then have "take (if n = 0 then 0 else tc_limits d ! (n - 1)) (tc_data d) @ record_at d n = take (tc_limits d ! n) (tc_data d)"
    by (auto simp: record_at_def) (metis append_take_drop_id min.absorb1 take_take)
  with Suc show ?case by simp
qed simp

lemma all_records:
  assumes "decoder_ok d" "tc_next_yield d = 0"
  shows "concat (tc_remaining d) = tc_data d" "length (tc_remaining d) = length (tc_limits d)"
proof -
  show "length (tc_remaining d) = length (tc_limits d)" by (simp add: tc_remaining_def assms(2))
  have "(if tc_limits d = [] then 0 else tc_limits d ! (length (tc_limits d) - 1)) = length (tc_data d)"
    using assms(1) by (auto simp: decoder_ok_def limits_ok_def last_conv_nth)
  then show "concat (tc_remaining d) = tc_data d"
    using concat_records [OF assms(1), of "length (tc_limits d)"] by (simp add: tc_remaining_def assms(2) split: if_splits)
qed

section \<open>Properties\<close>

text \<open>A chunk with one record: field 1 is the varint 5.\<close>

definition sample_transposed :: Chunk where
  "sample_transposed = \<lparr>
     chunk_header = \<lparr>ch_header_hash = 0, ch_data_size = 16, ch_data_hash = 0, ch_type_and_num_records = 0x174,
       ch_decoded_data_size = 2\<rparr>,
     chunk_data = [0, 12] @ [1, 1, 1, 1, 2, 8, 3, 1, 0, 0, 0, 0] @ [5] @ [0]\<rparr>"

definition sample_header :: ParsedHeader where
  "sample_header = \<lparr>ph_buffers = [bc_new [5]], ph_num_states = 2, ph_tags = [8, 3], ph_next_node_indices = [1, 0],
      ph_subtypes_bytes = [0], ph_hdr = \<lparr>bc_data = [1, 1, 1, 1, 2, 8, 3, 1, 0, 0, 0, 0], bc_pos = 10, bc_pruned = False\<rparr>,
      ph_num_buffers = 1, ph_compression_type = None_Compression, ph_transitions_compressed = [0]\<rparr>"

definition sample_nodes :: "StateMachineNode list" where
  "sample_nodes =
     [\<lparr>sn_tag_data = [8], sn_tag_data_size = 1, sn_callback_type = VarintField 1, sn_buffer_index = Some 0,
       sn_next_node_index = 1, sn_is_implicit = False, sn_node_template_index = None\<rparr>,
      plain_node MessageStart None 0 False None] @ replicate 255 failure_node"

definition sample_machine :: BuiltStateMachine where
  "sample_machine = \<lparr>sm_nodes = sample_nodes, sm_first_node = 0, sm_has_nonproto_op = False, sm_node_templates = []\<rparr>"

lemma sample_parses:
  "parse_header_and_buckets_with_projection store_codec (chunk_data sample_transposed) None = Some (Inr sample_header)"
  by code_simp

lemma no_implicit_chain: "\<forall>node \<in> set nodes. \<not> sn_is_implicit node \<Longrightarrow> chain_ends nodes j"
  by (cases "j < length nodes") (auto intro: ends_here ends_outside)

lemma sample_builds: "build_state_machine_nodes sample_header False = Some (Inr sample_machine)"
proof -
  have e: "try_each (build_state sample_header False) [0..<ph_num_states sample_header]
      \<lparr>bs_hdr = ph_hdr sample_header, bs_subtype_idx = 0, bs_has_nonproto_op = False, bs_node_templates = []\<rparr> =
      Some (Inr (take 2 sample_nodes),
        \<lparr>bs_hdr = (ph_hdr sample_header)\<lparr>bc_pos := 11\<rparr>, bs_subtype_idx = 1, bs_has_nonproto_op = False, bs_node_templates = []\<rparr>)"
    by code_simp
  have f: "bc_read_varint32 ((ph_hdr sample_header)\<lparr>bc_pos := 11\<rparr>) = (Inr 0, (ph_hdr sample_header)\<lparr>bc_pos := 12\<rparr>)"
    by code_simp
  have nodes: "take 2 sample_nodes @ replicate 255 failure_node = sample_nodes"
    unfolding sample_nodes_def by (simp add: plain_node_def)
  have "contains_implicit_loop sample_nodes = Some False"
    using no_implicit_chain [of sample_nodes]
    by (simp add: implicit_loop_exact sample_nodes_def plain_node_def failure_node_def)
  with e f nodes show ?thesis
    by (simp add: build_state_machine_nodes_def on_hdr_def surely_def ret_def sample_machine_def Let_def)
      (simp add: sample_header_def bc_is_empty_def)
qed

lemma sample_decodes: "tc_new store_codec sample_transposed = Some (Inr \<lparr>tc_data = [8, 5], tc_limits = [2], tc_next_yield = 0\<rparr>)"
proof -
  let ?s0 = "\<lparr>ds_dest = bb_new 2, ds_buffers = [bc_new [5]], ds_submessage_stack = [], ds_limits = [],
                    ds_num_records = 1, ds_nonproto_lengths_index = None,
                    ds_node_templates = [], ds_include_map = None, ds_skipped_submessage_level = 0\<rparr>"
  let ?s1 = "?s0\<lparr>ds_dest := \<lparr>bb_data = [5, 8], bb_limit = 2\<rparr>, ds_buffers := [\<lparr>bc_data = [5], bc_pos = 1, bc_pruned = False\<rparr>]\<rparr>"
  have "machine_step sample_nodes (0, 0, bc_new [0], ?s0) = Some (Inl (1, 0, (bc_new [0])\<lparr>bc_pos := 1\<rparr>, ?s1))"
    by code_simp
  moreover have "machine_step sample_nodes (1, 0, (bc_new [0])\<lparr>bc_pos := 1\<rparr>, ?s1) = Some (Inr (Inr (?s1\<lparr>ds_limits := [2]\<rparr>)))"
    by code_simp
  ultimately have "iterate (machine_step sample_nodes) (0, 0, bc_new [0], ?s0) = Some (Inr (?s1\<lparr>ds_limits := [2]\<rparr>))"
    by (simp add: iterate_continue iterate_exit)
  then have "decode_all_records 1 2 sample_machine [bc_new [5]] (bc_new [0]) None None = Some (Inr ([8, 5], [2]))"
    by (simp add: decode_all_records_def run_state_machine_def sample_machine_def item_at_def Let_def sample_nodes_def bb_pos_def
      finalize_records_def complement_limits.simps into_forward_def)
  then show ?thesis
    using sample_parses sample_builds
    by (simp add: tc_new_def tc_new_with_projection_def)
      (simp add: sample_header_def sample_machine_def decompress_with_prefix_def sample_transposed_def ch_num_records_def)
qed

text \<open>C10. The decoder of transposed chunks returns a decoder or an error on every chunk and projection: no
  index or slice is out of range and the state machine stops.
\<close>

theorem transposed_decoder_returns:
  "\<exists>r. tc_new_with_projection C chunk projection = Some r"
  using decoder_returns by blast

text \<open>C11. A decoder that was accepted yields as many records as the header claims, which together are the
  decoded data; its size is at most the claimed size, and equal to it without a projection.
\<close>

theorem transposed_reads_exactly:
  assumes "tc_new_with_projection C chunk projection = Some (Inr d)"
  shows "\<exists>rs. (\<forall>n. drain tc_read_record n d = Some (take n rs)) \<and>
    length rs = unat (ch_num_records (chunk_header chunk)) \<and>
    (case projection of None \<Rightarrow> length (concat rs) = unat (ch_decoded_data_size (chunk_header chunk))
     | Some p \<Rightarrow> length (concat rs) \<le> unat (ch_decoded_data_size (chunk_header chunk)))"
proof -
  have d: "decoder_ok d" "tc_next_yield d = 0" "length (tc_limits d) = unat (ch_num_records (chunk_header chunk))"
      "length (tc_data d) \<le> unat (ch_decoded_data_size (chunk_header chunk))"
      "projection = None \<Longrightarrow> length (tc_data d) = unat (ch_decoded_data_size (chunk_header chunk))"
    using decoder_returns [of C chunk projection] assms by auto
  show ?thesis
    using transposed_source.drain_take [OF d(1)] all_records [OF d(1,2)] d(3-5)
    by (intro exI [of _ "tc_remaining d"]) (simp split: option.splits)
qed

theorem transposed_reads_exactly_witness:
  "\<exists>d rs. tc_new_with_projection store_codec sample_transposed None = Some (Inr d) \<and>
    drain tc_read_record 7 d = Some rs \<and> length rs = 1 \<and> length (concat rs) = 2"
proof -
  have "tc_new_with_projection store_codec sample_transposed None =
      Some (Inr \<lparr>tc_data = [8, 5], tc_limits = [2], tc_next_yield = 0\<rparr>)"
    using sample_decodes by (simp add: tc_new_def)
  from transposed_reads_exactly [OF this] obtain rs where
    rs: "\<And>n. drain tc_read_record n \<lparr>tc_data = [8, 5], tc_limits = [2], tc_next_yield = 0\<rparr> = Some (take n rs)"
      "length rs = 1" "length (concat rs) = 2"
    by (auto simp: sample_transposed_def ch_num_records_def)
  then show ?thesis using sample_decodes by (fastforce simp: tc_new_def)
qed

end
