(* ===== verification/OrderedMap.thy ===== *)
theory OrderedMap
  imports Main
begin

text \<open>
  The \<^verbatim>\<open>BTreeMap\<close> of the standard library as an association list in ascending order of its keys, and
  the \<^verbatim>\<open>BinaryHeap\<close> as the list of its entries: \<open>pop\<close> takes a greatest one.
\<close>

section \<open>Ordered maps\<close>

fun bt_put :: "'k::linorder \<Rightarrow> 'v \<Rightarrow> ('k \<times> 'v) list \<Rightarrow> ('k \<times> 'v) list" where
  "bt_put k v [] = [(k, v)]"
| "bt_put k v ((k', v') # m) =
     (if k = k' then (k, v) # m else if k < k' then (k, v) # (k', v') # m else (k', v') # bt_put k v m)"

abbreviation bt_get :: "'k \<Rightarrow> ('k \<times> 'v) list \<Rightarrow> 'v option" where
  "bt_get k m \<equiv> map_of m k"

definition bt_keys :: "('k \<times> 'v) list \<Rightarrow> 'k list" where
  "bt_keys m = map fst m"

definition bt_ok :: "('k::linorder \<times> 'v) list \<Rightarrow> bool" where
  "bt_ok m \<longleftrightarrow> sorted_wrt (<) (bt_keys m)"

lemma bt_keys_simps [simp]: "bt_keys [] = []" "bt_keys ((k, v) # m) = k # bt_keys m"
  by (simp_all add: bt_keys_def)

lemma bt_keys_put [simp]: "set (bt_keys (bt_put k v m)) = insert k (set (bt_keys m))"
  by (induction k v m rule: bt_put.induct) auto

lemma bt_ok_simps [simp]: "bt_ok []" "bt_ok ((k, v) # m) \<longleftrightarrow> (\<forall>k' \<in> set (bt_keys m). k < k') \<and> bt_ok m"
  by (simp_all add: bt_ok_def)

lemma bt_ok_put: "bt_ok m \<Longrightarrow> bt_ok (bt_put k v m)"
  by (induction k v m rule: bt_put.induct) auto

lemma bt_get_put [simp]: "bt_get k' (bt_put k v m) = (if k' = k then Some v else bt_get k' m)"
  by (induction k v m rule: bt_put.induct) auto

lemma bt_keys_put_same: "bt_ok m \<Longrightarrow> k \<in> set (bt_keys m) \<Longrightarrow> bt_keys (bt_put k v m) = bt_keys m"
  by (induction k v m rule: bt_put.induct) auto

lemma bt_length_keys: "length (bt_keys m) = length m"
  by (simp add: bt_keys_def)

lemma bt_keys_get: "k \<in> set (bt_keys m) \<longleftrightarrow> bt_get k m \<noteq> None"
  by (simp add: bt_keys_def map_of_eq_None_iff)

lemma bt_ok_distinct: "bt_ok m \<Longrightarrow> distinct (bt_keys m)"
  by (auto simp: bt_ok_def strict_sorted_iff)

section \<open>Heaps\<close>

definition pop_greatest :: "'a::linorder list \<Rightarrow> ('a \<times> 'a list) option" where
  "pop_greatest q = (case q of [] \<Rightarrow> None | x # xs \<Rightarrow> let m = fold max xs x in Some (m, remove1 m q))"

lemma fold_max_mem: "fold max xs (x :: 'a::linorder) \<in> set (x # xs)"
proof (induction xs arbitrary: x)
  case (Cons y ys)
  then show ?case using Cons.IH [of "max y x"] by (auto simp: max_def split: if_splits)
qed simp

lemma pop_greatest_Some:
  assumes "pop_greatest q = Some (m, q')"
  shows "m \<in> set q" "q' = remove1 m q" "length q = Suc (length q')"
proof -
  show m: "m \<in> set q" "q' = remove1 m q"
    using assms fold_max_mem by (auto simp: pop_greatest_def Let_def split: list.splits)
  then show "length q = Suc (length q')" using length_pos_if_in_set [of m q] by (simp add: length_remove1)
qed

lemma pop_greatest_None [simp]: "pop_greatest q = None \<longleftrightarrow> q = []"
  by (simp add: pop_greatest_def Let_def split: list.splits)

end
