(* ===== verification/EncoderState.thy ===== *)
theory EncoderState
  imports OrderedMap Panics TransposeInternal SimpleChunk Iteration "HOL-Library.Monad_Syntax"
begin

text \<open>
  \<^verbatim>\<open>riegeli/src/transpose/encoder.rs\<close>, first part: the state of the encoder of transposed chunks and the
  decomposition of a record into tags and buffers.  Indices into the tables of the encoder, which the
  source keeps as \<open>u32\<close>, are naturals, and \<open>NO_POS\<close> is its \<open>u32::MAX\<close>.  \<open>None\<close> is a panic.
\<close>

section \<open>Tags, nodes and buffers\<close>

definition MAX_TRANSITION :: nat where "MAX_TRANSITION = 63"
definition MIN_COUNT_FOR_STATE :: nat where "MIN_COUNT_FOR_STATE = 10"
definition NO_POS :: nat where "NO_POS = 4294967295"

record NodeId =
  parent_message_id :: u32
  node_id_tag :: u32

datatype BufferType = Buf_Varint | Buf_Fixed32 | Buf_Fixed64 | Buf_String | Buf_NonProto

definition ALL_BUFFER_TYPES :: "BufferType list" where
  "ALL_BUFFER_TYPES = [Buf_Varint, Buf_Fixed32, Buf_Fixed64, Buf_String, Buf_NonProto]"

record DestInfo =
  di_pos :: nat
  di_num_transitions :: nat

definition new_dest :: DestInfo where
  "new_dest = \<lparr>di_pos = NO_POS, di_num_transitions = 0\<rparr>"

record EncodedTagInfo =
  et_node_id :: NodeId
  et_subtype :: u8
  et_dest_info :: "(nat \<times> DestInfo) list"
  et_num_incoming :: nat
  et_state_machine_pos :: nat
  et_public_list_noop_pos :: nat
  et_base :: nat

definition new_tag_info :: "NodeId \<Rightarrow> u8 \<Rightarrow> EncodedTagInfo" where
  "new_tag_info node_id st =
     \<lparr>et_node_id = node_id, et_subtype = st, et_dest_info = [], et_num_incoming = 0,
      et_state_machine_pos = NO_POS, et_public_list_noop_pos = NO_POS, et_base = NO_POS\<rparr>"

record ChunkBuffer =
  cb_data :: bytes
  cb_sizes :: "nat list"

definition empty_buffer :: ChunkBuffer where
  "empty_buffer = \<lparr>cb_data = [], cb_sizes = []\<rparr>"

definition push_chunk :: "bytes \<Rightarrow> ChunkBuffer \<Rightarrow> ChunkBuffer" where
  "push_chunk chunk b = b\<lparr>cb_data := cb_data b @ chunk, cb_sizes := cb_sizes b @ [length chunk]\<rparr>"

text \<open>The loop of \<open>write_to\<close>, over the sizes in reverse order.\<close>

fun write_chunks :: "bytes \<Rightarrow> nat \<Rightarrow> nat list \<Rightarrow> bytes option" where
  "write_chunks data stop [] = Some []"
| "write_chunks data stop (n # sizes) =
     (if stop < n then None
      else do {
        chunk \<leftarrow> range_at data (stop - n) stop;
        rest \<leftarrow> write_chunks data (stop - n) sizes;
        Some (chunk @ rest)
      })"

definition write_to :: "ChunkBuffer \<Rightarrow> bytes option" where
  "write_to b = write_chunks (cb_data b) (length (cb_data b)) (rev (cb_sizes b))"

record BufferWithMetadata =
  bm_node_id :: NodeId
  bm_data :: ChunkBuffer

record MessageNode =
  mn_message_id :: u32
  mn_encoded_tag_pos :: "nat list"

record MessageFrame =
  mf_end_sub_tag_idx :: nat
  mf_parent_message_id :: u32
  mf_parent_end_pos :: nat

section \<open>The encoder\<close>

record TransposeChunkEncoder =
  te_compression :: CompressionType
  te_compress_opts :: CompressOptions
  te_message_nodes :: "NodeId \<rightharpoonup> MessageNode"
  te_next_message_id :: u32
  te_tags_list :: "EncodedTagInfo list"
  te_encoded_tags :: "nat list"
  te_data :: "BufferType \<Rightarrow> BufferWithMetadata list"
  te_nonproto_lengths :: ChunkBuffer
  te_num_records :: u64
  te_decoded_data_size :: u64
  te_bucket_size :: u64

definition te_new :: "CompressionType \<Rightarrow> TransposeChunkEncoder" where
  "te_new ct =
     \<lparr>te_compression = ct, te_compress_opts = default_compress_options, te_message_nodes = Map.empty,
      te_next_message_id = ROOT + 1, te_tags_list = [], te_encoded_tags = [], te_data = (\<lambda>_. []),
      te_nonproto_lengths = empty_buffer, te_num_records = 0, te_decoded_data_size = 0, te_bucket_size = - 1\<rparr>"

definition te_with_compress_opts :: "CompressOptions \<Rightarrow> TransposeChunkEncoder \<Rightarrow> TransposeChunkEncoder" where
  "te_with_compress_opts opts e = e\<lparr>te_compress_opts := opts\<rparr>"

definition te_with_bucket_size :: "u64 \<Rightarrow> TransposeChunkEncoder \<Rightarrow> TransposeChunkEncoder" where
  "te_with_bucket_size n e = e\<lparr>te_bucket_size := (if te_compression e = None_Compression then - 1 else n)\<rparr>"

definition get_or_create_node :: "NodeId \<Rightarrow> (TransposeChunkEncoder, u32) action" where
  "get_or_create_node node_id e =
     (case te_message_nodes e node_id of
        Some node \<Rightarrow> (Inr (mn_message_id node), e)
      | None \<Rightarrow>
          (Inr (te_next_message_id e),
           e\<lparr>te_next_message_id := te_next_message_id e + 1,
             te_message_nodes := (te_message_nodes e)(node_id \<mapsto>
               \<lparr>mn_message_id = te_next_message_id e, mn_encoded_tag_pos = []\<rparr>)\<rparr>))"

definition grown :: "nat \<Rightarrow> nat list \<Rightarrow> nat list" where
  "grown i xs = (if length xs \<le> i then xs @ replicate (i + 1 - length xs) NO_POS else xs)"

definition get_pos_in_tags_list :: "NodeId \<Rightarrow> u8 \<Rightarrow> (TransposeChunkEncoder, nat) action" where
  "get_pos_in_tags_list node_id st =
     then_do (get_or_create_node node_id) (\<lambda>_ e.
       case te_message_nodes e node_id of
         None \<Rightarrow> (Inr NO_POS, e)
       | Some node \<Rightarrow>
           let i = unat st;
               ps = grown i (mn_encoded_tag_pos node)
           in if ps ! i = NO_POS
              then let p = length (te_tags_list e)
                   in (Inr p, e\<lparr>te_message_nodes := (te_message_nodes e)(node_id \<mapsto> node\<lparr>mn_encoded_tag_pos := ps[i := p]\<rparr>),
                               te_tags_list := te_tags_list e @ [new_tag_info node_id st]\<rparr>)
              else (Inr (ps ! i), e\<lparr>te_message_nodes := (te_message_nodes e)(node_id \<mapsto> node\<lparr>mn_encoded_tag_pos := ps\<rparr>)\<rparr>))"

text \<open>\<open>get_buffer\<close> followed by \<open>push_chunk\<close>: the first buffer of the node, or a new one.\<close>

fun push_to_node :: "NodeId \<Rightarrow> bytes \<Rightarrow> BufferWithMetadata list \<Rightarrow> BufferWithMetadata list" where
  "push_to_node node_id chunk [] = [\<lparr>bm_node_id = node_id, bm_data = push_chunk chunk empty_buffer\<rparr>]"
| "push_to_node node_id chunk (b # bs) =
     (if bm_node_id b = node_id then b\<lparr>bm_data := push_chunk chunk (bm_data b)\<rparr> # bs
      else b # push_to_node node_id chunk bs)"

definition push_buffer :: "NodeId \<Rightarrow> BufferType \<Rightarrow> bytes \<Rightarrow> (TransposeChunkEncoder, unit) action" where
  "push_buffer node_id bt chunk e =
     (Inr (), e\<lparr>te_data := (te_data e)(bt := push_to_node node_id chunk (te_data e bt))\<rparr>)"

definition push_tag :: "nat \<Rightarrow> (TransposeChunkEncoder, unit) action" where
  "push_tag i e = (Inr (), e\<lparr>te_encoded_tags := te_encoded_tags e @ [i]\<rparr>)"

definition push_state :: "NodeId \<Rightarrow> u8 \<Rightarrow> (TransposeChunkEncoder, unit) action" where
  "push_state node_id st = then_do (get_pos_in_tags_list node_id st) push_tag"

section \<open>Fields\<close>

text \<open>\<open>&data[n..]\<close>.\<close>

definition suffix_at :: "'a list \<Rightarrow> nat \<Rightarrow> 'a list option" where
  "suffix_at xs n = (if n \<le> length xs then Some (drop n xs) else None)"

text \<open>The fields: given the position behind the tag, the position behind the field.\<close>

definition encode_varint_field :: "bytes \<Rightarrow> nat \<Rightarrow> NodeId \<Rightarrow> (TransposeChunkEncoder, nat) trial" where
  "encode_varint_field data pos node_id =
     try_then (unless_panic (suffix_at data pos)) (\<lambda>rest.
     try_then (surely (of_res (map_err (\<lambda>_. MalformedData ''varint value'') (decode_u64 rest)))) (\<lambda>(_, vlen).
     try_then (unless_panic (range_at data pos (pos + vlen))) (\<lambda>varint_bytes.
     try_then (unless_panic (item_at varint_bytes 0)) (\<lambda>b0.
       if vlen = 1 \<and> b0 \<le> MAX_VARINT_INLINE
       then try_then (surely (push_state node_id (VARINT_INLINE_0 + b0))) (\<lambda>_. surely (ret (pos + vlen)))
       else
         try_then (surely (push_state node_id (VARINT_1 + (of_nat vlen - 1)))) (\<lambda>_.
         try_then (surely (push_buffer node_id Buf_Varint (map (\<lambda>b. b AND 0x7F) varint_bytes))) (\<lambda>_.
         surely (ret (pos + vlen))))))))"

definition encode_fixed_field :: "nat \<Rightarrow> BufferType \<Rightarrow> string \<Rightarrow> bytes \<Rightarrow> nat \<Rightarrow> NodeId \<Rightarrow> (TransposeChunkEncoder, nat) trial" where
  "encode_fixed_field n bt msg data pos node_id =
     (if length data < pos + n then surely (fail_with (MalformedData msg))
      else
        try_then (surely (push_state node_id TRIVIAL)) (\<lambda>_.
        try_then (unless_panic (range_at data pos (pos + n))) (\<lambda>bytes.
        try_then (surely (push_buffer node_id bt bytes)) (\<lambda>_.
        surely (ret (pos + n))))))"

definition encode_fixed32_field :: "bytes \<Rightarrow> nat \<Rightarrow> NodeId \<Rightarrow> (TransposeChunkEncoder, nat) trial" where
  "encode_fixed32_field = encode_fixed_field 4 Buf_Fixed32 ''truncated fixed32''"

definition encode_fixed64_field :: "bytes \<Rightarrow> nat \<Rightarrow> NodeId \<Rightarrow> (TransposeChunkEncoder, nat) trial" where
  "encode_fixed64_field = encode_fixed_field 8 Buf_Fixed64 ''truncated fixed64''"

text \<open>
  The new position, and the frame with the new parent and end when a submessage is entered.
  \<open>decode_u32\<close> has read at most \<open>u32::MAX\<close>, so \<open>checked_add\<close> does not fail on 64 bits.
\<close>

definition encode_length_delimited_field ::
  "bytes \<Rightarrow> nat \<Rightarrow> NodeId \<Rightarrow> u32 \<Rightarrow> nat \<Rightarrow> nat \<Rightarrow> MessageFrame list \<Rightarrow> u32 \<Rightarrow>
   (TransposeChunkEncoder, nat \<times> (MessageFrame \<times> u32 \<times> nat) option) trial" where
  "encode_length_delimited_field data length_pos node_id node_mid current_end depth message_stack current_parent =
     try_then (unless_panic (suffix_at data length_pos)) (\<lambda>rest.
     try_then (surely (of_res (map_err (\<lambda>_. MalformedData ''length'') (decode_u32 rest)))) (\<lambda>(len, llen).
       let value_pos = length_pos + llen;
           value_end = value_pos + unat len
       in if current_end < value_end then surely (fail_with (MalformedData ''length-delimited field overflow''))
          else
            try_then (unless_panic (if 0 < len \<and> depth + length message_stack < MAX_RECURSION_DEPTH
                then map_option is_proto_message (range_at data value_pos value_end) else Some False)) (\<lambda>submessage.
              if submessage then
                try_then (surely (push_state node_id LENGTH_DELIMITED_START_OF_SUBMESSAGE)) (\<lambda>_.
                try_then (surely (get_pos_in_tags_list node_id LENGTH_DELIMITED_END_OF_SUBMESSAGE)) (\<lambda>end_sub_idx.
                surely (ret (value_pos,
                  Some (\<lparr>mf_end_sub_tag_idx = end_sub_idx, mf_parent_message_id = current_parent,
                         mf_parent_end_pos = current_end\<rparr>, node_mid, value_end)))))
              else
                try_then (surely (push_state node_id LENGTH_DELIMITED_STRING)) (\<lambda>_.
                try_then (unless_panic (range_at data length_pos value_end)) (\<lambda>string_bytes.
                try_then (surely (push_buffer node_id Buf_String string_bytes)) (\<lambda>_.
                surely (ret (value_end, None))))))))"

section \<open>Messages\<close>

text \<open>The variables of the loop of \<open>add_message\<close>; the top of both stacks comes first.\<close>

record MessageLoop =
  ml_pos :: nat
  ml_message_stack :: "MessageFrame list"
  ml_group_stack :: "u32 list"
  ml_current_parent :: u32
  ml_current_end :: nat

text \<open>The inner loop, at the end of a submessage.\<close>

fun close_messages :: "nat \<Rightarrow> MessageFrame list \<Rightarrow> u32 \<Rightarrow> nat \<Rightarrow> TransposeChunkEncoder \<Rightarrow>
  MessageFrame list \<times> u32 \<times> nat \<times> TransposeChunkEncoder" where
  "close_messages pos [] parent stop e = ([], parent, stop, e)"
| "close_messages pos (frame # stack) parent stop e =
     (if stop \<le> pos
      then close_messages pos stack (mf_parent_message_id frame) (mf_parent_end_pos frame)
        (e\<lparr>te_encoded_tags := te_encoded_tags e @ [mf_end_sub_tag_idx frame]\<rparr>)
      else (frame # stack, parent, stop, e))"

definition close_step :: "MessageLoop \<Rightarrow> (TransposeChunkEncoder, MessageLoop) trial" where
  "close_step l e =
     (case close_messages (ml_pos l) (ml_message_stack l) (ml_current_parent l) (ml_current_end l) e of
        (stack, parent, stop, e) \<Rightarrow>
          Some (Inr (l\<lparr>ml_message_stack := stack, ml_current_parent := parent, ml_current_end := stop\<rparr>), e))"

text \<open>One turn of the loop.\<close>

definition add_field :: "bytes \<Rightarrow> nat \<Rightarrow> MessageLoop \<Rightarrow> (TransposeChunkEncoder, MessageLoop) trial" where
  "add_field data depth l =
     try_then (unless_panic (suffix_at data (ml_pos l))) (\<lambda>rest.
     try_then (surely (of_res (map_err (\<lambda>_. MalformedData ''tag decode'') (decode_u32 rest)))) (\<lambda>(tag, consumed).
       let pos = ml_pos l + consumed;
           at = (\<lambda>pos. close_step (l\<lparr>ml_pos := pos\<rparr>))
       in if tag_field_number tag = 0 then surely (fail_with (MalformedData ''field number 0 in proto''))
          else
            let node_id = \<lparr>parent_message_id = ml_current_parent l, node_id_tag = tag\<rparr>
            in try_then (surely (get_or_create_node node_id)) (\<lambda>node_mid.
              case tag_wire_type tag of
                Some WVarint \<Rightarrow> try_then (encode_varint_field data pos node_id) at
              | Some Fixed32 \<Rightarrow> try_then (encode_fixed32_field data pos node_id) at
              | Some Fixed64 \<Rightarrow> try_then (encode_fixed64_field data pos node_id) at
              | Some LengthDelimited \<Rightarrow>
                  try_then (encode_length_delimited_field data pos node_id node_mid (ml_current_end l)
                      (depth + length (ml_group_stack l)) (ml_message_stack l) (ml_current_parent l))
                    (\<lambda>(pos, entered_submessage).
                      case entered_submessage of
                        Some (frame, parent, stop) \<Rightarrow>
                          surely (ret (l\<lparr>ml_pos := pos, ml_message_stack := frame # ml_message_stack l,
                            ml_current_parent := parent, ml_current_end := stop\<rparr>))
                      | None \<Rightarrow> at pos)
              | Some StartGroup \<Rightarrow>
                  try_then (surely (push_state node_id TRIVIAL)) (\<lambda>_.
                    close_step (l\<lparr>ml_pos := pos, ml_group_stack := ml_current_parent l # ml_group_stack l,
                      ml_current_parent := node_mid\<rparr>))
              | Some EndGroup \<Rightarrow>
                  try_then (surely (push_state node_id TRIVIAL)) (\<lambda>_.
                    case ml_group_stack l of
                      [] \<Rightarrow> surely (fail_with (MalformedData ''unmatched end-group tag''))
                    | parent # groups \<Rightarrow>
                        close_step (l\<lparr>ml_pos := pos, ml_group_stack := groups, ml_current_parent := parent\<rparr>))
              | None \<Rightarrow> surely (fail_with (MalformedData ''invalid wire type in tag'')))))"

definition message_step ::
  "bytes \<Rightarrow> nat \<Rightarrow> MessageLoop \<times> TransposeChunkEncoder \<Rightarrow>
   (MessageLoop \<times> TransposeChunkEncoder + unit res \<times> TransposeChunkEncoder) option" where
  "message_step data depth = (\<lambda>(l, e).
     if ml_pos l < ml_current_end l then
       (case add_field data depth l e of
          None \<Rightarrow> None
        | Some (Inl err, e) \<Rightarrow> Some (Inr (Inl err, e))
        | Some (Inr l, e) \<Rightarrow> Some (Inl (l, e)))
     else Some (Inr (Inr (), e)))"

definition add_message :: "bytes \<Rightarrow> u32 \<Rightarrow> nat \<Rightarrow> (TransposeChunkEncoder, unit) trial" where
  "add_message data parent depth e =
     iterate (message_step data depth)
       (\<lparr>ml_pos = 0, ml_message_stack = [], ml_group_stack = [], ml_current_parent = parent,
         ml_current_end = length data\<rparr>, e)"

definition te_add_record :: "bytes \<Rightarrow> (TransposeChunkEncoder, unit) trial" where
  "te_add_record data e =
     (let e = e\<lparr>te_num_records := te_num_records e + 1,
                te_decoded_data_size := te_decoded_data_size e + of_nat (length data)\<rparr>
      in if is_proto_message data then
           try_then (surely (push_state \<lparr>parent_message_id = START_OF_MESSAGE, node_id_tag = 0\<rparr> TRIVIAL))
             (\<lambda>_. add_message data ROOT 0) e
         else
           let np = \<lparr>parent_message_id = NON_PROTO, node_id_tag = 0\<rparr>
           in try_then (surely (push_state np TRIVIAL)) (\<lambda>_.
              try_then (surely (push_buffer np Buf_NonProto data)) (\<lambda>_ e.
                Some (Inr (), e\<lparr>te_nonproto_lengths := push_chunk (encode_u64 (of_nat (length data))) (te_nonproto_lengths e)\<rparr>))) e)"

end
