(* ===== verification/EncoderMachine.thy ===== *)
theory EncoderMachine
  imports EncoderState
begin

text \<open>
  \<^verbatim>\<open>riegeli/src/transpose/encoder.rs\<close>, second part: the state machine.  Every tag has a list of states for
  its frequent destinations, the private list; the other destinations are in the public list, which a
  NoOp state of the private list leads to.  A list longer than a transition reaches is divided into
  blocks of 64 states, and a NoOp state in an earlier block leads to each later block.
\<close>

section \<open>States\<close>

record StateInfo =
  si_etag_index :: nat
  si_base :: nat
  si_canonical_source :: nat

definition new_state :: "nat \<Rightarrow> nat \<Rightarrow> StateInfo" where
  "new_state etag_index base = \<lparr>si_etag_index = etag_index, si_base = base, si_canonical_source = NO_POS\<rparr>"

text \<open>The order of the entries: the greatest has the fewest transitions.\<close>

datatype PriorityQueueEntry = PriorityQueueEntry (dest_index: nat) (num_transitions: nat)

instantiation PriorityQueueEntry :: linorder
begin

definition less_eq_PriorityQueueEntry :: "PriorityQueueEntry \<Rightarrow> PriorityQueueEntry \<Rightarrow> bool" where
  "less_eq_PriorityQueueEntry a b =
     (num_transitions b < num_transitions a \<or>
      num_transitions a = num_transitions b \<and> dest_index a \<le> dest_index b)"

definition less_PriorityQueueEntry :: "PriorityQueueEntry \<Rightarrow> PriorityQueueEntry \<Rightarrow> bool" where
  "less_PriorityQueueEntry a b =
     (num_transitions b < num_transitions a \<or>
      num_transitions a = num_transitions b \<and> dest_index a < dest_index b)"

instance
  by standard
    (auto simp: less_eq_PriorityQueueEntry_def less_PriorityQueueEntry_def intro: PriorityQueueEntry.expand)

end

section \<open>Updates of the tags\<close>

text \<open>A subtraction of \<open>usize\<close> values that must not underflow.\<close>

definition minus_at :: "nat \<Rightarrow> nat \<Rightarrow> nat option" where
  "minus_at a b = (if b \<le> a then Some (a - b) else None)"

definition update_at :: "nat \<Rightarrow> ('a \<Rightarrow> 'a) \<Rightarrow> 'a list \<Rightarrow> 'a list option" where
  "update_at i f xs = (if i < length xs then Some (xs[i := f (xs ! i)]) else None)"

definition sub_incoming :: "nat \<Rightarrow> nat \<Rightarrow> EncodedTagInfo list \<Rightarrow> EncodedTagInfo list option" where
  "sub_incoming d n tags = do {
     t \<leftarrow> item_at tags d;
     k \<leftarrow> minus_at (et_num_incoming t) n;
     Some (tags[d := t\<lparr>et_num_incoming := k\<rparr>])
   }"

definition set_dest_pos :: "nat \<Rightarrow> nat \<Rightarrow> nat \<Rightarrow> EncodedTagInfo list \<Rightarrow> EncodedTagInfo list option" where
  "set_dest_pos s d p tags = do {
     t \<leftarrow> item_at tags s;
     di \<leftarrow> bt_get d (et_dest_info t);
     Some (tags[s := t\<lparr>et_dest_info := bt_put d (di\<lparr>di_pos := p\<rparr>) (et_dest_info t)\<rparr>])
   }"

fun each_some :: "('a \<Rightarrow> 's \<Rightarrow> 's option) \<Rightarrow> 'a list \<Rightarrow> 's \<Rightarrow> 's option" where
  "each_some f [] s = Some s"
| "each_some f (x # xs) s = do { s \<leftarrow> f x s; each_some f xs s }"

section \<open>Transition statistics\<close>

definition count_one :: "nat \<Rightarrow> EncodedTagInfo \<Rightarrow> EncodedTagInfo" where
  "count_one pos t =
     (let di = (case bt_get pos (et_dest_info t) of None \<Rightarrow> new_dest | Some di \<Rightarrow> di)
      in t\<lparr>et_dest_info := bt_put pos (di\<lparr>di_num_transitions := di_num_transitions di + 1\<rparr>) (et_dest_info t)\<rparr>)"

text \<open>The loop over the tags behind the last one, in reverse.\<close>

fun count_transitions :: "nat \<Rightarrow> nat list \<Rightarrow> EncodedTagInfo list \<Rightarrow> EncodedTagInfo list option" where
  "count_transitions prev_pos [] tags = Some tags"
| "count_transitions prev_pos (pos # ps) tags = do {
     tags \<leftarrow> update_at prev_pos (count_one pos) tags;
     tags \<leftarrow> update_at pos (\<lambda>t. t\<lparr>et_num_incoming := et_num_incoming t + 1\<rparr>) tags;
     count_transitions pos ps tags
   }"

definition collect_transition_statistics :: "nat list \<Rightarrow> EncodedTagInfo list \<Rightarrow> EncodedTagInfo list option" where
  "collect_transition_statistics encoded_tags tags =
     (if encoded_tags = [] then Some tags
      else do {
        tags \<leftarrow> count_transitions (last encoded_tags) (rev (butlast encoded_tags)) tags;
        t \<leftarrow> item_at tags (last encoded_tags);
        Some (if et_num_incoming t = 0 then tags[last encoded_tags := t\<lparr>et_num_incoming := 1\<rparr>] else tags)
      })"

definition ensure_last_state_explicit :: "nat list \<Rightarrow> EncodedTagInfo list \<Rightarrow> EncodedTagInfo list option" where
  "ensure_last_state_explicit encoded_tags tags =
     (case encoded_tags of
        [] \<Rightarrow> Some tags
      | i # _ \<Rightarrow> do {
          t \<leftarrow> item_at tags i;
          (case et_dest_info t of
             [(k, _)] \<Rightarrow>
               (case bt_get (k + 1) (et_dest_info t) of
                  None \<Rightarrow> Some (tags[i := t\<lparr>et_dest_info := bt_put (k + 1) new_dest (et_dest_info t)\<rparr>])
                | Some _ \<Rightarrow> Some tags)
           | _ \<Rightarrow> Some tags)
        })"

section \<open>Frequent transitions\<close>

definition IN_LIST_POS :: nat where "IN_LIST_POS = 0"

definition mark_frequent :: "nat \<Rightarrow> nat \<Rightarrow> EncodedTagInfo list \<Rightarrow> EncodedTagInfo list option" where
  "mark_frequent tag_id dest_key tags = do {
     t \<leftarrow> item_at tags tag_id;
     di \<leftarrow> bt_get dest_key (et_dest_info t);
     if MIN_COUNT_FOR_STATE \<le> di_num_transitions di then do {
       tags \<leftarrow> sub_incoming dest_key (di_num_transitions di) tags;
       set_dest_pos tag_id dest_key IN_LIST_POS tags
     } else Some tags
   }"

definition mark_frequent_transitions :: "EncodedTagInfo list \<Rightarrow> EncodedTagInfo list option" where
  "mark_frequent_transitions tags =
     each_some (\<lambda>tag_id tags. do {
       t \<leftarrow> item_at tags tag_id;
       each_some (mark_frequent tag_id) (bt_keys (et_dest_info t)) tags
     }) [0..<length tags] tags"

section \<open>Filling a list of states\<close>

text \<open>
  The variables of the loop that fills a list back to front: the heap, the last position filled, the
  states, the first positions of the blocks that are done, and what the regular states change.
\<close>

record Filling =
  fl_queue :: "PriorityQueueEntry list"
  fl_prev :: nat
  fl_states :: "StateInfo list"
  fl_noop_base :: "nat list"
  fl_tags :: "EncodedTagInfo list"
  fl_public_noops :: "(nat \<times> nat) list"

definition put_state :: "StateInfo \<Rightarrow> Filling \<Rightarrow> Filling option" where
  "put_state s f = do {
     p \<leftarrow> minus_at (fl_prev f) 1;
     states \<leftarrow> update_at p (\<lambda>_. s) (fl_states f);
     Some (f\<lparr>fl_prev := p, fl_states := states\<rparr>)
   }"

text \<open>The loop that gives the states of a block their canonical source.\<close>

definition set_canonical :: "nat \<Rightarrow> nat \<Rightarrow> StateInfo list \<Rightarrow> StateInfo list" where
  "set_canonical base source states =
     map (\<lambda>(i, s). if base \<le> i \<and> i \<le> base + MAX_TRANSITION then s\<lparr>si_canonical_source := source\<rparr> else s)
       (zip [0..<length states] states)"

text \<open>A NoOp state that leads to a block of the list.\<close>

definition put_bridge :: "nat \<Rightarrow> Filling \<Rightarrow> Filling option" where
  "put_bridge i f = do {
     base \<leftarrow> item_at (fl_noop_base f) i;
     f \<leftarrow> put_state (new_state NO_POS base) f;
     Some (f\<lparr>fl_states := set_canonical base (fl_prev f) (fl_states f)\<rparr>)
   }"

definition private_entry :: "nat \<Rightarrow> nat \<Rightarrow> Filling \<Rightarrow> Filling option" where
  "private_entry tag_id node_index f =
     (let num_tags = length (fl_tags f)
      in if node_index = NO_POS then do {
           f \<leftarrow> put_state (new_state NO_POS NO_POS) f;
           tags \<leftarrow> update_at tag_id (\<lambda>t. t\<lparr>et_public_list_noop_pos := fl_prev f\<rparr>) (fl_tags f);
           Some (f\<lparr>fl_tags := tags, fl_public_noops := fl_public_noops f @ [(tag_id, fl_prev f)]\<rparr>)
         }
         else if num_tags \<le> node_index then put_bridge (node_index - num_tags) f
         else do {
           f \<leftarrow> put_state (new_state node_index NO_POS) f;
           tags \<leftarrow> set_dest_pos tag_id node_index (fl_prev f) (fl_tags f);
           Some (f\<lparr>fl_tags := tags\<rparr>)
         })"

definition public_entry :: "nat \<Rightarrow> Filling \<Rightarrow> Filling option" where
  "public_entry node_index f =
     (let num_tags = length (fl_tags f)
      in if num_tags \<le> node_index then put_bridge (node_index - num_tags) f
         else do {
           f \<leftarrow> put_state (new_state node_index NO_POS) f;
           tags \<leftarrow> update_at node_index (\<lambda>t. t\<lparr>et_state_machine_pos := fl_prev f\<rparr>) (fl_tags f);
           Some (f\<lparr>fl_tags := tags\<rparr>)
         })"

text \<open>A block of \<open>n\<close> states, and the weight of its entries.\<close>

fun fill_block :: "(nat \<Rightarrow> Filling \<Rightarrow> Filling option) \<Rightarrow> nat \<Rightarrow> nat \<Rightarrow> Filling \<Rightarrow> (nat \<times> Filling) option" where
  "fill_block entry 0 weight f = Some (weight, f)"
| "fill_block entry (Suc n) weight f = do {
     (e, queue) \<leftarrow> pop_greatest (fl_queue f);
     f \<leftarrow> entry (dest_index e) (f\<lparr>fl_queue := queue\<rparr>);
     fill_block entry n (weight + num_transitions e) f
   }"

definition fill_step ::
  "(nat \<Rightarrow> Filling \<Rightarrow> Filling option) \<Rightarrow> nat \<times> Filling \<Rightarrow> (nat \<times> Filling + Filling) option" where
  "fill_step entry = (\<lambda>(block_size, f). do {
     (weight, f) \<leftarrow> fill_block entry block_size 0 f;
     if fl_queue f = [] then Some (Inr f)
     else Some (Inl (MAX_TRANSITION + 1,
       f\<lparr>fl_queue := fl_queue f @ [PriorityQueueEntry (length (fl_tags f) + length (fl_noop_base f)) weight],
         fl_noop_base := fl_noop_base f @ [fl_prev f]\<rparr>))
   })"

text \<open>The list for the entries of the heap, behind the states there are.\<close>

definition noop_nodes :: "nat \<Rightarrow> nat" where
  "noop_nodes num_states = (if num_states \<le> MAX_TRANSITION + 1 then 0 else (num_states - 2) div MAX_TRANSITION)"

definition fill_list :: "(nat \<Rightarrow> Filling \<Rightarrow> Filling option) \<Rightarrow> Filling \<Rightarrow> Filling option" where
  "fill_list entry f =
     (let num_states = length (fl_queue f);
          num_states = num_states + noop_nodes num_states;
          prev_state = length (fl_states f) + num_states;
          states = fl_states f @ replicate num_states (new_state NO_POS NO_POS);
          block_size = (num_states - 1) mod (MAX_TRANSITION + 1) + 1
      in iterate (fill_step entry)
           (block_size, f\<lparr>fl_prev := prev_state, fl_states := states, fl_noop_base := []\<rparr>))"

section \<open>Private lists\<close>

text \<open>The loop over the destinations of a tag: the heap, the last destination excluded, and the excluded count.\<close>

definition select_dest ::
  "nat \<Rightarrow> nat \<Rightarrow> PriorityQueueEntry list \<times> PriorityQueueEntry option \<times> nat \<times> EncodedTagInfo list \<Rightarrow>
   (PriorityQueueEntry list \<times> PriorityQueueEntry option \<times> nat \<times> EncodedTagInfo list) option" where
  "select_dest tag_id dest_key = (\<lambda>(queue, excluded, num_excluded, tags). do {
     t \<leftarrow> item_at tags tag_id;
     di \<leftarrow> bt_get dest_key (et_dest_info t);
     d \<leftarrow> item_at tags dest_key;
     let e = PriorityQueueEntry dest_key (di_num_transitions di)
     in if di_pos di = IN_LIST_POS then Some (queue @ [e], excluded, num_excluded, tags)
        else if di_num_transitions di = et_num_incoming d then do {
          tags \<leftarrow> sub_incoming dest_key (di_num_transitions di) tags;
          Some (queue @ [e], excluded, num_excluded, tags)
        }
        else Some (queue, Some e, num_excluded + di_num_transitions di, tags)
   })"

text \<open>A single destination that would be left to the public list is taken in as well.\<close>

definition complete_queue ::
  "nat \<Rightarrow> PriorityQueueEntry list \<Rightarrow> PriorityQueueEntry option \<Rightarrow> EncodedTagInfo list \<Rightarrow>
   (PriorityQueueEntry list \<times> nat \<times> EncodedTagInfo list) option" where
  "complete_queue sz queue excluded tags =
     (if length queue + 1 = sz then
        (case excluded of
           Some es \<Rightarrow> do {
             tags \<leftarrow> sub_incoming (dest_index es) (num_transitions es) tags;
             Some (queue @ [es], length queue + 1, tags)
           }
         | None \<Rightarrow> Some (queue, length queue + 1, tags))
      else Some (queue, length queue, tags))"

text \<open>The states, the tags and the NoOp states that lead to the public list.\<close>

definition build_private_list ::
  "nat \<Rightarrow> StateInfo list \<times> EncodedTagInfo list \<times> (nat \<times> nat) list \<Rightarrow>
   (StateInfo list \<times> EncodedTagInfo list \<times> (nat \<times> nat) list) option" where
  "build_private_list tag_id = (\<lambda>(states, tags, noops). do {
     t \<leftarrow> item_at tags tag_id;
     (queue, excluded, num_excluded, tags) \<leftarrow> each_some (select_dest tag_id) (bt_keys (et_dest_info t)) ([], None, 0, tags);
     if queue = [] then Some (states, tags, noops)
     else do {
       (queue, num_states, tags) \<leftarrow> complete_queue (length (et_dest_info t)) queue excluded tags;
       tags \<leftarrow> update_at tag_id (\<lambda>t. t\<lparr>et_base := length states\<rparr>) tags;
       f \<leftarrow> fill_list (private_entry tag_id)
         \<lparr>fl_queue = (if num_states \<noteq> length (et_dest_info t) then queue @ [PriorityQueueEntry NO_POS num_excluded] else queue),
          fl_prev = 0, fl_states = states, fl_noop_base = [], fl_tags = tags, fl_public_noops = noops\<rparr>;
       Some (fl_states f, fl_tags f, fl_public_noops f)
     }
   })"

definition build_private_lists ::
  "EncodedTagInfo list \<Rightarrow> (StateInfo list \<times> EncodedTagInfo list \<times> (nat \<times> nat) list) option" where
  "build_private_lists tags = each_some build_private_list [0..<length tags] ([], tags, [])"

section \<open>The public list\<close>

definition public_queue :: "EncodedTagInfo list \<Rightarrow> PriorityQueueEntry list" where
  "public_queue tags =
     map (\<lambda>i. PriorityQueueEntry i (et_num_incoming (tags ! i))) (filter (\<lambda>i. et_num_incoming (tags ! i) \<noteq> 0) [0..<length tags])"

definition build_public_list ::
  "StateInfo list \<Rightarrow> EncodedTagInfo list \<Rightarrow> (StateInfo list \<times> EncodedTagInfo list) option" where
  "build_public_list states tags =
     (let queue = public_queue tags
      in if queue = [] then Some (states, tags)
         else do {
           f \<leftarrow> fill_list public_entry
             \<lparr>fl_queue = queue, fl_prev = 0, fl_states = states, fl_noop_base = [], fl_tags = tags, fl_public_noops = []\<rparr>;
           Some (fl_states f, fl_tags f)
         })"

section \<open>Base indices\<close>

text \<open>
  The inner loop: the block \<open>base\<close> and the position \<open>pos\<close> move towards the front until the block reaches
  the position.
\<close>

definition approach_step ::
  "StateInfo list \<Rightarrow> nat \<Rightarrow> nat \<times> nat \<times> nat \<Rightarrow> (nat \<times> nat \<times> nat + nat \<times> nat \<times> nat) option" where
  "approach_step states public_list_base = (\<lambda>(base, pos, min_pos).
     if pos < base then
       if base = NO_POS then do {
         s \<leftarrow> item_at states pos;
         (if si_canonical_source s = NO_POS then Some (Inl (public_list_base, pos, min_pos))
          else do { c \<leftarrow> item_at states (si_canonical_source s); Some (Inl (si_base c, pos, min_pos)) })
       }
       else do {
         b \<leftarrow> item_at states base;
         (if si_canonical_source b = NO_POS then Some (Inl (public_list_base, pos, min_pos))
          else do {
            let min_pos = min min_pos (si_canonical_source b);
            s \<leftarrow> item_at states (si_canonical_source b);
            (if si_canonical_source s = NO_POS then Some (Inl (public_list_base, pos, min_pos))
             else do { c \<leftarrow> item_at states (si_canonical_source s); Some (Inl (si_base c, pos, min_pos)) })
          })
       }
     else if base \<noteq> NO_POS \<and> MAX_TRANSITION < pos - base then do {
       s \<leftarrow> item_at states pos;
       (if si_canonical_source s = NO_POS then Some (Inr (base, pos, min_pos))
        else Some (Inl (base, si_canonical_source s, min_pos)))
     }
     else Some (Inr (base, pos, min_pos)))"

definition reach_dest ::
  "EncodedTagInfo list \<Rightarrow> StateInfo list \<Rightarrow> nat \<Rightarrow> nat \<times> DestInfo \<Rightarrow> nat \<times> nat \<Rightarrow> (nat \<times> nat) option" where
  "reach_dest tags states public_list_base = (\<lambda>(dest_key, di) (base, min_pos).
     if di_pos di \<noteq> NO_POS then Some (base, min_pos)
     else do {
       d \<leftarrow> item_at tags dest_key;
       let pos = et_state_machine_pos d;
       if pos = NO_POS then Some (base, min_pos)
       else do {
         (base, pos, min_pos) \<leftarrow> iterate (approach_step states public_list_base) (base, pos, min_pos);
         Some (base, min min_pos pos)
       }
     })"

definition find_optimal_base ::
  "EncodedTagInfo list \<Rightarrow> nat \<Rightarrow> nat \<Rightarrow> StateInfo list \<Rightarrow> (nat \<times> nat) option" where
  "find_optimal_base tags tag_index public_list_base states = do {
     t \<leftarrow> item_at tags tag_index;
     each_some (reach_dest tags states public_list_base) (et_dest_info t) (NO_POS, NO_POS)
   }"

definition set_noop_base ::
  "EncodedTagInfo list \<Rightarrow> nat \<Rightarrow> nat \<times> nat \<Rightarrow> StateInfo list \<Rightarrow> StateInfo list option" where
  "set_noop_base tags public_list_base = (\<lambda>(tag_index, state_index) states. do {
     (base, min_pos) \<leftarrow> find_optimal_base tags tag_index public_list_base states;
     if min_pos \<noteq> NO_POS then update_at state_index (\<lambda>s. s\<lparr>si_base := min_pos\<rparr>) states else Some states
   })"

definition set_tag_base ::
  "StateInfo list \<Rightarrow> nat \<Rightarrow> nat \<Rightarrow> EncodedTagInfo list \<Rightarrow> EncodedTagInfo list option" where
  "set_tag_base states public_list_base tag_idx tags = do {
     t \<leftarrow> item_at tags tag_idx;
     if et_base t \<noteq> NO_POS then Some tags
     else do {
       (base, min_pos) \<leftarrow> find_optimal_base tags tag_idx public_list_base states;
       Some (if min_pos \<noteq> NO_POS then tags[tag_idx := t\<lparr>et_base := min_pos\<rparr>] else tags)
     }
   }"

definition compute_base_indices ::
  "nat \<Rightarrow> (nat \<times> nat) list \<Rightarrow> StateInfo list \<Rightarrow> EncodedTagInfo list \<Rightarrow> (StateInfo list \<times> EncodedTagInfo list) option" where
  "compute_base_indices public_list_base noops states tags = do {
     states \<leftarrow> each_some (set_noop_base tags public_list_base) noops states;
     tags \<leftarrow> each_some (set_tag_base states public_list_base) [0..<length tags] tags;
     Some (states, tags)
   }"

definition create_state_machine ::
  "nat list \<Rightarrow> EncodedTagInfo list \<Rightarrow> (StateInfo list \<times> EncodedTagInfo list) option" where
  "create_state_machine encoded_tags tags =
     (if encoded_tags = [] then Some ([new_state NO_POS 0], tags)
      else do {
        tags \<leftarrow> collect_transition_statistics encoded_tags tags;
        tags \<leftarrow> mark_frequent_transitions tags;
        (states, tags, noops) \<leftarrow> build_private_lists tags;
        let public_list_base = length states;
        (states, tags) \<leftarrow> build_public_list states tags;
        compute_base_indices public_list_base noops states tags
      })"

section \<open>Transitions\<close>

fun emit_transition_bytes :: "u8 list \<Rightarrow> bytes \<times> u8 option \<Rightarrow> bytes \<times> u8 option" where
  "emit_transition_bytes [] (transitions, prev) = (transitions, prev)"
| "emit_transition_bytes (b # bs) (transitions, prev) =
     (case prev of
        Some lt \<Rightarrow>
          if b = 0 \<and> lt AND 3 < 3 then emit_transition_bytes bs (transitions, Some (lt + 1))
          else emit_transition_bytes bs (transitions @ [lt], Some (push_bit 2 b))
      | None \<Rightarrow> emit_transition_bytes bs (transitions, Some (push_bit 2 b)))"

text \<open>\<open>(target - base) as u8\<close>.\<close>

definition offset_byte :: "nat \<Rightarrow> nat \<Rightarrow> u8 option" where
  "offset_byte target base = map_option of_nat (minus_at target base)"

text \<open>
  The loop that collects the offsets from \<open>current_base\<close> to a position, last one first.  The flag says
  whether the loop checks for a missing canonical source, as the one for the final position does.
\<close>

definition hop_step ::
  "bool \<Rightarrow> StateInfo list \<Rightarrow> nat \<Rightarrow> nat \<times> u8 list \<Rightarrow> (nat \<times> u8 list + nat \<times> u8 list) option" where
  "hop_step checked states current_base = (\<lambda>(target, write_buf).
     if target < current_base \<or> current_base \<noteq> NO_POS \<and> MAX_TRANSITION < target - current_base then do {
       s \<leftarrow> item_at states target;
       let cs = si_canonical_source s;
       if checked \<and> (cs = NO_POS \<or> length states \<le> cs) then Some (Inr (target, write_buf))
       else do {
         c \<leftarrow> item_at states cs;
         b \<leftarrow> offset_byte target (si_base c);
         Some (Inl (cs, write_buf @ [b]))
       }
     } else Some (Inr (target, write_buf)))"

definition hops :: "bool \<Rightarrow> StateInfo list \<Rightarrow> nat \<Rightarrow> nat \<Rightarrow> u8 list option" where
  "hops checked states current_base pos = do {
     (target, write_buf) \<leftarrow> iterate (hop_step checked states current_base) (pos, []);
     b \<leftarrow> offset_byte target current_base;
     Some (rev (write_buf @ [b]))
   }"

text \<open>The bytes for one transition, from \<open>prev_etag\<close> to \<open>tag\<close>.\<close>

definition transition_bytes ::
  "StateInfo list \<Rightarrow> EncodedTagInfo list \<Rightarrow> nat \<Rightarrow> nat \<Rightarrow> nat \<Rightarrow> bytes \<times> u8 option \<Rightarrow> (bytes \<times> u8 option) option" where
  "transition_bytes states tags prev_etag current_base tag out = do {
     t \<leftarrow> item_at tags prev_etag;
     if length (et_dest_info t) = 1 then Some out
     else do {
       let private_pos = (case bt_get tag (et_dest_info t) of None \<Rightarrow> NO_POS | Some di \<Rightarrow> di_pos di);
       (pos, current_base, out) \<leftarrow>
         (if private_pos \<noteq> NO_POS then Some (private_pos, current_base, out)
          else do {
            d \<leftarrow> item_at tags tag;
            let noop = et_public_list_noop_pos t;
            if noop = NO_POS then Some (et_state_machine_pos d, current_base, out)
            else do {
              write_buf \<leftarrow> hops False states current_base noop;
              n \<leftarrow> item_at states noop;
              Some (et_state_machine_pos d, si_base n, emit_transition_bytes write_buf out)
            }
          });
       if current_base = NO_POS \<or> pos = NO_POS then Some out
       else do {
         write_buf \<leftarrow> hops True states current_base pos;
         Some (emit_transition_bytes write_buf out)
       }
     }
   }"

fun transitions_loop ::
  "StateInfo list \<Rightarrow> EncodedTagInfo list \<Rightarrow> nat \<Rightarrow> nat list \<Rightarrow> bytes \<times> u8 option \<Rightarrow> (bytes \<times> u8 option) option" where
  "transitions_loop states tags prev_etag [] out = Some out"
| "transitions_loop states tags prev_etag (tag # rest) out = do {
     t \<leftarrow> item_at tags prev_etag;
     out \<leftarrow> transition_bytes states tags prev_etag (et_base t) tag out;
     transitions_loop states tags tag rest out
   }"

definition build_transitions :: "nat list \<Rightarrow> EncodedTagInfo list \<Rightarrow> StateInfo list \<Rightarrow> bytes option" where
  "build_transitions encoded_tags tags states =
     (if encoded_tags = [] then Some []
      else do {
        (transitions, prev) \<leftarrow> transitions_loop states tags (last encoded_tags) (rev (butlast encoded_tags)) ([], None);
        Some (case prev of None \<Rightarrow> transitions | Some lt \<Rightarrow> transitions @ [lt])
      })"

end
