(* ===== verification/EncoderChunk.thy ===== *)
theory EncoderChunk
  imports EncoderMachine "HOL-Library.Product_Lexorder"
begin

text \<open>
  \<^verbatim>\<open>riegeli/src/transpose/encoder.rs\<close>, third part: the buffers, their buckets, the header and the chunk.
\<close>

section \<open>Buffers\<close>

definition buffer_key :: "BufferWithMetadata \<Rightarrow> nat \<times> u32 \<times> u32" where
  "buffer_key b = (length (cb_data (bm_data b)), parent_message_id (bm_node_id b), node_id_tag (bm_node_id b))"

text \<open>All buffers, their positions by node, and the groups as lists of buffers.\<close>

record Collected =
  co_buffers :: "bytes list"
  co_pos :: "NodeId \<rightharpoonup> nat"
  co_groups :: "bytes list list"

definition collect_buffer :: "BufferWithMetadata \<Rightarrow> Collected \<Rightarrow> Collected option" where
  "collect_buffer b c = do {
     reversed \<leftarrow> write_to (bm_data b);
     Some (c\<lparr>co_pos := (co_pos c)(bm_node_id b \<mapsto> length (co_buffers c)), co_buffers := co_buffers c @ [reversed]\<rparr>)
   }"

definition collect_type :: "(BufferType \<Rightarrow> BufferWithMetadata list) \<Rightarrow> BufferType \<Rightarrow> Collected \<Rightarrow> Collected option" where
  "collect_type data bt c =
     (let group_start = length (co_buffers c)
      in do {
        c \<leftarrow> each_some collect_buffer (sort_key buffer_key (data bt)) c;
        Some (if group_start < length (co_buffers c)
              then c\<lparr>co_groups := co_groups c @ [drop group_start (co_buffers c)]\<rparr> else c)
      })"

definition collect_and_sort_buffers :: "TransposeChunkEncoder \<Rightarrow> Collected option" where
  "collect_and_sort_buffers e = do {
     c \<leftarrow> each_some (collect_type (te_data e)) ALL_BUFFER_TYPES \<lparr>co_buffers = [], co_pos = Map.empty, co_groups = []\<rparr>;
     if cb_data (te_nonproto_lengths e) = [] then Some c
     else do {
       reversed \<leftarrow> write_to (te_nonproto_lengths e);
       Some (c\<lparr>co_buffers := co_buffers c @ [reversed], co_groups := co_groups c @ [[reversed]]\<rparr>)
     }
   }"

section \<open>Buckets\<close>

definition bucket_mismatch :: riegeli_error where
  "bucket_mismatch = MalformedData ''internal: bucket sizes and buffer sizes do not match''"

text \<open>
  The sizes of the buckets of a group, over its buffers in reverse order.  Sizes are naturals: they are
  the sizes of data in memory, so their sums do not overflow.
\<close>

fun plan_buckets :: "nat \<Rightarrow> nat \<Rightarrow> nat \<Rightarrow> nat list \<Rightarrow> nat list \<Rightarrow> nat list" where
  "plan_buckets bucket_size current remaining [] planned = (if 0 < current then planned @ [current] else planned)"
| "plan_buckets bucket_size current remaining (n # sizes) planned =
     (let (planned, current) =
        (if 0 < current \<and> bucket_size \<le> current + n div 2 then (planned @ [current], 0) else (planned, current));
          current = current + n;
          remaining = remaining - n
      in if remaining \<le> bucket_size div 2
         then let current = current + remaining in (if 0 < current then planned @ [current] else planned)
         else plan_buckets bucket_size current remaining sizes planned)"

text \<open>Filling the buckets in forward order; the planned sizes are taken from the back.\<close>

fun fill_buckets ::
  "(bytes \<Rightarrow> bytes res) \<Rightarrow> nat list \<Rightarrow> bytes \<Rightarrow> nat \<Rightarrow> bytes list \<Rightarrow> bytes list res" where
  "fill_buckets compress planned current remaining [] = Inr []"
| "fill_buckets compress planned current remaining (buf # bufs) =
     bind_res (if remaining = 0
               then if planned = [] then Inl bucket_mismatch else Inr (last planned, butlast planned)
               else Inr (remaining, planned)) (\<lambda>(remaining, planned).
       if remaining < length buf then Inl bucket_mismatch
       else
         let remaining = remaining - length buf;
             current = current @ buf
         in if remaining = 0
            then bind_res (compress current) (\<lambda>b.
              bind_res (fill_buckets compress planned [] remaining bufs) (\<lambda>bs. Inr (b # bs)))
            else fill_buckets compress planned current remaining bufs)"

fun group_buckets :: "(bytes \<Rightarrow> bytes res) \<Rightarrow> nat \<Rightarrow> bytes list list \<Rightarrow> bytes list res" where
  "group_buckets compress bucket_size [] = Inr []"
| "group_buckets compress bucket_size (buffers # groups) =
     bind_res (fill_buckets compress
         (plan_buckets bucket_size 0 (sum_list (map length buffers)) (rev (map length buffers)) []) [] 0 buffers) (\<lambda>bs.
       bind_res (group_buckets compress bucket_size groups) (\<lambda>bss. Inr (bs @ bss)))"

definition create_compressed_buckets :: "codec \<Rightarrow> TransposeChunkEncoder \<Rightarrow> bytes list list \<Rightarrow> bytes list res" where
  "create_compressed_buckets C e groups =
     group_buckets (\<lambda>b. compress_with_prefix C b (te_compression e) (te_compress_opts e)) (unat (te_bucket_size e)) groups"

section \<open>The header\<close>

text \<open>For every state its tag, its next node, its subtype and its buffer, if it has one.\<close>

record StateRows =
  sr_tag :: u32
  sr_base :: nat
  sr_subtype :: "u8 option"
  sr_buffer :: "nat option"

definition buffer_of :: "(NodeId \<rightharpoonup> nat) \<Rightarrow> NodeId \<Rightarrow> nat" where
  "buffer_of buffer_pos node_id = (case buffer_pos node_id of None \<Rightarrow> 0 | Some i \<Rightarrow> i)"

definition state_row ::
  "EncodedTagInfo list \<Rightarrow> (NodeId \<rightharpoonup> nat) \<Rightarrow> nat \<Rightarrow> StateInfo \<Rightarrow> StateRows option" where
  "state_row tags buffer_pos num_sm s =
     (if si_etag_index s = NO_POS
      then Some \<lparr>sr_tag = NO_OP, sr_base = si_base s, sr_subtype = None, sr_buffer = None\<rparr>
      else do {
        etag \<leftarrow> item_at tags (si_etag_index s);
        let node_id = et_node_id etag;
            tag = node_id_tag node_id;
            base = (if et_base etag \<noteq> NO_POS
                    then et_base etag + (if length (et_dest_info etag) = 1 then num_sm else 0) else 0);
            is_string = (tag_wire_type tag = Some LengthDelimited)
        in Some (
          if tag \<noteq> 0 then
            if is_string \<and> et_subtype etag = LENGTH_DELIMITED_START_OF_SUBMESSAGE
            then \<lparr>sr_tag = START_OF_SUBMESSAGE, sr_base = base, sr_subtype = None, sr_buffer = None\<rparr>
            else if is_string \<and> et_subtype etag = LENGTH_DELIMITED_END_OF_SUBMESSAGE
            then \<lparr>sr_tag = tag + SUBMESSAGE_WIRE_TYPE - wire_type_raw LengthDelimited, sr_base = base,
                  sr_subtype = None, sr_buffer = None\<rparr>
            else \<lparr>sr_tag = tag, sr_base = base,
                  sr_subtype = (if has_subtype tag then Some (et_subtype etag) else None),
                  sr_buffer = (if has_data_buffer tag (et_subtype etag) then Some (buffer_of buffer_pos node_id) else None)\<rparr>
          else \<lparr>sr_tag = parent_message_id node_id, sr_base = base, sr_subtype = None,
                sr_buffer = (if parent_message_id node_id = NON_PROTO
                             then Some (buffer_of buffer_pos \<lparr>parent_message_id = NON_PROTO, node_id_tag = 0\<rparr>) else None)\<rparr>)
      })"

fun map_some :: "('a \<Rightarrow> 'b option) \<Rightarrow> 'a list \<Rightarrow> 'b list option" where
  "map_some f [] = Some []"
| "map_some f (x # xs) = do { y \<leftarrow> f x; ys \<leftarrow> map_some f xs; Some (y # ys) }"

definition encode_index :: "nat \<Rightarrow> bytes" where
  "encode_index i = encode_u32 (of_nat i)"

text \<open>\<open>position\<close>: the first index with the property, 0 when there is none.\<close>

definition position_or_0 :: "('a \<Rightarrow> bool) \<Rightarrow> 'a list \<Rightarrow> nat" where
  "position_or_0 p xs = (case filter (\<lambda>i. p (xs ! i)) [0..<length xs] of [] \<Rightarrow> 0 | i # _ \<Rightarrow> i)"

definition list_of_option :: "'a option \<Rightarrow> 'a list" where
  "list_of_option x = (case x of None \<Rightarrow> [] | Some y \<Rightarrow> [y])"

definition write_states_and_data ::
  "nat list \<Rightarrow> EncodedTagInfo list \<Rightarrow> (NodeId \<rightharpoonup> nat) \<Rightarrow> StateInfo list \<Rightarrow> bytes option" where
  "write_states_and_data encoded_tags tags buffer_pos states = do {
     rows \<leftarrow> map_some (state_row tags buffer_pos (length states)) states;
     Some (encode_index (length states)
       @ concat (map (\<lambda>r. encode_u32 (sr_tag r)) rows)
       @ concat (map (\<lambda>r. encode_index (sr_base r)) rows)
       @ concat (map (\<lambda>r. list_of_option (sr_subtype r)) rows)
       @ concat (map (\<lambda>r. concat (map encode_index (list_of_option (sr_buffer r)))) rows)
       @ encode_index (if encoded_tags = [] then 0
                       else position_or_0 (\<lambda>s. si_etag_index s = last encoded_tags) states))
   }"

definition build_header ::
  "nat list \<Rightarrow> EncodedTagInfo list \<Rightarrow> bytes list \<Rightarrow> nat list \<Rightarrow> (NodeId \<rightharpoonup> nat) \<Rightarrow> StateInfo list \<Rightarrow> bytes option" where
  "build_header encoded_tags tags compressed_buckets buffer_sizes buffer_pos states = do {
     rest \<leftarrow> write_states_and_data encoded_tags tags buffer_pos states;
     Some (encode_index (length compressed_buckets) @ encode_index (length buffer_sizes)
       @ concat (map (\<lambda>b. encode_u64 (of_nat (length b))) compressed_buckets)
       @ concat (map (\<lambda>n. encode_u64 (of_nat n)) buffer_sizes)
       @ rest)
   }"

section \<open>The chunk\<close>

definition assemble_chunk ::
  "hasher \<Rightarrow> codec \<Rightarrow> TransposeChunkEncoder \<Rightarrow> bytes \<Rightarrow> bytes list \<Rightarrow> bytes \<Rightarrow> Chunk res" where
  "assemble_chunk hw C e raw_header compressed_buckets transitions =
     bind_res (compress_with_prefix C transitions (te_compression e) (te_compress_opts e)) (\<lambda>compressed_transitions.
     bind_res (compress_length_prefixed C raw_header (te_compression e) (te_compress_opts e)) (\<lambda>header.
       let data = [compression_byte (te_compression e)] @ header @ concat compressed_buckets @ compressed_transitions
       in Inr \<lparr>chunk_header = chunk_from_parts hw data Transposed (te_num_records e) (te_decoded_data_size e),
               chunk_data = data\<rparr>))"

definition te_encode :: "hasher \<Rightarrow> codec \<Rightarrow> TransposeChunkEncoder \<Rightarrow> Chunk res option" where
  "te_encode hw C e = do {
     c \<leftarrow> collect_and_sort_buffers e;
     (states, tags) \<leftarrow> create_state_machine (te_encoded_tags e) (te_tags_list e);
     tags \<leftarrow> ensure_last_state_explicit (te_encoded_tags e) tags;
     (case create_compressed_buckets C e (co_groups c) of
        Inl err \<Rightarrow> Some (Inl err)
      | Inr buckets \<Rightarrow> do {
          header \<leftarrow> build_header (te_encoded_tags e) tags buckets (map length (co_buffers c)) (co_pos c) states;
          transitions \<leftarrow> build_transitions (te_encoded_tags e) tags states;
          Some (assemble_chunk hw C e header buckets transitions)
        })
   }"

end
