(* ===== verification/EncoderEvents.thy ===== *)
theory EncoderEvents
  imports EncoderChunk TransposeMachine
begin

text \<open>
  What the encoder remembers of the records: one event per tag it pushed, with the bytes it put into the
  buffer of the tag.  The tags and the buffers are together the log of the events, and the events played
  backward write the records.
\<close>

section \<open>Events\<close>

type_synonym event = "NodeId \<times> u8 \<times> bytes"

abbreviation event_tag :: "event \<Rightarrow> NodeId \<times> u8" where
  "event_tag ev \<equiv> (fst ev, fst (snd ev))"

text \<open>The buffer that the bytes of a tag go to.\<close>

fun tag_buffer :: "NodeId \<times> u8 \<Rightarrow> (BufferType \<times> NodeId) option" where
  "tag_buffer (n, st) =
     (if node_id_tag n = 0 then (if parent_message_id n = NON_PROTO then Some (Buf_NonProto, n) else None)
      else case tag_wire_type (node_id_tag n) of
        Some WVarint \<Rightarrow> if st < VARINT_INLINE_0 then Some (Buf_Varint, n) else None
      | Some Fixed32 \<Rightarrow> Some (Buf_Fixed32, n)
      | Some Fixed64 \<Rightarrow> Some (Buf_Fixed64, n)
      | Some LengthDelimited \<Rightarrow> if st = LENGTH_DELIMITED_STRING then Some (Buf_String, n) else None
      | _ \<Rightarrow> None)"

text \<open>What an event does to the output when it is played.\<close>

datatype deed = Write bytes | End_Submessage bytes | Start_Submessage | Boundary | Whole_Record bytes

fun deed_of :: "event \<Rightarrow> deed" where
  "deed_of (n, st, c) =
     (let tag = encode_u32 (node_id_tag n)
      in if node_id_tag n = 0 then (if parent_message_id n = NON_PROTO then Whole_Record c else Boundary)
         else case tag_wire_type (node_id_tag n) of
           Some WVarint \<Rightarrow>
             if st < VARINT_INLINE_0 then Write (tag @ restore_high_bits c) else Write (tag @ [st - VARINT_INLINE_0])
         | Some LengthDelimited \<Rightarrow>
             if st = LENGTH_DELIMITED_STRING then Write (tag @ c)
             else if st = LENGTH_DELIMITED_START_OF_SUBMESSAGE then Start_Submessage
             else End_Submessage tag
         | _ \<Rightarrow> Write (tag @ c))"

text \<open>The bytes an event can have.\<close>

fun event_ok :: "event \<Rightarrow> bool" where
  "event_ok (n, st, c) \<longleftrightarrow>
     (if node_id_tag n = 0 then
        st = TRIVIAL \<and> (parent_message_id n = NON_PROTO \<and> c \<noteq> [] \<and> length c < 2 ^ 32 \<or>
          parent_message_id n = START_OF_MESSAGE \<and> c = [])
      else is_valid_proto_tag (node_id_tag n) \<and>
        (case tag_wire_type (node_id_tag n) of
           Some WVarint \<Rightarrow>
             if st < VARINT_INLINE_0 then length c = unat st + 1 else st \<le> VARINT_INLINE_MAX \<and> c = []
         | Some Fixed32 \<Rightarrow> length c = 4
         | Some Fixed64 \<Rightarrow> length c = 8
         | Some LengthDelimited \<Rightarrow>
             if st = LENGTH_DELIMITED_STRING then \<exists>v payload. c = encode_u32 v @ payload \<and> length payload = unat v
             else (st = LENGTH_DELIMITED_START_OF_SUBMESSAGE \<or> st = LENGTH_DELIMITED_END_OF_SUBMESSAGE) \<and> c = []
         | _ \<Rightarrow> c = []))"

declare tag_buffer.simps [simp del] deed_of.simps [simp del] event_ok.simps [simp del]

section \<open>Playing events\<close>

text \<open>
  The output so far in forward order, the ends of the open submessages with their tags, the innermost
  first, and the boundaries of the records as distances from the end.
\<close>

type_synonym played = "bytes \<times> (nat \<times> bytes) list \<times> nat list"

fun play_deed :: "deed \<Rightarrow> played \<Rightarrow> played option" where
  "play_deed (Write b) (out, open, limits) = Some (b @ out, open, limits)"
| "play_deed (End_Submessage tag) (out, open, limits) = Some (out, (length out, tag) # open, limits)"
| "play_deed Start_Submessage (out, [], limits) = None"
| "play_deed Start_Submessage (out, (stop, tag) # open, limits) =
     (if length out < stop \<or> 4294967295 < length out - stop then None
      else Some (tag @ encode_u32 (of_nat (length out - stop)) @ out, open, limits))"
| "play_deed Boundary (out, open, limits) =
     (if open \<noteq> [] then None else Some (out, open, limits @ [length out]))"
| "play_deed (Whole_Record b) (out, open, limits) =
     (if open \<noteq> [] then None else Some (b @ out, open, limits @ [length (b @ out)]))"

text \<open>The events of a list, from the last to the first.\<close>

fun play_back :: "event list \<Rightarrow> played \<Rightarrow> played option" where
  "play_back [] p = Some p"
| "play_back (ev # evs) p = Option.bind (play_back evs p) (play_deed (deed_of ev))"

lemma play_back_append: "play_back (evs @ evs') p = Option.bind (play_back evs' p) (play_back evs)"
  by (induction evs) (auto simp: Option.bind_eq_None_conv split: Option.bind_split)

section \<open>The log\<close>

text \<open>The bytes the events put into a buffer.\<close>

definition chunks_for :: "BufferType \<times> NodeId \<Rightarrow> event list \<Rightarrow> bytes list" where
  "chunks_for key evs = map (\<lambda>ev. snd (snd ev)) (filter (\<lambda>ev. tag_buffer (event_tag ev) = Some key) evs)"

lemma chunks_for_simps [simp]:
  "chunks_for key [] = []" "chunks_for key (evs @ evs') = chunks_for key evs @ chunks_for key evs'"
  by (simp_all add: chunks_for_def)

lemma chunks_for_one: "chunks_for key [(n, st, c)] = (if tag_buffer (n, st) = Some key then [c] else [])"
  by (simp add: chunks_for_def)

text \<open>The lengths of the records that are not messages.\<close>

definition whole_lengths :: "event list \<Rightarrow> bytes list" where
  "whole_lengths evs =
     map (\<lambda>ev. encode_u64 (of_nat (length (snd (snd ev)))))
       (filter (\<lambda>(n, st, c). node_id_tag n = 0 \<and> parent_message_id n = NON_PROTO) evs)"

lemma whole_lengths_simps [simp]:
  "whole_lengths [] = []" "whole_lengths (evs @ evs') = whole_lengths evs @ whole_lengths evs'"
  "whole_lengths [(n, st, c)] =
     (if node_id_tag n = 0 \<and> parent_message_id n = NON_PROTO then [encode_u64 (of_nat (length c))] else [])"
  by (simp_all add: whole_lengths_def)

definition buffer_holds :: "ChunkBuffer \<Rightarrow> bytes list \<Rightarrow> bool" where
  "buffer_holds b chunks \<longleftrightarrow> cb_data b = concat chunks \<and> cb_sizes b = map length chunks"

lemma buffer_holds_empty [simp]: "buffer_holds empty_buffer chunks \<longleftrightarrow> chunks = []"
  by (auto simp: buffer_holds_def empty_buffer_def)

lemma buffer_holds_push: "buffer_holds b chunks \<Longrightarrow> buffer_holds (push_chunk c b) (chunks @ [c])"
  by (simp add: buffer_holds_def push_chunk_def)

text \<open>The buffers of one type: one for every node that has chunks, with its chunks.\<close>

definition buffers_hold :: "BufferWithMetadata list \<Rightarrow> (NodeId \<Rightarrow> bytes list) \<Rightarrow> bool" where
  "buffers_hold bs held \<longleftrightarrow> distinct (map bm_node_id bs) \<and> bm_node_id ` set bs = {n. held n \<noteq> []} \<and>
     (\<forall>b \<in> set bs. buffer_holds (bm_data b) (held (bm_node_id b)))"

definition pushed_at :: "NodeId \<Rightarrow> bytes \<Rightarrow> BufferWithMetadata \<Rightarrow> BufferWithMetadata" where
  "pushed_at n c b = (if bm_node_id b = n then b\<lparr>bm_data := push_chunk c (bm_data b)\<rparr> else b)"

lemma pushed_at_other: "n \<notin> bm_node_id ` set bs \<Longrightarrow> map (pushed_at n c) bs = bs"
  by (rule map_idI) (auto simp: pushed_at_def)

lemma push_to_node_eq:
  "distinct (map bm_node_id bs) \<Longrightarrow> push_to_node n c bs =
     (if n \<in> bm_node_id ` set bs then map (pushed_at n c) bs
      else bs @ [\<lparr>bm_node_id = n, bm_data = push_chunk c empty_buffer\<rparr>])"
proof (induction n c bs rule: push_to_node.induct)
  case (2 n c b bs)
  show ?case
  proof (cases "bm_node_id b = n")
    case True
    then have "map (pushed_at n c) bs = bs" using 2(2) by (intro pushed_at_other) auto
    then show ?thesis using True by (simp add: pushed_at_def)
  next
    case False
    then show ?thesis using 2 by (auto simp: pushed_at_def)
  qed
qed simp

lemma pushed_at_id [simp]: "bm_node_id (pushed_at n c b) = bm_node_id b"
  by (simp add: pushed_at_def)

lemma push_to_node_holds:
  assumes h: "buffers_hold bs held"
  shows "buffers_hold (push_to_node n c bs) (held(n := held n @ [c]))"
proof -
  have d: "distinct (map bm_node_id bs)" and ids: "bm_node_id ` set bs = {n. held n \<noteq> []}"
    and hb: "\<And>b. b \<in> set bs \<Longrightarrow> buffer_holds (bm_data b) (held (bm_node_id b))" using h by (auto simp: buffers_hold_def)
  show ?thesis
  proof (cases "n \<in> bm_node_id ` set bs")
    case True
    have "distinct (map bm_node_id (map (pushed_at n c) bs))" using d by (simp add: comp_def)
    moreover have "bm_node_id ` set (map (pushed_at n c) bs) = {m. (held(n := held n @ [c])) m \<noteq> []}"
      using True ids by (auto simp: image_image)
    moreover have "\<forall>b' \<in> set (map (pushed_at n c) bs). buffer_holds (bm_data b') ((held(n := held n @ [c])) (bm_node_id b'))"
      using hb buffer_holds_push by (auto simp: pushed_at_def)
    ultimately have "buffers_hold (map (pushed_at n c) bs) (held(n := held n @ [c]))" unfolding buffers_hold_def by blast
    then show ?thesis using True unfolding push_to_node_eq [OF d] by simp
  next
    case False
    then have "held n = []" unfolding ids by simp
    moreover have "buffer_holds (push_chunk c empty_buffer) [c]" using buffer_holds_push [of empty_buffer "[]" c] by simp
    ultimately show ?thesis using False d ids hb unfolding buffers_hold_def push_to_node_eq [OF d] by auto
  qed
qed

text \<open>
  The encoder has logged the events: its tags are the tags of the events, every buffer holds the bytes
  the events put into it, and a position that is noted at a node is that of a tag of the node.
\<close>

definition notes_ok :: "TransposeChunkEncoder \<Rightarrow> bool" where
  "notes_ok e \<longleftrightarrow> (\<forall>n node. te_message_nodes e n = Some node \<longrightarrow>
     (\<forall>i < length (mn_encoded_tag_pos node). mn_encoded_tag_pos node ! i \<noteq> NO_POS \<longrightarrow>
       mn_encoded_tag_pos node ! i < length (te_tags_list e) \<and>
       te_tags_list e ! (mn_encoded_tag_pos node ! i) = new_tag_info n (of_nat i)))"

definition tag_at :: "EncodedTagInfo list \<Rightarrow> nat \<Rightarrow> NodeId \<times> u8" where
  "tag_at tags i = (et_node_id (tags ! i), et_subtype (tags ! i))"

definition tags_logged :: "TransposeChunkEncoder \<Rightarrow> event list \<Rightarrow> bool" where
  "tags_logged e evs \<longleftrightarrow> notes_ok e \<and> (\<forall>t \<in> set (te_tags_list e). t = new_tag_info (et_node_id t) (et_subtype t)) \<and>
     (\<forall>i \<in> set (te_encoded_tags e). i < length (te_tags_list e)) \<and>
     map (tag_at (te_tags_list e)) (te_encoded_tags e) = map event_tag evs \<and> (\<forall>ev \<in> set evs. event_ok ev)"

definition data_logged :: "TransposeChunkEncoder \<Rightarrow> event list \<Rightarrow> bool" where
  "data_logged e evs \<longleftrightarrow> (\<forall>bt. buffers_hold (te_data e bt) (\<lambda>n. chunks_for (bt, n) evs)) \<and>
     buffer_holds (te_nonproto_lengths e) (whole_lengths evs)"

definition logged :: "TransposeChunkEncoder \<Rightarrow> event list \<Rightarrow> bool" where
  "logged e evs \<longleftrightarrow> tags_logged e evs \<and> data_logged e evs"

text \<open>
  How the encoder grows while a record is added: at most \<open>k\<close> new tags behind the old ones, which it has
  pushed, all but those of \<open>S\<close>.
\<close>

definition settings where
  "settings e = (te_compression e, te_compress_opts e, te_num_records e, te_decoded_data_size e, te_bucket_size e)"

definition grows_but :: "nat set \<Rightarrow> nat \<Rightarrow> TransposeChunkEncoder \<Rightarrow> TransposeChunkEncoder \<Rightarrow> bool" where
  "grows_but S k e e' \<longleftrightarrow> settings e' = settings e \<and> (\<exists>new. te_tags_list e' = te_tags_list e @ new \<and> length new \<le> k) \<and>
     set (te_encoded_tags e) \<subseteq> set (te_encoded_tags e') \<and>
     {length (te_tags_list e)..<length (te_tags_list e')} \<subseteq> S \<union> set (te_encoded_tags e')"

abbreviation grows :: "nat \<Rightarrow> TransposeChunkEncoder \<Rightarrow> TransposeChunkEncoder \<Rightarrow> bool" where
  "grows \<equiv> grows_but {}"

lemma grows_by_refl [simp]: "grows_but S 0 e e"
  by (simp add: grows_but_def)

lemma grows_trans:
  assumes "grows_but S k e e'" "grows_but T k' e' e''"
  shows "grows_but (S \<union> T) (k + k') e e''"
proof -
  have "{length (te_tags_list e)..<length (te_tags_list e'')} \<subseteq>
      {length (te_tags_list e)..<length (te_tags_list e')} \<union> {length (te_tags_list e')..<length (te_tags_list e'')}" by auto
  also have "\<dots> \<subseteq> (S \<union> T) \<union> set (te_encoded_tags e'')" using assms by (auto simp: grows_but_def)
  finally show ?thesis using assms by (auto simp: grows_but_def)
qed

lemma grows_nth: "grows_but S k e e' \<Longrightarrow> i < length (te_tags_list e) \<Longrightarrow>
    i < length (te_tags_list e') \<and> te_tags_list e' ! i = te_tags_list e ! i"
  by (auto simp: grows_but_def nth_append)

section \<open>Pushing\<close>

lemma get_or_create_logs:
  assumes "tags_logged e evs"
  shows "\<exists>mid e'. get_or_create_node n e = (Inr mid, e') \<and> tags_logged e' evs \<and> grows 0 e e' \<and> te_tags_list e' = te_tags_list e \<and>
    te_data e' = te_data e \<and> te_nonproto_lengths e' = te_nonproto_lengths e \<and> te_encoded_tags e' = te_encoded_tags e \<and>
    (\<exists>node. te_message_nodes e' n = Some node)"
proof (cases "te_message_nodes e n")
  case None
  then show ?thesis using assms
    by (auto simp: get_or_create_node_def tags_logged_def notes_ok_def grows_but_def settings_def)
next
  case (Some node)
  then show ?thesis using assms by (simp add: get_or_create_node_def)
qed

lemma grown_nth: "i < length (grown k xs) \<Longrightarrow> grown k xs ! i \<noteq> NO_POS \<Longrightarrow> i < length xs \<and> grown k xs ! i = xs ! i"
  by (auto simp: grown_def nth_append split: if_splits)

lemma grown_length: "k < length (grown k xs)"
  by (simp add: grown_def)

lemma get_pos_logs:
  assumes l: "tags_logged e evs"
  shows "\<exists>i e'. get_pos_in_tags_list n st e = (Inr i, e') \<and> tags_logged e' evs \<and> grows_but {i} 1 e e' \<and>
    i < length (te_tags_list e') \<and> te_tags_list e' ! i = new_tag_info n st \<and>
    te_data e' = te_data e \<and> te_nonproto_lengths e' = te_nonproto_lengths e \<and> te_encoded_tags e' = te_encoded_tags e"
proof -
  obtain mid e1 node where g: "get_or_create_node n e = (Inr mid, e1)" "tags_logged e1 evs" "grows 0 e e1"
    "te_tags_list e1 = te_tags_list e" "te_data e1 = te_data e" "te_nonproto_lengths e1 = te_nonproto_lengths e"
    "te_encoded_tags e1 = te_encoded_tags e" "te_message_nodes e1 n = Some node"
    using get_or_create_logs [OF l, of n] by blast
  define ps where "ps = grown (unat st) (mn_encoded_tag_pos node)"
  have st: "of_nat (unat st) = st" "unat st < length ps" by (simp_all add: ps_def grown_length)
  have noted: "notes_ok e1" using g(2) by (simp add: tags_logged_def)
  have old: "ps ! i < length (te_tags_list e1) \<and> te_tags_list e1 ! (ps ! i) = new_tag_info n (of_nat i)"
    if "i < length ps" "ps ! i \<noteq> NO_POS" for i
    using noted g(8) grown_nth [OF that [unfolded ps_def]] that by (auto simp: notes_ok_def ps_def)
  show ?thesis
  proof (cases "ps ! unat st = NO_POS")
    case True
    define e' where "e' = e1\<lparr>te_message_nodes := (te_message_nodes e1)(n \<mapsto> node\<lparr>mn_encoded_tag_pos := ps[unat st := length (te_tags_list e1)]\<rparr>),
      te_tags_list := te_tags_list e1 @ [new_tag_info n st]\<rparr>"
    have r: "get_pos_in_tags_list n st e = (Inr (length (te_tags_list e1)), e')"
      using g(1,8) True by (simp add: get_pos_in_tags_list_def e'_def ps_def Let_def)
    have "notes_ok e'"
      unfolding notes_ok_def
    proof (intro allI impI)
      fix m nd i
      assume a: "te_message_nodes e' m = Some nd" "i < length (mn_encoded_tag_pos nd)" "mn_encoded_tag_pos nd ! i \<noteq> NO_POS"
      show "mn_encoded_tag_pos nd ! i < length (te_tags_list e') \<and> te_tags_list e' ! (mn_encoded_tag_pos nd ! i) = new_tag_info m (of_nat i)"
      proof (cases "m = n")
        case True
        then have nd: "mn_encoded_tag_pos nd = ps[unat st := length (te_tags_list e1)]" using a(1) by (auto simp: e'_def)
        then show ?thesis using a True st old [of i] by (cases "i = unat st") (auto simp: e'_def nth_append)
      next
        case False
        then have "te_message_nodes e1 m = Some nd" using a(1) by (simp add: e'_def)
        then have "mn_encoded_tag_pos nd ! i < length (te_tags_list e1) \<and>
            te_tags_list e1 ! (mn_encoded_tag_pos nd ! i) = new_tag_info m (of_nat i)"
          using noted a(2,3) unfolding notes_ok_def by blast
        then show ?thesis by (simp add: e'_def nth_append)
      qed
    qed
    moreover have "\<forall>i \<in> set (te_encoded_tags e1). i < length (te_tags_list e1)" using g(2) by (simp add: tags_logged_def)
    then have "map (tag_at (te_tags_list e')) (te_encoded_tags e') = map (tag_at (te_tags_list e1)) (te_encoded_tags e1)"
      by (simp add: e'_def tag_at_def nth_append)
    then have "map (tag_at (te_tags_list e')) (te_encoded_tags e') = map event_tag evs" using g(2) by (simp add: tags_logged_def)
    moreover have "\<forall>t \<in> set (te_tags_list e'). t = new_tag_info (et_node_id t) (et_subtype t)"
      "\<forall>i \<in> set (te_encoded_tags e'). i < length (te_tags_list e')" "\<forall>ev \<in> set evs. event_ok ev"
      using g(2) by (auto simp: tags_logged_def e'_def new_tag_info_def)
    ultimately have "tags_logged e' evs" by (simp add: tags_logged_def)
    moreover have "grows_but {length (te_tags_list e1)} 1 e e'"
      using g(3,4,7) by (auto simp: grows_but_def e'_def settings_def)
    moreover have "length (te_tags_list e1) < length (te_tags_list e')" "te_tags_list e' ! length (te_tags_list e1) = new_tag_info n st"
      "te_data e' = te_data e" "te_nonproto_lengths e' = te_nonproto_lengths e" "te_encoded_tags e' = te_encoded_tags e"
      using g(4-7) by (simp_all add: e'_def)
    ultimately show ?thesis using r by blast
  next
    case False
    define e' where "e' = e1\<lparr>te_message_nodes := (te_message_nodes e1)(n \<mapsto> node\<lparr>mn_encoded_tag_pos := ps\<rparr>)\<rparr>"
    have r: "get_pos_in_tags_list n st e = (Inr (ps ! unat st), e')"
      using g(1,8) False by (simp add: get_pos_in_tags_list_def e'_def ps_def Let_def)
    have "notes_ok e'"
      using noted old by (auto simp: notes_ok_def e'_def)
    then have "tags_logged e' evs" using g(2) by (auto simp: tags_logged_def e'_def)
    moreover have "grows_but {ps ! unat st} 1 e e'" using g(3,4,7) by (simp add: grows_but_def e'_def settings_def)
    moreover have "ps ! unat st < length (te_tags_list e')" "te_tags_list e' ! (ps ! unat st) = new_tag_info n st"
      "te_data e' = te_data e" "te_nonproto_lengths e' = te_nonproto_lengths e" "te_encoded_tags e' = te_encoded_tags e"
      using g(4-7) old [OF st(2) False] st(1) by (simp_all add: e'_def)
    ultimately show ?thesis using r by blast
  qed
qed

lemma push_tag_logs:
  assumes "tags_logged e evs" "i < length (te_tags_list e)" "te_tags_list e ! i = new_tag_info n st" "event_ok (n, st, c)"
  shows "tags_logged (e\<lparr>te_encoded_tags := te_encoded_tags e @ [i]\<rparr>) (evs @ [(n, st, c)])"
  using assms by (auto simp: tags_logged_def notes_ok_def tag_at_def new_tag_info_def)

lemma push_state_logs:
  assumes l: "tags_logged e evs" and ok: "event_ok (n, st, c)"
  shows "\<exists>e'. push_state n st e = (Inr (), e') \<and> tags_logged e' (evs @ [(n, st, c)]) \<and> grows 1 e e' \<and>
    te_data e' = te_data e \<and> te_nonproto_lengths e' = te_nonproto_lengths e"
proof -
  obtain i e1 where g: "get_pos_in_tags_list n st e = (Inr i, e1)" "tags_logged e1 evs" "grows_but {i} 1 e e1"
    "i < length (te_tags_list e1)" "te_tags_list e1 ! i = new_tag_info n st"
    "te_data e1 = te_data e" "te_nonproto_lengths e1 = te_nonproto_lengths e"
    using get_pos_logs [OF l, of n st] by blast
  then show ?thesis
    using push_tag_logs [OF g(2,4,5) ok] by (auto simp: push_state_def push_tag_def grows_but_def settings_def)
qed

text \<open>A tag without a buffer, and a tag with one.\<close>

lemma bare_logs:
  assumes "data_logged e evs" "tag_buffer (n, st) = None" "te_data e' = te_data e" "te_nonproto_lengths e' = te_nonproto_lengths e"
  shows "data_logged e' (evs @ [(n, st, [])])"
proof -
  have "\<not> (node_id_tag n = 0 \<and> parent_message_id n = NON_PROTO)" using assms(2) by (auto simp: tag_buffer.simps)
  then show ?thesis using assms by (auto simp: data_logged_def chunks_for_one)
qed

lemma push_bare:
  assumes l: "logged e evs" and ok: "event_ok (n, st, [])" and b: "tag_buffer (n, st) = None"
  shows "\<exists>e'. push_state n st e = (Inr (), e') \<and> logged e' (evs @ [(n, st, [])]) \<and> grows 1 e e'"
proof -
  obtain e' where p: "push_state n st e = (Inr (), e')" "tags_logged e' (evs @ [(n, st, [])])" "grows 1 e e'"
    "te_data e' = te_data e" "te_nonproto_lengths e' = te_nonproto_lengths e"
    using push_state_logs [OF _ ok] l by (auto simp: logged_def)
  then show ?thesis using bare_logs [OF _ b p(4,5)] l by (simp add: logged_def)
qed

lemma push_buffer_logs:
  assumes d: "data_logged e evs" and b: "tag_buffer (n, st) = Some (bt, n)" and nn: "node_id_tag n \<noteq> 0"
  shows "data_logged (e\<lparr>te_data := (te_data e)(bt := push_to_node n c (te_data e bt))\<rparr>) (evs @ [(n, st, c)])"
proof -
  have h: "buffers_hold (te_data e bt') (\<lambda>n. chunks_for (bt', n) evs)" for bt' using d by (simp add: data_logged_def)
  have "(\<lambda>m. chunks_for (bt', m) (evs @ [(n, st, c)])) =
      (if bt' = bt then (\<lambda>m. chunks_for (bt, m) evs)(n := chunks_for (bt, n) evs @ [c]) else (\<lambda>m. chunks_for (bt', m) evs))" for bt'
    using b by (auto simp: chunks_for_one fun_eq_iff)
  moreover have "whole_lengths (evs @ [(n, st, c)]) = whole_lengths evs" using nn by simp
  ultimately show ?thesis using d h push_to_node_holds [OF h [of bt], of n c] by (simp add: data_logged_def)
qed

lemma push_chunked:
  assumes l: "logged e evs" and ok: "event_ok (n, st, c)" and b: "tag_buffer (n, st) = Some (bt, n)" and nn: "node_id_tag n \<noteq> 0"
  shows "\<exists>e1 e2. push_state n st e = (Inr (), e1) \<and> push_buffer n bt c e1 = (Inr (), e2) \<and> logged e2 (evs @ [(n, st, c)]) \<and> grows 1 e e2"
proof -
  obtain e1 where p: "push_state n st e = (Inr (), e1)" "tags_logged e1 (evs @ [(n, st, c)])" "grows 1 e e1"
    "te_data e1 = te_data e" "te_nonproto_lengths e1 = te_nonproto_lengths e"
    using push_state_logs [OF _ ok] l by (auto simp: logged_def)
  define e2 where "e2 = e1\<lparr>te_data := (te_data e1)(bt := push_to_node n c (te_data e1 bt))\<rparr>"
  have "data_logged e1 evs" using l p(4,5) by (simp add: logged_def data_logged_def)
  then have "data_logged e2 (evs @ [(n, st, c)])" unfolding e2_def by (rule push_buffer_logs [OF _ b nn])
  moreover have "tags_logged e2 (evs @ [(n, st, c)])" using p(2) by (simp add: tags_logged_def notes_ok_def e2_def)
  moreover have "grows 1 e e2" using p(3) by (simp add: grows_but_def settings_def e2_def)
  ultimately show ?thesis using p(1) by (auto simp: push_buffer_def e2_def logged_def)
qed

end
