(* ===== verification/TransitionBytes.thy ===== *)
theory TransitionBytes
  imports EncoderChunk TransposeMachine
begin

text \<open>
  The bytes of the transitions: what the encoder emits for a list of offsets, what offsets the decoder
  takes from bytes, and the walk over the nodes of the state machine that a list of offsets describes.
\<close>

section \<open>The offsets of a byte\<close>

text \<open>An offset and up to three zero offsets behind it.\<close>

definition byte_offsets :: "u8 \<Rightarrow> nat list" where
  "byte_offsets b = unat (drop_bit 2 b) # replicate (unat (b AND 3)) 0"

definition offsets_of :: "bytes \<Rightarrow> nat list" where
  "offsets_of bs = concat (map byte_offsets bs)"

definition pending_offsets :: "u8 option \<Rightarrow> nat list" where
  "pending_offsets prev = (case prev of None \<Rightarrow> [] | Some b \<Rightarrow> byte_offsets b)"

lemma offsets_of_simps [simp]:
  "offsets_of [] = []" "offsets_of (b # bs) = byte_offsets b @ offsets_of bs" "offsets_of (bs @ cs) = offsets_of bs @ offsets_of cs"
  by (simp_all add: offsets_of_def)

lemma pending_offsets_simps [simp]: "pending_offsets None = []" "pending_offsets (Some b) = byte_offsets b"
  by (simp_all add: pending_offsets_def)

lemma unat_drop2: "unat (drop_bit 2 (b :: u8)) = unat b div 4"
  by (simp add: unat_div drop_bit_eq_div)

lemma unat_low2: "unat ((b :: u8) AND 3) = unat b mod 4"
proof -
  have "b AND 3 = take_bit 2 b" by (simp add: take_bit_eq_mask mask_numeral)
  then show ?thesis by (simp add: take_bit_eq_mod unat_mod)
qed

lemma byte_offsets_unat: "byte_offsets b = unat b div 4 # replicate (unat b mod 4) 0"
  by (simp add: byte_offsets_def unat_drop2 unat_low2)

lemma byte_offsets_fresh:
  assumes "(b :: u8) \<le> 63"
  shows "byte_offsets (push_bit 2 b) = [unat b]"
proof -
  have b: "unat b \<le> 63" using assms by (simp add: word_le_nat_alt)
  have "unat (push_bit 2 b) = 4 * unat b"
    using b by (simp add: push_bit_eq_mult unat_word_ariths)
  then show ?thesis by (simp add: byte_offsets_unat)
qed

lemma byte_offsets_more:
  assumes "(lt :: u8) AND 3 < 3"
  shows "byte_offsets (lt + 1) = byte_offsets lt @ [0]"
proof -
  have m: "unat lt mod 4 < 3" using assms unat_low2 [of lt] by (simp add: word_less_nat_alt)
  moreover have "unat lt < 256" using unsigned_less [of lt] by simp
  ultimately have "unat lt + 1 < 256" by presburger
  then have "unat (lt + 1) = unat lt + 1" by (simp add: unat_word_ariths)
  moreover have "Suc (unat lt) div 4 = unat lt div 4" "Suc (unat lt) mod 4 = Suc (unat lt mod 4)"
    using m by presburger+
  ultimately show ?thesis by (simp add: byte_offsets_unat replicate_append_same)
qed

lemma emit_keeps_offsets:
  assumes "emit_transition_bytes bs (transitions, prev) = (transitions', prev')" and "\<forall>b \<in> set bs. b \<le> 63"
  shows "offsets_of transitions' @ pending_offsets prev' = offsets_of transitions @ pending_offsets prev @ map unat bs"
  using assms
proof (induction bs "(transitions, prev)" arbitrary: transitions prev rule: emit_transition_bytes.induct)
  case (2 b bs transitions prev)
  show ?case
  proof (cases prev)
    case None
    then show ?thesis using 2 by (simp add: byte_offsets_fresh)
  next
    case (Some lt)
    show ?thesis
    proof (cases "b = 0 \<and> lt AND 3 < 3")
      case True
      then show ?thesis using 2 Some by (simp add: byte_offsets_more)
    next
      case False
      then have "emit_transition_bytes bs (transitions @ [lt], Some (push_bit 2 b)) = (transitions', prev')"
        using 2(4) Some by auto
      then have "offsets_of transitions' @ pending_offsets prev' =
          offsets_of (transitions @ [lt]) @ pending_offsets (Some (push_bit 2 b)) @ map unat bs"
        by (intro 2(3) [OF Some False]) (use 2(5) in simp_all)
      then show ?thesis using Some 2(5) by (simp add: byte_offsets_fresh)
    qed
  qed
qed simp

section \<open>Walks\<close>

text \<open>
  The nodes a list of offsets leads through.  An implicit node takes no offset, and the walk ends at
  an explicit node when the offsets are used up.
\<close>

fun walks :: "StateMachineNode list \<Rightarrow> nat list \<Rightarrow> nat list \<Rightarrow> bool" where
  "walks nodes [] offs = False"
| "walks nodes [i] offs = (i < length nodes \<and> \<not> sn_is_implicit (nodes ! i) \<and> offs = [])"
| "walks nodes (i # j # js) offs =
     (i < length nodes \<and>
      (if sn_is_implicit (nodes ! i) then j = sn_next_node_index (nodes ! i) \<and> walks nodes (j # js) offs
       else offs \<noteq> [] \<and> j = sn_next_node_index (nodes ! i) + hd offs \<and> walks nodes (j # js) (tl offs)))"

lemma walks_start: "walks nodes (i # is) offs \<Longrightarrow> i < length nodes"
  by (cases "is") auto

text \<open>The actions of the nodes, one after the other.\<close>

fun perform_all :: "StateMachineNode list \<Rightarrow> nat list \<Rightarrow> DecodeState \<Rightarrow> DecodeState option" where
  "perform_all nodes [] s = Some s"
| "perform_all nodes (i # is) s =
     (case execute_node_action (nodes ! i) i nodes s of
        Some (Inr _, s) \<Rightarrow> perform_all nodes is s
      | _ \<Rightarrow> None)"

lemma perform_all_append: "perform_all nodes (is @ js) s = Option.bind (perform_all nodes is s) (perform_all nodes js)"
  by (induction "is" arbitrary: s) (auto split: option.splits sum.splits)

lemma perform_all_Cons:
  assumes "perform_all nodes (i # is) s = Some s'"
  obtains s1 where "execute_node_action (nodes ! i) i nodes s = Some (Inr (), s1)" "perform_all nodes is s1 = Some s'"
  using assms by (auto split: option.splits sum.splits prod.splits)

text \<open>What is left of the offsets: zeros that are counted already, and the bytes ahead.\<close>

definition left_offsets :: "nat \<Rightarrow> BufferCursor \<Rightarrow> nat list" where
  "left_offsets z c = replicate z 0 @ offsets_of (drop (bc_pos c) (bc_data c))"

lemma advance_walks:
  assumes i: "i < length nodes" and c: "\<not> bc_pruned c" and offs: "left_offsets z c = offs"
    and next_ok: "if sn_is_implicit (nodes ! i) then j = sn_next_node_index (nodes ! i) \<and> offs' = offs
      else offs \<noteq> [] \<and> j = sn_next_node_index (nodes ! i) + hd offs \<and> offs' = tl offs"
    and j: "j < length nodes"
  shows "\<exists>z' c'. advance_state_machine i (z + (if sn_is_implicit (nodes ! i) then 1 else 0)) nodes c =
      Some (Inr (j, z' + (if sn_is_implicit (nodes ! j) then 1 else 0), False), c') \<and>
    \<not> bc_pruned c' \<and> left_offsets z' c' = offs'"
proof (cases "sn_is_implicit (nodes ! i) \<or> 0 < z")
  case True
  show ?thesis
  proof (cases "sn_is_implicit (nodes ! i)")
    case True
    then show ?thesis using i j next_ok c offs
      by (intro exI [of _ z] exI [of _ c]) (auto simp: advance_state_machine_def item_at_def)
  next
    case False
    then obtain z1 where "z = Suc z1" using \<open>sn_is_implicit (nodes ! i) \<or> 0 < z\<close> by (cases z) auto
    then show ?thesis using i j next_ok c offs False
      by (intro exI [of _ z1] exI [of _ c]) (auto simp: advance_state_machine_def item_at_def left_offsets_def)
  qed
next
  case False
  then have expl: "\<not> sn_is_implicit (nodes ! i)" "z = 0" by auto
  then have nonempty: "drop (bc_pos c) (bc_data c) \<noteq> []" using offs next_ok by (auto simp: left_offsets_def)
  define b where "b = bc_data c ! bc_pos c"
  have pos: "bc_pos c < length (bc_data c)" using nonempty by simp
  have d: "drop (bc_pos c) (bc_data c) = b # drop (Suc (bc_pos c)) (bc_data c)"
    using pos by (simp add: b_def Cons_nth_drop_Suc)
  define c' where "c' = c\<lparr>bc_pos := bc_pos c + 1\<rparr>"
  have offs': "j = sn_next_node_index (nodes ! i) + unat (drop_bit 2 b)" "left_offsets (unat (b AND 3)) c' = offs'"
    using next_ok expl offs d by (auto simp: left_offsets_def byte_offsets_def c'_def)
  have "bc_read_byte c = (Inr b, c')" using pos c by (simp add: bc_read_byte_def b_def c'_def)
  moreover have "\<not> bc_is_empty c" using pos c by (simp add: bc_is_empty_def)
  moreover have "\<not> bc_pruned c'" using c by (simp add: c'_def)
  ultimately show ?thesis using i j expl offs'
    by (intro exI [of _ "unat (b AND 3)"] exI [of _ c']) (auto simp: advance_state_machine_def item_at_def Let_def)
qed

lemma advance_stops:
  assumes "i < length nodes" "\<not> sn_is_implicit (nodes ! i)" "\<not> bc_pruned c" "left_offsets z c = []"
  shows "\<exists>x. advance_state_machine i (z + (if sn_is_implicit (nodes ! i) then 1 else 0)) nodes c = Some (Inr (fst x, snd x, True), c)"
proof -
  have z: "z = 0" and off: "offsets_of (drop (bc_pos c) (bc_data c)) = []" using assms(4) by (auto simp: left_offsets_def)
  have "drop (bc_pos c) (bc_data c) = []"
    using off by (cases "drop (bc_pos c) (bc_data c)") (auto simp: byte_offsets_def)
  then have "bc_is_empty c" by (simp add: bc_is_empty_def)
  then show ?thesis using assms z
    by (intro exI [of _ "(sn_next_node_index (nodes ! i), 0)"]) (simp add: advance_state_machine_def item_at_def)
qed

text \<open>The loop of the decoder walks the way the offsets say and performs the actions on it.\<close>

lemma machine_walks:
  assumes "walks nodes (i # is) offs" and "perform_all nodes (i # is) s = Some s'"
    and "\<not> bc_pruned c" and "left_offsets z c = offs"
  shows "iterate (machine_step nodes) (i, z + (if sn_is_implicit (nodes ! i) then 1 else 0), c, s) = Some (Inr s')"
  using assms
proof (induction "is" arbitrary: i offs s c z)
  case Nil
  then have i: "i < length nodes" "\<not> sn_is_implicit (nodes ! i)" "left_offsets z c = []" by auto
  obtain s1 where e: "execute_node_action (nodes ! i) i nodes s = Some (Inr (), s1)" "perform_all nodes [] s1 = Some s'"
    using Nil.prems(2) by (rule perform_all_Cons)
  have "item_at nodes i = Some (nodes ! i)" using i by (simp add: item_at_def)
  then have "machine_step nodes (i, z + (if sn_is_implicit (nodes ! i) then 1 else 0), c, s) = Some (Inr (Inr s'))"
    using advance_stops [OF i(1,2) Nil.prems(3) i(3)] e by (auto simp: machine_step_def simp del: item_at_Some)
  then show ?case by (rule iterate_exit)
next
  case (Cons j js)
  define offs' where "offs' = (if sn_is_implicit (nodes ! i) then offs else tl offs)"
  have i: "i < length nodes" and w: "walks nodes (j # js) offs'"
    using Cons.prems(1) by (auto simp: offs'_def split: if_splits)
  have next_ok: "if sn_is_implicit (nodes ! i) then j = sn_next_node_index (nodes ! i) \<and> offs' = offs
      else offs \<noteq> [] \<and> j = sn_next_node_index (nodes ! i) + hd offs \<and> offs' = tl offs"
    using Cons.prems(1) by (auto simp: offs'_def split: if_splits)
  obtain s1 where e: "execute_node_action (nodes ! i) i nodes s = Some (Inr (), s1)" "perform_all nodes (j # js) s1 = Some s'"
    using Cons.prems(2) by (rule perform_all_Cons)
  obtain z' c' where a: "advance_state_machine i (z + (if sn_is_implicit (nodes ! i) then 1 else 0)) nodes c =
      Some (Inr (j, z' + (if sn_is_implicit (nodes ! j) then 1 else 0), False), c')"
      "\<not> bc_pruned c'" "left_offsets z' c' = offs'"
    using advance_walks [OF i Cons.prems(3,4) next_ok walks_start [OF w]] by blast
  have "item_at nodes i = Some (nodes ! i)" using i by (simp add: item_at_def)
  then have "machine_step nodes (i, z + (if sn_is_implicit (nodes ! i) then 1 else 0), c, s) =
      Some (Inl (j, z' + (if sn_is_implicit (nodes ! j) then 1 else 0), c', s1))"
    using a(1) e(1) by (simp add: machine_step_def del: item_at_Some)
  then show ?case using Cons.IH [OF w e(2) a(2,3)] by (simp add: iterate_continue)
qed

end
