(* ===== verification/EncoderReplay.thy ===== *)
theory EncoderReplay
  imports EncoderEvents TransitionBytes
begin

text \<open>
  The decoder plays the events of the encoder backward: the action of a node for the tag of an event
  takes the bytes of the event from the front of its buffer and does to the output what the event does.
\<close>

section \<open>Playing only adds\<close>

lemma play_deed_grows:
  "play_deed d (out, ends, limits) = Some (out', ends', limits') \<Longrightarrow>
     length out \<le> length out' \<and> length limits \<le> length limits'"
  by (cases d; cases ends) (auto split: if_splits)

lemma play_back_grows:
  "play_back evs (out, ends, limits) = Some (out', ends', limits') \<Longrightarrow>
     length out \<le> length out' \<and> length limits \<le> length limits'"
proof (induction evs arbitrary: out' ends' limits')
  case (Cons ev evs)
  then obtain out1 ends1 limits1 where "play_back evs (out, ends, limits) = Some (out1, ends1, limits1)"
    "play_deed (deed_of ev) (out1, ends1, limits1) = Some (out', ends', limits')"
    by (auto simp: bind_eq_Some_conv)
  then show ?case using Cons.IH play_deed_grows by fastforce
qed simp

section \<open>Cursors\<close>

text \<open>The bytes that are left for a cursor.\<close>

definition cursor_left :: "BufferCursor \<Rightarrow> bytes \<Rightarrow> bool" where
  "cursor_left c bs \<longleftrightarrow> \<not> bc_pruned c \<and> bc_pos c \<le> length (bc_data c) \<and> drop (bc_pos c) (bc_data c) = bs \<and>
     length (bc_data c) \<le> u64_max"

lemma cursor_left_length: "cursor_left c bs \<Longrightarrow> bc_pos c + length bs = length (bc_data c)"
  unfolding cursor_left_def by (metis add_diff_cancel_left' le_add_diff_inverse length_drop)

lemma cursor_left_skip:
  assumes "cursor_left c (x @ rest)"
  shows "cursor_left (c\<lparr>bc_pos := bc_pos c + length x\<rparr>) rest"
proof -
  have "drop (bc_pos c + length x) (bc_data c) = drop (length x) (drop (bc_pos c) (bc_data c))" by (simp add: add.commute)
  also have "\<dots> = rest" using assms by (simp add: cursor_left_def)
  finally show ?thesis using assms cursor_left_length [OF assms] by (simp add: cursor_left_def)
qed

lemma read_exact_left:
  assumes "cursor_left c (x @ rest)" "n = length x"
  shows "bc_read_exact n c = (Inr x, c\<lparr>bc_pos := bc_pos c + n\<rparr>)"
  using assms cursor_left_length [OF assms(1)] by (auto simp: bc_read_exact_def cursor_left_def)

lemma read_varint32_left:
  assumes "cursor_left c (encode_u32 v @ rest)"
  shows "bc_read_varint32 c = (Inr v, c\<lparr>bc_pos := bc_pos c + length (encode_u32 v)\<rparr>)"
  using assms by (simp add: bc_read_varint32_def cursor_left_def)

lemma read_string_left:
  assumes c: "cursor_left c ((encode_u32 v @ d) @ rest)" and d: "length d = unat v"
  shows "read_string c = (Inr (encode_u32 v @ d), c\<lparr>bc_pos := bc_pos c + length (encode_u32 v @ d)\<rparr>)"
proof -
  have c1: "cursor_left c (encode_u32 v @ d @ rest)" using c by simp
  let ?c1 = "c\<lparr>bc_pos := bc_pos c + length (encode_u32 v)\<rparr>"
  have c2: "cursor_left ?c1 (d @ rest)" by (rule cursor_left_skip [OF c1])
  have "drop (bc_pos c) (take (bc_pos c + length (encode_u32 v @ d)) (bc_data c)) = encode_u32 v @ d"
    using c by (simp add: cursor_left_def drop_take)
  then show ?thesis
    using c read_varint32_left [OF c1] read_exact_left [OF c2 d [symmetric]]
    by (simp add: read_string_def cursor_left_def add.assoc d)
qed

section \<open>Nodes for tags\<close>

definition node_prefix :: "StateMachineNode \<Rightarrow> bytes option" where
  "node_prefix node = prefix_at (sn_tag_data node) (sn_tag_data_size node)"

text \<open>The action and the tag bytes of the node for a tag; \<open>idx\<close> are the indices of the buffers.\<close>

fun action_of :: "NodeId \<times> u8 \<Rightarrow> CallbackType \<times> bytes" where
  "action_of (n, st) =
     (let tag = encode_u32 (node_id_tag n)
      in if node_id_tag n = 0 then (if parent_message_id n = NON_PROTO then NonProto else MessageStart, [])
         else case tag_wire_type (node_id_tag n) of
           Some WVarint \<Rightarrow> if st < VARINT_INLINE_0 then (VarintField (st + 1), tag) else (CopyTag, tag @ [st - VARINT_INLINE_0])
         | Some Fixed32 \<Rightarrow> (Fixed32Field, tag)
         | Some Fixed64 \<Rightarrow> (Fixed64Field, tag)
         | Some LengthDelimited \<Rightarrow>
             if st = LENGTH_DELIMITED_STRING then (StringField, tag)
             else if st = LENGTH_DELIMITED_START_OF_SUBMESSAGE then (SubmessageStart, [])
             else (SubmessageEnd, tag)
         | _ \<Rightarrow> (CopyTag, tag))"

declare action_of.simps [simp del]

definition node_does :: "(BufferType \<times> NodeId \<Rightarrow> nat) \<Rightarrow> NodeId \<times> u8 \<Rightarrow> StateMachineNode \<Rightarrow> bool" where
  "node_does idx t node \<longleftrightarrow> sn_callback_type node = fst (action_of t) \<and> node_prefix node = Some (snd (action_of t)) \<and>
     (\<forall>key. tag_buffer t = Some key \<longrightarrow> sn_buffer_index node = Some (idx key))"

section \<open>The state of the decoder\<close>

text \<open>
  A decoder state stands for an output that was played, with the events \<open>evs\<close> still to come.
  \<open>keys\<close> are the buffers there are, and \<open>li\<close> is the index of the buffer of the lengths.
\<close>

definition frames_stand :: "StateMachineNode list \<Rightarrow> SubmessageFrame list \<Rightarrow> (nat \<times> bytes) list \<Rightarrow> bool" where
  "frames_stand nodes frames ends \<longleftrightarrow>
     list_all2 (\<lambda>fr (p, tag). fr_end_pos fr = p \<and> fr_node_index fr < length nodes \<and> node_prefix (nodes ! fr_node_index fr) = Some tag)
       (rev frames) ends"

definition buffers_stand ::
  "(BufferType \<times> NodeId \<Rightarrow> nat) \<Rightarrow> (BufferType \<times> NodeId) set \<Rightarrow> nat option \<Rightarrow> event list \<Rightarrow> BufferCursor list \<Rightarrow> bool" where
  "buffers_stand idx keys li evs cs \<longleftrightarrow>
     (\<forall>key \<in> keys. idx key < length cs \<and> cursor_left (cs ! idx key) (concat (rev (chunks_for key evs)))) \<and>
     (\<forall>key. chunks_for key evs \<noteq> [] \<longrightarrow> key \<in> keys) \<and> inj_on idx keys \<and>
     (whole_lengths evs \<noteq> [] \<longrightarrow> (\<exists>i. li = Some i \<and> i < length cs \<and> i \<notin> idx ` keys \<and>
        cursor_left (cs ! i) (concat (rev (whole_lengths evs)))))"

definition stands_for ::
  "StateMachineNode list \<Rightarrow> (BufferType \<times> NodeId \<Rightarrow> nat) \<Rightarrow> (BufferType \<times> NodeId) set \<Rightarrow> nat \<Rightarrow> u64 \<Rightarrow>
   event list \<Rightarrow> DecodeState \<Rightarrow> played \<Rightarrow> bool" where
  "stands_for nodes idx keys limit num evs s = (\<lambda>(out, ends, limits).
     bb_data (ds_dest s) = rev out \<and> bb_limit (ds_dest s) = limit \<and> ds_limits s = limits \<and> ds_num_records s = num \<and>
     ds_skipped_submessage_level s = 0 \<and>
     frames_stand nodes (ds_submessage_stack s) ends \<and>
     buffers_stand idx keys (ds_nonproto_lengths_index s) evs (ds_buffers s))"

section \<open>The parts of the actions\<close>

lemma buffers_stand_read:
  assumes b: "buffers_stand idx keys li (evs @ [(n, st, c)]) cs" and t: "tag_buffer (n, st) = Some key" and nn: "node_id_tag n \<noteq> 0"
  shows "idx key < length cs" "cursor_left (cs ! idx key) (c @ concat (rev (chunks_for key evs)))"
    "buffers_stand idx keys li evs (cs[idx key := (cs ! idx key)\<lparr>bc_pos := bc_pos (cs ! idx key) + length c\<rparr>])"
proof -
  have ch: "chunks_for key (evs @ [(n, st, c)]) = chunks_for key evs @ [c]"
    "\<And>k. k \<noteq> key \<Longrightarrow> chunks_for k (evs @ [(n, st, c)]) = chunks_for k evs"
    unfolding chunks_for_simps chunks_for_one using t by auto
  have wl: "whole_lengths (evs @ [(n, st, c)]) = whole_lengths evs" using nn by simp
  have "chunks_for key (evs @ [(n, st, c)]) \<noteq> []" unfolding ch(1) by simp
  then have key: "key \<in> keys" using b unfolding buffers_stand_def by blast
  then show i: "idx key < length cs" and left: "cursor_left (cs ! idx key) (c @ concat (rev (chunks_for key evs)))"
    using b ch(1) key by (auto simp: buffers_stand_def simp del: chunks_for_simps)
  let ?c = "(cs ! idx key)\<lparr>bc_pos := bc_pos (cs ! idx key) + length c\<rparr>"
  have "cursor_left ?c (concat (rev (chunks_for key evs)))" by (rule cursor_left_skip [OF left])
  have inj: "inj_on idx keys" using b by (simp add: buffers_stand_def)
  show "buffers_stand idx keys li evs (cs[idx key := ?c])"
    unfolding buffers_stand_def
  proof (intro conjI ballI allI impI)
    fix k assume k: "k \<in> keys"
    then show "idx k < length (cs[idx key := ?c])" using b by (simp add: buffers_stand_def)
    show "cursor_left (cs[idx key := ?c] ! idx k) (concat (rev (chunks_for k evs)))"
    proof (cases "k = key")
      case True
      then show ?thesis using cursor_left_skip [OF left] i by simp
    next
      case False
      then have "idx k \<noteq> idx key" using inj k key by (auto simp: inj_on_def)
      then show ?thesis using b k ch(2) [OF False] unfolding buffers_stand_def by auto
    qed
  next
    fix k assume "chunks_for k evs \<noteq> []"
    then have "chunks_for k (evs @ [(n, st, c)]) \<noteq> []" by simp
    then show "k \<in> keys" using b unfolding buffers_stand_def by blast
  next
    assume "whole_lengths evs \<noteq> []"
    then obtain j where j: "li = Some j" "j < length cs" "j \<notin> idx ` keys" "cursor_left (cs ! j) (concat (rev (whole_lengths evs)))"
      using b unfolding buffers_stand_def wl by blast
    then have "j \<noteq> idx key" using key by auto
    then show "\<exists>i. li = Some i \<and> i < length (cs[idx key := ?c]) \<and> i \<notin> idx ` keys \<and>
        cursor_left (cs[idx key := ?c] ! i) (concat (rev (whole_lengths evs)))"
      using j by simp
  qed (rule inj)
qed

lemma buffers_stand_bare:
  assumes "buffers_stand idx keys li (evs @ [(n, st, c)]) cs" "tag_buffer (n, st) = None" "node_id_tag n \<noteq> 0 \<or> parent_message_id n \<noteq> NON_PROTO"
  shows "buffers_stand idx keys li evs cs"
  using assms by (auto simp: buffers_stand_def chunks_for_one)

lemma buffers_stand_whole:
  assumes b: "buffers_stand idx keys li (evs @ [(n, st, c)]) cs" and n: "node_id_tag n = 0" "parent_message_id n = NON_PROTO"
    and key: "tag_buffer (n, st) = Some key"
  obtains i where "li = Some i" "i < length cs" "cursor_left (cs ! i) (encode_u64 (of_nat (length c)) @ concat (rev (whole_lengths evs)))"
    "idx key < length cs" "idx key \<noteq> i" "cursor_left (cs ! idx key) (c @ concat (rev (chunks_for key evs)))"
    "buffers_stand idx keys li evs
      (cs[i := (cs ! i)\<lparr>bc_pos := bc_pos (cs ! i) + length (encode_u64 (of_nat (length c)))\<rparr>,
         idx key := (cs ! idx key)\<lparr>bc_pos := bc_pos (cs ! idx key) + length c\<rparr>])"
proof -
  have wl: "whole_lengths (evs @ [(n, st, c)]) = whole_lengths evs @ [encode_u64 (of_nat (length c))]" using n by simp
  have ch: "chunks_for key (evs @ [(n, st, c)]) = chunks_for key evs @ [c]"
    "\<And>k. k \<noteq> key \<Longrightarrow> chunks_for k (evs @ [(n, st, c)]) = chunks_for k evs"
    unfolding chunks_for_simps chunks_for_one using key by auto
  have "whole_lengths (evs @ [(n, st, c)]) \<noteq> []" unfolding wl by simp
  then obtain i where i: "li = Some i" "i < length cs" "i \<notin> idx ` keys"
    "cursor_left (cs ! i) (concat (rev (whole_lengths (evs @ [(n, st, c)]))))"
    using b unfolding buffers_stand_def by blast
  have left1: "cursor_left (cs ! i) (encode_u64 (of_nat (length c)) @ concat (rev (whole_lengths evs)))" using i(4) unfolding wl by simp
  have "chunks_for key (evs @ [(n, st, c)]) \<noteq> []" unfolding ch(1) by simp
  then have k: "key \<in> keys" using b unfolding buffers_stand_def by blast
  then have kl: "idx key < length cs" "cursor_left (cs ! idx key) (concat (rev (chunks_for key (evs @ [(n, st, c)]))))" "idx key \<noteq> i"
    using b i(3) unfolding buffers_stand_def by auto
  have left2: "cursor_left (cs ! idx key) (c @ concat (rev (chunks_for key evs)))" using kl(2) unfolding ch(1) by simp
  let ?c1 = "(cs ! i)\<lparr>bc_pos := bc_pos (cs ! i) + length (encode_u64 (of_nat (length c)))\<rparr>"
  let ?c2 = "(cs ! idx key)\<lparr>bc_pos := bc_pos (cs ! idx key) + length c\<rparr>"
  let ?cs = "cs[i := ?c1, idx key := ?c2]"
  have inj: "inj_on idx keys" using b by (simp add: buffers_stand_def)
  have "buffers_stand idx keys li evs ?cs"
    unfolding buffers_stand_def
  proof (intro conjI ballI allI impI)
    fix k' assume k': "k' \<in> keys"
    then show "idx k' < length ?cs" using b by (simp add: buffers_stand_def)
    show "cursor_left (?cs ! idx k') (concat (rev (chunks_for k' evs)))"
    proof (cases "k' = key")
      case True
      then show ?thesis using cursor_left_skip [OF left2] kl by simp
    next
      case False
      then have "idx k' \<noteq> idx key" "idx k' \<noteq> i" using inj k' k i(3) by (auto simp: inj_on_def)
      then show ?thesis using b k' ch(2) [OF False] unfolding buffers_stand_def by auto
    qed
  next
    fix k' assume "chunks_for k' evs \<noteq> []"
    then have "chunks_for k' (evs @ [(n, st, c)]) \<noteq> []" by simp
    then show "k' \<in> keys" using b unfolding buffers_stand_def by blast
  next
    show "\<exists>i. li = Some i \<and> i < length ?cs \<and> i \<notin> idx ` keys \<and> cursor_left (?cs ! i) (concat (rev (whole_lengths evs)))"
      using i kl(3) cursor_left_skip [OF left1] by (intro exI [of _ i]) simp
  qed (rule inj)
  then show ?thesis using that i(1,2) left1 kl(1,3) left2 by blast
qed

lemma dest_write_stands:
  assumes "bb_data (ds_dest s) = rev out" "bb_limit (ds_dest s) = limit" "length (b @ out) \<le> limit"
  shows "dest_write b s = Some (Inr (), s\<lparr>ds_dest := \<lparr>bb_data = rev (b @ out), bb_limit = limit\<rparr>\<rparr>)"
proof -
  have "ds_dest s = \<lparr>bb_data = rev out, bb_limit = limit\<rparr>" using assms(1,2) by (cases "ds_dest s") simp
  then show ?thesis using assms(3) by (simp add: dest_write_def bb_write_def)
qed

lemma push_limit_stands:
  assumes "length (ds_limits s) < unat (ds_num_records s)"
  shows "push_limit s = Some (Inr (), s\<lparr>ds_limits := ds_limits s @ [bb_pos (ds_dest s)]\<rparr>)"
proof -
  have "(of_nat (length (ds_limits s)) :: u64) \<noteq> ds_num_records s"
  proof
    assume "(of_nat (length (ds_limits s)) :: u64) = ds_num_records s"
    then have "unat (of_nat (length (ds_limits s)) :: u64) = unat (ds_num_records s)" by simp
    moreover have "length (ds_limits s) < 2 ^ 64" using less_trans [OF assms unsigned_less] by simp
    ultimately show False using assms by (simp add: unat_of_nat_u64)
  qed
  then show ?thesis by (simp add: push_limit_def)
qed

text \<open>A field with a buffer: the bytes come from the buffer, and the tag goes in front of them.\<close>

lemma buffer_field_stands:
  assumes st: "stands_for nodes idx keys limit num (evs @ [(n, st, c)]) s (out, ends, limits)"
    and t: "tag_buffer (n, st) = Some key" "node_id_tag n \<noteq> 0" "sn_buffer_index node = Some (idx key)" "node_prefix node = Some tag"
    and rd: "\<And>c' rest. cursor_left c' (c @ rest) \<Longrightarrow> rd c' = (Inr x, c'\<lparr>bc_pos := bc_pos c' + length c\<rparr>)"
    and fits: "length ((tag @ f x) @ out) \<le> limit"
  shows "\<exists>s'. try_then (node_buffer msg node) (\<lambda>buf_idx. try_then (with_buffer buf_idx rd) (\<lambda>data.
      try_then (node_tag node) (\<lambda>tag. dest_write (tag @ f data)))) s = Some (Inr (), s') \<and>
    stands_for nodes idx keys limit num evs s' ((tag @ f x) @ out, ends, limits)"
proof -
  have b: "buffers_stand idx keys (ds_nonproto_lengths_index s) (evs @ [(n, st, c)]) (ds_buffers s)"
    using st by (simp add: stands_for_def)
  note r = buffers_stand_read [OF b t(1,2)]
  define s1 where "s1 = s\<lparr>ds_buffers := (ds_buffers s)[idx key := (ds_buffers s ! idx key)\<lparr>bc_pos := bc_pos (ds_buffers s ! idx key) + length c\<rparr>]\<rparr>"
  have w: "with_buffer (idx key) rd s = Some (Inr x, s1)"
    using r(1) rd [OF r(2)] by (simp add: with_buffer_def item_at_def s1_def)
  have d: "dest_write (tag @ f x) s1 = Some (Inr (), s1\<lparr>ds_dest := \<lparr>bb_data = rev ((tag @ f x) @ out), bb_limit = limit\<rparr>\<rparr>)"
    by (rule dest_write_stands) (use st fits in \<open>simp_all add: stands_for_def s1_def\<close>)
  have "node_tag node s1 = Some (Inr tag, s1)"
    using t(4) unfolding node_tag_def node_prefix_def unless_panic_def by (simp del: prefix_at_Some)
  moreover have "node_buffer msg node s = Some (Inr (idx key), s)"
    using t(3) by (simp add: node_buffer_def surely_def of_res_def ok_or_def)
  ultimately show ?thesis
    using w d st r(3) by (simp add: stands_for_def s1_def)
qed

text \<open>The action of the node of an event plays the event.\<close>

lemma write_stands:
  assumes st: "stands_for nodes idx keys limit num (evs @ [(n, st, [])]) s (out, ends, limits)"
    and t: "tag_buffer (n, st) = None" "node_id_tag n \<noteq> 0" and fits: "length (b @ out) \<le> limit"
  shows "\<exists>s'. dest_write b s = Some (Inr (), s') \<and> stands_for nodes idx keys limit num evs s' (b @ out, ends, limits)"
proof -
  have "dest_write b s = Some (Inr (), s\<lparr>ds_dest := \<lparr>bb_data = rev (b @ out), bb_limit = limit\<rparr>\<rparr>)"
    by (rule dest_write_stands) (use st fits in \<open>simp_all add: stands_for_def\<close>)
  then show ?thesis using st buffers_stand_bare [OF _ t(1)] t(2) by (fastforce simp: stands_for_def)
qed

lemma node_tag_prefix: "node_prefix node = Some b \<Longrightarrow> node_tag node s = Some (Inr b, s)"
  unfolding node_tag_def node_prefix_def unless_panic_def by (simp del: prefix_at_Some)

lemma sub_end_stands:
  assumes st: "stands_for nodes idx keys limit num (evs @ [(n, st, [])]) s (out, ends, limits)"
    and t: "tag_buffer (n, st) = None" "node_id_tag n \<noteq> 0" and i: "i < length nodes" "node_prefix (nodes ! i) = Some tag"
  shows "\<exists>s'. push_frame i s = Some (Inr (), s') \<and> stands_for nodes idx keys limit num evs s' (out, (length out, tag) # ends, limits)"
proof -
  have "bb_pos (ds_dest s) = length out" using st by (simp add: stands_for_def bb_pos_def)
  then show ?thesis
    using st i buffers_stand_bare [OF _ t(1)] t(2) by (fastforce simp: push_frame_def stands_for_def frames_stand_def)
qed

lemma sub_start_stands:
  assumes st: "stands_for nodes idx keys limit num (evs @ [(n, st, [])]) s (out, (stop, tag) # ends, limits)"
    and t: "tag_buffer (n, st) = None" "node_id_tag n \<noteq> 0" and len: "stop \<le> length out" "length out - stop \<le> 4294967295"
    and fits: "length (tag @ encode_u32 (of_nat (length out - stop)) @ out) \<le> limit"
  shows "\<exists>s'. write_submessage_header nodes s = Some (Inr (), s') \<and>
    stands_for nodes idx keys limit num evs s' (tag @ encode_u32 (of_nat (length out - stop)) @ out, ends, limits)"
proof -
  let ?st = "ds_submessage_stack s"
  have fr: "frames_stand nodes ?st ((stop, tag) # ends)" using st by (simp add: stands_for_def)
  then obtain fr rest where r: "rev ?st = fr # rest" "fr_end_pos fr = stop" "fr_node_index fr < length nodes"
    "node_prefix (nodes ! fr_node_index fr) = Some tag" "list_all2 (\<lambda>fr (p, tag). fr_end_pos fr = p \<and> fr_node_index fr < length nodes \<and>
      node_prefix (nodes ! fr_node_index fr) = Some tag) rest ends"
    by (auto simp: frames_stand_def list_all2_Cons2)
  have s: "?st = rev rest @ [fr]" using r(1) by (simp add: rev_swap)
  define s1 where "s1 = s\<lparr>ds_submessage_stack := rev rest\<rparr>"
  have pos: "bb_pos (ds_dest s) = length out" using st by (simp add: stands_for_def bb_pos_def)
  let ?b = "tag @ encode_u32 (of_nat (length out - stop))"
  have d: "dest_write ?b s1 = Some (Inr (), s1\<lparr>ds_dest := \<lparr>bb_data = rev (?b @ out), bb_limit = limit\<rparr>\<rparr>)"
    by (rule dest_write_stands) (use st fits in \<open>simp_all add: stands_for_def s1_def\<close>)
  have pf: "prefix_at (sn_tag_data (nodes ! fr_node_index fr)) (sn_tag_data_size (nodes ! fr_node_index fr)) = Some tag"
    using r(4) by (simp only: node_prefix_def)
  have "pop_frame e s = Some (Inr fr, s1)" for e using s by (simp add: pop_frame_def s1_def)
  then have "write_submessage_header nodes s = Some (Inr (), s1\<lparr>ds_dest := \<lparr>bb_data = rev (?b @ out), bb_limit = limit\<rparr>\<rparr>)"
    using pf d r(2,3) len pos by (simp add: write_submessage_header_def Let_def s1_def item_at_def del: prefix_at_Some)
  then show ?thesis
    using st r(5) buffers_stand_bare [OF _ t(1)] t(2) by (fastforce simp: stands_for_def s1_def frames_stand_def)
qed

lemma frames_stand_Nil [simp]: "frames_stand nodes frames [] \<longleftrightarrow> frames = []" "frames_stand nodes [] ends \<longleftrightarrow> ends = []"
  by (auto simp: frames_stand_def)

lemma boundary_stands:
  assumes st: "stands_for nodes idx keys limit num (evs @ [(n, st, [])]) s (out, [], limits)"
    and t: "tag_buffer (n, st) = None" "parent_message_id n \<noteq> NON_PROTO" and fits: "length limits < unat num"
  shows "\<exists>s'. try_then (check_stack_empty e) (\<lambda>_. push_limit) s = Some (Inr (), s') \<and>
    stands_for nodes idx keys limit num evs s' (out, [], limits @ [length out])"
proof -
  have "ds_submessage_stack s = []" "length (ds_limits s) < unat (ds_num_records s)" "bb_pos (ds_dest s) = length out"
    using st fits by (simp_all add: stands_for_def bb_pos_def)
  then show ?thesis
    using st push_limit_stands [of s] buffers_stand_bare [OF _ t(1)] t(2)
    by (fastforce simp: stands_for_def check_stack_empty_def try_then_def)
qed

lemma whole_stands:
  assumes st: "stands_for nodes idx keys limit num (evs @ [(n, st, c)]) s (out, [], limits)"
    and n: "node_id_tag n = 0" "parent_message_id n = NON_PROTO" "tag_buffer (n, st) = Some key" "sn_buffer_index node = Some (idx key)"
    and c: "length c < 2 ^ 32" and fits: "length (c @ out) \<le> limit" "length limits < unat num"
  shows "\<exists>s'. write_nonproto_record node s = Some (Inr (), s') \<and>
    stands_for nodes idx keys limit num evs s' (c @ out, [], limits @ [length (c @ out)])"
proof -
  let ?cs = "ds_buffers s"
  have b: "buffers_stand idx keys (ds_nonproto_lengths_index s) (evs @ [(n, st, c)]) ?cs" using st by (simp add: stands_for_def)
  obtain i where i: "ds_nonproto_lengths_index s = Some i" "i < length ?cs"
    "cursor_left (?cs ! i) (encode_u64 (of_nat (length c)) @ concat (rev (whole_lengths evs)))"
    "idx key < length ?cs" "idx key \<noteq> i" "cursor_left (?cs ! idx key) (c @ concat (rev (chunks_for key evs)))"
    "buffers_stand idx keys (ds_nonproto_lengths_index s) evs
      (?cs[i := (?cs ! i)\<lparr>bc_pos := bc_pos (?cs ! i) + length (encode_u64 (of_nat (length c)))\<rparr>,
         idx key := (?cs ! idx key)\<lparr>bc_pos := bc_pos (?cs ! idx key) + length c\<rparr>])"
    using buffers_stand_whole [OF b n(1-3)] by metis
  define v :: u32 where "v = of_nat (length c)"
  have v: "unat v = length c" using c by (simp add: v_def unat_of_nat take_bit_nat_eq_self)
  have "(of_nat (length c) :: u64) = ucast v" using v c by (intro word_eq_unatI) (simp add: unat_ucast_u32 unat_of_nat_u64)
  then have enc: "encode_u64 (of_nat (length c)) = encode_u32 v" by (simp add: encode_u32_def)
  define s1 where "s1 = s\<lparr>ds_buffers := ?cs[i := (?cs ! i)\<lparr>bc_pos := bc_pos (?cs ! i) + length (encode_u32 v)\<rparr>]\<rparr>"
  define s2 where "s2 = s1\<lparr>ds_buffers := (ds_buffers s1)[idx key := (?cs ! idx key)\<lparr>bc_pos := bc_pos (?cs ! idx key) + length c\<rparr>]\<rparr>"
  have w1: "with_buffer i bc_read_varint32 s = Some (Inr v, s1)"
    using i(2) read_varint32_left [OF i(3) [unfolded enc]] by (simp add: with_buffer_def item_at_def s1_def)
  have w2: "with_buffer (idx key) (bc_read_exact (unat v)) s1 = Some (Inr c, s2)"
    using i(4,5) read_exact_left [OF i(6) v] v by (simp add: with_buffer_def item_at_def s1_def s2_def)
  define s3 where "s3 = s2\<lparr>ds_dest := \<lparr>bb_data = rev (c @ out), bb_limit = limit\<rparr>\<rparr>"
  have d: "dest_write c s2 = Some (Inr (), s3)"
    unfolding s3_def by (rule dest_write_stands) (use st fits in \<open>simp_all add: stands_for_def s1_def s2_def\<close>)
  have s3: "ds_submessage_stack s3 = []" "ds_limits s3 = limits" "ds_num_records s3 = num" "bb_pos (ds_dest s3) = length (c @ out)"
    using st by (simp_all add: stands_for_def s1_def s2_def s3_def bb_pos_def)
  have "push_limit s3 = Some (Inr (), s3\<lparr>ds_limits := limits @ [length (c @ out)]\<rparr>)"
    using push_limit_stands [of s3] fits(2) s3 by simp
  moreover have "node_buffer msg node s1 = Some (Inr (idx key), s1)" for msg
    using n(4) by (simp add: node_buffer_def surely_def of_res_def ok_or_def)
  ultimately have "write_nonproto_record node s = Some (Inr (), s3\<lparr>ds_limits := limits @ [length (c @ out)]\<rparr>)"
    using i(1) w1 w2 d s3(1) by (simp add: write_nonproto_record_def surely_def of_res_def ok_or_def check_stack_empty_def try_then_def)
  moreover have "stands_for nodes idx keys limit num evs (s3\<lparr>ds_limits := limits @ [length (c @ out)]\<rparr>) (c @ out, [], limits @ [length (c @ out)])"
    using st i(7) by (simp add: stands_for_def s3_def s2_def s1_def enc)
  ultimately show ?thesis by blast
qed

lemma execute_plain:
  assumes "sn_callback_type node = cb" "cb \<noteq> SelectCallback"
  shows "execute_node_action node i nodes s = perform cb node i nodes s"
  using assms by (simp add: execute_node_action_def resolve_callback_def)

text \<open>What an event of a field with a buffer writes.\<close>

lemma string_reads:
  assumes "c = encode_u32 v @ payload" "length payload = unat v" "cursor_left c' (c @ rest)"
  shows "read_string c' = (Inr c, c'\<lparr>bc_pos := bc_pos c' + length c\<rparr>)"
  using read_string_left [of c' v payload rest] assms by simp

lemma field_action_plays:
  assumes nd: "node_does idx (n, st) (nodes ! i)" and i: "i < length nodes" and ok: "event_ok (n, st, c)"
    and st: "stands_for nodes idx keys limit num (evs @ [(n, st, c)]) s (out, ends, limits)"
    and play: "play_deed (deed_of (n, st, c)) (out, ends, limits) = Some (out', ends', limits')"
    and fits: "length out' \<le> limit" and n: "node_id_tag n \<noteq> 0"
  shows "\<exists>s'. execute_node_action (nodes ! i) i nodes s = Some (Inr (), s') \<and> stands_for nodes idx keys limit num evs s' (out', ends', limits')"
proof -
  let ?node = "nodes ! i" and ?tag = "encode_u32 (node_id_tag n)"
  have cb: "sn_callback_type ?node = fst (action_of (n, st))" and pf: "node_prefix ?node = Some (snd (action_of (n, st)))"
    and bi: "\<And>key. tag_buffer (n, st) = Some key \<Longrightarrow> sn_buffer_index ?node = Some (idx key)"
    using nd by (auto simp: node_does_def)
  obtain w where w: "tag_wire_type (node_id_tag n) = Some w" using ok n by (auto simp: event_ok.simps is_valid_proto_tag_def split: if_splits)
  note evd = event_ok.simps tag_buffer.simps deed_of.simps action_of.simps Let_def
  have copy: "\<exists>s'. execute_node_action ?node i nodes s = Some (Inr (), s') \<and> stands_for nodes idx keys limit num evs s' (b @ out, ends, limits)"
    if "sn_callback_type ?node = CopyTag" "node_prefix ?node = Some b" "c = []" "tag_buffer (n, st) = None" "length (b @ out) \<le> limit" for b
    using execute_plain [OF that(1)] write_stands [OF st [unfolded that(3)] that(4) n that(5)] node_tag_prefix [OF that(2)]
    by (simp add: try_then_def)
  show ?thesis
  proof (cases w)
    case WVarint
    show ?thesis
    proof (cases "st < VARINT_INLINE_0")
      case True
      have len: "length c = unat st + 1" using ok n w WVarint True by (simp add: evd)
      have "unat st < 10" using True by (simp add: word_less_nat_alt subtype_defs)
      then have u: "unat (st + 1) = length c" using len by (simp add: unat_word_ariths)
      have key: "tag_buffer (n, st) = Some (Buf_Varint, n)" and act: "action_of (n, st) = (VarintField (st + 1), ?tag)"
        and out': "out' = (?tag @ restore_high_bits c) @ out" "ends' = ends" "limits' = limits"
        using play n w WVarint True by (simp_all add: evd)
      have pf': "node_prefix ?node = Some ?tag" using pf act by simp
      have rd: "bc_read_exact (unat (st + 1)) c' = (Inr c, c'\<lparr>bc_pos := bc_pos c' + length c\<rparr>)" if "cursor_left c' (c @ rest)" for c' rest
        unfolding u by (rule read_exact_left [OF that refl])
      have cb': "sn_callback_type ?node = VarintField (st + 1)" using cb act by simp
      have "length ((?tag @ restore_high_bits c) @ out) \<le> limit" using fits out' by simp
      then show ?thesis
        unfolding execute_plain [OF cb', simplified] perform.simps write_varint_field_def out'
        by (intro buffer_field_stands [where f = restore_high_bits and x = c, OF st key n bi [OF key] pf']) (erule rd, assumption)
    next
      case False
      have "c = []" "tag_buffer (n, st) = None" "action_of (n, st) = (CopyTag, ?tag @ [st - VARINT_INLINE_0])"
        "out' = (?tag @ [st - VARINT_INLINE_0]) @ out" "ends' = ends" "limits' = limits"
        using ok play n w WVarint False by (simp_all add: evd)
      then show ?thesis using copy [of "?tag @ [st - VARINT_INLINE_0]"] cb pf fits by simp
    qed
  next
    case Fixed32
    have len: "length c = 4" using ok n w Fixed32 by (simp add: evd)
    have key: "tag_buffer (n, st) = Some (Buf_Fixed32, n)" and act: "action_of (n, st) = (Fixed32Field, ?tag)"
      and out': "out' = (?tag @ c) @ out" "ends' = ends" "limits' = limits"
      using play n w Fixed32 by (simp_all add: evd)
    have pf': "node_prefix ?node = Some ?tag" using pf act by simp
    have rd: "bc_read_exact 4 c' = (Inr c, c'\<lparr>bc_pos := bc_pos c' + length c\<rparr>)" if "cursor_left c' (c @ rest)" for c' rest
      using read_exact_left [OF that refl] unfolding len .
    have cb': "sn_callback_type ?node = Fixed32Field" using cb act by simp
    have "length ((?tag @ c) @ out) \<le> limit" using fits out' by simp
    then show ?thesis
      unfolding execute_plain [OF cb', simplified] perform.simps write_fixed_field_def out'
      by (intro buffer_field_stands [where f = "\<lambda>x. x" and x = c, OF st key n bi [OF key] pf']) (erule rd, assumption)
  next
    case Fixed64
    have len: "length c = 8" using ok n w Fixed64 by (simp add: evd)
    have key: "tag_buffer (n, st) = Some (Buf_Fixed64, n)" and act: "action_of (n, st) = (Fixed64Field, ?tag)"
      and out': "out' = (?tag @ c) @ out" "ends' = ends" "limits' = limits"
      using play n w Fixed64 by (simp_all add: evd)
    have pf': "node_prefix ?node = Some ?tag" using pf act by simp
    have rd: "bc_read_exact 8 c' = (Inr c, c'\<lparr>bc_pos := bc_pos c' + length c\<rparr>)" if "cursor_left c' (c @ rest)" for c' rest
      using read_exact_left [OF that refl] unfolding len .
    have cb': "sn_callback_type ?node = Fixed64Field" using cb act by simp
    have "length ((?tag @ c) @ out) \<le> limit" using fits out' by simp
    then show ?thesis
      unfolding execute_plain [OF cb', simplified] perform.simps write_fixed_field_def out'
      by (intro buffer_field_stands [where f = "\<lambda>x. x" and x = c, OF st key n bi [OF key] pf']) (erule rd, assumption)
  next
    case StartGroup
    have "c = []" "tag_buffer (n, st) = None" "action_of (n, st) = (CopyTag, ?tag)"
      "out' = ?tag @ out" "ends' = ends" "limits' = limits"
      using ok play n w StartGroup by (simp_all add: evd)
    then show ?thesis using copy [of ?tag] cb pf fits by simp
  next
    case EndGroup
    have "c = []" "tag_buffer (n, st) = None" "action_of (n, st) = (CopyTag, ?tag)"
      "out' = ?tag @ out" "ends' = ends" "limits' = limits"
      using ok play n w EndGroup by (simp_all add: evd)
    then show ?thesis using copy [of ?tag] cb pf fits by simp
  next
    case LengthDelimited
    consider (str) "st = LENGTH_DELIMITED_STRING" | (start) "st = LENGTH_DELIMITED_START_OF_SUBMESSAGE"
      | (stop) "st = LENGTH_DELIMITED_END_OF_SUBMESSAGE"
      using ok n w LengthDelimited by (auto simp: evd split: if_splits)
    then show ?thesis
    proof cases
      case str
      obtain v payload where c: "c = encode_u32 v @ payload" "length payload = unat v" using ok n w LengthDelimited str by (auto simp: evd)
      have key: "tag_buffer (n, st) = Some (Buf_String, n)" and act: "action_of (n, st) = (StringField, ?tag)"
        and out': "out' = (?tag @ c) @ out" "ends' = ends" "limits' = limits"
        using play n w LengthDelimited str by (simp_all add: evd)
      have pf': "node_prefix ?node = Some ?tag" using pf act by simp
      have cb': "sn_callback_type ?node = StringField" using cb act by simp
      have "length ((?tag @ c) @ out) \<le> limit" using fits out' by simp
      then show ?thesis
        unfolding execute_plain [OF cb', simplified] perform.simps write_string_field_def out'
        by (intro buffer_field_stands [where f = "\<lambda>x. x" and x = c, OF st key n bi [OF key] pf']) (erule string_reads [OF c], assumption)
    next
      case start
      then have c: "c = []" and key: "tag_buffer (n, st) = None" and act: "action_of (n, st) = (SubmessageStart, [])"
        and deed: "deed_of (n, st, c) = Start_Submessage"
        using ok n w LengthDelimited by (simp_all add: evd subtype_defs)
      have cb': "sn_callback_type ?node = SubmessageStart" using cb act by simp
      obtain stop tag rest where e: "ends = (stop, tag) # rest" using play deed by (cases ends) auto
      have p: "stop \<le> length out" "length out - stop \<le> 4294967295" "out' = tag @ encode_u32 (of_nat (length out - stop)) @ out"
        "ends' = rest" "limits' = limits" using play deed e by (auto split: if_splits)
      from sub_start_stands [OF st [unfolded c e] key n p(1,2) fits [unfolded p(3)]] show ?thesis
        unfolding execute_plain [OF cb', simplified] perform.simps p .
    next
      case stop
      then have c: "c = []" and key: "tag_buffer (n, st) = None" and act: "action_of (n, st) = (SubmessageEnd, ?tag)"
        and deed: "deed_of (n, st, c) = End_Submessage ?tag"
        using ok n w LengthDelimited by (simp_all add: evd subtype_defs)
      have cb': "sn_callback_type ?node = SubmessageEnd" using cb act by simp
      have p: "out' = out" "ends' = (length out, ?tag) # ends" "limits' = limits" using play deed by auto
      have "node_prefix ?node = Some ?tag" using pf act by simp
      from sub_end_stands [OF st [unfolded c] key n i this] show ?thesis
        unfolding execute_plain [OF cb', simplified] perform.simps p .
    qed
  qed
qed

lemma action_plays:
  assumes nd: "node_does idx (n, st) (nodes ! i)" and i: "i < length nodes" and ok: "event_ok (n, st, c)"
    and st: "stands_for nodes idx keys limit num (evs @ [(n, st, c)]) s (out, ends, limits)"
    and play: "play_deed (deed_of (n, st, c)) (out, ends, limits) = Some (out', ends', limits')"
    and fits: "length out' \<le> limit" "length limits' \<le> unat num"
  shows "\<exists>s'. execute_node_action (nodes ! i) i nodes s = Some (Inr (), s') \<and> stands_for nodes idx keys limit num evs s' (out', ends', limits')"
proof (cases "node_id_tag n = 0")
  case False
  then show ?thesis using field_action_plays [OF nd i ok st play fits(1)] by blast
next
  case n: True
  let ?node = "nodes ! i"
  have cb: "sn_callback_type ?node = fst (action_of (n, st))"
    and bi: "\<And>key. tag_buffer (n, st) = Some key \<Longrightarrow> sn_buffer_index ?node = Some (idx key)"
    using nd by (auto simp: node_does_def)
  note evd = event_ok.simps tag_buffer.simps deed_of.simps action_of.simps Let_def
  show ?thesis
  proof (cases "parent_message_id n = NON_PROTO")
    case True
    have key: "tag_buffer (n, st) = Some (Buf_NonProto, n)" and c: "length c < 2 ^ 32" and cb': "sn_callback_type ?node = NonProto"
      and deed: "deed_of (n, st, c) = Whole_Record c"
      using ok n True cb by (auto simp: evd message_id_defs)
    have p: "ends = []" "out' = c @ out" "ends' = []" "limits' = limits @ [length (c @ out)]" using play deed by (auto split: if_splits)
    have f: "length (c @ out) \<le> limit" "length limits < unat num" using fits p by simp_all
    from whole_stands [OF st [unfolded p(1)] n True key bi [OF key] c f] show ?thesis
      unfolding execute_plain [OF cb', simplified] perform.simps p .
  next
    case False
    have key: "tag_buffer (n, st) = None" and c: "c = []" and cb': "sn_callback_type ?node = MessageStart"
      and deed: "deed_of (n, st, c) = Boundary"
      using ok n False cb by (auto simp: evd)
    have p: "ends = []" "out' = out" "ends' = []" "limits' = limits @ [length out]" using play deed by (auto split: if_splits)
    have f: "length limits < unat num" using fits p by simp
    from boundary_stands [OF st [unfolded p(1) c] key False f] show ?thesis
      unfolding execute_plain [OF cb', simplified] perform.simps p .
  qed
qed

section \<open>A way through the nodes\<close>

lemma path_plays:
  assumes nodes: "\<And>p. p \<in> set path \<Longrightarrow> p < length nodes \<and> (case tag_of p of None \<Rightarrow> sn_callback_type (nodes ! p) = NoOp
      | Some t \<Rightarrow> node_does idx t (nodes ! p))"
    and tags: "concat (map (\<lambda>p. list_of_option (tag_of p)) path) = map event_tag (rev evs)"
    and ok: "\<forall>ev \<in> set evs. event_ok ev" and st: "stands_for nodes idx keys limit num evs s p0"
    and play: "play_back evs p0 = Some (out', ends', limits')" and fits: "length out' \<le> limit" "length limits' \<le> unat num"
  shows "\<exists>s'. perform_all nodes path s = Some s' \<and> stands_for nodes idx keys limit num [] s' (out', ends', limits')"
  using assms
proof (induction path arbitrary: evs s p0)
  case Nil
  then show ?case by (simp add: list_of_option_def)
next
  case (Cons p path)
  have p: "p < length nodes" using Cons.prems(1) by simp
  have path: "\<And>q. q \<in> set path \<Longrightarrow> q < length nodes \<and> (case tag_of q of None \<Rightarrow> sn_callback_type (nodes ! q) = NoOp
      | Some t \<Rightarrow> node_does idx t (nodes ! q))" using Cons.prems(1) by simp
  show ?case
  proof (cases "tag_of p")
    case None
    then have "sn_callback_type (nodes ! p) = NoOp" using Cons.prems(1) [of p] by simp
    then have "execute_node_action (nodes ! p) p nodes s = Some (Inr (), s)"
      by (simp add: execute_plain surely_def ret_def)
    moreover have "concat (map (\<lambda>p. list_of_option (tag_of p)) path) = map event_tag (rev evs)"
      using Cons.prems(2) None by (simp add: list_of_option_def)
    ultimately show ?thesis using Cons.IH [OF path _ Cons.prems(3-7)] by simp
  next
    case (Some t)
    then have "t # concat (map (\<lambda>p. list_of_option (tag_of p)) path) = map event_tag (rev evs)"
      using Cons.prems(2) by (simp add: list_of_option_def)
    then obtain ev revs where r: "rev evs = ev # revs" "t = event_tag ev"
      "concat (map (\<lambda>p. list_of_option (tag_of p)) path) = map event_tag revs"
      by (cases "rev evs") auto
    define evs1 where "evs1 = rev revs"
    have evs: "evs = evs1 @ [ev]" "revs = rev evs1" using r(1) by (simp_all add: evs1_def rev_swap)
    obtain n st' c where ev: "ev = (n, st', c)" by (cases ev)
    obtain out ends limits where p0: "p0 = (out, ends, limits)" by (cases p0)
    obtain out1 ends1 limits1 where p1: "play_deed (deed_of ev) p0 = Some (out1, ends1, limits1)"
      "play_back evs1 (out1, ends1, limits1) = Some (out', ends', limits')"
      using Cons.prems(5) evs(1) by (auto simp: play_back_append bind_eq_Some_conv)
    have fits1: "length out1 \<le> limit" "length limits1 \<le> unat num"
      using play_back_grows [OF p1(2)] Cons.prems(6,7) by simp_all
    have nd: "node_does idx (n, st') (nodes ! p)" using Cons.prems(1) [of p] Some r(2) ev by simp
    have ok: "event_ok (n, st', c)" using Cons.prems(3) evs(1) ev by simp
    obtain s1 where s1: "execute_node_action (nodes ! p) p nodes s = Some (Inr (), s1)"
      "stands_for nodes idx keys limit num evs1 s1 (out1, ends1, limits1)"
      using action_plays [OF nd p ok Cons.prems(4) [unfolded evs(1) ev p0] p1(1) [unfolded ev p0] fits1] by blast
    have "concat (map (\<lambda>p. list_of_option (tag_of p)) path) = map event_tag (rev evs1)" using r(3) evs(2) by simp
    from Cons.IH [OF path this _ s1(2) p1(2) Cons.prems(6,7)] show ?thesis using Cons.prems(3) evs(1) s1(1) by simp
  qed
qed

end
