(* ===== verification/EncoderBuffers.thy ===== *)
theory EncoderBuffers
  imports EncoderEvents
begin

text \<open>
  The buffers of a chunk: what the encoder collects for the events it has logged, and where it notes
  the buffer of a node.
\<close>

section \<open>Writing a buffer backward\<close>

lemma write_chunks_concat: "write_chunks (concat cs @ rest) (length (concat cs)) (rev (map length cs)) = Some (concat (rev cs))"
proof (induction cs arbitrary: rest rule: rev_induct)
  case (snoc c cs)
  have "range_at (concat (cs @ [c]) @ rest) (length (concat cs)) (length (concat (cs @ [c]))) = Some c"
    by (simp add: range_at_def)
  with snoc.IH [of "c @ rest"] show ?case by (simp add: add.commute)
qed simp

lemma write_to_holds: "buffer_holds b cs \<Longrightarrow> write_to b = Some (concat (rev cs))"
  using write_chunks_concat [of cs "[]"] by (simp add: buffer_holds_def write_to_def)

section \<open>Collecting\<close>

text \<open>The chunks of the events for the buffer of a node; a node has one buffer.\<close>

definition buffer_type :: "NodeId \<Rightarrow> BufferType" where
  "buffer_type n =
     (if node_id_tag n = 0 then Buf_NonProto
      else case tag_wire_type (node_id_tag n) of
        Some WVarint \<Rightarrow> Buf_Varint
      | Some Fixed32 \<Rightarrow> Buf_Fixed32
      | Some Fixed64 \<Rightarrow> Buf_Fixed64
      | _ \<Rightarrow> Buf_String)"

lemma tag_buffer_type: "tag_buffer (n, st) = Some (bt, m) \<Longrightarrow> bt = buffer_type n \<and> m = n"
  by (auto simp: tag_buffer.simps buffer_type_def split: option.splits WireType.splits if_splits)

lemma chunks_for_type: "chunks_for (bt, n) evs \<noteq> [] \<Longrightarrow> bt = buffer_type n"
  unfolding chunks_for_def using tag_buffer_type by (fastforce simp: filter_empty_conv)

definition node_chunks :: "event list \<Rightarrow> NodeId \<Rightarrow> bytes list" where
  "node_chunks evs n = chunks_for (buffer_type n, n) evs"

text \<open>The buffers \<open>bs\<close> have been collected, each written backward.\<close>

definition written :: "event list \<Rightarrow> BufferWithMetadata \<Rightarrow> bytes" where
  "written evs b = concat (rev (node_chunks evs (bm_node_id b)))"

definition collected :: "event list \<Rightarrow> BufferWithMetadata list \<Rightarrow> Collected \<Rightarrow> bool" where
  "collected evs bs c \<longleftrightarrow> co_buffers c = map (written evs) bs \<and> distinct (map bm_node_id bs) \<and>
     (\<forall>i < length bs. co_pos c (bm_node_id (bs ! i)) = Some i) \<and> dom (co_pos c) = bm_node_id ` set bs"

lemma collect_buffer_step:
  assumes "collected evs bs c" "buffer_holds (bm_data b) (node_chunks evs (bm_node_id b))" "bm_node_id b \<notin> bm_node_id ` set bs"
  shows "\<exists>c'. collect_buffer b c = Some c' \<and> collected evs (bs @ [b]) c' \<and> co_groups c' = co_groups c"
proof -
  have other: "bm_node_id (bs ! i) \<noteq> bm_node_id b" if "i < length bs" for i
    using assms(3) imageI [OF nth_mem [OF that], of bm_node_id] by auto
  define c' where "c' = c\<lparr>co_pos := (co_pos c)(bm_node_id b \<mapsto> length (co_buffers c)), co_buffers := co_buffers c @ [written evs b]\<rparr>"
  have "collect_buffer b c = Some c'"
    using write_to_holds [OF assms(2)] by (simp add: collect_buffer_def c'_def written_def)
  moreover have "co_pos c' (bm_node_id ((bs @ [b]) ! i)) = Some i" if "i < length (bs @ [b])" for i
    using assms(1) other that by (cases "i = length bs") (simp_all add: collected_def c'_def nth_append)
  then have "\<forall>i < length (bs @ [b]). co_pos c' (bm_node_id ((bs @ [b]) ! i)) = Some i" by blast
  moreover have "co_buffers c' = map (written evs) (bs @ [b])" "distinct (map bm_node_id (bs @ [b]))"
    "dom (co_pos c') = bm_node_id ` set (bs @ [b])"
    using assms(1,3) by (auto simp: collected_def c'_def)
  ultimately have "collect_buffer b c = Some c'" "collected evs (bs @ [b]) c'" by (simp_all add: collected_def)
  then show ?thesis by (simp add: c'_def)
qed

lemma collect_buffers:
  assumes "collected evs bs c" "\<forall>b \<in> set bs'. buffer_holds (bm_data b) (node_chunks evs (bm_node_id b))"
    and "distinct (map bm_node_id (bs @ bs'))"
  shows "\<exists>c'. each_some collect_buffer bs' c = Some c' \<and> collected evs (bs @ bs') c' \<and> co_groups c' = co_groups c"
  using assms
proof (induction bs' arbitrary: bs c)
  case (Cons b bs')
  have "bm_node_id b \<notin> bm_node_id ` set bs" using Cons.prems(3) by auto
  then obtain c1 where c1: "collect_buffer b c = Some c1" "collected evs (bs @ [b]) c1" "co_groups c1 = co_groups c"
    using collect_buffer_step [OF Cons.prems(1)] Cons.prems(2) by force
  then show ?case using Cons.IH [OF c1(2)] Cons.prems(2,3) by simp
qed simp

definition sorted_buffers :: "TransposeChunkEncoder \<Rightarrow> BufferType \<Rightarrow> BufferWithMetadata list" where
  "sorted_buffers e bt = sort_key buffer_key (te_data e bt)"

lemma sorted_buffers_hold:
  assumes "logged e evs"
  shows "distinct (map bm_node_id (sorted_buffers e bt))"
    "\<forall>b \<in> set (sorted_buffers e bt). buffer_type (bm_node_id b) = bt \<and> node_chunks evs (bm_node_id b) \<noteq> [] \<and>
      buffer_holds (bm_data b) (node_chunks evs (bm_node_id b))"
    "\<And>n :: NodeId. buffer_type n = bt \<Longrightarrow> node_chunks evs n \<noteq> [] \<Longrightarrow> n \<in> bm_node_id ` set (sorted_buffers e bt)"
proof -
  have h: "buffers_hold (te_data e bt) (\<lambda>n. chunks_for (bt, n) evs)" using assms by (simp add: logged_def data_logged_def)
  show "distinct (map bm_node_id (sorted_buffers e bt))" using h by (simp add: buffers_hold_def sorted_buffers_def distinct_map)
  have in_bt: "chunks_for (bt, bm_node_id b) evs \<noteq> []" if "b \<in> set (te_data e bt)" for b
    using h that unfolding buffers_hold_def by auto
  then have "buffer_type (bm_node_id b) = bt" if "b \<in> set (te_data e bt)" for b using chunks_for_type that by blast
  then show "\<forall>b \<in> set (sorted_buffers e bt). buffer_type (bm_node_id b) = bt \<and> node_chunks evs (bm_node_id b) \<noteq> [] \<and>
      buffer_holds (bm_data b) (node_chunks evs (bm_node_id b))"
    using h in_bt by (simp add: sorted_buffers_def buffers_hold_def node_chunks_def)
  show "n \<in> bm_node_id ` set (sorted_buffers e bt)" if "buffer_type n = bt" "node_chunks evs n \<noteq> []" for n
    using h that by (simp add: sorted_buffers_def buffers_hold_def node_chunks_def)
qed

definition groups_ok :: "bytes list list \<Rightarrow> bytes list \<Rightarrow> bool" where
  "groups_ok groups buffers \<longleftrightarrow> concat groups = buffers \<and> (\<forall>g \<in> set groups. g \<noteq> [])"

lemma collect_type_step:
  assumes l: "logged e evs" and c: "collected evs bs c" and g: "groups_ok (co_groups c) (co_buffers c)"
    and new: "\<forall>b \<in> set bs. buffer_type (bm_node_id b) \<noteq> bt"
  shows "\<exists>c'. collect_type (te_data e) bt c = Some c' \<and> collected evs (bs @ sorted_buffers e bt) c' \<and> groups_ok (co_groups c') (co_buffers c')"
proof -
  note s = sorted_buffers_hold [OF l, where bt = bt]
  have "distinct (map bm_node_id (bs @ sorted_buffers e bt))"
    using c s(1,2) new unfolding collected_def by fastforce
  then obtain c1 where c1: "each_some collect_buffer (sorted_buffers e bt) c = Some c1" "collected evs (bs @ sorted_buffers e bt) c1"
    "co_groups c1 = co_groups c"
    using collect_buffers [OF c] s(2) by blast
  have b1: "co_buffers c1 = co_buffers c @ map (written evs) (sorted_buffers e bt)" using c1(2) c by (simp add: collected_def)
  define c2 where "c2 = (if length (co_buffers c) < length (co_buffers c1)
              then c1\<lparr>co_groups := co_groups c1 @ [drop (length (co_buffers c)) (co_buffers c1)]\<rparr> else c1)"
  have "collect_type (te_data e) bt c = Some c2"
    using c1(1) by (simp add: collect_type_def sorted_buffers_def c2_def Let_def)
  moreover have "collected evs (bs @ sorted_buffers e bt) c2" using c1(2) by (simp add: c2_def collected_def)
  moreover have "groups_ok (co_groups c2) (co_buffers c2)"
    using g c1(3) b1 by (auto simp: c2_def groups_ok_def)
  ultimately show ?thesis by blast
qed

text \<open>All buffers, in their order, and behind them the lengths of the records that are not messages.\<close>

definition all_sorted :: "TransposeChunkEncoder \<Rightarrow> BufferWithMetadata list" where
  "all_sorted e = concat (map (sorted_buffers e) ALL_BUFFER_TYPES)"

lemma collect_types:
  assumes l: "logged e evs"
  shows "distinct types \<Longrightarrow> collected evs bs c \<Longrightarrow> groups_ok (co_groups c) (co_buffers c) \<Longrightarrow>
    \<forall>b \<in> set bs. buffer_type (bm_node_id b) \<notin> set types \<Longrightarrow>
    \<exists>c'. each_some (collect_type (te_data e)) types c = Some c' \<and> collected evs (bs @ concat (map (sorted_buffers e) types)) c' \<and>
      groups_ok (co_groups c') (co_buffers c')"
proof (induction types arbitrary: bs c)
  case (Cons bt types)
  obtain c1 where c1: "collect_type (te_data e) bt c = Some c1" "collected evs (bs @ sorted_buffers e bt) c1"
    "groups_ok (co_groups c1) (co_buffers c1)"
    using collect_type_step [OF l Cons.prems(2,3)] Cons.prems(4) by force
  have "\<forall>b \<in> set (bs @ sorted_buffers e bt). buffer_type (bm_node_id b) \<notin> set types"
    using Cons.prems(1,4) sorted_buffers_hold(2) [OF l, where bt = bt] by auto
  from Cons.IH [OF _ c1(2,3) this] Cons.prems(1) c1(1) show ?case by simp
qed simp

text \<open>The sizes of the events.\<close>

definition data_size :: "event list \<Rightarrow> nat" where
  "data_size evs = (\<Sum>ev\<leftarrow>evs. length (snd (snd ev)))"

lemma node_chunks_size:
  assumes "distinct ns"
  shows "(\<Sum>n\<leftarrow>ns. length (concat (node_chunks evs n))) \<le> data_size evs"
proof (induction evs)
  case Nil
  show ?case by (simp add: node_chunks_def)
next
  case (Cons ev evs)
  define k where "k = length (snd (snd ev))"
  let ?hit = "\<lambda>n. tag_buffer (event_tag ev) = Some (buffer_type n, n)"
  have "length (concat (node_chunks (ev # evs) n)) = (if ?hit n then k else 0) + length (concat (node_chunks evs n))" for n
    by (simp add: node_chunks_def chunks_for_def k_def)
  then have "(\<Sum>n\<leftarrow>ns. length (concat (node_chunks (ev # evs) n))) =
      (\<Sum>n\<leftarrow>ns. if ?hit n then k else 0) + (\<Sum>n\<leftarrow>ns. length (concat (node_chunks evs n)))"
    by (simp add: sum_list_addf)
  moreover have "(\<Sum>n\<leftarrow>ns. if ?hit n then k else 0) \<le> k"
    using assms
  proof (induction ns)
    case (Cons n ns)
    have "(\<Sum>m\<leftarrow>ns. if ?hit m then k else 0) = 0" if "?hit n" using that Cons.prems by (auto simp: sum_list_eq_0_iff)
    then show ?case using Cons by auto
  qed simp
  ultimately show ?case using Cons.IH by (simp add: data_size_def k_def)
qed

lemma sorted_nodes:
  assumes l: "logged e evs" and d: "distinct (map bm_node_id bs)" and bs: "set bs \<subseteq> set (all_sorted e)"
  shows "length bs \<le> length evs"
proof -
  have "bm_node_id ` set bs \<subseteq> fst ` set evs"
  proof
    fix n assume "n \<in> bm_node_id ` set bs"
    then obtain b where "b \<in> set (all_sorted e)" "n = bm_node_id b" using bs by auto
    then have "node_chunks evs n \<noteq> []" using sorted_buffers_hold(2) [OF l] by (auto simp: all_sorted_def)
    then obtain ev where "ev \<in> set evs" "tag_buffer (event_tag ev) = Some (buffer_type n, n)"
      by (auto simp: node_chunks_def chunks_for_def filter_empty_conv)
    then show "n \<in> fst ` set evs" using tag_buffer_type by (metis imageI)
  qed
  then have "card (bm_node_id ` set bs) \<le> card (fst ` set evs)" by (rule card_mono [OF finite_imageI [OF finite_set]])
  moreover have "card (fst ` set evs) \<le> length evs" by (rule le_trans [OF card_image_le card_length]) simp
  moreover have "card (bm_node_id ` set bs) = length bs" using distinct_card [OF d] by simp
  ultimately show ?thesis by simp
qed

lemma whole_lengths_size: "length (concat (whole_lengths evs)) \<le> 10 * length evs"
proof (induction evs)
  case (Cons ev evs)
  have "length (encode_u64 x) \<le> 10" for x by (rule length_encode_u64_bound)
  then show ?case using Cons by (cases ev) (force simp: whole_lengths_def intro: add_mono)
qed simp

definition gathered :: "event list \<Rightarrow> Collected \<Rightarrow> bool" where
  "gathered evs c \<longleftrightarrow> groups_ok (co_groups c) (co_buffers c) \<and> (\<forall>b \<in> set (co_buffers c). b \<noteq> []) \<and>
     (\<forall>n. node_chunks evs n \<noteq> [] \<longrightarrow> (\<exists>i. co_pos c n = Some i \<and> i < length (co_buffers c) \<and>
        co_buffers c ! i = concat (rev (node_chunks evs n)) \<and> (whole_lengths evs \<noteq> [] \<longrightarrow> i < length (co_buffers c) - 1))) \<and>
     (\<forall>n m. node_chunks evs n \<noteq> [] \<longrightarrow> node_chunks evs m \<noteq> [] \<longrightarrow> co_pos c n = co_pos c m \<longrightarrow> n = m) \<and>
     (whole_lengths evs \<noteq> [] \<longrightarrow> co_buffers c \<noteq> [] \<and> last (co_buffers c) = concat (rev (whole_lengths evs))) \<and>
     length (co_buffers c) \<le> length evs + 1 \<and> length (concat (co_buffers c)) \<le> data_size evs + 10 * length evs"

lemma chunk_not_empty:
  assumes "\<forall>ev \<in> set evs. event_ok ev" "c \<in> set (chunks_for key evs)"
  shows "c \<noteq> []"
proof -
  obtain n st where ev: "(n, st, c) \<in> set evs" "tag_buffer (n, st) = Some key" using assms(2) by (auto simp: chunks_for_def)
  then have "event_ok (n, st, c)" using assms(1) by blast
  then show ?thesis using ev(2)
    by (auto simp: event_ok.simps tag_buffer.simps message_id_defs split: option.splits WireType.splits if_splits)
qed

lemma whole_length_not_empty: "b \<in> set (whole_lengths evs) \<Longrightarrow> b \<noteq> []"
  by (auto simp: whole_lengths_def)

lemma buffers_gathered:
  assumes l: "logged e evs"
  shows "\<exists>c. collect_and_sort_buffers e = Some c \<and> gathered evs c"
proof -
  let ?c0 = "\<lparr>co_buffers = [], co_pos = Map.empty, co_groups = []\<rparr> :: Collected"
  have "collected evs [] ?c0" "groups_ok (co_groups ?c0) (co_buffers ?c0)" "distinct ALL_BUFFER_TYPES"
    by (simp_all add: collected_def groups_ok_def ALL_BUFFER_TYPES_def)
  then obtain c1 where c1: "each_some (collect_type (te_data e)) ALL_BUFFER_TYPES ?c0 = Some c1" "collected evs (all_sorted e) c1"
    "groups_ok (co_groups c1) (co_buffers c1)"
    using collect_types [OF l, of ALL_BUFFER_TYPES "[]" ?c0] by (auto simp: all_sorted_def)
  have ok: "\<forall>ev \<in> set evs. event_ok ev" and nl: "buffer_holds (te_nonproto_lengths e) (whole_lengths evs)"
    using l by (simp_all add: logged_def tags_logged_def data_logged_def)
  have all_types: "bt \<in> set ALL_BUFFER_TYPES" for bt by (cases bt) (simp_all add: ALL_BUFFER_TYPES_def)
  have pos: "\<exists>i. co_pos c1 n = Some i \<and> i < length (co_buffers c1) \<and> bm_node_id (all_sorted e ! i) = n \<and>
      co_buffers c1 ! i = concat (rev (node_chunks evs n))" if n: "node_chunks evs n \<noteq> []" for n
  proof -
    obtain b where "b \<in> set (sorted_buffers e (buffer_type n))" "bm_node_id b = n"
      using sorted_buffers_hold(3) [OF l refl n] by auto
    then have "b \<in> set (all_sorted e)" using all_types by (auto simp: all_sorted_def)
    then obtain i where "i < length (all_sorted e)" "all_sorted e ! i = b" by (auto simp: in_set_conv_nth)
    then show ?thesis using c1(2) \<open>bm_node_id b = n\<close> by (auto simp: collected_def written_def)
  qed
  have inj: "n = m" if "node_chunks evs n \<noteq> []" "node_chunks evs m \<noteq> []" "co_pos c1 n = co_pos c1 m" for n m
    using pos [OF that(1)] pos [OF that(2)] that(3) by auto
  have ne: "b \<noteq> []" if b: "b \<in> set (co_buffers c1)" for b
  proof -
    obtain bm where bm: "bm \<in> set (all_sorted e)" "b = written evs bm" using b c1(2) by (auto simp: collected_def)
    then have "node_chunks evs (bm_node_id bm) \<noteq> []" using sorted_buffers_hold(2) [OF l] by (auto simp: all_sorted_def)
    then show ?thesis using bm(2) chunk_not_empty [OF ok] by (auto simp: written_def node_chunks_def)
  qed
  have count: "length (co_buffers c1) \<le> length evs"
    using sorted_nodes [OF l, of "all_sorted e"] c1(2) by (simp add: collected_def)
  have bytes: "length (concat (co_buffers c1)) \<le> data_size evs"
  proof -
    have "length (concat (rev xs)) = length (concat xs)" for xs :: "bytes list"
      by (simp add: length_concat rev_map [symmetric] sum_list_rev)
    then have "length (concat (co_buffers c1)) = (\<Sum>n\<leftarrow>map bm_node_id (all_sorted e). length (concat (node_chunks evs n)))"
      using c1(2) by (simp add: collected_def length_concat written_def [abs_def] comp_def)
    also have "\<dots> \<le> data_size evs" by (rule node_chunks_size) (use c1(2) in \<open>simp add: collected_def\<close>)
    finally show ?thesis .
  qed
  show ?thesis
  proof (cases "whole_lengths evs = []")
    case True
    then have "collect_and_sort_buffers e = Some c1" using c1(1) nl by (simp add: collect_and_sort_buffers_def buffer_holds_def)
    moreover have "length (co_buffers c1) \<le> length evs + 1" "length (concat (co_buffers c1)) \<le> data_size evs + 10 * length evs"
      using count bytes by simp_all
    then have "gathered evs c1" unfolding gathered_def using c1(3) ne pos inj True by blast
    ultimately show ?thesis by blast
  next
    case False
    let ?r = "concat (rev (whole_lengths evs))"
    define c2 where "c2 = c1\<lparr>co_buffers := co_buffers c1 @ [?r], co_groups := co_groups c1 @ [[?r]]\<rparr>"
    have r: "?r \<noteq> []" using False whole_length_not_empty [of _ evs] by (auto simp: neq_Nil_conv)
    have "cb_data (te_nonproto_lengths e) \<noteq> []" using nl r by (simp add: buffer_holds_def)
    then have "collect_and_sort_buffers e = Some c2"
      using c1(1) write_to_holds [OF nl] by (simp add: collect_and_sort_buffers_def c2_def)
    moreover have "gathered evs c2"
      unfolding gathered_def
    proof (intro conjI allI impI)
      show "groups_ok (co_groups c2) (co_buffers c2)" using c1(3) by (simp add: groups_ok_def c2_def)
      show "\<forall>b \<in> set (co_buffers c2). b \<noteq> []" using ne r by (auto simp: c2_def)
      fix n assume "node_chunks evs n \<noteq> []"
      then show "\<exists>i. co_pos c2 n = Some i \<and> i < length (co_buffers c2) \<and> co_buffers c2 ! i = concat (rev (node_chunks evs n)) \<and>
          (whole_lengths evs \<noteq> [] \<longrightarrow> i < length (co_buffers c2) - 1)"
        using pos by (fastforce simp: c2_def nth_append)
    next
      fix n m assume "node_chunks evs n \<noteq> []" "node_chunks evs m \<noteq> []" "co_pos c2 n = co_pos c2 m"
      then show "n = m" using inj by (simp add: c2_def)
    next
      have "length ?r = length (concat (whole_lengths evs))" by (simp add: length_concat rev_map [symmetric] sum_list_rev)
      then show "length (concat (co_buffers c2)) \<le> data_size evs + 10 * length evs"
        using bytes whole_lengths_size [of evs] by (simp add: c2_def)
    qed (use count in \<open>simp_all add: c2_def\<close>)
    ultimately show ?thesis by blast
  qed
qed

section \<open>The bytes of the events are bytes of the output\<close>

lemma restore_high_bits_length [simp]: "length (restore_high_bits c) = length c"
  by (simp add: restore_high_bits_def)

lemma play_deed_data:
  assumes "event_ok ev" "play_deed (deed_of ev) (out, ends, limits) = Some (out', ends', limits')"
  shows "length out + length (snd (snd ev)) \<le> length out'"
proof -
  obtain n st c where ev: "ev = (n, st, c)" by (cases ev)
  show ?thesis
    using assms unfolding ev
    by (cases ends) (auto simp: event_ok.simps deed_of.simps Let_def split: if_splits option.splits WireType.splits)
qed

lemma play_back_data:
  "\<forall>ev \<in> set evs. event_ok ev \<Longrightarrow> play_back evs (out, ends, limits) = Some (out', ends', limits') \<Longrightarrow>
     length out + data_size evs \<le> length out'"
proof (induction evs arbitrary: out' ends' limits')
  case (Cons ev evs)
  then obtain out1 ends1 limits1 where "play_back evs (out, ends, limits) = Some (out1, ends1, limits1)"
    "play_deed (deed_of ev) (out1, ends1, limits1) = Some (out', ends', limits')"
    by (auto simp: bind_eq_Some_conv)
  then show ?case using Cons.IH Cons.prems(1) play_deed_data [of ev out1 ends1 limits1] by (fastforce simp: data_size_def)
qed (simp add: data_size_def)

end
