(* ===== verification/EncoderBuckets.thy ===== *)
theory EncoderBuckets
  imports EncoderChunk TransposeBuckets
begin

text \<open>
  The buckets of a chunk: the encoder puts runs of buffers that follow each other into one bucket, and
  the decoder, which knows the sizes of the buffers and of the buckets, cuts the same runs out again.
\<close>

section \<open>The plan\<close>

abbreviation bytes_in :: "bytes list \<Rightarrow> nat" where
  "bytes_in bufs \<equiv> length (concat bufs)"

lemma plan_step:
  "0 < n \<Longrightarrow> plan_buckets b c (n + left) (n # sizes) planned =
     (if 0 < c \<and> b \<le> c + n div 2
      then (if left \<le> b div 2 then planned @ [c, n + left] else plan_buckets b n left sizes (planned @ [c]))
      else (if left \<le> b div 2 then planned @ [c + n + left] else plan_buckets b (c + n) left sizes planned))"
  by (simp add: Let_def)

lemma plan_buckets_runs:
  assumes "\<forall>n \<in> set (p @ sizes). 0 < n"
  shows "\<exists>runs. plan_buckets b (sum_list p) (sum_list sizes) sizes planned = planned @ map sum_list runs \<and>
    concat runs = p @ sizes \<and> [] \<notin> set runs"
  using assms
proof (induction sizes arbitrary: p planned)
  case Nil
  then have "0 < sum_list p \<longleftrightarrow> p \<noteq> []" by (cases p) auto
  then show ?case by (intro exI [of _ "if p = [] then [] else [p]"]) auto
next
  case (Cons n sizes)
  have n: "0 < n" using Cons.prems by simp
  define closes where "closes \<longleftrightarrow> 0 < sum_list p \<and> b \<le> sum_list p + n div 2"
  define planned1 p1 where "planned1 = (if closes then planned @ [sum_list p] else planned)" and "p1 = (if closes then [] else p) @ [n]"
  have step: "plan_buckets b (sum_list p) (sum_list (n # sizes)) (n # sizes) planned =
      (if sum_list sizes \<le> b div 2 then planned1 @ [sum_list (p1 @ sizes)]
       else plan_buckets b (sum_list p1) (sum_list sizes) sizes planned1)"
    using plan_step [OF n, of b "sum_list p" "sum_list sizes" sizes planned, folded closes_def]
    by (cases closes) (simp_all add: planned1_def p1_def add.assoc del: plan_buckets.simps)
  have p: "closes \<Longrightarrow> p \<noteq> []" by (auto simp: closes_def)
  obtain runs where runs: "plan_buckets b (sum_list p) (sum_list (n # sizes)) (n # sizes) planned = planned1 @ map sum_list runs"
    "concat runs = p1 @ sizes" "[] \<notin> set runs"
  proof (cases "sum_list sizes \<le> b div 2")
    case True
    then show ?thesis using that [of "[p1 @ sizes]"] step by (simp add: p1_def)
  next
    case False
    have "\<forall>m \<in> set (p1 @ sizes). 0 < m" using Cons.prems by (auto simp: p1_def)
    from Cons.IH [OF this] step False that show ?thesis by auto
  qed
  show ?case
    by (rule exI [of _ "(if closes then [p] else []) @ runs"]) (use runs p in \<open>auto simp: planned1_def p1_def\<close>)
qed

text \<open>The runs of sizes are the sizes of runs of buffers.\<close>

lemma runs_of_parts:
  "concat runs = map f xs \<Longrightarrow> \<exists>parts. concat parts = xs \<and> map (map f) parts = runs"
proof (induction runs arbitrary: xs)
  case (Cons r runs)
  then obtain ys zs where "xs = ys @ zs" "map f ys = r" "map f zs = concat runs"
    by (auto simp: append_eq_map_conv)
  then show ?case using Cons.IH [of zs] by (metis concat.simps(2) list.simps(9))
qed simp

lemma plan_parts:
  assumes "[] \<notin> set bufs"
  shows "\<exists>parts. plan_buckets b 0 (bytes_in bufs) (rev (map length bufs)) [] = rev (map bytes_in parts) \<and>
    concat parts = bufs \<and> [] \<notin> set parts"
proof -
  have "\<forall>n \<in> set (rev (map length bufs)). 0 < n" using assms by auto
  then obtain runs where runs: "plan_buckets b 0 (bytes_in bufs) (rev (map length bufs)) [] = map sum_list runs"
    "concat runs = rev (map length bufs)" "[] \<notin> set runs"
    using plan_buckets_runs [of "[]" "rev (map length bufs)" b "[]"] by (auto simp: length_concat sum_list_rev)
  then have "concat (rev (map rev runs)) = map length bufs" by (simp add: rev_concat [symmetric] rev_map)
  then obtain parts where parts: "concat parts = bufs" "map (map length) parts = rev (map rev runs)"
    using runs_of_parts by blast
  have "map bytes_in parts = map sum_list (map (map length) parts)" by (simp add: length_concat comp_def)
  also have "\<dots> = rev (map sum_list runs)" by (simp add: parts(2) rev_map comp_def sum_list_rev)
  finally have "plan_buckets b 0 (bytes_in bufs) (rev (map length bufs)) [] = rev (map bytes_in parts)" using runs(1) by simp
  moreover have "[] \<notin> set parts"
  proof
    assume "[] \<in> set parts"
    then have "[] \<in> set (map (map length) parts)" by force
    then show False using runs(3) by (auto simp: parts(2))
  qed
  ultimately show ?thesis using parts(1) by blast
qed

section \<open>Filling the buckets\<close>

lemma fill_more:
  "x \<noteq> [] \<Longrightarrow> 0 < n \<Longrightarrow> fill_buckets compress planned current (length x + n) (x # bufs) = fill_buckets compress planned (current @ x) n bufs"
  by (simp add: Let_def)

lemma fill_part:
  assumes "[] \<notin> set r" "r \<noteq> []"
  shows "fill_buckets compress planned (concat q) (bytes_in r) (r @ bufs) =
    bind_res (compress (concat (q @ r))) (\<lambda>b. bind_res (fill_buckets compress planned [] 0 bufs) (\<lambda>bs. Inr (b # bs)))"
  using assms
proof (induction r arbitrary: q)
  case (Cons x r)
  show ?case
  proof (cases "r = []")
    case True
    with Cons.prems show ?thesis by (simp add: Let_def)
  next
    case False
    then have pos: "0 < bytes_in r" using Cons.prems by (cases r) auto
    have x: "x \<noteq> []" using Cons.prems by auto
    have "fill_buckets compress planned (concat q) (bytes_in (x # r)) ((x # r) @ bufs) =
        fill_buckets compress planned (concat (q @ [x])) (bytes_in r) (r @ bufs)"
      using fill_more [OF x pos, of compress planned "concat q" "r @ bufs"] by (simp del: fill_buckets.simps)
    then show ?thesis using Cons.IH [of "q @ [x]"] Cons.prems False by (simp del: fill_buckets.simps)
  qed
qed simp

lemma fill_pops:
  "n \<noteq> 0 \<Longrightarrow> bufs \<noteq> [] \<Longrightarrow> fill_buckets compress (planned @ [n]) current 0 bufs = fill_buckets compress planned current n bufs"
  by (cases bufs) simp_all

lemma parts_le_buffers: "[] \<notin> set parts \<Longrightarrow> length parts \<le> length (concat parts)"
proof (induction parts)
  case (Cons p parts)
  then have "0 < length p" "length parts \<le> length (concat parts)" by auto
  then show ?case unfolding concat.simps length_append list.size by linarith
qed simp

lemma fill_parts:
  assumes "[] \<notin> set parts" "[] \<notin> set (concat parts)"
  shows "fill_buckets compress (rev (map bytes_in parts)) [] 0 (concat parts) = each_res compress (map concat parts)"
  using assms
proof (induction parts)
  case (Cons p parts)
  obtain x r where p: "p = x # r" using Cons.prems by (cases p) auto
  have pos: "0 < bytes_in p" using Cons.prems p by auto
  have "fill_buckets compress (rev (map bytes_in (p # parts))) [] 0 (concat (p # parts)) =
      fill_buckets compress (rev (map bytes_in parts)) [] (bytes_in p) (p @ concat parts)"
    using fill_pops [of "bytes_in p" "p @ concat parts" compress "rev (map bytes_in parts)" "[]"] pos p
    by (simp del: fill_buckets.simps length_concat)
  also have "\<dots> = bind_res (compress (concat p)) (\<lambda>b.
      bind_res (fill_buckets compress (rev (map bytes_in parts)) [] 0 (concat parts)) (\<lambda>bs. Inr (b # bs)))"
    using fill_part [of p compress "rev (map bytes_in parts)" "[]" "concat parts"] Cons.prems p by auto
  finally show ?case using Cons by simp
qed simp

lemma each_res_append:
  "each_res f (xs @ ys) = bind_res (each_res f xs) (\<lambda>as. bind_res (each_res f ys) (\<lambda>bs. Inr (as @ bs)))"
proof (induction xs)
  case Nil
  show ?case by (cases "each_res f ys") simp_all
next
  case (Cons x xs)
  then show ?case by (cases "f x"; cases "each_res f xs"; cases "each_res f ys") simp_all
qed

lemma group_parts:
  assumes "[] \<notin> set (concat groups)"
  shows "\<exists>parts. concat parts = concat groups \<and> [] \<notin> set parts \<and> group_buckets compress b groups = each_res compress (map concat parts)"
  using assms
proof (induction groups)
  case Nil
  show ?case by (intro exI [of _ "[]"]) simp
next
  case (Cons g groups)
  then obtain parts where parts: "concat parts = concat groups" "[] \<notin> set parts"
    "group_buckets compress b groups = each_res compress (map concat parts)" by auto
  obtain ps where ps: "plan_buckets b 0 (bytes_in g) (rev (map length g)) [] = rev (map bytes_in ps)" "concat ps = g" "[] \<notin> set ps"
    using plan_parts [of g b] Cons.prems by auto
  have "fill_buckets compress (plan_buckets b 0 (sum_list (map length g)) (rev (map length g)) []) [] 0 g = each_res compress (map concat ps)"
    using fill_parts [of ps compress] ps Cons.prems by (simp add: length_concat [symmetric])
  then show ?case using parts ps by (intro exI [of _ "ps @ parts"]) (simp add: each_res_append)
qed

section \<open>The decoder cuts the same runs\<close>

fun bucket_ids :: "nat \<Rightarrow> bytes list list \<Rightarrow> nat list" where
  "bucket_ids i [] = []"
| "bucket_ids i (p # parts) = replicate (length p) i @ bucket_ids (Suc i) parts"

lemma bucket_ids_length: "length (bucket_ids i parts) = length (concat parts)"
  by (induction i parts rule: bucket_ids.induct) auto

lemma bucket_ids_cover: "[] \<notin> set parts \<Longrightarrow> i \<le> j \<Longrightarrow> j < i + length parts \<Longrightarrow> j \<in> set (bucket_ids i parts)"
proof (induction i parts rule: bucket_ids.induct)
  case (2 i p parts)
  then show ?case by (cases "j = i") auto
qed simp

lemma advance_bucket_stays: "0 < n \<Longrightarrow> advance_bucket i n later = (i, n, later)"
  by (cases later) simp_all

lemma advance_to_next:
  assumes "[] \<notin> set (p # parts)" "[] \<notin> set (concat (p # parts))"
  shows "advance_bucket i 0 (map bytes_in (p # parts)) = (Suc i, bytes_in p, map bytes_in parts)"
proof -
  have "0 < bytes_in p" using assms by (cases p) auto
  from advance_bucket_stays [OF this, of "Suc i" "map bytes_in parts"] show ?thesis by simp
qed

lemma assign_parts:
  assumes "r \<noteq> []" "[] \<notin> set parts" "[] \<notin> set (r @ concat parts)"
  shows "assign_buffers i (bytes_in r) (map bytes_in parts) (map length (r @ concat parts)) = Inr (replicate (length r) i @ bucket_ids (Suc i) parts)"
  using assms
proof (induction "length (r @ concat parts)" arbitrary: r parts i)
  case (Suc n)
  obtain x r' where r: "r = x # r'" using Suc.prems by (cases r) auto
  show ?case
  proof (cases "r' = []")
    case r': False
    then have pos: "0 < bytes_in r'" using Suc.prems r by (cases r') auto
    have "advance_bucket i (bytes_in r') (map bytes_in parts) = (i, bytes_in r', map bytes_in parts)"
      by (rule advance_bucket_stays [OF pos])
    moreover have "assign_buffers i (bytes_in r') (map bytes_in parts) (map length (r' @ concat parts)) =
        Inr (replicate (length r') i @ bucket_ids (Suc i) parts)"
      using Suc r r' by (intro Suc.hyps(1)) auto
    ultimately show ?thesis by (simp add: r)
  next
    case r': True
    show ?thesis
    proof (cases parts)
      case Nil
      then show ?thesis by (simp add: r r')
    next
      case (Cons p parts')
      have p: "p \<noteq> []" using Suc.prems Cons by auto
      have "assign_buffers (Suc i) (bytes_in p) (map bytes_in parts') (map length (p @ concat parts')) =
          Inr (replicate (length p) (Suc i) @ bucket_ids (Suc (Suc i)) parts')"
        using Suc r r' Cons p by (intro Suc.hyps(1)) auto
      moreover have "advance_bucket i 0 (map bytes_in parts) = (Suc i, bytes_in p, map bytes_in parts')"
        unfolding Cons by (rule advance_to_next) (use Suc.prems Cons in auto)
      ultimately show ?thesis by (simp add: r r' Cons)
    qed
  qed
qed simp

lemma extract_parts:
  assumes "r \<noteq> []" "[] \<notin> set parts" "length pre = i"
    and "length offsets = length pre + 1 + length parts" "offsets ! i = bytes_in q" "\<forall>j. i < j \<longrightarrow> j < length offsets \<longrightarrow> offsets ! j = 0"
  shows "extract_buffers (pre @ Some (concat (q @ r)) # map (Some \<circ> concat) parts)
      (before @ replicate (length r) i @ bucket_ids (Suc i) parts) (replicate n True) offsets (length before) (map length (r @ concat parts)) =
    Some (Inr (map bc_new (r @ concat parts)))"
  using assms
proof (induction "length (r @ concat parts)" arbitrary: r parts pre i q offsets before)
  case (Suc k)
  have all: "(case item_at (replicate k True) j of None \<Rightarrow> True | Some b \<Rightarrow> b) = True" for k j
    by (simp add: item_at_def)
  obtain x r' where r: "r = x # r'" using Suc.prems by (cases r) auto
  let ?contents = "pre @ Some (concat (q @ r)) # map (Some \<circ> concat) parts"
  let ?btb = "before @ replicate (length r) i @ bucket_ids (Suc i) parts"
  let ?offsets = "offsets[i := bytes_in q + length x]"
  have step: "extract_buffers ?contents ?btb (replicate n True) offsets (length before) (map length (r @ concat parts)) =
      bind_try (Some (Inr (bc_new x))) (\<lambda>c. bind_try
        (extract_buffers ?contents ?btb (replicate n True) ?offsets (length before + 1) (map length (r' @ concat parts)))
        (\<lambda>cs. Some (Inr (c # cs))))"
    using Suc.prems by (simp add: r all item_at_def nth_append)
  have "extract_buffers ?contents ?btb (replicate n True) ?offsets (length before + 1) (map length (r' @ concat parts)) =
      Some (Inr (map bc_new (r' @ concat parts)))"
  proof (cases "r' = []")
    case r': False
    have "extract_buffers (pre @ Some (concat ((q @ [x]) @ r')) # map (Some \<circ> concat) parts)
      ((before @ [i]) @ replicate (length r') i @ bucket_ids (Suc i) parts) (replicate n True) ?offsets (length (before @ [i])) (map length (r' @ concat parts)) =
      Some (Inr (map bc_new (r' @ concat parts)))"
      by (rule Suc.hyps(1)) (use Suc r r' in auto)
    then show ?thesis by (simp add: r)
  next
    case r': True
    show ?thesis
    proof (cases parts)
      case Nil
      then show ?thesis by (simp add: r')
    next
      case (Cons p parts')
      have p: "p \<noteq> []" using Suc.prems Cons by auto
      have "extract_buffers ((pre @ [Some (concat (q @ r))]) @ Some (concat ([] @ p)) # map (Some \<circ> concat) parts')
        ((before @ [i]) @ replicate (length p) (Suc i) @ bucket_ids (Suc (Suc i)) parts') (replicate n True) ?offsets
        (length (before @ [i])) (map length (p @ concat parts')) =
        Some (Inr (map bc_new (p @ concat parts')))"
        by (rule Suc.hyps(1)) (use Suc r r' Cons p in auto)
      then show ?thesis by (simp add: r r' Cons)
    qed
  qed
  then show ?case unfolding step by (simp add: r)
qed simp

section \<open>Through the buckets and back\<close>

lemma compressed_size:
  assumes "compress_with_prefix C x ct opts = Inr z" "length x \<le> u64_max"
  shows "bucket_decompressed_size z ct = Inr (length x)"
  using assms by (auto simp: compress_with_prefix_def bucket_decompressed_size_def compress_data_def bind_res_eq_Inr unat_of_nat_u64)

lemma buckets_buffers:
  assumes C: "lossless C" and ne: "[] \<notin> set bufs" and fits: "bytes_in bufs < u64_max"
    and parts: "concat parts = bufs" "[] \<notin> set parts"
    and z: "each_res (\<lambda>b. compress_with_prefix C b ct opts) (map concat parts) = Inr buckets"
  shows "decompress_into_buffers_with_pruning C buckets (map length bufs) ct (replicate (length bufs) True) = Some (Inr (map bc_new bufs))"
proof (cases parts)
  case Nil
  then have "bufs = []" "buckets = []" using parts z by auto
  then show ?thesis by (simp add: decompress_into_buffers_with_pruning_def compute_buffer_to_bucket_def)
next
  case (Cons p ps)
  have zs: "list_all2 (\<lambda>part b. compress_with_prefix C (concat part) ct opts = Inr b) parts buckets"
    using z by (simp add: each_res_Inr list_all2_conv_all_nth map_equality_iff comp_def)
  have len: "length buckets = length parts" using zs by (simp add: list_all2_lengthD)
  have small: "bytes_in part < u64_max" if "part \<in> set parts" for part
  proof -
    have "bytes_in part \<le> bytes_in bufs"
      unfolding parts(1) [symmetric] using that by (induction parts) auto
    then show ?thesis using fits by simp
  qed
  have size: "bucket_decompressed_size (buckets ! j) ct = Inr (bytes_in (parts ! j))"
    and content: "bucket_contents C ct (buckets ! j) True = Inr (Some (concat (parts ! j)))" if j: "j < length parts" for j
  proof -
    have c: "compress_with_prefix C (concat (parts ! j)) ct opts = Inr (buckets ! j)" using zs j by (simp add: list_all2_conv_all_nth)
    have s: "bytes_in (parts ! j) < u64_max" using small j by simp
    show sz: "bucket_decompressed_size (buckets ! j) ct = Inr (bytes_in (parts ! j))" by (rule compressed_size [OF c]) (use s in simp)
    show "bucket_contents C ct (buckets ! j) True = Inr (Some (concat (parts ! j)))"
      using decompress_with_prefix_compress [OF C c s] sz by (simp add: bucket_contents_def)
  qed
  have bufs: "bufs = p @ concat ps" and p: "p \<noteq> []" and ps: "[] \<notin> set ps" using parts Cons by auto
  have "each_res (\<lambda>b. bucket_decompressed_size b ct) buckets = Inr (map bytes_in parts)"
    using size len by (simp add: each_res_Inr map_equality_iff)
  then have btb: "compute_buffer_to_bucket buckets (map length bufs) ct = Inr (bucket_ids 0 parts)"
    using assign_parts [OF p ps, of 0] ne len Cons unfolding compute_buffer_to_bucket_def bufs by auto
  let ?n = "length bufs"
  have "mark_buckets (length buckets) (bucket_ids 0 parts) (replicate ?n True) ! j" if "j < length buckets" for j
  proof -
    have "j \<in> set (bucket_ids 0 parts)" using bucket_ids_cover [OF parts(2), of 0 j] that len by simp
    then obtain k where "k < length bufs" "bucket_ids 0 parts ! k = j"
      using bucket_ids_length [of 0 parts] parts(1) by (metis in_set_conv_nth)
    then have "(j, True) \<in> set (zip (bucket_ids 0 parts) (replicate ?n True))"
      using bucket_ids_length [of 0 parts] parts(1) by (force simp: set_zip)
    then show ?thesis using that by (simp add: mark_buckets_nth)
  qed
  then have "mark_buckets (length buckets) (bucket_ids 0 parts) (replicate ?n True) = replicate (length parts) True"
    using len by (simp add: list_eq_iff_nth_eq mark_buckets_length)
  moreover have "each_res (\<lambda>(b, n). bucket_contents C ct b n) (zip buckets (replicate (length parts) True)) = Inr (map (Some \<circ> concat) parts)"
    using content len by (simp add: each_res_Inr map_equality_iff)
  moreover have "extract_buffers (map (Some \<circ> concat) parts) (bucket_ids 0 parts) (replicate ?n True) (replicate (length parts) 0) 0 (map length bufs) =
      Some (Inr (map bc_new bufs))"
    using extract_parts [OF p ps, of "[]" 0 "replicate (length parts) 0" "[]" "[]" ?n] by (simp add: Cons bufs)
  moreover have "map length bufs \<noteq> []" using bufs p by simp
  ultimately show ?thesis
    unfolding decompress_into_buffers_with_pruning_def by (simp add: btb len Let_def)
qed

text \<open>All together: what the encoder makes of the groups of buffers, the decoder takes apart again.\<close>

theorem compressed_buckets_buffers:
  assumes "lossless C" "[] \<notin> set (concat groups)" "bytes_in (concat groups) < u64_max"
    and "create_compressed_buckets C e groups = Inr buckets"
  shows "decompress_into_buffers_with_pruning C buckets (map length (concat groups)) (te_compression e)
      (replicate (length (concat groups)) True) = Some (Inr (map bc_new (concat groups)))"
    and "length buckets \<le> length (concat groups)"
proof -
  obtain parts where parts: "concat parts = concat groups" "[] \<notin> set parts"
    "each_res (\<lambda>b. compress_with_prefix C b (te_compression e) (te_compress_opts e)) (map concat parts) = Inr buckets"
    using group_parts [OF assms(2)] assms(4) unfolding create_compressed_buckets_def by metis
  show "decompress_into_buffers_with_pruning C buckets (map length (concat groups)) (te_compression e)
      (replicate (length (concat groups)) True) = Some (Inr (map bc_new (concat groups)))"
    by (rule buckets_buffers [OF assms(1-3) parts])
  have "length buckets = length parts" using each_res_length [OF parts(3)] by simp
  also have "length parts \<le> length (concat parts)" by (rule parts_le_buffers [OF parts(2)])
  finally show "length buckets \<le> length (concat groups)" by (simp add: parts(1))
qed

end
