(* ===== verification/EncoderLists.thy ===== *)
theory EncoderLists
  imports EncoderMachine
begin

text \<open>
  The lists of states: a list is filled back to front in blocks of 64 states.  Every entry of the heap
  gets one state, and every state outside the first block has a canonical source, a NoOp state in an
  earlier block that leads to the start of its block.
\<close>

section \<open>Blocks\<close>

text \<open>The start of the block of a position, in a list from position \<open>l\<close> on.\<close>

definition block_start :: "nat \<Rightarrow> nat \<Rightarrow> nat" where
  "block_start l p = l + (p - l) div 64 * 64"

definition leads_to_block :: "nat \<Rightarrow> StateInfo list \<Rightarrow> nat \<Rightarrow> nat \<Rightarrow> bool" where
  "leads_to_block l states c p \<longleftrightarrow>
     l \<le> c \<and> c < block_start l p \<and> si_etag_index (states ! c) = NO_POS \<and> si_base (states ! c) = block_start l p"

definition blocks_linked :: "nat \<Rightarrow> nat \<Rightarrow> StateInfo list \<Rightarrow> bool" where
  "blocks_linked l h states \<longleftrightarrow>
     (\<forall>p. l \<le> p \<longrightarrow> p < h \<longrightarrow>
        si_canonical_source (states ! p) = si_canonical_source (states ! block_start l p) \<and>
        (if p < l + 64 then si_canonical_source (states ! p) = NO_POS
         else leads_to_block l states (si_canonical_source (states ! p)) p))"

lemma block_start_bounds:
  assumes "l \<le> p"
  shows "l \<le> block_start l p" "block_start l p \<le> p" "p \<le> block_start l p + 63"
proof -
  have "(p - l) div 64 * 64 + (p - l) mod 64 = p - l" "(p - l) mod 64 < 64" by simp_all
  then show "l \<le> block_start l p" "block_start l p \<le> p" "p \<le> block_start l p + 63"
    using assms unfolding block_start_def by linarith+
qed

lemma block_start_eqI: "l + 64 * j \<le> p \<Longrightarrow> p \<le> l + 64 * j + 63 \<Longrightarrow> block_start l p = l + 64 * j"
proof -
  assume p: "l + 64 * j \<le> p" "p \<le> l + 64 * j + 63"
  then obtain r where r: "p - l = 64 * j + r" "r < 64" by (intro that [of "p - l - 64 * j"]) auto
  then have "(p - l) div 64 = j" by simp
  then show ?thesis by (simp add: block_start_def)
qed

lemma block_start_iff: "l \<le> p \<Longrightarrow> block_start l p = l + 64 * j \<longleftrightarrow> l + 64 * j \<le> p \<and> p \<le> l + 64 * j + 63"
  using block_start_bounds [of l p] block_start_eqI [of l j p] by auto

lemma block_start_first: "l \<le> p \<Longrightarrow> p < l + 64 \<Longrightarrow> block_start l p = l"
  using block_start_eqI [of l 0 p] by simp

section \<open>Updates of the states\<close>

lemma length_set_canonical [simp]: "length (set_canonical base source states) = length states"
  by (simp add: set_canonical_def)

lemma nth_set_canonical:
  "i < length states \<Longrightarrow> set_canonical base source states ! i =
     (if base \<le> i \<and> i \<le> base + 63 then (states ! i)\<lparr>si_canonical_source := source\<rparr> else states ! i)"
  by (simp add: set_canonical_def MAX_TRANSITION_def)

lemma new_state_sel [simp]:
  "si_etag_index (new_state e b) = e" "si_base (new_state e b) = b" "si_canonical_source (new_state e b) = NO_POS"
  by (simp_all add: new_state_def)

section \<open>What filling keeps\<close>

definition num_blocks :: "nat \<Rightarrow> nat" where
  "num_blocks n = (n - 1) div 64 + 1"

text \<open>
  The list begins at \<open>l\<close> and has \<open>n\<close> states; \<open>es\<close> are the entries; \<open>m\<close> blocks are done, so \<open>t\<close> blocks are
  before the current one; \<open>placed\<close> are the entries that have a state, with its position.
\<close>

definition block_shape :: "nat \<Rightarrow> nat \<Rightarrow> nat \<Rightarrow> nat \<Rightarrow> Filling \<Rightarrow> bool" where
  "block_shape l n m t f \<longleftrightarrow>
     num_blocks n = m + t + 1 \<and> length (fl_states f) = l + n \<and>
     l + 64 * t \<le> fl_prev f \<and> fl_prev f \<le> l + 64 * t + 64 \<and> fl_prev f \<le> l + n \<and>
     fl_noop_base f = map (\<lambda>i. l + 64 * (m + t - i)) [0..<m] \<and>
     length (fl_queue f) + t + l = fl_prev f"

text \<open>Every entry is in the heap or placed; beside the entries the heap has bridges to blocks that are done.\<close>

definition entries_kept :: "nat \<Rightarrow> nat list \<Rightarrow> nat \<Rightarrow> (nat \<times> nat) list \<Rightarrow> PriorityQueueEntry list \<Rightarrow> bool" where
  "entries_kept k es m placed q \<longleftrightarrow>
     distinct (map dest_index q @ map fst placed) \<and>
     set es \<subseteq> dest_index ` set q \<union> fst ` set placed \<and> fst ` set placed \<subseteq> set es \<and>
     dest_index ` set q \<subseteq> set es \<union> {k..<k + m}"

text \<open>The bridges of the blocks that are done, and the canonical sources so far.\<close>

definition bridges_kept :: "nat \<Rightarrow> nat \<Rightarrow> nat \<Rightarrow> nat \<Rightarrow> nat \<Rightarrow> Filling \<Rightarrow> bool" where
  "bridges_kept l n k m t f \<longleftrightarrow>
     (\<forall>i < m. k + i \<in> dest_index ` set (fl_queue f) \<or>
        (\<forall>p < l + n. l \<le> p \<longrightarrow> block_start l p = l + 64 * (m + t - i) \<longrightarrow> si_canonical_source (fl_states f ! p) \<noteq> NO_POS))"

definition sources_ok :: "nat \<Rightarrow> nat \<Rightarrow> nat \<Rightarrow> StateInfo list \<Rightarrow> bool" where
  "sources_ok l h from states \<longleftrightarrow>
     (\<forall>p < h. from \<le> p \<longrightarrow> si_canonical_source (states ! p) = NO_POS \<or>
        from \<le> si_canonical_source (states ! p) \<and> leads_to_block l states (si_canonical_source (states ! p)) p)"

text \<open>The states of a block that is done share their source; those of the current block have none.\<close>

definition sources_shared :: "nat \<Rightarrow> nat \<Rightarrow> nat \<Rightarrow> nat \<Rightarrow> StateInfo list \<Rightarrow> bool" where
  "sources_shared l h b from states \<longleftrightarrow>
     (\<forall>p < h. l \<le> p \<longrightarrow> b \<le> block_start l p \<longrightarrow>
        si_canonical_source (states ! p) = si_canonical_source (states ! block_start l p)) \<and>
     (\<forall>p < h. from \<le> p \<longrightarrow> p < b \<longrightarrow> si_canonical_source (states ! p) = NO_POS)"

definition placed_ok :: "nat \<Rightarrow> nat \<Rightarrow> nat \<Rightarrow> (nat \<times> nat) list \<Rightarrow> StateInfo list \<Rightarrow> bool" where
  "placed_ok l h from placed states \<longleftrightarrow>
     (\<forall>(d, p) \<in> set placed. from \<le> p \<and> p < h \<and> si_etag_index (states ! p) = d \<and> si_base (states ! p) = NO_POS) \<and>
     (\<forall>p < h. from \<le> p \<longrightarrow> (\<exists>d. (d, p) \<in> set placed) \<or>
        si_etag_index (states ! p) = NO_POS \<and> l \<le> si_base (states ! p) \<and> si_base (states ! p) < h)"

definition filling_inv ::
  "nat \<Rightarrow> nat \<Rightarrow> nat \<Rightarrow> StateInfo list \<Rightarrow> nat list \<Rightarrow> nat \<Rightarrow> nat \<Rightarrow> (nat \<times> nat) list \<Rightarrow> Filling \<Rightarrow> bool" where
  "filling_inv l n k st es m t placed f \<longleftrightarrow>
     take l (fl_states f) = st \<and> length (fl_tags f) = k \<and> block_shape l n m t f \<and>
     entries_kept k es m placed (fl_queue f) \<and> bridges_kept l n k m t f \<and>
     sources_ok l (l + n) (fl_prev f) (fl_states f) \<and>
     sources_shared l (l + n) (l + 64 * Suc t) (fl_prev f) (fl_states f) \<and>
     placed_ok l (l + n) (fl_prev f) placed (fl_states f)"

text \<open>A state that is put before the others.\<close>

lemma sources_ok_put:
  assumes "sources_ok l h (Suc q) states" "h \<le> length states" "q < h"
  shows "sources_ok l h q (states[q := new_state e b])"
  unfolding sources_ok_def
proof (intro allI impI)
  fix p
  assume p: "p < h" "q \<le> p"
  show "si_canonical_source (states[q := new_state e b] ! p) = NO_POS \<or>
    q \<le> si_canonical_source (states[q := new_state e b] ! p) \<and>
    leads_to_block l (states[q := new_state e b]) (si_canonical_source (states[q := new_state e b] ! p)) p"
  proof (cases "p = q")
    case False
    then have "Suc q \<le> p" using p by simp
    then show ?thesis using assms(1) p False by (auto simp: sources_ok_def leads_to_block_def)
  qed (use assms p in simp)
qed

lemma sources_shared_put:
  assumes "sources_shared l h b (Suc q) states" "h \<le> length states" "q < b" "q < h"
  shows "sources_shared l h b q (states[q := new_state e x])"
  unfolding sources_shared_def
proof (intro conjI allI impI)
  fix p
  assume p: "p < h" "l \<le> p" "b \<le> block_start l p"
  then have "q \<noteq> p" "q \<noteq> block_start l p" using assms(3) block_start_bounds(2) [of l p] by linarith+
  then show "si_canonical_source (states[q := new_state e x] ! p) =
      si_canonical_source (states[q := new_state e x] ! block_start l p)"
    using assms(1) p by (simp add: sources_shared_def)
next
  fix p
  assume "p < h" "q \<le> p" "p < b"
  then show "si_canonical_source (states[q := new_state e x] ! p) = NO_POS"
    using assms by (cases "p = q") (auto simp: sources_shared_def)
qed

lemma placed_ok_put:
  assumes "placed_ok l h (Suc q) placed states" "h \<le> length states" "q < h"
  shows "placed_ok l h q (placed @ [(d, q)]) (states[q := new_state d NO_POS])"
    and "l \<le> b \<Longrightarrow> b < h \<Longrightarrow> placed_ok l h q placed (states[q := new_state NO_POS b])"
  using assms by (auto simp: placed_ok_def nth_list_update Suc_le_eq split: prod.splits)

lemma set_canonical_keeps:
  assumes "i < length states"
  shows "si_etag_index (set_canonical b c states ! i) = si_etag_index (states ! i)"
    and "si_base (set_canonical b c states ! i) = si_base (states ! i)"
  using assms by (simp_all add: nth_set_canonical)

lemma take_set_canonical: "l \<le> b \<Longrightarrow> take l (set_canonical b c states) = take l states"
  by (rule nth_equalityI) (simp_all add: nth_set_canonical)

lemma sources_ok_set_canonical:
  assumes ok: "sources_ok l h from states" and h: "h \<le> length states" and l: "l \<le> from"
    and block: "\<And>p. p < h \<Longrightarrow> b \<le> p \<Longrightarrow> p \<le> b + 63 \<Longrightarrow> block_start l p = b"
    and c: "from \<le> c" "c < b" "c < length states" "si_etag_index (states ! c) = NO_POS" "si_base (states ! c) = b"
  shows "sources_ok l h from (set_canonical b c states)"
  unfolding sources_ok_def
proof (intro allI impI)
  fix p
  assume p: "p < h" "from \<le> p"
  have p': "p < length states" "l \<le> p" using p h l by auto
  show "si_canonical_source (set_canonical b c states ! p) = NO_POS \<or>
    from \<le> si_canonical_source (set_canonical b c states ! p) \<and>
    leads_to_block l (set_canonical b c states) (si_canonical_source (set_canonical b c states ! p)) p"
  proof (cases "b \<le> p \<and> p \<le> b + 63")
    case True
    then have "block_start l p = b" using block p by blast
    then show ?thesis using True p' c l by (auto simp: nth_set_canonical leads_to_block_def)
  next
    case False
    then have s: "si_canonical_source (set_canonical b c states ! p) = si_canonical_source (states ! p)"
      using p' by (auto simp: nth_set_canonical)
    show ?thesis
    proof (cases "si_canonical_source (states ! p) = NO_POS")
      case False
      then have x: "from \<le> si_canonical_source (states ! p)" "leads_to_block l states (si_canonical_source (states ! p)) p"
        using ok p by (auto simp: sources_ok_def)
      moreover have "si_canonical_source (states ! p) < length states"
        using x(2) block_start_bounds(2) [OF p'(2)] p' by (auto simp: leads_to_block_def)
      ultimately show ?thesis using s by (auto simp: leads_to_block_def set_canonical_keeps)
    qed (use s in simp)
  qed
qed

lemma sources_shared_set_canonical:
  assumes sh: "sources_shared l h b from states" and h: "h \<le> length states" and b: "b \<le> l + 64 * j"
  shows "sources_shared l h b from (set_canonical (l + 64 * j) c states)"
  unfolding sources_shared_def
proof (intro conjI allI impI)
  fix p
  assume p: "p < h" "l \<le> p" "b \<le> block_start l p"
  have s: "l \<le> block_start l p" "block_start l p \<le> p" using block_start_bounds [OF p(2)] by simp_all
  have "block_start l (block_start l p) = block_start l p"
    using block_start_eqI [of l "(p - l) div 64" "block_start l p"] by (simp add: block_start_def)
  then have "l + 64 * j \<le> p \<and> p \<le> l + 64 * j + 63 \<longleftrightarrow> l + 64 * j \<le> block_start l p \<and> block_start l p \<le> l + 64 * j + 63"
    using block_start_iff [OF p(2), of j] block_start_iff [OF s(1), of j] by simp
  then show "si_canonical_source (set_canonical (l + 64 * j) c states ! p) =
      si_canonical_source (set_canonical (l + 64 * j) c states ! block_start l p)"
    using sh p s h by (simp add: nth_set_canonical sources_shared_def)
next
  fix p
  assume "p < h" "from \<le> p" "p < b"
  then show "si_canonical_source (set_canonical (l + 64 * j) c states ! p) = NO_POS"
    using sh h b by (simp add: nth_set_canonical sources_shared_def)
qed

lemma placed_ok_set_canonical:
  "placed_ok l h from placed states \<Longrightarrow> h \<le> length states \<Longrightarrow> placed_ok l h from placed (set_canonical b c states)"
  unfolding placed_ok_def by (fastforce simp: set_canonical_keeps)

lemma remove1_images:
  "a \<in> g ` set q \<Longrightarrow> a \<noteq> g e \<Longrightarrow> a \<in> g ` set (remove1 e q)"
  by (induction q) auto

lemma entries_kept_place:
  assumes ek: "entries_kept k es m placed q" and e: "e \<in> set q" "dest_index e \<in> set es"
  shows "entries_kept k es m (placed @ [(dest_index e, p)]) (remove1 e q)"
proof -
  obtain q1 q2 where sp: "q = q1 @ e # q2" "e \<notin> set q1" using split_list_first [OF e(1)] by blast
  then have "remove1 e q = q1 @ q2" by (simp add: remove1_append)
  then show ?thesis using ek sp e(2) by (auto simp: entries_kept_def)
qed

lemma entries_kept_bridge:
  assumes ek: "entries_kept k es m placed q" and e: "e \<in> set q" "dest_index e \<notin> set es"
  shows "entries_kept k es m placed (remove1 e q)"
proof -
  obtain q1 q2 where sp: "q = q1 @ e # q2" "e \<notin> set q1" using split_list_first [OF e(1)] by blast
  then have "remove1 e q = q1 @ q2" by (simp add: remove1_append)
  then show ?thesis using ek sp e(2) by (auto simp: entries_kept_def)
qed

text \<open>What the entries of a list do beside the bridges: they put a state and note its position.\<close>

locale filled_list =
  fixes entry :: "nat \<Rightarrow> Filling \<Rightarrow> Filling option"
    and note_pos :: "nat \<Rightarrow> nat \<Rightarrow> EncodedTagInfo list \<times> (nat \<times> nat) list \<Rightarrow> EncodedTagInfo list \<times> (nat \<times> nat) list"
    and valid :: "nat \<Rightarrow> EncodedTagInfo list \<Rightarrow> bool"
  assumes plain: "valid d (fl_tags f) \<Longrightarrow> 0 < fl_prev f \<Longrightarrow> fl_prev f \<le> length (fl_states f) \<Longrightarrow>
      entry d f = Some (f\<lparr>fl_prev := fl_prev f - 1, fl_states := (fl_states f)[fl_prev f - 1 := new_state d NO_POS],
        fl_tags := fst (note_pos d (fl_prev f - 1) (fl_tags f, fl_public_noops f)),
        fl_public_noops := snd (note_pos d (fl_prev f - 1) (fl_tags f, fl_public_noops f))\<rparr>)"
    and bridge: "length (fl_tags f) \<le> d \<Longrightarrow> d < NO_POS \<Longrightarrow> entry d f = put_bridge (d - length (fl_tags f)) f"
    and note_length: "length (fst (note_pos d p x)) = length (fst x)"
    and note_valid: "valid d (fst x) \<Longrightarrow> valid d (fst (note_pos e p x))"
begin

lemma plain_step:
  assumes inv: "filling_inv l n k st es m t placed f" and prev: "l + 64 * t < fl_prev f"
    and e: "e \<in> set (fl_queue f)" and d: "dest_index e \<in> set es" and v: "valid (dest_index e) (fl_tags f)"
    and es: "\<forall>d \<in> set es. d < k \<or> NO_POS \<le> d" and small: "k + m < NO_POS"
  shows "\<exists>f'. entry (dest_index e) (f\<lparr>fl_queue := remove1 e (fl_queue f)\<rparr>) = Some f' \<and>
    filling_inv l n k st es m t (placed @ [(dest_index e, fl_prev f - 1)]) f' \<and> fl_prev f' = fl_prev f - 1 \<and>
    (fl_tags f', fl_public_noops f') = note_pos (dest_index e) (fl_prev f - 1) (fl_tags f, fl_public_noops f)"
proof -
  obtain q where q: "fl_prev f = Suc q" using prev by (cases "fl_prev f") auto
  define d where "d = dest_index e"
  define f' where "f' = f\<lparr>fl_queue := remove1 e (fl_queue f), fl_prev := q, fl_states := (fl_states f)[q := new_state d NO_POS],
        fl_tags := fst (note_pos d q (fl_tags f, fl_public_noops f)),
        fl_public_noops := snd (note_pos d q (fl_tags f, fl_public_noops f))\<rparr>"
  have sh: "block_shape l n m t f" and ek: "entries_kept k es m placed (fl_queue f)" and bk: "bridges_kept l n k m t f"
    using inv by (simp_all add: filling_inv_def)
  have qn: "q < l + n" "length (fl_states f) = l + n" "l \<le> q"
    using sh prev q by (auto simp: block_shape_def)
  have "entry d (f\<lparr>fl_queue := remove1 e (fl_queue f)\<rparr>) = Some f'"
    using plain [of d "f\<lparr>fl_queue := remove1 e (fl_queue f)\<rparr>"] v q qn by (simp add: f'_def d_def)
  moreover have "filling_inv l n k st es m t (placed @ [(d, q)]) f'"
  proof -
    have "take l (fl_states f') = st" using inv qn by (simp add: filling_inv_def f'_def)
    moreover have "length (fl_tags f') = k" using inv note_length [of d q "(fl_tags f, fl_public_noops f)"] by (simp add: filling_inv_def f'_def)
    moreover have "block_shape l n m t f'"
      using sh prev q e length_pos_if_in_set [OF e] by (auto simp: block_shape_def f'_def length_remove1)
    moreover have "entries_kept k es m (placed @ [(d, q)]) (fl_queue f')"
      using entries_kept_place [OF ek e \<open>dest_index e \<in> set es\<close>] by (simp add: f'_def d_def)
    moreover have "bridges_kept l n k m t f'"
      unfolding bridges_kept_def
    proof (intro allI impI)
      fix i
      assume i: "i < m"
      have ne: "k + i \<noteq> d" using es small i \<open>dest_index e \<in> set es\<close> unfolding d_def by fastforce
      show "k + i \<in> dest_index ` set (fl_queue f') \<or>
        (\<forall>p < l + n. l \<le> p \<longrightarrow> block_start l p = l + 64 * (m + t - i) \<longrightarrow> si_canonical_source (fl_states f' ! p) \<noteq> NO_POS)"
      proof (cases "k + i \<in> dest_index ` set (fl_queue f)")
        case True
        then show ?thesis using remove1_images [of "k + i" dest_index "fl_queue f" e] ne by (simp add: f'_def d_def)
      next
        case False
        then have c: "\<forall>p < l + n. l \<le> p \<longrightarrow> block_start l p = l + 64 * (m + t - i) \<longrightarrow> si_canonical_source (fl_states f ! p) \<noteq> NO_POS"
          using bk i by (auto simp: bridges_kept_def)
        have qp: "q \<noteq> p" if "l \<le> p" "block_start l p = l + 64 * (m + t - i)" for p
          using that i sh q block_start_bounds(2) [of l p] by (auto simp: block_shape_def)
        then have "si_canonical_source (fl_states f' ! p) \<noteq> NO_POS"
          if "p < l + n" "l \<le> p" "block_start l p = l + 64 * (m + t - i)" for p
          using c that qp [OF that(2,3)] by (simp add: f'_def)
        then show ?thesis by blast
      qed
    qed
    moreover have "sources_ok l (l + n) (fl_prev f') (fl_states f')"
      using inv q qn by (simp add: filling_inv_def f'_def sources_ok_put)
    moreover have "sources_shared l (l + n) (l + 64 * Suc t) (fl_prev f') (fl_states f')"
      using inv sh q qn by (simp add: filling_inv_def f'_def block_shape_def sources_shared_put)
    moreover have "placed_ok l (l + n) (fl_prev f') (placed @ [(d, q)]) (fl_states f')"
      using inv q qn by (simp add: filling_inv_def f'_def placed_ok_put)
    ultimately show ?thesis by (simp add: filling_inv_def)
  qed
  ultimately show ?thesis using q by (auto simp: f'_def d_def)
qed

lemma bridge_step:
  assumes inv: "filling_inv l n k st es m t placed f" and prev: "l + 64 * t < fl_prev f"
    and e: "e \<in> set (fl_queue f)" and d: "dest_index e \<notin> set es" and small: "k + m < NO_POS" "l + n \<le> NO_POS"
  shows "\<exists>f'. entry (dest_index e) (f\<lparr>fl_queue := remove1 e (fl_queue f)\<rparr>) = Some f' \<and>
    filling_inv l n k st es m t placed f' \<and> fl_prev f' = fl_prev f - 1 \<and>
    (fl_tags f', fl_public_noops f') = (fl_tags f, fl_public_noops f)"
proof -
  obtain q where q: "fl_prev f = Suc q" using prev by (cases "fl_prev f") auto
  have sh: "block_shape l n m t f" and ek: "entries_kept k es m placed (fl_queue f)" and bk: "bridges_kept l n k m t f"
    and kt: "length (fl_tags f) = k"
    using inv by (simp_all add: filling_inv_def)
  have qn: "q < l + n" "length (fl_states f) = l + n" "l \<le> q" "q < l + 64 * t + 64"
    using sh prev q by (auto simp: block_shape_def)
  obtain i where i: "i < m" "dest_index e = k + i"
  proof -
    have "dest_index e \<in> {k..<k + m}" using ek e d by (auto simp: entries_kept_def)
    then show ?thesis using that [of "dest_index e - k"] by auto
  qed
  define b where "b = l + 64 * (m + t - i)"
  have b: "fl_noop_base f ! i = b" "i < length (fl_noop_base f)" using sh i by (auto simp: block_shape_def b_def)
  have qb: "q < b" using qn i by (simp add: b_def)
  define states where "states = (fl_states f)[q := new_state NO_POS b]"
  define f' where "f' = f\<lparr>fl_queue := remove1 e (fl_queue f), fl_prev := q, fl_states := set_canonical b q states\<rparr>"
  have "entry (dest_index e) (f\<lparr>fl_queue := remove1 e (fl_queue f)\<rparr>) = Some f'"
    using bridge [of "f\<lparr>fl_queue := remove1 e (fl_queue f)\<rparr>" "dest_index e"] i b small kt qn q
    by (simp add: put_bridge_def put_state_def minus_at_def update_at_def item_at_def f'_def states_def)
  moreover have "filling_inv l n k st es m t placed f'"
  proof -
    have bn: "b < l + n"
      using sh i by (auto simp: block_shape_def b_def num_blocks_def)
    have ls: "length states = l + n" using qn by (simp add: states_def)
    have "take l (fl_states f') = st" using inv qn qb by (simp add: filling_inv_def f'_def take_set_canonical states_def)
    moreover have "length (fl_tags f') = k" using kt by (simp add: f'_def)
    moreover have "block_shape l n m t f'"
      using sh prev q e length_pos_if_in_set [OF e] by (auto simp: block_shape_def f'_def length_remove1 states_def)
    moreover have "entries_kept k es m placed (fl_queue f')"
      using entries_kept_bridge [OF ek e d] by (simp add: f'_def)
    moreover have "bridges_kept l n k m t f'"
      unfolding bridges_kept_def
    proof (intro allI impI)
      fix j
      assume j: "j < m"
      show "k + j \<in> dest_index ` set (fl_queue f') \<or>
        (\<forall>p < l + n. l \<le> p \<longrightarrow> block_start l p = l + 64 * (m + t - j) \<longrightarrow> si_canonical_source (fl_states f' ! p) \<noteq> NO_POS)"
      proof (cases "k + j \<in> dest_index ` set (fl_queue f) \<and> j \<noteq> i")
        case True
        then show ?thesis using remove1_images [of "k + j" dest_index "fl_queue f" e] i by (simp add: f'_def)
      next
        case False
        have "si_canonical_source (fl_states f' ! p) \<noteq> NO_POS"
          if p: "p < l + n" "l \<le> p" "block_start l p = l + 64 * (m + t - j)" for p
        proof (cases "b \<le> p \<and> p \<le> b + 63")
          case True
          then show ?thesis using p ls qn small by (simp add: f'_def nth_set_canonical)
        next
          case b: False
          then have "j \<noteq> i" using p block_start_iff [of l p "m + t - i"] by (auto simp: b_def)
          then have "k + j \<notin> dest_index ` set (fl_queue f)" using False by blast
          then have "si_canonical_source (fl_states f ! p) \<noteq> NO_POS" using bk j p by (auto simp: bridges_kept_def)
          moreover have "p \<noteq> q" using p j qn block_start_bounds(2) [of l p] by auto
          ultimately show ?thesis using b p ls by (auto simp: f'_def nth_set_canonical states_def)
        qed
        then show ?thesis by blast
      qed
    qed
    moreover have "sources_ok l (l + n) (fl_prev f') (fl_states f')"
    proof -
      have "sources_ok l (l + n) q states" using inv q qn by (simp add: filling_inv_def states_def sources_ok_put)
      moreover have "block_start l p = b" if "b \<le> p" "p \<le> b + 63" for p
        using block_start_eqI [of l "m + t - i" p] that by (simp add: b_def)
      ultimately have "sources_ok l (l + n) q (set_canonical b q states)"
        using ls qn qb by (intro sources_ok_set_canonical) (simp_all add: states_def)
      then show ?thesis by (simp add: f'_def)
    qed
    moreover have "sources_shared l (l + n) (l + 64 * Suc t) (fl_prev f') (fl_states f')"
    proof -
      have "sources_shared l (l + n) (l + 64 * Suc t) q states"
        using inv q qn by (simp add: filling_inv_def states_def sources_shared_put)
      then show ?thesis
        using sources_shared_set_canonical [of l "l + n" "l + 64 * Suc t" q states "m + t - i" q] i ls
        by (simp add: f'_def b_def)
    qed
    moreover have "placed_ok l (l + n) (fl_prev f') placed (fl_states f')"
    proof -
      have "placed_ok l (l + n) q placed states"
        using inv q qn bn qb by (simp add: filling_inv_def states_def placed_ok_put(2))
      then show ?thesis using ls by (simp add: f'_def placed_ok_set_canonical)
    qed
    ultimately show ?thesis by (simp add: filling_inv_def)
  qed
  ultimately show ?thesis using q by (auto simp: f'_def)
qed

text \<open>One turn of the loop over a block.\<close>

lemma block_turn:
  assumes inv: "filling_inv l n k st es m t placed f" and prev: "l + 64 * t < fl_prev f"
    and v: "\<forall>d \<in> set es. valid d (fl_tags f)" and es: "\<forall>d \<in> set es. d < k \<or> NO_POS \<le> d"
    and small: "k + m < NO_POS" "l + n \<le> NO_POS"
  shows "\<exists>e q f' new. pop_greatest (fl_queue f) = Some (e, q) \<and> entry (dest_index e) (f\<lparr>fl_queue := q\<rparr>) = Some f' \<and>
    filling_inv l n k st es m t (placed @ new) f' \<and> fl_prev f' = fl_prev f - 1 \<and>
    (\<forall>d \<in> set es. valid d (fl_tags f')) \<and>
    (fl_tags f', fl_public_noops f') = fold (\<lambda>(d, p). note_pos d p) new (fl_tags f, fl_public_noops f)"
proof -
  have "fl_queue f \<noteq> []" using inv prev by (auto simp: filling_inv_def block_shape_def)
  then obtain e q where p: "pop_greatest (fl_queue f) = Some (e, q)"
    using pop_greatest_None [of "fl_queue f"] by (cases "pop_greatest (fl_queue f)") auto
  note m = pop_greatest_Some [OF p]
  show ?thesis
  proof (cases "dest_index e \<in> set es")
    case True
    obtain f' where f': "entry (dest_index e) (f\<lparr>fl_queue := q\<rparr>) = Some f'"
      "filling_inv l n k st es m t (placed @ [(dest_index e, fl_prev f - 1)]) f'" "fl_prev f' = fl_prev f - 1"
      "(fl_tags f', fl_public_noops f') = note_pos (dest_index e) (fl_prev f - 1) (fl_tags f, fl_public_noops f)"
      using plain_step [OF inv prev m(1) True _ es small(1)] v True m(2) by auto
    have "valid d (fl_tags f')" if "d \<in> set es" for d
      using note_valid [of d "(fl_tags f, fl_public_noops f)" "dest_index e" "fl_prev f - 1"] v that f'(4) [symmetric] by simp
    then show ?thesis using p f' by (intro exI [of _ e] exI [of _ q] exI [of _ f'] exI [of _ "[(dest_index e, fl_prev f - 1)]"]) simp
  next
    case False
    obtain f' where f': "entry (dest_index e) (f\<lparr>fl_queue := q\<rparr>) = Some f'"
      "filling_inv l n k st es m t placed f'" "fl_prev f' = fl_prev f - 1"
      "(fl_tags f', fl_public_noops f') = (fl_tags f, fl_public_noops f)"
      using bridge_step [OF inv prev m(1) False small] m(2) by auto
    then show ?thesis using p v by (intro exI [of _ e] exI [of _ q] exI [of _ f'] exI [of _ "[]"]) simp
  qed
qed

lemma block_filled:
  assumes "filling_inv l n k st es m t placed f" "l + 64 * t + c = fl_prev f"
    and "\<forall>d \<in> set es. valid d (fl_tags f)" "\<forall>d \<in> set es. d < k \<or> NO_POS \<le> d"
    and "k + m < NO_POS" "l + n \<le> NO_POS"
  shows "\<exists>w' f' new. fill_block entry c w f = Some (w', f') \<and>
    filling_inv l n k st es m t (placed @ new) f' \<and> fl_prev f' = l + 64 * t \<and>
    (\<forall>d \<in> set es. valid d (fl_tags f')) \<and>
    (fl_tags f', fl_public_noops f') = fold (\<lambda>(d, p). note_pos d p) new (fl_tags f, fl_public_noops f)"
  using assms
proof (induction c arbitrary: w f placed)
  case 0
  then show ?case by (intro exI [of _ w] exI [of _ f] exI [of _ "[]"]) simp
next
  case (Suc c)
  have "l + 64 * t < fl_prev f" using Suc.prems(2) by simp
  from block_turn [OF Suc.prems(1) this Suc.prems(3-6)]
  obtain e q f1 new1 where f1: "pop_greatest (fl_queue f) = Some (e, q)" "entry (dest_index e) (f\<lparr>fl_queue := q\<rparr>) = Some f1"
    "filling_inv l n k st es m t (placed @ new1) f1" "fl_prev f1 = fl_prev f - 1" "\<forall>d \<in> set es. valid d (fl_tags f1)"
    "(fl_tags f1, fl_public_noops f1) = fold (\<lambda>(d, p). note_pos d p) new1 (fl_tags f, fl_public_noops f)" by blast
  have "l + 64 * t + c = fl_prev f1" using Suc.prems(2) f1(4) by simp
  from Suc.IH [OF f1(3) this f1(5) Suc.prems(4-6), of "w + num_transitions e"]
  obtain w' f' new where f': "fill_block entry c (w + num_transitions e) f1 = Some (w', f')"
    "filling_inv l n k st es m t ((placed @ new1) @ new) f'" "fl_prev f' = l + 64 * t" "\<forall>d \<in> set es. valid d (fl_tags f')"
    "(fl_tags f', fl_public_noops f') = fold (\<lambda>(d, p). note_pos d p) new (fl_tags f1, fl_public_noops f1)" by blast
  have "fill_block entry (Suc c) w f = Some (w', f')" using f1(1,2) f'(1) by simp
  moreover have "(fl_tags f', fl_public_noops f') = fold (\<lambda>(d, p). note_pos d p) (new1 @ new) (fl_tags f, fl_public_noops f)"
    unfolding f'(5) f1(6) by simp
  ultimately show ?case using f'(2-4) by (metis append_assoc)
qed

text \<open>The bridge to a finished block enters the heap.\<close>

lemma block_bridged:
  assumes inv: "filling_inv l n k st es m (Suc t) placed f" and prev: "fl_prev f = l + 64 * Suc t"
    and es: "\<forall>d \<in> set es. d < k \<or> NO_POS \<le> d" and small: "k + m < NO_POS"
  shows "filling_inv l n k st es (Suc m) t placed
    (f\<lparr>fl_queue := fl_queue f @ [PriorityQueueEntry (k + m) w], fl_noop_base := fl_noop_base f @ [fl_prev f]\<rparr>)"
proof -
  let ?f = "f\<lparr>fl_queue := fl_queue f @ [PriorityQueueEntry (k + m) w], fl_noop_base := fl_noop_base f @ [fl_prev f]\<rparr>"
  have sh: "block_shape l n m (Suc t) f" and ek: "entries_kept k es m placed (fl_queue f)" and bk: "bridges_kept l n k m (Suc t) f"
    using inv by (simp_all add: filling_inv_def)
  have "block_shape l n (Suc m) t ?f"
    using sh prev by (auto simp: block_shape_def)
  moreover have "entries_kept k es (Suc m) placed (fl_queue ?f)"
  proof -
    have fresh: "k + m \<notin> set es" using es small by force
    then have "k + m \<notin> dest_index ` set (fl_queue f)" "k + m \<notin> fst ` set placed"
      using ek by (auto simp: entries_kept_def)
    then show ?thesis using ek by (auto simp: entries_kept_def)
  qed
  moreover have "bridges_kept l n k (Suc m) t ?f"
    using bk unfolding bridges_kept_def by (auto simp: less_Suc_eq)
  moreover have "sources_shared l (l + n) (l + 64 * Suc t) (fl_prev ?f) (fl_states ?f)"
  proof -
    have ss: "sources_shared l (l + n) (l + 64 * Suc (Suc t)) (l + 64 * Suc t) (fl_states f)"
      using inv prev by (simp add: filling_inv_def)
    have "si_canonical_source (fl_states f ! p) = si_canonical_source (fl_states f ! block_start l p)"
      if p: "p < l + n" "l \<le> p" "l + 64 * Suc t \<le> block_start l p" for p
    proof (cases "l + 64 * Suc (Suc t) \<le> block_start l p")
      case False
      define j where "j = (p - l) div 64"
      have j: "block_start l p = l + 64 * j" by (simp add: block_start_def j_def)
      then have "j < Suc (Suc t)" using False by simp
      then have "p < l + 64 * Suc (Suc t)" using j block_start_bounds(3) [OF p(2)] by arith
      then show ?thesis using ss p block_start_bounds(2) [OF p(2)] by (auto simp: sources_shared_def)
    qed (use ss p in \<open>simp add: sources_shared_def\<close>)
    then show ?thesis using prev by (auto simp: sources_shared_def)
  qed
  ultimately show ?thesis using inv by (simp add: filling_inv_def)
qed

text \<open>The loop over the blocks.\<close>

lemma blocks_filled:
  assumes "filling_inv l n k st es m t placed f" and "fl_prev f = l + 64 * t + c"
    and "c = (if m = 0 then (n - 1) mod 64 + 1 else 64)"
    and "\<forall>d \<in> set es. valid d (fl_tags f)" "\<forall>d \<in> set es. d < k \<or> NO_POS \<le> d"
    and "k + num_blocks n \<le> NO_POS" "l + n \<le> NO_POS"
  shows "\<exists>f' new m'. iterate (fill_step entry) (c, f) = Some f' \<and> fl_queue f' = [] \<and>
    filling_inv l n k st es m' 0 (placed @ new) f' \<and> fl_prev f' = l \<and>
    (fl_tags f', fl_public_noops f') = fold (\<lambda>(d, p). note_pos d p) new (fl_tags f, fl_public_noops f)"
  using assms
proof (induction t arbitrary: m c f placed)
  case (0 m c f placed)
  have "k + m < NO_POS" using "0.prems"(1,6) by (simp add: filling_inv_def block_shape_def)
  from block_filled [OF "0.prems"(1) "0.prems"(2) [symmetric] "0.prems"(4,5) this "0.prems"(7), of 0]
  obtain w f' new where f': "fill_block entry c 0 f = Some (w, f')" "filling_inv l n k st es m 0 (placed @ new) f'"
    "fl_prev f' = l + 64 * 0"
    "(fl_tags f', fl_public_noops f') = fold (\<lambda>(d, p). note_pos d p) new (fl_tags f, fl_public_noops f)" by blast
  have q: "fl_queue f' = []" using f'(2,3) by (simp add: filling_inv_def block_shape_def)
  then have "fill_step entry (c, f) = Some (Inr f')" using f'(1) by (simp add: fill_step_def)
  then have "iterate (fill_step entry) (c, f) = Some f'" by (rule iterate_exit)
  then show ?case using q f' by auto
next
  case (Suc t m c f placed)
  have km: "k + m < NO_POS" using Suc.prems(1,6) by (simp add: filling_inv_def block_shape_def)
  from block_filled [OF Suc.prems(1) Suc.prems(2) [symmetric] Suc.prems(4,5) km Suc.prems(7), of 0]
  obtain w f1 new1 where f1: "fill_block entry c 0 f = Some (w, f1)" "filling_inv l n k st es m (Suc t) (placed @ new1) f1"
    "fl_prev f1 = l + 64 * Suc t" "\<forall>d \<in> set es. valid d (fl_tags f1)"
    "(fl_tags f1, fl_public_noops f1) = fold (\<lambda>(d, p). note_pos d p) new1 (fl_tags f, fl_public_noops f)" by blast
  let ?f2 = "f1\<lparr>fl_queue := fl_queue f1 @ [PriorityQueueEntry (k + m) w], fl_noop_base := fl_noop_base f1 @ [fl_prev f1]\<rparr>"
  have q: "fl_queue f1 \<noteq> []" using f1(2,3) by (auto simp: filling_inv_def block_shape_def)
  have len: "length (fl_tags f1) = k" "length (fl_noop_base f1) = m" using f1(2) by (simp_all add: filling_inv_def block_shape_def)
  have step: "fill_step entry (c, f) = Some (Inl (64, ?f2))"
    using f1(1) q len by (simp add: fill_step_def MAX_TRANSITION_def)
  have inv2: "filling_inv l n k st es (Suc m) t (placed @ new1) ?f2" by (rule block_bridged [OF f1(2,3) Suc.prems(5) km])
  have "fl_prev ?f2 = l + 64 * t + 64" "64 = (if Suc m = 0 then (n - 1) mod 64 + 1 else 64)" "\<forall>d \<in> set es. valid d (fl_tags ?f2)"
    using f1(3,4) by simp_all
  from Suc.IH [OF inv2 this Suc.prems(5-7)]
  obtain f' new m' where f': "iterate (fill_step entry) (64, ?f2) = Some f'" "fl_queue f' = []"
    "filling_inv l n k st es m' 0 ((placed @ new1) @ new) f'" "fl_prev f' = l"
    "(fl_tags f', fl_public_noops f') = fold (\<lambda>(d, p). note_pos d p) new (fl_tags f1, fl_public_noops f1)" by auto
  have "(fl_tags f', fl_public_noops f') = fold (\<lambda>(d, p). note_pos d p) (new1 @ new) (fl_tags f, fl_public_noops f)"
    unfolding f'(5) f1(5) by simp
  moreover have "iterate (fill_step entry) (c, f) = Some f'" using f'(1) step by (simp add: iterate_continue)
  ultimately show ?case using f'(2-4) by (metis append_assoc)
qed

end

text \<open>The number of states is right: one for each entry and one for each block but the first.\<close>

lemma noop_nodes_blocks:
  assumes "0 < n"
  shows "num_blocks (n + noop_nodes n) = noop_nodes n + 1"
proof (cases "n \<le> 64")
  case True
  then show ?thesis using assms by (simp add: num_blocks_def noop_nodes_def MAX_TRANSITION_def)
next
  case False
  define q r where "q = (n - 2) div 63" and "r = (n - 2) mod 63"
  have "n - 2 = 63 * q + r" "r < 63" by (simp_all add: q_def r_def)
  then have "n + q - 1 = 64 * q + (r + 1)" "r + 1 < 64" using False by auto
  then have "(n + q - 1) div 64 = q" by simp
  then show ?thesis using False by (simp add: num_blocks_def noop_nodes_def MAX_TRANSITION_def q_def)
qed

text \<open>The list that \<open>fill_list\<close> appends.\<close>

definition list_built :: "nat \<Rightarrow> nat \<Rightarrow> (nat \<times> nat) list \<Rightarrow> StateInfo list \<Rightarrow> bool" where
  "list_built l h placed states \<longleftrightarrow> h \<le> length states \<and> blocks_linked l h states \<and> placed_ok l h l placed states"

lemma filled_blocks_linked:
  assumes inv: "filling_inv l n k st es m 0 placed f" and done_: "fl_queue f = []" "fl_prev f = l"
  shows "blocks_linked l (l + n) (fl_states f)"
  unfolding blocks_linked_def
proof (intro allI impI)
  fix p
  assume p: "l \<le> p" "p < l + n"
  have sh: "block_shape l n m 0 f" and bk: "bridges_kept l n k m 0 f" and so: "sources_ok l (l + n) l (fl_states f)"
    using inv done_ by (simp_all add: filling_inv_def)
  have c: "si_canonical_source (fl_states f ! p) = NO_POS \<or>
      leads_to_block l (fl_states f) (si_canonical_source (fl_states f ! p)) p"
    using so p by (auto simp: sources_ok_def)
  have ss: "sources_shared l (l + n) (l + 64) l (fl_states f)" using inv done_ by (simp add: filling_inv_def)
  show "si_canonical_source (fl_states f ! p) = si_canonical_source (fl_states f ! block_start l p) \<and>
      (if p < l + 64 then si_canonical_source (fl_states f ! p) = NO_POS
      else leads_to_block l (fl_states f) (si_canonical_source (fl_states f ! p)) p)"
  proof (cases "p < l + 64")
    case True
    then show ?thesis using ss block_start_first [of l p] p by (auto simp: sources_shared_def)
  next
    case False
    define j where "j = (p - l) div 64"
    have "num_blocks n = m + 1" using sh by (simp add: block_shape_def)
    then have "j \<le> m" using p by (simp add: j_def num_blocks_def div_le_mono)
    moreover have "1 \<le> j" using False by (simp add: j_def)
    ultimately have "m - j < m" "block_start l p = l + 64 * (m + 0 - (m - j))" by (simp_all add: block_start_def j_def)
    then have "si_canonical_source (fl_states f ! p) \<noteq> NO_POS" using bk done_(1) p by (auto simp: bridges_kept_def)
    moreover have "l + 64 \<le> block_start l p" using \<open>1 \<le> j\<close> by (simp add: block_start_def j_def)
    ultimately show ?thesis using c False ss p by (simp add: sources_shared_def)
  qed
qed

context filled_list
begin

lemma fill_list_builds:
  assumes q: "fl_queue f \<noteq> []" "distinct (map dest_index (fl_queue f))"
    and v: "\<forall>e \<in> set (fl_queue f). valid (dest_index e) (fl_tags f) \<and> (dest_index e < length (fl_tags f) \<or> NO_POS \<le> dest_index e)"
    and n: "n = length (fl_queue f) + noop_nodes (length (fl_queue f))" "l = length (fl_states f)"
    and small: "length (fl_tags f) + n \<le> NO_POS" "l + n \<le> NO_POS"
  shows "\<exists>f' placed. fill_list entry f = Some f' \<and> length (fl_states f') = l + n \<and> take l (fl_states f') = fl_states f \<and>
    list_built l (l + n) placed (fl_states f') \<and>
    distinct (map fst placed) \<and> fst ` set placed = dest_index ` set (fl_queue f) \<and>
    (fl_tags f', fl_public_noops f') = fold (\<lambda>(d, p). note_pos d p) placed (fl_tags f, fl_public_noops f)"
proof -
  let ?k = "length (fl_tags f)" and ?es = "map dest_index (fl_queue f)"
  let ?f = "f\<lparr>fl_prev := l + n, fl_states := fl_states f @ replicate n (new_state NO_POS NO_POS), fl_noop_base := []\<rparr>"
  define t where "t = noop_nodes (length (fl_queue f))"
  have pos: "0 < length (fl_queue f)" using q(1) by simp
  have nb: "num_blocks n = t + 1" using noop_nodes_blocks [OF pos] n by (simp add: t_def)
  then have "(n - 1) div 64 = t" by (simp add: num_blocks_def)
  moreover have "(n - 1) div 64 * 64 + (n - 1) mod 64 = n - 1" by simp
  ultimately have nt: "n = 64 * t + ((n - 1) mod 64 + 1)" using pos n(1) by linarith
  have "(n - 1) mod 64 < 64" by simp
  then have "block_shape l n 0 t ?f" using nb nt n by (simp add: block_shape_def t_def)
  moreover have "entries_kept ?k ?es 0 [] (fl_queue ?f)" using q(2) by (auto simp: entries_kept_def)
  moreover have none: "si_canonical_source (fl_states ?f ! p) = NO_POS" if "l \<le> p" "p < l + n" for p
    using that n(2) by (simp add: nth_append)
  have "sources_shared l (l + n) (l + 64 * Suc t) (l + n) (fl_states ?f)"
    unfolding sources_shared_def
  proof (intro conjI allI impI)
    fix p
    assume p: "p < l + n" "l \<le> p" "l + 64 * Suc t \<le> block_start l p"
    show "si_canonical_source (fl_states ?f ! p) = si_canonical_source (fl_states ?f ! block_start l p)"
      using none [OF p(2,1)] none [of "block_start l p"] block_start_bounds [OF p(2)] p(1) by simp
  qed simp
  ultimately have inv: "filling_inv l n ?k (fl_states f) ?es 0 t [] ?f"
    using n(2) by (simp add: filling_inv_def bridges_kept_def sources_ok_def placed_ok_def)
  have prev: "fl_prev ?f = l + 64 * t + ((n - 1) mod 64 + 1)" using nt by simp
  have cs: "(n - 1) mod 64 + 1 = (if (0::nat) = 0 then (n - 1) mod 64 + 1 else 64)" by simp
  have v': "\<forall>d \<in> set ?es. valid d (fl_tags ?f)" "\<forall>d \<in> set ?es. d < ?k \<or> NO_POS \<le> d" using v by auto
  have "?k + num_blocks n \<le> NO_POS" using small(1) n(1) pos unfolding nb t_def by linarith
  from blocks_filled [OF inv prev cs v' this small(2)]
  obtain f' new m' where f': "iterate (fill_step entry) ((n - 1) mod 64 + 1, ?f) = Some f'" "fl_queue f' = []"
    "filling_inv l n ?k (fl_states f) ?es m' 0 new f'" "fl_prev f' = l"
    "(fl_tags f', fl_public_noops f') = fold (\<lambda>(d, p). note_pos d p) new (fl_tags f, fl_public_noops f)" by auto
  have "fill_list entry f = Some f'"
    using f'(1) n by (simp add: fill_list_def Let_def MAX_TRANSITION_def)
  moreover have "length (fl_states f') = l + n" "take l (fl_states f') = fl_states f"
    using f'(3) by (simp_all add: filling_inv_def block_shape_def)
  moreover have "list_built l (l + n) new (fl_states f')"
    using f'(3,4) filled_blocks_linked [OF f'(3,2,4)] by (simp add: list_built_def filling_inv_def block_shape_def)
  moreover have "distinct (map fst new)" "fst ` set new = dest_index ` set (fl_queue f)"
    using f'(2,3) by (auto simp: filling_inv_def entries_kept_def)
  ultimately show ?thesis using f'(5) by blast
qed

end

end
