(* ===== verification/EncoderRoutes.thy ===== *)
theory EncoderRoutes
  imports EncoderLists
begin

text \<open>
  Ways through a list of states: how the offsets that the encoder collects lead from a base to a state,
  and how the base of a tag is chosen so that all its destinations in the public list can be reached.
\<close>

section \<open>Canonical sources\<close>

text \<open>From a state to the bridge of its block, and on from there.\<close>

inductive climbs :: "StateInfo list \<Rightarrow> nat \<Rightarrow> nat \<Rightarrow> nat \<Rightarrow> bool" for states l where
  here: "climbs states l p p"
| up: "l + 64 \<le> p \<Longrightarrow> climbs states l (si_canonical_source (states ! p)) r \<Longrightarrow> climbs states l p r"

lemma climbs_further: "climbs states l p r \<Longrightarrow> l + 64 \<le> r \<Longrightarrow> climbs states l p (si_canonical_source (states ! r))"
  by (induction rule: climbs.induct) (auto intro: climbs.intros)

lemma linked_source:
  assumes "blocks_linked l h states" "l + 64 \<le> p" "p < h"
  shows "leads_to_block l states (si_canonical_source (states ! p)) p"
  using assms unfolding blocks_linked_def by (metis add_leD1 leD)

lemma linked_first: "blocks_linked l h states \<Longrightarrow> l \<le> p \<Longrightarrow> p < h \<Longrightarrow> p < l + 64 \<Longrightarrow> si_canonical_source (states ! p) = NO_POS"
  unfolding blocks_linked_def by metis

lemma linked_shared:
  "blocks_linked l h states \<Longrightarrow> l \<le> p \<Longrightarrow> p < h \<Longrightarrow>
    si_canonical_source (states ! p) = si_canonical_source (states ! block_start l p)"
  unfolding blocks_linked_def by metis

lemma source_bounds:
  assumes "blocks_linked l h states" "l + 64 \<le> p" "p < h"
  shows "l \<le> si_canonical_source (states ! p)" "si_canonical_source (states ! p) < p" "si_canonical_source (states ! p) < h"
  using linked_source [OF assms] block_start_bounds [of l p] assms by (auto simp: leads_to_block_def)

lemma climbs_bounds:
  assumes "climbs states l p r" "blocks_linked l h states" "l \<le> p" "p < h"
  shows "l \<le> r \<and> r \<le> p"
  using assms
proof (induction rule: climbs.induct)
  case (up p r)
  then show ?case using source_bounds [of l h states p] by fastforce
qed simp

section \<open>Ways\<close>

text \<open>
  The offsets lead from base \<open>b\<close> over the NoOp states \<open>qs\<close> to the state \<open>p\<close>.
\<close>

fun leads :: "StateInfo list \<Rightarrow> nat \<Rightarrow> nat list \<Rightarrow> nat list \<Rightarrow> nat \<Rightarrow> bool" where
  "leads states b [k] [] p = (p = b + k \<and> k \<le> 63)"
| "leads states b (k # ks) (q # qs) p =
     (q = b + k \<and> k \<le> 63 \<and> q < length states \<and> si_etag_index (states ! q) = NO_POS \<and>
      leads states (si_base (states ! q)) ks qs p)"
| "leads states b _ _ p = False"

lemma leads_snoc:
  assumes "leads states b ks qs q" "q < length states" "si_etag_index (states ! q) = NO_POS"
    and "p = si_base (states ! q) + k" "k \<le> 63"
  shows "leads states b (ks @ [k]) (qs @ [q]) p"
  using assms
  by (induction states b ks qs q rule: leads.induct) auto

lemma leads_append:
  assumes "leads states b ks qs q" "q < length states" "si_etag_index (states ! q) = NO_POS"
    and "leads states (si_base (states ! q)) ks' qs' p"
  shows "leads states b (ks @ ks') (qs @ q # qs') p"
  using assms
  by (induction states b ks qs q rule: leads.induct) auto

lemma hop_exits: "b \<le> p \<Longrightarrow> p \<le> b + 63 \<Longrightarrow> hop_step checked states b (p, buf) = Some (Inr (p, buf))"
  unfolding hop_step_def MAX_TRANSITION_def by (subst prod.case, subst if_not_P) auto

lemma hop_loop:
  assumes "climbs states l target r" and linked: "blocks_linked l h states" and h: "h \<le> length states" "h \<le> NO_POS"
    and "l \<le> target" "target < h" and b: "b \<le> r" "r \<le> b + 63" "b < NO_POS"
  shows "\<exists>t bs. iterate (hop_step checked states b) (target, buf) = Some (t, buf @ bs) \<and> b \<le> t \<and> t \<le> b + 63 \<and>
    (\<forall>x \<in> set bs. x \<le> (63 :: u8)) \<and> length bs \<le> target \<and> (\<exists>qs. leads states b ((t - b) # map unat (rev bs)) qs target)"
  using assms(1,5,6,7,8)
proof (induction arbitrary: buf rule: climbs.induct)
  case (here p)
  then have "hop_step checked states b (p, buf) = Some (Inr (p, buf))" by (simp add: hop_exits)
  then have "iterate (hop_step checked states b) (p, buf) = Some (p, buf)" by (rule iterate_exit)
  moreover have "\<exists>qs. leads states b [p - b] qs p" using here by (intro exI [of _ "[]"]) simp
  ultimately show ?case using here by (intro exI [of _ p] exI [of _ "[]"]) auto
next
  case (up p r)
  let ?c = "si_canonical_source (states ! p)"
  have pr: "r \<le> p" using climbs_bounds [OF climbs.up [OF up.hyps] linked up.prems(1,2)] by simp
  show ?case
  proof (cases "p \<le> b + 63")
    case True
    then have "hop_step checked states b (p, buf) = Some (Inr (p, buf))"
      using pr up.prems by (simp add: hop_exits)
    then have "iterate (hop_step checked states b) (p, buf) = Some (p, buf)" by (rule iterate_exit)
    moreover have "\<exists>qs. leads states b [p - b] qs p" using True pr up.prems by (intro exI [of _ "[]"]) simp
    ultimately show ?thesis using True pr up.prems by (intro exI [of _ p] exI [of _ "[]"]) auto
  next
    case False
    have c: "l \<le> ?c" "?c < p" "?c < h" using source_bounds [OF linked up.hyps(1) up.prems(2)] by auto
    have lb: "leads_to_block l states ?c p" by (rule linked_source [OF linked up.hyps(1) up.prems(2)])
    define k where "k = p - block_start l p"
    have k: "k \<le> 63" "p = block_start l p + k" using block_start_bounds [OF up.prems(1)] by (simp_all add: k_def)
    have byte: "unat (of_nat k :: u8) = k" using k by (simp add: unat_of_nat)
    have step: "hop_step checked states b (p, buf) = Some (Inl (?c, buf @ [of_nat k]))"
      using False c h lb up.prems(2) block_start_bounds [OF up.prems(1)] b(3)
      by (simp add: hop_step_def MAX_TRANSITION_def Let_def item_at_def offset_byte_def minus_at_def leads_to_block_def k_def)
    obtain t bs qs where IH: "iterate (hop_step checked states b) (?c, buf @ [of_nat k]) = Some (t, (buf @ [of_nat k]) @ bs)"
      "b \<le> t" "t \<le> b + 63" "\<forall>x \<in> set bs. x \<le> (63 :: u8)" "leads states b ((t - b) # map unat (rev bs)) qs ?c" "length bs \<le> ?c"
      using up.IH [OF c(1,3) up.prems(3,4), of "buf @ [of_nat k]"] by blast
    have "leads states b (((t - b) # map unat (rev bs)) @ [k]) (qs @ [?c]) p"
      by (rule leads_snoc [OF IH(5)]) (use c h lb k(1) k(2) [symmetric] in \<open>auto simp: leads_to_block_def\<close>)
    moreover have "(of_nat k :: u8) \<le> 63" using k byte by (simp add: word_le_nat_alt)
    ultimately show ?thesis using IH step byte c(2)
      by (intro exI [of _ t] exI [of _ "of_nat k # bs"]) (auto simp: iterate_continue)
  qed
qed

lemma hops_lead:
  assumes "climbs states l p r" "blocks_linked l h states" "h \<le> length states" "h \<le> NO_POS"
    and "l \<le> p" "p < h" "b \<le> r" "r \<le> b + 63" "b < NO_POS"
  shows "\<exists>bs qs. hops checked states b p = Some bs \<and> (\<forall>x \<in> set bs. x \<le> 63) \<and> length bs \<le> Suc p \<and>
    leads states b (map unat bs) qs p"
proof -
  obtain t bs qs where t: "iterate (hop_step checked states b) (p, []) = Some (t, [] @ bs)" "b \<le> t" "t \<le> b + 63"
    "\<forall>x \<in> set bs. x \<le> (63 :: u8)" "leads states b ((t - b) # map unat (rev bs)) qs p" "length bs \<le> p"
    using hop_loop [OF assms, where buf = "[]"] by blast
  define byte where "byte = (of_nat (t - b) :: u8)"
  have "t - b < 256" using t by simp
  then have u: "unat byte = t - b" by (simp add: byte_def unat_of_nat del: of_nat_diff)
  then have "byte \<le> 63" using t by (simp add: word_le_nat_alt)
  moreover have "hops checked states b p = Some (byte # rev bs)"
    using t(1,2) by (simp add: hops_def offset_byte_def minus_at_def byte_def)
  ultimately show ?thesis using t u by (intro exI [of _ "byte # rev bs"] exI [of _ qs]) simp
qed

section \<open>The base of a tag\<close>

text \<open>
  \<open>mp\<close> is the least position in the block \<open>base\<close> that stands for one of the destinations \<open>ps\<close>.
\<close>

definition base_covers :: "StateInfo list \<Rightarrow> nat \<Rightarrow> nat \<Rightarrow> nat set \<Rightarrow> nat \<Rightarrow> nat \<Rightarrow> bool" where
  "base_covers states l h ps base mp \<longleftrightarrow>
     (if ps = {} then base = NO_POS \<and> mp = NO_POS
      else l \<le> mp \<and> mp < h \<and> base = block_start l mp \<and>
        (\<forall>p \<in> ps. l \<le> p \<and> p < h) \<and> (\<forall>p \<in> ps. \<exists>r. climbs states l p r \<and> mp \<le> r \<and> block_start l r = base))"

lemma base_covers_reach:
  assumes "base_covers states l h ps base mp" "p \<in> ps" "blocks_linked l h states"
  shows "l \<le> mp \<and> mp < h \<and> (\<exists>r. climbs states l p r \<and> mp \<le> r \<and> r \<le> mp + 63)"
proof -
  have ne: "ps \<noteq> {}" using assms(2) by blast
  then obtain r where r: "climbs states l p r" "mp \<le> r" "block_start l r = base" and mp: "l \<le> mp" "mp < h" "base = block_start l mp"
    using assms(1,2) by (auto simp: base_covers_def)
  have "r \<le> block_start l r + 63" "block_start l mp \<le> mp"
    using block_start_bounds [of l r] block_start_bounds [of l mp] r mp by auto
  then have "r \<le> mp + 63" using r mp by simp
  then show ?thesis using r mp by blast
qed

text \<open>The variables of the inner loop, for a new destination \<open>p\<close>.\<close>

definition approaching :: "StateInfo list \<Rightarrow> nat \<Rightarrow> nat \<Rightarrow> nat set \<Rightarrow> nat \<Rightarrow> nat \<times> nat \<times> nat \<Rightarrow> bool" where
  "approaching states l h ps p = (\<lambda>(base, pos, mp).
     l \<le> pos \<and> pos < h \<and> climbs states l p pos \<and>
     (if ps = {} then pos = p \<and> mp = NO_POS \<and> (base = NO_POS \<or> base = block_start l p) else base_covers states l h ps base mp))"

lemma approach_first:
  assumes linked: "blocks_linked l h states" and h: "h \<le> length states" "h \<le> NO_POS" and p: "l \<le> p" "p < h"
  shows "iterate (approach_step states l) (NO_POS, p, NO_POS) = Some (block_start l p, p, NO_POS)"
proof -
  let ?c = "si_canonical_source (states ! p)"
  have "approach_step states l (NO_POS, p, NO_POS) = Some (Inl (block_start l p, p, NO_POS))"
  proof (cases "p < l + 64")
    case True
    then show ?thesis using linked_first [OF linked p True] block_start_first [OF p(1) True] p h
      by (simp add: approach_step_def item_at_def)
  next
    case False
    then have lp: "l + 64 \<le> p" by simp
    show ?thesis using linked_source [OF linked lp p(2)] source_bounds [OF linked lp p(2)] p h
      by (simp add: approach_step_def item_at_def leads_to_block_def)
  qed
  moreover have "approach_step states l (block_start l p, p, NO_POS) = Some (Inr (block_start l p, p, NO_POS))"
    using block_start_bounds [OF p(1)] by (auto simp: approach_step_def MAX_TRANSITION_def)
  ultimately show ?thesis by (simp add: iterate_continue iterate_exit)
qed

text \<open>The block moves to the one that leads to it.\<close>

lemma base_moves:
  assumes linked: "blocks_linked l h states" and h: "h \<le> length states" "h \<le> NO_POS"
    and cov: "base_covers states l h ps base mp" "ps \<noteq> {}" and base: "l + 64 \<le> base"
  defines "c \<equiv> si_canonical_source (states ! base)"
  shows "c \<noteq> NO_POS" "c < h" "c < base" "min mp c = c" "base_covers states l h ps (block_start l c) c"
proof -
  have mp: "l \<le> mp" "mp < h" "base = block_start l mp"
    and rs: "\<And>p. p \<in> ps \<Longrightarrow> \<exists>r. climbs states l p r \<and> mp \<le> r \<and> block_start l r = base"
    using cov by (auto simp: base_covers_def)
  have bh: "base \<le> mp" "base < h" using mp block_start_bounds(2) [of l mp] by auto
  have sb: "l \<le> c" "c < base" "c < h" using source_bounds [OF linked base bh(2)] by (auto simp: c_def)
  then show "c \<noteq> NO_POS" "c < h" "c < base" "min mp c = c" using h bh by auto
  have "\<exists>r. climbs states l p r \<and> c \<le> r \<and> block_start l r = block_start l c" if p: "p \<in> ps" for p
  proof -
    obtain r where r: "climbs states l p r" "mp \<le> r" "block_start l r = base" using rs [OF p] by blast
    have "p \<ge> l" "p < h" using cov p by (auto simp: base_covers_def)
    then have rb: "l \<le> r" "r < h" using climbs_bounds [OF r(1) linked] by auto
    have "base \<le> r" using r(3) block_start_bounds(2) [OF rb(1)] by simp
    then have "l + 64 \<le> r" using base by simp
    moreover have "si_canonical_source (states ! r) = c" using linked_shared [OF linked rb] r(3) by (simp add: c_def)
    ultimately have "climbs states l p c" using climbs_further [OF r(1)] by simp
    then show ?thesis by blast
  qed
  then show "base_covers states l h ps (block_start l c) c" using sb cov by (auto simp: base_covers_def)
qed

lemma approach_turn:
  assumes linked: "blocks_linked l h states" and h: "h \<le> length states" "h \<le> NO_POS"
    and ps: "ps \<noteq> {}" and inv: "base_covers states l h ps base mp" "l \<le> pos" "pos < h" "climbs states l p pos"
  shows "(\<exists>base' pos' mp'. approach_step states l (base, pos, mp) = Some (Inl (base', pos', mp')) \<and>
      base_covers states l h ps base' mp' \<and> l \<le> pos' \<and> pos' < h \<and> climbs states l p pos' \<and> base' + pos' < base + pos) \<or>
    approach_step states l (base, pos, mp) = Some (Inr (base, pos, mp)) \<and> block_start l pos = base"
proof -
  have mp: "l \<le> mp" "mp < h" "base = block_start l mp" using inv(1) ps by (auto simp: base_covers_def)
  have bl: "l \<le> base" "base \<le> mp" "base < h" "base \<noteq> NO_POS" using mp h block_start_bounds [OF mp(1)] by auto
  have bb: "base = l + 64 * ((mp - l) div 64)" using mp(3) by (simp add: block_start_def)
  show ?thesis
  proof (cases "pos < base")
    case True
    have b64: "l + 64 \<le> base"
    proof -
      have "(mp - l) div 64 \<noteq> 0" using True bb inv(2) by (cases "(mp - l) div 64") auto
      then show ?thesis using bb by (cases "(mp - l) div 64") auto
    qed
    note m = base_moves [OF linked h inv(1) ps b64]
    let ?c = "si_canonical_source (states ! base)"
    have c: "l \<le> ?c" using source_bounds(1) [OF linked b64 bl(3)] .
    have "approach_step states l (base, pos, mp) = Some (Inl (block_start l ?c, pos, ?c))"
    proof (cases "?c < l + 64")
      case first: True
      have n: "si_canonical_source (states ! ?c) = NO_POS" by (rule linked_first [OF linked c m(2) first])
      have "block_start l ?c = l" by (rule block_start_first [OF c first])
      then show ?thesis using True n m(1,2,4) bl h by (simp add: approach_step_def item_at_def Let_def)
    next
      case False
      then have c64: "l + 64 \<le> ?c" by simp
      show ?thesis
        using True linked_source [OF linked c64 m(2)] source_bounds [OF linked c64 m(2)] m(1,2,4) bl h
        by (simp add: approach_step_def item_at_def leads_to_block_def)
    qed
    moreover have "block_start l ?c < base" using block_start_bounds(2) [OF c] m(3) by simp
    ultimately show ?thesis using m(5) inv by auto
  next
    case ge: False
    show ?thesis
    proof (cases "63 < pos - base")
      case True
      have "l + 64 \<le> pos" using True bl by simp
      note sb = source_bounds [OF linked this inv(3)] and cf = climbs_further [OF inv(4) this]
      have "approach_step states l (base, pos, mp) = Some (Inl (base, si_canonical_source (states ! pos), mp))"
        using ge True bl sb inv(3) h by (simp add: approach_step_def item_at_def MAX_TRANSITION_def)
      then show ?thesis using sb cf inv by auto
    next
      case False
      have "block_start l pos = base" using block_start_eqI [of l "(mp - l) div 64" pos] bb False ge by simp
      moreover have "approach_step states l (base, pos, mp) = Some (Inr (base, pos, mp))"
        using ge False by (simp add: approach_step_def MAX_TRANSITION_def)
      ultimately show ?thesis by blast
    qed
  qed
qed

lemma approach_ends:
  assumes linked: "blocks_linked l h states" and h: "h \<le> length states" "h \<le> NO_POS"
    and ps: "ps \<noteq> {}" and cov: "base_covers states l h ps base mp" and p: "l \<le> p" "p < h"
  shows "\<exists>base' pos' mp'. iterate (approach_step states l) (base, p, mp) = Some (base', pos', mp') \<and>
    base_covers states l h (insert p ps) base' (min mp' pos')"
proof -
  define I where "I = (\<lambda>(base, pos, mp). base_covers states l h ps base mp \<and> l \<le> pos \<and> pos < h \<and> climbs states l p pos)"
  define Q where "Q = (\<lambda>(base, pos, mp). base_covers states l h (insert p ps) base (min mp pos))"
  have turn: "(\<exists>s'. approach_step states l s = Some (Inl s') \<and> I s' \<and> fst s' + fst (snd s') < fst s + fst (snd s)) \<or>
      (\<exists>r. approach_step states l s = Some (Inr r) \<and> Q r)" if I: "I s" for s
  proof -
    obtain base pos mp where s: "s = (base, pos, mp)" by (metis surj_pair)
    have i: "base_covers states l h ps base mp" "l \<le> pos" "pos < h" "climbs states l p pos" using I s by (auto simp: I_def)
    have exit: "base_covers states l h (insert p ps) base (min mp pos)" if b: "block_start l pos = base"
    proof -
      have m: "l \<le> mp" "mp < h" "base = block_start l mp" "\<forall>p \<in> ps. l \<le> p \<and> p < h"
        and rs: "\<forall>p \<in> ps. \<exists>r. climbs states l p r \<and> mp \<le> r \<and> block_start l r = base"
        using i(1) ps by (auto simp: base_covers_def)
      have "\<exists>r. climbs states l x r \<and> min mp pos \<le> r \<and> block_start l r = base" if "x \<in> insert p ps" for x
        using that rs i(4) b by (metis insertE min.cobounded2 min.coboundedI1)
      then show ?thesis using m i(2,3) b p by (auto simp: base_covers_def min_def)
    qed
    show ?thesis using approach_turn [OF linked h ps i] exit by (auto simp: s I_def Q_def)
  qed
  have "I (base, p, mp)" using cov p by (simp add: I_def climbs.here)
  then have "\<exists>r. iterate (approach_step states l) (base, p, mp) = Some r \<and> Q r"
    by (rule iterate_total [where I = I and m = "\<lambda>s. fst s + fst (snd s)"]) (use turn in force)+
  then show ?thesis by (auto simp: Q_def)
qed

text \<open>The positions of the destinations in the public list.\<close>

definition public_position :: "EncodedTagInfo list \<Rightarrow> nat \<times> DestInfo \<Rightarrow> nat list" where
  "public_position tags x =
     (if di_pos (snd x) = NO_POS \<and> et_state_machine_pos (tags ! fst x) \<noteq> NO_POS
      then [et_state_machine_pos (tags ! fst x)] else [])"

definition public_positions :: "EncodedTagInfo list \<Rightarrow> (nat \<times> DestInfo) list \<Rightarrow> nat list" where
  "public_positions tags ds = concat (map (public_position tags) ds)"

lemma public_positions_simps [simp]:
  "public_positions tags [] = []" "public_positions tags (x # ds) = public_position tags x @ public_positions tags ds"
  by (simp_all add: public_positions_def)

lemma reach_dest_skips:
  "fst x < length tags \<Longrightarrow> public_position tags x = [] \<Longrightarrow> reach_dest tags states l x b = Some b"
  by (cases x; cases b) (auto simp: reach_dest_def public_position_def item_at_def split: if_splits)

lemma reach_dest_public:
  assumes x: "fst x < length tags" "public_position tags x = [p]"
    and linked: "blocks_linked l h states" and h: "h \<le> length states" "h \<le> NO_POS"
    and cov: "base_covers states l h ps base mp" and p: "l \<le> p" "p < h"
  shows "\<exists>base' mp'. reach_dest tags states l x (base, mp) = Some (base', mp') \<and>
    base_covers states l h (insert p ps) base' mp' \<and> (ps = {} \<longrightarrow> mp' = p)"
proof -
  obtain d di where [simp]: "x = (d, di)" by (cases x)
  have d: "d < length tags" "di_pos di = NO_POS" "et_state_machine_pos (tags ! d) = p" "p \<noteq> NO_POS"
    using x by (auto simp: public_position_def split: if_splits)
  have r: "reach_dest tags states l x (base, mp) =
      Option.bind (iterate (approach_step states l) (base, p, mp)) (\<lambda>(base, pos, mp). Some (base, min mp pos))"
    using d by (simp add: reach_dest_def item_at_def)
  show ?thesis
  proof (cases "ps = {}")
    case True
    then have "base = NO_POS" "mp = NO_POS" using cov by (simp_all add: base_covers_def)
    then have "reach_dest tags states l x (base, mp) = Some (block_start l p, p)"
      using r approach_first [OF linked h p] p h by simp
    moreover have "base_covers states l h (insert p ps) (block_start l p) p"
      using True p by (auto simp: base_covers_def intro: climbs.here)
    ultimately show ?thesis by simp
  next
    case False
    then show ?thesis using r approach_ends [OF linked h False cov p] by auto
  qed
qed

lemma reach_dests:
  assumes linked: "blocks_linked l h states" and h: "h \<le> length states" "h \<le> NO_POS"
    and "base_covers states l h ps base mp"
    and "\<forall>x \<in> set ds. fst x < length tags" "\<forall>p \<in> set (public_positions tags ds). l \<le> p \<and> p < h"
  shows "\<exists>base' mp'. each_some (reach_dest tags states l) ds (base, mp) = Some (base', mp') \<and>
    base_covers states l h (ps \<union> set (public_positions tags ds)) base' mp' \<and>
    (public_positions tags ds = [] \<longrightarrow> mp' = mp) \<and> (ps = {} \<longrightarrow> (\<forall>p. public_positions tags ds = [p] \<longrightarrow> mp' = p))"
  using assms(4-)
proof (induction ds arbitrary: ps base mp)
  case (Cons x ds)
  consider (none) "public_position tags x = []" | (one) p where "public_position tags x = [p]"
    by (metis public_position_def)
  then show ?case
  proof cases
    case none
    then show ?thesis using Cons.IH [OF Cons.prems(1)] Cons.prems reach_dest_skips [of x tags states l "(base, mp)"] by simp
  next
    case (one p)
    obtain base1 mp1 where s: "reach_dest tags states l x (base, mp) = Some (base1, mp1)"
      "base_covers states l h (insert p ps) base1 mp1" "ps = {} \<longrightarrow> mp1 = p"
      using reach_dest_public [OF _ one linked h Cons.prems(1)] Cons.prems(2,3) one by auto
    obtain base' mp' where r: "each_some (reach_dest tags states l) ds (base1, mp1) = Some (base', mp')"
      "base_covers states l h (insert p ps \<union> set (public_positions tags ds)) base' mp'"
      "public_positions tags ds = [] \<longrightarrow> mp' = mp1"
      using Cons.IH [OF s(2)] Cons.prems(2,3) by auto
    then show ?thesis using one s by (auto simp: Un_commute)
  qed
qed simp

lemma find_optimal_base_covers:
  assumes linked: "blocks_linked l h states" and h: "h \<le> length states" "h \<le> NO_POS"
    and t: "i < length tags" "\<forall>x \<in> set (et_dest_info (tags ! i)). fst x < length tags"
    and "\<forall>p \<in> set (public_positions tags (et_dest_info (tags ! i))). l \<le> p \<and> p < h"
  shows "\<exists>base mp. find_optimal_base tags i l states = Some (base, mp) \<and>
    base_covers states l h (set (public_positions tags (et_dest_info (tags ! i)))) base mp \<and>
    (\<forall>p. public_positions tags (et_dest_info (tags ! i)) = [p] \<longrightarrow> mp = p)"
proof -
  have "base_covers states l h {} NO_POS NO_POS" by (simp add: base_covers_def)
  from reach_dests [OF linked h this t(2) assms(6)] show ?thesis
    using t(1) by (auto simp: find_optimal_base_def item_at_def)
qed

end
