(* ===== verification/EncoderCounts.thy ===== *)
theory EncoderCounts
  imports EncoderRoutes
begin

text \<open>
  The counts of the transitions.  \<open>et_num_incoming\<close> of a tag is the number of the transitions to it that
  are not in a private list, so subtracting what moves to a private list never goes below zero.
\<close>

section \<open>Loops with a state\<close>

lemma each_some_inv:
  assumes "I [] s" and "\<And>xs x ys s. zs = xs @ x # ys \<Longrightarrow> I xs s \<Longrightarrow> \<exists>s'. f x s = Some s' \<and> I (xs @ [x]) s'"
  shows "\<exists>s'. each_some f zs s = Some s' \<and> I zs s'"
proof -
  have "\<exists>s'. each_some f ys s = Some s' \<and> I (xs @ ys) s'" if "zs = xs @ ys" "I xs s" for xs ys s
    using that
  proof (induction ys arbitrary: xs s)
    case (Cons y ys)
    obtain s1 where s1: "f y s = Some s1" "I (xs @ [y]) s1" using assms(2) [OF Cons.prems] by blast
    then show ?case using Cons.IH [of "xs @ [y]" s1] Cons.prems(1) by auto
  qed simp
  from this [of "[]" zs s] assms(1) show ?thesis by simp
qed

section \<open>Destinations\<close>

abbreviation dests :: "EncodedTagInfo list \<Rightarrow> nat \<Rightarrow> (nat \<times> DestInfo) list" where
  "dests tags s \<equiv> et_dest_info (tags ! s)"

text \<open>Every tag has its destinations, with the number of transitions to them.\<close>

definition dests_counted :: "nat \<Rightarrow> (nat \<Rightarrow> nat \<Rightarrow> nat) \<Rightarrow> EncodedTagInfo list \<Rightarrow> bool" where
  "dests_counted k cnt tags \<longleftrightarrow> length tags = k \<and>
     (\<forall>s d. 0 < cnt s d \<longrightarrow> s < k \<and> d < k) \<and>
     (\<forall>s < k. bt_ok (dests tags s) \<and>
        (\<forall>d. map_option di_num_transitions (bt_get d (dests tags s)) = (if cnt s d = 0 then None else Some (cnt s d))))"

text \<open>What is left to be counted: the pairs \<open>open\<close>.\<close>

definition incoming_counted ::
  "nat \<Rightarrow> (nat \<Rightarrow> nat \<Rightarrow> nat) \<Rightarrow> (nat \<Rightarrow> nat) \<Rightarrow> (nat \<times> nat) set \<Rightarrow> EncodedTagInfo list \<Rightarrow> bool" where
  "incoming_counted k cnt init opn tags \<longleftrightarrow> length tags = k \<and>
     (\<forall>d < k. et_num_incoming (tags ! d) = init d + (\<Sum>s \<in> {s. s < k \<and> (s, d) \<in> opn}. cnt s d))"

definition dest_pos :: "EncodedTagInfo list \<Rightarrow> nat \<Rightarrow> nat \<Rightarrow> nat" where
  "dest_pos tags s d = (case bt_get d (dests tags s) of None \<Rightarrow> NO_POS | Some di \<Rightarrow> di_pos di)"

text \<open>What the counting does not touch.\<close>

definition tag_frame :: "EncodedTagInfo \<Rightarrow> NodeId \<times> u8 \<times> nat \<times> nat \<times> nat" where
  "tag_frame t = (et_node_id t, et_subtype t, et_state_machine_pos t, et_public_list_noop_pos t, et_base t)"

lemma dests_counted_get:
  assumes "dests_counted k cnt tags" "0 < cnt s d"
  shows "s < k" "d < k" "\<exists>di. bt_get d (dests tags s) = Some di \<and> di_num_transitions di = cnt s d"
proof -
  show s: "s < k" and "d < k" using assms by (auto simp: dests_counted_def)
  have "map_option di_num_transitions (bt_get d (dests tags s)) = Some (cnt s d)"
    using assms s by (auto simp: dests_counted_def)
  then show "\<exists>di. bt_get d (dests tags s) = Some di \<and> di_num_transitions di = cnt s d" by auto
qed

lemma dests_counted_keys: "dests_counted k cnt tags \<Longrightarrow> s < k \<Longrightarrow> set (bt_keys (dests tags s)) = {d. 0 < cnt s d}"
proof (rule set_eqI)
  fix d
  assume "dests_counted k cnt tags" "s < k"
  then have "map_option di_num_transitions (bt_get d (dests tags s)) = (if cnt s d = 0 then None else Some (cnt s d))"
    by (simp add: dests_counted_def)
  then show "d \<in> set (bt_keys (dests tags s)) \<longleftrightarrow> d \<in> {d. 0 < cnt s d}" by (auto simp: bt_keys_get split: if_splits)
qed

lemma dests_counted_same:
  "dests_counted k cnt tags \<Longrightarrow> length tags' = length tags \<Longrightarrow> (\<And>s. s < length tags \<Longrightarrow> dests tags' s = dests tags s) \<Longrightarrow>
    dests_counted k cnt tags'"
  by (simp add: dests_counted_def)

lemma dest_pos_same: "dests tags' s = dests tags s \<Longrightarrow> dest_pos tags' s d = dest_pos tags s d"
  by (simp add: dest_pos_def)

section \<open>Subtraction\<close>

lemma sub_incoming_ok:
  assumes inc: "incoming_counted k cnt init opn tags" and o: "(s, d) \<in> opn" "s < k" "d < k"
  shows "\<exists>n. sub_incoming d (cnt s d) tags = Some (tags[d := (tags ! d)\<lparr>et_num_incoming := n\<rparr>]) \<and>
    incoming_counted k cnt init (opn - {(s, d)}) (tags[d := (tags ! d)\<lparr>et_num_incoming := n\<rparr>])"
proof -
  let ?A = "{s. s < k \<and> (s, d) \<in> opn}"
  have "(\<Sum>s \<in> ?A. cnt s d) = cnt s d + (\<Sum>s \<in> ?A - {s}. cnt s d)" using o by (subst sum.remove [of _ s]) auto
  moreover have "?A - {s} = {s'. s' < k \<and> (s', d) \<in> opn - {(s, d)}}" by auto
  ultimately have sum: "et_num_incoming (tags ! d) = init d + (cnt s d + (\<Sum>s \<in> {s'. s' < k \<and> (s', d) \<in> opn - {(s, d)}}. cnt s d))"
    using inc o by (simp add: incoming_counted_def)
  have other: "{s'. s' < k \<and> (s', d') \<in> opn - {(s, d)}} = {s'. s' < k \<and> (s', d') \<in> opn}" if "d' \<noteq> d" for d' using that by auto
  have len: "length tags = k" using inc by (simp add: incoming_counted_def)
  define n where "n = et_num_incoming (tags ! d) - cnt s d"
  have "sub_incoming d (cnt s d) tags = Some (tags[d := (tags ! d)\<lparr>et_num_incoming := n\<rparr>])"
    using o len sum by (simp add: sub_incoming_def item_at_def minus_at_def n_def)
  moreover have "incoming_counted k cnt init (opn - {(s, d)}) (tags[d := (tags ! d)\<lparr>et_num_incoming := n\<rparr>])"
    unfolding incoming_counted_def
  proof (intro conjI allI impI)
    fix d'
    assume "d' < k"
    then show "et_num_incoming (tags[d := (tags ! d)\<lparr>et_num_incoming := n\<rparr>] ! d') =
        init d' + (\<Sum>s' \<in> {s'. s' < k \<and> (s', d') \<in> opn - {(s, d)}}. cnt s' d')"
      using inc len sum other [of d'] by (cases "d' = d") (auto simp: incoming_counted_def n_def)
  qed (use len in simp)
  ultimately show ?thesis by blast
qed

lemma dests_incoming [simp]:
  "et_dest_info (tags[d := (tags ! d)\<lparr>et_num_incoming := n\<rparr>] ! s) = dests tags s"
  by (cases "d < length tags") (auto simp: nth_list_update list_update_beyond)

lemma tag_frame_incoming [simp]:
  "map tag_frame (tags[d := (tags ! d)\<lparr>et_num_incoming := n\<rparr>]) = map tag_frame tags"
  by (cases "d < length tags") (auto simp: tag_frame_def map_update list_update_beyond intro!: nth_equalityI simp: nth_list_update)

lemma incoming_counted_same:
  assumes "incoming_counted k cnt init opn tags" "map et_num_incoming tags' = map et_num_incoming tags"
  shows "incoming_counted k cnt init opn tags'"
proof -
  have len: "length tags' = length tags" using assms(2) by (rule map_eq_imp_length_eq)
  have "et_num_incoming (tags' ! d) = et_num_incoming (tags ! d)" if "d < length tags" for d
    using assms(2) len that by (metis nth_map)
  then show ?thesis using assms(1) len by (simp add: incoming_counted_def)
qed

text \<open>As long as a pair is open, its count is in the number of its destination.\<close>

lemma incoming_open:
  assumes "incoming_counted k cnt init opn tags" "(s, d) \<in> opn" "s < k" "d < k"
  shows "cnt s d \<le> et_num_incoming (tags ! d)"
proof -
  have "cnt s d \<le> (\<Sum>s \<in> {s. s < k \<and> (s, d) \<in> opn}. cnt s d)" using assms by (intro member_le_sum) auto
  then show ?thesis using assms by (simp add: incoming_counted_def)
qed

section \<open>The statistics\<close>

text \<open>The transitions of a sequence of tags, and their counts.\<close>

definition pairs_of :: "nat list \<Rightarrow> (nat \<times> nat) list" where
  "pairs_of ps = zip ps (tl ps)"

definition count_pairs :: "nat list \<Rightarrow> nat \<Rightarrow> nat \<Rightarrow> nat" where
  "count_pairs ps s d = count_list (pairs_of ps) (s, d)"

definition tallied :: "nat \<Rightarrow> (nat \<times> nat) list \<Rightarrow> EncodedTagInfo list \<Rightarrow> bool" where
  "tallied k ps tags \<longleftrightarrow> length tags = k \<and>
     (\<forall>s < k. bt_ok (dests tags s) \<and>
        (\<forall>d. bt_get d (dests tags s) =
           (if count_list ps (s, d) = 0 then None else Some \<lparr>di_pos = NO_POS, di_num_transitions = count_list ps (s, d)\<rparr>))) \<and>
     (\<forall>d < k. et_num_incoming (tags ! d) = count_list (map snd ps) d)"

lemma count_list_snoc: "count_list (xs @ [x]) y = count_list xs y + (if x = y then 1 else 0)"
  by simp

lemma tally_one:
  assumes t: "tallied k ps tags" and sd: "s < k" "d < k"
  shows "\<exists>tags1 tags'. update_at s (count_one d) tags = Some tags1 \<and>
    update_at d (\<lambda>t. t\<lparr>et_num_incoming := et_num_incoming t + 1\<rparr>) tags1 = Some tags' \<and>
    tallied k (ps @ [(s, d)]) tags' \<and> map tag_frame tags' = map tag_frame tags"
proof -
  have len: "length tags = k" using t by (simp add: tallied_def)
  define tags1 where "tags1 = tags[s := count_one d (tags ! s)]"
  define tags' where "tags' = tags1[d := (tags1 ! d)\<lparr>et_num_incoming := et_num_incoming (tags1 ! d) + 1\<rparr>]"
  have u: "update_at s (count_one d) tags = Some tags1"
    "update_at d (\<lambda>t. t\<lparr>et_num_incoming := et_num_incoming t + 1\<rparr>) tags1 = Some tags'"
    using sd len by (simp_all add: update_at_def tags1_def tags'_def)
  have g: "bt_get d (dests tags s) =
      (if count_list ps (s, d) = 0 then None else Some \<lparr>di_pos = NO_POS, di_num_transitions = count_list ps (s, d)\<rparr>)"
    using t sd by (simp add: tallied_def)
  have one: "et_dest_info (count_one d (tags ! s)) =
      bt_put d \<lparr>di_pos = NO_POS, di_num_transitions = count_list ps (s, d) + 1\<rparr> (dests tags s)"
    using g by (simp add: count_one_def Let_def new_dest_def)
  have ds: "dests tags' i = (if i = s then bt_put d \<lparr>di_pos = NO_POS, di_num_transitions = count_list ps (s, d) + 1\<rparr> (dests tags s) else dests tags i)"
    if "i < k" for i
    using that sd len one by (cases "i = s"; cases "i = d") (auto simp: tags'_def tags1_def nth_list_update)
  have inc: "et_num_incoming (tags' ! i) = et_num_incoming (tags ! i) + (if i = d then 1 else 0)" if "i < k" for i
    using that sd len by (simp add: tags'_def tags1_def nth_list_update count_one_def Let_def)
  have "tallied k (ps @ [(s, d)]) tags'"
    unfolding tallied_def
  proof (intro conjI allI impI)
    fix i d'
    assume i: "i < k"
    show "bt_ok (dests tags' i)" using t i ds [OF i] by (auto simp: tallied_def bt_ok_put)
    have g': "bt_get d' (dests tags i) =
      (if count_list ps (i, d') = 0 then None else Some \<lparr>di_pos = NO_POS, di_num_transitions = count_list ps (i, d')\<rparr>)"
      using t i by (simp add: tallied_def)
    show "bt_get d' (dests tags' i) = (if count_list (ps @ [(s, d)]) (i, d') = 0 then None
        else Some \<lparr>di_pos = NO_POS, di_num_transitions = count_list (ps @ [(s, d)]) (i, d')\<rparr>)"
      unfolding ds [OF i] count_list_snoc using g' by (cases "i = s"; cases "d' = d") simp_all
  next
    fix i
    assume i: "i < k"
    then show "et_num_incoming (tags' ! i) = count_list (map snd (ps @ [(s, d)])) i"
      using t inc [OF i] by (simp add: tallied_def)
  qed (use len in \<open>simp add: tags'_def tags1_def\<close>)
  moreover have "map tag_frame tags' = map tag_frame tags"
    using len sd by (intro nth_equalityI) (auto simp: tags'_def tags1_def nth_list_update tag_frame_def count_one_def Let_def)
  ultimately show ?thesis using u by blast
qed

lemma count_transitions_tallies:
  assumes "tallied k done tags" "prev < k" "\<forall>p \<in> set ps. p < k"
  shows "\<exists>tags'. count_transitions prev ps tags = Some tags' \<and> tallied k (done @ pairs_of (prev # ps)) tags' \<and>
    map tag_frame tags' = map tag_frame tags"
  using assms
proof (induction ps arbitrary: prev tags "done")
  case Nil
  then show ?case by (simp add: pairs_of_def)
next
  case (Cons p ps)
  obtain tags1 tags2 where t: "update_at prev (count_one p) tags = Some tags1"
    "update_at p (\<lambda>t. t\<lparr>et_num_incoming := et_num_incoming t + 1\<rparr>) tags1 = Some tags2"
    "tallied k (done @ [(prev, p)]) tags2" "map tag_frame tags2 = map tag_frame tags"
    using tally_one [OF Cons.prems(1,2), of p] Cons.prems(3) by auto
  obtain tags' where "count_transitions p ps tags2 = Some tags'"
    "tallied k ((done @ [(prev, p)]) @ pairs_of (p # ps)) tags'" "map tag_frame tags' = map tag_frame tags2"
    using Cons.IH [OF t(3)] Cons.prems(3) by auto
  then show ?case using t by (simp add: pairs_of_def)
qed

text \<open>The number of pairs with a given end.\<close>

lemma count_list_ends:
  "\<forall>(s, d) \<in> set ps. s < (k :: nat) \<Longrightarrow> count_list (map snd ps) d = (\<Sum>s | s < k. count_list ps (s, d))"
proof (induction ps)
  case (Cons x ps)
  obtain a b where [simp]: "x = (a, b)" by (cases x)
  have step: "count_list (x # ps) (s, d) = (if s = a then (if b = d then 1 else 0) else 0) + count_list ps (s, d)" for s
    by auto
  have "(\<Sum>s | s < k. count_list (x # ps) (s, d)) =
      (\<Sum>s | s < k. if s = a then (if b = d then 1 else 0) else (0::nat)) + (\<Sum>s | s < k. count_list ps (s, d))"
    unfolding step by (rule sum.distrib)
  also have "(\<Sum>s | s < k. if s = a then (if b = d then 1 else 0) else (0::nat)) = (if b = d then 1 else 0)"
    using Cons.prems by (subst sum.delta) auto
  finally show ?case using Cons by simp
qed simp

definition start_count :: "nat list \<Rightarrow> nat \<Rightarrow> nat" where
  "start_count ps d = (if d = hd ps \<and> (\<forall>s. count_pairs ps s d = 0) then 1 else 0)"

lemma collect_counts:
  assumes tags: "encoded \<noteq> []" "\<forall>i \<in> set encoded. i < length tags" "tallied (length tags) [] tags"
  defines "ps \<equiv> rev encoded"
  shows "\<exists>tags'. collect_transition_statistics encoded tags = Some tags' \<and>
    dests_counted (length tags) (count_pairs ps) tags' \<and>
    incoming_counted (length tags) (count_pairs ps) (start_count ps) UNIV tags' \<and>
    (\<forall>s d. s < length tags \<longrightarrow> dest_pos tags' s d = NO_POS) \<and> map tag_frame tags' = map tag_frame tags"
proof -
  let ?k = "length tags"
  obtain l es where ps: "ps = l # es" "l = last encoded" "es = rev (butlast encoded)" using tags(1)
    by (metis append_butlast_last_id ps_def rev.simps(2) rev_rev_ident rev_eq_Cons_iff rev_append append_Cons append_Nil rev_singleton_conv)
  have l: "l < ?k" "\<forall>p \<in> set es. p < ?k"
    using tags(1,2) ps by (auto dest: in_set_butlastD)
  obtain t1 where t1: "count_transitions l es tags = Some t1" "tallied ?k (pairs_of ps) t1" "map tag_frame t1 = map tag_frame tags"
    using count_transitions_tallies [OF tags(3) l] ps(1) by auto
  have len: "length t1 = ?k" using t1(2) by (simp add: tallied_def)
  define t2 where "t2 = (if et_num_incoming (t1 ! l) = 0 then t1[l := (t1 ! l)\<lparr>et_num_incoming := 1\<rparr>] else t1)"
  have "collect_transition_statistics encoded tags = Some t2"
    using tags(1) t1(1) l(1) len ps by (simp add: collect_transition_statistics_def t2_def item_at_def)
  moreover have ends: "s < ?k \<and> d < ?k" if "(s, d) \<in> set (pairs_of ps)" for s d
  proof -
    have "s \<in> set ps" "d \<in> set ps" using that ps(1) by (auto simp: pairs_of_def dest: set_zip_leftD set_zip_rightD)
    then show ?thesis using tags(2) by (simp add: ps_def)
  qed
  have pos: "s < ?k \<and> d < ?k" if "0 < count_pairs ps s d" for s d
    using that ends [of s d] count_list_0_iff [of "pairs_of ps" "(s, d)"] by (force simp: count_pairs_def)
  have ds: "dests t2 s = dests t1 s" for s by (simp add: t2_def)
  have "dests_counted ?k (count_pairs ps) t2"
    unfolding dests_counted_def ds using t1(2) len pos by (simp add: tallied_def count_pairs_def t2_def)
  moreover have "\<forall>s d. s < ?k \<longrightarrow> dest_pos t2 s d = NO_POS"
    using t1(2) by (simp add: dest_pos_def ds tallied_def)
  moreover have "map tag_frame t2 = map tag_frame tags" using t1(3) by (simp add: t2_def)
  moreover have "incoming_counted ?k (count_pairs ps) (start_count ps) UNIV t2"
    unfolding incoming_counted_def
  proof (intro conjI allI impI)
    fix d
    assume d: "d < ?k"
    have sum: "et_num_incoming (t1 ! d) = (\<Sum>s | s < ?k. count_pairs ps s d)"
    proof -
      have "\<forall>(s, d) \<in> set (pairs_of ps). s < ?k" using ends by auto
      then show ?thesis using t1(2) d by (simp add: tallied_def count_list_ends count_pairs_def)
    qed
    then have "et_num_incoming (t1 ! d) = 0 \<longleftrightarrow> (\<forall>s. count_pairs ps s d = 0)"
      using ends by (auto simp: count_pairs_def count_list_0_iff)
    then show "et_num_incoming (t2 ! d) = start_count ps d + (\<Sum>s | s < ?k \<and> (s, d) \<in> UNIV. count_pairs ps s d)"
      using sum d l len ps(1) by (cases "d = l") (auto simp: t2_def start_count_def)
  qed (simp add: t2_def len)
  ultimately show ?thesis by blast
qed

end
