(* ===== verification/EncoderTables.thy ===== *)
theory EncoderTables
  imports EncoderCounts
begin

text \<open>
  The tables of the state machine: every transition that occurs has a place, in the private list of its
  source or in the public list.
\<close>

section \<open>Positions of destinations\<close>

definition with_dest_pos :: "nat \<Rightarrow> nat \<Rightarrow> nat \<Rightarrow> EncodedTagInfo list \<Rightarrow> EncodedTagInfo list" where
  "with_dest_pos s d p tags =
     tags[s := (tags ! s)\<lparr>et_dest_info := bt_put d ((the (bt_get d (dests tags s)))\<lparr>di_pos := p\<rparr>) (dests tags s)\<rparr>]"

lemma set_dest_pos_ok:
  "s < length tags \<Longrightarrow> bt_get d (dests tags s) \<noteq> None \<Longrightarrow> set_dest_pos s d p tags = Some (with_dest_pos s d p tags)"
  by (auto simp: set_dest_pos_def with_dest_pos_def item_at_def)

lemma with_dest_pos_length [simp]: "length (with_dest_pos s d p tags) = length tags"
  by (simp add: with_dest_pos_def)

lemma with_dest_pos_frame [simp]: "map tag_frame (with_dest_pos s d p tags) = map tag_frame tags"
  by (cases "s < length tags") (auto simp: with_dest_pos_def tag_frame_def list_update_beyond intro!: nth_equalityI simp: nth_list_update)

lemma with_dest_pos_incoming [simp]: "map et_num_incoming (with_dest_pos s d p tags) = map et_num_incoming tags"
  by (cases "s < length tags") (auto simp: with_dest_pos_def list_update_beyond intro!: nth_equalityI simp: nth_list_update)

lemma with_dest_pos_dests:
  "s < length tags \<Longrightarrow> dests (with_dest_pos s d p tags) i =
     (if i = s then bt_put d ((the (bt_get d (dests tags s)))\<lparr>di_pos := p\<rparr>) (dests tags s) else dests tags i)"
  by (auto simp: with_dest_pos_def nth_list_update)

lemma with_dest_pos_pos:
  "s < length tags \<Longrightarrow> dest_pos (with_dest_pos s d p tags) s' d' = (if s' = s \<and> d' = d then p else dest_pos tags s' d')"
  by (auto simp: dest_pos_def with_dest_pos_dests)

lemma with_dest_pos_counted:
  assumes c: "dests_counted k cnt tags" and sd: "0 < cnt s d"
  shows "dests_counted k cnt (with_dest_pos s d p tags)"
proof -
  obtain di where di: "bt_get d (dests tags s) = Some di" "di_num_transitions di = cnt s d" "s < k"
    using dests_counted_get [OF c sd] by blast
  have len: "length tags = k" using c by (simp add: dests_counted_def)
  have "bt_ok (dests (with_dest_pos s d p tags) i) \<and>
      (\<forall>d'. map_option di_num_transitions (bt_get d' (dests (with_dest_pos s d p tags) i)) = (if cnt i d' = 0 then None else Some (cnt i d')))"
    if i: "i < k" for i
  proof (cases "i = s")
    case True
    have "bt_ok (dests tags s)"
      and "\<And>d'. map_option di_num_transitions (bt_get d' (dests tags s)) = (if cnt s d' = 0 then None else Some (cnt s d'))"
      using c di(3) by (auto simp: dests_counted_def)
    note ok = this
    have "map_option di_num_transitions (bt_get d' (dests (with_dest_pos s d p tags) i)) = (if cnt i d' = 0 then None else Some (cnt i d'))"
      for d'
      using True di sd len ok(2) [of d'] by (cases "d' = d") (simp_all add: with_dest_pos_dests)
    then show ?thesis using True di(3) len ok(1) by (simp add: with_dest_pos_dests bt_ok_put)
  next
    case False
    then show ?thesis using c i len di(3) by (simp add: with_dest_pos_dests dests_counted_def)
  qed
  then show ?thesis using c len by (simp add: dests_counted_def)
qed

section \<open>Frequent transitions\<close>

definition marked_ok :: "(nat \<Rightarrow> nat \<Rightarrow> nat) \<Rightarrow> (nat \<times> nat) set \<Rightarrow> EncodedTagInfo list \<Rightarrow> bool" where
  "marked_ok cnt opn tags \<longleftrightarrow>
     (\<forall>s d. 0 < cnt s d \<longrightarrow> dest_pos tags s d = (if (s, d) \<in> opn then NO_POS else IN_LIST_POS))"

definition marking ::
  "nat \<Rightarrow> (nat \<Rightarrow> nat \<Rightarrow> nat) \<Rightarrow> (nat \<Rightarrow> nat) \<Rightarrow> EncodedTagInfo list \<Rightarrow> (nat \<times> nat) set \<Rightarrow> EncodedTagInfo list \<Rightarrow> bool" where
  "marking k cnt init tags0 opn tags \<longleftrightarrow>
     dests_counted k cnt tags \<and> incoming_counted k cnt init opn tags \<and> marked_ok cnt opn tags \<and>
     map tag_frame tags = map tag_frame tags0"

lemma mark_frequent_ok:
  assumes m: "marking k cnt init tags0 opn tags" and sd: "0 < cnt s d" and o: "(s, d) \<in> opn"
  shows "\<exists>tags' opn'. mark_frequent s d tags = Some tags' \<and> marking k cnt init tags0 opn' tags' \<and>
    opn' \<subseteq> opn \<and> opn - {(s, d)} \<subseteq> opn'"
proof -
  have c: "dests_counted k cnt tags" and inc: "incoming_counted k cnt init opn tags" and mk: "marked_ok cnt opn tags"
    and fr: "map tag_frame tags = map tag_frame tags0"
    using m by (simp_all add: marking_def)
  obtain di where di: "s < k" "d < k" "bt_get d (dests tags s) = Some di" "di_num_transitions di = cnt s d"
    using dests_counted_get [OF c sd] by blast
  have len: "length tags = k" using c by (simp add: dests_counted_def)
  show ?thesis
  proof (cases "MIN_COUNT_FOR_STATE \<le> cnt s d")
    case False
    then have "mark_frequent s d tags = Some tags" using di len by (simp add: mark_frequent_def item_at_def)
    then show ?thesis using m by (intro exI [of _ tags] exI [of _ opn]) auto
  next
    case True
    obtain n where n: "sub_incoming d (cnt s d) tags = Some (tags[d := (tags ! d)\<lparr>et_num_incoming := n\<rparr>])"
      "incoming_counted k cnt init (opn - {(s, d)}) (tags[d := (tags ! d)\<lparr>et_num_incoming := n\<rparr>])"
      using sub_incoming_ok [OF inc o di(1,2)] by blast
    let ?t1 = "tags[d := (tags ! d)\<lparr>et_num_incoming := n\<rparr>]"
    have c1: "dests_counted k cnt ?t1" by (rule dests_counted_same [OF c]) simp_all
    let ?t2 = "with_dest_pos s d IN_LIST_POS ?t1"
    have "mark_frequent s d tags = Some ?t2"
      using True di len n(1) set_dest_pos_ok [of s ?t1 d IN_LIST_POS] by (simp add: mark_frequent_def item_at_def)
    moreover have "marked_ok cnt (opn - {(s, d)}) ?t2"
      using mk len di(1) by (auto simp: marked_ok_def with_dest_pos_pos dest_pos_same [of ?t1 _ tags])
    moreover have "incoming_counted k cnt init (opn - {(s, d)}) ?t2"
      by (rule incoming_counted_same [OF n(2)]) simp
    ultimately have "mark_frequent s d tags = Some ?t2 \<and> marking k cnt init tags0 (opn - {(s, d)}) ?t2"
      using with_dest_pos_counted [OF c1 sd] fr by (simp add: marking_def)
    then show ?thesis by blast
  qed
qed

lemma marks_ok:
  assumes c: "dests_counted k cnt tags" "incoming_counted k cnt init UNIV tags" "\<forall>s d. s < k \<longrightarrow> dest_pos tags s d = NO_POS"
  shows "\<exists>tags' opn. mark_frequent_transitions tags = Some tags' \<and> marking k cnt init tags opn tags'"
proof -
  have k: "length tags = k" using c(1) by (simp add: dests_counted_def)
  define I where "I = (\<lambda>xs t. \<exists>opn. marking k cnt init tags opn t \<and> (\<forall>s d. s \<notin> set xs \<longrightarrow> (s, d) \<in> opn))"
  have "\<exists>t'. each_some (\<lambda>s t. Option.bind (item_at t s) (\<lambda>x. each_some (mark_frequent s) (bt_keys (et_dest_info x)) t)) [0..<k] tags = Some t' \<and>
    I [0..<k] t'"
  proof (rule each_some_inv)
    have "marked_ok cnt UNIV tags" using c(1,3) by (simp add: marked_ok_def dests_counted_def)
    then show "I [] tags" using c by (auto simp: I_def marking_def)
  next
    fix xs s ys t
    assume z: "[0..<k] = xs @ s # ys" and "I xs t"
    then obtain opn where m: "marking k cnt init tags opn t" "\<forall>s d. s \<notin> set xs \<longrightarrow> (s, d) \<in> opn" by (auto simp: I_def)
    have "s \<in> set [0..<k]" unfolding z by simp
    then have s: "s < k" by simp
    have "distinct (xs @ s # ys)" unfolding z [symmetric] by simp
    then have fresh: "s \<notin> set xs" by simp
    have ct: "dests_counted k cnt t" "length t = k" using m(1) by (auto simp: marking_def dests_counted_def)
    have dk: "distinct (bt_keys (dests t s))" and keys: "set (bt_keys (dests t s)) = {d. 0 < cnt s d}"
      using ct s dests_counted_keys [OF ct(1) s] by (auto simp: dests_counted_def bt_ok_distinct)
    define J where "J = (\<lambda>ds t. \<exists>opn. marking k cnt init tags opn t \<and>
      (\<forall>s' d. s' \<notin> set xs \<longrightarrow> s' = s \<and> d \<in> set ds \<or> (s', d) \<in> opn))"
    have "\<exists>t'. each_some (mark_frequent s) (bt_keys (dests t s)) t = Some t' \<and> J (bt_keys (dests t s)) t'"
    proof (rule each_some_inv)
      show "J [] t" using m by (auto simp: J_def)
    next
      fix ds d es t1
      assume ds: "bt_keys (dests t s) = ds @ d # es" and "J ds t1"
      then obtain opn1 where o1: "marking k cnt init tags opn1 t1"
        "\<forall>s' d. s' \<notin> set xs \<longrightarrow> s' = s \<and> d \<in> set ds \<or> (s', d) \<in> opn1" by (auto simp: J_def)
      have "d \<notin> set ds" "d \<in> set (bt_keys (dests t s))" using dk ds by auto
      then have "0 < cnt s d" "(s, d) \<in> opn1" using keys o1(2) fresh by auto
      from mark_frequent_ok [OF o1(1) this] obtain t2 opn2 where
        o2: "mark_frequent s d t1 = Some t2" "marking k cnt init tags opn2 t2" "opn2 \<subseteq> opn1" "opn1 - {(s, d)} \<subseteq> opn2" by blast
      have "\<forall>s' d'. s' \<notin> set xs \<longrightarrow> s' = s \<and> d' \<in> set (ds @ [d]) \<or> (s', d') \<in> opn2"
      proof (intro allI impI)
        fix s' d'
        assume "s' \<notin> set xs"
        then show "s' = s \<and> d' \<in> set (ds @ [d]) \<or> (s', d') \<in> opn2" using o1(2) o2(4) by (cases "(s', d') = (s, d)") auto
      qed
      then show "\<exists>t2. mark_frequent s d t1 = Some t2 \<and> J (ds @ [d]) t2" using o2 by (auto simp: J_def)
    qed
    then obtain t' opn' where t': "each_some (mark_frequent s) (bt_keys (dests t s)) t = Some t'"
      "marking k cnt init tags opn' t'" "\<forall>s' d. s' \<notin> set xs \<longrightarrow> s' = s \<and> d \<in> set (bt_keys (dests t s)) \<or> (s', d) \<in> opn'"
      by (auto simp: J_def)
    then have "I (xs @ [s]) t'" unfolding I_def by (intro exI [of _ opn']) auto
    then show "\<exists>t'. Option.bind (item_at t s) (\<lambda>x. each_some (mark_frequent s) (bt_keys (et_dest_info x)) t) = Some t' \<and> I (xs @ [s]) t'"
      using t'(1) s ct(2) by (simp add: item_at_def)
  qed
  then show ?thesis using k by (auto simp: mark_frequent_transitions_def I_def)
qed

section \<open>What a private list notes\<close>

definition note_private ::
  "nat \<Rightarrow> nat \<Rightarrow> nat \<Rightarrow> EncodedTagInfo list \<times> (nat \<times> nat) list \<Rightarrow> EncodedTagInfo list \<times> (nat \<times> nat) list" where
  "note_private s d p = (\<lambda>(tags, noops).
     if d = NO_POS then (tags[s := (tags ! s)\<lparr>et_public_list_noop_pos := p\<rparr>], noops @ [(s, p)])
     else (with_dest_pos s d p tags, noops))"

definition valid_private :: "nat \<Rightarrow> nat \<Rightarrow> EncodedTagInfo list \<Rightarrow> bool" where
  "valid_private s d tags \<longleftrightarrow> s < length tags \<and> length tags \<le> NO_POS \<and>
     (d \<noteq> NO_POS \<longrightarrow> d < length tags \<and> bt_get d (dests tags s) \<noteq> None)"

lemma put_state_ok:
  "0 < fl_prev f \<Longrightarrow> fl_prev f \<le> length (fl_states f) \<Longrightarrow>
    put_state x f = Some (f\<lparr>fl_prev := fl_prev f - 1, fl_states := (fl_states f)[fl_prev f - 1 := x]\<rparr>)"
  by (simp add: put_state_def minus_at_def update_at_def)

interpretation private_states: filled_list "private_entry s" "note_private s" "valid_private s" for s
proof unfold_locales
  fix d and f :: Filling
  assume v: "valid_private s d (fl_tags f)" and p: "0 < fl_prev f" "fl_prev f \<le> length (fl_states f)"
  show "private_entry s d f = Some (f\<lparr>fl_prev := fl_prev f - 1, fl_states := (fl_states f)[fl_prev f - 1 := new_state d NO_POS],
        fl_tags := fst (note_private s d (fl_prev f - 1) (fl_tags f, fl_public_noops f)),
        fl_public_noops := snd (note_private s d (fl_prev f - 1) (fl_tags f, fl_public_noops f))\<rparr>)"
  proof (cases "d = NO_POS")
    case True
    then show ?thesis using v put_state_ok [OF p]
      by (simp add: private_entry_def valid_private_def note_private_def update_at_def)
  next
    case False
    then show ?thesis using v put_state_ok [OF p]
      by (simp add: private_entry_def valid_private_def note_private_def set_dest_pos_ok)
  qed
next
  fix f :: Filling and d
  assume "length (fl_tags f) \<le> d" "d < NO_POS"
  then show "private_entry s d f = put_bridge (d - length (fl_tags f)) f" by (simp add: private_entry_def)
next
  fix d p x
  show "length (fst (note_private s d p x)) = length (fst x)" by (cases x) (simp add: note_private_def)
next
  fix d e p and x :: "EncodedTagInfo list \<times> (nat \<times> nat) list"
  assume "valid_private s d (fst x)"
  then show "valid_private s d (fst (note_private s e p x))"
    by (cases x) (auto simp: valid_private_def note_private_def with_dest_pos_dests)
qed

text \<open>All notes of a list together.\<close>

definition tag_static :: "EncodedTagInfo \<Rightarrow> NodeId \<times> u8 \<times> nat \<times> nat \<times> nat" where
  "tag_static t = (et_node_id t, et_subtype t, et_state_machine_pos t, et_base t, et_num_incoming t)"

lemma with_dest_pos_static [simp]: "map tag_static (with_dest_pos s d p tags) = map tag_static tags"
  by (cases "s < length tags") (auto simp: with_dest_pos_def tag_static_def list_update_beyond intro!: nth_equalityI simp: nth_list_update)

lemma with_dest_pos_other: "i \<noteq> s \<Longrightarrow> with_dest_pos s d p tags ! i = tags ! i"
  by (simp add: with_dest_pos_def)

lemma with_dest_pos_noop [simp]:
  "et_public_list_noop_pos (with_dest_pos s d p tags ! i) = et_public_list_noop_pos (tags ! i)"
  by (cases "s < length tags") (auto simp: with_dest_pos_def nth_list_update list_update_beyond)

lemma private_noted:
  assumes "distinct (map fst placed)" "\<forall>(d, p) \<in> set placed. d \<noteq> NO_POS \<longrightarrow> 0 < cnt s d" "s < k" "dests_counted k cnt tags"
    and "fold (\<lambda>(d, p). note_private s d p) placed (tags, noops) = (tags', noops')"
  shows "dests_counted k cnt tags' \<and> map tag_static tags' = map tag_static tags \<and> (\<forall>i. i \<noteq> s \<longrightarrow> tags' ! i = tags ! i) \<and>
    (\<forall>d. d \<noteq> NO_POS \<longrightarrow> dest_pos tags' s d = (case map_of placed d of None \<Rightarrow> dest_pos tags s d | Some p \<Rightarrow> p)) \<and>
    et_public_list_noop_pos (tags' ! s) = (case map_of placed NO_POS of None \<Rightarrow> et_public_list_noop_pos (tags ! s) | Some p \<Rightarrow> p) \<and>
    noops' = noops @ (case map_of placed NO_POS of None \<Rightarrow> [] | Some p \<Rightarrow> [(s, p)])"
  using assms
proof (induction placed arbitrary: tags noops)
  case (Cons x placed)
  obtain d p where x: "x = (d, p)" by (cases x)
  have len: "length tags = k" using Cons.prems(4) by (simp add: dests_counted_def)
  have fresh: "map_of placed d = None" using Cons.prems(1) x by (simp add: map_of_eq_None_iff)
  obtain tags1 noops1 where n: "note_private s d p (tags, noops) = (tags1, noops1)" by fastforce
  have f: "fold (\<lambda>(d, p). note_private s d p) placed (tags1, noops1) = (tags', noops')"
    using Cons.prems(5) x n by simp
  show ?case
  proof (cases "d = NO_POS")
    case True
    have t1: "tags1 = tags[s := (tags ! s)\<lparr>et_public_list_noop_pos := p\<rparr>]" "noops1 = noops @ [(s, p)]"
      using n True by (simp_all add: note_private_def)
    have ds: "dests tags1 i = dests tags i" for i using t1 len Cons.prems(3) by (simp add: nth_list_update)
    have c1: "dests_counted k cnt tags1" by (rule dests_counted_same [OF Cons.prems(4)]) (simp_all add: ds, simp add: t1)
    have st: "map tag_static tags1 = map tag_static tags"
      using t1 len Cons.prems(3) by (intro nth_equalityI) (auto simp: nth_list_update tag_static_def)
    have dp: "dest_pos tags1 s d' = dest_pos tags s d'" for d' by (rule dest_pos_same [OF ds])
    have nth: "\<forall>i. i \<noteq> s \<longrightarrow> tags1 ! i = tags ! i" "et_public_list_noop_pos (tags1 ! s) = p"
      using t1 len Cons.prems(3) by simp_all
    have "distinct (map fst placed)" "\<forall>(d, p) \<in> set placed. d \<noteq> NO_POS \<longrightarrow> 0 < cnt s d" using Cons.prems(1,2) x by auto
    from Cons.IH [OF this Cons.prems(3) c1 f] show ?thesis
      using x True fresh st nth t1(2) by (simp add: dp split: option.split)
  next
    case False
    have t1: "tags1 = with_dest_pos s d p tags" "noops1 = noops" using n False by (simp_all add: note_private_def)
    have "0 < cnt s d" using Cons.prems(2) x False by auto
    then have c1: "dests_counted k cnt tags1" unfolding t1 by (rule with_dest_pos_counted [OF Cons.prems(4)])
    show ?thesis using Cons.IH [OF _ _ Cons.prems(3) c1 f] Cons.prems(1,2) x False fresh t1 len Cons.prems(3)
      by (auto simp: with_dest_pos_pos with_dest_pos_other split: option.splits)
  qed
qed simp

section \<open>Choosing the destinations of a private list\<close>

lemma select_ok:
  assumes c: "dests_counted k cnt tags" and inc: "incoming_counted k cnt init opn tags" and s: "s < k"
    and mk: "\<forall>d. 0 < cnt s d \<longrightarrow> dest_pos tags s d = (if (s, d) \<in> opn then NO_POS else IN_LIST_POS)"
  defines "keys \<equiv> bt_keys (dests tags s)"
  shows "\<exists>queue ex nex t opn'. each_some (select_dest s) keys ([], None, 0, tags) = Some (queue, ex, nex, t) \<and>
    incoming_counted k cnt init opn' t \<and> (\<forall>i. dests t i = dests tags i) \<and> map tag_frame t = map tag_frame tags \<and>
    opn' \<subseteq> opn \<and> opn - {s} \<times> UNIV \<subseteq> opn' \<and>
    map dest_index queue = filter (\<lambda>d. (s, d) \<notin> opn') keys \<and>
    ex = (case rev (filter (\<lambda>d. (s, d) \<in> opn') keys) of [] \<Rightarrow> None | d # _ \<Rightarrow> Some (PriorityQueueEntry d (cnt s d)))"
proof -
  have len: "length tags = k" using c by (simp add: dests_counted_def)
  have dk: "distinct keys" and keys: "set keys = {d. 0 < cnt s d}"
    using c s dests_counted_keys [OF c s] by (auto simp: dests_counted_def bt_ok_distinct keys_def)
  define I where "I = (\<lambda>ds (queue, ex, nex :: nat, t). \<exists>opn'. incoming_counted k cnt init opn' t \<and> (\<forall>i. dests t i = dests tags i) \<and>
    map tag_frame t = map tag_frame tags \<and> opn' \<subseteq> opn \<and> opn - {s} \<times> set ds \<subseteq> opn' \<and>
    map dest_index queue = filter (\<lambda>d. (s, d) \<notin> opn') ds \<and>
    ex = (case rev (filter (\<lambda>d. (s, d) \<in> opn') ds) of [] \<Rightarrow> None | d # _ \<Rightarrow> Some (PriorityQueueEntry d (cnt s d))))"
  have "\<exists>r. each_some (select_dest s) keys ([], None, 0, tags) = Some r \<and> I keys r"
  proof (rule each_some_inv)
    show "I [] ([], None, 0, tags)" using inc by (auto simp: I_def)
  next
    fix ds d es and r :: "PriorityQueueEntry list \<times> PriorityQueueEntry option \<times> nat \<times> EncodedTagInfo list"
    assume z: "keys = ds @ d # es" and I: "I ds r"
    obtain queue ex nex t where r: "r = (queue, ex, nex, t)" by (metis surj_pair)
    obtain opn' where o: "incoming_counted k cnt init opn' t" "\<forall>i. dests t i = dests tags i" "map tag_frame t = map tag_frame tags"
      "opn' \<subseteq> opn" "opn - {s} \<times> set ds \<subseteq> opn'" "map dest_index queue = filter (\<lambda>d. (s, d) \<notin> opn') ds"
      "ex = (case rev (filter (\<lambda>d. (s, d) \<in> opn') ds) of [] \<Rightarrow> None | d # _ \<Rightarrow> Some (PriorityQueueEntry d (cnt s d)))"
      using I r by (auto simp: I_def)
    have fresh: "d \<notin> set ds" and "d \<in> set keys" using dk z by auto
    then have pos: "0 < cnt s d" using keys by simp
    obtain di where di: "d < k" "bt_get d (dests tags s) = Some di" "di_num_transitions di = cnt s d"
      using dests_counted_get [OF c pos] by blast
    have lt: "length t = k" using o(1) by (simp add: incoming_counted_def)
    have dp: "di_pos di = (if (s, d) \<in> opn then NO_POS else IN_LIST_POS)"
      using mk [rule_format, OF pos] di by (simp add: dest_pos_def)
    have sel: "select_dest s d r =
        (if di_pos di = IN_LIST_POS then Some (queue @ [PriorityQueueEntry d (cnt s d)], ex, nex, t)
         else if cnt s d = et_num_incoming (t ! d)
         then Option.bind (sub_incoming d (cnt s d) t) (\<lambda>t. Some (queue @ [PriorityQueueEntry d (cnt s d)], ex, nex, t))
         else Some (queue, Some (PriorityQueueEntry d (cnt s d)), nex + cnt s d, t))"
      using di lt s o(2) by (simp add: select_dest_def r item_at_def Let_def)
    show "\<exists>r'. select_dest s d r = Some r' \<and> I (ds @ [d]) r'"
    proof (cases "(s, d) \<in> opn")
      case False
      then have "(s, d) \<notin> opn'" using o(4) by blast
      then have "I (ds @ [d]) (queue @ [PriorityQueueEntry d (cnt s d)], ex, nex, t)"
        unfolding I_def prod.case using o by (intro exI [of _ opn']) auto
      then show ?thesis using sel dp False by simp
    next
      case True
      have in': "(s, d) \<in> opn'" using True o(5) fresh by blast
      have ne: "di_pos di \<noteq> IN_LIST_POS" using dp True by (simp add: NO_POS_def IN_LIST_POS_def)
      show ?thesis
      proof (cases "cnt s d = et_num_incoming (t ! d)")
        case eq: True
        obtain n where n: "sub_incoming d (cnt s d) t = Some (t[d := (t ! d)\<lparr>et_num_incoming := n\<rparr>])"
          "incoming_counted k cnt init (opn' - {(s, d)}) (t[d := (t ! d)\<lparr>et_num_incoming := n\<rparr>])"
          using sub_incoming_ok [OF o(1) in' s di(1)] by blast
        have flt: "filter (\<lambda>d'. (s, d') \<notin> opn' - {(s, d)}) (ds @ [d]) = filter (\<lambda>d. (s, d) \<notin> opn') ds @ [d]"
          "filter (\<lambda>d'. (s, d') \<in> opn' - {(s, d)}) (ds @ [d]) = filter (\<lambda>d. (s, d) \<in> opn') ds"
          using fresh by (auto intro!: filter_cong)
        have "I (ds @ [d]) (queue @ [PriorityQueueEntry d (cnt s d)], ex, nex, t[d := (t ! d)\<lparr>et_num_incoming := n\<rparr>])"
          unfolding I_def prod.case using o n(2) by (intro exI [of _ "opn' - {(s, d)}"], unfold flt) auto
        then show ?thesis using sel ne eq n(1) by simp
      next
        case neq: False
        have "I (ds @ [d]) (queue, Some (PriorityQueueEntry d (cnt s d)), nex + cnt s d, t)"
          unfolding I_def prod.case using o in' by (intro exI [of _ opn']) auto
        then show ?thesis using sel ne neq by simp
      qed
    qed
  qed
  then obtain queue ex nex t where "each_some (select_dest s) keys ([], None, 0, tags) = Some (queue, ex, nex, t)"
    "I keys (queue, ex, nex, t)" by auto
  moreover have "{s} \<times> set keys \<subseteq> {s} \<times> UNIV" by auto
  ultimately show ?thesis unfolding I_def prod.case by blast
qed

lemma dests_length:
  assumes "dests_counted k cnt tags" "s < k"
  shows "length (dests tags s) = card {d. 0 < cnt s d}"
proof -
  have "distinct (bt_keys (dests tags s))" using assms by (simp add: dests_counted_def bt_ok_distinct)
  then have "card (set (bt_keys (dests tags s))) = length (dests tags s)" by (simp add: distinct_card bt_length_keys)
  then show ?thesis using dests_counted_keys [OF assms] by simp
qed

lemma complete_ok:
  assumes c: "dests_counted k cnt t" and inc: "incoming_counted k cnt init opn t" and s: "s < k"
  defines "keys \<equiv> bt_keys (dests t s)"
  assumes q: "map dest_index queue = filter (\<lambda>d. (s, d) \<notin> opn) keys"
    and ex: "ex = (case rev (filter (\<lambda>d. (s, d) \<in> opn) keys) of [] \<Rightarrow> None | d # _ \<Rightarrow> Some (PriorityQueueEntry d (cnt s d)))"
  shows "\<exists>queue' t' opn'. complete_queue (length (dests t s)) queue ex t = Some (queue', length queue', t') \<and>
    incoming_counted k cnt init opn' t' \<and> (\<forall>i. dests t' i = dests t i) \<and> map tag_frame t' = map tag_frame t \<and>
    opn' \<subseteq> opn \<and> opn - {s} \<times> UNIV \<subseteq> opn' \<and>
    distinct (map dest_index queue') \<and> dest_index ` set queue' = {d. 0 < cnt s d \<and> (s, d) \<notin> opn'} \<and>
    length queue \<le> length queue' \<and> length queue' \<le> length (dests t s) \<and>
    (length queue' = length (dests t s) \<longleftrightarrow> (\<forall>d. 0 < cnt s d \<longrightarrow> (s, d) \<notin> opn'))"
proof -
  let ?sz = "length (dests t s)"
  have dk: "distinct keys" and keys: "set keys = {d. 0 < cnt s d}" and lk: "length keys = ?sz"
    using c s dests_counted_keys [OF c s] by (auto simp: dests_counted_def bt_ok_distinct keys_def bt_length_keys)
  have lq: "length queue = length (filter (\<lambda>d. (s, d) \<notin> opn) keys)" using q by (metis length_map)
  have sum: "length queue + length (filter (\<lambda>d. (s, d) \<in> opn) keys) = ?sz"
    using sum_length_filter_compl [of "\<lambda>d. (s, d) \<in> opn" keys] lq lk by simp
  have dq: "distinct (map dest_index queue)" using q dk by simp
  have qs: "dest_index ` set queue = {d. 0 < cnt s d \<and> (s, d) \<notin> opn}"
  proof -
    have "set (map dest_index queue) = set (filter (\<lambda>d. (s, d) \<notin> opn) keys)" by (simp only: q)
    then show ?thesis using keys by auto
  qed
  show ?thesis
  proof (cases "length queue + 1 = ?sz")
    case False
    have "length queue = ?sz \<longleftrightarrow> filter (\<lambda>d. (s, d) \<in> opn) keys = []" using sum by auto
    also have "\<dots> \<longleftrightarrow> (\<forall>d. 0 < cnt s d \<longrightarrow> (s, d) \<notin> opn)" using keys by (auto simp: filter_empty_conv)
    finally show ?thesis using False inc dq qs sum
      by (intro exI [of _ queue] exI [of _ t] exI [of _ opn]) (auto simp: complete_queue_def)
  next
    case True
    then have "length (filter (\<lambda>d. (s, d) \<in> opn) keys) = 1" using sum by simp
    then obtain d where d: "filter (\<lambda>d. (s, d) \<in> opn) keys = [d]" by (auto simp: length_Suc_conv)
    then have "d \<in> set (filter (\<lambda>d. (s, d) \<in> opn) keys)" by simp
    then have pos: "0 < cnt s d" "(s, d) \<in> opn" using keys by auto
    have uniq: "d' = d" if "0 < cnt s d'" "(s, d') \<in> opn" for d'
    proof -
      have "d' \<in> set (filter (\<lambda>d. (s, d) \<in> opn) keys)" using that keys by simp
      then show ?thesis unfolding d by simp
    qed
    obtain n where n: "sub_incoming d (cnt s d) t = Some (t[d := (t ! d)\<lparr>et_num_incoming := n\<rparr>])"
      "incoming_counted k cnt init (opn - {(s, d)}) (t[d := (t ! d)\<lparr>et_num_incoming := n\<rparr>])"
      using sub_incoming_ok [OF inc pos(2) s dests_counted_get(2) [OF c pos(1)]] by blast
    let ?q = "queue @ [PriorityQueueEntry d (cnt s d)]"
    have cq: "complete_queue ?sz queue ex t = Some (?q, length ?q, t[d := (t ! d)\<lparr>et_num_incoming := n\<rparr>])"
      using True ex d n(1) by (simp add: complete_queue_def)
    have ds: "dest_index ` set ?q = {d'. 0 < cnt s d' \<and> (s, d') \<notin> opn - {(s, d)}}"
    proof -
      have "d' = d \<or> 0 < cnt s d' \<and> (s, d') \<notin> opn \<longleftrightarrow> 0 < cnt s d' \<and> (s, d') \<notin> opn - {(s, d)}" for d'
        using pos by (cases "d' = d") simp_all
      then show ?thesis using qs by auto
    qed
    have dd: "distinct (map dest_index ?q)" using dq qs pos by auto
    have len: "length queue \<le> length ?q" "length ?q = ?sz" using True by simp_all
    have all: "\<forall>d'. 0 < cnt s d' \<longrightarrow> (s, d') \<notin> opn - {(s, d)}" using uniq by blast
    have sub: "opn - {(s, d)} \<subseteq> opn" "opn - {s} \<times> UNIV \<subseteq> opn - {(s, d)}" by auto
    have same: "\<forall>i. dests (t[d := (t ! d)\<lparr>et_num_incoming := n\<rparr>]) i = dests t i"
      "map tag_frame (t[d := (t ! d)\<lparr>et_num_incoming := n\<rparr>]) = map tag_frame t" by simp_all
    show ?thesis using cq n(2) same sub dd ds len(1) eq_refl [OF len(2)] len(2) all by blast
  qed
qed

end
