(* ===== verification/EncoderPlaces.thy ===== *)
theory EncoderPlaces
  imports EncoderTables
begin

text \<open>
  The private lists: after all of them are built, every transition that occurs has a state in the private
  list of its source, or is still counted for the public list.
\<close>

section \<open>The places of the transitions of a tag\<close>

definition noop_pos :: "EncodedTagInfo list \<Rightarrow> nat \<Rightarrow> nat" where
  "noop_pos tags s = et_public_list_noop_pos (tags ! s)"

definition base_of :: "EncodedTagInfo list \<Rightarrow> nat \<Rightarrow> nat" where
  "base_of tags s = et_base (tags ! s)"

text \<open>A tag without a private list: all its transitions are open.\<close>

definition unlisted :: "(nat \<Rightarrow> nat \<Rightarrow> nat) \<Rightarrow> (nat \<times> nat) set \<Rightarrow> EncodedTagInfo list \<Rightarrow> nat \<Rightarrow> bool" where
  "unlisted cnt opn tags s \<longleftrightarrow> base_of tags s = NO_POS \<and> noop_pos tags s = NO_POS \<and>
     (\<forall>d. 0 < cnt s d \<longrightarrow> (s, d) \<in> opn \<and> dest_pos tags s d = NO_POS)"

text \<open>A tag with a private list, which goes up to \<open>h\<close>.\<close>

definition listed_to ::
  "nat \<Rightarrow> (nat \<times> nat) list \<Rightarrow> (nat \<Rightarrow> nat \<Rightarrow> nat) \<Rightarrow> (nat \<times> nat) set \<Rightarrow> StateInfo list \<Rightarrow> EncodedTagInfo list \<Rightarrow> nat \<Rightarrow> bool" where
  "listed_to h placed cnt opn states tags s \<longleftrightarrow>
     base_of tags s < h \<and> list_built (base_of tags s) h placed states \<and>
     (length (dests tags s) = 1 \<longrightarrow> h = base_of tags s + 1 \<and> (\<forall>d. 0 < cnt s d \<longrightarrow> (s, d) \<notin> opn)) \<and>
     (noop_pos tags s \<noteq> NO_POS \<longrightarrow>
        (NO_POS, noop_pos tags s) \<in> set placed \<and> (\<exists>d. 0 < cnt s d \<and> (s, d) \<in> opn)) \<and>
     (\<forall>d. 0 < cnt s d \<longrightarrow>
        (if (s, d) \<in> opn then dest_pos tags s d = NO_POS \<and> noop_pos tags s \<noteq> NO_POS
         else (d, dest_pos tags s d) \<in> set placed))"

definition listed ::
  "(nat \<Rightarrow> nat \<Rightarrow> nat) \<Rightarrow> (nat \<times> nat) set \<Rightarrow> StateInfo list \<Rightarrow> EncodedTagInfo list \<Rightarrow> nat \<Rightarrow> bool" where
  "listed cnt opn states tags s \<longleftrightarrow> unlisted cnt opn tags s \<or> (\<exists>h placed. listed_to h placed cnt opn states tags s)"

text \<open>A tag whose list is not built yet.\<close>

definition unbuilt :: "(nat \<Rightarrow> nat \<Rightarrow> nat) \<Rightarrow> (nat \<times> nat) set \<Rightarrow> EncodedTagInfo list \<Rightarrow> nat \<Rightarrow> bool" where
  "unbuilt cnt opn tags s \<longleftrightarrow> base_of tags s = NO_POS \<and> noop_pos tags s = NO_POS \<and>
     (\<forall>d. 0 < cnt s d \<longrightarrow> dest_pos tags s d = (if (s, d) \<in> opn then NO_POS else IN_LIST_POS))"

definition noops_ok :: "nat \<Rightarrow> StateInfo list \<Rightarrow> EncodedTagInfo list \<Rightarrow> (nat \<times> nat) list \<Rightarrow> bool" where
  "noops_ok k states tags noops \<longleftrightarrow>
     (\<forall>(s, q) \<in> set noops. s < k \<and> noop_pos tags s = q \<and> q < length states \<and>
        si_etag_index (states ! q) = NO_POS \<and> si_base (states ! q) = NO_POS) \<and>
     (\<forall>s < k. noop_pos tags s \<noteq> NO_POS \<longrightarrow> (s, noop_pos tags s) \<in> set noops) \<and> distinct (map snd noops)"

definition states_ok :: "nat \<Rightarrow> StateInfo list \<Rightarrow> (nat \<times> nat) list \<Rightarrow> bool" where
  "states_ok k states noops \<longleftrightarrow>
     (\<forall>p < length states. si_etag_index (states ! p) < k \<or>
        si_etag_index (states ! p) = NO_POS \<and> (si_base (states ! p) < length states \<or> p \<in> snd ` set noops))"

lemma list_built_mono:
  assumes b: "list_built l h placed states" and m: "length states \<le> length states'" "take (length states) states' = states"
  shows "list_built l h placed states'"
proof -
  have nth: "states' ! i = states ! i" if "i < length states" for i using m that by (metis nth_take)
  have h: "h \<le> length states" using b by (simp add: list_built_def)
  have "blocks_linked l h states'"
    unfolding blocks_linked_def
  proof (intro allI impI)
    fix p
    assume p: "l \<le> p" "p < h"
    have bl: "block_start l p < length states" using block_start_bounds(2) [OF p(1)] p h by simp
    have f: "si_canonical_source (states ! p) = si_canonical_source (states ! block_start l p)"
      "if p < l + 64 then si_canonical_source (states ! p) = NO_POS
       else leads_to_block l states (si_canonical_source (states ! p)) p"
      using b p by (auto simp: list_built_def blocks_linked_def)
    have "leads_to_block l states' c p" if "leads_to_block l states c p" for c
      using that bl nth [of c] by (auto simp: leads_to_block_def)
    then show "si_canonical_source (states' ! p) = si_canonical_source (states' ! block_start l p) \<and>
        (if p < l + 64 then si_canonical_source (states' ! p) = NO_POS
         else leads_to_block l states' (si_canonical_source (states' ! p)) p)"
      using f p h nth [of p] nth [OF bl] by auto
  qed
  moreover have "placed_ok l h l placed states'"
    using b h nth by (fastforce simp: list_built_def placed_ok_def)
  ultimately show ?thesis using b m h by (simp add: list_built_def)
qed

lemma noop_nodes_le: "noop_nodes n \<le> n"
  by (simp add: noop_nodes_def le_trans [OF div_le_dividend])

section \<open>One private list\<close>

definition tag_ident :: "EncodedTagInfo \<Rightarrow> NodeId \<times> u8 \<times> nat" where
  "tag_ident t = (et_node_id t, et_subtype t, et_state_machine_pos t)"

definition only_at :: "nat \<Rightarrow> EncodedTagInfo list \<Rightarrow> EncodedTagInfo list \<Rightarrow> bool" where
  "only_at s tags tags' \<longleftrightarrow> map tag_ident tags' = map tag_ident tags \<and>
     (\<forall>i. i \<noteq> s \<longrightarrow> dests tags' i = dests tags i \<and> (i < length tags \<longrightarrow> base_of tags' i = base_of tags i \<and> noop_pos tags' i = noop_pos tags i))"

lemma frame_nth:
  assumes "map tag_frame tags' = map tag_frame tags" "i < length tags"
  shows "base_of tags' i = base_of tags i" "noop_pos tags' i = noop_pos tags i" "tag_ident (tags' ! i) = tag_ident (tags ! i)"
proof -
  have "length tags' = length tags" using assms(1) by (rule map_eq_imp_length_eq)
  then have "tag_frame (tags' ! i) = tag_frame (tags ! i)" using assms by (metis nth_map)
  then show "base_of tags' i = base_of tags i" "noop_pos tags' i = noop_pos tags i" "tag_ident (tags' ! i) = tag_ident (tags ! i)"
    by (simp_all add: tag_frame_def base_of_def noop_pos_def tag_ident_def)
qed

lemma static_nth:
  assumes "map tag_static tags' = map tag_static tags" "i < length tags"
  shows "base_of tags' i = base_of tags i" "tag_ident (tags' ! i) = tag_ident (tags ! i)"
    "et_num_incoming (tags' ! i) = et_num_incoming (tags ! i)"
proof -
  have "length tags' = length tags" using assms(1) by (rule map_eq_imp_length_eq)
  then have "tag_static (tags' ! i) = tag_static (tags ! i)" using assms by (metis nth_map)
  then show "base_of tags' i = base_of tags i" "tag_ident (tags' ! i) = tag_ident (tags ! i)"
    "et_num_incoming (tags' ! i) = et_num_incoming (tags ! i)"
    by (simp_all add: tag_static_def base_of_def tag_ident_def)
qed

lemma only_at_frame:
  assumes "map tag_frame tags' = map tag_frame tags" "\<forall>i. dests tags' i = dests tags i"
  shows "only_at s tags tags'"
proof -
  have "length tags' = length tags" using assms(1) by (rule map_eq_imp_length_eq)
  then have "map tag_ident tags' = map tag_ident tags" using frame_nth(3) [OF assms(1)] by (intro nth_equalityI) auto
  then show ?thesis using frame_nth [OF assms(1)] assms(2) by (simp add: only_at_def)
qed

lemma placed_states_ok:
  assumes st: "states_ok k states noops" and b: "list_built (length states) (length states') placed states'"
    and t: "take (length states) states' = states" "length states \<le> length states'"
    and d: "\<forall>(d, p) \<in> set placed. d < k \<or> d = NO_POS \<and> p \<in> snd ` set noops'" and sub: "set noops \<subseteq> set noops'"
  shows "states_ok k states' noops'"
  unfolding states_ok_def
proof (intro allI impI)
  fix p
  assume p: "p < length states'"
  show "si_etag_index (states' ! p) < k \<or>
        si_etag_index (states' ! p) = NO_POS \<and> (si_base (states' ! p) < length states' \<or> p \<in> snd ` set noops')"
  proof (cases "p < length states")
    case True
    then have "states' ! p = states ! p" using t by (metis nth_take)
    then show ?thesis using st True t(2) sub unfolding states_ok_def by fastforce
  next
    case False
    then have "(\<exists>d. (d, p) \<in> set placed) \<or> si_etag_index (states' ! p) = NO_POS \<and> si_base (states' ! p) < length states'"
      using b p by (auto simp: list_built_def placed_ok_def)
    then show ?thesis
    proof
      assume "\<exists>d. (d, p) \<in> set placed"
      then obtain d where dp: "(d, p) \<in> set placed" by blast
      then have "si_etag_index (states' ! p) = d" using b by (auto simp: list_built_def placed_ok_def)
      then show ?thesis using d dp by auto
    qed simp
  qed
qed

lemma private_list_step:
  assumes c: "dests_counted k cnt tags" and inc: "incoming_counted k cnt init opn tags" and s: "s < k"
    and ub: "unbuilt cnt opn tags s" and no: "noops_ok k states tags noops" and st: "states_ok k states noops"
    and small: "length states + 2 * length (dests tags s) \<le> NO_POS" "k + 2 * length (dests tags s) \<le> NO_POS"
  shows "\<exists>states' tags' noops' opn'. build_private_list s (states, tags, noops) = Some (states', tags', noops') \<and>
    dests_counted k cnt tags' \<and> incoming_counted k cnt init opn' tags' \<and> opn' \<subseteq> opn \<and> opn - {s} \<times> UNIV \<subseteq> opn' \<and>
    listed cnt opn' states' tags' s \<and>
    length states \<le> length states' \<and> length states' \<le> length states + 2 * length (dests tags s) \<and>
    take (length states) states' = states \<and> only_at s tags tags' \<and> noops_ok k states' tags' noops' \<and> states_ok k states' noops'"
proof -
  let ?l = "length states" and ?sz = "length (dests tags s)" and ?keys = "bt_keys (dests tags s)"
  have len: "length tags = k" using c by (simp add: dests_counted_def)
  have keys: "set ?keys = {d. 0 < cnt s d}" by (rule dests_counted_keys [OF c s])
  have mk: "\<forall>d. 0 < cnt s d \<longrightarrow> dest_pos tags s d = (if (s, d) \<in> opn then NO_POS else IN_LIST_POS)"
    using ub by (simp add: unbuilt_def)
  obtain queue ex nex t opn1 where sel: "each_some (select_dest s) ?keys ([], None, 0, tags) = Some (queue, ex, nex, t)"
    "incoming_counted k cnt init opn1 t" "\<forall>i. dests t i = dests tags i" "map tag_frame t = map tag_frame tags"
    "opn1 \<subseteq> opn" "opn - {s} \<times> UNIV \<subseteq> opn1" "map dest_index queue = filter (\<lambda>d. (s, d) \<notin> opn1) ?keys"
    "ex = (case rev (filter (\<lambda>d. (s, d) \<in> opn1) ?keys) of [] \<Rightarrow> None | d # _ \<Rightarrow> Some (PriorityQueueEntry d (cnt s d)))"
    using select_ok [OF c inc s mk] by blast
  have lt: "length t = k" using sel(2) by (simp add: incoming_counted_def)
  have ct: "dests_counted k cnt t" by (rule dests_counted_same [OF c]) (use lt len sel(3) in simp_all)
  show ?thesis
  proof (cases "queue = []")
    case True
    have "(s, d) \<in> opn1" if "0 < cnt s d" for d
    proof -
      have "filter (\<lambda>d. (s, d) \<notin> opn1) ?keys = []" using sel(7) True by simp
      then show ?thesis using that keys by (auto simp: filter_empty_conv)
    qed
    then have "unlisted cnt opn1 t s"
      using ub mk sel(3,5) frame_nth [OF sel(4), of s] s len dest_pos_same [of t s tags]
      by (auto simp: unlisted_def unbuilt_def)
    moreover have "noops_ok k states t noops"
      using no frame_nth(2) [OF sel(4)] len by (fastforce simp: noops_ok_def)
    moreover have "build_private_list s (states, tags, noops) = Some (states, t, noops)"
      using sel(1) True s len by (simp add: build_private_list_def item_at_def)
    ultimately show ?thesis
      using ct sel(2,5,6) only_at_frame [OF sel(4,3)] st
      by (intro exI [of _ states] exI [of _ t] exI [of _ noops] exI [of _ opn1]) (simp add: listed_def)
  next
    case False
    obtain queue2 t2 opn2 where com: "complete_queue ?sz queue ex t = Some (queue2, length queue2, t2)"
      "incoming_counted k cnt init opn2 t2" "\<forall>i. dests t2 i = dests tags i" "map tag_frame t2 = map tag_frame tags"
      "opn2 \<subseteq> opn1" "opn1 - {s} \<times> UNIV \<subseteq> opn2" "distinct (map dest_index queue2)"
      "dest_index ` set queue2 = {d. 0 < cnt s d \<and> (s, d) \<notin> opn2}" "length queue \<le> length queue2" "length queue2 \<le> ?sz"
      "length queue2 = ?sz \<longleftrightarrow> (\<forall>d. 0 < cnt s d \<longrightarrow> (s, d) \<notin> opn2)"
      using complete_ok [OF ct sel(2) s, of queue ex] sel(3,4,7,8) by auto
    have l2: "length t2 = k" using com(2) by (simp add: incoming_counted_def)
    define t3 where "t3 = t2[s := (t2 ! s)\<lparr>et_base := ?l\<rparr>]"
    define queue3 where "queue3 = (if length queue2 \<noteq> ?sz then queue2 @ [PriorityQueueEntry NO_POS nex] else queue2)"
    let ?f = "\<lparr>fl_queue = queue3, fl_prev = 0, fl_states = states, fl_noop_base = [], fl_tags = t3, fl_public_noops = noops\<rparr>"
    have l3: "length t3 = k" using l2 by (simp add: t3_def)
    have d3: "dests t3 i = dests tags i" for i using com(3) l2 s by (simp add: t3_def nth_list_update)
    have c3: "dests_counted k cnt t3" by (rule dests_counted_same [OF c]) (use l3 len d3 in simp_all)
    have kn: "k \<le> NO_POS" using small(2) by simp
    have dk: "d < k \<and> d < NO_POS" if "0 < cnt s d" for d using dests_counted_get(2) [OF c that] kn by simp
    have q3: "queue3 \<noteq> []" "length queue3 \<le> ?sz" using False com(9,10) by (auto simp: queue3_def)
    have ds3: "dest_index ` set queue3 = {d. 0 < cnt s d \<and> (s, d) \<notin> opn2} \<union> (if length queue2 \<noteq> ?sz then {NO_POS} else {})"
      using com(8) by (simp add: queue3_def)
    have dist3: "distinct (map dest_index queue3)"
    proof -
      have "NO_POS \<notin> dest_index ` set queue2" unfolding com(8) using dk [of NO_POS] by auto
      then show ?thesis using com(7) by (auto simp: queue3_def)
    qed
    have v3: "\<forall>e \<in> set queue3. valid_private s (dest_index e) t3 \<and> (dest_index e < length t3 \<or> NO_POS \<le> dest_index e)"
    proof
      fix e
      assume "e \<in> set queue3"
      then have "dest_index e \<in> dest_index ` set queue3" by blast
      then have "0 < cnt s (dest_index e) \<or> dest_index e = NO_POS" using ds3 by (auto split: if_splits)
      then show "valid_private s (dest_index e) t3 \<and> (dest_index e < length t3 \<or> NO_POS \<le> dest_index e)"
        using dk dests_counted_get(3) [OF c3, of s "dest_index e"] s l3 kn by (auto simp: valid_private_def)
    qed
    define n where "n = length queue3 + noop_nodes (length queue3)"
    have n: "n \<le> 2 * ?sz" using q3(2) noop_nodes_le [of "length queue3"] by (simp add: n_def)
    obtain f' placed where f': "fill_list (private_entry s) ?f = Some f'" "length (fl_states f') = ?l + n" "take ?l (fl_states f') = states"
      "list_built ?l (?l + n) placed (fl_states f')" "distinct (map fst placed)" "fst ` set placed = dest_index ` set queue3"
      "(fl_tags f', fl_public_noops f') = fold (\<lambda>(d, p). note_private s d p) placed (t3, noops)"
      using private_states.fill_list_builds [of ?f s n ?l] q3(1) dist3 v3 n small l3 by (auto simp: n_def)
    have pv: "\<forall>(d, p) \<in> set placed. d \<noteq> NO_POS \<longrightarrow> 0 < cnt s d"
      using f'(6) ds3 by (force split: if_splits)
    note nt = private_noted [OF f'(5) pv s c3 f'(7) [symmetric]]
    let ?t' = "fl_tags f'" and ?s' = "fl_states f'" and ?n' = "fl_public_noops f'"
    have lt': "length ?t' = k" using nt by (simp add: dests_counted_def)
    have mp: "map_of placed d = Some p \<longleftrightarrow> (d, p) \<in> set placed" for d p using f'(5) by simp
    have st3: "map tag_ident t3 = map tag_ident tags"
      using frame_nth(3) [OF com(4)] l2 len s by (intro nth_equalityI) (auto simp: t3_def nth_list_update tag_ident_def)
    have oa: "only_at s tags ?t'"
    proof -
      have "map tag_ident ?t' = map tag_ident t3" using static_nth(2) [of ?t' t3] nt l3 lt' by (intro nth_equalityI) auto
      moreover have "dests ?t' i = dests tags i" "i < k \<Longrightarrow> base_of ?t' i = base_of tags i \<and> noop_pos ?t' i = noop_pos tags i"
        if "i \<noteq> s" for i
        using nt that d3 [of i] frame_nth [OF com(4), of i] len by (auto simp: t3_def base_of_def noop_pos_def)
      ultimately show ?thesis using st3 len by (simp add: only_at_def)
    qed
    have base: "base_of ?t' s = ?l" using static_nth(1) [of ?t' t3 s] nt s l3 l2 by (simp add: t3_def base_of_def)
    have noop3: "et_public_list_noop_pos (t3 ! s) = NO_POS"
      using ub frame_nth(2) [OF com(4), of s] s len l2 by (simp add: t3_def unbuilt_def noop_pos_def)
    have in_noop: "NO_POS \<in> fst ` set placed \<longleftrightarrow> length queue2 \<noteq> ?sz"
      unfolding f'(6) ds3 using dk [of NO_POS] by auto
    have noop: "if length queue2 \<noteq> ?sz then (NO_POS, noop_pos ?t' s) \<in> set placed \<and> ?n' = noops @ [(s, noop_pos ?t' s)]
      else noop_pos ?t' s = NO_POS \<and> ?n' = noops"
    proof (cases "length queue2 \<noteq> ?sz")
      case True
      then obtain p where p: "(NO_POS, p) \<in> set placed" using in_noop by force
      then have "map_of placed NO_POS = Some p" using mp by blast
      then show ?thesis using True nt p by (simp add: noop_pos_def)
    next
      case f: False
      then have "map_of placed NO_POS = None" using in_noop by (simp add: map_of_eq_None_iff)
      then show ?thesis using f nt noop3 by (simp add: noop_pos_def)
    qed
    have pb: "p < ?l + n" "?l \<le> p" "si_etag_index (?s' ! p) = d" "si_base (?s' ! p) = NO_POS" if "(d, p) \<in> set placed" for d p
      using f'(4) that by (auto simp: list_built_def placed_ok_def)
    have ln: "?l + n \<le> NO_POS" using small(1) n by simp
    have lst: "listed_to (?l + n) placed cnt opn2 ?s' ?t' s"
      unfolding listed_to_def base
    proof (intro conjI impI allI)
      show "?l < ?l + n" using q3(1) by (simp add: n_def)
      show "list_built ?l (?l + n) placed ?s'" by (rule f'(4))
    next
      assume "length (dests ?t' s) = 1"
      then have sz: "?sz = 1" using dests_length [of k cnt ?t' s] dests_length [OF c s] nt s by simp
      then have "length queue3 = 1" using q3 by (cases queue3) auto
      then show "?l + n = ?l + 1" by (simp add: n_def noop_nodes_def MAX_TRANSITION_def)
      have "length queue2 = ?sz" using sz False com(9,10) by (cases queue) auto
      then show "(s, d) \<notin> opn2" if "0 < cnt s d" for d using com(11) that by blast
    next
      assume "noop_pos ?t' s \<noteq> NO_POS"
      then have "length queue2 \<noteq> ?sz" using noop by (auto split: if_splits)
      then show "(NO_POS, noop_pos ?t' s) \<in> set placed" "\<exists>d. 0 < cnt s d \<and> (s, d) \<in> opn2"
        using noop com(11) by auto
    next
      fix d
      assume d: "0 < cnt s d"
      have dp: "dest_pos ?t' s d = (case map_of placed d of None \<Rightarrow> dest_pos tags s d | Some p \<Rightarrow> p)"
        using nt dk [OF d] dest_pos_same [OF d3, of s d] by (simp split: option.split)
      show "if (s, d) \<in> opn2 then dest_pos ?t' s d = NO_POS \<and> noop_pos ?t' s \<noteq> NO_POS else (d, dest_pos ?t' s d) \<in> set placed"
      proof (cases "(s, d) \<in> opn2")
        case True
        then have "d \<notin> fst ` set placed" using f'(6) ds3 dk [OF d] by (auto split: if_splits)
        then have "map_of placed d = None" by (simp add: map_of_eq_None_iff)
        then have "dest_pos ?t' s d = NO_POS" using dp mk d True com(5) sel(5) by auto
        moreover have "length queue2 \<noteq> ?sz" using True d com(11) by blast
        then have "(NO_POS, noop_pos ?t' s) \<in> set placed" using noop by simp
        then have "noop_pos ?t' s \<noteq> NO_POS" using pb(1) ln by fastforce
        ultimately show ?thesis using True by simp
      next
        case f: False
        then have "d \<in> fst ` set placed" using f'(6) ds3 d by auto
        then obtain p where p: "(d, p) \<in> set placed" by force
        then have "map_of placed d = Some p" using mp by blast
        then show ?thesis using f dp p by simp
      qed
    qed
    have nk: "noops_ok k ?s' ?t' ?n'"
    proof -
      have old: "i < k \<and> noop_pos ?t' i = q \<and> q < length ?s' \<and> si_etag_index (?s' ! q) = NO_POS \<and> si_base (?s' ! q) = NO_POS"
        if iq: "(i, q) \<in> set noops" for i q
      proof -
        have o: "i < k" "noop_pos tags i = q" "q < ?l" "si_etag_index (states ! q) = NO_POS" "si_base (states ! q) = NO_POS"
          using no iq by (auto simp: noops_ok_def)
        have "i \<noteq> s" using o ub ln by (auto simp: unbuilt_def)
        moreover have "?s' ! q = states ! q" using f'(3) o(3) by (metis nth_take)
        ultimately show ?thesis using o oa len f'(2) by (simp add: only_at_def)
      qed
      have others: "(i, noop_pos ?t' i) \<in> set noops" if "i < k" "noop_pos ?t' i \<noteq> NO_POS" "i \<noteq> s" for i
        using that oa no len by (auto simp: noops_ok_def only_at_def)
      have new: "i < k \<and> noop_pos ?t' i = q \<and> q < length ?s' \<and> si_etag_index (?s' ! q) = NO_POS \<and> si_base (?s' ! q) = NO_POS"
        if "(i, q) \<in> set ?n'" "(i, q) \<notin> set noops" for i q
      proof -
        have "(NO_POS, noop_pos ?t' s) \<in> set placed" "i = s" "q = noop_pos ?t' s"
          using noop that by (auto split: if_splits)
        then show ?thesis using s pb f'(2) by simp
      qed
      have "(s, noop_pos ?t' s) \<in> set ?n'" if "noop_pos ?t' s \<noteq> NO_POS" using noop that by (auto split: if_splits)
      moreover have "set noops \<subseteq> set ?n'" using noop by (auto split: if_splits)
      ultimately have "\<forall>i < k. noop_pos ?t' i \<noteq> NO_POS \<longrightarrow> (i, noop_pos ?t' i) \<in> set ?n'" using others by blast
      moreover have "\<forall>(i, q) \<in> set ?n'. i < k \<and> noop_pos ?t' i = q \<and> q < length ?s' \<and>
          si_etag_index (?s' ! q) = NO_POS \<and> si_base (?s' ! q) = NO_POS"
        using old new by blast
      moreover have "distinct (map snd ?n')"
      proof -
        have d: "distinct (map snd noops)" and o: "q < ?l" if "(i, q) \<in> set noops" for i q
          using no that by (auto simp: noops_ok_def)
        have "distinct (map snd noops)" using no by (simp add: noops_ok_def)
        moreover have "noop_pos ?t' s \<notin> snd ` set noops" if "(NO_POS, noop_pos ?t' s) \<in> set placed"
          using pb(2) [OF that] o by fastforce
        ultimately show ?thesis using noop by (auto split: if_splits)
      qed
      ultimately show ?thesis by (simp add: noops_ok_def)
    qed
    have sk: "states_ok k ?s' ?n'"
    proof (rule placed_states_ok [OF st, of _ placed])
      show "list_built ?l (length ?s') placed ?s'" using f'(2,4) by simp
      show "\<forall>(d, p) \<in> set placed. d < k \<or> d = NO_POS \<and> p \<in> snd ` set ?n'"
      proof -
        have "d < k \<or> d = NO_POS \<and> p \<in> snd ` set ?n'" if dp: "(d, p) \<in> set placed" for d p
        proof (cases "d = NO_POS")
          case True
          then have "NO_POS \<in> fst ` set placed" using dp by force
          then have "length queue2 \<noteq> ?sz" by (simp add: in_noop)
          then have "(NO_POS, noop_pos ?t' s) \<in> set placed" "?n' = noops @ [(s, noop_pos ?t' s)]"
            using noop by simp_all
          then show ?thesis using True dp f'(5) by (auto dest: eq_key_imp_eq_value)
        next
          case f: False
          then show ?thesis using pv dp dk by blast
        qed
        then show ?thesis by blast
      qed
      show "set noops \<subseteq> set ?n'" using noop by (auto split: if_splits)
    qed (use f'(2,3) in simp_all)
    have bl: "build_private_list s (states, tags, noops) = Some (?s', ?t', ?n')"
      using sel(1) False com(1) s len l2 f'(1)
      by (simp add: build_private_list_def item_at_def update_at_def t3_def queue3_def)
    have "incoming_counted k cnt init opn2 ?t'"
    proof (rule incoming_counted_same [OF com(2)])
      show "map et_num_incoming ?t' = map et_num_incoming t2"
        using static_nth(3) [of ?t' t3] nt l2 l3 lt' s by (intro nth_equalityI) (auto simp: t3_def nth_list_update)
    qed
    moreover have "opn2 \<subseteq> opn" "opn - {s} \<times> UNIV \<subseteq> opn2" using sel(5,6) com(5,6) by blast+
    moreover have "listed cnt opn2 ?s' ?t' s" using lst by (auto simp: listed_def)
    moreover have "dests_counted k cnt ?t'" using nt by simp
    ultimately show ?thesis using bl f'(2,3) n oa nk sk by auto
  qed
qed

section \<open>All private lists\<close>

definition key_count :: "(nat \<Rightarrow> nat \<Rightarrow> nat) \<Rightarrow> nat \<Rightarrow> nat" where
  "key_count cnt s = card {d. 0 < cnt s d}"

definition lists_built ::
  "nat \<Rightarrow> (nat \<Rightarrow> nat \<Rightarrow> nat) \<Rightarrow> (nat \<Rightarrow> nat) \<Rightarrow> EncodedTagInfo list \<Rightarrow> nat list \<Rightarrow>
   StateInfo list \<times> EncodedTagInfo list \<times> (nat \<times> nat) list \<Rightarrow> (nat \<times> nat) set \<Rightarrow> bool" where
  "lists_built k cnt init tags0 xs = (\<lambda>(states, tags, noops) opn.
     dests_counted k cnt tags \<and> incoming_counted k cnt init opn tags \<and>
     (\<forall>s \<in> set xs. listed cnt opn states tags s) \<and> (\<forall>s < k. s \<notin> set xs \<longrightarrow> unbuilt cnt opn tags s) \<and>
     noops_ok k states tags noops \<and> states_ok k states noops \<and>
     length states \<le> 2 * (\<Sum>s\<leftarrow>xs. key_count cnt s) \<and> map tag_ident tags = map tag_ident tags0)"

lemma open_same: "opn' \<subseteq> opn \<Longrightarrow> opn - {s} \<times> UNIV \<subseteq> opn' \<Longrightarrow> i \<noteq> s \<Longrightarrow> (i, d) \<in> opn' \<longleftrightarrow> (i, d) \<in> opn"
  by auto

lemma listed_other:
  assumes l: "listed cnt opn states tags i" and o: "opn' \<subseteq> opn" "opn - {s} \<times> UNIV \<subseteq> opn'" and i: "i \<noteq> s" "i < length tags"
    and oa: "only_at s tags tags'" and st: "length states \<le> length states'" "take (length states) states' = states"
  shows "listed cnt opn' states' tags' i"
proof -
  have e: "base_of tags' i = base_of tags i" "noop_pos tags' i = noop_pos tags i" "dests tags' i = dests tags i"
    "\<And>d. dest_pos tags' i d = dest_pos tags i d"
    using oa i by (auto simp: only_at_def intro: dest_pos_same)
  have "unlisted cnt opn' tags' i" if "unlisted cnt opn tags i"
    using that e open_same [OF o i(1)] by (simp add: unlisted_def)
  moreover have "listed_to h placed cnt opn' states' tags' i" if "listed_to h placed cnt opn states tags i" for h placed
    using that e open_same [OF o i(1)] list_built_mono [OF _ st] by (simp add: listed_to_def)
  ultimately show ?thesis using l unfolding listed_def by blast
qed

lemma unbuilt_other:
  assumes "unbuilt cnt opn tags i" and o: "opn' \<subseteq> opn" "opn - {s} \<times> UNIV \<subseteq> opn'" and i: "i \<noteq> s" "i < length tags"
    and oa: "only_at s tags tags'"
  shows "unbuilt cnt opn' tags' i"
proof -
  have e: "base_of tags' i = base_of tags i" "noop_pos tags' i = noop_pos tags i" "\<And>d. dest_pos tags' i d = dest_pos tags i d"
    using oa i by (auto simp: only_at_def intro: dest_pos_same)
  then show ?thesis using assms(1) open_same [OF o i(1)] by (simp add: unbuilt_def)
qed

lemma lists_built_start:
  assumes m: "marking k cnt init tags0 opn tags" and fresh: "\<forall>s < k. base_of tags0 s = NO_POS \<and> noop_pos tags0 s = NO_POS"
  shows "lists_built k cnt init tags0 [] ([], tags, []) opn"
proof -
  have fr: "map tag_frame tags = map tag_frame tags0" using m by (simp add: marking_def)
  have len: "length tags = k" using m by (simp add: marking_def dests_counted_def)
  have len0: "length tags0 = k" using map_eq_imp_length_eq [OF fr] len by simp
  have "unbuilt cnt opn tags s" if "s < k" for s
    using m fresh frame_nth [OF fr, of s] that len0 by (simp add: marking_def marked_ok_def unbuilt_def)
  moreover have "noops_ok k [] tags []"
    using fresh frame_nth(2) [OF fr] len0 by (simp add: noops_ok_def)
  moreover have "map tag_ident tags = map tag_ident tags0"
    using frame_nth(3) [OF fr] len len0 by (intro nth_equalityI) auto
  ultimately show ?thesis using m by (simp add: lists_built_def marking_def states_ok_def)
qed

lemma lists_built_step:
  assumes lb: "lists_built k cnt init tags0 xs (states, tags, noops) opn" and s: "s < k" "s \<notin> set xs" and xs: "set xs \<subseteq> {..<k}"
    and small: "2 * (\<Sum>s\<leftarrow>xs @ [s]. key_count cnt s) + k \<le> NO_POS"
  shows "\<exists>r opn'. build_private_list s (states, tags, noops) = Some r \<and> lists_built k cnt init tags0 (xs @ [s]) r opn'"
proof -
  have c: "dests_counted k cnt tags" and inc: "incoming_counted k cnt init opn tags" and ub: "unbuilt cnt opn tags s"
    and no: "noops_ok k states tags noops" and st: "states_ok k states noops"
    and ls: "length states \<le> 2 * (\<Sum>s\<leftarrow>xs. key_count cnt s)"
    using lb s by (auto simp: lists_built_def)
  have len: "length tags = k" using c by (simp add: dests_counted_def)
  have kc: "length (dests tags s) = key_count cnt s" using dests_length [OF c s(1)] by (simp add: key_count_def)
  have sm: "length states + 2 * length (dests tags s) \<le> NO_POS" "k + 2 * length (dests tags s) \<le> NO_POS"
    using small ls kc by simp_all
  obtain states' tags' noops' opn' where r: "build_private_list s (states, tags, noops) = Some (states', tags', noops')"
    "dests_counted k cnt tags'" "incoming_counted k cnt init opn' tags'" "opn' \<subseteq> opn" "opn - {s} \<times> UNIV \<subseteq> opn'"
    "listed cnt opn' states' tags' s" "length states \<le> length states'"
    "length states' \<le> length states + 2 * length (dests tags s)" "take (length states) states' = states"
    "only_at s tags tags'" "noops_ok k states' tags' noops'" "states_ok k states' noops'"
    using private_list_step [OF c inc s(1) ub no st sm] by blast
  have "listed cnt opn' states' tags' i" if "i \<in> set xs" for i
    using lb that xs s len by (intro listed_other [OF _ r(4,5) _ _ r(10,7,9)]) (auto simp: lists_built_def)
  moreover have "unbuilt cnt opn' tags' i" if "i < k" "i \<notin> set (xs @ [s])" for i
    using lb that len by (intro unbuilt_other [OF _ r(4,5) _ _ r(10)]) (auto simp: lists_built_def)
  moreover have "map tag_ident tags' = map tag_ident tags0" using r(10) lb by (simp add: only_at_def lists_built_def)
  ultimately have "lists_built k cnt init tags0 (xs @ [s]) (states', tags', noops') opn'"
    using r ls kc by (simp add: lists_built_def)
  then show ?thesis using r(1) by blast
qed

lemma private_lists_built:
  assumes m: "marking k cnt init tags0 opn tags" and fresh: "\<forall>s < k. base_of tags0 s = NO_POS \<and> noop_pos tags0 s = NO_POS"
    and small: "2 * (\<Sum>s\<leftarrow>[0..<k]. key_count cnt s) + k \<le> NO_POS"
  shows "\<exists>r opn'. build_private_lists tags = Some r \<and> lists_built k cnt init tags0 [0..<k] r opn'"
proof -
  have len: "length tags = k" using m by (simp add: marking_def dests_counted_def)
  have "\<exists>r. each_some build_private_list [0..<k] ([], tags, []) = Some r \<and> (\<exists>opn'. lists_built k cnt init tags0 [0..<k] r opn')"
  proof (rule each_some_inv)
    show "\<exists>opn'. lists_built k cnt init tags0 [] ([], tags, []) opn'" using lists_built_start [OF m fresh] by blast
  next
    fix xs s ys and r :: "StateInfo list \<times> EncodedTagInfo list \<times> (nat \<times> nat) list"
    assume z: "[0..<k] = xs @ s # ys" and "\<exists>opn'. lists_built k cnt init tags0 xs r opn'"
    then obtain opn' states tags1 noops where lb: "lists_built k cnt init tags0 xs (states, tags1, noops) opn'" "r = (states, tags1, noops)"
      by (metis surj_pair)
    have "set (xs @ s # ys) = {0..<k}" "distinct (xs @ s # ys)" unfolding z [symmetric] by simp_all
    then have s: "s < k" "s \<notin> set xs" "set xs \<subseteq> {..<k}" by auto
    have "(\<Sum>s\<leftarrow>xs @ [s]. key_count cnt s) \<le> (\<Sum>s\<leftarrow>[0..<k]. key_count cnt s)" unfolding z by simp
    then show "\<exists>r'. build_private_list s r = Some r' \<and> (\<exists>opn'. lists_built k cnt init tags0 (xs @ [s]) r' opn')"
      using lists_built_step [OF lb(1) s] small lb(2) by force
  qed
  then show ?thesis using len by (auto simp: build_private_lists_def)
qed

section \<open>The public list\<close>

definition note_public ::
  "nat \<Rightarrow> nat \<Rightarrow> EncodedTagInfo list \<times> (nat \<times> nat) list \<Rightarrow> EncodedTagInfo list \<times> (nat \<times> nat) list" where
  "note_public d p = (\<lambda>(tags, noops). (tags[d := (tags ! d)\<lparr>et_state_machine_pos := p\<rparr>], noops))"

interpretation public_states: filled_list public_entry note_public "\<lambda>d tags. d < length tags"
proof unfold_locales
  fix d and f :: Filling
  assume "d < length (fl_tags f)" and p: "0 < fl_prev f" "fl_prev f \<le> length (fl_states f)"
  then show "public_entry d f = Some (f\<lparr>fl_prev := fl_prev f - 1, fl_states := (fl_states f)[fl_prev f - 1 := new_state d NO_POS],
        fl_tags := fst (note_public d (fl_prev f - 1) (fl_tags f, fl_public_noops f)),
        fl_public_noops := snd (note_public d (fl_prev f - 1) (fl_tags f, fl_public_noops f))\<rparr>)"
    by (simp add: public_entry_def note_public_def update_at_def put_state_ok [OF p])
qed (auto simp: public_entry_def note_public_def split: prod.splits)

lemma public_noted:
  assumes "distinct (map fst placed)" "\<forall>(d, p) \<in> set placed. d < length tags"
    and "fold (\<lambda>(d, p). note_public d p) placed (tags, noops) = (tags', noops')"
  shows "length tags' = length tags \<and> noops' = noops \<and> (\<forall>i < length tags. tags' ! i =
    (tags ! i)\<lparr>et_state_machine_pos := (case map_of placed i of None \<Rightarrow> et_state_machine_pos (tags ! i) | Some p \<Rightarrow> p)\<rparr>)"
  using assms
proof (induction placed arbitrary: tags)
  case (Cons x placed)
  obtain d p where x: "x = (d, p)" by (cases x)
  have fresh: "map_of placed d = None" using Cons.prems(1) x by (simp add: map_of_eq_None_iff)
  define tags1 where "tags1 = tags[d := (tags ! d)\<lparr>et_state_machine_pos := p\<rparr>]"
  have "distinct (map fst placed)" "\<forall>(d, p) \<in> set placed. d < length tags1"
    "fold (\<lambda>(d, p). note_public d p) placed (tags1, noops) = (tags', noops')"
    using Cons.prems x by (auto simp: note_public_def tags1_def)
  from Cons.IH [OF this] show ?case using Cons.prems(2) x fresh
    by (auto simp: tags1_def nth_list_update split: option.split)
qed simp

end
