(* ===== verification/EncoderBases.thy ===== *)
theory EncoderBases
  imports EncoderPlaces
begin

text \<open>
  The public list and the bases: the state machine that \<open>create_state_machine\<close> builds has a way for every
  transition that occurs.
\<close>

section \<open>The public list is built\<close>

definition smp_of :: "EncodedTagInfo list \<Rightarrow> nat \<Rightarrow> nat" where
  "smp_of tags d = et_state_machine_pos (tags ! d)"

text \<open>The tags differ in the positions of their states in the public list.\<close>

definition public_placed ::
  "(nat \<times> nat) list \<Rightarrow> EncodedTagInfo list \<Rightarrow> EncodedTagInfo list \<Rightarrow> bool" where
  "public_placed placed tags tags' \<longleftrightarrow> length tags' = length tags \<and>
     (\<forall>i < length tags. tags' ! i = (tags ! i)\<lparr>et_state_machine_pos := smp_of tags' i\<rparr> \<and>
        (if et_num_incoming (tags ! i) = 0 then smp_of tags' i = NO_POS else (i, smp_of tags' i) \<in> set placed)) \<and>
     (\<forall>(d, p) \<in> set placed. d < length tags \<and> p = smp_of tags' d)"

lemma public_queue_dests:
  "dest_index ` set (public_queue tags) = {d. d < length tags \<and> et_num_incoming (tags ! d) \<noteq> 0}"
  "distinct (map dest_index (public_queue tags))" "length (public_queue tags) \<le> length tags"
proof -
  show "dest_index ` set (public_queue tags) = {d. d < length tags \<and> et_num_incoming (tags ! d) \<noteq> 0}"
    by (auto simp: public_queue_def image_iff)
  have "map dest_index (public_queue tags) = filter (\<lambda>i. et_num_incoming (tags ! i) \<noteq> 0) [0..<length tags]"
    by (simp add: public_queue_def comp_def)
  then show "distinct (map dest_index (public_queue tags))" by simp
  show "length (public_queue tags) \<le> length tags"
    using length_filter_le [of _ "[0..<length tags]"] by (simp add: public_queue_def)
qed

lemma public_list_built:
  assumes small: "length states + 2 * length tags \<le> NO_POS" "3 * length tags \<le> NO_POS"
    and none: "\<forall>i < length tags. smp_of tags i = NO_POS"
  shows "\<exists>states' tags' placed. build_public_list states tags = Some (states', tags') \<and>
    length states \<le> length states' \<and> length states' \<le> length states + 2 * length tags \<and>
    take (length states) states' = states \<and> list_built (length states) (length states') placed states' \<and>
    public_placed placed tags tags'"
proof (cases "public_queue tags = []")
  case True
  have "et_num_incoming (tags ! i) = 0" if "i < length tags" for i
    using public_queue_dests(1) [of tags] True that by auto
  then have "public_placed [] tags tags" using none by (simp add: public_placed_def smp_of_def)
  moreover have "list_built (length states) (length states) [] states"
    by (auto simp: list_built_def blocks_linked_def placed_ok_def)
  ultimately show ?thesis using True by (intro exI [of _ states] exI [of _ tags] exI [of _ "[]"]) (simp add: build_public_list_def)
next
  case False
  let ?q = "public_queue tags" and ?l = "length states"
  let ?f = "\<lparr>fl_queue = ?q, fl_prev = 0, fl_states = states, fl_noop_base = [], fl_tags = tags, fl_public_noops = []\<rparr>"
  define n where "n = length ?q + noop_nodes (length ?q)"
  have n: "n \<le> 2 * length tags" using public_queue_dests(3) [of tags] noop_nodes_le [of "length ?q"] by (simp add: n_def)
  have v: "\<forall>e \<in> set ?q. dest_index e < length tags"
    using public_queue_dests(1) [of tags] by auto
  obtain f' placed where f': "fill_list public_entry ?f = Some f'" "length (fl_states f') = ?l + n" "take ?l (fl_states f') = states"
    "list_built ?l (?l + n) placed (fl_states f')" "distinct (map fst placed)" "fst ` set placed = dest_index ` set ?q"
    "(fl_tags f', fl_public_noops f') = fold (\<lambda>(d, p). note_public d p) placed (tags, [])"
    using public_states.fill_list_builds [of ?f n ?l] False public_queue_dests(2) [of tags] v n small by (auto simp: n_def)
  have fst_iff: "d \<in> fst ` set placed \<longleftrightarrow> d < length tags \<and> et_num_incoming (tags ! d) \<noteq> 0" for d
    using f'(6) public_queue_dests(1) [of tags] by simp
  then have pl: "\<forall>(d, p) \<in> set placed. d < length tags" by force
  note nt = public_noted [OF f'(5) pl f'(7) [symmetric]]
  have mp: "map_of placed d = Some p \<longleftrightarrow> (d, p) \<in> set placed" for d p using f'(5) by simp
  have "public_placed placed tags (fl_tags f')"
    unfolding public_placed_def
  proof (intro conjI allI impI)
    show "length (fl_tags f') = length tags" using nt by simp
    fix i
    assume i: "i < length tags"
    then have ti: "fl_tags f' ! i = (tags ! i)\<lparr>et_state_machine_pos := (case map_of placed i of None \<Rightarrow> smp_of tags i | Some p \<Rightarrow> p)\<rparr>"
      using nt unfolding smp_of_def by simp
    then show "fl_tags f' ! i = (tags ! i)\<lparr>et_state_machine_pos := smp_of (fl_tags f') i\<rparr>"
      by (simp add: smp_of_def)
    show "if et_num_incoming (tags ! i) = 0 then smp_of (fl_tags f') i = NO_POS else (i, smp_of (fl_tags f') i) \<in> set placed"
    proof (cases "et_num_incoming (tags ! i) = 0")
      case True
      then have "map_of placed i = None" using fst_iff [of i] by (simp add: map_of_eq_None_iff)
      then show ?thesis using True ti none i by (simp add: smp_of_def)
    next
      case f: False
      then obtain p where p: "(i, p) \<in> set placed" using fst_iff [of i] i by force
      then have "map_of placed i = Some p" using mp by blast
      then show ?thesis using f ti p by (simp add: smp_of_def)
    qed
  next
    have "d < length tags \<and> p = smp_of (fl_tags f') d" if dp: "(d, p) \<in> set placed" for d p
    proof -
      have "d < length tags" "map_of placed d = Some p" using pl mp dp by auto
      then show ?thesis using nt by (simp add: smp_of_def)
    qed
    then show "\<forall>(d, p) \<in> set placed. d < length tags \<and> p = smp_of (fl_tags f') d" by blast
  qed
  moreover have "build_public_list states tags = Some (fl_states f', fl_tags f')"
    using f'(1) False by (simp add: build_public_list_def)
  moreover have "list_built ?l (length (fl_states f')) placed (fl_states f')" using f'(2,4) by simp
  ultimately show ?thesis using f'(2,3) n by (intro exI [of _ "fl_states f'"] exI [of _ "fl_tags f'"] exI [of _ placed]) simp
qed

section \<open>Bases that change\<close>

text \<open>Only the bases of the states at \<open>qs\<close> may differ.\<close>

definition rebased :: "nat set \<Rightarrow> StateInfo list \<Rightarrow> StateInfo list \<Rightarrow> bool" where
  "rebased qs states states' \<longleftrightarrow> length states' = length states \<and>
     (\<forall>i. si_etag_index (states' ! i) = si_etag_index (states ! i) \<and>
        si_canonical_source (states' ! i) = si_canonical_source (states ! i)) \<and>
     (\<forall>i. i \<notin> qs \<longrightarrow> si_base (states' ! i) = si_base (states ! i))"

lemma rebased_refl: "rebased qs states states"
  by (simp add: rebased_def)

lemma rebased_update:
  "rebased qs states states' \<Longrightarrow> q < length states' \<Longrightarrow> q \<in> qs \<Longrightarrow> rebased qs states (states'[q := (states' ! q)\<lparr>si_base := b\<rparr>])"
  by (auto simp: rebased_def nth_list_update)

lemma rebased_climbs:
  assumes "rebased qs states states'"
  shows "climbs states' l p r \<longleftrightarrow> climbs states l p r"
proof -
  have "climbs s' l p r" if "climbs s l p r" "\<And>i. si_canonical_source (s' ! i) = si_canonical_source (s ! i)" for s s'
    using that(1) by (induction rule: climbs.induct) (auto simp: that(2) [symmetric] intro: climbs.intros)
  then show ?thesis using assms unfolding rebased_def by metis
qed

lemma rebased_linked:
  assumes r: "rebased qs states states'" and b: "blocks_linked l h states" and h: "h \<le> NO_POS"
    and q: "\<forall>q \<in> qs. si_base (states ! q) = NO_POS"
  shows "blocks_linked l h states'"
  unfolding blocks_linked_def
proof (intro allI impI)
  fix p
  assume p: "l \<le> p" "p < h"
  let ?c = "si_canonical_source (states ! p)"
  have f: "?c = si_canonical_source (states ! block_start l p)"
    "if p < l + 64 then ?c = NO_POS else leads_to_block l states ?c p"
    using b p by (auto simp: blocks_linked_def)
  have "leads_to_block l states' ?c p" if lt: "leads_to_block l states ?c p"
  proof -
    have "block_start l p < NO_POS" using block_start_bounds(2) [OF p(1)] p h by simp
    then have "?c \<notin> qs" using lt q by (auto simp: leads_to_block_def)
    then show ?thesis using lt r by (simp add: leads_to_block_def rebased_def)
  qed
  then show "si_canonical_source (states' ! p) = si_canonical_source (states' ! block_start l p) \<and>
      (if p < l + 64 then si_canonical_source (states' ! p) = NO_POS
       else leads_to_block l states' (si_canonical_source (states' ! p)) p)"
    using f r by (auto simp: rebased_def)
qed

section \<open>Ways for all transitions\<close>

definition placed_at :: "StateInfo list \<Rightarrow> nat \<Rightarrow> nat \<Rightarrow> bool" where
  "placed_at states d p \<longleftrightarrow> p < length states \<and> si_etag_index (states ! p) = d"

definition route :: "StateInfo list \<Rightarrow> nat \<Rightarrow> nat \<Rightarrow> bool" where
  "route states b p \<longleftrightarrow> b < length states \<and>
     (\<exists>l h r. blocks_linked l h states \<and> h \<le> length states \<and> l \<le> p \<and> p < h \<and> climbs states l p r \<and> b \<le> r \<and> r \<le> b + 63)"

text \<open>The way from the tag \<open>s\<close> to its destination \<open>d\<close>.\<close>

definition routed :: "StateInfo list \<Rightarrow> EncodedTagInfo list \<Rightarrow> nat \<Rightarrow> nat \<Rightarrow> bool" where
  "routed states tags s d \<longleftrightarrow>
     (if dest_pos tags s d \<noteq> NO_POS
      then placed_at states d (dest_pos tags s d) \<and> route states (base_of tags s) (dest_pos tags s d)
      else placed_at states d (smp_of tags d) \<and>
        (if noop_pos tags s = NO_POS then route states (base_of tags s) (smp_of tags d)
         else placed_at states NO_POS (noop_pos tags s) \<and> route states (base_of tags s) (noop_pos tags s) \<and>
           route states (si_base (states ! noop_pos tags s)) (smp_of tags d)))"

text \<open>Where the only destination of a tag is.\<close>

definition only_place :: "EncodedTagInfo list \<Rightarrow> nat \<Rightarrow> nat \<Rightarrow> nat" where
  "only_place tags s d = (if dest_pos tags s d \<noteq> NO_POS then dest_pos tags s d else smp_of tags d)"

lemma climbs_to_first:
  assumes linked: "blocks_linked l h states"
  shows "l \<le> p \<Longrightarrow> p < h \<Longrightarrow> \<exists>r. climbs states l p r \<and> l \<le> r \<and> r \<le> l + 63"
proof (induction p rule: less_induct)
  case (less p)
  show ?case
  proof (cases "p < l + 64")
    case True
    then show ?thesis using less.prems climbs.here by (intro exI [of _ p]) auto
  next
    case False
    then have p: "l + 64 \<le> p" by simp
    note sb = source_bounds [OF linked p less.prems(2)]
    obtain r where "climbs states l (si_canonical_source (states ! p)) r" "l \<le> r" "r \<le> l + 63"
      using less.IH [OF sb(2,1,3)] by blast
    then show ?thesis using climbs.up [OF p] by blast
  qed
qed

lemma route_in_list: "list_built l h placed states \<Longrightarrow> l \<le> p \<Longrightarrow> p < h \<Longrightarrow> route states l p"
  using climbs_to_first [of l h states p] unfolding route_def list_built_def by (meson le_trans less_le_trans not_le)

lemma route_rebased:
  assumes "list_built l h placed states" "rebased qs states states'" "h \<le> NO_POS" "\<forall>q \<in> qs. si_base (states ! q) = NO_POS"
    and "l \<le> p" "p < h"
  shows "route states' l p"
proof -
  have len: "length states' = length states" using assms(2) by (simp add: rebased_def)
  have "blocks_linked l h states'" using rebased_linked [OF assms(2) _ assms(3,4)] assms(1) by (simp add: list_built_def)
  moreover have "h \<le> length states'" using assms(1) len by (simp add: list_built_def)
  ultimately show ?thesis using climbs_to_first [of l h states' p] assms(5,6) unfolding route_def
    by (meson le_trans less_le_trans not_le)
qed

section \<open>The bases\<close>

abbreviation publics :: "EncodedTagInfo list \<Rightarrow> nat \<Rightarrow> nat list" where
  "publics tags s \<equiv> public_positions tags (dests tags s)"

definition covers :: "StateInfo list \<Rightarrow> nat \<Rightarrow> nat \<Rightarrow> EncodedTagInfo list \<Rightarrow> nat \<Rightarrow> nat \<Rightarrow> bool" where
  "covers states l h tags s b \<longleftrightarrow> (\<exists>base. base_covers states l h (set (publics tags s)) base b) \<and>
     (\<forall>p. publics tags s = [p] \<longrightarrow> b = p)"

lemma covers_NO_POS: "covers states l h tags s b \<Longrightarrow> h \<le> NO_POS \<Longrightarrow> b = NO_POS \<longleftrightarrow> publics tags s = []"
  by (cases "publics tags s = []") (auto simp: covers_def base_covers_def)

lemma rebased_covers: "rebased qs states states' \<Longrightarrow> covers states' l h tags s b \<longleftrightarrow> covers states l h tags s b"
  by (simp add: covers_def base_covers_def rebased_climbs)

lemma optimal_covers:
  assumes "blocks_linked l h states" "h \<le> length states" "h \<le> NO_POS" "s < length tags"
    and "\<forall>x \<in> set (dests tags s). fst x < length tags" "\<forall>p \<in> set (publics tags s). l \<le> p \<and> p < h"
  shows "\<exists>base b. find_optimal_base tags s l states = Some (base, b) \<and> covers states l h tags s b"
  using find_optimal_base_covers [OF assms(1-5), of] assms(6) unfolding covers_def by blast

lemma noop_bases:
  assumes linked: "blocks_linked l h states" and h: "h \<le> length states" "h \<le> NO_POS" and no: "noops_ok k states tags noops"
    and k: "length tags = k" "\<forall>s < k. \<forall>x \<in> set (dests tags s). fst x < k" "\<forall>s < k. \<forall>p \<in> set (publics tags s). l \<le> p \<and> p < h"
    and some: "\<forall>(s, q) \<in> set noops. publics tags s \<noteq> []"
  shows "\<exists>states'. each_some (set_noop_base tags l) noops states = Some states' \<and> rebased (snd ` set noops) states states' \<and>
    (\<forall>(s, q) \<in> set noops. covers states l h tags s (si_base (states' ! q)))"
proof (rule each_some_inv [where I = "\<lambda>xs states'. rebased (snd ` set noops) states states' \<and>
    (\<forall>(s, q) \<in> set xs. covers states l h tags s (si_base (states' ! q)))", simplified conj_assoc])
  show "rebased (snd ` set noops) states states \<and> (\<forall>(s, q) \<in> set []. covers states l h tags s (si_base (states ! q)))"
    by (simp add: rebased_refl)
next
  fix xs x ys states1
  assume z: "noops = xs @ x # ys"
    and I: "rebased (snd ` set noops) states states1 \<and> (\<forall>(s, q) \<in> set xs. covers states l h tags s (si_base (states1 ! q)))"
  obtain s q where x: "x = (s, q)" by (cases x)
  have in': "(s, q) \<in> set noops" using z x by simp
  have sq: "s < k" "q < length states" and base0: "\<forall>q \<in> snd ` set noops. si_base (states ! q) = NO_POS"
    and dist: "distinct (map snd noops)"
    using no in' by (auto simp: noops_ok_def)
  have r: "rebased (snd ` set noops) states states1" and len: "length states1 = length states"
    using I by (auto simp: rebased_def)
  have "blocks_linked l h states1" by (rule rebased_linked [OF r linked h(2) base0])
  then obtain base b where b: "find_optimal_base tags s l states1 = Some (base, b)" "covers states1 l h tags s b"
    using optimal_covers [of l h states1 s tags] h len sq(1) k by auto
  have cov: "covers states l h tags s b" using b(2) rebased_covers [OF r] by simp
  have "b \<noteq> NO_POS" using covers_NO_POS [OF cov h(2)] some in' by blast
  define states2 where "states2 = states1[q := (states1 ! q)\<lparr>si_base := b\<rparr>]"
  have step: "set_noop_base tags l x states1 = Some states2"
    using b(1) \<open>b \<noteq> NO_POS\<close> sq(2) len by (simp add: x set_noop_base_def update_at_def states2_def)
  have r2: "rebased (snd ` set noops) states states2"
    unfolding states2_def using in' sq(2) len by (intro rebased_update [OF r]) force+
  have "covers states l h tags s' (si_base (states2 ! q'))" if "(s', q') \<in> set (xs @ [x])" for s' q'
  proof (cases "(s', q') \<in> set xs")
    case True
    then have "q' \<noteq> q" using dist z x by force
    then show ?thesis using I True by (auto simp: states2_def)
  next
    case False
    then show ?thesis using that x cov sq(2) len by (simp add: states2_def)
  qed
  then show "\<exists>s'. set_noop_base tags l x states1 = Some s' \<and> rebased (snd ` set noops) states s' \<and>
      (\<forall>(s, q) \<in> set (xs @ [x]). covers states l h tags s (si_base (s' ! q)))"
    using step r2 by blast
qed

text \<open>The tags that have no base yet get one.\<close>

definition tags_based :: "StateInfo list \<Rightarrow> nat \<Rightarrow> nat \<Rightarrow> EncodedTagInfo list \<Rightarrow> nat set \<Rightarrow> EncodedTagInfo list \<Rightarrow> bool" where
  "tags_based states l h tags done tags' \<longleftrightarrow> length tags' = length tags \<and>
     (\<forall>i < length tags. tags' ! i = (tags ! i)\<lparr>et_base := base_of tags' i\<rparr> \<and>
        (if i \<in> done \<and> base_of tags i = NO_POS then covers states l h tags i (base_of tags' i)
         else base_of tags' i = base_of tags i))"

lemma tags_based_publics:
  assumes "tags_based states l h tags done tags'" "i < length tags" "\<forall>x \<in> set (dests tags i). fst x < length tags"
  shows "dests tags' i = dests tags i" "publics tags' i = publics tags i"
proof -
  have t: "\<And>j. j < length tags \<Longrightarrow> tags' ! j = (tags ! j)\<lparr>et_base := base_of tags' j\<rparr>" using assms(1) by (simp add: tags_based_def)
  have e: "et_state_machine_pos (tags' ! j) = et_state_machine_pos (tags ! j)" "dests tags' j = dests tags j" if "j < length tags" for j
    by (subst t [OF that], simp)+
  then show d: "dests tags' i = dests tags i" using assms(2) by simp
  have "public_position tags' x = public_position tags x" if "x \<in> set (dests tags i)" for x
    using that assms(3) e(1) by (simp add: public_position_def)
  then show "publics tags' i = publics tags i" unfolding d public_positions_def by (auto intro!: arg_cong [where f = concat])
qed

lemma tag_bases:
  assumes linked: "blocks_linked l h states" and h: "h \<le> length states" "h \<le> NO_POS"
    and k: "length tags = k" "\<forall>s < k. \<forall>x \<in> set (dests tags s). fst x < k" "\<forall>s < k. \<forall>p \<in> set (publics tags s). l \<le> p \<and> p < h"
  shows "\<exists>tags'. each_some (set_tag_base states l) [0..<k] tags = Some tags' \<and> tags_based states l h tags {..<k} tags'"
proof -
  have "\<exists>tags'. each_some (set_tag_base states l) [0..<k] tags = Some tags' \<and> tags_based states l h tags (set [0..<k]) tags'"
  proof (rule each_some_inv [where I = "\<lambda>xs. tags_based states l h tags (set xs)"])
    show "tags_based states l h tags (set []) tags" by (simp add: tags_based_def base_of_def)
  next
    fix xs s ys tags1
    assume z: "[0..<k] = xs @ s # ys" and I: "tags_based states l h tags (set xs) tags1"
    have "set (xs @ s # ys) = {0..<k}" "distinct (xs @ s # ys)" unfolding z [symmetric] by simp_all
    then have s: "s < k" "s \<notin> set xs" by auto
    have len: "length tags1 = k" using I k(1) by (simp add: tags_based_def)
    have b1: "base_of tags1 s = base_of tags s" using I s k(1) by (simp add: tags_based_def)
    show "\<exists>tags'. set_tag_base states l s tags1 = Some tags' \<and> tags_based states l h tags (set (xs @ [s])) tags'"
    proof (cases "base_of tags s = NO_POS")
      case False
      then have "set_tag_base states l s tags1 = Some tags1"
        using s(1) len b1 by (simp add: set_tag_base_def item_at_def base_of_def)
      moreover have "tags_based states l h tags (set (xs @ [s])) tags1" using I False b1 by (auto simp: tags_based_def)
      ultimately show ?thesis by blast
    next
      case True
      have ds: "\<forall>x \<in> set (dests tags s). fst x < length tags" using k s(1) by simp
      note pb = tags_based_publics [OF I _ ds]
      obtain base b where b: "find_optimal_base tags1 s l states = Some (base, b)" "covers states l h tags1 s b"
        using optimal_covers [OF linked h, of s tags1] pb k s(1) len by auto
      have cov: "covers states l h tags s b" using b(2) pb k(1) s(1) by (simp add: covers_def)
      define tags2 where "tags2 = tags1[s := (tags1 ! s)\<lparr>et_base := b\<rparr>]"
      have "set_tag_base states l s tags1 = Some tags2"
      proof (cases "b = NO_POS")
        case bn: True
        then have "tags2 = tags1" using b1 True s(1) len by (simp add: tags2_def base_of_def list_update_same_conv)
        then show ?thesis using b(1) True b1 s(1) len bn by (simp add: set_tag_base_def item_at_def base_of_def)
      next
        case False
        then show ?thesis using b(1) True b1 s(1) len by (simp add: set_tag_base_def item_at_def base_of_def tags2_def)
      qed
      moreover have "tags_based states l h tags (set (xs @ [s])) tags2"
        unfolding tags_based_def
      proof (intro conjI allI impI)
        fix i
        assume i: "i < length tags"
        have t1: "tags1 ! i = (tags ! i)\<lparr>et_base := base_of tags1 i\<rparr>" using I i by (simp add: tags_based_def)
        show "tags2 ! i = (tags ! i)\<lparr>et_base := base_of tags2 i\<rparr>"
        proof (cases "i = s")
          case True
          have "(tags1 ! i)\<lparr>et_base := b\<rparr> = (tags ! i)\<lparr>et_base := b\<rparr>" by (subst t1) simp
          then show ?thesis using True i k(1) len by (simp add: tags2_def base_of_def)
        qed (use t1 in \<open>simp add: tags2_def base_of_def\<close>)
        show "if i \<in> set (xs @ [s]) \<and> base_of tags i = NO_POS then covers states l h tags i (base_of tags2 i)
            else base_of tags2 i = base_of tags i"
          using I i k(1) len cov True s by (cases "i = s") (auto simp: tags2_def base_of_def tags_based_def)
      qed (use I in \<open>simp add: tags2_def tags_based_def\<close>)
      ultimately show ?thesis by blast
    qed
  qed
  moreover have "set [0..<k] = {..<k}" by auto
  ultimately show ?thesis by simp
qed

section \<open>The state machine\<close>

definition machine_ok ::
  "nat \<Rightarrow> (nat \<Rightarrow> nat \<Rightarrow> nat) \<Rightarrow> nat \<Rightarrow> StateInfo list \<Rightarrow> EncodedTagInfo list \<Rightarrow> bool" where
  "machine_ok k cnt first states tags \<longleftrightarrow>
     dests_counted k cnt tags \<and> length states + k \<le> NO_POS \<and>
     (\<forall>s d. 0 < cnt s d \<longrightarrow> routed states tags s d \<and> (length (dests tags s) = 1 \<longrightarrow> base_of tags s = only_place tags s d)) \<and>
     (\<forall>p < length states. si_etag_index (states ! p) < k \<or>
        si_etag_index (states ! p) = NO_POS \<and> si_base (states ! p) < length states) \<and>
     (\<forall>s < k. (base_of tags s = NO_POS \<or> base_of tags s < length states) \<and>
        (\<forall>d. 0 < cnt s d \<longrightarrow> base_of tags s \<noteq> NO_POS)) \<and>
     (\<exists>p. placed_at states first p)"

lemma publics_iff:
  assumes c: "dests_counted k cnt tags" and s: "s < k"
  shows "p \<in> set (publics tags s) \<longleftrightarrow>
    (\<exists>d. 0 < cnt s d \<and> dest_pos tags s d = NO_POS \<and> smp_of tags d \<noteq> NO_POS \<and> p = smp_of tags d)"
proof
  have dist: "distinct (map fst (dests tags s))"
    using c s bt_ok_distinct by (auto simp: dests_counted_def bt_keys_def)
  have mem: "(d, di) \<in> set (dests tags s) \<longleftrightarrow> bt_get d (dests tags s) = Some di" for d di using dist by simp
  {
    assume "p \<in> set (publics tags s)"
    then obtain d di where x: "(d, di) \<in> set (dests tags s)" "di_pos di = NO_POS" "smp_of tags d \<noteq> NO_POS" "p = smp_of tags d"
      by (auto simp: public_positions_def public_position_def smp_of_def split: if_splits)
    then have "d \<in> set (bt_keys (dests tags s))" by (force simp: bt_keys_def)
    then have "0 < cnt s d" using dests_counted_keys [OF c s] by simp
    moreover have "dest_pos tags s d = NO_POS" using x mem by (simp add: dest_pos_def)
    ultimately show "\<exists>d. 0 < cnt s d \<and> dest_pos tags s d = NO_POS \<and> smp_of tags d \<noteq> NO_POS \<and> p = smp_of tags d"
      using x by blast
  next
    assume "\<exists>d. 0 < cnt s d \<and> dest_pos tags s d = NO_POS \<and> smp_of tags d \<noteq> NO_POS \<and> p = smp_of tags d"
    then obtain d where d: "0 < cnt s d" "dest_pos tags s d = NO_POS" "smp_of tags d \<noteq> NO_POS" "p = smp_of tags d" by blast
    obtain di where di: "bt_get d (dests tags s) = Some di" using dests_counted_get(3) [OF c d(1)] by blast
    then have "(d, di) \<in> set (dests tags s)" "di_pos di = NO_POS" using mem d(2) by (simp_all add: dest_pos_def)
    then show "p \<in> set (publics tags s)"
      using d(3,4) by (force simp: public_positions_def public_position_def smp_of_def)
  }
qed

lemma publics_single:
  assumes c: "dests_counted k cnt tags" and s: "0 < cnt s d" and one: "length (dests tags s) = 1"
    and d: "dest_pos tags s d = NO_POS" "smp_of tags d \<noteq> NO_POS"
  shows "publics tags s = [smp_of tags d]"
proof -
  obtain di where di: "bt_get d (dests tags s) = Some di" using dests_counted_get(3) [OF c s] by blast
  obtain x where x: "dests tags s = [x]" using one by (auto simp: length_Suc_conv)
  have "x = (d, di)" using di unfolding x by (cases x) (auto split: if_splits)
  then show ?thesis using x d by (simp add: public_position_def smp_of_def dest_pos_def)
qed

text \<open>The tables before the bases are chosen.\<close>

definition placed_tables ::
  "nat \<Rightarrow> (nat \<Rightarrow> nat \<Rightarrow> nat) \<Rightarrow> (nat \<times> nat) set \<Rightarrow> nat \<Rightarrow> StateInfo list \<Rightarrow> EncodedTagInfo list \<Rightarrow> (nat \<times> nat) list \<Rightarrow>
   (nat \<times> nat) list \<Rightarrow> bool" where
  "placed_tables k cnt opn l states tags noops placed \<longleftrightarrow>
     dests_counted k cnt tags \<and> (\<forall>s < k. listed cnt opn states tags s) \<and>
     noops_ok k states tags noops \<and> states_ok k states noops \<and> list_built l (length states) placed states \<and>
     (\<forall>s d. 0 < cnt s d \<longrightarrow> (s, d) \<in> opn \<longrightarrow> (d, smp_of tags d) \<in> set placed) \<and> length states + k \<le> NO_POS"

lemma placed_tablesD:
  assumes "placed_tables k cnt opn l states tags noops placed"
  shows "dests_counted k cnt tags" "s < k \<Longrightarrow> listed cnt opn states tags s" "noops_ok k states tags noops"
    "states_ok k states noops" "blocks_linked l (length states) states" "length states + k \<le> NO_POS" "length tags = k"
  using assms by (auto simp: placed_tables_def list_built_def dests_counted_def)

lemma public_place:
  assumes t: "placed_tables k cnt opn l states tags noops placed" and o: "0 < cnt s d" "(s, d) \<in> opn"
  shows "l \<le> smp_of tags d" "smp_of tags d < length states" "smp_of tags d \<noteq> NO_POS" "si_etag_index (states ! smp_of tags d) = d"
proof -
  have "(d, smp_of tags d) \<in> set placed" using t o unfolding placed_tables_def by blast
  then show "l \<le> smp_of tags d" "smp_of tags d < length states" "smp_of tags d \<noteq> NO_POS" "si_etag_index (states ! smp_of tags d) = d"
    using t by (auto simp: placed_tables_def list_built_def placed_ok_def)
qed

lemma listed_place:
  assumes "listed_to h pl cnt opn states tags s" "(d, p) \<in> set pl" "length states \<le> NO_POS"
  shows "base_of tags s \<le> p" "p < h" "h \<le> length states" "p \<noteq> NO_POS" "si_etag_index (states ! p) = d" "si_base (states ! p) = NO_POS"
  using assms by (auto simp: listed_to_def list_built_def placed_ok_def)

lemma open_iff:
  assumes t: "placed_tables k cnt opn l states tags noops placed" and sd: "0 < cnt s d"
  shows "(s, d) \<in> opn \<longleftrightarrow> dest_pos tags s d = NO_POS"
proof -
  have small: "length states \<le> NO_POS" using placed_tablesD(6) [OF t] by simp
  have "listed cnt opn states tags s" using placed_tablesD(2) [OF t dests_counted_get(1) [OF placed_tablesD(1) [OF t] sd]] .
  then consider (un) "unlisted cnt opn tags s" | (li) h pl where "listed_to h pl cnt opn states tags s"
    by (auto simp: listed_def)
  then show ?thesis
  proof cases
    case un
    then show ?thesis using sd by (simp add: unlisted_def)
  next
    case (li h pl)
    then have "if (s, d) \<in> opn then dest_pos tags s d = NO_POS \<and> noop_pos tags s \<noteq> NO_POS else (d, dest_pos tags s d) \<in> set pl"
      using sd by (simp add: listed_to_def)
    then show ?thesis using listed_place(4) [OF li _ small] by (auto split: if_splits)
  qed
qed

lemma publics_in:
  assumes t: "placed_tables k cnt opn l states tags noops placed" and s: "s < k"
  shows "\<forall>p \<in> set (publics tags s). l \<le> p \<and> p < length states"
proof
  fix p
  assume "p \<in> set (publics tags s)"
  then obtain d where d: "0 < cnt s d" "dest_pos tags s d = NO_POS" "p = smp_of tags d"
    using publics_iff [OF placed_tablesD(1) [OF t] s] by blast
  then have "(s, d) \<in> opn" using open_iff [OF t] by blast
  then show "l \<le> p \<and> p < length states" using public_place [OF t d(1)] d(3) by simp
qed

lemma dests_in:
  assumes c: "dests_counted k cnt tags" and s: "s < k"
  shows "\<forall>x \<in> set (dests tags s). fst x < k"
proof
  fix x
  assume "x \<in> set (dests tags s)"
  then have "fst x \<in> set (bt_keys (dests tags s))" by (simp add: bt_keys_def)
  then show "fst x < k" using dests_counted_keys [OF c s] dests_counted_get(2) [OF c] by auto
qed

lemma noop_publics:
  assumes t: "placed_tables k cnt opn l states tags noops placed" and sq: "(s, q) \<in> set noops"
  shows "publics tags s \<noteq> []"
proof -
  have s: "s < k" "noop_pos tags s = q" "q < length states" using placed_tablesD(3) [OF t] sq by (auto simp: noops_ok_def)
  then have q: "noop_pos tags s \<noteq> NO_POS" using placed_tablesD(6) [OF t] by simp
  then obtain h pl where "listed_to h pl cnt opn states tags s"
    using placed_tablesD(2) [OF t s(1)] by (auto simp: listed_def unlisted_def)
  then obtain d where d: "0 < cnt s d" "(s, d) \<in> opn" using q by (auto simp: listed_to_def)
  then have "smp_of tags d \<in> set (publics tags s)"
    using publics_iff [OF placed_tablesD(1) [OF t] s(1)] open_iff [OF t] public_place(3) [OF t] by blast
  then show ?thesis by auto
qed

text \<open>A base that covers a destination is the start of a way to it.\<close>

lemma covers_route:
  assumes cov: "covers states l (length states) tags s b" and r: "rebased qs states states'"
    and linked: "blocks_linked l (length states) states" "blocks_linked l (length states) states'"
    and p: "p \<in> set (publics tags s)" "l \<le> p" "p < length states"
  shows "route states' b p"
proof -
  obtain base where "base_covers states l (length states) (set (publics tags s)) base b" using cov by (auto simp: covers_def)
  from base_covers_reach [OF this p(1) linked(1)]
  obtain r where "l \<le> b" "b < length states" "climbs states l p r" "b \<le> r" "r \<le> b + 63" by blast
  then show ?thesis using rebased_climbs [OF r] r linked(2) p unfolding route_def by (auto simp: rebased_def)
qed

lemma tags_based_same:
  assumes b: "tags_based states l h tags done tags'" and i: "i < length tags"
  shows "dests tags' i = dests tags i" "noop_pos tags' i = noop_pos tags i" "smp_of tags' i = smp_of tags i"
    "dest_pos tags' i d = dest_pos tags i d"
proof -
  have t: "tags' ! i = (tags ! i)\<lparr>et_base := base_of tags' i\<rparr>" using b i by (simp add: tags_based_def)
  show "dests tags' i = dests tags i" by (subst t) simp
  then show "dest_pos tags' i d = dest_pos tags i d" by (rule dest_pos_same)
  show "noop_pos tags' i = noop_pos tags i" "smp_of tags' i = smp_of tags i" unfolding noop_pos_def smp_of_def by (subst t, simp)+
qed

lemma bases_route:
  assumes t: "placed_tables k cnt opn l states tags noops placed"
    and r: "rebased (snd ` set noops) states states'"
    and nc: "\<forall>(s, q) \<in> set noops. covers states l (length states) tags s (si_base (states' ! q))"
    and b: "tags_based states l (length states) tags {..<k} tags'" and sd: "0 < cnt s d"
  shows "routed states' tags' s d \<and> (length (dests tags' s) = 1 \<longrightarrow> base_of tags' s = only_place tags' s d)"
proof -
  note D = placed_tablesD [OF t]
  have small: "length states \<le> NO_POS" using D(6) by simp
  have s: "s < k" "d < k" using dests_counted_get [OF D(1) sd] by auto
  have len: "length states' = length states" using r by (simp add: rebased_def)
  have base0: "\<forall>q \<in> snd ` set noops. si_base (states ! q) = NO_POS" using D(3) by (auto simp: noops_ok_def)
  have linked': "blocks_linked l (length states) states'" by (rule rebased_linked [OF r D(5) small base0])
  note same = tags_based_same [OF b, of s] tags_based_same(3) [OF b, of d]
  have etag: "si_etag_index (states' ! p) = si_etag_index (states ! p)" for p using r by (simp add: rebased_def)
  have pub: "placed_at states' d (smp_of tags' d)" "smp_of tags d \<in> set (publics tags s)" "smp_of tags' d = smp_of tags d"
    if "(s, d) \<in> opn"
  proof -
    note pp = public_place [OF t sd that]
    show "smp_of tags' d = smp_of tags d" using same D(7) s by simp
    then show "placed_at states' d (smp_of tags' d)" using pp etag len by (simp add: placed_at_def)
    show "smp_of tags d \<in> set (publics tags s)"
      using publics_iff [OF D(1) s(1)] sd pp(3) that open_iff [OF t sd] by blast
  qed
  have based: "if base_of tags s = NO_POS then covers states l (length states) tags s (base_of tags' s)
      else base_of tags' s = base_of tags s" using b s D(7) by (simp add: tags_based_def)
  have "listed cnt opn states tags s" by (rule D(2) [OF s(1)])
  then consider (un) "unlisted cnt opn tags s" | (li) h pl where "listed_to h pl cnt opn states tags s"
    by (auto simp: listed_def)
  then show ?thesis
  proof cases
    case un
    then have u: "(s, d) \<in> opn" "dest_pos tags s d = NO_POS" "noop_pos tags s = NO_POS" "base_of tags s = NO_POS"
      using sd by (auto simp: unlisted_def)
    note pp = public_place [OF t sd u(1)]
    have cov: "covers states l (length states) tags s (base_of tags' s)" using based u(4) by simp
    have "route states' (base_of tags' s) (smp_of tags d)"
      by (rule covers_route [OF cov r D(5) linked' pub(2) [OF u(1)] pp(1,2)])
    then have "routed states' tags' s d" using pub [OF u(1)] same u D(7) s by (simp add: routed_def)
    moreover have "base_of tags' s = only_place tags' s d" if "length (dests tags' s) = 1"
      using publics_single [OF D(1) sd _ u(2) pp(3)] that cov same u D(7) s pub(3) [OF u(1)] by (simp add: only_place_def covers_def)
    ultimately show ?thesis by blast
  next
    case (li h pl)
    have lb: "list_built (base_of tags s) h pl states" "base_of tags s < h" using li by (simp_all add: listed_to_def)
    have hl: "h \<le> length states" using lb(1) by (simp add: list_built_def)
    have hs: "h \<le> NO_POS" using hl small by simp
    have base: "base_of tags' s = base_of tags s" using based lb(2) hs by simp
    have rt: "route states' (base_of tags s) p" "p < length states" "p \<noteq> NO_POS" "si_etag_index (states ! p) = x"
      if "(x, p) \<in> set pl" for x p
      using route_rebased [OF lb(1) r hs base0] listed_place [OF li that small] by auto
    show ?thesis
    proof (cases "(s, d) \<in> opn")
      case False
      then have dp: "(d, dest_pos tags s d) \<in> set pl" using li sd by (simp add: listed_to_def)
      have "routed states' tags' s d"
        using rt [OF dp] base same D(7) s etag len by (simp add: routed_def placed_at_def)
      moreover have "base_of tags' s = only_place tags' s d" if "length (dests tags' s) = 1"
        using li that same D(7) s listed_place [OF li dp small] base by (simp add: listed_to_def only_place_def)
      ultimately show ?thesis by blast
    next
      case True
      then have n: "dest_pos tags s d = NO_POS" "noop_pos tags s \<noteq> NO_POS" "(NO_POS, noop_pos tags s) \<in> set pl"
        using li sd by (simp_all add: listed_to_def)
      have "(s, noop_pos tags s) \<in> set noops" using D(3) n(2) s(1) by (simp add: noops_ok_def)
      then have cov: "covers states l (length states) tags s (si_base (states' ! noop_pos tags s))" using nc by auto
      note pp = public_place [OF t sd True]
      have "route states' (si_base (states' ! noop_pos tags s)) (smp_of tags d)"
        by (rule covers_route [OF cov r D(5) linked' pub(2) [OF True] pp(1,2)])
      then have "routed states' tags' s d"
        using rt [OF n(3)] n pub [OF True] base same D(7) s etag len by (simp add: routed_def placed_at_def)
      moreover have "length (dests tags' s) \<noteq> 1" using li True sd same D(7) s by (auto simp: listed_to_def)
      ultimately show ?thesis by blast
    qed
  qed
qed

lemma listed_public:
  assumes l: "listed cnt opn states tags s" and st: "length states \<le> length states'" "take (length states) states' = states"
    and e: "dests tags' s = dests tags s" "base_of tags' s = base_of tags s" "noop_pos tags' s = noop_pos tags s"
  shows "listed cnt opn states' tags' s"
proof -
  have d: "\<And>d. dest_pos tags' s d = dest_pos tags s d" by (rule dest_pos_same [OF e(1)])
  have "unlisted cnt opn tags' s" if "unlisted cnt opn tags s" using that e d by (simp add: unlisted_def)
  moreover have "listed_to h placed cnt opn states' tags' s" if "listed_to h placed cnt opn states tags s" for h placed
    using that e d list_built_mono [OF _ st] by (simp add: listed_to_def)
  ultimately show ?thesis using l unfolding listed_def by blast
qed

lemma tables_placed:
  assumes lb: "lists_built k cnt init tags0 [0..<k] (states, tags, noops) opn"
    and st: "length states \<le> length states'" "take (length states) states' = states"
    and lp: "list_built (length states) (length states') placed states'" and pp: "public_placed placed tags tags'"
    and small: "length states' + k \<le> NO_POS"
  shows "placed_tables k cnt opn (length states) states' tags' noops placed"
proof -
  have c: "dests_counted k cnt tags" and inc: "incoming_counted k cnt init opn tags" and no: "noops_ok k states tags noops"
    and so: "states_ok k states noops" and li: "\<And>s. s < k \<Longrightarrow> listed cnt opn states tags s"
    using lb by (auto simp: lists_built_def)
  have len: "length tags = k" using c by (simp add: dests_counted_def)
  have t: "tags' ! i = (tags ! i)\<lparr>et_state_machine_pos := smp_of tags' i\<rparr>" if "i < k" for i
    using pp that len by (simp add: public_placed_def)
  have e: "dests tags' i = dests tags i" "base_of tags' i = base_of tags i" "noop_pos tags' i = noop_pos tags i" if "i < k" for i
    unfolding base_of_def noop_pos_def by (subst t [OF that], simp)+
  have "dests_counted k cnt tags'"
    by (rule dests_counted_same [OF c]) (use pp e len in \<open>simp_all add: public_placed_def\<close>)
  moreover have "listed cnt opn states' tags' s" if "s < k" for s
    using listed_public [OF li [OF that] st e [OF that]] .
  moreover have "noops_ok k states' tags' noops"
  proof -
    have "states' ! q = states ! q" if "q < length states" for q using st(2) that by (metis nth_take)
    then show ?thesis using no e st(1) unfolding noops_ok_def by fastforce
  qed
  moreover have "states_ok k states' noops"
    by (rule placed_states_ok [OF so lp st(2,1)]) (use pp len in \<open>auto simp: public_placed_def\<close>)
  moreover have "(d, smp_of tags' d) \<in> set placed" if sd: "0 < cnt s d" "(s, d) \<in> opn" for s d
  proof -
    have "cnt s d \<le> et_num_incoming (tags ! d)"
      using incoming_open [OF inc sd(2)] dests_counted_get [OF c sd(1)] by simp
    then show ?thesis using pp sd dests_counted_get(2) [OF c sd(1)] len by (auto simp: public_placed_def split: if_splits)
  qed
  ultimately show ?thesis using lp small by (simp add: placed_tables_def)
qed

lemma bases_ok:
  assumes t: "placed_tables k cnt opn l states tags noops placed" and first: "\<exists>p. placed_at states first p"
  shows "\<exists>states' tags'. compute_base_indices l noops states tags = Some (states', tags') \<and>
    machine_ok k cnt first states' tags' \<and> length states' = length states \<and>
    tags_based states l (length states) tags {..<k} tags'"
proof -
  note D = placed_tablesD [OF t]
  have small: "length states \<le> NO_POS" using D(6) by simp
  have di: "\<forall>s < k. \<forall>x \<in> set (dests tags s). fst x < k" using dests_in [OF D(1)] by blast
  have pu: "\<forall>s < k. \<forall>p \<in> set (publics tags s). l \<le> p \<and> p < length states" using publics_in [OF t] by blast
  have np: "\<forall>(s, q) \<in> set noops. publics tags s \<noteq> []" using noop_publics [OF t] by blast
  obtain states' where s': "each_some (set_noop_base tags l) noops states = Some states'"
    "rebased (snd ` set noops) states states'"
    "\<forall>(s, q) \<in> set noops. covers states l (length states) tags s (si_base (states' ! q))"
    using noop_bases [OF D(5) order_refl small D(3,7) di pu np] by blast
  have len: "length states' = length states" using s'(2) by (simp add: rebased_def)
  have base0: "\<forall>q \<in> snd ` set noops. si_base (states ! q) = NO_POS" using D(3) by (auto simp: noops_ok_def)
  have linked': "blocks_linked l (length states) states'" by (rule rebased_linked [OF s'(2) D(5) small base0])
  obtain tags' where t': "each_some (set_tag_base states' l) [0..<k] tags = Some tags'"
    "tags_based states' l (length states) tags {..<k} tags'"
    using tag_bases [OF linked' eq_refl [OF len [symmetric]] small D(7) di pu] by blast
  have b: "tags_based states l (length states) tags {..<k} tags'"
    using t'(2) unfolding tags_based_def rebased_covers [OF s'(2)] .
  have comp: "compute_base_indices l noops states tags = Some (states', tags')"
    using s'(1) t'(1) D(7) by (simp add: compute_base_indices_def)
  have c': "dests_counted k cnt tags'"
    by (rule dests_counted_same [OF D(1)]) (use b tags_based_same(1) [OF b] D(7) in \<open>simp_all add: tags_based_def\<close>)
  have states_fine: "si_etag_index (states' ! p) < k \<or> si_etag_index (states' ! p) = NO_POS \<and> si_base (states' ! p) < length states'"
    if p: "p < length states'" for p
  proof (cases "p \<in> snd ` set noops")
    case True
    then obtain s where sp: "(s, p) \<in> set noops" by force
    then have cov: "covers states l (length states) tags s (si_base (states' ! p))" using s'(3) by auto
    have "publics tags s \<noteq> []" using np sp by auto
    then have "si_base (states' ! p) < length states" using cov by (auto simp: covers_def base_covers_def)
    moreover have "si_etag_index (states' ! p) = NO_POS" using D(3) sp s'(2) by (auto simp: noops_ok_def rebased_def)
    ultimately show ?thesis using len by simp
  next
    case False
    then show ?thesis using D(4) p len s'(2) by (auto simp: states_ok_def rebased_def)
  qed
  have bases_fine: "(base_of tags' s = NO_POS \<or> base_of tags' s < length states') \<and> (\<forall>d. 0 < cnt s d \<longrightarrow> base_of tags' s \<noteq> NO_POS)"
    if s: "s < k" for s
  proof -
    have based: "if base_of tags s = NO_POS then covers states l (length states) tags s (base_of tags' s)
      else base_of tags' s = base_of tags s" using b s D(7) by (simp add: tags_based_def)
    have "listed cnt opn states tags s" by (rule D(2) [OF s])
    then consider (un) "unlisted cnt opn tags s" | (li) h pl where "listed_to h pl cnt opn states tags s"
      by (auto simp: listed_def)
    then show ?thesis
    proof cases
      case un
      then have cov: "covers states l (length states) tags s (base_of tags' s)" using based by (simp add: unlisted_def)
      have "publics tags s \<noteq> []" if d: "0 < cnt s d" for d
      proof -
        have "(s, d) \<in> opn" using un d by (simp add: unlisted_def)
        then have "smp_of tags d \<in> set (publics tags s)"
          using publics_iff [OF D(1) s] open_iff [OF t] public_place(3) [OF t] d by blast
        then show ?thesis by auto
      qed
      then show ?thesis using cov len covers_NO_POS [OF cov small] by (auto simp: covers_def base_covers_def)
    next
      case (li h pl)
      then have "base_of tags s < h" "h \<le> length states" by (simp_all add: listed_to_def list_built_def)
      then show ?thesis using based small len by auto
    qed
  qed
  obtain p where "placed_at states first p" using first by blast
  then have "placed_at states' first p" using s'(2) len by (simp add: placed_at_def rebased_def)
  then have ex: "\<exists>p. placed_at states' first p" by blast
  have "machine_ok k cnt first states' tags'"
    unfolding machine_ok_def
  proof (intro conjI)
    show "length states' + k \<le> NO_POS" using D(6) len by simp
    show "\<forall>s d. 0 < cnt s d \<longrightarrow> routed states' tags' s d \<and> (length (dests tags' s) = 1 \<longrightarrow> base_of tags' s = only_place tags' s d)"
      using bases_route [OF t s'(2,3) b] by blast
  qed (use c' states_fine bases_fine ex in blast)+
  then show ?thesis using comp len b by blast
qed

lemma lists_first:
  assumes t: "placed_tables k (count_pairs ps) opn l states tags noops placed" and pp: "public_placed placed tags0 tags"
    and inc: "incoming_counted k (count_pairs ps) (start_count ps) opn tags0" and ps: "hd ps < k"
  shows "\<exists>p. placed_at states (hd ps) p"
proof (cases "\<forall>s. count_pairs ps s (hd ps) = 0")
  case True
  then have "et_num_incoming (tags0 ! hd ps) \<noteq> 0" using inc ps by (auto simp: incoming_counted_def start_count_def)
  moreover have "hd ps < length tags0" using inc ps by (simp add: incoming_counted_def)
  ultimately have "(hd ps, smp_of tags (hd ps)) \<in> set placed" using pp by (auto simp: public_placed_def)
  then show ?thesis using t by (auto simp: placed_tables_def list_built_def placed_ok_def placed_at_def)
next
  case False
  then obtain s where sd: "0 < count_pairs ps s (hd ps)" by auto
  note D = placed_tablesD [OF t]
  have small: "length states \<le> NO_POS" using D(6) by simp
  show ?thesis
  proof (cases "(s, hd ps) \<in> opn")
    case True
    then show ?thesis using public_place [OF t sd True] by (auto simp: placed_at_def)
  next
    case False
    obtain h pl where li: "listed_to h pl (count_pairs ps) opn states tags s"
      using D(2) [OF dests_counted_get(1) [OF D(1) sd]] False sd by (auto simp: listed_def unlisted_def)
    then have "(hd ps, dest_pos tags s (hd ps)) \<in> set pl" using False sd by (simp add: listed_to_def)
    note lp = listed_place [OF li this small]
    then have "placed_at states (hd ps) (dest_pos tags s (hd ps))" by (simp add: placed_at_def)
    then show ?thesis by blast
  qed
qed

definition fresh_tag :: "EncodedTagInfo \<Rightarrow> bool" where
  "fresh_tag t \<longleftrightarrow> t = new_tag_info (et_node_id t) (et_subtype t)"

lemma fresh_tagD:
  assumes "\<forall>t \<in> set tags. fresh_tag t" "i < length tags"
  shows "dests tags i = []" "et_num_incoming (tags ! i) = 0" "base_of tags i = NO_POS" "noop_pos tags i = NO_POS" "smp_of tags i = NO_POS"
proof -
  have "fresh_tag (tags ! i)" using assms by simp
  then have "tags ! i = new_tag_info (et_node_id (tags ! i)) (et_subtype (tags ! i))" by (simp add: fresh_tag_def)
  then obtain n st where "tags ! i = new_tag_info n st" by blast
  then show "dests tags i = []" "et_num_incoming (tags ! i) = 0" "base_of tags i = NO_POS" "noop_pos tags i = NO_POS" "smp_of tags i = NO_POS"
    by (simp_all add: new_tag_info_def base_of_def noop_pos_def smp_of_def)
qed

text \<open>The state machine is built, and it has a way for every transition.\<close>

lemma machine_built:
  assumes enc: "encoded \<noteq> []" "\<forall>i \<in> set encoded. i < length tags" and fresh: "\<forall>t \<in> set tags. fresh_tag t"
    and small: "2 * (\<Sum>s\<leftarrow>[0..<length tags]. key_count (count_pairs (rev encoded)) s) + 3 * length tags \<le> NO_POS"
  shows "\<exists>states' tags'. create_state_machine encoded tags = Some (states', tags') \<and>
    machine_ok (length tags) (count_pairs (rev encoded)) (last encoded) states' tags' \<and>
    (\<forall>i < length tags. et_node_id (tags' ! i) = et_node_id (tags ! i) \<and> et_subtype (tags' ! i) = et_subtype (tags ! i)) \<and>
    length states' \<le> 2 * (\<Sum>s\<leftarrow>[0..<length tags]. key_count (count_pairs (rev encoded)) s) + 2 * length tags"
proof -
  let ?k = "length tags" and ?ps = "rev encoded" and ?cnt = "count_pairs (rev encoded)"
  have tal: "tallied ?k [] tags" using fresh_tagD [OF fresh] by (simp add: tallied_def)
  obtain t1 where t1: "collect_transition_statistics encoded tags = Some t1" "dests_counted ?k ?cnt t1"
    "incoming_counted ?k ?cnt (start_count ?ps) UNIV t1" "\<forall>s d. s < ?k \<longrightarrow> dest_pos t1 s d = NO_POS"
    "map tag_frame t1 = map tag_frame tags"
    using collect_counts [OF enc tal] by blast
  obtain t2 opn where t2: "mark_frequent_transitions t1 = Some t2" "marking ?k ?cnt (start_count ?ps) t1 opn t2"
    using marks_ok [OF t1(2-4)] by blast
  have fr1: "\<forall>s < ?k. base_of t1 s = NO_POS \<and> noop_pos t1 s = NO_POS"
    using frame_nth(1,2) [OF t1(5)] fresh_tagD(3,4) [OF fresh] by simp
  have sm1: "2 * (\<Sum>s\<leftarrow>[0..<?k]. key_count ?cnt s) + ?k \<le> NO_POS" using small by simp
  obtain states t3 noops opn' where t3: "build_private_lists t2 = Some (states, t3, noops)"
    "lists_built ?k ?cnt (start_count ?ps) t1 [0..<?k] (states, t3, noops) opn'"
    using private_lists_built [OF t2(2) fr1 sm1] by (metis surj_pair)
  have l3: "length t3 = ?k" "length states \<le> 2 * (\<Sum>s\<leftarrow>[0..<?k]. key_count ?cnt s)" "map tag_ident t3 = map tag_ident t1"
    using t3(2) by (simp_all add: lists_built_def dests_counted_def)
  have l1: "length t1 = ?k" using t1(2) by (simp add: dests_counted_def)
  have id3: "tag_ident (t3 ! i) = tag_ident (tags ! i)" if "i < ?k" for i
  proof -
    have "tag_ident (t3 ! i) = tag_ident (t1 ! i)" using l3(1,3) l1 that by (metis nth_map)
    then show ?thesis using frame_nth(3) [OF t1(5) that] by simp
  qed
  have smp3: "\<forall>i < length t3. smp_of t3 i = NO_POS"
    using id3 fresh_tagD(5) [OF fresh] l3(1) by (simp add: tag_ident_def smp_of_def)
  have sm3: "length states + 2 * length t3 \<le> NO_POS" "3 * length t3 \<le> NO_POS" using small l3(1,2) by simp_all
  obtain states2 t4 placed where t4: "build_public_list states t3 = Some (states2, t4)"
    "length states \<le> length states2" "length states2 \<le> length states + 2 * length t3" "take (length states) states2 = states"
    "list_built (length states) (length states2) placed states2" "public_placed placed t3 t4"
    using public_list_built [OF sm3 smp3] by blast
  have sm4: "length states2 + ?k \<le> NO_POS" using t4(3) l3 small by simp
  have tp: "placed_tables ?k ?cnt opn' (length states) states2 t4 noops placed"
    by (rule tables_placed [OF t3(2) t4(2,4,5,6) sm4])
  have inc3: "incoming_counted ?k ?cnt (start_count ?ps) opn' t3" using t3(2) by (simp add: lists_built_def)
  have hd: "hd ?ps = last encoded" using enc(1) by (simp add: hd_rev)
  then have "hd ?ps < ?k" using enc by simp
  then have "\<exists>p. placed_at states2 (last encoded) p" using lists_first [OF tp t4(6) inc3] hd by simp
  from bases_ok [OF tp this]
  obtain states' tags' where r: "compute_base_indices (length states) noops states2 t4 = Some (states', tags')"
    "machine_ok ?k ?cnt (last encoded) states' tags'" "tags_based states2 (length states) (length states2) t4 {..<?k} tags'"
    "length states' = length states2"
    by blast
  have "create_state_machine encoded tags = Some (states', tags')"
    using enc(1) t1(1) t2(1) t3(1) t4(1) r(1) by (simp add: create_state_machine_def Let_def)
  moreover have "et_node_id (tags' ! i) = et_node_id (tags ! i) \<and> et_subtype (tags' ! i) = et_subtype (tags ! i)" if i: "i < ?k" for i
  proof -
    have "length t4 = ?k" using tp by (simp add: placed_tables_def dests_counted_def)
    then have e5: "tags' ! i = (t4 ! i)\<lparr>et_base := base_of tags' i\<rparr>" using r(3) i by (simp add: tags_based_def)
    have e4: "t4 ! i = (t3 ! i)\<lparr>et_state_machine_pos := smp_of t4 i\<rparr>" using t4(6) i l3(1) by (simp add: public_placed_def)
    have "et_node_id (tags' ! i) = et_node_id (t3 ! i)" "et_subtype (tags' ! i) = et_subtype (t3 ! i)"
      by (subst e5, subst e4, simp)+
    then show ?thesis using id3 [OF i] by (simp add: tag_ident_def)
  qed
  moreover have "length states' \<le> 2 * (\<Sum>s\<leftarrow>[0..<?k]. key_count ?cnt s) + 2 * ?k" using r(4) t4(3) l3(1,2) by simp
  ultimately show ?thesis using r(2) by blast
qed

end
