(* ===== verification/EncoderWalk.thy ===== *)
theory EncoderWalk
  imports EncoderBases TransitionBytes
begin

text \<open>
  The transitions the encoder writes lead a machine with its states through the tags of the records, from
  the last tag to the first.
\<close>

section \<open>The last tag is explicit\<close>

definition ends_explicit :: "(nat \<Rightarrow> nat \<Rightarrow> nat) \<Rightarrow> EncodedTagInfo list \<Rightarrow> EncodedTagInfo list \<Rightarrow> nat \<Rightarrow> bool" where
  "ends_explicit cnt tags tags' e \<longleftrightarrow> length tags' = length tags \<and> length (dests tags' e) \<noteq> 1 \<and>
     (\<forall>i < length tags. base_of tags' i = base_of tags i \<and> noop_pos tags' i = noop_pos tags i \<and> smp_of tags' i = smp_of tags i \<and>
        et_node_id (tags' ! i) = et_node_id (tags ! i) \<and> et_subtype (tags' ! i) = et_subtype (tags ! i) \<and>
        (length (dests tags' i) = 1 \<longrightarrow> length (dests tags i) = 1) \<and>
        (\<forall>d. 0 < cnt i d \<longrightarrow> dest_pos tags' i d = dest_pos tags i d))"

lemma ensure_explicit:
  assumes c: "dests_counted k cnt tags" and e: "encoded \<noteq> []" "hd encoded < k"
  shows "\<exists>tags'. ensure_last_state_explicit encoded tags = Some tags' \<and> ends_explicit cnt tags tags' (hd encoded)"
proof -
  let ?i = "hd encoded"
  obtain es where en: "encoded = ?i # es" using e(1) by (cases encoded) auto
  have i: "?i < length tags" using c e(2) by (simp add: dests_counted_def)
  show ?thesis
  proof (cases "length (dests tags ?i) = 1")
    case False
    then have "ensure_last_state_explicit encoded tags = Some tags"
      using i by (subst en) (auto simp: ensure_last_state_explicit_def item_at_def split: list.split)
    moreover have "ends_explicit cnt tags tags ?i" using False by (simp add: ends_explicit_def)
    ultimately show ?thesis by blast
  next
    case True
    then obtain x di where x: "dests tags ?i = [(x, di)]" by (auto simp: length_Suc_conv)
    define tags' where "tags' = tags[?i := (tags ! ?i)\<lparr>et_dest_info := bt_put (x + 1) new_dest (dests tags ?i)\<rparr>]"
    have "ensure_last_state_explicit encoded tags = Some tags'"
      using i x by (subst en) (simp add: ensure_last_state_explicit_def item_at_def tags'_def)
    moreover have "ends_explicit cnt tags tags' ?i"
      unfolding ends_explicit_def
    proof (intro conjI allI impI)
      show "length (dests tags' ?i) \<noteq> 1" using i x by (simp add: tags'_def)
    next
      fix j d
      assume j: "j < length tags" and d: "0 < cnt j d"
      show "dest_pos tags' j d = dest_pos tags j d"
      proof (cases "j = ?i")
        case True
        obtain di' where "bt_get d (dests tags ?i) = Some di'" using dests_counted_get(3) [OF c d] True by auto
        then have "d = x" using x by (auto split: if_splits)
        then show ?thesis using True i x by (simp add: dest_pos_def tags'_def)
      qed (simp add: dest_pos_def tags'_def)
    next
      fix j
      assume "j < length tags" "length (dests tags' j) = 1"
      then show "length (dests tags j) = 1" using x i by (cases "j = ?i") (simp_all add: tags'_def)
    qed (use i in \<open>auto simp: tags'_def base_of_def noop_pos_def smp_of_def nth_list_update\<close>)
    ultimately show ?thesis by blast
  qed
qed

section \<open>The nodes of the states\<close>

text \<open>The nodes agree with the states: whether they are implicit, and where they lead.\<close>

definition nodes_agree :: "StateMachineNode list \<Rightarrow> StateInfo list \<Rightarrow> EncodedTagInfo list \<Rightarrow> bool" where
  "nodes_agree nodes states tags \<longleftrightarrow> length states \<le> length nodes \<and>
     (\<forall>p < length states.
        if si_etag_index (states ! p) = NO_POS
        then \<not> sn_is_implicit (nodes ! p) \<and> sn_next_node_index (nodes ! p) = si_base (states ! p)
        else (sn_is_implicit (nodes ! p) \<longleftrightarrow>
            base_of tags (si_etag_index (states ! p)) \<noteq> NO_POS \<and> length (dests tags (si_etag_index (states ! p))) = 1) \<and>
          (base_of tags (si_etag_index (states ! p)) \<noteq> NO_POS \<longrightarrow>
            sn_next_node_index (nodes ! p) = base_of tags (si_etag_index (states ! p))))"

text \<open>The tags of the states on a way.\<close>

definition tags_along :: "StateInfo list \<Rightarrow> nat list \<Rightarrow> nat list" where
  "tags_along states ps = filter (\<lambda>t. t \<noteq> NO_POS) (map (\<lambda>p. si_etag_index (states ! p)) ps)"

lemma tags_along_simps [simp]:
  "tags_along states [] = []" "tags_along states (ps @ qs) = tags_along states ps @ tags_along states qs"
  "tags_along states (p # ps) = (if si_etag_index (states ! p) = NO_POS then tags_along states ps
    else si_etag_index (states ! p) # tags_along states ps)"
  by (simp_all add: tags_along_def)

lemma leads_walk:
  assumes "leads states b ks qs p2" "nodes_agree nodes states tags" "walks nodes (p2 # path) offs"
    and "p < length nodes" "\<not> sn_is_implicit (nodes ! p)" "sn_next_node_index (nodes ! p) = b"
  shows "walks nodes (p # qs @ p2 # path) (ks @ offs) \<and> tags_along states qs = []"
  using assms
proof (induction states b ks qs p2 arbitrary: p rule: leads.induct)
  case (2 states b k ks q qs p2 p)
  have q: "q < length states" "si_etag_index (states ! q) = NO_POS" "q = b + k" "leads states (si_base (states ! q)) ks qs p2"
    using 2(2) by auto
  then have "q < length nodes" "\<not> sn_is_implicit (nodes ! q)" "sn_next_node_index (nodes ! q) = si_base (states ! q)"
    using 2(3) by (auto simp: nodes_agree_def)
  from 2(1) [OF q(4) 2(3,4) this] show ?case using 2(5-7) q by simp
qed auto

lemma leads_in: "leads states b ks qs p \<Longrightarrow> set qs \<subseteq> {..<length states}"
  by (induction states b ks qs p rule: leads.induct) auto

section \<open>One transition\<close>

definition out_offsets :: "bytes \<times> u8 option \<Rightarrow> nat list" where
  "out_offsets out = offsets_of (fst out) @ pending_offsets (snd out)"

lemma emit_appends:
  assumes "\<forall>b \<in> set bs. b \<le> 63"
  shows "out_offsets (emit_transition_bytes bs out) = out_offsets out @ map unat bs"
  using emit_keeps_offsets [of bs "fst out" "snd out"] assms by (simp add: out_offsets_def)

lemma route_hops:
  assumes "route states b p" "length states < NO_POS"
  shows "\<exists>bs qs. hops checked states b p = Some bs \<and> (\<forall>x \<in> set bs. x \<le> 63) \<and> leads states b (map unat bs) qs p \<and>
    length bs \<le> length states"
proof -
  obtain l h r where "blocks_linked l h states" "h \<le> length states" "l \<le> p" "p < h" "climbs states l p r" "b \<le> r" "r \<le> b + 63" "b < length states"
    using assms(1) by (auto simp: route_def)
  then show ?thesis using hops_lead [of states l p r h b checked] assms(2) by (fastforce intro: le_trans)
qed

lemma transition_leads:
  assumes rt: "routed states tags0 s d" and sm: "length states < NO_POS"
    and e: "ends_explicit cnt tags0 tags e" and sd: "0 < cnt s d" "s < length tags0" "d < length tags0"
    and ex: "length (dests tags s) \<noteq> 1"
  shows "\<exists>out' ks qs p. transition_bytes states tags s (base_of tags s) d out = Some out' \<and>
    out_offsets out' = out_offsets out @ ks \<and> leads states (base_of tags s) ks qs p \<and> placed_at states d p \<and>
    length ks \<le> 2 * length states"
proof -
  have same: "base_of tags s = base_of tags0 s" "noop_pos tags s = noop_pos tags0 s" "smp_of tags d = smp_of tags0 d"
    "dest_pos tags s d = dest_pos tags0 s d" "length tags = length tags0"
    using e sd by (auto simp: ends_explicit_def)
  have len: "s < length tags" "d < length tags" using sd same by simp_all
  have dp: "(case bt_get d (dests tags s) of None \<Rightarrow> NO_POS | Some di \<Rightarrow> di_pos di) = dest_pos tags s d"
    by (simp add: dest_pos_def)
  show ?thesis
  proof (cases "dest_pos tags s d = NO_POS")
    case False
    then have p: "placed_at states d (dest_pos tags s d)" "route states (base_of tags s) (dest_pos tags s d)"
      using rt same by (simp_all add: routed_def)
    have b: "base_of tags s < length states" using p(2) by (simp add: route_def)
    obtain bs qs where h: "hops True states (base_of tags s) (dest_pos tags s d) = Some bs" "\<forall>x \<in> set bs. x \<le> 63"
      "leads states (base_of tags s) (map unat bs) qs (dest_pos tags s d)" "length bs \<le> length states"
      using route_hops [OF p(2) sm] by blast
    have "transition_bytes states tags s (base_of tags s) d out = Some (emit_transition_bytes bs out)"
      using ex len False h(1) b sm by (simp add: transition_bytes_def item_at_def dp)
    then show ?thesis using emit_appends [OF h(2)] h(3,4) p(1) by (intro exI [of _ "emit_transition_bytes bs out"] exI) auto
  next
    case dn: True
    have p: "placed_at states d (smp_of tags d)" using rt same dn by (simp add: routed_def)
    have pn: "smp_of tags d \<noteq> NO_POS" using p sm by (auto simp: placed_at_def)
    show ?thesis
    proof (cases "noop_pos tags s = NO_POS")
      case True
      then have r: "route states (base_of tags s) (smp_of tags d)" using rt same dn by (simp add: routed_def)
      have b: "base_of tags s < length states" using r by (simp add: route_def)
      obtain bs qs where h: "hops True states (base_of tags s) (smp_of tags d) = Some bs" "\<forall>x \<in> set bs. x \<le> 63"
        "leads states (base_of tags s) (map unat bs) qs (smp_of tags d)" "length bs \<le> length states"
        using route_hops [OF r sm] by blast
      have "transition_bytes states tags s (base_of tags s) d out = Some (emit_transition_bytes bs out)"
        using ex len dn True h(1) b sm pn by (simp add: transition_bytes_def item_at_def dp noop_pos_def smp_of_def)
      then show ?thesis using emit_appends [OF h(2)] h(3,4) p(1) by (intro exI [of _ "emit_transition_bytes bs out"] exI) auto
    next
      case False
      let ?q = "noop_pos tags s"
      have r: "placed_at states NO_POS ?q" "route states (base_of tags s) ?q" "route states (si_base (states ! ?q)) (smp_of tags d)"
        using rt same dn False by (simp_all add: routed_def)
      have b: "base_of tags s < length states" "si_base (states ! ?q) < length states" "?q < length states"
        using r by (simp_all add: route_def placed_at_def)
      obtain bs1 qs1 where h1: "hops False states (base_of tags s) ?q = Some bs1" "\<forall>x \<in> set bs1. x \<le> 63"
        "leads states (base_of tags s) (map unat bs1) qs1 ?q" "length bs1 \<le> length states"
        using route_hops [OF r(2) sm] by blast
      obtain bs2 qs2 where h2: "hops True states (si_base (states ! ?q)) (smp_of tags d) = Some bs2" "\<forall>x \<in> set bs2. x \<le> 63"
        "leads states (si_base (states ! ?q)) (map unat bs2) qs2 (smp_of tags d)" "length bs2 \<le> length states"
        using route_hops [OF r(3) sm] by blast
      have "transition_bytes states tags s (base_of tags s) d out =
          Some (emit_transition_bytes bs2 (emit_transition_bytes bs1 out))"
        using ex len dn False h1(1) h2(1) b sm pn by (simp add: transition_bytes_def item_at_def dp noop_pos_def smp_of_def)
      moreover have "leads states (base_of tags s) (map unat bs1 @ map unat bs2) (qs1 @ ?q # qs2) (smp_of tags d)"
        using leads_append [OF h1(3) b(3) _ h2(3)] r(1) by (simp add: placed_at_def)
      moreover have "out_offsets (emit_transition_bytes bs2 (emit_transition_bytes bs1 out)) =
          out_offsets out @ (map unat bs1 @ map unat bs2)"
        using emit_appends [OF h1(2)] emit_appends [OF h2(2)] by simp
      moreover have "length (map unat bs1 @ map unat bs2) \<le> 2 * length states" using h1(4) h2(4) by simp
      ultimately show ?thesis using p(1) by blast
    qed
  qed
qed

section \<open>All transitions\<close>

lemma walk_of_transitions:
  assumes ok: "machine_ok k cnt first states tags0" and e: "ends_explicit cnt tags0 tags e"
    and na: "nodes_agree nodes states tags"
    and pairs: "\<forall>(s, d) \<in> set (pairs_of (prev # rest)). 0 < cnt s d" and lst: "last (prev # rest) = e"
    and p: "placed_at states prev p" and sm: "length states < NO_POS" "prev < k"
  shows "\<exists>out' path ks. transitions_loop states tags prev rest out = Some out' \<and> out_offsets out' = out_offsets out @ ks \<and>
    walks nodes (p # path) ks \<and> tags_along states (p # path) = prev # rest \<and> set (p # path) \<subseteq> {..<length states} \<and>
    length ks \<le> 2 * length states * length rest"
  using pairs lst p sm(2)
proof (induction rest arbitrary: prev p out)
  case Nil
  have pl: "p < length states" "si_etag_index (states ! p) = prev" using Nil.prems(3) by (simp_all add: placed_at_def)
  have c: "dests_counted k cnt tags0" using ok by (simp add: machine_ok_def)
  have prev: "prev \<noteq> NO_POS" using Nil.prems(4) ok by (auto simp: machine_ok_def)
  have "length (dests tags prev) \<noteq> 1" using e Nil.prems(2) by (auto simp: ends_explicit_def)
  then have "\<not> sn_is_implicit (nodes ! p)" using na pl prev by (auto simp: nodes_agree_def)
  moreover have "p < length nodes" using na pl by (simp add: nodes_agree_def)
  ultimately show ?case using pl prev by (intro exI [of _ out] exI [of _ "[]"]) simp
next
  case (Cons d rest)
  have sd: "0 < cnt prev d" using Cons.prems(1) by (auto simp: pairs_of_def)
  have c: "dests_counted k cnt tags0" and small: "length states + k \<le> NO_POS"
    and rt: "routed states tags0 prev d" "length (dests tags0 prev) = 1 \<longrightarrow> base_of tags0 prev = only_place tags0 prev d"
    and based: "base_of tags0 prev \<noteq> NO_POS"
    using ok sd dests_counted_get(1) [of k cnt tags0 prev d] by (auto simp: machine_ok_def)
  have k: "prev < k" "d < k" "length tags0 = k" using dests_counted_get [OF c sd] c by (auto simp: dests_counted_def)
  have same: "base_of tags prev = base_of tags0 prev" "length tags = k"
    "length (dests tags prev) = 1 \<longrightarrow> length (dests tags0 prev) = 1"
    using e k by (auto simp: ends_explicit_def)
  have pl: "p < length states" "si_etag_index (states ! p) = prev" "prev \<noteq> NO_POS"
    using Cons.prems(3) k small by (auto simp: placed_at_def)
  have node: "sn_is_implicit (nodes ! p) \<longleftrightarrow> length (dests tags prev) = 1" "sn_next_node_index (nodes ! p) = base_of tags prev" "p < length nodes"
    using na pl based same by (auto simp: nodes_agree_def)
  have rest: "\<forall>(s, d) \<in> set (pairs_of (d # rest)). 0 < cnt s d" "last (d # rest) = e"
    using Cons.prems(1,2) by (auto simp: pairs_of_def)
  have loop: "transitions_loop states tags prev (d # rest) out = Option.bind (transition_bytes states tags prev (base_of tags prev) d out)
      (transitions_loop states tags d rest)"
    using k same(2) by (simp add: item_at_def base_of_def)
  show ?case
  proof (cases "length (dests tags prev) = 1")
    case True
    define p2 where "p2 = only_place tags0 prev d"
    have p2: "placed_at states d p2" "sn_next_node_index (nodes ! p) = p2"
      using rt True same node(2) by (auto simp: p2_def only_place_def routed_def split: if_splits)
    obtain out' path ks where r: "transitions_loop states tags d rest out = Some out'" "out_offsets out' = out_offsets out @ ks"
      "walks nodes (p2 # path) ks" "tags_along states (p2 # path) = d # rest" "set (p2 # path) \<subseteq> {..<length states}"
      "length ks \<le> 2 * length states * length rest"
      using Cons.IH [OF rest p2(1) k(2)] by blast
    have "transition_bytes states tags prev (base_of tags prev) d out = Some out"
      using True k same(2) by (simp add: transition_bytes_def item_at_def)
    moreover have "walks nodes (p # p2 # path) ks" using node True p2(2) r(3) by simp
    ultimately have "transitions_loop states tags prev (d # rest) out = Some out' \<and> out_offsets out' = out_offsets out @ ks \<and>
        walks nodes (p # p2 # path) ks \<and> tags_along states (p # p2 # path) = prev # d # rest \<and> set (p # p2 # path) \<subseteq> {..<length states} \<and>
        length ks \<le> 2 * length states * length (d # rest)"
      using loop r(1,2) r(4,5,6) pl by (simp del: walks.simps)
    then show ?thesis by blast
  next
    case False
    obtain out1 ks1 qs p2 where t: "transition_bytes states tags prev (base_of tags prev) d out = Some out1"
      "out_offsets out1 = out_offsets out @ ks1" "leads states (base_of tags prev) ks1 qs p2" "placed_at states d p2" "length ks1 \<le> 2 * length states"
      using transition_leads [OF rt(1) sm(1) e sd _ _ False, of out] k by auto
    obtain out' path ks where r: "transitions_loop states tags d rest out1 = Some out'" "out_offsets out' = out_offsets out1 @ ks"
      "walks nodes (p2 # path) ks" "tags_along states (p2 # path) = d # rest" "set (p2 # path) \<subseteq> {..<length states}"
      "length ks \<le> 2 * length states * length rest"
      using Cons.IH [OF rest t(4) k(2)] by blast
    have w: "walks nodes (p # qs @ p2 # path) (ks1 @ ks)" "tags_along states qs = []"
      using leads_walk [OF t(3) na r(3) node(3) _ node(2)] node(1) False by auto
    have "transitions_loop states tags prev (d # rest) out = Some out' \<and> out_offsets out' = out_offsets out @ (ks1 @ ks) \<and>
        walks nodes (p # (qs @ p2 # path)) (ks1 @ ks) \<and> tags_along states (p # (qs @ p2 # path)) = prev # d # rest \<and> set (p # (qs @ p2 # path)) \<subseteq> {..<length states} \<and>
        length (ks1 @ ks) \<le> 2 * length states * length (d # rest)"
      using loop t(1,2,5) r(1,2,4,5,6) w pl leads_in [OF t(3)] by (simp del: walks.simps)
    then show ?thesis by blast
  qed
qed

text \<open>The bytes of the transitions, and the way they describe from any state of the first tag.\<close>

lemma transitions_walk:
  assumes ok: "machine_ok k (count_pairs (rev encoded)) (last encoded) states tags0"
    and e: "ends_explicit (count_pairs (rev encoded)) tags0 tags (hd encoded)" and en: "encoded \<noteq> []" "\<forall>i \<in> set encoded. i < k"
    and na: "nodes_agree nodes states tags" and p: "placed_at states (last encoded) p" and sm: "length states < NO_POS"
  shows "\<exists>bytes path. build_transitions encoded tags states = Some bytes \<and> walks nodes (p # path) (offsets_of bytes) \<and>
    tags_along states (p # path) = rev encoded \<and> set (p # path) \<subseteq> {..<length states} \<and>
    length bytes \<le> 2 * length states * length encoded"
proof -
  have rv: "rev encoded = last encoded # rev (butlast encoded)"
    using en(1) by (metis append_butlast_last_id rev.simps(2) rev_rev_ident rev_swap)
  have pr: "\<forall>(s, d) \<in> set (pairs_of (last encoded # rev (butlast encoded))). 0 < count_pairs (rev encoded) s d"
    unfolding rv [symmetric] count_pairs_def using count_list_0_iff by fastforce
  have ls: "last (last encoded # rev (butlast encoded)) = hd encoded" unfolding rv [symmetric] using en(1) by (simp add: last_rev)
  have "last encoded < k" using en by simp
  from walk_of_transitions [OF ok e na pr ls p sm this, of "([], None)"]
  obtain out path ks where r: "transitions_loop states tags (last encoded) (rev (butlast encoded)) ([], None) = Some out"
    "out_offsets out = ks" "walks nodes (p # path) ks" "tags_along states (p # path) = rev encoded"
    "set (p # path) \<subseteq> {..<length states}" "length ks \<le> 2 * length states * length (rev (butlast encoded))"
    unfolding rv by (auto simp: out_offsets_def)
  obtain tr pv where out: "out = (tr, pv)" by (cases out)
  define bytes where "bytes = (case pv of None \<Rightarrow> tr | Some lt \<Rightarrow> tr @ [lt])"
  have bt: "build_transitions encoded tags states = Some bytes" using en(1) r(1) out by (simp add: build_transitions_def bytes_def)
  have off: "offsets_of bytes = ks" using r(2) out by (auto simp: bytes_def out_offsets_def split: option.splits)
  have "length bytes \<le> length (offsets_of bytes)"
    by (induction bytes) (simp_all add: byte_offsets_def)
  also have "\<dots> \<le> 2 * length states * length (rev (butlast encoded))" unfolding off by (rule r(6))
  also have "\<dots> \<le> 2 * length states * length encoded" by simp
  finally show ?thesis using bt off r(3-5) by blast
qed

end
