(* ===== verification/EncoderTransitions.thy ===== *)
theory EncoderTransitions
  imports EncoderWalk
begin

text \<open>
  The state machine of the encoder as a whole: from the tags that were pushed to the bytes of the
  transitions, and what a machine with its states does with these bytes.
\<close>

section \<open>How many states there can be\<close>

lemma count_pairs_pos: "0 < count_pairs ps s d \<longleftrightarrow> (s, d) \<in> set (pairs_of ps)"
  using count_list_0_iff [of "pairs_of ps" "(s, d)"] by (auto simp: count_pairs_def)

lemma key_counts_bound: "(\<Sum>s\<leftarrow>[0..<k]. key_count (count_pairs ps) s) \<le> length ps"
proof -
  have s: "{d. 0 < count_pairs ps s d} = snd ` {x \<in> set (pairs_of ps). fst x = s}" for s
    by (force simp: count_pairs_pos)
  have kc: "key_count (count_pairs ps) s \<le> card {x \<in> set (pairs_of ps). fst x = s}" for s
    unfolding key_count_def s by (rule card_image_le) simp
  have "(\<Sum>s\<leftarrow>[0..<k]. key_count (count_pairs ps) s) \<le> (\<Sum>s\<leftarrow>[0..<k]. card {x \<in> set (pairs_of ps). fst x = s})"
    by (rule sum_list_mono) (rule kc)
  also have "\<dots> = (\<Sum>s \<in> {0..<k}. card {x \<in> set (pairs_of ps). fst x = s})"
    by (simp add: sum.list_conv_set_nth interv_sum_list_conv_sum_set_nat)
  also have "\<dots> = card (\<Union>s \<in> {0..<k}. {x \<in> set (pairs_of ps). fst x = s})"
    by (rule card_UN_disjoint [symmetric]) auto
  also have "\<dots> \<le> card (set (pairs_of ps))" by (rule card_mono) auto
  also have "\<dots> \<le> length (pairs_of ps)" by (rule card_length)
  also have "\<dots> \<le> length ps" by (simp add: pairs_of_def)
  finally show ?thesis .
qed

section \<open>From the tags to the transitions\<close>

text \<open>
  What the encoder has built for a sequence of tags: the states, the tags, the bytes, and that a machine
  that agrees with the states is led by the bytes through the tags in reverse.
\<close>

definition leads_through :: "nat list \<Rightarrow> StateInfo list \<Rightarrow> EncodedTagInfo list \<Rightarrow> bytes \<Rightarrow> bool" where
  "leads_through encoded states tags bytes \<longleftrightarrow>
     (\<exists>p. placed_at states (last encoded) p) \<and> length bytes \<le> 2 * length states * length encoded \<and>
     (\<forall>nodes p. nodes_agree nodes states tags \<longrightarrow> placed_at states (last encoded) p \<longrightarrow>
       (\<exists>path. walks nodes (p # path) (offsets_of bytes) \<and> tags_along states (p # path) = rev encoded \<and>
         set (p # path) \<subseteq> {..<length states}))"

lemma machine_leads:
  assumes enc: "encoded \<noteq> []" "\<forall>i \<in> set encoded. i < length tags" and fresh: "\<forall>t \<in> set tags. fresh_tag t"
    and small: "2 * length encoded + 3 * length tags < NO_POS"
  shows "\<exists>states tags1 tags2 bytes. create_state_machine encoded tags = Some (states, tags1) \<and>
    ensure_last_state_explicit encoded tags1 = Some tags2 \<and> build_transitions encoded tags2 states = Some bytes \<and>
    machine_ok (length tags) (count_pairs (rev encoded)) (last encoded) states tags1 \<and>
    ends_explicit (count_pairs (rev encoded)) tags1 tags2 (hd encoded) \<and>
    leads_through encoded states tags2 bytes \<and>
    (\<forall>i < length tags. et_node_id (tags2 ! i) = et_node_id (tags ! i) \<and> et_subtype (tags2 ! i) = et_subtype (tags ! i)) \<and>
    length states \<le> 2 * length encoded + 2 * length tags"
proof -
  let ?k = "length tags" and ?cnt = "count_pairs (rev encoded)"
  have tags: "0 < length tags" using enc by (cases encoded) auto
  have "2 * (\<Sum>s\<leftarrow>[0..<?k]. key_count ?cnt s) + 3 * ?k \<le> NO_POS"
    using key_counts_bound [of "rev encoded" ?k] small by simp
  from machine_built [OF enc fresh this] obtain states tags1 where
    m: "create_state_machine encoded tags = Some (states, tags1)" "machine_ok ?k ?cnt (last encoded) states tags1"
    "\<forall>i < ?k. et_node_id (tags1 ! i) = et_node_id (tags ! i) \<and> et_subtype (tags1 ! i) = et_subtype (tags ! i)"
    "length states \<le> 2 * (\<Sum>s\<leftarrow>[0..<?k]. key_count ?cnt s) + 2 * ?k" by blast
  have c: "dests_counted ?k ?cnt tags1" and lst: "length states + ?k \<le> NO_POS" and first: "\<exists>p. placed_at states (last encoded) p"
    using m(2) by (auto simp: machine_ok_def)
  have st: "length states < NO_POS" using lst tags by linarith
  have "hd encoded < ?k" using enc by simp
  from ensure_explicit [OF c enc(1) this] obtain tags2 where
    e: "ensure_last_state_explicit encoded tags1 = Some tags2" "ends_explicit ?cnt tags1 tags2 (hd encoded)" by blast
  obtain p where p: "placed_at states (last encoded) p" using first by blast
  have na: "\<exists>nodes. nodes_agree nodes states tags2"
  proof -
    define node where "node s =
        plain_node NoOp None
          (if si_etag_index s = NO_POS then si_base s else base_of tags2 (si_etag_index s))
          (si_etag_index s \<noteq> NO_POS \<and> base_of tags2 (si_etag_index s) \<noteq> NO_POS \<and> length (dests tags2 (si_etag_index s)) = 1) None" for s :: StateInfo
    have "nodes_agree (map node states) states tags2"
      by (simp add: nodes_agree_def node_def plain_node_def)
    then show ?thesis by blast
  qed
  have tw: "\<exists>bytes path. build_transitions encoded tags2 states = Some bytes \<and> walks nodes (q # path) (offsets_of bytes) \<and>
      tags_along states (q # path) = rev encoded \<and> set (q # path) \<subseteq> {..<length states} \<and>
      length bytes \<le> 2 * length states * length encoded"
    if "nodes_agree nodes states tags2" "placed_at states (last encoded) q" for nodes q
    by (rule transitions_walk [OF m(2) e(2) enc that st])
  then obtain bytes where b: "build_transitions encoded tags2 states = Some bytes" "length bytes \<le> 2 * length states * length encoded"
    using na p by blast
  have "leads_through encoded states tags2 bytes"
    unfolding leads_through_def
  proof (intro conjI allI impI)
    fix nodes q
    assume "nodes_agree nodes states tags2" "placed_at states (last encoded) q"
    from tw [OF this] show "\<exists>path. walks nodes (q # path) (offsets_of bytes) \<and> tags_along states (q # path) = rev encoded \<and>
        set (q # path) \<subseteq> {..<length states}" using b(1) by auto
  qed (use b(2) first in blast)+
  moreover have "et_node_id (tags2 ! i) = et_node_id (tags ! i) \<and> et_subtype (tags2 ! i) = et_subtype (tags ! i)" if "i < ?k" for i
    using e(2) m(3) c that by (auto simp: ends_explicit_def dests_counted_def)
  moreover have "length states \<le> 2 * length encoded + 2 * ?k" using m(4) key_counts_bound [of "rev encoded" ?k] by simp
  ultimately show ?thesis using m e b by blast
qed

section \<open>Properties\<close>

text \<open>C12. For any tags that were pushed, the encoder builds a state machine, and the bytes it writes for the
  transitions lead a decoder with nodes for these states through exactly the tags, from the last to the first.
\<close>

theorem transitions_lead_back:
  assumes "encoded \<noteq> []" "\<forall>i \<in> set encoded. i < length tags" "\<forall>t \<in> set tags. fresh_tag t"
    and "2 * length encoded + 3 * length tags < NO_POS"
  shows "\<exists>states tags1 tags2 bytes. create_state_machine encoded tags = Some (states, tags1) \<and>
    ensure_last_state_explicit encoded tags1 = Some tags2 \<and> build_transitions encoded tags2 states = Some bytes \<and>
    (\<exists>p. placed_at states (last encoded) p) \<and>
    (\<forall>nodes p. nodes_agree nodes states tags2 \<longrightarrow> placed_at states (last encoded) p \<longrightarrow>
      (\<exists>path. walks nodes (p # path) (offsets_of bytes) \<and> tags_along states (p # path) = rev encoded))"
  using machine_leads [OF assms] unfolding leads_through_def by blast

definition sample_tag :: "u32 \<Rightarrow> EncodedTagInfo" where
  "sample_tag t = new_tag_info \<lparr>parent_message_id = ROOT, node_id_tag = t\<rparr> TRIVIAL"

theorem transitions_lead_back_witness:
  "\<exists>states tags1 tags2 bytes. create_state_machine [0, 1, 0, 2] [sample_tag 13, sample_tag 21, sample_tag 29] = Some (states, tags1) \<and>
    ensure_last_state_explicit [0, 1, 0, 2] tags1 = Some tags2 \<and> build_transitions [0, 1, 0, 2] tags2 states = Some bytes"
proof -
  have t: "\<forall>t \<in> set [sample_tag 13, sample_tag 21, sample_tag 29]. fresh_tag t"
    by (simp add: sample_tag_def fresh_tag_def) (simp add: new_tag_info_def)
  have s: "2 * length [0 :: nat, 1, 0, 2] + 3 * length [sample_tag 13, sample_tag 21, sample_tag 29] < NO_POS"
    by (simp add: NO_POS_def)
  from transitions_lead_back [OF _ _ t s] show ?thesis by auto
qed

end
