(* ===== verification/EncoderHeader.thy ===== *)
theory EncoderHeader
  imports TransposeRecords EncoderReplay EncoderBuffers EncoderBuckets EncoderTransitions
begin

text \<open>
  The header of a chunk: what the encoder writes for the states, and what the decoder reads from it.
\<close>

section \<open>Reading what was written\<close>

definition reads :: "(BufferCursor, 'a) action \<Rightarrow> bytes \<Rightarrow> 'a \<Rightarrow> bool" where
  "reads m bs x \<longleftrightarrow> (\<forall>c rest. cursor_left c (bs @ rest) \<longrightarrow> (\<exists>c'. m c = (Inr x, c') \<and> cursor_left c' rest))"

lemma readsD: "reads m bs x \<Longrightarrow> cursor_left c (bs @ rest) \<Longrightarrow> \<exists>c'. m c = (Inr x, c') \<and> cursor_left c' rest"
  by (simp add: reads_def)

lemma reads_varint32: "reads bc_read_varint32 (encode_u32 v) v"
  using read_varint32_left cursor_left_skip unfolding reads_def by blast

lemma read_varint64_left:
  assumes "cursor_left c (encode_u64 v @ rest)"
  shows "bc_read_varint64 c = (Inr v, c\<lparr>bc_pos := bc_pos c + length (encode_u64 v)\<rparr>)"
  using assms by (simp add: bc_read_varint64_def cursor_left_def)

lemma reads_varint64: "reads bc_read_varint64 (encode_u64 v) v"
  using read_varint64_left cursor_left_skip unfolding reads_def by blast

lemma reads_byte: "reads bc_read_byte [b] b"
  unfolding reads_def
proof (intro allI impI)
  fix c rest
  assume c: "cursor_left c ([b] @ rest)"
  have "drop (bc_pos c) (bc_data c) = b # rest" using c by (simp add: cursor_left_def)
  then have "bc_data c ! bc_pos c = b" by (rule nth_via_drop)
  moreover have "bc_pos c < length (bc_data c)" using cursor_left_length [OF c] by simp
  ultimately show "\<exists>c'. bc_read_byte c = (Inr b, c') \<and> cursor_left c' rest"
    using c cursor_left_skip [OF c] by (simp add: bc_read_byte_def cursor_left_def)
qed

lemma reads_ret: "reads (ret x) [] x"
  by (simp add: reads_def ret_def)

lemma reads_then:
  assumes "reads m as x" "reads (f x) bs y"
  shows "reads (then_do m f) (as @ bs) y"
  unfolding reads_def
proof (intro allI impI)
  fix c rest
  assume "cursor_left c ((as @ bs) @ rest)"
  then have "cursor_left c (as @ bs @ rest)" by simp
  from readsD [OF assms(1) this] obtain c1 where c1: "m c = (Inr x, c1)" "cursor_left c1 (bs @ rest)" by blast
  from readsD [OF assms(2) this(2)] show "\<exists>c'. then_do m f c = (Inr y, c') \<and> cursor_left c' rest" using c1(1) by auto
qed

lemma reads_then_ret: "reads m as x \<Longrightarrow> y = f x \<Longrightarrow> reads (then_do m (\<lambda>x. ret (f x))) as y"
  using reads_then [of m as x "\<lambda>x. ret (f x)" "[]"] reads_ret by fastforce

lemma reads_times:
  assumes "\<And>x. x \<in> set xs \<Longrightarrow> reads m (f x) (g x)"
  shows "reads (read_times (length xs) m) (concat (map f xs)) (map g xs)"
  using assms
proof (induction xs)
  case Nil
  show ?case by (simp add: reads_ret)
next
  case (Cons x xs)
  have "reads (then_do (read_times (length xs) m) (\<lambda>ys. ret (g x # ys))) (concat (map f xs)) (map g (x # xs))"
    using Cons by (intro reads_then_ret) auto
  moreover have "reads m (f x) (g x)" by (rule Cons.prems) simp
  ultimately show ?case by (simp add: reads_then [where x = "g x"])
qed

section \<open>The sizes\<close>

lemma unat_index: "n < 2 ^ 32 \<Longrightarrow> unat (of_nat n :: u32) = n"
  by (simp add: unat_of_nat)

lemma reads_index: "reads bc_read_varint32 (encode_index n) (of_nat n)"
  unfolding encode_index_def by (rule reads_varint32)

lemma reads_sizes:
  assumes "length buckets < 2 ^ 32" "length sizes < 2 ^ 32" "\<forall>b \<in> set buckets. length b \<le> u64_max" "\<forall>n \<in> set sizes. n \<le> u64_max"
  shows "reads read_sizes (encode_index (length buckets) @ encode_index (length sizes) @
       concat (map (\<lambda>b. encode_u64 (of_nat (length b))) buckets) @ concat (map (\<lambda>n. encode_u64 (of_nat n)) sizes))
     (map length buckets, sizes)"
proof -
  have "reads (read_times (length buckets) bc_read_varint64) (concat (map (\<lambda>b. encode_u64 (of_nat (length b))) buckets))
      (map (\<lambda>b. of_nat (length b)) buckets)"
    and "reads (read_times (length sizes) bc_read_varint64) (concat (map (\<lambda>n. encode_u64 (of_nat n)) sizes)) (map of_nat sizes)"
    by (rule reads_times, rule reads_varint64)+
  moreover have "map unat (map (\<lambda>b. of_nat (length b) :: u64) buckets) = map length buckets" "map unat (map of_nat sizes :: u64 list) = sizes"
    using assms(3,4) by (auto simp: unat_of_nat_u64 intro: map_idI)
  ultimately show ?thesis
    unfolding read_sizes_def
    by (intro reads_then [OF reads_index] reads_then_ret reads_then [where x = "map (\<lambda>b. of_nat (length b)) buckets"]
      reads_then_ret [where x = "map of_nat sizes"])
      (simp_all only: unat_index [OF assms(1)] unat_index [OF assms(2)])
qed

section \<open>The rows\<close>

definition row_subtypes :: "StateRows list \<Rightarrow> bytes" where
  "row_subtypes rows = concat (map (\<lambda>r. list_of_option (sr_subtype r)) rows)"

definition row_buffers :: "StateRows list \<Rightarrow> bytes" where
  "row_buffers rows = concat (map (\<lambda>r. concat (map encode_index (list_of_option (sr_buffer r)))) rows)"

definition row_ok :: "StateRows \<Rightarrow> bool" where
  "row_ok r \<longleftrightarrow> (sr_subtype r \<noteq> None \<longleftrightarrow> takes_subtype (sr_tag r))"

lemma subtypes_counted:
  "\<forall>r \<in> set rows. row_ok r \<Longrightarrow> length (row_subtypes rows) = length (filter takes_subtype (map sr_tag rows))"
proof (induction rows)
  case (Cons r rows)
  then show ?case by (cases "sr_subtype r") (auto simp: row_subtypes_def row_ok_def list_of_option_def)
qed (simp add: row_subtypes_def)

definition metadata_of :: "StateRows list \<Rightarrow> StateMetadata" where
  "metadata_of rows = \<lparr>sm_tags = map sr_tag rows, sm_next_node_indices = map (\<lambda>r. of_nat (sr_base r)) rows,
     sm_subtypes_bytes = row_subtypes rows, sm_num_states = length rows\<rparr>"

lemma reads_metadata:
  assumes "length rows < 2 ^ 32" "\<forall>r \<in> set rows. row_ok r"
  shows "reads parse_state_metadata (encode_index (length rows) @ concat (map (\<lambda>r. encode_u32 (sr_tag r)) rows) @
      concat (map (\<lambda>r. encode_index (sr_base r)) rows) @ row_subtypes rows) (metadata_of rows)"
proof -
  have tags: "reads (read_times (length rows) bc_read_varint32) (concat (map (\<lambda>r. encode_u32 (sr_tag r)) rows)) (map sr_tag rows)"
    by (rule reads_times, rule reads_varint32)
  have bases: "reads (read_times (length rows) bc_read_varint32) (concat (map (\<lambda>r. encode_index (sr_base r)) rows))
      (map (\<lambda>r. of_nat (sr_base r)) rows)"
    by (rule reads_times, rule reads_index)
  have "reads (read_times (length (row_subtypes rows)) bc_read_byte) (concat (map (\<lambda>b. [b]) (row_subtypes rows))) (map (\<lambda>b. b) (row_subtypes rows))"
    by (rule reads_times, rule reads_byte)
  then have subs: "reads (read_times (length (filter (\<lambda>tag. is_valid_proto_tag tag \<and> has_subtype tag) (map sr_tag rows))) bc_read_byte)
      (row_subtypes rows) (row_subtypes rows)"
    using subtypes_counted [OF assms(2)] by (simp add: takes_subtype_def [abs_def] concat_map_singleton)
  have n: "unat (of_nat (length rows) :: u32) = length rows" by (rule unat_index [OF assms(1)])
  show ?thesis
    unfolding parse_state_metadata_def Let_def
    by (rule reads_then [OF reads_index], unfold n, rule reads_then [OF tags], rule reads_then [OF bases], rule reads_then_ret [OF subs])
      (simp add: metadata_of_def)
qed

section \<open>The row of a tag\<close>

definition tag_row :: "(NodeId \<rightharpoonup> nat) \<Rightarrow> NodeId \<times> u8 \<Rightarrow> nat \<Rightarrow> StateRows" where
  "tag_row pos t base =
     (let n = fst t; st = snd t; tag = node_id_tag n
      in if tag = 0 then \<lparr>sr_tag = parent_message_id n, sr_base = base, sr_subtype = None,
           sr_buffer = (if parent_message_id n = NON_PROTO then Some (buffer_of pos n) else None)\<rparr>
         else if tag_wire_type tag = Some LengthDelimited \<and> st = LENGTH_DELIMITED_START_OF_SUBMESSAGE
         then \<lparr>sr_tag = START_OF_SUBMESSAGE, sr_base = base, sr_subtype = None, sr_buffer = None\<rparr>
         else if tag_wire_type tag = Some LengthDelimited \<and> st = LENGTH_DELIMITED_END_OF_SUBMESSAGE
         then \<lparr>sr_tag = tag + SUBMESSAGE_WIRE_TYPE - wire_type_raw LengthDelimited, sr_base = base, sr_subtype = None, sr_buffer = None\<rparr>
         else \<lparr>sr_tag = tag, sr_base = base, sr_subtype = (if has_subtype tag then Some st else None),
           sr_buffer = (if has_data_buffer tag st then Some (buffer_of pos n) else None)\<rparr>)"

lemma state_row_tag:
  assumes "si_etag_index s \<noteq> NO_POS" "si_etag_index s < length tags"
  shows "state_row tags pos num s = Some (tag_row pos (tag_at tags (si_etag_index s))
    (if base_of tags (si_etag_index s) \<noteq> NO_POS
     then base_of tags (si_etag_index s) + (if length (dests tags (si_etag_index s)) = 1 then num else 0) else 0))"
proof -
  define t where "t = tags ! si_etag_index s"
  have t: "item_at tags (si_etag_index s) = Some t" using assms(2) by (simp add: t_def item_at_def)
  have e: "base_of tags (si_etag_index s) = et_base t" "dests tags (si_etag_index s) = et_dest_info t"
    "tag_at tags (si_etag_index s) = (et_node_id t, et_subtype t)"
    by (simp_all add: base_of_def t_def tag_at_def)
  have n: "node_id_tag (et_node_id t) = 0 \<Longrightarrow> parent_message_id (et_node_id t) = NON_PROTO \<Longrightarrow>
      buffer_of pos \<lparr>parent_message_id = NON_PROTO, node_id_tag = 0\<rparr> = buffer_of pos (et_node_id t)"
    by (cases "et_node_id t") simp
  show ?thesis
    using assms(1) n unfolding state_row_def t tag_row_def e by (simp add: Let_def)
qed

section \<open>The node of a row\<close>

lemma unat_tag_mod: "unat (tag :: u32) mod 8 = unat (tag AND 7)"
  by (simp add: and_7 unsigned_take_bit_eq take_bit_eq_mod unat_mod)

lemma valid_tag_ge: "is_valid_proto_tag tag \<Longrightarrow> 8 \<le> unat tag"
  by (auto simp: is_valid_proto_tag_def word_less_nat_alt split: if_splits)

lemma tag_low_bits: "tag_wire_type tag = Some w \<Longrightarrow> tag AND 7 = wire_type_raw w"
  by (simp add: tag_wire_type_def from_raw_Some)

lemma submessage_tag:
  assumes "is_valid_proto_tag tag" "tag_wire_type tag = Some LengthDelimited"
  shows "(tag + SUBMESSAGE_WIRE_TYPE - wire_type_raw LengthDelimited) AND 7 = SUBMESSAGE_WIRE_TYPE"
    and "8 \<le> unat (tag + SUBMESSAGE_WIRE_TYPE - wire_type_raw LengthDelimited)"
    and "tag + SUBMESSAGE_WIRE_TYPE - wire_type_raw LengthDelimited - SUBMESSAGE_WIRE_TYPE + wire_type_raw LengthDelimited = tag"
proof -
  have m: "unat tag mod 8 = 2" using tag_low_bits [OF assms(2)] by (simp add: unat_tag_mod)
  have e: "tag + SUBMESSAGE_WIRE_TYPE - wire_type_raw LengthDelimited = tag + 4" by (simp add: SUBMESSAGE_WIRE_TYPE_def)
  have "unat tag < 4294967296" using unsigned_less [of tag, where 'a = nat] by simp
  then have "unat tag + 4 < 4294967296" using m by presburger
  then have u: "unat (tag + 4) = unat tag + 4" by (simp add: unat_word_ariths)
  then show "8 \<le> unat (tag + SUBMESSAGE_WIRE_TYPE - wire_type_raw LengthDelimited)"
    unfolding e using valid_tag_ge [OF assms(1)] by simp
  have "(k + 4) mod 8 = 6" if "k mod 8 = 2" for k :: nat using that mod_add_left_eq [of k 8 4] by simp
  then have "unat ((tag + 4) AND 7) = 6" using m by (simp only: unat_tag_mod [symmetric] u)
  then show "(tag + SUBMESSAGE_WIRE_TYPE - wire_type_raw LengthDelimited) AND 7 = SUBMESSAGE_WIRE_TYPE"
    unfolding e by (simp add: SUBMESSAGE_WIRE_TYPE_def word_unat_eq_iff)
  show "tag + SUBMESSAGE_WIRE_TYPE - wire_type_raw LengthDelimited - SUBMESSAGE_WIRE_TYPE + wire_type_raw LengthDelimited = tag"
    by (simp add: SUBMESSAGE_WIRE_TYPE_def)
qed

lemma large_tag: "8 \<le> unat (tag :: u32) \<Longrightarrow> tag \<noteq> NO_OP \<and> tag \<noteq> NON_PROTO \<and> tag \<noteq> START_OF_MESSAGE \<and> tag \<noteq> START_OF_SUBMESSAGE"
  by (auto simp: message_id_defs)

lemma buffer_index_read:
  assumes "cursor_left (bs_hdr b) (encode_index i @ rest)" "i < nb" "nb \<le> 2 ^ 32"
  shows "\<exists>c'. read_buffer_index nb msg b = Some (Inr i, b\<lparr>bs_hdr := c'\<rparr>) \<and> cursor_left c' rest"
proof -
  obtain c' where c: "bc_read_varint32 (bs_hdr b) = (Inr (of_nat i), c')" "cursor_left c' rest"
    using readsD [OF reads_index assms(1)] by blast
  have "unat (of_nat i :: u32) = i" using assms(2,3) by (intro unat_index) simp
  then show ?thesis using c assms(2) by (intro exI [of _ c']) (simp add: read_buffer_index_def on_hdr_def surely_def ret_def)
qed

definition tag_node :: "u32 \<Rightarrow> u8 \<Rightarrow> CallbackType \<Rightarrow> nat \<Rightarrow> nat \<Rightarrow> bool \<Rightarrow> StateMachineNode" where
  "tag_node tag st cb i nx imp =
     (let inline = (tag_wire_type tag = Some WVarint \<and> VARINT_INLINE_0 \<le> st); tag_bytes = encode_u32 tag
      in \<lparr>sn_tag_data = (if inline then tag_bytes @ [st - VARINT_INLINE_0] else tag_bytes),
          sn_tag_data_size = (if inline then length tag_bytes + 1 else length tag_bytes),
          sn_callback_type = cb, sn_buffer_index = (if has_data_buffer tag st then Some i else None),
          sn_next_node_index = nx, sn_is_implicit = imp, sn_node_template_index = None\<rparr>)"

lemma proto_node_built:
  assumes dec: "(if raw AND 7 = SUBMESSAGE_WIRE_TYPE
         then (raw - SUBMESSAGE_WIRE_TYPE + wire_type_raw LengthDelimited, LENGTH_DELIMITED_END_OF_SUBMESSAGE)
         else (raw, TRIVIAL)) = (tag, st0)"
    and valid: "is_valid_proto_tag tag" and st: "\<not> has_subtype tag \<Longrightarrow> st = st0"
    and sub: "drop (bs_subtype_idx b) subs = (if has_subtype tag then [st] else []) @ later"
    and buf: "cursor_left (bs_hdr b) ((if has_data_buffer tag st then encode_index i else []) @ rest)"
      "has_data_buffer tag st \<Longrightarrow> i < nb" "nb \<le> 2 ^ 32"
    and cb: "callback_for_wire_type (tag_wire_type tag) st = Inr cb"
  shows "\<exists>b'. build_proto_tag_node raw nx imp nb subs False b = Some (Inr (tag_node tag st cb i nx imp), b') \<and>
    drop (bs_subtype_idx b') subs = later \<and> cursor_left (bs_hdr b') rest \<and> bs_has_nonproto_op b' = bs_has_nonproto_op b"
proof -
  define m1 where "m1 = (if has_subtype tag then next_subtype subs else surely (ret st0))"
  obtain b1 where b1: "m1 b = Some (Inr st, b1)" "drop (bs_subtype_idx b1) subs = later" "bs_hdr b1 = bs_hdr b"
    "bs_has_nonproto_op b1 = bs_has_nonproto_op b"
  proof (cases "has_subtype tag")
    case True
    then have d: "drop (bs_subtype_idx b) subs = st # later" using sub by simp
    then have "bs_subtype_idx b < length subs" by (metis drop_all leI list.distinct(1))
    moreover have "drop (Suc (bs_subtype_idx b)) subs = later" using d by (metis drop_Suc list.sel(3) tl_drop)
    ultimately show ?thesis using True nth_via_drop [OF d] that [of "b\<lparr>bs_subtype_idx := bs_subtype_idx b + 1\<rparr>"]
      by (simp add: m1_def next_subtype_def item_at_def)
  next
    case False
    then show ?thesis using sub st that [of b] by (simp add: m1_def surely_def ret_def)
  qed
  define m2 where "m2 = (if has_data_buffer tag st
      then try_then (read_buffer_index nb ''buffer index too large'') (\<lambda>i. surely (ret (Some i)))
      else surely (ret None))"
  obtain b2 where b2: "m2 b1 = Some (Inr (if has_data_buffer tag st then Some i else None), b2)" "bs_subtype_idx b2 = bs_subtype_idx b1"
    "cursor_left (bs_hdr b2) rest" "bs_has_nonproto_op b2 = bs_has_nonproto_op b1"
  proof (cases "has_data_buffer tag st")
    case True
    then have "cursor_left (bs_hdr b1) (encode_index i @ rest)" using buf(1) b1(3) by simp
    from buffer_index_read [OF this buf(2) [OF True] buf(3), of "''buffer index too large''"] obtain c' where
      "read_buffer_index nb ''buffer index too large'' b1 = Some (Inr i, b1\<lparr>bs_hdr := c'\<rparr>)" "cursor_left c' rest" by blast
    then show ?thesis using True that [of "b1\<lparr>bs_hdr := c'\<rparr>"] by (simp add: m2_def surely_def ret_def)
  next
    case False
    then show ?thesis using buf(1) b1(3) that [of b1] by (simp add: m2_def surely_def ret_def)
  qed
  have "build_proto_tag_node raw nx imp nb subs False b = Some (Inr (tag_node tag st cb i nx imp), b2)"
    unfolding build_proto_tag_node_def dec Let_def prod.case if_not_P [OF not_not [THEN iffD2, OF valid]] m1_def [symmetric]
      try_then_simps(3) [of m1, OF b1(1)] m2_def [symmetric] try_then_simps(3) [of m2, OF b2(1)]
    using cb by (simp add: surely_def of_res_def ret_def tag_node_def Let_def)
  then show ?thesis using b1 b2 by simp
qed

text \<open>The index of a buffer is that of its node.\<close>

abbreviation place :: "(NodeId \<rightharpoonup> nat) \<Rightarrow> BufferType \<times> NodeId \<Rightarrow> nat" where
  "place pos \<equiv> \<lambda>key. buffer_of pos (snd key)"

lemma tag_node_prefix: "node_prefix (tag_node tag st cb i nx imp) =
    Some (if tag_wire_type tag = Some WVarint \<and> VARINT_INLINE_0 \<le> st then encode_u32 tag @ [st - VARINT_INLINE_0] else encode_u32 tag)"
  by (simp add: node_prefix_def tag_node_def Let_def prefix_at_def)

lemma tag_buffer_has:
  assumes "node_id_tag n \<noteq> 0"
  shows "tag_buffer (n, st) = (if has_data_buffer (node_id_tag n) st then Some (buffer_type n, n) else None)"
  using assms by (auto simp: tag_buffer.simps has_data_buffer_def buffer_type_def split: option.splits WireType.splits)

lemma event_subtypes:
  assumes "event_ok (n, st, c)" "tag_wire_type (node_id_tag n) = Some w" "node_id_tag n \<noteq> 0"
  shows "w = WVarint \<Longrightarrow> st \<le> VARINT_INLINE_MAX"
    and "w = LengthDelimited \<Longrightarrow> st = LENGTH_DELIMITED_STRING \<or> st = LENGTH_DELIMITED_START_OF_SUBMESSAGE \<or> st = LENGTH_DELIMITED_END_OF_SUBMESSAGE"
proof -
  have "st < VARINT_INLINE_0 \<Longrightarrow> st \<le> VARINT_INLINE_MAX" by (simp add: subtype_defs word_less_nat_alt word_le_nat_alt)
  then show "w = WVarint \<Longrightarrow> st \<le> VARINT_INLINE_MAX" using assms by (auto simp: event_ok.simps split: if_splits)
  show "w = LengthDelimited \<Longrightarrow> st = LENGTH_DELIMITED_STRING \<or> st = LENGTH_DELIMITED_START_OF_SUBMESSAGE \<or> st = LENGTH_DELIMITED_END_OF_SUBMESSAGE"
    using assms by (auto simp: event_ok.simps split: if_splits)
qed

text \<open>The action that the code finds for a tag that is stored as it is.\<close>

lemma callback_of_tag:
  assumes "event_ok (n, st, c)" "tag_wire_type (node_id_tag n) = Some w" "node_id_tag n \<noteq> 0"
    and "\<not> (w = LengthDelimited \<and> st = LENGTH_DELIMITED_START_OF_SUBMESSAGE)"
  shows "callback_for_wire_type (Some w) st = Inr (fst (action_of (n, st)))"
    and "snd (action_of (n, st)) =
      (if w = WVarint \<and> VARINT_INLINE_0 \<le> st then encode_u32 (node_id_tag n) @ [st - VARINT_INLINE_0] else encode_u32 (node_id_tag n))"
proof -
  note e = event_subtypes [OF assms(1-3)]
  have "callback_for_wire_type (Some w) st = Inr (fst (action_of (n, st))) \<and> snd (action_of (n, st)) =
      (if w = WVarint \<and> VARINT_INLINE_0 \<le> st then encode_u32 (node_id_tag n) @ [st - VARINT_INLINE_0] else encode_u32 (node_id_tag n))"
  proof (cases w)
    case WVarint
    then show ?thesis using e(1) assms(2,3)
      by (simp add: callback_for_wire_type_def action_of.simps Let_def not_less [symmetric])
  next
    case LengthDelimited
    then have "st = LENGTH_DELIMITED_STRING \<or> st = LENGTH_DELIMITED_END_OF_SUBMESSAGE" using e(2) assms(4) by blast
    then show ?thesis using assms(2,3) LengthDelimited
      by (elim disjE) (simp_all add: callback_for_wire_type_def action_of.simps Let_def subtype_defs)
  qed (use assms(2,3) in \<open>simp_all add: callback_for_wire_type_def action_of.simps Let_def\<close>)
  then show "callback_for_wire_type (Some w) st = Inr (fst (action_of (n, st)))"
    "snd (action_of (n, st)) =
      (if w = WVarint \<and> VARINT_INLINE_0 \<le> st then encode_u32 (node_id_tag n) @ [st - VARINT_INLINE_0] else encode_u32 (node_id_tag n))"
    by blast+
qed

text \<open>Building the node of a row takes the subtype and the buffer of the row from what is ahead.\<close>

definition built_row ::
  "u32 \<Rightarrow> nat \<Rightarrow> bool \<Rightarrow> nat \<Rightarrow> bytes \<Rightarrow> bytes \<Rightarrow> bytes \<Rightarrow> BuildState \<Rightarrow> (StateMachineNode \<Rightarrow> bool) \<Rightarrow> bool" where
  "built_row raw nx imp nb subs later rest b P \<longleftrightarrow>
     (\<exists>node b'. build_single_node raw nx imp nb subs False b = Some (Inr node, b') \<and>
        P node \<and> sn_next_node_index node = nx \<and> sn_is_implicit node = imp \<and>
        drop (bs_subtype_idx b') subs = later \<and> cursor_left (bs_hdr b') rest \<and>
        bs_has_nonproto_op b' = (bs_has_nonproto_op b \<or> raw = NON_PROTO))"

lemma plain_built:
  assumes "build_single_node raw nx imp nb subs False b = Some (Inr (plain_node cb None nx imp None), b)"
    and "P (plain_node cb None nx imp None)" "drop (bs_subtype_idx b) subs = later" "cursor_left (bs_hdr b) rest" "raw \<noteq> NON_PROTO"
  shows "built_row raw nx imp nb subs later rest b P"
  using assms unfolding built_row_def by (simp add: plain_node_def)

lemma tag_built:
  assumes "build_proto_tag_node raw nx imp nb subs False b = Some (Inr (tag_node tag st cb i nx imp), b')" "8 \<le> unat raw"
    and "P (tag_node tag st cb i nx imp)" "drop (bs_subtype_idx b') subs = later" "cursor_left (bs_hdr b') rest"
    and "bs_has_nonproto_op b' = bs_has_nonproto_op b"
  shows "built_row raw nx imp nb subs later rest b P"
proof -
  have "build_single_node raw nx imp nb subs False b = Some (Inr (tag_node tag st cb i nx imp), b')"
    using assms(1) large_tag [OF assms(2)] by (simp add: build_single_node_def)
  then show ?thesis using assms(3-6) large_tag [OF assms(2)]
    unfolding built_row_def by (intro exI [of _ "tag_node tag st cb i nx imp"] exI [of _ b']) (simp add: tag_node_def Let_def)
qed

lemma tag_node_does:
  assumes "node_id_tag n \<noteq> 0" "cb = fst (action_of (n, st))" "i = buffer_of pos n"
    and "has_data_buffer (node_id_tag n) st' = has_data_buffer (node_id_tag n) st"
    and "node_prefix (tag_node (node_id_tag n) st' cb i nx imp) = Some (snd (action_of (n, st)))"
  shows "node_does (place pos) (n, st) (tag_node (node_id_tag n) st' cb i nx imp)"
  using assms by (auto simp: node_does_def tag_node_def Let_def tag_buffer_has)

lemma tag_row_built:
  assumes ok: "event_ok (n, st, c)"
    and sub: "drop (bs_subtype_idx b) subs = list_of_option (sr_subtype (tag_row pos (n, st) base)) @ later"
    and buf: "cursor_left (bs_hdr b) (concat (map encode_index (list_of_option (sr_buffer (tag_row pos (n, st) base)))) @ rest)"
    and nb: "tag_buffer (n, st) \<noteq> None \<Longrightarrow> buffer_of pos n < nb" "nb \<le> 2 ^ 32"
  shows "built_row (sr_tag (tag_row pos (n, st) base)) nx imp nb subs later rest b (node_does (place pos) (n, st))"
proof (cases "node_id_tag n = 0")
  case n: True
  show ?thesis
  proof (cases "parent_message_id n = NON_PROTO")
    case True
    have row: "tag_row pos (n, st) base = \<lparr>sr_tag = NON_PROTO, sr_base = base, sr_subtype = None, sr_buffer = Some (buffer_of pos n)\<rparr>"
      using n True by (simp add: tag_row_def)
    have key: "tag_buffer (n, st) = Some (Buf_NonProto, n)" using n True by (simp add: tag_buffer.simps)
    have hdr: "cursor_left (bs_hdr b) (encode_index (buffer_of pos n) @ rest)" using buf by (simp add: row list_of_option_def)
    obtain c' where "read_buffer_index nb ''nonproto buffer index too large'' b = Some (Inr (buffer_of pos n), b\<lparr>bs_hdr := c'\<rparr>)"
      "cursor_left c' rest"
      using buffer_index_read [OF hdr nb(1) nb(2)] key by blast
    then have "build_single_node NON_PROTO nx imp nb subs False b =
        Some (Inr (plain_node NonProto (Some (buffer_of pos n)) nx imp None), b\<lparr>bs_hdr := c', bs_has_nonproto_op := True\<rparr>)"
      "cursor_left c' rest"
      by (simp_all add: build_single_node_def set_nonproto_def surely_def ret_def message_id_defs)
    moreover have "node_does (place pos) (n, st) (plain_node NonProto (Some (buffer_of pos n)) nx imp None)"
      using n True key by (simp add: node_does_def plain_node_def action_of.simps node_prefix_def prefix_at_def)
    ultimately show ?thesis
      using sub unfolding built_row_def by (simp add: row list_of_option_def) (auto simp: plain_node_def)
  next
    case False
    then have p: "parent_message_id n = START_OF_MESSAGE" using ok n by (auto simp: event_ok.simps)
    have row: "tag_row pos (n, st) base = \<lparr>sr_tag = START_OF_MESSAGE, sr_base = base, sr_subtype = None, sr_buffer = None\<rparr>"
      using n False p by (simp add: tag_row_def)
    have "node_does (place pos) (n, st) (plain_node MessageStart None nx imp None)"
      using n False by (simp add: node_does_def plain_node_def action_of.simps node_prefix_def prefix_at_def tag_buffer.simps)
    then show ?thesis
      using sub buf unfolding row
      by (intro plain_built [where cb = MessageStart])
        (simp_all add: build_single_node_def surely_def ret_def message_id_defs list_of_option_def)
  qed
next
  case n: False
  let ?tag = "node_id_tag n"
  have valid: "is_valid_proto_tag ?tag" using ok n by (simp add: event_ok.simps)
  then obtain w where w: "tag_wire_type ?tag = Some w" by (auto simp: is_valid_proto_tag_def split: if_splits)
  have has: "has_subtype ?tag \<longleftrightarrow> w = WVarint" using w by (simp add: has_subtype_def)
  consider (start) "w = LengthDelimited" "st = LENGTH_DELIMITED_START_OF_SUBMESSAGE"
    | (stop) "w = LengthDelimited" "st = LENGTH_DELIMITED_END_OF_SUBMESSAGE"
    | (plain) "\<not> (w = LengthDelimited \<and> (st = LENGTH_DELIMITED_START_OF_SUBMESSAGE \<or> st = LENGTH_DELIMITED_END_OF_SUBMESSAGE))"
    by blast
  then show ?thesis
  proof cases
    case start
    have row: "tag_row pos (n, st) base = \<lparr>sr_tag = START_OF_SUBMESSAGE, sr_base = base, sr_subtype = None, sr_buffer = None\<rparr>"
      using n w start by (simp add: tag_row_def Let_def)
    have "node_does (place pos) (n, st) (plain_node SubmessageStart None nx imp None)"
      using n w start by (simp add: node_does_def plain_node_def action_of.simps node_prefix_def prefix_at_def tag_buffer.simps subtype_defs)
    then show ?thesis
      using sub buf unfolding row
      by (intro plain_built [where cb = SubmessageStart])
        (simp_all add: build_single_node_def surely_def ret_def message_id_defs list_of_option_def)
  next
    case stop
    let ?raw = "?tag + SUBMESSAGE_WIRE_TYPE - wire_type_raw LengthDelimited"
    have w': "tag_wire_type ?tag = Some LengthDelimited" using w stop by simp
    note sm = submessage_tag [OF valid w']
    have row: "tag_row pos (n, st) base = \<lparr>sr_tag = ?raw, sr_base = base, sr_subtype = None, sr_buffer = None\<rparr>"
      using n w stop by (simp add: tag_row_def Let_def subtype_defs)
    have ns: "\<not> has_subtype ?tag" "\<not> has_data_buffer ?tag st" using has stop w by (simp_all add: has_data_buffer_def subtype_defs)
    have cb: "callback_for_wire_type (tag_wire_type ?tag) st = Inr (fst (action_of (n, st)))"
      unfolding w by (rule callback_of_tag(1) [OF ok w n]) (use stop in \<open>simp add: subtype_defs\<close>)
    have pre: "snd (action_of (n, st)) = encode_u32 ?tag"
      using callback_of_tag(2) [OF ok w n] stop by (simp add: subtype_defs)
    have dec: "(if ?raw AND 7 = SUBMESSAGE_WIRE_TYPE
         then (?raw - SUBMESSAGE_WIRE_TYPE + wire_type_raw LengthDelimited, LENGTH_DELIMITED_END_OF_SUBMESSAGE)
         else (?raw, TRIVIAL)) = (?tag, LENGTH_DELIMITED_END_OF_SUBMESSAGE)"
      unfolding sm(1) sm(3) by simp
    have d: "drop (bs_subtype_idx b) subs = (if has_subtype ?tag then [st] else []) @ later" using sub ns by (simp add: row list_of_option_def)
    have h: "cursor_left (bs_hdr b) ((if has_data_buffer ?tag st then encode_index 0 else []) @ rest)"
      using buf ns by (simp add: row list_of_option_def)
    obtain b' where b': "build_proto_tag_node ?raw nx imp nb subs False b = Some (Inr (tag_node ?tag st (fst (action_of (n, st))) 0 nx imp), b')"
      "drop (bs_subtype_idx b') subs = later" "cursor_left (bs_hdr b') rest" "bs_has_nonproto_op b' = bs_has_nonproto_op b"
      using proto_node_built [OF dec valid stop(2) d h _ nb(2) cb] ns by blast
    have e: "tag_node ?tag st cb 0 nx imp = tag_node ?tag st cb (buffer_of pos n) nx imp" for cb using ns by (simp add: tag_node_def)
    have "node_does (place pos) (n, st) (tag_node ?tag st (fst (action_of (n, st))) (buffer_of pos n) nx imp)"
      by (rule tag_node_does [OF n refl refl refl]) (use w' pre in \<open>simp add: tag_node_prefix\<close>)
    then show ?thesis unfolding row StateRows.simps by (intro tag_built [OF b'(1) sm(2) _ b'(2-4)]) (simp add: e)
  next
    case plain
    have row: "tag_row pos (n, st) base = \<lparr>sr_tag = ?tag, sr_base = base, sr_subtype = (if has_subtype ?tag then Some st else None),
           sr_buffer = (if has_data_buffer ?tag st then Some (buffer_of pos n) else None)\<rparr>"
      using n w plain by (auto simp: tag_row_def Let_def)
    define st' where "st' = (if w = WVarint then st else TRIVIAL)"
    have same: "has_data_buffer ?tag st' = has_data_buffer ?tag st" "callback_for_wire_type (Some w) st' = callback_for_wire_type (Some w) st"
      "w = WVarint \<Longrightarrow> st' = st"
      using w plain event_subtypes(2) [OF ok w n]
      by (cases w; simp add: st'_def has_data_buffer_def callback_for_wire_type_def subtype_defs)+
    have "wire_type_raw w \<noteq> 6" by (cases w) simp_all
    then have dec: "(if ?tag AND 7 = SUBMESSAGE_WIRE_TYPE
         then (?tag - SUBMESSAGE_WIRE_TYPE + wire_type_raw LengthDelimited, LENGTH_DELIMITED_END_OF_SUBMESSAGE)
         else (?tag, TRIVIAL)) = (?tag, TRIVIAL)"
      using tag_low_bits [OF w] by (simp add: SUBMESSAGE_WIRE_TYPE_def)
    have d: "drop (bs_subtype_idx b) subs = (if has_subtype ?tag then [st'] else []) @ later"
      using sub has same(3) by (simp add: row list_of_option_def)
    have h: "cursor_left (bs_hdr b) ((if has_data_buffer ?tag st' then encode_index (buffer_of pos n) else []) @ rest)"
      using buf same(1) by (cases "has_data_buffer ?tag st") (simp_all add: row list_of_option_def)
    have fit: "has_data_buffer ?tag st' \<Longrightarrow> buffer_of pos n < nb" using nb(1) same(1) n by (simp add: tag_buffer_has)
    have cb: "callback_for_wire_type (tag_wire_type ?tag) st' = Inr (fst (action_of (n, st)))"
      unfolding w same(2) by (rule callback_of_tag(1) [OF ok w n]) (use plain in blast)
    have "\<not> has_subtype ?tag \<Longrightarrow> st' = TRIVIAL" using has by (simp add: st'_def)
    from proto_node_built [OF dec valid this d h fit nb(2) cb, of nx imp] obtain b' where
      b': "build_proto_tag_node ?tag nx imp nb subs False b =
        Some (Inr (tag_node ?tag st' (fst (action_of (n, st))) (buffer_of pos n) nx imp), b')"
      "drop (bs_subtype_idx b') subs = later" "cursor_left (bs_hdr b') rest" "bs_has_nonproto_op b' = bs_has_nonproto_op b" by blast
    have "snd (action_of (n, st)) =
        (if w = WVarint \<and> VARINT_INLINE_0 \<le> st then encode_u32 ?tag @ [st - VARINT_INLINE_0] else encode_u32 ?tag)"
      by (rule callback_of_tag(2) [OF ok w n]) (use plain in blast)
    then have pre: "node_prefix (tag_node ?tag st' (fst (action_of (n, st))) (buffer_of pos n) nx imp) = Some (snd (action_of (n, st)))"
      using w same(3) by (auto simp: tag_node_prefix)
    have "node_does (place pos) (n, st) (tag_node ?tag st' (fst (action_of (n, st))) (buffer_of pos n) nx imp)"
      by (rule tag_node_does [OF n refl refl same(1) pre])
    then show ?thesis unfolding row StateRows.simps by (intro tag_built [OF b'(1) valid_tag_ge [OF valid] _ b'(2-4)])
  qed
qed

end
