(* ===== verification/EncoderNodes.thy ===== *)
theory EncoderNodes
  imports EncoderHeader
begin

text \<open>
  The nodes that the decoder builds from the header of a chunk: one for every state of the encoder, with
  the action for its tag, and no chain of implicit nodes that goes on for ever.
\<close>

section \<open>The rows of the states\<close>

definition base_row :: "EncodedTagInfo list \<Rightarrow> nat \<Rightarrow> nat \<Rightarrow> nat" where
  "base_row tags num i =
     (if base_of tags i \<noteq> NO_POS then base_of tags i + (if length (dests tags i) = 1 then num else 0) else 0)"

definition row_of :: "EncodedTagInfo list \<Rightarrow> (NodeId \<rightharpoonup> nat) \<Rightarrow> nat \<Rightarrow> StateInfo \<Rightarrow> StateRows" where
  "row_of tags pos num s =
     (if si_etag_index s = NO_POS then \<lparr>sr_tag = NO_OP, sr_base = si_base s, sr_subtype = None, sr_buffer = None\<rparr>
      else tag_row pos (tag_at tags (si_etag_index s)) (base_row tags num (si_etag_index s)))"

lemma state_row_of:
  "si_etag_index s = NO_POS \<or> si_etag_index s < length tags \<Longrightarrow> state_row tags pos num s = Some (row_of tags pos num s)"
  using state_row_tag [of s tags pos num] by (cases "si_etag_index s = NO_POS") (auto simp: row_of_def state_row_def base_row_def)

lemma map_some_all: "(\<And>x. x \<in> set xs \<Longrightarrow> f x = Some (g x)) \<Longrightarrow> map_some f xs = Some (map g xs)"
  by (induction xs) auto

lemma tag_row_base: "sr_base (tag_row pos t base) = base"
  by (simp add: tag_row_def Let_def)

lemma not_valid: "unat tag < 8 \<Longrightarrow> \<not> takes_subtype tag"
  by (simp add: takes_subtype_def is_valid_proto_tag_def word_less_nat_alt)

lemma tag_row_ok:
  assumes "event_ok (n, st, c)"
  shows "row_ok (tag_row pos (n, st) base)"
    and "sr_tag (tag_row pos (n, st) base) = NON_PROTO \<longleftrightarrow> node_id_tag n = 0 \<and> parent_message_id n = NON_PROTO"
proof -
  let ?tag = "node_id_tag n"
  have "row_ok (tag_row pos (n, st) base) \<and>
      (sr_tag (tag_row pos (n, st) base) = NON_PROTO \<longleftrightarrow> ?tag = 0 \<and> parent_message_id n = NON_PROTO)"
  proof (cases "?tag = 0")
    case True
    then have "parent_message_id n = NON_PROTO \<or> parent_message_id n = START_OF_MESSAGE" using assms by (auto simp: event_ok.simps)
    then show ?thesis using True not_valid [of 1] not_valid [of 3] by (auto simp: tag_row_def row_ok_def message_id_defs)
  next
    case n: False
    then have valid: "is_valid_proto_tag ?tag" using assms by (simp add: event_ok.simps)
    note tag = large_tag [OF valid_tag_ge [OF valid]]
    show ?thesis
    proof (cases "tag_wire_type ?tag = Some LengthDelimited")
      case True
      let ?raw = "?tag + SUBMESSAGE_WIRE_TYPE - wire_type_raw LengthDelimited"
      note sm = submessage_tag [OF valid True]
      have "tag_wire_type ?raw = None" unfolding tag_wire_type_def sm(1) by (simp add: from_raw_def SUBMESSAGE_WIRE_TYPE_def)
      then have "\<not> takes_subtype ?raw" by (simp add: takes_subtype_def has_subtype_def)
      then show ?thesis
        using n True tag large_tag [OF sm(2)] not_valid [of 2]
        by (auto simp: tag_row_def Let_def row_ok_def takes_subtype_def has_subtype_def START_OF_SUBMESSAGE_def NON_PROTO_def)
    next
      case False
      then show ?thesis using n tag valid by (simp add: tag_row_def Let_def row_ok_def takes_subtype_def)
    qed
  qed
  then show "row_ok (tag_row pos (n, st) base)"
    "sr_tag (tag_row pos (n, st) base) = NON_PROTO \<longleftrightarrow> node_id_tag n = 0 \<and> parent_message_id n = NON_PROTO" by blast+
qed

section \<open>A machine and its log\<close>

text \<open>
  What the encoder knows of the states when it writes the header: their tags are tags of events, and
  what they point to is there.
\<close>

definition states_logged ::
  "StateInfo list \<Rightarrow> EncodedTagInfo list \<Rightarrow> (NodeId \<rightharpoonup> nat) \<Rightarrow> nat \<Rightarrow> event list \<Rightarrow> bool" where
  "states_logged states tags pos nb evs \<longleftrightarrow>
     2 * length states < 2 ^ 32 \<and> length tags < NO_POS \<and> nb \<le> 2 ^ 32 \<and> (\<forall>ev \<in> set evs. event_ok ev) \<and>
     (\<forall>s \<in> set states. si_etag_index s < length tags \<or> si_etag_index s = NO_POS \<and> si_base s < length states) \<and>
     (\<forall>i < length tags. tag_at tags i \<in> event_tag ` set evs \<and> (base_of tags i = NO_POS \<or> base_of tags i < length states)) \<and>
     (\<forall>ev \<in> set evs. tag_buffer (event_tag ev) \<noteq> None \<longrightarrow> buffer_of pos (fst ev) < nb)"

lemma states_logged_tag:
  assumes "states_logged states tags pos nb evs" "i < length tags"
  obtains n st c where "tag_at tags i = (n, st)" "(n, st, c) \<in> set evs" "event_ok (n, st, c)"
    "tag_buffer (n, st) \<noteq> None \<Longrightarrow> buffer_of pos n < nb"
proof -
  have "tag_at tags i \<in> event_tag ` set evs" using assms by (simp add: states_logged_def)
  then obtain n st c where ev: "(n, st, c) \<in> set evs" "tag_at tags i = (n, st)" by auto
  moreover have "event_ok (n, st, c)" "tag_buffer (n, st) \<noteq> None \<Longrightarrow> buffer_of pos n < nb"
    using assms(1) ev(1) unfolding states_logged_def by force+
  ultimately show ?thesis using that by blast
qed

text \<open>The node of a state.\<close>

definition fits_state :: "StateInfo list \<Rightarrow> EncodedTagInfo list \<Rightarrow> (NodeId \<rightharpoonup> nat) \<Rightarrow> StateInfo \<Rightarrow> StateMachineNode \<Rightarrow> bool" where
  "fits_state states tags pos s node \<longleftrightarrow>
     (if si_etag_index s = NO_POS
      then sn_callback_type node = NoOp \<and> \<not> sn_is_implicit node \<and> sn_next_node_index node = si_base s
      else node_does (place pos) (tag_at tags (si_etag_index s)) node \<and>
        (sn_is_implicit node \<longleftrightarrow> base_of tags (si_etag_index s) \<noteq> NO_POS \<and> length (dests tags (si_etag_index s)) = 1) \<and>
        (base_of tags (si_etag_index s) \<noteq> NO_POS \<longrightarrow> sn_next_node_index node = base_of tags (si_etag_index s)))"

lemma row_built:
  assumes sl: "states_logged states tags pos nb evs" and s: "s \<in> set states"
    and sub: "drop (bs_subtype_idx b) subs = list_of_option (sr_subtype (row_of tags pos (length states) s)) @ later"
    and buf: "cursor_left (bs_hdr b) (concat (map encode_index (list_of_option (sr_buffer (row_of tags pos (length states) s)))) @ rest)"
  shows "built_row (sr_tag (row_of tags pos (length states) s)) nx imp nb subs later rest b
    (\<lambda>node. if si_etag_index s = NO_POS then sn_callback_type node = NoOp
      else node_does (place pos) (tag_at tags (si_etag_index s)) node)"
proof (cases "si_etag_index s = NO_POS")
  case True
  have "built_row NO_OP nx imp nb subs later rest b (\<lambda>node. sn_callback_type node = NoOp)"
    using sub buf True
    by (intro plain_built [where cb = NoOp])
      (simp_all add: build_single_node_def surely_def ret_def plain_node_def row_of_def list_of_option_def message_id_defs)
  then show ?thesis using True by (simp add: row_of_def)
next
  case False
  then have i: "si_etag_index s < length tags" using sl s unfolding states_logged_def by blast
  obtain n st c where t: "tag_at tags (si_etag_index s) = (n, st)" "event_ok (n, st, c)"
    "tag_buffer (n, st) \<noteq> None \<Longrightarrow> buffer_of pos n < nb"
    by (rule states_logged_tag [OF sl i]) (rule that; blast)
  have "nb \<le> 2 ^ 32" using sl by (simp add: states_logged_def)
  then show ?thesis
    using tag_row_built [OF t(2) _ _ t(3)] sub buf False by (simp add: row_of_def t(1))
qed

section \<open>The loop over the states\<close>

text \<open>The parsed header of these states, and what is ahead of the builder before state \<open>i\<close>.\<close>

definition rows_of :: "StateInfo list \<Rightarrow> EncodedTagInfo list \<Rightarrow> (NodeId \<rightharpoonup> nat) \<Rightarrow> StateRows list" where
  "rows_of states tags pos = map (row_of tags pos (length states)) states"

definition header_for :: "StateRows list \<Rightarrow> nat \<Rightarrow> ParsedHeader \<Rightarrow> bool" where
  "header_for rows nb ph \<longleftrightarrow> ph_tags ph = map sr_tag rows \<and> ph_next_node_indices ph = map (\<lambda>r. of_nat (sr_base r)) rows \<and>
     ph_num_states ph = length rows \<and> ph_num_buffers ph = nb \<and> ph_subtypes_bytes ph = row_subtypes rows"

definition before_state :: "StateRows list \<Rightarrow> bytes \<Rightarrow> nat \<Rightarrow> BuildState \<Rightarrow> bool" where
  "before_state rows rest i b \<longleftrightarrow> drop (bs_subtype_idx b) (row_subtypes rows) = row_subtypes (drop i rows) \<and>
     cursor_left (bs_hdr b) (row_buffers (drop i rows) @ rest)"

lemma rows_step:
  assumes "i < length rows"
  shows "row_subtypes (drop i rows) = list_of_option (sr_subtype (rows ! i)) @ row_subtypes (drop (Suc i) rows)"
    and "row_buffers (drop i rows) = concat (map encode_index (list_of_option (sr_buffer (rows ! i)))) @ row_buffers (drop (Suc i) rows)"
  using Cons_nth_drop_Suc [OF assms, symmetric] by (simp_all add: row_subtypes_def row_buffers_def)

text \<open>The base that is stored for a state says whether it is implicit.\<close>

definition stored_base :: "StateInfo list \<Rightarrow> EncodedTagInfo list \<Rightarrow> StateInfo \<Rightarrow> bool \<times> nat" where
  "stored_base states tags s =
     (let i = si_etag_index s
      in if i = NO_POS then (False, si_base s)
         else if base_of tags i \<noteq> NO_POS then (length (dests tags i) = 1, base_of tags i) else (False, 0))"

lemma stored_base_reads:
  assumes sl: "states_logged states tags pos nb evs" and s: "s \<in> set states"
    and m: "m = length states" "next_raw = unat (of_nat (sr_base (row_of tags pos m s)) :: u32)"
  shows "(if m \<le> next_raw
         then let adjusted = next_raw - m in if m \<le> adjusted then fail_with e else ret (True, adjusted)
         else ret (False, next_raw)) = ret (stored_base states tags s)"
proof -
  let ?i = "si_etag_index s"
  have len: "2 * length states < 2 ^ 32" "0 < length states" using sl s by (auto simp: states_logged_def)
  have base: "?i < length tags \<Longrightarrow> base_of tags ?i = NO_POS \<or> base_of tags ?i < length states"
    "?i \<noteq> NO_POS \<Longrightarrow> ?i < length tags" "?i = NO_POS \<Longrightarrow> si_base s < length states"
    using sl s by (auto simp: states_logged_def)
  have small: "sr_base (row_of tags pos m s) < 2 * length states"
    using base len m by (auto simp: row_of_def tag_row_base base_row_def)
  then have "next_raw = sr_base (row_of tags pos m s)" using len unfolding m by (intro unat_index) simp
  then show ?thesis
    using base len m(1) by (auto simp: row_of_def tag_row_base base_row_def stored_base_def Let_def)
qed

lemma state_builds:
  assumes sl: "states_logged states tags pos nb evs" and ph: "header_for (rows_of states tags pos) nb ph"
    and i: "i < length states" and at: "before_state (rows_of states tags pos) rest i b"
  shows "\<exists>node b'. build_state ph False i b = Some (Inr node, b') \<and> before_state (rows_of states tags pos) rest (Suc i) b' \<and>
    fits_state states tags pos (states ! i) node \<and>
    bs_has_nonproto_op b' = (bs_has_nonproto_op b \<or> sr_tag (rows_of states tags pos ! i) = NON_PROTO)"
proof -
  let ?rows = "rows_of states tags pos" and ?s = "states ! i"
  have len: "length ?rows = length states" "i < length ?rows" using i by (simp_all add: rows_of_def)
  have r: "?rows ! i = row_of tags pos (length states) ?s" using i by (simp add: rows_of_def)
  have s: "?s \<in> set states" using i by simp
  define imp nx where "imp = fst (stored_base states tags ?s)" and "nx = snd (stored_base states tags ?s)"
  have sub: "drop (bs_subtype_idx b) (row_subtypes ?rows) =
      list_of_option (sr_subtype (row_of tags pos (length states) ?s)) @ row_subtypes (drop (Suc i) ?rows)"
    using at rows_step(1) [OF len(2)] by (simp add: before_state_def r)
  have buf: "cursor_left (bs_hdr b) (concat (map encode_index (list_of_option (sr_buffer (row_of tags pos (length states) ?s)))) @
      row_buffers (drop (Suc i) ?rows) @ rest)"
    using at rows_step(2) [OF len(2)] by (simp add: before_state_def r)
  obtain node b' where b': "build_single_node (sr_tag (row_of tags pos (length states) ?s)) nx imp nb (row_subtypes ?rows) False b = Some (Inr node, b')"
    "if si_etag_index ?s = NO_POS then sn_callback_type node = NoOp else node_does (place pos) (tag_at tags (si_etag_index ?s)) node"
    "sn_next_node_index node = nx" "sn_is_implicit node = imp"
    "drop (bs_subtype_idx b') (row_subtypes ?rows) = row_subtypes (drop (Suc i) ?rows)"
    "cursor_left (bs_hdr b') (row_buffers (drop (Suc i) ?rows) @ rest)"
    "bs_has_nonproto_op b' = (bs_has_nonproto_op b \<or> sr_tag (row_of tags pos (length states) ?s) = NON_PROTO)"
    using row_built [OF sl s sub buf, of nx imp] unfolding built_row_def by blast
  have tag: "item_at (ph_tags ph) i = Some (sr_tag (row_of tags pos (length states) ?s))"
    "item_at (ph_next_node_indices ph) i = Some (of_nat (sr_base (row_of tags pos (length states) ?s)))"
    using ph len r by (simp_all add: header_for_def)
  have hd: "ph_num_states ph = length states" "ph_num_buffers ph = nb" "ph_subtypes_bytes ph = row_subtypes ?rows"
    using ph len by (simp_all add: header_for_def)
  have "build_state ph False i b = build_single_node (sr_tag (row_of tags pos (length states) ?s)) nx imp nb (row_subtypes ?rows) False b"
    unfolding build_state_def try_then_def unless_panic_def tag hd Let_def option.case prod.case sum.case
      stored_base_reads [OF sl s refl refl, of "MalformedData ''node index too large''", unfolded Let_def]
    by (simp add: surely_def ret_def imp_def nx_def split: prod.splits)
  moreover have "fits_state states tags pos ?s node"
    using b'(2-4) by (auto simp: fits_state_def imp_def nx_def stored_base_def Let_def)
  ultimately show ?thesis using b' by (simp add: before_state_def r)
qed

lemma states_build:
  assumes sl: "states_logged states tags pos nb evs" and ph: "header_for (rows_of states tags pos) nb ph"
  shows "i \<le> length states \<Longrightarrow> before_state (rows_of states tags pos) rest i b \<Longrightarrow>
    \<exists>nodes b'. try_each (build_state ph False) [i..<length states] b = Some (Inr nodes, b') \<and>
      before_state (rows_of states tags pos) rest (length states) b' \<and>
      list_all2 (fits_state states tags pos) (drop i states) nodes \<and>
      bs_has_nonproto_op b' = (bs_has_nonproto_op b \<or> (\<exists>r \<in> set (drop i (rows_of states tags pos)). sr_tag r = NON_PROTO))"
proof (induction "length states - i" arbitrary: i b)
  case 0
  then show ?case by (simp add: rows_of_def)
next
  case (Suc k)
  then have i: "i < length states" by simp
  obtain node b1 where n: "build_state ph False i b = Some (Inr node, b1)" "before_state (rows_of states tags pos) rest (Suc i) b1"
    "fits_state states tags pos (states ! i) node"
    "bs_has_nonproto_op b1 = (bs_has_nonproto_op b \<or> sr_tag (rows_of states tags pos ! i) = NON_PROTO)"
    using state_builds [OF sl ph i Suc.prems(2)] by blast
  have k: "k = length states - Suc i" "Suc i \<le> length states" using Suc.hyps(2) i by simp_all
  obtain nodes b' where t: "try_each (build_state ph False) [Suc i..<length states] b1 = Some (Inr nodes, b')"
    "before_state (rows_of states tags pos) rest (length states) b'"
    "list_all2 (fits_state states tags pos) (drop (Suc i) states) nodes"
    "bs_has_nonproto_op b' = (bs_has_nonproto_op b1 \<or> (\<exists>r \<in> set (drop (Suc i) (rows_of states tags pos)). sr_tag r = NON_PROTO))"
    using Suc.hyps(1) [OF k n(2)] by blast
  have "try_each (build_state ph False) [i..<length states] b = Some (Inr (node # nodes), b')"
    using n(1) t(1) i by (simp add: upt_conv_Cons surely_def ret_def)
  moreover have "list_all2 (fits_state states tags pos) (drop i states) (node # nodes)"
    using n(3) t(3) by (simp add: Cons_nth_drop_Suc [OF i, symmetric])
  moreover have "i < length (rows_of states tags pos)" using i by (simp add: rows_of_def)
  then have "drop i (rows_of states tags pos) = rows_of states tags pos ! i # drop (Suc i) (rows_of states tags pos)"
    by (rule Cons_nth_drop_Suc [symmetric])
  ultimately show ?case using n(4) t(2,4) by auto
qed

section \<open>No implicit node goes round\<close>

lemma routed_only: "routed states tags s d \<Longrightarrow> placed_at states d (only_place tags s d)"
  by (cases "dest_pos tags s d = NO_POS") (simp_all add: routed_def only_place_def)

lemma chain_from:
  assumes ok: "EncoderBases.machine_ok k (count_pairs (rev encoded)) first states tags0"
    and e: "ends_explicit (count_pairs (rev encoded)) tags0 tags (hd encoded)" and na: "nodes_agree nodes states tags"
    and enc: "encoded \<noteq> []" "\<forall>i \<in> set encoded. i < k"
  shows "i < length encoded \<Longrightarrow> placed_at states (rev encoded ! i) p \<Longrightarrow> chain_ends nodes p"
proof (induction "length encoded - i" arbitrary: i p)
  case (Suc n)
  let ?s = "rev encoded ! i" and ?cnt = "count_pairs (rev encoded)"
  have c: "dests_counted k ?cnt tags0" and small: "length states + k \<le> NO_POS" using ok by (simp_all add: EncoderBases.machine_ok_def)
  have "?s \<in> set encoded" using Suc.prems(1) by (metis length_rev nth_mem set_rev)
  then have s: "?s < k" using enc by blast
  then have sn: "?s \<noteq> NO_POS" "?s < length tags0" using small c by (auto simp: dests_counted_def)
  have pl: "p < length states" "si_etag_index (states ! p) = ?s" using Suc.prems(2) by (simp_all add: placed_at_def)
  have node: "p < length nodes" "sn_is_implicit (nodes ! p) \<longleftrightarrow> base_of tags ?s \<noteq> NO_POS \<and> length (dests tags ?s) = 1"
    "base_of tags ?s \<noteq> NO_POS \<Longrightarrow> sn_next_node_index (nodes ! p) = base_of tags ?s"
    using na pl sn(1) by (auto simp: nodes_agree_def)
  show ?case
  proof (cases "sn_is_implicit (nodes ! p)")
    case False
    then show ?thesis using node(1) by (intro ends_here)
  next
    case True
    then have imp: "base_of tags ?s \<noteq> NO_POS" "length (dests tags ?s) = 1" using node(2) by auto
    have "Suc i \<noteq> length encoded"
    proof
      assume "Suc i = length encoded"
      then have "?s = hd encoded" using enc(1) by (simp add: rev_nth hd_conv_nth)
      then show False using imp(2) e by (simp add: ends_explicit_def)
    qed
    then have i: "Suc i < length encoded" using Suc.prems(1) by simp
    let ?d = "rev encoded ! Suc i"
    have "(?s, ?d) \<in> set (pairs_of (rev encoded))"
      using i by (force simp: pairs_of_def in_set_zip nth_tl)
    then have sd: "0 < ?cnt ?s ?d" by (simp add: count_pairs_pos)
    have same: "base_of tags ?s = base_of tags0 ?s" "length (dests tags0 ?s) = 1" using e imp(2) sn(2) by (auto simp: ends_explicit_def)
    have rt: "routed states tags0 ?s ?d" "base_of tags0 ?s = only_place tags0 ?s ?d"
      using ok sd same(2) unfolding EncoderBases.machine_ok_def by blast+
    have "placed_at states ?d (only_place tags0 ?s ?d)" by (rule routed_only [OF rt(1)])
    then have "placed_at states ?d (base_of tags0 ?s)" unfolding rt(2) .
    moreover have "n = length encoded - Suc i" using Suc.hyps(2) by simp
    ultimately have "chain_ends nodes (base_of tags0 ?s)" using Suc.hyps(1) i by blast
    then have "chain_ends nodes (sn_next_node_index (nodes ! p))" unfolding node(3) [OF imp(1)] same(1) .
    then show ?thesis by (rule ends_later [OF node(1) True])
  qed
qed simp

lemma no_loop:
  assumes ok: "EncoderBases.machine_ok k (count_pairs (rev encoded)) first states tags0"
    and e: "ends_explicit (count_pairs (rev encoded)) tags0 tags (hd encoded)" and na: "nodes_agree nodes states tags"
    and enc: "encoded \<noteq> []" "\<forall>i \<in> set encoded. i < k" "{..<k} \<subseteq> set encoded"
    and rest: "\<forall>j < length nodes. length states \<le> j \<longrightarrow> \<not> sn_is_implicit (nodes ! j)"
  shows "contains_implicit_loop nodes = Some False"
proof -
  have "chain_ends nodes j" for j
  proof (cases "j < length states")
    case False
    then show ?thesis using rest by (cases "j < length nodes") (auto intro: ends_here ends_outside)
  next
    case True
    then consider "si_etag_index (states ! j) < k" | "si_etag_index (states ! j) = NO_POS"
      using ok by (auto simp: EncoderBases.machine_ok_def)
    then show ?thesis
    proof cases
      case 1
      then have "si_etag_index (states ! j) \<in> set (rev encoded)" using enc(3) by auto
      then obtain i where "i < length (rev encoded)" "rev encoded ! i = si_etag_index (states ! j)" by (metis in_set_conv_nth)
      then show ?thesis using chain_from [OF ok e na enc(1,2), of i j] True by (simp add: placed_at_def)
    next
      case 2
      then have "\<not> sn_is_implicit (nodes ! j)" "j < length nodes" using na True by (auto simp: nodes_agree_def)
      then show ?thesis by (intro ends_here)
    qed
  qed
  then show ?thesis by (simp add: implicit_loop_exact)
qed

section \<open>The machine the decoder builds\<close>

lemma position_found:
  assumes "p < length xs" "P (xs ! p)"
  shows "position_or_0 P xs < length xs \<and> P (xs ! position_or_0 P xs)"
proof -
  have "p \<in> set (filter (\<lambda>i. P (xs ! i)) [0..<length xs])" using assms by simp
  then obtain i js where f: "filter (\<lambda>i. P (xs ! i)) [0..<length xs] = i # js"
    by (cases "filter (\<lambda>i. P (xs ! i)) [0..<length xs]") auto
  then have "i \<in> set (filter (\<lambda>i. P (xs ! i)) [0..<length xs])" by simp
  then have "i < length xs" "P (xs ! i)" unfolding set_filter by simp_all
  then show ?thesis using f by (simp add: position_or_0_def)
qed

lemma fits_agree:
  assumes "list_all2 (fits_state states tags pos) states nodes"
  shows "nodes_agree (nodes @ extra) states tags"
  using assms by (auto simp: nodes_agree_def list_all2_conv_all_nth nth_append fits_state_def)

lemma machine_read:
  assumes ok: "EncoderBases.machine_ok k (count_pairs (rev encoded)) (last encoded) states tags0"
    and e: "ends_explicit (count_pairs (rev encoded)) tags0 tags (hd encoded)"
    and enc: "encoded \<noteq> []" "\<forall>i \<in> set encoded. i < k" "{..<k} \<subseteq> set encoded"
    and sl: "states_logged states tags pos nb evs" and ph: "header_for (rows_of states tags pos) nb ph"
    and hdr: "cursor_left (ph_hdr ph) (row_buffers (rows_of states tags pos) @
      encode_index (position_or_0 (\<lambda>s. si_etag_index s = last encoded) states))"
  shows "\<exists>m nodes. build_state_machine_nodes ph False = Some (Inr m) \<and> sm_nodes m = nodes @ replicate 255 failure_node \<and>
    list_all2 (fits_state states tags pos) states nodes \<and> placed_at states (last encoded) (sm_first_node m) \<and>
    (sm_has_nonproto_op m \<longleftrightarrow> (\<exists>r \<in> set (rows_of states tags pos). sr_tag r = NON_PROTO))"
proof -
  let ?rows = "rows_of states tags pos" and ?first = "position_or_0 (\<lambda>s. si_etag_index s = last encoded) states"
  let ?b = "\<lparr>bs_hdr = ph_hdr ph, bs_subtype_idx = 0, bs_has_nonproto_op = False, bs_node_templates = []\<rparr>"
  have "before_state ?rows (encode_index ?first) 0 ?b" using hdr by (simp add: before_state_def)
  from states_build [OF sl ph _ this] obtain nodes b1 where
    n: "try_each (build_state ph False) [0..<length states] ?b = Some (Inr nodes, b1)"
    "before_state ?rows (encode_index ?first) (length states) b1" "list_all2 (fits_state states tags pos) states nodes"
    "bs_has_nonproto_op b1 \<longleftrightarrow> (\<exists>r \<in> set ?rows. sr_tag r = NON_PROTO)" by auto
  have "cursor_left (bs_hdr b1) (encode_index ?first @ [])"
    using n(2) by (simp add: before_state_def rows_of_def row_buffers_def)
  from readsD [OF reads_index this] obtain c where c: "bc_read_varint32 (bs_hdr b1) = (Inr (of_nat ?first), c)" "cursor_left c []" by blast
  obtain p where "placed_at states (last encoded) p" using ok by (auto simp: EncoderBases.machine_ok_def)
  then have first: "?first < length states" "si_etag_index (states ! ?first) = last encoded"
    using position_found [of p states "\<lambda>s. si_etag_index s = last encoded"] by (auto simp: placed_at_def)
  have num: "ph_num_states ph = length states" using ph by (simp add: header_for_def rows_of_def)
  have u: "unat (of_nat ?first :: u32) = ?first" using first(1) sl by (intro unat_index) (simp add: states_logged_def)
  let ?nodes = "nodes @ replicate 255 failure_node"
  have len: "length nodes = length states" using n(3) by (simp add: list_all2_lengthD)
  have loop: "contains_implicit_loop ?nodes = Some False"
    by (rule no_loop [OF ok e fits_agree [OF n(3)] enc])
      (use len in \<open>auto simp: nth_append failure_node_def plain_node_def\<close>)
  have "bc_is_empty c" using c(2) cursor_left_length [OF c(2)] by (simp add: bc_is_empty_def)
  then have "build_state_machine_nodes ph False = Some (Inr \<lparr>sm_nodes = ?nodes, sm_first_node = ?first,
      sm_has_nonproto_op = bs_has_nonproto_op b1, sm_node_templates = bs_node_templates b1\<rparr>)"
    using n(1) c(1) first(1) u loop num
    by (simp add: build_state_machine_nodes_def on_hdr_def surely_def ret_def Let_def)
  then show ?thesis using n(3,4) first by (simp add: placed_at_def)
qed

end
