(* ===== verification/EncoderRecords.thy ===== *)
theory EncoderRecords
  imports EncoderEvents
begin

text \<open>
  Adding a record: the encoder accepts every record and logs events that, played backward, write exactly
  the record.
\<close>

section \<open>Canonical messages, a field at a time\<close>

definition accepts :: "u32 list \<Rightarrow> bytes \<Rightarrow> bool" where
  "accepts gs bs = reader_loop (canonical32_loop 0 0) (skip64_loop 0) (\<lambda>bs. canonical_length bs) gs bs"

lemma accepts_message: "is_proto_message bs \<longleftrightarrow> accepts [] bs"
  by (simp add: is_proto_message_def accepts_def proto_message_loop_eq)

lemma accepts_Nil [simp]: "accepts gs [] \<longleftrightarrow> gs = []"
  by (simp add: accepts_def reader_loop.simps [of _ _ _ gs "[]"])

text \<open>What is behind the tag of a field, and what follows the field.\<close>

fun field_body :: "u32 list \<Rightarrow> u32 \<Rightarrow> WireType \<Rightarrow> bytes \<Rightarrow> bool" where
  "field_body gs f WVarint rest = (\<exists>v r. rest = encode_u64 v @ r \<and> accepts gs r)"
| "field_body gs f Fixed32 rest = (\<exists>d r. rest = d @ r \<and> length d = 4 \<and> accepts gs r)"
| "field_body gs f Fixed64 rest = (\<exists>d r. rest = d @ r \<and> length d = 8 \<and> accepts gs r)"
| "field_body gs f LengthDelimited rest = (\<exists>v d r. rest = encode_u32 v @ d @ r \<and> length d = unat v \<and> accepts gs r)"
| "field_body gs f StartGroup rest = accepts (f # gs) rest"
| "field_body gs f EndGroup rest = (\<exists>gs'. gs = f # gs' \<and> accepts gs' rest)"

lemma take_split: "k \<le> length bs \<Longrightarrow> bs = take k bs @ drop k bs"
  by simp

lemma accepts_field:
  assumes a: "accepts gs bs" and bs: "bs \<noteq> []"
  shows "\<exists>tag w rest. bs = encode_u32 tag @ rest \<and> tag_field_number tag \<noteq> 0 \<and> tag_wire_type tag = Some w \<and>
    field_body gs (tag_field_number tag) w rest"
proof -
  note go = a [unfolded accepts_def reader_loop.simps [of _ _ _ gs bs] if_reject]
  obtain tag k where t0: "canonical32_loop 0 0 bs = Some (tag, k)" using go bs by (cases "canonical32_loop 0 0 bs") auto
  then obtain rest where rest: "bs = encode_u32 tag @ rest" "k = length (encode_u32 tag)" by (auto simp: read_canonical32_iff)
  have f: "tag_field_number tag \<noteq> 0" using go bs t0 by auto
  obtain w where w: "tag_wire_type tag = Some w" using go bs t0 by (cases "tag_wire_type tag") auto
  have dr: "drop (k + n) bs = drop n rest" for n using rest by simp
  have len: "k + n \<le> length bs \<longleftrightarrow> n \<le> length rest" for n using rest by simp
  have dk: "drop k bs = rest" using rest by simp
  note cut = accepts_def dr len dk add.assoc
  have "field_body gs (tag_field_number tag) w rest"
  proof (cases w)
    case WVarint
    with go bs t0 f w obtain n where n: "skip64_loop 0 rest = Some n" "accepts gs (drop n rest)"
      by (auto simp: cut split: option.splits)
    then obtain v where "n \<le> length rest" "take n rest = encode_u64 v" by (auto simp: canonical_wire.rd_num)
    then have "rest = encode_u64 v @ drop n rest" by (metis append_take_drop_id)
    with n WVarint show ?thesis by auto
  next
    case Fixed32
    with go bs t0 f w have "4 \<le> length rest" "accepts gs (drop 4 rest)" by (auto simp: cut)
    then have "rest = take 4 rest @ drop 4 rest \<and> length (take 4 rest) = 4 \<and> accepts gs (drop 4 rest)" by simp
    with Fixed32 show ?thesis unfolding Fixed32 field_body.simps by blast
  next
    case Fixed64
    with go bs t0 f w have "8 \<le> length rest" "accepts gs (drop 8 rest)" by (auto simp: cut)
    then have "rest = take 8 rest @ drop 8 rest \<and> length (take 8 rest) = 8 \<and> accepts gs (drop 8 rest)" by simp
    with Fixed64 show ?thesis unfolding Fixed64 field_body.simps by blast
  next
    case LengthDelimited
    with go bs t0 f w obtain u n where n: "canonical32_loop 0 0 rest = Some (u, n)" "n + unat u \<le> length rest"
      "accepts gs (drop (n + unat u) rest)"
      by (auto simp: cut unat_ucast_u32 split: option.splits)
    then obtain r where r: "rest = encode_u32 u @ r" "n = length (encode_u32 u)" by (auto simp: read_canonical32_iff)
    have "rest = encode_u32 u @ take (unat u) r @ drop (unat u) r" "length (take (unat u) r) = unat u" "accepts gs (drop (unat u) r)"
      using r n by simp_all
    then show ?thesis unfolding LengthDelimited field_body.simps by blast
  next
    case StartGroup
    with go bs t0 f w show ?thesis by (auto simp: cut)
  next
    case EndGroup
    with go bs t0 f w show ?thesis by (cases gs) (auto simp: cut)
  qed
  with rest f w show ?thesis by blast
qed

lemma valid_tag: "tag_field_number tag \<noteq> 0 \<Longrightarrow> tag_wire_type tag = Some w \<Longrightarrow> is_valid_proto_tag tag \<and> tag \<noteq> 0"
  using field_number_zero [of tag] by (auto simp: is_valid_proto_tag_def)

section \<open>A window of the data\<close>

lemma window_split:
  assumes "drop pos (take stop data) = x @ r" "pos \<le> stop" "stop \<le> length data"
  shows "pos + length x \<le> stop" "drop (pos + length x) (take stop data) = r"
    "drop pos data = x @ drop (pos + length x) data" "drop pos (take (pos + length x) data) = x"
proof -
  have "length (drop pos (take stop data)) = stop - pos" using assms(2,3) by simp
  then show le: "pos + length x \<le> stop" using assms by simp
  have "drop (pos + length x) (take stop data) = drop (length x) (drop pos (take stop data))" by (simp add: add.commute)
  then show "drop (pos + length x) (take stop data) = r" using assms(1) by simp
  have tk: "take (length x) (drop pos data) = x"
  proof -
    have "take (length x) (drop pos (take stop data)) = take (length x) (drop pos data)"
      using le by (simp add: drop_take min_def)
    then show ?thesis using assms(1) by simp
  qed
  have "drop pos data = x @ drop (length x) (drop pos data)" using tk by (metis append_take_drop_id)
  then show "drop pos data = x @ drop (pos + length x) data" by (simp add: add.commute)
  show "drop pos (take (pos + length x) data) = x" using tk by (simp add: drop_take)
qed

section \<open>Varints lose their high bits and get them back\<close>

lemma restore_span:
  "varint_span bs = Some (length bs) \<Longrightarrow> restore_high_bits (map (\<lambda>b. b AND 0x7F) bs) = bs"
proof (induction bs)
  case (Cons b bs)
  have or: "(x AND 0x7F) OR 0x80 = x" if "x AND 0x80 \<noteq> 0" for x :: u8
  proof (rule bit_word_eqI)
    fix n assume n: "n < LENGTH(8)"
    have "bit x 7"
    proof (rule ccontr)
      assume "\<not> bit x 7"
      then have "x AND 0x80 = 0" by (simp add: u8_and_80)
      with that show False by simp
    qed
    moreover have "n = 0 \<or> n = 1 \<or> n = 2 \<or> n = 3 \<or> n = 4 \<or> n = 5 \<or> n = 6 \<or> n = 7" using n by auto
    ultimately show "bit ((x AND 0x7F) OR 0x80) n = bit x n" by (auto simp: bit_simps)
  qed
  have low: "x AND 0x7F = x" if "x AND 0x80 = 0" for x :: u8
  proof (rule bit_word_eqI)
    fix n assume n: "n < LENGTH(8)"
    have "\<not> bit x 7" using that by (auto simp: u8_and_80 split: if_splits)
    moreover have "n = 0 \<or> n = 1 \<or> n = 2 \<or> n = 3 \<or> n = 4 \<or> n = 5 \<or> n = 6 \<or> n = 7" using n by auto
    ultimately show "bit (x AND 0x7F) n = bit x n" by (auto simp: bit_simps)
  qed
  show ?case
  proof (cases "b AND 0x80 = 0")
    case True
    with Cons.prems have "bs = []" by simp
    with True low show ?thesis by (simp add: restore_high_bits_def)
  next
    case False
    with Cons.prems have s: "varint_span bs = Some (length bs)" by auto
    then have "bs \<noteq> []" by auto
    with Cons.IH [OF s] or [OF False] show ?thesis by (simp add: restore_high_bits_def)
  qed
qed simp

lemma restore_varint: "restore_high_bits (map (\<lambda>b. b AND 0x7F) (encode_u64 v)) = encode_u64 v"
  using varint_span_encode_u64 [of v "[]"] by (intro restore_span) simp

section \<open>Fields\<close>

text \<open>A field with the bytes \<open>x\<close> behind its tag has been logged.\<close>

definition field_logged :: "NodeId \<Rightarrow> bytes \<Rightarrow> TransposeChunkEncoder \<Rightarrow> event list \<Rightarrow> TransposeChunkEncoder \<Rightarrow> bool" where
  "field_logged n x e evs e' \<longleftrightarrow> grows 1 e e' \<and>
     (\<exists>st c. logged e' (evs @ [(n, st, c)]) \<and> deed_of (n, st, c) = Write (encode_u32 (node_id_tag n) @ x))"

definition field_node :: "NodeId \<Rightarrow> WireType \<Rightarrow> bool" where
  "field_node n w \<longleftrightarrow> is_valid_proto_tag (node_id_tag n) \<and> node_id_tag n \<noteq> 0 \<and> tag_wire_type (node_id_tag n) = Some w"

lemma varint_field_logs:
  assumes l: "logged e evs" and n: "field_node n WVarint" and d: "drop pos data = encode_u64 v @ r" and pos: "pos \<le> length data"
  shows "\<exists>e'. encode_varint_field data pos n e = Some (Inr (pos + length (encode_u64 v)), e') \<and> field_logged n (encode_u64 v) e evs e'"
proof -
  let ?b = "encode_u64 v"
  have len: "0 < length ?b" "length ?b \<le> 10" using length_encode_u64_bound by simp_all
  have "length (drop pos data) = length (encode_u64 v @ r)" by (simp only: d)
  then have fits: "pos + length ?b \<le> length data" using pos by simp
  have rng: "range_at data pos (pos + length ?b) = Some ?b"
    using fits d by (simp add: range_at_def drop_take)
  have suf: "suffix_at data pos = Some (?b @ r)" using pos d by (simp add: suffix_at_def)
  note run = encode_varint_field_def try_then_def unless_panic_def surely_def of_res_def map_err_def
  show ?thesis
  proof (cases "length ?b = 1 \<and> ?b ! 0 \<le> MAX_VARINT_INLINE")
    case True
    then have b: "?b = [?b ! 0]" by (cases ?b) auto
    let ?st = "VARINT_INLINE_0 + ?b ! 0"
    have u: "unat (?b ! 0) \<le> 3" using True by (simp add: MAX_VARINT_INLINE_def word_le_nat_alt)
    then have st: "unat ?st = 10 + unat (?b ! 0)" by (simp add: subtype_defs unat_word_ariths)
    have ok: "event_ok (n, ?st, [])" "tag_buffer (n, ?st) = None" "?st - VARINT_INLINE_0 = ?b ! 0"
      using n u st by (auto simp: event_ok.simps tag_buffer.simps field_node_def word_less_nat_alt word_le_nat_alt subtype_defs)
    obtain e' where p: "push_state n ?st e = (Inr (), e')" "logged e' (evs @ [(n, ?st, [])])" "grows 1 e e'"
      using push_bare [OF l ok(1,2)] by blast
    have "\<not> ?st < VARINT_INLINE_0" using st u by (simp add: word_less_nat_alt subtype_defs)
    then have "deed_of (n, ?st, []) = Write (encode_u32 (node_id_tag n) @ ?b)"
      using n ok(3) b by (simp add: deed_of.simps field_node_def)
    moreover have "encode_varint_field data pos n e = Some (Inr (pos + length ?b), e')"
      using suf rng len True p(1) by (simp add: run ret_def item_at_def)
    ultimately show ?thesis using p by (auto simp: field_logged_def)
  next
    case False
    let ?st = "VARINT_1 + (of_nat (length ?b) - 1)" and ?c = "map (\<lambda>b. b AND 0x7F) ?b"
    have st: "unat ?st + 1 = length ?b"
    proof -
      have "(of_nat (length ?b) :: u8) - 1 = of_nat (length ?b - 1)" using len by (simp add: of_nat_diff Suc_le_eq)
      moreover have "unat (of_nat (length ?b - 1) :: u8) = length ?b - 1" using len by (simp add: unat_of_nat take_bit_nat_eq_self)
      ultimately show ?thesis using len by (simp add: subtype_defs)
    qed
    then have lt: "?st < VARINT_INLINE_0" using len by (simp add: word_less_nat_alt subtype_defs)
    have ok: "event_ok (n, ?st, ?c)" "tag_buffer (n, ?st) = Some (Buf_Varint, n)" "node_id_tag n \<noteq> 0"
      using n st lt by (auto simp: event_ok.simps tag_buffer.simps field_node_def)
    obtain e1 e2 where p: "push_state n ?st e = (Inr (), e1)" "push_buffer n Buf_Varint ?c e1 = (Inr (), e2)"
      "logged e2 (evs @ [(n, ?st, ?c)])" "grows 1 e e2"
      using push_chunked [OF l ok] by blast
    have "deed_of (n, ?st, ?c) = Write (encode_u32 (node_id_tag n) @ ?b)"
      using n lt restore_varint [of v] by (simp add: deed_of.simps field_node_def)
    moreover have "encode_varint_field data pos n e = Some (Inr (pos + length ?b), e2)"
      using suf rng len False p(1,2) by (auto simp add: run ret_def item_at_def)
    ultimately show ?thesis using p unfolding field_logged_def by blast
  qed
qed

lemma fixed_field_logs:
  assumes l: "logged e evs" and ok: "event_ok (n, TRIVIAL, d)" "tag_buffer (n, TRIVIAL) = Some (bt, n)" "node_id_tag n \<noteq> 0"
    and deed: "deed_of (n, TRIVIAL, d) = Write (encode_u32 (node_id_tag n) @ d)"
    and d: "drop pos data = d @ r" "length d = k" and pos: "pos \<le> length data"
  shows "\<exists>e'. encode_fixed_field k bt msg data pos n e = Some (Inr (pos + k), e') \<and> field_logged n d e evs e'"
proof -
  have "length (drop pos data) = length (d @ r)" by (simp only: d)
  then have fits: "pos + k \<le> length data" using pos d(2) by simp
  have rng: "range_at data pos (pos + k) = Some d" using fits d by (simp add: range_at_def drop_take)
  obtain e1 e2 where p: "push_state n TRIVIAL e = (Inr (), e1)" "push_buffer n bt d e1 = (Inr (), e2)"
    "logged e2 (evs @ [(n, TRIVIAL, d)])" "grows 1 e e2"
    using push_chunked [OF l ok] by blast
  have "encode_fixed_field k bt msg data pos n e = Some (Inr (pos + k), e2)"
    using fits rng p(1,2) by (simp add: encode_fixed_field_def try_then_def surely_def unless_panic_def ret_def)
  then show ?thesis using p deed unfolding field_logged_def by blast
qed

lemma fixed32_field_logs:
  assumes l: "logged e evs" and n: "field_node n Fixed32" and d: "drop pos data = d @ r" "length d = 4" and pos: "pos \<le> length data"
  shows "\<exists>e'. encode_fixed32_field data pos n e = Some (Inr (pos + 4), e') \<and> field_logged n d e evs e'"
  unfolding encode_fixed32_field_def
  by (rule fixed_field_logs [OF l _ _ _ _ d pos])
    (use n d in \<open>auto simp: event_ok.simps tag_buffer.simps deed_of.simps field_node_def\<close>)

lemma fixed64_field_logs:
  assumes l: "logged e evs" and n: "field_node n Fixed64" and d: "drop pos data = d @ r" "length d = 8" and pos: "pos \<le> length data"
  shows "\<exists>e'. encode_fixed64_field data pos n e = Some (Inr (pos + 8), e') \<and> field_logged n d e evs e'"
  unfolding encode_fixed64_field_def
  by (rule fixed_field_logs [OF l _ _ _ _ d pos])
    (use n d in \<open>auto simp: event_ok.simps tag_buffer.simps deed_of.simps field_node_def\<close>)

lemma group_tag_logs:
  assumes l: "logged e evs" and n: "field_node n w" "w = StartGroup \<or> w = EndGroup"
  shows "\<exists>e'. push_state n TRIVIAL e = (Inr (), e') \<and> field_logged n [] e evs e'"
proof -
  have ok: "event_ok (n, TRIVIAL, [])" "tag_buffer (n, TRIVIAL) = None"
    "deed_of (n, TRIVIAL, []) = Write (encode_u32 (node_id_tag n) @ [])"
    using n by (auto simp: event_ok.simps tag_buffer.simps deed_of.simps field_node_def)
  obtain e' where "push_state n TRIVIAL e = (Inr (), e')" "logged e' (evs @ [(n, TRIVIAL, [])])" "grows 1 e e'"
    using push_bare [OF l ok(1,2)] by blast
  then show ?thesis using ok(3) unfolding field_logged_def by blast
qed

text \<open>A length-delimited field is a string or enters a submessage.\<close>

lemma sub_events:
  assumes n: "field_node n LengthDelimited"
  shows "event_ok (n, LENGTH_DELIMITED_START_OF_SUBMESSAGE, [])" "tag_buffer (n, LENGTH_DELIMITED_START_OF_SUBMESSAGE) = None"
    "deed_of (n, LENGTH_DELIMITED_START_OF_SUBMESSAGE, []) = Start_Submessage"
    "event_ok (n, LENGTH_DELIMITED_END_OF_SUBMESSAGE, [])" "tag_buffer (n, LENGTH_DELIMITED_END_OF_SUBMESSAGE) = None"
    "deed_of (n, LENGTH_DELIMITED_END_OF_SUBMESSAGE, []) = End_Submessage (encode_u32 (node_id_tag n))"
  using n by (auto simp: event_ok.simps tag_buffer.simps deed_of.simps field_node_def subtype_defs)

definition entered :: "NodeId \<Rightarrow> u32 \<Rightarrow> nat \<Rightarrow> nat \<Rightarrow> TransposeChunkEncoder \<Rightarrow> event list \<Rightarrow> TransposeChunkEncoder \<Rightarrow> MessageFrame \<Rightarrow> bool" where
  "entered n parent stop k e evs e' f \<longleftrightarrow> grows_but {mf_end_sub_tag_idx f} k e e' \<and> logged e' (evs @ [(n, LENGTH_DELIMITED_START_OF_SUBMESSAGE, [])]) \<and>
     mf_end_sub_tag_idx f < length (te_tags_list e') \<and>
     te_tags_list e' ! mf_end_sub_tag_idx f = new_tag_info n LENGTH_DELIMITED_END_OF_SUBMESSAGE \<and>
     mf_parent_message_id f = parent \<and> mf_parent_end_pos f = stop"

lemma length_field_logs:
  assumes l: "logged e evs" and n: "field_node n LengthDelimited" and d: "drop pos data = encode_u32 v @ d @ r" "length d = unat v"
    and fits: "pos + length (encode_u32 v) + unat v \<le> stop" "stop \<le> length data"
  shows "\<exists>e'. encode_length_delimited_field data pos n mid stop depth stack parent e =
        Some (Inr (pos + length (encode_u32 v) + unat v, None), e') \<and> field_logged n (encode_u32 v @ d) e evs e' \<or>
      (\<exists>f. encode_length_delimited_field data pos n mid stop depth stack parent e =
        Some (Inr (pos + length (encode_u32 v), Some (f, mid, pos + length (encode_u32 v) + unat v)), e') \<and>
        entered n parent stop 2 e evs e' f \<and> accepts [] d \<and> 0 < unat v)"
proof -
  let ?p = "pos + length (encode_u32 v)"
  have pos: "pos \<le> length data" using fits by simp
  have suf: "suffix_at data pos = Some (encode_u32 v @ d @ r)" using pos d by (simp add: suffix_at_def)
  have dd: "drop ?p data = d @ r"
  proof -
    have "drop ?p data = drop (length (encode_u32 v)) (drop pos data)" by (simp add: add.commute)
    then show ?thesis using d(1) by simp
  qed
  have rng: "range_at data ?p (?p + unat v) = Some d" "range_at data pos (?p + unat v) = Some (encode_u32 v @ d)"
    using fits d dd by (simp_all add: range_at_def drop_take)
  note run = encode_length_delimited_field_def try_then_def unless_panic_def surely_def of_res_def map_err_def Let_def
  define sub where "sub \<longleftrightarrow> 0 < v \<and> depth + length stack < MAX_RECURSION_DEPTH \<and> is_proto_message d"
  show ?thesis
  proof (cases sub)
    case True
    obtain e1 where p: "push_state n LENGTH_DELIMITED_START_OF_SUBMESSAGE e = (Inr (), e1)"
      "logged e1 (evs @ [(n, LENGTH_DELIMITED_START_OF_SUBMESSAGE, [])])" "grows 1 e e1"
      using push_bare [OF l sub_events(1,2) [OF n]] by blast
    obtain i e2 where g: "get_pos_in_tags_list n LENGTH_DELIMITED_END_OF_SUBMESSAGE e1 = (Inr i, e2)"
      "tags_logged e2 (evs @ [(n, LENGTH_DELIMITED_START_OF_SUBMESSAGE, [])])" "grows_but {i} 1 e1 e2"
      "i < length (te_tags_list e2)" "te_tags_list e2 ! i = new_tag_info n LENGTH_DELIMITED_END_OF_SUBMESSAGE"
      "te_data e2 = te_data e1" "te_nonproto_lengths e2 = te_nonproto_lengths e1"
      using get_pos_logs [of e1 _ n LENGTH_DELIMITED_END_OF_SUBMESSAGE] p(2) unfolding logged_def by blast
    define f where "f = \<lparr>mf_end_sub_tag_idx = i, mf_parent_message_id = parent, mf_parent_end_pos = stop\<rparr>"
    have "logged e2 (evs @ [(n, LENGTH_DELIMITED_START_OF_SUBMESSAGE, [])])"
      using g(2,6,7) p(2) by (simp add: logged_def data_logged_def)
    moreover have "grows_but {i} 2 e e2" using grows_trans [OF p(3) g(3)] by (simp add: numeral_2_eq_2)
    ultimately have "entered n parent stop 2 e evs e2 f" using g(4,5) by (simp add: entered_def f_def)
    moreover have "encode_length_delimited_field data pos n mid stop depth stack parent e =
        Some (Inr (?p, Some (f, mid, ?p + unat v)), e2)"
      using suf rng fits True p(1) g(1) by (simp add: run ret_def f_def sub_def)
    moreover have "accepts [] d" "0 < unat v" using True accepts_message by (auto simp: sub_def word_less_nat_alt)
    ultimately show ?thesis by blast
  next
    case False
    let ?c = "encode_u32 v @ d"
    have ok: "event_ok (n, LENGTH_DELIMITED_STRING, ?c)" "tag_buffer (n, LENGTH_DELIMITED_STRING) = Some (Buf_String, n)"
      "node_id_tag n \<noteq> 0" "deed_of (n, LENGTH_DELIMITED_STRING, ?c) = Write (encode_u32 (node_id_tag n) @ ?c)"
      using n d(2) by (auto simp: event_ok.simps tag_buffer.simps deed_of.simps field_node_def)
    obtain e1 e2 where p: "push_state n LENGTH_DELIMITED_STRING e = (Inr (), e1)" "push_buffer n Buf_String ?c e1 = (Inr (), e2)"
      "logged e2 (evs @ [(n, LENGTH_DELIMITED_STRING, ?c)])" "grows 1 e e2"
      using push_chunked [OF l ok(1-3)] by blast
    have "encode_length_delimited_field data pos n mid stop depth stack parent e = Some (Inr (?p + unat v, None), e2)"
      using suf rng fits False p(1,2) by (simp add: run ret_def sub_def)
    then show ?thesis using p ok(4) unfolding field_logged_def by blast
  qed
qed

end
