(* ===== verification/EncoderAdding.thy ===== *)
theory EncoderAdding
  imports EncoderRecords
begin

text \<open>
  The loop of \<^verbatim>\<open>add_message\<close>: its invariant, that it ends at the end of the record, and what has been
  logged then.
\<close>

section \<open>The open submessages\<close>

text \<open>What is left of every open message is canonical; the innermost comes first, with its open groups.\<close>

fun pending :: "bytes \<Rightarrow> nat \<Rightarrow> nat \<Rightarrow> MessageFrame list \<Rightarrow> u32 list list \<Rightarrow> bool" where
  "pending data pos stop [] [gs] \<longleftrightarrow> pos \<le> stop \<and> stop = length data \<and> accepts gs (drop pos (take stop data))"
| "pending data pos stop (f # fs) (gs # gss) \<longleftrightarrow> pos \<le> stop \<and> stop \<le> length data \<and> accepts gs (drop pos (take stop data)) \<and>
     pending data stop (mf_parent_end_pos f) fs gss"
| "pending data pos stop fs gss \<longleftrightarrow> False"

lemma pendingD:
  assumes "pending data pos stop fs gss"
  obtains gs gss' where "gss = gs # gss'" "pos \<le> stop" "stop \<le> length data" "accepts gs (drop pos (take stop data))"
    "\<And>pos' gs'. pos' \<le> stop \<Longrightarrow> accepts gs' (drop pos' (take stop data)) \<Longrightarrow> pending data pos' stop fs (gs' # gss')"
proof (cases gss)
  case Nil
  then have False using assms by (cases fs) simp_all
  then show ?thesis by simp
next
  case (Cons gs gss')
  show ?thesis
  proof (cases fs)
    case Nil
    then have "gss' = []" using assms Cons by (cases gss') simp_all
    then show ?thesis using assms Cons Nil by (intro that [of gs gss']) auto
  next
    case fs: (Cons f fs')
    then show ?thesis using assms Cons by (intro that [of gs gss']) simp_all
  qed
qed

text \<open>The ends of the open submessages, as distances from the end of the output, with their tags.\<close>

fun open_at :: "nat \<Rightarrow> nat \<Rightarrow> MessageFrame list \<Rightarrow> NodeId list \<Rightarrow> (nat \<times> bytes) list" where
  "open_at total_size stop (f # fs) (n # ns) =
     (total_size - stop, encode_u32 (node_id_tag n)) # open_at total_size (mf_parent_end_pos f) fs ns"
| "open_at total_size stop fs ns = []"

text \<open>The events write the data in front of \<open>pos\<close>, whatever is behind the data.\<close>

definition writes_back :: "bytes \<Rightarrow> event list \<Rightarrow> nat \<Rightarrow> nat \<Rightarrow> MessageFrame list \<Rightarrow> NodeId list \<Rightarrow> bool" where
  "writes_back data es pos stop fs ns \<longleftrightarrow> (\<forall>out limits.
     play_back es (drop pos data @ out, open_at (length data + length out) stop fs ns, limits) =
       Some (data @ out, [], limits @ [length data + length out]))"

definition end_tags :: "TransposeChunkEncoder \<Rightarrow> MessageFrame list \<Rightarrow> NodeId list \<Rightarrow> bool" where
  "end_tags e fs ns \<longleftrightarrow> list_all2 (\<lambda>f n. mf_end_sub_tag_idx f < length (te_tags_list e) \<and>
     te_tags_list e ! mf_end_sub_tag_idx f = new_tag_info n LENGTH_DELIMITED_END_OF_SUBMESSAGE \<and>
     field_node n LengthDelimited) fs ns"

lemma end_tags_grows: "end_tags e fs ns \<Longrightarrow> grows_but S k e e' \<Longrightarrow> end_tags e' fs ns"
  unfolding end_tags_def by (auto elim!: list_all2_mono dest!: grows_nth)

text \<open>The tags of the ends of the open submessages, which are not pushed before the submessages are left.\<close>

abbreviation not_left :: "MessageFrame list \<Rightarrow> nat set" where
  "not_left fs \<equiv> mf_end_sub_tag_idx ` set fs"

text \<open>The invariant: the record's events so far, over the encoder \<open>e0\<close> that had logged \<open>base\<close>.\<close>

definition adding ::
  "bytes \<Rightarrow> TransposeChunkEncoder \<Rightarrow> event list \<Rightarrow> event list \<Rightarrow> MessageLoop \<Rightarrow> TransposeChunkEncoder \<Rightarrow> bool" where
  "adding data e0 base es l e \<longleftrightarrow> logged e (base @ es) \<and>
     grows_but (not_left (ml_message_stack l)) (length es + length (ml_message_stack l)) e0 e \<and>
     length es + length (ml_message_stack l) \<le> 1 + 2 * ml_pos l \<and>
     (\<exists>ns gss. end_tags e (ml_message_stack l) ns \<and>
       pending data (ml_pos l) (ml_current_end l) (ml_message_stack l) gss \<and>
       length (ml_group_stack l) = length (concat gss) \<and>
       writes_back data es (ml_pos l) (ml_current_end l) (ml_message_stack l) ns)"

lemma addingI:
  assumes "logged e (base @ es)" "grows_but (not_left (ml_message_stack l)) (length es + length (ml_message_stack l)) e0 e"
    and "length es + length (ml_message_stack l) \<le> 1 + 2 * ml_pos l" "end_tags e (ml_message_stack l) ns"
    and "pending data (ml_pos l) (ml_current_end l) (ml_message_stack l) gss"
    and "length (ml_group_stack l) = length (concat gss)"
    and "writes_back data es (ml_pos l) (ml_current_end l) (ml_message_stack l) ns"
  shows "adding data e0 base es l e"
  unfolding adding_def using assms by blast

lemma grows_weaken: "grows_but S k e e' \<Longrightarrow> k \<le> k' \<Longrightarrow> grows_but S k' e e'"
  by (auto simp: grows_but_def)

section \<open>Leaving submessages\<close>

lemma close_logs:
  assumes "adding data e0 base es l e"
  shows "\<exists>l' e' es'. close_step l e = Some (Inr l', e') \<and> adding data e0 base es' l' e' \<and> ml_pos l' = ml_pos l \<and>
    (ml_message_stack l' = [] \<or> ml_pos l' < ml_current_end l')"
  using assms
proof (induction "ml_message_stack l" arbitrary: l e es)
  case Nil
  then have "close_step l e = Some (Inr l, e)" by (simp add: close_step_def flip: Nil.hyps)
  then show ?case using Nil by auto
next
  case (Cons f fs)
  note st = Cons.hyps(2) [symmetric]
  have lg: "logged e (base @ es)" and gr: "grows_but (not_left (f # fs)) (length es + Suc (length fs)) e0 e" and bd: "length es + Suc (length fs) \<le> 1 + 2 * ml_pos l"
    using Cons.prems st by (simp_all add: adding_def)
  obtain ns0 gss where inv: "end_tags e (f # fs) ns0" "pending data (ml_pos l) (ml_current_end l) (f # fs) gss"
    "length (ml_group_stack l) = length (concat gss)" "writes_back data es (ml_pos l) (ml_current_end l) (f # fs) ns0"
    using Cons.prems st by (auto simp: adding_def)
  show ?case
  proof (cases "ml_current_end l \<le> ml_pos l")
    case False
    then have "close_step l e = Some (Inr l, e)" using st by (simp add: close_step_def)
    then show ?thesis using Cons.prems False by auto
  next
    case True
    obtain n ns where ns: "ns0 = n # ns" "end_tags e fs ns" "mf_end_sub_tag_idx f < length (te_tags_list e)"
      "te_tags_list e ! mf_end_sub_tag_idx f = new_tag_info n LENGTH_DELIMITED_END_OF_SUBMESSAGE" "field_node n LengthDelimited"
      using inv(1) by (auto simp: end_tags_def list_all2_Cons1)
    obtain gs gss' where gss: "gss = gs # gss'" using inv(2) by (cases gss) auto
    have p: "ml_pos l = ml_current_end l" "ml_current_end l \<le> length data" "gs = []"
      "pending data (ml_current_end l) (mf_parent_end_pos f) fs gss'"
      using inv(2) True gss by auto
    define ev where "ev = (n, LENGTH_DELIMITED_END_OF_SUBMESSAGE, [] :: bytes)"
    define e1 where "e1 = e\<lparr>te_encoded_tags := te_encoded_tags e @ [mf_end_sub_tag_idx f]\<rparr>"
    define l1 where "l1 = l\<lparr>ml_message_stack := fs, ml_current_parent := mf_parent_message_id f, ml_current_end := mf_parent_end_pos f\<rparr>"
    have step: "close_step l e = close_step l1 e1"
      using st True by (simp add: close_step_def l1_def e1_def)
    have "logged e1 ((base @ es) @ [ev])"
      using lg push_tag_logs [OF _ ns(3,4) sub_events(4) [OF ns(5)], of "base @ es"]
        bare_logs [OF _ sub_events(5) [OF ns(5)], of e "base @ es" e1]
      by (simp add: logged_def e1_def ev_def)
    moreover have "grows_but (not_left fs) (length (es @ [ev]) + length fs) e0 e1"
      using gr by (auto simp: grows_but_def settings_def e1_def)
    moreover have "end_tags e1 fs ns" using ns(2) by (simp add: end_tags_def e1_def)
    moreover have "pending data (ml_pos l) (mf_parent_end_pos f) fs gss'" using p by simp
    moreover have "length (ml_group_stack l) = length (concat gss')" using inv(3) gss p(3) by simp
    moreover have "writes_back data (es @ [ev]) (ml_pos l) (mf_parent_end_pos f) fs ns"
      using inv(4) p(1,2) sub_events(6) [OF ns(5)] ns(1)
      by (simp add: writes_back_def play_back_append ev_def add.commute)
    ultimately have a: "adding data e0 base (es @ [ev]) l1 e1"
      using bd by (intro addingI [where ns = ns and gss = gss']) (simp_all add: l1_def)
    have "fs = ml_message_stack l1" by (simp add: l1_def)
    from Cons.hyps(1) [OF this a] show ?thesis using step by (simp add: l1_def)
  qed
qed

section \<open>One turn of the loop\<close>

lemma leaf_adds:
  assumes a: "adding data e0 base es l e" and e1: "logged e1 (base @ es)" "grows 0 e e1"
    and f: "field_logged n x e1 (base @ es) e'" and pend: "pending data (ml_pos l) (ml_current_end l) (ml_message_stack l) (gs # gss)"
    and pos: "pos' = ml_pos l + length (encode_u32 (node_id_tag n) @ x)"
    and w: "drop (ml_pos l) (take (ml_current_end l) data) = (encode_u32 (node_id_tag n) @ x) @ r"
    and gs: "accepts gs' r" "length groups = length (concat (gs' # gss))"
  shows "\<exists>es'. adding data e0 base es' (l\<lparr>ml_pos := pos', ml_group_stack := groups\<rparr>) e'"
proof -
  obtain st c where ev: "logged e' (base @ es @ [(n, st, c)])" "deed_of (n, st, c) = Write (encode_u32 (node_id_tag n) @ x)"
    and gr: "grows 1 e1 e'" using f by (auto simp: field_logged_def)
  have grow: "grows 1 e e'" using grows_trans [OF e1(2) gr] by simp
  obtain ns gss0 where inv: "end_tags e (ml_message_stack l) ns" "writes_back data es (ml_pos l) (ml_current_end l) (ml_message_stack l) ns"
    using a by (auto simp: adding_def)
  obtain g0 gss1 where p: "gs # gss = g0 # gss1" "ml_pos l \<le> ml_current_end l" "ml_current_end l \<le> length data"
    "\<And>pos' gs'. pos' \<le> ml_current_end l \<Longrightarrow> accepts gs' (drop pos' (take (ml_current_end l) data)) \<Longrightarrow>
      pending data pos' (ml_current_end l) (ml_message_stack l) (gs' # gss1)"
    using pendingD [OF pend] by metis
  note ws = window_split [OF w p(2,3), folded pos]
  have "pending data pos' (ml_current_end l) (ml_message_stack l) (gs' # gss)"
    using p(1) p(4) [OF ws(1)] ws(2) gs(1) by simp
  moreover have "writes_back data (es @ [(n, st, c)]) pos' (ml_current_end l) (ml_message_stack l) ns"
    using inv(2) ev(2) ws(3) by (simp add: writes_back_def play_back_append)
  moreover have "end_tags e' (ml_message_stack l) ns" using end_tags_grows [OF inv(1) grow] .
  moreover have "grows_but (not_left (ml_message_stack l)) (length (es @ [(n, st, c)]) + length (ml_message_stack l)) e0 e'"
    using a grows_trans [OF _ grow, of "not_left (ml_message_stack l)"] by (fastforce simp: adding_def)
  moreover have "length (es @ [(n, st, c)]) + length (ml_message_stack l) \<le> 1 + 2 * pos'"
  proof -
    have "0 < length (encode_u32 (node_id_tag n))" by simp
    then have "ml_pos l + 1 \<le> pos'" unfolding pos length_append by linarith
    then show ?thesis using a by (simp add: adding_def)
  qed
  ultimately have "adding data e0 base (es @ [(n, st, c)]) (l\<lparr>ml_pos := pos', ml_group_stack := groups\<rparr>) e'"
    using ev(1) gs(2) by (intro addingI [where ns = ns and gss = "gs' # gss"]) simp_all
  then show ?thesis by blast
qed

lemma enter_adds:
  assumes a: "adding data e0 base es l e" and e1: "logged e1 (base @ es)" "grows 0 e e1" and n: "field_node n LengthDelimited"
    and f: "entered n parent (ml_current_end l) 2 e1 (base @ es) e' f"
    and pend: "pending data (ml_pos l) (ml_current_end l) (ml_message_stack l) (gs # gss)"
    and pos: "pos' = ml_pos l + length (encode_u32 (node_id_tag n) @ encode_u32 v)"
    and w: "drop (ml_pos l) (take (ml_current_end l) data) = (encode_u32 (node_id_tag n) @ encode_u32 v) @ d @ r"
    and d: "length d = unat v" "accepts [] d" "accepts gs r" and groups: "length (ml_group_stack l) = length (concat (gs # gss))"
  shows "\<exists>es'. adding data e0 base es' (l\<lparr>ml_pos := pos', ml_message_stack := f # ml_message_stack l, ml_current_parent := mid,
    ml_current_end := pos' + unat v\<rparr>) e'"
proof -
  let ?ev = "(n, LENGTH_DELIMITED_START_OF_SUBMESSAGE, [] :: bytes)" and ?tag = "encode_u32 (node_id_tag n)"
  have ev: "logged e' (base @ es @ [?ev])" and gr: "grows_but {mf_end_sub_tag_idx f} 2 e1 e'" and fr: "mf_parent_end_pos f = ml_current_end l"
    "mf_end_sub_tag_idx f < length (te_tags_list e')"
    "te_tags_list e' ! mf_end_sub_tag_idx f = new_tag_info n LENGTH_DELIMITED_END_OF_SUBMESSAGE"
    using f by (auto simp: entered_def)
  have grow: "grows_but {mf_end_sub_tag_idx f} 2 e e'" using grows_trans [OF e1(2) gr] unfolding add_0 by simp
  obtain ns where inv: "end_tags e (ml_message_stack l) ns" "writes_back data es (ml_pos l) (ml_current_end l) (ml_message_stack l) ns"
    using a by (auto simp: adding_def)
  obtain g0 gss1 where p: "gs # gss = g0 # gss1" "ml_pos l \<le> ml_current_end l" "ml_current_end l \<le> length data"
    "\<And>pos' gs'. pos' \<le> ml_current_end l \<Longrightarrow> accepts gs' (drop pos' (take (ml_current_end l) data)) \<Longrightarrow>
      pending data pos' (ml_current_end l) (ml_message_stack l) (gs' # gss1)"
    using pendingD [OF pend] by metis
  note w1 = window_split [OF w p(2,3), folded pos]
  have w': "drop (ml_pos l) (take (ml_current_end l) data) = ((?tag @ encode_u32 v) @ d) @ r" using w by simp
  have pos2: "ml_pos l + length ((?tag @ encode_u32 v) @ d) = pos' + unat v" using pos d(1) by simp
  note w2 = window_split [OF w' p(2,3), unfolded pos2]
  have inner: "drop pos' (take (pos' + unat v) data) = d"
  proof -
    have "drop pos' (take (pos' + unat v) data) = drop (length (?tag @ encode_u32 v)) (drop (ml_pos l) (take (pos' + unat v) data))"
      unfolding drop_drop pos by (simp add: add.commute add.left_commute)
    also have "\<dots> = d" unfolding w2(4) by simp
    finally show ?thesis .
  qed
  have bound: "pos' + unat v \<le> length data" using w2(1) p(3) by simp
  have "pending data (pos' + unat v) (ml_current_end l) (ml_message_stack l) (gs # gss)"
    using p(1) p(4) [OF w2(1)] w2(2) d(3) by simp
  then have "pending data pos' (pos' + unat v) (f # ml_message_stack l) ([] # gs # gss)"
    using inner d(2) bound fr(1) by simp
  moreover have "end_tags e' (f # ml_message_stack l) (n # ns)"
    using end_tags_grows [OF inv(1) grow] fr n by (simp add: end_tags_def)
  moreover have "writes_back data (es @ [?ev]) pos' (pos' + unat v) (f # ml_message_stack l) (n # ns)"
    unfolding writes_back_def
  proof (intro allI)
    fix out limits
    have len: "length (drop pos' data @ out) - (length data + length out - (pos' + unat v)) = unat v"
      "length data + length out - (pos' + unat v) \<le> length (drop pos' data @ out)"
      using bound by simp_all
    have small: "\<not> 4294967295 < unat v" using unsigned_less [of v, where 'a = nat] by simp
    have "drop (ml_pos l) data = ?tag @ encode_u32 v @ drop pos' data" using w1(3) by simp
    then show "play_back (es @ [?ev]) (drop pos' data @ out,
        open_at (length data + length out) (pos' + unat v) (f # ml_message_stack l) (n # ns), limits) =
      Some (data @ out, [], limits @ [length data + length out])"
      using inv(2) len small fr(1) sub_events(3) [OF n] by (simp add: writes_back_def play_back_append)
  qed
  moreover have "grows_but (not_left (f # ml_message_stack l)) (length (es @ [?ev]) + length (f # ml_message_stack l)) e0 e'"
  proof -
    have "grows_but (not_left (ml_message_stack l)) (length es + length (ml_message_stack l)) e0 e" using a by (simp add: adding_def)
    from grows_trans [OF this grow] show ?thesis by simp
  qed
  moreover have "length (es @ [?ev]) + length (f # ml_message_stack l) \<le> 1 + 2 * pos'"
  proof -
    have "0 < length ?tag" "0 < length (encode_u32 v)" by simp_all
    then have "ml_pos l + 2 \<le> pos'" unfolding pos length_append by linarith
    then show ?thesis using a by (simp add: adding_def)
  qed
  ultimately have "adding data e0 base (es @ [?ev]) (l\<lparr>ml_pos := pos', ml_message_stack := f # ml_message_stack l, ml_current_parent := mid,
      ml_current_end := pos' + unat v\<rparr>) e'"
    using ev groups by (intro addingI [where ns = "n # ns" and gss = "[] # gs # gss"]) simp_all
  then show ?thesis by blast
qed

lemma adding_parent [simp]: "adding data e0 base es (l\<lparr>ml_current_parent := mid\<rparr>) e = adding data e0 base es l e"
  by (simp add: adding_def)

text \<open>The tag is read and its node is there; what is left to do depends on the wire type.\<close>

definition after_tag :: "bytes \<Rightarrow> nat \<Rightarrow> MessageLoop \<Rightarrow> u32 \<Rightarrow> nat \<Rightarrow> u32 \<Rightarrow> (TransposeChunkEncoder, MessageLoop) trial" where
  "after_tag data depth l tag pos node_mid =
     (let node_id = \<lparr>parent_message_id = ml_current_parent l, node_id_tag = tag\<rparr>;
          at = (\<lambda>pos. close_step (l\<lparr>ml_pos := pos\<rparr>))
      in case tag_wire_type tag of
                Some WVarint \<Rightarrow> try_then (encode_varint_field data pos node_id) at
              | Some Fixed32 \<Rightarrow> try_then (encode_fixed32_field data pos node_id) at
              | Some Fixed64 \<Rightarrow> try_then (encode_fixed64_field data pos node_id) at
              | Some LengthDelimited \<Rightarrow>
                  try_then (encode_length_delimited_field data pos node_id node_mid (ml_current_end l)
                      (depth + length (ml_group_stack l)) (ml_message_stack l) (ml_current_parent l))
                    (\<lambda>(pos, entered_submessage).
                      case entered_submessage of
                        Some (frame, parent, stop) \<Rightarrow>
                          surely (ret (l\<lparr>ml_pos := pos, ml_message_stack := frame # ml_message_stack l,
                            ml_current_parent := parent, ml_current_end := stop\<rparr>))
                      | None \<Rightarrow> at pos)
              | Some StartGroup \<Rightarrow>
                  try_then (surely (push_state node_id TRIVIAL)) (\<lambda>_.
                    close_step (l\<lparr>ml_pos := pos, ml_group_stack := ml_current_parent l # ml_group_stack l,
                      ml_current_parent := node_mid\<rparr>))
              | Some EndGroup \<Rightarrow>
                  try_then (surely (push_state node_id TRIVIAL)) (\<lambda>_.
                    case ml_group_stack l of
                      [] \<Rightarrow> surely (fail_with (MalformedData ''unmatched end-group tag''))
                    | parent # groups \<Rightarrow>
                        close_step (l\<lparr>ml_pos := pos, ml_group_stack := groups, ml_current_parent := parent\<rparr>))
              | None \<Rightarrow> surely (fail_with (MalformedData ''invalid wire type in tag'')))"

lemma add_field_after_tag:
  assumes "drop (ml_pos l) data = encode_u32 tag @ r" "ml_pos l \<le> length data" "tag_field_number tag \<noteq> 0"
    and "get_or_create_node \<lparr>parent_message_id = ml_current_parent l, node_id_tag = tag\<rparr> e = (Inr mid, e1)"
  shows "EncoderState.add_field data depth l e = after_tag data depth l tag (ml_pos l + length (encode_u32 tag)) mid e1"
  using assms by (simp add: EncoderState.add_field_def after_tag_def try_then_def surely_def of_res_def map_err_def unless_panic_def suffix_at_def Let_def)

lemma closed_leaf:
  assumes "adding data e0 base es' (l\<lparr>ml_pos := pos', ml_group_stack := groups\<rparr>) e'"
  shows "\<exists>l' e'' es''. close_step (l\<lparr>ml_pos := pos', ml_group_stack := groups, ml_current_parent := mid\<rparr>) e' = Some (Inr l', e'') \<and>
    adding data e0 base es'' l' e'' \<and> ml_pos l' = pos' \<and> (ml_message_stack l' = [] \<or> ml_pos l' < ml_current_end l')"
proof -
  have "adding data e0 base es' (l\<lparr>ml_pos := pos', ml_group_stack := groups, ml_current_parent := mid\<rparr>) e'"
    using assms by (simp add: adding_def)
  from close_logs [OF this] show ?thesis by simp
qed

lemma add_field_adds:
  assumes a: "adding data e0 base es l e" and more: "ml_pos l < ml_current_end l"
  shows "\<exists>l' e' es'. EncoderState.add_field data depth l e = Some (Inr l', e') \<and> adding data e0 base es' l' e' \<and> ml_pos l < ml_pos l' \<and>
    (ml_message_stack l' = [] \<or> ml_pos l' < ml_current_end l')"
proof -
  let ?pos = "ml_pos l" and ?stop = "ml_current_end l"
  obtain gss0 where pend0: "pending data ?pos ?stop (ml_message_stack l) gss0" and groups0: "length (ml_group_stack l) = length (concat gss0)"
    using a by (auto simp: adding_def)
  obtain gs gss where gss: "gss0 = gs # gss" and le: "?pos \<le> ?stop" "?stop \<le> length data" and acc: "accepts gs (drop ?pos (take ?stop data))"
    using pendingD [OF pend0] by metis
  note pend = pend0 [unfolded gss] and groups = groups0 [unfolded gss]
  have "drop ?pos (take ?stop data) \<noteq> []" using more le by simp
  from accepts_field [OF acc this] obtain tag w rest where t: "drop ?pos (take ?stop data) = encode_u32 tag @ rest"
    "tag_field_number tag \<noteq> 0" "tag_wire_type tag = Some w" "field_body gs (tag_field_number tag) w rest" by blast
  define n where "n = \<lparr>parent_message_id = ml_current_parent l, node_id_tag = tag\<rparr>"
  have nt: "node_id_tag n = tag" by (simp add: n_def)
  have n: "field_node n w" using valid_tag [OF t(2,3)] t(3) by (simp add: field_node_def nt)
  have lg: "logged e (base @ es)" using a by (simp add: adding_def)
  obtain mid e1 where g: "get_or_create_node n e = (Inr mid, e1)" "logged e1 (base @ es)" "grows 0 e e1"
    using get_or_create_logs [of e "base @ es" n] lg by (auto simp: logged_def data_logged_def)
  define pos1 where "pos1 = ?pos + length (encode_u32 tag)"
  note ws = window_split [OF t(1) le, folded pos1_def]
  have p1: "pos1 \<le> length data" "?pos < pos1" using ws(1) le by (simp_all add: pos1_def)
  have run: "EncoderState.add_field data depth l e = after_tag data depth l tag pos1 mid e1"
    using add_field_after_tag [OF ws(3) _ t(2)] g(1) le by (simp add: n_def pos1_def)
  have rest: "drop pos1 data = rest @ drop ?stop data"
    using ws(1,2) le by (metis append_take_drop_id drop_append diff_is_0_eq drop0 length_take min.absorb2)
  \<comment> \<open>a field that is logged with the bytes \<open>x\<close> behind its tag\<close>
  have leaf: "\<exists>l' e'' es''. close_step (l\<lparr>ml_pos := pos1 + length x, ml_group_stack := grps, ml_current_parent := m\<rparr>) e' = Some (Inr l', e'') \<and>
      adding data e0 base es'' l' e'' \<and> ?pos < ml_pos l' \<and> (ml_message_stack l' = [] \<or> ml_pos l' < ml_current_end l')"
    if f: "field_logged n x e1 (base @ es) e'" and x: "rest = x @ r" and gs': "accepts gs' r" "length grps = length (concat (gs' # gss))"
    for x r gs' grps e' m
  proof -
    have "drop ?pos (take ?stop data) = (encode_u32 (node_id_tag n) @ x) @ r" using t(1) x nt by simp
    moreover have "pos1 + length x = ?pos + length (encode_u32 (node_id_tag n) @ x)" by (simp add: pos1_def nt)
    ultimately obtain es' where "adding data e0 base es' (l\<lparr>ml_pos := pos1 + length x, ml_group_stack := grps\<rparr>) e'"
      using leaf_adds [OF a g(2,3) f pend _ _ gs'] by blast
    from closed_leaf [OF this, of m] show ?thesis using p1(2) by (metis trans_less_add1)
  qed
  have same: "l\<lparr>ml_pos := p, ml_group_stack := ml_group_stack l, ml_current_parent := ml_current_parent l\<rparr> = l\<lparr>ml_pos := p\<rparr>" for p
    by simp
  note leaf0 = leaf [of _ _ _ gs "ml_group_stack l" "ml_current_parent l", unfolded same, OF _ _ _ groups]
  note body = run after_tag_def n_def [symmetric] t(3) try_then_def surely_def Let_def
  show ?thesis
  proof (cases w)
    case WVarint
    then obtain v r where v: "rest = encode_u64 v @ r" "accepts gs r" using t(4) by auto
    have "drop pos1 data = encode_u64 v @ r @ drop ?stop data" using rest v by simp
    from varint_field_logs [OF g(2) n [unfolded WVarint] this p1(1)] obtain e' where
      e': "encode_varint_field data pos1 n e1 = Some (Inr (pos1 + length (encode_u64 v)), e')" "field_logged n (encode_u64 v) e1 (base @ es) e'" by blast
    from leaf0 [OF e'(2) v] show ?thesis using e'(1) WVarint by (simp add: body)
  next
    case Fixed32
    then obtain d r where d: "rest = d @ r" "length d = 4" "accepts gs r" using t(4) by auto
    have "drop pos1 data = d @ r @ drop ?stop data" using rest d by simp
    from fixed32_field_logs [OF g(2) n [unfolded Fixed32] this d(2) p1(1)] obtain e' where
      e': "encode_fixed32_field data pos1 n e1 = Some (Inr (pos1 + 4), e')" "field_logged n d e1 (base @ es) e'" by blast
    from leaf0 [OF e'(2) d(1,3)] show ?thesis using e'(1) Fixed32 d(2) by (simp add: body)
  next
    case Fixed64
    then obtain d r where d: "rest = d @ r" "length d = 8" "accepts gs r" using t(4) by auto
    have "drop pos1 data = d @ r @ drop ?stop data" using rest d by simp
    from fixed64_field_logs [OF g(2) n [unfolded Fixed64] this d(2) p1(1)] obtain e' where
      e': "encode_fixed64_field data pos1 n e1 = Some (Inr (pos1 + 8), e')" "field_logged n d e1 (base @ es) e'" by blast
    from leaf0 [OF e'(2) d(1,3)] show ?thesis using e'(1) Fixed64 d(2) by (simp add: body)
  next
    case StartGroup
    then have acc': "accepts (tag_field_number tag # gs) rest" using t(4) by simp
    obtain e' where e': "push_state n TRIVIAL e1 = (Inr (), e')" "field_logged n [] e1 (base @ es) e'"
      using group_tag_logs [OF g(2) n] StartGroup by blast
    have "length (ml_current_parent l # ml_group_stack l) = length (concat ((tag_field_number tag # gs) # gss))"
      using groups by simp
    from leaf [OF e'(2) _ acc' this, of mid] show ?thesis using e'(1) StartGroup by (simp add: body)
  next
    case EndGroup
    then obtain gs' where gs': "gs = tag_field_number tag # gs'" "accepts gs' rest" using t(4) by auto
    obtain e' where e': "push_state n TRIVIAL e1 = (Inr (), e')" "field_logged n [] e1 (base @ es) e'"
      using group_tag_logs [OF g(2) n] EndGroup by blast
    obtain m grps where m: "ml_group_stack l = m # grps" using groups gs' by (cases "ml_group_stack l") auto
    then have "length grps = length (concat (gs' # gss))" using groups gs' by simp
    from leaf [OF e'(2) _ gs'(2) this, of m] show ?thesis using e'(1) EndGroup m by (simp add: body)
  next
    case LengthDelimited
    then obtain v d r where v: "rest = encode_u32 v @ d @ r" "length d = unat v" "accepts gs r" using t(4) by auto
    have dr: "drop pos1 data = encode_u32 v @ d @ r @ drop ?stop data" using rest v by simp
    have w: "drop ?pos (take ?stop data) = (encode_u32 (node_id_tag n) @ encode_u32 v @ d) @ r" using t(1) v nt by simp
    have fits: "pos1 + length (encode_u32 v) + unat v \<le> ?stop"
      using window_split(1) [OF w le] v(2) by (simp add: pos1_def nt)
    from length_field_logs [OF g(2) n [unfolded LengthDelimited] dr v(2) fits le(2)] consider
      (str) e' where "encode_length_delimited_field data pos1 n mid ?stop (depth + length (ml_group_stack l)) (ml_message_stack l) (ml_current_parent l) e1 =
        Some (Inr (pos1 + length (encode_u32 v) + unat v, None), e')" "field_logged n (encode_u32 v @ d) e1 (base @ es) e'"
      | (sub) e' f where "encode_length_delimited_field data pos1 n mid ?stop (depth + length (ml_group_stack l)) (ml_message_stack l) (ml_current_parent l) e1 =
        Some (Inr (pos1 + length (encode_u32 v), Some (f, mid, pos1 + length (encode_u32 v) + unat v)), e')"
        "entered n (ml_current_parent l) ?stop 2 e1 (base @ es) e' f" "accepts [] d" "0 < unat v" by metis
    then show ?thesis
    proof cases
      case str
      have "rest = (encode_u32 v @ d) @ r" using v by simp
      from leaf0 [OF str(2) this v(3)] show ?thesis using str(1) LengthDelimited v(2) by (simp add: body add.assoc)
    next
      case sub
      define pos2 where "pos2 = pos1 + length (encode_u32 v)"
      have p2: "pos2 = ?pos + length (encode_u32 (node_id_tag n) @ encode_u32 v)" by (simp add: pos2_def pos1_def nt)
      have w2: "drop ?pos (take ?stop data) = (encode_u32 (node_id_tag n) @ encode_u32 v) @ d @ r" using w by simp
      from enter_adds [OF a g(2,3) n [unfolded LengthDelimited] sub(2) pend p2 w2 v(2) sub(3) v(3) groups, of mid] obtain es' where
        "adding data e0 base es' (l\<lparr>ml_pos := pos2, ml_message_stack := f # ml_message_stack l, ml_current_parent := mid,
          ml_current_end := pos2 + unat v\<rparr>) e'" by blast
      moreover have "?pos < pos2" using p1(2) by (simp add: pos2_def)
      ultimately show ?thesis using sub(1,4) LengthDelimited by (simp add: body ret_def pos2_def) blast
    qed
  qed
qed

section \<open>A record\<close>

text \<open>A record has been logged by events that write it and its end.\<close>

definition record_logged :: "TransposeChunkEncoder \<Rightarrow> event list \<Rightarrow> bytes \<Rightarrow> TransposeChunkEncoder \<Rightarrow> bool" where
  "record_logged e base data e' \<longleftrightarrow> (\<exists>es. logged e' (base @ es) \<and> grows (length es) e e' \<and> length es \<le> 1 + 2 * length data \<and>
     (\<forall>out limits. play_back es (out, [], limits) = Some (data @ out, [], limits @ [length data + length out])))"

lemma message_step_adds:
  assumes a: "adding data e0 base es l e" and st: "ml_message_stack l = [] \<or> ml_pos l < ml_current_end l"
  shows "case message_step data depth (l, e) of
      None \<Rightarrow> False
    | Some (Inl (l', e')) \<Rightarrow> (\<exists>es'. adding data e0 base es' l' e') \<and> (ml_message_stack l' = [] \<or> ml_pos l' < ml_current_end l') \<and>
        ml_pos l < ml_pos l' \<and> ml_pos l < length data
    | Some (Inr r) \<Rightarrow> \<exists>e'. r = (Inr (), e') \<and> record_logged e0 base data e'"
proof (cases "ml_pos l < ml_current_end l")
  case True
  obtain gss where "pending data (ml_pos l) (ml_current_end l) (ml_message_stack l) gss" using a by (auto simp: adding_def)
  then have "ml_current_end l \<le> length data" by (rule pendingD)
  then show ?thesis using add_field_adds [OF a True, of depth] True by (auto simp: message_step_def)
next
  case False
  then have nil: "ml_message_stack l = []" using st by simp
  obtain ns gss where inv: "logged e (base @ es)" "grows (length es) e0 e" "length es \<le> 1 + 2 * ml_pos l" "end_tags e [] ns"
    "pending data (ml_pos l) (ml_current_end l) [] gss" "writes_back data es (ml_pos l) (ml_current_end l) [] ns"
    using a nil by (auto simp: adding_def)
  have pos: "ml_pos l = length data" using inv(5) False by (cases gss; cases "tl gss") auto
  have "record_logged e0 base data e"
    using inv(1-3,6) pos unfolding record_logged_def by (intro exI [of _ es]) (auto simp: writes_back_def)
  then show ?thesis using False by (simp add: message_step_def)
qed

lemma add_message_logs:
  assumes "adding data e0 base es \<lparr>ml_pos = 0, ml_message_stack = [], ml_group_stack = [], ml_current_parent = parent,
         ml_current_end = length data\<rparr> e"
  shows "\<exists>e'. add_message data parent depth e = Some (Inr (), e') \<and> record_logged e0 base data e'"
proof -
  define I where "I = (\<lambda>(l, e). (\<exists>es. adding data e0 base es l e) \<and> (ml_message_stack l = [] \<or> ml_pos l < ml_current_end l))"
  have "\<exists>r. iterate (message_step data depth) (\<lparr>ml_pos = 0, ml_message_stack = [], ml_group_stack = [], ml_current_parent = parent,
         ml_current_end = length data\<rparr>, e) = Some r \<and> (\<exists>e'. r = (Inr (), e') \<and> record_logged e0 base data e')"
  proof (rule iterate_total [where m = "\<lambda>(l, e). length data - ml_pos l"])
    show "I (\<lparr>ml_pos = 0, ml_message_stack = [], ml_group_stack = [], ml_current_parent = parent, ml_current_end = length data\<rparr>, e)"
      using assms by (auto simp: I_def)
  next
    fix s assume "I s"
    then obtain l e1 es1 where s: "s = (l, e1)" "adding data e0 base es1 l e1" "ml_message_stack l = [] \<or> ml_pos l < ml_current_end l"
      by (auto simp: I_def)
    note step = message_step_adds [OF s(2,3), of depth]
    show "message_step data depth s \<noteq> None" using step s(1) by (auto split: option.splits)
    show "\<exists>e'. r = (Inr (), e') \<and> record_logged e0 base data e'" if "message_step data depth s = Some (Inr r)" for r
      using step s(1) that by simp
    show "I s' \<and> (case s' of (l, e) \<Rightarrow> length data - ml_pos l) < (case s of (l, e) \<Rightarrow> length data - ml_pos l)"
      if "message_step data depth s = Some (Inl s')" for s'
      using step s(1) that by (auto simp: I_def)
  qed
  then show ?thesis unfolding add_message_def by auto
qed

lemma start_event:
  "event_ok (\<lparr>parent_message_id = START_OF_MESSAGE, node_id_tag = 0\<rparr>, TRIVIAL, [])"
  "tag_buffer (\<lparr>parent_message_id = START_OF_MESSAGE, node_id_tag = 0\<rparr>, TRIVIAL) = None"
  "deed_of (\<lparr>parent_message_id = START_OF_MESSAGE, node_id_tag = 0\<rparr>, TRIVIAL, []) = Boundary"
  by (simp_all add: event_ok.simps tag_buffer.simps deed_of.simps message_id_defs)

lemma whole_event:
  assumes "data \<noteq> []" "length data < 2 ^ 32"
  shows "event_ok (\<lparr>parent_message_id = NON_PROTO, node_id_tag = 0\<rparr>, TRIVIAL, data)"
    "tag_buffer (\<lparr>parent_message_id = NON_PROTO, node_id_tag = 0\<rparr>, TRIVIAL) =
       Some (Buf_NonProto, \<lparr>parent_message_id = NON_PROTO, node_id_tag = 0\<rparr>)"
    "deed_of (\<lparr>parent_message_id = NON_PROTO, node_id_tag = 0\<rparr>, TRIVIAL, data) = Whole_Record data"
  using assms by (simp_all add: event_ok.simps tag_buffer.simps deed_of.simps message_id_defs)

text \<open>Every record is accepted.\<close>

lemma add_record_logs:
  assumes l: "logged e base" and small: "length data < 2 ^ 32"
  shows "\<exists>e'. te_add_record data e = Some (Inr (), e') \<and>
    record_logged (e\<lparr>te_num_records := te_num_records e + 1, te_decoded_data_size := te_decoded_data_size e + of_nat (length data)\<rparr>) base data e'"
proof -
  define e0 where "e0 = e\<lparr>te_num_records := te_num_records e + 1, te_decoded_data_size := te_decoded_data_size e + of_nat (length data)\<rparr>"
  have l0: "logged e0 base" using l by (simp add: logged_def tags_logged_def notes_ok_def data_logged_def e0_def)
  show ?thesis
  proof (cases "is_proto_message data")
    case True
    let ?n = "\<lparr>parent_message_id = START_OF_MESSAGE, node_id_tag = 0\<rparr>"
    obtain e1 where p: "push_state ?n TRIVIAL e0 = (Inr (), e1)" "logged e1 (base @ [(?n, TRIVIAL, [])])" "grows 1 e0 e1"
      using push_bare [OF l0 start_event(1,2)] by blast
    have "adding data e0 base [(?n, TRIVIAL, [])] \<lparr>ml_pos = 0, ml_message_stack = [], ml_group_stack = [], ml_current_parent = ROOT,
         ml_current_end = length data\<rparr> e1"
      using p(2,3) True accepts_message [of data] start_event(3)
      by (intro addingI [where ns = "[]" and gss = "[[]]"]) (simp_all add: end_tags_def writes_back_def)
    from add_message_logs [OF this, of 0] show ?thesis
      using True p(1) by (simp add: te_add_record_def try_then_def surely_def e0_def [symmetric])
  next
    case False
    then have data: "data \<noteq> []" using accepts_message [of "[]"] by auto
    let ?n = "\<lparr>parent_message_id = NON_PROTO, node_id_tag = 0\<rparr>"
    note ev = whole_event [OF data small]
    obtain e1 where p: "push_state ?n TRIVIAL e0 = (Inr (), e1)" "tags_logged e1 (base @ [(?n, TRIVIAL, data)])" "grows 1 e0 e1"
      "te_data e1 = te_data e0" "te_nonproto_lengths e1 = te_nonproto_lengths e0"
      using push_state_logs [OF _ ev(1)] l0 unfolding logged_def by blast
    define e2 where "e2 = e1\<lparr>te_data := (te_data e1)(Buf_NonProto := push_to_node ?n data (te_data e1 Buf_NonProto)),
        te_nonproto_lengths := push_chunk (encode_u64 (of_nat (length data))) (te_nonproto_lengths e1)\<rparr>"
    have h: "buffers_hold (te_data e1 bt) (\<lambda>n. chunks_for (bt, n) base)" for bt
      using l0 p(4) by (simp add: logged_def data_logged_def)
    have "(\<lambda>m. chunks_for (bt, m) (base @ [(?n, TRIVIAL, data)])) =
        (if bt = Buf_NonProto then (\<lambda>m. chunks_for (Buf_NonProto, m) base)(?n := chunks_for (Buf_NonProto, ?n) base @ [data])
         else (\<lambda>m. chunks_for (bt, m) base))" for bt
      using ev(2) by (auto simp: chunks_for_one fun_eq_iff)
    then have "buffers_hold (te_data e2 bt) (\<lambda>n. chunks_for (bt, n) (base @ [(?n, TRIVIAL, data)]))" for bt
      using h push_to_node_holds [OF h [of Buf_NonProto], of ?n data] by (simp add: e2_def)
    moreover have "buffer_holds (te_nonproto_lengths e2) (whole_lengths (base @ [(?n, TRIVIAL, data)]))"
      using l0 p(5) by (simp add: e2_def logged_def data_logged_def buffer_holds_push)
    ultimately have "logged e2 (base @ [(?n, TRIVIAL, data)])"
      using p(2) by (simp add: logged_def data_logged_def tags_logged_def notes_ok_def e2_def)
    moreover have "grows 1 e0 e2" using p(3) by (simp add: grows_but_def settings_def e2_def)
    ultimately have "record_logged e0 base data e2"
      using ev(3) unfolding record_logged_def by (intro exI [of _ "[(?n, TRIVIAL, data)]"]) simp
    then show ?thesis
      using False p(1) by (simp add: te_add_record_def try_then_def surely_def push_buffer_def e0_def [symmetric] e2_def Let_def)
  qed
qed

section \<open>All records\<close>

text \<open>The ends of the records as distances from the end of the output, the last record first.\<close>

fun ends_back :: "bytes list \<Rightarrow> nat \<Rightarrow> nat list" where
  "ends_back [] k = []"
| "ends_back (r # rs) k = ends_back rs k @ [length (concat (r # rs)) + k]"

lemma ends_back_snoc: "ends_back (rs @ [r]) k = (length r + k) # ends_back rs (length r + k)"
  by (induction rs) simp_all

text \<open>What an encoder holds after the records were added.\<close>

definition holds_records :: "TransposeChunkEncoder \<Rightarrow> bytes list \<Rightarrow> bool" where
  "holds_records e rs \<longleftrightarrow> te_num_records e = of_nat (length rs) \<and> te_decoded_data_size e = of_nat (length (concat rs)) \<and>
     (\<exists>evs. logged e evs \<and> {..<length (te_tags_list e)} \<subseteq> set (te_encoded_tags e) \<and> length (te_tags_list e) \<le> length evs \<and> length evs \<le> length rs + 2 * length (concat rs) \<and>
       (\<forall>out limits. play_back evs (out, [], limits) = Some (concat rs @ out, [], limits @ ends_back rs (length out))))"

lemma new_holds: "holds_records (te_with_bucket_size n (te_with_compress_opts opts (te_new ct))) []"
  unfolding holds_records_def
  by (intro conjI exI [of _ "[]"])
    (simp_all add: te_with_bucket_size_def te_with_compress_opts_def te_new_def logged_def tags_logged_def notes_ok_def data_logged_def
      buffers_hold_def)

lemma add_record_holds:
  assumes h: "holds_records e rs" and small: "length r < 2 ^ 32"
  shows "\<exists>e'. te_add_record r e = Some (Inr (), e') \<and> holds_records e' (rs @ [r]) \<and>
    te_compression e' = te_compression e \<and> te_compress_opts e' = te_compress_opts e \<and> te_bucket_size e' = te_bucket_size e"
proof -
  obtain evs where evs: "logged e evs" "length (te_tags_list e) \<le> length evs" "length evs \<le> length rs + 2 * length (concat rs)"
    "{..<length (te_tags_list e)} \<subseteq> set (te_encoded_tags e)" "\<And>out limits. play_back evs (out, [], limits) = Some (concat rs @ out, [], limits @ ends_back rs (length out))"
    using h by (auto simp: holds_records_def)
  obtain e' where e': "te_add_record r e = Some (Inr (), e')"
    "record_logged (e\<lparr>te_num_records := te_num_records e + 1, te_decoded_data_size := te_decoded_data_size e + of_nat (length r)\<rparr>) evs r e'"
    using add_record_logs [OF evs(1) small] by blast
  obtain es where es: "logged e' (evs @ es)"
    "grows (length es) (e\<lparr>te_num_records := te_num_records e + 1, te_decoded_data_size := te_decoded_data_size e + of_nat (length r)\<rparr>) e'"
    "length es \<le> 1 + 2 * length r"
    "\<And>out limits. play_back es (out, [], limits) = Some (r @ out, [], limits @ [length r + length out])"
    using e'(2) by (auto simp: record_logged_def)
  have settings: "te_num_records e' = te_num_records e + 1" "te_decoded_data_size e' = te_decoded_data_size e + of_nat (length r)"
    "te_compression e' = te_compression e" "te_compress_opts e' = te_compress_opts e" "te_bucket_size e' = te_bucket_size e"
    and tags: "length (te_tags_list e') \<le> length (te_tags_list e) + length es"
    using es(2) by (auto simp: grows_but_def settings_def)
  have "play_back (evs @ es) (out, [], limits) = Some (concat (rs @ [r]) @ out, [], limits @ ends_back (rs @ [r]) (length out))" for out limits
    using es(4) evs(5) by (simp add: play_back_append ends_back_snoc)
  moreover have "{..<length (te_tags_list e')} \<subseteq> set (te_encoded_tags e')"
  proof
    fix i assume "i \<in> {..<length (te_tags_list e')}"
    then show "i \<in> set (te_encoded_tags e')"
      using es(2) evs(4) by (cases "i < length (te_tags_list e)") (auto simp: grows_but_def)
  qed
  ultimately have "holds_records e' (rs @ [r])"
    unfolding holds_records_def using es(1,3) evs(2,3) settings tags h
    by (intro conjI exI [of _ "evs @ es"]) (auto simp: holds_records_def)
  then show ?thesis using e'(1) settings by blast
qed

end
