(* ===== verification/EncoderRoundtrip.thy ===== *)
theory EncoderRoundtrip
  imports EncoderNodes EncoderAdding
begin

text \<open>
  Through a transposed chunk and back: what the encoder makes of records, the decoder reads as these
  records.
\<close>

section \<open>The limits of the records\<close>

fun ends_from :: "bytes list \<Rightarrow> nat \<Rightarrow> nat list" where
  "ends_from [] a = []"
| "ends_from (r # rs) a = (a + length r) # ends_from rs (a + length r)"

lemma ends_from_length [simp]: "length (ends_from rs a) = length rs"
  by (induction rs arbitrary: a) simp_all

lemma ends_from_nth: "i < length rs \<Longrightarrow> ends_from rs a ! i = a + length (concat (take (Suc i) rs))"
proof (induction rs arbitrary: a i)
  case (Cons r rs)
  then show ?case by (cases i) simp_all
qed simp

lemma ends_from_Nil [simp]: "ends_from rs a = [] \<longleftrightarrow> rs = []"
  by (cases rs) simp_all

lemma ends_from_last: "rs \<noteq> [] \<Longrightarrow> last (ends_from rs a) = a + length (concat rs)"
proof (induction rs arbitrary: a)
  case (Cons r rs)
  then show ?case by (cases "rs = []") simp_all
qed simp

lemma ends_back_length [simp]: "length (ends_back rs k) = length rs"
  by (induction rs) simp_all

lemma ends_back_bound: "l \<in> set (ends_back rs k) \<Longrightarrow> k \<le> l \<and> l \<le> length (concat rs) + k"
  by (induction rs) auto

lemma ends_back_sorted: "sorted (ends_back rs k)"
  by (induction rs) (auto simp: sorted_append dest: ends_back_bound)

lemma ends_complement:
  "sz = a + length (concat rs) \<Longrightarrow> rev (map (\<lambda>l. sz - l) (ends_back rs 0)) @ [sz] = a # ends_from rs a"
proof (induction rs arbitrary: a)
  case (Cons r rs)
  then have "rev (map (\<lambda>l. sz - l) (ends_back rs 0)) @ [sz] = (a + length r) # ends_from rs (a + length r)" by (intro Cons.IH) simp
  then show ?case using Cons.prems by simp
qed simp

lemma finalize_ends:
  assumes "rs \<noteq> []" "bb_data dest = rev (concat rs)"
  shows "finalize_records dest (ends_back rs 0) = Inr (concat rs, ends_from rs 0)"
proof -
  obtain r rs' where rs: "rs = r # rs'" using assms(1) by (cases rs) auto
  let ?sz = "length (concat rs)"
  have pos: "bb_pos dest = ?sz" using assms(2) by (simp add: bb_pos_def)
  have ends: "ends_back rs 0 = ends_back rs' 0 @ [?sz]" by (simp add: rs)
  then have ne: "ends_back rs 0 \<noteq> []" and last: "last (ends_back rs 0) = ?sz" by simp_all
  have "complement_limits ?sz 0 (length (ends_back rs 0) - 1) (ends_back rs 0) = ends_from rs 0"
  proof -
    have "complement_limits ?sz 0 (length (ends_back rs 0) - 1) (ends_back rs 0) = rev (map (\<lambda>l. ?sz - l) (ends_back rs' 0)) @ [?sz]"
      unfolding complement_limits_rev [OF ne] by (simp add: ends)
    also have "\<dots> = length r # ends_from rs' (length r)" by (rule ends_complement) (simp add: rs)
    finally show ?thesis by (simp add: rs)
  qed
  then have comp: "complement_limits ?sz 0 (length rs - Suc 0) (ends_back rs 0) = ends_from rs 0" by simp
  obtain x where x: "finalize_records dest (ends_back rs 0) = Inr x"
    using finalize_records_accepts [OF ends_back_sorted, of rs 0 dest] ends_back_bound [of _ rs 0] pos last ne by auto
  then have "valid_limits ?sz 0 (ends_from rs 0)"
    using ne last by (simp add: finalize_records_def pos comp Let_def split: if_splits)
  then show ?thesis
    using ne last assms(2) by (simp add: finalize_records_def pos comp Let_def into_forward_def)
qed

lemma record_of_ends:
  assumes "i < length rs"
  shows "record_at \<lparr>tc_data = concat rs, tc_limits = ends_from rs 0, tc_next_yield = n\<rparr> i = rs ! i"
proof -
  have split: "rs = take i rs @ rs ! i # drop (Suc i) rs" using assms by (rule id_take_nth_drop)
  have start: "(if i = 0 then 0 else ends_from rs 0 ! (i - 1)) = length (concat (take i rs))"
    using assms by (cases i) (simp_all add: ends_from_nth)
  have "take (Suc i) rs = take i rs @ [rs ! i]" using assms by (rule take_Suc_conv_app_nth)
  then have stop: "ends_from rs 0 ! i = length (concat (take i rs)) + length (rs ! i)"
    using assms by (simp add: ends_from_nth del: take_Suc)
  have "concat rs = concat (take i rs) @ rs ! i @ concat (drop (Suc i) rs)" by (subst split) simp
  then show ?thesis unfolding record_at_def TransposeChunkDecoder.simps start stop by simp
qed

lemma remaining_ends:
  "tc_remaining \<lparr>tc_data = concat rs, tc_limits = ends_from rs 0, tc_next_yield = 0\<rparr> = rs"
  unfolding tc_remaining_def by (rule nth_equalityI) (simp_all add: record_of_ends)

lemma decoder_of_ends: "decoder_ok \<lparr>tc_data = concat rs, tc_limits = ends_from rs 0, tc_next_yield = 0\<rparr>"
proof -
  have "sorted (ends_from rs a) \<and> (\<forall>l \<in> set (ends_from rs a). a \<le> l)" for a
    by (induction rs arbitrary: a) (auto intro: le_trans [OF le_add1])
  then show ?thesis using ends_from_last [of rs 0] by (cases "rs = []") (simp_all add: decoder_ok_def limits_ok_def)
qed

section \<open>Running the machine\<close>

text \<open>The buffers of the events, in the order of the chunk, as cursors in front of their bytes.\<close>

definition keys_of :: "event list \<Rightarrow> (BufferType \<times> NodeId) set" where
  "keys_of evs = {key. chunks_for key evs \<noteq> []}"

lemma key_node: "(bt, n) \<in> keys_of evs \<Longrightarrow> bt = buffer_type n \<and> node_chunks evs n \<noteq> []"
  using chunks_for_type by (fastforce simp: keys_of_def node_chunks_def)

lemma gathered_place:
  assumes g: "gathered evs c" and k: "key \<in> keys_of evs"
  shows "place (co_pos c) key < length (co_buffers c)" "co_buffers c ! place (co_pos c) key = concat (rev (chunks_for key evs))"
    "whole_lengths evs \<noteq> [] \<Longrightarrow> place (co_pos c) key < length (co_buffers c) - 1"
proof -
  obtain bt n where key: "key = (bt, n)" by (cases key)
  have n: "bt = buffer_type n" "node_chunks evs n \<noteq> []" using key_node k key by auto
  obtain i where i: "co_pos c n = Some i" "i < length (co_buffers c)" "co_buffers c ! i = concat (rev (node_chunks evs n))"
    "whole_lengths evs \<noteq> [] \<longrightarrow> i < length (co_buffers c) - 1"
    using g n(2) unfolding gathered_def by blast
  have "place (co_pos c) key = i" by (simp add: key buffer_of_def i(1))
  then show "place (co_pos c) key < length (co_buffers c)" "co_buffers c ! place (co_pos c) key = concat (rev (chunks_for key evs))"
    "whole_lengths evs \<noteq> [] \<Longrightarrow> place (co_pos c) key < length (co_buffers c) - 1"
    using i n(1) by (simp_all add: node_chunks_def key)
qed

lemma gathered_inj:
  assumes g: "gathered evs c"
  shows "inj_on (place (co_pos c)) (keys_of evs)"
proof (rule inj_onI)
  fix key key'
  assume k: "key \<in> keys_of evs" "key' \<in> keys_of evs" and same: "place (co_pos c) key = place (co_pos c) key'"
  obtain bt n bt' n' where key: "key = (bt, n)" "key' = (bt', n')" by (cases key; cases key')
  have n: "bt = buffer_type n" "node_chunks evs n \<noteq> []" "bt' = buffer_type n'" "node_chunks evs n' \<noteq> []"
    using key_node k key by blast+
  have at: "\<exists>i. co_pos c m = Some i" if "node_chunks evs m \<noteq> []" for m using g that unfolding gathered_def by blast
  obtain i j where "co_pos c n = Some i" "co_pos c n' = Some j" using at [OF n(2)] at [OF n(4)] by blast
  then have "co_pos c n = co_pos c n'" using same by (simp add: key buffer_of_def)
  moreover have "\<forall>n m. node_chunks evs n \<noteq> [] \<longrightarrow> node_chunks evs m \<noteq> [] \<longrightarrow> co_pos c n = co_pos c m \<longrightarrow> n = m"
    by (rule g [unfolded gathered_def, THEN conjunct2, THEN conjunct2, THEN conjunct2, THEN conjunct1])
  ultimately have "n = n'" using n(2,4) by blast
  then show "key = key'" using key n by simp
qed

lemma part_of_concat: "x \<in> set xs \<Longrightarrow> length x \<le> length (concat xs)"
  by (induction xs) auto

lemma buffers_start:
  assumes g: "gathered evs c" and fits: "length (concat (co_buffers c)) \<le> u64_max"
    and li: "whole_lengths evs \<noteq> [] \<Longrightarrow> li = Some (length (co_buffers c) - 1)"
  shows "buffers_stand (place (co_pos c)) (keys_of evs) li evs (map bc_new (co_buffers c))"
proof -
  have new: "cursor_left (map bc_new (co_buffers c) ! i) bs" if "i < length (co_buffers c)" "co_buffers c ! i = bs" for i bs
  proof -
    have "length bs \<le> u64_max" using part_of_concat [of bs "co_buffers c"] nth_mem [OF that(1)] that(2) fits by simp
    then show ?thesis using that by (simp add: cursor_left_def bc_new_def)
  qed
  have "\<exists>i. li = Some i \<and> i < length (map bc_new (co_buffers c)) \<and> i \<notin> place (co_pos c) ` keys_of evs \<and>
      cursor_left (map bc_new (co_buffers c) ! i) (concat (rev (whole_lengths evs)))" if w: "whole_lengths evs \<noteq> []"
  proof -
    let ?i = "length (co_buffers c) - 1"
    have l: "co_buffers c \<noteq> []" "co_buffers c ! ?i = concat (rev (whole_lengths evs))"
      using g w by (auto simp: gathered_def last_conv_nth)
    then have "?i < length (co_buffers c)" by simp
    moreover have "?i \<notin> place (co_pos c) ` keys_of evs" using gathered_place(3) [OF g _ w] by fastforce
    ultimately show ?thesis using li [OF w] new [OF _ l(2)] by simp
  qed
  moreover have "cursor_left (map bc_new (co_buffers c) ! place (co_pos c) key) (concat (rev (chunks_for key evs)))"
    if "key \<in> keys_of evs" for key by (rule new [OF gathered_place(1,2) [OF g that]])
  ultimately show ?thesis
    unfolding buffers_stand_def using gathered_place(1) [OF g] gathered_inj [OF g] by (simp add: keys_of_def)
qed

text \<open>The tag that a state stands for.\<close>

definition state_tag :: "StateInfo list \<Rightarrow> EncodedTagInfo list \<Rightarrow> nat \<Rightarrow> (NodeId \<times> u8) option" where
  "state_tag states tags p =
     (if si_etag_index (states ! p) = NO_POS then None else Some (tag_at tags (si_etag_index (states ! p))))"

lemma state_tags_along:
  "concat (map (\<lambda>p. list_of_option (state_tag states tags p)) path) = map (tag_at tags) (tags_along states path)"
  by (induction path) (simp_all add: state_tag_def list_of_option_def)

lemma u64_of_length: "n < 2 ^ 64 \<Longrightarrow> unat (of_nat n :: u64) = n"
  by (simp add: unat_of_nat)

lemma machine_runs:
  assumes rs: "rs \<noteq> []" and num: "length rs < 2 ^ 64" "length (concat rs) < 2 ^ 64"
    and g: "gathered evs c" and fits: "length (concat (co_buffers c)) \<le> u64_max"
    and li: "whole_lengths evs \<noteq> [] \<Longrightarrow> li = Some (length (co_buffers c) - 1)"
    and ok: "\<forall>ev \<in> set evs. event_ok ev" and play: "play_back evs ([], [], []) = Some (concat rs, [], ends_back rs 0)"
    and tags: "map (tag_at tags) encoded = map event_tag evs" and lt: "leads_through encoded states tags bytes"
    and m: "sm_nodes m = nodes @ extra" "list_all2 (fits_state states tags (co_pos c)) states nodes"
      "placed_at states (last encoded) (sm_first_node m)"
  shows "run_state_machine (of_nat (length rs)) (of_nat (length (concat rs))) m (map bc_new (co_buffers c)) (bc_new bytes) li None =
    Some (Inr (\<lparr>bb_data = rev (concat rs), bb_limit = length (concat rs)\<rparr>, ends_back rs 0))"
proof -
  let ?p = "sm_first_node m" and ?limit = "length (concat rs)" and ?num = "of_nat (length rs) :: u64" and ?nodes = "nodes @ extra"
  have len: "length nodes = length states" using m(2) by (simp add: list_all2_lengthD)
  obtain path where w: "walks ?nodes (?p # path) (offsets_of bytes)" "tags_along states (?p # path) = rev encoded"
    "set (?p # path) \<subseteq> {..<length states}"
    using lt fits_agree [OF m(2)] m(3) unfolding leads_through_def by blast
  define s0 where "s0 = \<lparr>ds_dest = bb_new (unat (of_nat ?limit :: u64)), ds_buffers = map bc_new (co_buffers c), ds_submessage_stack = [],
      ds_limits = [], ds_num_records = ?num, ds_nonproto_lengths_index = li, ds_node_templates = sm_node_templates m,
      ds_include_map = None, ds_skipped_submessage_level = 0\<rparr>"
  have st: "stands_for ?nodes (place (co_pos c)) (keys_of evs) ?limit ?num evs s0 ([], [], [])"
    using buffers_start [OF g fits li] u64_of_length [OF num(2)] by (simp add: stands_for_def s0_def bb_new_def frames_stand_def)
  have nd: "p < length ?nodes \<and> (case state_tag states tags p of None \<Rightarrow> sn_callback_type (?nodes ! p) = NoOp
      | Some t \<Rightarrow> node_does (place (co_pos c)) t (?nodes ! p))" if p: "p \<in> set (?p # path)" for p
  proof -
    have "p < length states" using w(3) p by auto
    then have "p < length nodes" "fits_state states tags (co_pos c) (states ! p) (nodes ! p)"
      using m(2) len by (simp_all add: list_all2_conv_all_nth)
    then show ?thesis by (simp add: nth_append state_tag_def fits_state_def split: if_splits)
  qed
  have along: "concat (map (\<lambda>p. list_of_option (state_tag states tags p)) (?p # path)) = map event_tag (rev evs)"
    unfolding state_tags_along w(2) rev_map [symmetric] tags ..
  have "length (ends_back rs 0) \<le> unat ?num" using u64_of_length [OF num(1)] by simp
  from path_plays [OF nd along ok st play order_refl this] obtain s' where
    s': "perform_all ?nodes (?p # path) s0 = Some s'"
    "stands_for ?nodes (place (co_pos c)) (keys_of evs) ?limit ?num [] s' (concat rs, [], ends_back rs 0)" by blast
  have "left_offsets 0 (bc_new bytes) = offsets_of bytes" by (simp add: left_offsets_def bc_new_def)
  from machine_walks [OF w(1) s'(1) _ this] have
    it: "iterate (machine_step ?nodes) (?p, if sn_is_implicit (?nodes ! ?p) then 1 else 0, bc_new bytes, s0) = Some (Inr s')"
    by (simp add: bc_new_def)
  have "?p < length ?nodes" by (rule walks_start [OF w(1)])
  then have first: "item_at (sm_nodes m) ?p = Some (?nodes ! ?p)" by (simp add: m(1))
  have e: "ds_submessage_stack s' = []" "ds_skipped_submessage_level s' = 0" "ds_limits s' = ends_back rs 0"
    "ds_dest s' = \<lparr>bb_data = rev (concat rs), bb_limit = ?limit\<rparr>"
    using s'(2) by (auto simp: stands_for_def frames_stand_def intro: BackwardBuffer.equality)
  show ?thesis
    using it e unfolding run_state_machine_def first option.case Let_def by (simp add: m(1) s0_def)
qed

section \<open>Parsing the chunk\<close>

lemma read_buckets:
  "data = pre @ concat bs @ rest \<Longrightarrow> length data \<le> u64_max \<Longrightarrow>
     read_bucket_data data (length pre) (map length bs) = Inr (bs, length pre + length (concat bs))"
proof (induction bs arbitrary: pre)
  case (Cons b bs)
  have "read_bucket_data data (length (pre @ b)) (map length bs) = Inr (bs, length (pre @ b) + length (concat bs))"
    using Cons.prems by (intro Cons.IH) simp_all
  then show ?case using Cons.prems by (simp add: Let_def)
qed simp

lemma length_prefixed_inner:
  assumes "compress_length_prefixed C x ct opts = Inr h"
  shows "\<exists>z. compress_with_prefix C x ct opts = Inr z \<and> length z \<le> length h"
  using assms by (cases "ct = None_Compression")
    (auto simp: compress_length_prefixed_def compress_with_prefix_def bind_res_eq_Inr Let_def)

lemma header_section_read:
  assumes C: "lossless C" and h: "compress_length_prefixed C raw ct opts = Inr h" and data: "data = [compression_byte ct] @ h @ rest"
    and small: "length raw < 2 ^ 63" "length data < 2 ^ 63"
  shows "chunk_header_section C data = Inr (ct, raw, length ([compression_byte ct] @ h))"
proof -
  obtain z where z: "compress_with_prefix C raw ct opts = Inr z" "length z \<le> length h" using length_prefixed_inner [OF h] by blast
  have "length z < 2 ^ 63" using z(2) data small(2) by simp
  from prefixed_roundtrip [OF C small(1) z(1) h this] have
    p: "decompress_with_prefix C z ct = Inr raw" "h = encode_u64 (of_nat (length z)) @ z" by simp_all
  have u: "unat (of_nat (length z) :: u64) = length z" using \<open>length z < 2 ^ 63\<close> by (intro u64_of_length) simp
  have "compression_try_from (compression_byte ct) = Inr ct" by (simp add: compression_try_from_Inr)
  moreover have "decode_u64 (drop 1 data) = Inr (of_nat (length z), length (encode_u64 (of_nat (length z))))"
    by (simp add: data p(2))
  moreover have "1 + length (encode_u64 (of_nat (length z))) + length z \<le> length data" by (simp add: data p(2))
  moreover have "take (length z) (drop (1 + length (encode_u64 (of_nat (length z)))) data) = z" by (simp add: data p(2))
  ultimately show ?thesis
    using small(2) p u unfolding chunk_header_section_def by (simp add: data)
qed

lemma chunk_parses:
  assumes C: "lossless C" and chunk: "assemble_chunk hw C e raw buckets transitions = Inr chunk"
    and small: "length (chunk_data chunk) < 2 ^ 63" "length raw < 2 ^ 63" "length transitions < 2 ^ 63"
    and raw: "reads (then_do read_sizes (\<lambda>sizes. then_do parse_state_metadata (\<lambda>sm. ret (sizes, sm)))) head
        ((map length buckets, map length bufs), sm)" "raw = head @ later"
    and bufs: "decompress_into_buffers_with_pruning C buckets (map length bufs) (te_compression e) (replicate (length bufs) True) =
      Some (Inr (map bc_new bufs))"
  shows "\<exists>ph. parse_header_and_buckets_with_projection C (chunk_data chunk) None = Some (Inr ph) \<and>
    ph_tags ph = sm_tags sm \<and> ph_next_node_indices ph = sm_next_node_indices sm \<and> ph_num_states ph = sm_num_states sm \<and>
    ph_subtypes_bytes ph = sm_subtypes_bytes sm \<and> ph_num_buffers ph = length bufs \<and> ph_buffers ph = map bc_new bufs \<and>
    cursor_left (ph_hdr ph) later \<and>
    decompress_with_prefix C (ph_transitions_compressed ph) (ph_compression_type ph) = Inr transitions"
proof -
  let ?ct = "te_compression e"
  obtain ts h where a: "compress_with_prefix C transitions ?ct (te_compress_opts e) = Inr ts"
    "compress_length_prefixed C raw ?ct (te_compress_opts e) = Inr h"
    "chunk_data chunk = [compression_byte ?ct] @ h @ concat buckets @ ts"
    using chunk by (auto simp: assemble_chunk_def bind_res_eq_Inr Let_def)
  let ?data = "chunk_data chunk" and ?pre = "[compression_byte ?ct] @ h"
  have sec: "chunk_header_section C ?data = Inr (?ct, raw, length ?pre)"
    by (rule header_section_read [OF C a(2) a(3) small(2,1)])
  have "cursor_left (bc_new raw) (head @ later)" using small(2) raw(2) by (simp add: cursor_left_def bc_new_def)
  from readsD [OF raw(1) this] obtain hdr where
    hdr: "then_do read_sizes (\<lambda>sizes. then_do parse_state_metadata (\<lambda>sm. ret (sizes, sm))) (bc_new raw) =
      (Inr ((map length buckets, map length bufs), sm), hdr)" "cursor_left hdr later" by blast
  have bk: "read_bucket_data ?data (length ?pre) (map length buckets) = Inr (buckets, length ?pre + length (concat buckets))"
    by (rule read_buckets [where rest = ts]) (use a(3) small(1) in simp_all)
  have "drop (length ?pre + length (concat buckets)) ?data = ts" using a(3) by simp
  moreover have "decompress_with_prefix C ts ?ct = Inr transitions"
    using decompress_with_prefix_compress [OF C a(1)] small(3) by simp
  ultimately show ?thesis
    using hdr(2) bufs unfolding parse_header_and_buckets_with_projection_def sec
    by (simp add: hdr(1) bk [simplified] Let_def)
qed

section \<open>The header\<close>

lemma length_concat_le: "(\<And>x. x \<in> set xs \<Longrightarrow> length (f x) \<le> k) \<Longrightarrow> length (concat (map f xs)) \<le> k * length xs"
  by (induction xs) (auto simp: add_mono)

lemma list_of_option_le: "length (list_of_option x) \<le> 1"
  by (cases x) (simp_all add: list_of_option_def)

definition header_front :: "bytes list \<Rightarrow> bytes list \<Rightarrow> StateRows list \<Rightarrow> bytes" where
  "header_front buckets bufs rows =
     (encode_index (length buckets) @ encode_index (length bufs) @
      concat (map (\<lambda>b. encode_u64 (of_nat (length b))) buckets) @ concat (map (\<lambda>n. encode_u64 (of_nat n)) (map length bufs))) @
     encode_index (length rows) @ concat (map (\<lambda>r. encode_u32 (sr_tag r)) rows) @
     concat (map (\<lambda>r. encode_index (sr_base r)) rows) @ row_subtypes rows"

lemma header_built:
  assumes sl: "states_logged states tags pos nb evs" and enc: "encoded \<noteq> []"
  shows "build_header encoded tags buckets (map length bufs) pos states =
    Some (header_front buckets bufs (rows_of states tags pos) @ row_buffers (rows_of states tags pos) @
      encode_index (position_or_0 (\<lambda>s. si_etag_index s = last encoded) states))"
proof -
  have "map_some (state_row tags pos (length states)) states = Some (rows_of states tags pos)"
    unfolding rows_of_def by (rule map_some_all, rule state_row_of) (use sl in \<open>auto simp: states_logged_def\<close>)
  then show ?thesis using enc
    by (simp add: build_header_def write_states_and_data_def header_front_def row_subtypes_def row_buffers_def rows_of_def)
qed

lemma header_front_length: "length (header_front buckets bufs rows) \<le> 15 + 10 * length buckets + 10 * length bufs + 11 * length rows"
proof -
  have e: "length (encode_index n) \<le> 5" for n by (simp add: encode_index_def length_encode_u32_bound)
  have "length (concat (map (\<lambda>b. encode_u64 (of_nat (length b))) buckets)) \<le> 10 * length buckets"
    "length (concat (map (\<lambda>n. encode_u64 (of_nat n)) (map length bufs))) \<le> 10 * length (map length bufs)"
    by (rule length_concat_le, rule length_encode_u64_bound)+
  moreover have "length (concat (map (\<lambda>r. encode_u32 (sr_tag r)) rows)) \<le> 5 * length rows"
    by (rule length_concat_le, rule length_encode_u32_bound)
  moreover have "length (concat (map (\<lambda>r. encode_index (sr_base r)) rows)) \<le> 5 * length rows" by (rule length_concat_le, rule e)
  moreover have "length (row_subtypes rows) \<le> 1 * length rows" unfolding row_subtypes_def by (rule length_concat_le, rule list_of_option_le)
  ultimately show ?thesis
    using e [of "length buckets"] e [of "length bufs"] e [of "length rows"] unfolding header_front_def length_append length_map by linarith
qed

lemma row_buffers_length: "length (row_buffers rows) \<le> 5 * length rows"
  unfolding row_buffers_def
proof (rule length_concat_le)
  fix r :: StateRows
  show "length (concat (map encode_index (list_of_option (sr_buffer r)))) \<le> 5"
    by (cases "sr_buffer r") (simp_all add: list_of_option_def encode_index_def length_encode_u32_bound)
qed

lemma rows_ok: "states_logged states tags pos nb evs \<Longrightarrow> \<forall>r \<in> set (rows_of states tags pos). row_ok r"
proof
  fix r
  assume sl: "states_logged states tags pos nb evs" and r: "r \<in> set (rows_of states tags pos)"
  then obtain s where s: "s \<in> set states" "r = row_of tags pos (length states) s" by (auto simp: rows_of_def)
  show "row_ok r"
  proof (cases "si_etag_index s = NO_POS")
    case True
    then show ?thesis using not_valid [of 0] by (simp add: s(2) row_of_def row_ok_def NO_OP_def)
  next
    case False
    then have i: "si_etag_index s < length tags" using sl s(1) unfolding states_logged_def by blast
    obtain n st c where t: "tag_at tags (si_etag_index s) = (n, st)" "event_ok (n, st, c)"
      by (rule states_logged_tag [OF sl i]) (rule that; blast)
    show ?thesis unfolding s(2) row_of_def if_not_P [OF False] t(1) by (rule tag_row_ok(1) [OF t(2)])
  qed
qed

lemma reads_front:
  assumes sl: "states_logged states tags pos nb evs" and "length buckets < 2 ^ 32" "length bufs < 2 ^ 32"
    and "\<forall>b \<in> set buckets. length b \<le> u64_max" "\<forall>b \<in> set bufs. length b \<le> u64_max"
  shows "reads (then_do read_sizes (\<lambda>sizes. then_do parse_state_metadata (\<lambda>sm. ret (sizes, sm))))
    (header_front buckets bufs (rows_of states tags pos)) ((map length buckets, map length bufs), metadata_of (rows_of states tags pos))"
proof -
  let ?rows = "rows_of states tags pos"
  have "length ?rows < 2 ^ 32" using sl by (simp add: rows_of_def states_logged_def)
  note meta = reads_metadata [OF this rows_ok [OF sl]]
  have sizes: "reads read_sizes (encode_index (length buckets) @ encode_index (length bufs) @
      concat (map (\<lambda>b. encode_u64 (of_nat (length b))) buckets) @ concat (map (\<lambda>n. encode_u64 (of_nat n)) (map length bufs)))
      (map length buckets, map length bufs)"
    using reads_sizes [of buckets "map length bufs"] assms(2-5) by simp
  show ?thesis
    unfolding header_front_def
    by (rule reads_then [OF sizes], rule reads_then_ret [OF meta]) simp
qed

text \<open>There is a state for records that are not messages just when there are such records.\<close>

lemma nonproto_rows:
  assumes sl: "states_logged states tags pos nb evs" and all: "\<forall>i < length tags. \<exists>p. placed_at states i p"
    and tags: "\<forall>ev \<in> set evs. event_tag ev \<in> tag_at tags ` {..<length tags}"
  shows "(\<exists>r \<in> set (rows_of states tags pos). sr_tag r = NON_PROTO) \<longleftrightarrow> whole_lengths evs \<noteq> []"
proof
  assume "\<exists>r \<in> set (rows_of states tags pos). sr_tag r = NON_PROTO"
  then obtain s where s: "s \<in> set states" "sr_tag (row_of tags pos (length states) s) = NON_PROTO" by (auto simp: rows_of_def)
  then have n: "si_etag_index s \<noteq> NO_POS" by (auto simp: row_of_def message_id_defs)
  then have i: "si_etag_index s < length tags" using sl s(1) unfolding states_logged_def by blast
  obtain n st c where t: "tag_at tags (si_etag_index s) = (n, st)" "(n, st, c) \<in> set evs" "event_ok (n, st, c)"
    by (rule states_logged_tag [OF sl i]) (rule that; blast)
  then have "node_id_tag n = 0 \<and> parent_message_id n = NON_PROTO" using s(2) n tag_row_ok(2) [OF t(3)] by (simp add: row_of_def)
  then show "whole_lengths evs \<noteq> []" using t(2) by (auto simp: whole_lengths_def filter_empty_conv)
next
  assume "whole_lengths evs \<noteq> []"
  then obtain n st c where ev: "(n, st, c) \<in> set evs" "node_id_tag n = 0" "parent_message_id n = NON_PROTO"
    by (auto simp: whole_lengths_def filter_empty_conv)
  then have "event_ok (n, st, c)" using sl by (simp add: states_logged_def)
  note row = tag_row_ok(2) [OF this]
  obtain i where i: "i < length tags" "tag_at tags i = (n, st)" using tags ev(1) by fastforce
  obtain p where p: "placed_at states i p" using all i(1) by blast
  have "i \<noteq> NO_POS" using i(1) sl by (auto simp: states_logged_def)
  then have "sr_tag (row_of tags pos (length states) (states ! p)) = NON_PROTO" "states ! p \<in> set states"
    using p i(2) row ev(2,3) by (auto simp: placed_at_def row_of_def)
  then show "\<exists>r \<in> set (rows_of states tags pos). sr_tag r = NON_PROTO" by (auto simp: rows_of_def)
qed

section \<open>An encoder that is ready\<close>

lemma machine_logged:
  assumes ok: "EncoderBases.machine_ok (length tags0) cnt first states tags1" and e: "ends_explicit cnt tags1 tags last_tag"
    and ids: "\<forall>i < length tags0. et_node_id (tags ! i) = et_node_id (tags0 ! i) \<and> et_subtype (tags ! i) = et_subtype (tags0 ! i)"
    and enc: "{..<length tags0} \<subseteq> set encoded" "map (tag_at tags0) encoded = map event_tag evs"
    and ev: "\<forall>ev \<in> set evs. event_ok ev" and g: "gathered evs c" and small: "2 * length states < 2 ^ 32" "length tags0 < NO_POS"
      "length (co_buffers c) \<le> 2 ^ 32"
  shows "states_logged states tags (co_pos c) (length (co_buffers c)) evs \<and> length tags = length tags0 \<and>
    (\<forall>i < length tags0. tag_at tags i = tag_at tags0 i)"
proof -
  have len1: "length tags1 = length tags0" using ok by (simp add: EncoderBases.machine_ok_def dests_counted_def)
  have len: "length tags = length tags0" using e len1 by (simp add: ends_explicit_def)
  have at: "tag_at tags i = tag_at tags0 i" if "i < length tags0" for i using ids that by (simp add: tag_at_def)
  have base: "base_of tags i = NO_POS \<or> base_of tags i < length states" if "i < length tags0" for i
    using ok e that len1 by (auto simp: EncoderBases.machine_ok_def ends_explicit_def)
  have found: "tag_at tags i \<in> event_tag ` set evs" if i: "i < length tags0" for i
  proof -
    have "tag_at tags0 i \<in> set (map (tag_at tags0) encoded)" using enc(1) i by auto
    then show ?thesis unfolding enc(2) at [OF i] by auto
  qed
  have stt: "si_etag_index s < length tags \<or> si_etag_index s = NO_POS \<and> si_base s < length states" if "s \<in> set states" for s
    using ok that len by (auto simp: EncoderBases.machine_ok_def in_set_conv_nth)
  have buf: "buffer_of (co_pos c) (fst x) < length (co_buffers c)" if x: "x \<in> set evs" "tag_buffer (event_tag x) \<noteq> None" for x
  proof -
    obtain key where key: "tag_buffer (event_tag x) = Some key" using x(2) by blast
    then have "snd key = fst x" using tag_buffer_type [of "fst x" "fst (snd x)" "fst key" "snd key"] by simp
    moreover have "key \<in> keys_of evs" using x(1) key by (auto simp: keys_of_def chunks_for_def filter_empty_conv)
    ultimately show ?thesis using gathered_place(1) [OF g] by metis
  qed
  show ?thesis using small ev base found stt buf at len by (simp add: states_logged_def)
qed

text \<open>What there is when the chunk is put together: the buffers, the machine and the transitions.\<close>

definition ready ::
  "TransposeChunkEncoder \<Rightarrow> bytes list \<Rightarrow> event list \<Rightarrow> Collected \<Rightarrow> StateInfo list \<Rightarrow> EncodedTagInfo list \<Rightarrow> EncodedTagInfo list \<Rightarrow>
   bytes \<Rightarrow> bool" where
  "ready e rs evs c states tags1 tags bytes \<longleftrightarrow>
     collect_and_sort_buffers e = Some c \<and> gathered evs c \<and>
     create_state_machine (te_encoded_tags e) (te_tags_list e) = Some (states, tags1) \<and>
     ensure_last_state_explicit (te_encoded_tags e) tags1 = Some tags \<and>
     build_transitions (te_encoded_tags e) tags states = Some bytes \<and>
     EncoderBases.machine_ok (length tags) (count_pairs (rev (te_encoded_tags e))) (last (te_encoded_tags e)) states tags1 \<and>
     ends_explicit (count_pairs (rev (te_encoded_tags e))) tags1 tags (hd (te_encoded_tags e)) \<and>
     leads_through (te_encoded_tags e) states tags bytes \<and>
     states_logged states tags (co_pos c) (length (co_buffers c)) evs \<and>
     map (tag_at tags) (te_encoded_tags e) = map event_tag evs \<and> te_encoded_tags e \<noteq> [] \<and>
     set (te_encoded_tags e) = {..<length tags} \<and>
     play_back evs ([], [], []) = Some (concat rs, [], ends_back rs 0) \<and>
     length (co_buffers c) < 2 ^ 31 \<and> length (concat (co_buffers c)) < 2 ^ 34 \<and> length bytes < 2 ^ 63"

lemma holds_ready:
  assumes h: "holds_records e rs" and rs: "rs \<noteq> []" and small: "length rs + 2 * length (concat rs) < 2 ^ 29"
  shows "\<exists>evs c states tags1 tags bytes. ready e rs evs c states tags1 tags bytes"
proof -
  let ?enc = "te_encoded_tags e" and ?tags0 = "te_tags_list e"
  obtain evs where evs: "logged e evs" "{..<length ?tags0} \<subseteq> set ?enc" "length ?tags0 \<le> length evs"
    "length evs \<le> length rs + 2 * length (concat rs)" and
    all: "\<forall>out limits. play_back evs (out, [], limits) = Some (concat rs @ out, [], limits @ ends_back rs (length out))"
    using h unfolding holds_records_def by blast
  have pb: "play_back evs ([], [], []) = Some (concat rs, [], ends_back rs 0)" using spec [OF spec [OF all], of "[]" "[]"] by simp
  have t: "\<forall>t \<in> set ?tags0. fresh_tag t" "\<forall>i \<in> set ?enc. i < length ?tags0" "map (tag_at ?tags0) ?enc = map event_tag evs"
    "\<forall>ev \<in> set evs. event_ok ev"
    using evs(1) by (simp_all add: logged_def tags_logged_def fresh_tag_def)
  have "ends_back rs 0 \<noteq> []" using rs ends_back_length [of rs 0] by (cases rs) auto
  then have "evs \<noteq> []" using pb by auto
  then have enc: "?enc \<noteq> []" using t(3) by auto
  have n: "length evs < 2 ^ 29" "length ?enc = length evs" using evs(4) small map_eq_imp_length_eq [OF t(3)] by simp_all
  have bound: "2 * length ?enc + 3 * length ?tags0 < NO_POS" using n evs(3) by (simp add: NO_POS_def)
  obtain states tags1 tags bytes where m: "create_state_machine ?enc ?tags0 = Some (states, tags1)"
    "ensure_last_state_explicit ?enc tags1 = Some tags" "build_transitions ?enc tags states = Some bytes"
    "EncoderBases.machine_ok (length ?tags0) (count_pairs (rev ?enc)) (last ?enc) states tags1"
    "ends_explicit (count_pairs (rev ?enc)) tags1 tags (hd ?enc)" "leads_through ?enc states tags bytes"
    "\<forall>i < length ?tags0. et_node_id (tags ! i) = et_node_id (?tags0 ! i) \<and> et_subtype (tags ! i) = et_subtype (?tags0 ! i)"
    "length states \<le> 2 * length ?enc + 2 * length ?tags0"
    using machine_leads [OF enc t(2,1) bound] by blast
  obtain c where c: "collect_and_sort_buffers e = Some c" "gathered evs c" using buffers_gathered [OF evs(1)] by blast
  have cs: "length (co_buffers c) \<le> length evs + 1" "length (concat (co_buffers c)) \<le> data_size evs + 10 * length evs"
    using c(2) unfolding gathered_def by blast+
  have ds: "data_size evs \<le> length (concat rs)" using play_back_data [OF t(4) pb] by simp
  have sizes: "length (co_buffers c) < 2 ^ 31" "length (concat (co_buffers c)) < 2 ^ 34" "2 * length states < 2 ^ 32"
    using cs ds n small m(8) evs(3) by simp_all
  have "length bytes \<le> 2 * length states * length ?enc" using m(6) by (simp add: leads_through_def)
  also have "\<dots> \<le> 2 ^ 32 * 2 ^ 29" using sizes(3) n by (intro mult_le_mono) simp_all
  finally have lb: "length bytes < 2 ^ 63" by simp
  have sl: "states_logged states tags (co_pos c) (length (co_buffers c)) evs \<and> length tags = length ?tags0 \<and>
      (\<forall>i < length ?tags0. tag_at tags i = tag_at ?tags0 i)"
    by (rule machine_logged [OF m(4,5,7) evs(2) t(3,4) c(2) sizes(3)]) (use bound sizes(1) in simp_all)
  then have "map (tag_at tags) ?enc = map event_tag evs" unfolding t(3) [symmetric] using t(2) by simp
  moreover have "set ?enc = {..<length tags}" using sl evs(2) t(2) by auto
  ultimately have "ready e rs evs c states tags1 tags bytes"
    unfolding ready_def using c m sl enc pb sizes(1,2) lb by simp
  then show ?thesis by blast
qed

section \<open>The chunk and its decoder\<close>

definition whole_header ::
  "nat list \<Rightarrow> Collected \<Rightarrow> StateInfo list \<Rightarrow> EncodedTagInfo list \<Rightarrow> bytes list \<Rightarrow> bytes" where
  "whole_header encoded c states tags buckets =
     header_front buckets (co_buffers c) (rows_of states tags (co_pos c)) @ row_buffers (rows_of states tags (co_pos c)) @
       encode_index (position_or_0 (\<lambda>s. si_etag_index s = last encoded) states)"

lemma ready_encodes:
  assumes r: "ready e rs evs c states tags1 tags bytes"
  shows "te_encode hw C e = Some (bind_res (create_compressed_buckets C e (co_groups c)) (\<lambda>buckets.
    assemble_chunk hw C e (whole_header (te_encoded_tags e) c states tags buckets) buckets bytes))"
proof -
  have sl: "states_logged states tags (co_pos c) (length (co_buffers c)) evs" and enc: "te_encoded_tags e \<noteq> []"
    using r by (simp_all add: ready_def)
  have steps: "collect_and_sort_buffers e = Some c" "create_state_machine (te_encoded_tags e) (te_tags_list e) = Some (states, tags1)"
    "ensure_last_state_explicit (te_encoded_tags e) tags1 = Some tags" "build_transitions (te_encoded_tags e) tags states = Some bytes"
    using r by (simp_all add: ready_def)
  show ?thesis
    by (cases "create_compressed_buckets C e (co_groups c)")
      (simp_all add: te_encode_def steps header_built [OF sl enc] whole_header_def)
qed

lemma whole_header_length:
  assumes "length states < 2 ^ 32" "length buckets \<le> length (co_buffers c)" "length (co_buffers c) < 2 ^ 31"
  shows "length (whole_header encoded c states tags buckets) < 2 ^ 63"
proof -
  have i: "length (encode_index n) \<le> 5" for n by (simp add: encode_index_def length_encode_u32_bound)
  have rows: "length (rows_of states tags (co_pos c)) = length states" by (simp add: rows_of_def)
  show ?thesis
    using header_front_length [of buckets "co_buffers c" "rows_of states tags (co_pos c)"] row_buffers_length [of "rows_of states tags (co_pos c)"]
      i [of "position_or_0 (\<lambda>s. si_etag_index s = last encoded) states"] assms
    unfolding whole_header_def length_append rows by simp
qed

lemma leads_placed:
  assumes lt: "leads_through encoded states tags bytes" and na: "nodes_agree nodes states tags" and i: "i \<in> set encoded"
  shows "\<exists>p. placed_at states i p"
proof -
  obtain p path where w: "tags_along states (p # path) = rev encoded" "set (p # path) \<subseteq> {..<length states}"
    using lt na unfolding leads_through_def by blast
  have "i \<in> set (tags_along states (p # path))" unfolding w(1) using i by simp
  then obtain q where q: "q \<in> set (p # path)" "si_etag_index (states ! q) = i" by (auto simp: tags_along_def simp del: filter.simps list.simps(9))
  then have "q < length states" using w(2) by blast
  then show ?thesis using q(2) by (auto simp: placed_at_def)
qed

text \<open>The decoder parses the chunk and builds the machine for it.\<close>

lemma ready_parses:
  assumes r: "ready e rs evs c states tags1 tags bytes" and C: "lossless C"
    and z: "create_compressed_buckets C e (co_groups c) = Inr buckets"
    and chunk: "assemble_chunk hw C e (whole_header (te_encoded_tags e) c states tags buckets) buckets bytes = Inr chunk"
    and small: "length (chunk_data chunk) < 2 ^ 63"
  shows "\<exists>ph. parse_header_and_buckets_with_projection C (chunk_data chunk) None = Some (Inr ph) \<and>
    header_for (rows_of states tags (co_pos c)) (length (co_buffers c)) ph \<and> ph_buffers ph = map bc_new (co_buffers c) \<and>
    cursor_left (ph_hdr ph) (row_buffers (rows_of states tags (co_pos c)) @
      encode_index (position_or_0 (\<lambda>s. si_etag_index s = last (te_encoded_tags e)) states)) \<and>
    decompress_with_prefix C (ph_transitions_compressed ph) (ph_compression_type ph) = Inr bytes"
proof -
  let ?rows = "rows_of states tags (co_pos c)" and ?bufs = "co_buffers c" and ?raw = "whole_header (te_encoded_tags e) c states tags buckets"
  have sl: "states_logged states tags (co_pos c) (length ?bufs) evs" and g: "gathered evs c"
    and sizes: "length ?bufs < 2 ^ 31" "length (concat ?bufs) < 2 ^ 34" "length bytes < 2 ^ 63"
    using r unfolding ready_def by blast+
  have groups: "concat (co_groups c) = ?bufs" and ne: "[] \<notin> set ?bufs" using g by (auto simp: gathered_def groups_ok_def)
  have "bytes_in (concat (co_groups c)) < u64_max" using sizes(2) by (simp add: groups)
  from compressed_buckets_buffers [OF C _ this z] have
    dec: "decompress_into_buffers_with_pruning C buckets (map length ?bufs) (te_compression e) (replicate (length ?bufs) True) =
      Some (Inr (map bc_new ?bufs))" and nb: "length buckets \<le> length ?bufs"
    using ne unfolding groups by blast+
  obtain ts h where a: "chunk_data chunk = [compression_byte (te_compression e)] @ h @ concat buckets @ ts"
    using chunk by (auto simp: assemble_chunk_def bind_res_eq_Inr Let_def)
  have bb: "\<forall>b \<in> set buckets. length b \<le> u64_max"
  proof
    fix b assume "b \<in> set buckets"
    then have "length b \<le> length (chunk_data chunk)" using part_of_concat [of b buckets] a by simp
    then show "length b \<le> u64_max" using small by simp
  qed
  have fb: "\<forall>b \<in> set ?bufs. length b \<le> u64_max"
    using part_of_concat [of _ ?bufs] sizes(2) by fastforce
  have "length states < 2 ^ 32" using sl by (simp add: states_logged_def)
  note raw = whole_header_length [OF this nb sizes(1), of "te_encoded_tags e" tags]
  have "length buckets < 2 ^ 32" "length ?bufs < 2 ^ 32" using nb sizes(1) by simp_all
  note front = reads_front [OF sl this bb fb]
  from chunk_parses [OF C chunk small raw sizes(3) front whole_header_def dec] show ?thesis
    by (auto simp: metadata_of_def header_for_def)
qed

text \<open>The machine runs back through everything the encoder has written.\<close>

lemma ready_runs:
  assumes r: "ready e rs evs c states tags1 tags bytes" and rs: "rs \<noteq> []"
    and num: "length rs < 2 ^ 64" "length (concat rs) < 2 ^ 64"
    and ph: "header_for (rows_of states tags (co_pos c)) (length (co_buffers c)) ph"
    and hdr: "cursor_left (ph_hdr ph) (row_buffers (rows_of states tags (co_pos c)) @
      encode_index (position_or_0 (\<lambda>s. si_etag_index s = last (te_encoded_tags e)) states))"
  shows "\<exists>m li. build_state_machine_nodes ph False = Some (Inr m) \<and>
    (if sm_has_nonproto_op m
     then if ph_num_buffers ph = 0 then Inl (MalformedData ''nonproto op but no buffers'') else Inr (Some (ph_num_buffers ph - 1))
     else Inr None) = Inr li \<and>
    run_state_machine (of_nat (length rs)) (of_nat (length (concat rs))) m (map bc_new (co_buffers c)) (bc_new bytes) li None =
      Some (Inr (\<lparr>bb_data = rev (concat rs), bb_limit = length (concat rs)\<rparr>, ends_back rs 0))"
proof -
  let ?enc = "te_encoded_tags e" and ?rows = "rows_of states tags (co_pos c)" and ?k = "length tags"
  have g: "gathered evs c" and sl: "states_logged states tags (co_pos c) (length (co_buffers c)) evs"
    and lt: "leads_through ?enc states tags bytes" and tags: "map (tag_at tags) ?enc = map event_tag evs"
    and play: "play_back evs ([], [], []) = Some (concat rs, [], ends_back rs 0)"
    and fits: "length (concat (co_buffers c)) < 2 ^ 34"
    and ok: "EncoderBases.machine_ok ?k (count_pairs (rev ?enc)) (last ?enc) states tags1"
    and ex: "ends_explicit (count_pairs (rev ?enc)) tags1 tags (hd ?enc)"
    and enc: "?enc \<noteq> []" "set ?enc = {..<?k}"
    using r unfolding ready_def by blast+
  obtain m nodes where m: "build_state_machine_nodes ph False = Some (Inr m)" "sm_nodes m = nodes @ replicate 255 failure_node"
    "list_all2 (fits_state states tags (co_pos c)) states nodes" "placed_at states (last ?enc) (sm_first_node m)"
    "sm_has_nonproto_op m \<longleftrightarrow> (\<exists>r \<in> set ?rows. sr_tag r = NON_PROTO)"
    using machine_read [OF ok ex enc(1) _ _ sl ph hdr] enc(2) by auto
  have all: "\<forall>i < ?k. \<exists>p. placed_at states i p"
    using leads_placed [OF lt fits_agree [OF m(3), of "[]"]] enc(2) by blast
  have "\<forall>ev \<in> set evs. event_tag ev \<in> tag_at tags ` {..<?k}"
    using arg_cong [OF tags, of set] enc(2) by auto
  from nonproto_rows [OF sl all this] have np: "sm_has_nonproto_op m \<longleftrightarrow> whole_lengths evs \<noteq> []" using m(5) by simp
  have nb: "ph_num_buffers ph = length (co_buffers c)" using ph by (simp add: header_for_def)
  have some: "whole_lengths evs \<noteq> [] \<Longrightarrow> co_buffers c \<noteq> []" using g by (simp add: gathered_def)
  define li where "li = (if whole_lengths evs \<noteq> [] then Some (length (co_buffers c) - 1) else None)"
  have "run_state_machine (of_nat (length rs)) (of_nat (length (concat rs))) m (map bc_new (co_buffers c)) (bc_new bytes) li None =
      Some (Inr (\<lparr>bb_data = rev (concat rs), bb_limit = length (concat rs)\<rparr>, ends_back rs 0))"
    by (rule machine_runs [OF rs num g _ _ _ play tags lt m(2-4)])
      (use fits sl in \<open>simp_all add: li_def states_logged_def\<close>)
  then show ?thesis using m(1) np nb some by (intro exI [of _ m] exI [of _ li]) (simp add: li_def)
qed

lemma chunk_of_parts:
  "assemble_chunk hw C e raw buckets transitions = Inr chunk \<Longrightarrow>
     ch_num_records (chunk_header chunk) = take_bit 56 (te_num_records e) \<and>
     ch_decoded_data_size (chunk_header chunk) = te_decoded_data_size e"
  by (auto simp: assemble_chunk_def bind_res_eq_Inr Let_def)

lemma ready_decodes:
  assumes r: "ready e rs evs c states tags1 tags bytes" and rs: "rs \<noteq> []" and C: "lossless C"
    and n: "te_num_records e = of_nat (length rs)" "te_decoded_data_size e = of_nat (length (concat rs))"
    and small: "length rs < 2 ^ 56" "length (concat rs) < 2 ^ 64"
    and chunk: "te_encode hw C e = Some (Inr chunk)" "length (chunk_data chunk) < 2 ^ 63"
  shows "tc_new C chunk = Some (Inr \<lparr>tc_data = concat rs, tc_limits = ends_from rs 0, tc_next_yield = 0\<rparr>)"
proof -
  obtain buckets where z: "create_compressed_buckets C e (co_groups c) = Inr buckets"
    "assemble_chunk hw C e (whole_header (te_encoded_tags e) c states tags buckets) buckets bytes = Inr chunk"
    using chunk(1) unfolding ready_encodes [OF r] by (auto simp: bind_res_eq_Inr)
  obtain ph where ph: "parse_header_and_buckets_with_projection C (chunk_data chunk) None = Some (Inr ph)"
    "header_for (rows_of states tags (co_pos c)) (length (co_buffers c)) ph" "ph_buffers ph = map bc_new (co_buffers c)"
    "cursor_left (ph_hdr ph) (row_buffers (rows_of states tags (co_pos c)) @
      encode_index (position_or_0 (\<lambda>s. si_etag_index s = last (te_encoded_tags e)) states))"
    "decompress_with_prefix C (ph_transitions_compressed ph) (ph_compression_type ph) = Inr bytes"
    using ready_parses [OF r C z chunk(2)] by blast
  have "length rs < 2 ^ 64" using small(1) by simp
  from ready_runs [OF r rs this small(2) ph(2,4)] obtain m li where
    m: "build_state_machine_nodes ph False = Some (Inr m)"
    "(if sm_has_nonproto_op m
      then if ph_num_buffers ph = 0 then Inl (MalformedData ''nonproto op but no buffers'') else Inr (Some (ph_num_buffers ph - 1))
      else Inr None) = Inr li"
    "run_state_machine (of_nat (length rs)) (of_nat (length (concat rs))) m (map bc_new (co_buffers c)) (bc_new bytes) li None =
      Some (Inr (\<lparr>bb_data = rev (concat rs), bb_limit = length (concat rs)\<rparr>, ends_back rs 0))" by blast
  have "take_bit 56 (of_nat (length rs) :: u64) = of_nat (length rs)"
    using small(1) by (simp add: take_bit_of_nat take_bit_nat_eq_self)
  then have h: "ch_num_records (chunk_header chunk) = of_nat (length rs)" "ch_decoded_data_size (chunk_header chunk) = of_nat (length (concat rs))"
    using chunk_of_parts [OF z(2)] n by simp_all
  have "decode_all_records (of_nat (length rs)) (of_nat (length (concat rs))) m (map bc_new (co_buffers c)) (bc_new bytes) li None =
      Some (Inr (concat rs, ends_from rs 0))"
    unfolding decode_all_records_def m(3) using finalize_ends [OF rs, of "\<lparr>bb_data = rev (concat rs), bb_limit = length (concat rs)\<rparr>"]
    by (simp add: bb_pos_def)
  then show ?thesis
    unfolding tc_new_def tc_new_with_projection_def Let_def option.case h ph(1)
    by (simp add: m(1) m(2) ph(3,5))
qed

section \<open>Through a transposed chunk and back\<close>

lemma records_held:
  assumes "holds_records e rs" "\<forall>r \<in> set more_rs. length r < 2 ^ 32"
  shows "\<exists>e'. try_each te_add_record more_rs e = Some (Inr (replicate (length more_rs) ()), e') \<and>
    holds_records e' (rs @ more_rs) \<and> te_compression e' = te_compression e \<and> te_compress_opts e' = te_compress_opts e"
  using assms
proof (induction more_rs arbitrary: e rs)
  case (Cons r more_rs)
  obtain e1 where e1: "te_add_record r e = Some (Inr (), e1)" "holds_records e1 (rs @ [r])"
    "te_compression e1 = te_compression e" "te_compress_opts e1 = te_compress_opts e"
    using add_record_holds [OF Cons.prems(1)] Cons.prems(2) by auto
  obtain e' where "try_each te_add_record more_rs e1 = Some (Inr (replicate (length more_rs) ()), e')" "holds_records e' ((rs @ [r]) @ more_rs)"
    "te_compression e' = te_compression e1" "te_compress_opts e' = te_compress_opts e1"
    using Cons.IH [OF e1(2)] Cons.prems(2) by auto
  then show ?case using e1(1,3,4) by (simp add: try_then_def surely_def ret_def)
qed simp

lemma held_sizes: "holds_records e rs \<Longrightarrow> te_num_records e = of_nat (length rs) \<and> te_decoded_data_size e = of_nat (length (concat rs))"
  unfolding holds_records_def by blast

text \<open>Putting the chunk together fails only where the compression fails.\<close>

lemma ready_succeeds:
  assumes r: "ready e rs evs c states tags1 tags bytes"
    and ok: "\<forall>x. \<exists>z. compress_data C x (te_compression e) (te_compress_opts e) = Inr z"
  shows "\<exists>chunk. te_encode hw C e = Some (Inr chunk)"
proof -
  have "gathered evs c" using r by (simp add: ready_def)
  then have "[] \<notin> set (concat (co_groups c))" by (auto simp: gathered_def groups_ok_def)
  then obtain parts where p: "create_compressed_buckets C e (co_groups c) =
      each_res (\<lambda>b. compress_with_prefix C b (te_compression e) (te_compress_opts e)) parts"
    using group_parts unfolding create_compressed_buckets_def by metis
  have one: "(\<exists>z. compress_with_prefix C b (te_compression e) (te_compress_opts e) = Inr z) \<and>
      (\<exists>z. compress_length_prefixed C b (te_compression e) (te_compress_opts e) = Inr z)" for b
  proof -
    obtain z where "compress_data C b (te_compression e) (te_compress_opts e) = Inr z" using ok by blast
    then show ?thesis by (simp add: compress_with_prefix_def compress_length_prefixed_def Let_def)
  qed
  have "\<exists>zs. each_res (\<lambda>b. compress_with_prefix C b (te_compression e) (te_compress_opts e)) bs = Inr zs" for bs
  proof (induction bs)
    case (Cons b bs)
    obtain z where "compress_with_prefix C b (te_compression e) (te_compress_opts e) = Inr z" using one by blast
    then show ?case using Cons by auto
  qed simp
  then obtain buckets where b: "create_compressed_buckets C e (co_groups c) = Inr buckets" unfolding p by blast
  let ?raw = "whole_header (te_encoded_tags e) c states tags buckets"
  obtain z h where "compress_with_prefix C bytes (te_compression e) (te_compress_opts e) = Inr z"
    "compress_length_prefixed C ?raw (te_compression e) (te_compress_opts e) = Inr h" using one by blast
  then show ?thesis unfolding ready_encodes [OF r] b by (simp add: assemble_chunk_def Let_def)
qed

text \<open>C9. What goes into a transposed chunk comes out of it, whether the records are messages or not:
  the encoder takes every record, encoding it returns, with an error only when the compression fails, and the
  decoder accepts the chunk and reads exactly these records, in their order.\<close>

theorem transposed_roundtrip:
  assumes C: "lossless C" and rs: "rs \<noteq> []" and small: "length rs + 2 * length (concat rs) < 2 ^ 29"
  shows "\<exists>e r. try_each te_add_record rs (te_with_bucket_size n (te_with_compress_opts opts (te_new ct))) =
      Some (Inr (replicate (length rs) ()), e) \<and>
    te_encode hw C e = Some r \<and>
    ((\<forall>x. \<exists>z. compress_data C x ct opts = Inr z) \<longrightarrow> (\<exists>chunk. r = Inr chunk)) \<and>
    (\<forall>chunk. r = Inr chunk \<longrightarrow> length (chunk_data chunk) < 2 ^ 63 \<longrightarrow>
       (\<exists>d. tc_new C chunk = Some (Inr d) \<and> (\<forall>k. drain tc_read_record k d = Some (take k rs))))"
proof -
  have "\<forall>r \<in> set rs. length r < 2 ^ 32" using part_of_concat [of _ rs] small by fastforce
  from records_held [OF new_holds this, of n opts ct] obtain e where
    e: "try_each te_add_record rs (te_with_bucket_size n (te_with_compress_opts opts (te_new ct))) =
      Some (Inr (replicate (length rs) ()), e)" "holds_records e rs" "te_compression e = ct" "te_compress_opts e = opts"
    by (auto simp: te_with_bucket_size_def te_with_compress_opts_def te_new_def)
  obtain evs c states tags1 tags bytes where r: "ready e rs evs c states tags1 tags bytes" using holds_ready [OF e(2) rs small] by blast
  note n = held_sizes [OF e(2)]
  have b: "length rs < 2 ^ 56" "length (concat rs) < 2 ^ 64" using small by simp_all
  let ?d = "\<lparr>tc_data = concat rs, tc_limits = ends_from rs 0, tc_next_yield = 0\<rparr>"
  have read: "drain tc_read_record k ?d = Some (take k rs)" for k
    using transposed_source.drain_take [OF decoder_of_ends [of rs], of k] by (simp add: remaining_ends)
  have "tc_new C chunk = Some (Inr ?d)" if "te_encode hw C e = Some (Inr chunk)" "length (chunk_data chunk) < 2 ^ 63" for chunk
    by (rule ready_decodes [OF r rs C _ _ b that]) (simp_all add: n)
  moreover have "\<exists>chunk. te_encode hw C e = Some (Inr chunk)" if "\<forall>x. \<exists>z. compress_data C x ct opts = Inr z"
    using ready_succeeds [OF r] that e(3,4) by simp
  ultimately show ?thesis using e(1) read ready_encodes [OF r, of hw C] by (intro exI [of _ e]) auto
qed

lemma sample_encoded:
  "(case try_each te_add_record [[8, 5], [1]] (te_with_bucket_size 0 (te_with_compress_opts default_compress_options (te_new None_Compression))) of
      Some (Inr _, e) \<Rightarrow> (case te_encode (\<lambda>k d. 0) store_codec e of Some (Inr chunk) \<Rightarrow> length (chunk_data chunk) < 100 | _ \<Rightarrow> False)
    | _ \<Rightarrow> False)"
  by code_simp

theorem transposed_roundtrip_witness:
  "\<exists>e chunk d. try_each te_add_record [[8, 5], [1]] (te_with_bucket_size 0 (te_with_compress_opts default_compress_options (te_new None_Compression))) =
      Some (Inr [(), ()], e) \<and>
    te_encode (\<lambda>k d. 0) store_codec e = Some (Inr chunk) \<and> tc_new store_codec chunk = Some (Inr d) \<and>
    drain tc_read_record 9 d = Some [[8, 5], [1]]"
proof -
  obtain e r where e: "try_each te_add_record [[8, 5], [1]] (te_with_bucket_size 0 (te_with_compress_opts default_compress_options (te_new None_Compression))) =
      Some (Inr [(), ()], e)" "te_encode (\<lambda>k d. 0) store_codec e = Some r" "\<exists>chunk. r = Inr chunk"
    "\<forall>chunk. r = Inr chunk \<longrightarrow> length (chunk_data chunk) < 2 ^ 63 \<longrightarrow>
       (\<exists>d. tc_new store_codec chunk = Some (Inr d) \<and> (\<forall>k. drain tc_read_record k d = Some (take k [[8, 5], [1]])))"
    using transposed_roundtrip [OF lossless_store_codec(1), of "[[8, 5], [1]]" 0 default_compress_options None_Compression "\<lambda>k d. 0"]
    by (auto simp: compress_data_def simp del: try_each.simps)
  then obtain chunk where chunk: "r = Inr chunk" by blast
  have "length (chunk_data chunk) < 100" using sample_encoded unfolding e(1) option.case prod.case sum.case e(2) chunk .
  then obtain d where "tc_new store_codec chunk = Some (Inr d)" "drain tc_read_record 9 d = Some (take 9 [[8, 5], [1]])"
    using e(4) chunk by fastforce
  then show ?thesis using e(1,2) chunk by (intro exI [of _ e] exI [of _ chunk] exI [of _ d]) (simp del: try_each.simps)
qed

end
