(* ===== verification/TransposedFiles.thy ===== *)
theory TransposedFiles
  imports EncoderRoundtrip ProtoStream ReaderSeek
begin

text \<open>
  Files with transposed chunks: the modelled encoder and decoder of transposed chunks as the ones of the
  writer and the reader, that they keep the promises of \<open>transposed_format\<close>, and what follows for
  whole sessions in both modes of the writer.
\<close>

section \<open>The encoder and the decoder\<close>

text \<open>
  The interfaces of writer and reader have no panics; here a panic is an error of its own.  The decoder
  has none at all, and the encoder none for records within the bounds below.
\<close>

definition panicked :: riegeli_error where
  "panicked = MalformedData ''panic''"

definition transposed_encoder :: "hasher \<Rightarrow> codec \<Rightarrow> TransposeChunkEncoder transposer" where
  "transposed_encoder hw C =
     \<lparr>tr_new = te_new, tr_compress_opts = te_with_compress_opts, tr_bucket_size = te_with_bucket_size,
      tr_add_record = (\<lambda>data t. case te_add_record data t of None \<Rightarrow> (Inl panicked, t) | Some rt \<Rightarrow> rt),
      tr_encode = (\<lambda>t. case te_encode hw C t of None \<Rightarrow> Inl panicked | Some r \<Rightarrow> r)\<rparr>"

definition transposed_decoder :: "codec \<Rightarrow> TransposeChunkDecoder transposed" where
  "transposed_decoder C =
     \<lparr>td_new = (\<lambda>c pj. case tc_new_with_projection C c pj of None \<Rightarrow> Inl panicked | Some r \<Rightarrow> r),
      td_read_record = (\<lambda>d. case tc_read_record d of None \<Rightarrow> (Inl panicked, d) | Some rd \<Rightarrow> rd)\<rparr>"

text \<open>Up to so many accounted bytes per chunk, both are known to work.\<close>

abbreviation transposed_limit :: nat where
  "transposed_limit \<equiv> 2 ^ 28"

lemma fill_tries:
  "try_each te_add_record rs t = Some (Inr us, t') \<Longrightarrow>
   fill_encoder (transposed_encoder hw C) (Transpose_Encoder t) rs = Some (Transpose_Encoder t')"
  by (induction rs arbitrary: t us)
    (auto simp: try_then_def surely_def ret_def transposed_encoder_def split: option.splits sum.splits)

lemma accounted_sum: "accounted rs = length (concat rs) + 8 * length rs"
  by (induction rs) simp_all

lemma transposed_filled:
  assumes "accounted rs < transposed_limit"
  shows "\<exists>t. fill_encoder (transposed_encoder hw C) (make_encoder (transposed_encoder hw C) True ct opts bucket) rs =
      Some (Transpose_Encoder t) \<and> holds_records t rs \<and> te_compression t = ct \<and> te_compress_opts t = opts"
proof -
  have "\<forall>r \<in> set rs. length r < 2 ^ 32"
    using assms part_of_concat [of _ rs] by (fastforce simp: accounted_sum)
  from records_held [OF new_holds this, of bucket opts ct] obtain t where
    t: "try_each te_add_record rs (te_with_bucket_size bucket (te_with_compress_opts opts (te_new ct))) =
      Some (Inr (replicate (length rs) ()), t)" "holds_records t rs" "te_compression t = ct" "te_compress_opts t = opts"
    by (auto simp: te_with_bucket_size_def te_with_compress_opts_def te_new_def)
  from fill_tries [OF t(1)] t(2-4) show ?thesis by (auto simp: make_encoder_def transposed_encoder_def)
qed

lemma transposed_ready:
  assumes "holds_records t rs" "rs \<noteq> []" "accounted rs < transposed_limit"
  shows "\<exists>evs c states tags1 tags bytes. ready t rs evs c states tags1 tags bytes"
  using assms by (intro holds_ready) (simp_all add: accounted_sum)

lemma te_encode_frames:
  assumes "te_encode hw C t = Some (Inr c)"
  shows "ch_data_size (chunk_header c) = of_nat (length (chunk_data c))"
proof -
  obtain x states tags0 tags where x: "collect_and_sort_buffers t = Some x"
    "create_state_machine (te_encoded_tags t) (te_tags_list t) = Some (states, tags0)"
    "ensure_last_state_explicit (te_encoded_tags t) tags0 = Some tags"
    using assms by (auto simp: te_encode_def bind_eq_Some_conv)
  have "\<exists>raw buckets transitions. assemble_chunk hw C t raw buckets transitions = Inr c"
    using assms by (cases "create_compressed_buckets C t (co_groups x)") (auto simp: te_encode_def bind_eq_Some_conv x)
  then show ?thesis by (auto simp: assemble_chunk_def Let_def bind_res_eq_Inr)
qed

lemma chunk_sealed:
  "assemble_chunk hw C e raw buckets transitions = Inr chunk \<Longrightarrow>
     ch_is_header_valid hw (chunk_header chunk) \<and> ch_is_data_valid hw (chunk_header chunk) (chunk_data chunk) \<and>
     ch_chunk_type (chunk_header chunk) = Inr Transposed"
  by (auto simp: assemble_chunk_def bind_res_eq_Inr Let_def)

text \<open>The decoder yields what remains to be read.\<close>

lemma transposed_yields: "decoder_ok d \<Longrightarrow> td_yields (transposed_decoder C) d (tc_remaining d)"
proof (induction "tc_remaining d" arbitrary: d)
  case Nil
  then have "tc_read_record d = Some (Inr None, d)" by (intro transposed_source.nxt_end) simp_all
  then show ?case unfolding Nil(1) [symmetric] by (simp add: transposed_decoder_def)
next
  case (Cons r rs)
  then obtain d' where "tc_read_record d = Some (Inr (Some r), d')" "decoder_ok d'" "tc_remaining d' = rs"
    using transposed_source.nxt_record [of d r rs] by auto
  then show ?case using Cons(1) [of d'] unfolding Cons(2) [symmetric] by (simp add: transposed_decoder_def)
qed

text \<open>What a transposed chunk was made of is what it holds.\<close>

lemma transposed_chunk_holds:
  assumes C: "lossless C" and ne: "rs \<noteq> []" and small: "accounted rs < transposed_limit"
    and fill: "fill_encoder (transposed_encoder hw C) (make_encoder (transposed_encoder hw C) True ct opts bucket) rs = Some e"
    and enc: "encoder_encode hw C (transposed_encoder hw C) e = Inr c" and data: "length (chunk_data c) < 2 ^ 63"
  shows "chunk_holds hw C (transposed_decoder C) None c rs"
proof -
  obtain t where t: "e = Transpose_Encoder t" "holds_records t rs"
    using transposed_filled [OF small, of hw C ct opts bucket] fill by auto
  obtain evs g states tags1 tags bytes where r: "ready t rs evs g states tags1 tags bytes"
    using transposed_ready [OF t(2) ne small] by blast
  have te: "te_encode hw C t = Some (Inr c)"
    using enc t(1) ready_encodes [OF r, of hw C] by (auto simp: transposed_encoder_def)
  then obtain raw buckets where parts: "assemble_chunk hw C t raw buckets bytes = Inr c"
    unfolding ready_encodes [OF r] by (auto simp: bind_res_eq_Inr)
  note n = held_sizes [OF t(2)] and seal = chunk_sealed [OF parts]
  have b: "length rs < 2 ^ 56" "length (concat rs) < 2 ^ 64" using small by (simp_all add: accounted_sum)
  let ?d = "\<lparr>tc_data = concat rs, tc_limits = ends_from rs 0, tc_next_yield = 0\<rparr>"
  have "tc_new C c = Some (Inr ?d)" by (rule ready_decodes [OF r ne C _ _ b te data]) (simp_all add: n)
  then have d: "td_new (transposed_decoder C) c None = Inr ?d" by (simp add: transposed_decoder_def tc_new_def)
  have "td_yields (transposed_decoder C) ?d rs"
    using transposed_yields [OF decoder_of_ends [of rs]] by (simp add: remaining_ends)
  moreover have "length rs = unat (ch_num_records (chunk_header c))"
    using chunk_of_parts [OF parts] n b(1) by (simp add: take_bit_of_nat take_bit_nat_eq_self unat_of_nat_u64)
  ultimately show ?thesis using seal d te_encode_frames [OF te] by (auto simp: chunk_holds_def)
qed

interpretation riegeli: transposed_format hw C "transposed_encoder hw C" "transposed_decoder C" transposed_limit
  for hw :: hasher and C :: codec
proof
  show "frames_chunks (transposed_encoder hw C)"
    using te_encode_frames by (auto simp: frames_chunks_def transposed_encoder_def split: option.splits)
qed (rule transposed_chunk_holds)

text \<open>The encoder always answers if the compressor does.\<close>

lemma transposed_answers:
  assumes "compressor_total C ct opts"
  shows "answers hw C (transposed_encoder hw C) transposed_limit True (make_encoder (transposed_encoder hw C) True ct opts bucket)"
  unfolding answers_def
proof (intro allI impI)
  fix rs
  assume "True \<longrightarrow> rs \<noteq> [] \<and> accounted rs < transposed_limit"
  then have rs: "rs \<noteq> []" "accounted rs < transposed_limit" by simp_all
  obtain t where t: "fill_encoder (transposed_encoder hw C) (make_encoder (transposed_encoder hw C) True ct opts bucket) rs =
      Some (Transpose_Encoder t)" "holds_records t rs" "te_compression t = ct" "te_compress_opts t = opts"
    using transposed_filled [OF rs(2)] by blast
  obtain evs c states tags1 tags bytes where r: "ready t rs evs c states tags1 tags bytes"
    using transposed_ready [OF t(2) rs] by blast
  obtain chunk where "te_encode hw C t = Some (Inr chunk)"
    using ready_succeeds [OF r, of C hw] assms t(3,4) by (auto simp: compressor_total_def)
  then have "encoder_encode hw C (transposed_encoder hw C) (Transpose_Encoder t) = Inr chunk" by (simp add: transposed_encoder_def)
  with t(1) show "\<exists>e c. fill_encoder (transposed_encoder hw C) (make_encoder (transposed_encoder hw C) True ct opts bucket) rs = Some e \<and>
      encoder_encode hw C (transposed_encoder hw C) e = Inr c" by blast
qed

lemma session_answers:
  assumes "compressor_total C (wo_compression o') \<lparr>opt_level = wo_compression_level o', opt_window_log = wo_window_log o'\<rparr>"
  shows "answers hw C (transposed_encoder hw C) transposed_limit (wo_transpose o') (session_encoder (transposed_encoder hw C) o')"
  unfolding session_encoder_def using transposed_answers [OF assms] answers_simple [OF assms] by (cases "wo_transpose o'") simp_all

lemma metadata_taken:
  assumes "compressor_total C (wo_compression o') \<lparr>opt_level = wo_compression_level o', opt_window_log = wo_window_log o'\<rparr>"
    and short: "\<And>m. wo_metadata o' = Some m \<Longrightarrow> length m + 8 < transposed_limit"
  shows "takes_metadata (transposed_encoder hw C) o'"
  unfolding takes_metadata_def
proof (intro allI impI)
  fix m
  assume m: "wo_metadata o' = Some m"
  let ?opts = "\<lparr>opt_level = wo_compression_level o', opt_window_log = wo_window_log o'\<rparr>"
  have same: "te_with_bucket_size (- 1) (te_with_compress_opts opts (te_new ct)) = te_with_compress_opts opts (te_new ct)" for opts ct
    by (simp add: te_with_bucket_size_def te_with_compress_opts_def te_new_def)
  let ?e0 = "make_encoder (transposed_encoder hw C) True (wo_compression o') ?opts (- 1)"
  have "accounted [m] < transposed_limit" using short [OF m] by simp
  then obtain e c where "fill_encoder (transposed_encoder hw C) ?e0 [m] = Some e" "encoder_encode hw C (transposed_encoder hw C) e = Inr c"
    using transposed_answers [OF assms(1), of hw "- 1", unfolded answers_def, rule_format, of "[m]"] by blast
  then show "\<exists>t c. tr_add_record (transposed_encoder hw C) m (tr_compress_opts (transposed_encoder hw C) ?opts
      (tr_new (transposed_encoder hw C) (wo_compression o'))) = (Inr (), t) \<and> tr_encode (transposed_encoder hw C) t = Inr c"
    by (auto simp: make_encoder_def transposed_encoder_def same split: prod.splits sum.splits option.splits)
qed

section \<open>A session of the writer\<close>

text \<open>Two records, one a message and one not, into a transposed chunk.\<close>

definition blank_hash :: hasher where
  "blank_hash key data = 0"

abbreviation sample_transposer :: "TransposeChunkEncoder transposer" where
  "sample_transposer \<equiv> transposed_encoder blank_hash store_codec"

abbreviation sample_transposed :: "TransposeChunkDecoder transposed" where
  "sample_transposed \<equiv> transposed_decoder store_codec"

definition sample_records :: "bytes list" where
  "sample_records = [[8, 5], [1]]"


declare grow_length.simps [code] grow_end.simps [code]

lemma sample_session_size:
  "(case writer_new blank_hash store_codec sample_transposer empty_sink (set_transpose True options_new) of
      Some (Inr w0, _) \<Rightarrow>
        (case run_ops (writer_step blank_hash store_codec sample_transposer) (map WriteRecord sample_records) w0 of
           Some (rs, w1) \<Rightarrow>
             (case close blank_hash store_codec sample_transposer w1 of Some (Inr _, s) \<Rightarrow> length (out_bytes s) < 1000 | _ \<Rightarrow> False)
         | None \<Rightarrow> False)
    | _ \<Rightarrow> False)"
  by code_simp

lemma sample_valid: "validate_options (set_transpose True options_new) = Inr ()"
  by code_simp

lemma sample_short: "\<forall>r \<in> set sample_records. length r < 100"
  by (simp add: sample_records_def)

lemma sample_below: "100 \<le> n \<Longrightarrow> \<forall>r \<in> set sample_records. length r < n"
  using sample_short by (auto dest!: bspec)

lemma length_sample: "length sample_records = 2"
  by (simp add: sample_records_def)

lemma sample_session:
  "\<exists>w0 s1 w1 s. writer_new blank_hash store_codec sample_transposer empty_sink (set_transpose True options_new) = Some (Inr w0, s1) \<and>
    run_ops (writer_step blank_hash store_codec sample_transposer) (map WriteRecord sample_records) w0 = Some ([Inr (), Inr ()], w1) \<and>
    close blank_hash store_codec sample_transposer w1 = Some (Inr (), s) \<and> length (out_bytes s) < 1000"
proof -
  have "\<exists>w0 s1 w1 s. writer_new blank_hash store_codec sample_transposer empty_sink (set_transpose True options_new) = Some (Inr w0, s1) \<and>
    run_ops (writer_step blank_hash store_codec sample_transposer) (map WriteRecord sample_records) w0 =
      Some (replicate (length (map WriteRecord sample_records)) (Inr ()), w1) \<and>
    close blank_hash store_codec sample_transposer w1 = Some (Inr (), s)"
    by (rule live_session [OF _ _ session_answers _ _ sample_valid])
      (simp_all add: set_transpose_def options_new_def empty_sink_def compressor_total_None takes_metadata_def
        DEFAULT_CHUNK_SIZE_def written_records sample_below)
  then obtain w0 s1 w1 s where s:
    "writer_new blank_hash store_codec sample_transposer empty_sink (set_transpose True options_new) = Some (Inr w0, s1)"
    "run_ops (writer_step blank_hash store_codec sample_transposer) (map WriteRecord sample_records) w0 = Some ([Inr (), Inr ()], w1)"
    "close blank_hash store_codec sample_transposer w1 = Some (Inr (), s)"
    unfolding length_map by (auto simp: numeral_2_eq_2 length_sample)
  moreover have "length (out_bytes s) < 1000" using sample_session_size by (simp add: s)
  ultimately show ?thesis by blast
qed

lemma sample_bounds:
  "\<forall>r \<in> set (written (map WriteRecord sample_records)). length r < 2 ^ 62"
  "\<forall>r \<in> set (written (map WriteRecord sample_records)). length r + 8 < transposed_limit"
  "unat (wo_chunk_size (set_transpose True options_new)) < transposed_limit"
  "unat (wo_final_padding (set_transpose True options_new)) \<le> 2 ^ 45"
  using sample_short by (fastforce simp: written_records set_transpose_def options_new_def DEFAULT_CHUNK_SIZE_def)+

section \<open>Properties\<close>

text \<open>C1. What was written is what is read, in both modes of the writer.  After a successful writer session,
  reading the file from a source that may be short or interrupted but does not fail yields the records
  written, all of them, in order, unchanged, and then the end of the file.  For a writer of simple chunks
  the options of the reader are arbitrary; for one of transposed chunks the chunk-size threshold and each record with its
  8 bytes of overhead are below \<open>2 ^ 28\<close> bytes and the reader has no field projection, which would drop fields.\<close>

theorem session_roundtrip:
  fixes ro :: "'c ReaderOptions"
  assumes "writer_new hw C (transposed_encoder hw C) s0 o' = Some (Inr w0, s1)" and "out_bytes s0 = []"
    and "run_ops (writer_step hw C (transposed_encoder hw C)) xs w0 = Some (rs, w1)" and "\<forall>r \<in> set rs. r = Inr ()"
    and "close hw C (transposed_encoder hw C) w1 = Some (Inr (), s)"
    and "\<forall>r \<in> set (written xs). length r < 2 ^ 62" and "unat (wo_final_padding o') \<le> 2 ^ 45"
    and "length (out_bytes s) \<le> 2 ^ 63"
    and "wo_transpose o' \<Longrightarrow> unat (wo_chunk_size o') < transposed_limit \<and>
      (\<forall>r \<in> set (written xs). length r + 8 < transposed_limit) \<and> ro_field_projection ro = None"
    and "lossless C" and "calm r0" and "src_bytes r0 = out_bytes s"
  shows "\<exists>rd. reader_new hw r0 ro = Some (Inr rd) \<and>
    drain (read_record hw C (transposed_decoder C)) (length (written xs) + 1) rd = Some (written xs)"
  by (rule riegeli.session_reads [OF assms])

lemma session_roundtrip_witness:
  "\<exists>w0 s1 w1 s rd. writer_new blank_hash store_codec sample_transposer empty_sink (set_transpose True options_new) = Some (Inr w0, s1) \<and>
    run_ops (writer_step blank_hash store_codec sample_transposer) [WriteRecord [8, 5], WriteRecord [1]] w0 = Some ([Inr (), Inr ()], w1) \<and>
    close blank_hash store_codec sample_transposer w1 = Some (Inr (), s) \<and>
    reader_new blank_hash (sample_source (out_bytes s)) (reader_options_new :: unit ReaderOptions) = Some (Inr rd) \<and>
    drain (read_record blank_hash store_codec sample_transposed) 3 rd = Some [[8, 5], [1]]"
proof -
  obtain w0 s1 w1 s where s:
    "writer_new blank_hash store_codec sample_transposer empty_sink (set_transpose True options_new) = Some (Inr w0, s1)"
    "run_ops (writer_step blank_hash store_codec sample_transposer) (map WriteRecord sample_records) w0 = Some ([Inr (), Inr ()], w1)"
    "close blank_hash store_codec sample_transposer w1 = Some (Inr (), s)" "length (out_bytes s) < 1000"
    using sample_session by blast
  have "\<exists>rd. reader_new blank_hash (sample_source (out_bytes s)) (reader_options_new :: unit ReaderOptions) = Some (Inr rd) \<and>
    drain (read_record blank_hash store_codec sample_transposed) (length (written (map WriteRecord sample_records)) + 1) rd =
      Some (written (map WriteRecord sample_records))"
    by (rule session_roundtrip [OF s(1) _ s(2) _ s(3) sample_bounds(1,4)])
      (use s(4) sample_bounds(2,3) in \<open>simp_all add: empty_sink_def lossless_store_codec reader_options_new_def\<close>)
  then show ?thesis using s(1-3) unfolding written_records length_sample by (auto simp: sample_records_def)
qed

text \<open>C16. From file to file.  Filtering the records in front of a reader, whatever file they come from, into a new writer that is
  then closed gives a file whose records are the filtered records, whatever source that does not fail it is read from.  The writer
  may write simple or transposed chunks, the latter with a chunk-size threshold and filtered records below \<open>2 ^ 28\<close> bytes
  and read without a field projection.\<close>

theorem filtered_file_roundtrip:
  fixes T :: "'t transposed" and ro :: "'c ReaderOptions"
  assumes "at_records tol hw C T pj prs rd" and "list_all (\<lambda>r. \<not> refused r) (map snd prs)"
    and "writer_new hw C (transposed_encoder hw C) s0 o' = Some (Inr w0, s1)" and "out_bytes s0 = []"
    and "filter_fields_to_writer hw C T (transposed_encoder hw C) rd w0 field_numbers = Some (Inr (), rd1, w1)"
    and "close hw C (transposed_encoder hw C) w1 = Some (Inr (), s)"
    and "\<And>r out. r \<in> snd ` set prs \<Longrightarrow> filtered field_numbers r out \<Longrightarrow> length out < 2 ^ 62"
    and "unat (wo_final_padding o') \<le> 2 ^ 45" and "length (out_bytes s) \<le> 2 ^ 63"
    and "wo_transpose o' \<Longrightarrow> unat (wo_chunk_size o') < transposed_limit \<and>
      (\<forall>r out. r \<in> snd ` set prs \<longrightarrow> filtered field_numbers r out \<longrightarrow> length out + 8 < transposed_limit) \<and>
      ro_field_projection ro = None"
    and "lossless C" and "calm r0" and "src_bytes r0 = out_bytes s"
  shows "\<exists>outs rd2. list_all2 (filtered field_numbers) (map snd prs) outs \<and>
    reader_new hw r0 ro = Some (Inr rd2) \<and>
    drain (read_record hw C (transposed_decoder C)) (length outs + 1) rd2 = Some outs"
  by (rule riegeli.filtered_file_reads [OF assms])

text \<open>The sample file through the filter that keeps the only field there is.\<close>

lemma sample_classified:
  "is_proto_message [8, 5]" "\<not> is_proto_message [1]" "\<not> is_parseable_proto_message [1]"
  by code_simp+

lemma sample_filtered: "filter_body hw C T [1] i r w = write_record hw C T r w" if "r \<in> set sample_records"
proof -
  have "(case copy_fields [8, 5] [1] mw_new of (Inl e, _) \<Rightarrow> False | (Inr _, m) \<Rightarrow> finish m = Inr [8, 5])"
    by code_simp
  then show ?thesis using that sample_classified
    by (auto simp: filter_body_def sample_records_def split: prod.splits sum.splits)
qed

lemma filtered_length: "filtered nums r out \<Longrightarrow> length out \<le> length r"
proof -
  have "length (message_bytes (filter P ns)) \<le> length (message_bytes ns)" for P ns
    by (induction ns) auto
  then show "filtered nums r out \<Longrightarrow> length out \<le> length r" by (auto simp: filtered_def split: if_splits)
qed

lemma filtered_file_roundtrip_witness:
  "\<exists>w0 (rd :: (TransposeChunkDecoder, unit) RecordReader) rd1 w1 s outs (rd2 :: (TransposeChunkDecoder, unit) RecordReader).
    filter_fields_to_writer blank_hash store_codec sample_transposed sample_transposer rd w0 [1] = Some (Inr (), rd1, w1) \<and>
    close blank_hash store_codec sample_transposer w1 = Some (Inr (), s) \<and>
    list_all2 (filtered [1]) sample_records outs \<and>
    reader_new blank_hash (sample_source (out_bytes s)) reader_options_new = Some (Inr rd2) \<and>
    drain (read_record blank_hash store_codec sample_transposed) (length outs + 1) rd2 = Some outs"
proof -
  obtain w0 s1 w1 s where s:
    "writer_new blank_hash store_codec sample_transposer empty_sink (set_transpose True options_new) = Some (Inr w0, s1)"
    "run_ops (writer_step blank_hash store_codec sample_transposer) (map WriteRecord sample_records) w0 = Some ([Inr (), Inr ()], w1)"
    "close blank_hash store_codec sample_transposer w1 = Some (Inr (), s)" "length (out_bytes s) < 1000"
    using sample_session by blast
  have "\<exists>(rd :: (TransposeChunkDecoder, unit) RecordReader) prs.
      reader_new blank_hash (sample_source (out_bytes s)) reader_options_new = Some (Inr rd) \<and>
      at_records False blank_hash store_codec sample_transposed (ro_field_projection (reader_options_new :: unit ReaderOptions)) prs rd \<and>
      map snd prs = written (map WriteRecord sample_records)"
    by (rule riegeli.session_opens [OF s(1) _ s(2) _ s(3) sample_bounds(1,4)])
      (use s(4) sample_bounds(2,3) in \<open>simp_all add: empty_sink_def lossless_store_codec reader_options_new_def\<close>)
  then obtain rd :: "(TransposeChunkDecoder, unit) RecordReader" and pj prs where
    rd: "at_records False blank_hash store_codec sample_transposed pj prs rd" "map snd prs = sample_records"
    unfolding written_records by blast
  have "run_records (filter_body blank_hash store_codec sample_transposer [1]) 0 sample_records w0 = (Inr (), w1)"
    using s(2) sample_filtered [of _ blank_hash store_codec sample_transposer]
    by (auto simp: sample_records_def split: prod.splits sum.splits)
  then obtain rd1 where f: "filter_fields_to_writer blank_hash store_codec sample_transposed sample_transposer rd w0 [1] =
      Some (Inr (), rd1, w1)"
    using for_records_file [OF rd(1), of "filter_body blank_hash store_codec sample_transposer [1]" w0]
    unfolding filter_fields_to_writer_def rd(2) by auto
  have set: "snd ` set prs = set sample_records" using rd(2) by (metis set_map)
  have ok: "list_all (\<lambda>r. \<not> refused r) (map snd prs)"
    unfolding rd(2) using sample_classified by (simp add: sample_records_def refused_def)
  have short: "length out < 100" if "r \<in> snd ` set prs" "filtered [1] r out" for r out
    using that sample_short filtered_length [OF that(2)] unfolding set by fastforce
  have lim: "length out < 2 ^ 62" "length out + 8 < transposed_limit" if "r \<in> snd ` set prs" "filtered [1] r out" for r out
    using short [OF that] by simp_all
  have "\<exists>outs (rd2 :: (TransposeChunkDecoder, unit) RecordReader). list_all2 (filtered [1]) (map snd prs) outs \<and>
      reader_new blank_hash (sample_source (out_bytes s)) reader_options_new = Some (Inr rd2) \<and>
      drain (read_record blank_hash store_codec sample_transposed) (length outs + 1) rd2 = Some outs"
    by (rule filtered_file_roundtrip [OF rd(1) ok s(1) _ f s(3) lim(1) sample_bounds(4)])
      (use s(4) lim(2) sample_bounds(3) in \<open>simp_all add: empty_sink_def lossless_store_codec reader_options_new_def\<close>)
  with f s(3) show ?thesis unfolding rd(2) by blast
qed

text \<open>C25. When every operation of a session succeeded and the writer was closed, the file is the
  signature followed by a list of chunks, laid out as the format says.  The chunks are what the encoder of the writer's mode,
  simple or transposed, makes of exactly the records written, in their order, each chunk within the chunk-size threshold
  unless it holds a single record; everything was flushed to the sink; and the file size is a multiple of the final
  padding.\<close>

theorem writer_session_file:
  assumes "writer_new hw C (transposed_encoder hw C) s0 o' = Some (Inr w0, s1)" and "out_bytes s0 = []"
    and "run_ops (writer_step hw C (transposed_encoder hw C)) xs w0 = Some (rs, w1)" and "\<forall>r \<in> set rs. r = Inr ()"
    and "close hw C (transposed_encoder hw C) w1 = Some (Inr (), s)"
    and "\<forall>r \<in> set (written xs). length r < 2 ^ 62" and "unat (wo_final_padding o') \<le> 2 ^ 45"
    and "length (out_bytes s) \<le> 2 ^ 63"
  shows "\<exists>cs groups. out_bytes s = file_image hw 0 (signature_chunk hw # cs) \<and>
    list_all2 (carries hw C (transposed_encoder hw C) (session_encoder (transposed_encoder hw C) o')
      (min (unat (wo_chunk_size o')) (8 * (2 ^ 56 - 1)))) cs groups \<and>
    concat groups = written xs \<and>
    (0 < wo_final_padding o' \<longrightarrow> unat (wo_final_padding o') dvd length (out_bytes s)) \<and>
    out_flushed s = length (out_bytes s)"
  using assms riegeli.framed by (intro session_image) simp_all

lemma writer_session_file_witness:
  "\<exists>w0 s1 w1 s cs groups. writer_new blank_hash store_codec sample_transposer empty_sink (set_transpose True options_new) = Some (Inr w0, s1) \<and>
    run_ops (writer_step blank_hash store_codec sample_transposer) (map WriteRecord sample_records) w0 = Some ([Inr (), Inr ()], w1) \<and>
    close blank_hash store_codec sample_transposer w1 = Some (Inr (), s) \<and>
    out_bytes s = file_image blank_hash 0 (signature_chunk blank_hash # cs) \<and> concat groups = sample_records"
proof -
  obtain w0 s1 w1 s where s:
    "writer_new blank_hash store_codec sample_transposer empty_sink (set_transpose True options_new) = Some (Inr w0, s1)"
    "run_ops (writer_step blank_hash store_codec sample_transposer) (map WriteRecord sample_records) w0 = Some ([Inr (), Inr ()], w1)"
    "close blank_hash store_codec sample_transposer w1 = Some (Inr (), s)" "length (out_bytes s) < 1000"
    using sample_session by blast
  have "out_bytes empty_sink = []" "\<forall>r \<in> set [Inr (), Inr ()]. r = (Inr () :: unit res)" "length (out_bytes s) \<le> 2 ^ 63"
    using s(4) by (simp_all add: empty_sink_def)
  from writer_session_file [OF s(1) this(1) s(2) this(2) s(3) sample_bounds(1,4) this(3)] s(1-3) show ?thesis
    unfolding written_records by blast
qed

text \<open>C37. When a session cannot fail: the sink has no faults, no final padding is requested, the options are valid and
  the compressor always answers.  Then opening, every operation and closing answer with success, whatever the records and their
  number.  In transposed mode the chunk-size threshold and each record with its 8 bytes of overhead are below \<open>2 ^ 28\<close> bytes,
  and in both modes so is the metadata, which is always encoded as a transposed chunk.\<close>

theorem writer_session_succeeds:
  assumes "out_faults s0 = []" and "wo_final_padding o' = 0"
    and "compressor_total C (wo_compression o') \<lparr>opt_level = wo_compression_level o', opt_window_log = wo_window_log o'\<rparr>"
    and "validate_options o' = Inr ()"
    and "wo_transpose o' \<Longrightarrow> unat (wo_chunk_size o') < transposed_limit \<and> (\<forall>r \<in> set (written xs). length r + 8 < transposed_limit)"
    and "\<And>m. wo_metadata o' = Some m \<Longrightarrow> length m + 8 < transposed_limit"
  shows "\<exists>w0 s1 w1 s. writer_new hw C (transposed_encoder hw C) s0 o' = Some (Inr w0, s1) \<and>
    run_ops (writer_step hw C (transposed_encoder hw C)) xs w0 = Some (replicate (length xs) (Inr ()), w1) \<and>
    close hw C (transposed_encoder hw C) w1 = Some (Inr (), s)"
  by (rule live_session [OF assms(1,2) session_answers [OF assms(3)] _ metadata_taken [OF assms(3,6)] assms(4)])
    (use assms(5) in simp_all)

lemma writer_session_succeeds_witness:
  "\<exists>w0 s1 w1 s. writer_new sample_hash store_codec (transposed_encoder sample_hash store_codec) empty_sink
      (set_metadata (\<lambda>m. m) [10, 1, 65] (set_transpose True options_new)) = Some (Inr w0, s1) \<and>
    run_ops (writer_step sample_hash store_codec (transposed_encoder sample_hash store_codec)) [WriteRecord [8, 5], Flush, WriteRecord []] w0
      = Some (replicate 3 (Inr ()), w1) \<and>
    close sample_hash store_codec (transposed_encoder sample_hash store_codec) w1 = Some (Inr (), s)"
proof -
  let ?o = "set_metadata (\<lambda>m. m) [10, 1, 65] (set_transpose True options_new)"
  have "validate_options ?o = Inr ()" by code_simp
  from writer_session_succeeds [OF _ _ _ this, of empty_sink store_codec "[WriteRecord [8, 5], Flush, WriteRecord []]" sample_hash]
  show ?thesis
    by (simp add: empty_sink_def set_metadata_def set_transpose_def options_new_def compressor_total_None
        DEFAULT_CHUNK_SIZE_def written_def numeral_3_eq_3)
qed

end
