(* ===== verification/Spec2Isabelle.thy ===== *)
theory Spec2Isabelle
  imports Varint BlockArithmetic BlockHeader ChunkHeader RecordPosition SimpleChunk WriterSession Wire ReaderRecovery ProtoStream TransposeRecords TransposedFiles
begin

text \<open>
  A verification development of riegeli-rs, a Rust implementation of the Riegeli/records file format
  (all sources are under \<^verbatim>\<open>riegeli/src/\<close>).  A file is a sequence of records.  Records are
  grouped into chunks; a chunk has a header of 40 bytes and its data; every 64 KiB the file has a
  block header of 24 bytes, which cuts through the chunks and says where the chunk around it begins
  and ends.  A writer lays the chunks out, a reader finds them again, and when the file is damaged
  it uses the block headers to find the next chunk.

  \<^bold>\<open>The theories, in the order of the code.\<close>

  \<^item> \<open>Prelude\<close>: results \<open>error + 'a\<close>, state actions (\<open>then_do\<close>, \<open>ret\<close>, \<open>fail_with\<close>), checked and
    saturating arithmetic of Rust on \<open>u64\<close>, little-endian words, slices.  \<open>Errors\<close>: the error type and
    its messages (\<^verbatim>\<open>error.rs\<close>).
  \<^item> \<open>Varint\<close> (\<^verbatim>\<open>varint.rs\<close>): the LEB128 codecs.
  \<^item> \<open>BlockArithmetic\<close> (\<^verbatim>\<open>block_arithmetic.rs\<close>, \<^verbatim>\<open>constants.rs\<close>): positions, distances and chunk ends
    across block headers, on 64-bit words, against a closed form on the naturals.
  \<^item> \<open>HeaderWire\<close>, \<open>BlockHeader\<close>, \<open>ChunkHeader\<close> (\<^verbatim>\<open>hash.rs\<close>, \<^verbatim>\<open>block_header.rs\<close>, \<^verbatim>\<open>chunk_header.rs\<close>): the two
    headers; their common contract is the locale of \<open>HeaderWire\<close>.
  \<^item> \<open>RecordPosition\<close> (\<^verbatim>\<open>record_position.rs\<close>, \<^verbatim>\<open>skipped_region.rs\<close>).
  \<^item> \<open>Compression\<close> (\<^verbatim>\<open>compression.rs\<close>): framing, caps and dispatch over a parameter \<open>codec\<close>.
  \<^item> \<open>SimpleChunk\<close> (\<^verbatim>\<open>simple_chunk.rs\<close>): the encoder and decoder of chunks of records.  The locales
    \<open>record_stream\<close> and \<open>record_source\<close> state what a source of records promises.
  \<^item> \<open>BlockStream\<close>, \<open>RecordWriter\<close>, \<open>WriterLayout\<close>, \<open>WriterPadding\<close>, \<open>WriterSession\<close>
    (\<^verbatim>\<open>record_writer.rs\<close>): bytes interleaved with block headers; the operations of the writer; what
    they append to the sink; padding; whole sessions.
  \<^item> \<open>Source\<close>, \<open>Iteration\<close>, \<open>FieldProjection\<close>, \<open>RecordReader\<close>, \<open>ReaderScan\<close>, \<open>ReaderLayout\<close>, \<open>ReaderSession\<close>,
    \<open>ReaderSeek\<close>, \<open>ReaderRecovery\<close> (\<^verbatim>\<open>record_reader.rs\<close>, \<^verbatim>\<open>field_projection.rs\<close>): the byte source with its
    faults; loops that may not return; the operations of the reader; what they find in a well-formed
    file; what recovery skips in a damaged one.
  \<^item> \<open>Wire\<close>, \<open>FieldIter\<close>, \<open>MessageWriter\<close>, \<open>Handlers\<close>, \<open>ProtoStream\<close> (\<^verbatim>\<open>proto/wire.rs\<close>, \<^verbatim>\<open>field_iter.rs\<close>,
    \<^verbatim>\<open>writer.rs\<close>, \<^verbatim>\<open>handler.rs\<close>, \<^verbatim>\<open>stream.rs\<close>): tags, canonical varints and the recognisers of protobuf
    messages; the field iterator; the message writer with its scopes; sets of field handlers; reading,
    filtering and collecting columns over a file of messages.
  \<^item> \<open>Panics\<close>, \<open>TransposeInternal\<close>, \<open>TransposeParse\<close>, \<open>TransposeMachine\<close> (\<^verbatim>\<open>transpose/internal.rs\<close>,
    \<^verbatim>\<open>transpose/decoder.rs\<close>): computations that may panic; the header and the buckets of a transposed
    chunk; the nodes, their actions and the loop over the transitions.  \<open>TransposeLoop\<close>,
    \<open>TransposeBuckets\<close>, \<open>TransposeSafety\<close>, \<open>TransposeRecords\<close>: the check for implicit loops, the cutting
    of the buffers, that no step is out of range, and what is read.
  \<^item> \<open>OrderedMap\<close>, \<open>EncoderState\<close>, \<open>EncoderMachine\<close>, \<open>EncoderChunk\<close> (\<^verbatim>\<open>transpose/encoder.rs\<close>): the ordered
    maps of the tags; adding records; building the state machine; the buffers, the header and the chunk.
    \<open>TransitionBytes\<close>, \<open>EncoderLists\<close>, \<open>EncoderRoutes\<close>, \<open>EncoderCounts\<close>, \<open>EncoderTables\<close>, \<open>EncoderPlaces\<close>,
    \<open>EncoderBases\<close>, \<open>EncoderWalk\<close>, \<open>EncoderTransitions\<close>: the transition bytes as offsets; the lists of
    states and their blocks; the ways through the blocks; the counts of the transitions; which
    transitions the private lists serve; where the states are; the bases; the walk the bytes describe.
    \<open>EncoderEvents\<close>, \<open>EncoderRecords\<close>, \<open>EncoderAdding\<close>, \<open>EncoderBuffers\<close>, \<open>EncoderReplay\<close>: what the encoder
    logs for a record, as events; that playing the events backward gives the records again; that the
    sorted buffers hold the bytes of the events; that the decoder's actions along these tags play them.
    \<open>EncoderBuckets\<close>, \<open>EncoderHeader\<close>, \<open>EncoderNodes\<close>, \<open>EncoderRoundtrip\<close>: the buckets that the decoder
    cuts up again; the header as it is read back; the nodes built from it; the whole way of the records
    through a chunk.
  \<^item> \<open>TransposedFiles\<close>: the encoder and the decoder of transposed chunks as the ones of the writer and the
    reader (\<^verbatim>\<open>ActiveEncoder\<close>, \<^verbatim>\<open>ActiveDecoder\<close>), and whole sessions in both modes of the writer.

  \<^bold>\<open>State and effects.\<close>  \<open>RecordWriter\<close> and \<open>RecordReader\<close> are records with the fields of the Rust
  structs, in their order; an operation takes the record and returns it updated with the result.
  The sink of the writer is a byte list with a script of faults; the source of the reader is a byte
  list with a position and a script of short reads, interruptions, errors and changes of the file.
  Every \<open>Err\<close>, \<open>?\<close> and early return is a branch of the model; a panic or a loop that does not return
  is \<open>None\<close>.  Unsigned integers are words of their width.  Where the source has a plain \<open>+\<close> the model wraps,
  as a release build does.

  \<^bold>\<open>What is shown.\<close>  The codecs are inverse to their decoders and the decoders accept exactly the
  documented forms.  The block arithmetic is its closed form and is inverted by its distance.  A
  writer session, of simple or of transposed chunks, leaves the image of a list of chunks that carry the
  records written; it succeeds under the conditions below; and after an error no operation touches the
  sink, not even closing or dropping the writer.  Reading such a file, from any source that does not fail,
  yields those records in order.  In any file of chunks that a decoder accepts (\<open>chunk_holds\<close>: simple,
  transposed, and those without records), each record is read with its position, seeking to the position returns
  to the record, and the size is the number of records; the format check of a file laid out as chunks decides
  whether all hashes match.  On any bytes the reader returns, and the region it reports as skipped is disjoint
  from the one before.  The field iterator and the recognisers accept exactly the grammar, the writer
  writes it.  The decoder of transposed chunks returns on any bytes without a panic; the encoder builds a
  state machine for any tags, and its transitions lead through exactly these tags; what is put into a
  transposed chunk, messages or not, is read from it again.

  \<^bold>\<open>How the two kinds of chunks meet.\<close>  The models of the writer and of the reader take the encoder and
  the decoder of transposed chunks as a record of functions (\<open>transposer\<close>, \<open>transposed\<close>).  The locale
  \<open>transposed_format\<close> of \<open>ReaderSession\<close> states what they promise each other, the sessions are proved once inside it, and
  \<open>TransposedFiles\<close> interprets it by \<open>te_new\<close>, \<open>te_add_record\<close>, \<open>te_encode\<close>, \<open>tc_new_with_projection\<close> and
  \<open>tc_read_record\<close>, the models of the code; the properties of sessions are stated on these.  What holds for every encoder or
  decoder (failures, recovery, seeking, counting) is stated with the record as a variable.

  \<^bold>\<open>Bounds.\<close>  Files of at most \<open>2 ^ 63\<close> bytes, where no position wraps; records below \<open>2 ^ 62\<close> bytes; a final
  padding up to \<open>2 ^ 45\<close>; transposed chunks with less than \<open>2 ^ 29\<close> records and twice the bytes, for which a session in
  transposed mode has a chunk-size threshold below \<open>2 ^ 28\<close> (the default is \<open>2 ^ 20\<close>) and records of at most \<open>2 ^ 28 - 9\<close> bytes;
  such a file is read without a field projection, which would drop fields.  That a session succeeds needs a sink without faults,
  valid options, no final padding, a compressor that always answers and metadata below \<open>2 ^ 28 - 8\<close> bytes.  No operation has fuel: loops are structural, have a measure, or are
  \<open>iterate\<close> of their body, where returning is a theorem.  The positions and indices of the encoder are
  naturals with \<open>NO_POS = 2 ^ 32 - 1\<close>; its theorems assume tables below that.  A subtraction that would
  underflow and an index out of range are \<open>None\<close>.

  \<^bold>\<open>Parameters.\<close>  The hash function (crate \<^verbatim>\<open>highway\<close>), the compressors (\<^verbatim>\<open>brotli\<close>, \<^verbatim>\<open>zstd\<close>, \<^verbatim>\<open>snap\<close>), the
  parser of the metadata message (\<^verbatim>\<open>protobuf\<close>).

  \<^bold>\<open>Not modelled.\<close>  The generated code in \<^verbatim>\<open>proto_generated/\<close>, the re-exports of \<^verbatim>\<open>lib.rs\<close>, the C++
  bridge \<^verbatim>\<open>riegeli-ffi/\<close>; the variable parts of error messages; \<open>Debug\<close> output.
\<close>

end
